(* ===== verification/Prelude.thy ===== *)
theory Prelude
  imports "HOL-Library.Word" "HOL-Library.Multiset" "HOL-Library.List_Lexorder"
begin

text \<open>
  Shared types, collections and list/word facts of the development.

  \<^item> \<open>u8\<close>, \<open>u32\<close>, \<open>u64\<close> are the machine integers of the sources; a \<open>tuple\<close> is a fact
    (one \<open>u32\<close> per column) and \<open>bytes\<close> a byte string.
  \<^item> An \<open>allocator\<close> answers, for a call site and a size in bytes, whether \<open>malloc\<close>,
    \<open>calloc\<close> or \<open>realloc\<close> returns memory there: every operation that allocates takes one,
    so that its out-of-memory branches are branches of the model, and every theorem is
    about all allocators.
  \<^item> \<open>List_Lexorder\<close> makes \<open><\<close> on \<open>tuple\<close> and on \<open>bytes\<close> the lexicographic order.
\<close>

unbundle bit_operations_syntax

type_synonym u8 = "8 word"
type_synonym u32 = "32 word"
type_synonym u64 = "64 word"
type_synonym tuple = "u32 list"
type_synonym bytes = "u8 list"
type_synonym allocator = "string \<Rightarrow> nat \<Rightarrow> bool"

text \<open>The allocator that never refuses.\<close>

definition generous :: "allocator \<Rightarrow> bool" where
  "generous al \<longleftrightarrow> (\<forall>site n. al site n)"

named_theorems codec "encoders, decoders and the lengths of what they produce"
named_theorems inv_intros "introduction rules of the components' invariants"

subsection \<open>Lists updated by index\<close>

lemma nth_list_update_if [simp]:
  "i < length xs \<Longrightarrow> xs[j := x] ! i = (if i = j then x else xs ! i)"
  by (auto simp: nth_list_update)

definition swap_at :: "'a list \<Rightarrow> nat \<Rightarrow> nat \<Rightarrow> 'a list" where
  "swap_at xs i j = xs[i := xs ! j, j := xs ! i]"

lemma length_swap_at [simp]: "length (swap_at xs i j) = length xs"
  by (simp add: swap_at_def)

lemma nth_swap_at [simp]:
  "\<lbrakk>i < length xs; j < length xs; k < length xs\<rbrakk> \<Longrightarrow>
   swap_at xs i j ! k = (if k = i then xs ! j else if k = j then xs ! i else xs ! k)"
  by (auto simp: swap_at_def)

lemma mset_swap_at [simp]:
  "\<lbrakk>i < length xs; j < length xs\<rbrakk> \<Longrightarrow> mset (swap_at xs i j) = mset xs"
  by (simp add: swap_at_def mset_swap)

lemma set_take_image: "e \<le> length xs \<Longrightarrow> set (take e xs) = (!) xs ` {..<e}"
  by (simp add: nth_image [symmetric] atLeast0LessThan)

lemma length_filter_list_update:
  assumes "i < length xs" "\<not> P (xs ! i)" "P x"
  shows "length (filter P (xs[i := x])) = Suc (length (filter P xs))"
proof -
  have "xs = take i xs @ xs ! i # drop (Suc i) xs"
    using assms(1) by (simp add: id_take_nth_drop)
  then have "length (filter P xs) = length (filter P (take i xs)) + length (filter P (drop (Suc i) xs))"
    using assms(2) by (metis (no_types, lifting) filter.simps(2) filter_append length_append)
  moreover have "length (filter P (xs[i := x])) =
      length (filter P (take i xs)) + Suc (length (filter P (drop (Suc i) xs)))"
    using assms(1,3) by (simp add: upd_conv_take_nth_drop)
  ultimately show ?thesis by simp
qed

subsection \<open>Word ranges\<close>

lemma unat_u8_less: "unat (x :: u8) < 2 ^ 8"
  using unsigned_less [of x] by simp

lemma unat_u32_less: "unat (x :: u32) < 2 ^ 32"
  using unsigned_less [of x] by simp

lemma unat_u64_less: "unat (x :: u64) < 2 ^ 64"
  using unsigned_less [of x] by simp

subsection \<open>Masks of a power of two\<close>

lemma and_pow2_mask: "(x :: nat) AND (2 ^ n - Suc 0) = x mod 2 ^ n"
  by (metis One_nat_def mask_eq_exp_minus_1 take_bit_eq_mask take_bit_eq_mod)

lemma and_le_right: "(x :: nat) AND y \<le> y"
  by (metis and_nat_def nat_le_iff of_nat_0_le_iff AND_upper2)

end
