(* ===== verification/Probe.thy ===== *)
theory Probe
  imports Prelude
begin

text \<open>
  Open addressing with linear probing, the hash-table scheme of \<^verbatim>\<open>zig/src/tupleset.zig\<close> and
  \<^verbatim>\<open>zig/src/termstore.zig\<close>.  \<open>probe\<close> is the loop both files write
  (\<^verbatim>\<open>idx = hash & (cap-1); while (tab[idx] is occupied) { if match return; idx = (idx+1) & (cap-1); }\<close>);
  \<open>fnv_u32\<close> is the FNV-1a step over one \<open>u32\<close>, lowest byte first.  A probe that has looked at
  every slot without finding an empty one or a match would go round forever in the source;
  fuel equal to the capacity makes that case, and only that case, the value \<open>None\<close>.
  The locale \<open>linear_probing\<close> proves the scheme correct once for any key type and any home
  slot; the two components interpret it.
\<close>

subsection \<open>FNV-1a\<close>

definition FNV_OFFSET :: u64 where "FNV_OFFSET = 14695981039346656037"
definition FNV_PRIME :: u64 where "FNV_PRIME = 1099511628211"

definition fnv_byte :: "u64 \<Rightarrow> u64 \<Rightarrow> u64" where
  "fnv_byte h b = (h XOR (b AND 0xFF)) * FNV_PRIME"

definition fnv_u32 :: "u64 \<Rightarrow> u32 \<Rightarrow> u64" where
  "fnv_u32 h x = (let v = (ucast x :: u64) in
     fnv_byte (fnv_byte (fnv_byte (fnv_byte h v) (drop_bit 8 v)) (drop_bit 16 v)) (drop_bit 24 v))"

subsection \<open>The probing loop\<close>

fun probe :: "nat \<Rightarrow> ('e \<Rightarrow> bool) \<Rightarrow> ('e \<Rightarrow> bool) \<Rightarrow> 'e list \<Rightarrow> nat \<Rightarrow> (bool \<times> nat) option" where
  "probe 0 emp hit tab i = None"
| "probe (Suc f) emp hit tab i =
     (if emp (tab ! i) then Some (False, i)
      else if hit (tab ! i) then Some (True, i)
      else probe f emp hit tab ((i + 1) AND (length tab - 1)))"

text \<open>The table as its keys: an empty slot is \<open>None\<close>.\<close>

lemma probe_map:
  assumes "\<And>e. e \<in> set tab \<Longrightarrow> emp e = (key e = None)"
    and "\<And>e. e \<in> set tab \<Longrightarrow> hit e = P (key e)" and "i < length tab"
  shows "probe f emp hit tab i = probe f (\<lambda>k. k = None) P (map key tab) i"
  using assms(3)
proof (induction f arbitrary: i)
  case (Suc f)
  have "(i + 1) AND (length tab - 1) < length tab"
    using and_le_right [of "i + 1" "length tab - 1"] Suc.prems by linarith
  with Suc assms(1,2) show ?case by simp
qed simp

text \<open>The match test is only asked of occupied slots.\<close>

lemma probe_guard: "probe f emp hit tab i = probe f emp (\<lambda>e. \<not> emp e \<and> hit e) tab i"
  by (induction f arbitrary: i) auto

definition pow2 :: "nat \<Rightarrow> bool" where
  "pow2 c \<longleftrightarrow> (\<exists>n. c = 2 ^ n)"

lemma pow2_pos: "pow2 c \<Longrightarrow> 0 < c"
  by (auto simp: pow2_def)

lemma pow2_and: "pow2 c \<Longrightarrow> x AND (c - Suc 0) = x mod c"
  by (auto simp: pow2_def and_pow2_mask)

lemma pow2_double: "pow2 c \<Longrightarrow> pow2 (2 * c)"
  unfolding pow2_def by (metis power_Suc)

lemma probe_step_mod:
  "pow2 (length tab) \<Longrightarrow> probe (Suc f) emp hit tab i =
     (if emp (tab ! i) then Some (False, i) else if hit (tab ! i) then Some (True, i)
      else probe f emp hit tab (Suc i mod length tab))"
  by (simp add: pow2_and)

text \<open>The slot \<open>d\<close> places after \<open>h\<close>, cyclically.\<close>

definition at_dist :: "'e list \<Rightarrow> nat \<Rightarrow> nat \<Rightarrow> 'e" where
  "at_dist tab h d = tab ! ((h + d) mod length tab)"

lemma at_dist_Suc: "at_dist tab (Suc h mod length tab) d = at_dist tab h (Suc d)"
  by (simp add: at_dist_def mod_simps)

lemma probe_reaches:
  assumes "pow2 (length tab)" "d < f"
    and "\<And>j. j < d \<Longrightarrow> \<not> emp (at_dist tab h j) \<and> \<not> hit (at_dist tab h j)"
    and "emp (at_dist tab h d) \<or> hit (at_dist tab h d)" and "h < length tab"
  shows "probe f emp hit tab h = Some (\<not> emp (at_dist tab h d), (h + d) mod length tab)"
  using assms(2-)
proof (induction d arbitrary: f h)
  case 0
  then obtain f' where "f = Suc f'" by (cases f) auto
  with 0 show ?case by (auto simp: at_dist_def)
next
  case (Suc d)
  then obtain f' where f: "f = Suc f'" "d < f'" by (cases f) auto
  let ?h = "Suc h mod length tab"
  have "probe f' emp hit tab ?h = Some (\<not> emp (at_dist tab ?h d), (?h + d) mod length tab)"
  proof (rule Suc.IH [OF f(2)])
    show "\<not> emp (at_dist tab ?h j) \<and> \<not> hit (at_dist tab ?h j)" if "j < d" for j
      using that Suc.prems(2) [of "Suc j"] by (simp add: at_dist_Suc)
    show "emp (at_dist tab ?h d) \<or> hit (at_dist tab ?h d)"
      using Suc.prems(3) by (simp add: at_dist_Suc)
    show "?h < length tab" using pow2_pos [OF assms(1)] by (rule mod_less_divisor)
  qed
  moreover have "\<not> emp (tab ! h) \<and> \<not> hit (tab ! h)"
    using Suc.prems(2) [of 0] Suc.prems(4) by (simp add: at_dist_def)
  ultimately show ?case
    using f assms(1) by (simp add: probe_step_mod at_dist_Suc mod_simps del: probe.simps)
qed

lemma dist_exists:
  assumes "p < c" "h < c"
  shows "\<exists>d < c. p = (h + d) mod (c::nat)"
proof (cases "h \<le> p")
  case True
  with assms show ?thesis by (intro exI [of _ "p - h"]) auto
next
  case False
  with assms show ?thesis by (intro exI [of _ "c + p - h"]) (auto simp: mod_if)
qed

lemma first_empty:
  assumes "\<exists>p < length tab. emp (tab ! p)" "h < length tab"
  obtains d where "d < length tab" "emp (at_dist tab h d)" "\<And>j. j < d \<Longrightarrow> \<not> emp (at_dist tab h j)"
proof -
  from assms obtain p where p: "p < length tab" "emp (tab ! p)" by blast
  with dist_exists [OF p(1) assms(2)] have ex: "\<exists>d. d < length tab \<and> emp (at_dist tab h d)"
    by (auto simp: at_dist_def)
  let ?d = "LEAST d. d < length tab \<and> emp (at_dist tab h d)"
  have "?d < length tab \<and> emp (at_dist tab h ?d)" using ex by (rule LeastI_ex)
  moreover have "\<not> emp (at_dist tab h j)" if "j < ?d" for j
    using that calculation not_less_Least [of j "\<lambda>d. d < length tab \<and> emp (at_dist tab h d)"] by auto
  ultimately show thesis using that by blast
qed

subsection \<open>The table invariant\<close>

text \<open>
  \<open>lp_ok home t\<close>: the capacity is a power of two, every stored key is reachable from its home
  slot over occupied slots, and no key is stored twice.
\<close>

definition lp_ok :: "('k \<Rightarrow> nat \<Rightarrow> nat) \<Rightarrow> 'k option list \<Rightarrow> bool" where
  "lp_ok home t \<longleftrightarrow> pow2 (length t) \<and>
     (\<forall>p < length t. \<forall>k. t ! p = Some k \<longrightarrow>
        (\<exists>d < length t. p = (home k (length t) + d) mod length t \<and>
           (\<forall>j < d. at_dist t (home k (length t)) j \<noteq> None))) \<and>
     (\<forall>p < length t. \<forall>q < length t. \<forall>k. t ! p = Some k \<and> t ! q = Some k \<longrightarrow> p = q)"

definition lp_keys :: "'k option list \<Rightarrow> 'k set" where
  "lp_keys t = {k. Some k \<in> set t}"

definition occupied :: "'k option list \<Rightarrow> nat" where
  "occupied t = length (filter (\<lambda>x. x \<noteq> None) t)"

lemma occupied_replicate [simp]: "occupied (replicate n None) = 0"
  by (simp add: occupied_def)

lemma lp_keys_replicate [simp]: "lp_keys (replicate n None) = {}"
  by (auto simp: lp_keys_def)

lemma occupied_update:
  "p < length t \<Longrightarrow> t ! p = None \<Longrightarrow> occupied (t[p := Some k]) = Suc (occupied t)"
  by (simp add: occupied_def length_filter_list_update)

lemma lp_keys_update:
  "p < length t \<Longrightarrow> t ! p = None \<Longrightarrow> lp_keys (t[p := Some k]) = insert k (lp_keys t)"
proof -
  assume p: "p < length t" "t ! p = None"
  have "mset (t[p := Some k]) = add_mset (Some k) (mset t - {#None#})"
    using p by (simp add: mset_update)
  then have "set (t[p := Some k]) = insert (Some k) (set_mset (mset t - {#None#}))"
    by (metis set_mset_add_mset_insert set_mset_mset)
  moreover have "Some x \<in># mset t - {#None#} \<longleftrightarrow> Some x \<in> set t" for x
    by (simp only: set_mset_mset [symmetric] count_greater_zero_iff [symmetric]) simp
  ultimately show ?thesis by (auto simp: lp_keys_def)
qed

lemma occupied_lt_has_empty: "occupied t < length t \<Longrightarrow> \<exists>p < length t. t ! p = None"
proof (rule ccontr)
  assume a: "occupied t < length t" and "\<not> (\<exists>p < length t. t ! p = None)"
  then have "\<forall>x \<in> set t. x \<noteq> None" by (auto simp: in_set_conv_nth)
  then have "filter (\<lambda>x. x \<noteq> None) t = t" by (simp add: filter_id_conv)
  with a show False by (simp add: occupied_def)
qed

lemma lp_ok_replicate: "pow2 n \<Longrightarrow> lp_ok home (replicate n None)"
  by (simp add: lp_ok_def)

lemma at_dist_update:
  "p < length t \<Longrightarrow> at_dist (t[p := x]) h d = (if (h + d) mod length t = p then x else at_dist t h d)"
proof -
  assume p: "p < length t"
  then have "(h + d) mod length t < length t" by (intro mod_less_divisor) linarith
  with p show ?thesis by (simp add: at_dist_def)
qed

lemma lp_ok_insert:
  assumes ok: "lp_ok home t" and new: "k \<notin> lp_keys t"
    and d: "d < length t" "at_dist t (home k (length t)) d = None"
      "\<And>j. j < d \<Longrightarrow> at_dist t (home k (length t)) j \<noteq> None"
    and p: "p = (home k (length t) + d) mod length t"
  shows "lp_ok home (t[p := Some k])"
proof -
  have pl: "p < length t" using d(1) p by (auto intro: mod_less_divisor)
  have old: "\<exists>d' < length t. q = (home k' (length t) + d') mod length t \<and>
      (\<forall>j < d'. at_dist (t[p := Some k]) (home k' (length t)) j \<noteq> None)"
    if q: "q < length t" "t ! q = Some k'" for q k'
  proof -
    from ok q obtain d' where "d' < length t" "q = (home k' (length t) + d') mod length t"
      "\<forall>j < d'. at_dist t (home k' (length t)) j \<noteq> None" by (auto simp: lp_ok_def)
    then show ?thesis using pl by (intro exI [of _ d']) (auto simp: at_dist_update)
  qed
  have self: "\<forall>j < d. at_dist (t[p := Some k]) (home k (length t)) j \<noteq> None"
    using d(3) pl by (auto simp: at_dist_update)
  have absent: "t ! q \<noteq> Some k" if "q < length t" for q
    using new that by (auto simp: lp_keys_def in_set_conv_nth)
  show ?thesis
    unfolding lp_ok_def length_list_update
  proof (intro conjI allI impI)
    show "pow2 (length t)" using ok by (simp add: lp_ok_def)
  next
    fix q k' assume "q < length t" "t[p := Some k] ! q = Some k'"
    then show "\<exists>d < length t. q = (home k' (length t) + d) mod length t \<and>
        (\<forall>j < d. at_dist (t[p := Some k]) (home k' (length t)) j \<noteq> None)"
      using old [of q k'] self d(1) p by (cases "q = p") auto
  next
    fix q r k' assume "q < length t" "r < length t" "t[p := Some k] ! q = Some k' \<and> t[p := Some k] ! r = Some k'"
    then show "q = r" using ok absent [of q] absent [of r]
      by (auto simp: lp_ok_def split: if_splits)
  qed
qed

subsection \<open>Lookup and insertion, for any home slot\<close>

locale linear_probing =
  fixes home :: "'k \<Rightarrow> nat \<Rightarrow> nat"
  assumes home_lt: "pow2 c \<Longrightarrow> home k c < c"
begin

lemma find_present:
  assumes ok: "lp_ok home t" and k: "k \<in> lp_keys t"
  shows "\<exists>p < length t. t ! p = Some k \<and>
    probe (length t) (\<lambda>x. x = None) (\<lambda>x. x = Some k) t (home k (length t)) = Some (True, p)"
proof -
  have c: "pow2 (length t)" using ok by (simp add: lp_ok_def)
  from k obtain p where p: "p < length t" "t ! p = Some k"
    by (auto simp: lp_keys_def in_set_conv_nth)
  with ok obtain d where d: "d < length t" "p = (home k (length t) + d) mod length t"
    "\<And>j. j < d \<Longrightarrow> at_dist t (home k (length t)) j \<noteq> None" by (auto simp: lp_ok_def)
  have nohit: "at_dist t (home k (length t)) j \<noteq> Some k" if "j < d" for j
  proof
    assume h: "at_dist t (home k (length t)) j = Some k"
    let ?q = "(home k (length t) + j) mod length t"
    have "?q < length t" using pow2_pos [OF c] by (rule mod_less_divisor)
    with h p ok have "?q = p" by (auto simp: lp_ok_def at_dist_def)
    with d that have "(home k (length t) + j) mod length t = (home k (length t) + d) mod length t" by simp
    then have "(d - j) mod length t = 0"
      using that by (metis add_diff_cancel_left diff_diff_cancel le_add1 less_imp_le mod_eq_dvd_iff_nat
          mod_0_imp_dvd add_le_cancel_left dvd_imp_mod_0)
    then show False using that d(1) by (auto simp: mod_eq_0_iff_dvd dest!: dvd_imp_le)
  qed
  have "probe (length t) (\<lambda>x. x = None) (\<lambda>x. x = Some k) t (home k (length t)) =
      Some (\<not> (at_dist t (home k (length t)) d = None), (home k (length t) + d) mod length t)"
    using probe_reaches [OF c d(1), of "\<lambda>x. x = None" "home k (length t)" "\<lambda>x. x = Some k"]
      d(2,3) nohit p home_lt [OF c] by (auto simp: at_dist_def)
  moreover have "at_dist t (home k (length t)) d = Some k" using d(2) p by (simp add: at_dist_def)
  ultimately show ?thesis using d(2) p by auto
qed

text \<open>
  With an empty slot and an absent key both forms of the loop (with the match test, and the bare
  insertion loop) stop at the same empty slot, and storing the key there keeps the invariant.
\<close>

lemma find_absent:
  assumes ok: "lp_ok home t" and k: "k \<notin> lp_keys t" and e: "\<exists>p < length t. t ! p = None"
    and h: "hit = (\<lambda>x. x = Some k) \<or> hit = (\<lambda>x. False)"
  obtains p where "p < length t" "t ! p = None"
    "probe (length t) (\<lambda>x. x = None) hit t (home k (length t)) = Some (False, p)"
    "lp_ok home (t[p := Some k])" "lp_keys (t[p := Some k]) = insert k (lp_keys t)"
    "occupied (t[p := Some k]) = Suc (occupied t)"
proof -
  have c: "pow2 (length t)" using ok by (simp add: lp_ok_def)
  obtain d where d: "d < length t" "at_dist t (home k (length t)) d = None"
    "\<And>j. j < d \<Longrightarrow> at_dist t (home k (length t)) j \<noteq> None"
    using first_empty [OF e home_lt [OF c]] by blast
  have nohit: "\<not> hit (at_dist t (home k (length t)) j)" for j
  proof -
    have "(home k (length t) + j) mod length t < length t" using pow2_pos [OF c] by (rule mod_less_divisor)
    then have "at_dist t (home k (length t)) j \<in> set t" by (simp add: at_dist_def)
    with k h show ?thesis by (auto simp: lp_keys_def)
  qed
  let ?p = "(home k (length t) + d) mod length t"
  have p: "?p < length t" "t ! ?p = None"
    using d(2) pow2_pos [OF c] by (auto simp: at_dist_def)
  have "probe (length t) (\<lambda>x. x = None) hit t (home k (length t)) = Some (False, ?p)"
    using probe_reaches [OF c d(1), of "\<lambda>x. x = None" "home k (length t)" hit]
      d(2,3) nohit home_lt [OF c] by auto
  then show thesis
    using that p lp_ok_insert [OF ok k d refl] lp_keys_update [OF p] occupied_update [OF p] by blast
qed

text \<open>The same over the stored entries, of which \<open>key\<close> gives the key (\<open>None\<close> for an empty slot).\<close>

lemma probe_keys:
  assumes c: "pow2 (length h)" and emp: "\<And>e. e \<in> set h \<Longrightarrow> emp e \<longleftrightarrow> key e = None"
    and hit: "\<And>e. e \<in> set h \<Longrightarrow> (\<not> emp e \<and> hit e) \<longleftrightarrow> hk (key e)"
  shows "probe (length h) emp hit h (home k (length h)) =
    probe (length (map key h)) (\<lambda>x. x = None) hk (map key h) (home k (length (map key h)))"
proof -
  have "probe (length h) emp (\<lambda>e. \<not> emp e \<and> hit e) h (home k (length h)) =
      probe (length h) (\<lambda>x. x = None) hk (map key h) (home k (length h))"
    by (rule probe_map) (use emp hit home_lt [OF c] in auto)
  then show ?thesis by (simp flip: probe_guard)
qed

lemma find_entry:
  assumes ok: "lp_ok home (map key h)" and k: "k \<in> lp_keys (map key h)"
    and emp: "\<And>e. e \<in> set h \<Longrightarrow> emp e \<longleftrightarrow> key e = None"
    and hit: "\<And>e. e \<in> set h \<Longrightarrow> \<not> emp e \<Longrightarrow> hit e \<longleftrightarrow> key e = Some k"
  obtains p where "p < length h" "key (h ! p) = Some k"
    "probe (length h) emp hit h (home k (length h)) = Some (True, p)"
proof -
  have "pow2 (length h)" using ok by (simp add: lp_ok_def)
  then have "probe (length h) emp hit h (home k (length h)) =
      probe (length (map key h)) (\<lambda>x. x = None) (\<lambda>x. x = Some k) (map key h) (home k (length (map key h)))"
    by (rule probe_keys) (use emp hit in auto)
  with find_present [OF ok k] that show thesis by auto
qed

lemma insert_entry:
  assumes ok: "lp_ok home (map key h)" and k: "k \<notin> lp_keys (map key h)" and room: "occupied (map key h) < length h"
    and emp: "\<And>e. e \<in> set h \<Longrightarrow> emp e \<longleftrightarrow> key e = None"
    and hit: "\<And>e. e \<in> set h \<Longrightarrow> \<not> emp e \<Longrightarrow> \<not> hit e" and new: "key e0 = Some k"
  obtains p where "p < length h" "key (h ! p) = None"
    "probe (length h) emp hit h (home k (length h)) = Some (False, p)"
    "lp_ok home (map key (h[p := e0]))" "lp_keys (map key (h[p := e0])) = insert k (lp_keys (map key h))"
    "occupied (map key (h[p := e0])) = Suc (occupied (map key h))"
proof -
  have "pow2 (length h)" using ok by (simp add: lp_ok_def)
  then have eq: "probe (length h) emp hit h (home k (length h)) =
      probe (length (map key h)) (\<lambda>x. x = None) (\<lambda>_. False) (map key h) (home k (length (map key h)))"
    by (rule probe_keys) (use emp hit in auto)
  have ne: "\<exists>p < length (map key h). map key h ! p = None" using room by (intro occupied_lt_has_empty) simp
  obtain p where "p < length h" "map key h ! p = None"
    "probe (length h) emp hit h (home k (length h)) = Some (False, p)"
    "lp_ok home ((map key h)[p := Some k])" "lp_keys ((map key h)[p := Some k]) = insert k (lp_keys (map key h))"
    "occupied ((map key h)[p := Some k]) = Suc (occupied (map key h))"
    by (rule find_absent [OF ok k ne, of "\<lambda>_. False"]) (use eq in auto)
  then show thesis using that new by (simp add: map_update)
qed

end

end
