(* ===== verification/Posix.thy ===== *)
theory Posix
  imports Prelude
begin

text \<open>
  The file system as the persistence code uses it, and the helpers of \<^verbatim>\<open>src/util.h\<close>
  (\<^verbatim>\<open>zig/src/util.zig\<close>).  A file system maps paths to contents.  An \<open>io\<close> says, for a call,
  whether it succeeds, and how many bytes reach the file before a failing \<^verbatim>\<open>write\<close>; every
  error path of the code is then a branch of the model, and a theorem is about every \<open>io\<close>.
\<close>

type_synonym files = "string \<Rightarrow> bytes option"

record io =
  io_ok :: "string \<Rightarrow> bool"
  io_written :: nat

definition all_ok :: io where
  "all_ok = \<lparr>io_ok = (\<lambda>_. True), io_written = 0\<rparr>"

definition tmp_name :: "string \<Rightarrow> string" where
  "tmp_name path = take (8192 - 1 - 4) path @ ''.tmp''"

definition unlink :: "io \<Rightarrow> string \<Rightarrow> files \<Rightarrow> files" where
  "unlink io p fs = (if io_ok io ''unlink'' then fs(p := None) else fs)"

definition fsync_dir :: "io \<Rightarrow> string \<Rightarrow> int" where
  "fsync_dir io dir = (if io_ok io (''open '' @ dir) \<and> io_ok io (''fsync '' @ dir) then 0 else -1)"

definition parent_dir :: "string \<Rightarrow> string" where
  "parent_dir path =
     (if CHR ''/'' \<notin> set path then ''.''
      else let d = rev (tl (dropWhile (\<lambda>c. c \<noteq> CHR ''/'') (rev path))) in
        if d = [] then ''/'' else d)"

definition fsync_dir_of_path :: "io \<Rightarrow> allocator \<Rightarrow> string \<Rightarrow> int" where
  "fsync_dir_of_path io al path =
     (if CHR ''/'' \<in> set path \<and> parent_dir path \<noteq> ''/'' \<and> \<not> al ''fsync_dir_of_path'' (length (parent_dir path) + 1)
      then -1 else fsync_dir io (parent_dir path))"

definition write_tmp :: "io \<Rightarrow> string \<Rightarrow> bytes \<Rightarrow> files \<Rightarrow> int \<times> files" where
  "write_tmp io p content fs =
     (if io_ok io ''write'' then (0, fs(p := Some content))
      else (-1, fs(p := Some (take (io_written io) content))))"

text \<open>\<open>check_close\<close>: \<open>term_save\<close> also gives up when \<^verbatim>\<open>close\<close> fails, \<open>atomic_write_str\<close> does not look.\<close>

definition atomic_replace :: "bool \<Rightarrow> io \<Rightarrow> allocator \<Rightarrow> string \<Rightarrow> bytes \<Rightarrow> files \<Rightarrow> int \<times> files" where
  "atomic_replace check_close io al path content fs =
     (let tmp = tmp_name path in
      if \<not> io_ok io ''open'' then (-1, fs)
      else case write_tmp io tmp content (fs(tmp := Some [])) of (w, fs1) \<Rightarrow>
        if w \<noteq> 0 \<or> \<not> io_ok io ''fsync'' then (-1, unlink io tmp fs1)
        else if check_close \<and> \<not> io_ok io ''close'' then (-1, unlink io tmp fs1)
        else if \<not> io_ok io ''rename'' then (-1, unlink io tmp fs1)
        else let fs2 = fs1(path := fs1 tmp, tmp := None) in
          if fsync_dir_of_path io al path \<noteq> 0 then (-1, fs2) else (0, fs2))"

definition atomic_write_str :: "io \<Rightarrow> allocator \<Rightarrow> string \<Rightarrow> bytes \<Rightarrow> files \<Rightarrow> int \<times> files" where
  "atomic_write_str io al path content fs = atomic_replace False io al path content fs"

text \<open>
  The contract of \<^verbatim>\<open>util.h\<close>: the named file holds its old content or the new one, never a mixture,
  the new one when the code is 0, and no other file changes but the temporary one.
\<close>

definition atomic_spec :: "string \<Rightarrow> bytes \<Rightarrow> files \<Rightarrow> int \<times> files \<Rightarrow> bool" where
  "atomic_spec path content fs res \<longleftrightarrow> (case res of (rc, fs') \<Rightarrow>
     (rc = 0 \<or> rc = -1) \<and> (fs' path = fs path \<or> fs' path = Some content) \<and>
     (rc = 0 \<longrightarrow> fs' path = Some content \<and> fs' (tmp_name path) = None) \<and>
     (\<forall>p. p \<noteq> path \<and> p \<noteq> tmp_name path \<longrightarrow> fs' p = fs p))"

lemma tmp_name_neq: "length path \<le> 8187 \<Longrightarrow> tmp_name path \<noteq> path"
  by (simp add: tmp_name_def)

lemma atomic_replace_ok:
  assumes "length path \<le> 8187"
  shows "atomic_spec path content fs (atomic_replace cc io al path content fs)"
  using tmp_name_neq [OF assms]
  by (auto simp: atomic_spec_def atomic_replace_def Let_def write_tmp_def unlink_def split: prod.splits)

lemma fsync_dir_of_path_ok: "fsync_dir_of_path all_ok (\<lambda>_ _. True) path = 0"
  by (simp add: fsync_dir_of_path_def fsync_dir_def all_ok_def)

lemma atomic_replace_all_ok: "fst (atomic_replace cc all_ok (\<lambda>_ _. True) path content fs) = 0"
  by (simp add: atomic_replace_def Let_def write_tmp_def fsync_dir_of_path_ok)
     (simp add: all_ok_def)

end
