(* ===== verification/TextScan.thy ===== *)
theory TextScan
  imports Prelude
begin

text \<open>
  Reading and writing the text files of the engine: decimal printing (\<^verbatim>\<open>{d}\<close>), the line reader and
  the \<^verbatim>\<open>strtoul\<close>-style scanner of \<^verbatim>\<open>zig/src/termstore.zig\<close>.  The 8192-byte chunks the line reader
  refills from the file are not visible in what it returns and are not modelled.
\<close>

definition nl :: u8 where "nl = 10"
definition sp :: u8 where "sp = 32"

fun dec :: "nat \<Rightarrow> bytes" where
  "dec n = (if n < 10 then [of_nat (48 + n)] else dec (n div 10) @ [of_nat (48 + n mod 10)])"

declare dec.simps [simp del]

definition is_digit :: "u8 \<Rightarrow> bool" where
  "is_digit b \<longleftrightarrow> 48 \<le> b \<and> b \<le> 57"

definition is_space :: "u8 \<Rightarrow> bool" where
  "is_space b \<longleftrightarrow> b = 32 \<or> b = 9 \<or> b = 10 \<or> b = 0x0b \<or> b = 0x0c \<or> b = 13"

text \<open>The digit loop with its saturation at \<open>sat\<close>: value, whether any digit was seen, the rest.\<close>

fun scan_digits :: "nat \<Rightarrow> bytes \<Rightarrow> nat \<Rightarrow> bool \<Rightarrow> nat \<times> bool \<times> bytes" where
  "scan_digits sat [] v any = (v, any, [])"
| "scan_digits sat (b # bs) v any =
     (if is_digit b then
        (let d = unat b - 48 in
         scan_digits sat bs (if v > (sat - d) div 10 then sat else v * 10 + d) True)
      else (v, any, b # bs))"

definition scan_unsigned :: "nat \<Rightarrow> bytes \<Rightarrow> nat \<times> bool \<times> bool \<times> bytes" where
  "scan_unsigned sat bs =
     (let bs1 = dropWhile is_space bs;
          signed = (bs1 \<noteq> [] \<and> (hd bs1 = 43 \<or> hd bs1 = 45));
          neg = (signed \<and> hd bs1 = 45);
          bs2 = (if signed then tl bs1 else bs1)
      in case scan_digits sat bs2 0 False of (v, any, rest) \<Rightarrow> (v, any, neg, rest))"

text \<open>The next line with its newline, and what is left; \<open>None\<close> at the end of the file, or when the
  line buffer cannot grow.\<close>

definition next_line :: "allocator \<Rightarrow> bytes \<Rightarrow> (bytes \<times> bytes) option" where
  "next_line al bs =
     (if bs = [] then None
      else let line = takeWhile (\<lambda>b. b \<noteq> nl) bs @ take 1 (dropWhile (\<lambda>b. b \<noteq> nl) bs) in
        if al ''LineReader'' (length line) then Some (line, drop 1 (dropWhile (\<lambda>b. b \<noteq> nl) bs)) else None)"

subsection \<open>Printing and scanning back\<close>

lemma unat_digit: "d < 10 \<Longrightarrow> unat (of_nat (48 + d) :: u8) = 48 + d"
  by (subst unat_of_nat) simp

lemma is_digit_of: "d < 10 \<Longrightarrow> is_digit (of_nat (48 + d))"
  unfolding is_digit_def word_le_nat_alt by (simp only: unat_digit) simp

lemma scan_digits_dec:
  assumes "n \<le> sat" "9 \<le> sat" "v = 0" "rest = [] \<or> \<not> is_digit (hd rest)"
  shows "scan_digits sat (dec n @ rest) v any = (n, True, rest)"
proof -
  have step: "scan_digits sat (dec n @ tail) 0 any = scan_digits sat tail n True" if "n \<le> sat" for tail any
    using that
  proof (induction n arbitrary: tail any rule: dec.induct)
    case (1 n)
    show ?case
    proof (cases "n < 10")
      case True
      then show ?thesis
        using 1(2) is_digit_of [OF True] unat_digit [OF True] assms(2) by (simp add: dec.simps [of n] Let_def)
    next
      case False
      have d: "n mod 10 < 10" by simp
      have le: "n div 10 \<le> sat" using 1(2) by (rule order_trans [OF div_le_dividend])
      have "n div 10 \<le> (sat - n mod 10) div 10"
      proof -
        have "n - n mod 10 \<le> sat - n mod 10" using 1(2) by (rule diff_le_mono)
        moreover have "n - n mod 10 = n div 10 * 10" by (rule minus_mod_eq_div_mult)
        ultimately show ?thesis by (simp add: less_eq_div_iff_mult_less_eq)
      qed
      moreover have "dec n = dec (n div 10) @ [of_nat (48 + n mod 10)]" using False by (subst dec.simps) simp
      ultimately show ?thesis
        using 1(1) [OF False le] is_digit_of [OF d] unat_digit [OF d] by (simp add: Let_def not_less del: of_nat_add)
    qed
  qed
  show ?thesis using step [OF assms(1), of rest any] assms(3,4) by (cases rest) simp_all
qed

lemma dec_digits: "b \<in> set (dec n) \<Longrightarrow> is_digit b"
proof (induction n rule: dec.induct)
  case (1 n)
  then show ?case using is_digit_of [of n] is_digit_of [of "n mod 10"]
    by (cases "n < 10") (auto simp: dec.simps [of n])
qed

lemma dec_ne: "dec n \<noteq> []"
  by (subst dec.simps) simp

lemma digit_not_special: "is_digit b \<Longrightarrow> \<not> is_space b \<and> b \<noteq> 43 \<and> b \<noteq> 45 \<and> b \<noteq> nl \<and> b \<noteq> sp"
  by (auto simp: is_digit_def is_space_def nl_def sp_def)

lemma scan_unsigned_dec [codec]:
  assumes "n \<le> sat" "9 \<le> sat" "rest = [] \<or> \<not> is_digit (hd rest)" "\<forall>b \<in> set pre. is_space b"
  shows "scan_unsigned sat (pre @ dec n @ rest) = (n, True, False, rest)"
proof -
  have digit_hd: "hd (dec n @ rest) \<in> set (dec n)" using dec_ne [of n] by simp
  then have h: "\<not> is_space (hd (dec n @ rest))" "hd (dec n @ rest) \<noteq> 43" "hd (dec n @ rest) \<noteq> 45"
    using dec_digits digit_not_special by blast+
  have "dropWhile is_space (pre @ dec n @ rest) = dec n @ rest"
    using assms(4) h(1) dec_ne [of n] by (cases "dec n @ rest") auto
  then show ?thesis
    using h scan_digits_dec [OF assms(1,2) refl assms(3)] by (simp add: scan_unsigned_def Let_def)
qed

lemma next_line_app [codec]:
  assumes "nl \<notin> set line" "al ''LineReader'' (Suc (length line))"
  shows "next_line al (line @ nl # rest) = Some (line @ [nl], rest)"
proof -
  have "takeWhile (\<lambda>b. b \<noteq> nl) (line @ nl # rest) = line" "dropWhile (\<lambda>b. b \<noteq> nl) (line @ nl # rest) = nl # rest"
    using assms(1) by (auto simp: takeWhile_append dropWhile_append dest: set_dropWhileD)
  with assms(2) show ?thesis by (simp add: next_line_def Let_def)
qed

lemma nl_not_in_dec [codec]: "nl \<notin> set (dec n)"
  using dec_digits digit_not_special by blast

end
