(* ===== verification/TermStore.thy ===== *)
theory TermStore
  imports Probe Posix TextScan
begin

text \<open>
  The hash-consed list store of \<^verbatim>\<open>src/termstore.h\<close>, as \<^verbatim>\<open>zig/src/termstore.zig\<close> implements it.  A cons
  cell is a pair (head, tail) of \<open>u32\<close> values; node 0 is the empty list, and the handle of node
  \<open>i\<close> is \<open>TERM_BASE + i\<close>.  \<open>tn_nodes\<close> holds the \<open>count\<close> nodes in use, \<open>tn_cap\<close> the capacity
  of the node arrays, and \<open>tn_ht\<close> the hash table of (head, tail, node index + 1), 0 marking an
  empty slot.  Counts and capacities are the source's \<open>u32\<close>, written as \<open>nat\<close> with the
  wrap-around of the doubling explicit.
\<close>

record termstore =
  tn_nodes :: "(u32 \<times> u32) list"
  tn_cap :: nat
  tn_ht :: "(u32 \<times> u32 \<times> nat) list"
  tn_dirty :: bool

definition TERM_BASE :: u32 where "TERM_BASE = 0x80000000"
definition TERM_NIL :: u32 where "TERM_NIL = TERM_BASE"

definition term_hash :: "u32 \<Rightarrow> u32 \<Rightarrow> u64" where
  "term_hash a b = fnv_u32 (fnv_u32 FNV_OFFSET a) b"

definition cell_home :: "u32 \<times> u32 \<Rightarrow> nat \<Rightarrow> nat" where
  "cell_home cell cap = unat (term_hash (fst cell) (snd cell)) AND (cap - 1)"

definition term_node_count :: "termstore \<Rightarrow> nat" where
  "term_node_count t = length (tn_nodes t)"

definition ht_cap :: "termstore \<Rightarrow> nat" where
  "ht_cap t = length (tn_ht t)"

definition ht_empty :: "u32 \<times> u32 \<times> nat \<Rightarrow> bool" where
  "ht_empty e \<longleftrightarrow> snd (snd e) = 0"

lemma term_store_updates [simp]:
  "term_node_count (t\<lparr>tn_ht := h\<rparr>) = term_node_count t" "term_node_count (t\<lparr>tn_cap := c\<rparr>) = term_node_count t"
  "term_node_count (t\<lparr>tn_dirty := d\<rparr>) = term_node_count t"
  "ht_cap (t\<lparr>tn_cap := c\<rparr>) = ht_cap t" "ht_cap (t\<lparr>tn_ht := h\<rparr>) = length h"
  by (simp_all add: term_node_count_def ht_cap_def)

text \<open>The rehash loop over the nodes \<open>i\<close>, \<open>i + 1\<close>, ... into the new table.\<close>

fun ht_fill :: "(u32 \<times> u32) list \<Rightarrow> nat \<Rightarrow> (u32 \<times> u32 \<times> nat) list \<Rightarrow> (u32 \<times> u32 \<times> nat) list option" where
  "ht_fill [] i ht = Some ht"
| "ht_fill (cell # cells) i ht =
     (case probe (length ht) ht_empty (\<lambda>_. False) ht (cell_home cell (length ht)) of
        None \<Rightarrow> None
      | Some (_, p) \<Rightarrow> ht_fill cells (i + 1) (ht[p := (fst cell, snd cell, i + 1)]))"

text \<open>Both growth steps double a \<open>u32\<close> and give up when it wraps; \<open>ht_grow\<close> allocates three arrays,
  \<open>nodes_grow\<close> two.  The outer option is the rehash loop not ending.\<close>

definition ht_grow :: "allocator \<Rightarrow> termstore \<Rightarrow> termstore option option" where
  "ht_grow al t =
     (let nc = (ht_cap t * 2) mod 2 ^ 32 in
      if nc < ht_cap t then Some None
      else if \<not> al ''ht_grow.head'' (nc * 4) \<or> \<not> al ''ht_grow.tail'' (nc * 4) \<or> \<not> al ''ht_grow.idx'' (nc * 4)
      then Some None
      else case ht_fill (tl (tn_nodes t)) 1 (replicate nc (0, 0, 0)) of
        None \<Rightarrow> None
      | Some ht \<Rightarrow> Some (Some (t\<lparr>tn_ht := ht\<rparr>)))"

definition nodes_grow :: "allocator \<Rightarrow> termstore \<Rightarrow> termstore option" where
  "nodes_grow al t =
     (let nc = (tn_cap t * 2) mod 2 ^ 32 in
      if nc < tn_cap t then None
      else if \<not> al ''nodes_grow.head'' (nc * 4) \<or> \<not> al ''nodes_grow.tail'' (nc * 4) then None
      else Some (t\<lparr>tn_cap := nc\<rparr>))"

definition term_create :: "allocator \<Rightarrow> termstore option" where
  "term_create al =
     (if al ''term_create'' 64 \<and> al ''term_create.head'' (64 * 4) \<and> al ''term_create.tail'' (64 * 4) \<and>
         al ''term_create.ht_head'' (128 * 4) \<and> al ''term_create.ht_tail'' (128 * 4) \<and> al ''term_create.ht_idx'' (128 * 4)
      then Some \<lparr>tn_nodes = [(0, 0)], tn_cap = 64, tn_ht = replicate 128 (0, 0, 0), tn_dirty = False\<rparr>
      else None)"

definition term_is_list :: "termstore \<Rightarrow> u32 \<Rightarrow> bool" where
  "term_is_list t v \<longleftrightarrow> v \<ge> TERM_BASE \<and> unat (v - TERM_BASE) < term_node_count t"

definition term_car :: "termstore \<Rightarrow> u32 \<Rightarrow> u32" where
  "term_car t h = (if \<not> term_is_list t h \<or> h = TERM_NIL then 0 else fst (tn_nodes t ! unat (h - TERM_BASE)))"

definition term_cdr :: "termstore \<Rightarrow> u32 \<Rightarrow> u32" where
  "term_cdr t h = (if \<not> term_is_list t h \<or> h = TERM_NIL then 0 else snd (tn_nodes t ! unat (h - TERM_BASE)))"

definition cell_match :: "u32 \<Rightarrow> u32 \<Rightarrow> u32 \<times> u32 \<times> nat \<Rightarrow> bool" where
  "cell_match head tail e \<longleftrightarrow> fst e = head \<and> fst (snd e) = tail"

definition term_cons :: "allocator \<Rightarrow> termstore \<Rightarrow> u32 \<Rightarrow> u32 \<Rightarrow> (u32 \<times> termstore) option" where
  "term_cons al t head tail =
     (if \<not> term_is_list t tail then Some (0, t)
      else case (if term_node_count t + 1 > ht_cap t - ht_cap t div 4 then ht_grow al t else Some (Some t)) of
        None \<Rightarrow> None
      | Some None \<Rightarrow> Some (0, t)
      | Some (Some t1) \<Rightarrow>
         (case probe (ht_cap t1) ht_empty (cell_match head tail) (tn_ht t1) (cell_home (head, tail) (ht_cap t1)) of
            None \<Rightarrow> None
          | Some (True, p) \<Rightarrow> Some (TERM_BASE + of_nat (snd (snd (tn_ht t1 ! p)) - 1), t1)
          | Some (False, p) \<Rightarrow>
             (case (if term_node_count t1 \<ge> tn_cap t1 then nodes_grow al t1 else Some t1) of
                None \<Rightarrow> Some (0, t1)
              | Some t2 \<Rightarrow>
                  Some (TERM_BASE + of_nat (term_node_count t2),
                    t2\<lparr>tn_nodes := tn_nodes t2 @ [(head, tail)],
                       tn_ht := (tn_ht t2)[p := (head, tail, term_node_count t2 + 1)],
                       tn_dirty := True\<rparr>))))"

text \<open>The walk from a handle to \<open>NIL\<close> that \<open>term_append\<close> and \<open>term_length\<close> make; a walk that is
  not at \<open>NIL\<close> after as many steps as there are nodes goes on forever.\<close>

fun term_walk :: "nat \<Rightarrow> termstore \<Rightarrow> u32 \<Rightarrow> u32 list option" where
  "term_walk f t cur =
     (if cur = TERM_NIL then Some []
      else case f of
        0 \<Rightarrow> None
      | Suc f' \<Rightarrow> map_option (\<lambda>xs. term_car t cur # xs) (term_walk f' t (term_cdr t cur)))"

declare term_walk.simps [simp del]

definition term_length :: "termstore \<Rightarrow> u32 \<Rightarrow> u32 option" where
  "term_length t h =
     (if \<not> term_is_list t h then Some 0
      else map_option (\<lambda>xs. of_nat (length xs)) (term_walk (term_node_count t) t h))"

text \<open>The fold back over the collected elements, last first; 0 from \<open>term_cons\<close> stops it.\<close>

fun cons_back :: "allocator \<Rightarrow> termstore \<Rightarrow> u32 list \<Rightarrow> u32 \<Rightarrow> (u32 \<times> termstore) option" where
  "cons_back al t [] result = Some (result, t)"
| "cons_back al t (e # es) result =
     (case term_cons al t e result of
        None \<Rightarrow> None
      | Some (r, t') \<Rightarrow> if r = 0 then Some (0, t') else cons_back al t' es r)"

text \<open>The collecting loop's buffer: 16 elements, doubled whenever it is full.\<close>

fun buffer_ok :: "allocator \<Rightarrow> nat \<Rightarrow> nat \<Rightarrow> nat \<Rightarrow> bool" where
  "buffer_ok al cap n 0 = True"
| "buffer_ok al cap n (Suc left) =
     (if n \<ge> cap then
        (let nc = (cap * 2) mod 2 ^ 32 in
         nc \<ge> cap \<and> al ''term_append.grow'' (nc * 4) \<and> buffer_ok al nc (n + 1) left)
      else buffer_ok al cap (n + 1) left)"

definition term_append :: "allocator \<Rightarrow> termstore \<Rightarrow> u32 \<Rightarrow> u32 \<Rightarrow> (u32 \<times> termstore) option" where
  "term_append al t a b =
     (if \<not> term_is_list t a \<or> \<not> term_is_list t b then Some (0, t)
      else if a = TERM_NIL then Some (b, t)
      else if \<not> al ''term_append'' (16 * 4) then Some (0, t)
      else case term_walk (term_node_count t) t a of
        None \<Rightarrow> None
      | Some elems \<Rightarrow>
          if \<not> buffer_ok al 16 0 (length elems) then Some (0, t)
          else cons_back al t (rev elems) b)"

definition term_is_dirty :: "termstore \<Rightarrow> bool" where
  "term_is_dirty t = tn_dirty t"

definition term_clear_dirty :: "termstore \<Rightarrow> termstore" where
  "term_clear_dirty t = t\<lparr>tn_dirty := False\<rparr>"

subsection \<open>Persistence\<close>

definition TERM_MAX_NODES :: nat where "TERM_MAX_NODES = 2 ^ 26"

definition node_line :: "u32 \<times> u32 \<Rightarrow> bytes" where
  "node_line cell = dec (unat (fst cell)) @ sp # dec (unat (snd cell)) @ [nl]"

definition term_text :: "termstore \<Rightarrow> bytes" where
  "term_text t = dec (term_node_count t) @ [nl] @ concat (map node_line (tn_nodes t))"

definition term_save :: "io \<Rightarrow> allocator \<Rightarrow> termstore \<Rightarrow> string \<Rightarrow> files \<Rightarrow> int \<times> termstore \<times> files" where
  "term_save io al t path fs =
     (case atomic_replace True io al path (term_text t) fs of (rc, fs') \<Rightarrow>
        if rc = 0 then (0, t\<lparr>tn_dirty := False\<rparr>, fs') else (-1, t, fs'))"

definition scan_node_line :: "bytes \<Rightarrow> (u32 \<times> u32) option" where
  "scan_node_line bs =
     (case scan_unsigned (2 ^ 32 - 1) bs of (v, any, neg, rest) \<Rightarrow>
        if \<not> any then None
        else case scan_unsigned (2 ^ 32 - 1) rest of (v2, any2, neg2, _) \<Rightarrow>
          if \<not> any2 then None
          else Some (if neg then - of_nat v else of_nat v, if neg2 then - of_nat v2 else of_nat v2))"

text \<open>The loop over the rows \<open>i\<close> to \<open>count - 1\<close>, \<open>left\<close> of them; the outer option is a \<open>term_cons\<close>
  that does not return, the inner one the corrupt file.\<close>

fun load_rows :: "allocator \<Rightarrow> nat \<Rightarrow> nat \<Rightarrow> bytes \<Rightarrow> termstore \<Rightarrow> termstore option option" where
  "load_rows al 0 i bs t = Some (Some t)"
| "load_rows al (Suc left) i bs t =
     (case next_line al bs of
        None \<Rightarrow> Some None
      | Some (line, rest) \<Rightarrow>
         (case scan_node_line line of
            None \<Rightarrow> Some None
          | Some (h, w) \<Rightarrow>
              if i = 0 then (if h \<noteq> 0 \<or> w \<noteq> 0 then Some None else load_rows al left (i + 1) rest t)
              else case term_cons al t h w of
                None \<Rightarrow> None
              | Some (r, t') \<Rightarrow> if r = 0 then Some None else load_rows al left (i + 1) rest t'))"

text \<open>\<open>file\<close> is what \<^verbatim>\<open>open\<close> finds at the path, \<open>None\<close> when it fails.\<close>

definition term_load :: "allocator \<Rightarrow> bytes option \<Rightarrow> termstore option option" where
  "term_load al file =
     (case term_create al of
        None \<Rightarrow> Some None
      | Some t \<Rightarrow>
         (case file of
            None \<Rightarrow> Some (Some t)
          | Some bs \<Rightarrow>
             (case next_line al bs of
                None \<Rightarrow> Some None
              | Some (line, rest) \<Rightarrow>
                 (case scan_unsigned (2 ^ 64 - 1) line of (v, any, _, _) \<Rightarrow>
                    if \<not> any \<or> v = 0 \<or> v > TERM_MAX_NODES then Some None
                    else case load_rows al v 0 rest t of
                      None \<Rightarrow> None
                    | Some None \<Rightarrow> Some None
                    | Some (Some t') \<Rightarrow>
                        if term_node_count t' \<noteq> v then Some None else Some (Some (t'\<lparr>tn_dirty := False\<rparr>))))))"

subsection \<open>The invariant\<close>

definition handle :: "nat \<Rightarrow> u32" where
  "handle i = TERM_BASE + of_nat i"

definition node_of :: "u32 \<Rightarrow> nat" where
  "node_of h = unat (h - TERM_BASE)"

definition cell_key :: "u32 \<times> u32 \<times> nat \<Rightarrow> (u32 \<times> u32) option" where
  "cell_key e = (if ht_empty e then None else Some (fst e, fst (snd e)))"

text \<open>\<open>ht_ok nodes ht n\<close>: the table holds exactly the cells of nodes 1 to \<open>n - 1\<close>, each under its index.\<close>

definition ht_ok :: "(u32 \<times> u32) list \<Rightarrow> (u32 \<times> u32 \<times> nat) list \<Rightarrow> nat \<Rightarrow> bool" where
  "ht_ok nodes ht n \<longleftrightarrow> lp_ok cell_home (map cell_key ht) \<and>
     lp_keys (map cell_key ht) = set (tl (take n nodes)) \<and> Suc (occupied (map cell_key ht)) = n \<and>
     (\<forall>e \<in> set ht. \<not> ht_empty e \<longrightarrow>
        2 \<le> snd (snd e) \<and> snd (snd e) \<le> n \<and> nodes ! (snd (snd e) - 1) = (fst e, fst (snd e)))"

text \<open>A cell's tail is the handle of a strictly earlier node: the DAG is well founded.\<close>

definition tails_ok :: "(u32 \<times> u32) list \<Rightarrow> bool" where
  "tails_ok nodes \<longleftrightarrow>
     (\<forall>i. 0 < i \<and> i < length nodes \<longrightarrow> (\<exists>j < i. snd (nodes ! i) = handle j))"

definition term_inv :: "termstore \<Rightarrow> bool" where
  "term_inv t \<longleftrightarrow> tn_nodes t \<noteq> [] \<and> hd (tn_nodes t) = (0, 0) \<and> distinct (tl (tn_nodes t)) \<and>
     tails_ok (tn_nodes t) \<and> term_node_count t \<le> tn_cap t \<and>
     128 \<le> ht_cap t \<and> ht_cap t \<le> 2 ^ 31 \<and> ht_ok (tn_nodes t) (tn_ht t) (term_node_count t) \<and>
     term_node_count t \<le> ht_cap t - ht_cap t div 4"

interpretation cells: linear_probing cell_home
proof
  show "pow2 c \<Longrightarrow> cell_home k c < c" for c k
    using pow2_pos [of c] by (simp add: cell_home_def pow2_and)
qed

lemma unat_handle: "i < 2 ^ 31 \<Longrightarrow> unat (handle i) = 2 ^ 31 + i"
  by (simp add: handle_def TERM_BASE_def unat_word_ariths unat_of_nat)

lemma node_of_handle [simp]: "i < 2 ^ 31 \<Longrightarrow> node_of (handle i) = i"
  by (simp add: handle_def node_of_def unat_of_nat)

lemma handle_node_of: "handle (node_of h) = h"
  by (simp add: handle_def node_of_def)

lemma handle_inj: "i < 2 ^ 31 \<Longrightarrow> j < 2 ^ 31 \<Longrightarrow> handle i = handle j \<longleftrightarrow> i = j"
  by (metis node_of_handle)

lemma handle_ge: "i < 2 ^ 31 \<Longrightarrow> TERM_BASE \<le> handle i"
  by (simp add: word_le_nat_alt unat_handle TERM_BASE_def)

lemma handle_not_unbound: "i < 2 ^ 31 - 1 \<Longrightarrow> handle i \<noteq> 0xFFFFFFFF \<and> handle i \<noteq> 0"
proof -
  assume "i < 2 ^ 31 - 1"
  then have "unat (handle i) = 2 ^ 31 + i" "2 ^ 31 + i < 2 ^ 32 - 1" by (simp_all add: unat_handle)
  moreover have "unat (0xFFFFFFFF :: u32) = 2 ^ 32 - 1" "unat (0 :: u32) = 0" by simp_all
  ultimately show ?thesis by (metis less_irrefl add_is_0 power_not_zero zero_neq_numeral)
qed

lemma handle_0 [simp]: "handle 0 = TERM_NIL"
  by (simp add: handle_def TERM_NIL_def)

lemma is_list_handle: "term_is_list t h \<longleftrightarrow> TERM_BASE \<le> h \<and> node_of h < term_node_count t"
  by (simp add: term_is_list_def node_of_def)

lemma count_bound: "term_inv t \<Longrightarrow> 1 \<le> term_node_count t \<and> term_node_count t < 2 ^ 31 - 1"
proof -
  assume a: "term_inv t"
  have "4 * (ht_cap t div 4) + 3 \<ge> ht_cap t" by simp
  with a have "term_node_count t < 2 ^ 31 - 1" unfolding term_inv_def by linarith
  with a show ?thesis by (cases "tn_nodes t") (auto simp: term_inv_def term_node_count_def)
qed

lemma is_list_iff: "term_inv t \<Longrightarrow> term_is_list t h \<longleftrightarrow> (\<exists>i < term_node_count t. h = handle i)"
proof -
  assume a: "term_inv t"
  have "TERM_BASE \<le> handle i \<and> node_of (handle i) = i" if "i < term_node_count t" for i
    using that count_bound [OF a] handle_ge [of i] by simp
  then show ?thesis by (metis is_list_handle handle_node_of)
qed

lemma nil_is_list: "term_inv t \<Longrightarrow> term_is_list t TERM_NIL"
  using is_list_iff [of t TERM_NIL] count_bound [of t] by (auto intro: exI [of _ 0])

lemma car_cdr_handle:
  assumes "term_inv t" "0 < i" "i < term_node_count t"
  shows "term_car t (handle i) = fst (tn_nodes t ! i)" "term_cdr t (handle i) = snd (tn_nodes t ! i)"
proof -
  have "i < 2 ^ 31" using assms(3) count_bound [OF assms(1)] by linarith
  moreover have "term_is_list t (handle i)" using assms by (auto simp: is_list_iff)
  moreover have "handle i \<noteq> TERM_NIL" using calculation(1) assms(2) handle_inj [of i 0] by simp
  ultimately show "term_car t (handle i) = fst (tn_nodes t ! i)" "term_cdr t (handle i) = snd (tn_nodes t ! i)"
    by (simp_all add: term_car_def term_cdr_def node_of_handle [unfolded node_of_def])
qed

lemma cell_key_None: "ht_empty e \<longleftrightarrow> cell_key e = None"
  by (simp add: cell_key_def)

subsection \<open>Interning\<close>

lemma ht_ok_insert:
  assumes ok: "ht_ok nodes ht n" and n: "n < length nodes" "1 \<le> n" "n < length ht"
    and new: "nodes ! n \<notin> set (tl (take n nodes))" and hit: "hit = (\<lambda>_. False) \<or> hit = cell_match (fst (nodes ! n)) (snd (nodes ! n))"
  obtains p where "p < length ht"
    "probe (length ht) ht_empty hit ht (cell_home (nodes ! n) (length ht)) = Some (False, p)"
    "ht_ok nodes (ht[p := (fst (nodes ! n), snd (nodes ! n), Suc n)]) (Suc n)"
proof -
  let ?e = "(fst (nodes ! n), snd (nodes ! n), Suc n)"
  have fresh: "nodes ! n \<notin> lp_keys (map cell_key ht)" and room: "occupied (map cell_key ht) < length ht"
    using ok new n by (auto simp: ht_ok_def)
  have nohit: "\<not> hit e" if "e \<in> set ht" "\<not> ht_empty e" for e
    using that hit fresh by (force simp: lp_keys_def cell_key_def cell_match_def)
  obtain p where p: "p < length ht" "cell_key (ht ! p) = None"
    "probe (length ht) ht_empty hit ht (cell_home (nodes ! n) (length ht)) = Some (False, p)"
    "lp_ok cell_home (map cell_key (ht[p := ?e]))"
    "lp_keys (map cell_key (ht[p := ?e])) = insert (nodes ! n) (lp_keys (map cell_key ht))"
    "occupied (map cell_key (ht[p := ?e])) = Suc (occupied (map cell_key ht))"
    by (rule cells.insert_entry [of cell_key ht "nodes ! n" ht_empty hit ?e])
      (use ok fresh room nohit in \<open>auto simp: ht_ok_def cell_key_None, simp add: cell_key_def ht_empty_def\<close>)
  have "take n nodes \<noteq> []" using n by auto
  then have "tl (take (Suc n) nodes) = tl (take n nodes) @ [nodes ! n]"
    using n by (simp add: take_Suc_conv_app_nth)
  then have "ht_ok nodes (ht[p := ?e]) (Suc n)"
    using ok p(4-6) n by (auto simp: ht_ok_def dest!: set_update_subset_insert [THEN subsetD])
  with p that show thesis by blast
qed

lemma ht_fill_ok:
  "\<lbrakk>ht_ok nodes ht i; 1 \<le> i; i \<le> length nodes; distinct (tl nodes); length nodes \<le> length ht\<rbrakk> \<Longrightarrow>
   \<exists>ht'. ht_fill (drop i nodes) i ht = Some ht' \<and> length ht' = length ht \<and> ht_ok nodes ht' (length nodes)"
proof (induction "drop i nodes" arbitrary: i ht)
  case (Cons cell cells)
  have i: "i < length nodes" using Cons.hyps(2) Cons.prems(3) by (cases "i = length nodes") auto
  have cell: "cell = nodes ! i" "cells = drop (Suc i) nodes"
    using Cons.hyps(2) i by (simp_all add: Cons_nth_drop_Suc [symmetric])
  have "nodes ! i \<notin> set (tl (take i nodes))"
  proof -
    have "tl nodes = tl (take i nodes) @ nodes ! i # drop (Suc i) nodes"
      using i Cons.prems(2) by (metis id_take_nth_drop tl_append2 take_eq_Nil list.size(3) not_less_zero not_one_le_zero)
    then show ?thesis using Cons.prems(4) by auto
  qed
  then obtain p where p: "p < length ht"
    "probe (length ht) ht_empty (\<lambda>_. False) ht (cell_home (nodes ! i) (length ht)) = Some (False, p)"
    "ht_ok nodes (ht[p := (fst (nodes ! i), snd (nodes ! i), Suc i)]) (Suc i)"
    using ht_ok_insert [OF Cons.prems(1) i Cons.prems(2), of "\<lambda>_. False"] i Cons.prems(5) by auto
  with Cons.hyps(1) [OF cell(2) p(3)] Cons.prems i cell show ?case
    by (simp add: Cons_nth_drop_Suc [symmetric])
next
  case Nil
  then have "i = length nodes" by simp
  with Nil show ?case by simp
qed

lemma ht_ok_empty: "pow2 n \<Longrightarrow> nodes \<noteq> [] \<Longrightarrow> ht_ok nodes (replicate n (0, 0, 0)) 1"
proof -
  assume "pow2 n" "nodes \<noteq> []"
  moreover have "map cell_key (replicate n (0, 0, 0)) = replicate n None"
    by (simp add: cell_key_def ht_empty_def)
  ultimately show ?thesis
    by (cases nodes) (simp_all add: ht_ok_def lp_ok_replicate ht_empty_def del: map_replicate)
qed

lemma ht_pow2: "term_inv t \<Longrightarrow> pow2 (ht_cap t)"
  by (simp add: term_inv_def ht_ok_def lp_ok_def ht_cap_def)

lemma ht_grow_ok:
  assumes inv: "term_inv t" and full: "term_node_count t + 1 > ht_cap t - ht_cap t div 4"
  obtains (fail) "ht_grow al t = Some None" "\<not> (generous al \<and> term_node_count t < 2 ^ 30)"
  | (ok) ht where "ht_grow al t = Some (Some (t\<lparr>tn_ht := ht\<rparr>))" "term_inv (t\<lparr>tn_ht := ht\<rparr>)"
      "term_node_count t + 1 \<le> length ht - length ht div 4"
proof -
  have cap: "128 \<le> ht_cap t" "ht_cap t \<le> 2 ^ 31" "term_node_count t \<le> ht_cap t - ht_cap t div 4"
    using inv by (auto simp: term_inv_def)
  obtain a where a: "ht_cap t = 2 ^ a" using ht_pow2 [OF inv] by (auto simp: pow2_def)
  show thesis
  proof (cases "ht_cap t = 2 ^ 31")
    case True
    then have "ht_grow al t = Some None" by (simp add: ht_grow_def Let_def)
    moreover have "\<not> term_node_count t < 2 ^ 30" using full True by simp
    ultimately show thesis using fail by blast
  next
    case False
    with cap a have "a < 31" by (metis le_neq_implies_less less_exp power_strict_increasing_iff one_less_numeral_iff semiring_norm(76))
    then have "(2::nat) ^ Suc a \<le> 2 ^ 31" by (intro power_increasing) auto
    then have nc: "(ht_cap t * 2) mod 2 ^ 32 = 2 * ht_cap t" "2 * ht_cap t \<le> 2 ^ 31" using a by simp_all
    have p2: "pow2 (2 * ht_cap t)" by (rule pow2_double [OF ht_pow2 [OF inv]])
    have ne: "tn_nodes t \<noteq> []" using inv by (simp add: term_inv_def)
    have room: "term_node_count t + 1 \<le> 2 * ht_cap t - (2 * ht_cap t) div 4"
    proof -
      have "4 * ((2 * ht_cap t) div 4) \<le> 2 * ht_cap t" by simp
      with cap show ?thesis by linarith
    qed
    then have le: "length (tn_nodes t) \<le> 2 * ht_cap t" by (simp add: term_node_count_def)
    have "\<exists>ht. ht_fill (drop 1 (tn_nodes t)) 1 (replicate (2 * ht_cap t) (0, 0, 0)) = Some ht \<and>
        length ht = length (replicate (2 * ht_cap t) (0, 0, 0) :: (u32 \<times> u32 \<times> nat) list) \<and>
        ht_ok (tn_nodes t) ht (length (tn_nodes t))"
      using inv ne le by (intro ht_fill_ok ht_ok_empty [OF p2]) (auto simp: term_inv_def Suc_le_eq)
    then obtain ht where ht: "ht_fill (tl (tn_nodes t)) 1 (replicate (2 * ht_cap t) (0, 0, 0)) = Some ht"
      "length ht = 2 * ht_cap t" "ht_ok (tn_nodes t) ht (term_node_count t)"
      by (auto simp: drop_Suc term_node_count_def)
    have "term_inv (t\<lparr>tn_ht := ht\<rparr>)"
      using inv ht(2,3) room nc(2) cap(1) by (simp add: term_inv_def term_node_count_def ht_cap_def)
    moreover have "ht_grow al t = Some None \<and> \<not> generous al \<or> ht_grow al t = Some (Some (t\<lparr>tn_ht := ht\<rparr>))"
      unfolding ht_grow_def Let_def nc(1) ht(1) generous_def by auto
    ultimately show thesis using fail ok room ht(2) by auto
  qed
qed

lemma nodes_grow_ok:
  assumes "term_inv t" "term_node_count t \<ge> tn_cap t"
  shows "nodes_grow al t = None \<and> \<not> generous al \<or>
    (\<exists>c. nodes_grow al t = Some (t\<lparr>tn_cap := c\<rparr>) \<and> term_node_count t < c)"
proof -
  have "tn_cap t < 2 ^ 31" "1 \<le> tn_cap t" "term_node_count t = tn_cap t"
    using assms count_bound [OF assms(1)] by (auto simp: term_inv_def)
  then show ?thesis by (auto simp: nodes_grow_def Let_def generous_def)
qed

lemma term_inv_cap: "term_inv t \<Longrightarrow> term_node_count t \<le> c \<Longrightarrow> term_inv (t\<lparr>tn_cap := c\<rparr>)"
  by (simp add: term_inv_def term_node_count_def ht_cap_def)

lemma term_inv_push:
  assumes inv: "term_inv t" and tail: "term_is_list t tail" and new: "(head, tail) \<notin> set (tl (tn_nodes t))"
    and cap: "term_node_count t < tn_cap t" and room: "term_node_count t + 1 \<le> ht_cap t - ht_cap t div 4"
    and ht: "ht_ok (tn_nodes t @ [(head, tail)]) ht (Suc (term_node_count t))" "length ht = ht_cap t"
  shows "term_inv (t\<lparr>tn_nodes := tn_nodes t @ [(head, tail)], tn_ht := ht, tn_dirty := True\<rparr>)"
proof -
  have ne: "tn_nodes t \<noteq> []" using inv by (simp add: term_inv_def)
  obtain j where "j < term_node_count t" "tail = handle j" using is_list_iff [OF inv] tail by blast
  then have "tails_ok (tn_nodes t @ [(head, tail)])"
    using inv by (auto simp: term_inv_def tails_ok_def nth_append less_Suc_eq term_node_count_def)
  then show ?thesis using inv new cap room ht ne
    by (simp add: term_inv_def term_node_count_def ht_cap_def)
qed

lemma ht_ok_append:
  assumes "ht_ok nodes ht (length nodes)" "nodes \<noteq> []"
  shows "ht_ok (nodes @ ys) ht (length nodes)"
  using assms by (fastforce simp: ht_ok_def nth_append)

text \<open>Every branch of \<open>term_cons\<close>.\<close>

lemma term_cons_inv:
  assumes inv: "term_inv t"
  obtains (improper) "\<not> term_is_list t tail" "term_cons al t head tail = Some (0, t)"
  | (oom) t' where "term_is_list t tail" "term_cons al t head tail = Some (0, t')" "term_inv t'"
      "tn_nodes t' = tn_nodes t" "tn_dirty t' = tn_dirty t" "\<not> (generous al \<and> term_node_count t < 2 ^ 30)"
  | (shared) t' i where "term_is_list t tail" "term_cons al t head tail = Some (handle i, t')" "term_inv t'"
      "tn_nodes t' = tn_nodes t" "tn_dirty t' = tn_dirty t" "0 < i" "i < term_node_count t"
      "tn_nodes t ! i = (head, tail)"
  | (fresh) t' where "term_is_list t tail" "term_cons al t head tail = Some (handle (term_node_count t), t')"
      "term_inv t'" "tn_nodes t' = tn_nodes t @ [(head, tail)]" "tn_dirty t'"
      "(head, tail) \<notin> set (tl (tn_nodes t))"
proof (cases "term_is_list t tail")
  case False
  then show thesis using improper by (simp add: term_cons_def)
next
  case lst: True
  let ?full = "term_node_count t + 1 > ht_cap t - ht_cap t div 4"
  let ?step = "if ?full then ht_grow al t else Some (Some t)"
  consider (f) "?step = Some None" "\<not> (generous al \<and> term_node_count t < 2 ^ 30)"
    | (g) ht where "?step = Some (Some (t\<lparr>tn_ht := ht\<rparr>))" "term_inv (t\<lparr>tn_ht := ht\<rparr>)"
      "term_node_count t + 1 \<le> length ht - length ht div 4"
  proof (cases ?full)
    case True
    show thesis by (rule ht_grow_ok [OF inv True, of al]) (use that True in auto)
  next
    case False
    then show thesis using that(2) [of "tn_ht t"] inv by (simp add: ht_cap_def)
  qed
  then show thesis
  proof cases
    case f
    then show thesis using oom [of t] lst inv by (simp add: term_cons_def)
  next
    case (g ht)
    let ?t1 = "t\<lparr>tn_ht := ht\<rparr>" and ?n = "term_node_count t" and ?c = "(head, tail)"
    let ?nodes = "tn_nodes t @ [?c]"
    let ?probe = "probe (length ht) ht_empty (cell_match head tail) ht (cell_home ?c (length ht))"
    have ok: "ht_ok (tn_nodes t) ht ?n" "tn_nodes t \<noteq> []" "128 \<le> length ht"
      using g(2) by (auto simp: term_inv_def term_node_count_def ht_cap_def)
    have n1: "1 \<le> ?n" "?n < 2 ^ 31 - 1" using count_bound [OF inv] by auto
    have same: "ht_cap ?t1 = length ht" "term_node_count ?t1 = ?n" by (simp_all add: ht_cap_def term_node_count_def)
    show thesis
    proof (cases "?c \<in> lp_keys (map cell_key ht)")
      case True
      obtain p where p: "p < length ht" "cell_key (ht ! p) = Some ?c" "?probe = Some (True, p)"
        by (rule cells.find_entry [of cell_key ht ?c ht_empty "cell_match head tail"])
          (use ok(1) True in \<open>auto simp: ht_ok_def cell_key_def cell_match_def prod_eq_iff\<close>)
      let ?i = "snd (snd (ht ! p)) - 1"
      have i: "0 < ?i" "?i < ?n" "tn_nodes t ! ?i = ?c"
        using ok(1) p(1,2) by (auto simp: ht_ok_def cell_key_def split: if_splits dest!: bspec [OF _ nth_mem])
      have "term_cons al t head tail = Some (handle ?i, ?t1)"
        using lst g(1) p(3) unfolding term_cons_def same by (simp add: ht_cap_def handle_def)
      then show thesis using shared [of ?i ?t1] lst g(2) i by simp
    next
      case new: False
      then have nin: "?c \<notin> set (tl (tn_nodes t))" using ok(1) by (auto simp: ht_ok_def term_node_count_def)
      have nth: "?nodes ! ?n = ?c" "take ?n ?nodes = tn_nodes t" "?n < length ?nodes"
        by (simp_all add: term_node_count_def)
      obtain p where p: "p < length ht" "?probe = Some (False, p)"
        "ht_ok ?nodes (ht[p := (head, tail, Suc ?n)]) (Suc ?n)"
        by (rule ht_ok_insert [of ?nodes ht ?n "cell_match head tail"])
          (use ht_ok_append [of "tn_nodes t" ht "[?c]"] ok n1 nth g(3) nin in \<open>auto simp: term_node_count_def\<close>)
      let ?grow = "if ?n \<ge> tn_cap ?t1 then nodes_grow al ?t1 else Some ?t1"
      have inv1: "term_inv ?t1" by (rule g(2))
      consider (f) "?grow = None" "\<not> generous al"
        | (g2) c where "?grow = Some (?t1\<lparr>tn_cap := c\<rparr>)" "?n < c"
        using nodes_grow_ok [OF inv1, of al] that(2) [of "tn_cap t"] that unfolding same
        by (cases "?n \<ge> tn_cap ?t1") auto
      then show thesis
      proof cases
        case f
        then have "term_cons al t head tail = Some (0, ?t1)"
          using lst g(1) p(2) unfolding term_cons_def same by (simp add: ht_cap_def)
        then show thesis using oom [of ?t1] lst g(2) f by simp
      next
        case (g2 c)
        let ?t2 = "?t1\<lparr>tn_cap := c\<rparr>"
        let ?t3 = "?t2\<lparr>tn_nodes := tn_nodes ?t2 @ [?c], tn_ht := ht[p := (head, tail, Suc ?n)], tn_dirty := True\<rparr>"
        have "term_cons al t head tail = Some (handle ?n, ?t3)"
          using lst g(1) p(2) g2(1) unfolding term_cons_def same by (simp add: ht_cap_def handle_def term_node_count_def)
        moreover have "term_inv ?t2" using term_inv_cap [OF inv1, of c] g2(2) same by simp
        then have "term_inv ?t3"
          by (rule term_inv_push) (use lst nin g2(2) g(3) p(3) in
              \<open>simp_all add: term_is_list_def term_node_count_def ht_cap_def\<close>)
        ultimately show thesis using fresh [of ?t3] lst nin by simp
      qed
    qed
  qed
qed

subsection \<open>What a handle denotes\<close>

fun denotes :: "(u32 \<times> u32) list \<Rightarrow> u32 \<Rightarrow> u32 list \<Rightarrow> bool" where
  "denotes nodes h [] \<longleftrightarrow> h = TERM_NIL"
| "denotes nodes h (x # xs) \<longleftrightarrow>
     (\<exists>i < length nodes. 0 < i \<and> h = handle i \<and> fst (nodes ! i) = x \<and> denotes nodes (snd (nodes ! i)) xs)"

lemma len_bound: "term_inv t \<Longrightarrow> i < length (tn_nodes t) \<Longrightarrow> i < 2 ^ 31"
  using count_bound [of t] by (simp add: term_node_count_def)

lemma tail_handle:
  assumes "term_inv t" "0 < i" "i < length (tn_nodes t)"
  obtains j where "j < i" "snd (tn_nodes t ! i) = handle j"
  using assms by (auto simp: term_inv_def tails_ok_def)

lemma denotes_total:
  assumes "term_inv t" "i < length (tn_nodes t)"
  shows "\<exists>xs. denotes (tn_nodes t) (handle i) xs \<and> length xs \<le> i"
  using assms(2)
proof (induction i rule: less_induct)
  case (less i)
  show ?case
  proof (cases "i = 0")
    case True
    then show ?thesis by (intro exI [of _ "[]"]) simp
  next
    case False
    obtain j where j: "j < i" "snd (tn_nodes t ! i) = handle j"
      by (rule tail_handle [OF assms(1) _ less.prems]) (use False in auto)
    with less obtain xs where "denotes (tn_nodes t) (handle j) xs" "length xs \<le> j" by fastforce
    then show ?thesis using j False less.prems
      by (intro exI [of _ "fst (tn_nodes t ! i) # xs"]) auto
  qed
qed

lemma denotes_list: "term_inv t \<Longrightarrow> denotes (tn_nodes t) h xs \<Longrightarrow> term_is_list t h"
  using count_bound [of t] by (cases xs) (auto simp: is_list_iff term_node_count_def intro: exI [of _ 0])

lemma list_denotes: "term_inv t \<Longrightarrow> term_is_list t h \<Longrightarrow> \<exists>xs. denotes (tn_nodes t) h xs"
  using denotes_total [of t] by (auto simp: is_list_iff term_node_count_def)

lemma denotes_handle:
  assumes "term_inv t" "i < length (tn_nodes t)"
  shows "denotes (tn_nodes t) (handle i) (x # xs) \<longleftrightarrow>
    0 < i \<and> fst (tn_nodes t ! i) = x \<and> denotes (tn_nodes t) (snd (tn_nodes t ! i)) xs"
  using assms(2) len_bound [OF assms(1)] handle_inj by (auto 4 4)

lemma denotes_unique:
  assumes "term_inv t" "denotes (tn_nodes t) h xs" "denotes (tn_nodes t) h ys"
  shows "xs = ys"
  using assms(2,3)
proof (induction xs arbitrary: h ys)
  case Nil
  then show ?case using len_bound [OF assms(1)] handle_inj [of _ 0] by (cases ys) (auto dest: sym)
next
  case (Cons x xs)
  then obtain i where i: "i < length (tn_nodes t)" "0 < i" "h = handle i" by auto
  have "ys \<noteq> []" using Cons.prems(2) i handle_inj [of i 0] len_bound [OF assms(1) i(1)] by auto
  with Cons i denotes_handle [OF assms(1) i(1)] show ?case by (cases ys) auto
qed

text \<open>Canonical handles: two handles of a store that denote the same list are the same.\<close>

lemma denotes_canonical:
  assumes inv: "term_inv t" and "denotes (tn_nodes t) g xs" "denotes (tn_nodes t) h xs"
  shows "g = h"
  using assms(2,3)
proof (induction xs arbitrary: g h)
  case (Cons x xs)
  let ?N = "tn_nodes t"
  from Cons.prems obtain i j where ij: "i < length ?N" "0 < i" "g = handle i" "fst (?N ! i) = x"
    "denotes ?N (snd (?N ! i)) xs" "j < length ?N" "0 < j" "h = handle j" "fst (?N ! j) = x"
    "denotes ?N (snd (?N ! j)) xs" by auto
  then have "?N ! i = ?N ! j" using Cons.IH by (simp add: prod_eq_iff)
  moreover have "?N ! i = tl ?N ! (i - 1)" "?N ! j = tl ?N ! (j - 1)" using ij by (simp_all add: nth_tl)
  moreover have "distinct (tl ?N)" using inv by (simp add: term_inv_def)
  ultimately have "i - 1 = j - 1" using ij nth_eq_iff_index_eq [of "tl ?N" "i - 1" "j - 1"] by simp
  with ij have "i = j" by linarith
  with ij show ?case by simp
qed simp

lemma denotes_append: "denotes nodes h xs \<Longrightarrow> denotes (nodes @ ext) h xs"
proof (induction xs arbitrary: h)
  case (Cons x xs)
  then obtain i where "i < length nodes" "0 < i" "h = handle i" "fst (nodes ! i) = x"
    "denotes (nodes @ ext) (snd (nodes ! i)) xs" by auto
  then show ?case unfolding denotes.simps by (intro exI [of _ i]) (simp add: nth_append)
qed simp

lemma walk_denotes: "term_inv t \<Longrightarrow> denotes (tn_nodes t) h xs \<Longrightarrow> length xs \<le> f \<Longrightarrow> term_walk f t h = Some xs"
proof (induction xs arbitrary: f h)
  case Nil
  then show ?case by (simp add: term_walk.simps [of f])
next
  case (Cons x xs)
  then obtain i where i: "i < term_node_count t" "0 < i" "h = handle i" "fst (tn_nodes t ! i) = x"
    "denotes (tn_nodes t) (snd (tn_nodes t ! i)) xs" by (auto simp: term_node_count_def)
  obtain f' where f: "f = Suc f'" using Cons.prems(3) by (cases f) auto
  have "handle i \<noteq> TERM_NIL"
    using i handle_inj [of i 0] len_bound [OF Cons.prems(1)] by (auto simp: term_node_count_def)
  then show ?case using Cons.IH [OF Cons.prems(1) i(5), of f'] Cons.prems(3) car_cdr_handle [OF Cons.prems(1) i(2,1)] i f
    by (simp add: term_walk.simps [of "Suc f'"])
qed

lemma walk_list:
  assumes "term_inv t" "term_is_list t h"
  obtains xs where "term_walk (term_node_count t) t h = Some xs" "denotes (tn_nodes t) h xs" "length xs < 2 ^ 31"
proof -
  obtain i where i: "i < term_node_count t" "h = handle i" using assms by (auto simp: is_list_iff)
  then obtain xs where "denotes (tn_nodes t) h xs" "length xs \<le> i"
    using denotes_total [OF assms(1), of i] by (auto simp: term_node_count_def)
  then show thesis using that [of xs] walk_denotes [OF assms(1), of h xs "term_node_count t"] i
      count_bound [OF assms(1)] by simp
qed

subsection \<open>The contract of the header\<close>

text \<open>What \<^verbatim>\<open>src/termstore.h\<close> promises, in terms of the lists that handles denote.\<close>

definition term_value :: "termstore \<Rightarrow> u32 \<Rightarrow> u32 list \<Rightarrow> bool" where
  "term_value t h xs \<longleftrightarrow> term_is_list t h \<and> denotes (tn_nodes t) h xs"

definition create_spec :: "termstore option \<Rightarrow> bool" where
  "create_spec res \<longleftrightarrow> (case res of None \<Rightarrow> True | Some t \<Rightarrow> tn_nodes t = [(0, 0)] \<and> term_value t TERM_NIL [])"

definition car_cdr_spec :: "termstore \<Rightarrow> u32 \<Rightarrow> u32 \<Rightarrow> u32 \<Rightarrow> bool" where
  "car_cdr_spec t h a d \<longleftrightarrow>
     (if term_is_list t h \<and> h \<noteq> TERM_NIL then \<forall>x xs. term_value t h (x # xs) \<longrightarrow> a = x \<and> term_value t d xs
      else a = 0 \<and> d = 0)"

definition cons_spec :: "termstore \<Rightarrow> u32 \<Rightarrow> u32 \<Rightarrow> u32 \<times> termstore \<Rightarrow> bool" where
  "cons_spec t head tail res \<longleftrightarrow> (case res of (h, t') \<Rightarrow>
     (\<forall>g ys. term_value t g ys \<longrightarrow> term_value t' g ys) \<and>
     (if \<not> term_is_list t tail then h = 0 \<and> t' = t
      else h = 0 \<and> tn_nodes t' = tn_nodes t \<or>
           h \<noteq> 0 \<and> (\<forall>xs. term_value t tail xs \<longrightarrow> term_value t' h (head # xs))))"

definition append_spec :: "termstore \<Rightarrow> u32 \<Rightarrow> u32 \<Rightarrow> u32 \<times> termstore \<Rightarrow> bool" where
  "append_spec t a b res \<longleftrightarrow> (case res of (h, t') \<Rightarrow>
     (\<forall>g ys. term_value t g ys \<longrightarrow> term_value t' g ys) \<and>
     (if \<not> term_is_list t a \<or> \<not> term_is_list t b then h = 0 \<and> t' = t
      else h = 0 \<or> (\<forall>xs ys. term_value t a xs \<and> term_value t b ys \<longrightarrow> term_value t' h (xs @ ys))) \<and>
     (a = TERM_NIL \<and> term_is_list t b \<longrightarrow> h = b \<and> t' = t))"

definition length_spec :: "termstore \<Rightarrow> u32 \<Rightarrow> u32 \<Rightarrow> bool" where
  "length_spec t h n \<longleftrightarrow>
     (if term_is_list t h then \<forall>xs. term_value t h xs \<longrightarrow> unat n = length xs else n = 0)"

lemma term_inv_init:
  "term_create al = Some t \<Longrightarrow> term_inv t \<and> tn_nodes t = [(0, 0)] \<and> \<not> tn_dirty t"
proof -
  assume "term_create al = Some t"
  then have t: "t = \<lparr>tn_nodes = [(0, 0)], tn_cap = 64, tn_ht = replicate 128 (0, 0, 0), tn_dirty = False\<rparr>"
    by (simp add: term_create_def split: if_splits)
  have "pow2 128" unfolding pow2_def by (rule exI [of _ 7]) simp
  then have "ht_ok [(0, 0)] (replicate 128 (0, 0, 0)) 1" by (rule ht_ok_empty) simp
  then show ?thesis unfolding t
    by (auto simp: term_inv_def term_node_count_def ht_cap_def tails_ok_def)
qed

lemma value_total: "term_inv t \<Longrightarrow> term_is_list t h \<Longrightarrow> \<exists>xs. term_value t h xs"
  using list_denotes by (auto simp: term_value_def)

lemma value_mono:
  assumes "term_inv t" "tn_nodes t' = tn_nodes t @ ext" "term_value t g ys"
  shows "term_value t' g ys"
  using assms denotes_append [of "tn_nodes t" g ys ext]
  by (auto simp: term_value_def term_is_list_def term_node_count_def)

lemma value_push:
  assumes inv: "term_inv t'" and "tn_nodes t' ! i = (head, tail)" "0 < i" "i < term_node_count t'"
    "denotes (tn_nodes t') tail xs"
  shows "term_value t' (handle i) (head # xs)"
  using assms by (auto simp: term_value_def is_list_iff term_node_count_def intro!: exI [of _ i])

lemma term_cons_ok:
  assumes inv: "term_inv t"
  shows "\<exists>h t' ext. term_cons al t head tail = Some (h, t') \<and> term_inv t' \<and> cons_spec t head tail (h, t') \<and>
    tn_nodes t' = tn_nodes t @ ext \<and> length ext \<le> 1 \<and> h \<noteq> 0xFFFFFFFF \<and>
    (term_is_list t tail \<and> generous al \<and> term_node_count t < 2 ^ 30 \<longrightarrow> h \<noteq> 0)"
proof (rule term_cons_inv [OF inv, of tail al head])
  fix t' i assume a: "term_is_list t tail" "term_cons al t head tail = Some (handle i, t')" "term_inv t'"
    "tn_nodes t' = tn_nodes t" "0 < i" "i < term_node_count t" "tn_nodes t ! i = (head, tail)"
  have "handle i \<noteq> 0xFFFFFFFF \<and> handle i \<noteq> 0" using a(6) count_bound [OF inv] by (intro handle_not_unbound) linarith
  moreover have "term_value t' (handle i) (head # xs)" if "term_value t tail xs" for xs
    using a that by (intro value_push) (auto simp: term_value_def term_node_count_def)
  moreover have "term_value t' g ys" if "term_value t g ys" for g ys
    using value_mono [OF inv, of t' "[]"] a(4) that by simp
  ultimately show ?thesis using a by (auto simp: cons_spec_def)
next
  fix t' assume a: "term_is_list t tail" "term_cons al t head tail = Some (handle (term_node_count t), t')"
    "term_inv t'" "tn_nodes t' = tn_nodes t @ [(head, tail)]"
  let ?i = "term_node_count t"
  have n: "?i < term_node_count t'" "tn_nodes t' ! ?i = (head, tail)" "0 < ?i"
    using a(4) count_bound [OF inv] by (auto simp: term_node_count_def)
  have "handle ?i \<noteq> 0xFFFFFFFF \<and> handle ?i \<noteq> 0"
    using n(1) count_bound [OF a(3)] by (intro handle_not_unbound) linarith
  moreover have "term_value t' (handle ?i) (head # xs)" if "term_value t tail xs" for xs
  proof -
    have "denotes (tn_nodes t') tail xs" using value_mono [OF inv a(4) that] by (simp add: term_value_def)
    then show ?thesis by (rule value_push [OF a(3) n(2,3,1)])
  qed
  moreover have "term_value t' g ys" if "term_value t g ys" for g ys
    using value_mono [OF inv a(4) that] .
  ultimately show ?thesis using a by (auto simp: cons_spec_def)
qed (use inv in \<open>auto simp: cons_spec_def term_value_def term_is_list_def term_node_count_def\<close>)

lemma cons_back_ok:
  "\<lbrakk>term_inv t; term_value t b ys\<rbrakk> \<Longrightarrow>
   \<exists>h t' ext. cons_back al t es b = Some (h, t') \<and> term_inv t' \<and> tn_nodes t' = tn_nodes t @ ext \<and>
     (h = 0 \<or> term_value t' h (rev es @ ys)) \<and>
     (generous al \<and> term_node_count t + length es < 2 ^ 30 \<longrightarrow> h \<noteq> 0)"
proof (induction es arbitrary: t b ys)
  case Nil
  have "b \<noteq> 0" using Nil by (auto simp: term_value_def term_is_list_def TERM_BASE_def)
  with Nil show ?case by simp
next
  case (Cons e es)
  have lst: "term_is_list t b" using Cons.prems(2) by (simp add: term_value_def)
  obtain h t1 ext where c: "term_cons al t e b = Some (h, t1)" "term_inv t1" "cons_spec t e b (h, t1)"
    "tn_nodes t1 = tn_nodes t @ ext" "length ext \<le> 1"
    "term_is_list t b \<and> generous al \<and> term_node_count t < 2 ^ 30 \<longrightarrow> h \<noteq> 0"
    using term_cons_ok [OF Cons.prems(1), of al e b] by blast
  show ?case
  proof (cases "h = 0")
    case True
    with c lst show ?thesis by auto
  next
    case False
    then have "term_value t1 h (e # ys)" using c(3) lst Cons.prems(2) by (auto simp: cons_spec_def)
    from Cons.IH [OF c(2) this] obtain h2 t2 ext2 where r: "cons_back al t1 es h = Some (h2, t2)" "term_inv t2"
      "tn_nodes t2 = tn_nodes t1 @ ext2" "h2 = 0 \<or> term_value t2 h2 (rev es @ e # ys)"
      "generous al \<and> term_node_count t1 + length es < 2 ^ 30 \<longrightarrow> h2 \<noteq> 0" by blast
    have "term_node_count t1 \<le> Suc (term_node_count t)" using c(4,5) by (simp add: term_node_count_def)
    then have "generous al \<and> term_node_count t + length (e # es) < 2 ^ 30 \<longrightarrow> h2 \<noteq> 0" using r(5) by auto
    with False c r show ?thesis by auto
  qed
qed

lemma buffer_generous:
  "generous al \<Longrightarrow> 1 \<le> cap \<Longrightarrow> n \<le> cap \<Longrightarrow> n + left < 2 ^ 31 \<Longrightarrow> buffer_ok al cap n left"
proof (induction left arbitrary: cap n)
  case (Suc left)
  then show ?case using Suc.IH [of "2 * cap" "Suc n"] Suc.IH [of cap "Suc n"]
    by (cases "cap \<le> n") (auto simp: Let_def generous_def mult.commute)
qed simp

lemma denotes_length: "term_inv t \<Longrightarrow> denotes (tn_nodes t) h xs \<Longrightarrow> length xs < term_node_count t"
proof -
  assume a: "term_inv t" "denotes (tn_nodes t) h xs"
  then obtain i where i: "i < term_node_count t" "h = handle i"
    using denotes_list [OF a] is_list_iff [OF a(1)] by blast
  then obtain ys where "denotes (tn_nodes t) h ys" "length ys \<le> i"
    using denotes_total [OF a(1), of i] by (auto simp: term_node_count_def)
  then show ?thesis using denotes_unique [OF a] i by auto
qed

lemma term_append_ok:
  assumes inv: "term_inv t"
  shows "\<exists>h t' ext. term_append al t a b = Some (h, t') \<and> term_inv t' \<and> append_spec t a b (h, t') \<and>
    tn_nodes t' = tn_nodes t @ ext \<and>
    (term_is_list t a \<and> term_is_list t b \<and> generous al \<and> 2 * term_node_count t < 2 ^ 30 \<longrightarrow> h \<noteq> 0)"
proof (cases "term_is_list t a \<and> term_is_list t b")
  case False
  then show ?thesis using inv nil_is_list [OF inv] by (auto simp: term_append_def append_spec_def)
next
  case lst: True
  have b0: "b \<noteq> 0" using lst by (auto simp: term_is_list_def TERM_BASE_def)
  have nil: "xs = []" if "term_value t TERM_NIL xs" for xs
    using that denotes_unique [OF inv, of TERM_NIL xs "[]"] by (simp add: term_value_def)
  obtain xs where xs: "term_walk (term_node_count t) t a = Some xs" "denotes (tn_nodes t) a xs" "length xs < 2 ^ 31"
    by (rule walk_list [OF inv]) (use lst in auto)
  consider (n) "a = TERM_NIL" | (o) "a \<noteq> TERM_NIL" "\<not> al ''term_append'' (16 * 4) \<or> \<not> buffer_ok al 16 0 (length xs)"
    | (g) "a \<noteq> TERM_NIL" "al ''term_append'' (16 * 4)" "buffer_ok al 16 0 (length xs)" by blast
  then show ?thesis
  proof cases
    case n
    have "append_spec t a b (b, t)" using n lst by (auto simp: append_spec_def dest: nil)
    with n lst inv b0 show ?thesis by (auto simp: term_append_def)
  next
    case o
    then have "\<not> generous al" using buffer_generous [of al 16 0 "length xs"] xs(3) by (auto simp: generous_def)
    with o lst inv xs show ?thesis by (auto simp: term_append_def append_spec_def)
  next
    case g
    obtain ys where ys: "term_value t b ys" using value_total [OF inv] lst by blast
    obtain h t' ext where c: "cons_back al t (rev xs) b = Some (h, t')" "term_inv t'" "tn_nodes t' = tn_nodes t @ ext"
      "h = 0 \<or> term_value t' h (xs @ ys)" "generous al \<and> term_node_count t + length xs < 2 ^ 30 \<longrightarrow> h \<noteq> 0"
      using cons_back_ok [OF inv ys, of al "rev xs"] by auto
    have "append_spec t a b (h, t')"
      using c(4) lst g(1) value_mono [OF inv c(3)] ys xs(2) denotes_unique [OF inv]
      by (auto simp: append_spec_def) (metis term_value_def)
    moreover have "length xs < term_node_count t" by (rule denotes_length [OF inv xs(2)])
    moreover have "term_append al t a b = Some (h, t')"
      using lst g xs(1) c(1) by (simp add: term_append_def)
    ultimately show ?thesis using c by auto
  qed
qed

lemma term_length_ok:
  assumes "term_inv t"
  shows "\<exists>n. term_length t h = Some n \<and> length_spec t h n"
proof (cases "term_is_list t h")
  case True
  obtain xs where xs: "term_walk (term_node_count t) t h = Some xs" "denotes (tn_nodes t) h xs" "length xs < 2 ^ 31"
    by (rule walk_list [OF assms True])
  then have "unat (of_nat (length xs) :: u32) = length xs" by (simp add: unat_of_nat)
  with xs True denotes_unique [OF assms] show ?thesis
    by (auto simp: term_length_def length_spec_def term_value_def)
qed (simp add: term_length_def length_spec_def)

lemma car_cdr_ok:
  assumes inv: "term_inv t"
  shows "car_cdr_spec t h (term_car t h) (term_cdr t h)"
proof (cases "term_is_list t h \<and> h \<noteq> TERM_NIL")
  case True
  then obtain i where i: "0 < i" "i < term_node_count t" "h = handle i"
    using is_list_iff [OF inv] handle_0 by (metis gr0I)
  have "term_car t h = x \<and> term_value t (term_cdr t h) xs" if "term_value t h (x # xs)" for x xs
    using that i denotes_handle [OF inv, of i x xs] car_cdr_handle [OF inv i(1,2)] denotes_list [OF inv]
    by (auto simp: term_value_def term_node_count_def)
  with True show ?thesis by (simp add: car_cdr_spec_def)
qed (auto simp: car_cdr_spec_def term_car_def term_cdr_def)

subsection \<open>Save and load\<close>

lemma sp_not_digit: "\<not> is_digit sp \<and> \<not> is_digit nl \<and> is_space sp"
  by (simp add: is_digit_def is_space_def sp_def nl_def)

lemma scan_node_line_ok [codec]: "scan_node_line (node_line cell) = Some cell"
proof -
  have b: "unat x \<le> 2 ^ 32 - 1" for x :: u32
  proof -
    show ?thesis using unat_u32_less [of x] by simp
  qed
  have 1: "scan_unsigned (2 ^ 32 - 1) (node_line cell) =
      (unat (fst cell), True, False, sp # dec (unat (snd cell)) @ [nl])"
    using scan_unsigned_dec [OF b, of "sp # dec (unat (snd cell)) @ [nl]" "[]" "fst cell"] sp_not_digit
    by (simp add: node_line_def)
  have 2: "scan_unsigned (2 ^ 32 - 1) (sp # dec (unat (snd cell)) @ [nl]) = (unat (snd cell), True, False, [nl])"
    using scan_unsigned_dec [OF b, of "[nl]" "[sp]" "snd cell"] sp_not_digit by simp
  show ?thesis unfolding scan_node_line_def 1 by (simp add: 2 [simplified])
qed

lemma next_node_line:
  "generous al \<Longrightarrow> next_line al (node_line cell @ rest) = Some (node_line cell, rest)"
  using next_line_app [of "dec (unat (fst cell)) @ sp # dec (unat (snd cell))" al rest]
  by (simp add: node_line_def generous_def nl_not_in_dec, simp add: nl_def sp_def)

lemma tl_take_distinct:
  assumes "distinct (tl xs)" "0 < i" "i < length xs"
  shows "xs ! i \<notin> set (tl (take i xs))"
proof -
  have "tl xs = tl (take i xs) @ xs ! i # drop (Suc i) xs"
    using assms(2,3) by (metis id_take_nth_drop tl_append2 take_eq_Nil list.size(3) not_less_zero less_irrefl)
  then show ?thesis using assms(1) by auto
qed

lemma load_rows_ok:
  assumes inv: "term_inv t0" and gen: "generous al" and small: "term_node_count t0 \<le> 2 ^ 26"
  shows "\<lbrakk>term_inv t; 1 \<le> i; i + left = term_node_count t0; tn_nodes t = take i (tn_nodes t0)\<rbrakk> \<Longrightarrow>
    \<exists>t'. load_rows al left i (concat (map node_line (drop i (tn_nodes t0)))) t = Some (Some t') \<and>
      term_inv t' \<and> tn_nodes t' = tn_nodes t0"
proof (induction left arbitrary: i t)
  case 0
  then show ?case by (simp add: term_node_count_def)
next
  case (Suc left)
  let ?N = "tn_nodes t0"
  have i: "i < length ?N" "0 < i" using Suc.prems by (simp_all add: term_node_count_def)
  have cnt: "term_node_count t = i" using Suc.prems(4) i by (simp add: term_node_count_def)
  have new: "?N ! i \<notin> set (tl (tn_nodes t))"
    using tl_take_distinct [of ?N i] inv i Suc.prems(4) by (simp add: term_inv_def)
  obtain h w where cell: "?N ! i = (h, w)" by (cases "?N ! i")
  obtain j where "j < i" "w = handle j" using tail_handle [OF inv i(2,1)] cell by auto
  then have lst: "term_is_list t w" using is_list_iff [OF Suc.prems(1)] cnt by blast
  have rows: "concat (map node_line (drop i ?N)) = node_line (?N ! i) @ concat (map node_line (drop (Suc i) ?N))"
    using i by (simp add: Cons_nth_drop_Suc [symmetric])
  show ?case
  proof (rule term_cons_inv [OF Suc.prems(1), of w al h])
    assume "\<not> term_is_list t w" with lst show ?thesis by blast
  next
    assume "\<not> (generous al \<and> term_node_count t < 2 ^ 30)"
    then show ?thesis using gen small cnt Suc.prems(3) by simp
  next
    fix k assume "0 < k" "k < term_node_count t" "tn_nodes t ! k = (h, w)"
    then have "(h, w) \<in> set (tl (tn_nodes t))"
      by (auto simp: in_set_conv_nth nth_tl term_node_count_def intro!: exI [of _ "k - 1"])
    with new cell show ?thesis by simp
  next
    fix t' assume c: "term_cons al t h w = Some (handle (term_node_count t), t')" "term_inv t'"
      "tn_nodes t' = tn_nodes t @ [(h, w)]"
    have "handle (term_node_count t) \<noteq> 0"
      using handle_not_unbound [of i] cnt small Suc.prems(3) by simp
    moreover have "tn_nodes t' = take (Suc i) ?N"
      using c(3) Suc.prems(4) cell i by (simp add: take_Suc_conv_app_nth)
    ultimately show ?thesis
      using Suc.IH [OF c(2), of "Suc i"] c(1) i Suc.prems(3) next_node_line [OF gen] scan_node_line_ok cell
      unfolding rows by simp
  qed
qed

lemma term_load_save:
  assumes inv: "term_inv t" and gen: "generous al"
  shows "\<exists>r. term_load al (Some (term_text t)) = Some r \<and>
    (if term_node_count t \<le> TERM_MAX_NODES
     then (\<exists>t'. r = Some t' \<and> term_inv t' \<and> tn_nodes t' = tn_nodes t \<and> \<not> tn_dirty t') else r = None)"
proof -
  let ?n = "term_node_count t"
  have create: "\<exists>e. term_create al = Some e" using gen by (simp add: term_create_def generous_def)
  then obtain e where e: "term_create al = Some e" "term_inv e" "tn_nodes e = [(0, 0)]"
    using term_inv_init by blast
  have n: "1 \<le> ?n" "?n \<le> 2 ^ 64 - 1" using count_bound [OF inv] by auto
  let ?rows = "concat (map node_line (tn_nodes t))"
  have shape: "term_text t = dec ?n @ nl # ?rows" by (simp add: term_text_def)
  have line: "next_line al (term_text t) = Some (dec ?n @ [nl], ?rows)"
    unfolding shape using gen by (intro next_line_app nl_not_in_dec) (simp add: generous_def)
  have scan: "scan_unsigned (2 ^ 64 - 1) (dec ?n @ [nl]) = (?n, True, False, [nl])"
    using scan_unsigned_dec [OF n(2), of "[nl]" "[]"] sp_not_digit by simp
  show ?thesis
  proof (cases "?n \<le> TERM_MAX_NODES")
    case False
    then show ?thesis using e(1) line scan by (simp add: term_load_def)
  next
    case True
    obtain left where left: "?n = Suc left" using n(1) by (cases ?n) auto
    have N: "tn_nodes t = (0, 0) # tl (tn_nodes t)" using inv by (cases "tn_nodes t") (auto simp: term_inv_def)
    have rows: "?rows = node_line (0, 0) @ concat (map node_line (drop 1 (tn_nodes t)))"
      by (subst N) (simp add: drop_Suc)
    have "\<exists>t'. load_rows al left 1 (concat (map node_line (drop 1 (tn_nodes t)))) e = Some (Some t') \<and>
        term_inv t' \<and> tn_nodes t' = tn_nodes t"
      using True left e N by (intro load_rows_ok [OF inv gen]) (auto simp: TERM_MAX_NODES_def, metis take_0 take_Suc_Cons)
    then obtain t' where t': "load_rows al left 1 (concat (map node_line (drop 1 (tn_nodes t)))) e = Some (Some t')"
      "term_inv t'" "tn_nodes t' = tn_nodes t" by blast
    have "load_rows al ?n 0 ?rows e = Some (Some t')"
      unfolding left rows using t'(1) next_node_line [OF gen] scan_node_line_ok by simp
    moreover have "term_node_count t' = ?n" using t'(3) by (simp add: term_node_count_def)
    moreover have "term_inv (t'\<lparr>tn_dirty := False\<rparr>)"
      using t'(2) by (simp add: term_inv_def term_node_count_def ht_cap_def)
    ultimately show ?thesis using True e(1) line scan n(1) t'(3) by (simp add: term_load_def)
  qed
qed

subsection \<open>Properties\<close>

text \<open>C39: interning a cons cell into a well-formed store always returns, keeps the store well formed
  (every tail an earlier node, so that all walks end) and every denotation it had; a non-list
  tail gives 0 and no change; otherwise the handle denotes the head followed by the tail's list,
  is never 0xFFFFFFFF (the VM's unbound marker), and is 0 only when memory or the table's limit
  is exhausted.\<close>

theorem term_cons_correct:
  assumes "term_inv t"
  shows "\<exists>h t'. term_cons al t head tail = Some (h, t') \<and> term_inv t' \<and> cons_spec t head tail (h, t') \<and>
    h \<noteq> 0xFFFFFFFF \<and> (term_is_list t tail \<and> generous al \<and> term_node_count t < 2 ^ 30 \<longrightarrow> h \<noteq> 0)"
  using term_cons_ok [OF assms, of al head tail] by blast

theorem term_cons_correct_witness:
  "\<exists>t h t'. term_create (\<lambda>_ _. True) = Some t \<and> term_cons (\<lambda>_ _. True) t 7 TERM_NIL = Some (h, t') \<and>
     term_value t' h [7] \<and> h \<noteq> 0"
proof -
  obtain t where t: "term_create (\<lambda>_ _. True) = Some t" "term_inv t" "tn_nodes t = [(0, 0)]"
    using term_inv_init by (fastforce simp: term_create_def)
  have nil: "term_value t TERM_NIL []" using nil_is_list [OF t(2)] by (simp add: term_value_def)
  show ?thesis
    using term_cons_correct [OF t(2), of "\<lambda>_ _. True" 7 TERM_NIL] t(1,3) nil nil_is_list [OF t(2)]
    by (fastforce simp: cons_spec_def generous_def term_node_count_def)
qed

subsection \<open>Histories\<close>

text \<open>What a program does with a store: conses and appends, each under its own answers of the allocator; the handles
  they answer, in order. The outer \<open>None\<close> is a loop that does not end.\<close>

datatype term_op = CONS u32 u32 | APPEND u32 u32

fun run_op :: "allocator \<Rightarrow> term_op \<Rightarrow> termstore \<Rightarrow> (u32 \<times> termstore) option" where
  "run_op al (CONS x b) t = term_cons al t x b"
| "run_op al (APPEND a b) t = term_append al t a b"

fun run_terms :: "(allocator \<times> term_op) list \<Rightarrow> termstore \<Rightarrow> (u32 list \<times> termstore) option" where
  "run_terms [] t = Some ([], t)"
| "run_terms ((al, x) # xs) t =
     (case run_op al x t of
        None \<Rightarrow> None
      | Some (h, t1) \<Rightarrow> (case run_terms xs t1 of None \<Rightarrow> None | Some (hs, t2) \<Rightarrow> Some (h # hs, t2)))"

text \<open>What an answer means in a store: the handle of the list that was asked for, or 0.\<close>

fun answer_spec :: "termstore \<Rightarrow> term_op \<Rightarrow> u32 \<Rightarrow> bool" where
  "answer_spec t (CONS x b) h = (h = 0 \<or> (\<exists>ys. term_value t b ys \<and> term_value t h (x # ys)))"
| "answer_spec t (APPEND a b) h =
     (h = 0 \<or> (\<exists>xs ys. term_value t a xs \<and> term_value t b ys \<and> term_value t h (xs @ ys)))"

definition values_kept :: "termstore \<Rightarrow> termstore \<Rightarrow> bool" where
  "values_kept t t' \<longleftrightarrow> (\<forall>g ys. term_value t g ys \<longrightarrow> term_value t' g ys)"

lemma answer_kept: "answer_spec t x h \<Longrightarrow> values_kept t t' \<Longrightarrow> answer_spec t' x h"
  unfolding values_kept_def by (cases x) (simp_all, blast+)

lemma run_op_ok:
  assumes "term_inv t"
  shows "\<exists>h t'. run_op al x t = Some (h, t') \<and> term_inv t' \<and> values_kept t t' \<and> answer_spec t' x h"
proof (cases x)
  case (CONS v b)
  obtain h t' where c: "term_cons al t v b = Some (h, t')" "term_inv t'" "cons_spec t v b (h, t')"
    using term_cons_ok [OF assms, of al v b] by blast
  have "values_kept t t' \<and> answer_spec t' x h"
    using c(3) value_total [OF assms, of b] CONS by (auto simp: cons_spec_def values_kept_def split: if_splits)
  then show ?thesis using c(1,2) CONS by auto
next
  case (APPEND a b)
  obtain h t' where c: "term_append al t a b = Some (h, t')" "term_inv t'" "append_spec t a b (h, t')"
    using term_append_ok [OF assms, of al a b] by blast
  have "values_kept t t'" using c(3) by (simp add: append_spec_def values_kept_def)
  moreover have "answer_spec t' x h"
    using c(3) value_total [OF assms, of a] value_total [OF assms, of b] APPEND calculation
    unfolding append_spec_def values_kept_def by (auto split: if_splits)
  ultimately show ?thesis using c(1,2) APPEND by auto
qed

lemma run_terms_ok:
  "term_inv t \<Longrightarrow> \<exists>hs t'. run_terms ops t = Some (hs, t') \<and> term_inv t' \<and> values_kept t t' \<and>
     list_all2 (\<lambda>(al, x) h. answer_spec t' x h) ops hs"
proof (induction ops arbitrary: t)
  case Nil
  then show ?case by (simp add: values_kept_def)
next
  case (Cons op ops)
  obtain al x where op: "op = (al, x)" by (cases op)
  obtain h t1 where h: "run_op al x t = Some (h, t1)" "term_inv t1" "values_kept t t1" "answer_spec t1 x h"
    using run_op_ok [OF Cons.prems] by blast
  obtain hs t2 where hs: "run_terms ops t1 = Some (hs, t2)" "term_inv t2" "values_kept t1 t2"
    "list_all2 (\<lambda>(al, x) h. answer_spec t2 x h) ops hs" using Cons.IH [OF h(2)] by blast
  have "values_kept t t2" using h(3) hs(3) by (simp add: values_kept_def)
  then show ?case using h hs answer_kept [OF h(4) hs(3)] op by auto
qed

lemma handles_canonical:
  assumes "term_inv t" "term_is_list t g" "term_is_list t h"
  shows "\<exists>xs ys. term_value t g xs \<and> term_value t h ys \<and> (g = h \<longleftrightarrow> xs = ys)"
proof -
  obtain xs ys where v: "term_value t g xs" "term_value t h ys"
    using value_total [OF assms(1)] assms(2,3) by blast
  then have "g = h \<longleftrightarrow> xs = ys"
    using denotes_canonical [OF assms(1)] denotes_unique [OF assms(1)] unfolding term_value_def by blast
  with v show ?thesis by blast
qed

text \<open>C35: handles are canonical. Start from an empty store and do any conses and appends, each under any failures of memory:
  every one returns, and its answer, unless it is 0, is a handle that still denotes at the end the list that was asked for.
  In the store one ends with, two list handles are equal as integers exactly when they denote the same list, so
  that the VM's integer comparison is list equality.\<close>

theorem term_handles_canonical:
  assumes "term_create al = Some t0"
  shows "\<exists>hs t. run_terms ops t0 = Some (hs, t) \<and> list_all2 (\<lambda>(al, x) h. answer_spec t x h) ops hs \<and>
    (\<forall>g h. term_is_list t g \<and> term_is_list t h \<longrightarrow>
      (\<exists>xs ys. term_value t g xs \<and> term_value t h ys \<and> (g = h \<longleftrightarrow> xs = ys)))"
  using run_terms_ok [of t0 ops] term_inv_init [OF assms] handles_canonical by blast

text \<open>The list [7] consed twice is one handle.\<close>

theorem term_handles_canonical_witness:
  "\<exists>t0 h t. term_create (\<lambda>_ _. True) = Some t0 \<and>
     run_terms [(\<lambda>_ _. True, CONS 7 TERM_NIL), (\<lambda>_ _. True, CONS 7 TERM_NIL)] t0 = Some ([h, h], t) \<and> term_value t h [7]"
proof -
  let ?al = "(\<lambda>_ _. True) :: allocator"
  let ?ops = "[(?al, CONS 7 TERM_NIL), (?al, CONS 7 TERM_NIL)]"
  obtain t0 where t0: "term_create ?al = Some t0" "term_inv t0" "tn_nodes t0 = [(0, 0)]"
    using term_inv_init by (fastforce simp: term_create_def)
  obtain hs t where r: "run_terms ?ops t0 = Some (hs, t)" "list_all2 (\<lambda>(al, x) h. answer_spec t x h) ?ops hs"
    "\<forall>g h. term_is_list t g \<and> term_is_list t h \<longrightarrow> (\<exists>xs ys. term_value t g xs \<and> term_value t h ys \<and> (g = h \<longleftrightarrow> xs = ys))"
    using term_handles_canonical [OF t0(1), of ?ops] by blast
  obtain g t1 e1 where c1: "term_cons ?al t0 7 TERM_NIL = Some (g, t1)" "term_inv t1" "tn_nodes t1 = tn_nodes t0 @ e1" "length e1 \<le> 1" "g \<noteq> 0"
    using term_cons_ok [OF t0(2), of ?al 7 TERM_NIL] nil_is_list [OF t0(2)] t0(3) by (force simp: generous_def term_node_count_def)
  obtain h t2 where c2: "term_cons ?al t1 7 TERM_NIL = Some (h, t2)" "h \<noteq> 0" "term_inv t2"
    using term_cons_ok [OF c1(2), of ?al 7 TERM_NIL] nil_is_list [OF c1(2)] c1(3,4) t0(3) by (force simp: generous_def term_node_count_def)
  have e: "hs = [g, h]" "t = t2" using r(1) c1(1) c2(1) by simp_all
  obtain ys zs where v: "term_value t TERM_NIL ys" "term_value t g (7 # ys)" "term_value t TERM_NIL zs" "term_value t h (7 # zs)"
    using r(2) c1(5) c2(2) unfolding e(1) by auto
  have "term_value t TERM_NIL []" using nil_is_list [OF c2(3)] e(2) by (simp add: term_value_def)
  then have nil: "ys = []" "zs = []" using v(1,3) denotes_unique [OF c2(3)] e(2) by (simp_all add: term_value_def)
  then have "g = h" using r(3) v(2,4) denotes_unique [OF c2(3)] e(2) by (metis term_value_def)
  then show ?thesis using t0(1) r(1) e(1) v(2) nil by auto
qed

text \<open>The operations \<open>term_append\<close> and \<open>term_length\<close> always return on a well-formed store (their loops end); append
  gives a handle for the concatenation, \<open>b\<close> itself for an empty \<open>a\<close>, 0 for an operand that is not
  a list, and with memory and fewer than \<open>2\<^sup>2\<^sup>9\<close> nodes never fails; length counts the elements;
  car and cdr take the list apart.\<close>

theorem term_append_length_correct:
  assumes "term_inv t"
  shows "\<exists>h t' n. term_append al t a b = Some (h, t') \<and> term_inv t' \<and> append_spec t a b (h, t') \<and>
    (term_is_list t a \<and> term_is_list t b \<and> generous al \<and> term_node_count t < 2 ^ 29 \<longrightarrow> h \<noteq> 0) \<and>
    term_length t a = Some n \<and> length_spec t a n \<and> car_cdr_spec t a (term_car t a) (term_cdr t a)"
proof -
  obtain n where "term_length t a = Some n" "length_spec t a n" using term_length_ok [OF assms] by blast
  moreover have "2 * term_node_count t < 2 ^ 30" if "term_node_count t < 2 ^ 29" using that by simp
  ultimately show ?thesis using term_append_ok [OF assms, of al a b] car_cdr_ok [OF assms, of a] by blast
qed

theorem term_append_length_correct_witness:
  "\<exists>t h t'. term_create (\<lambda>_ _. True) = Some t \<and> term_append (\<lambda>_ _. True) t TERM_NIL TERM_NIL = Some (h, t') \<and>
     h = TERM_NIL \<and> term_length t TERM_NIL = Some 0"
proof -
  obtain t where t: "term_create (\<lambda>_ _. True) = Some t" "term_inv t"
    using term_inv_init by (fastforce simp: term_create_def)
  have "term_value t TERM_NIL []" using nil_is_list [OF t(2)] by (simp add: term_value_def)
  then show ?thesis
    using term_append_length_correct [OF t(2), of "\<lambda>_ _. True" TERM_NIL TERM_NIL] t(1) nil_is_list [OF t(2)]
    by (auto simp: append_spec_def length_spec_def unat_eq_zero)
qed

text \<open>C37: saving is atomic, and loading reads back the same store.  Whatever calls fail, the file holds its old
  content or the complete new text; after a successful save, loading the file returns, and gives a
  well-formed clean store with the same nodes in the same order (so the same handles) when there
  are at most \<open>2\<^sup>2\<^sup>6\<close> nodes; a larger store, which \<open>term_save\<close> writes without complaint, is refused
  as corrupt.\<close>

theorem term_save_load_roundtrip:
  assumes "term_inv t" "length path \<le> 8187" "generous al'"
    and save: "term_save io al t path fs = (rc, t', fs')"
  shows "atomic_spec path (term_text t) fs (rc, fs') \<and> tn_nodes t' = tn_nodes t \<and>
    (rc = 0 \<longrightarrow> \<not> tn_dirty t' \<and> (\<exists>r. term_load al' (fs' path) = Some r \<and>
       (if term_node_count t \<le> 2 ^ 26
        then \<exists>u. r = Some u \<and> term_inv u \<and> tn_nodes u = tn_nodes t \<and> \<not> tn_dirty u else r = None)))"
proof -
  obtain rc0 fs0 where a: "atomic_replace True io al path (term_text t) fs = (rc0, fs0)" by fastforce
  with atomic_replace_ok [OF assms(2), of "term_text t" fs True io al]
  have spec: "atomic_spec path (term_text t) fs (rc0, fs0)" by simp
  have res: "rc = rc0 \<and> fs' = fs0 \<and> tn_nodes t' = tn_nodes t \<and> (rc = 0 \<longrightarrow> \<not> tn_dirty t')"
    using save a spec by (auto simp: term_save_def atomic_spec_def split: if_splits)
  with spec have "rc = 0 \<Longrightarrow> fs' path = Some (term_text t)" by (simp add: atomic_spec_def)
  with res spec term_load_save [OF assms(1,3)] show ?thesis by (auto simp: TERM_MAX_NODES_def)
qed

theorem term_save_load_roundtrip_witness:
  "\<exists>t t' fs' u. term_create (\<lambda>_ _. True) = Some t \<and>
     term_save all_ok (\<lambda>_ _. True) t ''terms.bin'' (\<lambda>_. None) = (0, t', fs') \<and>
     term_load (\<lambda>_ _. True) (fs' ''terms.bin'') = Some (Some u) \<and> tn_nodes u = [(0, 0)]"
proof -
  obtain t where t: "term_create (\<lambda>_ _. True) = Some t" "term_inv t" "tn_nodes t = [(0, 0)]"
    using term_inv_init by (fastforce simp: term_create_def)
  obtain rc t' fs' where r: "term_save all_ok (\<lambda>_ _. True) t ''terms.bin'' (\<lambda>_. None) = (rc, t', fs')"
    by (metis prod_cases3)
  have "rc = 0" using r atomic_replace_all_ok [of True "''terms.bin''" "term_text t" "\<lambda>_. None"]
    by (auto simp: term_save_def split: prod.splits if_splits)
  with term_save_load_roundtrip [OF t(2) _ _ r, of "\<lambda>_ _. True"] t r show ?thesis
    by (auto simp: generous_def term_node_count_def)
qed

end
