(* ===== verification/TxnWal.thy ===== *)
theory TxnWal
  imports Posix
begin

text \<open>
  The transaction write-ahead log of \<^verbatim>\<open>src/txnwal.h\<close>, as \<^verbatim>\<open>zig/src/txnwal.zig\<close> implements it, over
  the bytes of \<^verbatim>\<open><db_dir>/txn.wal\<close>.  \<open>crc\<close>, the CRC-32 of the DAFSA library (a git submodule), is a
  parameter: no property here needs more of it than that it is a function.  An operation that
  may fail half way takes an \<open>io\<close> and, where it allocates, an \<open>allocator\<close>; the file it leaves is part of its
  result.  Null pointers, which every exported function rejects first, are not modelled.
\<close>

type_synonym crc_fun = "bytes \<Rightarrow> u32"

definition TXNWAL_OP_ADD :: u8 where "TXNWAL_OP_ADD = 1"
definition TXNWAL_OP_DEL :: u8 where "TXNWAL_OP_DEL = 2"
definition TXNWAL_OP_COMMIT :: u8 where "TXNWAL_OP_COMMIT = 3"

record wal_rec =
  wr_rel :: bytes
  wr_op :: u8
  wr_key :: bytes

text \<open>An open log: the file and the handle's notion of its size.\<close>

record txnwal =
  wl_file :: bytes
  wl_size :: nat

text \<open>\<open>Overflow\<close>: a record that is there in full and whose length does not fit the 32 bits it is cast to, which the code does
  not survive; the scans below do nothing with it, and no theorem is about a log that has one.\<close>

datatype validated = Valid wal_rec nat | Corrupt | Torn | Overflow

subsection \<open>Little-endian integers\<close>

fun le_bytes :: "nat \<Rightarrow> nat \<Rightarrow> bytes" where
  "le_bytes 0 n = []"
| "le_bytes (Suc k) n = of_nat n # le_bytes k (n div 256)"

fun le_value :: "bytes \<Rightarrow> nat" where
  "le_value [] = 0"
| "le_value (b # bs) = unat b + 256 * le_value bs"

definition txnwalReadU16 :: "bytes \<Rightarrow> nat option" where
  "txnwalReadU16 p = (if length p < 2 then None else Some (le_value (take 2 p)))"

definition txnwalReadU32 :: "bytes \<Rightarrow> nat option" where
  "txnwalReadU32 p = (if length p < 4 then None else Some (le_value (take 4 p)))"

subsection \<open>Records\<close>

definition record_body :: "bytes \<Rightarrow> u8 \<Rightarrow> bytes \<Rightarrow> bytes" where
  "record_body rel op key = le_bytes 2 (length rel) @ rel @ [op] @ le_bytes 4 (length key) @ key"

definition encode_record :: "crc_fun \<Rightarrow> wal_rec \<Rightarrow> bytes" where
  "encode_record crc r =
     (let body = record_body (wr_rel r) (wr_op r) (wr_key r) in body @ le_bytes 4 (unat (crc body)))"

definition txnwalValidateRecord :: "crc_fun \<Rightarrow> bytes \<Rightarrow> validated" where
  "txnwalValidateRecord crc p =
     (let rem = length p in
      if rem < 11 then Torn
      else case txnwalReadU16 p of
        None \<Rightarrow> Torn
      | Some rlen \<Rightarrow>
          if 2 + rlen + 1 + 4 + 4 > rem then Torn
          else
            let op = p ! (2 + rlen) in
            if op \<noteq> TXNWAL_OP_ADD \<and> op \<noteq> TXNWAL_OP_DEL \<and> op \<noteq> TXNWAL_OP_COMMIT then Corrupt
            else if op = TXNWAL_OP_COMMIT \<and> rlen \<noteq> 0 then Corrupt
            else case txnwalReadU32 (drop (2 + rlen + 1) p) of
              None \<Rightarrow> Torn
            | Some klen \<Rightarrow>
                if 2 + rlen + 1 + 4 + klen + 4 > rem then Torn
                else
                  let body = 2 + rlen + 1 + 4 + klen in
                  case txnwalReadU32 (drop body p) of
                    None \<Rightarrow> Torn
                  | Some stored_crc \<Rightarrow>
                      if unat (crc (take body p)) \<noteq> stored_crc then Corrupt
                      else if body + 4 \<ge> 2 ^ 32 then Overflow
                      else Valid \<lparr>wr_rel = take rlen (drop 2 p), wr_op = op,
                                  wr_key = take klen (drop (2 + rlen + 1 + 4) p)\<rparr> (body + 4))"

text \<open>A valid record takes at least 11 bytes and no more than there are: the scans below advance.\<close>

lemma validate_bounds: "txnwalValidateRecord crc p = Valid r n \<Longrightarrow> 11 \<le> n \<and> n \<le> length p"
  by (auto simp: txnwalValidateRecord_def Let_def split: if_splits option.splits)

subsection \<open>Header and scan\<close>

definition header_prefix :: bytes where
  "header_prefix = [0x44, 0x54, 0x58, 0x4C, 1, 0, 0, 0, 0, 0, 0, 0]"

definition wal_header :: "crc_fun \<Rightarrow> bytes" where
  "wal_header crc = header_prefix @ le_bytes 4 (unat (crc header_prefix))"

definition txnwalValidateHeader :: "crc_fun \<Rightarrow> bytes \<Rightarrow> bool" where
  "txnwalValidateHeader crc m \<longleftrightarrow>
     length m \<ge> 16 \<and> take 4 m = [0x44, 0x54, 0x58, 0x4C] \<and>
     txnwalReadU32 (drop 4 m) = Some 1 \<and>
     txnwalReadU32 (drop 12 m) = Some (unat (crc (take 12 m)))"

text \<open>The scan from offset \<open>off\<close>: the end of the last valid COMMIT marker, \<open>good\<close> so far.\<close>

function wal_scan :: "crc_fun \<Rightarrow> bytes \<Rightarrow> nat \<Rightarrow> nat \<Rightarrow> nat" where
  "wal_scan crc p off good =
     (if p = [] then good
      else case txnwalValidateRecord crc p of
        Valid r n \<Rightarrow>
          wal_scan crc (drop n p) (off + n) (if wr_op r = TXNWAL_OP_COMMIT then off + n else good)
      | _ \<Rightarrow> good)"
  by pat_completeness auto
termination
  by (relation "measure (\<lambda>(crc, p, off, good). length p)") (auto dest: validate_bounds)

declare wal_scan.simps [simp del]

definition txnwalCommittedEnd :: "crc_fun \<Rightarrow> bytes \<Rightarrow> nat option" where
  "txnwalCommittedEnd crc m =
     (if \<not> txnwalValidateHeader crc m then None else Some (wal_scan crc (drop 16 m) 16 16))"

subsection \<open>Lifecycle\<close>

text \<open>Writing the header to an empty file: a short or failing \<^verbatim>\<open>write\<close> leaves the bytes it got to.\<close>

definition txnwalWriteHeader :: "crc_fun \<Rightarrow> io \<Rightarrow> int \<times> bytes" where
  "txnwalWriteHeader crc io =
     (if \<not> io_ok io ''write'' then (-1, take (io_written io) (wal_header crc))
      else if io_ok io ''fsync'' then (0, wal_header crc) else (-1, wal_header crc))"

definition txnwalPath :: "string \<Rightarrow> string" where
  "txnwalPath db_dir = db_dir @ ''/txn.wal''"

definition txnwal_open_rw :: "crc_fun \<Rightarrow> io \<Rightarrow> allocator \<Rightarrow> string \<Rightarrow> files \<Rightarrow> txnwal option \<times> files" where
  "txnwal_open_rw crc io al db_dir fs =
     (let path = txnwalPath db_dir in
      if \<not> al ''txnwalPath'' (length path + 1) \<or> \<not> io_ok io ''open'' then (None, fs)
      else
        let m = (case fs path of None \<Rightarrow> [] | Some m \<Rightarrow> m);
            fs1 = fs(path := Some m) in
        if \<not> io_ok io ''statx'' \<or> \<not> al ''txnwal_open_rw'' 16 then (None, fs1)
        else if m = [] then
          (case txnwalWriteHeader crc io of (rc, m') \<Rightarrow>
             (if rc = 0 then Some \<lparr>wl_file = m', wl_size = 16\<rparr> else None, fs1(path := Some m')))
        else if \<not> io_ok io ''mmap'' then (None, fs1)
        else case txnwalCommittedEnd crc m of
          None \<Rightarrow>
            if length m = 16 then
              if \<not> io_ok io ''ftruncate'' then (None, fs1)
              else case txnwalWriteHeader crc io of (rc, m') \<Rightarrow>
                (if rc = 0 then Some \<lparr>wl_file = m', wl_size = 16\<rparr> else None, fs1(path := Some m'))
            else (None, fs1)
        | Some e \<Rightarrow>
            if e < length m then
              if io_ok io ''ftruncate'' then (Some \<lparr>wl_file = take e m, wl_size = e\<rparr>, fs1(path := Some (take e m)))
              else (None, fs1)
            else (Some \<lparr>wl_file = m, wl_size = e\<rparr>, fs1))"

definition txnwal_open_ro :: "crc_fun \<Rightarrow> io \<Rightarrow> allocator \<Rightarrow> string \<Rightarrow> files \<Rightarrow> txnwal option" where
  "txnwal_open_ro crc io al db_dir fs =
     (let path = txnwalPath db_dir in
      if \<not> al ''txnwalPath'' (length path + 1) \<or> \<not> io_ok io ''open'' then None
      else case fs path of
        None \<Rightarrow> None
      | Some m \<Rightarrow>
          if \<not> io_ok io ''statx'' \<or> length m < 16 \<or> \<not> al ''txnwal_open_ro'' 16 \<or> \<not> io_ok io ''mmap'' then None
          else case txnwalCommittedEnd crc m of
            None \<Rightarrow> None
          | Some e \<Rightarrow> Some \<lparr>wl_file = m, wl_size = e\<rparr>)"

subsection \<open>Appending\<close>

definition txnwalWriteAll :: "io \<Rightarrow> bytes \<Rightarrow> txnwal \<Rightarrow> int \<times> txnwal" where
  "txnwalWriteAll io buf w =
     (if io_ok io ''write'' then (0, w\<lparr>wl_file := wl_file w @ buf, wl_size := wl_size w + length buf\<rparr>)
      else (-1, w\<lparr>wl_file := wl_file w @ take (io_written io) buf\<rparr>))"

definition txnwal_append_record :: "crc_fun \<Rightarrow> io \<Rightarrow> allocator \<Rightarrow> txnwal \<Rightarrow> bytes \<Rightarrow> u8 \<Rightarrow> bytes \<Rightarrow> int \<times> txnwal" where
  "txnwal_append_record crc io al w rel op key =
     (if op \<noteq> TXNWAL_OP_ADD \<and> op \<noteq> TXNWAL_OP_DEL then (-1, w)
      else if rel = [] then (-1, w)
      else let buf = encode_record crc \<lparr>wr_rel = rel, wr_op = op, wr_key = key\<rparr> in
        if \<not> al ''txnwal_append_record'' (length buf) then (-1, w)
        else txnwalWriteAll io buf w)"

definition commit_marker :: wal_rec where
  "commit_marker = \<lparr>wr_rel = [], wr_op = TXNWAL_OP_COMMIT, wr_key = []\<rparr>"

definition txnwal_append_commit :: "crc_fun \<Rightarrow> io \<Rightarrow> txnwal \<Rightarrow> int \<times> txnwal" where
  "txnwal_append_commit crc io w = txnwalWriteAll io (encode_record crc commit_marker) w"

definition txnwal_sync :: "io \<Rightarrow> int" where
  "txnwal_sync io = (if io_ok io ''fsync'' then 0 else -1)"

text \<open>\<^verbatim>\<open>ftruncate\<close> beyond the end of the file extends it with zero bytes.\<close>

definition txnwal_truncate :: "io \<Rightarrow> int \<Rightarrow> txnwal \<Rightarrow> int \<times> txnwal" where
  "txnwal_truncate io offset w =
     (let off = nat (if offset < 16 then 16 else offset);
          w1 = w\<lparr>wl_file := take off (wl_file w) @ replicate (off - length (wl_file w)) 0\<rparr> in
      if \<not> io_ok io ''ftruncate'' then (-1, w)
      else if \<not> io_ok io ''fsync'' then (-1, w1)
      else (0, w1\<lparr>wl_size := off\<rparr>))"

subsection \<open>Replay\<close>

text \<open>The callback is given every record of the committed prefix that is not a COMMIT, in order, and
  stops the replay with a non-zero code.\<close>

type_synonym 's replay_cb = "wal_rec \<Rightarrow> 's \<Rightarrow> int \<times> 's"

function wal_deliver :: "crc_fun \<Rightarrow> 's replay_cb \<Rightarrow> bytes \<Rightarrow> 's \<Rightarrow> int \<times> 's" where
  "wal_deliver crc cb p s =
     (if p = [] then (0, s)
      else case txnwalValidateRecord crc p of
        Valid r n \<Rightarrow>
          if wr_op r = TXNWAL_OP_COMMIT then wal_deliver crc cb (drop n p) s
          else (case cb r s of (rc, s') \<Rightarrow> if rc \<noteq> 0 then (-1, s') else wal_deliver crc cb (drop n p) s')
      | _ \<Rightarrow> (-1, s))"
  by pat_completeness auto
termination
  by (relation "measure (\<lambda>(crc, cb, p, s). length p)") (auto dest: validate_bounds)

declare wal_deliver.simps [simp del]

definition txnwal_replay :: "crc_fun \<Rightarrow> io \<Rightarrow> txnwal \<Rightarrow> 's replay_cb \<Rightarrow> 's \<Rightarrow> (int \<times> 's) \<times> nat option" where
  "txnwal_replay crc io w cb s =
     (if \<not> io_ok io ''statx'' \<or> length (wl_file w) < 16 \<or> \<not> io_ok io ''mmap'' then ((-1, s), None)
      else case txnwalCommittedEnd crc (wl_file w) of
        None \<Rightarrow> ((-1, s), None)
      | Some e \<Rightarrow> (wal_deliver crc cb (drop 16 (take e (wl_file w))) s, Some e))"

subsection \<open>Encoding round trip\<close>

lemma length_le_bytes [simp, codec]: "length (le_bytes k n) = k"
  by (induction k arbitrary: n) auto

lemma le_value_bytes [codec]: "le_value (le_bytes k n) = n mod 256 ^ k"
proof (induction k arbitrary: n)
  case (Suc k)
  have "unat (of_nat n :: u8) = n mod 256" by (simp add: unat_of_nat)
  then show ?case using Suc mod_mult2_eq [of n 256 "256 ^ k"] by simp
qed simp

definition wf_rec :: "wal_rec \<Rightarrow> bool" where
  "wf_rec r \<longleftrightarrow> length (wr_rel r) < 2 ^ 16 \<and> 2 + length (wr_rel r) + 1 + 4 + length (wr_key r) + 4 < 2 ^ 32 \<and>
     (wr_op r = TXNWAL_OP_ADD \<or> wr_op r = TXNWAL_OP_DEL \<or> wr_op r = TXNWAL_OP_COMMIT \<and> wr_rel r = [])"

lemma drop_parts: "drop (length a + length b + length c) (a @ b @ c @ d) = d"
  by simp

lemma op_codes: "TXNWAL_OP_ADD \<noteq> TXNWAL_OP_COMMIT" "TXNWAL_OP_DEL \<noteq> TXNWAL_OP_COMMIT"
  by (simp_all add: TXNWAL_OP_ADD_def TXNWAL_OP_DEL_def TXNWAL_OP_COMMIT_def)

lemma length_encode: "length (encode_record crc r) = 2 + length (wr_rel r) + 1 + 4 + length (wr_key r) + 4"
  by (simp add: encode_record_def record_body_def Let_def)

text \<open>The reader on a record and whatever follows it, cut anywhere: it needs all of the record, and then
  gives it back.\<close>

lemma validate_take_encode:
  assumes wf: "wf_rec r" and k: "k \<le> length (encode_record crc r @ rest)"
  shows "txnwalValidateRecord crc (take k (encode_record crc r @ rest)) =
    (if k < length (encode_record crc r) then Torn else Valid r (length (encode_record crc r)))"
proof -
  obtain rel op key where r: "r = \<lparr>wr_rel = rel, wr_op = op, wr_key = key\<rparr>" by (cases r) auto
  let ?b = "record_body rel op key"
  let ?c = "le_bytes 4 (unat (crc ?b))"
  let ?p = "take k (encode_record crc r @ rest)"
  let ?rl = "length rel" and ?kl = "length key"
  have enc: "encode_record crc r @ rest = le_bytes 2 ?rl @ rel @ op # le_bytes 4 ?kl @ key @ ?c @ rest"
    by (simp add: r encode_record_def record_body_def Let_def)
  have full: "length (encode_record crc r) = 2 + ?rl + 1 + 4 + ?kl + 4" by (simp add: length_encode r)
  have lenp: "length ?p = k" using k by simp
  have u16: "txnwalReadU16 ?p = Some ?rl" if "2 \<le> k"
    using that wf lenp unfolding enc
    by (simp add: txnwalReadU16_def le_value_bytes r wf_rec_def min_absorb1)
  have op: "?p ! (2 + ?rl) = op" if "2 + ?rl < k"
    using that unfolding enc by (simp add: nth_append)
  have u32: "txnwalReadU32 (drop (2 + ?rl + 1) ?p) = Some ?kl" if "2 + ?rl + 1 + 4 \<le> k"
  proof -
    have "drop (2 + ?rl + 1) ?p = take (k - (2 + ?rl + 1)) (le_bytes 4 ?kl @ key @ ?c @ rest)"
      using drop_parts [of "le_bytes 2 ?rl" rel "[op]" "le_bytes 4 ?kl @ key @ ?c @ rest"]
      unfolding enc drop_take by simp
    then show ?thesis using that wf by (simp add: txnwalReadU32_def le_value_bytes r wf_rec_def min_absorb1)
  qed
  have crcw: "txnwalReadU32 (drop (2 + ?rl + 1 + 4 + ?kl) ?p) = Some (unat (crc ?b))"
    and body: "take (2 + ?rl + 1 + 4 + ?kl) ?p = ?b"
    and parts: "take ?rl (drop 2 ?p) = rel" "take ?kl (drop (2 + ?rl + 1 + 4) ?p) = key"
    if "2 + ?rl + 1 + 4 + ?kl + 4 \<le> k"
  proof -
    have "drop (2 + ?rl + 1 + 4 + ?kl) ?p = take (k - (2 + ?rl + 1 + 4 + ?kl)) (?c @ rest)"
      using drop_parts [of "le_bytes 2 ?rl" rel "[op] @ le_bytes 4 ?kl @ key" "?c @ rest"]
      unfolding enc drop_take by (simp add: add.assoc)
    then show "txnwalReadU32 (drop (2 + ?rl + 1 + 4 + ?kl) ?p) = Some (unat (crc ?b))"
      using that unat_u32_less [of "crc ?b"] by (simp add: txnwalReadU32_def le_value_bytes min_absorb1)
    show "take (2 + ?rl + 1 + 4 + ?kl) ?p = ?b"
    proof -
      have "encode_record crc r @ rest = ?b @ ?c @ rest" by (simp add: r encode_record_def Let_def)
      moreover have "2 + ?rl + 1 + 4 + ?kl = length ?b" by (simp add: record_body_def)
      ultimately show ?thesis using that by (simp add: min_absorb1)
    qed
    show "take ?rl (drop 2 ?p) = rel"
      using that drop_parts [of "[]" "[]" "le_bytes 2 ?rl" "rel @ op # le_bytes 4 ?kl @ key @ ?c @ rest"]
      unfolding enc drop_take by (simp add: min_absorb1)
    show "take ?kl (drop (2 + ?rl + 1 + 4) ?p) = key"
      using that drop_parts [of "le_bytes 2 ?rl" rel "[op] @ le_bytes 4 ?kl" "key @ ?c @ rest"]
      unfolding enc drop_take by (simp add: add.assoc min_absorb1)
  qed
  have ops: "(op \<noteq> TXNWAL_OP_ADD \<and> op \<noteq> TXNWAL_OP_DEL \<and> op \<noteq> TXNWAL_OP_COMMIT) = False"
    "(op = TXNWAL_OP_COMMIT \<and> 0 < ?rl) = False"
    using wf by (auto simp: wf_rec_def r op_codes op_codes [symmetric])
  have fit: "?rl + ?kl < 4294967285" using wf by (simp add: wf_rec_def r)
  obtain rl kl where l: "?rl = rl" "?kl = kl" by simp
  note facts = u16 [unfolded l] op [unfolded l] u32 [unfolded l] ops [unfolded l] crcw [unfolded l] body [unfolded l]
    parts [unfolded l]
  consider (a) "k < 11" | (b) "11 \<le> k" "k < 2 + ?rl + 9" | (c) "2 + ?rl + 9 \<le> k" "k < 2 + ?rl + 1 + 4 + ?kl + 4"
    | (d) "2 + ?rl + 1 + 4 + ?kl + 4 \<le> k" by linarith
  then show ?thesis
  proof cases
    case a
    then show ?thesis using full lenp by (simp add: txnwalValidateRecord_def)
  next
    case b
    then show ?thesis using full lenp facts(1) unfolding l
      by (simp add: txnwalValidateRecord_def Let_def del: length_take)
  next
    case c
    then show ?thesis using full lenp facts(1-3) unfolding l
      by (simp add: txnwalValidateRecord_def Let_def facts(4,5) del: length_take de_Morgan_conj)
  next
    case d
    then show ?thesis using full lenp fit facts(1-3,6-) unfolding l
      by (simp add: txnwalValidateRecord_def Let_def r facts(4,5) del: length_take de_Morgan_conj)
  qed
qed

subsection \<open>Transactions in the log\<close>

text \<open>
  The file as the header describes it: a transaction is its records, none of them a COMMIT,
  followed by a COMMIT marker; the log is the 16-byte header and the transactions.
\<close>

definition wf_op :: "wal_rec \<Rightarrow> bool" where
  "wf_op r \<longleftrightarrow> wf_rec r \<and> wr_op r \<noteq> TXNWAL_OP_COMMIT"

definition encode_txn :: "crc_fun \<Rightarrow> wal_rec list \<Rightarrow> bytes" where
  "encode_txn crc ops = concat (map (encode_record crc) ops) @ encode_record crc commit_marker"

definition wal_image :: "crc_fun \<Rightarrow> wal_rec list list \<Rightarrow> bytes" where
  "wal_image crc txns = wal_header crc @ concat (map (encode_txn crc) txns)"

lemma wf_commit: "wf_rec commit_marker"
  by (simp add: wf_rec_def commit_marker_def)

lemma validate_encode:
  "wf_rec r \<Longrightarrow> txnwalValidateRecord crc (encode_record crc r @ rest) = Valid r (length (encode_record crc r))"
  using validate_take_encode [of r "length (encode_record crc r @ rest)" crc rest] by simp

lemma validate_cut:
  assumes "wf_rec r" "k < length (encode_record crc r)"
  shows "txnwalValidateRecord crc (take k (encode_record crc r)) = Torn"
  using validate_take_encode [of r k crc "[]"] assms by simp

lemma encode_ne: "encode_record crc r \<noteq> []"
  using length_encode [of crc r] by (metis list.size(3) add_is_0 zero_neq_numeral)

lemma scan_step:
  assumes "wf_rec r"
  shows "wal_scan crc (encode_record crc r @ rest) off good =
    wal_scan crc rest (off + length (encode_record crc r))
      (if wr_op r = TXNWAL_OP_COMMIT then off + length (encode_record crc r) else good)"
  using validate_encode [OF assms, of crc rest] encode_ne [of crc r] by (subst wal_scan.simps) simp

lemma scan_ops:
  "\<forall>r \<in> set ops. wf_op r \<Longrightarrow> wal_scan crc (concat (map (encode_record crc) ops) @ rest) off good =
     wal_scan crc rest (off + length (concat (map (encode_record crc) ops))) good"
  by (induction ops arbitrary: off) (auto simp: scan_step wf_op_def add.assoc)

lemma scan_txn:
  assumes "\<forall>r \<in> set ops. wf_op r"
  shows "wal_scan crc (encode_txn crc ops @ rest) off good =
    wal_scan crc rest (off + length (encode_txn crc ops)) (off + length (encode_txn crc ops))"
  using scan_ops [OF assms, of crc "encode_record crc commit_marker @ rest" off good]
    scan_step [OF wf_commit, of crc rest]
  by (simp add: encode_txn_def commit_marker_def add.assoc)

lemma scan_txns:
  "\<forall>ops \<in> set txns. \<forall>r \<in> set ops. wf_op r \<Longrightarrow>
   wal_scan crc (concat (map (encode_txn crc) txns) @ rest) off off =
     wal_scan crc rest (off + length (concat (map (encode_txn crc) txns))) (off + length (concat (map (encode_txn crc) txns)))"
  by (induction txns arbitrary: off) (auto simp: scan_txn add.assoc)

lemma wal_scan_Nil [simp]: "wal_scan crc [] off good = good"
  by (simp add: wal_scan.simps)

text \<open>A transaction cut before its last byte commits nothing.\<close>

lemma scan_cut_record:
  assumes "wf_rec r" "k < length (encode_record crc r)"
  shows "wal_scan crc (take k (encode_record crc r)) off good = good"
  using validate_cut [OF assms] by (subst wal_scan.simps) simp

lemma scan_cut:
  "\<lbrakk>\<forall>r \<in> set ops. wf_op r; k < length (encode_txn crc ops)\<rbrakk> \<Longrightarrow>
   wal_scan crc (take k (encode_txn crc ops)) off good = good"
proof (induction ops arbitrary: k off)
  case Nil
  then show ?case by (simp add: encode_txn_def scan_cut_record wf_commit)
next
  case (Cons r ops)
  have eq: "encode_txn crc (r # ops) = encode_record crc r @ encode_txn crc ops" by (simp add: encode_txn_def)
  have wf: "wf_rec r" "wr_op r \<noteq> TXNWAL_OP_COMMIT" using Cons.prems(1) by (auto simp: wf_op_def)
  show ?case
  proof (cases "k < length (encode_record crc r)")
    case True
    then show ?thesis unfolding eq using scan_cut_record [OF wf(1) True] by simp
  next
    case False
    then show ?thesis unfolding eq
      using scan_step [OF wf(1)] wf(2) Cons.IH [of "k - length (encode_record crc r)"] Cons.prems eq by simp
  qed
qed

lemma header_ok: "txnwalValidateHeader crc (wal_header crc @ rest)"
proof -
  have h: "wal_header crc @ rest = header_prefix @ le_bytes 4 (unat (crc header_prefix)) @ rest"
    by (simp add: wal_header_def)
  have l: "length header_prefix = 12" by (simp add: header_prefix_def)
  have "take 4 (header_prefix @ c) = [0x44, 0x54, 0x58, 0x4C]" "take 12 (header_prefix @ c) = header_prefix"
    "txnwalReadU32 (drop 4 (header_prefix @ c)) = Some 1" "drop 12 (header_prefix @ c) = c" for c
    by (simp_all add: header_prefix_def txnwalReadU32_def)
  moreover have "txnwalReadU32 (le_bytes 4 (unat (crc header_prefix)) @ rest) = Some (unat (crc header_prefix))"
    using unat_u32_less [of "crc header_prefix"] by (simp add: txnwalReadU32_def le_value_bytes)
  ultimately show ?thesis unfolding h by (simp add: txnwalValidateHeader_def l)
qed

lemma length_header [simp]: "length (wal_header crc) = 16"
  by (simp add: wal_header_def header_prefix_def)

lemma committed_end_image:
  assumes "\<forall>ops \<in> set txns. \<forall>r \<in> set ops. wf_op r" "\<And>off. wal_scan crc tail off off = off"
  shows "txnwalCommittedEnd crc (wal_image crc txns @ tail) = Some (length (wal_image crc txns))"
  using scan_txns [OF assms(1), of crc tail 16] assms(2) header_ok
  by (simp add: txnwalCommittedEnd_def wal_image_def)

subsection \<open>Delivery\<close>

fun deliver_list :: "'s replay_cb \<Rightarrow> wal_rec list \<Rightarrow> 's \<Rightarrow> int \<times> 's" where
  "deliver_list cb [] s = (0, s)"
| "deliver_list cb (r # rs) s = (case cb r s of (rc, s') \<Rightarrow> if rc \<noteq> 0 then (-1, s') else deliver_list cb rs s')"

lemma deliver_list_append:
  "deliver_list cb (xs @ ys) s =
     (case deliver_list cb xs s of (rc, s') \<Rightarrow> if rc \<noteq> 0 then (rc, s') else deliver_list cb ys s')"
  by (induction xs arbitrary: s) (auto split: prod.splits)

lemma wal_deliver_Nil [simp]: "wal_deliver crc cb [] s = (0, s)"
  by (simp add: wal_deliver.simps)

lemma deliver_step:
  "wf_rec r \<Longrightarrow> wal_deliver crc cb (encode_record crc r @ rest) s =
     (if wr_op r = TXNWAL_OP_COMMIT then wal_deliver crc cb rest s
      else case cb r s of (rc, s') \<Rightarrow> if rc \<noteq> 0 then (-1, s') else wal_deliver crc cb rest s')"
  using validate_encode [of r crc rest] encode_ne [of crc r]
  by (subst wal_deliver.simps) (simp split: prod.splits)

lemma deliver_ops:
  "\<forall>r \<in> set ops. wf_op r \<Longrightarrow> wal_deliver crc cb (concat (map (encode_record crc) ops) @ rest) s =
     (case deliver_list cb ops s of (rc, s') \<Rightarrow> if rc \<noteq> 0 then (-1, s') else wal_deliver crc cb rest s')"
  by (induction ops arbitrary: s) (auto simp: deliver_step wf_op_def split: prod.splits)

lemma deliver_rc: "deliver_list cb ops s = (rc, s') \<Longrightarrow> rc = 0 \<or> rc = -1"
  by (induction ops arbitrary: s) (auto split: prod.splits if_splits)

lemma deliver_txn:
  "\<forall>r \<in> set ops. wf_op r \<Longrightarrow> wal_deliver crc cb (encode_txn crc ops @ rest) s =
     (case deliver_list cb ops s of (rc, s') \<Rightarrow> if rc \<noteq> 0 then (rc, s') else wal_deliver crc cb rest s')"
  using deliver_ops [of ops crc cb "encode_record crc commit_marker @ rest" s]
    deliver_step [OF wf_commit, of crc cb rest] deliver_rc [of cb ops s]
  by (auto simp: encode_txn_def commit_marker_def split: prod.splits)

lemma deliver_txns:
  "\<forall>ops \<in> set txns. \<forall>r \<in> set ops. wf_op r \<Longrightarrow>
   wal_deliver crc cb (concat (map (encode_txn crc) txns)) s = deliver_list cb (concat txns) s"
  by (induction txns arbitrary: s) (auto simp: deliver_txn deliver_list_append split: prod.splits)

subsection \<open>The contract of the header\<close>

text \<open>A clean handle: its file is a committed prefix and its size is the file's.\<close>

definition wal_clean :: "crc_fun \<Rightarrow> txnwal \<Rightarrow> bool" where
  "wal_clean crc w \<longleftrightarrow> txnwalCommittedEnd crc (wl_file w) = Some (length (wl_file w)) \<and> wl_size w = length (wl_file w)"

definition open_rw_spec :: "crc_fun \<Rightarrow> string \<Rightarrow> files \<Rightarrow> txnwal option \<times> files \<Rightarrow> bool" where
  "open_rw_spec crc db_dir fs res \<longleftrightarrow> (case res of
     (None, fs') \<Rightarrow> \<forall>p. p \<noteq> txnwalPath db_dir \<longrightarrow> fs' p = fs p
   | (Some w, fs') \<Rightarrow> wal_clean crc w \<and> fs' = fs(txnwalPath db_dir := Some (wl_file w)) \<and>
       (\<forall>m e. fs (txnwalPath db_dir) = Some m \<and> txnwalCommittedEnd crc m = Some e \<longrightarrow> wl_file w = take e m))"

definition open_ro_spec :: "crc_fun \<Rightarrow> string \<Rightarrow> files \<Rightarrow> txnwal option \<Rightarrow> bool" where
  "open_ro_spec crc db_dir fs res \<longleftrightarrow> (case res of None \<Rightarrow> True
   | Some w \<Rightarrow> fs (txnwalPath db_dir) = Some (wl_file w) \<and> txnwalCommittedEnd crc (wl_file w) = Some (wl_size w))"

definition append_spec :: "crc_fun \<Rightarrow> txnwal \<Rightarrow> wal_rec \<Rightarrow> int \<times> txnwal \<Rightarrow> bool" where
  "append_spec crc w r res \<longleftrightarrow> (case res of (rc, w') \<Rightarrow>
     if rc = 0 then wl_file w' = wl_file w @ encode_record crc r \<and> wl_size w' = wl_size w + length (encode_record crc r)
     else rc = -1 \<and> wl_size w' = wl_size w \<and> (\<exists>k. wl_file w' = wl_file w @ take k (encode_record crc r)))"

definition replay_spec :: "crc_fun \<Rightarrow> 's replay_cb \<Rightarrow> wal_rec list list \<Rightarrow> 's \<Rightarrow> (int \<times> 's) \<times> nat option \<Rightarrow> bool" where
  "replay_spec crc cb txns s res \<longleftrightarrow>
     res = (deliver_list cb (concat txns) s, Some (length (wal_image crc txns)))"

definition truncate_spec :: "crc_fun \<Rightarrow> txnwal \<Rightarrow> int \<times> txnwal \<Rightarrow> bool" where
  "truncate_spec crc w res \<longleftrightarrow> (case res of (rc, w') \<Rightarrow>
     rc = 0 \<longrightarrow> wl_file w' = take 16 (wl_file w) \<and> wl_size w' = 16)"

lemma le_bytes_value [codec]: "length bs = k \<Longrightarrow> le_bytes k (le_value bs) = bs"
proof (induction bs arbitrary: k)
  case (Cons b bs)
  have "(unat b + 256 * v) div 256 = v" for v using unat_u8_less [of b] by simp
  moreover have "of_nat (unat b + 256 * v) = b" for v
    by (rule unsigned_word_eqI, subst unat_of_nat) (use unat_u8_less [of b] in simp)
  ultimately show ?case using Cons by auto
qed simp

lemma le_value_less: "le_value bs < 256 ^ length bs"
proof (induction bs)
  case (Cons b bs)
  have "unat b < 256" using unat_u8_less [of b] by simp
  with Cons have "unat b + 256 * le_value bs < 256 * 256 ^ length bs" by linarith
  then show ?case by simp
qed simp

text \<open>The reader accepts nothing but encodings: what it returns, encoded, is what it read.\<close>

lemma validate_inverse:
  assumes "txnwalValidateRecord crc p = Valid r n"
  shows "wf_rec r \<and> n = length (encode_record crc r) \<and> take n p = encode_record crc r"
proof -
  define rl where "rl = le_value (take 2 p)"
  define kl where "kl = le_value (take 4 (drop (2 + rl + 1) p))"
  define body where "body = 2 + rl + 1 + 4 + kl"
  let ?op = "p ! (2 + rl)"
  have l11: "11 \<le> length p" using validate_bounds [OF assms] by simp
  have u16: "txnwalReadU16 p = Some rl" using l11 by (simp add: txnwalReadU16_def rl_def)
  have l9: "2 + rl + 1 + 4 + 4 \<le> length p"
    by (rule ccontr) (use assms l11 u16 in \<open>simp add: txnwalValidateRecord_def Let_def\<close>)
  have u32: "txnwalReadU32 (drop (2 + rl + 1) p) = Some kl" using l9 by (simp add: txnwalReadU32_def kl_def)
  have op: "?op = TXNWAL_OP_ADD \<or> ?op = TXNWAL_OP_DEL \<or> ?op = TXNWAL_OP_COMMIT" "?op = TXNWAL_OP_COMMIT \<Longrightarrow> rl = 0"
    by (rule ccontr, use assms l11 u16 l9 in \<open>simp add: txnwalValidateRecord_def Let_def\<close>)+
  then have ops: "(?op \<noteq> TXNWAL_OP_ADD \<and> ?op \<noteq> TXNWAL_OP_DEL \<and> ?op \<noteq> TXNWAL_OP_COMMIT) = False"
    "(?op = TXNWAL_OP_COMMIT \<and> rl \<noteq> 0) = False" by blast+
  have e1: "txnwalValidateRecord crc p =
      (if body + 4 > length p then Torn
       else case txnwalReadU32 (drop body p) of None \<Rightarrow> Torn
       | Some c \<Rightarrow> if unat (crc (take body p)) \<noteq> c then Corrupt
           else if body + 4 \<ge> 2 ^ 32 then Overflow
           else Valid \<lparr>wr_rel = take rl (drop 2 p), wr_op = ?op, wr_key = take kl (drop (2 + rl + 1 + 4) p)\<rparr> (body + 4))"
    unfolding txnwalValidateRecord_def Let_def u16 option.case u32 ops body_def
    using l11 l9 by (simp only: if_False not_less [symmetric] if_not_P)
  have v: "n = body + 4" "n \<le> length p" "11 \<le> length p" "2 + rl + 9 \<le> length p"
    "r = \<lparr>wr_rel = take rl (drop 2 p), wr_op = p ! (2 + rl), wr_key = take kl (drop (2 + rl + 1 + 4) p)\<rparr>"
    "unat (crc (take body p)) = le_value (take 4 (drop body p))" "body + 4 < 2 ^ 32"
    "p ! (2 + rl) = TXNWAL_OP_ADD \<or> p ! (2 + rl) = TXNWAL_OP_DEL \<or> p ! (2 + rl) = TXNWAL_OP_COMMIT \<and> rl = 0"
    using assms [unfolded e1] l11 l9 op
    by (simp_all add: txnwalReadU32_def split: if_split_asm) blast
  have bl: "body + 4 \<le> length p" using v(1,2) by simp
  have lens: "length (wr_rel r) = rl" "length (wr_key r) = kl"
    using bl unfolding v(5) body_def by simp_all
  have "rl < 2 ^ 16" using le_value_less [of "take 2 p"] v(3) by (simp add: rl_def)
  moreover have "2 + rl + 1 + 4 + kl + 4 < 2 ^ 32" using v(7) by (simp add: body_def)
  moreover have wop: "wr_op r = p ! (2 + rl)" unfolding v(5) by simp
  moreover have "rl = 0 \<Longrightarrow> wr_rel r = []" using lens(1) by simp
  ultimately have wf: "wf_rec r" unfolding wf_rec_def lens using v(8) by metis
  have one: "take 1 (drop (2 + rl) p) = [p ! (2 + rl)]" using v(4) by (simp add: take_Suc hd_drop_conv_nth)
  have "take body p = take 2 p @ take rl (drop 2 p) @ take 1 (drop (2 + rl) p) @ take 4 (drop (2 + rl + 1) p) @
      take kl (drop (2 + rl + 1 + 4) p)"
    unfolding body_def take_add by (simp only: append_assoc)
  moreover have "take 2 p = le_bytes 2 rl" using v(3) by (simp add: rl_def le_bytes_value)
  moreover have "take 4 (drop (2 + rl + 1) p) = le_bytes 4 kl" using v(4) by (simp add: kl_def le_bytes_value)
  ultimately have b: "take body p = record_body (wr_rel r) (wr_op r) (wr_key r)"
    unfolding one record_body_def lens by (simp add: v(5))
  have "take 4 (drop body p) = le_bytes 4 (unat (crc (take body p)))"
    using bl by (simp add: v(6) le_bytes_value)
  then have "take n p = encode_record crc r"
    unfolding v(1) take_add encode_record_def Let_def b by simp
  then show ?thesis using wf v(1) bl by (metis length_take min.absorb2)
qed

lemma validate_take:
  assumes "txnwalValidateRecord crc p = Valid r n" "n \<le> k"
  shows "txnwalValidateRecord crc (take k p) = Valid r n"
proof -
  note i = validate_inverse [OF assms(1)]
  have "take k p = take n p @ take (k - n) (drop n p)" using assms(2) by (metis le_add_diff_inverse take_add)
  then show ?thesis using validate_encode i by metis
qed

text \<open>Truncating at the committed end keeps the committed end.\<close>

lemma wal_scan_bounds:
  "good \<le> off \<Longrightarrow> let e = wal_scan crc p off good in
     (e = good \<or> off < e) \<and> good \<le> e \<and> e \<le> off + length p \<and> wal_scan crc (take (e - off) p) off good = e"
proof (induction crc p off good rule: wal_scan.induct)
  case (1 crc p off good)
  show ?case
  proof (cases "p \<noteq> [] \<and> (\<exists>r n. txnwalValidateRecord crc p = Valid r n)")
    case False
    then have "wal_scan crc p off good = good"
      by (subst wal_scan.simps) (auto split: validated.splits)
    with 1(2) show ?thesis by (simp add: Let_def)
  next
    case True
    then obtain r n where v: "p \<noteq> []" "txnwalValidateRecord crc p = Valid r n" by blast
    note b = validate_bounds [OF v(2)]
    let ?g = "if wr_op r = TXNWAL_OP_COMMIT then off + n else good"
    let ?e = "wal_scan crc (drop n p) (off + n) ?g"
    have eq: "wal_scan crc p off good = ?e" using v by (subst wal_scan.simps) simp
    have ih: "(?e = ?g \<or> off + n < ?e) \<and> ?g \<le> ?e \<and> ?e \<le> off + n + length (drop n p) \<and>
        wal_scan crc (take (?e - (off + n)) (drop n p)) (off + n) ?g = ?e"
      using 1(1) [OF v] 1(2) by (simp add: Let_def)
    show ?thesis
    proof (cases "off + n \<le> ?e")
      case True
      then have "n \<le> ?e - off" by simp
      note vt = validate_take [OF v(2) this]
      have "take (?e - off) p \<noteq> []" using v(1) True b by simp
      then have "wal_scan crc (take (?e - off) p) off good = wal_scan crc (drop n (take (?e - off) p)) (off + n) ?g"
        using vt by (subst wal_scan.simps) simp
      also have "drop n (take (?e - off) p) = take (?e - (off + n)) (drop n p)" by (simp add: drop_take)
      finally show ?thesis using ih True b 1(2) unfolding eq Let_def by auto
    next
      case False
      then have "?e = good" using ih by (auto split: if_splits)
      with 1(2) show ?thesis unfolding eq Let_def by (auto simp: wal_scan.simps [of crc "[]"])
    qed
  qed
qed

lemma committed_end_take:
  assumes "txnwalCommittedEnd crc m = Some e"
  shows "16 \<le> e \<and> e \<le> length m \<and> txnwalCommittedEnd crc (take e m) = Some e"
proof -
  have v: "txnwalValidateHeader crc m" and e: "e = wal_scan crc (drop 16 m) 16 16"
    using assms by (auto simp: txnwalCommittedEnd_def split: if_splits)
  have l: "16 \<le> length m" using v by (simp add: txnwalValidateHeader_def)
  note b = wal_scan_bounds [of 16 16 crc "drop 16 m", folded e, unfolded Let_def]
  have e16: "16 \<le> e" using b by simp
  have le: "e \<le> length m" using b l by simp
  have "txnwalValidateHeader crc (take e m)"
    using v e16 le
    by (auto simp: txnwalValidateHeader_def txnwalReadU32_def drop_take min_absorb1 min_absorb2 split: if_splits)
  moreover have "wal_scan crc (drop 16 (take e m)) 16 16 = e" using b by (simp add: drop_take)
  ultimately show ?thesis using e16 le by (simp add: txnwalCommittedEnd_def)
qed

lemma committed_end_header: "txnwalCommittedEnd crc (wal_header crc) = Some 16"
  using committed_end_image [of "[]" crc "[]"] by (simp add: wal_image_def)

lemma committed_end_short: "length m < 16 \<Longrightarrow> txnwalCommittedEnd crc m = None"
  by (simp add: txnwalCommittedEnd_def txnwalValidateHeader_def)

lemma open_rw_ok: "open_rw_spec crc d fs (txnwal_open_rw crc io al d fs)"
proof -
  let ?p = "txnwalPath d"
  define m where "m = (case fs ?p of None \<Rightarrow> [] | Some m \<Rightarrow> m)"
  have fresh: "wal_clean crc \<lparr>wl_file = wal_header crc, wl_size = 16\<rparr>"
    by (simp add: wal_clean_def committed_end_header)
  have wh: "rc = 0 \<longrightarrow> m' = wal_header crc" if "txnwalWriteHeader crc io = (rc, m')" for rc m'
    using that by (auto simp: txnwalWriteHeader_def split: if_splits)
  have clean: "wal_clean crc \<lparr>wl_file = take e m, wl_size = e\<rparr>" if "txnwalCommittedEnd crc m = Some e" for e
    using committed_end_take [OF that] by (simp add: wal_clean_def min_absorb2)
  have short: "m = [] \<Longrightarrow> txnwalCommittedEnd crc m = None" by (simp add: committed_end_short)
  show ?thesis
    unfolding open_rw_spec_def txnwal_open_rw_def Let_def m_def [symmetric]
    using fresh wh clean short
    by (auto simp: m_def split: prod.splits option.splits if_splits)
qed

lemma open_rw_committed:
  assumes "fs (txnwalPath d) = Some m" "txnwalCommittedEnd crc m = Some e"
  shows "txnwal_open_rw crc all_ok (\<lambda>_ _. True) d fs =
    (Some \<lparr>wl_file = take e m, wl_size = e\<rparr>, fs(txnwalPath d := Some (take e m)))"
  using assms committed_end_take [OF assms(2)]
  by (cases "m = []"; cases "e < length m") (auto simp: txnwal_open_rw_def all_ok_def Let_def)

lemma append_record_ok:
  assumes "wr_op r \<noteq> TXNWAL_OP_COMMIT" "wf_rec r" "wr_rel r \<noteq> []"
  shows "append_spec crc w r (txnwal_append_record crc io al w (wr_rel r) (wr_op r) (wr_key r))"
proof (cases r)
  case (fields rel op key)
  show ?thesis using assms unfolding fields
    by (auto simp: append_spec_def txnwal_append_record_def txnwalWriteAll_def Let_def wf_rec_def intro: exI [of _ 0])
qed

lemma append_commit_ok: "append_spec crc w commit_marker (txnwal_append_commit crc io w)"
  by (auto simp: append_spec_def txnwal_append_commit_def txnwalWriteAll_def)

lemma replay_image:
  assumes "\<forall>ops \<in> set txns. \<forall>r \<in> set ops. wf_op r" "\<And>off. wal_scan crc tail off off = off"
    "wl_file w = wal_image crc txns @ tail" "io_ok io ''statx''" "io_ok io ''mmap''"
  shows "replay_spec crc cb txns s (txnwal_replay crc io w cb s)"
proof -
  have "drop 16 (wal_image crc txns) = concat (map (encode_txn crc) txns)" by (simp add: wal_image_def)
  moreover have "16 \<le> length (wal_image crc txns)" by (simp add: wal_image_def)
  ultimately show ?thesis
    using committed_end_image [OF assms(1,2)] deliver_txns [OF assms(1), of crc cb s] assms(3-5)
    by (simp add: txnwal_replay_def replay_spec_def)
qed

lemma truncate_ok: "wal_clean crc w \<Longrightarrow> truncate_spec crc w (txnwal_truncate io 16 w)"
  using committed_end_take [of crc "wl_file w" "length (wl_file w)"]
  by (auto simp: truncate_spec_def txnwal_truncate_def wal_clean_def Let_def)

subsection \<open>Properties\<close>

text \<open>C38: the record format is a bijection.  Validating an encoded record whose length fits 32 bits, whatever bytes
  follow, gives the record back and its length; and whatever bytes the validator accepts are exactly the encoding of the
  record it returns, which is such a record. The validator keeps the length in 32 bits: a longer record that is there in
  full is the separate answer \<open>Overflow\<close>.\<close>

theorem wal_record_roundtrip:
  assumes "wf_rec r"
  shows "txnwalValidateRecord crc (encode_record crc r @ rest) = Valid r (length (encode_record crc r)) \<and>
    (\<forall>p r' n. txnwalValidateRecord crc p = Valid r' n \<longrightarrow>
       wf_rec r' \<and> n = length (encode_record crc r') \<and> take n p = encode_record crc r')"
  using validate_encode [OF assms] validate_inverse by blast

theorem wal_record_roundtrip_witness:
  "txnwalValidateRecord (\<lambda>_. 0) (encode_record (\<lambda>_. 0) \<lparr>wr_rel = [114], wr_op = 1, wr_key = [0, 0, 0, 7, 0]\<rparr> @ [9]) =
     Valid \<lparr>wr_rel = [114], wr_op = 1, wr_key = [0, 0, 0, 7, 0]\<rparr> 17"
  using wal_record_roundtrip [of "\<lparr>wr_rel = [114], wr_op = 1, wr_key = [0, 0, 0, 7, 0]\<rparr>" "\<lambda>_. 0" "[9]"]
  by (simp add: wf_rec_def TXNWAL_OP_ADD_def length_encode)

text \<open>C1: a transaction commits or drops as a whole (records of 4 GB or more, whose length the code cannot hold, excepted).  Take a log holding any committed transactions, and any
  number of the bytes of one more transaction (a crash at any byte of its appending).  Reopening
  truncates the file to the transactions that are complete, the last one exactly when none of
  its bytes is missing, and replaying then delivers exactly the records of those transactions, in
  order.\<close>

theorem wal_crash_atomic:
  assumes "\<forall>ops \<in> set (txns @ [torn]). \<forall>r \<in> set ops. wf_op r"
    and "fs (txnwalPath d) = Some (wal_image crc txns @ take n (encode_txn crc torn))"
    and "T = (if n < length (encode_txn crc torn) then txns else txns @ [torn])"
  shows "\<exists>w. txnwal_open_rw crc all_ok (\<lambda>_ _. True) d fs = (Some w, fs(txnwalPath d := Some (wal_image crc T))) \<and>
    wl_file w = wal_image crc T \<and> wal_clean crc w \<and> replay_spec crc cb T s (txnwal_replay crc all_ok w cb s)"
proof -
  let ?m = "wal_image crc txns @ take n (encode_txn crc torn)"
  have ends: "txnwalCommittedEnd crc ?m = Some (length (wal_image crc T)) \<and> take (length (wal_image crc T)) ?m = wal_image crc T"
  proof (cases "n < length (encode_txn crc torn)")
    case True
    then show ?thesis using assms(1,3) committed_end_image [of txns crc "take n (encode_txn crc torn)"]
      scan_cut [of torn n crc] by simp
  next
    case False
    then have "?m = wal_image crc T" using assms(3) by (simp add: wal_image_def)
    then show ?thesis using False assms(1,3) committed_end_image [of T crc "[]"] by simp
  qed
  let ?w = "\<lparr>wl_file = wal_image crc T, wl_size = length (wal_image crc T)\<rparr>"
  have "txnwal_open_rw crc all_ok (\<lambda>_ _. True) d fs = (Some ?w, fs(txnwalPath d := Some (wal_image crc T)))"
    using open_rw_committed [where fs = fs and d = d, OF assms(2)] ends by simp
  moreover have "\<forall>ops \<in> set T. \<forall>r \<in> set ops. wf_op r" using assms(1,3) by auto
  note wf = this
  have "wal_clean crc ?w" using committed_end_image [OF wf, of crc "[]"] by (simp add: wal_clean_def)
  moreover have "replay_spec crc cb T s (txnwal_replay crc all_ok ?w cb s)"
    by (rule replay_image [OF wf, of crc "[]"]) (simp_all add: all_ok_def)
  ultimately show ?thesis by force
qed

theorem wal_crash_atomic_witness:
  "\<exists>w. txnwal_open_rw (\<lambda>_. 7) all_ok (\<lambda>_ _. True) ''db''
        ((\<lambda>_. None)(txnwalPath ''db'' := Some (wal_image (\<lambda>_. 7) [] @
           take 20 (encode_txn (\<lambda>_. 7) [\<lparr>wr_rel = [114], wr_op = 1, wr_key = [0, 0, 0, 7, 0]\<rparr>])))) =
      (Some w, (\<lambda>_. None)(txnwalPath ''db'' := Some (wal_image (\<lambda>_. 7) []))) \<and>
     wl_file w = wal_header (\<lambda>_. 7)"
proof -
  let ?r = "\<lparr>wr_rel = [114], wr_op = 1, wr_key = [0, 0, 0, 7, 0]\<rparr>"
  have wf: "\<forall>ops \<in> set ([] @ [[?r]]). \<forall>r \<in> set ops. wf_op r"
    by (simp add: wf_op_def wf_rec_def TXNWAL_OP_ADD_def TXNWAL_OP_COMMIT_def)
  have "20 < length (encode_txn (\<lambda>_. 7) [?r])" by (simp add: encode_txn_def length_encode)
  then show ?thesis
    using wal_crash_atomic [OF wf, of "(\<lambda>_. None)(txnwalPath ''db'' := Some (wal_image (\<lambda>_. 7) [] @
      take 20 (encode_txn (\<lambda>_. 7) [?r])))" "''db''" "\<lambda>_. 7" 20 "[]" "\<lambda>r s. (0, s)" "()"]
    by (auto simp: wal_image_def)
qed

text \<open>Opening the log for writing meets its contract for every file and every failing call: a handle
  is clean (its file is the committed prefix, and the file on disk is that), no other file
  changes.  A file of 1 to 15 bytes, which a write of the header cut short leaves, is never
  opened again, by any call and with any luck; opening read-only never changes the file and
  finds the same committed end.\<close>

theorem wal_open_correct:
  "open_rw_spec crc d fs (txnwal_open_rw crc io al d fs) \<and> open_ro_spec crc d fs (txnwal_open_ro crc io al d fs) \<and>
   (\<forall>m. fs (txnwalPath d) = Some m \<longrightarrow> m \<noteq> [] \<longrightarrow> length m < 16 \<longrightarrow>
      txnwal_open_rw crc io al d fs = (None, fs) \<and> txnwal_open_ro crc io al d fs = None)"
  using open_rw_ok [of crc d fs io al]
  by (auto simp: open_ro_spec_def txnwal_open_ro_def txnwal_open_rw_def Let_def committed_end_short
      split: option.splits if_splits)

theorem wal_open_correct_witness:
  "txnwal_open_rw (\<lambda>_. 7) all_ok (\<lambda>_ _. True) ''db'' ((\<lambda>_. None)(txnwalPath ''db'' := Some [0x44])) =
     (None, (\<lambda>_. None)(txnwalPath ''db'' := Some [0x44]))"
  using wal_open_correct [of "\<lambda>_. 7" "''db''" "(\<lambda>_. None)(txnwalPath ''db'' := Some [0x44])" all_ok "\<lambda>_ _. True"]
  by simp

end
