(* ===== verification/KeyCodec.thy ===== *)
theory KeyCodec
  imports Prelude
begin

text \<open>
  The fixed-width key of a fact (\<^verbatim>\<open>src/relation.h\<close>; \<^verbatim>\<open>writeColsBe\<close>, \<^verbatim>\<open>readColsBe\<close> and \<^verbatim>\<open>encodeKey\<close> of
  \<^verbatim>\<open>zig/src/relation.zig\<close>, \<^verbatim>\<open>encodeFactKey\<close> of \<^verbatim>\<open>zig/src/dl.zig\<close>): each column as four big-endian
  bytes, then one zero byte.  The lemmas give the round trip, the length, injectivity, and that the
  byte order of keys is the numeric order of tuples, on which order statistics and range
  enumeration rest.
\<close>

definition MAX_ARITY :: nat where "MAX_ARITY = 8"

text \<open>Four bytes per column and the trailing zero.\<close>

definition MAX_KEY_LEN :: nat where "MAX_KEY_LEN = MAX_ARITY * 4 + 1"

definition be_col :: "u32 \<Rightarrow> bytes" where
  "be_col v = [ucast (drop_bit 24 v), ucast (drop_bit 16 v), ucast (drop_bit 8 v), ucast v]"

fun writeColsBe :: "tuple \<Rightarrow> bytes" where
  "writeColsBe [] = []"
| "writeColsBe (v # cols) = be_col v @ writeColsBe cols"

definition be_word :: "bytes \<Rightarrow> u32" where
  "be_word buf = push_bit 24 (ucast (buf ! 0)) OR push_bit 16 (ucast (buf ! 1)) OR
     push_bit 8 (ucast (buf ! 2)) OR ucast (buf ! 3)"

text \<open>A buffer shorter than \<open>4 * arity\<close> bytes, which no caller passes, is read as if zeros followed.\<close>

fun readColsBe :: "bytes \<Rightarrow> nat \<Rightarrow> tuple" where
  "readColsBe buf 0 = []"
| "readColsBe buf (Suc arity) = be_word (take 4 (buf @ replicate 4 0)) # readColsBe (drop 4 buf) arity"

definition encodeKey :: "tuple \<Rightarrow> bytes" where
  "encodeKey cols = writeColsBe cols @ [0]"

definition encodeFactKey :: "tuple \<Rightarrow> bytes option" where
  "encodeFactKey cols =
     (if length cols = 0 \<or> length cols > 8 then None else Some (writeColsBe cols @ [0]))"

subsection \<open>Round trip\<close>

lemma be_word_col [simp]: "be_word (be_col v @ rest) = v"
  unfolding be_word_def be_col_def
proof (rule bit_word_eqI)
  fix n :: nat assume "n < LENGTH(32)"
  then consider "n < 8" | "8 \<le> n \<and> n < 16" | "16 \<le> n \<and> n < 24" | "24 \<le> n \<and> n < 32" by fastforce
  then show "bit (push_bit 24 (ucast (([ucast (drop_bit 24 v), ucast (drop_bit 16 v), ucast (drop_bit 8 v), ucast v] @ rest) ! 0) :: u32) OR
      push_bit 16 (ucast (([ucast (drop_bit 24 v), ucast (drop_bit 16 v), ucast (drop_bit 8 v), ucast v :: u8] @ rest) ! 1)) OR
      push_bit 8 (ucast (([ucast (drop_bit 24 v), ucast (drop_bit 16 v), ucast (drop_bit 8 v), ucast v :: u8] @ rest) ! 2)) OR
      ucast (([ucast (drop_bit 24 v), ucast (drop_bit 16 v), ucast (drop_bit 8 v), ucast v :: u8] @ rest) ! 3)) n = bit v n"
    by cases (auto simp: bit_simps)
qed

lemma be_word_col4 [simp]: "be_word (be_col v) = v"
  using be_word_col [of v "[]"] by simp

lemma length_be_col [simp, codec]: "length (be_col v) = 4"
  by (simp add: be_col_def)

lemma length_writeColsBe [simp, codec]: "length (writeColsBe cols) = 4 * length cols"
  by (induction cols) auto

lemma length_encodeKey [simp, codec]: "length (encodeKey cols) = 4 * length cols + 1"
  by (simp add: encodeKey_def)

lemma read_write_cols [simp]: "readColsBe (writeColsBe cols @ rest) (length cols) = cols"
  by (induction cols) (auto simp: take_append)

lemma length_readColsBe [simp]: "length (readColsBe buf n) = n"
  by (induction n arbitrary: buf) auto

lemma be_col_word:
  assumes "length bs = 4"
  shows "be_col (be_word bs) = bs"
proof -
  obtain a b c d where bs: "bs = [a, b, c, d]"
    using assms by (auto simp: length_Suc_conv eval_nat_numeral)
  have "ucast (drop_bit 24 (be_word bs)) = a" "ucast (drop_bit 16 (be_word bs)) = b"
    "ucast (drop_bit 8 (be_word bs)) = c" "ucast (be_word bs) = d"
    by (rule bit_word_eqI, auto simp: bs be_word_def bit_simps dest: bit_imp_le_length)+
  then show ?thesis by (simp add: be_col_def bs)
qed

text \<open>Every string of \<open>4 * arity\<close> bytes is the encoding of the tuple it reads as.\<close>

lemma write_read_cols: "length buf = 4 * n \<Longrightarrow> writeColsBe (readColsBe buf n) = buf"
proof (induction n arbitrary: buf)
  case (Suc n)
  then have "take 4 (buf @ replicate 4 0) = take 4 buf" "length (take 4 buf) = 4" by auto
  with Suc show ?case by (simp add: be_col_word append_take_drop_id)
qed simp

lemma readColsBe_encodeKey [simp]: "readColsBe (encodeKey cols) (length cols) = cols"
  by (simp add: encodeKey_def)

lemma writeColsBe_inj: "length x = length y \<Longrightarrow> writeColsBe x = writeColsBe y \<longleftrightarrow> x = y"
  by (metis append_Nil2 read_write_cols)

lemma encodeKey_inj: "length x = length y \<Longrightarrow> encodeKey x = encodeKey y \<longleftrightarrow> x = y"
  by (simp add: encodeKey_def writeColsBe_inj)

lemma writeColsBe_append [simp]: "writeColsBe (x @ y) = writeColsBe x @ writeColsBe y"
  by (induction x) auto

lemma take_writeColsBe: "k \<le> length x \<Longrightarrow> take (4 * k) (writeColsBe x) = writeColsBe (take k x)"
  by (metis append_take_drop_id append_eq_conv_conj length_take length_writeColsBe min.absorb2 writeColsBe_append)

subsection \<open>Order\<close>

lemma base_256:
  "(n :: nat) = n div 16777216 * 16777216 + n div 65536 mod 256 * 65536 + n div 256 mod 256 * 256 + n mod 256"
proof -
  have "n = p * 256 + d \<Longrightarrow> p = q * 256 + c \<Longrightarrow> q = a * 256 + b \<Longrightarrow>
      n = a * 16777216 + b * 65536 + c * 256 + d" for n p q a b c d :: nat by simp
  from this [OF div_mult_mod_eq [symmetric] div_mult_mod_eq [symmetric] div_mult_mod_eq [symmetric]]
  show ?thesis by (simp only: div_mult2_eq [symmetric]) simp
qed

lemma unat_col_bytes:
  "unat v = unat (be_col v ! 0) * 2 ^ 24 + unat (be_col v ! 1) * 2 ^ 16 + unat (be_col v ! 2) * 2 ^ 8 + unat (be_col v ! 3)"
proof -
  have m: "unat v mod 4294967296 = unat v" "unat v div 16777216 mod 256 = unat v div 16777216"
    using unat_u32_less [of v] by (simp_all add: less_mult_imp_div_less)
  have b: "unat (be_col v ! 0) = unat v div 2 ^ 24 mod 2 ^ 8" "unat (be_col v ! 1) = unat v div 2 ^ 16 mod 2 ^ 8"
    "unat (be_col v ! 2) = unat v div 2 ^ 8 mod 2 ^ 8" "unat (be_col v ! 3) = unat v mod 2 ^ 8"
    by (simp_all add: be_col_def unsigned_ucast_eq unsigned_drop_bit_eq take_bit_eq_mod [where 'a = nat] drop_bit_eq_div [where 'a = nat] m)
  show ?thesis unfolding b using base_256 [of "unat v"] m by simp
qed

lemma digit_less:
  "\<lbrakk>x < m; y < (m :: nat)\<rbrakk> \<Longrightarrow> a * m + x < a' * m + y \<longleftrightarrow> a < a' \<or> a = a' \<and> x < y"
proof (cases a a' rule: linorder_cases)
  case less
  assume "x < m" "y < m"
  moreover have "Suc a * m \<le> a' * m" using less by (intro mult_le_mono) auto
  ultimately show ?thesis using less by simp
next
  case greater
  assume "x < m" "y < m"
  moreover have "Suc a' * m \<le> a * m" using greater by (intro mult_le_mono) auto
  ultimately show ?thesis using greater by simp
qed simp

lemma digit_inj:
  "\<lbrakk>x < m; y < (m :: nat)\<rbrakk> \<Longrightarrow> a * m + x = a' * m + y \<longleftrightarrow> a = a' \<and> x = y"
  by (metis digit_less less_irrefl nat_neq_iff)

lemma byte_lex_less:
  fixes a b c d a' b' c' d' :: nat
  assumes "b < 256" "c < 256" "d < 256" "b' < 256" "c' < 256" "d' < 256"
  shows "a * 2 ^ 24 + b * 2 ^ 16 + c * 2 ^ 8 + d < a' * 2 ^ 24 + b' * 2 ^ 16 + c' * 2 ^ 8 + d' \<longleftrightarrow>
    a < a' \<or> a = a' \<and> (b < b' \<or> b = b' \<and> (c < c' \<or> c = c' \<and> d < d'))"
  using assms digit_less [of d 256 d' "(a * 256 + b) * 256 + c" "(a' * 256 + b') * 256 + c'"]
    digit_less [of c 256 c' "a * 256 + b" "a' * 256 + b'"] digit_less [of b 256 b' a a']
    digit_inj [of d 256 d' "(a * 256 + b) * 256 + c" "(a' * 256 + b') * 256 + c'"]
    digit_inj [of c 256 c' "a * 256 + b" "a' * 256 + b'"] digit_inj [of b 256 b' a a']
  by (simp add: algebra_simps) blast

lemma be_col_less:
  "be_col v @ r < be_col w @ s \<longleftrightarrow> v < w \<or> v = w \<and> r < s"
proof -
  let ?v = "\<lambda>i. be_col v ! i" and ?w = "\<lambda>i. be_col w ! i"
  have exp: "be_col x = [be_col x ! 0, be_col x ! 1, be_col x ! 2, be_col x ! 3]" for x
    by (simp add: be_col_def)
  have lt: "v < w \<longleftrightarrow> ?v 0 < ?w 0 \<or> ?v 0 = ?w 0 \<and> (?v 1 < ?w 1 \<or> ?v 1 = ?w 1 \<and>
      (?v 2 < ?w 2 \<or> ?v 2 = ?w 2 \<and> ?v 3 < ?w 3))"
    unfolding word_less_nat_alt unat_col_bytes [of v] unat_col_bytes [of w]
    by (subst byte_lex_less) (use unat_u8_less in \<open>auto simp: word_less_nat_alt word_unat_eq_iff\<close>)
  have eq: "v = w \<longleftrightarrow> ?v 0 = ?w 0 \<and> ?v 1 = ?w 1 \<and> ?v 2 = ?w 2 \<and> ?v 3 = ?w 3"
    by (metis exp be_word_col4)
  show ?thesis
    by (subst exp [of v], subst exp [of w]) (auto simp: lt eq)
qed

lemma writeColsBe_less:
  "length x = length y \<Longrightarrow> writeColsBe x < writeColsBe y \<longleftrightarrow> x < y"
  by (induction x y rule: list_induct2) (auto simp: be_col_less)

lemma snoc_less: "length a = length b \<Longrightarrow> a @ [z] < b @ [z] \<longleftrightarrow> a < (b :: bytes)"
  by (induction a b rule: list_induct2) auto

lemma encodeKey_less: "length x = length y \<Longrightarrow> encodeKey x < encodeKey y \<longleftrightarrow> x < y"
  by (simp add: encodeKey_def snoc_less writeColsBe_less)

subsection \<open>Properties\<close>

text \<open>The contract of a key: its length, its trailing zero, that it reads back, that it is the only key
  of its tuple and that keys order as tuples do.\<close>

definition key_spec :: "tuple \<Rightarrow> bytes \<Rightarrow> bool" where
  "key_spec cols key \<longleftrightarrow> length key = 4 * length cols + 1 \<and> last key = 0 \<and> readColsBe key (length cols) = cols \<and>
     (\<forall>cols'. length cols' = length cols \<longrightarrow>
        (encodeKey cols' = key \<longleftrightarrow> cols' = cols) \<and> (encodeKey cols' < key \<longleftrightarrow> cols' < cols))"

text \<open>C29: the key of a fact has \<open>4 * arity + 1\<close> bytes ending in a zero, reads back as the fact, is the
  key of no other fact of the arity, and keys compare as bytes exactly as facts compare
  numerically; an arity outside 1..8 is refused, and a key never exceeds the key buffer.\<close>

theorem fact_key_correct:
  "(case encodeFactKey cols of
      Some key \<Rightarrow> 1 \<le> length cols \<and> length cols \<le> 8 \<and> key = encodeKey cols \<and> key_spec cols key \<and> length key \<le> MAX_KEY_LEN
    | None \<Rightarrow> length cols = 0 \<or> length cols > 8)"
proof (cases "length cols = 0 \<or> length cols > 8")
  case False
  have "key_spec cols (encodeKey cols)"
    by (auto simp: key_spec_def encodeKey_inj encodeKey_less) (simp add: encodeKey_def)
  with False show ?thesis
    by (cases cols) (auto simp: encodeFactKey_def encodeKey_def MAX_KEY_LEN_def MAX_ARITY_def)
qed (simp add: encodeFactKey_def)

end
