(* ===== verification/Dafsa.thy ===== *)
theory Dafsa
  imports KeyCodec Posix
begin

text \<open>
  The automata a relation reads.  The DAFSA engine is a library the repository links against (a git
  submodule); \<^verbatim>\<open>zig/src/dafsa_c.zig\<close> declares the layout of its structures and the functions it
  exports.  The layout is modelled here (\<open>dstate\<close>, \<open>dafsa\<close>, \<open>dafsa_view\<close>, \<open>dafsa_wal\<close>) with the words
  an automaton accepts; the engine's functions are the fields of a record \<open>engine\<close>, a parameter
  of every operation that calls them, and \<open>engine_ok\<close> states what their documentation
  promises.  \<open>trie_engine\<close>, which rebuilds a trie on every update, is an engine that keeps these promises.

  The walk of a prefix and the depth-first enumeration from the state it reaches
  (\<^verbatim>\<open>prefixDfs\<close>, \<^verbatim>\<open>relPrefixD\<close> of \<^verbatim>\<open>zig/src/relation.zig\<close>) are code of the repository; they are shown to
  deliver exactly the matching tuples in lexicographic order.
\<close>

type_synonym edge = "u8 \<times> nat"

record dstate =
  is_final :: bool
  ntrans :: nat
  trans_heap :: "edge list option"
  trans :: "edge list"

record dafsa =
  initial :: nat
  states :: "dstate list"

record dafsa_view =
  vw_initial :: nat
  vw_n_states :: nat
  vw_final_bits :: bytes
  vw_map :: bytes

text \<open>The write-ahead log of one relation: the records a replay delivers, and the size of the file.\<close>

record dafsa_wal =
  dw_recs :: "(u8 \<times> bytes) list"
  dw_size :: nat

definition DAFSA_WAL_OP_ADD :: u8 where "DAFSA_WAL_OP_ADD = 1"
definition DAFSA_WAL_OP_DEL :: u8 where "DAFSA_WAL_OP_DEL = 2"

definition transArrC :: "dstate \<Rightarrow> edge list" where
  "transArrC s = (case trans_heap s of Some es \<Rightarrow> es | None \<Rightarrow> trans s)"

definition edges :: "dafsa \<Rightarrow> nat \<Rightarrow> edge list" where
  "edges d st = (let s = states d ! st in take (ntrans s) (transArrC s))"

subsection \<open>Accepted words\<close>

fun run :: "dafsa \<Rightarrow> nat \<Rightarrow> bytes \<Rightarrow> nat option" where
  "run d st [] = Some st"
| "run d st (c # w) = (case map_of (edges d st) c of None \<Rightarrow> None | Some t \<Rightarrow> run d t w)"

definition accepts :: "dafsa \<Rightarrow> nat \<Rightarrow> bytes \<Rightarrow> bool" where
  "accepts d st w = (case run d st w of None \<Rightarrow> False | Some t \<Rightarrow> is_final (states d ! t))"

definition dwords :: "dafsa \<Rightarrow> bytes set" where
  "dwords d = {w. accepts d (initial d) w}"

text \<open>Every state keeps its transitions sorted by symbol, within their array, to existing states.\<close>

definition state_ok :: "nat \<Rightarrow> dstate \<Rightarrow> bool" where
  "state_ok n s \<longleftrightarrow> ntrans s \<le> length (transArrC s) \<and>
     sorted_wrt (\<lambda>x y. fst x < fst y) (take (ntrans s) (transArrC s)) \<and>
     (\<forall>e \<in> set (take (ntrans s) (transArrC s)). snd e < n)"

definition dafsa_ok :: "dafsa \<Rightarrow> bool" where
  "dafsa_ok d \<longleftrightarrow> initial d < length (states d) \<and> (\<forall>s \<in> set (states d). state_ok (length (states d)) s)"

lemma edges_ok:
  assumes "dafsa_ok d" "st < length (states d)"
  shows "sorted_wrt (\<lambda>x y. fst x < fst y) (edges d st)" "distinct (map fst (edges d st))"
    "\<And>c t. (c, t) \<in> set (edges d st) \<Longrightarrow> t < length (states d)"
    "\<And>i. i < ntrans (states d ! st) \<Longrightarrow> i < length (edges d st) \<and> transArrC (states d ! st) ! i = edges d st ! i"
    "length (edges d st) = ntrans (states d ! st)"
proof -
  have s: "state_ok (length (states d)) (states d ! st)" using assms by (simp add: dafsa_ok_def)
  then show srt: "sorted_wrt (\<lambda>x y. fst x < fst y) (edges d st)"
    by (simp add: state_ok_def edges_def Let_def)
  have "sorted_wrt (<) (map fst (edges d st))" using srt by (simp add: sorted_wrt_map)
  then show "distinct (map fst (edges d st))" by (simp add: strict_sorted_iff)
  show "\<And>c t. (c, t) \<in> set (edges d st) \<Longrightarrow> t < length (states d)"
    using s by (auto simp: state_ok_def edges_def Let_def)
  show "\<And>i. i < ntrans (states d ! st) \<Longrightarrow> i < length (edges d st) \<and> transArrC (states d ! st) ! i = edges d st ! i"
    "length (edges d st) = ntrans (states d ! st)"
    using s by (auto simp: state_ok_def edges_def Let_def)
qed

lemma accepts_Nil [simp]: "accepts d st [] = is_final (states d ! st)"
  by (simp add: accepts_def)

lemma accepts_Cons:
  "accepts d st (c # w) \<longleftrightarrow> (case map_of (edges d st) c of None \<Rightarrow> False | Some t \<Rightarrow> accepts d t w)"
  by (auto simp: accepts_def split: option.splits)

lemma run_append: "run d st (u @ w) = (case run d st u of None \<Rightarrow> None | Some t \<Rightarrow> run d t w)"
  by (induction u arbitrary: st) (auto split: option.splits)

lemma accepts_append: "accepts d st (u @ w) \<longleftrightarrow> (case run d st u of None \<Rightarrow> False | Some t \<Rightarrow> accepts d t w)"
  by (auto simp: accepts_def run_append split: option.splits)

lemma run_state: "\<lbrakk>dafsa_ok d; st < length (states d); run d st w = Some t\<rbrakk> \<Longrightarrow> t < length (states d)"
  by (induction w arbitrary: st) (auto split: option.splits dest: map_of_SomeD edges_ok(3))

subsection \<open>Depth-first enumeration with a callback\<close>

text \<open>
  A callback takes the tuple and the caller's state and answers non-zero to stop.  \<open>until\<close> is the
  loop that stops at the first one; \<open>deliver\<close> counts what it hands out.
\<close>

type_synonym 's enum_cb = "tuple \<Rightarrow> 's \<Rightarrow> int \<times> 's"

fun until :: "('a \<Rightarrow> 's \<Rightarrow> bool \<times> 's) \<Rightarrow> 'a list \<Rightarrow> 's \<Rightarrow> bool \<times> 's" where
  "until f [] s = (False, s)"
| "until f (x # xs) s = (case f x s of (stop, s') \<Rightarrow> if stop then (True, s') else until f xs s')"

definition hand_out :: "'s enum_cb \<Rightarrow> tuple \<Rightarrow> nat \<times> 's \<Rightarrow> bool \<times> nat \<times> 's" where
  "hand_out cb t cs = (case cs of (n, s) \<Rightarrow> case cb t s of (rc, s') \<Rightarrow> (rc \<noteq> 0, n + 1, s'))"

definition deliver :: "'s enum_cb \<Rightarrow> tuple list \<Rightarrow> 's \<Rightarrow> nat \<times> 's" where
  "deliver cb ts s = snd (until (hand_out cb) ts (0, s))"

text \<open>
  The body at a final state rebuilds the tuple from the leading columns and the bytes of the
  path; a path too short for the remaining columns, which no key has, leaves them undefined (zeros here).
\<close>

definition full_tuple :: "nat \<Rightarrow> tuple \<Rightarrow> bytes \<Rightarrow> tuple" where
  "full_tuple arity leading buf =
     (let n_rem = arity - length leading in
      leading @ (if n_rem > 0 \<and> length buf \<ge> n_rem * 4 then readColsBe buf n_rem else replicate n_rem 0))"

definition at_final :: "dafsa \<Rightarrow> nat \<Rightarrow> tuple \<Rightarrow> 's enum_cb \<Rightarrow> nat \<Rightarrow> bytes \<Rightarrow> nat \<times> 's \<Rightarrow> bool \<times> nat \<times> 's" where
  "at_final d arity leading cb st buf cs =
     (if is_final (states d ! st) then hand_out cb (full_tuple arity leading buf) cs else (False, cs))"

text \<open>The first argument is \<open>MAX_KEY_LEN - depth\<close>: at depth \<open>MAX_KEY_LEN\<close> the walk goes no deeper.\<close>

primrec prefixDfs :: "nat \<Rightarrow> dafsa \<Rightarrow> nat \<Rightarrow> tuple \<Rightarrow> 's enum_cb \<Rightarrow> nat \<Rightarrow> bytes \<Rightarrow> nat \<times> 's \<Rightarrow> bool \<times> nat \<times> 's" where
  "prefixDfs 0 d arity leading cb st buf cs = at_final d arity leading cb st buf cs"
| "prefixDfs (Suc n) d arity leading cb st buf cs =
     (case at_final d arity leading cb st buf cs of (stop, cs1) \<Rightarrow>
        if stop then (True, cs1)
        else until (\<lambda>(sym, target). prefixDfs n d arity leading cb target (buf @ [sym])) (edges d st) cs1)"

text \<open>The words below a state, in the order the walk meets them.\<close>

primrec below :: "nat \<Rightarrow> dafsa \<Rightarrow> nat \<Rightarrow> bytes list" where
  "below 0 d st = (if is_final (states d ! st) then [[]] else [])"
| "below (Suc n) d st = (if is_final (states d ! st) then [[]] else []) @
     concat (map (\<lambda>(sym, target). map ((#) sym) (below n d target)) (edges d st))"

lemma until_append:
  "until f (xs @ ys) s = (case until f xs s of (stop, s') \<Rightarrow> if stop then (True, s') else until f ys s')"
  by (induction xs arbitrary: s) (auto split: prod.splits)

lemma until_concat_map:
  "(\<And>x s. x \<in> set xs \<Longrightarrow> f x s = until g (h x) s) \<Longrightarrow> until f xs s = until g (concat (map h xs)) s"
  by (induction xs arbitrary: s) (auto simp: until_append split: prod.splits)

lemma until_single: "until f [x] s = f x s"
  by (simp split: prod.splits)

lemma at_final_until:
  "at_final d arity leading cb st buf cs =
     until (hand_out cb) (map (full_tuple arity leading) (map ((@) buf) (if is_final (states d ! st) then [[]] else []))) cs"
  by (simp add: at_final_def split: prod.splits)

lemma concat_map_pairs:
  "concat (map (\<lambda>(c, t). map f (map g (map ((#) c) (b t)))) es) = map f (map g (concat (map (\<lambda>(c, t). map ((#) c) (b t)) es)))"
  by (induction es) auto

lemma prefixDfs_until:
  "prefixDfs n d arity leading cb st buf cs =
     until (hand_out cb) (map (full_tuple arity leading) (map ((@) buf) (below n d st))) cs"
proof (induction n arbitrary: st buf cs)
  case (Suc n)
  let ?show = "\<lambda>ws. map (full_tuple arity leading) (map ((@) buf) ws)"
  have "until (\<lambda>(sym, target). prefixDfs n d arity leading cb target (buf @ [sym])) (edges d st) cs1 =
      until (hand_out cb) (concat (map (\<lambda>(sym, target). ?show (map ((#) sym) (below n d target))) (edges d st))) cs1" for cs1
    by (rule until_concat_map) (auto simp: Suc.IH comp_def)
  moreover have "concat (map (\<lambda>(sym, target). ?show (map ((#) sym) (below n d target))) (edges d st)) =
      ?show (concat (map (\<lambda>(sym, target). map ((#) sym) (below n d target)) (edges d st)))"
    by (rule concat_map_pairs)
  ultimately show ?case
    by (simp only: prefixDfs.simps below.simps at_final_until map_append until_append)
next
  case 0
  show ?case by (simp only: prefixDfs.simps below.simps at_final_until)
qed

lemma set_below:
  assumes "dafsa_ok d" "st < length (states d)"
  shows "set (below n d st) = {w. length w \<le> n \<and> accepts d st w}"
  using assms(2)
proof (induction n arbitrary: st)
  case (Suc n)
  have "w \<in> set (below (Suc n) d st) \<longleftrightarrow> length w \<le> Suc n \<and> accepts d st w" for w
  proof (cases w)
    case (Cons c u)
    have "w \<in> set (below (Suc n) d st) \<longleftrightarrow> (\<exists>t. (c, t) \<in> set (edges d st) \<and> u \<in> set (below n d t))"
      using Cons by auto
    also have "\<dots> \<longleftrightarrow> (\<exists>t. map_of (edges d st) c = Some t \<and> u \<in> set (below n d t))"
      using edges_ok(2) [OF assms(1) Suc.prems] by simp
    also have "\<dots> \<longleftrightarrow> length w \<le> Suc n \<and> accepts d st w"
      using Suc.IH edges_ok(3) [OF assms(1) Suc.prems] Cons
      by (auto simp: accepts_Cons split: option.splits dest!: map_of_SomeD)
    finally show ?thesis .
  qed auto
  then show ?case by blast
qed auto

lemma sorted_wrt_concat_map_less:
  "\<lbrakk>sorted_wrt (\<lambda>x y. fst x < fst y) es; \<And>c t. (c, t) \<in> set es \<Longrightarrow> sorted_wrt (<) (f t :: bytes list)\<rbrakk> \<Longrightarrow>
     sorted_wrt (<) (concat (map (\<lambda>(c, t). map ((#) c) (f t)) es))"
proof (induction es)
  case (Cons e es)
  obtain c t where e: "e = (c, t)" by (cases e)
  have "sorted_wrt (<) (map ((#) c) (f t))"
    using Cons.prems(2) [of c t] e by (simp add: sorted_wrt_map)
  moreover have "sorted_wrt (<) (concat (map (\<lambda>(c, t). map ((#) c) (f t)) es))"
    using Cons by auto
  ultimately show ?case using Cons.prems(1) e by (fastforce simp: sorted_wrt_append)
qed simp

lemma sorted_below:
  assumes "dafsa_ok d" "st < length (states d)"
  shows "sorted_wrt (<) (below n d st)"
  using assms(2)
proof (induction n arbitrary: st)
  case (Suc n)
  have "sorted_wrt (<) (concat (map (\<lambda>(c, t). map ((#) c) (below n d t)) (edges d st)))"
    by (rule sorted_wrt_concat_map_less)
      (use edges_ok [OF assms(1) Suc.prems] Suc.IH in auto)
  then show ?case by (auto simp: sorted_wrt_append)
qed simp

text \<open>The enumeration below a state is the sorted list of the words it accepts.\<close>

lemma below_sorted_list:
  assumes "dafsa_ok d" "st < length (states d)" "\<And>w. accepts d st w \<Longrightarrow> length w \<le> n"
  shows "below n d st = sorted_list_of_set {w. accepts d st w}"
proof -
  have "{w. accepts d st w} = set (below n d st)"
    using set_below [OF assms(1,2)] assms(3) by auto
  moreover have "sorted (below n d st)" "distinct (below n d st)"
    using sorted_below [OF assms(1,2), of n] by (simp_all add: strict_sorted_iff)
  ultimately show ?thesis by (simp add: sorted_list_of_set.idem_if_sorted_distinct)
qed

subsection \<open>The engine\<close>

definition MAX_WORD_LEN :: nat where "MAX_WORD_LEN = 65536"

record engine =
  dafsa_create :: "dafsa option"
  dafsa_load :: "bytes option \<Rightarrow> dafsa option"
  dafsa_image :: "dafsa \<Rightarrow> bytes"
  dafsa_build_sorted :: "bytes list \<Rightarrow> dafsa option"
  dafsa_n_final :: "dafsa \<Rightarrow> nat"
  dafsa_add_n :: "dafsa \<Rightarrow> bytes \<Rightarrow> int \<times> dafsa"
  dafsa_lookup_n :: "dafsa \<Rightarrow> bytes \<Rightarrow> int"
  dafsa_delete_n :: "dafsa \<Rightarrow> bytes \<Rightarrow> int \<times> dafsa"
  dafsa_ensure_subtree :: "dafsa \<Rightarrow> nat option"
  dafsa_rank_from :: "dafsa \<Rightarrow> nat \<Rightarrow> bytes \<Rightarrow> nat"
  dafsa_select_from :: "dafsa \<Rightarrow> nat \<Rightarrow> nat \<Rightarrow> nat \<Rightarrow> bytes option"
  dafsa_range_count_from :: "dafsa \<Rightarrow> nat \<Rightarrow> bytes \<Rightarrow> bytes \<Rightarrow> nat"
  trans_find :: "dstate \<Rightarrow> u8 \<Rightarrow> int"
  dafsa_save :: "dafsa \<Rightarrow> string \<Rightarrow> files \<Rightarrow> int \<times> files"
  dafsa_n_reachable :: "dafsa \<Rightarrow> nat"
  dafsa_n_trans :: "dafsa \<Rightarrow> nat"
  dafsa_wal_open_rw :: "bytes option \<Rightarrow> dafsa_wal option"
  dafsa_wal_open_ro :: "bytes option \<Rightarrow> dafsa_wal option"
  dafsa_wal_image :: "(u8 \<times> bytes) list \<Rightarrow> bytes"
  dafsa_wal_replay :: "dafsa_wal \<Rightarrow> int \<times> (u8 \<times> bytes) list"
  dafsa_wal_append :: "dafsa_wal \<Rightarrow> u8 \<Rightarrow> bytes \<Rightarrow> int \<times> dafsa_wal"
  dafsa_view_open :: "bytes option \<Rightarrow> dafsa_view option"
  dafsa_view_lookup_n :: "dafsa_view \<Rightarrow> bytes \<Rightarrow> int"
  view_trans_find :: "dafsa_view \<Rightarrow> nat \<Rightarrow> u8 \<Rightarrow> nat option"
  view_enum :: "dafsa_view \<Rightarrow> nat \<Rightarrow> bytes list"
  dafsa_view_rank_n :: "dafsa_view \<Rightarrow> bytes \<Rightarrow> nat"
  dafsa_view_select_n :: "dafsa_view \<Rightarrow> nat \<Rightarrow> nat \<Rightarrow> bytes option"
  dafsa_view_range_count_n :: "dafsa_view \<Rightarrow> bytes \<Rightarrow> bytes \<Rightarrow> nat"
  dafsa_view_subtree_count :: "dafsa_view \<Rightarrow> nat"

text \<open>
  Some fields stand for several functions of the engine: the order statistics of a whole automaton
  (\<^verbatim>\<open>dafsa_rank_n\<close>, \<^verbatim>\<open>dafsa_select_n\<close>, \<^verbatim>\<open>dafsa_range_count_n\<close>) are those from its initial state; \<open>None\<close> of
  \<^verbatim>\<open>dafsa_ensure_subtree\<close> is a count left invalid by an allocation failure; \<open>dafsa_wal_append\<close>
  takes the record's operation; \<open>dafsa_wal_image\<close> is the content of a log file with the given
  records, and \<open>dafsa_wal_replay\<close> the records handed to its callback; \<open>view_enum\<close> lists what \<^verbatim>\<open>view_enum_dfs\<close> hands its callback.
\<close>

definition words_from :: "dafsa \<Rightarrow> nat \<Rightarrow> bytes set" where
  "words_from d st = {w. accepts d st w}"

text \<open>A well-formed automaton over words the engine accepts; like every minimal automaton it has no
  transition into a state from which no word is accepted.\<close>

definition dafsa_inv :: "dafsa \<Rightarrow> bool" where
  "dafsa_inv d \<longleftrightarrow> dafsa_ok d \<and> (\<forall>w \<in> dwords d. length w \<le> MAX_WORD_LEN) \<and>
     (\<forall>w st. w \<noteq> [] \<and> run d (initial d) w = Some st \<longrightarrow> words_from d st \<noteq> {})"

definition create_ok :: "engine \<Rightarrow> bool" where
  "create_ok e \<longleftrightarrow> (\<forall>d. dafsa_create e = Some d \<longrightarrow> dafsa_inv d \<and> dwords d = {})"

definition load_ok :: "engine \<Rightarrow> bool" where
  "load_ok e \<longleftrightarrow> dafsa_load e None = None \<and>
     (\<forall>c d. dafsa_load e c = Some d \<longrightarrow> dafsa_inv d) \<and>
     (\<forall>d. dafsa_inv d \<longrightarrow> (\<forall>d'. dafsa_load e (Some (dafsa_image e d)) = Some d' \<longrightarrow> dwords d' = dwords d) \<and>
        dafsa_load e (Some (dafsa_image e d)) \<noteq> None)"

definition build_ok :: "engine \<Rightarrow> bool" where
  "build_ok e \<longleftrightarrow> (\<forall>ks d. sorted_wrt (<) ks \<and> (\<forall>k \<in> set ks. length k \<le> MAX_WORD_LEN) \<and>
     dafsa_build_sorted e ks = Some d \<longrightarrow> dafsa_inv d \<and> dwords d = set ks)"

text \<open>1 when the word is new, 0 when it is there already, -1 (content unchanged) on an error.\<close>

definition add_ok :: "engine \<Rightarrow> bool" where
  "add_ok e \<longleftrightarrow> (\<forall>d k rc d'. dafsa_inv d \<and> length k \<le> MAX_WORD_LEN \<and> dafsa_add_n e d k = (rc, d') \<longrightarrow>
     dafsa_inv d' \<and> rc \<in> {-1, 0, 1} \<and>
     (rc = 1 \<longrightarrow> k \<notin> dwords d \<and> dwords d' = insert k (dwords d)) \<and>
     (rc = 0 \<longrightarrow> k \<in> dwords d \<and> dwords d' = dwords d) \<and>
     (rc = -1 \<longrightarrow> dwords d' = dwords d))"

definition delete_ok :: "engine \<Rightarrow> bool" where
  "delete_ok e \<longleftrightarrow> (\<forall>d k rc d'. dafsa_inv d \<and> length k \<le> MAX_WORD_LEN \<and> dafsa_delete_n e d k = (rc, d') \<longrightarrow>
     dafsa_inv d' \<and> rc \<in> {-1, 0, 1} \<and>
     (rc = 1 \<longrightarrow> k \<in> dwords d \<and> dwords d' = dwords d - {k}) \<and>
     (rc = 0 \<longrightarrow> k \<notin> dwords d \<and> dwords d' = dwords d) \<and>
     (rc = -1 \<longrightarrow> dwords d' = dwords d))"

definition read_ok :: "engine \<Rightarrow> bool" where
  "read_ok e \<longleftrightarrow> (\<forall>d k. dafsa_inv d \<longrightarrow> dafsa_lookup_n e d k = (if k \<in> dwords d then 1 else 0)) \<and>
     (\<forall>d n. dafsa_inv d \<and> dafsa_ensure_subtree e d = Some n \<longrightarrow> n = card (dwords d)) \<and>
     (\<forall>d st c. dafsa_inv d \<and> st < length (states d) \<longrightarrow>
        (let tr = trans_find e (states d ! st) c in
         if tr < 0 then map_of (edges d st) c = None
         else nat tr < ntrans (states d ! st) \<and> fst (edges d st ! nat tr) = c))"

text \<open>Order statistics from a state, over the words below it.\<close>

definition order_ok :: "engine \<Rightarrow> bool" where
  "order_ok e \<longleftrightarrow> (\<forall>d st. dafsa_inv d \<and> st < length (states d) \<and> (\<forall>w \<in> words_from d st. length w \<le> MAX_WORD_LEN) \<longrightarrow>
     (\<forall>k. dafsa_rank_from e d st k = card {w \<in> words_from d st. w < k}) \<and>
     (\<forall>lo hi. dafsa_range_count_from e d st lo hi = card {w \<in> words_from d st. lo \<le> w \<and> w < hi}) \<and>
     (\<forall>i cap. (\<forall>w \<in> words_from d st. length w \<le> cap) \<longrightarrow> dafsa_select_from e d st i cap =
        (if i < card (words_from d st) then Some (sorted_list_of_set (words_from d st) ! i) else None)))"

text \<open>A log is at least its 16-byte header, and no longer than that when it holds no record.  Opening the
  file of a log finds its records again.  A save either replaces the file or leaves it alone.\<close>

definition recs_ok :: "(u8 \<times> bytes) list \<Rightarrow> bool" where
  "recs_ok rs \<longleftrightarrow> (\<forall>rec \<in> set rs. length (snd rec) \<le> MAX_WORD_LEN)"

definition wal_inv :: "dafsa_wal \<Rightarrow> bool" where
  "wal_inv w \<longleftrightarrow> 16 \<le> dw_size w \<and> (dw_recs w \<noteq> [] \<longrightarrow> 16 < dw_size w) \<and> recs_ok (dw_recs w)"

definition wal_ok :: "engine \<Rightarrow> bool" where
  "wal_ok e \<longleftrightarrow>
     (\<forall>w op k rc w'. wal_inv w \<and> length k \<le> MAX_WORD_LEN \<and> dafsa_wal_append e w op k = (rc, w') \<longrightarrow> wal_inv w' \<and>
       (if rc = 0 then dw_recs w' = dw_recs w @ [(op, k)] else w' = w)) \<and>
     (\<forall>c w. dafsa_wal_open_rw e c = Some w \<or> dafsa_wal_open_ro e c = Some w \<longrightarrow>
        wal_inv w \<and> (dw_recs w = [] \<longrightarrow> dw_size w = 16)) \<and>
     (\<forall>rs w. recs_ok rs \<and> (dafsa_wal_open_rw e (Some (dafsa_wal_image e rs)) = Some w \<or>
        dafsa_wal_open_ro e (Some (dafsa_wal_image e rs)) = Some w) \<longrightarrow> dw_recs w = rs) \<and>
     (\<forall>w rc rs. wal_inv w \<and> dafsa_wal_replay e w = (rc, rs) \<longrightarrow> (\<exists>n. rs = take n (dw_recs w)) \<and> (rc = 0 \<longrightarrow> rs = dw_recs w))"

definition save_ok :: "engine \<Rightarrow> bool" where
  "save_ok e \<longleftrightarrow> (\<forall>d path fs rc fs'. dafsa_save e d path fs = (rc, fs') \<longrightarrow>
     fs' = (if rc = 0 then fs(path := Some (dafsa_image e d)) else fs))"

text \<open>A view of a file numbers its states as the automaton loaded from it, and answers as it does.\<close>

definition view_of :: "engine \<Rightarrow> dafsa_view \<Rightarrow> dafsa \<Rightarrow> bool" where
  "view_of e v d \<longleftrightarrow> vw_initial v = initial d \<and>
     (\<forall>k. dafsa_view_lookup_n e v k = dafsa_lookup_n e d k) \<and>
     (\<forall>st < length (states d). (\<forall>c. view_trans_find e v st c = map_of (edges d st) c) \<and>
        view_enum e v st = below MAX_WORD_LEN d st) \<and>
     (\<forall>k. dafsa_view_rank_n e v k = dafsa_rank_from e d (initial d) k) \<and>
     (\<forall>i cap. dafsa_view_select_n e v i cap = dafsa_select_from e d (initial d) i cap) \<and>
     (\<forall>lo hi. dafsa_view_range_count_n e v lo hi = dafsa_range_count_from e d (initial d) lo hi) \<and>
     dafsa_view_subtree_count e v = card (dwords d)"

definition view_ok :: "engine \<Rightarrow> bool" where
  "view_ok e \<longleftrightarrow> (\<forall>c v. dafsa_view_open e c = Some v \<longrightarrow>
     (\<exists>d. dafsa_load e c = Some d \<and> view_of e v d))"

definition engine_ok :: "engine \<Rightarrow> bool" where
  "engine_ok e \<longleftrightarrow> create_ok e \<and> load_ok e \<and> build_ok e \<and> add_ok e \<and> delete_ok e \<and> read_ok e \<and>
     order_ok e \<and> wal_ok e \<and> save_ok e \<and> view_ok e"

subsection \<open>Walking a prefix\<close>

fun walk_bytes :: "engine \<Rightarrow> dafsa \<Rightarrow> nat \<Rightarrow> bytes \<Rightarrow> nat option" where
  "walk_bytes e d current [] = Some current"
| "walk_bytes e d current (b # bs) =
     (let tr = trans_find e (states d ! current) b in
      if tr < 0 then None
      else walk_bytes e d (snd (transArrC (states d ! current) ! nat tr)) bs)"

text \<open>The \<open>leading\<close> argument is the array's first \<open>k\<close> columns; \<open>None\<close> is a null pointer.\<close>

definition relPrefixD :: "engine \<Rightarrow> nat \<Rightarrow> dafsa option \<Rightarrow> tuple option \<Rightarrow> nat \<Rightarrow> 's enum_cb \<Rightarrow> 's \<Rightarrow> int \<times> 's" where
  "relPrefixD e arity dopt leading k cb s =
     (case dopt of
        None \<Rightarrow> (-1, s)
      | Some d \<Rightarrow>
          if k > arity then (-1, s)
          else if k > 0 \<and> leading = None then (-1, s)
          else
            let bound = take k (case leading of None \<Rightarrow> [] | Some l \<Rightarrow> l) in
            case walk_bytes e d (initial d) (writeColsBe bound) of
              None \<Rightarrow> (0, s)
            | Some current \<Rightarrow>
                case prefixDfs MAX_KEY_LEN d arity bound cb current [] (0, s) of
                  (_, n, s') \<Rightarrow> (int n, s'))"

text \<open>The same over a view; its callback reads the remaining columns whatever the payload's length.\<close>

fun view_walk :: "engine \<Rightarrow> dafsa_view \<Rightarrow> nat \<Rightarrow> bytes \<Rightarrow> nat option" where
  "view_walk e v current [] = Some current"
| "view_walk e v current (b # bs) =
     (case view_trans_find e v current b of None \<Rightarrow> None | Some target \<Rightarrow> view_walk e v target bs)"

definition view_tuple :: "nat \<Rightarrow> tuple \<Rightarrow> bytes \<Rightarrow> tuple" where
  "view_tuple arity leading payload =
     leading @ (if arity > length leading then readColsBe payload (arity - length leading) else [])"

definition viewPrefixD :: "engine \<Rightarrow> nat \<Rightarrow> dafsa_view \<Rightarrow> tuple option \<Rightarrow> nat \<Rightarrow> 's enum_cb \<Rightarrow> 's \<Rightarrow> int \<times> 's" where
  "viewPrefixD e arity v leading k cb s =
     (if k > arity then (-1, s)
      else if k > 0 \<and> leading = None then (-1, s)
      else
        let bound = take k (case leading of None \<Rightarrow> [] | Some l \<Rightarrow> l) in
        case view_walk e v (vw_initial v) (writeColsBe bound) of
          None \<Rightarrow> (0, s)
        | Some current \<Rightarrow>
            case until (hand_out cb) (map (view_tuple arity bound) (view_enum e v current)) (0, s) of
              (_, n, s') \<Rightarrow> (int n, s'))"

lemma walk_bytes_run:
  assumes "engine_ok e" "dafsa_inv d" "st < length (states d)"
  shows "walk_bytes e d st bs = run d st bs"
  using assms(3)
proof (induction bs arbitrary: st)
  case (Cons b bs)
  let ?tr = "trans_find e (states d ! st) b"
  have ok: "dafsa_ok d" using assms(2) by (simp add: dafsa_inv_def)
  have r: "if ?tr < 0 then map_of (edges d st) b = None
      else nat ?tr < ntrans (states d ! st) \<and> fst (edges d st ! nat ?tr) = b"
    using assms(1,2) Cons.prems by (simp add: engine_ok_def read_ok_def Let_def)
  show ?case
  proof (cases "?tr < 0")
    case False
    then have i: "nat ?tr < length (edges d st)" "fst (edges d st ! nat ?tr) = b"
      "transArrC (states d ! st) ! nat ?tr = edges d st ! nat ?tr"
      using r edges_ok(4) [OF ok Cons.prems] by auto
    then have m: "(b, snd (edges d st ! nat ?tr)) \<in> set (edges d st)"
      by (metis nth_mem prod.collapse)
    then have "map_of (edges d st) b = Some (snd (edges d st ! nat ?tr))"
      using edges_ok(2) [OF ok Cons.prems] by simp
    with False i Cons.IH edges_ok(3) [OF ok Cons.prems m] show ?thesis by (simp add: Let_def)
  qed (use r in \<open>simp add: Let_def\<close>)
qed simp

lemma view_walk_run:
  assumes "view_of e v d" "dafsa_ok d" "st < length (states d)"
  shows "view_walk e v st bs = run d st bs"
  using assms(3)
proof (induction bs arbitrary: st)
  case (Cons b bs)
  have "view_trans_find e v st b = map_of (edges d st) b"
    using assms(1) Cons.prems by (simp add: view_of_def)
  then show ?case
    using Cons.IH edges_ok(3) [OF assms(2) Cons.prems] by (auto split: option.splits dest: map_of_SomeD)
qed simp

subsection \<open>Automata of keys\<close>

text \<open>The tuples an automaton holds, and that it holds nothing but keys of the arity.\<close>

definition dtuples :: "nat \<Rightarrow> dafsa \<Rightarrow> tuple set" where
  "dtuples arity d = {t. length t = arity \<and> encodeKey t \<in> dwords d}"

definition keyed :: "nat \<Rightarrow> dafsa \<Rightarrow> bool" where
  "keyed arity d \<longleftrightarrow> dafsa_inv d \<and> (\<forall>w \<in> dwords d. \<exists>t. length t = arity \<and> w = encodeKey t)"

definition matching :: "tuple set \<Rightarrow> tuple \<Rightarrow> tuple set" where
  "matching R bound = {t \<in> R. take (length bound) t = bound}"

lemma dwords_encode: "keyed arity d \<Longrightarrow> dwords d = encodeKey ` dtuples arity d"
  by (auto simp: keyed_def dtuples_def)

lemma keyed_ok: "keyed arity d \<Longrightarrow> dafsa_inv d" "keyed arity d \<Longrightarrow> dafsa_ok d"
  "keyed arity d \<Longrightarrow> initial d < length (states d)"
  by (simp_all add: keyed_def dafsa_inv_def dafsa_ok_def)

lemma dtuples_keyed_eq: "\<lbrakk>dwords d' = dwords d\<rbrakk> \<Longrightarrow> dtuples a d' = dtuples a d"
  by (simp add: dtuples_def)

lemma finite_fixed_length: "finite {t :: tuple. length t = n}"
  using finite_lists_length_eq [OF finite_class.finite_UNIV, of n] by simp

lemma finite_dtuples [simp, intro]: "finite (dtuples arity d)"
  by (rule finite_subset [OF _ finite_fixed_length [of arity]]) (auto simp: dtuples_def)

lemma finite_matching [simp, intro]: "finite R \<Longrightarrow> finite (matching R bound)"
  by (simp add: matching_def)

lemma encodeKey_append: "encodeKey (x @ y) = writeColsBe x @ encodeKey y"
  by (simp add: encodeKey_def)

lemma matching_image: "matching R bound = (@) bound ` {r. bound @ r \<in> R}"
proof
  show "matching R bound \<subseteq> (@) bound ` {r. bound @ r \<in> R}"
  proof
    fix t assume "t \<in> matching R bound"
    then have "bound @ drop (length bound) t = t" "t \<in> R"
      by (auto simp: matching_def) (metis append_take_drop_id)
    then show "t \<in> (@) bound ` {r. bound @ r \<in> R}" by (metis imageI mem_Collect_eq)
  qed
qed (auto simp: matching_def)

lemma words_from_bound:
  assumes "keyed arity d" "length bound \<le> arity" "run d (initial d) (writeColsBe bound) = Some st"
  shows "words_from d st = encodeKey ` {r. bound @ r \<in> dtuples arity d}"
proof -
  have acc: "accepts d st w \<longleftrightarrow> writeColsBe bound @ w \<in> dwords d" for w
    using assms(3) by (simp add: dwords_def accepts_append)
  have "\<exists>r. w = encodeKey r \<and> bound @ r \<in> dtuples arity d" if "writeColsBe bound @ w \<in> dwords d" for w
  proof -
    have "\<forall>w \<in> dwords d. \<exists>t. length t = arity \<and> w = encodeKey t"
      using assms(1) by (simp add: keyed_def)
    from bspec [OF this that] obtain t where t: "length t = arity" "writeColsBe bound @ w = encodeKey t"
      by (elim exE conjE)
    let ?k = "length bound"
    have "encodeKey t = writeColsBe (take ?k t) @ encodeKey (drop ?k t)"
      by (metis append_take_drop_id encodeKey_append)
    then have "writeColsBe bound = writeColsBe (take ?k t)" "w = encodeKey (drop ?k t)"
      using t assms(2) by (simp_all add: append_eq_append_conv)
    then have "bound = take ?k t" "w = encodeKey (drop ?k t)"
      using t assms(2) writeColsBe_inj [of bound "take ?k t"] by auto
    then have "bound @ drop ?k t = t" by (metis append_take_drop_id)
    then have "bound @ drop ?k t \<in> dtuples arity d" using that t by (simp add: dtuples_def)
    with \<open>w = encodeKey (drop ?k t)\<close> show ?thesis by (intro exI conjI)
  qed
  then show ?thesis by (auto simp: words_from_def acc dtuples_def encodeKey_append)
qed

lemma append_less_same: "(bound :: tuple) @ x < bound @ y \<longleftrightarrow> x < y"
  by (induction bound) auto

lemma full_tuple_key: "length bound + length r = arity \<Longrightarrow> full_tuple arity bound (encodeKey r) = bound @ r"
  by (auto simp: full_tuple_def Let_def)

text \<open>What the two walks hand out, in order: the matching tuples, sorted.\<close>

lemma below_tuples:
  assumes "keyed arity d" "arity \<le> MAX_ARITY" "length bound \<le> arity"
    "run d (initial d) (writeColsBe bound) = Some st" "MAX_KEY_LEN \<le> n"
  shows "map (full_tuple arity bound) (below n d st) = sorted_list_of_set (matching (dtuples arity d) bound)"
proof -
  let ?R = "{r. bound @ r \<in> dtuples arity d}"
  have st: "dafsa_ok d" "st < length (states d)"
    using keyed_ok [OF assms(1)] run_state assms(4) by auto
  have w: "words_from d st = encodeKey ` ?R" by (rule words_from_bound [OF assms(1,3,4)])
  have len: "length r = arity - length bound" if "r \<in> ?R" for r
    using that by (auto simp: dtuples_def)
  have "length u \<le> n" if "accepts d st u" for u
  proof -
    have "u \<in> words_from d st" using that by (simp add: words_from_def)
    then have "u \<in> encodeKey ` ?R" by (simp only: w)
    then obtain r where r: "r \<in> ?R" "u = encodeKey r" by (elim imageE)
    show ?thesis using len [OF r(1)] r(2) assms(2,5) by (simp add: MAX_KEY_LEN_def MAX_ARITY_def)
  qed
  then have "{u. length u \<le> n \<and> accepts d st u} = words_from d st"
    unfolding words_from_def by blast
  then have set: "set (below n d st) = encodeKey ` ?R" by (simp only: set_below [OF st] w)
  have full: "full_tuple arity bound (encodeKey r) = bound @ r" if "r \<in> ?R" for r
    using len [OF that] assms(3) by (intro full_tuple_key) simp
  have "sorted_wrt (<) (map (full_tuple arity bound) (below n d st))"
    unfolding sorted_wrt_map
  proof (rule sorted_wrt_mono_rel [OF _ sorted_below [OF st]])
    fix x y assume "x \<in> set (below n d st)" "y \<in> set (below n d st)" "x < y"
    then obtain r q where "r \<in> ?R" "q \<in> ?R" "x = encodeKey r" "y = encodeKey q" using set by auto
    then show "full_tuple arity bound x < full_tuple arity bound y"
      using \<open>x < y\<close> len full by (simp add: append_less_same encodeKey_less)
  qed
  moreover have "set (map (full_tuple arity bound) (below n d st)) = matching (dtuples arity d) bound"
    using full by (simp only: list.set_map set image_image matching_image) (rule image_cong, auto)
  ultimately show ?thesis
    by (metis sorted_list_of_set.idem_if_sorted_distinct strict_sorted_iff)
qed

lemma no_matching:
  assumes "run d (initial d) (writeColsBe bound) = None"
  shows "matching (dtuples arity d) bound = {}"
proof -
  have False if "t \<in> dtuples arity d" "take (length bound) t = bound" for t
  proof -
    have "encodeKey t = writeColsBe bound @ encodeKey (drop (length bound) t)"
      using that(2) by (metis append_take_drop_id encodeKey_append)
    then show False using that(1) assms by (simp add: dtuples_def dwords_def accepts_append)
  qed
  then show ?thesis by (auto simp: matching_def)
qed

theorem relPrefixD_deliver:
  assumes "engine_ok e" "keyed arity d" "arity \<le> MAX_ARITY" "k \<le> arity" "k \<le> length l"
  shows "relPrefixD e arity (Some d) (Some l) k cb s =
    (case deliver cb (sorted_list_of_set (matching (dtuples arity d) (take k l))) s of (n, s') \<Rightarrow> (int n, s'))"
proof -
  let ?bound = "take k l"
  have bound: "length ?bound = k" using assms(5) by simp
  have inv: "dafsa_inv d" "initial d < length (states d)" using keyed_ok [OF assms(2)] by auto
  have walk: "walk_bytes e d (initial d) (writeColsBe ?bound) = run d (initial d) (writeColsBe ?bound)"
    by (rule walk_bytes_run [OF assms(1) inv])
  show ?thesis
  proof (cases "run d (initial d) (writeColsBe ?bound)")
    case None
    then show ?thesis
      using assms(4) walk no_matching [OF None, of arity] by (simp add: relPrefixD_def deliver_def)
  next
    case (Some st)
    have "map (full_tuple arity ?bound) (below MAX_KEY_LEN d st) =
        sorted_list_of_set (matching (dtuples arity d) ?bound)"
      by (rule below_tuples [OF assms(2,3) _ Some]) (use assms(4,5) in simp_all)
    then show ?thesis
      using assms(4) walk Some
      by (simp add: relPrefixD_def prefixDfs_until deliver_def comp_def split: prod.splits)
  qed
qed

text \<open>With \<open>k = 0\<close> the leading columns may be a null pointer.\<close>

lemma relPrefixD_null: "relPrefixD e arity dd None 0 cb s = relPrefixD e arity dd (Some []) 0 cb s"
  by (simp add: relPrefixD_def split: option.splits)

theorem viewPrefixD_deliver:
  assumes "view_of e v d" "keyed arity d" "arity \<le> MAX_ARITY" "k \<le> arity" "k \<le> length l"
  shows "viewPrefixD e arity v (Some l) k cb s =
    (case deliver cb (sorted_list_of_set (matching (dtuples arity d) (take k l))) s of (n, s') \<Rightarrow> (int n, s'))"
proof -
  let ?bound = "take k l"
  have bound: "length ?bound = k" using assms(5) by simp
  have inv: "dafsa_ok d" "initial d < length (states d)" using keyed_ok [OF assms(2)] by auto
  have walk: "view_walk e v (vw_initial v) (writeColsBe ?bound) = run d (initial d) (writeColsBe ?bound)"
    using view_walk_run [OF assms(1) inv] assms(1) by (simp add: view_of_def)
  show ?thesis
  proof (cases "run d (initial d) (writeColsBe ?bound)")
    case None
    then show ?thesis
      using assms(4) walk no_matching [OF None, of arity] by (simp add: viewPrefixD_def deliver_def)
  next
    case (Some st)
    have st: "st < length (states d)" by (rule run_state [OF inv Some])
    have "set (below MAX_WORD_LEN d st) \<subseteq> encodeKey ` {r. ?bound @ r \<in> dtuples arity d}"
      using set_below [OF inv(1) st] words_from_bound [OF assms(2) _ Some] assms(4,5)
      by (auto simp: words_from_def)
    then have "map (view_tuple arity ?bound) (below MAX_WORD_LEN d st) =
        map (full_tuple arity ?bound) (below MAX_WORD_LEN d st)"
      using bound assms(4) by (auto simp: dtuples_def full_tuple_def view_tuple_def Let_def)
    also have "\<dots> = sorted_list_of_set (matching (dtuples arity d) ?bound)"
      by (rule below_tuples [OF assms(2,3) _ Some])
        (use assms(4,5) in \<open>simp_all add: MAX_KEY_LEN_def MAX_ARITY_def MAX_WORD_LEN_def\<close>)
    finally show ?thesis
      using assms(1,4) walk Some st
      by (simp add: viewPrefixD_def view_of_def deliver_def split: prod.splits)
  qed
qed

lemma viewPrefixD_null: "viewPrefixD e arity v None 0 cb s = viewPrefixD e arity v (Some []) 0 cb s"
  by (simp add: viewPrefixD_def)

end
