(* ===== verification/HeapSort.thy ===== *)
theory HeapSort
  imports Prelude
begin

text \<open>
  The in-place heapsort of \<^verbatim>\<open>zig/src/tupleset.zig\<close> (\<open>ts_sort_rows\<close>): \<open>sift_down\<close>,
  the heapify loop and the extraction loop, over a list of rows and a row comparison \<open>lt\<close>.
  The locale \<open>heap_order\<close> asks of \<open>lt\<close> only that it is a strict weak order, the contract a
  comparison callback has to meet, and proves the result a sorted permutation.
\<close>

function sift_down :: "('a \<Rightarrow> 'a \<Rightarrow> bool) \<Rightarrow> 'a list \<Rightarrow> nat \<Rightarrow> nat \<Rightarrow> 'a list" where
  "sift_down lt xs r end' =
     (let child = 2 * r + 1 in
      if child \<ge> end' then xs
      else let c = (if child + 1 < end' \<and> lt (xs ! child) (xs ! (child + 1)) then child + 1 else child) in
        if \<not> lt (xs ! r) (xs ! c) then xs
        else sift_down lt (swap_at xs r c) c end')"
  by pat_completeness auto
termination
  by (relation "measure (\<lambda>(lt, xs, r, e). e - r)") (auto simp: Let_def split: if_splits)

declare sift_down.simps [simp del]

fun heapify :: "('a \<Rightarrow> 'a \<Rightarrow> bool) \<Rightarrow> 'a list \<Rightarrow> nat \<Rightarrow> nat \<Rightarrow> 'a list" where
  "heapify lt xs n 0 = xs"
| "heapify lt xs n (Suc i) = heapify lt (sift_down lt xs i n) n i"

fun heap_extract :: "('a \<Rightarrow> 'a \<Rightarrow> bool) \<Rightarrow> 'a list \<Rightarrow> nat \<Rightarrow> 'a list" where
  "heap_extract lt xs 0 = xs"
| "heap_extract lt xs (Suc e) =
     (if e = 0 then xs else heap_extract lt (sift_down lt (swap_at xs 0 e) 0 e) e)"

definition ts_sort_rows :: "('a \<Rightarrow> 'a \<Rightarrow> bool) \<Rightarrow> 'a list \<Rightarrow> 'a list" where
  "ts_sort_rows lt rows =
     (if length rows < 2 then rows
      else heap_extract lt (heapify lt rows (length rows) (length rows div 2)) (length rows))"

subsection \<open>Permutation\<close>

lemma sift_down_perm:
  "r < e \<Longrightarrow> e \<le> length xs \<Longrightarrow> mset (sift_down lt xs r e) = mset xs \<and> drop e (sift_down lt xs r e) = drop e xs"
proof (induction lt xs r e rule: sift_down.induct)
  case (1 lt xs r e)
  define c where "c = (if 2 * r + 2 < e \<and> lt (xs ! (2 * r + 1)) (xs ! (2 * r + 2)) then 2 * r + 2 else 2 * r + 1)"
  show ?case
  proof (cases "2 * r + 1 \<ge> e \<or> \<not> lt (xs ! r) (xs ! c)")
    case True
    then show ?thesis by (subst (1 2) sift_down.simps) (auto simp: Let_def c_def)
  next
    case False
    then have c: "c < e" by (auto simp: c_def)
    have eq: "sift_down lt xs r e = sift_down lt (swap_at xs r c) c e"
      using False by (subst sift_down.simps) (auto simp: Let_def c_def)
    have "mset (sift_down lt (swap_at xs r c) c e) = mset (swap_at xs r c) \<and>
        drop e (sift_down lt (swap_at xs r c) c e) = drop e (swap_at xs r c)"
      using 1(1) [OF refl _ refl] False c "1.prems" by (auto simp: c_def Let_def)
    moreover have "drop e (swap_at xs r c) = drop e xs"
      using c "1.prems" by (simp add: swap_at_def)
    ultimately show ?thesis using eq c "1.prems" by simp
  qed
qed

lemma mset_sift_down: "r < e \<Longrightarrow> e \<le> length xs \<Longrightarrow> mset (sift_down lt xs r e) = mset xs"
  by (simp add: sift_down_perm)

lemma drop_sift_down: "r < e \<Longrightarrow> e \<le> length xs \<Longrightarrow> drop e (sift_down lt xs r e) = drop e xs"
  by (simp add: sift_down_perm)

lemma length_sift_down: "r < e \<Longrightarrow> e \<le> length xs \<Longrightarrow> length (sift_down lt xs r e) = length xs"
  by (metis mset_sift_down size_mset)

lemma set_take_sift_down:
  assumes "r < e" "e \<le> length xs"
  shows "set (take e (sift_down lt xs r e)) = set (take e xs)"
proof -
  have "mset (take e ys) = mset ys - mset (drop e ys)" for ys :: "'a list"
    by (metis add_diff_cancel_right' append_take_drop_id mset_append)
  then have "mset (take e (sift_down lt xs r e)) = mset (take e xs)"
    using assms by (simp add: sift_down_perm)
  then show ?thesis by (metis set_mset_mset)
qed

lemma heapify_perm:
  "i \<le> n \<Longrightarrow> n \<le> length xs \<Longrightarrow> mset (heapify lt xs n i) = mset xs"
  by (induction i arbitrary: xs) (auto simp: mset_sift_down length_sift_down)

lemma heap_extract_perm: "e \<le> length xs \<Longrightarrow> mset (heap_extract lt xs e) = mset xs"
proof (induction e arbitrary: xs)
  case (Suc e)
  then have "0 < length xs" "e < length xs" by auto
  with Suc show ?case by (auto simp: mset_sift_down length_sift_down simp del: length_greater_0_conv)
qed simp

lemma ts_sort_rows_perm: "mset (ts_sort_rows lt rows) = mset rows"
proof -
  let ?h = "heapify lt rows (length rows) (length rows div 2)"
  have "mset ?h = mset rows" by (rule heapify_perm) auto
  then show ?thesis using heap_extract_perm [of "length rows" ?h lt]
    by (auto simp: ts_sort_rows_def dest: mset_eq_length)
qed

subsection \<open>Order\<close>

locale heap_order =
  fixes lt :: "'a \<Rightarrow> 'a \<Rightarrow> bool"
  assumes lt_irrefl: "\<not> lt x x"
    and lt_asym: "lt x y \<Longrightarrow> \<not> lt y x"
    and lt_negtrans: "\<not> lt y x \<Longrightarrow> \<not> lt z y \<Longrightarrow> \<not> lt z x"
begin

definition le :: "'a \<Rightarrow> 'a \<Rightarrow> bool" where "le x y \<longleftrightarrow> \<not> lt y x"

definition heap_from :: "nat \<Rightarrow> nat \<Rightarrow> 'a list \<Rightarrow> bool" where
  "heap_from m e xs \<longleftrightarrow> (\<forall>c. 0 < c \<and> c < e \<and> m \<le> (c - 1) div 2 \<longrightarrow> le (xs ! c) (xs ! ((c - 1) div 2)))"

text \<open>A heap but for the pairs below \<open>r\<close>, whose children are still below \<open>r\<close>'s parent.\<close>

definition heap_except :: "nat \<Rightarrow> nat \<Rightarrow> nat \<Rightarrow> 'a list \<Rightarrow> bool" where
  "heap_except m e r xs \<longleftrightarrow>
     (\<forall>c. 0 < c \<and> c < e \<and> m \<le> (c - 1) div 2 \<and> (c - 1) div 2 \<noteq> r \<longrightarrow> le (xs ! c) (xs ! ((c - 1) div 2))) \<and>
     (\<forall>c. 0 < c \<and> c < e \<and> (c - 1) div 2 = r \<and> 0 < r \<and> m \<le> (r - 1) div 2 \<longrightarrow> le (xs ! c) (xs ! ((r - 1) div 2)))"

lemma le_trans: "le x y \<Longrightarrow> le y z \<Longrightarrow> le x z"
  using lt_negtrans by (auto simp: le_def)

lemma lt_le: "lt x y \<Longrightarrow> le x y"
  using lt_asym by (auto simp: le_def)

lemma children: "(c - 1) div 2 = r \<Longrightarrow> 0 < c \<Longrightarrow> c = 2 * r + 1 \<or> c = 2 * r + (2::nat)"
  by presburger

lemma sift_down_heap:
  assumes "heap_except m e r xs" "m \<le> r" "r < e" "e \<le> length xs"
  shows "heap_from m e (sift_down lt xs r e)"
  using assms
proof (induction "e - r" arbitrary: xs r rule: less_induct)
  case less
  define c where "c = (if 2 * r + 2 < e \<and> lt (xs ! (2 * r + 1)) (xs ! (2 * r + 2)) then 2 * r + 2 else 2 * r + 1)"
  show ?case
  proof (cases "2 * r + 1 \<ge> e")
    case True
    then have nochild: "(k - 1) div 2 \<noteq> r" if "0 < k" "k < e" for k using that by presburger
    have "sift_down lt xs r e = xs" using True by (subst sift_down.simps) simp
    then show ?thesis using less.prems(1) nochild by (auto simp: heap_from_def heap_except_def)
  next
    case child: False
    then have c: "c < e" "(c - 1) div 2 = r" "0 < c" "r < c" by (auto simp: c_def)
    have max: "le (xs ! k) (xs ! c)" if "(k - 1) div 2 = r" "0 < k" "k < e" for k
      using children [OF that(1,2)] that(3) lt_irrefl lt_asym by (auto simp: c_def le_def)
    show ?thesis
    proof (cases "lt (xs ! r) (xs ! c)")
      case False
      then have "sift_down lt xs r e = xs" using child
        by (subst sift_down.simps) (auto simp: Let_def c_def)
      moreover have "heap_from m e xs" unfolding heap_from_def
      proof (intro allI impI)
        fix k assume k: "0 < k \<and> k < e \<and> m \<le> (k - 1) div 2"
        show "le (xs ! k) (xs ! ((k - 1) div 2))"
        proof (cases "(k - 1) div 2 = r")
          case True
          then have "le (xs ! k) (xs ! c)" using max k by blast
          moreover have "le (xs ! c) (xs ! r)" using False by (simp add: le_def)
          ultimately show ?thesis using True le_trans by blast
        qed (use less.prems(1) k in \<open>auto simp: heap_except_def\<close>)
      qed
      ultimately show ?thesis by simp
    next
      case True
      let ?ys = "swap_at xs r c"
      have rl: "r < length xs" "c < length xs" using less.prems c by auto
      have "heap_except m e c ?ys"
        unfolding heap_except_def
      proof (intro conjI allI impI)
        fix k assume k: "0 < k \<and> k < e \<and> m \<le> (k - 1) div 2 \<and> (k - 1) div 2 \<noteq> c"
        let ?p = "(k - 1) div 2"
        have kl: "k < length xs" "?p < length xs" "?p < k" using k less.prems(4) by auto
        consider "?p = r" | "k = r" "?p \<noteq> r" | "k = c" | "?p \<noteq> r" "k \<noteq> r" "k \<noteq> c" by blast
        then show "le (?ys ! k) (?ys ! ?p)"
        proof cases
          case 1
          then have "k \<noteq> r" using kl by auto
          with 1 show ?thesis using rl kl k max [of k] True lt_le by (auto simp: c(4))
        next
          case 2
          then have "le (xs ! c) (xs ! ((r - 1) div 2))"
            using less.prems(1) c k by (auto simp: heap_except_def)
          with 2 k rl kl show ?thesis by auto
        next
          case 3
          then show ?thesis using c rl kl True lt_le by auto
        next
          case 4
          then show ?thesis using k rl kl less.prems(1) by (auto simp: heap_except_def)
        qed
      next
        fix k assume k: "0 < k \<and> k < e \<and> (k - 1) div 2 = c \<and> 0 < c \<and> m \<le> (c - 1) div 2"
        then have "le (xs ! k) (xs ! c)"
          using less.prems(1,2) c by (auto simp: heap_except_def)
        moreover have "k \<noteq> r" "k \<noteq> c" using k c by auto
        ultimately show "le (?ys ! k) (?ys ! ((c - 1) div 2))"
          using k rl c less.prems(4) by auto
      qed
      moreover have "sift_down lt xs r e = sift_down lt ?ys c e"
        using child True by (subst sift_down.simps) (auto simp: Let_def c_def)
      ultimately show ?thesis
        using less.hyps [of c ?ys] c less.prems by simp
    qed
  qed
qed

lemma heap_from_except: "heap_from (Suc r) e xs \<Longrightarrow> heap_except r e r xs"
  unfolding heap_from_def heap_except_def by auto

lemma heapify_heap: "i \<le> n \<Longrightarrow> n \<le> length xs \<Longrightarrow> heap_from i n xs \<Longrightarrow> heap_from 0 n (heapify lt xs n i)"
proof (induction i arbitrary: xs)
  case (Suc i)
  then have "heap_from i n (sift_down lt xs i n)"
    by (intro sift_down_heap heap_from_except) auto
  with Suc show ?case by (simp add: length_sift_down)
qed simp

lemma heap_half: "heap_from (n div 2) n xs"
  unfolding heap_from_def by (auto; presburger)

lemma heap_root_max: "heap_from 0 e xs \<Longrightarrow> i < e \<Longrightarrow> le (xs ! i) (xs ! 0)"
proof (induction i rule: less_induct)
  case (less i)
  show ?case
  proof (cases "i = 0")
    case False
    then have "le (xs ! i) (xs ! ((i - 1) div 2))" using less.prems by (auto simp: heap_from_def)
    moreover have "le (xs ! ((i - 1) div 2)) (xs ! 0)"
      using less False by (intro less.IH) auto
    ultimately show ?thesis by (rule le_trans)
  qed (use lt_irrefl in \<open>auto simp: le_def\<close>)
qed

lemma heap_extract_sorted:
  assumes "heap_from 0 e xs" "e \<le> length xs" "sorted_wrt le (drop e xs)"
    "\<forall>x \<in> set (take e xs). \<forall>y \<in> set (drop e xs). le x y"
  shows "sorted_wrt le (heap_extract lt xs e)"
  using assms
proof (induction e arbitrary: xs)
  case (Suc e)
  show ?case
  proof (cases "e = 0")
    case True
    with Suc.prems have "xs \<noteq> []" "sorted_wrt le (tl xs)" "\<forall>y \<in> set (tl xs). le (hd xs) y"
      by (cases xs; auto)+
    with True show ?thesis by (cases xs) auto
  next
    case False
    let ?ys = "swap_at xs 0 e"
    let ?zs = "sift_down lt ?ys 0 e"
    have l: "e < length xs" "0 < length xs" using Suc.prems(2) by auto
    have nth: "?ys ! k = xs ! k" if "0 < k" "k < e" for k using that l by auto
    have "heap_except 0 e 0 ?ys"
      unfolding heap_except_def
    proof (intro conjI allI impI)
      fix k assume k: "0 < k \<and> k < e \<and> 0 \<le> (k - 1) div 2 \<and> (k - 1) div 2 \<noteq> 0"
      then have "0 < (k - 1) div 2" "(k - 1) div 2 < e" by auto
      with k nth Suc.prems(1) show "le (?ys ! k) (?ys ! ((k - 1) div 2))"
        by (auto simp: heap_from_def)
    qed auto
    then have heap: "heap_from 0 e ?zs" using False l by (intro sift_down_heap) auto
    have last: "drop e ?zs = xs ! 0 # drop (Suc e) xs"
    proof -
      have "drop e ?zs = drop e ?ys" using False l by (intro drop_sift_down) auto
      also have "\<dots> = ?ys ! e # drop (Suc e) ?ys" using l by (metis Cons_nth_drop_Suc length_swap_at)
      finally show ?thesis using l False by (simp add: swap_at_def del: length_greater_0_conv)
    qed
    have tk: "set (take e ?zs) \<subseteq> set (take (Suc e) xs)"
    proof -
      have "set (take e ?zs) = set (take e ?ys)" using False l by (intro set_take_sift_down) auto
      also have "\<dots> = (\<lambda>i. ?ys ! i) ` {..<e}" using l by (intro set_take_image) simp
      also have "\<dots> \<subseteq> (\<lambda>i. xs ! i) ` {..<Suc e}" using l by (auto simp: image_iff)
      also have "\<dots> = set (take (Suc e) xs)" using l by (intro set_take_image [symmetric]) simp
      finally show ?thesis .
    qed
    have root: "le x (xs ! 0)" if "x \<in> set (take (Suc e) xs)" for x
      using that heap_root_max [OF Suc.prems(1)] l by (auto simp: set_conv_nth)
    have "xs ! 0 \<in> set (take (Suc e) xs)" using l by (auto simp: set_conv_nth intro!: exI [of _ 0])
    then have "sorted_wrt le (drop e ?zs)" using Suc.prems(3,4) last by auto
    moreover have "\<forall>x \<in> set (take e ?zs). \<forall>y \<in> set (drop e ?zs). le x y"
      using tk root Suc.prems(4) unfolding last by auto
    ultimately show ?thesis
      using Suc.IH [OF heap] False l by (simp add: length_sift_down)
  qed
qed simp

lemma ts_sort_rows_sorted: "sorted_wrt le (ts_sort_rows lt rows)"
proof (cases "length rows < 2")
  case True
  then show ?thesis by (cases rows; cases "tl rows") (auto simp: ts_sort_rows_def)
next
  case False
  let ?n = "length rows" and ?h = "heapify lt rows (length rows) (length rows div 2)"
  have len: "length ?h = ?n" by (metis heapify_perm div_le_dividend order_refl size_mset)
  have "heap_from 0 ?n ?h" by (rule heapify_heap) (auto intro: heap_half)
  then have "sorted_wrt le (heap_extract lt ?h ?n)" using len by (intro heap_extract_sorted) auto
  with False show ?thesis by (simp add: ts_sort_rows_def)
qed

end

end
