(* ===== verification/TupleSet.thy ===== *)
theory TupleSet
  imports Probe HeapSort
begin

text \<open>
  The in-memory tuple set of \<^verbatim>\<open>src/tupleset.h\<close>, as \<^verbatim>\<open>zig/src/tupleset.zig\<close> implements it: an array
  of rows beside an open-addressing hash table of 1-based row indices (0 marks an empty slot).
  \<open>ts_data\<close> holds exactly the \<open>count\<close> rows in use, \<open>ts_cap\<close> the capacity of the array, and an
  empty \<open>ts_htab\<close> is the null table with \<open>hcap = 0\<close>.  An operation returns \<open>None\<close> where its
  probing loop would not end; the invariant \<open>ts_inv\<close> excludes it.  Null pointers, which
  every exported function rejects first, are not modelled.
\<close>

record tuple_set =
  ts_data :: "tuple list"
  ts_cap :: nat
  ts_arity :: nat
  ts_htab :: "nat list"
  ts_hused :: nat

definition ts_count :: "tuple_set \<Rightarrow> nat" where
  "ts_count ts = length (ts_data ts)"

definition ts_hcap :: "tuple_set \<Rightarrow> nat" where
  "ts_hcap ts = length (ts_htab ts)"

definition ts_hash_cols :: "tuple \<Rightarrow> u64" where
  "ts_hash_cols cols = foldl fnv_u32 FNV_OFFSET cols"

definition ts_home :: "tuple \<Rightarrow> nat \<Rightarrow> nat" where
  "ts_home cols cap = unat (ts_hash_cols cols) AND (cap - 1)"

definition ts_hash_insert :: "nat list \<Rightarrow> tuple \<Rightarrow> nat \<Rightarrow> nat list option" where
  "ts_hash_insert htab cols idx1 =
     (case probe (length htab) (\<lambda>s. s = 0) (\<lambda>_. False) htab (ts_home cols (length htab)) of
        Some (_, i) \<Rightarrow> Some (htab[i := idx1])
      | None \<Rightarrow> None)"

definition ts_hash_find :: "tuple_set \<Rightarrow> tuple \<Rightarrow> nat option" where
  "ts_hash_find ts cols =
     (if ts_htab ts = [] then Some 0
      else case probe (ts_hcap ts) (\<lambda>s. s = 0) (\<lambda>s. ts_data ts ! (s - 1) = cols)
                  (ts_htab ts) (ts_home cols (ts_hcap ts)) of
        Some (True, i) \<Rightarrow> Some (ts_htab ts ! i)
      | Some (False, _) \<Rightarrow> Some 0
      | None \<Rightarrow> None)"

text \<open>The doubling loop starts at 16 and is never at 0.\<close>

function grow_cap :: "nat \<Rightarrow> nat \<Rightarrow> nat" where
  "grow_cap need cap = (if 0 < cap \<and> cap < need then grow_cap need (cap * 2) else cap)"
  by pat_completeness auto
termination by (relation "measure (\<lambda>(need, cap). need - cap)") auto

declare grow_cap.simps [simp del]

fun rehash :: "tuple list \<Rightarrow> nat list \<Rightarrow> nat list \<Rightarrow> nat list option" where
  "rehash data [] new = Some new"
| "rehash data (s # ss) new =
     (if s = 0 then rehash data ss new
      else case ts_hash_insert new (data ! (s - 1)) s of
        None \<Rightarrow> None
      | Some new' \<Rightarrow> rehash data ss new')"

definition ts_hash_grow :: "allocator \<Rightarrow> nat \<Rightarrow> tuple_set \<Rightarrow> (int \<times> tuple_set) option" where
  "ts_hash_grow al need ts =
     (let new_cap = grow_cap need 16 in
      if new_cap > 2 ^ 30 then Some (-1, ts)
      else if \<not> al ''ts_hash_grow'' (new_cap * 4) then Some (-1, ts)
      else case rehash (ts_data ts) (ts_htab ts) (replicate new_cap 0) of
        None \<Rightarrow> None
      | Some new \<Rightarrow> Some (0, ts\<lparr>ts_htab := new\<rparr>))"

definition ts_init :: "nat \<Rightarrow> tuple_set option" where
  "ts_init arity =
     (if arity = 0 \<or> arity > 8 then None
      else Some \<lparr>ts_data = [], ts_cap = 0, ts_arity = arity, ts_htab = [], ts_hused = 0\<rparr>)"

definition ts_contains :: "tuple_set \<Rightarrow> tuple \<Rightarrow> bool option" where
  "ts_contains ts cols =
     (if ts_count ts = 0 then Some False
      else case ts_hash_find ts cols of None \<Rightarrow> None | Some s \<Rightarrow> Some (s \<noteq> 0))"

text \<open>
  The size asked of the hash table for \<open>n\<close> rows is \<open>n / 0.70\<close> in double precision, truncated;
  for the counts a table of at most \<open>2\<^sup>3\<^sup>0\<close> slots can reach that is exactly \<open>10 n / 7\<close>.
\<close>

definition ts_need :: "nat \<Rightarrow> nat" where
  "ts_need n = (let need = 10 * n div 7 in if need < 16 then 16 else need)"

definition ts_overloaded :: "nat \<Rightarrow> tuple_set \<Rightarrow> bool" where
  "ts_overloaded n ts \<longleftrightarrow> ts_hcap ts = 0 \<or> n > ts_hcap ts - ts_hcap ts div 4"

text \<open>\<open>ts_place\<close> is the tail both \<open>ts_add\<close> and the rebuild in \<open>ts_sort\<close> share: make room
  for \<open>n\<close> entries, then store the index \<open>n\<close>.  Its result code is that of the growth step.\<close>

definition ts_place :: "allocator \<Rightarrow> tuple \<Rightarrow> nat \<Rightarrow> tuple_set \<Rightarrow> (int \<times> tuple_set) option" where
  "ts_place al cols n ts =
     (case (if ts_overloaded n ts then ts_hash_grow al (ts_need n) ts else Some (0, ts)) of
        None \<Rightarrow> None
      | Some (rc, ts') \<Rightarrow>
          if rc \<noteq> 0 then Some (rc, ts')
          else case ts_hash_insert (ts_htab ts') cols n of
            None \<Rightarrow> None
          | Some h \<Rightarrow> Some (0, ts'\<lparr>ts_htab := h, ts_hused := ts_hused ts' + 1\<rparr>))"

definition ts_reserve :: "allocator \<Rightarrow> tuple_set \<Rightarrow> tuple_set option" where
  "ts_reserve al ts =
     (if ts_count ts \<ge> ts_cap ts then
        (let nc = (if ts_cap ts \<noteq> 0 then ts_cap ts * 2 else 1024) in
         if al ''ts_add'' (nc * ts_arity ts * 4) then Some (ts\<lparr>ts_cap := nc\<rparr>) else None)
      else Some ts)"

definition ts_add :: "allocator \<Rightarrow> tuple_set \<Rightarrow> tuple \<Rightarrow> (int \<times> tuple_set) option" where
  "ts_add al ts cols =
     (case ts_hash_find ts cols of
        None \<Rightarrow> None
      | Some s \<Rightarrow>
          if s \<noteq> 0 then Some (0, ts)
          else case ts_reserve al ts of
            None \<Rightarrow> Some (-1, ts)
          | Some ts1 \<Rightarrow>
              let ts2 = ts1\<lparr>ts_data := ts_data ts1 @ [cols]\<rparr> in
              case ts_place al cols (ts_count ts2) ts2 of
                None \<Rightarrow> None
              | Some (rc, ts3) \<Rightarrow>
                  if rc \<noteq> 0 then Some (-1, ts3\<lparr>ts_data := butlast (ts_data ts3)\<rparr>)
                  else Some (1, ts3))"

text \<open>The row comparison loop: the first differing column decides.  (A row has \<open>arity\<close>
  columns; a missing column, which the array never has, counts as the least value.)\<close>

fun row_less :: "nat \<Rightarrow> tuple \<Rightarrow> tuple \<Rightarrow> bool" where
  "row_less 0 x y = False"
| "row_less (Suc n) (a # x) (b # y) = (if a < b then True else if a > b then False else row_less n x y)"
| "row_less (Suc n) [] (b # y) = True"
| "row_less (Suc n) x [] = False"

fun dedup_rows :: "tuple \<Rightarrow> tuple list \<Rightarrow> tuple list" where
  "dedup_rows prev [] = []"
| "dedup_rows prev (cur # rest) =
     (if prev \<noteq> cur then cur # dedup_rows cur rest else dedup_rows prev rest)"

text \<open>The rebuild loop of \<open>ts_sort\<close> over the row indices from \<open>i\<close>; it gives up silently
  when the table cannot grow.\<close>

fun ts_rebuild :: "allocator \<Rightarrow> tuple list \<Rightarrow> nat \<Rightarrow> tuple_set \<Rightarrow> tuple_set option" where
  "ts_rebuild al [] i ts = Some ts"
| "ts_rebuild al (row # rest) i ts =
     (case ts_place al row (i + 1) ts of
        None \<Rightarrow> None
      | Some (rc, ts') \<Rightarrow> if rc \<noteq> 0 then Some ts' else ts_rebuild al rest (i + 1) ts')"

definition ts_sort :: "allocator \<Rightarrow> tuple_set \<Rightarrow> tuple_set option" where
  "ts_sort al ts =
     (if ts_count ts \<le> 1 \<or> ts_arity ts = 0 then Some ts
      else
        let rows = ts_sort_rows (row_less (ts_arity ts)) (ts_data ts);
            rows' = hd rows # dedup_rows (hd rows) (tl rows);
            ts1 = ts\<lparr>ts_data := rows'\<rparr>;
            ts2 = (if ts_htab ts = [] then ts1
                   else ts1\<lparr>ts_htab := replicate (ts_hcap ts) 0, ts_hused := 0\<rparr>)
        in ts_rebuild al rows' 0 ts2)"

definition ts_reset :: "tuple_set \<Rightarrow> tuple_set" where
  "ts_reset ts =
     (if ts_htab ts = [] then ts\<lparr>ts_data := []\<rparr>
      else ts\<lparr>ts_data := [], ts_htab := replicate (ts_hcap ts) 0, ts_hused := 0\<rparr>)"

definition ts_free :: "tuple_set \<Rightarrow> tuple_set" where
  "ts_free ts = \<lparr>ts_data = [], ts_cap = 0, ts_arity = 0, ts_htab = [], ts_hused = 0\<rparr>"

text \<open>\<open>ts_prefix\<close>: the three-way comparison of the leading \<open>k\<close> columns, the binary search for
  the lower bound, and the two walks around it.\<close>

fun prefix_cmp :: "tuple \<Rightarrow> tuple \<Rightarrow> nat \<Rightarrow> int" where
  "prefix_cmp r p 0 = 0"
| "prefix_cmp (a # r) (b # p) (Suc k) = (if a < b then -1 else if a > b then 1 else prefix_cmp r p k)"
| "prefix_cmp _ _ (Suc k) = 0"

function lower_bound :: "tuple list \<Rightarrow> tuple \<Rightarrow> nat \<Rightarrow> nat \<Rightarrow> nat \<Rightarrow> nat" where
  "lower_bound rows p k lo hi =
     (if lo < hi then
        (let mid = lo + (hi - lo) div 2 in
         if prefix_cmp (rows ! mid) p k < 0 then lower_bound rows p k (mid + 1) hi
         else lower_bound rows p k lo mid)
      else lo)"
  by pat_completeness auto
termination by (relation "measure (\<lambda>(rows, p, k, lo, hi). hi - lo)") auto

declare lower_bound.simps [simp del]

definition prefix_match :: "tuple \<Rightarrow> tuple \<Rightarrow> nat \<Rightarrow> bool" where
  "prefix_match r p k \<longleftrightarrow> take k r = take k p"

fun walk_back :: "tuple list \<Rightarrow> tuple \<Rightarrow> nat \<Rightarrow> nat \<Rightarrow> nat" where
  "walk_back rows p k 0 = 0"
| "walk_back rows p k (Suc i) = (if prefix_match (rows ! i) p k then walk_back rows p k i else Suc i)"

function walk_fwd :: "tuple list \<Rightarrow> tuple \<Rightarrow> nat \<Rightarrow> nat \<Rightarrow> nat" where
  "walk_fwd rows p k i =
     (if i < length rows \<and> prefix_match (rows ! i) p k then walk_fwd rows p k (i + 1) else i)"
  by pat_completeness auto
termination by (relation "measure (\<lambda>(rows, p, k, i). length rows - i)") auto

declare walk_fwd.simps [simp del]

definition ts_prefix :: "tuple_set \<Rightarrow> tuple \<Rightarrow> nat \<Rightarrow> nat \<times> nat" where
  "ts_prefix ts p k =
     (if ts_count ts = 0 \<or> k > ts_arity ts then (0, 0)
      else
        let lo = lower_bound (ts_data ts) p k 0 (ts_count ts) in
        if lo \<ge> ts_count ts then (0, 0)
        else if \<not> prefix_match (ts_data ts ! lo) p k then (0, 0)
        else let first = walk_back (ts_data ts) p k lo;
                 last = walk_fwd (ts_data ts) p k lo
             in (last - first, first))"

subsection \<open>The invariant\<close>

definition slot_key :: "tuple list \<Rightarrow> nat \<Rightarrow> tuple option" where
  "slot_key data s = (if s = 0 then None else Some (data ! (s - 1)))"

text \<open>\<open>tab_ok ts n\<close>: the table indexes exactly the first \<open>n\<close> rows.\<close>

definition tab_ok :: "tuple_set \<Rightarrow> nat \<Rightarrow> bool" where
  "tab_ok ts n \<longleftrightarrow> n \<le> length (ts_data ts) \<and> (\<forall>s \<in> set (ts_htab ts). s \<le> n) \<and> ts_hused ts = n \<and>
     (ts_htab ts = [] \<longrightarrow> n = 0) \<and>
     (ts_htab ts \<noteq> [] \<longrightarrow> 16 \<le> length (ts_htab ts) \<and>
        lp_ok ts_home (map (slot_key (ts_data ts)) (ts_htab ts)) \<and>
        lp_keys (map (slot_key (ts_data ts)) (ts_htab ts)) = set (take n (ts_data ts)) \<and>
        occupied (map (slot_key (ts_data ts)) (ts_htab ts)) = n)"

definition ts_inv :: "tuple_set \<Rightarrow> bool" where
  "ts_inv ts \<longleftrightarrow> 1 \<le> ts_arity ts \<and> ts_arity ts \<le> 8 \<and> distinct (ts_data ts) \<and>
     (\<forall>r \<in> set (ts_data ts). length r = ts_arity ts) \<and> ts_count ts \<le> ts_cap ts \<and>
     tab_ok ts (ts_count ts) \<and> ts_count ts \<le> ts_hcap ts - ts_hcap ts div 4"

definition ts_rows :: "tuple_set \<Rightarrow> tuple set" where
  "ts_rows ts = set (ts_data ts)"

interpretation rows: linear_probing ts_home
proof
  show "pow2 c \<Longrightarrow> ts_home k c < c" for c k
    using pow2_pos [of c] by (simp add: ts_home_def pow2_and)
qed

lemma slot_key_append: "s \<le> length data \<Longrightarrow> slot_key (data @ ys) s = slot_key data s"
  by (auto simp: slot_key_def nth_append)

lemma map_slot_key_append:
  "\<forall>s \<in> set h. s \<le> length data \<Longrightarrow> map (slot_key (data @ ys)) h = map (slot_key data) h"
  by (simp add: slot_key_append)

lemma hash_insert_ok:
  assumes "lp_ok ts_home (map (slot_key data) h)" "0 < s" "data ! (s - 1) = row"
    "row \<notin> lp_keys (map (slot_key data) h)" "occupied (map (slot_key data) h) < length h"
  obtains h' where "ts_hash_insert h row s = Some h'" "length h' = length h"
    "lp_ok ts_home (map (slot_key data) h')"
    "lp_keys (map (slot_key data) h') = insert row (lp_keys (map (slot_key data) h))"
    "occupied (map (slot_key data) h') = Suc (occupied (map (slot_key data) h))"
    "set h' \<subseteq> insert s (set h)"
proof -
  let ?probe = "probe (length h) (\<lambda>s. s = 0) (\<lambda>_. False) h (ts_home row (length h))"
  obtain p where p: "?probe = Some (False, p)" "lp_ok ts_home (map (slot_key data) (h[p := s]))"
    "lp_keys (map (slot_key data) (h[p := s])) = insert row (lp_keys (map (slot_key data) h))"
    "occupied (map (slot_key data) (h[p := s])) = Suc (occupied (map (slot_key data) h))"
    by (rule rows.insert_entry [OF assms(1,4,5), of "\<lambda>s. s = 0" "\<lambda>_. False" s])
      (use assms(2,3) in \<open>auto simp: slot_key_def\<close>)
  then have "ts_hash_insert h row s = Some (h[p := s])" by (simp add: ts_hash_insert_def)
  then show thesis using p that [of "h[p := s]"] by (simp add: set_update_subset_insert)
qed

lemma distinct_filter_inj:
  assumes "\<And>p q. p < length t \<Longrightarrow> q < length t \<Longrightarrow> P (t ! p) \<Longrightarrow> t ! p = t ! q \<Longrightarrow> p = q"
  shows "distinct (filter P t)"
  using assms
proof (induction t)
  case (Cons x t)
  have "x \<notin> set t" if "P x"
    using that Cons.prems [of 0 "Suc q" for q] by (fastforce simp: in_set_conv_nth)
  moreover have "distinct (filter P t)"
    using Cons.prems [of "Suc p" "Suc q" for p q] by (intro Cons.IH) fastforce
  ultimately show ?case by auto
qed simp

lemma lp_ok_distinct: "lp_ok home t \<Longrightarrow> distinct (filter (\<lambda>x. x \<noteq> None) t)"
  by (rule distinct_filter_inj) (auto simp: lp_ok_def)

lemma rehash_ok:
  assumes "lp_ok ts_home (map (slot_key data) new)" "distinct (filter (\<lambda>x. x \<noteq> None) (map (slot_key data) ss))"
    "lp_keys (map (slot_key data) ss) \<inter> lp_keys (map (slot_key data) new) = {}"
    "occupied (map (slot_key data) new) + occupied (map (slot_key data) ss) \<le> length new"
  shows "\<exists>h. rehash data ss new = Some h \<and> length h = length new \<and> lp_ok ts_home (map (slot_key data) h) \<and>
    lp_keys (map (slot_key data) h) = lp_keys (map (slot_key data) new) \<union> lp_keys (map (slot_key data) ss) \<and>
    occupied (map (slot_key data) h) = occupied (map (slot_key data) new) + occupied (map (slot_key data) ss) \<and>
    set h \<subseteq> set new \<union> set ss"
  using assms
proof (induction ss arbitrary: new)
  case (Cons s ss)
  show ?case
  proof (cases "s = 0")
    case True
    then have "slot_key data s = None" by (simp add: slot_key_def)
    with Cons.IH [of new] Cons.prems True show ?thesis
      by (auto simp: occupied_def lp_keys_def)
  next
    case False
    let ?row = "data ! (s - 1)"
    have key: "slot_key data s = Some ?row" using False by (simp add: slot_key_def)
    have ks: "lp_keys (map (slot_key data) (s # ss)) = insert ?row (lp_keys (map (slot_key data) ss))"
      "occupied (map (slot_key data) (s # ss)) = Suc (occupied (map (slot_key data) ss))"
      using key by (auto simp: lp_keys_def occupied_def)
    have fresh: "?row \<notin> lp_keys (map (slot_key data) ss)"
      using Cons.prems(2) key by (auto simp: lp_keys_def)
    obtain h' where h': "ts_hash_insert new ?row s = Some h'" "length h' = length new"
      "lp_ok ts_home (map (slot_key data) h')"
      "lp_keys (map (slot_key data) h') = insert ?row (lp_keys (map (slot_key data) new))"
      "occupied (map (slot_key data) h') = Suc (occupied (map (slot_key data) new))"
      "set h' \<subseteq> insert s (set new)"
      by (rule hash_insert_ok [OF Cons.prems(1), of s ?row]) (use False Cons.prems(3,4) ks in auto)
    have "\<exists>h. rehash data ss h' = Some h \<and> length h = length h' \<and> lp_ok ts_home (map (slot_key data) h) \<and>
        lp_keys (map (slot_key data) h) = lp_keys (map (slot_key data) h') \<union> lp_keys (map (slot_key data) ss) \<and>
        occupied (map (slot_key data) h) = occupied (map (slot_key data) h') + occupied (map (slot_key data) ss) \<and>
        set h \<subseteq> set h' \<union> set ss"
      using Cons.prems(2-4) ks fresh h'(2-5) key by (intro Cons.IH) auto
    with False h' ks show ?thesis by fastforce
  qed
qed (simp add: lp_keys_def occupied_def)

lemma grow_cap_ok: "pow2 c \<Longrightarrow> c \<le> grow_cap need c \<and> pow2 (grow_cap need c) \<and> need \<le> grow_cap need c"
proof (induction need c rule: grow_cap.induct)
  case (1 need c)
  show ?case
  proof (cases "0 < c \<and> c < need")
    case True
    have "pow2 (c * 2)" using pow2_double [OF 1(2)] by (simp add: mult.commute)
    with 1(1) [OF True] True show ?thesis by (subst (1 2 3) grow_cap.simps) auto
  next
    case False
    with pow2_pos [OF 1(2)] 1(2) show ?thesis by (subst (1 2 3) grow_cap.simps) auto
  qed
qed

lemma grow_cap_load:
  "m \<le> grow_cap (ts_need m) 16 - grow_cap (ts_need m) 16 div 4 \<and> pow2 (grow_cap (ts_need m) 16) \<and>
   16 \<le> grow_cap (ts_need m) 16"
proof -
  have "pow2 16" unfolding pow2_def by (rule exI [of _ 4]) simp
  note g = grow_cap_ok [OF this, of "ts_need m"]
  have "10 * m div 7 \<le> ts_need m" by (simp add: ts_need_def Let_def)
  moreover have "m \<le> c - c div 4" if "10 * m div 7 \<le> c" "16 \<le> c" for c :: nat
  proof -
    have "10 * m < 7 * c + 7"
      using that(1) div_less_iff_less_mult [of 7 "10 * m" "Suc c"] by linarith
    moreover have "4 * (c div 4) \<le> c" by simp
    ultimately show ?thesis using that(2) by linarith
  qed
  ultimately show ?thesis using g by (meson order_trans)
qed

text \<open>Up to \<open>2\<^sup>2\<^sup>9\<close> rows the table stays within its limit of \<open>2\<^sup>3\<^sup>0\<close> slots.\<close>

lemma grow_cap_limit: "a \<le> b \<Longrightarrow> need \<le> 2 ^ b \<Longrightarrow> grow_cap need (2 ^ a) \<le> 2 ^ b"
proof (induction "b - a" arbitrary: a)
  case (Suc n)
  have "grow_cap need (2 ^ a) = (if 2 ^ a < need then grow_cap need (2 ^ Suc a) else 2 ^ a)"
    by (subst grow_cap.simps) (simp add: mult.commute)
  with Suc.hyps(1) [of "Suc a"] Suc.hyps(2) Suc.prems show ?case by (auto split: if_splits)
qed (simp add: grow_cap.simps)

lemma grow_cap_fits: "m \<le> 2 ^ 29 \<Longrightarrow> grow_cap (ts_need m) 16 \<le> 2 ^ 30"
proof -
  assume m: "m \<le> 2 ^ 29"
  have "10 * m div 7 \<le> 10 * 2 ^ 29 div 7" using m by (intro div_le_mono) simp
  then have "ts_need m \<le> 2 ^ 30" by (simp add: ts_need_def Let_def)
  then show ?thesis using grow_cap_limit [of 4 30 "ts_need m"] by simp
qed

lemma hash_grow_ok:
  assumes "tab_ok ts n" "m = Suc n"
  obtains (fail) "ts_hash_grow al (ts_need m) ts = Some (-1, ts)" "\<not> (generous al \<and> m \<le> 2 ^ 29)"
  | (ok) ts' h where "ts_hash_grow al (ts_need m) ts = Some (0, ts')" "ts' = ts\<lparr>ts_htab := h\<rparr>"
      "tab_ok ts' n" "m \<le> ts_hcap ts' - ts_hcap ts' div 4" "h \<noteq> []"
proof -
  let ?key = "slot_key (ts_data ts)"
  define c where "c = grow_cap (ts_need m) 16"
  have key0: "map ?key (replicate c 0) = replicate c None" by (simp add: slot_key_def)
  have load: "m \<le> c - c div 4" "pow2 c" "16 \<le> c" using grow_cap_load [of m] by (auto simp: c_def)
  have occ: "occupied (map ?key (ts_htab ts)) = n" "lp_keys (map ?key (ts_htab ts)) = set (take n (ts_data ts))"
    using assms(1) by (cases "ts_htab ts = []"; simp add: tab_ok_def occupied_def lp_keys_def)+
  moreover have "distinct (filter (\<lambda>x. x \<noteq> None) (map ?key (ts_htab ts)))"
    using assms(1) lp_ok_distinct [of ts_home "map ?key (ts_htab ts)"] unfolding tab_ok_def
    by (cases "ts_htab ts = []") (simp, blast)
  moreover have "n \<le> c" using load(1) assms(2) by linarith
  moreover have "lp_ok ts_home (map ?key (replicate c 0))" unfolding key0 by (rule lp_ok_replicate [OF load(2)])
  moreover have "lp_keys (map ?key (replicate c 0)) = {}" "occupied (map ?key (replicate c 0)) = 0"
    unfolding key0 by (rule lp_keys_replicate, rule occupied_replicate)
  moreover note rehash_ok [of "ts_data ts" "replicate c 0" "ts_htab ts"]
  ultimately have "\<exists>h. rehash (ts_data ts) (ts_htab ts) (replicate c 0) = Some h \<and> length h = c \<and>
    lp_ok ts_home (map ?key h) \<and> lp_keys (map ?key h) = set (take n (ts_data ts)) \<and>
    occupied (map ?key h) = n \<and> set h \<subseteq> set (replicate c 0) \<union> set (ts_htab ts)"
    by (simp only: length_replicate add_0 Int_empty_right Un_empty_left)
  then obtain h where h: "rehash (ts_data ts) (ts_htab ts) (replicate c 0) = Some h" "length h = c"
    "lp_ok ts_home (map ?key h)" "lp_keys (map ?key h) = set (take n (ts_data ts))"
    "occupied (map ?key h) = n" "set h \<subseteq> set (replicate c 0) \<union> set (ts_htab ts)" by blast
  have le: "s \<le> n" if "s \<in> set h" for s
    using that h(6) assms(1) by (auto simp: tab_ok_def split: if_splits)
  have "h \<noteq> []" using h(2) pow2_pos [OF load(2)] by auto
  moreover have "tab_ok (ts\<lparr>ts_htab := h\<rparr>) n"
    using assms(1) h(2-5) load(3) le calculation by (simp add: tab_ok_def)
  moreover have "ts_hash_grow al (ts_need m) ts =
      (if c > 2 ^ 30 \<or> \<not> al ''ts_hash_grow'' (c * 4) then Some (-1, ts) else Some (0, ts\<lparr>ts_htab := h\<rparr>))"
    unfolding ts_hash_grow_def Let_def c_def [symmetric] h(1) by (simp only: option.case if_distrib simp_thms) auto
  moreover have "m \<le> ts_hcap (ts\<lparr>ts_htab := h\<rparr>) - ts_hcap (ts\<lparr>ts_htab := h\<rparr>) div 4"
    unfolding ts_hcap_def using h(2) load(1) by simp
  moreover have "\<not> (c > 2 ^ 30 \<or> \<not> al ''ts_hash_grow'' (c * 4))" if "generous al \<and> m \<le> 2 ^ 29"
    using that grow_cap_fits [of m] unfolding c_def [symmetric] generous_def by (simp add: not_less)
  ultimately show thesis using that(1) that(2) [OF _ refl, of h] by metis
qed

text \<open>One step of filling the table: row \<open>n\<close> is stored under index \<open>n + 1\<close>.\<close>

lemma ts_place_ok:
  assumes tab: "tab_ok ts n" and n: "n < length (ts_data ts)" and d: "distinct (ts_data ts)"
  obtains (fail) "ts_place al (ts_data ts ! n) (Suc n) ts = Some (-1, ts)" "ts_overloaded (Suc n) ts"
      "\<not> (generous al \<and> Suc n \<le> 2 ^ 29)"
  | (ok) h where "ts_place al (ts_data ts ! n) (Suc n) ts =
        Some (0, ts\<lparr>ts_htab := h, ts_hused := Suc n\<rparr>)"
      "tab_ok (ts\<lparr>ts_htab := h, ts_hused := Suc n\<rparr>) (Suc n)"
      "Suc n \<le> length h - length h div 4" "ts_overloaded (Suc n) ts \<or> length h = ts_hcap ts"
proof -
  let ?row = "ts_data ts ! n"
  let ?step = "if ts_overloaded (Suc n) ts then ts_hash_grow al (ts_need (Suc n)) ts else Some (0, ts)"
  consider (f) "?step = Some (-1, ts)" "ts_overloaded (Suc n) ts" "\<not> (generous al \<and> Suc n \<le> 2 ^ 29)"
    | (g) g where "?step = Some (0, ts\<lparr>ts_htab := g\<rparr>)" "tab_ok (ts\<lparr>ts_htab := g\<rparr>) n"
      "Suc n \<le> length g - length g div 4" "g \<noteq> []" "ts_overloaded (Suc n) ts \<or> length g = ts_hcap ts"
  proof (cases "ts_overloaded (Suc n) ts")
    case True
    show thesis
      by (rule hash_grow_ok [OF tab refl, of al]) (use that True in \<open>auto simp: ts_hcap_def\<close>)
  next
    case False
    then show thesis using that(2) [of "ts_htab ts"] tab by (auto simp: ts_overloaded_def ts_hcap_def)
  qed
  then show thesis
  proof cases
    case f
    then show thesis using that(1) by (simp add: ts_place_def)
  next
    case (g g)
    let ?t = "map (slot_key (ts_data ts)) g"
    have tk: "lp_ok ts_home ?t" "lp_keys ?t = set (take n (ts_data ts))" "occupied ?t = n"
      using g(2,4) by (auto simp: tab_ok_def)
    have new: "?row \<notin> lp_keys ?t"
      using d n tk(2) by (auto simp: in_set_conv_nth distinct_conv_nth)
    have room: "occupied ?t < length g" using g(3) tk(3) by linarith
    obtain h where h: "ts_hash_insert g ?row (Suc n) = Some h" "length h = length g"
      "lp_ok ts_home (map (slot_key (ts_data ts)) h)"
      "lp_keys (map (slot_key (ts_data ts)) h) = insert ?row (lp_keys ?t)"
      "occupied (map (slot_key (ts_data ts)) h) = Suc (occupied ?t)" "set h \<subseteq> insert (Suc n) (set g)"
      by (rule hash_insert_ok [OF tk(1) _ _ new room, of "Suc n"]) auto
    have "ts_hused ts = n" using tab by (simp add: tab_ok_def)
    then have "ts_place al ?row (Suc n) ts = Some (0, ts\<lparr>ts_htab := h, ts_hused := Suc n\<rparr>)"
      using g(1) h(1) by (simp add: ts_place_def)
    moreover have "\<forall>s \<in> set h. s \<le> Suc n" "h \<noteq> []" "16 \<le> length h"
      using g(2,4) h(2,6) by (fastforce simp: tab_ok_def)+
    then have "tab_ok (ts\<lparr>ts_htab := h, ts_hused := Suc n\<rparr>) (Suc n)"
      using h(3-5) tk n by (simp add: tab_ok_def take_Suc_conv_app_nth)
    ultimately show thesis using that(2) [of h] g(3,5) h(2) by simp
  qed
qed

lemma hash_find_ok:
  assumes "tab_ok ts n" "n < ts_hcap ts \<or> ts_hcap ts = 0"
  shows "\<exists>s. ts_hash_find ts cols = Some s \<and> (s \<noteq> 0 \<longleftrightarrow> cols \<in> set (take n (ts_data ts)))"
proof (cases "ts_htab ts = []")
  case True
  with assms(1) show ?thesis by (simp add: ts_hash_find_def tab_ok_def)
next
  case False
  let ?h = "ts_htab ts" and ?key = "slot_key (ts_data ts)"
  let ?t = "map ?key ?h"
  let ?probe = "probe (length ?h) (\<lambda>s. s = 0) (\<lambda>s. ts_data ts ! (s - 1) = cols) ?h (ts_home cols (length ?h))"
  have tk: "lp_ok ts_home ?t" "lp_keys ?t = set (take n (ts_data ts))" "occupied ?t < length ?h"
    using assms False by (auto simp: tab_ok_def ts_hcap_def)
  have hit: "ts_data ts ! (s - 1) = cols \<longleftrightarrow> ?key s = Some cols" if "s \<noteq> 0" for s
    using that by (simp add: slot_key_def)
  show ?thesis
  proof (cases "cols \<in> lp_keys ?t")
    case True
    obtain p where "?key (?h ! p) = Some cols" "?probe = Some (True, p)"
      by (rule rows.find_entry [OF tk(1) True, of "\<lambda>s. s = 0" "\<lambda>s. ts_data ts ! (s - 1) = cols"])
        (auto simp: slot_key_def)
    then show ?thesis using False True tk(2)
      by (auto simp: ts_hash_find_def ts_hcap_def slot_key_def split: if_splits)
  next
    case absent: False
    have nohit: "ts_data ts ! (s - 1) \<noteq> cols" if "s \<in> set ?h" "s \<noteq> 0" for s
      using that absent hit [of s] by (force simp: lp_keys_def)
    have ne: "\<exists>p < length ?t. ?t ! p = None" using tk(3) by (intro occupied_lt_has_empty) simp
    have c: "pow2 (length ?h)" using tk(1) by (simp add: lp_ok_def)
    obtain p where "probe (length ?t) (\<lambda>x. x = None) (\<lambda>_. False) ?t (ts_home cols (length ?t)) = Some (False, p)"
      by (rule rows.find_absent [OF tk(1) absent ne, of "\<lambda>x. False"]) auto
    moreover have "?probe = probe (length ?t) (\<lambda>x. x = None) (\<lambda>_. False) ?t (ts_home cols (length ?t))"
      by (rule rows.probe_keys [OF c]) (use nohit in \<open>auto simp: slot_key_def\<close>)
    ultimately have "?probe = Some (False, p)" by simp
    then show ?thesis using False absent tk(2) by (auto simp: ts_hash_find_def ts_hcap_def)
  qed
qed

lemma ts_inv_room: "ts_inv ts \<Longrightarrow> ts_count ts < ts_hcap ts \<or> ts_hcap ts = 0"
proof -
  assume a: "ts_inv ts"
  then have "ts_hcap ts = 0 \<or> 16 \<le> ts_hcap ts" by (auto simp: ts_inv_def tab_ok_def ts_hcap_def)
  moreover have "c - c div 4 < c" if "16 \<le> c" for c :: nat using that by (intro diff_less) auto
  ultimately show ?thesis using a unfolding ts_inv_def by (meson order_le_less_trans)
qed

lemma ts_find_inv:
  assumes "ts_inv ts"
  shows "\<exists>s. ts_hash_find ts cols = Some s \<and> (s \<noteq> 0 \<longleftrightarrow> cols \<in> ts_rows ts)"
  using hash_find_ok [of ts "ts_count ts" cols] assms ts_inv_room [OF assms]
  by (auto simp: ts_inv_def ts_count_def ts_rows_def)

lemma ts_contains_inv: "ts_inv ts \<Longrightarrow> ts_contains ts cols = Some (cols \<in> ts_rows ts)"
  using ts_find_inv [of ts cols] by (auto simp: ts_contains_def ts_count_def ts_rows_def)

lemma tab_ok_append:
  assumes "tab_ok ts n"
  shows "tab_ok (ts\<lparr>ts_data := ts_data ts @ ys\<rparr>) n"
proof -
  have n: "n \<le> length (ts_data ts)" "\<forall>s \<in> set (ts_htab ts). s \<le> n" using assms by (simp_all add: tab_ok_def)
  then have "\<forall>s \<in> set (ts_htab ts). s \<le> length (ts_data ts)" by force
  note eq = map_slot_key_append [OF this, of ys]
  show ?thesis using assms n unfolding tab_ok_def by (simp only: tuple_set.simps take_append length_append) (simp add: eq)
qed

lemma tab_ok_cap [simp]: "tab_ok (ts\<lparr>ts_cap := c\<rparr>) n = tab_ok ts n"
  by (simp add: tab_ok_def)

text \<open>Every branch of \<open>ts_add\<close>: duplicate, out of memory in either allocation, success.\<close>

lemma ts_add_inv:
  assumes inv: "ts_inv ts" and len: "length cols = ts_arity ts"
  obtains (dup) "cols \<in> ts_rows ts" "ts_add al ts cols = Some (0, ts)"
  | (oom) ts' where "cols \<notin> ts_rows ts" "ts_add al ts cols = Some (-1, ts')" "ts_inv ts'"
      "ts_data ts' = ts_data ts" "ts_arity ts' = ts_arity ts" "\<not> (generous al \<and> ts_count ts < 2 ^ 29)"
  | (new) ts' where "cols \<notin> ts_rows ts" "ts_add al ts cols = Some (1, ts')" "ts_inv ts'"
      "ts_data ts' = ts_data ts @ [cols]" "ts_arity ts' = ts_arity ts"
proof -
  obtain s where s: "ts_hash_find ts cols = Some s" "s \<noteq> 0 \<longleftrightarrow> cols \<in> ts_rows ts"
    using ts_find_inv [OF inv] by blast
  consider (d) "s \<noteq> 0" | (r) "s = 0" "ts_reserve al ts = None"
    | (g) ts1 where "s = 0" "ts_reserve al ts = Some ts1" by (cases "s = 0"; cases "ts_reserve al ts"; blast)
  then show thesis
  proof cases
    case d
    then show thesis using dup s by (simp add: ts_add_def)
  next
    case r
    then have "\<not> generous al" by (auto simp: ts_reserve_def Let_def generous_def split: if_splits)
    with r show thesis using oom [of ts] s inv by (simp add: ts_add_def)
  next
    case (g ts1)
    obtain c where ts1: "ts1 = ts\<lparr>ts_cap := c\<rparr>" "ts_count ts < c"
    proof -
      have "ts = ts\<lparr>ts_cap := ts_cap ts\<rparr>" by simp
      then show thesis using g(2) inv that [of "ts_cap ts"] that [of "ts_cap ts * 2"] that [of 1024]
        by (auto simp: ts_reserve_def Let_def ts_inv_def split: if_splits)
    qed
    let ?ts2 = "ts1\<lparr>ts_data := ts_data ts1 @ [cols]\<rparr>" and ?n = "ts_count ts"
    have cap: "ts_count ts1 = ?n" "ts1\<lparr>ts_data := ts_data ts\<rparr> = ts1" using ts1(1) by (simp_all add: ts_count_def)
    have tab: "tab_ok ?ts2 ?n" using inv tab_ok_append [of ts1 ?n "[cols]"] ts1(1)
      by (simp add: ts_inv_def)
    have dist: "distinct (ts_data ?ts2)" and nth: "ts_data ?ts2 ! ?n = cols" and lt: "?n < length (ts_data ?ts2)"
      using inv g(1) s ts1(1) by (auto simp: ts_inv_def ts_rows_def ts_count_def)
    have cnt: "ts_count ?ts2 = Suc ?n" using ts1(1) by (simp add: ts_count_def)
    show thesis
    proof (rule ts_place_ok [OF tab lt dist, of al], unfold nth)
      assume f: "ts_place al cols (Suc ?n) ?ts2 = Some (-1, ?ts2)" "\<not> (generous al \<and> Suc ?n \<le> 2 ^ 29)"
      then have "ts_add al ts cols = Some (-1, ts1)"
        using s g cnt ts1(1) by (simp add: ts_add_def Let_def)
      moreover have "ts_inv ts1" using inv ts1 by (simp add: ts_inv_def ts_count_def ts_hcap_def)
      ultimately show thesis using oom [of ts1] s g(1) f(2) ts1(1) by auto
    next
      fix h assume o: "ts_place al cols (Suc ?n) ?ts2 = Some (0, ?ts2\<lparr>ts_htab := h, ts_hused := Suc ?n\<rparr>)"
        "tab_ok (?ts2\<lparr>ts_htab := h, ts_hused := Suc ?n\<rparr>) (Suc ?n)" "Suc ?n \<le> length h - length h div 4"
      let ?ts3 = "?ts2\<lparr>ts_htab := h, ts_hused := Suc ?n\<rparr>"
      have "ts_add al ts cols = Some (1, ?ts3)"
        using s g cnt o(1) ts1(1) by (simp add: ts_add_def Let_def)
      moreover have "ts_inv ?ts3"
        using inv o(2,3) ts1 dist len cnt by (auto simp: ts_inv_def ts_count_def ts_hcap_def)
      ultimately show thesis using new [of ?ts3] s g(1) ts1(1) by auto
    qed
  qed
qed

subsection \<open>Sorting\<close>

lemma row_less_take: "row_less n x y \<longleftrightarrow> take n x < take n y"
  by (induction n x y rule: row_less.induct) auto

interpretation row_order: heap_order "row_less n"
  by unfold_locales (auto simp: row_less_take)

lemma dedup_distinct: "distinct (p # xs) \<Longrightarrow> dedup_rows p xs = xs"
  by (induction xs arbitrary: p) auto

lemma tab_ok_clear:
  assumes "tab_ok ts n" "ts_htab ts \<noteq> []"
  shows "tab_ok (ts\<lparr>ts_data := d, ts_htab := replicate (ts_hcap ts) 0, ts_hused := 0\<rparr>) 0"
proof -
  have "map (slot_key d) (replicate (ts_hcap ts) 0) = replicate (ts_hcap ts) None" by (simp add: slot_key_def)
  moreover have "pow2 (ts_hcap ts)" "16 \<le> ts_hcap ts" "ts_hcap ts \<noteq> 0"
    using assms by (auto simp: tab_ok_def lp_ok_def ts_hcap_def)
  ultimately show ?thesis by (simp add: tab_ok_def lp_ok_replicate)
qed

lemma ts_rebuild_ok:
  assumes "tab_ok ts i" "drop i (ts_data ts) = rows" "distinct (ts_data ts)"
    "ts_count ts \<le> ts_hcap ts - ts_hcap ts div 4" "ts_htab ts \<noteq> []"
  shows "\<exists>h. ts_rebuild al rows i ts = Some (ts\<lparr>ts_htab := h, ts_hused := ts_count ts\<rparr>) \<and>
    tab_ok (ts\<lparr>ts_htab := h, ts_hused := ts_count ts\<rparr>) (ts_count ts) \<and> length h = ts_hcap ts"
  using assms
proof (induction rows arbitrary: i ts)
  case Nil
  then have "i = ts_count ts" by (simp add: tab_ok_def ts_count_def)
  moreover from this Nil have "ts = ts\<lparr>ts_htab := ts_htab ts, ts_hused := ts_count ts\<rparr>" by (simp add: tab_ok_def)
  ultimately show ?case using Nil.prems(1)
    by (intro exI [of _ "ts_htab ts"]) (simp add: ts_hcap_def)
next
  case (Cons row rows)
  have i: "i < length (ts_data ts)" using Cons.prems(2) by (cases "i < length (ts_data ts)") auto
  have row: "ts_data ts ! i = row" "drop (Suc i) (ts_data ts) = rows"
    using Cons.prems(2) i by (simp_all flip: Cons_nth_drop_Suc)
  have "Suc i \<le> ts_count ts" using i by (simp add: ts_count_def)
  then have nover: "\<not> ts_overloaded (Suc i) ts"
    using Cons.prems(4,5) by (auto simp: ts_overloaded_def ts_hcap_def)
  show ?case
  proof (rule ts_place_ok [OF Cons.prems(1) i Cons.prems(3), of al])
    assume "ts_overloaded (Suc i) ts" with nover show ?thesis by blast
  next
    fix h assume o: "ts_place al (ts_data ts ! i) (Suc i) ts = Some (0, ts\<lparr>ts_htab := h, ts_hused := Suc i\<rparr>)"
      "tab_ok (ts\<lparr>ts_htab := h, ts_hused := Suc i\<rparr>) (Suc i)" "ts_overloaded (Suc i) ts \<or> length h = ts_hcap ts"
    let ?ts = "ts\<lparr>ts_htab := h, ts_hused := Suc i\<rparr>"
    have same: "ts_count ?ts = ts_count ts" "ts_hcap ?ts = ts_hcap ts"
      using o(3) nover by (simp_all add: ts_count_def ts_hcap_def)
    have "h \<noteq> []" using o(3) nover Cons.prems(5) by (auto simp: ts_hcap_def)
    then have "\<exists>h'. ts_rebuild al rows (Suc i) ?ts = Some (?ts\<lparr>ts_htab := h', ts_hused := ts_count ?ts\<rparr>) \<and>
        tab_ok (?ts\<lparr>ts_htab := h', ts_hused := ts_count ?ts\<rparr>) (ts_count ?ts) \<and> length h' = ts_hcap ?ts"
      using o(2) row(2) Cons.prems(3,4) same by (intro Cons.IH) simp_all
    then show ?thesis using o(1) row(1) by (auto simp: same)
  qed
qed

lemma sorted_rows_strict:
  assumes "\<forall>r \<in> set rows. length r = n" "distinct rows"
  shows "sorted_wrt (<) (ts_sort_rows (row_less n) rows)"
proof -
  let ?s = "ts_sort_rows (row_less n) rows"
  have m: "mset ?s = mset rows" by (rule ts_sort_rows_perm)
  then have "\<forall>r \<in> set ?s. take n r = r" using assms(1) by (metis set_mset_mset take_all order_refl)
  moreover have "distinct ?s" using assms(2) mset_eq_imp_distinct_iff [OF m] by simp
  moreover have "sorted_wrt (\<lambda>x y. \<not> row_less n y x) ?s"
    using row_order.ts_sort_rows_sorted [of n rows] by (simp add: row_order.le_def [abs_def])
  ultimately show ?thesis
  proof (induction ?s)
    case Nil then show ?case by simp
  next
    case (Cons x xs)
    have *: "sorted_wrt (<) ys" if "\<forall>r \<in> set ys. take n r = r" "distinct ys"
      "sorted_wrt (\<lambda>x y. \<not> row_less n y x) ys" for ys
      using that by (induction ys) (auto simp: row_less_take not_less order_le_less)
    show ?case by (rule *) (use Cons.prems in auto)
  qed
qed

lemma ts_sort_inv:
  assumes "ts_inv ts"
  obtains ts' where "ts_sort al ts = Some ts'" "ts_inv ts'" "mset (ts_data ts') = mset (ts_data ts)"
    "sorted_wrt (<) (ts_data ts')" "ts_arity ts' = ts_arity ts" "ts_cap ts' = ts_cap ts"
proof (cases "ts_count ts \<le> 1")
  case True
  then have "sorted_wrt (<) (ts_data ts)" by (cases "ts_data ts"; cases "tl (ts_data ts)") (auto simp: ts_count_def)
  then show thesis using True assms that by (auto simp: ts_sort_def)
next
  case False
  let ?s = "ts_sort_rows (row_less (ts_arity ts)) (ts_data ts)"
  have m: "mset ?s = mset (ts_data ts)" by (rule ts_sort_rows_perm)
  have len: "length ?s = ts_count ts" using m by (metis mset_eq_length ts_count_def)
  have dist: "distinct ?s" using assms mset_eq_imp_distinct_iff [OF m] by (simp add: ts_inv_def)
  have ne: "?s = hd ?s # tl ?s" using False len by (cases ?s) auto
  have dd: "hd ?s # dedup_rows (hd ?s) (tl ?s) = ?s"
    using dedup_distinct [of "hd ?s" "tl ?s"] dist ne by metis
  have ht: "ts_htab ts \<noteq> []" using False assms by (auto simp: ts_inv_def tab_ok_def)
  let ?ts = "ts\<lparr>ts_data := ?s, ts_htab := replicate (ts_hcap ts) 0, ts_hused := 0\<rparr>"
  have tab: "tab_ok ?ts 0" using assms ht by (intro tab_ok_clear) (auto simp: ts_inv_def)
  have same: "ts_count ?ts = ts_count ts" "ts_hcap ?ts = ts_hcap ts" using len by (simp_all add: ts_count_def ts_hcap_def)
  have "\<exists>h. ts_rebuild al ?s 0 ?ts = Some (?ts\<lparr>ts_htab := h, ts_hused := ts_count ?ts\<rparr>) \<and>
      tab_ok (?ts\<lparr>ts_htab := h, ts_hused := ts_count ?ts\<rparr>) (ts_count ?ts) \<and> length h = ts_hcap ?ts"
    using tab dist ht assms same by (intro ts_rebuild_ok) (simp_all add: ts_inv_def ts_hcap_def)
  then obtain h where h: "ts_rebuild al ?s 0 ?ts = Some (?ts\<lparr>ts_htab := h, ts_hused := ts_count ts\<rparr>)"
    "tab_ok (?ts\<lparr>ts_htab := h, ts_hused := ts_count ts\<rparr>) (ts_count ts)" "length h = ts_hcap ts"
    unfolding same by auto
  let ?r = "?ts\<lparr>ts_htab := h, ts_hused := ts_count ts\<rparr>"
  have "ts_sort al ts = Some ?r"
    using False ht h(1) dd assms by (simp add: ts_sort_def Let_def ts_inv_def del: ts_rebuild.simps)
  moreover have "ts_count ?r = ts_count ts" "ts_hcap ?r = ts_hcap ts"
    using len h(3) by (simp_all add: ts_count_def ts_hcap_def)
  moreover have "set ?s = set (ts_data ts)" using m by (metis set_mset_mset)
  ultimately have "ts_sort al ts = Some ?r" "ts_inv ?r"
    using assms dist h(2) by (auto simp: ts_inv_def)
  then show thesis
    using that [of ?r] m sorted_rows_strict [of "ts_data ts" "ts_arity ts"] assms by (simp add: ts_inv_def)
qed

subsection \<open>Prefix search\<close>

lemma prefix_cmp_take:
  "k \<le> length r \<Longrightarrow> k \<le> length p \<Longrightarrow>
   prefix_cmp r p k = (if take k r < take k p then -1 else if take k r = take k p then 0 else 1)"
  by (induction r p k rule: prefix_cmp.induct) auto

lemma take_lex_mono: "x < y \<Longrightarrow> take k x \<le> take k (y :: 'a :: linorder list)"
proof (induction k arbitrary: x y)
  case (Suc k)
  then show ?case by (cases x; cases y) (auto simp: order.strict_implies_order)
qed simp

lemma sorted_take:
  "sorted_wrt (<) rows \<Longrightarrow> i \<le> j \<Longrightarrow> j < length rows \<Longrightarrow> take k (rows ! i) \<le> take k (rows ! j :: tuple)"
  by (cases "i = j") (auto simp: sorted_wrt_iff_nth_less intro!: take_lex_mono)

lemma cmp_nth:
  "\<lbrakk>\<forall>r \<in> set rows. k \<le> length r; k \<le> length p; i < length rows\<rbrakk> \<Longrightarrow>
   prefix_cmp (rows ! i) p k < 0 \<longleftrightarrow> take k (rows ! i) < take k p"
  by (simp add: prefix_cmp_take)

lemma lower_bound_ok:
  assumes sorted: "sorted_wrt (<) rows" and wide: "\<forall>r \<in> set rows. k \<le> length r" "k \<le> length p"
    and "lo \<le> hi" "hi \<le> length rows" "\<forall>i < lo. take k (rows ! i) < take k p"
    "\<forall>i. hi \<le> i \<and> i < length rows \<longrightarrow> take k p \<le> take k (rows ! i)"
  shows "lower_bound rows p k lo hi \<le> length rows \<and> (\<forall>i < lower_bound rows p k lo hi. take k (rows ! i) < take k p) \<and>
    (\<forall>i. lower_bound rows p k lo hi \<le> i \<and> i < length rows \<longrightarrow> take k p \<le> take k (rows ! i))"
  using assms(4-)
proof (induction "hi - lo" arbitrary: lo hi rule: less_induct)
  case less
  show ?case
  proof (cases "lo < hi")
    case True
    define mid where "mid = lo + (hi - lo) div 2"
    have mid: "lo \<le> mid" "mid < hi" "mid < length rows" using True less.prems(2) by (auto simp: mid_def)
    show ?thesis
    proof (cases "prefix_cmp (rows ! mid) p k < 0")
      case lt: True
      have "take k (rows ! i) < take k p" if "i < mid + 1" for i
        using sorted_take [OF sorted, of i mid k] that mid lt cmp_nth [OF wide, of mid] by simp
      moreover have "lower_bound rows p k lo hi = lower_bound rows p k (mid + 1) hi"
        using True lt by (subst lower_bound.simps) (simp add: mid_def Let_def)
      ultimately show ?thesis using less.hyps [of hi "mid + 1"] less.prems mid by auto
    next
      case ge: False
      have "take k p \<le> take k (rows ! i)" if "mid \<le> i" "i < length rows" for i
        using sorted_take [OF sorted, of mid i k] that ge cmp_nth [OF wide, of mid] mid by simp
      moreover have "lower_bound rows p k lo hi = lower_bound rows p k lo mid"
        using True ge by (subst lower_bound.simps) (simp add: mid_def Let_def)
      moreover have "mid - lo < hi - lo" using mid by linarith
      moreover note less.hyps [OF this, OF mid(1) _ less.prems(3)]
      ultimately show ?thesis using mid by (metis less_imp_le)
    qed
  next
    case False
    then have eq: "lower_bound rows p k lo hi = lo" by (subst lower_bound.simps) simp
    show ?thesis using less.prems False unfolding eq by auto
  qed
qed

lemma walk_fwd_ok:
  "i \<le> length rows \<Longrightarrow> i \<le> walk_fwd rows p k i \<and> walk_fwd rows p k i \<le> length rows \<and>
     (\<forall>j. i \<le> j \<and> j < walk_fwd rows p k i \<longrightarrow> prefix_match (rows ! j) p k) \<and>
     (walk_fwd rows p k i < length rows \<longrightarrow> \<not> prefix_match (rows ! walk_fwd rows p k i) p k)"
proof (induction rows p k i rule: walk_fwd.induct)
  case (1 rows p k i)
  show ?case
  proof (cases "i < length rows \<and> prefix_match (rows ! i) p k")
    case True
    then have eq: "walk_fwd rows p k i = walk_fwd rows p k (i + 1)" by (subst walk_fwd.simps) simp
    show ?thesis using 1(1) [OF True] True unfolding eq by (auto simp: Suc_le_eq dest: le_neq_implies_less)
  next
    case False
    then have eq: "walk_fwd rows p k i = i" by (subst walk_fwd.simps) auto
    show ?thesis using False 1(2) unfolding eq by auto
  qed
qed

definition prefix_range :: "tuple list \<Rightarrow> tuple \<Rightarrow> nat \<Rightarrow> nat \<times> nat \<Rightarrow> bool" where
  "prefix_range rows p k res \<longleftrightarrow>
     (\<forall>i < length rows. take k (rows ! i) = take k p \<longleftrightarrow> snd res \<le> i \<and> i < snd res + fst res) \<and>
     snd res + fst res \<le> length rows \<and> (fst res = 0 \<longrightarrow> snd res = 0)"

lemma ts_prefix_ok:
  assumes inv: "ts_inv ts" and sorted: "sorted_wrt (<) (ts_data ts)" and k: "k \<le> ts_arity ts" "k \<le> length p"
  shows "prefix_range (ts_data ts) p k (ts_prefix ts p k)"
proof -
  let ?rows = "ts_data ts"
  define lo where "lo = lower_bound ?rows p k 0 (ts_count ts)"
  have wide: "\<forall>r \<in> set ?rows. k \<le> length r" using inv k(1) by (simp add: ts_inv_def)
  have lo: "lo \<le> length ?rows" "\<And>i. i < lo \<Longrightarrow> take k (?rows ! i) < take k p"
    "\<And>i. lo \<le> i \<Longrightarrow> i < length ?rows \<Longrightarrow> take k p \<le> take k (?rows ! i)"
  proof -
    have none: "\<forall>i. length ?rows \<le> i \<and> i < length ?rows \<longrightarrow> take k p \<le> take k (?rows ! i)" by auto
    show "lo \<le> length ?rows" "\<And>i. i < lo \<Longrightarrow> take k (?rows ! i) < take k p"
      "\<And>i. lo \<le> i \<Longrightarrow> i < length ?rows \<Longrightarrow> take k p \<le> take k (?rows ! i)"
      using lower_bound_ok [OF sorted wide k(2) _ _ _ none, of 0] unfolding lo_def ts_count_def by blast+
  qed
  show ?thesis
  proof (cases "lo < length ?rows \<and> prefix_match (?rows ! lo) p k")
    case False
    have "take k (?rows ! i) \<noteq> take k p" if i: "i < length ?rows" for i
    proof (cases "i < lo")
      case True
      then show ?thesis using lo(2) [of i] by auto
    next
      case ge: False
      then have "take k p < take k (?rows ! lo)"
        using False lo(3) [of lo] i by (auto simp: prefix_match_def order_le_less)
      then show ?thesis using sorted_take [OF sorted, of lo i k] ge i by auto
    qed
    moreover have "ts_prefix ts p k = (0, 0)"
      using False by (auto simp: ts_prefix_def ts_count_def lo_def [unfolded ts_count_def, symmetric] Let_def)
    ultimately show ?thesis by (simp add: prefix_range_def)
  next
    case True
    have wb: "walk_back ?rows p k lo = lo"
      using lo(2) [of "lo - 1"] by (cases lo) (auto simp: prefix_match_def)
    let ?last = "walk_fwd ?rows p k lo"
    note w = walk_fwd_ok [of lo ?rows p k]
    have "ts_prefix ts p k = (?last - lo, lo)"
      using True k(1) wb by (auto simp: ts_prefix_def ts_count_def lo_def [unfolded ts_count_def, symmetric] Let_def)
    moreover have "take k (?rows ! i) = take k p \<longleftrightarrow> lo \<le> i \<and> i < ?last" if i: "i < length ?rows" for i
    proof
      assume m: "take k (?rows ! i) = take k p"
      then have "lo \<le> i" using lo(2) [of i] by (auto simp: not_less [symmetric])
      moreover have "i < ?last"
      proof (rule ccontr)
        assume "\<not> i < ?last"
        then have l: "?last \<le> i" "?last < length ?rows" using i by auto
        then have "take k (?rows ! ?last) = take k p"
          using sorted_take [OF sorted, of ?last i k] lo(3) [of ?last] w m i lo(1) by auto
        then show False using w l lo(1) by (auto simp: prefix_match_def)
      qed
      ultimately show "lo \<le> i \<and> i < ?last" ..
    next
      assume "lo \<le> i \<and> i < ?last"
      then show "take k (?rows ! i) = take k p" using w lo(1) by (auto simp: prefix_match_def)
    qed
    moreover have "lo < ?last" using True by (subst walk_fwd.simps) (use walk_fwd_ok [of "lo + 1" ?rows p k] in auto)
    ultimately show ?thesis using w lo(1) by (auto simp: prefix_range_def)
  qed
qed

subsection \<open>The contract of the header\<close>

text \<open>
  What \<^verbatim>\<open>src/tupleset.h\<close> promises of each function, as a relation between the state before, the
  arguments and the result.  The return codes are the header's.
\<close>

definition init_spec :: "nat \<Rightarrow> tuple_set option \<Rightarrow> bool" where
  "init_spec arity res \<longleftrightarrow>
     (case res of None \<Rightarrow> arity < 1 \<or> 8 < arity
      | Some ts \<Rightarrow> 1 \<le> arity \<and> arity \<le> 8 \<and> ts_arity ts = arity \<and> ts_rows ts = {})"

definition contains_spec :: "tuple_set \<Rightarrow> tuple \<Rightarrow> bool \<Rightarrow> bool" where
  "contains_spec ts cols res \<longleftrightarrow> res = (cols \<in> ts_rows ts)"

definition add_spec :: "tuple_set \<Rightarrow> tuple \<Rightarrow> int \<times> tuple_set \<Rightarrow> bool" where
  "add_spec ts cols res \<longleftrightarrow> (case res of (rc, ts') \<Rightarrow>
     rc = 1 \<and> cols \<notin> ts_rows ts \<and> ts_data ts' = ts_data ts @ [cols] \<or>
     rc = 0 \<and> cols \<in> ts_rows ts \<and> ts' = ts \<or>
     rc = -1 \<and> cols \<notin> ts_rows ts \<and> ts_data ts' = ts_data ts)"

definition sort_spec :: "tuple_set \<Rightarrow> tuple_set \<Rightarrow> bool" where
  "sort_spec ts ts' \<longleftrightarrow> sorted_wrt (<) (ts_data ts') \<and> ts_rows ts' = ts_rows ts \<and> ts_arity ts' = ts_arity ts"

definition reset_spec :: "tuple_set \<Rightarrow> tuple_set \<Rightarrow> bool" where
  "reset_spec ts ts' \<longleftrightarrow> ts_rows ts' = {} \<and> ts_cap ts' = ts_cap ts \<and> ts_hcap ts' = ts_hcap ts \<and> ts_arity ts' = ts_arity ts"

lemma ts_init_ok: "init_spec arity (ts_init arity) \<and> (\<forall>ts. ts_init arity = Some ts \<longrightarrow> ts_inv ts)"
  by (auto simp: init_spec_def ts_init_def ts_rows_def ts_inv_def tab_ok_def ts_count_def)

lemma ts_reset_ok: "ts_inv ts \<Longrightarrow> reset_spec ts (ts_reset ts) \<and> ts_inv (ts_reset ts)"
  using tab_ok_clear [of ts "ts_count ts" "[]"]
  by (cases "ts_htab ts = []")
    (auto simp: reset_spec_def ts_reset_def ts_rows_def ts_inv_def ts_count_def ts_hcap_def tab_ok_def)

subsection \<open>The set interface\<close>

text \<open>
  What the evaluator uses of a tuple set: a set of rows that \<open>add\<close> extends, telling a new row
  from a duplicate, and that \<open>member\<close> tests.  A client that adds a batch of rows stops at the
  first error.
\<close>

fun add_loop :: "('s \<Rightarrow> tuple \<Rightarrow> (int \<times> 's) option) \<Rightarrow> 's \<Rightarrow> tuple list \<Rightarrow> (int \<times> 's) option" where
  "add_loop add s [] = Some (0, s)"
| "add_loop add s (t # ts) =
     (case add s t of
        None \<Rightarrow> None
      | Some (rc, s') \<Rightarrow>
          if rc < 0 then Some (-1, s')
          else case add_loop add s' ts of None \<Rightarrow> None | Some (n, s'') \<Rightarrow> Some (if n < 0 then n else rc + n, s''))"

locale tuple_container =
  fixes inv :: "'s \<Rightarrow> bool" and elems :: "'s \<Rightarrow> tuple set" and width :: "'s \<Rightarrow> nat"
    and add :: "'s \<Rightarrow> tuple \<Rightarrow> (int \<times> 's) option" and member :: "'s \<Rightarrow> tuple \<Rightarrow> bool option"
  assumes add_ok: "inv s \<Longrightarrow> length t = width s \<Longrightarrow>
      \<exists>rc s'. add s t = Some (rc, s') \<and> inv s' \<and> width s' = width s \<and>
        (rc = 1 \<and> t \<notin> elems s \<and> elems s' = insert t (elems s) \<or>
         rc = 0 \<and> t \<in> elems s \<and> elems s' = elems s \<or> rc = -1 \<and> elems s' = elems s)"
    and member_ok: "inv s \<Longrightarrow> member s t = Some (t \<in> elems s)"
    and elems_finite: "inv s \<Longrightarrow> finite (elems s)"
begin

lemma add_loop_ok:
  "\<lbrakk>inv s; \<forall>t \<in> set ts. length t = width s\<rbrakk> \<Longrightarrow>
   \<exists>n s'. add_loop add s ts = Some (n, s') \<and> inv s' \<and> width s' = width s \<and> elems s \<subseteq> elems s' \<and>
     (if n < 0 then n = -1 \<and> elems s' \<subseteq> elems s \<union> set ts
      else elems s' = elems s \<union> set ts \<and> n = int (card (set ts - elems s)))"
proof (induction ts arbitrary: s)
  case (Cons t ts)
  have len: "length t = width s" using Cons.prems(2) by simp
  obtain rc s1 where a: "add s t = Some (rc, s1)" "inv s1" "width s1 = width s"
    "rc = 1 \<and> t \<notin> elems s \<and> elems s1 = insert t (elems s) \<or>
     rc = 0 \<and> t \<in> elems s \<and> elems s1 = elems s \<or> rc = -1 \<and> elems s1 = elems s"
    using add_ok [OF Cons.prems(1) len] by blast
  show ?case
  proof (cases "rc = -1")
    case False
    obtain n s2 where b: "add_loop add s1 ts = Some (n, s2)" "inv s2" "width s2 = width s1" "elems s1 \<subseteq> elems s2"
      "if n < 0 then n = -1 \<and> elems s2 \<subseteq> elems s1 \<union> set ts
       else elems s2 = elems s1 \<union> set ts \<and> n = int (card (set ts - elems s1))"
      using Cons.IH [OF a(2)] Cons.prems(2) a(3) by auto
    have "card (set (t # ts) - elems s) = Suc (card (set ts - elems s1))" if "rc = 1"
    proof -
      have "set (t # ts) - elems s = insert t (set ts - elems s1)" using that a(4) by auto
      moreover have "t \<notin> set ts - elems s1" using that a(4) by auto
      ultimately show ?thesis by simp
    qed
    moreover have "set (t # ts) - elems s = set ts - elems s1" if "rc = 0" using that a(4) by auto
    ultimately show ?thesis using False a b by (auto split: if_splits)
  qed (use a in auto)
qed simp

lemma member_after_add_loop:
  assumes "inv s" "\<forall>t \<in> set ts. length t = width s" "add_loop add s ts = Some (n, s')" "0 \<le> n"
  shows "member s' t = Some (t \<in> elems s \<or> t \<in> set ts)"
  using add_loop_ok [OF assms(1,2)] assms(3,4) member_ok [of s' t] by auto

end

interpretation tset: tuple_container ts_inv ts_rows ts_arity "ts_add al" ts_contains for al
proof
  fix s and t :: tuple assume a: "ts_inv s" "length t = ts_arity s"
  show "\<exists>rc s'. ts_add al s t = Some (rc, s') \<and> ts_inv s' \<and> ts_arity s' = ts_arity s \<and>
      (rc = 1 \<and> t \<notin> ts_rows s \<and> ts_rows s' = insert t (ts_rows s) \<or>
       rc = 0 \<and> t \<in> ts_rows s \<and> ts_rows s' = ts_rows s \<or> rc = -1 \<and> ts_rows s' = ts_rows s)"
    by (rule ts_add_inv [OF a, of al]) (use a in \<open>auto simp: ts_rows_def\<close>)
qed (simp_all add: ts_contains_inv ts_rows_def)

lemma ts_add_loop_generous:
  "\<lbrakk>ts_inv ts; \<forall>t \<in> set rows. length t = ts_arity ts; ts_count ts + length rows < 2 ^ 29; generous al;
    add_loop (ts_add al) ts rows = Some (n, ts')\<rbrakk> \<Longrightarrow> 0 \<le> n"
proof (induction rows arbitrary: ts n)
  case (Cons t rows)
  have len: "length t = ts_arity ts" using Cons.prems(2) by simp
  show ?case
  proof (rule ts_add_inv [OF Cons.prems(1) len, of al])
    assume "ts_add al ts t = Some (0, ts)"
    then show ?thesis using Cons.IH [of ts] Cons.prems by (fastforce split: option.splits if_splits)
  next
    assume "\<not> (generous al \<and> ts_count ts < 2 ^ 29)"
    then show ?thesis using Cons.prems(3,4) by simp
  next
    fix ts1 assume a: "ts_add al ts t = Some (1, ts1)" "ts_inv ts1" "ts_data ts1 = ts_data ts @ [t]"
      "ts_arity ts1 = ts_arity ts"
    then have "ts_count ts1 + length rows < 2 ^ 29" using Cons.prems(3) by (simp add: ts_count_def)
    with a show ?thesis using Cons.IH [of ts1] Cons.prems by (fastforce split: option.splits if_splits)
  qed
qed simp

subsection \<open>Properties\<close>

text \<open>C28: adding a row to a well-formed tuple set always returns, keeps the set well formed, and
  does what \<^verbatim>\<open>tupleset.h\<close> says in each case: 1 and the row appended when it is new, 0 and no change for
  a duplicate, -1 and the same rows when an allocation fails; with memory and fewer than
  \<open>2\<^sup>2\<^sup>9\<close> rows it never fails.\<close>

theorem ts_add_correct:
  assumes "ts_inv ts" "length cols = ts_arity ts"
  shows "\<exists>rc ts'. ts_add al ts cols = Some (rc, ts') \<and> add_spec ts cols (rc, ts') \<and> ts_inv ts' \<and>
    (generous al \<and> ts_count ts < 2 ^ 29 \<longrightarrow> rc \<noteq> -1)"
  by (rule ts_add_inv [OF assms, of al]) (use assms in \<open>auto simp: add_spec_def\<close>)

theorem ts_add_correct_witness:
  "\<exists>rc ts'. ts_add (\<lambda>_ _. True) \<lparr>ts_data = [], ts_cap = 0, ts_arity = 2, ts_htab = [], ts_hused = 0\<rparr> [5, 2] =
       Some (rc, ts') \<and> ts_inv ts' \<and> rc \<noteq> -1"
  using ts_add_correct [of "\<lparr>ts_data = [], ts_cap = 0, ts_arity = 2, ts_htab = [], ts_hused = 0\<rparr>" "[5, 2]" "\<lambda>_ _. True"]
  by (auto simp: ts_inv_def tab_ok_def ts_count_def generous_def)

text \<open>C31: sorting a well-formed tuple set, whatever the allocator answers, leaves the same rows in
  strictly ascending order and the set well formed (the hash table rebuilt for the new positions),
  and then \<open>ts_prefix\<close> returns exactly the contiguous range of rows that start with the \<open>k\<close>
  given columns, and (0, 0) when there are none.\<close>

theorem ts_sort_prefix_correct:
  assumes "ts_inv ts" "k \<le> ts_arity ts" "k \<le> length p"
  shows "\<exists>ts'. ts_sort al ts = Some ts' \<and> sort_spec ts ts' \<and> ts_inv ts' \<and>
    prefix_range (ts_data ts') p k (ts_prefix ts' p k)"
proof (rule ts_sort_inv [OF assms(1), of al])
  fix ts' assume s: "ts_sort al ts = Some ts'" "ts_inv ts'" "mset (ts_data ts') = mset (ts_data ts)"
    "sorted_wrt (<) (ts_data ts')" "ts_arity ts' = ts_arity ts"
  then have "ts_rows ts' = ts_rows ts" unfolding ts_rows_def by (metis set_mset_mset)
  with s assms(2,3) show ?thesis by (auto simp: sort_spec_def intro!: ts_prefix_ok)
qed

theorem ts_sort_prefix_correct_witness:
  "\<exists>ts ts'. ts_rows ts = {[5, 2], [1, 1], [5, 0]} \<and> ts_sort (\<lambda>_ _. False) ts = Some ts' \<and>
     ts_rows ts' = {[5, 2], [1, 1], [5, 0]} \<and> prefix_range (ts_data ts') [5] 1 (ts_prefix ts' [5] 1)"
proof -
  let ?e = "\<lparr>ts_data = [], ts_cap = 0, ts_arity = 2, ts_htab = [], ts_hused = 0\<rparr>"
  let ?l = "[[5, 2], [1, 1], [5, 0]] :: tuple list"
  have e: "ts_inv ?e" by (simp add: ts_inv_def tab_ok_def ts_count_def)
  obtain n ts where ts: "add_loop (ts_add (\<lambda>_ _. True)) ?e ?l = Some (n, ts)" "ts_inv ts" "ts_arity ts = 2"
    "0 \<le> n \<Longrightarrow> ts_rows ts = {[5, 2], [1, 1], [5, 0]}"
    using tset.add_loop_ok [OF e, of ?l "\<lambda>_ _. True"] by (fastforce simp: ts_rows_def split: if_splits)
  have "0 \<le> n" using ts_add_loop_generous [OF e _ _ _ ts(1)] by (simp add: generous_def ts_count_def)
  then show ?thesis
    using ts_sort_prefix_correct [OF ts(2), of 1 "[5]" "\<lambda>_ _. False"] ts(3,4)
    by (fastforce simp: sort_spec_def)
qed

text \<open>C33: filling an empty tuple set of arity 1 to 8 with any list of rows of that arity, memory
  permitting, holds exactly those rows: every addition succeeds, the codes add up to the number
  of different rows, and afterwards the membership test answers for every row whether it was in
  the list.\<close>

theorem ts_fill_contains:
  assumes "1 \<le> ar" "ar \<le> 8" "\<forall>t \<in> set rows. length t = ar" "length rows < 2 ^ 29" "generous al"
  shows "\<exists>e ts. ts_init ar = Some e \<and> add_loop (ts_add al) e rows = Some (int (card (set rows)), ts) \<and>
    ts_count ts = card (set rows) \<and> (\<forall>t. ts_contains ts t = Some (t \<in> set rows))"
proof -
  obtain e where e: "ts_init ar = Some e" "ts_inv e" "ts_rows e = {}" "ts_arity e = ar" "ts_count e = 0"
    using assms(1,2) ts_init_ok [of ar] by (auto simp: ts_init_def ts_rows_def ts_count_def)
  obtain n ts where ts: "add_loop (ts_add al) e rows = Some (n, ts)" "ts_inv ts"
    "0 \<le> n \<Longrightarrow> ts_rows ts = set rows \<and> n = int (card (set rows))"
    using tset.add_loop_ok [OF e(2), of rows al] assms(3) e(3,4) by (fastforce split: if_splits)
  have "0 \<le> n" using ts_add_loop_generous [OF e(2) _ _ _ ts(1)] assms e(4,5) by simp
  moreover have "ts_count ts = card (ts_rows ts)"
    using ts(2) by (simp add: ts_inv_def ts_count_def ts_rows_def distinct_card)
  ultimately show ?thesis using e(1) ts by (auto simp: ts_contains_inv)
qed

theorem ts_fill_contains_witness:
  "\<exists>e ts. ts_init 2 = Some e \<and> add_loop (ts_add (\<lambda>_ _. True)) e [[5, 2], [1, 1], [5, 2]] =
     Some (int (card {[5, 2], [1, 1] :: tuple}), ts) \<and> ts_contains ts [5, 2] = Some True"
  using ts_fill_contains [of 2 "[[5, 2], [1, 1], [5, 2]]" "\<lambda>_ _. True"]
  by (fastforce simp: generous_def insert_commute)

end
