(* ===== verification/RelationState.thy ===== *)
theory RelationState
  imports Dafsa TupleSet Posix
begin

text \<open>
  A relation (\<^verbatim>\<open>src/relation.h\<close>, \<^verbatim>\<open>zig/src/relation.zig\<close>): the view automaton \<open>r_d\<close>, the base automaton
  \<open>r_base\<close> (\<open>None\<close> where the pointer aliases \<open>r_d\<close>, as it does for every relation that is not a rule
  head), the overlay of facts not yet folded in, and how the automata are held
  (\<open>Owned\<close> in memory, \<open>Deferred\<close> on disk, or a memory-mapped \<open>View\<close>).  Every operation takes the
  engine and the files; a read may load, so it returns the relation too.  \<open>None\<close> as the result of a read
  is the panic of \<open>viewOf\<close> on a view state without a handle, or a probing loop that does not
  end; the invariant \<open>rel_ok\<close> excludes both.  Null pointers among the arguments, which every
  exported function rejects first, are not modelled, nor are timing and the log on standard error.
\<close>

datatype read_state = Owned | Deferred | View

record relation =
  r_d :: "dafsa option"
  r_base :: "dafsa option"
  r_arity :: nat
  r_wal :: "dafsa_wal option"
  r_wal_path :: "string option"
  r_dirty :: bool
  r_ov :: "tuple_set option"
  r_ov_dirty :: nat
  r_ov_epoch :: nat
  r_rev :: u64
  r_wal_appended :: nat
  r_col_kind :: "nat list"
  r_state :: read_state
  r_view_d :: "dafsa_view option"
  r_view_base :: "dafsa_view option"
  r_on_disk_dafsa :: "string option"
  r_on_disk_base :: "string option"

text \<open>\<^verbatim>\<open>UINT64_MAX\<close>, the error value of the counting functions.\<close>

definition UINT64_MAX :: nat where "UINT64_MAX = 2 ^ 64 - 1"

definition zeroed :: "nat \<Rightarrow> relation" where
  "zeroed arity =
     \<lparr>r_d = None, r_base = None, r_arity = arity, r_wal = None, r_wal_path = None, r_dirty = False,
      r_ov = None, r_ov_dirty = 0, r_ov_epoch = 0, r_rev = 0, r_wal_appended = 0,
      r_col_kind = replicate MAX_ARITY 0, r_state = Owned, r_view_d = None, r_view_base = None,
      r_on_disk_dafsa = None, r_on_disk_base = None\<rparr>"

definition rel_create :: "engine \<Rightarrow> allocator \<Rightarrow> nat \<Rightarrow> relation option" where
  "rel_create e al arity =
     (if arity = 0 \<or> arity > MAX_ARITY then None
      else if \<not> al ''rel_create'' 1 then None
      else case dafsa_create e of
        None \<Rightarrow> None
      | Some d \<Rightarrow> Some ((zeroed arity)\<lparr>r_d := Some d\<rparr>))"

definition rel_open :: "allocator \<Rightarrow> string \<Rightarrow> nat \<Rightarrow> relation option" where
  "rel_open al path arity =
     (if arity = 0 \<or> arity > MAX_ARITY then None
      else if \<not> al ''rel_open'' 1 \<or> \<not> al ''strdup'' (length path + 1) then None
      else Some ((zeroed arity)\<lparr>r_state := Deferred, r_on_disk_dafsa := Some path\<rparr>))"

subsection \<open>Loading on demand\<close>

definition file_at :: "files \<Rightarrow> string option \<Rightarrow> bytes option" where
  "file_at fs p = (case p of None \<Rightarrow> None | Some q \<Rightarrow> fs q)"

definition rel_touch :: "relation \<Rightarrow> relation" where
  "rel_touch r = r\<lparr>r_rev := r_rev r + 1\<rparr>"

definition mutated :: "relation \<Rightarrow> relation" where
  "mutated r = rel_touch (r\<lparr>r_dirty := True\<rparr>)"

definition relViewClose :: "relation \<Rightarrow> relation" where
  "relViewClose r = r\<lparr>r_view_base := None, r_view_d := None\<rparr>"

text \<open>Load, and fall back to an empty automaton.\<close>

definition load_or_create :: "engine \<Rightarrow> bytes option \<Rightarrow> dafsa option" where
  "load_or_create e c = (case dafsa_load e c of Some d \<Rightarrow> Some d | None \<Rightarrow> dafsa_create e)"

definition relEnsureOwned :: "engine \<Rightarrow> files \<Rightarrow> relation \<Rightarrow> bool \<times> relation" where
  "relEnsureOwned e fs r =
     (if r_state r = Owned then (True, r)
      else
        let r1 = relViewClose r in
        case load_or_create e (file_at fs (r_on_disk_dafsa r)) of
          None \<Rightarrow> (False, r1\<lparr>r_d := None\<rparr>)
        | Some d \<Rightarrow>
            let done = (\<lambda>b. (True, r1\<lparr>r_d := Some d, r_base := b, r_state := Owned,
                                     r_on_disk_dafsa := None, r_on_disk_base := None\<rparr>)) in
            case r_on_disk_base r of
              None \<Rightarrow> done None
            | Some p \<Rightarrow>
                (case load_or_create e (fs p) of
                   None \<Rightarrow> (False, r1\<lparr>r_d := None, r_base := None\<rparr>)
                 | Some b \<Rightarrow> done (Some b)))"

definition viewOverlayClean :: "relation \<Rightarrow> bool" where
  "viewOverlayClean r \<longleftrightarrow> (case r_ov r of None \<Rightarrow> True | Some ov \<Rightarrow> ts_count ov = 0)"

definition relViewOpen :: "engine \<Rightarrow> files \<Rightarrow> relation \<Rightarrow> relation option" where
  "relViewOpen e fs r =
     (case dafsa_view_open e (file_at fs (r_on_disk_dafsa r)) of
        None \<Rightarrow> None
      | Some v \<Rightarrow>
          (case r_on_disk_base r of
             None \<Rightarrow> Some (r\<lparr>r_view_d := Some v, r_state := View\<rparr>)
           | Some p \<Rightarrow>
               (case dafsa_view_open e (fs p) of
                  None \<Rightarrow> None
                | Some vb \<Rightarrow> Some (r\<lparr>r_view_base := Some vb, r_view_d := Some v, r_state := View\<rparr>))))"

definition wal_pending :: "relation \<Rightarrow> bool" where
  "wal_pending r \<longleftrightarrow> (case r_wal r of None \<Rightarrow> False | Some w \<Rightarrow> dw_size w > 16)"

definition relEnsureReadable :: "engine \<Rightarrow> files \<Rightarrow> relation \<Rightarrow> bool \<times> relation" where
  "relEnsureReadable e fs r =
     (if r_state r \<noteq> Deferred then (True, r)
      else if wal_pending r then relEnsureOwned e fs r
      else if \<not> viewOverlayClean r then relEnsureOwned e fs r
      else case relViewOpen e fs r of
        Some r' \<Rightarrow> (True, r')
      | None \<Rightarrow> relEnsureOwned e fs r)"

text \<open>The handle a read uses: the view's, or the base's for a base read of a split relation.\<close>

definition viewOf :: "relation \<Rightarrow> bool \<Rightarrow> dafsa_view option" where
  "viewOf r base = (if base then (case r_view_base r of Some v \<Rightarrow> Some v | None \<Rightarrow> r_view_d r) else r_view_d r)"

definition base_of :: "relation \<Rightarrow> dafsa option" where
  "base_of r = (case r_base r of None \<Rightarrow> r_d r | Some b \<Rightarrow> Some b)"

text \<open>Storing an updated automaton back where it was: a base that aliases the view is the view.\<close>

definition set_base :: "dafsa \<Rightarrow> relation \<Rightarrow> relation" where
  "set_base b r = (if r_base r = None then r\<lparr>r_d := Some b\<rparr> else r\<lparr>r_base := Some b\<rparr>)"

definition rel_is_loaded :: "relation \<Rightarrow> bool" where
  "rel_is_loaded r \<longleftrightarrow> r_state r = Owned"

definition rel_read_state :: "relation \<Rightarrow> nat" where
  "rel_read_state r = (case r_state r of Owned \<Rightarrow> 0 | Deferred \<Rightarrow> 1 | View \<Rightarrow> 2)"

definition rel_content_file :: "relation \<Rightarrow> string option" where
  "rel_content_file r = (if r_state r = Owned then None else r_on_disk_dafsa r)"

definition rel_is_idb :: "relation \<Rightarrow> bool" where
  "rel_is_idb r \<longleftrightarrow> (case r_state r of
      Deferred \<Rightarrow> r_on_disk_base r \<noteq> None
    | View \<Rightarrow> r_view_base r \<noteq> None
    | Owned \<Rightarrow> r_base r \<noteq> None)"

definition rel_is_dirty :: "relation \<Rightarrow> bool" where
  "rel_is_dirty r = r_dirty r"

subsection \<open>Recorded column kinds\<close>

definition KIND_UNKNOWN :: nat where "KIND_UNKNOWN = 0"
definition KIND_INT :: nat where "KIND_INT = 1"
definition KIND_SYM :: nat where "KIND_SYM = 2"

definition rel_col_kind :: "relation \<Rightarrow> nat \<Rightarrow> nat" where
  "rel_col_kind r col = (if col \<ge> MAX_ARITY then KIND_UNKNOWN else r_col_kind r ! col)"

definition rel_col_kind_set :: "nat \<Rightarrow> nat \<Rightarrow> relation \<Rightarrow> relation" where
  "rel_col_kind_set col kind r = (if col \<ge> MAX_ARITY then r else r\<lparr>r_col_kind := (r_col_kind r)[col := kind]\<rparr>)"

definition rel_kind_note :: "nat \<Rightarrow> nat \<Rightarrow> relation \<Rightarrow> int \<times> relation" where
  "rel_kind_note col kind r =
     (if col \<ge> MAX_ARITY \<or> kind = 0 \<or> kind > KIND_SYM then (-1, r)
      else let cur = r_col_kind r ! col in
        if cur = KIND_UNKNOWN then (0, r\<lparr>r_col_kind := (r_col_kind r)[col := kind]\<rparr>)
        else (if cur = kind then 0 else -1, r))"

subsection \<open>Adding, testing, deleting\<close>

definition relAddD :: "engine \<Rightarrow> dafsa option \<Rightarrow> tuple \<Rightarrow> int \<times> dafsa option" where
  "relAddD e dopt cols =
     (case dopt of
        None \<Rightarrow> (-1, None)
      | Some d \<Rightarrow> (case dafsa_add_n e d (encodeKey cols) of (rc, d') \<Rightarrow> (rc, Some d')))"

definition relDeleteD :: "engine \<Rightarrow> dafsa option \<Rightarrow> tuple \<Rightarrow> int \<times> dafsa option" where
  "relDeleteD e dopt cols =
     (case dopt of
        None \<Rightarrow> (-1, None)
      | Some d \<Rightarrow> (case dafsa_delete_n e d (encodeKey cols) of (rc, d') \<Rightarrow> (rc, Some d')))"

definition relExactD :: "engine \<Rightarrow> dafsa option \<Rightarrow> tuple \<Rightarrow> int" where
  "relExactD e dopt cols = (case dopt of None \<Rightarrow> 0 | Some d \<Rightarrow> dafsa_lookup_n e d (encodeKey cols))"

definition viewExactD :: "engine \<Rightarrow> relation \<Rightarrow> bool \<Rightarrow> tuple \<Rightarrow> int option" where
  "viewExactD e r base cols =
     (case viewOf r base of None \<Rightarrow> None | Some v \<Rightarrow> Some (dafsa_view_lookup_n e v (encodeKey cols)))"

text \<open>The shape of the four writes: promote, update one automaton, note the mutation.\<close>

definition write_view :: "(dafsa option \<Rightarrow> int \<times> dafsa option) \<Rightarrow> engine \<Rightarrow> files \<Rightarrow> relation \<Rightarrow> int \<times> relation" where
  "write_view f e fs r =
     (case relEnsureOwned e fs r of (okay, r1) \<Rightarrow>
        if \<not> okay then (-1, r1)
        else case f (r_d r1) of (rc, d') \<Rightarrow>
          let r2 = r1\<lparr>r_d := d'\<rparr> in (rc, if rc > 0 then mutated r2 else r2))"

definition write_base :: "(dafsa option \<Rightarrow> int \<times> dafsa option) \<Rightarrow> engine \<Rightarrow> files \<Rightarrow> relation \<Rightarrow> int \<times> relation" where
  "write_base f e fs r =
     (case relEnsureOwned e fs r of (okay, r1) \<Rightarrow>
        if \<not> okay then (-1, r1)
        else case f (base_of r1) of (rc, b') \<Rightarrow>
          let r2 = (case b' of None \<Rightarrow> r1 | Some b \<Rightarrow> set_base b r1) in (rc, if rc > 0 then mutated r2 else r2))"

definition rel_add :: "engine \<Rightarrow> files \<Rightarrow> tuple \<Rightarrow> relation \<Rightarrow> int \<times> relation" where
  "rel_add e fs cols r = write_view (\<lambda>d. relAddD e d cols) e fs r"

definition rel_add_base :: "engine \<Rightarrow> files \<Rightarrow> tuple \<Rightarrow> relation \<Rightarrow> int \<times> relation" where
  "rel_add_base e fs cols r = write_base (\<lambda>d. relAddD e d cols) e fs r"

definition rel_delete :: "engine \<Rightarrow> files \<Rightarrow> tuple \<Rightarrow> relation \<Rightarrow> int \<times> relation" where
  "rel_delete e fs cols r = write_view (\<lambda>d. relDeleteD e d cols) e fs r"

definition rel_delete_base :: "engine \<Rightarrow> files \<Rightarrow> tuple \<Rightarrow> relation \<Rightarrow> int \<times> relation" where
  "rel_delete_base e fs cols r = write_base (\<lambda>d. relDeleteD e d cols) e fs r"

definition rel_exact :: "engine \<Rightarrow> files \<Rightarrow> tuple \<Rightarrow> relation \<Rightarrow> (int \<times> relation) option" where
  "rel_exact e fs cols r =
     (case relEnsureReadable e fs r of (okay, r1) \<Rightarrow>
        if \<not> okay then Some (0, r1)
        else case (if r_state r1 = View then viewExactD e r1 False cols else Some (relExactD e (r_d r1) cols)) of
          None \<Rightarrow> None
        | Some found \<Rightarrow>
            if found \<noteq> 0 then Some (1, r1)
            else case r_ov r1 of
              None \<Rightarrow> Some (0, r1)
            | Some ov \<Rightarrow>
                if ts_count ov > 0 then
                  (case ts_contains ov cols of
                     None \<Rightarrow> None
                   | Some c \<Rightarrow> Some (if c then 1 else 0, r1))
                else Some (0, r1))"

definition rel_exact_base :: "engine \<Rightarrow> files \<Rightarrow> tuple \<Rightarrow> relation \<Rightarrow> (int \<times> relation) option" where
  "rel_exact_base e fs cols r =
     (case relEnsureReadable e fs r of (okay, r1) \<Rightarrow>
        if \<not> okay then Some (0, r1)
        else if r_state r1 = View then
          (case viewExactD e r1 True cols of None \<Rightarrow> None | Some found \<Rightarrow> Some (found, r1))
        else Some (relExactD e (base_of r1) cols, r1))"

subsection \<open>The overlay\<close>

definition ovEnsure :: "allocator \<Rightarrow> relation \<Rightarrow> tuple_set option" where
  "ovEnsure al r =
     (case r_ov r of
        Some ov \<Rightarrow> Some ov
      | None \<Rightarrow> if \<not> al ''ovEnsure'' 1 then None else ts_init (r_arity r))"

definition rel_overlay_add :: "engine \<Rightarrow> allocator \<Rightarrow> files \<Rightarrow> tuple \<Rightarrow> relation \<Rightarrow> (int \<times> relation) option" where
  "rel_overlay_add e al fs cols r =
     (case relEnsureOwned e fs r of (okay, r1) \<Rightarrow>
        if \<not> okay then Some (-1, r1)
        else if relExactD e (r_d r1) cols \<noteq> 0 then Some (0, r1)
        else case ovEnsure al r1 of
          None \<Rightarrow> Some (-1, r1)
        | Some ov \<Rightarrow>
            (case ts_add al ov cols of
               None \<Rightarrow> None
             | Some (rc, ov') \<Rightarrow>
                 let r2 = r1\<lparr>r_ov := Some ov'\<rparr> in
                 if rc < 0 then Some (-1, r2)
                 else if rc = 1 then Some (rc, mutated (r2\<lparr>r_ov_dirty := r_ov_dirty r2 + 1\<rparr>))
                 else Some (rc, r2)))"

definition rel_overlay_touch :: "nat \<Rightarrow> relation \<Rightarrow> relation" where
  "rel_overlay_touch epoch r = (if epoch > r_ov_epoch r then r\<lparr>r_ov_epoch := epoch\<rparr> else r)"

definition rel_overlay_count :: "relation \<Rightarrow> nat" where
  "rel_overlay_count r = (case r_ov r of None \<Rightarrow> 0 | Some ov \<Rightarrow> ts_count ov)"

text \<open>Folding the rows in: into the view, and into a base that is not the view.\<close>

fun ov_fold :: "engine \<Rightarrow> tuple list \<Rightarrow> relation \<Rightarrow> int \<times> relation" where
  "ov_fold e [] r = (0, r)"
| "ov_fold e (row # rows) r =
     (case relAddD e (r_d r) row of (rc, d') \<Rightarrow>
        let r1 = r\<lparr>r_d := d'\<rparr> in
        if rc < 0 then (-1, r1)
        else case r_base r1 of
          None \<Rightarrow> ov_fold e rows r1
        | Some b \<Rightarrow>
            (case dafsa_add_n e b (encodeKey row) of (rcb, b') \<Rightarrow>
               let r2 = r1\<lparr>r_base := Some b'\<rparr> in
               if rcb < 0 then (-1, r2) else ov_fold e rows r2))"

definition rel_overlay_flush :: "engine \<Rightarrow> files \<Rightarrow> relation \<Rightarrow> int \<times> relation" where
  "rel_overlay_flush e fs r =
     (case r_ov r of
        None \<Rightarrow> (0, r)
      | Some ov \<Rightarrow>
          if ts_count ov = 0 then (0, r\<lparr>r_ov := Some (ts_reset ov)\<rparr>)
          else case relEnsureOwned e fs r of (okay, r1) \<Rightarrow>
            if \<not> okay then (-1, r1)
            else case ov_fold e (ts_data ov) r1 of (rc, r2) \<Rightarrow>
              if rc < 0 then (-1, r2)
              else (0, (mutated r2)\<lparr>r_ov := Some (ts_reset ov), r_ov_dirty := 0\<rparr>))"

definition ovConsolidateForRead :: "engine \<Rightarrow> files \<Rightarrow> relation \<Rightarrow> relation" where
  "ovConsolidateForRead e fs r =
     (case r_ov r of
        None \<Rightarrow> r
      | Some ov \<Rightarrow> if ts_count ov = 0 then r else snd (rel_overlay_flush e fs r))"

definition ovFree :: "relation \<Rightarrow> relation" where
  "ovFree r = r\<lparr>r_ov := None, r_ov_dirty := 0\<rparr>"

definition rel_dafsa :: "engine \<Rightarrow> files \<Rightarrow> relation \<Rightarrow> dafsa option \<times> relation" where
  "rel_dafsa e fs r =
     (case relEnsureOwned e fs r of (okay, r1) \<Rightarrow>
        if \<not> okay then (None, r1)
        else let r2 = ovConsolidateForRead e fs r1 in (r_d r2, r2))"

subsection \<open>Prefix enumeration\<close>

text \<open>The overlay scan goes on to the next row whatever the callback answers.\<close>

fun ovPrefixScan :: "tuple list \<Rightarrow> tuple \<Rightarrow> 's enum_cb \<Rightarrow> 's \<Rightarrow> nat \<times> 's" where
  "ovPrefixScan [] bound cb s = (0, s)"
| "ovPrefixScan (row # rows) bound cb s =
     (if take (length bound) row \<noteq> bound then ovPrefixScan rows bound cb s
      else case cb row s of (_, s1) \<Rightarrow>
        case ovPrefixScan rows bound cb s1 of (n, s2) \<Rightarrow> (n + 1, s2))"

definition rel_prefix ::
  "engine \<Rightarrow> files \<Rightarrow> tuple option \<Rightarrow> nat \<Rightarrow> 's enum_cb \<Rightarrow> 's \<Rightarrow> relation \<Rightarrow> ((int \<times> 's) \<times> relation) option" where
  "rel_prefix e fs leading k cb s r =
     (case relEnsureReadable e fs r of (okay, r1) \<Rightarrow>
        if \<not> okay then Some ((-1, s), r1)
        else if r_state r1 = View then
          (case viewOf r1 False of
             None \<Rightarrow> None
           | Some v \<Rightarrow> Some (viewPrefixD e (r_arity r1) v leading k cb s, r1))
        else
          let r2 = ovConsolidateForRead e fs r1 in
          case relPrefixD e (r_arity r2) (r_d r2) leading k cb s of (n, s1) \<Rightarrow>
            if n < 0 then Some ((-1, s1), r2)
            else case r_ov r2 of
              None \<Rightarrow> Some ((n, s1), r2)
            | Some ov \<Rightarrow>
                (case ovPrefixScan (ts_data ov) (take k (case leading of None \<Rightarrow> [] | Some l \<Rightarrow> l)) cb s1 of
                   (m, s2) \<Rightarrow> Some ((n + int m, s2), r2)))"

definition rel_prefix_base ::
  "engine \<Rightarrow> files \<Rightarrow> tuple option \<Rightarrow> nat \<Rightarrow> 's enum_cb \<Rightarrow> 's \<Rightarrow> relation \<Rightarrow> ((int \<times> 's) \<times> relation) option" where
  "rel_prefix_base e fs leading k cb s r =
     (case relEnsureReadable e fs r of (okay, r1) \<Rightarrow>
        if \<not> okay then Some ((-1, s), r1)
        else if r_state r1 = View then
          (case viewOf r1 True of
             None \<Rightarrow> None
           | Some v \<Rightarrow> Some (viewPrefixD e (r_arity r1) v leading k cb s, r1))
        else Some (relPrefixD e (r_arity r1) (base_of r1) leading k cb s, r1))"

subsection \<open>Content and invariant\<close>

definition disk_tuples :: "engine \<Rightarrow> files \<Rightarrow> nat \<Rightarrow> string option \<Rightarrow> tuple set" where
  "disk_tuples e fs arity p =
     (case dafsa_load e (file_at fs p) of None \<Rightarrow> {} | Some d \<Rightarrow> dtuples arity d)"

definition mem_tuples :: "nat \<Rightarrow> dafsa option \<Rightarrow> tuple set" where
  "mem_tuples arity dopt = (case dopt of None \<Rightarrow> {} | Some d \<Rightarrow> dtuples arity d)"

definition ov_rows :: "relation \<Rightarrow> tuple set" where
  "ov_rows r = (case r_ov r of None \<Rightarrow> {} | Some ov \<Rightarrow> ts_rows ov)"

text \<open>The view's automaton, the base, and what a reader sees: the view's automaton with the overlay.\<close>

definition rel_dset :: "engine \<Rightarrow> files \<Rightarrow> relation \<Rightarrow> tuple set" where
  "rel_dset e fs r = (if r_state r = Owned then mem_tuples (r_arity r) (r_d r)
     else disk_tuples e fs (r_arity r) (r_on_disk_dafsa r))"

definition rel_base :: "engine \<Rightarrow> files \<Rightarrow> relation \<Rightarrow> tuple set" where
  "rel_base e fs r = (if r_state r = Owned then mem_tuples (r_arity r) (base_of r)
     else disk_tuples e fs (r_arity r) (if r_on_disk_base r = None then r_on_disk_dafsa r else r_on_disk_base r))"

definition rel_view :: "engine \<Rightarrow> files \<Rightarrow> relation \<Rightarrow> tuple set" where
  "rel_view e fs r = rel_dset e fs r \<union> ov_rows r"

definition disk_ok :: "engine \<Rightarrow> files \<Rightarrow> nat \<Rightarrow> string option \<Rightarrow> bool" where
  "disk_ok e fs arity p \<longleftrightarrow> (case dafsa_load e (file_at fs p) of None \<Rightarrow> True | Some d \<Rightarrow> keyed arity d)"

definition owned_ok :: "relation \<Rightarrow> bool" where
  "owned_ok r \<longleftrightarrow> (\<exists>d. r_d r = Some d \<and> keyed (r_arity r) d) \<and>
     (\<forall>b. r_base r = Some b \<longrightarrow> keyed (r_arity r) b) \<and>
     r_view_d r = None \<and> r_view_base r = None \<and> r_on_disk_dafsa r = None \<and> r_on_disk_base r = None"

definition unloaded_ok :: "engine \<Rightarrow> files \<Rightarrow> relation \<Rightarrow> bool" where
  "unloaded_ok e fs r \<longleftrightarrow> r_d r = None \<and> r_base r = None \<and> r_on_disk_dafsa r \<noteq> None \<and>
     disk_ok e fs (r_arity r) (r_on_disk_dafsa r) \<and>
     (r_on_disk_base r \<noteq> None \<longrightarrow> disk_ok e fs (r_arity r) (r_on_disk_base r)) \<and>
     viewOverlayClean r \<and> \<not> wal_pending r"

definition view_ok_of :: "engine \<Rightarrow> files \<Rightarrow> string option \<Rightarrow> dafsa_view option \<Rightarrow> bool" where
  "view_ok_of e fs p v \<longleftrightarrow> v \<noteq> None \<and> dafsa_view_open e (file_at fs p) = v"

definition rel_ok :: "engine \<Rightarrow> files \<Rightarrow> relation \<Rightarrow> bool" where
  "rel_ok e fs r \<longleftrightarrow> 1 \<le> r_arity r \<and> r_arity r \<le> MAX_ARITY \<and> length (r_col_kind r) = MAX_ARITY \<and>
     (\<forall>ov. r_ov r = Some ov \<longrightarrow> ts_inv ov \<and> ts_arity ov = r_arity r) \<and>
     (case r_state r of
        Owned \<Rightarrow> owned_ok r
      | Deferred \<Rightarrow> unloaded_ok e fs r \<and> r_view_d r = None \<and> r_view_base r = None
      | View \<Rightarrow> unloaded_ok e fs r \<and> view_ok_of e fs (r_on_disk_dafsa r) (r_view_d r) \<and>
          (if r_on_disk_base r = None then r_view_base r = None
           else view_ok_of e fs (r_on_disk_base r) (r_view_base r)))"

text \<open>What a change of representation keeps.\<close>

definition same_relation :: "engine \<Rightarrow> files \<Rightarrow> relation \<Rightarrow> relation \<Rightarrow> bool" where
  "same_relation e fs r r' \<longleftrightarrow> rel_dset e fs r' = rel_dset e fs r \<and> rel_base e fs r' = rel_base e fs r \<and>
     rel_is_idb r' = rel_is_idb r \<and> r_arity r' = r_arity r \<and> r_ov r' = r_ov r \<and> r_ov_dirty r' = r_ov_dirty r \<and>
     r_wal r' = r_wal r \<and> r_wal_path r' = r_wal_path r \<and> r_wal_appended r' = r_wal_appended r \<and>
     r_dirty r' = r_dirty r \<and> r_rev r' = r_rev r \<and> r_col_kind r' = r_col_kind r"

lemma same_relation_refl [simp]: "same_relation e fs r r"
  by (simp add: same_relation_def)

lemma same_relation_view: "same_relation e fs r r' \<Longrightarrow> rel_view e fs r' = rel_view e fs r"
  by (simp add: same_relation_def rel_view_def ov_rows_def)

lemma load_or_create_ok:
  assumes "engine_ok e" "dafsa_create e \<noteq> None" "disk_ok e fs arity p"
  obtains d where "load_or_create e (file_at fs p) = Some d" "keyed arity d" "dtuples arity d = disk_tuples e fs arity p"
proof (cases "dafsa_load e (file_at fs p)")
  case None
  from assms(2) obtain d where d: "dafsa_create e = Some d" by auto
  moreover have "dafsa_inv d" "dwords d = {}"
    using assms(1) d by (simp_all add: engine_ok_def create_ok_def)
  ultimately show ?thesis
    using None by (intro that [of d]) (simp_all add: load_or_create_def disk_tuples_def keyed_def dtuples_def)
next
  case (Some d)
  then show ?thesis
    using assms(3) by (intro that [of d]) (simp_all add: load_or_create_def disk_tuples_def disk_ok_def)
qed

lemma rel_ok_unloaded: "rel_ok e fs r \<Longrightarrow> r_state r \<noteq> Owned \<Longrightarrow> unloaded_ok e fs r"
  by (cases "r_state r") (simp_all add: rel_ok_def)

lemma rel_ok_idb: "rel_ok e fs r \<Longrightarrow> r_state r \<noteq> Owned \<Longrightarrow> rel_is_idb r \<longleftrightarrow> r_on_disk_base r \<noteq> None"
  by (cases "r_state r") (auto simp: rel_ok_def rel_is_idb_def view_ok_of_def split: if_splits)

text \<open>Promotion to \<open>Owned\<close> is not a mutation.\<close>

lemma ensure_owned_ok:
  assumes "engine_ok e" "dafsa_create e \<noteq> None" "rel_ok e fs r"
  obtains r' where "relEnsureOwned e fs r = (True, r')" "rel_ok e fs r'" "r_state r' = Owned" "same_relation e fs r r'"
proof (cases "r_state r = Owned")
  case True
  then show ?thesis using assms(3) by (intro that [of r]) (simp_all add: relEnsureOwned_def)
next
  case False
  have u: "unloaded_ok e fs r" by (rule rel_ok_unloaded [OF assms(3) False])
  obtain d where d: "load_or_create e (file_at fs (r_on_disk_dafsa r)) = Some d" "keyed (r_arity r) d"
    "dtuples (r_arity r) d = disk_tuples e fs (r_arity r) (r_on_disk_dafsa r)"
    by (rule load_or_create_ok [OF assms(1,2)]) (use u in \<open>auto simp: unloaded_ok_def\<close>)
  have idb: "rel_is_idb r \<longleftrightarrow> r_on_disk_base r \<noteq> None" by (rule rel_ok_idb [OF assms(3) False])
  show ?thesis
  proof (cases "r_on_disk_base r")
    case None
    show ?thesis
      using None False d u idb assms(3)
      by (intro that [of "(relViewClose r)\<lparr>r_d := Some d, r_base := None, r_state := Owned,
            r_on_disk_dafsa := None, r_on_disk_base := None\<rparr>"])
        (auto simp: relEnsureOwned_def relViewClose_def Let_def rel_ok_def owned_ok_def same_relation_def
          rel_dset_def rel_base_def base_of_def mem_tuples_def rel_is_idb_def)
  next
    case (Some p)
    obtain b where b: "load_or_create e (fs p) = Some b" "keyed (r_arity r) b"
      "dtuples (r_arity r) b = disk_tuples e fs (r_arity r) (Some p)"
      using load_or_create_ok [OF assms(1,2), of fs "r_arity r" "Some p"] u Some
      by (auto simp: unloaded_ok_def file_at_def)
    show ?thesis
      using Some False d b u idb assms(3)
      by (intro that [of "(relViewClose r)\<lparr>r_d := Some d, r_base := Some b, r_state := Owned,
            r_on_disk_dafsa := None, r_on_disk_base := None\<rparr>"])
        (auto simp: relEnsureOwned_def relViewClose_def Let_def rel_ok_def owned_ok_def same_relation_def
          rel_dset_def rel_base_def base_of_def mem_tuples_def rel_is_idb_def)
  qed
qed

lemma view_open_ok:
  assumes "rel_ok e fs r" "r_state r = Deferred" "relViewOpen e fs r = Some r'"
  shows "rel_ok e fs r' \<and> r_state r' = View \<and> same_relation e fs r r'"
proof -
  have u: "unloaded_ok e fs r" by (rule rel_ok_unloaded [OF assms(1)]) (simp add: assms(2))
  then have u': "unloaded_ok e fs r'" "r_state r' = View"
    using assms(3) by (auto simp: relViewOpen_def unloaded_ok_def viewOverlayClean_def wal_pending_def split: option.splits)
  moreover have "rel_ok e fs r'"
    using assms u' by (auto simp: relViewOpen_def rel_ok_def view_ok_of_def file_at_def split: option.splits)
  moreover have "same_relation e fs r r'"
    using assms by (auto simp: relViewOpen_def same_relation_def rel_dset_def rel_base_def rel_is_idb_def rel_ok_def
        split: option.splits)
  ultimately show ?thesis by simp
qed

lemma ensure_readable_ok:
  assumes "engine_ok e" "dafsa_create e \<noteq> None" "rel_ok e fs r"
  obtains r' where "relEnsureReadable e fs r = (True, r')" "rel_ok e fs r'" "r_state r' \<noteq> Deferred" "same_relation e fs r r'"
proof (cases "r_state r = Deferred")
  case False
  then show ?thesis using assms(3) by (intro that [of r]) (simp_all add: relEnsureReadable_def)
next
  case True
  obtain r1 where r1: "relEnsureOwned e fs r = (True, r1)" "rel_ok e fs r1" "r_state r1 = Owned" "same_relation e fs r r1"
    by (rule ensure_owned_ok [OF assms])
  have u: "\<not> wal_pending r" "viewOverlayClean r"
    using rel_ok_unloaded [OF assms(3)] True by (auto simp: unloaded_ok_def)
  show ?thesis
  proof (cases "relViewOpen e fs r")
    case None
    then show ?thesis using r1 True u by (intro that [of r1]) (simp_all add: relEnsureReadable_def)
  next
    case (Some r')
    then show ?thesis using view_open_ok [OF assms(3) True Some] True u
      by (intro that [of r']) (simp_all add: relEnsureReadable_def)
  qed
qed

end
