(* ===== verification/TrieEngine.thy ===== *)
theory TrieEngine
  imports Dafsa "HOL-Library.Sublist"
begin

text \<open>
  An engine that keeps the promises of \<open>engine_ok\<close>, so that no property rests on promises
  that cannot be kept: an automaton is the trie of its words, every update rebuilds it, a file
  lists the words, and a view is the trie of the words in the file.
\<close>

definition trie_states :: "bytes list \<Rightarrow> bytes list" where
  "trie_states ks = remdups (concat (map prefixes ([] # ks)))"

fun index_of :: "'a \<Rightarrow> 'a list \<Rightarrow> nat" where
  "index_of x [] = 0"
| "index_of x (y # ys) = (if x = y then 0 else Suc (index_of x ys))"

lemma index_of_less [simp]: "index_of x xs < length xs \<longleftrightarrow> x \<in> set xs"
  by (induction xs) auto

lemma nth_index_of [simp]: "x \<in> set xs \<Longrightarrow> xs ! index_of x xs = x"
  by (induction xs) auto

definition all_bytes :: "bytes" where
  "all_bytes = map of_nat [0..<256]"

lemma sorted_all_bytes: "sorted_wrt (<) all_bytes"
proof -
  have "sorted_wrt (\<lambda>i j. (of_nat i :: u8) < of_nat j) [0..<256]"
    by (rule sorted_wrt_mono_rel [OF _ sorted_wrt_upt]) (simp add: word_less_nat_alt unat_of_nat)
  then show ?thesis by (simp add: all_bytes_def sorted_wrt_map)
qed

lemma set_all_bytes [simp]: "set all_bytes = UNIV"
proof -
  have "c \<in> set all_bytes" for c :: u8
    using unat_u8_less [of c] by (auto simp: all_bytes_def image_iff intro!: bexI [of _ "unat c"])
  then show ?thesis by blast
qed

definition trie_edges :: "bytes list \<Rightarrow> bytes \<Rightarrow> edge list" where
  "trie_edges ps p = map (\<lambda>c. (c, index_of (p @ [c]) ps)) (filter (\<lambda>c. p @ [c] \<in> set ps) all_bytes)"

definition trie_of :: "bytes list \<Rightarrow> dafsa" where
  "trie_of ks =
     (let ps = trie_states ks in
      \<lparr>initial = index_of [] ps,
       states = map (\<lambda>p. \<lparr>is_final = (p \<in> set ks), ntrans = length (trie_edges ps p),
                         trans_heap = Some (trie_edges ps p), trans = []\<rparr>) ps\<rparr>)"

lemma trie_edges_trie:
  "p \<in> set (trie_states ks) \<Longrightarrow> edges (trie_of ks) (index_of p (trie_states ks)) = trie_edges (trie_states ks) p"
  by (simp add: edges_def trie_of_def Let_def transArrC_def)

lemma map_of_trie_edges:
  "map_of (trie_edges ps p) c = (if p @ [c] \<in> set ps then Some (index_of (p @ [c]) ps) else None)"
  by (auto simp: trie_edges_def map_of_map_restrict restrict_map_def)

lemma Nil_trie_states [simp]: "[] \<in> set (trie_states ks)"
  by (simp add: trie_states_def)

lemma trie_states_closed: "p @ q \<in> set (trie_states ks) \<Longrightarrow> p \<in> set (trie_states ks)"
  by (auto simp: trie_states_def simp del: remdups.simps dest: append_prefixD)

lemma key_trie_states: "set ks \<subseteq> set (trie_states ks)"
  by (auto simp: trie_states_def)

lemma run_trie:
  "p \<in> set (trie_states ks) \<Longrightarrow> run (trie_of ks) (index_of p (trie_states ks)) w =
     (if p @ w \<in> set (trie_states ks) then Some (index_of (p @ w) (trie_states ks)) else None)"
proof (induction w arbitrary: p)
  case (Cons c w)
  show ?case
  proof (cases "p @ [c] \<in> set (trie_states ks)")
    case True
    then show ?thesis
      using Cons.IH [OF True] Cons.prems by (simp add: trie_edges_trie map_of_trie_edges)
  next
    case False
    moreover have "p @ c # w \<notin> set (trie_states ks)"
      using False trie_states_closed [of "p @ [c]" w ks] by auto
    ultimately show ?thesis using Cons.prems by (simp add: trie_edges_trie map_of_trie_edges)
  qed
qed simp

lemma dwords_trie [simp]: "dwords (trie_of ks) = set ks"
proof -
  have "accepts (trie_of ks) (initial (trie_of ks)) w \<longleftrightarrow> w \<in> set ks" for w
    using run_trie [OF Nil_trie_states, of ks w] key_trie_states [of ks]
    by (auto simp: accepts_def trie_of_def Let_def)
  then show ?thesis by (simp add: dwords_def)
qed

lemma sorted_trie_edges: "sorted_wrt (\<lambda>x y. fst x < fst y) (trie_edges ps p)"
  by (simp add: trie_edges_def sorted_wrt_map sorted_all_bytes sorted_wrt_filter)

lemma dafsa_ok_trie [simp]: "dafsa_ok (trie_of ks)"
  by (auto simp: dafsa_ok_def trie_of_def Let_def state_ok_def transArrC_def sorted_trie_edges)
    (auto simp: trie_edges_def)

lemma initial_trie: "initial (trie_of ks) = index_of [] (trie_states ks)"
  by (simp add: trie_of_def Let_def)

lemma trie_live:
  assumes "w \<noteq> []" "run (trie_of ks) (initial (trie_of ks)) w = Some st"
  shows "words_from (trie_of ks) st \<noteq> {}"
proof -
  have "w \<in> set (trie_states ks)"
    using run_trie [OF Nil_trie_states, of ks w] assms(2) by (simp add: initial_trie split: if_splits)
  then obtain u where "w @ u \<in> set ks"
    using assms(1) by (auto simp: trie_states_def prefix_def simp del: remdups.simps)
  then have "w @ u \<in> dwords (trie_of ks)" by simp
  then have "accepts (trie_of ks) st u" using assms(2) by (simp add: dwords_def accepts_append)
  then show ?thesis by (auto simp: words_from_def)
qed

lemma dafsa_inv_trie: "\<forall>k \<in> set ks. length k \<le> MAX_WORD_LEN \<Longrightarrow> dafsa_inv (trie_of ks)"
  using trie_live by (auto simp: dafsa_inv_def)

text \<open>The words of an automaton, and the file that lists them: each byte after a 1, each word closed by a 0.\<close>

definition word_list :: "dafsa \<Rightarrow> bytes list" where
  "word_list d = below MAX_WORD_LEN d (initial d)"

lemma set_word_list: "dafsa_inv d \<Longrightarrow> set (word_list d) = dwords d"
  using set_below [of d "initial d" MAX_WORD_LEN]
  by (auto simp: dafsa_inv_def dafsa_ok_def word_list_def dwords_def)

lemma word_list_short: "dafsa_inv d \<Longrightarrow> k \<in> set (word_list d) \<Longrightarrow> length k \<le> MAX_WORD_LEN"
  by (simp add: set_word_list dafsa_inv_def)

definition image_of :: "bytes list \<Rightarrow> bytes" where
  "image_of ws = concat (map (\<lambda>w. concat (map (\<lambda>c. [1, c]) w) @ [0]) ws)"

fun words_in :: "bytes \<Rightarrow> bytes \<Rightarrow> bytes list" where
  "words_in [] acc = []"
| "words_in [t] acc = (if t = 0 then [acc] else [])"
| "words_in (t # c # r) acc = (if t = 0 then acc # words_in (c # r) [] else words_in r (acc @ [c]))"

lemma words_in_word: "words_in (concat (map (\<lambda>c. [1, c]) w) @ 0 # r) acc = (acc @ w) # words_in r []"
  by (induction w arbitrary: acc) (cases r; simp)+

lemma words_in_image [simp]: "words_in (image_of ws) [] = ws"
  by (induction ws) (auto simp: image_of_def words_in_word)

definition trie_file :: "bytes \<Rightarrow> dafsa" where
  "trie_file c = trie_of (filter (\<lambda>w. length w \<le> MAX_WORD_LEN) (words_in c []))"

definition view_dafsa :: "dafsa_view \<Rightarrow> dafsa" where
  "view_dafsa v = trie_file (vw_map v)"

definition find_edge :: "dstate \<Rightarrow> u8 \<Rightarrow> int" where
  "find_edge s c = (let es = take (ntrans s) (transArrC s) in
     if c \<in> fst ` set es then int (index_of c (map fst es)) else -1)"

definition rank_from :: "dafsa \<Rightarrow> nat \<Rightarrow> bytes \<Rightarrow> nat" where
  "rank_from d st k = length (filter (\<lambda>w. w < k) (below MAX_WORD_LEN d st))"

definition select_from :: "dafsa \<Rightarrow> nat \<Rightarrow> nat \<Rightarrow> nat \<Rightarrow> bytes option" where
  "select_from d st i cap =
     (let ws = below MAX_WORD_LEN d st in
      if i < length ws \<and> length (ws ! i) \<le> cap then Some (ws ! i) else None)"

definition range_count_from :: "dafsa \<Rightarrow> nat \<Rightarrow> bytes \<Rightarrow> bytes \<Rightarrow> nat" where
  "range_count_from d st lo hi = length (filter (\<lambda>w. lo \<le> w \<and> w < hi) (below MAX_WORD_LEN d st))"

text \<open>The file of a log: each record's operation and key, as one word.\<close>

definition wal_image :: "(u8 \<times> bytes) list \<Rightarrow> bytes" where
  "wal_image rs = image_of (map (\<lambda>(op, k). op # k) rs)"

definition wal_bytes :: "(u8 \<times> bytes) list \<Rightarrow> nat" where
  "wal_bytes rs = 16 + sum_list (map (\<lambda>r. length (snd r) + 9) rs)"

definition wal_of :: "bytes option \<Rightarrow> dafsa_wal" where
  "wal_of c =
     (let rs = (case c of None \<Rightarrow> []
          | Some bs \<Rightarrow> filter (\<lambda>r. length (snd r) \<le> MAX_WORD_LEN) (map (\<lambda>w. (hd w, tl w)) (words_in bs []))) in
      \<lparr>dw_recs = rs, dw_size = wal_bytes rs\<rparr>)"

lemma wal_of_image [simp]: "recs_ok rs \<Longrightarrow> dw_recs (wal_of (Some (wal_image rs))) = rs"
  by (simp add: wal_of_def wal_image_def o_def case_prod_beta recs_ok_def)

lemma wal_of_inv [simp]: "wal_inv (wal_of c)"
  by (cases c) (auto simp: wal_inv_def wal_of_def wal_bytes_def recs_ok_def Let_def neq_Nil_conv)

lemma wal_of_size: "dw_recs (wal_of c) = [] \<Longrightarrow> dw_size (wal_of c) = 16"
  by (simp add: wal_of_def wal_bytes_def Let_def)

definition trie_engine :: engine where
  "trie_engine =
     \<lparr>dafsa_create = Some (trie_of []),
      dafsa_load = (\<lambda>c. case c of None \<Rightarrow> None | Some bs \<Rightarrow> Some (trie_file bs)),
      dafsa_image = (\<lambda>d. image_of (word_list d)),
      dafsa_build_sorted = (\<lambda>ks. Some (trie_of ks)),
      dafsa_n_final = (\<lambda>d. length (filter is_final (states d))),
      dafsa_add_n = (\<lambda>d k. if k \<in> set (word_list d) then (0, d) else (1, trie_of (k # word_list d))),
      dafsa_lookup_n = (\<lambda>d k. if accepts d (initial d) k then 1 else 0),
      dafsa_delete_n = (\<lambda>d k. if k \<in> set (word_list d) then (1, trie_of (removeAll k (word_list d))) else (0, d)),
      dafsa_ensure_subtree = (\<lambda>d. Some (length (word_list d))),
      dafsa_rank_from = rank_from,
      dafsa_select_from = select_from,
      dafsa_range_count_from = range_count_from,
      trans_find = find_edge,
      dafsa_save = (\<lambda>d path fs. (0, fs(path := Some (image_of (word_list d))))),
      dafsa_n_reachable = (\<lambda>d. length (states d)),
      dafsa_n_trans = (\<lambda>d. sum_list (map ntrans (states d))),
      dafsa_wal_open_rw = (\<lambda>c. Some (wal_of c)),
      dafsa_wal_open_ro = (\<lambda>c. case c of None \<Rightarrow> None | Some bs \<Rightarrow> Some (wal_of c)),
      dafsa_wal_image = wal_image,
      dafsa_wal_replay = (\<lambda>w. (0, dw_recs w)),
      dafsa_wal_append = (\<lambda>w op k. (0, \<lparr>dw_recs = dw_recs w @ [(op, k)], dw_size = dw_size w + length k + 9\<rparr>)),
      dafsa_view_open = (\<lambda>c. case c of None \<Rightarrow> None | Some bs \<Rightarrow>
         Some \<lparr>vw_initial = initial (trie_file bs), vw_n_states = length (states (trie_file bs)),
               vw_final_bits = [], vw_map = bs\<rparr>),
      dafsa_view_lookup_n = (\<lambda>v k. if accepts (view_dafsa v) (initial (view_dafsa v)) k then 1 else 0),
      view_trans_find = (\<lambda>v st c. map_of (edges (view_dafsa v) st) c),
      view_enum = (\<lambda>v st. below MAX_WORD_LEN (view_dafsa v) st),
      dafsa_view_rank_n = (\<lambda>v. rank_from (view_dafsa v) (initial (view_dafsa v))),
      dafsa_view_select_n = (\<lambda>v. select_from (view_dafsa v) (initial (view_dafsa v))),
      dafsa_view_range_count_n = (\<lambda>v. range_count_from (view_dafsa v) (initial (view_dafsa v))),
      dafsa_view_subtree_count = (\<lambda>v. length (word_list (view_dafsa v)))\<rparr>"

lemma trie_file_inv: "dafsa_inv (trie_file c)"
  unfolding trie_file_def by (rule dafsa_inv_trie) simp

lemma length_word_list: "dafsa_inv d \<Longrightarrow> length (word_list d) = card (dwords d)"
  using sorted_below [of d "initial d" MAX_WORD_LEN] distinct_card [of "word_list d"] set_word_list [of d]
  by (simp add: dafsa_inv_def dafsa_ok_def word_list_def strict_sorted_iff)

lemma words_from_short:
  assumes "dafsa_inv d" "st < length (states d)" "\<forall>w \<in> words_from d st. length w \<le> MAX_WORD_LEN"
  shows "below MAX_WORD_LEN d st = sorted_list_of_set (words_from d st)"
  unfolding words_from_def
  by (rule below_sorted_list) (use assms in \<open>auto simp: dafsa_inv_def words_from_def\<close>)

lemma trie_create: "create_ok trie_engine"
  by (simp add: create_ok_def trie_engine_def dafsa_inv_trie)

lemma trie_load: "load_ok trie_engine"
proof -
  have "dwords (trie_file (image_of (word_list d))) = dwords d" if "dafsa_inv d" for d
    using word_list_short [OF that] set_word_list [OF that] by (auto simp: trie_file_def)
  then show ?thesis
    by (auto simp: load_ok_def trie_engine_def trie_file_inv split: option.splits)
qed

lemma trie_build: "build_ok trie_engine"
  by (auto simp: build_ok_def trie_engine_def intro!: dafsa_inv_trie)

lemma trie_add: "add_ok trie_engine"
  unfolding add_ok_def
proof (intro allI impI)
  fix d k rc d'
  assume a: "dafsa_inv d \<and> length k \<le> MAX_WORD_LEN \<and> dafsa_add_n trie_engine d k = (rc, d')"
  have s: "set (word_list d) = dwords d" "\<forall>w \<in> set (word_list d). length w \<le> MAX_WORD_LEN"
    using a set_word_list word_list_short by blast+
  show "dafsa_inv d' \<and> rc \<in> {-1, 0, 1} \<and> (rc = 1 \<longrightarrow> k \<notin> dwords d \<and> dwords d' = insert k (dwords d)) \<and>
     (rc = 0 \<longrightarrow> k \<in> dwords d \<and> dwords d' = dwords d) \<and> (rc = -1 \<longrightarrow> dwords d' = dwords d)"
    using a s by (auto simp: trie_engine_def split: if_splits intro!: dafsa_inv_trie)
qed

lemma trie_delete: "delete_ok trie_engine"
  unfolding delete_ok_def
proof (intro allI impI)
  fix d k rc d'
  assume a: "dafsa_inv d \<and> length k \<le> MAX_WORD_LEN \<and> dafsa_delete_n trie_engine d k = (rc, d')"
  have s: "set (word_list d) = dwords d" "\<forall>w \<in> set (word_list d). length w \<le> MAX_WORD_LEN"
    using a set_word_list word_list_short by blast+
  show "dafsa_inv d' \<and> rc \<in> {-1, 0, 1} \<and> (rc = 1 \<longrightarrow> k \<in> dwords d \<and> dwords d' = dwords d - {k}) \<and>
     (rc = 0 \<longrightarrow> k \<notin> dwords d \<and> dwords d' = dwords d) \<and> (rc = -1 \<longrightarrow> dwords d' = dwords d)"
    using a s by (auto simp: trie_engine_def split: if_splits intro!: dafsa_inv_trie)
qed

lemma map_of_index_of:
  "c \<in> fst ` set es \<Longrightarrow> index_of c (map fst es) < length es \<and> fst (es ! index_of c (map fst es)) = c"
  by (induction es) auto

lemma trie_read: "read_ok trie_engine"
proof -
  have "let tr = find_edge (states d ! st) c in
      if tr < 0 then map_of (edges d st) c = None
      else nat tr < ntrans (states d ! st) \<and> fst (edges d st ! nat tr) = c"
    if "dafsa_inv d" "st < length (states d)" for d st c
  proof (cases "c \<in> fst ` set (edges d st)")
    case True
    have "length (edges d st) = ntrans (states d ! st)"
      using that by (intro edges_ok(5)) (simp_all add: dafsa_inv_def)
    moreover have "find_edge (states d ! st) c = int (index_of c (map fst (edges d st)))"
      using True by (simp add: find_edge_def Let_def edges_def)
    ultimately show ?thesis using map_of_index_of [OF True] by (simp add: Let_def)
  next
    case False
    then show ?thesis by (simp add: find_edge_def Let_def edges_def map_of_eq_None_iff)
  qed
  moreover have "dafsa_lookup_n trie_engine d k = (if k \<in> dwords d then 1 else 0)" for d k
    by (simp add: trie_engine_def dwords_def)
  moreover have "dafsa_ensure_subtree trie_engine d = Some n \<Longrightarrow> dafsa_inv d \<Longrightarrow> n = card (dwords d)" for d n
    using length_word_list [of d] by (simp add: trie_engine_def)
  moreover have "trans_find trie_engine = find_edge" by (simp add: trie_engine_def)
  ultimately show ?thesis unfolding read_ok_def by simp
qed

lemma trie_order: "order_ok trie_engine"
proof -
  have "rank_from d st k = card {w \<in> words_from d st. w < k} \<and>
      range_count_from d st lo hi = card {w \<in> words_from d st. lo \<le> w \<and> w < hi} \<and>
      ((\<forall>w \<in> words_from d st. length w \<le> cap) \<longrightarrow> select_from d st i cap =
        (if i < card (words_from d st) then Some (sorted_list_of_set (words_from d st) ! i) else None))"
    if a: "dafsa_inv d" "st < length (states d)" "\<forall>w \<in> words_from d st. length w \<le> MAX_WORD_LEN"
    for d st k lo hi i cap
  proof -
    let ?ws = "below MAX_WORD_LEN d st"
    have ws: "?ws = sorted_list_of_set (words_from d st)" by (rule words_from_short [OF a])
    have set: "set ?ws = words_from d st"
      using set_below [of d st MAX_WORD_LEN] a by (auto simp: words_from_def dafsa_inv_def)
    have "distinct ?ws" using sorted_below [of d st MAX_WORD_LEN] a by (simp add: strict_sorted_iff dafsa_inv_def)
    then have c: "length (filter P ?ws) = card {w \<in> words_from d st. P w}" for P
      by (metis distinct_card distinct_filter set set_filter)
    have n: "length ?ws = card (words_from d st)" using \<open>distinct ?ws\<close> set by (metis distinct_card)
    have "i < length ?ws \<Longrightarrow> ?ws ! i \<in> words_from d st" using set nth_mem by blast
    then show ?thesis
      unfolding rank_from_def range_count_from_def select_from_def Let_def c n by (auto simp: ws [symmetric])
  qed
  then show ?thesis by (simp add: order_ok_def trie_engine_def)
qed

lemma trie_view: "view_ok trie_engine"
  unfolding view_ok_def
proof (intro allI impI)
  fix c v
  assume "dafsa_view_open trie_engine c = Some v"
  then obtain bs where bs: "c = Some bs" "view_dafsa v = trie_file bs" "vw_initial v = initial (trie_file bs)"
    by (auto simp: trie_engine_def view_dafsa_def split: option.splits)
  have "view_of trie_engine v (trie_file bs)"
    using bs length_word_list [OF trie_file_inv] by (simp add: view_of_def trie_engine_def)
  then show "\<exists>d. dafsa_load trie_engine c = Some d \<and> view_of trie_engine v d"
    using bs by (simp add: trie_engine_def)
qed

lemma trie_wal: "wal_ok trie_engine"
proof -
  have append: "wal_inv w' \<and> (if rc = 0 then dw_recs w' = dw_recs w @ [(op, k)] else w' = w)"
    if "wal_inv w" "length k \<le> MAX_WORD_LEN" "dafsa_wal_append trie_engine w op k = (rc, w')" for w op k rc w'
    using that by (auto simp: trie_engine_def wal_inv_def recs_ok_def)
  have "\<exists>n. dw_recs w = take n (dw_recs w)" for w by (metis take_all_iff order_refl)
  with append show ?thesis
    unfolding wal_ok_def by (simp add: trie_engine_def) (auto simp: wal_of_size split: option.splits)
qed

lemma trie_save: "save_ok trie_engine"
  by (simp add: save_ok_def trie_engine_def)

theorem trie_engine_ok: "engine_ok trie_engine"
  unfolding engine_ok_def
  using trie_create trie_load trie_build trie_add trie_delete trie_read trie_order trie_wal trie_save trie_view
  by simp

end
