(* ===== verification/RelationOps.thy ===== *)
theory RelationOps
  imports RelationState TrieEngine
begin

text \<open>
  What the operations of a relation do to its content: the contracts of \<^verbatim>\<open>src/relation.h\<close> for adding,
  deleting, testing and enumerating, the overlay and its consolidation, on every state a relation
  can be held in.  The content is \<open>rel_dset\<close> (the view's automaton), \<open>rel_base\<close> and \<open>rel_view\<close>
  (the automaton with the overlay).
\<close>

subsection \<open>Contracts\<close>

definition add_result :: "tuple set \<Rightarrow> tuple \<Rightarrow> int \<Rightarrow> tuple set \<Rightarrow> bool" where
  "add_result V t rc V' \<longleftrightarrow>
     rc = 1 \<and> t \<notin> V \<and> V' = insert t V \<or> rc = 0 \<and> t \<in> V \<and> V' = V \<or> rc = -1 \<and> V' = V"

definition delete_result :: "tuple set \<Rightarrow> tuple \<Rightarrow> int \<Rightarrow> tuple set \<Rightarrow> bool" where
  "delete_result V t rc V' \<longleftrightarrow>
     rc = 1 \<and> t \<in> V \<and> V' = V - {t} \<or> rc = 0 \<and> t \<notin> V \<and> V' = V \<or> rc = -1 \<and> V' = V"

text \<open>What a write does to everything but the content it writes.\<close>

definition write_frame :: "int \<Rightarrow> relation \<Rightarrow> relation \<Rightarrow> bool" where
  "write_frame rc r r' \<longleftrightarrow> r_arity r' = r_arity r \<and> r_ov r' = r_ov r \<and> rel_is_idb r' = rel_is_idb r \<and>
     r_wal r' = r_wal r \<and> r_col_kind r' = r_col_kind r \<and>
     r_dirty r' = (r_dirty r \<or> rc > 0) \<and> r_rev r' = (if rc > 0 then r_rev r + 1 else r_rev r)"

definition view_write_spec ::
  "(tuple set \<Rightarrow> int \<Rightarrow> tuple set \<Rightarrow> bool) \<Rightarrow> engine \<Rightarrow> files \<Rightarrow> relation \<Rightarrow> int \<times> relation \<Rightarrow> bool" where
  "view_write_spec P e fs r res \<longleftrightarrow> (case res of (rc, r') \<Rightarrow>
     P (rel_dset e fs r) rc (rel_dset e fs r') \<and>
     rel_base e fs r' = (if rel_is_idb r then rel_base e fs r else rel_dset e fs r') \<and> write_frame rc r r')"

definition base_write_spec ::
  "(tuple set \<Rightarrow> int \<Rightarrow> tuple set \<Rightarrow> bool) \<Rightarrow> engine \<Rightarrow> files \<Rightarrow> relation \<Rightarrow> int \<times> relation \<Rightarrow> bool" where
  "base_write_spec P e fs r res \<longleftrightarrow> (case res of (rc, r') \<Rightarrow>
     P (rel_base e fs r) rc (rel_base e fs r') \<and>
     rel_dset e fs r' = (if rel_is_idb r then rel_dset e fs r else rel_base e fs r') \<and> write_frame rc r r')"

text \<open>A membership test: 1 if present, 0 if absent, and the relation the caller holds is unchanged.\<close>

definition exact_spec :: "engine \<Rightarrow> files \<Rightarrow> tuple set \<Rightarrow> tuple \<Rightarrow> relation \<Rightarrow> int \<times> relation \<Rightarrow> bool" where
  "exact_spec e fs R t r res \<longleftrightarrow> (case res of (rc, r') \<Rightarrow>
     rc = (if t \<in> R then 1 else 0) \<and> same_relation e fs r r')"

text \<open>Enumeration: the matching tuples in lexicographic order, until the callback answers non-zero.\<close>

definition prefix_spec :: "tuple set \<Rightarrow> tuple \<Rightarrow> 's enum_cb \<Rightarrow> 's \<Rightarrow> int \<times> 's \<Rightarrow> bool" where
  "prefix_spec R bound cb s res \<longleftrightarrow>
     res = (case deliver cb (sorted_list_of_set (matching R bound)) s of (n, s') \<Rightarrow> (int n, s'))"

text \<open>The callback takes every one of these tuples.\<close>

definition takes_all :: "'s enum_cb \<Rightarrow> tuple list \<Rightarrow> 's \<Rightarrow> bool" where
  "takes_all cb ts s \<longleftrightarrow> \<not> fst (until (hand_out cb) ts (0, s))"

subsection \<open>Automata of keys under the engine\<close>

lemma key_short: "\<lbrakk>length t = arity; arity \<le> MAX_ARITY\<rbrakk> \<Longrightarrow> length (encodeKey t) \<le> MAX_WORD_LEN"
  by (simp add: MAX_ARITY_def MAX_WORD_LEN_def)

lemma dtuples_insert:
  assumes "length t = arity" "dwords d' = insert (encodeKey t) (dwords d)"
  shows "dtuples arity d' = insert t (dtuples arity d)"
proof (rule set_eqI)
  fix x show "x \<in> dtuples arity d' \<longleftrightarrow> x \<in> insert t (dtuples arity d)"
    using encodeKey_inj [of x t] assms by (auto simp: dtuples_def)
qed

lemma dtuples_remove:
  assumes "length t = arity" "dwords d' = dwords d - {encodeKey t}"
  shows "dtuples arity d' = dtuples arity d - {t}"
proof (rule set_eqI)
  fix x show "x \<in> dtuples arity d' \<longleftrightarrow> x \<in> dtuples arity d - {t}"
    using encodeKey_inj [of x t] assms by (auto simp: dtuples_def)
qed

lemma in_dtuples: "length t = arity \<Longrightarrow> encodeKey t \<in> dwords d \<longleftrightarrow> t \<in> dtuples arity d"
  by (simp add: dtuples_def)

lemma add_n_ok:
  assumes "engine_ok e" "keyed arity d" "length t = arity" "arity \<le> MAX_ARITY"
    "dafsa_add_n e d (encodeKey t) = (rc, d')"
  shows "keyed arity d'" "add_result (dtuples arity d) t rc (dtuples arity d')"
proof -
  have inv: "dafsa_inv d" using assms(2) by (simp add: keyed_def)
  have "add_ok e" using assms(1) by (simp add: engine_ok_def)
  then have a: "dafsa_inv d' \<and> rc \<in> {-1, 0, 1} \<and>
     (rc = 1 \<longrightarrow> encodeKey t \<notin> dwords d \<and> dwords d' = insert (encodeKey t) (dwords d)) \<and>
     (rc = 0 \<longrightarrow> encodeKey t \<in> dwords d \<and> dwords d' = dwords d) \<and> (rc = -1 \<longrightarrow> dwords d' = dwords d)"
    using inv key_short [OF assms(3,4)] assms(5) unfolding add_ok_def by blast
  then have cases: "rc = 1 \<or> rc = 0 \<or> rc = -1" by blast
  show "keyed arity d'"
    using a cases assms(2,3) by (auto simp: keyed_def)
  show "add_result (dtuples arity d) t rc (dtuples arity d')"
    using cases
  proof (elim disjE)
    assume "rc = 1"
    then show ?thesis
      using a dtuples_insert [OF assms(3)] by (simp add: add_result_def in_dtuples [OF assms(3)])
  qed (use a dtuples_keyed_eq [of d' d] in \<open>simp_all add: add_result_def in_dtuples [OF assms(3)]\<close>)
qed

lemma delete_n_ok:
  assumes "engine_ok e" "keyed arity d" "length t = arity" "arity \<le> MAX_ARITY"
    "dafsa_delete_n e d (encodeKey t) = (rc, d')"
  shows "keyed arity d'" "delete_result (dtuples arity d) t rc (dtuples arity d')"
proof -
  have inv: "dafsa_inv d" using assms(2) by (simp add: keyed_def)
  have "delete_ok e" using assms(1) by (simp add: engine_ok_def)
  then have a: "dafsa_inv d' \<and> rc \<in> {-1, 0, 1} \<and>
     (rc = 1 \<longrightarrow> encodeKey t \<in> dwords d \<and> dwords d' = dwords d - {encodeKey t}) \<and>
     (rc = 0 \<longrightarrow> encodeKey t \<notin> dwords d \<and> dwords d' = dwords d) \<and> (rc = -1 \<longrightarrow> dwords d' = dwords d)"
    using inv key_short [OF assms(3,4)] assms(5) unfolding delete_ok_def by blast
  then have cases: "rc = 1 \<or> rc = 0 \<or> rc = -1" by blast
  show "keyed arity d'"
    using a cases assms(2,3) by (auto simp: keyed_def)
  show "delete_result (dtuples arity d) t rc (dtuples arity d')"
    using cases
  proof (elim disjE)
    assume "rc = 1"
    then show ?thesis
      using a dtuples_remove [OF assms(3)] by (simp add: delete_result_def in_dtuples [OF assms(3)])
  qed (use a dtuples_keyed_eq [of d' d] in \<open>simp_all add: delete_result_def in_dtuples [OF assms(3)]\<close>)
qed

lemma lookup_ok:
  "\<lbrakk>engine_ok e; keyed arity d; length t = arity\<rbrakk> \<Longrightarrow>
     dafsa_lookup_n e d (encodeKey t) = (if t \<in> dtuples arity d then 1 else 0)"
  by (simp add: engine_ok_def read_ok_def keyed_def in_dtuples)

subsection \<open>Writes\<close>

definition updates :: "nat \<Rightarrow> (dafsa option \<Rightarrow> int \<times> dafsa option) \<Rightarrow> (tuple set \<Rightarrow> int \<Rightarrow> tuple set \<Rightarrow> bool) \<Rightarrow> bool" where
  "updates arity f P \<longleftrightarrow> (\<forall>d. keyed arity d \<longrightarrow>
     (\<exists>rc d'. f (Some d) = (rc, Some d') \<and> keyed arity d' \<and> P (dtuples arity d) rc (dtuples arity d')))"

lemma updatesE:
  assumes "updates arity f P" "keyed arity d"
  obtains rc d' where "f (Some d) = (rc, Some d')" "keyed arity d'" "P (dtuples arity d) rc (dtuples arity d')"
  using assms(1) [unfolded updates_def, rule_format, OF assms(2)] by (elim exE conjE)

lemma updates_add:
  "\<lbrakk>engine_ok e; length t = arity; arity \<le> MAX_ARITY\<rbrakk> \<Longrightarrow>
     updates arity (\<lambda>d. relAddD e d t) (\<lambda>V. add_result V t)"
  unfolding updates_def relAddD_def by (auto split: prod.split intro: add_n_ok)

lemma updates_delete:
  "\<lbrakk>engine_ok e; length t = arity; arity \<le> MAX_ARITY\<rbrakk> \<Longrightarrow>
     updates arity (\<lambda>d. relDeleteD e d t) (\<lambda>V. delete_result V t)"
  unfolding updates_def relDeleteD_def by (auto split: prod.split intro: delete_n_ok)

lemma owned_cases:
  assumes "rel_ok e fs r" "r_state r = Owned"
  obtains d where "r_d r = Some d" "keyed (r_arity r) d" "rel_dset e fs r = dtuples (r_arity r) d"
    "\<forall>b. r_base r = Some b \<longrightarrow> keyed (r_arity r) b \<and> rel_base e fs r = dtuples (r_arity r) b"
    "r_base r = None \<longrightarrow> rel_base e fs r = dtuples (r_arity r) d" "rel_is_idb r \<longleftrightarrow> r_base r \<noteq> None"
  using assms by (auto simp: rel_ok_def owned_ok_def rel_dset_def rel_base_def mem_tuples_def base_of_def rel_is_idb_def)

text \<open>Replacing the automata of an owned relation by automata of keys keeps the invariant.\<close>

lemma rel_ok_replace:
  assumes "rel_ok e fs r" "r_state r = Owned" "keyed (r_arity r) d" "\<And>b. bopt = Some b \<Longrightarrow> keyed (r_arity r) b"
  shows "rel_ok e fs (r\<lparr>r_d := Some d, r_base := bopt\<rparr>)"
  using assms by (auto simp: rel_ok_def owned_ok_def)

lemma rel_ok_mutated [simp]: "rel_ok e fs (mutated r) = rel_ok e fs r"
  by (cases "r_state r")
    (simp_all add: mutated_def rel_touch_def rel_ok_def owned_ok_def unloaded_ok_def viewOverlayClean_def wal_pending_def)

lemma content_mutated [simp]:
  "rel_dset e fs (mutated r) = rel_dset e fs r" "rel_base e fs (mutated r) = rel_base e fs r"
  "rel_is_idb (mutated r) = rel_is_idb r" "r_state (mutated r) = r_state r" "r_arity (mutated r) = r_arity r"
  "r_ov (mutated r) = r_ov r" "r_wal (mutated r) = r_wal r" "r_col_kind (mutated r) = r_col_kind r"
  "r_dirty (mutated r)" "r_rev (mutated r) = r_rev r + 1" "r_d (mutated r) = r_d r" "r_base (mutated r) = r_base r"
  "r_wal_path (mutated r) = r_wal_path r"
  by (simp_all add: mutated_def rel_touch_def rel_dset_def rel_base_def base_of_def rel_is_idb_def
      split: option.splits read_state.splits)

lemma frame_mutated:
  assumes "same_relation e fs r r1" "r_arity r2 = r_arity r1" "r_ov r2 = r_ov r1" "rel_is_idb r2 = rel_is_idb r1"
    "r_wal r2 = r_wal r1" "r_col_kind r2 = r_col_kind r1" "r_dirty r2 = r_dirty r1" "r_rev r2 = r_rev r1"
  shows "write_frame rc r (if rc > 0 then mutated r2 else r2)"
  using assms by (simp add: write_frame_def same_relation_def)

lemma write_view_ok:
  assumes "engine_ok e" "dafsa_create e \<noteq> None" "rel_ok e fs r" "updates (r_arity r) f P"
  obtains rc r' where "write_view f e fs r = (rc, r')" "rel_ok e fs r'" "r_state r' = Owned"
    "view_write_spec P e fs r (rc, r')"
proof -
  obtain r1 where r1: "relEnsureOwned e fs r = (True, r1)" "rel_ok e fs r1" "r_state r1 = Owned" "same_relation e fs r r1"
    by (rule ensure_owned_ok [OF assms(1-3)])
  obtain d where d: "r_d r1 = Some d" "keyed (r_arity r1) d" "rel_dset e fs r1 = dtuples (r_arity r1) d"
    "\<forall>b. r_base r1 = Some b \<longrightarrow> keyed (r_arity r1) b \<and> rel_base e fs r1 = dtuples (r_arity r1) b"
    "rel_is_idb r1 \<longleftrightarrow> r_base r1 \<noteq> None"
    by (rule owned_cases [OF r1(2,3)]) blast
  have ar: "r_arity r1 = r_arity r" using r1(4) by (simp add: same_relation_def)
  obtain rc d' where f: "f (Some d) = (rc, Some d')" "keyed (r_arity r1) d'"
    "P (dtuples (r_arity r1) d) rc (dtuples (r_arity r1) d')"
    using updatesE [OF assms(4), folded ar, OF d(2)] by metis
  let ?r2 = "r1\<lparr>r_d := Some d'\<rparr>"
  have ok2: "rel_ok e fs ?r2" using rel_ok_replace [OF r1(2,3) f(2), of "r_base r1"] d(4) by simp
  have "rel_dset e fs ?r2 = dtuples (r_arity r1) d'" "rel_is_idb ?r2 = rel_is_idb r1"
    "rel_base e fs ?r2 = (if rel_is_idb r1 then rel_base e fs r1 else dtuples (r_arity r1) d')"
    using r1(3) d(4,5) by (auto simp: rel_dset_def rel_base_def mem_tuples_def base_of_def rel_is_idb_def split: option.splits)
  moreover have same: "rel_dset e fs r = dtuples (r_arity r1) d" "rel_is_idb r = rel_is_idb r1" "rel_base e fs r = rel_base e fs r1"
    using d(3) r1(4) unfolding same_relation_def by metis+
  ultimately have "view_write_spec P e fs r (rc, if rc > 0 then mutated ?r2 else ?r2)"
    using f(3) same frame_mutated [OF r1(4), of ?r2 rc]
    by (simp add: view_write_spec_def)
  moreover have "write_view f e fs r = (rc, if rc > 0 then mutated ?r2 else ?r2)"
    using r1(1) d(1) f(1) by (simp add: write_view_def Let_def)
  moreover have "r_state (if rc > 0 then mutated ?r2 else ?r2) = Owned" using r1(3) by simp
  ultimately show thesis using that ok2 by (metis rel_ok_mutated)
qed

lemma write_base_ok:
  assumes "engine_ok e" "dafsa_create e \<noteq> None" "rel_ok e fs r" "updates (r_arity r) f P"
  obtains rc r' where "write_base f e fs r = (rc, r')" "rel_ok e fs r'" "r_state r' = Owned"
    "base_write_spec P e fs r (rc, r')"
proof -
  obtain r1 where r1: "relEnsureOwned e fs r = (True, r1)" "rel_ok e fs r1" "r_state r1 = Owned" "same_relation e fs r r1"
    by (rule ensure_owned_ok [OF assms(1-3)])
  have ar: "r_arity r1 = r_arity r" using r1(4) by (simp add: same_relation_def)
  obtain d where d: "r_d r1 = Some d" "keyed (r_arity r1) d" "rel_dset e fs r1 = dtuples (r_arity r1) d"
    "\<forall>b. r_base r1 = Some b \<longrightarrow> keyed (r_arity r1) b \<and> rel_base e fs r1 = dtuples (r_arity r1) b"
    "r_base r1 = None \<longrightarrow> rel_base e fs r1 = dtuples (r_arity r1) d" "rel_is_idb r1 \<longleftrightarrow> r_base r1 \<noteq> None"
    by (rule owned_cases [OF r1(2,3)]) (rule that; assumption)
  obtain b where b: "base_of r1 = Some b" "keyed (r_arity r1) b" "rel_base e fs r1 = dtuples (r_arity r1) b"
  proof (cases "r_base r1")
    case None
    then show ?thesis using d(1,2,5) by (intro that [of d]) (simp_all add: base_of_def)
  next
    case (Some b)
    then show ?thesis using d(4) by (intro that [of b]) (simp_all add: base_of_def)
  qed
  obtain rc b' where f: "f (Some b) = (rc, Some b')" "keyed (r_arity r1) b'"
    "P (dtuples (r_arity r1) b) rc (dtuples (r_arity r1) b')"
    using updatesE [OF assms(4), folded ar, OF b(2)] by metis
  let ?r2 = "set_base b' r1"
  have ok2: "rel_ok e fs ?r2"
  proof (cases "r_base r1")
    case None
    then have "rel_ok e fs (r1\<lparr>r_d := Some b', r_base := r_base r1\<rparr>)"
      by (intro rel_ok_replace [OF r1(2,3) f(2)]) simp
    with None show ?thesis by (cases r1) (simp add: set_base_def)
  next
    case (Some b0)
    have "rel_ok e fs (r1\<lparr>r_d := Some d, r_base := Some b'\<rparr>)"
      by (intro rel_ok_replace [OF r1(2,3) d(2)]) (simp add: f(2))
    with Some d(1) show ?thesis by (cases r1) (simp add: set_base_def)
  qed
  have "rel_base e fs ?r2 = dtuples (r_arity r1) b'" "rel_is_idb ?r2 = rel_is_idb r1"
    "rel_dset e fs ?r2 = (if rel_is_idb r1 then rel_dset e fs r1 else dtuples (r_arity r1) b')"
    using r1(3) d by (auto simp: rel_dset_def rel_base_def mem_tuples_def base_of_def rel_is_idb_def set_base_def)
  moreover have same: "rel_base e fs r = dtuples (r_arity r1) b" "rel_is_idb r = rel_is_idb r1" "rel_dset e fs r = rel_dset e fs r1"
    using b(3) r1(4) unfolding same_relation_def by metis+
  moreover have "r_state ?r2 = Owned" "r_arity ?r2 = r_arity r1" "r_ov ?r2 = r_ov r1" "r_wal ?r2 = r_wal r1"
    "r_col_kind ?r2 = r_col_kind r1" "r_dirty ?r2 = r_dirty r1" "r_rev ?r2 = r_rev r1"
    using r1(3) by (simp_all add: set_base_def)
  ultimately have "base_write_spec P e fs r (rc, if rc > 0 then mutated ?r2 else ?r2)"
    using f(3) same frame_mutated [OF r1(4), of ?r2 rc]
    by (simp add: base_write_spec_def)
  moreover have "write_base f e fs r = (rc, if rc > 0 then mutated ?r2 else ?r2)"
    using r1(1) b(1) f(1) by (simp add: write_base_def Let_def)
  moreover have "r_state (if rc > 0 then mutated ?r2 else ?r2) = Owned" using \<open>r_state ?r2 = Owned\<close> by simp
  ultimately show thesis using that ok2 by (metis rel_ok_mutated)
qed

subsection \<open>The overlay\<close>

definition adds_succeed :: "engine \<Rightarrow> bool" where
  "adds_succeed e \<longleftrightarrow> (\<forall>d k. fst (dafsa_add_n e d k) \<ge> 0)"

text \<open>
  The view as the code enumerates it: the rows of its automaton in order, then what is pending in the overlay in the
  order it came.  Nothing is pending after the overlay was folded in, which needs additions to succeed; where it
  could not be, the contract is for a callback that takes every row.
\<close>

definition view_prefix_spec :: "engine \<Rightarrow> tuple set \<Rightarrow> tuple \<Rightarrow> 's enum_cb \<Rightarrow> 's \<Rightarrow> int \<times> 's \<Rightarrow> bool" where
  "view_prefix_spec e R bound cb s res \<longleftrightarrow>
     (\<exists>D pending. D \<union> set pending = R \<and> distinct pending \<and> (adds_succeed e \<longrightarrow> pending = []) \<and>
       (let ts = sorted_list_of_set (matching D bound) @ filter (\<lambda>t. take (length bound) t = bound) pending in
        pending = [] \<or> takes_all cb ts s \<longrightarrow> res = (case deliver cb ts s of (n, s') \<Rightarrow> (int n, s'))))"

lemma view_prefix_spec_sorted: "adds_succeed e \<Longrightarrow> view_prefix_spec e R b cb s res \<longleftrightarrow> prefix_spec R b cb s res"
  by (auto simp: view_prefix_spec_def prefix_spec_def Let_def)

text \<open>\<open>grows rows rc S S'\<close>: some of the rows went in, all of them when the result code is 0.\<close>

definition grows :: "tuple list \<Rightarrow> int \<Rightarrow> tuple set \<Rightarrow> tuple set \<Rightarrow> bool" where
  "grows rows rc S S' \<longleftrightarrow> S \<subseteq> S' \<and> S' \<subseteq> S \<union> set rows \<and> (rc = 0 \<longrightarrow> S' = S \<union> set rows)"

lemma add_result_grows: "add_result V t rc V' \<Longrightarrow> V \<subseteq> V' \<and> V' \<subseteq> insert t V \<and> (rc \<ge> 0 \<longrightarrow> V' = insert t V)"
  by (auto simp: add_result_def)

definition folded :: "engine \<Rightarrow> tuple list \<Rightarrow> relation \<Rightarrow> int \<Rightarrow> relation \<Rightarrow> bool" where
  "folded e rows r rc r' \<longleftrightarrow> owned_ok r' \<and> rc \<in> {0, -1} \<and> (adds_succeed e \<longrightarrow> rc = 0) \<and>
     r' = r\<lparr>r_d := r_d r', r_base := r_base r'\<rparr> \<and> (r_base r' = None \<longleftrightarrow> r_base r = None) \<and>
     grows rows rc (mem_tuples (r_arity r) (r_d r)) (mem_tuples (r_arity r) (r_d r')) \<and>
     (r_base r \<noteq> None \<longrightarrow> grows rows rc (mem_tuples (r_arity r) (r_base r)) (mem_tuples (r_arity r) (r_base r')))"

lemma grows_step: "\<lbrakk>grows rows rc S1 S'; S1 = insert t S\<rbrakk> \<Longrightarrow> grows (t # rows) rc S S'"
  by (auto simp: grows_def)

lemma folded_step:
  assumes "folded e rows (r\<lparr>r_d := x, r_base := y\<rparr>) rc r'" "y = None \<longleftrightarrow> r_base r = None"
    "mem_tuples (r_arity r) x = insert t (mem_tuples (r_arity r) (r_d r))"
    "r_base r \<noteq> None \<Longrightarrow> mem_tuples (r_arity r) y = insert t (mem_tuples (r_arity r) (r_base r))"
  shows "folded e (t # rows) r rc r'"
  using assms unfolding folded_def by (auto intro: grows_step)

lemma ov_fold_ok:
  assumes "engine_ok e" "r_arity r \<le> MAX_ARITY" "owned_ok r" "\<forall>row \<in> set rows. length row = r_arity r"
  shows "\<exists>rc r'. ov_fold e rows r = (rc, r') \<and> folded e rows r rc r'"
  using assms(2-4)
proof (induction rows arbitrary: r)
  case Nil
  then show ?case by (auto simp: folded_def grows_def)
next
  case (Cons t rows)
  let ?a = "r_arity r"
  obtain d where d: "r_d r = Some d" "keyed ?a d" using Cons.prems(2) by (auto simp: owned_ok_def)
  obtain rc d' where add: "dafsa_add_n e d (encodeKey t) = (rc, d')" by fastforce
  have t: "length t = ?a" using Cons.prems(3) by simp
  have a: "keyed ?a d'" "add_result (dtuples ?a d) t rc (dtuples ?a d')"
    by (rule add_n_ok [OF assms(1) d(2) t Cons.prems(1) add])+
  have succ: "adds_succeed e \<longrightarrow> rc \<ge> 0" using add by (metis adds_succeed_def fst_conv)
  have D: "relAddD e (r_d r) t = (rc, Some d')" using d add by (simp add: relAddD_def)
  show ?case
  proof (cases "rc < 0")
    case True
    have "folded e (t # rows) r (-1) (r\<lparr>r_d := Some d'\<rparr>)"
      using Cons.prems(2) a d True succ add_result_grows [OF a(2)]
      by (auto simp: folded_def owned_ok_def grows_def mem_tuples_def)
    with True D show ?thesis by (simp add: Let_def)
  next
    case False
    then have D': "dtuples ?a d' = insert t (dtuples ?a d)" using add_result_grows [OF a(2)] by simp
    show ?thesis
    proof (cases "r_base r")
      case None
      let ?r1 = "r\<lparr>r_d := Some d', r_base := None\<rparr>"
      have "owned_ok ?r1" using Cons.prems(2) a(1) by (simp add: owned_ok_def)
      then obtain rc2 r2 where r2: "ov_fold e rows ?r1 = (rc2, r2)" "folded e rows ?r1 rc2 r2"
        using Cons.IH [of ?r1] Cons.prems(1,3) by auto
      have "folded e (t # rows) r rc2 r2"
        by (rule folded_step [OF r2(2)]) (use D' None d(1) in \<open>simp_all add: mem_tuples_def\<close>)
      moreover have eq: "r\<lparr>r_d := Some d'\<rparr> = ?r1" using None by (cases r) simp
      have "ov_fold e rows (r\<lparr>r_d := Some d'\<rparr>) = (rc2, r2)" by (subst eq) (rule r2(1))
      ultimately show ?thesis using False D None by (simp add: Let_def)
    next
      case (Some b)
      have kb: "keyed ?a b" using Cons.prems(2) Some by (simp add: owned_ok_def)
      obtain rcb b' where addb: "dafsa_add_n e b (encodeKey t) = (rcb, b')" by fastforce
      have bb: "keyed ?a b'" "add_result (dtuples ?a b) t rcb (dtuples ?a b')"
        by (rule add_n_ok [OF assms(1) kb t Cons.prems(1) addb])+
      have succb: "adds_succeed e \<longrightarrow> rcb \<ge> 0" using addb by (metis adds_succeed_def fst_conv)
      let ?r2 = "r\<lparr>r_d := Some d', r_base := Some b'\<rparr>"
      have ok2: "owned_ok ?r2" using Cons.prems(2) a(1) bb(1) by (simp add: owned_ok_def)
      show ?thesis
      proof (cases "rcb < 0")
        case True
        have "folded e (t # rows) r (-1) ?r2"
          using ok2 Some d True succb D' add_result_grows [OF bb(2)]
          by (auto simp: folded_def grows_def mem_tuples_def)
        with True False D Some addb show ?thesis by (simp add: Let_def)
      next
        case rcb: False
        obtain rc2 r3 where "ov_fold e rows ?r2 = (rc2, r3)" "folded e rows ?r2 rc2 r3"
          using Cons.IH [of ?r2] Cons.prems(1,3) ok2 by auto
        moreover have "dtuples ?a b' = insert t (dtuples ?a b)" using add_result_grows [OF bb(2)] rcb by simp
        ultimately show ?thesis
          using folded_step [where e = e and rows = rows and r = r and x = "Some d'" and y = "Some b'" and rc = rc2 and r' = r3 and t = t] False rcb D D' Some addb d(1)
          by (simp add: Let_def mem_tuples_def)
      qed
    qed
  qed
qed

lemma ov_wf: "rel_ok e fs r \<Longrightarrow> r_ov r = Some ov \<Longrightarrow> ts_inv ov \<and> ts_arity ov = r_arity r"
  by (simp add: rel_ok_def)

lemma ov_lengths: "ts_inv ov \<Longrightarrow> \<forall>row \<in> set (ts_data ov). length row = ts_arity ov"
  by (simp add: ts_inv_def)

lemma rel_ok_ov:
  "\<lbrakk>rel_ok e fs r; r_state r = Owned; ts_inv ov; ts_arity ov = r_arity r\<rbrakk> \<Longrightarrow> rel_ok e fs (r\<lparr>r_ov := Some ov\<rparr>)"
  by (simp add: rel_ok_def owned_ok_def)

lemma content_ov [simp]:
  "rel_dset e fs (r\<lparr>r_ov := ov\<rparr>) = rel_dset e fs r" "rel_base e fs (r\<lparr>r_ov := ov\<rparr>) = rel_base e fs r"
  "rel_is_idb (r\<lparr>r_ov := ov\<rparr>) = rel_is_idb r"
  "rel_dset e fs (r\<lparr>r_ov_dirty := n\<rparr>) = rel_dset e fs r" "rel_base e fs (r\<lparr>r_ov_dirty := n\<rparr>) = rel_base e fs r"
  "rel_is_idb (r\<lparr>r_ov_dirty := n\<rparr>) = rel_is_idb r"
  "rel_ok e fs (r\<lparr>r_ov_dirty := n\<rparr>) = rel_ok e fs r"
  by (simp_all add: rel_dset_def rel_base_def base_of_def rel_is_idb_def rel_ok_def owned_ok_def unloaded_ok_def
      viewOverlayClean_def wal_pending_def cong: option.case_cong read_state.case_cong)

definition flush_spec :: "engine \<Rightarrow> files \<Rightarrow> relation \<Rightarrow> int \<times> relation \<Rightarrow> bool" where
  "flush_spec e fs r res \<longleftrightarrow> (case res of (rc, r') \<Rightarrow>
     rc \<in> {0, -1} \<and> rel_view e fs r' = rel_view e fs r \<and>
     rel_base e fs r \<subseteq> rel_base e fs r' \<and> rel_base e fs r' \<subseteq> rel_base e fs r \<union> ov_rows r \<and>
     rel_is_idb r' = rel_is_idb r \<and> r_arity r' = r_arity r \<and> r_wal r' = r_wal r \<and> r_wal_path r' = r_wal_path r \<and>
     (rc = 0 \<longrightarrow> ov_rows r' = {} \<and> rel_dset e fs r' = rel_view e fs r \<and>
        rel_base e fs r' = rel_base e fs r \<union> ov_rows r) \<and>
     (rc \<noteq> 0 \<longrightarrow> r_ov r' = r_ov r))"

lemma fold_content:
  assumes "rel_ok e fs r" "r_state r = Owned" "folded e rows r rc r'"
  shows "rel_ok e fs r'" "r_state r' = Owned" "grows rows rc (rel_dset e fs r) (rel_dset e fs r')"
    "grows rows rc (rel_base e fs r) (rel_base e fs r')" "rel_is_idb r' = rel_is_idb r" "r_ov r' = r_ov r"
    "r_arity r' = r_arity r" "r_wal r' = r_wal r" "r_wal_path r' = r_wal_path r"
proof -
  have eq: "r' = r\<lparr>r_d := r_d r', r_base := r_base r'\<rparr>" and ow: "owned_ok r'"
    and nb: "r_base r' = None \<longleftrightarrow> r_base r = None"
    and gd: "grows rows rc (mem_tuples (r_arity r) (r_d r)) (mem_tuples (r_arity r) (r_d r'))"
    and gb: "r_base r \<noteq> None \<Longrightarrow> grows rows rc (mem_tuples (r_arity r) (r_base r)) (mem_tuples (r_arity r) (r_base r'))"
    using assms(3) unfolding folded_def by blast+
  show f: "r_state r' = Owned" "r_ov r' = r_ov r" "r_arity r' = r_arity r" "r_wal r' = r_wal r"
    "r_wal_path r' = r_wal_path r"
    using assms(2) by (subst eq; simp)+
  have "r_col_kind r' = r_col_kind r" by (subst eq) simp
  then show "rel_ok e fs r'" using assms(1) ow f by (simp add: rel_ok_def)
  show "rel_is_idb r' = rel_is_idb r" using assms(2) f(1) nb by (simp add: rel_is_idb_def)
  show "grows rows rc (rel_dset e fs r) (rel_dset e fs r')"
    using assms(2) f gd by (simp add: rel_dset_def)
  show "grows rows rc (rel_base e fs r) (rel_base e fs r')"
    using assms(2) f nb gd gb by (cases "r_base r"; cases "r_base r'") (simp_all add: rel_base_def base_of_def)
qed

lemma flush_ok:
  assumes "engine_ok e" "dafsa_create e \<noteq> None" "rel_ok e fs r"
  obtains rc r' where "rel_overlay_flush e fs r = (rc, r')" "rel_ok e fs r'" "flush_spec e fs r (rc, r')"
    "adds_succeed e \<longrightarrow> rc = 0" "r_state r = Owned \<longrightarrow> r_state r' = Owned"
proof (cases "r_ov r")
  case None
  then show ?thesis
    using assms(3) by (intro that [of 0 r]) (auto simp: rel_overlay_flush_def flush_spec_def ov_rows_def rel_view_def)
next
  case (Some ov)
  have ov: "ts_inv ov" "ts_arity ov = r_arity r" using ov_wf [OF assms(3) Some] by auto
  have reset: "ts_inv (ts_reset ov)" "ts_rows (ts_reset ov) = {}" "ts_arity (ts_reset ov) = r_arity r"
    using ts_reset_ok [OF ov(1)] ov(2) by (simp_all add: reset_spec_def)
  show ?thesis
  proof (cases "ts_count ov = 0")
    case True
    let ?r' = "r\<lparr>r_ov := Some (ts_reset ov)\<rparr>"
    have e0: "ts_rows ov = {}" using True by (simp add: ts_count_def ts_rows_def)
    have "rel_ok e fs ?r'"
      using assms(3) reset True Some
      by (cases "r_state r") (auto simp: rel_ok_def owned_ok_def unloaded_ok_def viewOverlayClean_def wal_pending_def
          ts_count_def ts_reset_def)
    then show ?thesis
      using Some True e0 reset by (intro that [of 0 ?r'])
        (auto simp: rel_overlay_flush_def flush_spec_def ov_rows_def rel_view_def)
  next
    case False
    obtain r1 where r1: "relEnsureOwned e fs r = (True, r1)" "rel_ok e fs r1" "r_state r1 = Owned" "same_relation e fs r r1"
      by (rule ensure_owned_ok [OF assms])
    have s: "rel_dset e fs r1 = rel_dset e fs r" "rel_base e fs r1 = rel_base e fs r" "r_ov r1 = r_ov r"
      "rel_is_idb r1 = rel_is_idb r" "r_arity r1 = r_arity r" "r_wal r1 = r_wal r" "r_wal_path r1 = r_wal_path r"
      using r1(4) by (simp_all add: same_relation_def)
    have ow: "owned_ok r1" "r_arity r1 \<le> MAX_ARITY" using r1(2,3) by (simp_all add: rel_ok_def)
    have "\<forall>row \<in> set (ts_data ov). length row = r_arity r1" using ov_lengths [OF ov(1)] ov(2) s(5) by simp
    from ov_fold_ok [OF assms(1) ow(2,1) this]
    obtain rc r2 where r2: "ov_fold e (ts_data ov) r1 = (rc, r2)" "folded e (ts_data ov) r1 rc r2"
      by (elim exE conjE)
    note c = fold_content [OF r1(2,3) r2(2)]
    have rows: "ov_rows r = set (ts_data ov)" using Some by (simp add: ov_rows_def ts_rows_def)
    have rc: "rc \<in> {0, -1}" "adds_succeed e \<longrightarrow> rc = 0" using r2(2) by (simp_all add: folded_def)
    show ?thesis
    proof (cases "rc = 0")
      case True
      let ?r' = "(mutated r2)\<lparr>r_ov := Some (ts_reset ov), r_ov_dirty := 0\<rparr>"
      have "rel_ok e fs ?r'" using rel_ok_ov [of e fs "mutated r2" "ts_reset ov"] c reset s(5) by simp
      moreover have "flush_spec e fs r (0, ?r')"
        using c s rows reset True by (auto simp: flush_spec_def grows_def rel_view_def ov_rows_def)
      ultimately show ?thesis
        using r1 r2(1) True False Some c(2) by (intro that [of 0 ?r']) (auto simp: rel_overlay_flush_def)
    next
      case nz: False
      then have "rc = -1" using rc by simp
      moreover have "flush_spec e fs r (-1, r2)"
        using c s rows Some nz \<open>rc = -1\<close> by (auto simp: flush_spec_def grows_def rel_view_def ov_rows_def)
      ultimately show ?thesis
        using r1 r2(1) False Some c rc nz by (intro that [of "-1" r2]) (auto simp: rel_overlay_flush_def)
    qed
  qed
qed

lemma owned_base:
  assumes "rel_ok e fs r" "r_state r = Owned"
  obtains b where "base_of r = Some b" "keyed (r_arity r) b" "rel_base e fs r = dtuples (r_arity r) b"
proof (cases "r_base r")
  case None
  then show ?thesis using assms that by (auto simp: rel_ok_def owned_ok_def base_of_def rel_base_def mem_tuples_def)
next
  case (Some b)
  then show ?thesis using assms that by (auto simp: rel_ok_def owned_ok_def base_of_def rel_base_def mem_tuples_def)
qed

lemma handle_of:
  assumes "engine_ok e" "view_ok_of e fs p v" "disk_ok e fs arity p"
  obtains h d where "v = Some h" "view_of e h d" "keyed arity d" "disk_tuples e fs arity p = dtuples arity d"
proof -
  obtain h where h: "v = Some h" "dafsa_view_open e (file_at fs p) = Some h"
    using assms(2) by (auto simp: view_ok_of_def)
  then obtain d where "dafsa_load e (file_at fs p) = Some d" "view_of e h d"
    using assms(1) by (auto simp: engine_ok_def view_ok_def)
  then show thesis using h(1) assms(3) by (intro that [of h d]) (simp_all add: disk_ok_def disk_tuples_def)
qed

lemma view_handle:
  assumes "engine_ok e" "rel_ok e fs r" "r_state r = View"
  obtains v d where "viewOf r False = Some v" "view_of e v d" "keyed (r_arity r) d"
    "rel_dset e fs r = dtuples (r_arity r) d"
proof (rule handle_of [OF assms(1), of fs "r_on_disk_dafsa r" "r_view_d r" "r_arity r"])
  show "view_ok_of e fs (r_on_disk_dafsa r) (r_view_d r)" "disk_ok e fs (r_arity r) (r_on_disk_dafsa r)"
    using assms(2,3) by (simp_all add: rel_ok_def unloaded_ok_def)
next
  fix h d assume "r_view_d r = Some h" "view_of e h d" "keyed (r_arity r) d"
    "disk_tuples e fs (r_arity r) (r_on_disk_dafsa r) = dtuples (r_arity r) d"
  then show thesis using assms(3) by (intro that [of h d]) (simp_all add: viewOf_def rel_dset_def)
qed

lemma view_base_handle:
  assumes "engine_ok e" "rel_ok e fs r" "r_state r = View"
  obtains v d where "viewOf r True = Some v" "view_of e v d" "keyed (r_arity r) d"
    "rel_base e fs r = dtuples (r_arity r) d"
proof (cases "r_on_disk_base r")
  case None
  then have "r_view_base r = None" using assms(2,3) by (simp add: rel_ok_def)
  moreover have "rel_base e fs r = rel_dset e fs r" using None assms(3) by (simp add: rel_base_def rel_dset_def)
  moreover obtain v d where "viewOf r False = Some v" "view_of e v d" "keyed (r_arity r) d"
    "rel_dset e fs r = dtuples (r_arity r) d" by (rule view_handle [OF assms])
  ultimately show ?thesis by (intro that [of v d]) (simp_all add: viewOf_def)
next
  case (Some p)
  show ?thesis
  proof (rule handle_of [OF assms(1), of fs "r_on_disk_base r" "r_view_base r" "r_arity r"])
    show "view_ok_of e fs (r_on_disk_base r) (r_view_base r)" "disk_ok e fs (r_arity r) (r_on_disk_base r)"
      using assms(2,3) Some by (simp_all add: rel_ok_def unloaded_ok_def)
  next
    fix h d assume "r_view_base r = Some h" "view_of e h d" "keyed (r_arity r) d"
      "disk_tuples e fs (r_arity r) (r_on_disk_base r) = dtuples (r_arity r) d"
    then show thesis using assms(3) Some by (intro that [of h d]) (simp_all add: viewOf_def rel_base_def)
  qed
qed

lemma overlay_add_ok:
  assumes "engine_ok e" "dafsa_create e \<noteq> None" "rel_ok e fs r" "length t = r_arity r"
  obtains rc r' where "rel_overlay_add e al fs t r = Some (rc, r')" "rel_ok e fs r'"
    "add_result (rel_view e fs r) t rc (rel_view e fs r')" "rel_dset e fs r' = rel_dset e fs r"
    "rel_base e fs r' = rel_base e fs r" "rel_is_idb r' = rel_is_idb r" "r_arity r' = r_arity r"
    "r_wal r' = r_wal r" "generous al \<and> rel_overlay_count r < 2 ^ 29 \<longrightarrow> rc \<noteq> -1"
    "ov_rows r' = (if rc = 1 then insert t (ov_rows r) else ov_rows r)"
proof -
  obtain r1 where r1: "relEnsureOwned e fs r = (True, r1)" "rel_ok e fs r1" "r_state r1 = Owned" "same_relation e fs r r1"
    by (rule ensure_owned_ok [OF assms(1-3)])
  have s: "rel_dset e fs r1 = rel_dset e fs r" "rel_base e fs r1 = rel_base e fs r" "r_ov r1 = r_ov r"
    "rel_is_idb r1 = rel_is_idb r" "r_arity r1 = r_arity r" "r_wal r1 = r_wal r"
    using r1(4) by (simp_all add: same_relation_def)
  obtain d where d: "r_d r1 = Some d" "keyed (r_arity r1) d" "rel_dset e fs r1 = dtuples (r_arity r1) d"
    by (rule owned_cases [OF r1(2,3)]) blast
  have look: "relExactD e (r_d r1) t \<noteq> 0 \<longleftrightarrow> t \<in> rel_dset e fs r"
    using lookup_ok [OF assms(1) d(2), of t] assms(4) d(1,3) s by (simp add: relExactD_def)
  have view1: "rel_view e fs r1 = rel_view e fs r" using s by (simp add: rel_view_def ov_rows_def)
  show thesis
  proof (cases "t \<in> rel_dset e fs r")
    case True
    then show ?thesis
      using r1 look s view1
      by (intro that [of 0 r1]) (auto simp: rel_overlay_add_def add_result_def rel_view_def ov_rows_def)
  next
    case nd: False
    show ?thesis
    proof (cases "ovEnsure al r1")
      case None
      have "\<not> generous al"
      proof
        assume "generous al"
        then have "al ''ovEnsure'' 1" by (simp add: generous_def)
        then have "ts_init (r_arity r) = None" using None s(5) by (auto simp: ovEnsure_def split: option.splits)
        then show False using assms(3) by (simp add: ts_init_def rel_ok_def MAX_ARITY_def split: if_splits)
      qed
      with None show ?thesis
        using r1 look nd s view1
        by (intro that [of "-1" r1]) (simp_all add: rel_overlay_add_def add_result_def ov_rows_def)
    next
      case (Some ov)
      have "ts_inv ov \<and> ts_arity ov = r_arity r \<and> ts_rows ov = ov_rows r \<and> ts_count ov = rel_overlay_count r"
      proof (cases "r_ov r")
        case None
        then show ?thesis using Some s ts_init_ok [of "r_arity r"]
          by (auto simp: ovEnsure_def ov_rows_def init_spec_def rel_overlay_count_def ts_rows_def ts_count_def split: if_splits)
      next
        case (Some ov0)
        then show ?thesis using \<open>ovEnsure al r1 = Some ov\<close> s ov_wf [OF assms(3)]
          by (simp add: ovEnsure_def ov_rows_def rel_overlay_count_def)
      qed
      then have ov: "ts_inv ov" "ts_arity ov = r_arity r" "ts_rows ov = ov_rows r" "ts_count ov = rel_overlay_count r"
        by auto
      have len: "length t = ts_arity ov" using assms(4) ov(2) by simp
      have upd: "rel_ok e fs (r1\<lparr>r_ov := Some ov'\<rparr>)" if "ts_inv ov'" "ts_arity ov' = ts_arity ov" for ov'
        using rel_ok_ov [OF r1(2,3)] that ov(2) s(5) by simp
      have view: "rel_view e fs r = rel_dset e fs r \<union> ts_rows ov" using ov(3) by (simp add: rel_view_def)
      show ?thesis
      proof (rule ts_add_inv [OF ov(1) len, of al])
        assume c: "t \<in> ts_rows ov" "ts_add al ov t = Some (0, ov)"
        show ?thesis
          using r1 look nd s Some c upd [OF ov(1)] view ov(3)
          by (intro that [of 0 "r1\<lparr>r_ov := Some ov\<rparr>"])
            (auto simp: rel_overlay_add_def add_result_def rel_view_def ov_rows_def)
      next
        fix ov' assume c: "t \<notin> ts_rows ov" "ts_add al ov t = Some (-1, ov')" "ts_inv ov'"
          "ts_data ov' = ts_data ov" "ts_arity ov' = ts_arity ov" "\<not> (generous al \<and> ts_count ov < 2 ^ 29)"
        have "ts_rows ov' = ts_rows ov" using c(4) by (simp add: ts_rows_def)
        then show ?thesis
          using r1 look nd s Some c upd [OF c(3,5)] view ov(3,4)
          by (intro that [of "-1" "r1\<lparr>r_ov := Some ov'\<rparr>"])
            (auto simp: rel_overlay_add_def add_result_def rel_view_def ov_rows_def)
      next
        fix ov' assume c: "t \<notin> ts_rows ov" "ts_add al ov t = Some (1, ov')" "ts_inv ov'"
          "ts_data ov' = ts_data ov @ [t]" "ts_arity ov' = ts_arity ov"
        have "ts_rows ov' = insert t (ts_rows ov)" using c(4) by (simp add: ts_rows_def)
        then show ?thesis
          using r1 look nd s Some c upd [OF c(3,5)] view ov(3)
          by (intro that [of 1 "mutated (r1\<lparr>r_ov := Some ov', r_ov_dirty := r_ov_dirty r1 + 1\<rparr>)"])
            (auto simp: rel_overlay_add_def add_result_def rel_view_def ov_rows_def)
      qed
    qed
  qed
qed

lemma exact_ok:
  assumes "engine_ok e" "dafsa_create e \<noteq> None" "rel_ok e fs r" "length t = r_arity r"
  obtains r' where "rel_exact e fs t r = Some (if t \<in> rel_view e fs r then 1 else 0, r')" "rel_ok e fs r'"
    "same_relation e fs r r'"
proof -
  obtain r1 where r1: "relEnsureReadable e fs r = (True, r1)" "rel_ok e fs r1" "r_state r1 \<noteq> Deferred" "same_relation e fs r r1"
    by (rule ensure_readable_ok [OF assms(1-3)])
  have s: "rel_dset e fs r1 = rel_dset e fs r" "r_ov r1 = r_ov r" "r_arity r1 = r_arity r"
    using r1(4) by (simp_all add: same_relation_def)
  let ?found = "if t \<in> rel_dset e fs r then 1 else 0 :: int"
  have "(if r_state r1 = View then viewExactD e r1 False t else Some (relExactD e (r_d r1) t)) = Some ?found"
  proof (cases "r_state r1")
    case View
    obtain v d where v: "viewOf r1 False = Some v" "view_of e v d" "keyed (r_arity r1) d"
      "rel_dset e fs r1 = dtuples (r_arity r1) d" by (rule view_handle [OF assms(1) r1(2) View])
    then have "viewExactD e r1 False t = Some (dafsa_lookup_n e d (encodeKey t))"
      by (simp add: viewExactD_def view_of_def)
    with View v lookup_ok [OF assms(1) v(3)] assms(4) s show ?thesis by simp
  next
    case Owned
    obtain d where "r_d r1 = Some d" "keyed (r_arity r1) d" "rel_dset e fs r1 = dtuples (r_arity r1) d"
      by (rule owned_cases [OF r1(2) Owned]) blast
    with Owned lookup_ok [OF assms(1), of "r_arity r1" d t] assms(4) s show ?thesis by (simp add: relExactD_def)
  qed (use r1(3) in simp)
  moreover have "ts_contains ov t = Some (t \<in> ts_rows ov)" if "r_ov r1 = Some ov" for ov
    using ov_wf [OF r1(2) that] by (simp add: ts_contains_inv)
  moreover have "ts_count ov = 0 \<Longrightarrow> ts_rows ov = {}" for ov by (simp add: ts_count_def ts_rows_def)
  ultimately have "rel_exact e fs t r = Some (if t \<in> rel_view e fs r then 1 else 0, r1)"
    using r1(1) s by (auto simp: rel_exact_def rel_view_def ov_rows_def split: option.splits)
  then show thesis using that r1 by blast
qed

lemma exact_base_ok:
  assumes "engine_ok e" "dafsa_create e \<noteq> None" "rel_ok e fs r" "length t = r_arity r"
  obtains r' where "rel_exact_base e fs t r = Some (if t \<in> rel_base e fs r then 1 else 0, r')" "rel_ok e fs r'"
    "same_relation e fs r r'"
proof -
  obtain r1 where r1: "relEnsureReadable e fs r = (True, r1)" "rel_ok e fs r1" "r_state r1 \<noteq> Deferred" "same_relation e fs r r1"
    by (rule ensure_readable_ok [OF assms(1-3)])
  have s: "rel_base e fs r1 = rel_base e fs r" "r_arity r1 = r_arity r"
    using r1(4) by (simp_all add: same_relation_def)
  have "rel_exact_base e fs t r = Some (if t \<in> rel_base e fs r then 1 else 0, r1)"
  proof (cases "r_state r1")
    case View
    obtain v d where v: "viewOf r1 True = Some v" "view_of e v d" "keyed (r_arity r1) d"
      "rel_base e fs r1 = dtuples (r_arity r1) d" by (rule view_base_handle [OF assms(1) r1(2) View])
    then have "viewExactD e r1 True t = Some (dafsa_lookup_n e d (encodeKey t))"
      by (simp add: viewExactD_def view_of_def)
    with View v lookup_ok [OF assms(1) v(3)] assms(4) s r1(1) show ?thesis by (simp add: rel_exact_base_def)
  next
    case Owned
    obtain d where "base_of r1 = Some d" "keyed (r_arity r1) d" "rel_base e fs r1 = dtuples (r_arity r1) d"
      by (rule owned_base [OF r1(2) Owned])
    with Owned lookup_ok [OF assms(1), of "r_arity r1" d t] assms(4) s r1(1)
    show ?thesis by (simp add: rel_exact_base_def relExactD_def)
  qed (use r1(3) in simp)
  then show thesis using that r1 by blast
qed

subsection \<open>Enumeration\<close>

lemma consolidate_ok:
  assumes "engine_ok e" "dafsa_create e \<noteq> None" "adds_succeed e" "rel_ok e fs r" "r_state r = Owned"
  shows "rel_ok e fs (ovConsolidateForRead e fs r)" "r_state (ovConsolidateForRead e fs r) = Owned"
    "rel_dset e fs (ovConsolidateForRead e fs r) = rel_view e fs r" "ov_rows (ovConsolidateForRead e fs r) = {}"
    "r_arity (ovConsolidateForRead e fs r) = r_arity r"
    "rel_view e fs (ovConsolidateForRead e fs r) = rel_view e fs r"
    "rel_is_idb (ovConsolidateForRead e fs r) = rel_is_idb r"
proof -
  obtain rc r' where f: "rel_overlay_flush e fs r = (rc, r')" "rel_ok e fs r'" "flush_spec e fs r (rc, r')"
    "adds_succeed e \<longrightarrow> rc = 0" "r_state r = Owned \<longrightarrow> r_state r' = Owned"
    by (rule flush_ok [OF assms(1,2,4)])
  have c: "ovConsolidateForRead e fs r = (if ov_rows r = {} then r else r')"
    using f(1) by (auto simp: ovConsolidateForRead_def ov_rows_def ts_rows_def ts_count_def split: option.splits)
  have "rel_ok e fs (ovConsolidateForRead e fs r) \<and> r_state (ovConsolidateForRead e fs r) = Owned \<and>
    rel_dset e fs (ovConsolidateForRead e fs r) = rel_view e fs r \<and> ov_rows (ovConsolidateForRead e fs r) = {} \<and>
    r_arity (ovConsolidateForRead e fs r) = r_arity r \<and> rel_view e fs (ovConsolidateForRead e fs r) = rel_view e fs r \<and>
    rel_is_idb (ovConsolidateForRead e fs r) = rel_is_idb r"
    using f assms(3-5) by (auto simp: c flush_spec_def rel_view_def)
  then show "rel_ok e fs (ovConsolidateForRead e fs r)" "r_state (ovConsolidateForRead e fs r) = Owned"
    "rel_dset e fs (ovConsolidateForRead e fs r) = rel_view e fs r" "ov_rows (ovConsolidateForRead e fs r) = {}"
    "r_arity (ovConsolidateForRead e fs r) = r_arity r"
    "rel_view e fs (ovConsolidateForRead e fs r) = rel_view e fs r"
    "rel_is_idb (ovConsolidateForRead e fs r) = rel_is_idb r" by blast+
qed

lemma until_count: "until (hand_out cb) ts (m, s) = (case until (hand_out cb) ts (0, s) of (stop, n, s') \<Rightarrow> (stop, m + n, s'))"
proof (induction ts arbitrary: m s)
  case (Cons t ts)
  obtain rc s1 where c: "cb t s = (rc, s1)" by fastforce
  show ?case using Cons.IH [of "m + 1" s1] Cons.IH [of 1 s1] by (simp add: hand_out_def c split: prod.splits)
qed simp

lemma deliver_bound: "fst (deliver cb ts s) \<le> length ts"
proof (induction ts arbitrary: s)
  case Nil
  then show ?case by (simp add: deliver_def)
next
  case (Cons t ts)
  obtain rc s1 where c: "cb t s = (rc, s1)" by fastforce
  show ?case using Cons.IH [of s1] until_count [of cb ts 1 s1]
    by (auto simp: deliver_def hand_out_def c split: prod.splits)
qed

lemma takes_all_append:
  "takes_all cb (ts @ us) s \<longleftrightarrow> takes_all cb ts s \<and> takes_all cb us (snd (deliver cb ts s))"
  "takes_all cb ts s \<Longrightarrow> deliver cb (ts @ us) s =
     (case deliver cb ts s of (n, s1) \<Rightarrow> case deliver cb us s1 of (m, s2) \<Rightarrow> (n + m, s2))"
proof -
  obtain stop n s1 where t: "until (hand_out cb) ts (0, s) = (stop, n, s1)" by (rule prod_cases3)
  obtain stop' m s2 where u: "until (hand_out cb) us (0, s1) = (stop', m, s2)" by (rule prod_cases3)
  have n: "until (hand_out cb) us (n, s1) = (stop', n + m, s2)" by (subst until_count) (simp add: u)
  show "takes_all cb (ts @ us) s \<longleftrightarrow> takes_all cb ts s \<and> takes_all cb us (snd (deliver cb ts s))"
    by (simp add: takes_all_def until_append deliver_def t u n)
  show "takes_all cb ts s \<Longrightarrow> deliver cb (ts @ us) s =
     (case deliver cb ts s of (n, s1) \<Rightarrow> case deliver cb us s1 of (m, s2) \<Rightarrow> (n + m, s2))"
    by (simp add: takes_all_def until_append deliver_def t u n)
qed

lemma scan_deliver:
  "takes_all cb (filter (\<lambda>t. take (length b) t = b) rows) s \<Longrightarrow>
   ovPrefixScan rows b cb s = deliver cb (filter (\<lambda>t. take (length b) t = b) rows) s"
proof (induction rows arbitrary: s)
  case Nil
  then show ?case by (simp add: deliver_def)
next
  case (Cons t rows)
  let ?us = "filter (\<lambda>t. take (length b) t = b) rows"
  show ?case
  proof (cases "take (length b) t = b")
    case True
    obtain rc s1 where c: "cb t s = (rc, s1)" by fastforce
    obtain stop m s2 where u: "until (hand_out cb) ?us (0, s1) = (stop, m, s2)" by (rule prod_cases3)
    have n: "until (hand_out cb) ?us (1, s1) = (stop, 1 + m, s2)" by (subst until_count) (simp add: u)
    have on: "rc = 0" "\<not> stop"
      using Cons.prems True n by (auto simp: takes_all_def hand_out_def c split: if_splits)
    have "ovPrefixScan rows b cb s1 = deliver cb ?us s1" by (rule Cons.IH) (simp add: takes_all_def u on(2))
    then show ?thesis using True on(1) n by (simp add: c deliver_def hand_out_def u)
  next
    case False
    then show ?thesis using Cons by simp
  qed
qed

text \<open>The view's enumeration, whether the overlay could be folded in or not.\<close>

lemma rel_prefix_ok:
  assumes "engine_ok e" "dafsa_create e \<noteq> None" "rel_ok e fs r" "k \<le> r_arity r" "k \<le> length l"
  obtains res r' where "rel_prefix e fs (Some l) k cb s r = Some (res, r')" "rel_ok e fs r'"
    "rel_view e fs r' = rel_view e fs r" "view_prefix_spec e (rel_view e fs r) (take k l) cb s res"
proof -
  let ?b = "take k l"
  obtain r1 where r1: "relEnsureReadable e fs r = (True, r1)" "rel_ok e fs r1" "r_state r1 \<noteq> Deferred" "same_relation e fs r r1"
    by (rule ensure_readable_ok [OF assms(1-3)])
  have ar: "r_arity r1 = r_arity r" "r_arity r \<le> MAX_ARITY" and view: "rel_view e fs r1 = rel_view e fs r"
    using r1(4) assms(3) same_relation_view [OF r1(4)] by (simp_all add: same_relation_def rel_ok_def)
  show thesis
  proof (cases "r_state r1 = View")
    case True
    obtain v d where v: "viewOf r1 False = Some v" "view_of e v d" "keyed (r_arity r1) d"
      "rel_dset e fs r1 = dtuples (r_arity r1) d" by (rule view_handle [OF assms(1) r1(2) True])
    have "viewOverlayClean r1" using r1(2) True by (simp add: rel_ok_def unloaded_ok_def)
    then have "ov_rows r1 = {}"
      by (auto simp: viewOverlayClean_def ov_rows_def ts_rows_def ts_count_def split: option.splits)
    then have "rel_view e fs r = dtuples (r_arity r) d" using view v(4) ar by (simp add: rel_view_def)
    then have "view_prefix_spec e (rel_view e fs r) ?b cb s (viewPrefixD e (r_arity r1) v (Some l) k cb s)"
      using viewPrefixD_deliver [OF v(2,3), of k l cb s] assms(4,5) ar
      unfolding view_prefix_spec_def by (intro exI [of _ "rel_view e fs r"] exI [of _ "[]"]) simp
    moreover have "rel_prefix e fs (Some l) k cb s r = Some (viewPrefixD e (r_arity r1) v (Some l) k cb s, r1)"
      using r1(1) True v(1) by (simp add: rel_prefix_def)
    ultimately show ?thesis using that r1(2) view by blast
  next
    case False
    then have own: "r_state r1 = Owned" using r1(3) by (cases "r_state r1") simp_all
    obtain rc r' where f: "rel_overlay_flush e fs r1 = (rc, r')" "rel_ok e fs r'" "flush_spec e fs r1 (rc, r')"
      "adds_succeed e \<longrightarrow> rc = 0" "r_state r1 = Owned \<longrightarrow> r_state r' = Owned"
      by (rule flush_ok [OF assms(1,2) r1(2)])
    let ?r2 = "ovConsolidateForRead e fs r1"
    have c: "?r2 = (if ov_rows r1 = {} then r1 else r')"
      using f(1) by (auto simp: ovConsolidateForRead_def ov_rows_def ts_rows_def ts_count_def split: option.splits)
    have r2: "rel_ok e fs ?r2" "r_state ?r2 = Owned" "rel_view e fs ?r2 = rel_view e fs r" "r_arity ?r2 = r_arity r"
      "adds_succeed e \<longrightarrow> ov_rows ?r2 = {}"
      using f r1(2) own view ar(1) by (auto simp: c flush_spec_def)
    obtain d where d: "r_d ?r2 = Some d" "keyed (r_arity ?r2) d" "rel_dset e fs ?r2 = dtuples (r_arity ?r2) d"
      by (rule owned_cases [OF r2(1,2)]) blast
    define pending where "pending = (case r_ov ?r2 of None \<Rightarrow> [] | Some ov \<Rightarrow> ts_data ov)"
    have pend: "set pending = ov_rows ?r2" "distinct pending"
      using ov_wf [OF r2(1)] by (auto simp: pending_def ov_rows_def ts_rows_def ts_inv_def split: option.split)
    obtain n s1 where n: "deliver cb (sorted_list_of_set (matching (rel_dset e fs ?r2) ?b)) s = (n, s1)" by fastforce
    have p: "relPrefixD e (r_arity ?r2) (r_d ?r2) (Some l) k cb s = (int n, s1)"
      using relPrefixD_deliver [OF assms(1) d(2), of k l cb s] d(1,3) n assms(4,5) ar r2(4) by simp
    obtain m s2 where m: "ovPrefixScan pending ?b cb s1 = (m, s2)" by fastforce
    have q: "rel_prefix e fs (Some l) k cb s r = Some ((int n + int m, s2), ?r2)"
      using r1(1) own p m by (simp add: rel_prefix_def Let_def pending_def split: option.splits)
    let ?ts = "sorted_list_of_set (matching (rel_dset e fs ?r2) ?b)" and ?us = "filter (\<lambda>t. take (length ?b) t = ?b) pending"
    have "deliver cb (?ts @ ?us) s = (n + m, s2)" if "pending = [] \<or> takes_all cb (?ts @ ?us) s"
    proof (cases "pending = []")
      case True
      then show ?thesis using n m by simp
    next
      case False
      then have t: "takes_all cb ?ts s" "takes_all cb ?us s1" using that n by (simp_all add: takes_all_append)
      have "deliver cb ?us s1 = (m, s2)" using scan_deliver [OF t(2)] m by simp
      then show ?thesis using takes_all_append(2) [OF t(1), of ?us] n by simp
    qed
    then have "view_prefix_spec e (rel_view e fs r) ?b cb s (int n + int m, s2)"
      unfolding view_prefix_spec_def Let_def
      using r2(3,5) pend by (intro exI [of _ "rel_dset e fs ?r2"] exI [of _ pending]) (auto simp: rel_view_def)
    with q show ?thesis using that r2(1,3) by blast
  qed
qed

lemma prefix_ok:
  assumes "engine_ok e" "dafsa_create e \<noteq> None" "adds_succeed e" "rel_ok e fs r" "k \<le> r_arity r" "k \<le> length l"
  obtains res r' where "rel_prefix e fs (Some l) k cb s r = Some (res, r')" "rel_ok e fs r'"
    "rel_view e fs r' = rel_view e fs r" "prefix_spec (rel_view e fs r) (take k l) cb s res"
  using rel_prefix_ok [OF assms(1,2,4-6), of cb s] that unfolding view_prefix_spec_sorted [OF assms(3)] by metis

lemma prefix_base_ok:
  assumes "engine_ok e" "dafsa_create e \<noteq> None" "rel_ok e fs r" "k \<le> r_arity r" "k \<le> length l"
  obtains res r' where "rel_prefix_base e fs (Some l) k cb s r = Some (res, r')" "rel_ok e fs r'"
    "same_relation e fs r r'" "prefix_spec (rel_base e fs r) (take k l) cb s res"
proof -
  obtain r1 where r1: "relEnsureReadable e fs r = (True, r1)" "rel_ok e fs r1" "r_state r1 \<noteq> Deferred" "same_relation e fs r r1"
    by (rule ensure_readable_ok [OF assms(1-3)])
  have s: "r_arity r1 = r_arity r" "r_arity r \<le> MAX_ARITY" "rel_base e fs r1 = rel_base e fs r"
    using r1(4) assms(3) by (simp_all add: same_relation_def rel_ok_def)
  show thesis
  proof (cases "r_state r1")
    case View
    obtain v d where v: "viewOf r1 True = Some v" "view_of e v d" "keyed (r_arity r1) d"
      "rel_base e fs r1 = dtuples (r_arity r1) d" by (rule view_base_handle [OF assms(1) r1(2) View])
    then have "prefix_spec (rel_base e fs r) (take k l) cb s (viewPrefixD e (r_arity r1) v (Some l) k cb s)"
      using viewPrefixD_deliver [OF v(2,3), of k l cb s] assms(4,5) s by (simp add: prefix_spec_def)
    moreover have "rel_prefix_base e fs (Some l) k cb s r = Some (viewPrefixD e (r_arity r1) v (Some l) k cb s, r1)"
      using r1(1) View v(1) by (simp add: rel_prefix_base_def)
    ultimately show ?thesis using that r1(2,4) by blast
  next
    case Owned
    obtain d where d: "base_of r1 = Some d" "keyed (r_arity r1) d" "rel_base e fs r1 = dtuples (r_arity r1) d"
      by (rule owned_base [OF r1(2) Owned])
    then have "prefix_spec (rel_base e fs r) (take k l) cb s (relPrefixD e (r_arity r1) (base_of r1) (Some l) k cb s)"
      using relPrefixD_deliver [OF assms(1) d(2), of k l cb s] assms(4,5) s by (simp add: prefix_spec_def)
    moreover have "rel_prefix_base e fs (Some l) k cb s r =
        Some (relPrefixD e (r_arity r1) (base_of r1) (Some l) k cb s, r1)"
      using r1(1) Owned by (simp add: rel_prefix_base_def)
    ultimately show ?thesis using that r1(2,4) by blast
  qed (use r1(3) in simp)
qed

subsection \<open>Properties\<close>

text \<open>A relation to start from: created by the code with the trie engine.\<close>

definition no_files :: files where "no_files = (\<lambda>_. None)"

lemma trie_create_ne [simp]: "dafsa_create trie_engine \<noteq> None"
  by (simp add: trie_engine_def)

lemma trie_adds [simp]: "adds_succeed trie_engine"
  by (simp add: adds_succeed_def trie_engine_def)

lemma rel_create_ok:
  assumes "engine_ok e" "rel_create e al arity = Some r"
  shows "rel_ok e fs r" "r_arity r = arity" "rel_view e fs r = {}" "rel_base e fs r = {}" "r_state r = Owned"
    "\<not> rel_is_idb r" "\<not> r_dirty r" "r_ov r = None" "rel_dset e fs r = {}"
proof -
  obtain d where d: "dafsa_create e = Some d" "r = (zeroed arity)\<lparr>r_d := Some d\<rparr>" "arity \<noteq> 0" "arity \<le> MAX_ARITY"
    using assms(2) by (auto simp: rel_create_def split: if_splits option.splits)
  have "keyed arity d" "dtuples arity d = {}"
    using assms(1) d(1) by (auto simp: engine_ok_def create_ok_def keyed_def dtuples_def)
  with d show "rel_ok e fs r" "r_arity r = arity" "rel_view e fs r = {}" "rel_base e fs r = {}" "r_state r = Owned"
    "\<not> rel_is_idb r" "\<not> r_dirty r" "r_ov r = None" "rel_dset e fs r = {}"
    by (simp_all add: zeroed_def rel_ok_def owned_ok_def rel_view_def rel_dset_def rel_base_def mem_tuples_def
        base_of_def ov_rows_def rel_is_idb_def)
qed

definition fresh2 :: relation where
  "fresh2 = the (rel_create trie_engine (\<lambda>_ _. True) 2)"

lemma fresh2: "rel_create trie_engine (\<lambda>_ _. True) 2 = Some fresh2"
  by (simp add: fresh2_def rel_create_def trie_engine_def MAX_ARITY_def)

lemmas fresh2_ok = rel_create_ok [OF trie_engine_ok fresh2]

text \<open>A relation with one row, in the overlay.\<close>

lemma one_row:
  obtains r where "rel_overlay_add trie_engine (\<lambda>_ _. True) no_files [5, 2] fresh2 = Some (1, r)"
    "rel_ok trie_engine no_files r" "rel_view trie_engine no_files r = {[5, 2]}" "r_arity r = 2"
proof (rule overlay_add_ok [OF trie_engine_ok trie_create_ne fresh2_ok(1), of "[5, 2]" "\<lambda>_ _. True" no_files])
  fix rc r assume r: "rel_overlay_add trie_engine (\<lambda>_ _. True) no_files [5, 2] fresh2 = Some (rc, r)"
    "rel_ok trie_engine no_files r"
    "add_result (rel_view trie_engine no_files fresh2) [5, 2] rc (rel_view trie_engine no_files r)"
    "r_arity r = r_arity fresh2"
    "generous (\<lambda>_ _. True) \<and> rel_overlay_count fresh2 < 2 ^ 29 \<longrightarrow> rc \<noteq> -1"
  have "rc \<noteq> -1" using r(5) fresh2_ok(8) by (simp add: generous_def rel_overlay_count_def)
  then have "rc = 1" "rel_view trie_engine no_files r = {[5, 2]}"
    using r(3) fresh2_ok(3) by (auto simp: add_result_def)
  with r that fresh2_ok(2) show thesis by simp
qed (simp add: fresh2_ok(2))

text \<open>C7: adding to and deleting from a well-formed relation, in its view or in its base and however
  it is held (in memory, on disk or mapped), returns 1, 0 or -1 exactly as the header says with the one
  tuple gone in or out, leaves a base that is not the view alone (and moves both when they are one),
  sets the dirty flag and bumps the revision exactly when the content changed, and keeps the
  relation well formed.\<close>

theorem rel_writes_correct:
  assumes "engine_ok e" "dafsa_create e \<noteq> None" "rel_ok e fs r" "length t = r_arity r"
  shows "view_write_spec (\<lambda>V. add_result V t) e fs r (rel_add e fs t r) \<and>
    base_write_spec (\<lambda>V. add_result V t) e fs r (rel_add_base e fs t r) \<and>
    view_write_spec (\<lambda>V. delete_result V t) e fs r (rel_delete e fs t r) \<and>
    base_write_spec (\<lambda>V. delete_result V t) e fs r (rel_delete_base e fs t r) \<and>
    rel_ok e fs (snd (rel_add e fs t r)) \<and> rel_ok e fs (snd (rel_add_base e fs t r)) \<and>
    rel_ok e fs (snd (rel_delete e fs t r)) \<and> rel_ok e fs (snd (rel_delete_base e fs t r))"
proof -
  have "r_arity r \<le> MAX_ARITY" using assms(3) by (simp add: rel_ok_def)
  note u = updates_add [OF assms(1,4) this] updates_delete [OF assms(1,4) this]
  show ?thesis
    unfolding rel_add_def rel_add_base_def rel_delete_def rel_delete_base_def
    by (rule write_view_ok [OF assms(1-3) u(1)], rule write_view_ok [OF assms(1-3) u(2)],
        rule write_base_ok [OF assms(1-3) u(1)], rule write_base_ok [OF assms(1-3) u(2)]) simp
qed

theorem rel_writes_correct_witness:
  "fst (rel_add trie_engine no_files [5, 2] fresh2) \<in> {1, -1} \<and>
   fst (rel_delete_base trie_engine no_files [5, 2] fresh2) \<in> {0, -1}"
  using rel_writes_correct [OF trie_engine_ok trie_create_ne fresh2_ok(1), of "[5, 2]" no_files] fresh2_ok
  by (auto simp: view_write_spec_def base_write_spec_def add_result_def delete_result_def split: prod.splits)

text \<open>C8: a point read answers exactly membership: of the view (the automaton with the overlay) for
  \<open>rel_exact\<close>, of the base for \<open>rel_exact_base\<close>; it returns, and it changes nothing but how the
  relation is held. Assumed is memory for the automata: a file loads as its content says, and an empty automaton can be
  created for one that does not load; without it a mapped relation is left with no automaton at all, and reading it panics.\<close>

theorem rel_exact_correct:
  assumes "engine_ok e" "dafsa_create e \<noteq> None" "rel_ok e fs r" "length t = r_arity r"
  shows "\<exists>v b. rel_exact e fs t r = Some v \<and> exact_spec e fs (rel_view e fs r) t r v \<and> rel_ok e fs (snd v) \<and>
    rel_exact_base e fs t r = Some b \<and> exact_spec e fs (rel_base e fs r) t r b \<and> rel_ok e fs (snd b)"
  by (rule exact_ok [OF assms], rule exact_base_ok [OF assms]) (simp add: exact_spec_def)

theorem rel_exact_correct_witness:
  "\<exists>r r1 r2. rel_overlay_add trie_engine (\<lambda>_ _. True) no_files [5, 2] fresh2 = Some (1, r) \<and>
    rel_exact trie_engine no_files [5, 2] r = Some (1, r1) \<and> rel_exact trie_engine no_files [5, 3] r = Some (0, r2)"
proof (rule one_row)
  fix r assume r: "rel_overlay_add trie_engine (\<lambda>_ _. True) no_files [5, 2] fresh2 = Some (1, r)"
    "rel_ok trie_engine no_files r" "rel_view trie_engine no_files r = {[5, 2]}" "r_arity r = 2"
  show ?thesis
    using r rel_exact_correct [OF trie_engine_ok trie_create_ne r(2), of "[5, 2]"]
      rel_exact_correct [OF trie_engine_ok trie_create_ne r(2), of "[5, 3]"]
    by (fastforce simp: exact_spec_def)
qed

text \<open>C11: a hot write goes to the overlay alone: it answers 1, 0 or -1 by membership in what a reader
  sees, adds exactly that tuple to it, leaves both automata as they were, and fails only for lack of
  memory (or past \<open>2\<^sup>2\<^sup>9\<close> rows).  Consolidation then moves every overlay row into the automata (into the
  base of a rule head too) without changing what a reader sees; when it fails part way the reader
  still sees the same, the overlay is kept, and only overlay rows have entered the base.\<close>

theorem rel_overlay_correct:
  assumes "engine_ok e" "dafsa_create e \<noteq> None" "rel_ok e fs r" "length t = r_arity r"
  shows "\<exists>rc r'. rel_overlay_add e al fs t r = Some (rc, r') \<and> rel_ok e fs r' \<and>
    add_result (rel_view e fs r) t rc (rel_view e fs r') \<and>
    rel_dset e fs r' = rel_dset e fs r \<and> rel_base e fs r' = rel_base e fs r \<and>
    (generous al \<and> rel_overlay_count r < 2 ^ 29 \<longrightarrow> rc \<noteq> -1) \<and>
    flush_spec e fs r' (rel_overlay_flush e fs r') \<and> rel_ok e fs (snd (rel_overlay_flush e fs r')) \<and>
    (adds_succeed e \<longrightarrow> fst (rel_overlay_flush e fs r') = 0)"
proof (rule overlay_add_ok [OF assms, of al])
  fix rc r'
  assume a: "rel_overlay_add e al fs t r = Some (rc, r')" "rel_ok e fs r'"
    "add_result (rel_view e fs r) t rc (rel_view e fs r')" "rel_dset e fs r' = rel_dset e fs r"
    "rel_base e fs r' = rel_base e fs r" "generous al \<and> rel_overlay_count r < 2 ^ 29 \<longrightarrow> rc \<noteq> -1"
  obtain rc2 r2 where "rel_overlay_flush e fs r' = (rc2, r2)" "rel_ok e fs r2" "flush_spec e fs r' (rc2, r2)"
    "adds_succeed e \<longrightarrow> rc2 = 0" by (rule flush_ok [OF assms(1,2) a(2)])
  with a show ?thesis by (intro exI [of _ rc] exI [of _ r']) simp
qed

theorem rel_overlay_correct_witness:
  "\<exists>r'. rel_overlay_add trie_engine (\<lambda>_ _. True) no_files [5, 2] fresh2 = Some (1, r') \<and>
    rel_view trie_engine no_files r' = {[5, 2]} \<and> rel_dset trie_engine no_files r' = {} \<and>
    rel_dset trie_engine no_files (snd (rel_overlay_flush trie_engine no_files r')) = {[5, 2]}"
  using rel_overlay_correct [OF trie_engine_ok trie_create_ne fresh2_ok(1), of "[5, 2]" "\<lambda>_ _. True" no_files] fresh2_ok
  by (fastforce simp: add_result_def generous_def rel_overlay_count_def flush_spec_def split: prod.splits)



end
