(* ===== verification/RelationBulk.thy ===== *)
theory RelationBulk
  imports RelationOps
begin

text \<open>
  Filling a relation from a set of rows (\<^verbatim>\<open>zig/src/relation.zig\<close>): the sink that collects an enumeration into a
  tuple set, the bulk builds of the view and of the base, the incremental fold, and the reset of a
  rule head's view.  An outer \<open>None\<close> is a probing loop of a tuple set that does not end, which its
  invariant excludes.
\<close>

definition ts_sink_cb :: "allocator \<Rightarrow> tuple_set option enum_cb" where
  "ts_sink_cb al cols user =
     (case user of
        None \<Rightarrow> (-1, None)
      | Some ts \<Rightarrow>
          (case ts_add al ts cols of
             None \<Rightarrow> (-1, None)
           | Some (rc, ts') \<Rightarrow> (if rc < 0 then -1 else 0, Some ts')))"

text \<open>The key array, the length array and one buffer per key; any refusal gives up.\<close>

definition dafsaBuildFromTs :: "engine \<Rightarrow> allocator \<Rightarrow> tuple_set \<Rightarrow> dafsa option" where
  "dafsaBuildFromTs e al ts =
     (if ts_count ts = 0 then dafsa_create e
      else if \<not> al ''dafsaBuildFromTs'' (ts_count ts * 8) then None
      else if \<not> al ''dafsaBuildFromTs key'' MAX_KEY_LEN then None
      else dafsa_build_sorted e (map encodeKey (ts_data ts)))"

text \<open>The shape of the two wholesale replacements.\<close>

definition replace_with :: "(dafsa \<Rightarrow> relation \<Rightarrow> relation) \<Rightarrow> engine \<Rightarrow> allocator \<Rightarrow> files \<Rightarrow> tuple_set \<Rightarrow> relation \<Rightarrow> int \<times> relation" where
  "replace_with put e al fs ts r =
     (if ts_arity ts \<noteq> r_arity r then (-1, r)
      else case relEnsureOwned e fs r of (okay, r1) \<Rightarrow>
        if \<not> okay then (-1, r1)
        else case dafsaBuildFromTs e al ts of
          None \<Rightarrow> (-1, r1)
        | Some d \<Rightarrow> (0, mutated (put d r1)))"

definition rel_build_from_tupleset :: "engine \<Rightarrow> allocator \<Rightarrow> files \<Rightarrow> tuple_set \<Rightarrow> relation \<Rightarrow> int \<times> relation" where
  "rel_build_from_tupleset e al fs ts r = replace_with (\<lambda>d r. r\<lparr>r_d := Some d\<rparr>) e al fs ts r"

definition rel_build_base_from_tupleset :: "engine \<Rightarrow> allocator \<Rightarrow> files \<Rightarrow> tuple_set \<Rightarrow> relation \<Rightarrow> int \<times> relation" where
  "rel_build_base_from_tupleset e al fs ts r = replace_with set_base e al fs ts r"

fun rows_sorted :: "nat \<Rightarrow> tuple list \<Rightarrow> bool" where
  "rows_sorted ar (prev # cur # rows) = (if row_less ar cur prev then False else rows_sorted ar (cur # rows))"
| "rows_sorted ar _ = True"

definition tsSorted :: "tuple_set \<Rightarrow> bool" where
  "tsSorted ts = rows_sorted (ts_arity ts) (ts_data ts)"

definition firstTupleProbe :: "unit enum_cb" where
  "firstTupleProbe cols user = (1, user)"

definition relViewDafsaEmpty :: "engine \<Rightarrow> relation \<Rightarrow> bool" where
  "relViewDafsaEmpty e r \<longleftrightarrow> fst (relPrefixD e (r_arity r) (r_d r) None 0 firstTupleProbe ()) = 0"

text \<open>The sorted scratch copy of an unsorted batch; the inner \<open>None\<close> is a failed copy.\<close>

definition sorted_copy :: "allocator \<Rightarrow> tuple_set \<Rightarrow> tuple_set option option" where
  "sorted_copy al t =
     (case ts_init (ts_arity t) of
        None \<Rightarrow> Some None
      | Some scratch \<Rightarrow>
          (case add_loop (ts_add al) scratch (ts_data t) of
             None \<Rightarrow> None
           | Some (rc, scratch') \<Rightarrow>
               if rc < 0 then Some None
               else (case ts_sort al scratch' of None \<Rightarrow> None | Some s \<Rightarrow> Some (Some s))))"

fun add_each :: "engine \<Rightarrow> tuple list \<Rightarrow> relation \<Rightarrow> int \<times> relation" where
  "add_each e [] r = (0, r)"
| "add_each e (row # rows) r =
     (case relAddD e (r_d r) row of (rc, d') \<Rightarrow>
        let r1 = r\<lparr>r_d := d'\<rparr> in
        if rc < 0 then (-1, r1) else add_each e rows (if rc > 0 then mutated r1 else r1))"

definition add_batch :: "engine \<Rightarrow> allocator \<Rightarrow> tuple_set \<Rightarrow> relation \<Rightarrow> int \<times> relation" where
  "add_batch e al src r =
     (if viewOverlayClean r \<and> relViewDafsaEmpty e r then
        (case dafsaBuildFromTs e al src of
           None \<Rightarrow> (-1, r)
         | Some d \<Rightarrow> (0, r\<lparr>r_d := Some d, r_dirty := True, r_rev := r_rev r + of_nat (ts_count src)\<rparr>))
      else add_each e (ts_data src) r)"

definition rel_add_tupleset :: "engine \<Rightarrow> allocator \<Rightarrow> files \<Rightarrow> tuple_set \<Rightarrow> relation \<Rightarrow> (int \<times> relation) option" where
  "rel_add_tupleset e al fs t r =
     (if ts_arity t \<noteq> r_arity r then Some (-1, r)
      else if ts_count t = 0 then Some (0, r)
      else case relEnsureOwned e fs r of (okay, r1) \<Rightarrow>
        if \<not> okay then Some (-1, r1)
        else if tsSorted t then Some (add_batch e al t r1)
        else case sorted_copy al t of
          None \<Rightarrow> None
        | Some None \<Rightarrow> Some (-1, r1)
        | Some (Some src) \<Rightarrow> Some (add_batch e al src r1))"

text \<open>A refused allocation inside the sink ends the enumeration, but not the copy.\<close>

definition dafsaCopyFrom :: "engine \<Rightarrow> allocator \<Rightarrow> nat \<Rightarrow> dafsa option \<Rightarrow> dafsa option option" where
  "dafsaCopyFrom e al arity src =
     (if src = None then Some None
      else case ts_init arity of
        None \<Rightarrow> Some None
      | Some ts \<Rightarrow>
          (case relPrefixD e arity src None 0 (ts_sink_cb al) (Some ts) of (n, user) \<Rightarrow>
             case user of
               None \<Rightarrow> None
             | Some ts1 \<Rightarrow>
                 if n < 0 then Some None
                 else (case ts_sort al ts1 of None \<Rightarrow> None | Some ts2 \<Rightarrow> Some (dafsaBuildFromTs e al ts2))))"

definition rel_reset_view :: "engine \<Rightarrow> allocator \<Rightarrow> files \<Rightarrow> relation \<Rightarrow> (int \<times> relation) option" where
  "rel_reset_view e al fs r =
     (case relEnsureOwned e fs r of (okay, r1) \<Rightarrow>
        if \<not> okay then Some (-1, r1)
        else case r_base r1 of
          None \<Rightarrow>
            (case dafsaCopyFrom e al (r_arity r1) (r_d r1) of
               None \<Rightarrow> None
             | Some None \<Rightarrow> Some (-1, r1)
             | Some (Some nb) \<Rightarrow> Some (0, mutated (r1\<lparr>r_base := Some nb\<rparr>)))
        | Some b \<Rightarrow>
            (case dafsaCopyFrom e al (r_arity r1) (Some b) of
               None \<Rightarrow> None
             | Some None \<Rightarrow> Some (-1, r1)
             | Some (Some nv) \<Rightarrow> Some (0, mutated (r1\<lparr>r_d := Some nv\<rparr>))))"

subsection \<open>Contracts\<close>

text \<open>A wholesale replacement of the view, or of the base, by the rows of a sorted set.\<close>

definition build_spec :: "engine \<Rightarrow> files \<Rightarrow> tuple_set \<Rightarrow> relation \<Rightarrow> int \<times> relation \<Rightarrow> bool" where
  "build_spec e fs ts r res \<longleftrightarrow> (case res of (rc, r') \<Rightarrow>
     rc = 0 \<and> rel_dset e fs r' = ts_rows ts \<and>
       rel_base e fs r' = (if rel_is_idb r then rel_base e fs r else ts_rows ts) \<and> write_frame 1 r r' \<or>
     rc = -1 \<and> same_relation e fs r r')"

definition build_base_spec :: "engine \<Rightarrow> files \<Rightarrow> tuple_set \<Rightarrow> relation \<Rightarrow> int \<times> relation \<Rightarrow> bool" where
  "build_base_spec e fs ts r res \<longleftrightarrow> (case res of (rc, r') \<Rightarrow>
     rc = 0 \<and> rel_base e fs r' = ts_rows ts \<and>
       rel_dset e fs r' = (if rel_is_idb r then rel_dset e fs r else ts_rows ts) \<and> write_frame 1 r r' \<or>
     rc = -1 \<and> same_relation e fs r r')"

text \<open>The reset: the relation is a rule head, its base is what it was, and its view is the base again.\<close>

definition reset_view_spec :: "engine \<Rightarrow> files \<Rightarrow> relation \<Rightarrow> int \<times> relation \<Rightarrow> bool" where
  "reset_view_spec e fs r res \<longleftrightarrow> (case res of (rc, r') \<Rightarrow>
     rc = 0 \<and> rel_is_idb r' \<and> rel_base e fs r' = rel_base e fs r \<and> rel_dset e fs r' = rel_base e fs r \<and>
       r_ov r' = r_ov r \<and> r_dirty r' \<or>
     rc = -1 \<and> same_relation e fs r r')"

text \<open>The incremental fold: every row is in the view, nothing leaves it.\<close>

definition fold_spec :: "engine \<Rightarrow> files \<Rightarrow> tuple_set \<Rightarrow> relation \<Rightarrow> int \<times> relation \<Rightarrow> bool" where
  "fold_spec e fs ts r res \<longleftrightarrow> (case res of (rc, r') \<Rightarrow>
     (rc = 0 \<or> rc = -1) \<and> grows (ts_data ts) rc (rel_dset e fs r) (rel_dset e fs r') \<and>
     rel_base e fs r' = (if rel_is_idb r then rel_base e fs r else rel_dset e fs r') \<and>
     rel_is_idb r' = rel_is_idb r \<and> r_ov r' = r_ov r)"

text \<open>The sink unions what is enumerated into the set.\<close>

definition sink_spec :: "tuple list \<Rightarrow> tuple_set \<Rightarrow> tuple_set \<Rightarrow> bool" where
  "sink_spec rows ts ts' \<longleftrightarrow> ts_rows ts' = ts_rows ts \<union> set rows"

subsection \<open>The sink and the builds\<close>

definition builds_succeed :: "engine \<Rightarrow> bool" where
  "builds_succeed e \<longleftrightarrow> dafsa_create e \<noteq> None \<and> (\<forall>ks. sorted_wrt (<) ks \<longrightarrow> dafsa_build_sorted e ks \<noteq> None)"

definition collected :: "tuple list \<Rightarrow> tuple_set \<Rightarrow> tuple_set \<Rightarrow> bool" where
  "collected rows ts ts' \<longleftrightarrow> ts_inv ts' \<and> ts_arity ts' = ts_arity ts \<and>
     ts_rows ts \<subseteq> ts_rows ts' \<and> ts_rows ts' \<subseteq> ts_rows ts \<union> set rows"

lemma sink_step:
  "ts_add al ts t = Some (rc, ts1) \<Longrightarrow>
     until (hand_out (ts_sink_cb al)) (t # rows) (n, Some ts) =
       (if rc < 0 then (True, n + 1, Some ts1) else until (hand_out (ts_sink_cb al)) rows (n + 1, Some ts1))"
  by (simp add: hand_out_def ts_sink_cb_def)

lemma sink_until:
  assumes "ts_inv ts" "\<forall>t \<in> set rows. length t = ts_arity ts"
  shows "\<exists>stop n' ts'. until (hand_out (ts_sink_cb al)) rows (n, Some ts) = (stop, n', Some ts') \<and>
    collected rows ts ts' \<and> (generous al \<and> ts_count ts + length rows < 2 ^ 29 \<longrightarrow> sink_spec rows ts ts')"
  using assms
proof (induction rows arbitrary: ts n)
  case (Cons t rows)
  have len: "length t = ts_arity ts" using Cons.prems(2) by simp
  show ?case
  proof (rule ts_add_inv [OF Cons.prems(1) len, of al])
    assume a: "t \<in> ts_rows ts" "ts_add al ts t = Some (0, ts)"
    obtain stop n' ts' where "until (hand_out (ts_sink_cb al)) rows (n + 1, Some ts) = (stop, n', Some ts')"
      "collected rows ts ts'" "generous al \<and> ts_count ts + length rows < 2 ^ 29 \<longrightarrow> sink_spec rows ts ts'"
      using Cons.IH [OF Cons.prems(1), of "n + 1"] Cons.prems(2) by auto
    moreover from this have "collected (t # rows) ts ts'" by (auto simp: collected_def)
    moreover have "sink_spec (t # rows) ts ts'" if "sink_spec rows ts ts'"
      using that a(1) by (auto simp: sink_spec_def)
    ultimately show ?thesis by (intro exI [of _ stop] exI [of _ n'] exI [of _ ts']) (simp add: sink_step [OF a(2)] del: until.simps)
  next
    fix ts1 assume a: "t \<notin> ts_rows ts" "ts_add al ts t = Some (1, ts1)" "ts_inv ts1"
      "ts_data ts1 = ts_data ts @ [t]" "ts_arity ts1 = ts_arity ts"
    have r: "ts_rows ts1 = insert t (ts_rows ts)" "ts_count ts1 = Suc (ts_count ts)"
      using a(4) by (simp_all add: ts_rows_def ts_count_def)
    obtain stop n' ts' where "until (hand_out (ts_sink_cb al)) rows (n + 1, Some ts1) = (stop, n', Some ts')"
      "collected rows ts1 ts'" "generous al \<and> ts_count ts1 + length rows < 2 ^ 29 \<longrightarrow> sink_spec rows ts1 ts'"
      using Cons.IH [OF a(3), of "n + 1"] Cons.prems(2) a(5) by auto
    moreover from this have "collected (t # rows) ts ts'" using r a(5) by (auto simp: collected_def)
    moreover have "sink_spec (t # rows) ts ts'" if "sink_spec rows ts1 ts'"
      using that r by (auto simp: sink_spec_def)
    ultimately show ?thesis
      by (intro exI [of _ stop] exI [of _ n'] exI [of _ ts']) (simp add: sink_step [OF a(2)] r del: until.simps)
  next
    fix ts1 assume a: "ts_add al ts t = Some (-1, ts1)" "ts_inv ts1" "ts_data ts1 = ts_data ts"
      "ts_arity ts1 = ts_arity ts" "\<not> (generous al \<and> ts_count ts < 2 ^ 29)"
    then show ?thesis by (auto simp: sink_step [OF a(1)] collected_def ts_rows_def simp del: until.simps)
  qed
qed (auto simp: collected_def sink_spec_def)

lemma sorted_keys:
  assumes "sorted_wrt (<) rows" "\<forall>t \<in> set rows. length t = a"
  shows "sorted_wrt (<) (map encodeKey rows)"
  using assms by (induction rows) (auto simp: encodeKey_less)

lemma build_ts_ok:
  assumes "engine_ok e" "ts_inv ts" "sorted_wrt (<) (ts_data ts)" "dafsaBuildFromTs e al ts = Some d"
  shows "keyed (ts_arity ts) d" "dtuples (ts_arity ts) d = ts_rows ts"
proof -
  have len: "\<forall>t \<in> set (ts_data ts). length t = ts_arity ts" "ts_arity ts \<le> MAX_ARITY"
    using assms(2) by (simp_all add: ts_inv_def MAX_ARITY_def)
  have w: "dafsa_inv d \<and> dwords d = encodeKey ` ts_rows ts"
  proof (cases "ts_count ts = 0")
    case True
    then show ?thesis
      using assms(1,4) by (auto simp: dafsaBuildFromTs_def engine_ok_def create_ok_def ts_rows_def ts_count_def)
  next
    case False
    then have "dafsa_build_sorted e (map encodeKey (ts_data ts)) = Some d"
      using assms(4) by (simp add: dafsaBuildFromTs_def split: if_splits)
    moreover have "\<forall>k \<in> set (map encodeKey (ts_data ts)). length k \<le> MAX_WORD_LEN"
      using len by (auto simp: MAX_ARITY_def MAX_WORD_LEN_def)
    moreover have "build_ok e" using assms(1) by (simp add: engine_ok_def)
    ultimately show ?thesis
      using sorted_keys [OF assms(3) len(1)] unfolding build_ok_def ts_rows_def by (metis list.set_map)
  qed
  have len': "t \<in> ts_rows ts \<Longrightarrow> length t = ts_arity ts" for t using len by (simp add: ts_rows_def)
  then show "keyed (ts_arity ts) d" using w by (auto simp: keyed_def)
  show "dtuples (ts_arity ts) d = ts_rows ts"
    using w len' encodeKey_inj by (force simp: dtuples_def)
qed

lemma build_ts_succeeds:
  assumes "generous al" "builds_succeed e" "ts_inv ts" "sorted_wrt (<) (ts_data ts)"
  shows "dafsaBuildFromTs e al ts \<noteq> None"
  using assms sorted_keys [of "ts_data ts" "ts_arity ts"]
  by (simp add: dafsaBuildFromTs_def generous_def builds_succeed_def ts_inv_def)

lemma rows_sorted_strict:
  "\<lbrakk>rows_sorted a rows; distinct rows; \<forall>t \<in> set rows. length t = a\<rbrakk> \<Longrightarrow> sorted_wrt (<) rows"
proof (induction a rows rule: rows_sorted.induct)
  case (1 a x y rows)
  then have s: "sorted_wrt (<) (y # rows)" "x < y" by (auto simp: row_less_take split: if_splits)
  then show ?case by (auto intro: less_trans)
qed auto

lemma tsSorted_strict: "ts_inv ts \<Longrightarrow> tsSorted ts \<Longrightarrow> sorted_wrt (<) (ts_data ts)"
  using rows_sorted_strict [of "ts_arity ts" "ts_data ts"] by (simp add: tsSorted_def ts_inv_def)

lemma deliver_probe: "fst (deliver firstTupleProbe rows ()) = (if rows = [] then 0 else 1)"
  by (cases rows) (simp_all add: deliver_def hand_out_def firstTupleProbe_def)

lemma view_empty_ok:
  assumes "engine_ok e" "rel_ok e fs r" "r_state r = Owned"
  shows "relViewDafsaEmpty e r \<longleftrightarrow> rel_dset e fs r = {}"
proof -
  obtain d where d: "r_d r = Some d" "keyed (r_arity r) d" "rel_dset e fs r = dtuples (r_arity r) d"
    by (rule owned_cases [OF assms(2,3)]) blast
  have "r_arity r \<le> MAX_ARITY" using assms(2) by (simp add: rel_ok_def)
  then have "relPrefixD e (r_arity r) (r_d r) None 0 firstTupleProbe () =
      (case deliver firstTupleProbe (sorted_list_of_set (dtuples (r_arity r) d)) () of (n, s') \<Rightarrow> (int n, s'))"
    using relPrefixD_deliver [OF assms(1) d(2), of 0 "[]"] d(1) by (simp add: relPrefixD_null matching_def)
  then show ?thesis
    using deliver_probe [of "sorted_list_of_set (dtuples (r_arity r) d)"] d(3)
    by (simp add: relViewDafsaEmpty_def split: prod.splits)
qed
subsection \<open>Replacing the view and the base\<close>

lemma put_view_ok:
  assumes "rel_ok e fs r" "r_state r = Owned" "keyed (r_arity r) d"
  shows "rel_ok e fs (r\<lparr>r_d := Some d\<rparr>)" "rel_dset e fs (r\<lparr>r_d := Some d\<rparr>) = dtuples (r_arity r) d"
    "rel_base e fs (r\<lparr>r_d := Some d\<rparr>) = (if rel_is_idb r then rel_base e fs r else dtuples (r_arity r) d)"
    "rel_is_idb (r\<lparr>r_d := Some d\<rparr>) = rel_is_idb r"
proof -
  have "rel_ok e fs (r\<lparr>r_d := Some d, r_base := r_base r\<rparr>)"
    by (rule rel_ok_replace [OF assms]) (rule owned_cases [OF assms(1,2)], simp)
  then show "rel_ok e fs (r\<lparr>r_d := Some d\<rparr>)" by simp
qed (use assms(2) in \<open>auto simp: rel_dset_def rel_base_def mem_tuples_def base_of_def rel_is_idb_def split: option.splits\<close>)

lemma put_base_ok:
  assumes "rel_ok e fs r" "r_state r = Owned" "keyed (r_arity r) b"
  shows "rel_ok e fs (set_base b r)" "rel_base e fs (set_base b r) = dtuples (r_arity r) b"
    "rel_dset e fs (set_base b r) = (if rel_is_idb r then rel_dset e fs r else dtuples (r_arity r) b)"
    "rel_is_idb (set_base b r) = rel_is_idb r"
proof -
  obtain d where d: "r_d r = Some d" "keyed (r_arity r) d" by (rule owned_cases [OF assms(1,2)]) blast
  have "rel_ok e fs (r\<lparr>r_d := Some d, r_base := Some b\<rparr>)"
    using rel_ok_replace [OF assms(1,2) d(2), of "Some b"] assms(3) by simp
  moreover have "rel_ok e fs (r\<lparr>r_d := Some b, r_base := None\<rparr>)"
    using rel_ok_replace [OF assms(1,2,3), of None] by simp
  ultimately show "rel_ok e fs (set_base b r)" using d(1) by (cases r; cases "r_base r") (simp_all add: set_base_def)
qed (use assms(2) in \<open>auto simp: rel_dset_def rel_base_def mem_tuples_def base_of_def rel_is_idb_def set_base_def
      split: option.splits\<close>)

lemma set_base_frame [simp]:
  "r_arity (set_base b r) = r_arity r" "r_ov (set_base b r) = r_ov r" "r_wal (set_base b r) = r_wal r"
  "r_col_kind (set_base b r) = r_col_kind r" "r_dirty (set_base b r) = r_dirty r" "r_rev (set_base b r) = r_rev r"
  "r_state (set_base b r) = r_state r" "r_wal_path (set_base b r) = r_wal_path r"
  by (simp_all add: set_base_def)

lemma mutated_frame:
  assumes "same_relation e fs r r1" "r_arity r2 = r_arity r1" "r_ov r2 = r_ov r1" "rel_is_idb r2 = rel_is_idb r1"
    "r_wal r2 = r_wal r1" "r_col_kind r2 = r_col_kind r1" "r_rev r2 = r_rev r1"
  shows "write_frame 1 r (mutated r2)"
  using assms by (simp add: write_frame_def same_relation_def)

lemma replace_with_ok:
  assumes "engine_ok e" "dafsa_create e \<noteq> None" "rel_ok e fs r" "ts_inv ts" "sorted_wrt (<) (ts_data ts)"
    and put: "\<And>r1 d. \<lbrakk>rel_ok e fs r1; r_state r1 = Owned; keyed (r_arity r1) d; r_arity r1 = r_arity r;
        dtuples (r_arity r1) d = ts_rows ts; same_relation e fs r r1; ts_arity ts = r_arity r\<rbrakk> \<Longrightarrow>
        rel_ok e fs (put d r1) \<and> spec (0, mutated (put d r1))"
    and err: "\<And>r1. same_relation e fs r r1 \<Longrightarrow> spec (-1, r1)"
  shows "spec (replace_with put e al fs ts r)" "rel_ok e fs (snd (replace_with put e al fs ts r))"
    "ts_arity ts = r_arity r \<Longrightarrow> generous al \<Longrightarrow> builds_succeed e \<Longrightarrow> fst (replace_with put e al fs ts r) = 0"
proof -
  obtain r1 where r1: "relEnsureOwned e fs r = (True, r1)" "rel_ok e fs r1" "r_state r1 = Owned" "same_relation e fs r r1"
    by (rule ensure_owned_ok [OF assms(1-3)])
  have ar: "r_arity r1 = r_arity r" using r1(4) by (simp add: same_relation_def)
  have p: "rel_ok e fs (put d r1) \<and> spec (0, mutated (put d r1))"
    if "dafsaBuildFromTs e al ts = Some d" "ts_arity ts = r_arity r" for d
    using build_ts_ok [OF assms(1,4,5) that(1)] that(2) r1 ar by (intro put) simp_all
  show "spec (replace_with put e al fs ts r)" "rel_ok e fs (snd (replace_with put e al fs ts r))"
    using r1 p err [OF r1(4)] err [of r] assms(3) by (auto simp: replace_with_def split: option.split)
  show "fst (replace_with put e al fs ts r) = 0"
    if "ts_arity ts = r_arity r" "generous al" "builds_succeed e"
    using build_ts_succeeds [OF that(2,3) assms(4,5)] that(1) r1 by (auto simp: replace_with_def)
qed

lemma build_view_ok:
  assumes "engine_ok e" "dafsa_create e \<noteq> None" "rel_ok e fs r" "ts_inv ts" "sorted_wrt (<) (ts_data ts)"
  shows "build_spec e fs ts r (rel_build_from_tupleset e al fs ts r)"
    "rel_ok e fs (snd (rel_build_from_tupleset e al fs ts r))"
    "ts_arity ts = r_arity r \<Longrightarrow> generous al \<Longrightarrow> builds_succeed e \<Longrightarrow> fst (rel_build_from_tupleset e al fs ts r) = 0"
proof -
  have put: "rel_ok e fs (r1\<lparr>r_d := Some d\<rparr>) \<and> build_spec e fs ts r (0, mutated (r1\<lparr>r_d := Some d\<rparr>))"
    if "rel_ok e fs r1" "r_state r1 = Owned" "keyed (r_arity r1) d" "dtuples (r_arity r1) d = ts_rows ts"
      "same_relation e fs r r1" for r1 d
    using put_view_ok [OF that(1-3)] mutated_frame [OF that(5), of "r1\<lparr>r_d := Some d\<rparr>"] that(4,5)
    by (simp add: build_spec_def same_relation_def)
  have err: "build_spec e fs ts r (-1, r1)" if "same_relation e fs r r1" for r1 using that by (simp add: build_spec_def)
  note ok = replace_with_ok [OF assms, of "\<lambda>d r. r\<lparr>r_d := Some d\<rparr>" "build_spec e fs ts r", OF put err]
  show "build_spec e fs ts r (rel_build_from_tupleset e al fs ts r)"
    "rel_ok e fs (snd (rel_build_from_tupleset e al fs ts r))"
    "ts_arity ts = r_arity r \<Longrightarrow> generous al \<Longrightarrow> builds_succeed e \<Longrightarrow> fst (rel_build_from_tupleset e al fs ts r) = 0"
    unfolding rel_build_from_tupleset_def by (rule ok(1), assumption+) (rule ok(2), assumption+, rule ok(3), assumption+)
qed

lemma build_base_ok:
  assumes "engine_ok e" "dafsa_create e \<noteq> None" "rel_ok e fs r" "ts_inv ts" "sorted_wrt (<) (ts_data ts)"
  shows "build_base_spec e fs ts r (rel_build_base_from_tupleset e al fs ts r)"
    "rel_ok e fs (snd (rel_build_base_from_tupleset e al fs ts r))"
    "ts_arity ts = r_arity r \<Longrightarrow> generous al \<Longrightarrow> builds_succeed e \<Longrightarrow> fst (rel_build_base_from_tupleset e al fs ts r) = 0"
proof -
  have put: "rel_ok e fs (set_base d r1) \<and> build_base_spec e fs ts r (0, mutated (set_base d r1))"
    if "rel_ok e fs r1" "r_state r1 = Owned" "keyed (r_arity r1) d" "dtuples (r_arity r1) d = ts_rows ts"
      "same_relation e fs r r1" for r1 d
    using put_base_ok [OF that(1-3)] mutated_frame [OF that(5), of "set_base d r1"] that(4,5)
    by (simp add: build_base_spec_def same_relation_def)
  have err: "build_base_spec e fs ts r (-1, r1)" if "same_relation e fs r r1" for r1
    using that by (simp add: build_base_spec_def)
  note ok = replace_with_ok [OF assms, of set_base "build_base_spec e fs ts r", OF put err]
  show "build_base_spec e fs ts r (rel_build_base_from_tupleset e al fs ts r)"
    "rel_ok e fs (snd (rel_build_base_from_tupleset e al fs ts r))"
    "ts_arity ts = r_arity r \<Longrightarrow> generous al \<Longrightarrow> builds_succeed e \<Longrightarrow> fst (rel_build_base_from_tupleset e al fs ts r) = 0"
    unfolding rel_build_base_from_tupleset_def by (rule ok(1), assumption+) (rule ok(2), assumption+, rule ok(3), assumption+)
qed
subsection \<open>The incremental fold\<close>

text \<open>What adding rows one by one to an owned relation keeps of it.\<close>

definition extends :: "engine \<Rightarrow> files \<Rightarrow> relation \<Rightarrow> relation \<Rightarrow> bool" where
  "extends e fs r r' \<longleftrightarrow> rel_ok e fs r' \<and> r_state r' = Owned \<and> r_arity r' = r_arity r \<and> r_ov r' = r_ov r \<and>
     rel_is_idb r' = rel_is_idb r \<and>
     rel_base e fs r' = (if rel_is_idb r then rel_base e fs r else rel_dset e fs r')"

lemma add_each_ok:
  assumes "engine_ok e" "rel_ok e fs r" "r_state r = Owned" "\<forall>t \<in> set rows. length t = r_arity r"
    "rel_is_idb r \<or> rel_base e fs r = rel_dset e fs r"
  shows "\<exists>rc r'. add_each e rows r = (rc, r') \<and> extends e fs r r' \<and> (rc = 0 \<or> rc = -1) \<and>
    grows rows rc (rel_dset e fs r) (rel_dset e fs r') \<and> (adds_succeed e \<longrightarrow> rc = 0)"
  using assms(2-)
proof (induction rows arbitrary: r)
  case (Cons t rows)
  have ar: "r_arity r \<le> MAX_ARITY" using Cons.prems(1) by (simp add: rel_ok_def)
  obtain d where d: "r_d r = Some d" "keyed (r_arity r) d" "rel_dset e fs r = dtuples (r_arity r) d"
    by (rule owned_cases [OF Cons.prems(1,2)]) blast
  obtain rc d' where add: "dafsa_add_n e d (encodeKey t) = (rc, d')" by fastforce
  have t: "length t = r_arity r" using Cons.prems(3) by simp
  have a: "keyed (r_arity r) d'" "add_result (dtuples (r_arity r) d) t rc (dtuples (r_arity r) d')"
    by (rule add_n_ok [OF assms(1) d(2) t ar add])+
  have D: "relAddD e (r_d r) t = (rc, Some d')" using d add by (simp add: relAddD_def)
  have succ: "adds_succeed e \<longrightarrow> rc \<ge> 0" using add by (metis adds_succeed_def fst_conv)
  note p = put_view_ok [OF Cons.prems(1,2) a(1)]
  let ?r1 = "r\<lparr>r_d := Some d'\<rparr>"
  let ?r2 = "if rc > 0 then mutated ?r1 else ?r1"
  have ext: "extends e fs r ?r2" using p Cons.prems(2,4) by (auto simp: extends_def)
  have ds: "rel_dset e fs ?r2 = dtuples (r_arity r) d'" using p(2) by simp
  show ?case
  proof (cases "rc < 0")
    case True
    have "extends e fs r ?r1" using p Cons.prems(2,4) by (auto simp: extends_def)
    moreover have "grows (t # rows) (-1) (rel_dset e fs r) (rel_dset e fs ?r1)"
      using add_result_grows [OF a(2)] p(2) d(3) by (auto simp: grows_def)
    ultimately show ?thesis using True D succ by auto
  next
    case False
    then have ins: "rel_dset e fs ?r2 = insert t (rel_dset e fs r)"
      using add_result_grows [OF a(2)] ds d(3) by simp
    have "rel_is_idb ?r2 \<or> rel_base e fs ?r2 = rel_dset e fs ?r2" using ext by (auto simp: extends_def)
    then obtain rc2 r3 where r3: "add_each e rows ?r2 = (rc2, r3)" "extends e fs ?r2 r3" "rc2 = 0 \<or> rc2 = -1"
      "grows rows rc2 (rel_dset e fs ?r2) (rel_dset e fs r3)" "adds_succeed e \<longrightarrow> rc2 = 0"
      using Cons.IH [of ?r2] ext Cons.prems(3) unfolding extends_def by fastforce
    have "extends e fs r r3" using ext r3(2) by (auto simp: extends_def)
    moreover have "grows (t # rows) rc2 (rel_dset e fs r) (rel_dset e fs r3)"
      by (rule grows_step [OF r3(4) ins])
    moreover have "add_each e (t # rows) r = (rc2, r3)" using D False r3(1) by (simp add: Let_def)
    ultimately show ?thesis using r3(3,5) by blast
  qed
qed (auto simp: extends_def grows_def)

lemma add_batch_ok:
  assumes "engine_ok e" "rel_ok e fs r" "r_state r = Owned" "ts_inv ts" "sorted_wrt (<) (ts_data ts)"
    "ts_arity ts = r_arity r" "rel_is_idb r \<or> rel_base e fs r = rel_dset e fs r"
  shows "\<exists>rc r'. add_batch e al ts r = (rc, r') \<and> extends e fs r r' \<and> (rc = 0 \<or> rc = -1) \<and>
    grows (ts_data ts) rc (rel_dset e fs r) (rel_dset e fs r') \<and>
    (generous al \<and> builds_succeed e \<and> adds_succeed e \<longrightarrow> rc = 0)"
proof (cases "viewOverlayClean r \<and> relViewDafsaEmpty e r")
  case False
  moreover have "\<forall>t \<in> set (ts_data ts). length t = r_arity r" using assms(4,6) by (simp add: ts_inv_def)
  ultimately show ?thesis
    using add_each_ok [OF assms(1-3) _ assms(7), of "ts_data ts"] by (auto simp: add_batch_def)
next
  case True
  have empty: "rel_dset e fs r = {}" using True view_empty_ok [OF assms(1-3)] by simp
  show ?thesis
  proof (cases "dafsaBuildFromTs e al ts")
    case None
    then have "\<not> (generous al \<and> builds_succeed e)" using build_ts_succeeds assms(4,5) by blast
    then show ?thesis
      using None True assms(2,3,7) by (auto simp: add_batch_def extends_def grows_def)
  next
    case (Some d)
    note b = build_ts_ok [OF assms(1,4,5) Some]
    have k: "keyed (r_arity r) d" "dtuples (r_arity r) d = ts_rows ts" using b assms(6) by simp_all
    note p = put_view_ok [OF assms(2,3) k(1)]
    let ?r' = "r\<lparr>r_d := Some d, r_dirty := True, r_rev := r_rev r + of_nat (ts_count ts)\<rparr>"
    have same: "rel_ok e fs ?r' = rel_ok e fs (r\<lparr>r_d := Some d\<rparr>)" "rel_dset e fs ?r' = rel_dset e fs (r\<lparr>r_d := Some d\<rparr>)"
      "rel_base e fs ?r' = rel_base e fs (r\<lparr>r_d := Some d\<rparr>)" "rel_is_idb ?r' = rel_is_idb (r\<lparr>r_d := Some d\<rparr>)"
      using assms(3) by (simp_all add: rel_ok_def owned_ok_def rel_dset_def rel_base_def base_of_def rel_is_idb_def
          mem_tuples_def split: option.split)
    have "extends e fs r ?r'" using p same assms(3) k(2) by (simp add: extends_def)
    moreover have "grows (ts_data ts) 0 (rel_dset e fs r) (rel_dset e fs ?r')"
      using same(2) p(2) k(2) empty by (simp add: grows_def ts_rows_def)
    ultimately show ?thesis using Some True by (auto simp: add_batch_def)
  qed
qed

lemma sorted_copy_ok:
  assumes "ts_inv t"
  shows "\<exists>res. sorted_copy al t = Some res \<and> (generous al \<and> ts_count t < 2 ^ 29 \<longrightarrow> res \<noteq> None) \<and>
    (\<forall>s. res = Some s \<longrightarrow> ts_inv s \<and> ts_arity s = ts_arity t \<and> sorted_wrt (<) (ts_data s) \<and> set (ts_data s) = set (ts_data t))"
proof -
  have ar: "1 \<le> ts_arity t" "ts_arity t \<le> 8" "\<forall>r \<in> set (ts_data t). length r = ts_arity t"
    using assms by (simp_all add: ts_inv_def)
  then obtain s0 where s0: "ts_init (ts_arity t) = Some s0" "ts_inv s0" "ts_arity s0 = ts_arity t" "ts_rows s0 = {}"
    using ts_init_ok [of "ts_arity t"] by (auto simp: init_spec_def split: option.splits)
  have c0: "ts_count s0 = 0" using s0(4) by (simp add: ts_rows_def ts_count_def)
  obtain n s1 where s1: "add_loop (ts_add al) s0 (ts_data t) = Some (n, s1)" "ts_inv s1" "ts_arity s1 = ts_arity s0"
    "0 \<le> n \<Longrightarrow> ts_rows s1 = ts_rows s0 \<union> set (ts_data t)"
    using tset.add_loop_ok [OF s0(2), of "ts_data t" al] ar(3) s0(3) by (auto split: if_splits)
  obtain s2 where s2: "ts_sort al s1 = Some s2" "ts_inv s2" "mset (ts_data s2) = mset (ts_data s1)"
    "sorted_wrt (<) (ts_data s2)" "ts_arity s2 = ts_arity s1"
    by (rule ts_sort_inv [OF s1(2)])
  have gen: "generous al \<and> ts_count t < 2 ^ 29 \<longrightarrow> 0 \<le> n"
    using ts_add_loop_generous [OF s0(2), of "ts_data t" al n s1] ar(3) s0(3) c0 s1(1) by (simp add: ts_count_def)
  have "0 \<le> n \<Longrightarrow> set (ts_data s2) = set (ts_data t)"
    using s1(4) s0(4) mset_eq_setD [OF s2(3)] by (simp add: ts_rows_def)
  then show ?thesis
    using s0 s1 s2 gen by (cases "n < 0") (auto simp: sorted_copy_def)
qed
definition rows_fit :: "allocator \<Rightarrow> tuple set \<Rightarrow> bool" where
  "rows_fit al R \<longleftrightarrow> generous al \<and> card R < 2 ^ 29"

lemma same_extends:
  assumes "rel_ok e fs r1" "r_state r1 = Owned" "same_relation e fs r r1" "extends e fs r1 r2"
  shows "rel_ok e fs r2" "r_ov r2 = r_ov r" "rel_is_idb r2 = rel_is_idb r" "r_arity r2 = r_arity r"
    "rel_base e fs r2 = (if rel_is_idb r then rel_base e fs r else rel_dset e fs r2)"
  using assms by (auto simp: extends_def same_relation_def)

lemma base_is_view:
  assumes "rel_ok e fs r"
  shows "rel_is_idb r \<or> rel_base e fs r = rel_dset e fs r"
proof (cases "r_state r = Owned")
  case True
  then show ?thesis using assms by (auto simp: rel_is_idb_def rel_base_def rel_dset_def base_of_def)
next
  case False
  then show ?thesis using rel_ok_idb [OF assms False] by (auto simp: rel_base_def rel_dset_def)
qed

lemma fold_rows_ok:
  assumes "engine_ok e" "dafsa_create e \<noteq> None" "rel_ok e fs r" "ts_inv ts"
  shows "\<exists>rc r'. rel_add_tupleset e al fs ts r = Some (rc, r') \<and> fold_spec e fs ts r (rc, r') \<and> rel_ok e fs r' \<and>
    (ts_arity ts = r_arity r \<and> rows_fit al (ts_rows ts) \<and> builds_succeed e \<and> adds_succeed e \<longrightarrow> rc = 0)"
proof (cases "ts_arity ts \<noteq> r_arity r \<or> ts_count ts = 0")
  case True
  then show ?thesis
    using assms(3) base_is_view [OF assms(3)]
    by (auto simp: rel_add_tupleset_def fold_spec_def grows_def ts_count_def)
next
  case False
  then have ar: "ts_arity ts = r_arity r" "ts_count ts \<noteq> 0" by auto
  obtain r1 where r1: "relEnsureOwned e fs r = (True, r1)" "rel_ok e fs r1" "r_state r1 = Owned" "same_relation e fs r r1"
    by (rule ensure_owned_ok [OF assms(1-3)])
  have s: "r_arity r1 = r_arity r" "rel_dset e fs r1 = rel_dset e fs r" using r1(4) by (simp_all add: same_relation_def)
  have card: "card (ts_rows ts) = ts_count ts"
    using assms(4) by (simp add: ts_rows_def ts_count_def ts_inv_def distinct_card)
  have step: "\<exists>rc r'. add_batch e al src r1 = (rc, r') \<and> fold_spec e fs ts r (rc, r') \<and> rel_ok e fs r' \<and>
      (generous al \<and> builds_succeed e \<and> adds_succeed e \<longrightarrow> rc = 0)"
    if src: "ts_inv src" "sorted_wrt (<) (ts_data src)" "ts_arity src = r_arity r1" "set (ts_data src) = set (ts_data ts)"
    for src
  proof -
    obtain rc r' where b: "add_batch e al src r1 = (rc, r')" "extends e fs r1 r'" "rc = 0 \<or> rc = -1"
      "grows (ts_data src) rc (rel_dset e fs r1) (rel_dset e fs r')"
      "generous al \<and> builds_succeed e \<and> adds_succeed e \<longrightarrow> rc = 0"
      using add_batch_ok [OF assms(1) r1(2,3) src(1-3) base_is_view [OF r1(2)], of al] by blast
    then show ?thesis
      using same_extends [OF r1(2-4) b(2)] s src(4) by (auto simp: fold_spec_def grows_def)
  qed
  show ?thesis
  proof (cases "tsSorted ts")
    case True
    obtain rc r' where "add_batch e al ts r1 = (rc, r')" "fold_spec e fs ts r (rc, r')" "rel_ok e fs r'"
      "generous al \<and> builds_succeed e \<and> adds_succeed e \<longrightarrow> rc = 0"
      using step [OF assms(4) tsSorted_strict [OF assms(4) True]] ar s by auto
    then show ?thesis using True ar r1 by (auto simp: rel_add_tupleset_def rows_fit_def)
  next
    case nsorted: False
    obtain res where c: "sorted_copy al ts = Some res" "generous al \<and> ts_count ts < 2 ^ 29 \<longrightarrow> res \<noteq> None"
      "\<forall>s. res = Some s \<longrightarrow> ts_inv s \<and> ts_arity s = ts_arity ts \<and> sorted_wrt (<) (ts_data s) \<and> set (ts_data s) = set (ts_data ts)"
      using sorted_copy_ok [OF assms(4), of al] by blast
    show ?thesis
    proof (cases res)
      case None
      have "fold_spec e fs ts r (-1, r1)"
        using r1(4) base_is_view [OF assms(3)] by (auto simp: fold_spec_def grows_def same_relation_def)
      then show ?thesis using None c(1,2) nsorted ar r1 card by (auto simp: rel_add_tupleset_def rows_fit_def)
    next
      case (Some src)
      obtain rc r' where "add_batch e al src r1 = (rc, r')" "fold_spec e fs ts r (rc, r')" "rel_ok e fs r'"
        "generous al \<and> builds_succeed e \<and> adds_succeed e \<longrightarrow> rc = 0"
        using step [of src] c(3) Some ar s by auto
      then show ?thesis using Some c(1) nsorted ar r1 by (auto simp: rel_add_tupleset_def rows_fit_def)
    qed
  qed
qed

subsection \<open>Copies and the reset of a view\<close>

lemma copy_ok:
  assumes "engine_ok e" "keyed arity d" "1 \<le> arity" "arity \<le> MAX_ARITY"
  shows "\<exists>res. dafsaCopyFrom e al arity (Some d) = Some res \<and>
    (\<forall>d'. res = Some d' \<longrightarrow> keyed arity d' \<and> dtuples arity d' \<subseteq> dtuples arity d \<and>
       (rows_fit al (dtuples arity d) \<longrightarrow> dtuples arity d' = dtuples arity d)) \<and>
    (rows_fit al (dtuples arity d) \<and> builds_succeed e \<longrightarrow> res \<noteq> None)"
proof -
  let ?rows = "sorted_list_of_set (dtuples arity d)"
  obtain ts where ts: "ts_init arity = Some ts" "ts_inv ts" "ts_arity ts = arity" "ts_rows ts = {}"
    using ts_init_ok [of arity] assms(3,4) by (auto simp: init_spec_def MAX_ARITY_def split: option.splits)
  have c0: "ts_count ts = 0" using ts(4) by (simp add: ts_rows_def ts_count_def)
  have len: "\<forall>t \<in> set ?rows. length t = ts_arity ts"
    using ts(3) by (simp add: set_sorted_list_of_set [OF finite_dtuples]) (simp add: dtuples_def)
  obtain stop n ts1 where u: "until (hand_out (ts_sink_cb al)) ?rows (0, Some ts) = (stop, n, Some ts1)"
    "collected ?rows ts ts1" "generous al \<and> ts_count ts + length ?rows < 2 ^ 29 \<longrightarrow> sink_spec ?rows ts ts1"
    using sink_until [OF ts(2) len, of al 0] by blast
  have p: "relPrefixD e arity (Some d) None 0 (ts_sink_cb al) (Some ts) = (int n, Some ts1)"
    using relPrefixD_deliver [OF assms(1,2,4), of 0 "[]" "ts_sink_cb al" "Some ts"] u(1)
    by (simp add: relPrefixD_null matching_def deliver_def)
  have inv1: "ts_inv ts1" using u(2) by (simp add: collected_def)
  obtain ts2 where ts2: "ts_sort al ts1 = Some ts2" "ts_inv ts2" "mset (ts_data ts2) = mset (ts_data ts1)"
    "sorted_wrt (<) (ts_data ts2)" "ts_arity ts2 = ts_arity ts1"
    by (rule ts_sort_inv [OF inv1])
  have rows: "ts_rows ts2 = ts_rows ts1" "ts_arity ts2 = arity"
    using mset_eq_setD [OF ts2(3)] ts2(5) u(2) ts(3) by (simp_all add: ts_rows_def collected_def)
  have sub: "ts_rows ts2 \<subseteq> dtuples arity d" "rows_fit al (dtuples arity d) \<Longrightarrow> ts_rows ts2 = dtuples arity d"
    using u(2,3) rows(1) ts(4) c0 by (auto simp: collected_def sink_spec_def rows_fit_def)
  have r: "dafsaCopyFrom e al arity (Some d) = Some (dafsaBuildFromTs e al ts2)"
    using ts(1) p ts2(1) by (simp add: dafsaCopyFrom_def)
  have k: "keyed arity d' \<and> dtuples arity d' = ts_rows ts2" if "dafsaBuildFromTs e al ts2 = Some d'" for d'
    using build_ts_ok [OF assms(1) ts2(2,4) that] rows(2) by simp
  have "dafsaBuildFromTs e al ts2 \<noteq> None" if "generous al" "builds_succeed e"
    by (rule build_ts_succeeds [OF that ts2(2,4)])
  with r k sub show ?thesis by (auto simp: rows_fit_def)
qed

definition shrinks :: "engine \<Rightarrow> files \<Rightarrow> relation \<Rightarrow> relation \<Rightarrow> bool" where
  "shrinks e fs r r' \<longleftrightarrow> rel_ok e fs r' \<and> rel_base e fs r' \<subseteq> rel_base e fs r \<and>
     rel_dset e fs r' \<subseteq> rel_dset e fs r \<union> rel_base e fs r \<and> r_ov r' = r_ov r \<and> r_arity r' = r_arity r"

lemma reset_ok:
  assumes "engine_ok e" "dafsa_create e \<noteq> None" "rel_ok e fs r"
  shows "\<exists>rc r'. rel_reset_view e al fs r = Some (rc, r') \<and> shrinks e fs r r' \<and>
    (rows_fit al (rel_base e fs r) \<longrightarrow> reset_view_spec e fs r (rc, r') \<and> (builds_succeed e \<longrightarrow> rc = 0))"
proof -
  obtain r1 where r1: "relEnsureOwned e fs r = (True, r1)" "rel_ok e fs r1" "r_state r1 = Owned" "same_relation e fs r r1"
    by (rule ensure_owned_ok [OF assms(1-3)])
  have s: "r_arity r1 = r_arity r" "rel_dset e fs r1 = rel_dset e fs r" "rel_base e fs r1 = rel_base e fs r"
    "r_ov r1 = r_ov r" using r1(4) by (simp_all add: same_relation_def)
  have ar: "1 \<le> r_arity r1" "r_arity r1 \<le> MAX_ARITY" using r1(2) by (simp_all add: rel_ok_def)
  obtain d where d: "r_d r1 = Some d" "keyed (r_arity r1) d" "rel_dset e fs r1 = dtuples (r_arity r1) d"
    "\<forall>b. r_base r1 = Some b \<longrightarrow> keyed (r_arity r1) b \<and> rel_base e fs r1 = dtuples (r_arity r1) b"
    "r_base r1 = None \<longrightarrow> rel_base e fs r1 = dtuples (r_arity r1) d" "rel_is_idb r1 \<longleftrightarrow> r_base r1 \<noteq> None"
    by (rule owned_cases [OF r1(2,3)]) (rule that; assumption)
  define b where "b = (case r_base r1 of None \<Rightarrow> d | Some b \<Rightarrow> b)"
  have b: "keyed (r_arity r1) b" "rel_base e fs r = dtuples (r_arity r1) b"
    using d s by (auto simp: b_def split: option.splits)
  obtain res where c: "dafsaCopyFrom e al (r_arity r1) (Some b) = Some res"
    "\<forall>d'. res = Some d' \<longrightarrow> keyed (r_arity r1) d' \<and> dtuples (r_arity r1) d' \<subseteq> dtuples (r_arity r1) b \<and>
       (rows_fit al (dtuples (r_arity r1) b) \<longrightarrow> dtuples (r_arity r1) d' = dtuples (r_arity r1) b)"
    "rows_fit al (dtuples (r_arity r1) b) \<and> builds_succeed e \<longrightarrow> res \<noteq> None"
    using copy_ok [OF assms(1) b(1) ar, of al] by blast
  show ?thesis
  proof (cases res)
    case None
    have "rel_reset_view e al fs r = Some (-1, r1)"
      using r1(1) c(1) None d(1) by (auto simp: rel_reset_view_def b_def split: option.splits)
    moreover have "shrinks e fs r r1" using r1(2) s by (simp add: shrinks_def)
    moreover have "reset_view_spec e fs r (-1, r1)" using r1(4) by (simp add: reset_view_spec_def)
    ultimately show ?thesis using c(3) None b(2) by auto
  next
    case (Some d')
    note k = c(2) [rule_format, OF Some]
    show ?thesis
    proof (cases "r_base r1")
      case None
      let ?r = "r1\<lparr>r_base := Some d'\<rparr>"
      have "rel_ok e fs (r1\<lparr>r_d := Some d, r_base := Some d'\<rparr>)"
        by (rule rel_ok_replace [OF r1(2,3) d(2)]) (use k in simp)
      then have ok: "rel_ok e fs ?r" using d(1) by (cases r1) simp
      have cont: "rel_dset e fs ?r = dtuples (r_arity r1) b" "rel_base e fs ?r = dtuples (r_arity r1) d'" "rel_is_idb ?r"
        using r1(3) None d(1,3) by (auto simp: rel_dset_def rel_base_def mem_tuples_def base_of_def rel_is_idb_def b_def)
      have "rel_reset_view e al fs r = Some (0, mutated ?r)"
        using r1(1) c(1) Some None d(1) by (simp add: rel_reset_view_def b_def)
      moreover have "shrinks e fs r (mutated ?r)" using ok cont k s b by (auto simp: shrinks_def)
      moreover have "rows_fit al (rel_base e fs r) \<longrightarrow> reset_view_spec e fs r (0, mutated ?r)"
        using cont k b(2) s by (auto simp: reset_view_spec_def)
      ultimately show ?thesis by auto
    next
      case (Some b0)
      let ?r = "r1\<lparr>r_d := Some d'\<rparr>"
      have k1: "keyed (r_arity r1) d'" using k by simp
      note p = put_view_ok [OF r1(2,3) k1]
      have idb: "rel_is_idb r1" using d(6) Some by simp
      have "rel_reset_view e al fs r = Some (0, mutated ?r)"
        using r1(1) c(1) \<open>res = Some d'\<close> Some by (simp add: rel_reset_view_def b_def)
      moreover have "shrinks e fs r (mutated ?r)" using p k s b idb by (auto simp: shrinks_def)
      moreover have "rows_fit al (rel_base e fs r) \<longrightarrow> reset_view_spec e fs r (0, mutated ?r)"
        using p k b(2) s idb by (auto simp: reset_view_spec_def)
      ultimately show ?thesis by auto
    qed
  qed
qed
subsection \<open>Properties\<close>

text \<open>A bulk build replaces exactly what it names by the rows of a sorted set: the view of a rule
  head alone, the base alone, or both where they are one automaton; a refusal leaves the content as it
  was, and comes only from a wrong arity or a lack of memory.\<close>

theorem rel_build_correct:
  assumes "engine_ok e" "dafsa_create e \<noteq> None" "rel_ok e fs r" "ts_inv ts" "sorted_wrt (<) (ts_data ts)"
  shows "build_spec e fs ts r (rel_build_from_tupleset e al fs ts r) \<and>
    rel_ok e fs (snd (rel_build_from_tupleset e al fs ts r)) \<and>
    build_base_spec e fs ts r (rel_build_base_from_tupleset e al fs ts r) \<and>
    rel_ok e fs (snd (rel_build_base_from_tupleset e al fs ts r)) \<and>
    (ts_arity ts = r_arity r \<and> generous al \<and> builds_succeed e \<longrightarrow>
       fst (rel_build_from_tupleset e al fs ts r) = 0 \<and> fst (rel_build_base_from_tupleset e al fs ts r) = 0)"
  using build_view_ok [OF assms, of al] build_base_ok [OF assms, of al] by blast

text \<open>A set of one row, filled by the code.\<close>

lemma one_set:
  obtains n s1 where "add_loop (ts_add (\<lambda>_ _. True)) (the (ts_init 2)) [[1, 2]] = Some (n, s1)"
    "ts_inv s1" "ts_data s1 = [[1, 2]]" "ts_arity s1 = 2"
proof -
  obtain s0 where s0: "ts_init 2 = Some s0" "ts_inv s0" "ts_arity s0 = 2" "ts_rows s0 = {}"
    using ts_init_ok [of 2] by (auto simp: init_spec_def split: option.splits)
  have len: "\<forall>t \<in> set [[1, 2 :: u32]]. length t = ts_arity s0" using s0(3) by simp
  obtain n s1 where s1: "add_loop (ts_add (\<lambda>_ _. True)) s0 [[1, 2]] = Some (n, s1)" "ts_inv s1" "ts_arity s1 = 2"
    "if n < 0 then n = -1 \<and> ts_rows s1 \<subseteq> ts_rows s0 \<union> set [[1, 2]]
     else ts_rows s1 = ts_rows s0 \<union> set [[1, 2]] \<and> n = int (card (set [[1, 2]] - ts_rows s0))"
    using tset.add_loop_ok [OF s0(2) len, of "\<lambda>_ _. True"] s0(3) by (elim exE conjE) (rule that; simp only:)
  have "0 \<le> n"
    by (rule ts_add_loop_generous [OF s0(2) len _ _ s1(1)])
      (use s0(4) in \<open>simp_all add: ts_count_def ts_rows_def generous_def\<close>)
  then have "set (ts_data s1) = {[1, 2]}" "distinct (ts_data s1)"
    using s1(2,4) s0(4) by (simp_all add: ts_rows_def ts_inv_def)
  then have "ts_data s1 = [[1, 2]]"
    by (cases "ts_data s1"; cases "tl (ts_data s1)") auto
  with that [of n s1] s1 s0(1) show thesis by (simp del: add_loop.simps)
qed

lemma trie_builds [simp]: "builds_succeed trie_engine"
  by (simp add: builds_succeed_def trie_engine_def)

theorem rel_build_correct_witness:
  "\<exists>ts r. ts_data ts = [[1, 2]] \<and>
    rel_build_from_tupleset trie_engine (\<lambda>_ _. True) no_files ts fresh2 = (0, r) \<and>
    rel_dset trie_engine no_files r = {[1, 2]} \<and> rel_base trie_engine no_files r = {[1, 2]}"
proof (rule one_set)
  fix n ts assume ts: "ts_inv ts" "ts_data ts = [[1, 2]]" "ts_arity ts = 2"
  have srt: "sorted_wrt (<) (ts_data ts)" using ts(2) by simp
  obtain rc r where b: "rel_build_from_tupleset trie_engine (\<lambda>_ _. True) no_files ts fresh2 = (rc, r)" by fastforce
  show ?thesis
    using rel_build_correct [OF trie_engine_ok trie_create_ne fresh2_ok(1) ts(1) srt, of no_files "\<lambda>_ _. True"]
      fresh2_ok ts(2,3) b
    by (intro exI [of _ ts] exI [of _ r]) (auto simp: build_spec_def generous_def ts_rows_def)
qed

text \<open>C20: the re-evaluation of a rule head. Resetting the view splits the base off on the first
  call and drops stale derived rows on every later one, and folding the derived rows in then makes
  the view exactly base and derived, with the base unchanged throughout. With memory for the copy
  both succeed; without it the copy may be partial, but never holds a row that was not there, and
  the relation stays well formed.\<close>

theorem rel_rederive_correct:
  assumes "engine_ok e" "dafsa_create e \<noteq> None" "rel_ok e fs r" "ts_inv ts"
  shows "\<exists>rc1 r1 rc2 r2. rel_reset_view e al fs r = Some (rc1, r1) \<and> shrinks e fs r r1 \<and>
    rel_add_tupleset e al fs ts r1 = Some (rc2, r2) \<and> fold_spec e fs ts r1 (rc2, r2) \<and> rel_ok e fs r2 \<and>
    (rows_fit al (rel_base e fs r) \<longrightarrow> reset_view_spec e fs r (rc1, r1) \<and>
      (builds_succeed e \<and> adds_succeed e \<and> rows_fit al (ts_rows ts) \<and> ts_arity ts = r_arity r \<longrightarrow>
        rc1 = 0 \<and> rc2 = 0 \<and> rel_is_idb r2 \<and> rel_base e fs r2 = rel_base e fs r \<and>
        rel_dset e fs r2 = rel_base e fs r \<union> ts_rows ts))"
proof -
  obtain rc1 r1 where r1: "rel_reset_view e al fs r = Some (rc1, r1)" "shrinks e fs r r1"
    "rows_fit al (rel_base e fs r) \<longrightarrow> reset_view_spec e fs r (rc1, r1) \<and> (builds_succeed e \<longrightarrow> rc1 = 0)"
    using reset_ok [OF assms(1-3), of al] by blast
  have ok1: "rel_ok e fs r1" "r_arity r1 = r_arity r" using r1(2) by (simp_all add: shrinks_def)
  obtain rc2 r2 where r2: "rel_add_tupleset e al fs ts r1 = Some (rc2, r2)" "fold_spec e fs ts r1 (rc2, r2)"
    "rel_ok e fs r2"
    "ts_arity ts = r_arity r1 \<and> rows_fit al (ts_rows ts) \<and> builds_succeed e \<and> adds_succeed e \<longrightarrow> rc2 = 0"
    using fold_rows_ok [OF assms(1,2) ok1(1) assms(4), of al] by blast
  have both: "rc1 = 0 \<and> rc2 = 0 \<and> rel_is_idb r2 \<and> rel_base e fs r2 = rel_base e fs r \<and>
      rel_dset e fs r2 = rel_base e fs r \<union> ts_rows ts"
    if fit: "rows_fit al (rel_base e fs r)" "builds_succeed e" "adds_succeed e" "rows_fit al (ts_rows ts)" "ts_arity ts = r_arity r"
  proof -
    have "rc1 = 0" "reset_view_spec e fs r (rc1, r1)" using r1(3) fit by blast+
    then have reset: "rel_is_idb r1" "rel_base e fs r1 = rel_base e fs r" "rel_dset e fs r1 = rel_base e fs r"
      by (simp_all add: reset_view_spec_def)
    have "rc2 = 0" using r2(4) ok1(2) fit by simp
    with r2(2) have "rel_dset e fs r2 = rel_dset e fs r1 \<union> ts_rows ts" "rel_is_idb r2 = rel_is_idb r1"
      "rel_base e fs r2 = rel_base e fs r1"
      using reset(1) by (simp_all add: fold_spec_def grows_def ts_rows_def)
    with \<open>rc1 = 0\<close> \<open>rc2 = 0\<close> reset show ?thesis by simp
  qed
  show ?thesis
    by (intro exI [of _ rc1] exI [of _ r1] exI [of _ rc2] exI [of _ r2] conjI impI r1(1,2) r2(1-3))
      (use r1(3) both in blast)+
qed

theorem rel_rederive_correct_witness:
  "\<exists>ts r1 r2. ts_data ts = [[1, 2]] \<and>
    rel_reset_view trie_engine (\<lambda>_ _. True) no_files fresh2 = Some (0, r1) \<and>
    rel_add_tupleset trie_engine (\<lambda>_ _. True) no_files ts r1 = Some (0, r2) \<and>
    rel_is_idb r2 \<and> rel_dset trie_engine no_files r2 = {[1, 2]} \<and> rel_base trie_engine no_files r2 = {}"
proof (rule one_set)
  fix n ts assume ts: "ts_inv ts" "ts_data ts = [[1, 2]]" "ts_arity ts = 2"
  have fit: "rows_fit (\<lambda>_ _. True) (ts_rows ts)" "rows_fit (\<lambda>_ _. True) (rel_base trie_engine no_files fresh2)"
    using ts(2) fresh2_ok(4) by (simp_all add: rows_fit_def generous_def ts_rows_def)
  show ?thesis
    using rel_rederive_correct [OF trie_engine_ok trie_create_ne fresh2_ok(1) ts(1), of "\<lambda>_ _. True" no_files]
      fresh2_ok ts(2,3) fit
    by (intro exI [of _ ts]) (auto simp: ts_rows_def)
qed

end
