(* ===== verification/RelationWal.thy ===== *)
theory RelationWal
  imports RelationBulk
begin

text \<open>
  A relation on disk (\<^verbatim>\<open>zig/src/relation.zig\<close>): saving, the write-ahead log of base operations, its replay,
  compaction, and the four ways of opening. The log is the engine's (a parameter); the handle
  holds the records a replay of the file delivers. Only a log opened for writing has its path recorded,
  and only such a log can be truncated.
\<close>

subsection \<open>Saving\<close>

definition save_dafsa :: "engine \<Rightarrow> dafsa option \<Rightarrow> string \<Rightarrow> files \<Rightarrow> int \<times> files" where
  "save_dafsa e d path fs = (case d of None \<Rightarrow> (-1, fs) | Some x \<Rightarrow> dafsa_save e x path fs)"

definition rel_save :: "engine \<Rightarrow> string \<Rightarrow> files \<Rightarrow> relation \<Rightarrow> int \<times> relation \<times> files" where
  "rel_save e path fs r =
     (case relEnsureOwned e fs r of (okay, r1) \<Rightarrow>
        if \<not> okay then (-1, r1, fs)
        else case save_dafsa e (r_d r1) path fs of (rc, fs1) \<Rightarrow> (rc, r1, fs1))"

definition rel_save_base :: "engine \<Rightarrow> string \<Rightarrow> files \<Rightarrow> relation \<Rightarrow> int \<times> relation \<times> files" where
  "rel_save_base e path fs r =
     (case relEnsureOwned e fs r of (okay, r1) \<Rightarrow>
        if \<not> okay then (-1, r1, fs)
        else case save_dafsa e (base_of r1) path fs of (rc, fs1) \<Rightarrow> (rc, r1, fs1))"

subsection \<open>Replay\<close>

text \<open>One record: after the first error the rest is skipped; an unknown operation is ignored.\<close>

definition walReplayCb :: "engine \<Rightarrow> u8 \<times> bytes \<Rightarrow> relation \<times> int \<Rightarrow> relation \<times> int" where
  "walReplayCb e rec ctx =
     (case (rec, ctx) of ((op, key), (r, okay)) \<Rightarrow>
        if okay \<noteq> 0 then (r, okay)
        else case base_of r of
          None \<Rightarrow> (r, if op = DAFSA_WAL_OP_ADD \<or> op = DAFSA_WAL_OP_DEL then -1 else 0)
        | Some b \<Rightarrow>
            if op = DAFSA_WAL_OP_ADD then
              (case dafsa_add_n e b key of (rc, b') \<Rightarrow> (set_base b' r, if rc < 0 then -1 else 0))
            else if op = DAFSA_WAL_OP_DEL then
              (case dafsa_delete_n e b key of (rc, b') \<Rightarrow> (set_base b' r, if rc < 0 then -1 else 0))
            else (r, 0))"

definition rel_wal_replay_into :: "engine \<Rightarrow> files \<Rightarrow> relation \<Rightarrow> int \<times> relation" where
  "rel_wal_replay_into e fs r =
     (case r_wal r of
        None \<Rightarrow> (-1, r)
      | Some w \<Rightarrow>
          (case relEnsureOwned e fs r of (okay, r1) \<Rightarrow>
             if \<not> okay then (-1, r1)
             else case dafsa_wal_replay e w of (rc, recs) \<Rightarrow>
               case fold (walReplayCb e) recs (r1, 0) of (r2, ok2) \<Rightarrow>
                 if rc \<noteq> 0 then (-1, r2) else (ok2, r2)))"

subsection \<open>Appending and compacting\<close>

definition wal_append :: "u8 \<Rightarrow> engine \<Rightarrow> files \<Rightarrow> bytes \<Rightarrow> relation \<Rightarrow> int \<times> relation" where
  "wal_append op e fs key r =
     (case r_wal r of
        None \<Rightarrow> (-1, r)
      | Some w \<Rightarrow>
          (case relEnsureOwned e fs r of (okay, r1) \<Rightarrow>
             if \<not> okay then (-1, r1)
             else case dafsa_wal_append e w op key of (rc, w') \<Rightarrow>
               let r2 = r1\<lparr>r_wal := Some w'\<rparr> in
               if rc \<noteq> 0 then (-1, r2)
               else (0, r2\<lparr>r_wal_appended := (r_wal_appended r2 + (dw_size w' - dw_size w)) mod 2 ^ 64\<rparr>)))"

definition rel_wal_append_add :: "engine \<Rightarrow> files \<Rightarrow> bytes \<Rightarrow> relation \<Rightarrow> int \<times> relation" where
  "rel_wal_append_add e fs key r = wal_append DAFSA_WAL_OP_ADD e fs key r"

definition rel_wal_append_del :: "engine \<Rightarrow> files \<Rightarrow> bytes \<Rightarrow> relation \<Rightarrow> int \<times> relation" where
  "rel_wal_append_del e fs key r = wal_append DAFSA_WAL_OP_DEL e fs key r"

definition rel_wal_sync :: "io \<Rightarrow> relation \<Rightarrow> int" where
  "rel_wal_sync io r = (if r_wal r = None then -1 else if io_ok io ''dafsa_wal_sync'' then 0 else -1)"

text \<open>A path without a slash stands for the root directory here, unlike in \<open>fsync_dir_of_path\<close>.\<close>

definition fsyncParentDir :: "io \<Rightarrow> allocator \<Rightarrow> string \<Rightarrow> int" where
  "fsyncParentDir io al path =
     (if CHR ''/'' \<notin> set path \<or> parent_dir path = ''/'' then fsync_dir io ''/''
      else if \<not> al ''fsyncParentDir'' (length (parent_dir path) + 1) then -1
      else fsync_dir io (parent_dir path))"

text \<open>The log's file is truncated first; the handle's size follows when the truncation is durable.\<close>

definition truncate_log :: "io \<Rightarrow> allocator \<Rightarrow> relation \<Rightarrow> int \<times> relation" where
  "truncate_log io al r =
     (case (r_wal r, r_wal_path r) of
        (Some w, Some p) \<Rightarrow>
          if \<not> io_ok io ''ftruncate'' then (-1, r)
          else let w1 = w\<lparr>dw_recs := []\<rparr> in
            if \<not> io_ok io ''fsync'' then (-1, r\<lparr>r_wal := Some w1\<rparr>)
            else let r2 = r\<lparr>r_wal := Some (w1\<lparr>dw_size := 16\<rparr>)\<rparr> in
              (if fsyncParentDir io al p \<noteq> 0 then -1 else 0, r2)
      | _ \<Rightarrow> (-1, r))"

definition rel_compact :: "engine \<Rightarrow> io \<Rightarrow> allocator \<Rightarrow> string \<Rightarrow> files \<Rightarrow> relation \<Rightarrow> int \<times> relation \<times> files" where
  "rel_compact e io al dafsa_path fs r =
     (if r_wal r = None then (-1, r, fs)
      else case relEnsureOwned e fs r of (okay, r1) \<Rightarrow>
        if \<not> okay then (-1, r1, fs)
        else case rel_overlay_flush e fs r1 of (rf, r2) \<Rightarrow>
          if rf \<noteq> 0 then (-1, r2, fs)
          else case save_dafsa e (base_of r2) dafsa_path fs of (rs, fs1) \<Rightarrow>
            if rs \<noteq> 0 then (-1, r2, fs1)
            else case truncate_log io al r2 of (rt, r3) \<Rightarrow> (rt, r3, fs1))"

definition rel_wal_size :: "relation \<Rightarrow> nat" where
  "rel_wal_size r = (case r_wal r of None \<Rightarrow> 0 | Some w \<Rightarrow> dw_size w)"

definition rel_dafsa_size :: "engine \<Rightarrow> files \<Rightarrow> relation \<Rightarrow> nat \<times> relation" where
  "rel_dafsa_size e fs r =
     (case relEnsureOwned e fs r of (okay, r1) \<Rightarrow>
        if \<not> okay then (0, r1)
        else case base_of r1 of
          None \<Rightarrow> (0, r1)
        | Some b \<Rightarrow> (dafsa_n_reachable e b * 64 + dafsa_n_trans e b * 8, r1))"

subsection \<open>Opening\<close>

text \<open>Recovery: load the automata (the base apart for a rule head), replay the log into the base.\<close>

definition recover_now :: "engine \<Rightarrow> files \<Rightarrow> string option \<Rightarrow> string \<Rightarrow> relation \<Rightarrow> relation option" where
  "recover_now e fs base_path dafsa_path r =
     (case (case base_path of None \<Rightarrow> Some None | Some p \<Rightarrow> map_option Some (load_or_create e (fs p))) of
        None \<Rightarrow> None
      | Some b \<Rightarrow>
          (case load_or_create e (fs dafsa_path) of
             None \<Rightarrow> None
           | Some d \<Rightarrow>
               (case rel_wal_replay_into e fs (r\<lparr>r_d := Some d, r_base := b\<rparr>) of (rc, r1) \<Rightarrow>
                  if rc \<noteq> 0 then None else Some r1)))"

definition defer_load :: "allocator \<Rightarrow> string option \<Rightarrow> string \<Rightarrow> relation \<Rightarrow> relation option" where
  "defer_load al base_path dafsa_path r =
     (if \<not> al ''strdup'' (length dafsa_path + 1) then None
      else if (case base_path of None \<Rightarrow> False | Some p \<Rightarrow> \<not> al ''strdup'' (length p + 1)) then None
      else Some (r\<lparr>r_state := Deferred, r_on_disk_dafsa := Some dafsa_path, r_on_disk_base := base_path\<rparr>))"

text \<open>Opening the log for writing creates or repairs its file.\<close>

definition open_writing ::
  "engine \<Rightarrow> allocator \<Rightarrow> files \<Rightarrow> string option \<Rightarrow> string \<Rightarrow> string \<Rightarrow> nat \<Rightarrow> relation option \<times> files" where
  "open_writing e al fs base_path dafsa_path wal_path arity =
     (if arity = 0 \<or> arity > MAX_ARITY then (None, fs)
      else if \<not> al ''rel_open_writable'' 1 then (None, fs)
      else case dafsa_wal_open_rw e (fs wal_path) of
        None \<Rightarrow> (None, fs)
      | Some w \<Rightarrow>
          let fs1 = fs(wal_path := Some (dafsa_wal_image e (dw_recs w))) in
          if \<not> al ''strdup'' (length wal_path + 1) then (None, fs1)
          else
            let r = (zeroed arity)\<lparr>r_wal := Some w, r_wal_path := Some wal_path\<rparr> in
            if dw_size w > 16
            then (map_option (\<lambda>r1. r1\<lparr>r_dirty := True\<rparr>) (recover_now e fs1 base_path dafsa_path r), fs1)
            else (defer_load al base_path dafsa_path r, fs1))"

definition rel_open_writable ::
  "engine \<Rightarrow> allocator \<Rightarrow> files \<Rightarrow> string \<Rightarrow> string \<Rightarrow> nat \<Rightarrow> relation option \<times> files" where
  "rel_open_writable e al fs dafsa_path wal_path arity = open_writing e al fs None dafsa_path wal_path arity"

definition rel_open_writable_idb ::
  "engine \<Rightarrow> allocator \<Rightarrow> files \<Rightarrow> string \<Rightarrow> string \<Rightarrow> string \<Rightarrow> nat \<Rightarrow> relation option \<times> files" where
  "rel_open_writable_idb e al fs base_path dafsa_path wal_path arity =
     open_writing e al fs (Some base_path) dafsa_path wal_path arity"

text \<open>A read-only open tolerates a log it cannot open, and changes no file.\<close>

definition open_reading ::
  "engine \<Rightarrow> allocator \<Rightarrow> files \<Rightarrow> string option \<Rightarrow> string \<Rightarrow> string option \<Rightarrow> nat \<Rightarrow> relation option" where
  "open_reading e al fs base_path dafsa_path wal_path arity =
     (if arity = 0 \<or> arity > MAX_ARITY then None
      else if \<not> al ''rel_open_readonly'' 1 then None
      else
        let wal = (case wal_path of None \<Rightarrow> None | Some p \<Rightarrow> dafsa_wal_open_ro e (fs p));
            r = (zeroed arity)\<lparr>r_wal := wal\<rparr> in
        if (case wal of None \<Rightarrow> False | Some w \<Rightarrow> dw_size w > 16)
        then recover_now e fs base_path dafsa_path r
        else defer_load al base_path dafsa_path r)"

definition rel_open_readonly ::
  "engine \<Rightarrow> allocator \<Rightarrow> files \<Rightarrow> string \<Rightarrow> string option \<Rightarrow> nat \<Rightarrow> relation option" where
  "rel_open_readonly e al fs dafsa_path wal_path arity = open_reading e al fs None dafsa_path wal_path arity"

definition rel_open_readonly_idb ::
  "engine \<Rightarrow> allocator \<Rightarrow> files \<Rightarrow> string \<Rightarrow> string \<Rightarrow> string option \<Rightarrow> nat \<Rightarrow> relation option" where
  "rel_open_readonly_idb e al fs base_path dafsa_path wal_path arity =
     open_reading e al fs (Some base_path) dafsa_path wal_path arity"

subsection \<open>What a log means\<close>

text \<open>The set after the operations of a log, of words and of rows: the last operation on a word decides.\<close>

fun replay_words :: "(u8 \<times> bytes) list \<Rightarrow> bytes set \<Rightarrow> bytes set" where
  "replay_words [] S = S"
| "replay_words ((op, k) # rs) S =
     replay_words rs (if op = DAFSA_WAL_OP_ADD then insert k S else if op = DAFSA_WAL_OP_DEL then S - {k} else S)"

definition replay_rows :: "nat \<Rightarrow> (u8 \<times> bytes) list \<Rightarrow> tuple set \<Rightarrow> tuple set" where
  "replay_rows arity rs R = {t. length t = arity \<and> encodeKey t \<in> replay_words rs (encodeKey ` R)}"

text \<open>Every word a log adds is the key of a row.\<close>

definition recs_keyed :: "nat \<Rightarrow> (u8 \<times> bytes) list \<Rightarrow> bool" where
  "recs_keyed arity rs \<longleftrightarrow>
     (\<forall>k. (DAFSA_WAL_OP_ADD, k) \<in> set rs \<longrightarrow> (\<exists>t. length t = arity \<and> k = encodeKey t))"

lemma recs_keyed_Cons: "recs_keyed a (x # rs) \<longleftrightarrow> recs_keyed a [x] \<and> recs_keyed a rs"
  by (auto simp: recs_keyed_def)

definition touched :: "(u8 \<times> bytes) list \<Rightarrow> bytes \<Rightarrow> bool" where
  "touched rs k \<longleftrightarrow> (DAFSA_WAL_OP_ADD, k) \<in> set rs \<or> (DAFSA_WAL_OP_DEL, k) \<in> set rs"

lemma wal_ops: "DAFSA_WAL_OP_ADD \<noteq> DAFSA_WAL_OP_DEL" "DAFSA_WAL_OP_DEL \<noteq> DAFSA_WAL_OP_ADD"
  by (simp_all add: DAFSA_WAL_OP_ADD_def DAFSA_WAL_OP_DEL_def)

lemma replay_words_append [simp]: "replay_words (rs @ rs') S = replay_words rs' (replay_words rs S)"
  by (induction rs S rule: replay_words.induct) auto

lemma replay_untouched: "\<not> touched rs k \<Longrightarrow> k \<in> replay_words rs S \<longleftrightarrow> k \<in> S"
  by (induction rs S rule: replay_words.induct) (auto simp: touched_def wal_ops)

lemma replay_touched: "touched rs k \<Longrightarrow> k \<in> replay_words rs S \<longleftrightarrow> k \<in> replay_words rs T"
proof (induction rs arbitrary: S T)
  case (Cons r rs)
  obtain op x where r: "r = (op, x)" by (cases r)
  show ?case
  proof (cases "touched rs k")
    case True
    then show ?thesis unfolding r replay_words.simps by (rule Cons.IH)
  next
    case False
    then have "x = k" "op = DAFSA_WAL_OP_ADD \<or> op = DAFSA_WAL_OP_DEL" using Cons.prems r by (auto simp: touched_def)
    then show ?thesis using False r by (auto simp: replay_untouched wal_ops)
  qed
qed (simp add: touched_def)

text \<open>The idempotence the header claims.\<close>

lemma replay_idem: "replay_words rs (replay_words rs S) = replay_words rs S"
  using replay_untouched [of rs _ "replay_words rs S"] replay_touched [of rs] by blast

lemma keyed_replay:
  assumes "recs_keyed a rs" "\<forall>w \<in> S. \<exists>t. length t = a \<and> w = encodeKey t"
  shows "\<forall>w \<in> replay_words rs S. \<exists>t. length t = a \<and> w = encodeKey t"
proof
  fix w assume w: "w \<in> replay_words rs S"
  have sub: "replay_words rs S \<subseteq> S \<union> {k. (DAFSA_WAL_OP_ADD, k) \<in> set rs}"
    by (induction rs S rule: replay_words.induct) auto
  then show "\<exists>t. length t = a \<and> w = encodeKey t" using w assms unfolding recs_keyed_def by blast
qed

lemma replay_rows_image:
  assumes "recs_keyed a rs" "\<forall>t \<in> R. length t = a"
  shows "encodeKey ` replay_rows a rs R = replay_words rs (encodeKey ` R)"
proof
  show "encodeKey ` replay_rows a rs R \<subseteq> replay_words rs (encodeKey ` R)" by (auto simp: replay_rows_def)
  show "replay_words rs (encodeKey ` R) \<subseteq> encodeKey ` replay_rows a rs R"
  proof
    fix w assume w: "w \<in> replay_words rs (encodeKey ` R)"
    have "\<forall>w \<in> encodeKey ` R. \<exists>t. length t = a \<and> w = encodeKey t" using assms(2) by blast
    from keyed_replay [OF assms(1) this] w obtain t where "length t = a" "w = encodeKey t" by blast
    with w show "w \<in> encodeKey ` replay_rows a rs R" by (simp add: replay_rows_def)
  qed
qed

lemma replay_rows_append:
  assumes "recs_keyed a xs" "\<forall>t \<in> R. length t = a"
  shows "replay_rows a (xs @ ys) R = replay_rows a ys (replay_rows a xs R)"
  unfolding replay_rows_def [of a ys] replay_rows_image [OF assms] by (simp add: replay_rows_def)

lemma replay_rows_idem:
  assumes "recs_keyed a rs" "\<forall>t \<in> R. length t = a"
  shows "replay_rows a rs (replay_rows a rs R) = replay_rows a rs R"
  unfolding replay_rows_def [of a rs "replay_rows a rs R"] replay_rows_image [OF assms] replay_idem
  by (simp add: replay_rows_def)

lemma encode_image_iff:
  assumes "\<forall>t \<in> R. length t = a" "length t = a"
  shows "encodeKey t \<in> encodeKey ` R \<longleftrightarrow> t \<in> R"
proof
  assume "encodeKey t \<in> encodeKey ` R"
  then obtain u where u: "u \<in> R" "encodeKey t = encodeKey u" by blast
  then have "t = u" using encodeKey_inj [of t u] assms by simp
  with u show "t \<in> R" by simp
qed simp

lemma replay_rows_Nil [simp]:
  assumes "\<forall>t \<in> R. length t = a"
  shows "replay_rows a [] R = R"
proof (rule set_eqI)
  show "t \<in> replay_rows a [] R \<longleftrightarrow> t \<in> R" for t
    using encode_image_iff [OF assms, of t] assms by (auto simp: replay_rows_def simp del: image_iff)
qed

lemma replay_rows_snoc:
  "length t = a \<Longrightarrow> replay_rows a (rs @ [(DAFSA_WAL_OP_ADD, encodeKey t)]) R = insert t (replay_rows a rs R)"
  "length t = a \<Longrightarrow> replay_rows a (rs @ [(DAFSA_WAL_OP_DEL, encodeKey t)]) R = replay_rows a rs R - {t}"
  using encodeKey_inj [of _ t] by (auto simp: replay_rows_def wal_ops)

subsection \<open>Replay\<close>

lemma wal_replay_law:
  assumes "wal_ok e" "wal_inv w" "dafsa_wal_replay e w = (rc, rs)"
  shows "\<exists>n. rs = take n (dw_recs w)" "rc = 0 \<longrightarrow> rs = dw_recs w"
  using assms by (simp_all add: wal_ok_def)

text \<open>Replaying into the base of an owned relation: the base follows the log, the rest stays.\<close>

definition replayed :: "engine \<Rightarrow> files \<Rightarrow> (u8 \<times> bytes) list \<Rightarrow> relation \<Rightarrow> int \<Rightarrow> relation \<Rightarrow> bool" where
  "replayed e fs rs r rc r' \<longleftrightarrow> rel_ok e fs r' \<and> r_state r' = Owned \<and> r_arity r' = r_arity r \<and> r_ov r' = r_ov r \<and>
     rel_is_idb r' = rel_is_idb r \<and> r_wal r' = r_wal r \<and> r_wal_path r' = r_wal_path r \<and> r_dirty r' = r_dirty r \<and>
     (rel_is_idb r \<longrightarrow> rel_dset e fs r' = rel_dset e fs r) \<and>
     (rc = 0 \<longrightarrow> rel_base e fs r' = replay_rows (r_arity r) rs (rel_base e fs r))"



lemma base_keyed:
  assumes "rel_ok e fs r" "r_state r = Owned"
  shows "\<forall>t \<in> rel_base e fs r. length t = r_arity r"
  by (rule owned_base [OF assms]) (auto simp: dtuples_def)

definition writes_succeed :: "engine \<Rightarrow> bool" where
  "writes_succeed e \<longleftrightarrow> adds_succeed e \<and> (\<forall>d k. fst (dafsa_delete_n e d k) \<ge> 0) \<and> (\<forall>w. fst (dafsa_wal_replay e w) = 0)"

lemma replay_one:
  assumes "engine_ok e" "rel_ok e fs r" "r_state r = Owned" "length k \<le> MAX_WORD_LEN" "recs_keyed (r_arity r) [(op, k)]"
  shows "\<exists>rc r'. walReplayCb e (op, k) (r, 0) = (r', rc) \<and> replayed e fs [(op, k)] r rc r' \<and>
    (writes_succeed e \<longrightarrow> rc = 0)"
proof -
  let ?a = "r_arity r"
  obtain b where b: "base_of r = Some b" "keyed ?a b" "rel_base e fs r = dtuples ?a b"
    by (rule owned_base [OF assms(2,3)])
  have words: "dwords b = encodeKey ` rel_base e fs r" using dwords_encode [OF b(2)] b(3) by simp
  have inv: "dafsa_inv b" using b(2) by (simp add: keyed_def)
  have step: "\<exists>rc r'. (set_base b' r, if rc0 < 0 then -1 else 0 :: int) = (r', rc) \<and> replayed e fs [(op, k)] r rc r' \<and>
      (writes_succeed e \<longrightarrow> rc = 0)"
    if "writes_succeed e \<longrightarrow> rc0 \<ge> 0" "dafsa_inv b'" "dwords b' \<subseteq> dwords b \<union> {w. \<exists>t. length t = ?a \<and> w = encodeKey t}"
      "rc0 \<ge> 0 \<longrightarrow> dwords b' = replay_words [(op, k)] (dwords b)" for b' and rc0 :: int
  proof -
    have "\<forall>w \<in> dwords b. \<exists>t. length t = ?a \<and> w = encodeKey t" using b(2) by (simp add: keyed_def)
    then have "\<forall>w \<in> dwords b'. \<exists>t. length t = ?a \<and> w = encodeKey t" using that(3) by blast
    then have k: "keyed ?a b'" using that(2) by (simp add: keyed_def)
    note p = put_base_ok [OF assms(2,3) k]
    have "dtuples ?a b' = replay_rows ?a [(op, k)] (rel_base e fs r)" if "rc0 \<ge> 0"
      using \<open>rc0 \<ge> 0 \<longrightarrow> _\<close> that words by (simp add: dtuples_def replay_rows_def)
    then show ?thesis using p assms(3) that(1) by (auto simp: replayed_def)
  qed
  consider (add) "op = DAFSA_WAL_OP_ADD" | (del) "op = DAFSA_WAL_OP_DEL" "op \<noteq> DAFSA_WAL_OP_ADD"
    | (other) "op \<noteq> DAFSA_WAL_OP_ADD" "op \<noteq> DAFSA_WAL_OP_DEL" by blast
  then show ?thesis
  proof cases
    case add
    obtain rc0 b' where f: "dafsa_add_n e b k = (rc0, b')" by fastforce
    have "add_ok e" using assms(1) by (simp add: engine_ok_def)
    note a = this [unfolded add_ok_def, rule_format, OF conjI [OF inv conjI [OF assms(4) f]]]
    have "\<exists>t. length t = ?a \<and> k = encodeKey t" using assms(5) add by (simp add: recs_keyed_def)
    moreover have "dwords b' \<subseteq> insert k (dwords b)" using a by (elim conjE insertE emptyE) (simp_all add: subset_insertI)
    ultimately have "dwords b' \<subseteq> dwords b \<union> {w. \<exists>t. length t = ?a \<and> w = encodeKey t}" by blast
    moreover have "rc0 \<ge> 0 \<longrightarrow> dwords b' = replay_words [(op, k)] (dwords b)"
      using a add by (elim conjE insertE emptyE) (simp_all add: insert_absorb)
    moreover have "writes_succeed e \<longrightarrow> rc0 \<ge> 0" using f by (metis adds_succeed_def fst_conv writes_succeed_def)
    ultimately show ?thesis using step [of rc0 b'] a f b(1) add by (simp add: walReplayCb_def)
  next
    case del
    obtain rc0 b' where f: "dafsa_delete_n e b k = (rc0, b')" by fastforce
    have "delete_ok e" using assms(1) by (simp add: engine_ok_def)
    note a = this [unfolded delete_ok_def, rule_format, OF conjI [OF inv conjI [OF assms(4) f]]]
    have "dwords b' \<subseteq> dwords b" using a by (elim conjE insertE emptyE) auto
    then have "dwords b' \<subseteq> dwords b \<union> {w. \<exists>t. length t = ?a \<and> w = encodeKey t}" by blast
    moreover have "rc0 \<ge> 0 \<longrightarrow> dwords b' = replay_words [(op, k)] (dwords b)"
      using a del by (elim conjE insertE emptyE) simp_all
    moreover have "writes_succeed e \<longrightarrow> rc0 \<ge> 0" using f by (metis fst_conv writes_succeed_def)
    ultimately show ?thesis using step [of rc0 b'] a f b(1) del by (simp add: walReplayCb_def)
  next
    case other
    have "replay_rows ?a [(op, k)] (rel_base e fs r) = rel_base e fs r"
      using other replay_rows_Nil [OF base_keyed [OF assms(2,3)]] by (simp add: replay_rows_def)
    then show ?thesis using other b(1) assms(2,3) by (simp add: walReplayCb_def replayed_def)
  qed
qed
lemma fold_skip: "okay \<noteq> 0 \<Longrightarrow> fold (walReplayCb e) rs (r, okay) = (r, okay)"
  by (induction rs) (auto simp: walReplayCb_def)

lemma replay_fold:
  assumes "engine_ok e" "rel_ok e fs r" "r_state r = Owned" "recs_ok rs" "recs_keyed (r_arity r) rs"
  shows "\<exists>rc r'. fold (walReplayCb e) rs (r, 0) = (r', rc) \<and> replayed e fs rs r rc r' \<and> (writes_succeed e \<longrightarrow> rc = 0)"
  using assms(2-)
proof (induction rs arbitrary: r)
  case Nil
  then show ?case using base_keyed [OF Nil(1,2)] by (simp add: replayed_def)
next
  case (Cons x rs)
  let ?a = "r_arity r"
  obtain op k where x: "x = (op, k)" by (cases x)
  have k: "length k \<le> MAX_WORD_LEN" "recs_ok rs" "recs_keyed ?a [(op, k)]" "recs_keyed ?a rs"
    using Cons.prems(3,4) recs_keyed_Cons [of ?a x rs] x by (simp_all add: recs_ok_def)
  obtain rc1 r1 where r1: "walReplayCb e x (r, 0) = (r1, rc1)" "replayed e fs [x] r rc1 r1" "writes_succeed e \<longrightarrow> rc1 = 0"
    using replay_one [OF assms(1) Cons.prems(1,2) k(1,3)] x by blast
  show ?case
  proof (cases "rc1 = 0")
    case False
    have "replayed e fs (x # rs) r rc1 r1" using r1(2) False by (simp add: replayed_def)
    then show ?thesis using r1 False by (auto simp: fold_skip)
  next
    case True
    have ok: "rel_ok e fs r1" "r_state r1 = Owned" "r_arity r1 = ?a" using r1(2) by (simp_all add: replayed_def)
    then obtain rc2 r2 where r2: "fold (walReplayCb e) rs (r1, 0) = (r2, rc2)" "replayed e fs rs r1 rc2 r2"
      "writes_succeed e \<longrightarrow> rc2 = 0" using Cons.IH [OF ok(1,2) k(2)] k(4) by auto
    have "\<forall>t \<in> rel_base e fs r. length t = ?a" by (rule base_keyed [OF Cons.prems(1,2)])
    then have "replay_rows ?a rs (replay_rows ?a [x] (rel_base e fs r)) = replay_rows ?a (x # rs) (rel_base e fs r)"
      using replay_rows_append [of ?a "[x]" "rel_base e fs r" rs] k(3) x by simp
    then have "replayed e fs (x # rs) r rc2 r2"
      using r2(2) r1(2) True by (simp add: replayed_def)
    then show ?thesis using r1 r2 True by auto
  qed
qed

lemma replay_into_ok:
  assumes "engine_ok e" "rel_ok e fs r" "r_state r = Owned" "r_wal r = Some w" "wal_inv w" "recs_keyed (r_arity r) (dw_recs w)"
  shows "\<exists>rc r'. rel_wal_replay_into e fs r = (rc, r') \<and> replayed e fs (dw_recs w) r rc r' \<and> (writes_succeed e \<longrightarrow> rc = 0)"
proof -
  obtain rc recs where d: "dafsa_wal_replay e w = (rc, recs)" by fastforce
  have "wal_ok e" using assms(1) by (simp add: engine_ok_def)
  note recs = wal_replay_law [OF this assms(5) d]
  then have sub: "set recs \<subseteq> set (dw_recs w)" by (metis set_take_subset)
  have "recs_ok recs" "recs_keyed (r_arity r) recs"
    using sub assms(5,6) by (auto simp: wal_inv_def recs_ok_def recs_keyed_def)
  then obtain ok2 r2 where f: "fold (walReplayCb e) recs (r, 0) = (r2, ok2)" "replayed e fs recs r ok2 r2"
    "writes_succeed e \<longrightarrow> ok2 = 0" using replay_fold [OF assms(1-3)] by blast
  have "writes_succeed e \<longrightarrow> rc = 0" using d by (metis fst_conv writes_succeed_def)
  moreover have "replayed e fs (dw_recs w) r (-1) r2" using f(2) by (simp add: replayed_def)
  ultimately show ?thesis
    using assms(3,4) d f recs(2) by (cases "rc = 0") (auto simp: rel_wal_replay_into_def relEnsureOwned_def)
qed

subsection \<open>Opening\<close>

text \<open>The relation an open yields: empty overlay, the log replayed over the base on disk, the view of a
  rule head as stored.\<close>

definition open_spec :: "engine \<Rightarrow> files \<Rightarrow> string option \<Rightarrow> string \<Rightarrow> nat \<Rightarrow> (u8 \<times> bytes) list \<Rightarrow> relation \<Rightarrow> bool" where
  "open_spec e fs base_path dafsa_path arity recs r \<longleftrightarrow> r_arity r = arity \<and> ov_rows r = {} \<and>
     rel_is_idb r = (base_path \<noteq> None) \<and>
     rel_base e fs r = replay_rows arity recs
       (disk_tuples e fs arity (if base_path = None then Some dafsa_path else base_path)) \<and>
     (base_path \<noteq> None \<longrightarrow> rel_dset e fs r = disk_tuples e fs arity (Some dafsa_path))"

text \<open>The files an open needs: whatever loads holds keys of the arity.\<close>

definition stored_ok :: "engine \<Rightarrow> files \<Rightarrow> nat \<Rightarrow> string option \<Rightarrow> string \<Rightarrow> bool" where
  "stored_ok e fs arity base_path dafsa_path \<longleftrightarrow> 1 \<le> arity \<and> arity \<le> MAX_ARITY \<and>
     disk_ok e fs arity (Some dafsa_path) \<and> disk_ok e fs arity base_path"

lemma zeroed_fields [simp]:
  "r_arity (zeroed a) = a" "r_ov (zeroed a) = None" "r_state (zeroed a) = Owned" "r_base (zeroed a) = None"
  "r_d (zeroed a) = None" "r_view_d (zeroed a) = None" "r_view_base (zeroed a) = None" "r_wal (zeroed a) = None"
  "r_on_disk_dafsa (zeroed a) = None" "r_on_disk_base (zeroed a) = None" "\<not> r_dirty (zeroed a)" "length (r_col_kind (zeroed a)) = MAX_ARITY"
  by (simp_all add: zeroed_def)

lemma disk_rows: "t \<in> disk_tuples e fs a p \<Longrightarrow> length t = a"
  by (auto simp: disk_tuples_def dtuples_def split: option.splits)

lemma file_at_Some [simp]: "file_at fs (Some p) = fs p"
  by (simp add: file_at_def)

lemma recover_now_ok:
  assumes "engine_ok e" "dafsa_create e \<noteq> None" "stored_ok e fs arity base_path dafsa_path" "wal_inv w"
    "recs_keyed arity (dw_recs w)"
  shows "(recover_now e fs base_path dafsa_path ((zeroed arity)\<lparr>r_wal := Some w, r_wal_path := wp\<rparr>) = None \<longrightarrow> \<not> writes_succeed e) \<and>
    (\<forall>r. recover_now e fs base_path dafsa_path ((zeroed arity)\<lparr>r_wal := Some w, r_wal_path := wp\<rparr>) = Some r \<longrightarrow>
       rel_ok e fs r \<and> \<not> r_dirty r \<and> r_wal r = Some w \<and> open_spec e fs base_path dafsa_path arity (dw_recs w) r)"
proof -
  let ?fresh = "(zeroed arity)\<lparr>r_wal := Some w, r_wal_path := wp\<rparr>"
  note st = assms(3) [unfolded stored_ok_def]
  obtain d where d: "load_or_create e (fs dafsa_path) = Some d" "keyed arity d"
    "dtuples arity d = disk_tuples e fs arity (Some dafsa_path)"
    using load_or_create_ok [OF assms(1,2), of fs arity "Some dafsa_path"] st by auto
  obtain b where b: "(case base_path of None \<Rightarrow> Some None | Some p \<Rightarrow> map_option Some (load_or_create e (fs p))) = Some b"
    "b = None \<longleftrightarrow> base_path = None"
    "\<And>x. b = Some x \<Longrightarrow> keyed arity x \<and> dtuples arity x = disk_tuples e fs arity base_path"
  proof (cases base_path)
    case (Some p)
    obtain x where "load_or_create e (fs p) = Some x" "keyed arity x" "dtuples arity x = disk_tuples e fs arity (Some p)"
      using load_or_create_ok [OF assms(1,2), of fs arity "Some p"] st Some by auto
    then show ?thesis using Some that [of "Some x"] by simp
  qed (use that [of None] in simp)
  let ?r = "?fresh\<lparr>r_d := Some d, r_base := b\<rparr>"
  have ok: "rel_ok e fs ?r" "r_state ?r = Owned" "r_arity ?r = arity" "r_wal ?r = Some w"
    using st d(2) b(3) by (auto simp: rel_ok_def owned_ok_def)
  have cont: "rel_is_idb ?r = (base_path \<noteq> None)" "rel_dset e fs ?r = disk_tuples e fs arity (Some dafsa_path)"
    "rel_base e fs ?r = disk_tuples e fs arity (if base_path = None then Some dafsa_path else base_path)"
    using b(2,3) d(3) by (auto simp: rel_is_idb_def rel_dset_def rel_base_def base_of_def mem_tuples_def split: option.split)
  obtain rc r' where r': "rel_wal_replay_into e fs ?r = (rc, r')" "replayed e fs (dw_recs w) ?r rc r'" "writes_succeed e \<longrightarrow> rc = 0"
    using replay_into_ok [OF assms(1) ok(1,2,4) assms(4)] assms(5) ok(3) by auto
  have "recover_now e fs base_path dafsa_path ?fresh = (if rc \<noteq> 0 then None else Some r')"
    using b(1) d(1) r'(1) by (simp add: recover_now_def)
  moreover have "open_spec e fs base_path dafsa_path arity (dw_recs w) r'" if "rc = 0"
    using r'(2) that cont by (simp add: replayed_def open_spec_def ov_rows_def)
  moreover have "rel_ok e fs r'" "\<not> r_dirty r'" "r_wal r' = Some w"
    using r'(2) ok(4) by (simp_all add: replayed_def)
  ultimately show ?thesis using r'(3) by (cases "rc = 0") simp_all
qed

lemma defer_load_ok:
  assumes "stored_ok e fs arity base_path dafsa_path" "w = None \<or> dw_size (the w) \<le> 16"
  shows "(defer_load al base_path dafsa_path ((zeroed arity)\<lparr>r_wal := w, r_wal_path := wp\<rparr>) = None \<longrightarrow> \<not> generous al) \<and>
    (\<forall>r. defer_load al base_path dafsa_path ((zeroed arity)\<lparr>r_wal := w, r_wal_path := wp\<rparr>) = Some r \<longrightarrow>
       rel_ok e fs r \<and> \<not> r_dirty r \<and> r_wal r = w \<and> open_spec e fs base_path dafsa_path arity [] r)"
  using assms disk_rows [of _ e fs arity]
  by (auto simp: defer_load_def generous_def stored_ok_def rel_ok_def unloaded_ok_def viewOverlayClean_def wal_pending_def
      open_spec_def ov_rows_def rel_is_idb_def rel_base_def rel_dset_def split: option.splits)
lemma open_law:
  assumes "wal_ok e" "dafsa_wal_open_rw e c = Some w \<or> dafsa_wal_open_ro e c = Some w"
  shows "wal_inv w" "dw_size w > 16 \<longleftrightarrow> dw_recs w \<noteq> []"
proof -
  have "wal_inv w \<and> (dw_recs w = [] \<longrightarrow> dw_size w = 16)" using assms by (auto simp: wal_ok_def)
  then show "wal_inv w" "dw_size w > 16 \<longleftrightarrow> dw_recs w \<noteq> []" by (auto simp: wal_inv_def)
qed

lemma stored_other:
  assumes "p \<noteq> dafsa_path" "base_path \<noteq> Some p"
  shows "stored_ok e (fs(p := c)) arity base_path dafsa_path = stored_ok e fs arity base_path dafsa_path"
  using assms by (auto simp: stored_ok_def disk_ok_def file_at_def split: option.splits)

text \<open>The log handle of an open, and what the open yields on it.\<close>

definition opened :: "engine \<Rightarrow> files \<Rightarrow> string option \<Rightarrow> string \<Rightarrow> nat \<Rightarrow> dafsa_wal option \<Rightarrow> relation \<Rightarrow> bool" where
  "opened e fs base_path dafsa_path arity wal r \<longleftrightarrow> rel_ok e fs r \<and> r_wal r = wal \<and>
     open_spec e fs base_path dafsa_path arity (case wal of None \<Rightarrow> [] | Some w \<Rightarrow> dw_recs w) r"

lemma rel_ok_dirty [simp]: "rel_ok e fs (r\<lparr>r_dirty := b\<rparr>) = rel_ok e fs r"
  by (cases "r_state r") (simp_all add: rel_ok_def owned_ok_def unloaded_ok_def viewOverlayClean_def wal_pending_def)

lemma open_spec_dirty [simp]:
  "open_spec e fs bp p a rs (r\<lparr>r_dirty := b\<rparr>) = open_spec e fs bp p a rs r"
  by (simp add: open_spec_def ov_rows_def rel_is_idb_def rel_base_def rel_dset_def base_of_def
      cong: read_state.case_cong option.case_cong)

lemma open_writing_ok:
  assumes "engine_ok e" "dafsa_create e \<noteq> None" "stored_ok e fs arity base_path dafsa_path"
    "wal_path \<noteq> dafsa_path" "base_path \<noteq> Some wal_path"
    "\<And>w. dafsa_wal_open_rw e (fs wal_path) = Some w \<Longrightarrow> recs_keyed arity (dw_recs w)"
    "open_writing e al fs base_path dafsa_path wal_path arity = (res, fs1)"
  shows "\<forall>p. p \<noteq> wal_path \<longrightarrow> fs1 p = fs p"
    "res = None \<Longrightarrow> generous al \<Longrightarrow> writes_succeed e \<Longrightarrow> dafsa_wal_open_rw e (fs wal_path) = None"
    "res = Some r \<Longrightarrow> \<exists>w. dafsa_wal_open_rw e (fs wal_path) = Some w \<and> fs1 wal_path = Some (dafsa_wal_image e (dw_recs w)) \<and>
       opened e fs1 base_path dafsa_path arity (Some w) r \<and> (r_dirty r \<longleftrightarrow> dw_recs w \<noteq> [])"
proof -
  note st = assms(3) [unfolded stored_ok_def]
  have wal: "wal_ok e" using assms(1) by (simp add: engine_ok_def)
  have all: "(\<forall>p. p \<noteq> wal_path \<longrightarrow> fs1 p = fs p) \<and>
    (res = None \<longrightarrow> generous al \<longrightarrow> writes_succeed e \<longrightarrow> dafsa_wal_open_rw e (fs wal_path) = None) \<and>
    (res = Some r \<longrightarrow> (\<exists>w. dafsa_wal_open_rw e (fs wal_path) = Some w \<and> fs1 wal_path = Some (dafsa_wal_image e (dw_recs w)) \<and>
       opened e fs1 base_path dafsa_path arity (Some w) r \<and> (r_dirty r \<longleftrightarrow> dw_recs w \<noteq> [])))"
  proof (cases "dafsa_wal_open_rw e (fs wal_path)")
    case None
    then show ?thesis using assms(7) by (auto simp: open_writing_def split: if_splits)
  next
    case (Some w)
    let ?fs = "fs(wal_path := Some (dafsa_wal_image e (dw_recs w)))"
    let ?fresh = "(zeroed arity)\<lparr>r_wal := Some w, r_wal_path := Some wal_path\<rparr>"
    have w: "wal_inv w" "dw_size w > 16 \<longleftrightarrow> dw_recs w \<noteq> []" using open_law [OF wal] Some by blast+
    have st1: "stored_ok e ?fs arity base_path dafsa_path" using stored_other [OF assms(4,5)] assms(3) by simp
    show ?thesis
    proof (cases "al ''rel_open_writable'' 1 \<and> al ''strdup'' (length wal_path + 1)")
      case False
      then show ?thesis using assms(7) Some by (auto simp: open_writing_def generous_def Let_def split: if_splits)
    next
      case True
      show ?thesis
      proof (cases "dw_recs w = []")
        case empty: True
        have "(res, fs1) = (defer_load al base_path dafsa_path ?fresh, ?fs)"
          using assms(7) Some True st w(2) empty by (simp add: open_writing_def Let_def)
        then show ?thesis
          using defer_load_ok [OF st1, of "Some w" al "Some wal_path"] Some w(2) empty by (auto simp: opened_def)
      next
        case recs: False
        have "(res, fs1) = (map_option (\<lambda>r1. r1\<lparr>r_dirty := True\<rparr>) (recover_now e ?fs base_path dafsa_path ?fresh), ?fs)"
          using assms(7) Some True st w(2) recs by (auto simp: open_writing_def Let_def)
        then show ?thesis
          using recover_now_ok [OF assms(1,2) st1 w(1) assms(6) [OF Some], of "Some wal_path"] Some recs
          by (auto simp: opened_def)
      qed
    qed
  qed
  from all show "\<forall>p. p \<noteq> wal_path \<longrightarrow> fs1 p = fs p"
    "res = None \<Longrightarrow> generous al \<Longrightarrow> writes_succeed e \<Longrightarrow> dafsa_wal_open_rw e (fs wal_path) = None"
    "res = Some r \<Longrightarrow> \<exists>w. dafsa_wal_open_rw e (fs wal_path) = Some w \<and> fs1 wal_path = Some (dafsa_wal_image e (dw_recs w)) \<and>
       opened e fs1 base_path dafsa_path arity (Some w) r \<and> (r_dirty r \<longleftrightarrow> dw_recs w \<noteq> [])"
    by blast+
qed

lemma open_reading_ok:
  assumes "engine_ok e" "dafsa_create e \<noteq> None" "stored_ok e fs arity base_path dafsa_path"
    "wal = (case wal_path of None \<Rightarrow> None | Some p \<Rightarrow> dafsa_wal_open_ro e (fs p))"
    "\<And>w. wal = Some w \<Longrightarrow> recs_keyed arity (dw_recs w)"
  shows "(open_reading e al fs base_path dafsa_path wal_path arity = None \<longrightarrow> \<not> (generous al \<and> writes_succeed e)) \<and>
    (\<forall>r. open_reading e al fs base_path dafsa_path wal_path arity = Some r \<longrightarrow>
       opened e fs base_path dafsa_path arity wal r \<and> \<not> r_dirty r)"
proof -
  note st = assms(3) [unfolded stored_ok_def]
  have wal: "wal_ok e" using assms(1) by (simp add: engine_ok_def)
  let ?fresh = "(zeroed arity)\<lparr>r_wal := wal, r_wal_path := None\<rparr>"
  have fresh: "?fresh = (zeroed arity)\<lparr>r_wal := wal\<rparr>" by (simp add: zeroed_def)
  have w: "wal_inv w" "dw_size w > 16 \<longleftrightarrow> dw_recs w \<noteq> []" if "wal = Some w" for w
    using open_law [OF wal] that assms(4) by (auto split: option.splits)
  show ?thesis
  proof (cases "\<exists>w. wal = Some w \<and> dw_recs w \<noteq> []")
    case True
    then obtain w' where w': "wal = Some w'" "dw_recs w' \<noteq> []" by blast
    have "open_reading e al fs base_path dafsa_path wal_path arity =
        (if al ''rel_open_readonly'' 1 then recover_now e fs base_path dafsa_path ?fresh else None)"
      using st w(2) [OF w'(1)] w' unfolding fresh open_reading_def assms(4) [symmetric] Let_def by simp
    then show ?thesis
      using recover_now_ok [OF assms(1-3) w(1) [OF w'(1)] assms(5) [OF w'(1)], of None] w'(1)
      by (auto simp: opened_def generous_def)
  next
    case False
    have nowal: "wal = None \<or> dw_size (the wal) \<le> 16" using False w(2) by (cases wal) auto
    have "open_reading e al fs base_path dafsa_path wal_path arity =
        (if al ''rel_open_readonly'' 1 then defer_load al base_path dafsa_path ?fresh else None)"
      using st nowal unfolding fresh open_reading_def assms(4) [symmetric] Let_def by (auto split: option.split)
    moreover have "(case wal of None \<Rightarrow> [] | Some w \<Rightarrow> dw_recs w) = []" using False by (auto split: option.split)
    ultimately show ?thesis
      using defer_load_ok [OF assms(3) nowal, of al None] by (auto simp: opened_def generous_def)
  qed
qed

subsection \<open>Durability\<close>

text \<open>
  What a crash would leave: the base on disk with the log replayed over it.  A relation is durable
  when that is its base with the overlay, whose rows are on disk through the log alone.
\<close>

definition log_of :: "relation \<Rightarrow> (u8 \<times> bytes) list" where
  "log_of r = (case r_wal r of None \<Rightarrow> [] | Some w \<Rightarrow> dw_recs w)"

definition recovered :: "engine \<Rightarrow> files \<Rightarrow> string \<Rightarrow> relation \<Rightarrow> tuple set" where
  "recovered e fs p r = replay_rows (r_arity r) (log_of r) (disk_tuples e fs (r_arity r) (Some p))"

definition log_ok :: "relation \<Rightarrow> bool" where
  "log_ok r \<longleftrightarrow> (\<exists>w. r_wal r = Some w \<and> wal_inv w \<and> recs_keyed (r_arity r) (dw_recs w))"

definition durable :: "engine \<Rightarrow> files \<Rightarrow> string \<Rightarrow> relation \<Rightarrow> bool" where
  "durable e fs p r \<longleftrightarrow> rel_ok e fs r \<and> log_ok r \<and> disk_ok e fs (r_arity r) (Some p) \<and>
     recovered e fs p r = rel_base e fs r \<union> ov_rows r"

text \<open>An owned relation does not depend on the files.\<close>

lemma owned_files:
  assumes "r_state r = Owned"
  shows "rel_ok e fs' r = rel_ok e fs r" "rel_base e fs' r = rel_base e fs r" "rel_dset e fs' r = rel_dset e fs r"
  using assms by (simp_all add: rel_ok_def rel_base_def rel_dset_def)

lemma saved_image:
  assumes "engine_ok e" "keyed a b" "fs p = Some (dafsa_image e b)"
  shows "disk_ok e fs a (Some p)" "disk_tuples e fs a (Some p) = dtuples a b"
proof -
  have inv: "dafsa_inv b" using assms(2) by (simp add: keyed_def)
  have load: "load_ok e" using assms(1) by (simp add: engine_ok_def)
  obtain d where d: "dafsa_load e (fs p) = Some d" using load inv assms(3) by (auto simp: load_ok_def)
  then have "dafsa_inv d" "dwords d = dwords b" using load inv assms(3) by (auto simp: load_ok_def)
  then show "disk_ok e fs a (Some p)" "disk_tuples e fs a (Some p) = dtuples a b"
    using d assms(2) by (simp_all add: disk_ok_def disk_tuples_def keyed_def dtuples_def)
qed

lemma save_ok_law:
  assumes "engine_ok e" "dafsa_save e d p fs = (rc, fs')"
  shows "fs' = (if rc = 0 then fs(p := Some (dafsa_image e d)) else fs)"
  using assms by (simp add: engine_ok_def save_ok_def)

text \<open>Saving writes the automaton, without the overlay; a failed save leaves the files as they were.\<close>

definition save_spec :: "engine \<Rightarrow> files \<Rightarrow> string \<Rightarrow> relation \<Rightarrow> int \<times> relation \<times> files \<Rightarrow> bool" where
  "save_spec e fs path r res \<longleftrightarrow> (case res of (rc, r', fs') \<Rightarrow> same_relation e fs r r' \<and>
     (if rc = 0 then disk_tuples e fs' (r_arity r) (Some path) = rel_dset e fs r \<and> (\<forall>q. q \<noteq> path \<longrightarrow> fs' q = fs q)
      else fs' = fs))"

definition save_base_spec :: "engine \<Rightarrow> files \<Rightarrow> string \<Rightarrow> relation \<Rightarrow> int \<times> relation \<times> files \<Rightarrow> bool" where
  "save_base_spec e fs path r res \<longleftrightarrow> (case res of (rc, r', fs') \<Rightarrow> same_relation e fs r r' \<and>
     (if rc = 0 then disk_tuples e fs' (r_arity r) (Some path) = rel_base e fs r \<and> (\<forall>q. q \<noteq> path \<longrightarrow> fs' q = fs q)
      else fs' = fs))"

lemma rel_save_ok:
  assumes "engine_ok e" "dafsa_create e \<noteq> None" "rel_ok e fs r"
  shows "save_spec e fs path r (rel_save e path fs r)" "save_base_spec e fs path r (rel_save_base e path fs r)"
proof -
  obtain r1 where r1: "relEnsureOwned e fs r = (True, r1)" "rel_ok e fs r1" "r_state r1 = Owned" "same_relation e fs r r1"
    by (rule ensure_owned_ok [OF assms])
  have s: "r_arity r1 = r_arity r" "rel_dset e fs r1 = rel_dset e fs r" "rel_base e fs r1 = rel_base e fs r"
    using r1(4) by (simp_all add: same_relation_def)
  have saved: "if rc = 0 then disk_tuples e fs' (r_arity r) (Some path) = dtuples (r_arity r) d \<and> (\<forall>q. q \<noteq> path \<longrightarrow> fs' q = fs q)
      else fs' = fs" if "keyed (r_arity r) d" "dafsa_save e d path fs = (rc, fs')" for d rc fs'
    using save_ok_law [OF assms(1) that(2)] saved_image(2) [where fs = fs' and p = path, OF assms(1) that(1)]
    by (cases "rc = 0") simp_all
  obtain d where d: "r_d r1 = Some d" "keyed (r_arity r1) d" "rel_dset e fs r1 = dtuples (r_arity r1) d"
    by (rule owned_cases [OF r1(2,3)]) blast
  obtain b where b: "base_of r1 = Some b" "keyed (r_arity r1) b" "rel_base e fs r1 = dtuples (r_arity r1) b"
    by (rule owned_base [OF r1(2,3)])
  show "save_spec e fs path r (rel_save e path fs r)"
    using saved [of d] d r1(1,4) s by (auto simp: rel_save_def save_spec_def save_dafsa_def split: prod.split)
  show "save_base_spec e fs path r (rel_save_base e path fs r)"
    using saved [of b] b r1(1,4) s by (auto simp: rel_save_base_def save_base_spec_def save_dafsa_def split: prod.split)
qed

lemma truncate_log_ok:
  assumes "truncate_log io al r = (rc, r')" "log_ok r"
  shows "log_ok r'" "r' = r\<lparr>r_wal := r_wal r'\<rparr>" "log_of r' = log_of r \<or> log_of r' = []"
    "rc = 0 \<Longrightarrow> log_of r' = [] \<and> rel_wal_size r' = 16"
  using assms
  by (auto simp: truncate_log_def log_ok_def wal_inv_def recs_ok_def recs_keyed_def log_of_def rel_wal_size_def Let_def
      split: option.splits if_splits)

lemma content_wal [simp]:
  "rel_base e fs (r\<lparr>r_wal := w\<rparr>) = rel_base e fs r" "rel_dset e fs (r\<lparr>r_wal := w\<rparr>) = rel_dset e fs r"
  "ov_rows (r\<lparr>r_wal := w\<rparr>) = ov_rows r" "rel_is_idb (r\<lparr>r_wal := w\<rparr>) = rel_is_idb r"
  by (simp_all add: rel_base_def rel_dset_def base_of_def ov_rows_def rel_is_idb_def
      cong: read_state.case_cong option.case_cong)

lemma rel_ok_wal: "\<lbrakk>rel_ok e fs r; r_state r = Owned\<rbrakk> \<Longrightarrow> rel_ok e fs (r\<lparr>r_wal := w\<rparr>)"
  by (simp add: rel_ok_def owned_ok_def)

text \<open>What a compaction keeps, wherever it stops.\<close>

definition kept :: "engine \<Rightarrow> files \<Rightarrow> files \<Rightarrow> relation \<Rightarrow> relation \<Rightarrow> bool" where
  "kept e fs fs' r r' \<longleftrightarrow> rel_view e fs' r' = rel_view e fs r \<and> rel_is_idb r' = rel_is_idb r \<and>
     r_arity r' = r_arity r \<and> rel_base e fs' r' \<union> ov_rows r' = rel_base e fs r \<union> ov_rows r"

definition compact_spec :: "engine \<Rightarrow> string \<Rightarrow> files \<Rightarrow> relation \<Rightarrow> int \<times> relation \<times> files \<Rightarrow> bool" where
  "compact_spec e p fs r res \<longleftrightarrow> (case res of (rc, r', fs') \<Rightarrow>
     (rc = 0 \<or> rc = -1) \<and> durable e fs' p r' \<and> kept e fs fs' r r' \<and> (\<forall>q. q \<noteq> p \<longrightarrow> fs' q = fs q) \<and>
     (rc = 0 \<longrightarrow> rel_wal_size r' = 16 \<and> log_of r' = [] \<and> ov_rows r' = {} \<and>
        disk_tuples e fs' (r_arity r) (Some p) = rel_base e fs' r'))"

text \<open>Nothing goes wrong: every call succeeds, there is memory, and the log was opened for writing.\<close>

definition all_well :: "engine \<Rightarrow> io \<Rightarrow> allocator \<Rightarrow> relation \<Rightarrow> bool" where
  "all_well e io al r \<longleftrightarrow> adds_succeed e \<and> (\<forall>d p fs. fst (dafsa_save e d p fs) = 0) \<and> io = all_ok \<and> generous al \<and>
     r_wal_path r \<noteq> None"

lemma truncate_all_well:
  "\<lbrakk>log_ok r; r_wal_path r \<noteq> None; generous al\<rbrakk> \<Longrightarrow> fst (truncate_log all_ok al r) = 0"
  by (auto simp: truncate_log_def log_ok_def Let_def fsyncParentDir_def fsync_dir_def all_ok_def generous_def
      split: option.splits)

lemma compact_ok:
  assumes "engine_ok e" "dafsa_create e \<noteq> None" "durable e fs p r"
  shows "compact_spec e p fs r (rel_compact e io al p fs r)"
    "all_well e io al r \<Longrightarrow> fst (rel_compact e io al p fs r) = 0"
proof -
  have d: "rel_ok e fs r" "log_ok r" "disk_ok e fs (r_arity r) (Some p)" "recovered e fs p r = rel_base e fs r \<union> ov_rows r"
    using assms(3) by (simp_all add: durable_def)
  obtain r1 where r1: "relEnsureOwned e fs r = (True, r1)" "rel_ok e fs r1" "r_state r1 = Owned" "same_relation e fs r r1"
    by (rule ensure_owned_ok [OF assms(1,2) d(1)])
  have s: "r_arity r1 = r_arity r" "r_wal r1 = r_wal r" "rel_base e fs r1 = rel_base e fs r" "ov_rows r1 = ov_rows r"
    "rel_view e fs r1 = rel_view e fs r" "rel_is_idb r1 = rel_is_idb r"
    using r1(4) same_relation_view [OF r1(4)] by (simp_all add: same_relation_def ov_rows_def)
  obtain rf r2 where r2: "rel_overlay_flush e fs r1 = (rf, r2)" "rel_ok e fs r2" "flush_spec e fs r1 (rf, r2)" "r_state r2 = Owned"
    "adds_succeed e \<longrightarrow> rf = 0"
    by (rule flush_ok [OF assms(1,2) r1(2)]) (use r1(3) in simp)
  have f: "rel_view e fs r2 = rel_view e fs r" "rel_is_idb r2 = rel_is_idb r" "r_arity r2 = r_arity r" "r_wal r2 = r_wal r"
    "rel_base e fs r2 \<union> ov_rows r2 = rel_base e fs r \<union> ov_rows r" "rf = 0 \<Longrightarrow> ov_rows r2 = {}" "rf = 0 \<or> rf = -1"
    using r2(3) s by (auto simp: flush_spec_def ov_rows_def)
  have well: "rf = 0 \<and> r_wal_path r2 \<noteq> None" if "all_well e io al r"
    using r2(3,5) r1(4) that by (simp add: flush_spec_def all_well_def same_relation_def)
  have log2: "log_ok r2" "log_of r2 = log_of r" using d(2) f(3,4) by (simp_all add: log_ok_def log_of_def)
  have dur2: "durable e fs p r2"
    using r2(2) log2 d(3,4) f(3,5) by (simp add: durable_def recovered_def)
  have kept2: "kept e fs fs r r2" using f by (simp add: kept_def)
  obtain lg where rw: "r_wal r = Some lg" using d(2) by (auto simp: log_ok_def)
  have both: "compact_spec e p fs r (rel_compact e io al p fs r) \<and>
    (all_well e io al r \<longrightarrow> fst (rel_compact e io al p fs r) = 0)"
  proof (cases "rf = 0")
    case False
    then show ?thesis
      using rw r1(1) r2(1) dur2 kept2 well by (auto simp: rel_compact_def compact_spec_def)
  next
    case rf: True
    obtain b where b: "base_of r2 = Some b" "keyed (r_arity r2) b" "rel_base e fs r2 = dtuples (r_arity r2) b"
      by (rule owned_base [OF r2(2,4)])
    obtain rs fs1 where sv: "dafsa_save e b p fs = (rs, fs1)" by fastforce
    note fs1 = save_ok_law [OF assms(1) sv]
    show ?thesis
    proof (cases "rs = 0")
      case False
      then have "\<not> all_well e io al r" using sv by (metis all_well_def fst_conv)
      with False show ?thesis
        using rw r1(1) r2(1) dur2 kept2 rf sv b(1) fs1
        by (auto simp: rel_compact_def compact_spec_def save_dafsa_def)
    next
      case rs: True
      have im: "fs1 p = Some (dafsa_image e b)" "\<forall>q. q \<noteq> p \<longrightarrow> fs1 q = fs q" using fs1 rs by simp_all
      note disk = saved_image [where fs = fs1 and p = p, OF assms(1) b(2) im(1)]
      obtain rt r3 where t: "truncate_log io al r2 = (rt, r3)" by fastforce
      note tr = truncate_log_ok [OF t log2(1)]
      have own: "rel_base e fs1 r2 = rel_base e fs r2" "rel_dset e fs1 r2 = rel_dset e fs r2" "rel_ok e fs1 r2"
        using owned_files [OF r2(4)] r2(2) by blast+
      have r3: "rel_ok e fs1 r3" "rel_base e fs1 r3 = rel_base e fs r2" "ov_rows r3 = {}" "r_arity r3 = r_arity r2"
        "rel_view e fs1 r3 = rel_view e fs r2" "rel_is_idb r3 = rel_is_idb r2"
        using rel_ok_wal [OF own(3) r2(4)] own f(6) [OF rf]
        by (subst tr(2), simp add: rel_view_def)+
      have len: "\<forall>t \<in> disk_tuples e fs (r_arity r) (Some p). length t = r_arity r" using disk_rows by blast
      obtain w where w: "recs_keyed (r_arity r) (log_of r)" using d(2) by (auto simp: log_ok_def log_of_def)
      have base2: "rel_base e fs r2 = replay_rows (r_arity r) (log_of r) (disk_tuples e fs (r_arity r) (Some p))"
        using f(5) f(6) [OF rf] d(4) by (simp add: recovered_def)
      have "replay_rows (r_arity r) (log_of r) (rel_base e fs r2) = rel_base e fs r2"
        unfolding base2 by (rule replay_rows_idem [OF w len])
      moreover have "replay_rows (r_arity r) [] (rel_base e fs r2) = rel_base e fs r2"
        using base_keyed [OF r2(2,4)] f(3) by (intro replay_rows_Nil) simp
      ultimately have "recovered e fs1 p r3 = rel_base e fs1 r3"
        using tr(3) log2(2) disk(2) b(3) r3(2,4) f(3) by (auto simp: recovered_def)
      then have "durable e fs1 p r3"
        using r3 tr(1) disk(1) by (simp add: durable_def)
      moreover have "kept e fs fs1 r r3" using r3 f f(6) [OF rf] by (simp add: kept_def)
      moreover have "rt = 0 \<or> rt = -1" using t by (auto simp: truncate_log_def Let_def split: option.splits if_splits)
      moreover have "rel_compact e io al p fs r = (rt, r3, fs1)"
        using rw r1(1) r2(1) rf sv b(1) rs t by (simp add: rel_compact_def save_dafsa_def)
      moreover have "rt = 0" if "all_well e io al r"
        using truncate_all_well [OF log2(1), of al] well [OF that] that t by (simp add: all_well_def)
      ultimately show ?thesis using tr(4) im(2) r3 disk(2) b(3) f(3) by (auto simp: compact_spec_def)
    qed
  qed
  then show "compact_spec e p fs r (rel_compact e io al p fs r)"
    "all_well e io al r \<Longrightarrow> fst (rel_compact e io al p fs r) = 0" by blast+
qed

subsection \<open>Logged writes\<close>

lemma append_ok:
  assumes "engine_ok e" "dafsa_create e \<noteq> None" "rel_ok e fs r" "log_ok r" "length k \<le> MAX_WORD_LEN"
    "op = DAFSA_WAL_OP_ADD \<Longrightarrow> \<exists>t. length t = r_arity r \<and> k = encodeKey t" "wal_append op e fs k r = (rc, r')"
  shows "rel_ok e fs r'" "log_ok r'" "rel_base e fs r' = rel_base e fs r" "rel_dset e fs r' = rel_dset e fs r"
    "ov_rows r' = ov_rows r" "r_arity r' = r_arity r" "rel_is_idb r' = rel_is_idb r" "rc = 0 \<or> rc = -1"
    "log_of r' = (if rc = 0 then log_of r @ [(op, k)] else log_of r)"
proof -
  obtain w where w: "r_wal r = Some w" "wal_inv w" "recs_keyed (r_arity r) (dw_recs w)"
    using assms(4) by (auto simp: log_ok_def)
  obtain r1 where r1: "relEnsureOwned e fs r = (True, r1)" "rel_ok e fs r1" "r_state r1 = Owned" "same_relation e fs r r1"
    by (rule ensure_owned_ok [OF assms(1-3)])
  obtain rc0 w' where a: "dafsa_wal_append e w op k = (rc0, w')" by fastforce
  have "wal_ok e" using assms(1) by (simp add: engine_ok_def)
  then have law: "wal_inv w'" "if rc0 = 0 then dw_recs w' = dw_recs w @ [(op, k)] else w' = w"
    using a w(2) assms(5) by (simp_all add: wal_ok_def)
  have keyed: "recs_keyed (r_arity r) (dw_recs w')"
    using law(2) w(3) assms(6) by (auto simp: recs_keyed_def split: if_splits)
  let ?r2 = "r1\<lparr>r_wal := Some w'\<rparr>"
  have ok2: "rel_ok e fs ?r2" by (rule rel_ok_wal [OF r1(2,3)])
  have app: "rel_ok e fs (?r2\<lparr>r_wal_appended := n\<rparr>) = rel_ok e fs ?r2" "rel_base e fs (?r2\<lparr>r_wal_appended := n\<rparr>) = rel_base e fs ?r2"
    "rel_dset e fs (?r2\<lparr>r_wal_appended := n\<rparr>) = rel_dset e fs ?r2" "rel_is_idb (?r2\<lparr>r_wal_appended := n\<rparr>) = rel_is_idb ?r2"
    "ov_rows (?r2\<lparr>r_wal_appended := n\<rparr>) = ov_rows ?r2" for n
    using r1(3) by (simp_all add: rel_ok_def owned_ok_def rel_base_def rel_dset_def base_of_def rel_is_idb_def ov_rows_def
        split: option.split)
  have "r' = (if rc0 \<noteq> 0 then ?r2 else ?r2\<lparr>r_wal_appended := (r_wal_appended ?r2 + (dw_size w' - dw_size w)) mod 2 ^ 64\<rparr>)"
    "rc = (if rc0 \<noteq> 0 then -1 else 0)"
    using assms(7) w(1) r1(1) a by (auto simp: wal_append_def Let_def split: if_splits)
  moreover have "rel_base e fs r1 = rel_base e fs r" "rel_dset e fs r1 = rel_dset e fs r" "ov_rows r1 = ov_rows r"
    "r_arity r1 = r_arity r" "rel_is_idb r1 = rel_is_idb r"
    using r1(4) by (simp_all add: same_relation_def ov_rows_def)
  ultimately show "rel_ok e fs r'" "log_ok r'" "rel_base e fs r' = rel_base e fs r" "rel_dset e fs r' = rel_dset e fs r"
    "ov_rows r' = ov_rows r" "r_arity r' = r_arity r" "rel_is_idb r' = rel_is_idb r" "rc = 0 \<or> rc = -1"
    "log_of r' = (if rc = 0 then log_of r @ [(op, k)] else log_of r)"
    using ok2 app law keyed w(1) by (auto simp: log_ok_def log_of_def)
qed

text \<open>The order of the writers: log first, then memory.\<close>

lemma logged_add_durable:
  assumes "engine_ok e" "dafsa_create e \<noteq> None" "durable e fs p r" "length t = r_arity r"
    "rel_wal_append_add e fs (encodeKey t) r = (0, r1)" "rel_overlay_add e al fs t r1 = Some (1, r2)"
  shows "durable e fs p r2 \<and> rel_view e fs r2 = insert t (rel_view e fs r)"
proof -
  have d: "rel_ok e fs r" "log_ok r" "disk_ok e fs (r_arity r) (Some p)" "recovered e fs p r = rel_base e fs r \<union> ov_rows r"
    using assms(3) by (simp_all add: durable_def)
  have "r_arity r \<le> MAX_ARITY" using d(1) by (simp add: rel_ok_def)
  then have k: "length (encodeKey t) \<le> MAX_WORD_LEN" using key_short assms(4) by blast
  have ex: "\<exists>u. length u = r_arity r \<and> encodeKey t = encodeKey u" using assms(4) by blast
  note a = append_ok [OF assms(1,2) d(1,2) k ex assms(5) [unfolded rel_wal_append_add_def]]
  have t1: "length t = r_arity r1" using assms(4) a(6) by simp
  obtain rc r' where o: "rel_overlay_add e al fs t r1 = Some (rc, r')" "rel_ok e fs r'"
    "add_result (rel_view e fs r1) t rc (rel_view e fs r')" "rel_base e fs r' = rel_base e fs r1"
    "r_arity r' = r_arity r1" "r_wal r' = r_wal r1" "ov_rows r' = (if rc = 1 then insert t (ov_rows r1) else ov_rows r1)"
    by (rule overlay_add_ok [OF assms(1,2) a(1) t1]) (rule that; assumption)
  have e: "rc = 1" "r' = r2" using o(1) assms(6) by simp_all
  have "log_ok r2" using o(5,6) e a(2) by (simp add: log_ok_def)
  moreover have "log_of r2 = log_of r @ [(DAFSA_WAL_OP_ADD, encodeKey t)]"
    using o(6) e a(9) by (simp add: log_of_def)
  then have "recovered e fs p r2 = insert t (recovered e fs p r)"
    using replay_rows_snoc(1) [OF assms(4)] o(5) e a(6) by (simp add: recovered_def)
  ultimately show ?thesis
    using o e a d by (auto simp: durable_def add_result_def rel_view_def)
qed

lemma logged_delete_durable:
  assumes "engine_ok e" "dafsa_create e \<noteq> None" "durable e fs p r" "length t = r_arity r" "ov_rows r = {}"
    "rel_wal_append_del e fs (encodeKey t) r = (0, r1)" "rel_delete_base e fs t r1 = (rc, r2)" "rc \<noteq> -1"
  shows "durable e fs p r2 \<and> rel_base e fs r2 = rel_base e fs r - {t}"
proof -
  have d: "rel_ok e fs r" "log_ok r" "disk_ok e fs (r_arity r) (Some p)" "recovered e fs p r = rel_base e fs r \<union> ov_rows r"
    using assms(3) by (simp_all add: durable_def)
  have ar: "r_arity r \<le> MAX_ARITY" using d(1) by (simp add: rel_ok_def)
  then have k: "length (encodeKey t) \<le> MAX_WORD_LEN" using key_short assms(4) by blast
  have ex: "DAFSA_WAL_OP_DEL = DAFSA_WAL_OP_ADD \<Longrightarrow> \<exists>u. length u = r_arity r \<and> encodeKey t = encodeKey u"
    by (simp add: wal_ops)
  note a = append_ok [OF assms(1,2) d(1,2) k ex assms(6) [unfolded rel_wal_append_del_def]]
  have u: "updates (r_arity r1) (\<lambda>d. relDeleteD e d t) (\<lambda>V. delete_result V t)"
    by (rule updates_delete) (use assms(1,4) a(6) ar in simp_all)
  obtain rc' r' where o: "write_base (\<lambda>d. relDeleteD e d t) e fs r1 = (rc', r')" "rel_ok e fs r'"
    "base_write_spec (\<lambda>V. delete_result V t) e fs r1 (rc', r')"
    by (rule write_base_ok [OF assms(1,2) a(1) u]) blast
  have e: "rc' = rc" "r' = r2" using o(1) assms(7) by (simp_all add: rel_delete_base_def)
  have b: "rel_base e fs r2 = rel_base e fs r1 - {t}" "r_arity r2 = r_arity r1" "r_ov r2 = r_ov r1" "r_wal r2 = r_wal r1"
    using o(3) e assms(8) by (auto simp: base_write_spec_def delete_result_def write_frame_def)
  have "log_ok r2" using b(2,4) a(2) by (simp add: log_ok_def)
  moreover have "log_of r2 = log_of r @ [(DAFSA_WAL_OP_DEL, encodeKey t)]"
    using b(4) a(9) by (simp add: log_of_def)
  then have "recovered e fs p r2 = recovered e fs p r - {t}"
    using replay_rows_snoc(2) [OF assms(4)] b(2) a(6) by (simp add: recovered_def)
  moreover have "ov_rows r2 = {}" using b(3) a(5) assms(5) by (simp add: ov_rows_def)
  ultimately show ?thesis
    using o(2) e a(3,6) b(1,2) d assms(5) by (simp add: durable_def)
qed

subsection \<open>Properties\<close>

text \<open>What an open for writing does: no file but the log's changes.\<close>

definition writable_outcome ::
  "engine \<Rightarrow> allocator \<Rightarrow> files \<Rightarrow> string option \<Rightarrow> string \<Rightarrow> string \<Rightarrow> nat \<Rightarrow> relation option \<times> files \<Rightarrow> bool" where
  "writable_outcome e al fs base_path dafsa_path wal_path arity out \<longleftrightarrow> (case out of (res, fs1) \<Rightarrow>
     (\<forall>p. p \<noteq> wal_path \<longrightarrow> fs1 p = fs p) \<and>
     (generous al \<and> writes_succeed e \<and> dafsa_wal_open_rw e (fs wal_path) \<noteq> None \<longrightarrow> res \<noteq> None) \<and>
     (\<forall>r. res = Some r \<longrightarrow> (\<exists>w. dafsa_wal_open_rw e (fs wal_path) = Some w \<and>
        fs1 wal_path = Some (dafsa_wal_image e (dw_recs w)) \<and>
        opened e fs1 base_path dafsa_path arity (Some w) r \<and> (r_dirty r \<longleftrightarrow> dw_recs w \<noteq> []))))"

text \<open>
  The contracts of the opens.  An open for writing gives the stored base with the log replayed over it, and leaves
  files that recover to the same; whether it also folds the log into the base's file at once, as the header says, or
  leaves that to the next sweep, as the code does, is left open.  A read-only open changes no file and leaves the
  dirty flag clear.
\<close>

definition writable_spec ::
  "engine \<Rightarrow> allocator \<Rightarrow> files \<Rightarrow> string option \<Rightarrow> string \<Rightarrow> string \<Rightarrow> nat \<Rightarrow> relation option \<times> files \<Rightarrow> bool" where
  "writable_spec e al fs base_path dafsa_path wal_path arity out \<longleftrightarrow> (case out of (res, fs1) \<Rightarrow>
     (\<forall>p. p \<noteq> wal_path \<and> p \<noteq> dafsa_path \<and> base_path \<noteq> Some p \<longrightarrow> fs1 p = fs p) \<and>
     (generous al \<and> writes_succeed e \<and> dafsa_wal_open_rw e (fs wal_path) \<noteq> None \<longrightarrow> res \<noteq> None) \<and>
     (\<forall>r. res = Some r \<longrightarrow> (\<exists>w. dafsa_wal_open_rw e (fs wal_path) = Some w \<and>
        r_arity r = arity \<and> rel_is_idb r = (base_path \<noteq> None) \<and> ov_rows r = {} \<and>
        rel_base e fs1 r = replay_rows arity (dw_recs w)
          (disk_tuples e fs arity (if base_path = None then Some dafsa_path else base_path)) \<and>
        (base_path \<noteq> None \<longrightarrow> rel_view e fs1 r = disk_tuples e fs arity (Some dafsa_path)) \<and>
        durable e fs1 (case base_path of None \<Rightarrow> dafsa_path | Some b \<Rightarrow> b) r \<and>
        fs1 wal_path = Some (dafsa_wal_image e (log_of r)))))"

definition readonly_spec ::
  "engine \<Rightarrow> allocator \<Rightarrow> files \<Rightarrow> string option \<Rightarrow> string \<Rightarrow> dafsa_wal option \<Rightarrow> nat \<Rightarrow> relation option \<Rightarrow> bool" where
  "readonly_spec e al fs base_path dafsa_path wal arity res \<longleftrightarrow>
     (generous al \<and> writes_succeed e \<longrightarrow> res \<noteq> None) \<and>
     (\<forall>r. res = Some r \<longrightarrow> opened e fs base_path dafsa_path arity wal r \<and> \<not> r_dirty r)"

lemma writable_ok:
  assumes "engine_ok e" "dafsa_create e \<noteq> None" "stored_ok e fs arity base_path dafsa_path"
    "wal_path \<noteq> dafsa_path" "base_path \<noteq> Some wal_path"
    "\<And>w. dafsa_wal_open_rw e (fs wal_path) = Some w \<Longrightarrow> recs_keyed arity (dw_recs w)"
  shows "writable_outcome e al fs base_path dafsa_path wal_path arity (open_writing e al fs base_path dafsa_path wal_path arity)"
proof -
  obtain res fs1 where o: "open_writing e al fs base_path dafsa_path wal_path arity = (res, fs1)" by fastforce
  note k = open_writing_ok [OF assms o]
  have "generous al \<and> writes_succeed e \<and> dafsa_wal_open_rw e (fs wal_path) \<noteq> None \<longrightarrow> res \<noteq> None"
    using k(2) by metis
  then show ?thesis
    unfolding o writable_outcome_def prod.case
    by (intro conjI k(1) allI impI k(3)) simp_all
qed

lemma readonly_ok:
  assumes "engine_ok e" "dafsa_create e \<noteq> None" "stored_ok e fs arity base_path dafsa_path"
    "\<And>w. dafsa_wal_open_ro e (fs wal_path) = Some w \<Longrightarrow> recs_keyed arity (dw_recs w)"
  shows "readonly_spec e al fs base_path dafsa_path (dafsa_wal_open_ro e (fs wal_path)) arity
     (open_reading e al fs base_path dafsa_path (Some wal_path) arity)"
  unfolding readonly_spec_def
  using open_reading_ok [OF assms(1-3), of "dafsa_wal_open_ro e (fs wal_path)" "Some wal_path" al] assms(4) by auto

lemma writable_contract:
  assumes "engine_ok e" "dafsa_create e \<noteq> None" "stored_ok e fs arity base_path dafsa_path"
    "wal_path \<noteq> dafsa_path" "base_path \<noteq> Some wal_path"
    "\<And>w. dafsa_wal_open_rw e (fs wal_path) = Some w \<Longrightarrow> recs_keyed arity (dw_recs w)"
  shows "writable_spec e al fs base_path dafsa_path wal_path arity (open_writing e al fs base_path dafsa_path wal_path arity)"
proof -
  obtain res fs1 where o: "open_writing e al fs base_path dafsa_path wal_path arity = (res, fs1)" by fastforce
  let ?p = "if base_path = None then dafsa_path else the base_path"
  have out: "writable_outcome e al fs base_path dafsa_path wal_path arity (res, fs1)"
    using writable_ok [OF assms, of al] by (simp add: o)
  have wal: "wal_ok e" using assms(1) by (simp add: engine_ok_def)
  have p: "?p \<noteq> wal_path" using assms(4,5) by auto
  have same: "fs1 q = fs q" if "q \<noteq> wal_path" for q using out that by (simp add: writable_outcome_def)
  then have disk: "disk_tuples e fs1 a (Some q) = disk_tuples e fs a (Some q)" "disk_ok e fs1 a (Some q) = disk_ok e fs a (Some q)"
    if "q \<noteq> wal_path" for q a using that by (simp_all add: disk_tuples_def disk_ok_def)
  have stored: "disk_ok e fs arity (Some ?p)" using assms(3) by (auto simp: stored_ok_def)
  have at: "(case base_path of None \<Rightarrow> dafsa_path | Some b \<Rightarrow> b) = ?p" by (simp split: option.split)
  have from_disk: "disk_tuples e fs1 arity (if base_path = None then Some dafsa_path else base_path) = disk_tuples e fs arity (Some ?p)"
    using disk(1) [OF p, of arity] by auto
  show ?thesis
    unfolding o writable_spec_def prod.case at
  proof (intro conjI allI impI)
    fix r assume r: "res = Some r"
    then obtain w where w: "dafsa_wal_open_rw e (fs wal_path) = Some w" "fs1 wal_path = Some (dafsa_wal_image e (dw_recs w))"
      "opened e fs1 base_path dafsa_path arity (Some w) r" using out by (auto simp: writable_outcome_def)
    have k: "wal_inv w" "recs_keyed arity (dw_recs w)" using w(1) assms(6) open_law(1) [OF wal] by blast+
    have op: "rel_ok e fs1 r" "r_wal r = Some w" "r_arity r = arity" "ov_rows r = {}" "rel_is_idb r = (base_path \<noteq> None)"
      "rel_base e fs1 r = replay_rows arity (dw_recs w) (disk_tuples e fs arity (Some ?p))"
      "base_path \<noteq> None \<longrightarrow> rel_dset e fs1 r = disk_tuples e fs arity (Some dafsa_path)"
      using w(3) from_disk disk(1) [of dafsa_path arity] assms(4) by (simp_all add: opened_def open_spec_def)
    have dur: "durable e fs1 ?p r"
      using op k stored disk [OF p, of arity] by (simp add: durable_def log_ok_def recovered_def log_of_def)
    have "(if base_path = None then Some dafsa_path else base_path) = Some ?p" by auto
    then show "\<exists>w. dafsa_wal_open_rw e (fs wal_path) = Some w \<and>
        r_arity r = arity \<and> rel_is_idb r = (base_path \<noteq> None) \<and> ov_rows r = {} \<and>
        rel_base e fs1 r = replay_rows arity (dw_recs w)
          (disk_tuples e fs arity (if base_path = None then Some dafsa_path else base_path)) \<and>
        (base_path \<noteq> None \<longrightarrow> rel_view e fs1 r = disk_tuples e fs arity (Some dafsa_path)) \<and>
        durable e fs1 ?p r \<and> fs1 wal_path = Some (dafsa_wal_image e (log_of r))"
      using w(1,2) op dur by (simp add: rel_view_def log_of_def)
  next
    fix q assume "q \<noteq> wal_path \<and> q \<noteq> dafsa_path \<and> base_path \<noteq> Some q"
    then show "fs1 q = fs q" by (simp add: same)
  next
    assume "generous al \<and> writes_succeed e \<and> dafsa_wal_open_rw e (fs wal_path) \<noteq> None"
    then show "res \<noteq> None" using out unfolding writable_outcome_def prod.case by blast
  qed
qed

text \<open>C22: opening a relation, for writing or for reading and as a rule head or not, recovers exactly the
  committed state: the base is the stored base with the log replayed over it, the view of a rule head
  is the stored view, and the relation is well formed. A writer's files recover to the same afterwards (its log's file is its
  log, and that over the stored base is the base), and no file of another relation changes; a reader changes no file and is not dirty. With
  memory, additions that succeed and a log that can be opened an open returns a relation. Assumed is memory to load an
  automaton (a file loads as its content says), and that the log holds rows of the relation's arity. The contract does not
  say whether a writer compacts at once, on which the header and the code differ.\<close>

theorem rel_open_recovers:
  assumes "engine_ok e" "dafsa_create e \<noteq> None" "stored_ok e fs arity (Some base_path) dafsa_path"
    "wal_path \<noteq> dafsa_path" "wal_path \<noteq> base_path"
    "\<forall>w. dafsa_wal_open_rw e (fs wal_path) = Some w \<or> dafsa_wal_open_ro e (fs wal_path) = Some w \<longrightarrow>
       recs_keyed arity (dw_recs w)"
  shows "writable_spec e al fs None dafsa_path wal_path arity (rel_open_writable e al fs dafsa_path wal_path arity) \<and>
    writable_spec e al fs (Some base_path) dafsa_path wal_path arity
      (rel_open_writable_idb e al fs base_path dafsa_path wal_path arity) \<and>
    readonly_spec e al fs None dafsa_path (dafsa_wal_open_ro e (fs wal_path)) arity
      (rel_open_readonly e al fs dafsa_path (Some wal_path) arity) \<and>
    readonly_spec e al fs (Some base_path) dafsa_path (dafsa_wal_open_ro e (fs wal_path)) arity
      (rel_open_readonly_idb e al fs base_path dafsa_path (Some wal_path) arity)"
proof -
  have "load_ok e" using assms(1) by (simp add: engine_ok_def)
  then have st: "stored_ok e fs arity None dafsa_path"
    using assms(3) by (simp add: stored_ok_def disk_ok_def file_at_def load_ok_def)
  have rw: "dafsa_wal_open_rw e (fs wal_path) = Some w \<Longrightarrow> recs_keyed arity (dw_recs w)" for w using assms(6) by blast
  have ro: "dafsa_wal_open_ro e (fs wal_path) = Some w \<Longrightarrow> recs_keyed arity (dw_recs w)" for w using assms(6) by blast
  have ne: "None \<noteq> Some wal_path" "Some base_path \<noteq> Some wal_path" using assms(5) by auto
  show ?thesis
    unfolding rel_open_writable_def rel_open_writable_idb_def rel_open_readonly_def rel_open_readonly_idb_def
    using writable_contract [OF assms(1,2) st assms(4) ne(1) rw] writable_contract [OF assms(1,2,3,4) ne(2) rw]
      readonly_ok [OF assms(1,2) st ro] readonly_ok [OF assms(1-3) ro] by blast
qed

text \<open>Files with a log that adds the row (5, 2), and nothing else.\<close>

definition log_files :: files where
  "log_files = no_files(''r.wal'' := Some (wal_image [(DAFSA_WAL_OP_ADD, encodeKey [5, 2])]))"

lemma log_files_recs:
  "dafsa_wal_open_rw trie_engine (log_files ''r.wal'') = Some (wal_of (log_files ''r.wal''))"
  "dafsa_wal_open_ro trie_engine (log_files ''r.wal'') = Some (wal_of (log_files ''r.wal''))"
  "dw_recs (wal_of (log_files ''r.wal'')) = [(DAFSA_WAL_OP_ADD, encodeKey [5, 2])]"
proof -
  have "recs_ok [(DAFSA_WAL_OP_ADD, encodeKey [5, 2])]" by (simp add: recs_ok_def MAX_WORD_LEN_def)
  then show "dw_recs (wal_of (log_files ''r.wal'')) = [(DAFSA_WAL_OP_ADD, encodeKey [5, 2])]"
    by (simp add: log_files_def)
qed (simp_all add: trie_engine_def log_files_def)

lemma one_rec_keyed: "recs_keyed 2 [(DAFSA_WAL_OP_ADD, encodeKey [5, 2])]"
  unfolding recs_keyed_def by (intro allI impI exI [of _ "[5, 2]"]) simp

lemma log_files_stored: "stored_ok trie_engine log_files 2 (Some ''r.base'') ''r.dafsa''"
  by (simp add: stored_ok_def disk_ok_def MAX_ARITY_def log_files_def no_files_def) (simp add: trie_engine_def)

lemma trie_writes: "writes_succeed trie_engine"
  by (simp add: writes_succeed_def trie_engine_def adds_succeed_def)

theorem rel_open_recovers_witness:
  "\<exists>r fs1. rel_open_writable trie_engine (\<lambda>_ _. True) log_files ''r.dafsa'' ''r.wal'' 2 = (Some r, fs1) \<and>
    rel_base trie_engine fs1 r = {[5, 2]} \<and> durable trie_engine fs1 ''r.dafsa'' r"
proof -
  have keyed: "\<forall>w. dafsa_wal_open_rw trie_engine (log_files ''r.wal'') = Some w \<or>
      dafsa_wal_open_ro trie_engine (log_files ''r.wal'') = Some w \<longrightarrow> recs_keyed 2 (dw_recs w)"
    using log_files_recs by (simp add: one_rec_keyed)
  obtain res fs1 where o: "rel_open_writable trie_engine (\<lambda>_ _. True) log_files ''r.dafsa'' ''r.wal'' 2 = (res, fs1)"
    by fastforce
  have ne: "''r.wal'' \<noteq> ''r.dafsa''" "''r.wal'' \<noteq> ''r.base''" by simp_all
  have spec: "writable_spec trie_engine (\<lambda>_ _. True) log_files None ''r.dafsa'' ''r.wal'' 2 (res, fs1)"
    using conjunct1 [OF rel_open_recovers [OF trie_engine_ok trie_create_ne log_files_stored ne keyed, of "\<lambda>_ _. True"]]
    unfolding o .
  have "res \<noteq> None" using spec trie_writes log_files_recs(1) by (simp add: writable_spec_def generous_def)
  then obtain r where r: "res = Some r" by blast
  have op: "rel_base trie_engine fs1 r = replay_rows 2 (dw_recs (wal_of (log_files ''r.wal''))) (disk_tuples trie_engine log_files 2 (Some ''r.dafsa''))"
    "durable trie_engine fs1 ''r.dafsa'' r"
    using spec r log_files_recs(1) by (simp_all add: writable_spec_def)
  have "disk_tuples trie_engine log_files 2 (Some ''r.dafsa'') = {}"
    by (simp add: disk_tuples_def log_files_def no_files_def) (simp add: trie_engine_def)
  then have "rel_base trie_engine fs1 r = {[5, 2]}"
    using op(1) replay_rows_snoc(1) [of "[5, 2]" 2 "[]" "{}"] log_files_recs(3) by simp
  with o r op(2) show ?thesis by auto
qed

text \<open>An empty relation with an empty log opened for writing.\<close>

definition logged2 :: relation where
  "logged2 = fresh2\<lparr>r_wal := Some (wal_of None), r_wal_path := Some ''r.wal''\<rparr>"

lemma wal_of_None: "dw_recs (wal_of None) = []"
  by (simp add: wal_of_def Let_def)

lemma logged2: "durable trie_engine no_files ''r.dafsa'' logged2" "r_arity logged2 = 2" "ov_rows logged2 = {}"
  "rel_base trie_engine no_files logged2 = {}" "log_of logged2 = []" "r_wal_path logged2 \<noteq> None"
proof -
  have path: "rel_ok e fs (r\<lparr>r_wal_path := q\<rparr>) = rel_ok e fs r" "rel_base e fs (r\<lparr>r_wal_path := q\<rparr>) = rel_base e fs r"
    for e fs r q
    by (cases "r_state r") (simp_all add: rel_ok_def owned_ok_def unloaded_ok_def viewOverlayClean_def wal_pending_def
        rel_base_def base_of_def split: option.split)
  show fields: "r_arity logged2 = 2" "ov_rows logged2 = {}" "rel_base trie_engine no_files logged2 = {}"
    "log_of logged2 = []" "r_wal_path logged2 \<noteq> None"
    using fresh2_ok by (simp_all add: logged2_def path log_of_def wal_of_None ov_rows_def)
  have "rel_ok trie_engine no_files (fresh2\<lparr>r_wal := Some (wal_of None)\<rparr>)"
    by (rule rel_ok_wal) (use fresh2_ok in simp_all)
  then have "rel_ok trie_engine no_files logged2" by (simp add: logged2_def path)
  moreover have "log_ok logged2" by (simp add: log_ok_def logged2_def wal_of_None recs_keyed_def)
  moreover have "disk_tuples trie_engine no_files 2 (Some ''r.dafsa'') = {}" "disk_ok trie_engine no_files 2 (Some ''r.dafsa'')"
    by (simp_all add: disk_tuples_def disk_ok_def no_files_def) (simp_all add: trie_engine_def)
  ultimately show "durable trie_engine no_files ''r.dafsa'' logged2"
    using fields by (simp add: durable_def recovered_def)
qed

text \<open>C9: given memory to load the relation (a file loads as its content says and an empty automaton can be created), compaction
  loses nothing at any point where it can stop, be it a failed fold, a failed save
  or a failed truncation or sync: what a crash then would recover is still the base with the
  overlay, readers see what they saw, and no other file changes. When it returns 0 the base file
  alone holds it all and the log is its header; it does return 0 when no call fails.\<close>

theorem rel_compact_safe:
  assumes "engine_ok e" "dafsa_create e \<noteq> None" "durable e fs p r"
  shows "compact_spec e p fs r (rel_compact e io al p fs r) \<and>
    (all_well e io al r \<longrightarrow> fst (rel_compact e io al p fs r) = 0)"
  using compact_ok [OF assms] by blast

theorem rel_compact_safe_witness:
  "fst (rel_compact trie_engine all_ok (\<lambda>_ _. True) ''r.dafsa'' no_files logged2) = 0 \<and>
   rel_wal_size (fst (snd (rel_compact trie_engine all_ok (\<lambda>_ _. True) ''r.dafsa'' no_files logged2))) = 16"
proof -
  have "fst (dafsa_save trie_engine d p fs) = 0" for d p fs by (simp add: trie_engine_def)
  then have "all_well trie_engine all_ok (\<lambda>_ _. True) logged2"
    using logged2(6) by (simp add: all_well_def generous_def)
  then show ?thesis
    using rel_compact_safe [OF trie_engine_ok trie_create_ne logged2(1), of all_ok "\<lambda>_ _. True"]
    by (auto simp: compact_spec_def split: prod.splits)
qed



text \<open>C12: recovery closes the loop: opening the files of a durable relation, whatever was in memory being
  lost, gives back its base together with the overlay as the base, for a writer and for a reader,
  and a writer's relation is durable again over the files it opened; with memory and a log that can be
  opened the writer's open returns a relation.\<close>

theorem rel_crash_recovery:
  assumes "engine_ok e" "dafsa_create e \<noteq> None" "durable e fs p r" "wal \<noteq> p"
    "fs wal = Some (dafsa_wal_image e (log_of r))"
  shows "(\<forall>r2 fs2. rel_open_writable e al fs p wal (r_arity r) = (Some r2, fs2) \<longrightarrow>
      rel_base e fs2 r2 = rel_base e fs r \<union> ov_rows r \<and> durable e fs2 p r2) \<and>
    (generous al \<and> writes_succeed e \<and> dafsa_wal_open_rw e (fs wal) \<noteq> None \<longrightarrow>
      fst (rel_open_writable e al fs p wal (r_arity r)) \<noteq> None) \<and>
    (\<forall>r2. dafsa_wal_open_ro e (fs wal) \<noteq> None \<and> rel_open_readonly e al fs p (Some wal) (r_arity r) = Some r2 \<longrightarrow>
      rel_base e fs r2 = rel_base e fs r \<union> ov_rows r)"
proof -
  let ?a = "r_arity r"
  have d: "rel_ok e fs r" "log_ok r" "disk_ok e fs ?a (Some p)" "recovered e fs p r = rel_base e fs r \<union> ov_rows r"
    using assms(3) by (simp_all add: durable_def)
  have wal: "wal_ok e" "load_ok e" using assms(1) by (simp_all add: engine_ok_def)
  have recs: "recs_ok (log_of r)" "recs_keyed ?a (log_of r)"
    using d(2) by (auto simp: log_ok_def log_of_def wal_inv_def)
  have same: "dw_recs w = log_of r" if "dafsa_wal_open_rw e (fs wal) = Some w \<or> dafsa_wal_open_ro e (fs wal) = Some w" for w
    using wal(1) recs(1) that unfolding assms(5) wal_ok_def by blast
  have st: "stored_ok e fs ?a None p"
    using d(1,3) wal(2) by (simp add: stored_ok_def rel_ok_def disk_ok_def file_at_def load_ok_def)
  have content: "rel_base e fs' r2 = rel_base e fs r \<union> ov_rows r"
    if "opened e fs' None p ?a (Some w) r2" "dw_recs w = log_of r" "fs' p = fs p" for fs' w r2
    using that d(4) by (simp add: opened_def open_spec_def recovered_def disk_tuples_def)
  have spec: "writable_outcome e al fs None p wal ?a (rel_open_writable e al fs p wal ?a)"
    using writable_ok [OF assms(1,2) st assms(4), of al] same recs(2) by (simp add: rel_open_writable_def)
  have returns: "generous al \<and> writes_succeed e \<and> dafsa_wal_open_rw e (fs wal) \<noteq> None \<longrightarrow>
      fst (rel_open_writable e al fs p wal ?a) \<noteq> None"
    using spec unfolding writable_outcome_def split_beta by blast
  have writer: "rel_base e fs2 r2 = rel_base e fs r \<union> ov_rows r \<and> durable e fs2 p r2"
    if o: "rel_open_writable e al fs p wal ?a = (Some r2, fs2)" for r2 fs2
  proof -
    have "writable_outcome e al fs None p wal ?a (Some r2, fs2)"
      using spec o by simp
    then obtain w where w: "dafsa_wal_open_rw e (fs wal) = Some w" "opened e fs2 None p ?a (Some w) r2" "fs2 p = fs p"
      using assms(4) by (auto simp: writable_outcome_def)
    have rw: "dw_recs w = log_of r" "wal_inv w" using same w(1) open_law(1) [OF wal(1)] by blast+
    have base: "rel_base e fs2 r2 = rel_base e fs r \<union> ov_rows r" by (rule content [OF w(2) rw(1) w(3)])
    have "durable e fs2 p r2"
      using w(2,3) rw recs(2) d(3) by (simp add: durable_def opened_def open_spec_def recovered_def log_ok_def log_of_def
          disk_ok_def disk_tuples_def)
    with base show ?thesis by blast
  qed
  moreover have "rel_base e fs r2 = rel_base e fs r \<union> ov_rows r"
    if o: "dafsa_wal_open_ro e (fs wal) \<noteq> None" "rel_open_readonly e al fs p (Some wal) ?a = Some r2" for r2
  proof -
    obtain w where w: "dafsa_wal_open_ro e (fs wal) = Some w" using o(1) by blast
    have "readonly_spec e al fs None p (Some w) ?a (Some r2)"
      using readonly_ok [OF assms(1,2) st, of wal al] same recs(2) o(2) w by (simp add: rel_open_readonly_def)
    then show ?thesis using content [of fs w r2] same w by (simp add: readonly_spec_def)
  qed
  ultimately show ?thesis using returns by blast
qed

text \<open>The files with one logged row, opened for writing.\<close>

lemma one_logged_row:
  obtains r fs1 where "rel_open_writable trie_engine (\<lambda>_ _. True) log_files ''r.dafsa'' ''r.wal'' 2 = (Some r, fs1)"
    "rel_base trie_engine fs1 r = {[5, 2]}" "ov_rows r = {}" "r_arity r = 2" "durable trie_engine fs1 ''r.dafsa'' r"
    "fs1 ''r.wal'' = Some (dafsa_wal_image trie_engine (log_of r))"
proof -
  have st: "stored_ok trie_engine log_files 2 None ''r.dafsa''"
    using log_files_stored by (simp add: stored_ok_def disk_ok_def file_at_def) (simp add: trie_engine_def)
  have ne: "''r.wal'' \<noteq> ''r.dafsa''" "None \<noteq> Some ''r.wal''" by simp_all
  have keyed: "recs_keyed 2 (dw_recs w)" if "dafsa_wal_open_rw trie_engine (log_files ''r.wal'') = Some w" for w
    using that log_files_recs by (simp add: one_rec_keyed)
  obtain res fs1 where o: "rel_open_writable trie_engine (\<lambda>_ _. True) log_files ''r.dafsa'' ''r.wal'' 2 = (res, fs1)"
    by fastforce
  have spec: "writable_spec trie_engine (\<lambda>_ _. True) log_files None ''r.dafsa'' ''r.wal'' 2 (res, fs1)"
    using writable_contract [OF trie_engine_ok trie_create_ne st ne keyed, of "\<lambda>_ _. True"] o by (simp add: rel_open_writable_def)
  have "res \<noteq> None" using spec trie_writes log_files_recs(1) by (simp add: writable_spec_def generous_def)
  then obtain r where r: "res = Some r" by blast
  have "disk_tuples trie_engine log_files 2 (Some ''r.dafsa'') = {}"
    by (simp add: disk_tuples_def log_files_def no_files_def) (simp add: trie_engine_def)
  then have "rel_base trie_engine fs1 r = {[5, 2]}"
    using spec r log_files_recs(1,3) replay_rows_snoc(1) [of "[5, 2]" 2 "[]" "{}"] by (simp add: writable_spec_def)
  moreover have "ov_rows r = {}" "r_arity r = 2" "durable trie_engine fs1 ''r.dafsa'' r"
    "fs1 ''r.wal'' = Some (dafsa_wal_image trie_engine (log_of r))"
    using spec r by (auto simp: writable_spec_def)
  ultimately show thesis using that o r by blast
qed

theorem rel_crash_recovery_witness:
  "\<exists>r fs1 r2 fs2. rel_open_writable trie_engine (\<lambda>_ _. True) log_files ''r.dafsa'' ''r.wal'' 2 = (Some r, fs1) \<and>
     rel_open_writable trie_engine (\<lambda>_ _. True) fs1 ''r.dafsa'' ''r.wal'' 2 = (Some r2, fs2) \<and> rel_base trie_engine fs2 r2 = {[5, 2]}"
proof (rule one_logged_row)
  fix r fs1 assume r: "rel_open_writable trie_engine (\<lambda>_ _. True) log_files ''r.dafsa'' ''r.wal'' 2 = (Some r, fs1)"
    "rel_base trie_engine fs1 r = {[5, 2]}" "ov_rows r = {}" "r_arity r = 2" "durable trie_engine fs1 ''r.dafsa'' r"
    "fs1 ''r.wal'' = Some (dafsa_wal_image trie_engine (log_of r))"
  obtain res fs2 where o: "rel_open_writable trie_engine (\<lambda>_ _. True) fs1 ''r.dafsa'' ''r.wal'' 2 = (res, fs2)" by fastforce
  have "generous (\<lambda>_ _. True)" "dafsa_wal_open_rw trie_engine (fs1 ''r.wal'') \<noteq> None"
    by (simp_all add: generous_def trie_engine_def)
  moreover have ne: "''r.wal'' \<noteq> ''r.dafsa''" by simp
  note rec = rel_crash_recovery [OF trie_engine_ok trie_create_ne r(5) ne r(6), of "\<lambda>_ _. True", unfolded r(4) o]
  ultimately have "res \<noteq> None" "\<forall>r2. res = Some r2 \<longrightarrow> rel_base trie_engine fs2 r2 = {[5, 2]}"
    using rec trie_writes r(2,3) by simp_all
  then obtain r2 where "res = Some r2" "rel_base trie_engine fs2 r2 = {[5, 2]}" by blast
  then show ?thesis using r(1) o by (intro exI [of _ r] exI [of _ fs1] exI [of _ r2] exI [of _ fs2]) simp
qed

end
