(* ===== verification/Schema.thy ===== *)
theory Schema
  imports Prelude
begin

text \<open>
  The typed schema a rule program can be checked against (\<^verbatim>\<open>src/schema.h\<close>, \<^verbatim>\<open>zig/src/schema.zig\<close>):
  column types, relation definitions, the table of at most 64 of them with \<^verbatim>\<open>dl_schema_add\<close> and
  \<^verbatim>\<open>dl_schema_find\<close>, and the structural equality of column types.  A type tag is a C \<open>int\<close> the caller
  writes, 0 standing for no type.  A name field of 64 bytes holds the C string up to its
  terminator, so at most 63 characters.
\<close>

definition DL_SCHEMA_MAX_RELS :: nat where "DL_SCHEMA_MAX_RELS = 64"
definition DL_SCHEMA_MAX_ARITY :: nat where "DL_SCHEMA_MAX_ARITY = 8"
definition DL_SCHEMA_NAME_MAX :: nat where "DL_SCHEMA_NAME_MAX = 64"
definition DL_ENUM_MAX_VALUES :: nat where "DL_ENUM_MAX_VALUES = 8"
definition DL_ENUM_VALUE_MAX :: nat where "DL_ENUM_VALUE_MAX = 32"

type_synonym coltype = int

definition DLT_NATURAL :: coltype where "DLT_NATURAL = 1"
definition DLT_TEXT :: coltype where "DLT_TEXT = 2"
definition DLT_BOOL :: coltype where "DLT_BOOL = 3"
definition DLT_CHAR :: coltype where "DLT_CHAR = 4"
definition DLT_DATE :: coltype where "DLT_DATE = 5"
definition DLT_TIMESTAMP :: coltype where "DLT_TIMESTAMP = 6"
definition DLT_SIGNED :: coltype where "DLT_SIGNED = 7"
definition DLT_LIST :: coltype where "DLT_LIST = 8"
definition DLT_OPTIONAL :: coltype where "DLT_OPTIONAL = 9"
definition DLT_ENUM :: coltype where "DLT_ENUM = 10"

lemmas coltype_defs = DLT_NATURAL_def DLT_TEXT_def DLT_BOOL_def DLT_CHAR_def DLT_DATE_def
  DLT_TIMESTAMP_def DLT_SIGNED_def DLT_LIST_def DLT_OPTIONAL_def DLT_ENUM_def

record colspec =
  cs_tag :: coltype
  cs_elem :: coltype
  cs_evalues :: "bytes list"
  cs_n_evalues :: u8
  cs_has_min :: int
  cs_has_max :: int
  cs_min :: int
  cs_max :: int
  cs_has_regex :: int
  cs_regex :: string

record reldef =
  rd_name :: string
  rd_arity :: nat
  rd_is_idb :: bool
  rd_cols :: "colspec list"

record schema =
  s_n_rels :: int
  s_rels :: "reldef list"

definition dl_colspec_eq :: "colspec \<Rightarrow> colspec \<Rightarrow> bool" where
  "dl_colspec_eq a b =
     (if cs_tag a \<noteq> cs_tag b then False
      else if cs_tag a = DLT_LIST \<or> cs_tag a = DLT_OPTIONAL then cs_elem a = cs_elem b
      else if cs_tag a = DLT_ENUM then
        let n = min (unat (cs_n_evalues a)) DL_ENUM_MAX_VALUES * DL_ENUM_VALUE_MAX in
        cs_n_evalues a = cs_n_evalues b \<and>
        take n (concat (cs_evalues a)) = take n (concat (cs_evalues b))
      else True)"

definition dl_schema_add :: "schema \<Rightarrow> string \<Rightarrow> nat \<Rightarrow> colspec list \<Rightarrow> int \<Rightarrow> int \<times> schema" where
  "dl_schema_add s name arity cols is_idb =
     (if arity < 1 \<or> arity > DL_SCHEMA_MAX_ARITY then (-1, s)
      else if s_n_rels s < 0 \<or> s_n_rels s \<ge> int DL_SCHEMA_MAX_RELS then (-1, s)
      else
        let n = nat (s_n_rels s) in
        if \<exists>r \<in> set (take n (s_rels s)). rd_name r = name then (-1, s)
        else
          let r = \<lparr>rd_name = take (DL_SCHEMA_NAME_MAX - 1) name, rd_arity = arity, rd_is_idb = (is_idb \<noteq> 0),
                   rd_cols = take arity cols @ drop arity (rd_cols (s_rels s ! n))\<rparr> in
          (0, s\<lparr>s_rels := (s_rels s)[n := r], s_n_rels := s_n_rels s + 1\<rparr>))"

definition dl_schema_find :: "schema \<Rightarrow> string \<Rightarrow> reldef option" where
  "dl_schema_find s name = find (\<lambda>r. rd_name r = name) (take (nat (s_n_rels s)) (s_rels s))"

subsection \<open>Structural types\<close>

text \<open>What \<^verbatim>\<open>dl_colspec_eq\<close> compares: a flat tag, a tag with its element, an enumeration with its values.\<close>

datatype col_type = Flat coltype | Param coltype coltype | Enum_values u8 bytes

definition col_type :: "colspec \<Rightarrow> col_type" where
  "col_type c =
     (if cs_tag c = DLT_LIST \<or> cs_tag c = DLT_OPTIONAL then Param (cs_tag c) (cs_elem c)
      else if cs_tag c = DLT_ENUM then
        Enum_values (cs_n_evalues c)
          (take (min (unat (cs_n_evalues c)) DL_ENUM_MAX_VALUES * DL_ENUM_VALUE_MAX) (concat (cs_evalues c)))
      else Flat (cs_tag c))"

lemma colspec_eq_type: "dl_colspec_eq a b \<longleftrightarrow> col_type a = col_type b"
  by (auto simp: dl_colspec_eq_def col_type_def Let_def coltype_defs)

lemma colspec_eq_refl [simp]: "dl_colspec_eq a a"
  by (simp add: colspec_eq_type)

lemma colspec_eq_sym: "dl_colspec_eq a b \<Longrightarrow> dl_colspec_eq b a"
  by (simp add: colspec_eq_type)

lemma colspec_eq_trans: "dl_colspec_eq a b \<Longrightarrow> dl_colspec_eq b c \<Longrightarrow> dl_colspec_eq a c"
  by (simp add: colspec_eq_type)

lemma colspec_eq_tag: "dl_colspec_eq a b \<Longrightarrow> cs_tag a = cs_tag b"
  by (simp add: dl_colspec_eq_def split: if_splits)

subsection \<open>The table\<close>

definition defined_rels :: "schema \<Rightarrow> reldef list" where
  "defined_rels s = take (nat (s_n_rels s)) (s_rels s)"

definition schema_ok :: "schema \<Rightarrow> bool" where
  "schema_ok s \<longleftrightarrow> 0 \<le> s_n_rels s \<and> s_n_rels s \<le> int DL_SCHEMA_MAX_RELS \<and> length (s_rels s) = DL_SCHEMA_MAX_RELS \<and>
     distinct (map rd_name (defined_rels s)) \<and>
     (\<forall>r \<in> set (s_rels s). length (rd_cols r) = DL_SCHEMA_MAX_ARITY) \<and>
     (\<forall>r \<in> set (defined_rels s). 1 \<le> rd_arity r \<and> rd_arity r \<le> DL_SCHEMA_MAX_ARITY \<and> length (rd_name r) < DL_SCHEMA_NAME_MAX)"

text \<open>The contract: success defines exactly this relation under its name; failure, for one of the
  listed reasons, changes nothing.\<close>

definition schema_add_spec :: "schema \<Rightarrow> string \<Rightarrow> nat \<Rightarrow> colspec list \<Rightarrow> int \<Rightarrow> int \<times> schema \<Rightarrow> bool" where
  "schema_add_spec s name arity cols is_idb res \<longleftrightarrow> (case res of (rc, s') \<Rightarrow>
     if arity < 1 \<or> arity > DL_SCHEMA_MAX_ARITY \<or> dl_schema_find s name \<noteq> None \<or> s_n_rels s = int DL_SCHEMA_MAX_RELS
     then rc = -1 \<and> s' = s
     else rc = 0 \<and> s_n_rels s' = s_n_rels s + 1 \<and>
       (\<exists>r. dl_schema_find s' name = Some r \<and> rd_name r = name \<and> rd_arity r = arity \<and>
          take arity (rd_cols r) = take arity cols \<and> rd_is_idb r = (is_idb \<noteq> 0)) \<and>
       (\<forall>other. other \<noteq> name \<longrightarrow> dl_schema_find s' other = dl_schema_find s other))"

lemma find_none_set: "find P xs = None \<longleftrightarrow> (\<forall>x \<in> set xs. \<not> P x)"
  by (auto simp: find_None_iff)

lemma find_append: "find P (xs @ ys) = (case find P xs of None \<Rightarrow> find P ys | Some x \<Rightarrow> Some x)"
  by (induction xs) auto

lemma schema_add_ok:
  assumes "schema_ok s" "length name < DL_SCHEMA_NAME_MAX" "arity \<le> length cols"
  shows "schema_add_spec s name arity cols is_idb (dl_schema_add s name arity cols is_idb) \<and>
    schema_ok (snd (dl_schema_add s name arity cols is_idb))"
proof -
  let ?n = "nat (s_n_rels s)"
  let ?bad = "arity < 1 \<or> arity > DL_SCHEMA_MAX_ARITY \<or> dl_schema_find s name \<noteq> None \<or> s_n_rels s = int DL_SCHEMA_MAX_RELS"
  have found: "dl_schema_find s name \<noteq> None \<longleftrightarrow> (\<exists>r \<in> set (take ?n (s_rels s)). rd_name r = name)"
    by (auto simp: dl_schema_find_def find_none_set)
  show ?thesis
  proof (cases ?bad)
    case True
    then have "dl_schema_add s name arity cols is_idb = (-1, s)"
      using assms(1) found by (auto simp: dl_schema_add_def schema_ok_def Let_def)
    with True assms(1) show ?thesis unfolding schema_add_spec_def by simp
  next
    case False
    let ?r = "\<lparr>rd_name = name, rd_arity = arity, rd_is_idb = (is_idb \<noteq> 0),
                rd_cols = take arity cols @ drop arity (rd_cols (s_rels s ! ?n))\<rparr>"
    let ?s = "s\<lparr>s_rels := (s_rels s)[?n := ?r], s_n_rels := s_n_rels s + 1\<rparr>"
    have n: "?n < length (s_rels s)" "0 \<le> s_n_rels s" using False assms(1) by (auto simp: schema_ok_def)
    have add: "dl_schema_add s name arity cols is_idb = (0, ?s)"
      using False found assms(1,2) by (auto simp: dl_schema_add_def Let_def schema_ok_def)
    have def': "defined_rels ?s = defined_rels s @ [?r]"
      using n by (simp add: defined_rels_def nat_add_distrib take_Suc_conv_app_nth)
    have fnd: "dl_schema_find ?s x = find (\<lambda>r. rd_name r = x) (defined_rels s @ [?r])" for x
      unfolding dl_schema_find_def defined_rels_def [symmetric] def' ..
    have old: "dl_schema_find s x = find (\<lambda>r. rd_name r = x) (defined_rels s)" for x
      by (simp add: dl_schema_find_def defined_rels_def)
    have "dl_schema_find s name = None" using False by simp
    then have new: "find (\<lambda>r. rd_name r = name) (defined_rels s) = None" by (simp add: old)
    then have fresh: "name \<notin> rd_name ` set (defined_rels s)" by (auto simp: find_none_set)
    have cols: "length (rd_cols (s_rels s ! ?n)) = DL_SCHEMA_MAX_ARITY"
      using assms(1) n by (simp add: schema_ok_def)
    have spec: "schema_add_spec s name arity cols is_idb (0, ?s)"
      using False new assms(3) unfolding schema_add_spec_def
      by (auto simp: fnd old find_append split: option.splits)
    moreover have "schema_ok ?s"
      using assms(1,2,3) False n fresh cols unfolding schema_ok_def def'
      by (auto simp: DL_SCHEMA_MAX_ARITY_def dest!: set_update_subset_insert [THEN subsetD])
    ultimately show ?thesis by (simp add: add)
  qed
qed

subsection \<open>Properties\<close>

text \<open>Two column types are equal exactly when they have the same structure: the tag, the element type of
  a list or an optional, the value set of an enumeration; bounds and regexes do not count, and the
  relation is an equivalence.\<close>

theorem colspec_eq_structural:
  "(dl_colspec_eq a b \<longleftrightarrow> col_type a = col_type b) \<and> equivp dl_colspec_eq \<and>
   dl_colspec_eq a (a\<lparr>cs_has_min := hmin, cs_has_max := hmax, cs_min := lo, cs_max := hi, cs_has_regex := hrx, cs_regex := rx\<rparr>)"
  by (auto simp: colspec_eq_type col_type_def intro!: equivpI reflpI sympI transpI)

text \<open>Adding a definition to a well-formed schema meets the header's contract on every branch and keeps
  the schema well formed: a duplicate name, a bad arity or a full table change nothing, and a definition
  added is the one found under its name, every other name being found as before (for names that
  fit the name field).\<close>

theorem schema_add_correct:
  assumes "schema_ok s" "length name < DL_SCHEMA_NAME_MAX" "arity \<le> length cols"
  shows "schema_add_spec s name arity cols is_idb (dl_schema_add s name arity cols is_idb) \<and>
    schema_ok (snd (dl_schema_add s name arity cols is_idb))"
  by (rule schema_add_ok [OF assms])

definition no_colspec :: colspec where
  "no_colspec = \<lparr>cs_tag = 0, cs_elem = 0, cs_evalues = [], cs_n_evalues = 0, cs_has_min = 0, cs_has_max = 0,
     cs_min = 0, cs_max = 0, cs_has_regex = 0, cs_regex = ''''\<rparr>"

definition no_schema :: schema where
  "no_schema = \<lparr>s_n_rels = 0, s_rels = replicate 64
     \<lparr>rd_name = '''', rd_arity = 0, rd_is_idb = False, rd_cols = replicate 8 no_colspec\<rparr>\<rparr>"

lemma no_schema_ok: "schema_ok no_schema"
  by (auto simp: schema_ok_def no_schema_def DL_SCHEMA_MAX_RELS_def DL_SCHEMA_MAX_ARITY_def defined_rels_def)

theorem schema_add_correct_witness:
  "schema_add_spec no_schema ''edge'' 1 [no_colspec] 0 (dl_schema_add no_schema ''edge'' 1 [no_colspec] 0)"
  using schema_add_correct [OF no_schema_ok, of "''edge''" 1 "[no_colspec]" 0] by (simp add: DL_SCHEMA_NAME_MAX_def)

text \<open>A name longer than the field is stored truncated: it is not found again, and its duplicate is accepted.\<close>

lemma long_name_accepted_twice:
  "(let name = replicate 64 (CHR ''a''); s1 = snd (dl_schema_add no_schema name 1 [no_colspec] 0) in
    fst (dl_schema_add s1 name 1 [no_colspec] 0) = 0 \<and> dl_schema_find s1 name = None)"
  by code_simp

end
