(* ===== verification/Ast.thy ===== *)
theory Ast
  imports Prelude
begin

text \<open>
  The syntax tree of a Datalog program (\<^verbatim>\<open>src/parser.h\<close>): tokens as arguments of atoms, arithmetic
  expressions, atoms and rules, with the source positions the diagnostics report.
  An array with its count is a list, a nullable pointer an option; the text of a punctuation token, a
  null pointer nothing reads, is the empty string.
\<close>

datatype token_kind =
    TOK_EOF | TOK_IDENT | TOK_VAR | TOK_INT | TOK_COLONMINUS | TOK_COMMA | TOK_DOT | TOK_LPAREN | TOK_RPAREN
  | TOK_NOT | TOK_AGGREGATE | TOK_EQ | TOK_LT | TOK_LE | TOK_GT | TOK_GE | TOK_NE
  | TOK_PLUS | TOK_MINUS | TOK_STAR | TOK_SLASH | TOK_PERCENT | TOK_TILDE | TOK_STRING
  | TOK_LBRACKET | TOK_RBRACKET | TOK_PIPE | TOK_LIST

datatype token = Token
  (tk_kind: token_kind) (tk_off: u32) (tk_line: int) (tk_col: int) (tk_text: string) (tk_ival: u32)
  (tk_children: "token list") (tk_tail: "token option")

datatype expr = EX_INT u32 | EX_VAR string | EX_BINOP char expr expr

record atom =
  at_pred :: string
  at_off :: u32
  at_line :: int
  at_col :: int
  at_args :: "token list"
  at_negated :: bool
  at_aggregate :: bool
  at_agg_op :: "token option"
  at_pattern :: "string option"
  at_pattern_col :: int
  at_arith :: "expr option"

record rule =
  rl_head :: "atom option"
  rl_off :: u32
  rl_body :: "atom list"
  rl_has_negation :: bool
  rl_has_aggregate :: bool

text \<open>The \<open>i\<close>-th argument, a null pointer when there is none.\<close>

definition arg :: "atom \<Rightarrow> nat \<Rightarrow> token option" where
  "arg a i = (if i < length (at_args a) then Some (at_args a ! i) else None)"

text \<open>Tokens as the parser makes them, for examples.\<close>

definition var_token :: "string \<Rightarrow> token" where "var_token x = Token TOK_VAR 0 0 0 x 0 [] None"
definition int_token :: "u32 \<Rightarrow> token" where "int_token i = Token TOK_INT 0 0 0 '''' i [] None"

definition plain_atom :: "string \<Rightarrow> token list \<Rightarrow> atom" where
  "plain_atom p ts = \<lparr>at_pred = p, at_off = 0, at_line = 0, at_col = 0, at_args = ts, at_negated = False,
     at_aggregate = False, at_agg_op = None, at_pattern = None, at_pattern_col = 0, at_arith = None\<rparr>"

definition plain_rule :: "atom \<Rightarrow> atom list \<Rightarrow> rule" where
  "plain_rule h b = \<lparr>rl_head = Some h, rl_off = 0, rl_body = b, rl_has_negation = False, rl_has_aggregate = False\<rparr>"

end
