(* ===== verification/Typecheck.thy ===== *)
theory Typecheck
  imports Schema Ast
begin

text \<open>
  The rule typechecker (\<^verbatim>\<open>zig/src/typecheck.zig\<close>, \<^verbatim>\<open>dl_typecheck_rules\<close> of \<^verbatim>\<open>src/schema.h\<close>): a rule's
  variables are typed by one pass over the head and the body atoms from left to right, each
  variable having one column type for the whole rule.  A diagnostic is a value \<open>type_error\<close> with
  the token or atom (so the source position) and the types it reports; its wording is left out.

  The declarative side is \<open>rule_typed S \<Gamma> r\<close>: under the assignment \<open>\<Gamma>\<close> of column types to variables every
  occurrence has the type its place requires.  Acceptance implies it; for the atoms whose typing does not
  depend on what the pass has seen before, it is equivalent to it.
\<close>

datatype type_error =
    TE_oom
  | TE_conflict string colspec int int string colspec int int string
  | TE_constant token colspec string
  | TE_list_column token colspec string
  | TE_list_element token coltype string
  | TE_nested_list token
  | TE_reserved_head atom
  | TE_undeclared atom
  | TE_arity atom nat
  | TE_pattern_operand token
  | TE_variable_element token
  | TE_mixed_elements token coltype coltype
  | TE_empty_list token
  | TE_equality atom
  | TE_untyped_operand token
  | TE_operand_type token colspec
  | TE_missing_operand string
  | TE_untyped_list token string
  | TE_not_list token string colspec
  | TE_constant_list token string
  | TE_cons_head token
  | TE_append_second token
  | TE_range_arity atom
  | TE_range_name atom "token option"
  | TE_untyped_variable string "atom option"

text \<open>Sequencing of steps that may fail, and a loop of them.\<close>

definition andthen :: "'e + 'a \<Rightarrow> ('a \<Rightarrow> 'e + 'b) \<Rightarrow> 'e + 'b" where
  "andthen m f = (case m of Inl e \<Rightarrow> Inl e | Inr x \<Rightarrow> f x)"

fun each :: "('a \<Rightarrow> 's \<Rightarrow> 'e + 's) \<Rightarrow> 'a list \<Rightarrow> 's \<Rightarrow> 'e + 's" where
  "each f [] s = Inr s"
| "each f (x # xs) s = andthen (f x s) (each f xs)"

lemma andthen_simps [simp]: "andthen (Inl e) f = Inl e" "andthen (Inr x) f = f x"
  by (simp_all add: andthen_def)

lemma andthen_Inr: "andthen m f = Inr y \<longleftrightarrow> (\<exists>x. m = Inr x \<and> f x = Inr y)"
  by (simp add: andthen_def split: sum.splits)

subsection \<open>Builtin predicate names\<close>

definition isComparisonPred :: "string \<Rightarrow> bool" where
  "isComparisonPred p \<longleftrightarrow> p = ''<'' \<or> p = ''<='' \<or> p = ''>'' \<or> p = ''>='' \<or> p = ''!=''"

definition isStrProducingPred :: "string \<Rightarrow> bool" where
  "isStrProducingPred p \<longleftrightarrow> p = ''concat'' \<or> p = ''length'' \<or> p = ''lower'' \<or> p = ''upper''"

definition isStrFilterPred :: "string \<Rightarrow> bool" where
  "isStrFilterPred p \<longleftrightarrow> p = ''prefix'' \<or> p = ''suffix'' \<or> p = ''contains''"

definition isListBuiltinPred :: "string \<Rightarrow> bool" where
  "isListBuiltinPred p \<longleftrightarrow> p = ''cons'' \<or> p = ''car'' \<or> p = ''cdr'' \<or> p = ''append'' \<or> p = ''member''"

definition isRangeBuiltinPred :: "string \<Rightarrow> bool" where
  "isRangeBuiltinPred p \<longleftrightarrow> p = ''range''"

definition isReservedBuiltinName :: "string \<Rightarrow> bool" where
  "isReservedBuiltinName p \<longleftrightarrow> p = ''member'' \<or> p = ''car'' \<or> p = ''cons'' \<or> p = ''cdr'' \<or> p = ''append'' \<or>
     p = ''concat'' \<or> p = ''length'' \<or> p = ''lower'' \<or> p = ''upper'' \<or> p = ''prefix'' \<or> p = ''suffix'' \<or>
     p = ''contains'' \<or> p = ''range''"

subsection \<open>The variable table of a rule\<close>

definition scalar :: "coltype \<Rightarrow> colspec" where
  "scalar t = \<lparr>cs_tag = t, cs_elem = 0, cs_evalues = replicate DL_ENUM_MAX_VALUES (replicate DL_ENUM_VALUE_MAX 0),
     cs_n_evalues = 0, cs_has_min = 0, cs_has_max = 0, cs_min = 0, cs_max = 0, cs_has_regex = 0, cs_regex = ''''\<rparr>"

definition listOf :: "coltype \<Rightarrow> colspec" where
  "listOf elem = (scalar 0)\<lparr>cs_tag := DLT_LIST, cs_elem := elem\<rparr>"

definition isOrderable :: "colspec \<Rightarrow> bool" where
  "isOrderable t \<longleftrightarrow> cs_tag t = DLT_NATURAL \<or> cs_tag t = DLT_TIMESTAMP \<or> cs_tag t = DLT_DATE \<or>
     cs_tag t = DLT_BOOL \<or> cs_tag t = DLT_CHAR"

record varent =
  ve_name :: string
  ve_type :: colspec
  ve_line :: int
  ve_col :: int
  ve_site :: string

record vtab =
  vt_v :: "varent list"
  vt_cap :: nat

definition vtabFind :: "vtab \<Rightarrow> string \<Rightarrow> varent option" where
  "vtabFind t name = find (\<lambda>e. ve_name e = name) (vt_v t)"

text \<open>Get or create; \<open>False\<close> is a null pointer, for lack of memory.\<close>

definition vtabGet :: "allocator \<Rightarrow> vtab \<Rightarrow> string \<Rightarrow> bool \<times> vtab" where
  "vtabGet al t name =
     (if vtabFind t name \<noteq> None then (True, t)
      else
        let nc = (if vt_cap t \<noteq> 0 then vt_cap t * 2 else 16); full = (length (vt_v t) = vt_cap t) in
        if full \<and> \<not> al ''vtab'' nc then (False, t)
        else
          let t1 = (if full then t\<lparr>vt_cap := nc\<rparr> else t) in
          if \<not> al ''strdup'' (length name + 1) then (False, t1)
          else (True, t1\<lparr>vt_v := vt_v t1 @
            [\<lparr>ve_name = name, ve_type = scalar 0, ve_line = 0, ve_col = 0, ve_site = ''''\<rparr>]\<rparr>))"

definition vt_update :: "string \<Rightarrow> (varent \<Rightarrow> varent) \<Rightarrow> vtab \<Rightarrow> vtab" where
  "vt_update name f t = t\<lparr>vt_v := map (\<lambda>e. if ve_name e = name then f e else e) (vt_v t)\<rparr>"

definition constrainVar :: "allocator \<Rightarrow> string \<Rightarrow> colspec \<Rightarrow> int \<Rightarrow> int \<Rightarrow> string \<Rightarrow> vtab \<Rightarrow> type_error + vtab" where
  "constrainVar al name want line col site t =
     (case vtabGet al t name of (okay, t1) \<Rightarrow>
        if \<not> okay then Inl TE_oom
        else case vtabFind t1 name of
          None \<Rightarrow> Inl TE_oom
        | Some e \<Rightarrow>
            if cs_tag (ve_type e) = 0 then
              Inr (vt_update name (\<lambda>v. v\<lparr>ve_type := want, ve_line := line, ve_col := col, ve_site := site\<rparr>) t1)
            else if \<not> dl_colspec_eq (ve_type e) want then
              Inl (TE_conflict name want line col site (ve_type e) (ve_line e) (ve_col e) (ve_site e))
            else Inr t1)"

definition constrain_var_token :: "allocator \<Rightarrow> token \<Rightarrow> colspec \<Rightarrow> string \<Rightarrow> vtab \<Rightarrow> type_error + vtab" where
  "constrain_var_token al tk want site t = constrainVar al (tk_text tk) want (tk_line tk) (tk_col tk) site t"

text \<open>The pattern most builtins share: a missing operand or one that is not a variable is not constrained.\<close>

definition constrain_if_var :: "allocator \<Rightarrow> token option \<Rightarrow> colspec \<Rightarrow> string \<Rightarrow> vtab \<Rightarrow> type_error + vtab" where
  "constrain_if_var al tk want site t =
     (case tk of
        Some a \<Rightarrow> if tk_kind a = TOK_VAR then constrain_var_token al a want site t else Inr t
      | None \<Rightarrow> Inr t)"

subsection \<open>Tokens\<close>

definition tokenInherentType :: "token option \<Rightarrow> colspec" where
  "tokenInherentType a =
     (case a of None \<Rightarrow> scalar 0
      | Some t \<Rightarrow> (case tk_kind t of
            TOK_INT \<Rightarrow> scalar DLT_NATURAL
          | TOK_IDENT \<Rightarrow> scalar DLT_TEXT
          | TOK_STRING \<Rightarrow> scalar DLT_TEXT
          | _ \<Rightarrow> scalar 0))"

definition elemOfConst :: "token \<Rightarrow> coltype" where
  "elemOfConst a =
     (if tk_kind a = TOK_INT then DLT_NATURAL
      else if tk_kind a = TOK_IDENT \<or> tk_kind a = TOK_STRING then DLT_TEXT else 0)"

definition constrainListElem :: "allocator \<Rightarrow> coltype \<Rightarrow> string \<Rightarrow> token \<Rightarrow> vtab \<Rightarrow> type_error + vtab" where
  "constrainListElem al elem site e t =
     (if tk_kind e = TOK_VAR then constrain_var_token al e (scalar elem) site t
      else if tk_kind e = TOK_INT then (if elem \<noteq> DLT_NATURAL then Inl (TE_list_element e elem site) else Inr t)
      else if tk_kind e = TOK_IDENT \<or> tk_kind e = TOK_STRING then
        (if elem \<noteq> DLT_TEXT then Inl (TE_list_element e elem site) else Inr t)
      else if tk_kind e = TOK_LIST then Inl (TE_nested_list e)
      else Inr t)"

definition typeListLiteralKnown :: "allocator \<Rightarrow> token \<Rightarrow> coltype \<Rightarrow> string \<Rightarrow> vtab \<Rightarrow> type_error + vtab" where
  "typeListLiteralKnown al lit elem site t =
     (if tk_kind lit \<noteq> TOK_LIST then Inr t
      else andthen (each (constrainListElem al elem site) (tk_children lit) t)
        (constrain_if_var al (tk_tail lit) (listOf elem) site))"

definition constrainArg :: "allocator \<Rightarrow> token option \<Rightarrow> colspec \<Rightarrow> string \<Rightarrow> vtab \<Rightarrow> type_error + vtab" where
  "constrainArg al a want site t =
     (case a of None \<Rightarrow> Inr t
      | Some tk \<Rightarrow> (case tk_kind tk of
            TOK_VAR \<Rightarrow> constrain_var_token al tk want site t
          | TOK_INT \<Rightarrow> if \<not> dl_colspec_eq want (scalar DLT_NATURAL) then Inl (TE_constant tk want site) else Inr t
          | TOK_IDENT \<Rightarrow> if \<not> dl_colspec_eq want (scalar DLT_TEXT) then Inl (TE_constant tk want site) else Inr t
          | TOK_STRING \<Rightarrow> if \<not> dl_colspec_eq want (scalar DLT_TEXT) then Inl (TE_constant tk want site) else Inr t
          | TOK_LIST \<Rightarrow> if cs_tag want \<noteq> DLT_LIST then Inl (TE_list_column tk want site)
                       else typeListLiteralKnown al tk (cs_elem want) site t
          | _ \<Rightarrow> Inr t))"

fun infer_elems :: "token \<Rightarrow> token list \<Rightarrow> coltype \<Rightarrow> type_error + coltype" where
  "infer_elems lit [] got = Inr got"
| "infer_elems lit (e # es) got =
     (if tk_kind e = TOK_VAR then Inl (TE_variable_element e)
      else if tk_kind e = TOK_LIST then Inl (TE_nested_list e)
      else
        let ec = elemOfConst e in
        if ec = 0 then infer_elems lit es got
        else if got = 0 then infer_elems lit es ec
        else if got \<noteq> ec then Inl (TE_mixed_elements lit got ec)
        else infer_elems lit es got)"

definition inferListLiteralElem :: "token \<Rightarrow> type_error + coltype" where
  "inferListLiteralElem lit =
     (if tk_tail lit \<noteq> None then Inl (TE_pattern_operand lit)
      else andthen (infer_elems lit (tk_children lit) 0)
        (\<lambda>got. if got = 0 then Inl (TE_empty_list lit) else Inr got))"

text \<open>The type of the list operand of a builtin.\<close>

definition resolveListOperand :: "vtab \<Rightarrow> token option \<Rightarrow> string \<Rightarrow> type_error + colspec" where
  "resolveListOperand t tok pred =
     (case tok of
        None \<Rightarrow> Inl (TE_missing_operand pred)
      | Some tp \<Rightarrow>
          if tk_kind tp = TOK_LIST then andthen (inferListLiteralElem tp) (\<lambda>el. Inr (listOf el))
          else if tk_kind tp = TOK_VAR then
            (case vtabFind t (tk_text tp) of
               Some e \<Rightarrow>
                 if cs_tag (ve_type e) = DLT_LIST then Inr (ve_type e)
                 else if cs_tag (ve_type e) = 0 then Inl (TE_untyped_list tp pred)
                 else Inl (TE_not_list tp pred (ve_type e))
             | None \<Rightarrow> Inl (TE_untyped_list tp pred))
          else Inl (TE_constant_list tp pred))"

subsection \<open>Atoms\<close>

definition typeRelational :: "allocator \<Rightarrow> schema \<Rightarrow> bool \<Rightarrow> atom \<Rightarrow> vtab \<Rightarrow> type_error + vtab" where
  "typeRelational al S is_head a t =
     (if is_head \<and> isReservedBuiltinName (at_pred a) then Inl (TE_reserved_head a)
      else case dl_schema_find S (at_pred a) of
        None \<Rightarrow> Inl (TE_undeclared a)
      | Some rd \<Rightarrow>
          if length (at_args a) \<noteq> rd_arity rd then Inl (TE_arity a (rd_arity rd))
          else each (\<lambda>(tk, c). constrainArg al (Some tk) c (at_pred a)) (zip (at_args a) (rd_cols rd)) t)"

fun typeExpr :: "allocator \<Rightarrow> int \<Rightarrow> int \<Rightarrow> string \<Rightarrow> expr \<Rightarrow> vtab \<Rightarrow> type_error + vtab" where
  "typeExpr al line col site (EX_VAR x) t = constrainVar al x (scalar DLT_NATURAL) line col site t"
| "typeExpr al line col site (EX_BINOP c l r) t =
     andthen (typeExpr al line col site l t) (typeExpr al line col site r)"
| "typeExpr al line col site (EX_INT i) t = Inr t"

definition typeArith :: "allocator \<Rightarrow> atom \<Rightarrow> vtab \<Rightarrow> type_error + vtab" where
  "typeArith al a t =
     andthen (constrain_if_var al (arg a 0) (scalar DLT_NATURAL) (at_pred a) t)
       (\<lambda>t1. case at_arith a of None \<Rightarrow> Inr t1 | Some e \<Rightarrow> typeExpr al (at_line a) (at_col a) (at_pred a) e t1)"

definition typeListAssignment :: "allocator \<Rightarrow> atom \<Rightarrow> vtab \<Rightarrow> type_error + vtab" where
  "typeListAssignment al a t =
     andthen (resolveListOperand t (arg a 1) (at_pred a)) (\<lambda>lt.
       case arg a 0 of
         None \<Rightarrow> Inr t
       | Some pt \<Rightarrow>
           andthen (each (\<lambda>el. constrain_if_var al (Some el) (scalar (cs_elem lt)) (at_pred a)) (tk_children pt) t)
             (constrain_if_var al (tk_tail pt) (listOf (cs_elem lt)) (at_pred a)))"

definition is_var :: "token option \<Rightarrow> bool" where
  "is_var a \<longleftrightarrow> (case a of Some t \<Rightarrow> tk_kind t = TOK_VAR | None \<Rightarrow> False)"

definition side_type :: "vtab \<Rightarrow> token option \<Rightarrow> colspec" where
  "side_type t a =
     (if is_var a then (case vtabFind t (tk_text (the a)) of Some e \<Rightarrow> ve_type e | None \<Rightarrow> scalar 0)
      else tokenInherentType a)"

text \<open>Registering a variable without a type; a failed allocation is ignored here.\<close>

definition register :: "allocator \<Rightarrow> token option \<Rightarrow> vtab \<Rightarrow> vtab" where
  "register al a t = (if is_var a then snd (vtabGet al t (tk_text (the a))) else t)"

definition typeEquality :: "allocator \<Rightarrow> atom \<Rightarrow> vtab \<Rightarrow> type_error + vtab" where
  "typeEquality al a t =
     (let l = arg a 0; r = arg a 1 in
      if l \<noteq> None \<and> tk_kind (the l) = TOK_LIST then typeListAssignment al a t
      else
        let lt = side_type t l; rt = side_type t r in
        if cs_tag lt \<noteq> 0 \<and> cs_tag rt \<noteq> 0 \<and> \<not> dl_colspec_eq lt rt then
          (if is_var r then constrain_if_var al r lt (at_pred a) t
           else if is_var l then constrain_if_var al l rt (at_pred a) t
           else Inl (TE_equality a))
        else if cs_tag lt \<noteq> 0 \<and> cs_tag rt = 0 then constrain_if_var al r lt (at_pred a) t
        else if cs_tag rt \<noteq> 0 \<and> cs_tag lt = 0 then constrain_if_var al l rt (at_pred a) t
        else if cs_tag lt = 0 \<and> cs_tag rt = 0 then Inr (register al r (register al l t))
        else Inr t)"

definition typeAggregate :: "allocator \<Rightarrow> atom \<Rightarrow> vtab \<Rightarrow> type_error + vtab" where
  "typeAggregate al a t =
     (let op = (case at_agg_op a of Some o' \<Rightarrow> tk_text o' | None \<Rightarrow> '''');
          result = (\<lambda>c. constrainVar al (at_pred a) c (at_line a) (at_col a) op) in
      if op = ''min'' \<or> op = ''max'' then
        (if is_var (arg a 0) then
           let src = the (arg a 0);
               ot = (case vtabFind t (tk_text src) of Some e \<Rightarrow> ve_type e | None \<Rightarrow> scalar 0) in
           if cs_tag ot = 0 then Inl (TE_untyped_operand src)
           else if cs_tag ot \<noteq> DLT_NATURAL \<and> cs_tag ot \<noteq> DLT_TIMESTAMP \<and> cs_tag ot \<noteq> DLT_DATE then
             Inl (TE_operand_type src ot)
           else result ot t
         else result (scalar DLT_NATURAL) t)
      else andthen (result (scalar DLT_NATURAL) t) (\<lambda>t1.
        if op = ''count'' then Inr t1
        else constrain_if_var al (arg a 0) (scalar DLT_NATURAL) op t1))"

definition each_arg :: "allocator \<Rightarrow> colspec \<Rightarrow> string \<Rightarrow> atom \<Rightarrow> vtab \<Rightarrow> type_error + vtab" where
  "each_arg al want site a t = each (\<lambda>tk. constrainArg al (Some tk) want site) (at_args a) t"

definition typeStrProducing :: "allocator \<Rightarrow> atom \<Rightarrow> vtab \<Rightarrow> type_error + vtab" where
  "typeStrProducing al a t =
     (if at_pred a = ''length'' then
        andthen (constrain_if_var al (arg a 0) (scalar DLT_NATURAL) (at_pred a) t)
          (constrainArg al (arg a 1) (scalar DLT_TEXT) (at_pred a))
      else each_arg al (scalar DLT_TEXT) (at_pred a) a t)"

definition typeStrFilter :: "allocator \<Rightarrow> atom \<Rightarrow> vtab \<Rightarrow> type_error + vtab" where
  "typeStrFilter al a t = each_arg al (scalar DLT_TEXT) (at_pred a) a t"

definition typeListBuiltin :: "allocator \<Rightarrow> atom \<Rightarrow> vtab \<Rightarrow> type_error + vtab" where
  "typeListBuiltin al a t =
     (let p = at_pred a in
      if p = ''member'' \<or> p = ''car'' then
        andthen (resolveListOperand t (arg a 1) p) (\<lambda>lt. constrain_if_var al (arg a 0) (scalar (cs_elem lt)) p t)
      else if p = ''cdr'' then
        andthen (resolveListOperand t (arg a 1) p) (\<lambda>lt. constrain_if_var al (arg a 0) (listOf (cs_elem lt)) p t)
      else if p = ''cons'' then
        andthen (resolveListOperand t (arg a 2) p) (\<lambda>lt.
          andthen (case arg a 1 of
              None \<Rightarrow> Inr t
            | Some h \<Rightarrow>
                if tk_kind h = TOK_VAR then constrain_var_token al h (scalar (cs_elem lt)) p t
                else if tk_kind h = TOK_LIST then Inl (TE_cons_head h)
                else constrainListElem al (cs_elem lt) p h t)
            (constrain_if_var al (arg a 0) (listOf (cs_elem lt)) p))
      else
        andthen (resolveListOperand t (arg a 1) p) (\<lambda>lt.
          andthen (case arg a 2 of
              None \<Rightarrow> Inr t
            | Some b \<Rightarrow>
                if tk_kind b = TOK_VAR then constrain_var_token al b (listOf (cs_elem lt)) p t
                else if tk_kind b = TOK_LIST then typeListLiteralKnown al b (cs_elem lt) p t
                else Inl (TE_append_second b))
            (constrain_if_var al (arg a 0) (listOf (cs_elem lt)) p)))"

definition typeRange :: "allocator \<Rightarrow> atom \<Rightarrow> vtab \<Rightarrow> type_error + vtab" where
  "typeRange al a t =
     (if length (at_args a) \<noteq> 4 then Inl (TE_range_arity a)
      else if arg a 1 = None \<or> tk_kind (the (arg a 1)) \<noteq> TOK_IDENT then Inl (TE_range_name a (arg a 1))
      else andthen (constrain_if_var al (arg a 0) (scalar DLT_NATURAL) ''range'' t) (\<lambda>t1.
        andthen (constrainArg al (arg a 2) (scalar DLT_NATURAL) ''range'' t1)
          (constrainArg al (arg a 3) (scalar DLT_NATURAL) ''range'')))"

definition typeComparison :: "allocator \<Rightarrow> atom \<Rightarrow> vtab \<Rightarrow> type_error + vtab" where
  "typeComparison al a t =
     (let established = (\<lambda>i c. case arg a i of
            Some tk \<Rightarrow> if tk_kind tk = TOK_VAR
              then (case vtabFind t (tk_text tk) of Some e \<Rightarrow> ve_type e | None \<Rightarrow> c) else c
          | None \<Rightarrow> c);
          lc0 = (if length (at_args a) > 0 then tokenInherentType (arg a 0) else scalar DLT_NATURAL);
          rc0 = (if length (at_args a) > 1 then tokenInherentType (arg a 1) else lc0);
          lc = established 0 lc0; rc = established 1 rc0;
          want = (if isOrderable lc then lc else if isOrderable rc then rc else scalar DLT_NATURAL) in
      each_arg al want (at_pred a) a t)"

definition typeBodyAtom :: "allocator \<Rightarrow> schema \<Rightarrow> atom \<Rightarrow> vtab \<Rightarrow> type_error + vtab" where
  "typeBodyAtom al S a t =
     (if at_aggregate a then typeAggregate al a t
      else if at_pattern a \<noteq> None then each_arg al (scalar DLT_TEXT) ''~'' a t
      else if at_arith a \<noteq> None then typeArith al a t
      else if at_pred a = ''!='' then Inr (fold (\<lambda>tk. register al (Some tk)) (at_args a) t)
      else if isComparisonPred (at_pred a) then typeComparison al a t
      else if at_pred a = ''='' \<and> length (at_args a) = 2 then typeEquality al a t
      else if isStrProducingPred (at_pred a) then typeStrProducing al a t
      else if isStrFilterPred (at_pred a) then typeStrFilter al a t
      else if isListBuiltinPred (at_pred a) then typeListBuiltin al a t
      else if isRangeBuiltinPred (at_pred a) then typeRange al a t
      else typeRelational al S False a t)"

definition typeRule :: "allocator \<Rightarrow> schema \<Rightarrow> rule \<Rightarrow> type_error + unit" where
  "typeRule al S r =
     andthen (case rl_head r of
         None \<Rightarrow> Inr \<lparr>vt_v = [], vt_cap = 0\<rparr>
       | Some h \<Rightarrow> typeRelational al S True h \<lparr>vt_v = [], vt_cap = 0\<rparr>) (\<lambda>t1.
     andthen (each (typeBodyAtom al S) (rl_body r) t1) (\<lambda>t2.
       case find (\<lambda>e. cs_tag (ve_type e) = 0) (vt_v t2) of
         Some e \<Rightarrow> Inl (TE_untyped_variable (ve_name e) (rl_head r))
       | None \<Rightarrow> Inr ()))"

text \<open>\<open>None\<close> is a null schema: nothing to check.\<close>

definition dl_typecheck_rules :: "allocator \<Rightarrow> schema option \<Rightarrow> rule list \<Rightarrow> type_error + unit" where
  "dl_typecheck_rules al S rules =
     (case S of None \<Rightarrow> Inr () | Some S' \<Rightarrow> each (\<lambda>r _. typeRule al S' r) rules ())"

end
