(* ===== verification/TypecheckSound.thy ===== *)
theory TypecheckSound
  imports Typecheck
begin

text \<open>
  Correctness of the rule typechecker: the typing judgement, soundness of acceptance, completeness for
  the atoms whose typing does not depend on the order of the pass, and the one place where the order
  lets an ill-typed rule through.
\<close>

subsection \<open>The typing judgement\<close>

type_synonym typing = "string \<Rightarrow> colspec"

definition var_has :: "typing \<Rightarrow> string \<Rightarrow> colspec \<Rightarrow> bool" where
  "var_has \<Gamma> x c \<longleftrightarrow> dl_colspec_eq (\<Gamma> x) c"

definition if_var_has :: "typing \<Rightarrow> token option \<Rightarrow> colspec \<Rightarrow> bool" where
  "if_var_has \<Gamma> a c \<longleftrightarrow> (is_var a \<longrightarrow> var_has \<Gamma> (tk_text (the a)) c)"

definition elem_typed :: "typing \<Rightarrow> coltype \<Rightarrow> token \<Rightarrow> bool" where
  "elem_typed \<Gamma> el tk \<longleftrightarrow>
     (if tk_kind tk = TOK_VAR then var_has \<Gamma> (tk_text tk) (scalar el)
      else if tk_kind tk = TOK_LIST then False
      else elemOfConst tk = 0 \<or> elemOfConst tk = el)"

definition literal_typed :: "typing \<Rightarrow> coltype \<Rightarrow> token \<Rightarrow> bool" where
  "literal_typed \<Gamma> el lit \<longleftrightarrow> (\<forall>tk \<in> set (tk_children lit). elem_typed \<Gamma> el tk) \<and> if_var_has \<Gamma> (tk_tail lit) (listOf el)"

definition arg_typed :: "typing \<Rightarrow> colspec \<Rightarrow> token \<Rightarrow> bool" where
  "arg_typed \<Gamma> c tk \<longleftrightarrow>
     (if tk_kind tk = TOK_VAR then var_has \<Gamma> (tk_text tk) c
      else if tk_kind tk = TOK_LIST then cs_tag c = DLT_LIST \<and> literal_typed \<Gamma> (cs_elem c) tk
      else elemOfConst tk = 0 \<or> dl_colspec_eq c (scalar (elemOfConst tk)))"

definition opt_arg_typed :: "typing \<Rightarrow> colspec \<Rightarrow> token option \<Rightarrow> bool" where
  "opt_arg_typed \<Gamma> c a \<longleftrightarrow> (\<forall>tk. a = Some tk \<longrightarrow> arg_typed \<Gamma> c tk)"

definition list_operand :: "typing \<Rightarrow> token option \<Rightarrow> coltype \<Rightarrow> bool" where
  "list_operand \<Gamma> a el \<longleftrightarrow> (\<exists>tk. a = Some tk \<and>
     (tk_kind tk = TOK_VAR \<and> var_has \<Gamma> (tk_text tk) (listOf el) \<or>
      tk_kind tk = TOK_LIST \<and> inferListLiteralElem tk = Inr el))"

fun expr_typed :: "typing \<Rightarrow> expr \<Rightarrow> bool" where
  "expr_typed \<Gamma> (EX_VAR x) = var_has \<Gamma> x (scalar DLT_NATURAL)"
| "expr_typed \<Gamma> (EX_BINOP c l r) = (expr_typed \<Gamma> l \<and> expr_typed \<Gamma> r)"
| "expr_typed \<Gamma> (EX_INT i) = True"

definition relation_typed :: "schema \<Rightarrow> typing \<Rightarrow> atom \<Rightarrow> bool" where
  "relation_typed S \<Gamma> a \<longleftrightarrow> (\<exists>rd. dl_schema_find S (at_pred a) = Some rd \<and> length (at_args a) = rd_arity rd \<and>
     (\<forall>(tk, c) \<in> set (zip (at_args a) (rd_cols rd)). arg_typed \<Gamma> c tk))"

text \<open>The type of a side of an equation, when it has one.\<close>

definition side_typed :: "typing \<Rightarrow> token option \<Rightarrow> colspec" where
  "side_typed \<Gamma> a = (if is_var a then \<Gamma> (tk_text (the a)) else tokenInherentType a)"

text \<open>Both sides of an equation between variables and constants have a type, and the same one; a list literal as its
  right side has no type of its own, and the code then checks nothing.\<close>

definition equality_typed :: "typing \<Rightarrow> atom \<Rightarrow> bool" where
  "equality_typed \<Gamma> a \<longleftrightarrow>
     (if arg a 0 \<noteq> None \<and> tk_kind (the (arg a 0)) = TOK_LIST then
        \<exists>el. list_operand \<Gamma> (arg a 1) el \<and>
          (\<forall>tk \<in> set (tk_children (the (arg a 0))). if_var_has \<Gamma> (Some tk) (scalar el)) \<and>
          if_var_has \<Gamma> (tk_tail (the (arg a 0))) (listOf el)
      else
        let lt = side_typed \<Gamma> (arg a 0); rt = side_typed \<Gamma> (arg a 1) in
        (is_var (arg a 0) \<or> cs_tag lt \<noteq> 0) \<and> (is_var (arg a 1) \<or> cs_tag rt \<noteq> 0) \<longrightarrow>
          cs_tag lt \<noteq> 0 \<and> cs_tag rt \<noteq> 0 \<and> dl_colspec_eq lt rt)"

definition aggregate_typed :: "typing \<Rightarrow> atom \<Rightarrow> bool" where
  "aggregate_typed \<Gamma> a \<longleftrightarrow>
     (let op = (case at_agg_op a of Some o' \<Rightarrow> tk_text o' | None \<Rightarrow> '''') in
      if (op = ''min'' \<or> op = ''max'') \<and> is_var (arg a 0) then
        (let src = tk_text (the (arg a 0)) in
         cs_tag (\<Gamma> src) \<in> {DLT_NATURAL, DLT_TIMESTAMP, DLT_DATE} \<and> var_has \<Gamma> (at_pred a) (\<Gamma> src))
      else var_has \<Gamma> (at_pred a) (scalar DLT_NATURAL) \<and>
        (op \<notin> {''min'', ''max'', ''count''} \<longrightarrow> if_var_has \<Gamma> (arg a 0) (scalar DLT_NATURAL)))"

definition list_builtin_typed :: "typing \<Rightarrow> atom \<Rightarrow> bool" where
  "list_builtin_typed \<Gamma> a \<longleftrightarrow>
     (let p = at_pred a in
      if p = ''member'' \<or> p = ''car'' then \<exists>el. list_operand \<Gamma> (arg a 1) el \<and> if_var_has \<Gamma> (arg a 0) (scalar el)
      else if p = ''cdr'' then \<exists>el. list_operand \<Gamma> (arg a 1) el \<and> if_var_has \<Gamma> (arg a 0) (listOf el)
      else if p = ''cons'' then \<exists>el. list_operand \<Gamma> (arg a 2) el \<and>
        (\<forall>h. arg a 1 = Some h \<longrightarrow> elem_typed \<Gamma> el h) \<and> if_var_has \<Gamma> (arg a 0) (listOf el)
      else \<exists>el. list_operand \<Gamma> (arg a 1) el \<and>
        (\<forall>b. arg a 2 = Some b \<longrightarrow> (tk_kind b = TOK_VAR \<or> tk_kind b = TOK_LIST) \<and> arg_typed \<Gamma> (listOf el) b) \<and>
        if_var_has \<Gamma> (arg a 0) (listOf el))"

definition atom_typed :: "schema \<Rightarrow> typing \<Rightarrow> atom \<Rightarrow> bool" where
  "atom_typed S \<Gamma> a \<longleftrightarrow>
     (if at_aggregate a then aggregate_typed \<Gamma> a
      else if at_pattern a \<noteq> None then \<forall>tk \<in> set (at_args a). arg_typed \<Gamma> (scalar DLT_TEXT) tk
      else if at_arith a \<noteq> None then if_var_has \<Gamma> (arg a 0) (scalar DLT_NATURAL) \<and> expr_typed \<Gamma> (the (at_arith a))
      else if at_pred a = ''!='' then True
      else if isComparisonPred (at_pred a) then
        \<exists>c. isOrderable c \<and> (\<forall>tk \<in> set (at_args a). arg_typed \<Gamma> c tk)
      else if at_pred a = ''='' \<and> length (at_args a) = 2 then equality_typed \<Gamma> a
      else if isStrProducingPred (at_pred a) then
        (if at_pred a = ''length''
         then if_var_has \<Gamma> (arg a 0) (scalar DLT_NATURAL) \<and> opt_arg_typed \<Gamma> (scalar DLT_TEXT) (arg a 1)
         else \<forall>tk \<in> set (at_args a). arg_typed \<Gamma> (scalar DLT_TEXT) tk)
      else if isStrFilterPred (at_pred a) then \<forall>tk \<in> set (at_args a). arg_typed \<Gamma> (scalar DLT_TEXT) tk
      else if isListBuiltinPred (at_pred a) then list_builtin_typed \<Gamma> a
      else if isRangeBuiltinPred (at_pred a) then
        length (at_args a) = 4 \<and> tk_kind (the (arg a 1)) = TOK_IDENT \<and> if_var_has \<Gamma> (arg a 0) (scalar DLT_NATURAL) \<and>
        opt_arg_typed \<Gamma> (scalar DLT_NATURAL) (arg a 2) \<and> opt_arg_typed \<Gamma> (scalar DLT_NATURAL) (arg a 3)
      else relation_typed S \<Gamma> a)"

definition rule_typed :: "schema \<Rightarrow> typing \<Rightarrow> rule \<Rightarrow> bool" where
  "rule_typed S \<Gamma> r \<longleftrightarrow>
     (\<forall>h. rl_head r = Some h \<longrightarrow> \<not> isReservedBuiltinName (at_pred h) \<and> relation_typed S \<Gamma> h) \<and>
     (\<forall>a \<in> set (rl_body r). atom_typed S \<Gamma> a)"

text \<open>Column types a schema may declare: a tag, and for a list a flat element type.\<close>

definition spec_ok :: "colspec \<Rightarrow> bool" where
  "spec_ok c \<longleftrightarrow> cs_tag c \<noteq> 0 \<and> (cs_tag c = DLT_LIST \<longrightarrow> cs_elem c \<noteq> 0 \<and> cs_elem c \<noteq> DLT_LIST)"

definition columns_ok :: "schema \<Rightarrow> bool" where
  "columns_ok S \<longleftrightarrow> schema_ok S \<and> (\<forall>rd \<in> set (defined_rels S). \<forall>c \<in> set (take (rd_arity rd) (rd_cols rd)). spec_ok c)"

text \<open>An equation between two variables, and the rules in which such an equation is read only when the pass
  has typed one of them: it occurs in the head or in an earlier relational atom.\<close>

definition var_equality :: "atom \<Rightarrow> bool" where
  "var_equality a \<longleftrightarrow> \<not> at_aggregate a \<and> at_pattern a = None \<and> at_arith a = None \<and> at_pred a = ''='' \<and>
     length (at_args a) = 2 \<and> is_var (arg a 0) \<and> is_var (arg a 1)"

definition relational :: "atom \<Rightarrow> bool" where
  "relational a \<longleftrightarrow> \<not> at_aggregate a \<and> at_pattern a = None \<and> at_arith a = None \<and> \<not> isComparisonPred (at_pred a) \<and>
     \<not> (at_pred a = ''='' \<and> length (at_args a) = 2) \<and> \<not> isStrProducingPred (at_pred a) \<and>
     \<not> isStrFilterPred (at_pred a) \<and> \<not> isListBuiltinPred (at_pred a) \<and> \<not> isRangeBuiltinPred (at_pred a)"

definition arg_vars :: "atom \<Rightarrow> string set" where
  "arg_vars a = set (map tk_text (filter (\<lambda>tk. tk_kind tk = TOK_VAR) (at_args a)))"

fun anchored :: "string set \<Rightarrow> atom list \<Rightarrow> bool" where
  "anchored V [] = True"
| "anchored V (a # as) =
     ((var_equality a \<longrightarrow> arg_vars a \<inter> V \<noteq> {}) \<and>
      anchored (if relational a then V \<union> arg_vars a else V) as)"

definition anchored_rule :: "rule \<Rightarrow> bool" where
  "anchored_rule r \<longleftrightarrow> anchored (case rl_head r of Some h \<Rightarrow> arg_vars h | None \<Rightarrow> {}) (rl_body r)"

subsection \<open>The table grows\<close>

definition tab_ok :: "vtab \<Rightarrow> bool" where
  "tab_ok t \<longleftrightarrow> (\<forall>e \<in> set (vt_v t). cs_tag (ve_type e) \<noteq> 0 \<longrightarrow> spec_ok (ve_type e))"

definition extends :: "vtab \<Rightarrow> vtab \<Rightarrow> bool" where
  "extends t t' \<longleftrightarrow> (\<forall>x e. vtabFind t x = Some e \<and> cs_tag (ve_type e) \<noteq> 0 \<longrightarrow> vtabFind t' x = Some e)"

definition env :: "vtab \<Rightarrow> typing" where
  "env t x = (case vtabFind t x of Some e \<Rightarrow> ve_type e | None \<Rightarrow> scalar 0)"

definition known :: "vtab \<Rightarrow> string \<Rightarrow> bool" where
  "known t x \<longleftrightarrow> cs_tag (env t x) \<noteq> 0"

lemma scalar_simps [simp]: "cs_tag (scalar c) = c" "cs_tag (listOf c) = DLT_LIST" "cs_elem (listOf c) = c"
  by (simp_all add: scalar_def listOf_def)

lemma extends_refl [simp]: "extends t t"
  by (simp add: extends_def)

lemma extends_trans: "extends t u \<Longrightarrow> extends u v \<Longrightarrow> extends t v"
  by (simp add: extends_def)

lemma extends_env: "extends t t' \<Longrightarrow> known t x \<Longrightarrow> env t' x = env t x"
  by (auto simp: extends_def env_def known_def split: option.splits)

lemma extends_known: "extends t t' \<Longrightarrow> known t x \<Longrightarrow> known t' x"
  by (metis extends_env known_def)

lemma vtabFind_get:
  "vtabGet al t name = (okay, t') \<Longrightarrow>
     vtabFind t' x = (if okay \<and> x = name \<and> vtabFind t name = None
       then Some \<lparr>ve_name = name, ve_type = scalar 0, ve_line = 0, ve_col = 0, ve_site = ''''\<rparr> else vtabFind t x)"
  by (auto simp: vtabGet_def vtabFind_def find_append Let_def split: if_splits option.splits)

lemma env_get: "vtabGet al t name = (okay, t') \<Longrightarrow> env t' x = env t x"
  by (auto simp: env_def vtabFind_get split: option.splits)

lemma extends_get: "vtabGet al t name = (okay, t') \<Longrightarrow> extends t t'"
  by (auto simp: extends_def vtabFind_get)

lemma tab_ok_get: "vtabGet al t name = (okay, t') \<Longrightarrow> tab_ok t \<Longrightarrow> tab_ok t'"
  by (auto simp: vtabGet_def tab_ok_def Let_def split: if_splits)

lemma find_map_update:
  "(\<And>e. ve_name (f e) = ve_name e) \<Longrightarrow>
     find (\<lambda>e. ve_name e = x) (map (\<lambda>e. if ve_name e = name then f e else e) xs) =
     (if x = name then map_option f (find (\<lambda>e. ve_name e = x) xs) else find (\<lambda>e. ve_name e = x) xs)"
  by (induction xs) auto

lemma vtabFind_update:
  "(\<And>e. ve_name (f e) = ve_name e) \<Longrightarrow>
     vtabFind (vt_update name f t) x = (if x = name then map_option f (vtabFind t x) else vtabFind t x)"
  by (simp add: vtabFind_def vt_update_def find_map_update)

subsection \<open>Sound steps\<close>

text \<open>
  A step from \<open>t\<close> with the result \<open>res\<close> establishes \<open>P\<close>: when it succeeds the table has grown, is
  well formed, and every table it grows into satisfies \<open>P\<close>.
\<close>

definition establishes :: "vtab \<Rightarrow> type_error + vtab \<Rightarrow> (typing \<Rightarrow> bool) \<Rightarrow> bool" where
  "establishes t res P \<longleftrightarrow>
     (\<forall>t'. res = Inr t' \<longrightarrow> extends t t' \<and> tab_ok t' \<and> (\<forall>u. extends t' u \<longrightarrow> P (env u)))"

definition sound :: "(vtab \<Rightarrow> type_error + vtab) \<Rightarrow> (typing \<Rightarrow> bool) \<Rightarrow> bool" where
  "sound f P \<longleftrightarrow> (\<forall>t. tab_ok t \<longrightarrow> establishes t (f t) P)"

lemma establishes_Inl [simp]: "establishes t (Inl e) P"
  by (simp add: establishes_def)

lemma establishes_Inr: "tab_ok t \<Longrightarrow> (\<And>u. extends t u \<Longrightarrow> P (env u)) \<Longrightarrow> establishes t (Inr t) P"
  by (simp add: establishes_def)

lemma establishes_mono: "establishes t m P \<Longrightarrow> (\<And>\<Gamma>. P \<Gamma> \<Longrightarrow> Q \<Gamma>) \<Longrightarrow> establishes t m Q"
  by (auto simp: establishes_def)

lemma soundD: "sound f P \<Longrightarrow> tab_ok t \<Longrightarrow> establishes t (f t) P"
  by (simp add: sound_def)

lemma sound_mono: "sound f P \<Longrightarrow> (\<And>\<Gamma>. P \<Gamma> \<Longrightarrow> Q \<Gamma>) \<Longrightarrow> sound f Q"
  by (auto simp: sound_def intro: establishes_mono)

lemma establishes_then:
  assumes "establishes t m P" "sound g Q"
  shows "establishes t (andthen m g) (\<lambda>\<Gamma>. P \<Gamma> \<and> Q \<Gamma>)"
  unfolding establishes_def
proof (intro allI impI)
  fix t' assume "andthen m g = Inr t'"
  then obtain t1 where t1: "m = Inr t1" "g t1 = Inr t'" by (auto simp: andthen_Inr)
  then have a: "extends t t1" "tab_ok t1" "\<And>u. extends t1 u \<Longrightarrow> P (env u)"
    using assms(1) by (auto simp: establishes_def)
  then have b: "extends t1 t'" "tab_ok t'" "\<And>u. extends t' u \<Longrightarrow> Q (env u)"
    using soundD [OF assms(2) a(2)] t1(2) by (auto simp: establishes_def)
  show "extends t t' \<and> tab_ok t' \<and> (\<forall>u. extends t' u \<longrightarrow> P (env u) \<and> Q (env u))"
    using a b by (blast intro: extends_trans)
qed

lemma sound_then: "sound f P \<Longrightarrow> sound g Q \<Longrightarrow> sound (\<lambda>t. andthen (f t) g) (\<lambda>\<Gamma>. P \<Gamma> \<and> Q \<Gamma>)"
  by (simp add: sound_def [of "\<lambda>t. andthen (f t) g"] establishes_then soundD)

lemma sound_eq: "sound g P \<Longrightarrow> (\<And>t. f t = g t) \<Longrightarrow> sound f P"
  by (simp add: sound_def)

lemma sound_skip: "(\<And>\<Gamma>. P \<Gamma>) \<Longrightarrow> sound Inr P"
  by (simp add: sound_def establishes_Inr)

lemma sound_each:
  assumes "\<And>x. x \<in> set xs \<Longrightarrow> sound (f x) (P x)"
  shows "sound (each f xs) (\<lambda>\<Gamma>. \<forall>x \<in> set xs. P x \<Gamma>)"
  using assms
proof (induction xs)
  case Nil
  then show ?case by (simp add: sound_def establishes_Inr)
next
  case (Cons x xs)
  have "sound (\<lambda>t. andthen (f x t) (each f xs)) (\<lambda>\<Gamma>. P x \<Gamma> \<and> (\<forall>x \<in> set xs. P x \<Gamma>))"
    by (rule sound_then) (simp_all add: Cons)
  then show ?case by simp
qed

lemma sound_constrainVar:
  assumes "spec_ok want"
  shows "sound (constrainVar al x want line col site) (\<lambda>\<Gamma>. var_has \<Gamma> x want)"
  unfolding sound_def establishes_def
proof (intro allI impI)
  fix t t'
  assume ok: "tab_ok t" and res: "constrainVar al x want line col site t = Inr t'"
  from res obtain t1 e where t1: "vtabGet al t x = (True, t1)" "vtabFind t1 x = Some e"
    and e: "if cs_tag (ve_type e) = 0
      then t' = vt_update x (\<lambda>v. v\<lparr>ve_type := want, ve_line := line, ve_col := col, ve_site := site\<rparr>) t1
      else dl_colspec_eq (ve_type e) want \<and> t' = t1"
    by (auto simp: constrainVar_def split: prod.splits if_splits option.splits)
  note g = extends_get [OF t1(1)] tab_ok_get [OF t1(1) ok]
  show "extends t t' \<and> tab_ok t' \<and> (\<forall>u. extends t' u \<longrightarrow> var_has (env u) x want)"
  proof (cases "cs_tag (ve_type e) = 0")
    case True
    let ?f = "\<lambda>v. v\<lparr>ve_type := want, ve_line := line, ve_col := col, ve_site := site\<rparr>"
    have t': "t' = vt_update x ?f t1" using e True by simp
    have f: "vtabFind t' y = (if y = x then Some (?f e) else vtabFind t1 y)" for y
      unfolding t' by (subst vtabFind_update) (simp_all add: t1(2))
    have "extends t1 t'" using True t1(2) by (auto simp: extends_def f)
    moreover have "tab_ok t'" using g(2) assms by (auto simp: t' vt_update_def tab_ok_def)
    moreover have "env t' x = want" by (simp add: env_def f)
    moreover from this have "known t' x" using assms by (simp add: known_def spec_ok_def)
    ultimately show ?thesis using g(1) by (auto simp: var_has_def dest: extends_env intro: extends_trans)
  next
    case False
    then have "dl_colspec_eq (env t1 x) want" "t' = t1" "known t1 x"
      using e t1(2) by (auto simp: env_def known_def)
    with g show ?thesis by (auto simp: var_has_def dest: extends_env)
  qed
qed

lemma sound_var_token: "spec_ok c \<Longrightarrow> sound (constrain_var_token al tk c site) (\<lambda>\<Gamma>. var_has \<Gamma> (tk_text tk) c)"
  unfolding constrain_var_token_def by (rule sound_constrainVar)

lemma sound_if_var: "spec_ok c \<Longrightarrow> sound (constrain_if_var al a c site) (\<lambda>\<Gamma>. if_var_has \<Gamma> a c)"
  by (cases a) (auto simp: constrain_if_var_def if_var_has_def is_var_def sound_def establishes_Inr
      intro: soundD [OF sound_var_token])

text \<open>The flat element types: neither no type nor a list.\<close>

definition flat :: "coltype \<Rightarrow> bool" where
  "flat el \<longleftrightarrow> el \<noteq> 0 \<and> el \<noteq> DLT_LIST"

lemma flat_simps [simp]: "flat DLT_NATURAL" "flat DLT_TEXT" "spec_ok (scalar c) = flat c" "spec_ok (listOf c) = flat c"
  by (auto simp: flat_def spec_ok_def scalar_def listOf_def coltype_defs)

lemma elem_const_eq: "dl_colspec_eq c (scalar DLT_NATURAL) \<longleftrightarrow> cs_tag c = DLT_NATURAL"
  "dl_colspec_eq c (scalar DLT_TEXT) \<longleftrightarrow> cs_tag c = DLT_TEXT"
  by (auto simp: dl_colspec_eq_def coltype_defs)

lemma sound_list_elem:
  assumes "flat el"
  shows "sound (constrainListElem al el site tk) (\<lambda>\<Gamma>. elem_typed \<Gamma> el tk)"
proof (cases "tk_kind tk = TOK_VAR")
  case True
  then show ?thesis
    using assms by (auto simp: constrainListElem_def elem_typed_def intro: sound_eq [OF sound_var_token])
next
  case False
  then show ?thesis
    by (auto simp: constrainListElem_def elem_typed_def elemOfConst_def sound_def establishes_Inr)
qed

lemma sound_literal:
  assumes "flat el" "tk_kind lit = TOK_LIST"
  shows "sound (typeListLiteralKnown al lit el site) (\<lambda>\<Gamma>. literal_typed \<Gamma> el lit)"
  unfolding typeListLiteralKnown_def literal_typed_def using assms
  by (auto intro!: sound_then sound_each sound_list_elem sound_if_var)

lemma sound_arg:
  assumes "spec_ok c"
  shows "sound (constrainArg al (Some tk) c site) (\<lambda>\<Gamma>. arg_typed \<Gamma> c tk)"
proof (cases "tk_kind tk")
  case TOK_VAR
  then show ?thesis using assms by (auto simp: constrainArg_def arg_typed_def intro: sound_eq [OF sound_var_token])
next
  case TOK_LIST
  show ?thesis
  proof (cases "cs_tag c = DLT_LIST")
    case True
    then have "flat (cs_elem c)" using assms by (simp add: spec_ok_def flat_def)
    then show ?thesis using TOK_LIST True
      by (auto simp: constrainArg_def arg_typed_def intro: sound_eq [OF sound_literal])
  qed (simp add: constrainArg_def sound_def TOK_LIST)
qed (auto simp: constrainArg_def arg_typed_def elemOfConst_def sound_def establishes_Inr elem_const_eq
    intro!: establishes_Inr)

lemma sound_opt_arg: "spec_ok c \<Longrightarrow> sound (constrainArg al a c site) (\<lambda>\<Gamma>. opt_arg_typed \<Gamma> c a)"
  by (cases a) (auto simp: opt_arg_typed_def constrainArg_def [of _ None] intro: sound_arg sound_eq [OF sound_skip])

lemma sound_each_arg:
  "spec_ok c \<Longrightarrow> sound (each_arg al c site a) (\<lambda>\<Gamma>. \<forall>tk \<in> set (at_args a). arg_typed \<Gamma> c tk)"
  unfolding each_arg_def by (rule sound_each) (rule sound_arg)

lemma sound_expr: "sound (typeExpr al line col site e) (\<lambda>\<Gamma>. expr_typed \<Gamma> e)"
proof (induction e)
  case (EX_BINOP c l r)
  have "sound (\<lambda>t. andthen (typeExpr al line col site l t) (typeExpr al line col site r))
    (\<lambda>\<Gamma>. expr_typed \<Gamma> l \<and> expr_typed \<Gamma> r)"
    by (rule sound_then) (rule EX_BINOP)+
  then show ?case by simp
qed (auto intro: sound_eq [OF sound_skip] sound_eq [OF sound_constrainVar])

subsection \<open>Sound atoms\<close>

lemma vtabFind_mem: "vtabFind t x = Some e \<Longrightarrow> e \<in> set (vt_v t)"
  by (auto simp: vtabFind_def find_Some_iff)

lemma env_type_ok: "tab_ok t \<Longrightarrow> known t x \<Longrightarrow> spec_ok (env t x)"
  by (auto simp: tab_ok_def known_def env_def dest: vtabFind_mem split: option.splits)

lemma inherent_ok: "cs_tag (tokenInherentType a) \<noteq> 0 \<Longrightarrow> spec_ok (tokenInherentType a)"
  by (auto simp: tokenInherentType_def split: option.splits token_kind.splits)

lemma infer_elems_flat:
  "infer_elems lit es got = Inr el \<Longrightarrow> got \<in> {0, DLT_NATURAL, DLT_TEXT} \<Longrightarrow> el \<in> {0, DLT_NATURAL, DLT_TEXT}"
  by (induction lit es got rule: infer_elems.induct) (auto simp: elemOfConst_def Let_def split: if_splits)

lemma infer_flat: "inferListLiteralElem lit = Inr el \<Longrightarrow> flat el"
  using infer_elems_flat [of lit "tk_children lit" 0 el]
  by (auto simp: inferListLiteralElem_def andthen_Inr flat_def coltype_defs split: if_splits)

lemma list_type: "cs_tag c = DLT_LIST \<Longrightarrow> dl_colspec_eq c (listOf (cs_elem c))"
  by (simp add: dl_colspec_eq_def)

lemma resolve_ok:
  assumes "tab_ok t" "resolveListOperand t a p = Inr lt"
  shows "flat (cs_elem lt) \<and> (\<forall>u. extends t u \<longrightarrow> list_operand (env u) a (cs_elem lt))"
proof -
  obtain tk where tk: "a = Some tk" using assms(2) by (cases a) (auto simp: resolveListOperand_def)
  show ?thesis
  proof (cases "tk_kind tk = TOK_VAR")
    case True
    then obtain e where e: "vtabFind t (tk_text tk) = Some e" "cs_tag (ve_type e) = DLT_LIST" "lt = ve_type e"
      using assms(2) tk by (auto simp: resolveListOperand_def split: option.splits if_splits)
    then have k: "env t (tk_text tk) = lt" "known t (tk_text tk)" by (simp_all add: env_def known_def coltype_defs)
    then have "flat (cs_elem lt)" using env_type_ok [OF assms(1) k(2)] e by (simp add: spec_ok_def flat_def)
    then show ?thesis
      using tk True k e list_type [of lt] by (auto simp: list_operand_def var_has_def dest: extends_env)
  next
    case False
    then show ?thesis
      using assms(2) tk by (auto simp: resolveListOperand_def list_operand_def andthen_Inr infer_flat split: if_splits)
  qed
qed

lemma sound_list_step:
  assumes "\<And>el. flat el \<Longrightarrow> sound (g el) (P el)"
  shows "sound (\<lambda>t. andthen (resolveListOperand t a p) (\<lambda>lt. g (cs_elem lt) t)) (\<lambda>\<Gamma>. \<exists>el. list_operand \<Gamma> a el \<and> P el \<Gamma>)"
  unfolding sound_def
proof (intro allI impI)
  fix t assume ok: "tab_ok t"
  show "establishes t (andthen (resolveListOperand t a p) (\<lambda>lt. g (cs_elem lt) t)) (\<lambda>\<Gamma>. \<exists>el. list_operand \<Gamma> a el \<and> P el \<Gamma>)"
  proof (cases "resolveListOperand t a p")
    case (Inr lt)
    note r = resolve_ok [OF ok Inr]
    have "establishes t (g (cs_elem lt) t) (P (cs_elem lt))" using soundD [OF assms ok] r by blast
    then show ?thesis using r Inr by (simp add: establishes_def) (blast intro: extends_trans)
  qed simp
qed

lemma sound_typeListAssignment:
  "sound (typeListAssignment al a) (\<lambda>\<Gamma>. \<exists>el. list_operand \<Gamma> (arg a 1) el \<and> (\<forall>pt. arg a 0 = Some pt \<longrightarrow>
     (\<forall>tk \<in> set (tk_children pt). if_var_has \<Gamma> (Some tk) (scalar el)) \<and> if_var_has \<Gamma> (tk_tail pt) (listOf el)))"
  unfolding typeListAssignment_def
  by (rule sound_list_step) (cases "arg a 0"; auto intro!: sound_then sound_each sound_if_var sound_skip)

lemma sound_typeListBuiltin: "sound (typeListBuiltin al a) (\<lambda>\<Gamma>. list_builtin_typed \<Gamma> a)"
proof -
  let ?p = "at_pred a"
  consider "?p = ''member'' \<or> ?p = ''car''" | "?p = ''cdr''" | "?p = ''cons''"
    | "?p \<noteq> ''member''" "?p \<noteq> ''car''" "?p \<noteq> ''cdr''" "?p \<noteq> ''cons''" by blast
  then show ?thesis
  proof cases
    case 1
    have "sound (\<lambda>t. andthen (resolveListOperand t (arg a 1) ?p) (\<lambda>lt. constrain_if_var al (arg a 0) (scalar (cs_elem lt)) ?p t))
      (\<lambda>\<Gamma>. \<exists>el. list_operand \<Gamma> (arg a 1) el \<and> if_var_has \<Gamma> (arg a 0) (scalar el))"
      by (rule sound_list_step) (simp add: sound_if_var)
    with 1 show ?thesis by (auto simp: typeListBuiltin_def list_builtin_typed_def Let_def elim: sound_eq)
  next
    case 2
    have "sound (\<lambda>t. andthen (resolveListOperand t (arg a 1) ?p) (\<lambda>lt. constrain_if_var al (arg a 0) (listOf (cs_elem lt)) ?p t))
      (\<lambda>\<Gamma>. \<exists>el. list_operand \<Gamma> (arg a 1) el \<and> if_var_has \<Gamma> (arg a 0) (listOf el))"
      by (rule sound_list_step) (simp add: sound_if_var)
    with 2 show ?thesis by (auto simp: typeListBuiltin_def list_builtin_typed_def Let_def elim: sound_eq)
  next
    case 3
    let ?p = "''cons''"
    let ?head = "\<lambda>el t. case arg a 1 of None \<Rightarrow> Inr t | Some h \<Rightarrow>
      if tk_kind h = TOK_VAR then constrain_var_token al h (scalar el) ?p t
      else if tk_kind h = TOK_LIST then Inl (TE_cons_head h) else constrainListElem al el ?p h t"
    have head: "sound (?head el) (\<lambda>\<Gamma>. \<forall>h. arg a 1 = Some h \<longrightarrow> elem_typed \<Gamma> el h)" if "flat el" for el
    proof (cases "arg a 1")
      case (Some h)
      have "constrainListElem al el ?p h t = constrain_var_token al h (scalar el) ?p t" if "tk_kind h = TOK_VAR" for t
        using that by (simp add: constrainListElem_def)
      moreover have "constrainListElem al el ?p h t = Inl (TE_nested_list h)" if "tk_kind h = TOK_LIST" for t
        using that by (simp add: constrainListElem_def)
      ultimately show ?thesis
        using sound_list_elem [OF that, of al ?p h] Some by (auto simp: sound_def)
    qed (auto intro: sound_skip)
    have "sound (\<lambda>t. andthen (resolveListOperand t (arg a 2) ?p) (\<lambda>lt. andthen (?head (cs_elem lt) t)
        (constrain_if_var al (arg a 0) (listOf (cs_elem lt)) ?p)))
      (\<lambda>\<Gamma>. \<exists>el. list_operand \<Gamma> (arg a 2) el \<and> (\<forall>h. arg a 1 = Some h \<longrightarrow> elem_typed \<Gamma> el h) \<and> if_var_has \<Gamma> (arg a 0) (listOf el))"
      by (rule sound_list_step, rule sound_then) (erule head, simp add: sound_if_var)
    with 3 show ?thesis by (auto simp: typeListBuiltin_def list_builtin_typed_def Let_def elim: sound_eq)
  next
    case 4
    let ?second = "\<lambda>el t. case arg a 2 of None \<Rightarrow> Inr t | Some b \<Rightarrow>
      if tk_kind b = TOK_VAR then constrain_var_token al b (listOf el) ?p t
      else if tk_kind b = TOK_LIST then typeListLiteralKnown al b el ?p t else Inl (TE_append_second b)"
    have second: "sound (?second el) (\<lambda>\<Gamma>. \<forall>b. arg a 2 = Some b \<longrightarrow>
        (tk_kind b = TOK_VAR \<or> tk_kind b = TOK_LIST) \<and> arg_typed \<Gamma> (listOf el) b)" if "flat el" for el
    proof (cases "arg a 2")
      case (Some b)
      show ?thesis using Some that sound_arg [of "listOf el" al b ?p]
        by (cases "tk_kind b = TOK_VAR \<or> tk_kind b = TOK_LIST") (auto simp: sound_def constrainArg_def)
    qed (auto intro: sound_skip)
    have "sound (\<lambda>t. andthen (resolveListOperand t (arg a 1) ?p) (\<lambda>lt. andthen (?second (cs_elem lt) t)
        (constrain_if_var al (arg a 0) (listOf (cs_elem lt)) ?p)))
      (\<lambda>\<Gamma>. \<exists>el. list_operand \<Gamma> (arg a 1) el \<and> (\<forall>b. arg a 2 = Some b \<longrightarrow>
        (tk_kind b = TOK_VAR \<or> tk_kind b = TOK_LIST) \<and> arg_typed \<Gamma> (listOf el) b) \<and> if_var_has \<Gamma> (arg a 0) (listOf el))"
      by (rule sound_list_step, rule sound_then) (erule second, simp add: sound_if_var)
    with 4 show ?thesis by (auto simp: typeListBuiltin_def list_builtin_typed_def Let_def elim: sound_eq)
  qed
qed

lemma orderable_ok: "isOrderable c \<Longrightarrow> spec_ok c"
  by (auto simp: isOrderable_def spec_ok_def coltype_defs)

lemma sound_typeComparison:
  "sound (typeComparison al a) (\<lambda>\<Gamma>. \<exists>c. isOrderable c \<and> (\<forall>tk \<in> set (at_args a). arg_typed \<Gamma> c tk))"
  unfolding sound_def
proof (intro allI impI)
  fix t assume ok: "tab_ok t"
  obtain c where "typeComparison al a t = each_arg al c (at_pred a) a t" "isOrderable c"
    by (simp add: typeComparison_def Let_def isOrderable_def [of "scalar _"])
  then show "establishes t (typeComparison al a t) (\<lambda>\<Gamma>. \<exists>c. isOrderable c \<and> (\<forall>tk \<in> set (at_args a). arg_typed \<Gamma> c tk))"
    by (metis (no_types, lifting) establishes_mono soundD [OF sound_each_arg [OF orderable_ok] ok])
qed

definition agg_op :: "atom \<Rightarrow> string" where
  "agg_op a = (case at_agg_op a of Some o' \<Rightarrow> tk_text o' | None \<Rightarrow> '''')"

lemma establishes_min_max:
  assumes "agg_op a = ''min'' \<or> agg_op a = ''max''" "is_var (arg a 0)" "tab_ok t"
  shows "establishes t (typeAggregate al a t) (\<lambda>\<Gamma>. aggregate_typed \<Gamma> a)"
proof -
  let ?x = "tk_text (the (arg a 0))"
  have eq: "typeAggregate al a t =
      (if cs_tag (env t ?x) = 0 then Inl (TE_untyped_operand (the (arg a 0)))
       else if cs_tag (env t ?x) \<notin> {DLT_NATURAL, DLT_TIMESTAMP, DLT_DATE} then Inl (TE_operand_type (the (arg a 0)) (env t ?x))
       else constrainVar al (at_pred a) (env t ?x) (at_line a) (at_col a) (agg_op a) t)"
    using assms(1,2) by (simp add: typeAggregate_def agg_op_def [symmetric] env_def [symmetric] Let_def)
  have typed: "aggregate_typed \<Gamma> a \<longleftrightarrow>
      cs_tag (\<Gamma> ?x) \<in> {DLT_NATURAL, DLT_TIMESTAMP, DLT_DATE} \<and> var_has \<Gamma> (at_pred a) (\<Gamma> ?x)" for \<Gamma>
    using assms(1,2) by (simp add: aggregate_typed_def agg_op_def [symmetric] Let_def)
  show ?thesis
  proof (cases "cs_tag (env t ?x) \<in> {DLT_NATURAL, DLT_TIMESTAMP, DLT_DATE}")
    case True
    then have k: "known t ?x" by (auto simp: known_def coltype_defs)
    have "establishes t (typeAggregate al a t) (\<lambda>\<Gamma>. var_has \<Gamma> (at_pred a) (env t ?x))"
      using True k soundD [OF sound_constrainVar [OF env_type_ok [OF assms(3) k]] assms(3)]
      unfolding eq by (simp add: known_def)
    then show ?thesis
      unfolding establishes_def typed using True k by (metis extends_env extends_trans)
  qed (simp add: eq)
qed

lemma sound_typeAggregate: "sound (typeAggregate al a) (\<lambda>\<Gamma>. aggregate_typed \<Gamma> a)"
proof (cases "(agg_op a = ''min'' \<or> agg_op a = ''max'') \<and> is_var (arg a 0)")
  case True
  then show ?thesis by (simp add: sound_def establishes_min_max)
next
  case False
  let ?result = "constrainVar al (at_pred a) (scalar DLT_NATURAL) (at_line a) (at_col a) (agg_op a)"
  let ?source = "constrain_if_var al (arg a 0) (scalar DLT_NATURAL) (agg_op a)"
  have res: "sound ?result (\<lambda>\<Gamma>. var_has \<Gamma> (at_pred a) (scalar DLT_NATURAL))" by (rule sound_constrainVar) simp
  show ?thesis
  proof (cases "agg_op a \<in> {''min'', ''max'', ''count''}")
    case True
    have "typeAggregate al a t = ?result t" for t
      using False True by (auto simp: typeAggregate_def agg_op_def [symmetric] Let_def andthen_def split: sum.splits)
    moreover have "aggregate_typed \<Gamma> a \<longleftrightarrow> var_has \<Gamma> (at_pred a) (scalar DLT_NATURAL)" for \<Gamma>
      using False True by (auto simp: aggregate_typed_def agg_op_def [symmetric] Let_def)
    ultimately show ?thesis using res by (auto intro: sound_eq)
  next
    case other: False
    have "typeAggregate al a t = andthen (?result t) ?source" for t
      using other by (simp add: typeAggregate_def agg_op_def [symmetric] Let_def)
    moreover have "aggregate_typed \<Gamma> a \<longleftrightarrow> var_has \<Gamma> (at_pred a) (scalar DLT_NATURAL) \<and>
        if_var_has \<Gamma> (arg a 0) (scalar DLT_NATURAL)" for \<Gamma>
      using other by (simp add: aggregate_typed_def agg_op_def [symmetric] Let_def)
    moreover have "sound (\<lambda>t. andthen (?result t) ?source) (\<lambda>\<Gamma>. var_has \<Gamma> (at_pred a) (scalar DLT_NATURAL) \<and>
        if_var_has \<Gamma> (arg a 0) (scalar DLT_NATURAL))" by (rule sound_then [OF res sound_if_var]) simp
    ultimately show ?thesis by (auto intro: sound_eq)
  qed
qed

lemma side_type_env: "side_type t a = side_typed (env t) a"
  by (simp add: side_type_def side_typed_def env_def)

lemma side_extends: "extends t u \<Longrightarrow> cs_tag (side_type t a) \<noteq> 0 \<Longrightarrow> side_typed (env u) a = side_type t a"
  by (auto simp: side_type_env side_typed_def extends_env known_def)

lemma side_ok: "tab_ok t \<Longrightarrow> cs_tag (side_type t a) \<noteq> 0 \<Longrightarrow> spec_ok (side_type t a)"
  by (auto simp: side_type_env side_typed_def inherent_ok known_def intro: env_type_ok split: if_splits)

lemma register_ok: "tab_ok t \<Longrightarrow> extends t (register al a t) \<and> tab_ok (register al a t)"
  by (auto simp: register_def intro: tab_ok_get extends_get prod.collapse [symmetric])

lemma register_fold: "tab_ok t \<Longrightarrow> extends t (fold (\<lambda>tk. register al (Some tk)) tks t) \<and> tab_ok (fold (\<lambda>tk. register al (Some tk)) tks t)"
proof (induction tks arbitrary: t)
  case (Cons tk tks)
  then show ?case using register_ok [of t al "Some tk"] by (simp, meson extends_trans)
qed simp

text \<open>An equation propagates the type of one side to the other.\<close>

lemma propagate:
  assumes "tab_ok t" "cs_tag c \<noteq> 0" "spec_ok c"
    "\<And>u. extends t u \<Longrightarrow> if_var_has (env u) a c \<Longrightarrow> P (env u)"
  shows "establishes t (constrain_if_var al a c site t) P"
  using soundD [OF sound_if_var [OF assms(3)] assms(1), of al a site] assms(4)
  by (auto simp: establishes_def intro: extends_trans)

lemma equal_sides: "is_var a \<Longrightarrow> if_var_has \<Gamma> a c \<Longrightarrow> dl_colspec_eq c (side_typed \<Gamma> a)"
  by (auto simp: if_var_has_def var_has_def side_typed_def intro: colspec_eq_sym)

lemma not_var_side: "\<not> is_var a \<Longrightarrow> side_typed \<Gamma> a = side_type t a"
  by (simp add: side_type_def side_typed_def)

lemma establishes_equality:
  assumes ok: "tab_ok t" and anch: "is_var (arg a 0) \<and> is_var (arg a 1) \<Longrightarrow>
    known t (tk_text (the (arg a 0))) \<or> known t (tk_text (the (arg a 1)))"
  shows "establishes t (typeEquality al a t) (\<lambda>\<Gamma>. equality_typed \<Gamma> a)"
proof (cases "arg a 0 \<noteq> None \<and> tk_kind (the (arg a 0)) = TOK_LIST")
  case True
  then show ?thesis
    using establishes_mono [OF soundD [OF sound_typeListAssignment ok, of al a]]
    by (auto simp: typeEquality_def equality_typed_def Let_def)
next
  case False
  let ?l = "arg a 0" and ?r = "arg a 1"
  let ?lt = "side_type t ?l" and ?rt = "side_type t ?r"
  have typed: "equality_typed \<Gamma> a \<longleftrightarrow>
      ((is_var ?l \<or> cs_tag (side_typed \<Gamma> ?l) \<noteq> 0) \<and> (is_var ?r \<or> cs_tag (side_typed \<Gamma> ?r) \<noteq> 0) \<longrightarrow>
       cs_tag (side_typed \<Gamma> ?l) \<noteq> 0 \<and> cs_tag (side_typed \<Gamma> ?r) \<noteq> 0 \<and> dl_colspec_eq (side_typed \<Gamma> ?l) (side_typed \<Gamma> ?r))" for \<Gamma>
    using False by (auto simp: equality_typed_def Let_def)
  have step: "typeEquality al a t =
      (if cs_tag ?lt \<noteq> 0 \<and> cs_tag ?rt \<noteq> 0 \<and> \<not> dl_colspec_eq ?lt ?rt then
          (if is_var ?r then constrain_if_var al ?r ?lt (at_pred a) t
           else if is_var ?l then constrain_if_var al ?l ?rt (at_pred a) t
           else Inl (TE_equality a))
        else if cs_tag ?lt \<noteq> 0 \<and> cs_tag ?rt = 0 then constrain_if_var al ?r ?lt (at_pred a) t
        else if cs_tag ?rt \<noteq> 0 \<and> cs_tag ?lt = 0 then constrain_if_var al ?l ?rt (at_pred a) t
        else if cs_tag ?lt = 0 \<and> cs_tag ?rt = 0 then Inr (register al ?r (register al ?l t))
        else Inr t)"
    using False by (auto simp: typeEquality_def Let_def)
  have right: "establishes t (constrain_if_var al ?r ?lt (at_pred a) t) (\<lambda>\<Gamma>. equality_typed \<Gamma> a)"
    if "cs_tag ?lt \<noteq> 0" "is_var ?r \<or> cs_tag ?rt = 0"
  proof (rule propagate [OF ok that(1) side_ok [OF ok that(1)]])
    fix u assume u: "extends t u" "if_var_has (env u) ?r ?lt"
    show "equality_typed (env u) a"
      unfolding typed side_extends [OF u(1) that(1)]
      using equal_sides [OF _ u(2)] that not_var_side [of ?r "env u" t] colspec_eq_tag by (cases "is_var ?r") metis+
  qed
  have left: "establishes t (constrain_if_var al ?l ?rt (at_pred a) t) (\<lambda>\<Gamma>. equality_typed \<Gamma> a)"
    if "cs_tag ?rt \<noteq> 0" "is_var ?l \<or> cs_tag ?lt = 0"
  proof (rule propagate [OF ok that(1) side_ok [OF ok that(1)]])
    fix u assume u: "extends t u" "if_var_has (env u) ?l ?rt"
    show "equality_typed (env u) a"
      unfolding typed side_extends [OF u(1) that(1)]
      using equal_sides [OF _ u(2)] that not_var_side [of ?l "env u" t] colspec_eq_sym colspec_eq_tag by (cases "is_var ?l") metis+
  qed
  consider "cs_tag ?lt \<noteq> 0" "cs_tag ?rt \<noteq> 0" "\<not> dl_colspec_eq ?lt ?rt" | "cs_tag ?lt \<noteq> 0" "cs_tag ?rt = 0"
    | "cs_tag ?rt \<noteq> 0" "cs_tag ?lt = 0" | "cs_tag ?lt = 0" "cs_tag ?rt = 0"
    | "cs_tag ?lt \<noteq> 0" "cs_tag ?rt \<noteq> 0" "dl_colspec_eq ?lt ?rt" by blast
  then show ?thesis
  proof cases
    case 1 then show ?thesis unfolding step using right left by auto
  next
    case 2 then show ?thesis unfolding step using right by auto
  next
    case 3 then show ?thesis unfolding step using left by auto
  next
    case 4
    then have "\<not> is_var ?l \<or> \<not> is_var ?r"
      using anch by (auto simp: side_type_env side_typed_def known_def)
    then have "equality_typed \<Gamma> a" for \<Gamma>
      using 4 not_var_side [of ?l \<Gamma> t] not_var_side [of ?r \<Gamma> t] unfolding typed by auto
    then show ?thesis
      using 4 register_ok [OF ok, of al ?l] register_ok [of "register al ?l t" al ?r]
      unfolding step by (auto simp: establishes_def intro: extends_trans)
  next
    case 5
    then have "equality_typed (env u) a" if "extends t u" for u
      unfolding typed by (simp add: side_extends [OF that])
    then show ?thesis using 5 ok unfolding step by (simp add: establishes_Inr)
  qed
qed

lemma find_defined: "dl_schema_find S p = Some rd \<Longrightarrow> rd \<in> set (defined_rels S)"
  by (auto simp: dl_schema_find_def defined_rels_def find_Some_iff set_conv_nth)

lemma column_ok:
  assumes "columns_ok S" "dl_schema_find S p = Some rd" "length args = rd_arity rd" "(tk, c) \<in> set (zip args (rd_cols rd))"
  shows "spec_ok c"
proof -
  obtain i where "i < length args" "i < length (rd_cols rd)" "c = rd_cols rd ! i"
    using assms(4) by (auto simp: in_set_zip)
  then have "c \<in> set (take (length args) (rd_cols rd))"
    by (simp add: in_set_conv_nth) (metis nth_take)
  then show ?thesis using assms(1,3) find_defined [OF assms(2)] by (simp add: columns_ok_def)
qed

lemma sound_typeRelational:
  assumes "columns_ok S"
  shows "sound (typeRelational al S is_head a) (\<lambda>\<Gamma>. relation_typed S \<Gamma> a \<and> (is_head \<longrightarrow> \<not> isReservedBuiltinName (at_pred a)))"
proof (cases "is_head \<and> isReservedBuiltinName (at_pred a)")
  case False
  show ?thesis
  proof (cases "dl_schema_find S (at_pred a)")
    case (Some rd)
    have "sound (each (\<lambda>(tk, c). constrainArg al (Some tk) c (at_pred a)) (zip (at_args a) (rd_cols rd)))
        (\<lambda>\<Gamma>. \<forall>p \<in> set (zip (at_args a) (rd_cols rd)). case p of (tk, c) \<Rightarrow> arg_typed \<Gamma> c tk)"
      if "length (at_args a) = rd_arity rd"
      by (rule sound_each) (auto intro!: sound_arg column_ok [OF assms Some that])
    then show ?thesis
      using False Some by (auto simp: sound_def typeRelational_def relation_typed_def)
  qed (use False in \<open>auto simp: sound_def typeRelational_def\<close>)
qed (simp add: sound_def typeRelational_def)

lemma establishes_atom:
  assumes ok: "tab_ok t" and cols: "columns_ok S" and anch: "var_equality a \<Longrightarrow> \<exists>x \<in> arg_vars a. known t x"
  shows "establishes t (typeBodyAtom al S a t) (\<lambda>\<Gamma>. atom_typed S \<Gamma> a)"
proof -
  note step = soundD [OF _ ok]
  consider "at_aggregate a" | "\<not> at_aggregate a" "at_pattern a \<noteq> None"
    | "\<not> at_aggregate a" "at_pattern a = None" "at_arith a \<noteq> None"
    | "\<not> at_aggregate a" "at_pattern a = None" "at_arith a = None" "at_pred a = ''!=''"
    | "\<not> at_aggregate a" "at_pattern a = None" "at_arith a = None" "at_pred a \<noteq> ''!=''" "isComparisonPred (at_pred a)"
    | "\<not> at_aggregate a" "at_pattern a = None" "at_arith a = None" "at_pred a = ''=''" "length (at_args a) = 2"
    | "\<not> at_aggregate a" "at_pattern a = None" "at_arith a = None" "\<not> isComparisonPred (at_pred a)" "at_pred a \<noteq> ''!=''"
      "\<not> (at_pred a = ''='' \<and> length (at_args a) = 2)" by blast
  then show ?thesis
  proof cases
    case 1
    then show ?thesis using step [OF sound_typeAggregate] by (simp add: typeBodyAtom_def atom_typed_def)
  next
    case 2
    then show ?thesis using step [OF sound_each_arg [of "scalar DLT_TEXT"]] by (simp add: typeBodyAtom_def atom_typed_def)
  next
    case 3
    then obtain e where e: "at_arith a = Some e" by auto
    have "sound (\<lambda>t. andthen (constrain_if_var al (arg a 0) (scalar DLT_NATURAL) (at_pred a) t)
        (typeExpr al (at_line a) (at_col a) (at_pred a) e))
      (\<lambda>\<Gamma>. if_var_has \<Gamma> (arg a 0) (scalar DLT_NATURAL) \<and> expr_typed \<Gamma> e)"
      by (rule sound_then [OF sound_if_var sound_expr]) simp
    from step [OF this] show ?thesis using 3 e by (simp add: typeBodyAtom_def atom_typed_def typeArith_def)
  next
    case 4
    then show ?thesis
      using register_fold [OF ok] by (simp add: typeBodyAtom_def atom_typed_def establishes_def)
  next
    case 5
    then show ?thesis using step [OF sound_typeComparison] by (simp add: typeBodyAtom_def atom_typed_def)
  next
    case 6
    then obtain l r where args: "at_args a = [l, r]" by (auto simp: length_Suc_conv numeral_2_eq_2)
    have "establishes t (typeEquality al a t) (\<lambda>\<Gamma>. equality_typed \<Gamma> a)"
    proof (rule establishes_equality [OF ok])
      assume "is_var (arg a 0) \<and> is_var (arg a 1)"
      then have "var_equality a" "arg_vars a = {tk_text l, tk_text r}" "arg a 0 = Some l" "arg a 1 = Some r"
        using 6 args by (auto simp: var_equality_def arg_vars_def arg_def is_var_def)
      then show "known t (tk_text (the (arg a 0))) \<or> known t (tk_text (the (arg a 1)))"
        using anch by auto
    qed
    then show ?thesis using 6 by (simp add: typeBodyAtom_def atom_typed_def isComparisonPred_def)
  next
    case 7
    have "(at_pred a = ''='' \<and> length (at_args a) = 2) = False" using 7(6) by blast
    note simps = typeBodyAtom_def atom_typed_def this
    consider "isStrProducingPred (at_pred a)" | "\<not> isStrProducingPred (at_pred a)" "isStrFilterPred (at_pred a)"
      | "\<not> isStrProducingPred (at_pred a)" "\<not> isStrFilterPred (at_pred a)" "isListBuiltinPred (at_pred a)"
      | "\<not> isStrProducingPred (at_pred a)" "\<not> isStrFilterPred (at_pred a)" "\<not> isListBuiltinPred (at_pred a)"
        "isRangeBuiltinPred (at_pred a)"
      | "\<not> isStrProducingPred (at_pred a)" "\<not> isStrFilterPred (at_pred a)" "\<not> isListBuiltinPred (at_pred a)"
        "\<not> isRangeBuiltinPred (at_pred a)" by blast
    then show ?thesis
    proof cases
      case str: 1
      have len: "sound (\<lambda>t. andthen (constrain_if_var al (arg a 0) (scalar DLT_NATURAL) ''length'' t)
          (constrainArg al (arg a 1) (scalar DLT_TEXT) ''length''))
        (\<lambda>\<Gamma>. if_var_has \<Gamma> (arg a 0) (scalar DLT_NATURAL) \<and> opt_arg_typed \<Gamma> (scalar DLT_TEXT) (arg a 1))"
        by (rule sound_then [OF sound_if_var sound_opt_arg]) simp_all
      show ?thesis
      proof (cases "at_pred a = ''length''")
        case True
        then show ?thesis
          using 7(1-5) step [OF len] by (simp add: simps typeStrProducing_def isComparisonPred_def isStrProducingPred_def)
      next
        case False
        then show ?thesis
          using 7(1-5) str step [OF sound_each_arg [of "scalar DLT_TEXT"]]
          by (simp add: simps typeStrProducing_def)
      qed
    next
      case 2
      then show ?thesis using 7(1-5) step [OF sound_each_arg [of "scalar DLT_TEXT"]] by (simp add: simps typeStrFilter_def)
    next
      case 3
      then show ?thesis using 7(1-5) step [OF sound_typeListBuiltin] by (simp add: simps)
    next
      case rng: 4
      have "sound (\<lambda>t. andthen (constrain_if_var al (arg a 0) (scalar DLT_NATURAL) ''range'' t) (\<lambda>t1.
          andthen (constrainArg al (arg a 2) (scalar DLT_NATURAL) ''range'' t1)
            (constrainArg al (arg a 3) (scalar DLT_NATURAL) ''range'')))
        (\<lambda>\<Gamma>. if_var_has \<Gamma> (arg a 0) (scalar DLT_NATURAL) \<and>
          opt_arg_typed \<Gamma> (scalar DLT_NATURAL) (arg a 2) \<and> opt_arg_typed \<Gamma> (scalar DLT_NATURAL) (arg a 3))"
        by (rule sound_then [OF sound_if_var sound_then [OF sound_opt_arg sound_opt_arg]]) simp_all
      from step [OF this] show ?thesis
        using 7(1-5) rng by (auto simp: simps typeRange_def)
    next
      case 5
      then show ?thesis using 7(1-5) establishes_mono [OF step [OF sound_typeRelational [OF cols]]] by (simp add: simps)
    qed
  qed
qed

text \<open>A typed relational atom has typed its variables.\<close>

lemma typed_args_known:
  assumes "columns_ok S" "relation_typed S (env t) a" "x \<in> arg_vars a"
  shows "known t x"
proof -
  from assms(3) obtain tk where tk: "tk \<in> set (at_args a)" "tk_kind tk = TOK_VAR" "x = tk_text tk" by (auto simp: arg_vars_def)
  obtain rd where rd: "dl_schema_find S (at_pred a) = Some rd" "length (at_args a) = rd_arity rd"
    "\<forall>(tk, c) \<in> set (zip (at_args a) (rd_cols rd)). arg_typed (env t) c tk" using assms(2) by (auto simp: relation_typed_def)
  have "length (at_args a) \<le> length (rd_cols rd)"
    using assms(1) find_defined [OF rd(1)] rd(2) in_set_takeD
    by (fastforce simp: columns_ok_def schema_ok_def defined_rels_def)
  moreover obtain i where "i < length (at_args a)" "at_args a ! i = tk" using tk(1) by (auto simp: in_set_conv_nth)
  ultimately have "(tk, rd_cols rd ! i) \<in> set (zip (at_args a) (rd_cols rd))" by (force simp: in_set_zip)
  then obtain c where c: "(tk, c) \<in> set (zip (at_args a) (rd_cols rd))" ..
  then have "var_has (env t) x c" using rd(3) tk by (auto simp: arg_typed_def)
  then show ?thesis
    using column_ok [OF assms(1) rd(1,2) c] by (auto simp: known_def var_has_def spec_ok_def dest: colspec_eq_tag)
qed

lemma sound_body:
  assumes "columns_ok S"
  shows "\<lbrakk>tab_ok t; \<forall>x \<in> V. known t x; anchored V body\<rbrakk> \<Longrightarrow>
     establishes t (each (typeBodyAtom al S) body t) (\<lambda>\<Gamma>. \<forall>a \<in> set body. atom_typed S \<Gamma> a)"
proof (induction body arbitrary: t V)
  case (Cons a as)
  have anch: "var_equality a \<Longrightarrow> \<exists>x \<in> arg_vars a. known t x" using Cons.prems(2,3) by auto
  have at: "establishes t (typeBodyAtom al S a t) (\<lambda>\<Gamma>. atom_typed S \<Gamma> a)"
    by (rule establishes_atom [OF Cons.prems(1) assms anch])
  show ?case unfolding establishes_def
  proof (intro allI impI)
    fix t' assume "each (typeBodyAtom al S) (a # as) t = Inr t'"
    then obtain t1 where t1: "typeBodyAtom al S a t = Inr t1" "each (typeBodyAtom al S) as t1 = Inr t'"
      by (auto simp: andthen_Inr)
    have s1: "extends t t1" "tab_ok t1" "\<And>u. extends t1 u \<Longrightarrow> atom_typed S (env u) a"
      using at t1(1) by (auto simp: establishes_def)
    have "known t1 x" if "relational a" "x \<in> arg_vars a" for x
    proof (rule typed_args_known [OF assms _ that(2)])
      show "relation_typed S (env t1) a"
        using s1(3) [OF extends_refl] that(1) by (auto simp: atom_typed_def relational_def isComparisonPred_def)
    qed
    then have "\<forall>x \<in> (if relational a then V \<union> arg_vars a else V). known t1 x"
      using Cons.prems(2) s1(1) by (auto intro: extends_known)
    moreover have "anchored (if relational a then V \<union> arg_vars a else V) as" using Cons.prems(3) by simp
    ultimately have "establishes t1 (each (typeBodyAtom al S) as t1) (\<lambda>\<Gamma>. \<forall>a \<in> set as. atom_typed S \<Gamma> a)"
      using Cons.IH [OF s1(2)] by blast
    then show "extends t t' \<and> tab_ok t' \<and> (\<forall>u. extends t' u \<longrightarrow> (\<forall>a \<in> set (a # as). atom_typed S (env u) a))"
      using s1 t1(2) by (auto simp: establishes_def intro: extends_trans)
  qed
qed (simp add: establishes_Inr)

lemma typeRule_sound:
  assumes "columns_ok S" "anchored_rule r" "typeRule al S r = Inr ()"
  shows "\<exists>\<Gamma>. rule_typed S \<Gamma> r"
proof -
  let ?t0 = "\<lparr>vt_v = [], vt_cap = 0\<rparr>"
  let ?head = "case rl_head r of None \<Rightarrow> Inr ?t0 | Some h \<Rightarrow> typeRelational al S True h ?t0"
  let ?V = "case rl_head r of Some h \<Rightarrow> arg_vars h | None \<Rightarrow> {}"
  obtain t1 t2 where t: "?head = Inr t1" "each (typeBodyAtom al S) (rl_body r) t1 = Inr t2"
    using assms(3) by (auto simp: typeRule_def andthen_Inr)
  have ok0: "tab_ok ?t0" by (simp add: tab_ok_def)
  have "establishes ?t0 ?head (\<lambda>\<Gamma>. \<forall>h. rl_head r = Some h \<longrightarrow> \<not> isReservedBuiltinName (at_pred h) \<and> relation_typed S \<Gamma> h)"
    using soundD [OF sound_typeRelational [OF assms(1)] ok0, of al True] ok0
    by (cases "rl_head r") (auto intro: establishes_Inr establishes_mono)
  then have h: "tab_ok t1" "\<And>u. extends t1 u \<Longrightarrow>
      \<forall>h. rl_head r = Some h \<longrightarrow> \<not> isReservedBuiltinName (at_pred h) \<and> relation_typed S (env u) h"
    using t(1) by (auto simp: establishes_def)
  have "\<forall>x \<in> ?V. known t1 x"
    using typed_args_known [OF assms(1)] h(2) [OF extends_refl] by (auto split: option.splits)
  then have "establishes t1 (each (typeBodyAtom al S) (rl_body r) t1) (\<lambda>\<Gamma>. \<forall>a \<in> set (rl_body r). atom_typed S \<Gamma> a)"
    using assms(2) by (intro sound_body [OF assms(1) h(1)]) (simp_all add: anchored_rule_def)
  then have "extends t1 t2" "\<forall>a \<in> set (rl_body r). atom_typed S (env t2) a"
    using t(2) by (auto simp: establishes_def)
  then have "rule_typed S (env t2) r" using h(2) by (simp add: rule_typed_def)
  then show ?thesis by blast
qed

lemma typecheck_rules_each:
  "dl_typecheck_rules al (Some S) rules = Inr () \<longleftrightarrow> (\<forall>r \<in> set rules. typeRule al S r = Inr ())"
proof -
  have "each (\<lambda>r _. typeRule al S r) rules () = Inr () \<longleftrightarrow> (\<forall>r \<in> set rules. typeRule al S r = Inr ())"
    by (induction rules) (auto simp: andthen_Inr)
  then show ?thesis by (simp add: dl_typecheck_rules_def)
qed

subsection \<open>Completeness\<close>

text \<open>Atoms whose typing does not look at the table first.\<close>

definition order_free :: "atom \<Rightarrow> bool" where
  "order_free a \<longleftrightarrow>
     (if at_aggregate a then agg_op a \<noteq> ''min'' \<and> agg_op a \<noteq> ''max''
      else at_pattern a \<noteq> None \<or> at_arith a \<noteq> None \<or>
        \<not> isComparisonPred (at_pred a) \<and> \<not> (at_pred a = ''='' \<and> length (at_args a) = 2) \<and> \<not> isListBuiltinPred (at_pred a))"

text \<open>A table that agrees with a typing, and steps that such a table passes.\<close>

definition agrees :: "typing \<Rightarrow> vtab \<Rightarrow> bool" where
  "agrees \<Gamma> t \<longleftrightarrow> (\<forall>e \<in> set (vt_v t). cs_tag (ve_type e) \<noteq> 0 \<and> dl_colspec_eq (\<Gamma> (ve_name e)) (ve_type e))"

definition passes :: "typing \<Rightarrow> (vtab \<Rightarrow> type_error + vtab) \<Rightarrow> bool" where
  "passes \<Gamma> f \<longleftrightarrow> (\<forall>t. agrees \<Gamma> t \<longrightarrow> (\<exists>t'. f t = Inr t' \<and> agrees \<Gamma> t'))"

lemma passes_skip: "passes \<Gamma> Inr"
  by (simp add: passes_def)

lemma passes_eq: "passes \<Gamma> g \<Longrightarrow> (\<And>t. f t = g t) \<Longrightarrow> passes \<Gamma> f"
  by (simp add: passes_def)

lemma passes_then: "passes \<Gamma> f \<Longrightarrow> passes \<Gamma> g \<Longrightarrow> passes \<Gamma> (\<lambda>t. andthen (f t) g)"
  by (fastforce simp: passes_def)

lemma passes_each: "(\<And>x. x \<in> set xs \<Longrightarrow> passes \<Gamma> (f x)) \<Longrightarrow> passes \<Gamma> (each f xs)"
proof (induction xs)
  case (Cons x xs)
  have "passes \<Gamma> (\<lambda>t. andthen (f x t) (each f xs))" by (rule passes_then) (simp_all add: Cons)
  then show ?case by simp
qed (auto intro: passes_eq [OF passes_skip])

lemma passes_constrainVar:
  assumes "generous al" "cs_tag want \<noteq> 0" "var_has \<Gamma> x want"
  shows "passes \<Gamma> (constrainVar al x want line col site)"
  unfolding passes_def
proof (intro allI impI)
  fix t assume ag: "agrees \<Gamma> t"
  let ?f = "\<lambda>v. v\<lparr>ve_type := want, ve_line := line, ve_col := col, ve_site := site\<rparr>"
  show "\<exists>t'. constrainVar al x want line col site t = Inr t' \<and> agrees \<Gamma> t'"
  proof (cases "vtabFind t x")
    case (Some e)
    then have e: "e \<in> set (vt_v t)" "ve_name e = x" by (auto simp: vtabFind_def find_Some_iff)
    then have "cs_tag (ve_type e) \<noteq> 0" "dl_colspec_eq (ve_type e) want"
      using ag assms(3) by (auto simp: agrees_def var_has_def colspec_eq_type)
    then show ?thesis using Some ag by (simp add: constrainVar_def vtabGet_def)
  next
    case None
    let ?fresh = "\<lparr>ve_name = x, ve_type = scalar 0, ve_line = 0, ve_col = 0, ve_site = ''''\<rparr>"
    have "vtabGet al t x = (True, \<lparr>vt_v = vt_v t @ [?fresh], vt_cap = (if length (vt_v t) = vt_cap t
        then (if vt_cap t \<noteq> 0 then vt_cap t * 2 else 16) else vt_cap t)\<rparr>)"
      using assms(1) None by (simp add: vtabGet_def generous_def Let_def)
    then obtain c where g: "vtabGet al t x = (True, \<lparr>vt_v = vt_v t @ [?fresh], vt_cap = c\<rparr>)" by blast
    have find: "vtabFind \<lparr>vt_v = vt_v t @ [?fresh], vt_cap = c\<rparr> x = Some ?fresh"
      using None by (simp add: vtabFind_def find_append)
    have "agrees \<Gamma> (vt_update x ?f \<lparr>vt_v = vt_v t @ [?fresh], vt_cap = c\<rparr>)"
      using ag assms(2,3) by (auto simp: agrees_def vt_update_def var_has_def)
    then show ?thesis by (simp add: constrainVar_def g find)
  qed
qed

lemmas passes_var = passes_constrainVar [unfolded passes_def, rule_format]

lemma type_tags [simp]: "DLT_NATURAL \<noteq> 0" "DLT_TEXT \<noteq> 0" "DLT_LIST \<noteq> 0" "DLT_NATURAL \<noteq> DLT_TEXT"
  "DLT_NATURAL \<noteq> DLT_LIST" "DLT_TEXT \<noteq> DLT_LIST" "DLT_TEXT \<noteq> DLT_NATURAL"
  by (simp_all add: coltype_defs)

lemma passes_if_var:
  "\<lbrakk>generous al; cs_tag c \<noteq> 0; if_var_has \<Gamma> a c\<rbrakk> \<Longrightarrow> passes \<Gamma> (constrain_if_var al a c site)"
  unfolding passes_def by (cases a) (auto simp: constrain_if_var_def if_var_has_def is_var_def constrain_var_token_def
      intro: passes_var)

lemma passes_list_elem:
  "\<lbrakk>generous al; flat el; elem_typed \<Gamma> el tk\<rbrakk> \<Longrightarrow> passes \<Gamma> (constrainListElem al el site tk)"
  unfolding passes_def by (auto simp: constrainListElem_def elem_typed_def elemOfConst_def constrain_var_token_def flat_def
      split: if_splits intro: passes_var)

lemma passes_arg:
  assumes "generous al" "spec_ok c" "arg_typed \<Gamma> c tk"
  shows "passes \<Gamma> (constrainArg al (Some tk) c site)"
proof (cases "tk_kind tk = TOK_LIST")
  case True
  then have c: "cs_tag c = DLT_LIST" "literal_typed \<Gamma> (cs_elem c) tk" "flat (cs_elem c)"
    using assms(2,3) by (auto simp: arg_typed_def spec_ok_def flat_def)
  have "passes \<Gamma> (\<lambda>t. andthen (each (constrainListElem al (cs_elem c) site) (tk_children tk) t)
      (constrain_if_var al (tk_tail tk) (listOf (cs_elem c)) site))"
    using c assms(1) by (intro passes_then passes_each passes_list_elem passes_if_var)
      (auto simp: literal_typed_def)
  then show ?thesis using True c by (auto simp: constrainArg_def typeListLiteralKnown_def intro: passes_eq)
next
  case False
  then show ?thesis
    using assms unfolding passes_def by (cases "tk_kind tk") (auto simp: constrainArg_def arg_typed_def elemOfConst_def
      constrain_var_token_def spec_ok_def intro: passes_var)
qed

lemma passes_opt_arg:
  "\<lbrakk>generous al; spec_ok c; opt_arg_typed \<Gamma> c a\<rbrakk> \<Longrightarrow> passes \<Gamma> (constrainArg al a c site)"
  by (cases a) (auto simp: opt_arg_typed_def constrainArg_def [of _ None] intro: passes_eq [OF passes_skip] passes_arg)

lemma passes_each_arg:
  "\<lbrakk>generous al; spec_ok c; \<forall>tk \<in> set (at_args a). arg_typed \<Gamma> c tk\<rbrakk> \<Longrightarrow> passes \<Gamma> (each_arg al c site a)"
  unfolding each_arg_def by (rule passes_each) (simp add: passes_arg)

lemma passes_expr: "\<lbrakk>generous al; expr_typed \<Gamma> e\<rbrakk> \<Longrightarrow> passes \<Gamma> (typeExpr al line col site e)"
proof (induction e)
  case (EX_BINOP c l r)
  have "passes \<Gamma> (\<lambda>t. andthen (typeExpr al line col site l t) (typeExpr al line col site r))"
    by (rule passes_then) (use EX_BINOP in auto)
  then show ?case by (auto intro: passes_eq)
qed (auto simp: passes_def intro: passes_var)

lemma passes_relational:
  assumes "generous al" "columns_ok S" "relation_typed S \<Gamma> a" "is_head \<Longrightarrow> \<not> isReservedBuiltinName (at_pred a)"
  shows "passes \<Gamma> (typeRelational al S is_head a)"
proof -
  obtain rd where rd: "dl_schema_find S (at_pred a) = Some rd" "length (at_args a) = rd_arity rd"
    "\<forall>(tk, c) \<in> set (zip (at_args a) (rd_cols rd)). arg_typed \<Gamma> c tk" using assms(3) by (auto simp: relation_typed_def)
  have "passes \<Gamma> (each (\<lambda>(tk, c). constrainArg al (Some tk) c (at_pred a)) (zip (at_args a) (rd_cols rd)))"
    using rd(3) by (intro passes_each) (auto intro!: passes_arg assms(1) column_ok [OF assms(2) rd(1,2)])
  then show ?thesis using rd(1,2) assms(4) by (auto simp: typeRelational_def passes_def)
qed

lemma passes_aggregate:
  assumes "generous al" "aggregate_typed \<Gamma> a" "agg_op a \<noteq> ''min''" "agg_op a \<noteq> ''max''"
  shows "passes \<Gamma> (typeAggregate al a)"
proof -
  have t: "var_has \<Gamma> (at_pred a) (scalar DLT_NATURAL)"
    "agg_op a \<noteq> ''count'' \<Longrightarrow> if_var_has \<Gamma> (arg a 0) (scalar DLT_NATURAL)"
    using assms(2-4) by (simp_all add: aggregate_typed_def agg_op_def [symmetric] Let_def)
  have nat: "cs_tag (scalar DLT_NATURAL) \<noteq> 0" by simp
  let ?result = "constrainVar al (at_pred a) (scalar DLT_NATURAL) (at_line a) (at_col a) (agg_op a)"
  have "passes \<Gamma> (\<lambda>t. andthen (?result t) (\<lambda>t1. if agg_op a = ''count'' then Inr t1
      else constrain_if_var al (arg a 0) (scalar DLT_NATURAL) (agg_op a) t1))"
    by (rule passes_then [OF passes_constrainVar [OF assms(1) nat t(1)]], cases "agg_op a = ''count''")
      (auto intro: passes_eq [OF passes_skip] passes_eq [OF passes_if_var [OF assms(1) nat t(2)]])
  then show ?thesis using assms(3,4) by (auto simp: typeAggregate_def agg_op_def [symmetric] Let_def intro: passes_eq)
qed

lemma passes_atom:
  assumes al: "generous al" and cols: "columns_ok S" and typed: "atom_typed S \<Gamma> a" and free: "order_free a"
  shows "passes \<Gamma> (typeBodyAtom al S a)"
proof -
  have tsc: "spec_ok (scalar DLT_TEXT)" "spec_ok (scalar DLT_NATURAL)" "cs_tag (scalar DLT_NATURAL) \<noteq> 0" by simp_all
  have step: "passes \<Gamma> (typeBodyAtom al S a)" if "passes \<Gamma> g" "\<And>t. typeBodyAtom al S a t = g t" for g
    using passes_eq [OF that] .
  show ?thesis
  proof (cases "at_aggregate a")
    case True
    with typed free show ?thesis
      by (intro step [OF passes_aggregate [OF al]]) (auto simp: typeBodyAtom_def atom_typed_def order_free_def)
  next
    case agg: False
    show ?thesis
    proof (cases "at_pattern a = None \<and> at_arith a = None")
      case False
      have "passes \<Gamma> (\<lambda>t. andthen (constrain_if_var al (arg a 0) (scalar DLT_NATURAL) (at_pred a) t)
          (typeExpr al (at_line a) (at_col a) (at_pred a) e))" if "at_pattern a = None" "at_arith a = Some e" for e
        using typed agg that by (intro passes_then passes_if_var passes_expr al) (simp_all add: atom_typed_def)
      then show ?thesis
        using False agg typed passes_each_arg [OF al tsc(1), of a \<Gamma>]
        by (cases "at_pattern a") (auto intro!: step simp: typeBodyAtom_def typeArith_def atom_typed_def)
    next
      case True
      then have n: "\<not> isComparisonPred (at_pred a)" "\<not> isListBuiltinPred (at_pred a)" "at_pred a \<noteq> ''!=''"
        "(at_pred a = ''='' \<and> length (at_args a) = 2) = False"
        using free agg by (auto simp: order_free_def isComparisonPred_def)
      note unfolded = agg n typeBodyAtom_def True
      note judged = typed [unfolded atom_typed_def, simplified unfolded, simplified]
      consider "isStrProducingPred (at_pred a)" "at_pred a = ''length''"
        | "isStrProducingPred (at_pred a)" "at_pred a \<noteq> ''length''"
        | "\<not> isStrProducingPred (at_pred a)" "isStrFilterPred (at_pred a)"
        | "\<not> isStrProducingPred (at_pred a)" "\<not> isStrFilterPred (at_pred a)" "isRangeBuiltinPred (at_pred a)"
        | "\<not> isStrProducingPred (at_pred a)" "\<not> isStrFilterPred (at_pred a)" "\<not> isRangeBuiltinPred (at_pred a)" by blast
      then show ?thesis
      proof cases
        case 1
        then have "passes \<Gamma> (\<lambda>t. andthen (constrain_if_var al (arg a 0) (scalar DLT_NATURAL) (at_pred a) t)
            (constrainArg al (arg a 1) (scalar DLT_TEXT) (at_pred a)))"
          using judged by (intro passes_then passes_if_var passes_opt_arg al) simp_all
        then show ?thesis by (rule step) (use 1 in \<open>simp add: unfolded typeStrProducing_def isComparisonPred_def\<close>)
      next
        case 2
        then have "passes \<Gamma> (each_arg al (scalar DLT_TEXT) (at_pred a) a)"
          using judged by (intro passes_each_arg al tsc) simp
        then show ?thesis by (rule step) (use 2 in \<open>simp add: unfolded typeStrProducing_def\<close>)
      next
        case 3
        then have "passes \<Gamma> (each_arg al (scalar DLT_TEXT) (at_pred a) a)"
          using judged by (intro passes_each_arg al tsc) simp
        then show ?thesis by (rule step) (use 3 in \<open>simp add: unfolded typeStrFilter_def\<close>)
      next
        case 4
        then have "passes \<Gamma> (\<lambda>t. andthen (constrain_if_var al (arg a 0) (scalar DLT_NATURAL) ''range'' t) (\<lambda>t1.
            andthen (constrainArg al (arg a 2) (scalar DLT_NATURAL) ''range'' t1)
              (constrainArg al (arg a 3) (scalar DLT_NATURAL) ''range'')))"
          using judged by (intro passes_then passes_if_var passes_opt_arg al) simp_all
        moreover have "arg a 1 \<noteq> None" using 4 judged by (simp add: arg_def)
        ultimately show ?thesis
          by (intro step) (use 4 judged in \<open>auto simp: unfolded typeRange_def\<close>)
      next
        case 5
        then have "passes \<Gamma> (typeRelational al S False a)"
          using judged by (intro passes_relational al cols) simp_all
        then show ?thesis by (rule step) (use 5 in \<open>simp add: unfolded\<close>)
      qed
    qed
  qed
qed

lemma typeRule_complete:
  assumes al: "generous al" and cols: "columns_ok S" and free: "\<forall>a \<in> set (rl_body r). order_free a"
    and typed: "rule_typed S \<Gamma> r"
  shows "typeRule al S r = Inr ()"
proof -
  let ?t0 = "\<lparr>vt_v = [], vt_cap = 0\<rparr>"
  let ?head = "case rl_head r of None \<Rightarrow> Inr ?t0 | Some h \<Rightarrow> typeRelational al S True h ?t0"
  have ag0: "agrees \<Gamma> ?t0" by (simp add: agrees_def)
  have "\<exists>t1. ?head = Inr t1 \<and> agrees \<Gamma> t1"
  proof (cases "rl_head r")
    case (Some h)
    then have "passes \<Gamma> (typeRelational al S True h)"
      using typed by (intro passes_relational al cols) (auto simp: rule_typed_def)
    then show ?thesis using Some ag0 by (auto simp: passes_def)
  qed (simp add: ag0)
  then obtain t1 where t1: "?head = Inr t1" "agrees \<Gamma> t1" by blast
  have "passes \<Gamma> (each (typeBodyAtom al S) (rl_body r))"
    using typed free by (intro passes_each passes_atom al cols) (auto simp: rule_typed_def)
  then obtain t2 where t2: "each (typeBodyAtom al S) (rl_body r) t1 = Inr t2" "agrees \<Gamma> t2"
    using t1(2) by (auto simp: passes_def)
  then have "find (\<lambda>e. cs_tag (ve_type e) = 0) (vt_v t2) = None"
    by (auto simp: agrees_def find_none_set)
  then show ?thesis using t1(1) t2(1) by (simp add: typeRule_def)
qed

lemma order_free_anchored: "\<forall>a \<in> set as. order_free a \<Longrightarrow> anchored V as"
  by (induction as arbitrary: V) (auto simp: order_free_def var_equality_def)

subsection \<open>Properties\<close>

text \<open>C4: the typechecker is sound for rules in which every equation between two variables comes after an atom that has typed one of
  them: if it accepts a program with such a rule against a schema, the rule has a typing, one column type per
  variable, under which the head and every body atom have the types their places require (declared relation, right arity,
  every argument of its column's type, operands of builtins and aggregates of the type they need, the two sides of an equation between
  variables and constants of the same type). For an equation that comes earlier this is false, and an accepted program shows
  it (\<open>late_equation_accepted\<close>); the type of a list literal in an equation is not looked at.\<close>

theorem typecheck_sound:
  assumes "columns_ok S" "dl_typecheck_rules al (Some S) rules = Inr ()" "r \<in> set rules" "anchored_rule r"
  shows "\<exists>\<Gamma>. rule_typed S \<Gamma> r"
  using typeRule_sound [OF assms(1,4)] assms(2,3) by (metis typecheck_rules_each)

text \<open>C15: for programs of relational atoms, arithmetic, patterns, string builtins, ranges and counts or sums
  the typechecker decides typability: with enough memory it accepts exactly the programs all of whose
  rules have a typing.\<close>

theorem typecheck_decides:
  assumes "generous al" "columns_ok S" "\<forall>r \<in> set rules. \<forall>a \<in> set (rl_body r). order_free a"
  shows "dl_typecheck_rules al (Some S) rules = Inr () \<longleftrightarrow> (\<forall>r \<in> set rules. \<exists>\<Gamma>. rule_typed S \<Gamma> r)"
proof -
  have "typeRule al S r = Inr () \<longleftrightarrow> (\<exists>\<Gamma>. rule_typed S \<Gamma> r)" if "r \<in> set rules" for r
  proof -
    have "anchored_rule r" using assms(3) that by (simp add: anchored_rule_def order_free_anchored)
    then show ?thesis
      using typeRule_sound [OF assms(2)] typeRule_complete [OF assms(1,2)] assms(3) that by blast
  qed
  then show ?thesis by (simp add: typecheck_rules_each)
qed

text \<open>A schema with a number column and a text column.\<close>

definition two_columns :: schema where
  "two_columns = snd (dl_schema_add (snd (dl_schema_add no_schema ''p'' 1 [scalar DLT_NATURAL] 0)) ''q'' 1 [scalar DLT_TEXT] 0)"

lemma two_columns_ok: "columns_ok two_columns"
proof -
  have "schema_ok (snd (dl_schema_add no_schema ''p'' 1 [scalar DLT_NATURAL] 0))"
    using schema_add_ok [OF no_schema_ok, of "''p''" 1 "[scalar DLT_NATURAL]" 0] by (simp add: DL_SCHEMA_NAME_MAX_def)
  then have "schema_ok two_columns"
    using schema_add_ok [of _ "''q''" 1 "[scalar DLT_TEXT]" 0] by (simp add: two_columns_def DL_SCHEMA_NAME_MAX_def)
  moreover have "map (\<lambda>rd. map (\<lambda>c. (cs_tag c, cs_elem c)) (take (rd_arity rd) (rd_cols rd))) (defined_rels two_columns) = [[(1, 0)], [(2, 0)]]"
    by code_simp
  then have "\<forall>rd \<in> set (defined_rels two_columns). \<forall>c \<in> set (take (rd_arity rd) (rd_cols rd)). cs_tag c = 1 \<or> cs_tag c = 2"
    by (auto simp: map_eq_Cons_conv)
  ultimately show ?thesis by (fastforce simp: columns_ok_def spec_ok_def coltype_defs)
qed

text \<open>\<open>p(X) :- p(Y), X = Y\<close> and \<open>p(X) :- p(X), q(Y)\<close>.\<close>

definition copy_rule :: rule where
  "copy_rule = plain_rule (plain_atom ''p'' [var_token ''X''])
     [plain_atom ''p'' [var_token ''Y''], plain_atom ''='' [var_token ''X'', var_token ''Y'']]"

definition pair_rule :: rule where
  "pair_rule = plain_rule (plain_atom ''p'' [var_token ''X''])
     [plain_atom ''p'' [var_token ''X''], plain_atom ''q'' [var_token ''Y'']]"

theorem typecheck_sound_witness: "\<exists>\<Gamma>. rule_typed two_columns \<Gamma> copy_rule"
proof (rule typecheck_sound [OF two_columns_ok])
  show "dl_typecheck_rules (\<lambda>_ _. True) (Some two_columns) [copy_rule] = Inr ()" by code_simp
  show "anchored_rule copy_rule" by code_simp
qed simp

theorem typecheck_decides_witness: "\<exists>\<Gamma>. rule_typed two_columns \<Gamma> pair_rule"
proof -
  have "generous (\<lambda>_ _. True)" by (simp add: generous_def)
  moreover have "\<forall>r \<in> set [pair_rule]. \<forall>a \<in> set (rl_body r). order_free a"
    by (simp add: order_free_def pair_rule_def plain_rule_def plain_atom_def isComparisonPred_def isListBuiltinPred_def)
  ultimately have "dl_typecheck_rules (\<lambda>_ _. True) (Some two_columns) [pair_rule] = Inr () \<longleftrightarrow>
      (\<forall>r \<in> set [pair_rule]. \<exists>\<Gamma>. rule_typed two_columns \<Gamma> r)"
    using typecheck_decides two_columns_ok by blast
  moreover have "dl_typecheck_rules (\<lambda>_ _. True) (Some two_columns) [pair_rule] = Inr ()" by code_simp
  ultimately show ?thesis by simp
qed

text \<open>Without the anchor acceptance proves nothing of an equation: \<open>p(A) :- X = Y, p(X), q(Y), p(A)\<close> is
  accepted although it equates a number with a text.\<close>

definition late_rule :: rule where
  "late_rule = plain_rule (plain_atom ''p'' [var_token ''A'']) [plain_atom ''='' [var_token ''X'', var_token ''Y''],
     plain_atom ''p'' [var_token ''X''], plain_atom ''q'' [var_token ''Y''], plain_atom ''p'' [var_token ''A'']]"

lemma column_tag:
  assumes "map_option (\<lambda>rd. map cs_tag (take 1 (rd_cols rd))) (dl_schema_find S p) = Some [n]"
    "relation_typed S \<Gamma> (plain_atom p [var_token x])"
  shows "cs_tag (\<Gamma> x) = n"
proof -
  obtain rd where rd: "dl_schema_find S p = Some rd" "\<forall>(tk, c) \<in> set (zip [var_token x] (rd_cols rd)). arg_typed \<Gamma> c tk"
    using assms(2) by (auto simp: relation_typed_def plain_atom_def)
  with assms(1) show ?thesis
    by (cases "rd_cols rd") (auto simp: arg_typed_def var_token_def var_has_def dest: colspec_eq_tag)
qed

lemma late_equation_accepted:
  "dl_typecheck_rules (\<lambda>_ _. True) (Some two_columns) [late_rule] = Inr () \<and> \<not> rule_typed two_columns \<Gamma> late_rule"
proof
  show "dl_typecheck_rules (\<lambda>_ _. True) (Some two_columns) [late_rule] = Inr ()" by code_simp
  have cols: "map_option (\<lambda>rd. map cs_tag (take 1 (rd_cols rd))) (dl_schema_find two_columns ''p'') = Some [1]"
    "map_option (\<lambda>rd. map cs_tag (take 1 (rd_cols rd))) (dl_schema_find two_columns ''q'') = Some [2]"
    by code_simp+
  show "\<not> rule_typed two_columns \<Gamma> late_rule"
  proof
    assume "rule_typed two_columns \<Gamma> late_rule"
    then have "atom_typed two_columns \<Gamma> (plain_atom ''='' [var_token ''X'', var_token ''Y''])"
      and typed: "atom_typed two_columns \<Gamma> (plain_atom ''p'' [var_token ''X''])"
        "atom_typed two_columns \<Gamma> (plain_atom ''q'' [var_token ''Y''])"
      by (simp_all add: rule_typed_def late_rule_def plain_rule_def)
    then have "cs_tag (\<Gamma> ''X'') \<noteq> 0 \<and> cs_tag (\<Gamma> ''Y'') \<noteq> 0 \<longrightarrow> dl_colspec_eq (\<Gamma> ''X'') (\<Gamma> ''Y'')"
      by (simp add: atom_typed_def equality_typed_def isComparisonPred_def plain_atom_def arg_def is_var_def side_typed_def
          var_token_def Let_def)
    moreover have "relation_typed two_columns \<Gamma> (plain_atom ''p'' [var_token ''X''])"
      "relation_typed two_columns \<Gamma> (plain_atom ''q'' [var_token ''Y''])"
      using typed by (simp_all add: plain_atom_def atom_typed_def isComparisonPred_def
          isStrProducingPred_def isStrFilterPred_def isListBuiltinPred_def isRangeBuiltinPred_def)
    ultimately show False
      using column_tag [OF cols(1)] column_tag [OF cols(2)] by (auto dest: colspec_eq_tag)
  qed
qed

end
