(* ===== verification/RelationOrder.thy ===== *)
theory RelationOrder
  imports RelationOps
begin

text \<open>
  Order statistics and range enumeration of a relation (the second and third parts of
  \<^verbatim>\<open>src/relation.h\<close>): rank, select and range count over all tuples and under a bound on
  the leading columns, counts, and the enumeration of a range of first columns.  Keys order as
  tuples do (\<open>KeyCodec\<close>), so each is the statistic of the set of tuples a reader sees.
  Results of type \<^verbatim>\<open>uint64_t\<close> are naturals, \<open>UINT64_MAX\<close> the error value.
\<close>

subsection \<open>Counts\<close>

definition popcount :: "u8 \<Rightarrow> nat" where
  "popcount b = length (filter (bit b) [0..<8])"

definition viewFinalCount :: "dafsa_view \<Rightarrow> nat" where
  "viewFinalCount v = sum_list (map popcount (take ((vw_n_states v + 8) div 8) (vw_final_bits v)))"

definition u64_add :: "nat \<Rightarrow> nat \<Rightarrow> nat" where
  "u64_add m n = (m + n) mod 2 ^ 64"

definition rel_count :: "engine \<Rightarrow> files \<Rightarrow> relation \<Rightarrow> (nat \<times> relation) option" where
  "rel_count e fs r =
     (case relEnsureReadable e fs r of (okay, r1) \<Rightarrow>
        if \<not> okay then Some (0, r1)
        else if r_state r1 = View then
          (case viewOf r1 False of
             None \<Rightarrow> None
           | Some v \<Rightarrow> Some (u64_add (viewFinalCount v) (rel_overlay_count r1), r1))
        else Some (u64_add (case r_d r1 of None \<Rightarrow> 0 | Some d \<Rightarrow> dafsa_n_final e d) (rel_overlay_count r1), r1))"

definition rel_count_subtree :: "engine \<Rightarrow> files \<Rightarrow> relation \<Rightarrow> (nat \<times> relation) option" where
  "rel_count_subtree e fs r =
     (case relEnsureReadable e fs r of (okay, r1) \<Rightarrow>
        if \<not> okay then Some (0, r1)
        else if r_state r1 = View then
          (case viewOf r1 False of
             None \<Rightarrow> None
           | Some v \<Rightarrow> Some (u64_add (dafsa_view_subtree_count e v) (rel_overlay_count r1), r1))
        else
          let n = (case r_d r1 of None \<Rightarrow> 0
                   | Some d \<Rightarrow> (case dafsa_ensure_subtree e d of None \<Rightarrow> 0 | Some n \<Rightarrow> n)) in
          Some (u64_add n (rel_overlay_count r1), r1))"

subsection \<open>Rank, select, range count\<close>

text \<open>The shape the three share: read the mapped view, or consolidate and read the automaton.\<close>

definition order_read ::
  "'a \<Rightarrow> (dafsa_view \<Rightarrow> 'a) \<Rightarrow> (dafsa \<Rightarrow> 'a) \<Rightarrow> engine \<Rightarrow> files \<Rightarrow> relation \<Rightarrow> ('a \<times> relation) option" where
  "order_read err on_view on_dafsa e fs r =
     (case relEnsureReadable e fs r of (okay, r1) \<Rightarrow>
        if \<not> okay then Some (err, r1)
        else if r_state r1 = View then
          (case viewOf r1 False of None \<Rightarrow> None | Some v \<Rightarrow> Some (on_view v, r1))
        else if r_d r1 = None then Some (err, r1)
        else
          let r2 = ovConsolidateForRead e fs r1 in
          Some (case r_d r2 of None \<Rightarrow> err | Some d \<Rightarrow> on_dafsa d, r2))"

definition rel_rank :: "engine \<Rightarrow> files \<Rightarrow> tuple \<Rightarrow> relation \<Rightarrow> (nat \<times> relation) option" where
  "rel_rank e fs cols r =
     order_read UINT64_MAX (\<lambda>v. dafsa_view_rank_n e v (encodeKey cols))
       (\<lambda>d. dafsa_rank_from e d (initial d) (encodeKey cols)) e fs r"

text \<open>\<open>None\<close> is the result -1.\<close>

definition rel_select :: "engine \<Rightarrow> files \<Rightarrow> nat \<Rightarrow> relation \<Rightarrow> (tuple option \<times> relation) option" where
  "rel_select e fs k r =
     order_read None
       (\<lambda>v. map_option (\<lambda>key. readColsBe key (r_arity r)) (dafsa_view_select_n e v k MAX_KEY_LEN))
       (\<lambda>d. map_option (\<lambda>key. readColsBe key (r_arity r)) (dafsa_select_from e d (initial d) k MAX_KEY_LEN)) e fs r"

definition rel_range_count :: "engine \<Rightarrow> files \<Rightarrow> tuple \<Rightarrow> tuple \<Rightarrow> relation \<Rightarrow> (nat \<times> relation) option" where
  "rel_range_count e fs lo hi r =
     order_read UINT64_MAX (\<lambda>v. dafsa_view_range_count_n e v (encodeKey lo) (encodeKey hi))
       (\<lambda>d. dafsa_range_count_from e d (initial d) (encodeKey lo) (encodeKey hi)) e fs r"

subsection \<open>Under a bound on the leading columns\<close>

definition rel_prefix_state :: "engine \<Rightarrow> files \<Rightarrow> tuple \<Rightarrow> relation \<Rightarrow> nat option \<times> relation" where
  "rel_prefix_state e fs bound r =
     (if r_arity r = 0 then (None, r)
      else case relEnsureOwned e fs r of (okay, r1) \<Rightarrow>
        if \<not> okay \<or> r_d r1 = None then (None, r1)
        else
          let r2 = ovConsolidateForRead e fs r1 in
          case r_d r2 of
            None \<Rightarrow> (None, r2)
          | Some d \<Rightarrow> (walk_bytes e d (initial d) (writeColsBe bound), r2))"

text \<open>The shape of the three bounded statistics: \<open>absent\<close> answers when no key has the bound.\<close>

definition bound_read ::
  "'a \<Rightarrow> 'a \<Rightarrow> (dafsa \<Rightarrow> nat \<Rightarrow> 'a) \<Rightarrow> engine \<Rightarrow> files \<Rightarrow> tuple option \<Rightarrow> nat \<Rightarrow> relation \<Rightarrow> 'a \<times> relation" where
  "bound_read err absent f e fs leading k r =
     (case relEnsureOwned e fs r of (okay, r1) \<Rightarrow>
        if \<not> okay \<or> r_d r1 = None then (err, r1)
        else if k > r_arity r1 then (err, r1)
        else if k > 0 \<and> leading = None then (err, r1)
        else case rel_prefix_state e fs (take k (case leading of None \<Rightarrow> [] | Some l \<Rightarrow> l)) r1 of (s, r2) \<Rightarrow>
          (case s of
             None \<Rightarrow> (absent, r2)
           | Some st \<Rightarrow> (case r_d r2 of None \<Rightarrow> err | Some d \<Rightarrow> f d st, r2)))"

definition rel_rank_bound :: "engine \<Rightarrow> files \<Rightarrow> tuple option \<Rightarrow> nat \<Rightarrow> tuple \<Rightarrow> relation \<Rightarrow> nat \<times> relation" where
  "rel_rank_bound e fs leading k cols r =
     bound_read UINT64_MAX 0 (\<lambda>d s. dafsa_rank_from e d s (encodeKey (drop k cols))) e fs leading k r"

definition rel_select_bound :: "engine \<Rightarrow> files \<Rightarrow> tuple option \<Rightarrow> nat \<Rightarrow> nat \<Rightarrow> relation \<Rightarrow> tuple option \<times> relation" where
  "rel_select_bound e fs leading k idx r =
     bound_read None None
       (\<lambda>d s. map_option
          (\<lambda>key. take k (case leading of None \<Rightarrow> [] | Some l \<Rightarrow> l) @ readColsBe key (r_arity r - k))
          (dafsa_select_from e d s idx MAX_KEY_LEN)) e fs leading k r"

definition rel_range_count_bound ::
  "engine \<Rightarrow> files \<Rightarrow> tuple option \<Rightarrow> nat \<Rightarrow> tuple \<Rightarrow> tuple \<Rightarrow> relation \<Rightarrow> nat \<times> relation" where
  "rel_range_count_bound e fs leading k lo hi r =
     bound_read UINT64_MAX 0
       (\<lambda>d s. dafsa_range_count_from e d s (encodeKey (drop k lo)) (encodeKey (drop k hi))) e fs leading k r"

subsection \<open>Ranges of the first column\<close>

definition rel_has_col0 :: "engine \<Rightarrow> files \<Rightarrow> u32 \<Rightarrow> relation \<Rightarrow> (int \<times> relation) option" where
  "rel_has_col0 e fs x r =
     (case relEnsureReadable e fs r of (okay, r1) \<Rightarrow>
        if \<not> okay then Some (0, r1)
        else if r_state r1 = View then
          (case viewOf r1 False of
             None \<Rightarrow> None
           | Some v \<Rightarrow> Some (if view_walk e v (vw_initial v) (be_col x) = None then 0 else 1, r1))
        else case rel_prefix_state e fs [x] r1 of (s, r2) \<Rightarrow> Some (if s = None then 0 else 1, r2))"

text \<open>The loop from rank \<open>k\<close>, over \<open>n\<close> further ranks: a failing select gives up with -1.\<close>

primrec range_loop ::
  "nat \<Rightarrow> engine \<Rightarrow> files \<Rightarrow> 's enum_cb \<Rightarrow> nat \<Rightarrow> nat \<Rightarrow> 's \<Rightarrow> relation \<Rightarrow> ((int \<times> 's) \<times> relation) option" where
  "range_loop 0 e fs cb k n s r = Some ((int n, s), r)"
| "range_loop (Suc m) e fs cb k n s r =
     (case rel_select e fs k r of
        None \<Rightarrow> None
      | Some (None, r1) \<Rightarrow> Some ((-1, s), r1)
      | Some (Some cols, r1) \<Rightarrow>
          (case cb cols s of (rc, s1) \<Rightarrow>
             if rc \<noteq> 0 then Some ((int (n + 1), s1), r1)
             else range_loop m e fs cb (k + 1) (n + 1) s1 r1))"

definition rel_range_each ::
  "engine \<Rightarrow> files \<Rightarrow> u32 \<Rightarrow> u32 \<Rightarrow> 's enum_cb \<Rightarrow> 's \<Rightarrow> relation \<Rightarrow> ((int \<times> 's) \<times> relation) option" where
  "rel_range_each e fs lo hi cb s r =
     (case relEnsureOwned e fs r of (okay, r1) \<Rightarrow>
        if \<not> okay \<or> r_d r1 = None then Some ((-1, s), r1)
        else if hi \<le> lo then Some ((0, s), r1)
        else
          let lo_key = lo # replicate (r_arity r1 - 1) 0; hi_key = hi # replicate (r_arity r1 - 1) 0 in
          case rel_rank e fs lo_key r1 of
            None \<Rightarrow> None
          | Some (r0, r2) \<Rightarrow>
              (case rel_rank e fs hi_key r2 of
                 None \<Rightarrow> None
               | Some (r1', r3) \<Rightarrow>
                   if r0 = UINT64_MAX \<or> r1' = UINT64_MAX then Some ((-1, s), r3)
                   else if r1' \<le> r0 then Some ((0, s), r3)
                   else range_loop (r1' - r0) e fs cb r0 0 s r3))"

subsection \<open>Statistics of keys are statistics of tuples\<close>

lemma sorted_list_image_mono:
  assumes "finite S" "\<And>x y. x \<in> S \<Longrightarrow> y \<in> S \<Longrightarrow> x < y \<Longrightarrow> f x < (f y :: 'b :: linorder)"
  shows "sorted_list_of_set (f ` S) = map f (sorted_list_of_set (S :: 'a :: linorder set))"
proof -
  have "sorted_wrt (<) (map f (sorted_list_of_set S))"
    unfolding sorted_wrt_map
    by (rule sorted_wrt_mono_rel [OF _ strict_sorted_list_of_set]) (use assms in simp)
  then have "sorted_list_of_set (set (map f (sorted_list_of_set S))) = map f (sorted_list_of_set S)"
    by (metis sorted_list_of_set.idem_if_sorted_distinct strict_sorted_iff)
  then show ?thesis using assms(1) by simp
qed

lemma card_image_less:
  assumes "\<And>x y. x \<in> S \<Longrightarrow> y \<in> S \<Longrightarrow> f x = f y \<Longrightarrow> x = y" "\<And>x. x \<in> S \<Longrightarrow> P (f x) \<longleftrightarrow> Q x"
  shows "card {y \<in> f ` S. P y} = card {x \<in> S. Q x}"
proof -
  have "{y \<in> f ` S. P y} = f ` {x \<in> S. Q x}" using assms(2) by auto
  then show ?thesis using assms(1) by (simp add: card_image inj_on_def)
qed

text \<open>The rests of the tuples that match a bound, and the words from the state it leads to.\<close>

definition rest_of :: "tuple set \<Rightarrow> tuple \<Rightarrow> tuple set" where
  "rest_of R bound = {q. bound @ q \<in> R}"

lemma matching_rest_of: "matching R bound = (@) bound ` rest_of R bound"
  by (simp add: matching_image rest_of_def)

lemma finite_rest_of [simp]: "finite (rest_of (dtuples a d) bound)"
proof -
  have "finite ((@) bound ` rest_of (dtuples a d) bound)"
    using finite_matching [OF finite_dtuples] by (simp add: matching_rest_of [symmetric])
  then show ?thesis by (rule finite_imageD) (simp add: inj_on_def)
qed

lemma le_append_same: "(bound :: tuple) @ x \<le> bound @ y \<longleftrightarrow> x \<le> y"
  by (simp add: append_less_same linorder_not_less [symmetric])

lemma state_stats:
  assumes "engine_ok e" "keyed a d" "a \<le> MAX_ARITY" "length bound \<le> a" "run d (initial d) (writeColsBe bound) = Some st"
    "length bound + length q = a" "length bound + length lo = a" "length bound + length hi = a"
  shows "dafsa_rank_from e d st (encodeKey q) = card {t \<in> matching (dtuples a d) bound. t < bound @ q}"
    "dafsa_range_count_from e d st (encodeKey lo) (encodeKey hi) =
       card {t \<in> matching (dtuples a d) bound. bound @ lo \<le> t \<and> t < bound @ hi}"
    "map_option (\<lambda>key. bound @ readColsBe key (a - length bound)) (dafsa_select_from e d st i MAX_KEY_LEN) =
       (let M = matching (dtuples a d) bound in
        if i < card M then Some (sorted_list_of_set M ! i) else None)"
proof -
  let ?S = "rest_of (dtuples a d) bound" and ?M = "matching (dtuples a d) bound"
  have st: "dafsa_inv d" "st < length (states d)"
    using keyed_ok [OF assms(2)] run_state assms(5) by auto
  have W: "words_from d st = encodeKey ` ?S"
    unfolding rest_of_def by (rule words_from_bound [OF assms(2,4,5)])
  have len: "length x = a - length bound" if "x \<in> ?S" for x
    using that by (auto simp: rest_of_def dtuples_def)
  have klen: "length w \<le> MAX_KEY_LEN" if "w \<in> words_from d st" for w
    using that W len assms(3) by (auto simp: MAX_KEY_LEN_def MAX_ARITY_def)
  have short: "\<forall>w \<in> words_from d st. length w \<le> MAX_WORD_LEN"
    using klen by (force simp: MAX_KEY_LEN_def MAX_ARITY_def MAX_WORD_LEN_def)
  have order: "order_ok e" using assms(1) by (simp add: engine_ok_def)
  have o: "dafsa_rank_from e d st k = card {w \<in> words_from d st. w < k}"
    "dafsa_range_count_from e d st l h = card {w \<in> words_from d st. l \<le> w \<and> w < h}"
    "dafsa_select_from e d st i MAX_KEY_LEN =
      (if i < card (words_from d st) then Some (sorted_list_of_set (words_from d st) ! i) else None)" for k l h
    using order st short klen unfolding order_ok_def by blast+
  have inj: "x = y" if "x \<in> ?S" "y \<in> ?S" "encodeKey x = encodeKey y" for x y
    using that len encodeKey_inj [of x y] by simp
  have cardW: "card {w \<in> words_from d st. P w} = card {t \<in> ?M. Q t}"
    if "\<And>x. x \<in> ?S \<Longrightarrow> P (encodeKey x) \<longleftrightarrow> Q (bound @ x)" for P Q
  proof -
    have "card {w \<in> encodeKey ` ?S. P w} = card {x \<in> ?S. Q (bound @ x)}"
      by (rule card_image_less [where P = P and Q = "\<lambda>x. Q (bound @ x)"]) (use inj that in blast)+
    moreover have "card {t \<in> (@) bound ` ?S. Q t} = card {x \<in> ?S. Q (bound @ x)}"
      by (rule card_image_less [where P = Q and Q = "\<lambda>x. Q (bound @ x)"]) simp_all
    ultimately show ?thesis by (simp only: W matching_rest_of)
  qed
  have less: "encodeKey x < encodeKey y \<longleftrightarrow> bound @ x < bound @ y" if "x \<in> ?S" "length bound + length y = a" for x y
    using len [OF that(1)] that(2) encodeKey_less [of x y] by (simp add: append_less_same)
  have le: "encodeKey y \<le> encodeKey x \<longleftrightarrow> bound @ y \<le> bound @ x" if "x \<in> ?S" "length bound + length y = a" for x y
    using less [OF that] by (simp add: linorder_not_less [symmetric])
  show "dafsa_rank_from e d st (encodeKey q) = card {t \<in> ?M. t < bound @ q}"
    unfolding o by (rule cardW) (simp add: less assms(6))
  show "dafsa_range_count_from e d st (encodeKey lo) (encodeKey hi) = card {t \<in> ?M. bound @ lo \<le> t \<and> t < bound @ hi}"
    unfolding o by (rule cardW) (simp add: less le assms(7,8))
  have c: "card (words_from d st) = card ?M" using cardW [of "\<lambda>_. True" "\<lambda>_. True"] by simp
  have l1: "sorted_list_of_set (words_from d st) = map encodeKey (sorted_list_of_set ?S)"
    unfolding W by (rule sorted_list_image_mono) (simp_all add: len encodeKey_less)
  have l2: "sorted_list_of_set ?M = map ((@) bound) (sorted_list_of_set ?S)"
    unfolding matching_rest_of by (rule sorted_list_image_mono) (simp_all add: append_less_same)
  have n: "length (sorted_list_of_set ?S) = card ?M"
    by (metis l2 length_map length_sorted_list_of_set)
  show "map_option (\<lambda>key. bound @ readColsBe key (a - length bound)) (dafsa_select_from e d st i MAX_KEY_LEN) =
       (let M = ?M in if i < card M then Some (sorted_list_of_set M ! i) else None)"
  proof (cases "i < card ?M")
    case True
    then have "sorted_list_of_set ?S ! i \<in> ?S" using n nth_mem [of i "sorted_list_of_set ?S"] by simp
    then have "readColsBe (encodeKey (sorted_list_of_set ?S ! i)) (a - length bound) = sorted_list_of_set ?S ! i"
      using len by (metis readColsBe_encodeKey)
    moreover have "i < length (sorted_list_of_set ?S)" using True n by simp
    ultimately show ?thesis using True by (simp only: o(3) c l1 l2 Let_def if_True option.map nth_map)
  qed (simp add: o(3) c)
qed

subsection \<open>The operations\<close>

lemma order_read_ok:
  assumes "engine_ok e" "dafsa_create e \<noteq> None" "adds_succeed e" "rel_ok e fs r"
    and view: "\<And>v d. view_of e v d \<Longrightarrow> on_view v = on_dafsa d"
    and stat: "\<And>d. keyed (r_arity r) d \<Longrightarrow> dtuples (r_arity r) d = rel_view e fs r \<Longrightarrow> on_dafsa d = res"
  obtains r' where "order_read err on_view on_dafsa e fs r = Some (res, r')" "rel_ok e fs r'"
    "rel_view e fs r' = rel_view e fs r" "r_arity r' = r_arity r" "r_state r = Owned \<longrightarrow> r_state r' = Owned"
proof -
  obtain r1 where r1: "relEnsureReadable e fs r = (True, r1)" "rel_ok e fs r1" "r_state r1 \<noteq> Deferred" "same_relation e fs r r1"
    by (rule ensure_readable_ok [OF assms(1,2,4)])
  have ar: "r_arity r1 = r_arity r" "rel_view e fs r1 = rel_view e fs r"
    using r1(4) same_relation_view [OF r1(4)] by (simp_all add: same_relation_def)
  show thesis
  proof (cases "r_state r1")
    case View
    obtain v d where v: "viewOf r1 False = Some v" "view_of e v d" "keyed (r_arity r1) d"
      "rel_dset e fs r1 = dtuples (r_arity r1) d" by (rule view_handle [OF assms(1) r1(2) View])
    have "viewOverlayClean r1" using r1(2) View by (simp add: rel_ok_def unloaded_ok_def)
    then have "ov_rows r1 = {}"
      by (auto simp: viewOverlayClean_def ov_rows_def ts_rows_def ts_count_def split: option.splits)
    then have "on_dafsa d = res" using stat [of d] v(3,4) ar by (simp add: rel_view_def)
    then have "order_read err on_view on_dafsa e fs r = Some (res, r1)"
      using r1(1) View v(1) view [OF v(2)] by (simp add: order_read_def)
    moreover have "r_state r \<noteq> Owned" using r1(1) View by (auto simp: relEnsureReadable_def)
    ultimately show ?thesis using that r1(2) ar by blast
  next
    case Owned
    note c = consolidate_ok [OF assms(1,2,3) r1(2) Owned]
    let ?r2 = "ovConsolidateForRead e fs r1"
    obtain d where d: "r_d ?r2 = Some d" "keyed (r_arity ?r2) d" "rel_dset e fs ?r2 = dtuples (r_arity ?r2) d"
      by (rule owned_cases [OF c(1,2)]) blast
    have "r_d r1 \<noteq> None" using r1(2) Owned by (auto simp: rel_ok_def owned_ok_def)
    moreover have "on_dafsa d = res" using stat [of d] d(2,3) c(3,5) ar by simp
    ultimately have "order_read err on_view on_dafsa e fs r = Some (res, ?r2)"
      using r1(1) Owned d(1) by (auto simp: order_read_def Let_def)
    then show ?thesis using c(1,2,5,6) ar by (intro that [of ?r2]) simp_all
  qed (use r1(3) in simp)
qed

lemma matching_Nil [simp]: "matching R [] = R"
  by (simp add: matching_def)

text \<open>Over all tuples: no bound, the initial state.\<close>

lemma initial_stats:
  assumes "engine_ok e" "keyed a d" "a \<le> MAX_ARITY" "length q = a" "length lo = a" "length hi = a"
  shows "dafsa_rank_from e d (initial d) (encodeKey q) = card {t \<in> dtuples a d. t < q}"
    "dafsa_range_count_from e d (initial d) (encodeKey lo) (encodeKey hi) = card {t \<in> dtuples a d. lo \<le> t \<and> t < hi}"
    "map_option (\<lambda>key. readColsBe key a) (dafsa_select_from e d (initial d) i MAX_KEY_LEN) =
       (if i < card (dtuples a d) then Some (sorted_list_of_set (dtuples a d) ! i) else None)"
  using state_stats(1,2) [OF assms(1-3), of "[]" "initial d" q lo hi]
    state_stats(3) [OF assms(1-3), of "[]" "initial d" q lo hi i] assms(4-6) by (simp_all add: Let_def)

lemma arity_le: "rel_ok e fs r \<Longrightarrow> r_arity r \<le> MAX_ARITY"
  by (simp add: rel_ok_def)

lemma rank_ok:
  assumes "engine_ok e" "dafsa_create e \<noteq> None" "adds_succeed e" "rel_ok e fs r" "length q = r_arity r"
  obtains r' where "rel_rank e fs q r = Some (card {t \<in> rel_view e fs r. t < q}, r')" "rel_ok e fs r'"
    "rel_view e fs r' = rel_view e fs r" "r_arity r' = r_arity r" "r_state r = Owned \<longrightarrow> r_state r' = Owned"
proof (rule order_read_ok [OF assms(1-4)])
  show "dafsa_view_rank_n e v (encodeKey q) = dafsa_rank_from e d (initial d) (encodeKey q)" if "view_of e v d" for v d
    using that by (simp add: view_of_def)
  show "dafsa_rank_from e d (initial d) (encodeKey q) = card {t \<in> rel_view e fs r. t < q}"
    if "keyed (r_arity r) d" "dtuples (r_arity r) d = rel_view e fs r" for d
    using initial_stats(1) [OF assms(1) that(1) arity_le [OF assms(4)] assms(5,5,5)] that(2) by simp
next
  fix r' assume r': "order_read UINT64_MAX (\<lambda>v. dafsa_view_rank_n e v (encodeKey q))
      (\<lambda>d. dafsa_rank_from e d (initial d) (encodeKey q)) e fs r = Some (card {t \<in> rel_view e fs r. t < q}, r')"
    "rel_ok e fs r'" "rel_view e fs r' = rel_view e fs r" "r_arity r' = r_arity r"
    "r_state r = Owned \<longrightarrow> r_state r' = Owned"
  then show thesis by (intro that [of r']) (simp_all only: rel_rank_def)
qed

lemma select_ok:
  assumes "engine_ok e" "dafsa_create e \<noteq> None" "adds_succeed e" "rel_ok e fs r"
  obtains r' where "rel_select e fs i r =
      Some (if i < card (rel_view e fs r) then Some (sorted_list_of_set (rel_view e fs r) ! i) else None, r')"
    "rel_ok e fs r'" "rel_view e fs r' = rel_view e fs r" "r_arity r' = r_arity r"
    "r_state r = Owned \<longrightarrow> r_state r' = Owned"
proof (rule order_read_ok [OF assms(1-4)])
  let ?f = "\<lambda>d. map_option (\<lambda>key. readColsBe key (r_arity r)) (dafsa_select_from e d (initial d) i MAX_KEY_LEN)"
  show "map_option (\<lambda>key. readColsBe key (r_arity r)) (dafsa_view_select_n e v i MAX_KEY_LEN) = ?f d" if "view_of e v d" for v d
    using that by (simp add: view_of_def)
  show "?f d = (if i < card (rel_view e fs r) then Some (sorted_list_of_set (rel_view e fs r) ! i) else None)"
    if "keyed (r_arity r) d" "dtuples (r_arity r) d = rel_view e fs r" for d
    using initial_stats(3) [OF assms(1) that(1) arity_le [OF assms(4)], of "replicate (r_arity r) 0"
        "replicate (r_arity r) 0" "replicate (r_arity r) 0" i] that(2) by simp
next
  fix r' assume r': "order_read None (\<lambda>v. map_option (\<lambda>key. readColsBe key (r_arity r)) (dafsa_view_select_n e v i MAX_KEY_LEN))
      (\<lambda>d. map_option (\<lambda>key. readColsBe key (r_arity r)) (dafsa_select_from e d (initial d) i MAX_KEY_LEN)) e fs r =
      Some (if i < card (rel_view e fs r) then Some (sorted_list_of_set (rel_view e fs r) ! i) else None, r')"
    "rel_ok e fs r'" "rel_view e fs r' = rel_view e fs r" "r_arity r' = r_arity r"
    "r_state r = Owned \<longrightarrow> r_state r' = Owned"
  then show thesis by (intro that [of r']) (simp_all only: rel_select_def)
qed

lemma range_count_ok:
  assumes "engine_ok e" "dafsa_create e \<noteq> None" "adds_succeed e" "rel_ok e fs r" "length lo = r_arity r" "length hi = r_arity r"
  obtains r' where "rel_range_count e fs lo hi r = Some (card {t \<in> rel_view e fs r. lo \<le> t \<and> t < hi}, r')"
    "rel_ok e fs r'" "rel_view e fs r' = rel_view e fs r"
proof (rule order_read_ok [OF assms(1-4)])
  show "dafsa_view_range_count_n e v (encodeKey lo) (encodeKey hi) =
      dafsa_range_count_from e d (initial d) (encodeKey lo) (encodeKey hi)" if "view_of e v d" for v d
    using that by (simp add: view_of_def)
  show "dafsa_range_count_from e d (initial d) (encodeKey lo) (encodeKey hi) = card {t \<in> rel_view e fs r. lo \<le> t \<and> t < hi}"
    if "keyed (r_arity r) d" "dtuples (r_arity r) d = rel_view e fs r" for d
    using initial_stats(2) [OF assms(1) that(1) arity_le [OF assms(4)] assms(5,5,6)] that(2) by simp
next
  fix r' assume r': "order_read UINT64_MAX (\<lambda>v. dafsa_view_range_count_n e v (encodeKey lo) (encodeKey hi))
      (\<lambda>d. dafsa_range_count_from e d (initial d) (encodeKey lo) (encodeKey hi)) e fs r =
      Some (card {t \<in> rel_view e fs r. lo \<le> t \<and> t < hi}, r')"
    "rel_ok e fs r'" "rel_view e fs r' = rel_view e fs r"
  then show thesis by (intro that [of r']) (simp_all only: rel_range_count_def)
qed

lemma prefix_state_ok:
  assumes "engine_ok e" "dafsa_create e \<noteq> None" "adds_succeed e" "rel_ok e fs r"
  obtains r' d where "rel_prefix_state e fs bound r = (run d (initial d) (writeColsBe bound), r')"
    "r_d r' = Some d" "keyed (r_arity r) d" "dtuples (r_arity r) d = rel_view e fs r"
    "rel_ok e fs r'" "rel_view e fs r' = rel_view e fs r" "r_state r' = Owned" "r_arity r' = r_arity r"
proof -
  obtain r1 where r1: "relEnsureOwned e fs r = (True, r1)" "rel_ok e fs r1" "r_state r1 = Owned" "same_relation e fs r r1"
    by (rule ensure_owned_ok [OF assms(1,2,4)])
  have ar: "r_arity r1 = r_arity r" "rel_view e fs r1 = rel_view e fs r"
    using r1(4) same_relation_view [OF r1(4)] by (simp_all add: same_relation_def)
  note c = consolidate_ok [OF assms(1,2,3) r1(2,3)]
  let ?r2 = "ovConsolidateForRead e fs r1"
  obtain d where d: "r_d ?r2 = Some d" "keyed (r_arity ?r2) d" "rel_dset e fs ?r2 = dtuples (r_arity ?r2) d"
    by (rule owned_cases [OF c(1,2)]) blast
  have "r_d r1 \<noteq> None" using r1(2,3) by (auto simp: rel_ok_def owned_ok_def)
  moreover have "r_arity r \<noteq> 0" using assms(4) by (simp add: rel_ok_def)
  moreover have "walk_bytes e d (initial d) (writeColsBe bound) = run d (initial d) (writeColsBe bound)"
    using walk_bytes_run [OF assms(1)] keyed_ok [OF d(2)] by blast
  ultimately have "rel_prefix_state e fs bound r = (run d (initial d) (writeColsBe bound), ?r2)"
    using r1(1) d(1) by (auto simp: rel_prefix_state_def Let_def)
  then show thesis using d c ar by (intro that [of d ?r2]) simp_all
qed

lemma bound_read_ok:
  assumes "engine_ok e" "dafsa_create e \<noteq> None" "adds_succeed e" "rel_ok e fs r" "k \<le> r_arity r" "k \<le> length l"
    and absent: "matching (rel_view e fs r) (take k l) = {} \<Longrightarrow> absent = res"
    and stat: "\<And>d st. keyed (r_arity r) d \<Longrightarrow> dtuples (r_arity r) d = rel_view e fs r \<Longrightarrow>
      run d (initial d) (writeColsBe (take k l)) = Some st \<Longrightarrow> f d st = res"
  obtains r' where "bound_read err absent f e fs (Some l) k r = (res, r')" "rel_ok e fs r'"
    "rel_view e fs r' = rel_view e fs r"
proof -
  obtain r1 where r1: "relEnsureOwned e fs r = (True, r1)" "rel_ok e fs r1" "r_state r1 = Owned" "same_relation e fs r r1"
    by (rule ensure_owned_ok [OF assms(1,2,4)])
  have ar: "r_arity r1 = r_arity r" "rel_view e fs r1 = rel_view e fs r"
    using r1(4) same_relation_view [OF r1(4)] by (simp_all add: same_relation_def)
  obtain r2 d where r2: "rel_prefix_state e fs (take k l) r1 = (run d (initial d) (writeColsBe (take k l)), r2)"
    "r_d r2 = Some d" "keyed (r_arity r1) d" "dtuples (r_arity r1) d = rel_view e fs r1"
    "rel_ok e fs r2" "rel_view e fs r2 = rel_view e fs r1"
    by (rule prefix_state_ok [OF assms(1-3) r1(2)])
  have "r_d r1 \<noteq> None" using r1(2,3) by (auto simp: rel_ok_def owned_ok_def)
  then have b: "bound_read err absent f e fs (Some l) k r =
      ((case run d (initial d) (writeColsBe (take k l)) of None \<Rightarrow> absent | Some st \<Rightarrow> f d st), r2)"
    using r1(1) r2(1,2) assms(5) ar(1) by (auto simp: bound_read_def split: option.splits)
  show thesis
  proof (cases "run d (initial d) (writeColsBe (take k l))")
    case None
    have "absent = res" using absent no_matching [OF None, of "r_arity r"] r2(4) ar by simp
    then show ?thesis using that [of r2] b None r2(5,6) ar by simp
  next
    case (Some st)
    have "f d st = res" using stat [of d st] r2(3,4) ar Some by simp
    then show ?thesis using that [of r2] b Some r2(5,6) ar by simp
  qed
qed

text \<open>The contract of the bounded statistics, and with no bound of the plain ones.\<close>

definition rank_spec :: "tuple set \<Rightarrow> tuple \<Rightarrow> tuple \<Rightarrow> nat \<Rightarrow> bool" where
  "rank_spec R bound q n \<longleftrightarrow> n = card {t \<in> matching R bound. t < q}"

definition select_spec :: "tuple set \<Rightarrow> tuple \<Rightarrow> nat \<Rightarrow> tuple option \<Rightarrow> bool" where
  "select_spec R bound i res \<longleftrightarrow>
     res = (if i < card (matching R bound) then Some (sorted_list_of_set (matching R bound) ! i) else None)"

definition range_count_spec :: "tuple set \<Rightarrow> tuple \<Rightarrow> tuple \<Rightarrow> tuple \<Rightarrow> nat \<Rightarrow> bool" where
  "range_count_spec R bound lo hi n \<longleftrightarrow> n = card {t \<in> matching R bound. lo \<le> t \<and> t < hi}"

lemma rank_bound_ok:
  assumes "engine_ok e" "dafsa_create e \<noteq> None" "adds_succeed e" "rel_ok e fs r" "k \<le> r_arity r" "k \<le> length l"
    "length q = r_arity r" "take k q = take k l"
  obtains n r' where "rel_rank_bound e fs (Some l) k q r = (n, r')" "rank_spec (rel_view e fs r) (take k l) q n"
    "rel_ok e fs r'" "rel_view e fs r' = rel_view e fs r"
proof -
  let ?res = "card {t \<in> matching (rel_view e fs r) (take k l). t < q}"
  have q: "take k l @ drop k q = q" using assms(8) by (metis append_take_drop_id)
  obtain r' where "bound_read UINT64_MAX 0 (\<lambda>d s. dafsa_rank_from e d s (encodeKey (drop k q))) e fs (Some l) k r = (?res, r')"
    "rel_ok e fs r'" "rel_view e fs r' = rel_view e fs r"
  proof (rule bound_read_ok [OF assms(1-6)])
    fix d st assume d: "keyed (r_arity r) d" "dtuples (r_arity r) d = rel_view e fs r"
      "run d (initial d) (writeColsBe (take k l)) = Some st"
    have "dafsa_rank_from e d st (encodeKey (drop k q)) =
        card {t \<in> matching (dtuples (r_arity r) d) (take k l). t < take k l @ drop k q}"
      by (rule state_stats(1) [OF assms(1) d(1) arity_le [OF assms(4)] _ d(3), of _ "drop k q" "drop k q"])
        (use assms(5-7) in auto)
    then show "dafsa_rank_from e d st (encodeKey (drop k q)) = ?res" using d(2) q by simp
  qed (use that in auto)
  then show thesis using that by (simp add: rel_rank_bound_def rank_spec_def)
qed

lemma range_count_bound_ok:
  assumes "engine_ok e" "dafsa_create e \<noteq> None" "adds_succeed e" "rel_ok e fs r" "k \<le> r_arity r" "k \<le> length l"
    "length lo = r_arity r" "take k lo = take k l" "length hi = r_arity r" "take k hi = take k l"
  obtains n r' where "rel_range_count_bound e fs (Some l) k lo hi r = (n, r')"
    "range_count_spec (rel_view e fs r) (take k l) lo hi n" "rel_ok e fs r'" "rel_view e fs r' = rel_view e fs r"
proof -
  let ?res = "card {t \<in> matching (rel_view e fs r) (take k l). lo \<le> t \<and> t < hi}"
  have q: "take k l @ drop k lo = lo" "take k l @ drop k hi = hi"
    using assms(8,10) by (metis append_take_drop_id)+
  obtain r' where "bound_read UINT64_MAX 0
      (\<lambda>d s. dafsa_range_count_from e d s (encodeKey (drop k lo)) (encodeKey (drop k hi))) e fs (Some l) k r = (?res, r')"
    "rel_ok e fs r'" "rel_view e fs r' = rel_view e fs r"
  proof (rule bound_read_ok [OF assms(1-6)])
    fix d st assume d: "keyed (r_arity r) d" "dtuples (r_arity r) d = rel_view e fs r"
      "run d (initial d) (writeColsBe (take k l)) = Some st"
    have "dafsa_range_count_from e d st (encodeKey (drop k lo)) (encodeKey (drop k hi)) =
        card {t \<in> matching (dtuples (r_arity r) d) (take k l). take k l @ drop k lo \<le> t \<and> t < take k l @ drop k hi}"
      by (rule state_stats(2) [OF assms(1) d(1) arity_le [OF assms(4)] _ d(3), of "drop k lo"])
        (use assms(5-7,9) in auto)
    then show "dafsa_range_count_from e d st (encodeKey (drop k lo)) (encodeKey (drop k hi)) = ?res"
      using d(2) q by simp
  qed (use that in auto)
  then show thesis using that by (simp add: rel_range_count_bound_def range_count_spec_def)
qed

lemma select_bound_ok:
  assumes "engine_ok e" "dafsa_create e \<noteq> None" "adds_succeed e" "rel_ok e fs r" "k \<le> r_arity r" "k \<le> length l"
  obtains res r' where "rel_select_bound e fs (Some l) k i r = (res, r')"
    "select_spec (rel_view e fs r) (take k l) i res" "rel_ok e fs r'" "rel_view e fs r' = rel_view e fs r"
proof -
  let ?M = "matching (rel_view e fs r) (take k l)"
  let ?res = "if i < card ?M then Some (sorted_list_of_set ?M ! i) else None"
  let ?f = "\<lambda>d s. map_option (\<lambda>key. take k l @ readColsBe key (r_arity r - k)) (dafsa_select_from e d s i MAX_KEY_LEN)"
  obtain r' where "bound_read None None ?f e fs (Some l) k r = (?res, r')"
    "rel_ok e fs r'" "rel_view e fs r' = rel_view e fs r"
  proof (rule bound_read_ok [OF assms(1-6)])
    fix d st assume d: "keyed (r_arity r) d" "dtuples (r_arity r) d = rel_view e fs r"
      "run d (initial d) (writeColsBe (take k l)) = Some st"
    have b: "length (take k l) = k" using assms(6) by simp
    let ?z = "replicate (r_arity r - k) (0 :: u32)"
    have "map_option (\<lambda>key. take k l @ readColsBe key (r_arity r - length (take k l))) (dafsa_select_from e d st i MAX_KEY_LEN) =
        (let M = matching (dtuples (r_arity r) d) (take k l) in if i < card M then Some (sorted_list_of_set M ! i) else None)"
      by (rule state_stats(3) [OF assms(1) d(1) arity_le [OF assms(4)] _ d(3), of ?z ?z ?z]) (use assms(5) b in auto)
    then show "?f d st = ?res" using d(2) b by (simp add: Let_def)
  qed (use that in auto)
  then show thesis using that by (simp add: rel_select_bound_def select_spec_def)
qed

text \<open>The range of first columns \<open>[lo, hi)\<close>: the rows between the ranks of the two padded keys.\<close>

definition col0_range :: "tuple set \<Rightarrow> u32 \<Rightarrow> u32 \<Rightarrow> tuple set" where
  "col0_range R lo hi = {t \<in> R. lo \<le> hd t \<and> hd t < hi}"

definition range_each_spec :: "tuple set \<Rightarrow> u32 \<Rightarrow> u32 \<Rightarrow> 's enum_cb \<Rightarrow> 's \<Rightarrow> int \<times> 's \<Rightarrow> bool" where
  "range_each_spec R lo hi cb s res \<longleftrightarrow>
     res = (case deliver cb (sorted_list_of_set (col0_range R lo hi)) s of (n, s') \<Rightarrow> (int n, s'))"

lemma zeros_least: "length x = n \<Longrightarrow> replicate n (0 :: u32) \<le> x"
proof (induction x arbitrary: n)
  case (Cons a x)
  then obtain m where m: "n = Suc m" "replicate m 0 \<le> x" by (cases n) auto
  have "0 < a \<or> a = 0" by (simp add: word_greater_zero_iff)
  with m show ?case by auto
qed simp

lemma less_pad:
  fixes v :: u32
  assumes "length t = a" "a \<noteq> 0"
  shows "t < v # replicate (a - 1) 0 \<longleftrightarrow> hd t < v"
proof -
  obtain b u where t: "t = b # u" "length u = a - 1" using assms by (cases t) auto
  have "\<not> u < replicate (a - 1) 0" using zeros_least [OF t(2)] by (simp add: linorder_not_less)
  then show ?thesis by (simp add: t)
qed

lemma until_drop:
  "i < length xs \<Longrightarrow> until f (drop i xs) s = (case f (xs ! i) s of (stop, s') \<Rightarrow> if stop then (True, s') else until f (drop (Suc i) xs) s')"
  by (simp add: Cons_nth_drop_Suc [symmetric])

lemma hand_out_eq: "cb t s = (rc, s') \<Longrightarrow> hand_out cb t (n, s) = (rc \<noteq> 0, n + 1, s')"
  by (simp add: hand_out_def)

lemma range_loop_ok:
  assumes "engine_ok e" "dafsa_create e \<noteq> None" "adds_succeed e"
  shows "\<lbrakk>rel_ok e fs r; k + m \<le> card (rel_view e fs r)\<rbrakk> \<Longrightarrow>
    \<exists>r'. range_loop m e fs cb k n s r =
      Some (case until (hand_out cb) (take m (drop k (sorted_list_of_set (rel_view e fs r)))) (n, s) of
              (_, n', s') \<Rightarrow> (int n', s'), r') \<and>
      rel_ok e fs r' \<and> rel_view e fs r' = rel_view e fs r"
proof (induction m arbitrary: k n s r)
  case (Suc m)
  let ?xs = "sorted_list_of_set (rel_view e fs r)"
  have k: "k < length ?xs" using Suc.prems(2) by simp
  obtain r1 where r1: "rel_select e fs k r = Some (Some (?xs ! k), r1)" "rel_ok e fs r1"
    "rel_view e fs r1 = rel_view e fs r"
    using select_ok [OF assms Suc.prems(1), of k] k by auto
  obtain rc s1 where cb: "cb (?xs ! k) s = (rc, s1)" by fastforce
  have d: "take (Suc m) (drop k ?xs) = ?xs ! k # take m (drop (Suc k) ?xs)"
    using k by (simp add: Cons_nth_drop_Suc [symmetric])
  show ?case
  proof (cases "rc = 0")
    case True
    obtain r2 where "range_loop m e fs cb (k + 1) (n + 1) s1 r1 =
      Some (case until (hand_out cb) (take m (drop (k + 1) (sorted_list_of_set (rel_view e fs r1)))) (n + 1, s1) of
              (_, n', s') \<Rightarrow> (int n', s'), r2)" "rel_ok e fs r2" "rel_view e fs r2 = rel_view e fs r1"
      using Suc.IH [OF r1(2), of "k + 1" "n + 1" s1] Suc.prems(2) r1(3) by auto
    with r1 cb True d show ?thesis by (simp add: hand_out_eq)
  next
    case False
    with r1 cb d show ?thesis by (simp add: hand_out_eq)
  qed
qed simp

lemma range_slice:
  assumes "finite R" "\<forall>t \<in> R. length t = a" "a \<noteq> 0" "lo < hi"
  shows "take (card {t \<in> R. hd t < hi} - card {t \<in> R. hd t < lo}) (drop (card {t \<in> R. hd t < lo}) (sorted_list_of_set R)) =
    sorted_list_of_set (col0_range R lo hi)"
proof -
  let ?A = "{t \<in> R. hd t < lo}" and ?B = "col0_range R lo hi" and ?C = "{t \<in> R. hi \<le> hd t}"
  have lt: "x < y" if "x \<in> R" "y \<in> R" "hd x < v" "v \<le> hd y" for x y v
    using that less_le_trans [OF that(3,4)] assms(2,3) by (cases x; cases y) auto
  have AC: "x < y" if "x \<in> R" "y \<in> R" "hd x < lo" "hi \<le> hd y" for x y
    using lt [OF that(1,2), of lo] that(3,4) assms(4) by simp
  have split: "sorted_list_of_set R = sorted_list_of_set ?A @ sorted_list_of_set ?B @ sorted_list_of_set ?C"
  proof (rule sorted_distinct_set_unique)
    have "sorted_wrt (<) (sorted_list_of_set ?A @ sorted_list_of_set ?B @ sorted_list_of_set ?C)"
      using assms(1) lt AC by (auto simp: sorted_wrt_append col0_range_def strict_sorted_list_of_set)
    then show "sorted (sorted_list_of_set ?A @ sorted_list_of_set ?B @ sorted_list_of_set ?C)"
      "distinct (sorted_list_of_set ?A @ sorted_list_of_set ?B @ sorted_list_of_set ?C)"
      by (simp_all only: strict_sorted_iff)
    show "set (sorted_list_of_set R) = set (sorted_list_of_set ?A @ sorted_list_of_set ?B @ sorted_list_of_set ?C)"
      using assms(1,4) by (auto simp: col0_range_def)
  qed simp_all
  have "{t \<in> R. hd t < hi} = ?A \<union> ?B" "?A \<inter> ?B = {}" "finite ?A" "finite ?B"
    using assms(1,4) by (auto simp: col0_range_def)
  then have "card {t \<in> R. hd t < hi} = card ?A + card ?B" by (simp add: card_Un_disjoint)
  then show ?thesis by (simp add: split)
qed

lemma finite_view: "rel_ok e fs r \<Longrightarrow> finite (rel_view e fs r)"
  by (auto simp: rel_view_def rel_dset_def mem_tuples_def disk_tuples_def ov_rows_def ts_rows_def split: option.splits)

lemma view_lengths: "rel_ok e fs r \<Longrightarrow> t \<in> rel_view e fs r \<Longrightarrow> length t = r_arity r"
  by (auto simp: rel_view_def rel_dset_def mem_tuples_def disk_tuples_def ov_rows_def ts_rows_def dtuples_def
      rel_ok_def ts_inv_def split: option.splits if_splits)

lemma range_each_ok:
  assumes "engine_ok e" "dafsa_create e \<noteq> None" "adds_succeed e" "rel_ok e fs r" "card (rel_view e fs r) < UINT64_MAX"
  obtains res r' where "rel_range_each e fs lo hi cb s r = Some (res, r')"
    "range_each_spec (rel_view e fs r) lo hi cb s res" "rel_ok e fs r'" "rel_view e fs r' = rel_view e fs r"
proof -
  let ?R = "rel_view e fs r" and ?a = "r_arity r"
  obtain r1 where r1: "relEnsureOwned e fs r = (True, r1)" "rel_ok e fs r1" "r_state r1 = Owned" "same_relation e fs r r1"
    by (rule ensure_owned_ok [OF assms(1,2,4)])
  have ar: "r_arity r1 = ?a" "rel_view e fs r1 = ?R"
    using r1(4) same_relation_view [OF r1(4)] by (simp_all add: same_relation_def)
  have a: "?a \<noteq> 0" and fin: "finite ?R" and len: "\<forall>t \<in> ?R. length t = ?a"
    using assms(4) finite_view view_lengths by (auto simp: rel_ok_def)
  have d1: "r_d r1 \<noteq> None" using r1(2,3) by (auto simp: rel_ok_def owned_ok_def)
  show thesis
  proof (cases "hi \<le> lo")
    case True
    then have "col0_range ?R lo hi = {}" by (auto simp: col0_range_def)
    then show ?thesis
      using r1 d1 True ar by (intro that [of "(0, s)" r1]) (auto simp: rel_range_each_def range_each_spec_def deliver_def)
  next
    case False
    let ?key = "\<lambda>v :: u32. v # replicate (?a - 1) 0"
    have klen: "length (?key v) = ?a" for v using a by simp
    have rank: "{t \<in> ?R. t < ?key v} = {t \<in> ?R. hd t < v}" for v
      using less_pad a len by blast
    have k1: "length (?key lo) = r_arity r1" using klen ar by simp
    obtain r2 where r2': "rel_rank e fs (?key lo) r1 = Some (card {t \<in> rel_view e fs r1. t < ?key lo}, r2)" "rel_ok e fs r2"
      "rel_view e fs r2 = rel_view e fs r1" "r_arity r2 = r_arity r1"
      by (rule rank_ok [OF assms(1-3) r1(2) k1]) blast
    then have r2: "rel_rank e fs (?key lo) r1 = Some (card {t \<in> ?R. hd t < lo}, r2)" "rel_view e fs r2 = ?R" "r_arity r2 = ?a"
      using ar rank by simp_all
    have k2: "length (?key hi) = r_arity r2" using klen r2(3) by simp
    obtain r3 where r3': "rel_rank e fs (?key hi) r2 = Some (card {t \<in> rel_view e fs r2. t < ?key hi}, r3)" "rel_ok e fs r3"
      "rel_view e fs r3 = rel_view e fs r2"
      by (rule rank_ok [OF assms(1-3) r2'(2) k2]) blast
    then have r3: "rel_rank e fs (?key hi) r2 = Some (card {t \<in> ?R. hd t < hi}, r3)" "rel_ok e fs r3" "rel_view e fs r3 = ?R"
      using r2(2) rank by simp_all
    let ?n0 = "card {t \<in> ?R. hd t < lo}" and ?n1 = "card {t \<in> ?R. hd t < hi}"
    have le: "?n0 \<le> card ?R" "?n1 \<le> card ?R" by (auto intro: card_mono fin)
    have mono: "?n0 \<le> ?n1" using fin False by (intro card_mono) auto
    have e0: "rel_range_each e fs lo hi cb s r =
        (if ?n1 \<le> ?n0 then Some ((0, s), r3) else range_loop (?n1 - ?n0) e fs cb ?n0 0 s r3)"
      using r1 r2(1) r3(1) d1 False le assms(5) ar by (auto simp: rel_range_each_def Let_def)
    obtain r4 where r4: "range_loop (?n1 - ?n0) e fs cb ?n0 0 s r3 =
      Some (case until (hand_out cb) (take (?n1 - ?n0) (drop ?n0 (sorted_list_of_set ?R))) (0, s) of
              (_, n', s') \<Rightarrow> (int n', s'), r4)" "rel_ok e fs r4" "rel_view e fs r4 = ?R"
      using range_loop_ok [OF assms(1-3) r3(2), of ?n0 "?n1 - ?n0" cb 0 s] r3(3) le mono by auto
    have slice: "take (?n1 - ?n0) (drop ?n0 (sorted_list_of_set ?R)) = sorted_list_of_set (col0_range ?R lo hi)"
      by (rule range_slice [OF fin len a]) (use False in simp)
    show ?thesis
    proof (cases "?n1 \<le> ?n0")
      case True
      then have "sorted_list_of_set (col0_range ?R lo hi) = []" using slice by simp
      then have "range_each_spec ?R lo hi cb s (0, s)" by (simp add: range_each_spec_def deliver_def)
      then show ?thesis using that e0 True r3 by simp
    next
      case gt: False
      have "range_each_spec ?R lo hi cb s (case until (hand_out cb) (sorted_list_of_set (col0_range ?R lo hi)) (0, s) of
              (_, n', s') \<Rightarrow> (int n', s'))"
        by (simp add: range_each_spec_def deliver_def split: prod.splits)
      then show ?thesis using that e0 gt r4 slice by simp
    qed
  qed
qed

lemma has_col0_ok:
  assumes "engine_ok e" "dafsa_create e \<noteq> None" "adds_succeed e" "rel_ok e fs r"
  obtains r' where "rel_has_col0 e fs x r = Some (if \<exists>t \<in> rel_view e fs r. hd t = x then 1 else 0, r')"
    "rel_ok e fs r'" "rel_view e fs r' = rel_view e fs r"
proof -
  obtain r1 where r1: "relEnsureReadable e fs r = (True, r1)" "rel_ok e fs r1" "r_state r1 \<noteq> Deferred" "same_relation e fs r r1"
    by (rule ensure_readable_ok [OF assms(1,2,4)])
  have ar: "r_arity r1 = r_arity r" "rel_view e fs r1 = rel_view e fs r"
    using r1(4) same_relation_view [OF r1(4)] by (simp_all add: same_relation_def)
  have a: "1 \<le> r_arity r" using assms(4) by (simp add: rel_ok_def)
  have w1: "writeColsBe [x] = be_col x" by simp
  have found: "run d (initial d) (be_col x) \<noteq> None \<longleftrightarrow> (\<exists>t \<in> dtuples (r_arity r) d. hd t = x)"
    if k: "keyed (r_arity r) d" for d
  proof
    assume "run d (initial d) (be_col x) \<noteq> None"
    then obtain st where st: "run d (initial d) (writeColsBe [x]) = Some st" by auto
    have "dafsa_inv d" using k by (simp add: keyed_def)
    moreover have "writeColsBe [x] \<noteq> []" by (simp add: be_col_def)
    ultimately have "words_from d st \<noteq> {}" using st unfolding dafsa_inv_def by blast
    then obtain q where "[x] @ q \<in> dtuples (r_arity r) d"
      using words_from_bound [OF k _ st] a by auto
    then show "\<exists>t \<in> dtuples (r_arity r) d. hd t = x" by (metis append_Cons list.sel(1))
  next
    assume "\<exists>t \<in> dtuples (r_arity r) d. hd t = x"
    then obtain t where t: "t \<in> dtuples (r_arity r) d" "hd t = x" by blast
    then have "take (length [x]) t = [x]" using a by (cases t) (auto simp: dtuples_def)
    then have "t \<in> matching (dtuples (r_arity r) d) [x]" using t(1) by (simp add: matching_def)
    then have "run d (initial d) (writeColsBe [x]) \<noteq> None"
      using no_matching [of d "[x]" "r_arity r"] by auto
    then show "run d (initial d) (be_col x) \<noteq> None" by simp
  qed
  show thesis
  proof (cases "r_state r1")
    case View
    obtain v d where v: "viewOf r1 False = Some v" "view_of e v d" "keyed (r_arity r1) d"
      "rel_dset e fs r1 = dtuples (r_arity r1) d" by (rule view_handle [OF assms(1) r1(2) View])
    have "viewOverlayClean r1" using r1(2) View by (simp add: rel_ok_def unloaded_ok_def)
    then have "ov_rows r1 = {}"
      by (auto simp: viewOverlayClean_def ov_rows_def ts_rows_def ts_count_def split: option.splits)
    then have R: "rel_view e fs r = dtuples (r_arity r) d" using v(4) ar by (simp add: rel_view_def)
    have "view_walk e v (vw_initial v) (be_col x) = run d (initial d) (be_col x)"
      using view_walk_run [OF v(2), of "initial d" "be_col x"] v(2) keyed_ok [OF v(3)] by (simp add: view_of_def)
    then have "rel_has_col0 e fs x r = Some (if \<exists>t \<in> rel_view e fs r. hd t = x then 1 else 0, r1)"
      using r1(1) View v(1) found [of d] v(3) ar R by (auto simp: rel_has_col0_def)
    then show ?thesis using that r1(2) ar by blast
  next
    case Owned
    obtain r2 d where r2: "rel_prefix_state e fs [x] r1 = (run d (initial d) (writeColsBe [x]), r2)"
      "keyed (r_arity r1) d" "dtuples (r_arity r1) d = rel_view e fs r1" "rel_ok e fs r2"
      "rel_view e fs r2 = rel_view e fs r1"
      by (rule prefix_state_ok [OF assms(1-3) r1(2)]) blast
    have "rel_has_col0 e fs x r = Some (if \<exists>t \<in> rel_view e fs r. hd t = x then 1 else 0, r2)"
      using r1(1) Owned r2 found [of d] ar by (auto simp: rel_has_col0_def)
    then show ?thesis using that r2(4,5) ar by simp
  qed (use r1(3) in simp)
qed

lemma count_ok:
  assumes "engine_ok e" "dafsa_create e \<noteq> None" "rel_ok e fs r"
    "\<forall>d. dafsa_ensure_subtree e d \<noteq> None" "rel_dset e fs r \<inter> ov_rows r = {}" "card (rel_view e fs r) < 2 ^ 64"
  obtains r' where "rel_count_subtree e fs r = Some (card (rel_view e fs r), r')" "rel_ok e fs r'"
    "same_relation e fs r r'"
proof -
  obtain r1 where r1: "relEnsureReadable e fs r = (True, r1)" "rel_ok e fs r1" "r_state r1 \<noteq> Deferred" "same_relation e fs r r1"
    by (rule ensure_readable_ok [OF assms(1-3)])
  have ar: "r_ov r1 = r_ov r" "rel_dset e fs r1 = rel_dset e fs r" "r_arity r1 = r_arity r"
    using r1(4) by (simp_all add: same_relation_def)
  have ovc: "rel_overlay_count r1 = card (ov_rows r)"
  proof (cases "r_ov r")
    case (Some ov)
    then have "distinct (ts_data ov)" using ov_wf [OF assms(3)] by (simp add: ts_inv_def)
    with Some ar show ?thesis
      by (simp add: rel_overlay_count_def ov_rows_def ts_count_def ts_rows_def distinct_card)
  qed (use ar in \<open>simp add: rel_overlay_count_def ov_rows_def\<close>)
  have "finite (rel_dset e fs r)" "finite (ov_rows r)"
    using finite_view [OF assms(3)] by (auto simp: rel_view_def)
  then have c: "card (rel_view e fs r) = card (rel_dset e fs r) + card (ov_rows r)"
    using assms(5) by (simp add: rel_view_def card_Un_disjoint)
  have cw: "card (dwords d) = card (dtuples a d)" if "keyed a d" for a d
  proof -
    have "inj_on encodeKey (dtuples a d)"
      by (rule inj_onI) (metis (mono_tags, lifting) dtuples_def encodeKey_inj mem_Collect_eq)
    then show ?thesis by (simp add: dwords_encode [OF that] card_image)
  qed
  have "rel_count_subtree e fs r = Some (card (rel_view e fs r), r1)"
  proof (cases "r_state r1")
    case View
    obtain v d where v: "viewOf r1 False = Some v" "view_of e v d" "keyed (r_arity r1) d"
      "rel_dset e fs r1 = dtuples (r_arity r1) d" by (rule view_handle [OF assms(1) r1(2) View])
    then have "dafsa_view_subtree_count e v = card (rel_dset e fs r)" using cw ar by (simp add: view_of_def)
    then show ?thesis using r1(1) View v(1) ovc c assms(6) by (simp add: rel_count_subtree_def u64_add_def)
  next
    case Owned
    obtain d where d: "r_d r1 = Some d" "keyed (r_arity r1) d" "rel_dset e fs r1 = dtuples (r_arity r1) d"
      by (rule owned_cases [OF r1(2) Owned]) blast
    obtain n where n: "dafsa_ensure_subtree e d = Some n" using assms(4) by auto
    moreover have "dafsa_inv d" "read_ok e" using assms(1) d(2) by (simp_all add: engine_ok_def keyed_def)
    ultimately have "n = card (dwords d)" unfolding read_ok_def by blast
    then have "n = card (rel_dset e fs r)" using cw [OF d(2)] d(3) ar by simp
    then show ?thesis using r1(1) Owned d(1) n ovc c assms(6) by (simp add: rel_count_subtree_def u64_add_def)
  qed (use r1(3) in simp)
  then show thesis using that r1 by blast
qed

lemma below_nth:
  assumes "finite R" "i < length (sorted_list_of_set R)" "sorted_list_of_set R ! i = t"
  shows "{u \<in> R. u < t} = set (take i (sorted_list_of_set (R :: 'a :: linorder set)))"
proof -
  let ?xs = "sorted_list_of_set R"
  have s: "sorted_wrt (<) ?xs" by (rule strict_sorted_list_of_set)
  have "u \<in> set (take i ?xs) \<longleftrightarrow> u \<in> R \<and> u < t" for u
  proof
    assume "u \<in> set (take i ?xs)"
    then obtain j where "j < i" "?xs ! j = u" using assms(2) by (auto simp: in_set_conv_nth)
    moreover have "?xs ! j < ?xs ! i" using sorted_wrt_nth_less [OF s \<open>j < i\<close> assms(2)] .
    moreover have "u \<in> set ?xs" using \<open>?xs ! j = u\<close> \<open>j < i\<close> assms(2) nth_mem [of j ?xs] by simp
    ultimately show "u \<in> R \<and> u < t" using assms(1,3) by simp
  next
    assume u: "u \<in> R \<and> u < t"
    then obtain j where j: "j < length ?xs" "?xs ! j = u"
      using assms(1) by (metis in_set_conv_nth set_sorted_list_of_set)
    have "j < i"
    proof (rule ccontr)
      assume "\<not> j < i"
      then have "?xs ! i \<le> ?xs ! j"
        using sorted_wrt_nth_less [OF s, of i j] j(1) by (cases "i = j") auto
      then have "t \<le> u" using j(2) assms(3) by simp
      with u show False by (metis not_less)
    qed
    then show "u \<in> set (take i ?xs)" using j assms(2) by (auto simp: in_set_conv_nth)
  qed
  then show ?thesis by blast
qed

subsection \<open>Properties\<close>

text \<open>Under a bound on the leading \<open>k\<close> columns (\<open>k = 0\<close>: no bound), rank counts the tuples a
  reader sees that match the bound and precede the given tuple, range count those between two
  tuples, and select returns the \<open>i\<close>-th of them in ascending order or fails exactly when there is none; the
  pending overlay is included, and a bound no tuple has gives 0 and -1.\<close>

theorem rel_bound_statistics_correct:
  assumes "engine_ok e" "dafsa_create e \<noteq> None" "adds_succeed e" "rel_ok e fs r" "k \<le> r_arity r" "k \<le> length l"
    "length q = r_arity r" "take k q = take k l" "length hi = r_arity r" "take k hi = take k l"
  shows "\<exists>n sel m r1 r2 r3.
    rel_rank_bound e fs (Some l) k q r = (n, r1) \<and> rank_spec (rel_view e fs r) (take k l) q n \<and>
    rel_select_bound e fs (Some l) k i r = (sel, r2) \<and> select_spec (rel_view e fs r) (take k l) i sel \<and>
    rel_range_count_bound e fs (Some l) k q hi r = (m, r3) \<and> range_count_spec (rel_view e fs r) (take k l) q hi m \<and>
    rel_ok e fs r1 \<and> rel_ok e fs r2 \<and> rel_ok e fs r3 \<and> rel_view e fs r1 = rel_view e fs r \<and>
    rel_view e fs r2 = rel_view e fs r \<and> rel_view e fs r3 = rel_view e fs r"
  by (rule rank_bound_ok [OF assms(1-8)], rule select_bound_ok [OF assms(1-6)], rule range_count_bound_ok [OF assms(1-10)])
    blast

theorem rel_bound_statistics_correct_witness:
  "\<exists>r n sel m r1 r2 r3. rel_rank_bound trie_engine no_files (Some [5]) 1 [5, 9] r = (n, r1) \<and> n = 1 \<and>
    rel_select_bound trie_engine no_files (Some [5]) 1 0 r = (sel, r2) \<and> sel = Some [5, 2] \<and>
    rel_range_count_bound trie_engine no_files (Some [5]) 1 [5, 9] [5, 9] r = (m, r3) \<and> m = 0"
proof (rule one_row)
  fix r assume r: "rel_ok trie_engine no_files r" "rel_view trie_engine no_files r = {[5, 2]}" "r_arity r = 2"
  have m: "matching {[5, 2]} [5] = {[5, 2 :: u32]}" "{t. t = [5, 2 :: u32] \<and> t < [5, 9]} = {[5, 2]}"
    "{t. t = [5, 2 :: u32] \<and> [5, 9] \<le> t \<and> t < [5, 9]} = {}"
    by (auto simp: matching_def)
  obtain n sel m r1 r2 r3 where "rel_rank_bound trie_engine no_files (Some [5]) 1 [5, 9] r = (n, r1)"
    "rank_spec {[5, 2]} [5] [5, 9] n" "rel_select_bound trie_engine no_files (Some [5]) 1 0 r = (sel, r2)"
    "select_spec {[5, 2]} [5] 0 sel" "rel_range_count_bound trie_engine no_files (Some [5]) 1 [5, 9] [5, 9] r = (m, r3)"
    "range_count_spec {[5, 2]} [5] [5, 9] [5, 9] m"
    using rel_bound_statistics_correct [OF trie_engine_ok trie_create_ne trie_adds r(1), of 1 "[5]" "[5, 9]" "[5, 9]" 0] r(2,3)
    by auto
  then show ?thesis
    using m by (intro exI [of _ r] exI [of _ n] exI [of _ sel] exI [of _ m] exI [of _ r1] exI [of _ r2] exI [of _ r3])
      (simp add: rank_spec_def select_spec_def range_count_spec_def)
qed

text \<open>Rank and select are inverse to each other: the tuple at the rank of a tuple a reader sees is
  that tuple, whether the relation is read from memory or through a mapped view.\<close>

theorem rel_select_rank:
  assumes "engine_ok e" "dafsa_create e \<noteq> None" "adds_succeed e" "rel_ok e fs r" "t \<in> rel_view e fs r"
  shows "\<exists>n r1 r2. rel_rank e fs t r = Some (n, r1) \<and> n < card (rel_view e fs r) \<and>
    rel_select e fs n r1 = Some (Some t, r2) \<and> rel_view e fs r2 = rel_view e fs r"
proof -
  let ?R = "rel_view e fs r" and ?xs = "sorted_list_of_set (rel_view e fs r)"
  have fin: "finite ?R" by (rule finite_view [OF assms(4)])
  obtain i where i: "i < length ?xs" "?xs ! i = t"
    using fin assms(5) by (metis in_set_conv_nth set_sorted_list_of_set)
  have "{u \<in> ?R. u < t} = set (take i ?xs)"
    by (rule below_nth [OF fin i])
  then have c: "card {u \<in> ?R. u < t} = i"
    using i(1) by (simp add: distinct_card)
  obtain r1 where r1: "rel_rank e fs t r = Some (card {u \<in> ?R. u < t}, r1)" "rel_ok e fs r1" "rel_view e fs r1 = ?R"
    by (rule rank_ok [OF assms(1-4) view_lengths [OF assms(4,5)]]) blast
  obtain r2 where "rel_select e fs i r1 =
      Some (if i < card (rel_view e fs r1) then Some (sorted_list_of_set (rel_view e fs r1) ! i) else None, r2)"
    "rel_view e fs r2 = rel_view e fs r1"
    by (rule select_ok [OF assms(1-3) r1(2)]) blast
  with r1 c i fin show ?thesis by auto
qed

theorem rel_select_rank_witness:
  "\<exists>r n r1 r2. rel_rank trie_engine no_files [5, 2] r = Some (n, r1) \<and> rel_select trie_engine no_files n r1 = Some (Some [5, 2], r2)"
proof (rule one_row)
  fix r assume r: "rel_ok trie_engine no_files r" "rel_view trie_engine no_files r = {[5, 2]}"
  show ?thesis using rel_select_rank [OF trie_engine_ok trie_create_ne trie_adds r(1), of "[5, 2]"] r(2) by auto
qed

text \<open>Range enumeration hands out, in ascending order, exactly the tuples whose first column lies in
  \<open>[lo, hi)\<close>, until the callback answers non-zero, and returns how many; \<open>rel_has_col0\<close> says whether there
  is one with a given first column.\<close>

theorem rel_range_each_correct:
  assumes "engine_ok e" "dafsa_create e \<noteq> None" "adds_succeed e" "rel_ok e fs r" "card (rel_view e fs r) < UINT64_MAX"
  shows "\<exists>res r1 r2. rel_range_each e fs lo hi cb s r = Some (res, r1) \<and>
    range_each_spec (rel_view e fs r) lo hi cb s res \<and> rel_ok e fs r1 \<and> rel_view e fs r1 = rel_view e fs r \<and>
    rel_has_col0 e fs x r = Some (if \<exists>t \<in> rel_view e fs r. hd t = x then 1 else 0, r2) \<and> rel_view e fs r2 = rel_view e fs r"
  by (rule range_each_ok [OF assms], rule has_col0_ok [OF assms(1-4)]) blast

theorem rel_range_each_correct_witness:
  "\<exists>r r1. rel_range_each trie_engine no_files 5 6 (\<lambda>t s. (0, t # s)) [] r = Some ((1, [[5, 2]]), r1)"
proof (rule one_row)
  fix r assume r: "rel_ok trie_engine no_files r" "rel_view trie_engine no_files r = {[5, 2]}"
  have m: "col0_range {[5, 2]} 5 6 = {[5, 2 :: u32]}" by (auto simp: col0_range_def)
  have "card (rel_view trie_engine no_files r) < UINT64_MAX" by (simp add: r(2) UINT64_MAX_def)
  then show ?thesis
    using rel_range_each_correct [OF trie_engine_ok trie_create_ne trie_adds r(1), of 5 6 "\<lambda>t s. (0, t # s)" "[]"] m r(2)
    by (auto simp: range_each_spec_def deliver_def hand_out_def)
qed

end
