(* ===== verification/VRelation.thy ===== *)
theory VRelation
  imports RelationOrder RelationBulk
begin

text \<open>
  A variadic relation (\<^verbatim>\<open>src/vrelation.h\<close>, \<^verbatim>\<open>zig/src/vrelation.zig\<close>): one ordinary relation per arity
  that occurs, in the slots 1 to 8 of an array (slot 0 is unused).  Every operation routes to one
  slot or loops over the present ones in ascending order.  Its content is the union of the
  variants'; a tuple is found in the variant of its own length.  The outer \<open>None\<close> of a result is
  the panic or the unbounded probing of the relation operation it calls.
\<close>

definition MAX_VAR_ARITY :: nat where "MAX_VAR_ARITY = 8"

record vrelation =
  variants :: "relation option list"

definition arities_from :: "nat \<Rightarrow> nat list" where
  "arities_from a = [a..<Suc MAX_VAR_ARITY]"

definition put_variant :: "nat \<Rightarrow> relation \<Rightarrow> vrelation \<Rightarrow> vrelation" where
  "put_variant a r v = v\<lparr>variants := (variants v)[a := Some r]\<rparr>"

definition vrel_create :: "allocator \<Rightarrow> vrelation option" where
  "vrel_create al =
     (if \<not> al ''vrel_create'' 1 then None
      else Some \<lparr>variants = replicate (Suc MAX_VAR_ARITY) None\<rparr>)"

definition vrel_variant_or_null :: "vrelation \<Rightarrow> nat \<Rightarrow> relation option" where
  "vrel_variant_or_null v arity =
     (if arity = 0 \<or> arity > MAX_VAR_ARITY then None else variants v ! arity)"

definition vrel_variant :: "engine \<Rightarrow> allocator \<Rightarrow> vrelation \<Rightarrow> nat \<Rightarrow> relation option \<times> vrelation" where
  "vrel_variant e al v arity =
     (if arity = 0 \<or> arity > MAX_VAR_ARITY then (None, v)
      else case variants v ! arity of
        Some r \<Rightarrow> (Some r, v)
      | None \<Rightarrow>
          let v1 = v\<lparr>variants := (variants v)[arity := rel_create e al arity]\<rparr> in (variants v1 ! arity, v1))"

definition vrel_attach :: "vrelation \<Rightarrow> nat \<Rightarrow> relation option \<Rightarrow> int \<times> vrelation" where
  "vrel_attach v arity ropt =
     (case ropt of
        None \<Rightarrow> (-1, v)
      | Some r \<Rightarrow>
          if arity = 0 \<or> arity > MAX_VAR_ARITY then (-1, v)
          else if variants v ! arity \<noteq> None then (-1, v)
          else (0, put_variant arity r v))"

text \<open>
  The loop the operations share.  The body gets the arity, the relation in the slot and the loop's
  own state; it answers whether to leave the loop, and the relation and the state after it.
\<close>

type_synonym 's body = "nat \<Rightarrow> relation \<Rightarrow> 's \<Rightarrow> (bool \<times> relation \<times> 's) option"

fun each_variant :: "'s body \<Rightarrow> nat list \<Rightarrow> vrelation \<Rightarrow> 's \<Rightarrow> (vrelation \<times> 's) option" where
  "each_variant f [] v s = Some (v, s)"
| "each_variant f (a # as) v s =
     (case variants v ! a of
        None \<Rightarrow> each_variant f as v s
      | Some r \<Rightarrow>
          (case f a r s of
             None \<Rightarrow> None
           | Some (stop, r', s') \<Rightarrow>
               if stop then Some (put_variant a r' v, s') else each_variant f as (put_variant a r' v) s'))"

text \<open>The visitor has the relation by reference: it may change it.\<close>

definition vrel_foreach :: "(relation \<Rightarrow> nat \<Rightarrow> 's \<Rightarrow> relation \<times> 's) \<Rightarrow> vrelation \<Rightarrow> 's \<Rightarrow> (vrelation \<times> 's) option" where
  "vrel_foreach cb v s =
     each_variant (\<lambda>a r s. case cb r a s of (r', s') \<Rightarrow> Some (False, r', s')) (arities_from 1) v s"

definition vrel_any_idb :: "vrelation \<Rightarrow> int" where
  "vrel_any_idb v =
     (if \<exists>a \<in> set (arities_from 1). case variants v ! a of None \<Rightarrow> False | Some r \<Rightarrow> rel_is_idb r then 1 else 0)"

definition vrel_reset_views :: "engine \<Rightarrow> allocator \<Rightarrow> files \<Rightarrow> vrelation \<Rightarrow> (vrelation \<times> int) option" where
  "vrel_reset_views e al fs v =
     each_variant
       (\<lambda>a r s. case rel_reset_view e al fs r of
          None \<Rightarrow> None
        | Some (rc, r') \<Rightarrow> Some (if rc \<noteq> 0 then (True, r', -1) else (False, r', 0)))
       (arities_from 1) v 0"

text \<open>Membership goes to the one variant of the tuple's arity.\<close>

definition at_variant :: "(relation \<Rightarrow> (int \<times> relation) option) \<Rightarrow> vrelation \<Rightarrow> nat \<Rightarrow> (int \<times> vrelation) option" where
  "at_variant f v arity =
     (case vrel_variant_or_null v arity of
        None \<Rightarrow> Some (0, v)
      | Some r \<Rightarrow> (case f r of None \<Rightarrow> None | Some (rc, r') \<Rightarrow> Some (rc, put_variant arity r' v)))"

definition vrel_exact :: "engine \<Rightarrow> files \<Rightarrow> tuple \<Rightarrow> nat \<Rightarrow> vrelation \<Rightarrow> (int \<times> vrelation) option" where
  "vrel_exact e fs cols arity v = at_variant (rel_exact e fs cols) v arity"

definition vrel_exact_base :: "engine \<Rightarrow> files \<Rightarrow> tuple \<Rightarrow> nat \<Rightarrow> vrelation \<Rightarrow> (int \<times> vrelation) option" where
  "vrel_exact_base e fs cols arity v = at_variant (rel_exact_base e fs cols) v arity"

text \<open>The fan-out adds the counts up; an error of one variant is the result.\<close>

definition vrelPrefixImpl ::
  "engine \<Rightarrow> files \<Rightarrow> tuple option \<Rightarrow> nat \<Rightarrow> bool \<Rightarrow> 's enum_cb \<Rightarrow> 's \<Rightarrow> vrelation \<Rightarrow> (vrelation \<times> int \<times> 's) option" where
  "vrelPrefixImpl e fs leading k use_base cb s v =
     (if k > MAX_VAR_ARITY then Some (v, -1, s)
      else if k > 0 \<and> leading = None then Some (v, -1, s)
      else
        each_variant
          (\<lambda>a r ts. case ts of (tot, s) \<Rightarrow>
             (case (if use_base then rel_prefix_base e fs leading k cb s r else rel_prefix e fs leading k cb s r) of
                None \<Rightarrow> None
              | Some ((n, s'), r') \<Rightarrow> Some (if n < 0 then (True, r', -1, s') else (False, r', tot + n, s'))))
          (arities_from (if k > 0 then k else 1)) v (0, s))"

definition vrel_prefix ::
  "engine \<Rightarrow> files \<Rightarrow> tuple option \<Rightarrow> nat \<Rightarrow> 's enum_cb \<Rightarrow> 's \<Rightarrow> vrelation \<Rightarrow> (vrelation \<times> int \<times> 's) option" where
  "vrel_prefix e fs leading k cb s v = vrelPrefixImpl e fs leading k False cb s v"

definition vrel_prefix_base ::
  "engine \<Rightarrow> files \<Rightarrow> tuple option \<Rightarrow> nat \<Rightarrow> 's enum_cb \<Rightarrow> 's \<Rightarrow> vrelation \<Rightarrow> (vrelation \<times> int \<times> 's) option" where
  "vrel_prefix_base e fs leading k cb s v = vrelPrefixImpl e fs leading k True cb s v"

definition vrel_count :: "engine \<Rightarrow> files \<Rightarrow> vrelation \<Rightarrow> (vrelation \<times> nat) option" where
  "vrel_count e fs v =
     each_variant
       (\<lambda>a r tot. case rel_count e fs r of None \<Rightarrow> None | Some (n, r') \<Rightarrow> Some (False, r', u64_add tot n))
       (arities_from 1) v 0"

subsection \<open>Content and contracts\<close>

text \<open>Every variant is a well-formed relation of its slot's arity.\<close>

definition vrel_ok :: "engine \<Rightarrow> files \<Rightarrow> vrelation \<Rightarrow> bool" where
  "vrel_ok e fs v \<longleftrightarrow> length (variants v) = Suc MAX_VAR_ARITY \<and>
     (\<forall>a r. 1 \<le> a \<and> a \<le> MAX_VAR_ARITY \<and> variants v ! a = Some r \<longrightarrow> rel_ok e fs r \<and> r_arity r = a)"

definition variant_set :: "(relation \<Rightarrow> tuple set) \<Rightarrow> vrelation \<Rightarrow> nat \<Rightarrow> tuple set" where
  "variant_set f v a = (case vrel_variant_or_null v a of None \<Rightarrow> {} | Some r \<Rightarrow> f r)"

definition vrel_view :: "engine \<Rightarrow> files \<Rightarrow> vrelation \<Rightarrow> tuple set" where
  "vrel_view e fs v = (\<Union>a. variant_set (rel_view e fs) v a)"

definition vrel_base :: "engine \<Rightarrow> files \<Rightarrow> vrelation \<Rightarrow> tuple set" where
  "vrel_base e fs v = (\<Union>a. variant_set (rel_base e fs) v a)"

text \<open>A read leaves what readers of every slot see, and which slots are present.\<close>

definition same_vrelation :: "engine \<Rightarrow> files \<Rightarrow> vrelation \<Rightarrow> vrelation \<Rightarrow> bool" where
  "same_vrelation e fs v v' \<longleftrightarrow> (\<forall>a.
     variant_set (rel_view e fs) v' a = variant_set (rel_view e fs) v a \<and>
     (vrel_variant_or_null v' a = None \<longleftrightarrow> vrel_variant_or_null v a = None))"

text \<open>The fan-out: per arity, the matching tuples of that length in order, until the callback answers non-zero.\<close>

fun fan_out :: "'s enum_cb \<Rightarrow> tuple set \<Rightarrow> tuple \<Rightarrow> nat list \<Rightarrow> 's \<Rightarrow> nat \<times> 's" where
  "fan_out cb R bound [] s = (0, s)"
| "fan_out cb R bound (a # as) s =
     (case deliver cb (sorted_list_of_set (matching {t \<in> R. length t = a} bound)) s of (n, s1) \<Rightarrow>
        case fan_out cb R bound as s1 of (m, s2) \<Rightarrow> (n + m, s2))"

text \<open>What the header asks for: every matching tuple, by ascending arity and in order within each. The contract is for a
  callback that takes them all: one that stops early should end the whole enumeration and ends only that of the
  current variant.\<close>

definition matches_of :: "tuple set \<Rightarrow> tuple \<Rightarrow> nat list \<Rightarrow> tuple list" where
  "matches_of R bound as = concat (map (\<lambda>a. sorted_list_of_set (matching {t \<in> R. length t = a} bound)) as)"

definition vprefix_spec :: "tuple set \<Rightarrow> tuple \<Rightarrow> 's enum_cb \<Rightarrow> 's \<Rightarrow> int \<times> 's \<Rightarrow> bool" where
  "vprefix_spec R bound cb s res \<longleftrightarrow>
     (let ts = matches_of R bound (arities_from (max (length bound) 1)) in
      0 \<le> fst res \<and> fst res \<le> int (length ts) \<and>
      (takes_all cb ts s \<longrightarrow> res = (case deliver cb ts s of (n, s') \<Rightarrow> (int n, s'))))"

definition vexact_spec :: "tuple set \<Rightarrow> tuple \<Rightarrow> int \<Rightarrow> bool" where
  "vexact_spec R t rc \<longleftrightarrow> rc = (if t \<in> R then 1 else 0)"

definition variant_spec :: "engine \<Rightarrow> files \<Rightarrow> vrelation \<Rightarrow> nat \<Rightarrow> relation option \<times> vrelation \<Rightarrow> bool" where
  "variant_spec e fs v a res \<longleftrightarrow> (case res of (ropt, v') \<Rightarrow>
     vrel_variant_or_null v' a = ropt \<and> (\<forall>b. b \<noteq> a \<longrightarrow> vrel_variant_or_null v' b = vrel_variant_or_null v b) \<and>
     (case vrel_variant_or_null v a of
        Some r \<Rightarrow> ropt = Some r
      | None \<Rightarrow> (\<forall>r. ropt = Some r \<longrightarrow> r_state r = Owned \<and> \<not> rel_is_idb r \<and> r_wal r = None \<and> rel_view e fs r = {})))"

definition attach_spec :: "vrelation \<Rightarrow> nat \<Rightarrow> relation \<Rightarrow> int \<times> vrelation \<Rightarrow> bool" where
  "attach_spec v a r res \<longleftrightarrow> (case res of (rc, v') \<Rightarrow>
     if 1 \<le> a \<and> a \<le> MAX_VAR_ARITY \<and> vrel_variant_or_null v a = None
     then rc = 0 \<and> vrel_variant_or_null v' a = Some r \<and>
       (\<forall>b. b \<noteq> a \<longrightarrow> vrel_variant_or_null v' b = vrel_variant_or_null v b)
     else rc = -1 \<and> v' = v)"

text \<open>Reset: on success every variant's view is its base; the base of no variant changes either way.\<close>

definition reset_views_spec :: "engine \<Rightarrow> files \<Rightarrow> vrelation \<Rightarrow> vrelation \<times> int \<Rightarrow> bool" where
  "reset_views_spec e fs v res \<longleftrightarrow> (case res of (v', rc) \<Rightarrow>
     (rc = 0 \<or> rc = -1) \<and>
     (\<forall>a. (vrel_variant_or_null v' a = None \<longleftrightarrow> vrel_variant_or_null v a = None) \<and>
        variant_set (rel_base e fs) v' a = variant_set (rel_base e fs) v a \<and>
        (rc = 0 \<longrightarrow> variant_set (rel_dset e fs) v' a = variant_set (rel_base e fs) v a \<and>
           (\<forall>r. vrel_variant_or_null v' a = Some r \<longrightarrow> rel_is_idb r))))"

subsection \<open>The loop over the variants\<close>

lemma arities_from: "set (arities_from a) = {a..MAX_VAR_ARITY}" "distinct (arities_from a)"
  by (auto simp: arities_from_def)

text \<open>What a loop does to the array: slots outside \<open>A\<close> are untouched, those in \<open>A\<close> keep being
  present or absent and step by \<open>Q\<close>.\<close>

definition stepped :: "(nat \<Rightarrow> relation \<Rightarrow> relation \<Rightarrow> bool) \<Rightarrow> nat set \<Rightarrow> vrelation \<Rightarrow> vrelation \<Rightarrow> bool" where
  "stepped Q A v v' \<longleftrightarrow> length (variants v') = length (variants v) \<and>
     (\<forall>a < length (variants v). if a \<in> A then rel_option (Q a) (variants v ! a) (variants v' ! a)
        else variants v' ! a = variants v ! a)"

lemma steppedD:
  "stepped Q A v v' \<Longrightarrow> a < length (variants v) \<Longrightarrow> a \<in> A \<Longrightarrow> rel_option (Q a) (variants v ! a) (variants v' ! a)"
  "stepped Q A v v' \<Longrightarrow> a < length (variants v) \<Longrightarrow> a \<notin> A \<Longrightarrow> variants v' ! a = variants v ! a"
  by (simp_all add: stepped_def)

lemma put_variant_other: "a < length (variants v) \<Longrightarrow> a \<noteq> b \<Longrightarrow> variants (put_variant b r v) ! a = variants v ! a"
  by (simp add: put_variant_def)

lemma stepped_refl: "(\<And>a r. a \<in> A \<Longrightarrow> variants v ! a = Some r \<Longrightarrow> Q a r r) \<Longrightarrow> stepped Q A v v"
  by (auto simp: stepped_def intro!: option.rel_refl_strong)

lemma stepped_none:
  assumes "variants v ! a = None" "stepped Q A v v'" "a \<notin> A" "a < length (variants v)"
  shows "stepped Q (insert a A) v v'"
  using assms unfolding stepped_def by auto

lemma stepped_step:
  assumes "variants v ! a = Some r" "Q a r r'" "stepped Q A (put_variant a r' v) v'" "a \<notin> A" "a < length (variants v)"
  shows "stepped Q (insert a A) v v'"
  unfolding stepped_def
proof (intro conjI allI impI)
  show "length (variants v') = length (variants v)" using assms(3) by (simp add: stepped_def put_variant_def)
  fix b assume b: "b < length (variants v)"
  show "if b \<in> insert a A then rel_option (Q b) (variants v ! b) (variants v' ! b) else variants v' ! b = variants v ! b"
    using assms(1,2,4,5) b steppedD [OF assms(3), of b] put_variant_other [of b v a r']
    by (cases "b = a") (simp_all add: put_variant_def)
qed

text \<open>A body that never leaves the loop and whose state is a function of the slot.\<close>

lemma each_variant_fold:
  assumes "distinct as" "\<forall>a \<in> set as. a < length (variants v)"
    and "\<And>a r s. a \<in> set as \<Longrightarrow> variants v ! a = Some r \<Longrightarrow> \<exists>r'. f a r s = Some (False, r', h a s) \<and> Q a r r'"
    and "\<And>a s. a \<in> set as \<Longrightarrow> variants v ! a = None \<Longrightarrow> h a s = s"
  shows "\<exists>v'. each_variant f as v s = Some (v', fold h as s) \<and> stepped Q (set as) v v'"
  using assms
proof (induction as arbitrary: v s)
  case Nil
  then show ?case by (simp add: stepped_def)
next
  case (Cons a as)
  show ?case
  proof (cases "variants v ! a")
    case None
    have "\<exists>v'. each_variant f as v s = Some (v', fold h as s) \<and> stepped Q (set as) v v'"
      using Cons.prems by (intro Cons.IH) simp_all
    then show ?thesis using None Cons.prems stepped_none [OF None, of Q "set as"] by auto
  next
    case (Some r)
    obtain r' where r': "f a r s = Some (False, r', h a s)" "Q a r r'" using Cons.prems(3) [of a r s] Some by auto
    have other: "variants (put_variant a r' v) ! b = variants v ! b" if "b \<in> set as" for b
      using that Cons.prems(1,2) by (intro put_variant_other) auto
    have "\<exists>v'. each_variant f as (put_variant a r' v) (h a s) = Some (v', fold h as (h a s)) \<and>
        stepped Q (set as) (put_variant a r' v) v'"
    proof (rule Cons.IH)
      show "distinct as" "\<forall>b \<in> set as. b < length (variants (put_variant a r' v))"
        using Cons.prems by (simp_all add: put_variant_def)
      show "\<exists>r'. f b r1 s1 = Some (False, r', h b s1) \<and> Q b r1 r'"
        if "b \<in> set as" "variants (put_variant a r' v) ! b = Some r1" for b r1 s1
        using that other Cons.prems(3) [of b r1 s1] by simp
      show "h b s1 = s1" if "b \<in> set as" "variants (put_variant a r' v) ! b = None" for b s1
        using that other Cons.prems(4) [of b s1] by simp
    qed
    then show ?thesis
      using r' Some Cons.prems stepped_step [OF Some, of Q r' "set as"] by auto
  qed
qed

text \<open>A body that leaves on the first failure: every slot steps by the weak relation, and by the
  strong one when none failed.\<close>

definition or_stop :: "(relation \<Rightarrow> (int \<times> relation) option) \<Rightarrow> int body" where
  "or_stop g = (\<lambda>a r s. case g r of
      None \<Rightarrow> None
    | Some (rc, r') \<Rightarrow> Some (if rc \<noteq> 0 then (True, r', -1) else (False, r', 0)))"

lemma each_variant_or_stop:
  assumes "distinct as" "\<forall>a \<in> set as. a < length (variants v)"
    and "\<And>a r. a \<in> set as \<Longrightarrow> variants v ! a = Some r \<Longrightarrow> W a r r \<and>
      (\<exists>rc r'. g r = Some (rc, r') \<and> W a r r' \<and> (rc = 0 \<longrightarrow> G a r r') \<and> (B \<longrightarrow> rc = 0))"
  shows "\<exists>v' rc. each_variant (or_stop g) as v 0 = Some (v', rc) \<and> (rc = 0 \<or> rc = -1) \<and>
    stepped W (set as) v v' \<and> (rc = 0 \<longrightarrow> stepped G (set as) v v') \<and> (B \<longrightarrow> rc = 0)"
  using assms
proof (induction as arbitrary: v)
  case Nil
  then show ?case by (simp add: stepped_def)
next
  case (Cons a as)
  show ?case
  proof (cases "variants v ! a")
    case None
    have "\<exists>v' rc. each_variant (or_stop g) as v 0 = Some (v', rc) \<and> (rc = 0 \<or> rc = -1) \<and>
        stepped W (set as) v v' \<and> (rc = 0 \<longrightarrow> stepped G (set as) v v') \<and> (B \<longrightarrow> rc = 0)"
      using Cons.prems by (intro Cons.IH) simp_all
    then show ?thesis using None Cons.prems stepped_none [OF None] by auto
  next
    case (Some r)
    obtain rc r' where r': "g r = Some (rc, r')" "W a r r'" "rc = 0 \<longrightarrow> G a r r'" "B \<longrightarrow> rc = 0" using Cons.prems(3) [of a r] Some by auto
    have other: "variants (put_variant a r' v) ! b = variants v ! b" if "b \<in> set as" for b
      using that Cons.prems(1,2) by (intro put_variant_other) auto
    show ?thesis
    proof (cases "rc = 0")
      case False
      have "stepped W (set as) (put_variant a r' v) (put_variant a r' v)"
        using other Cons.prems(3) by (intro stepped_refl) auto
      then have "stepped W (set (a # as)) v (put_variant a r' v)"
        using stepped_step [of v a r W r' "set as" "put_variant a r' v"] Some r' Cons.prems(1,2) by simp
      then show ?thesis using False r' Some by (simp add: or_stop_def)
    next
      case True
      have "\<exists>v' rc. each_variant (or_stop g) as (put_variant a r' v) 0 = Some (v', rc) \<and> (rc = 0 \<or> rc = -1) \<and>
        stepped W (set as) (put_variant a r' v) v' \<and> (rc = 0 \<longrightarrow> stepped G (set as) (put_variant a r' v) v') \<and> (B \<longrightarrow> rc = 0)"
        using Cons.prems other by (intro Cons.IH) (simp_all add: put_variant_def)
      then show ?thesis
        using r' True Some Cons.prems stepped_step [OF Some, of W r' "set as"] stepped_step [OF Some, of G r' "set as"]
        by (auto simp: or_stop_def)
    qed
  qed
qed

lemma vrel_reset_views_loop:
  "vrel_reset_views e al fs v = each_variant (or_stop (rel_reset_view e al fs)) (arities_from 1) v 0"
  by (simp add: vrel_reset_views_def or_stop_def)

subsection \<open>Well-formed families\<close>

lemma vrel_okD: "vrel_ok e fs v \<Longrightarrow> 1 \<le> a \<Longrightarrow> a \<le> MAX_VAR_ARITY \<Longrightarrow> variants v ! a = Some r \<Longrightarrow> rel_ok e fs r \<and> r_arity r = a"
  by (simp add: vrel_ok_def)

lemma vrel_ok_slot: "vrel_ok e fs v \<Longrightarrow> vrel_variant_or_null v a = Some r \<Longrightarrow>
    rel_ok e fs r \<and> r_arity r = a \<and> 1 \<le> a \<and> a \<le> MAX_VAR_ARITY \<and> a < length (variants v) \<and> variants v ! a = Some r"
proof -
  assume v: "vrel_ok e fs v" "vrel_variant_or_null v a = Some r"
  then have "1 \<le> a" "a \<le> MAX_VAR_ARITY" "variants v ! a = Some r"
    by (auto simp: vrel_variant_or_null_def split: if_splits)
  with vrel_okD [OF v(1) this] v(1) show ?thesis by (simp add: vrel_ok_def)
qed

lemma vrel_ok_length: "vrel_ok e fs v \<Longrightarrow> a \<le> MAX_VAR_ARITY \<Longrightarrow> a < length (variants v)"
  by (simp add: vrel_ok_def)

lemma slot_eq: "1 \<le> a \<Longrightarrow> a \<le> MAX_VAR_ARITY \<Longrightarrow> vrel_variant_or_null v a = variants v ! a"
  by (simp add: vrel_variant_or_null_def)

text \<open>The content of one slot is the tuples of its length.\<close>

lemma variant_rows:
  assumes "vrel_ok e fs v"
  shows "{t \<in> vrel_view e fs v. length t = a} = variant_set (rel_view e fs) v a"
    "{t \<in> vrel_base e fs v. length t = a} = variant_set (rel_base e fs) v a"
proof -
  have view: "length t = b" if "t \<in> variant_set (rel_view e fs) v b" for t b
    using that vrel_ok_slot [OF assms, of b] view_lengths [of e fs _ t]
    by (auto simp: variant_set_def split: option.splits)
  have base: "length t = b" if "t \<in> variant_set (rel_base e fs) v b" for t b
    using that vrel_ok_slot [OF assms, of b]
    by (auto simp: variant_set_def rel_base_def mem_tuples_def disk_tuples_def dtuples_def split: option.splits if_splits)
  show "{t \<in> vrel_view e fs v. length t = a} = variant_set (rel_view e fs) v a"
    using view by (auto simp: vrel_view_def)
  show "{t \<in> vrel_base e fs v. length t = a} = variant_set (rel_base e fs) v a"
    using base by (auto simp: vrel_base_def)
qed

text \<open>Loops whose steps keep the relations well formed keep the family well formed, and carry over what
  they keep of each slot.\<close>

lemma stepped_slot:
  assumes "stepped Q A v v'" "vrel_ok e fs v" "\<And>a r. a \<notin> A \<Longrightarrow> Q a r r"
  shows "rel_option (Q a) (vrel_variant_or_null v a) (vrel_variant_or_null v' a)"
proof (cases "a = 0 \<or> MAX_VAR_ARITY < a")
  case False
  then have "a < length (variants v)" using vrel_ok_length [OF assms(2), of a] by simp
  then show ?thesis
    using False steppedD [OF assms(1), of a] assms(3) [of a]
    by (cases "a \<in> A") (simp_all add: vrel_variant_or_null_def option.rel_refl)
qed (simp add: vrel_variant_or_null_def)

lemma stepped_ok:
  assumes "stepped Q A v v'" "vrel_ok e fs v"
    and "\<And>a r r'. a \<in> A \<Longrightarrow> Q a r r' \<Longrightarrow> rel_ok e fs r \<Longrightarrow> r_arity r = a \<Longrightarrow> rel_ok e fs r' \<and> r_arity r' = r_arity r"
  shows "vrel_ok e fs v'"
proof -
  have "rel_ok e fs r' \<and> r_arity r' = a" if a: "1 \<le> a" "a \<le> MAX_VAR_ARITY" "variants v' ! a = Some r'" for a r'
  proof (cases "a \<in> A")
    case True
    then have "rel_option (Q a) (variants v ! a) (Some r')"
      using steppedD(1) [OF assms(1) vrel_ok_length [OF assms(2) a(2)]] a(3) by simp
    then obtain r where "variants v ! a = Some r" "Q a r r'" by (cases "variants v ! a") simp_all
    then show ?thesis using assms(3) [OF True, of r r'] assms(2) a by (auto simp: vrel_ok_def)
  next
    case False
    then have "variants v ! a = Some r'"
      using steppedD(2) [OF assms(1) vrel_ok_length [OF assms(2) a(2)]] a(3) by simp
    then show ?thesis using assms(2) a by (auto simp: vrel_ok_def)
  qed
  moreover have "length (variants v') = Suc MAX_VAR_ARITY" using assms(1,2) by (simp add: stepped_def vrel_ok_def)
  ultimately show ?thesis unfolding vrel_ok_def by blast
qed

subsection \<open>The arity of a relation never changes\<close>

lemma ensure_arity:
  "r_arity (snd (relEnsureOwned e fs r)) = r_arity r" "r_arity (snd (relEnsureReadable e fs r)) = r_arity r"
proof -
  show owned: "r_arity (snd (relEnsureOwned e fs r)) = r_arity r"
    by (simp add: relEnsureOwned_def relViewClose_def Let_def split: option.split)
  show "r_arity (snd (relEnsureReadable e fs r)) = r_arity r"
    using owned by (auto simp: relEnsureReadable_def relViewOpen_def split: option.splits)
qed

lemma ov_fold_arity: "r_arity (snd (ov_fold e rows r)) = r_arity r"
  by (induction e rows r rule: ov_fold.induct) (simp_all add: Let_def split: prod.split option.split)

lemma consolidate_arity: "r_arity (ovConsolidateForRead e fs r) = r_arity r"
  using ensure_arity(1) [of e fs r] ov_fold_arity [of e]
  by (auto simp: ovConsolidateForRead_def rel_overlay_flush_def mutated_def rel_touch_def split: option.split prod.split)
    (metis snd_conv)+

lemma rel_prefix_arity: "rel_prefix e fs l k cb s r = Some (res, r') \<Longrightarrow> r_arity r' = r_arity r"
  using ensure_arity(2) [of e fs r]
  by (auto simp: rel_prefix_def Let_def consolidate_arity split: prod.splits if_splits option.splits)

subsection \<open>Reads\<close>

lemma put_ok:
  assumes "vrel_ok e fs v" "rel_ok e fs r'" "r_arity r' = a"
  shows "vrel_ok e fs (put_variant a r' v)"
proof -
  have "rel_ok e fs r \<and> r_arity r = b"
    if b: "1 \<le> b" "b \<le> MAX_VAR_ARITY" "variants (put_variant a r' v) ! b = Some r" for b r
  proof (cases "b = a")
    case True
    then show ?thesis using b assms(2,3) vrel_ok_length [OF assms(1) b(2)] by (simp add: put_variant_def)
  next
    case False
    then show ?thesis using b vrel_okD [OF assms(1) b(1,2)] by (simp add: put_variant_def)
  qed
  moreover have "length (variants (put_variant a r' v)) = Suc MAX_VAR_ARITY"
    using assms(1) by (simp add: vrel_ok_def put_variant_def)
  ultimately show ?thesis unfolding vrel_ok_def by blast
qed

lemma put_slot: "1 \<le> a \<Longrightarrow> a < length (variants v) \<Longrightarrow> length (variants v) = Suc MAX_VAR_ARITY \<Longrightarrow>
    vrel_variant_or_null (put_variant a r v) b = (if b = a then Some r else vrel_variant_or_null v b)"
  by (simp add: put_variant_def vrel_variant_or_null_def)

text \<open>A membership test at the variant of the tuple's length, for the view and for the base.\<close>

lemma at_variant_ok:
  assumes "vrel_ok e fs v"
    and "\<And>r. rel_ok e fs r \<Longrightarrow> r_arity r = length t \<Longrightarrow> \<exists>rc r'. f r = Some (rc, r') \<and> rc = (if t \<in> R r then 1 else 0) \<and>
      rel_ok e fs r' \<and> same_relation e fs r r'"
    and "{u \<in> S. length u = length t} = variant_set R v (length t)"
  shows "\<exists>rc v'. at_variant f v (length t) = Some (rc, v') \<and> vexact_spec S t rc \<and> vrel_ok e fs v' \<and> same_vrelation e fs v v'"
proof (cases "vrel_variant_or_null v (length t)")
  case None
  then have "t \<notin> S" using assms(3) by (auto simp: variant_set_def)
  then show ?thesis using None assms(1) by (simp add: at_variant_def vexact_spec_def same_vrelation_def)
next
  case (Some r)
  note slot = vrel_ok_slot [OF assms(1) Some]
  obtain rc r' where r': "f r = Some (rc, r')" "rc = (if t \<in> R r then 1 else 0)" "rel_ok e fs r'" "same_relation e fs r r'"
    using assms(2) [of r] slot by blast
  have "t \<in> S \<longleftrightarrow> t \<in> R r" using assms(3) Some by (auto simp: variant_set_def set_eq_iff)
  moreover have "vrel_ok e fs (put_variant (length t) r' v)"
    using put_ok [OF assms(1) r'(3), of "length t"] r'(4) slot by (simp add: same_relation_def)
  moreover have "same_vrelation e fs v (put_variant (length t) r' v)"
    using put_slot [of "length t" v r'] slot assms(1) Some same_relation_view [OF r'(4)]
    by (simp add: same_vrelation_def variant_set_def vrel_ok_def)
  ultimately show ?thesis using r'(1,2) Some by (simp add: at_variant_def vexact_spec_def)
qed

lemma vrel_exact_ok:
  assumes "engine_ok e" "dafsa_create e \<noteq> None" "vrel_ok e fs v"
  shows "\<exists>rc v'. vrel_exact e fs t (length t) v = Some (rc, v') \<and> vexact_spec (vrel_view e fs v) t rc \<and>
      vrel_ok e fs v' \<and> same_vrelation e fs v v'"
    "\<exists>rc v'. vrel_exact_base e fs t (length t) v = Some (rc, v') \<and> vexact_spec (vrel_base e fs v) t rc \<and>
      vrel_ok e fs v' \<and> same_vrelation e fs v v'"
proof -
  have f: "\<exists>rc r'. rel_exact e fs t r = Some (rc, r') \<and> rc = (if t \<in> rel_view e fs r then 1 else 0) \<and>
      rel_ok e fs r' \<and> same_relation e fs r r'" if "rel_ok e fs r" "r_arity r = length t" for r
    by (rule exact_ok [OF assms(1,2) that(1) that(2) [symmetric]]) blast
  have g: "\<exists>rc r'. rel_exact_base e fs t r = Some (rc, r') \<and> rc = (if t \<in> rel_base e fs r then 1 else 0) \<and>
      rel_ok e fs r' \<and> same_relation e fs r r'" if "rel_ok e fs r" "r_arity r = length t" for r
    by (rule exact_base_ok [OF assms(1,2) that(1) that(2) [symmetric]]) blast
  show "\<exists>rc v'. vrel_exact e fs t (length t) v = Some (rc, v') \<and> vexact_spec (vrel_view e fs v) t rc \<and>
      vrel_ok e fs v' \<and> same_vrelation e fs v v'"
    unfolding vrel_exact_def by (rule at_variant_ok [OF assms(3) f variant_rows(1) [OF assms(3)]])
  show "\<exists>rc v'. vrel_exact_base e fs t (length t) v = Some (rc, v') \<and> vexact_spec (vrel_base e fs v) t rc \<and>
      vrel_ok e fs v' \<and> same_vrelation e fs v v'"
    unfolding vrel_exact_base_def by (rule at_variant_ok [OF assms(3) g variant_rows(2) [OF assms(3)]])
qed

definition fan_step :: "'s enum_cb \<Rightarrow> tuple set \<Rightarrow> tuple \<Rightarrow> nat \<Rightarrow> int \<times> 's \<Rightarrow> int \<times> 's" where
  "fan_step cb R bound a ts = (case ts of (tot, s) \<Rightarrow>
     case deliver cb (sorted_list_of_set (matching {t \<in> R. length t = a} bound)) s of (n, s1) \<Rightarrow> (tot + int n, s1))"

lemma fold_fan_out:
  "fold (fan_step cb R bound) as (tot, s) = (case fan_out cb R bound as s of (n, s') \<Rightarrow> (tot + int n, s'))"
  by (induction as arbitrary: tot s) (simp_all add: fan_step_def split: prod.split)

lemma fan_out_bound: "fst (fan_out cb R bound as s) \<le> length (matches_of R bound as)"
proof (induction as arbitrary: s)
  case (Cons a as)
  let ?ts = "sorted_list_of_set (matching {t \<in> R. length t = a} bound)"
  obtain n s1 where d: "deliver cb ?ts s = (n, s1)" by fastforce
  obtain m s2 where f: "fan_out cb R bound as s1 = (m, s2)" by fastforce
  show ?case using deliver_bound [of cb ?ts s] Cons.IH [of s1]
    by (simp add: d f matches_of_def)
qed (simp add: matches_of_def)

lemma fan_out_deliver:
  "takes_all cb (matches_of R bound as) s \<Longrightarrow> fan_out cb R bound as s = deliver cb (matches_of R bound as) s"
proof (induction as arbitrary: s)
  case Nil
  then show ?case by (simp add: matches_of_def deliver_def)
next
  case (Cons a as)
  let ?ts = "sorted_list_of_set (matching {t \<in> R. length t = a} bound)" and ?us = "matches_of R bound as"
  have cat: "matches_of R bound (a # as) = ?ts @ ?us" by (simp add: matches_of_def)
  obtain stop n s1 where d: "until (hand_out cb) ?ts (0, s) = (stop, n, s1)" by (rule prod_cases3)
  obtain stop' m s2 where u: "until (hand_out cb) ?us (0, s1) = (stop', m, s2)" by (rule prod_cases3)
  have n: "until (hand_out cb) ?us (n, s1) = (stop', n + m, s2)" by (subst until_count) (simp add: u)
  have on: "\<not> stop" "\<not> stop'"
    using Cons.prems unfolding cat takes_all_def until_append d by (simp_all add: n split: if_splits)
  have "fan_out cb R bound as s1 = deliver cb ?us s1" by (rule Cons.IH) (simp add: takes_all_def u on(2))
  then show ?case using on(1) unfolding cat deliver_def by (simp add: d until_append n u deliver_def)
qed

lemma fan_out_spec:
  "as = arities_from (max (length bound) 1) \<Longrightarrow>
   vprefix_spec R bound cb s (case fan_out cb R bound as s of (n, s') \<Rightarrow> (int n, s'))"
  using fan_out_bound [of cb R bound as s] fan_out_deliver [of cb R bound as s]
  by (auto simp: vprefix_spec_def Let_def split: prod.split)

text \<open>The fan-out, for the view and for the base.\<close>

lemma vprefix_ok:
  assumes "vrel_ok e fs v" "k \<le> length l" "k \<le> MAX_VAR_ARITY"
    and "\<And>r s. rel_ok e fs r \<Longrightarrow> k \<le> r_arity r \<Longrightarrow> \<exists>res r'.
      (if b then rel_prefix_base e fs (Some l) k cb s r else rel_prefix e fs (Some l) k cb s r) = Some (res, r') \<and>
      prefix_spec (R r) (take k l) cb s res \<and> rel_ok e fs r' \<and> r_arity r' = r_arity r \<and> rel_view e fs r' = rel_view e fs r"
    and "\<And>a. {u \<in> S. length u = a} = variant_set R v a"
  shows "\<exists>v' res. vrelPrefixImpl e fs (Some l) k b cb s v = Some (v', res) \<and> vprefix_spec S (take k l) cb s res \<and>
    vrel_ok e fs v' \<and> same_vrelation e fs v v'"
proof -
  let ?as = "arities_from (if k > 0 then k else 1)"
  define Q where "Q = (\<lambda>(a :: nat) r r'. rel_view e fs r' = rel_view e fs r \<and> (rel_ok e fs r \<longrightarrow> rel_ok e fs r' \<and> r_arity r' = r_arity r))"
  have q: "Q a r r" for a r by (simp add: Q_def)
  have as: "?as = arities_from (max (length (take k l)) 1)" using assms(2) by simp
  have slot: "variants v ! a = vrel_variant_or_null v a" if "a \<in> set ?as" for a
    using that by (intro slot_eq [symmetric]) (auto simp: arities_from split: if_splits)
  have "\<exists>v'. each_variant (\<lambda>a r ts. case ts of (tot, s) \<Rightarrow>
             (case (if b then rel_prefix_base e fs (Some l) k cb s r else rel_prefix e fs (Some l) k cb s r) of
                None \<Rightarrow> None
              | Some ((n, s'), r') \<Rightarrow> Some (if n < 0 then (True, r', -1, s') else (False, r', tot + n, s'))))
          ?as v (0, s) = Some (v', fold (fan_step cb S (take k l)) ?as (0, s)) \<and> stepped Q (set ?as) v v'"
  proof (rule each_variant_fold, goal_cases)
    case 1
    show ?case by (rule arities_from(2))
  next
    case 2
    show ?case using assms(1) by (auto simp: arities_from vrel_ok_def)
  next
    case (3 a r ts)
    then have r: "vrel_variant_or_null v a = Some r" using slot by simp
    obtain tot s1 where ts: "ts = (tot, s1)" by fastforce
    have "rel_ok e fs r" "k \<le> r_arity r"
      using vrel_ok_slot [OF assms(1) r] 3(1) by (auto simp: arities_from split: if_splits)
    from assms(4) [OF this, of s1] obtain res r' where r':
      "(if b then rel_prefix_base e fs (Some l) k cb s1 r else rel_prefix e fs (Some l) k cb s1 r) = Some (res, r')"
      "prefix_spec (R r) (take k l) cb s1 res" "rel_ok e fs r'" "r_arity r' = r_arity r" "rel_view e fs r' = rel_view e fs r"
      by blast
    have "{u \<in> S. length u = a} = R r" using assms(5) [of a] r by (simp add: variant_set_def)
    then show ?case
      using r' ts by (auto simp: prefix_spec_def fan_step_def Q_def split: prod.splits)
  next
    case (4 a ts)
    then have "{u \<in> S. length u = a} = {}" using assms(5) [of a] slot by (simp add: variant_set_def)
    then have "matching {u \<in> S. length u = a} (take k l) = {}" by (auto simp: matching_def)
    then show ?case by (simp add: fan_step_def deliver_def split: prod.split)
  qed
  then obtain v' where v': "vrelPrefixImpl e fs (Some l) k b cb s v = Some (v', fold (fan_step cb S (take k l)) ?as (0, s))"
    "stepped Q (set ?as) v v'"
    using assms(3) by (auto simp: vrelPrefixImpl_def not_less)
  have "vrel_ok e fs v'" by (rule stepped_ok [OF v'(2) assms(1)]) (simp add: Q_def)
  moreover have "same_vrelation e fs v v'"
    unfolding same_vrelation_def
  proof (intro allI)
    fix a
    have "rel_option (Q a) (vrel_variant_or_null v a) (vrel_variant_or_null v' a)"
      by (rule stepped_slot [OF v'(2) assms(1)]) (rule q)
    then show "variant_set (rel_view e fs) v' a = variant_set (rel_view e fs) v a \<and>
        (vrel_variant_or_null v' a = None \<longleftrightarrow> vrel_variant_or_null v a = None)"
      by (cases "vrel_variant_or_null v a"; cases "vrel_variant_or_null v' a") (simp_all add: variant_set_def Q_def)
  qed
  moreover have "vprefix_spec S (take k l) cb s (fold (fan_step cb S (take k l)) ?as (0, s))"
    unfolding fold_fan_out using fan_out_spec [OF as, of S cb s] by (simp split: prod.splits)
  ultimately show ?thesis using v'(1) by blast
qed

subsection \<open>Structure\<close>

lemma vrel_create_ok:
  assumes "vrel_create al = Some v"
  shows "vrel_ok e fs v" "vrel_view e fs v = {}" "vrel_base e fs v = {}" "vrel_variant_or_null v a = None"
proof -
  have v: "variants v = replicate (Suc MAX_VAR_ARITY) None"
    using assms by (auto simp: vrel_create_def split: if_splits)
  have none: "vrel_variant_or_null v b = None" for b
    by (simp add: v vrel_variant_or_null_def del: replicate.simps)
  then show "vrel_view e fs v = {}" "vrel_base e fs v = {}" "vrel_variant_or_null v a = None"
    by (simp_all add: vrel_view_def vrel_base_def variant_set_def)
  show "vrel_ok e fs v" using v by (auto simp: vrel_ok_def simp del: replicate.simps)
qed

lemma vrel_variant_ok:
  assumes "engine_ok e" "vrel_ok e fs v" "vrel_variant e al v a = (ropt, v')"
  shows "variant_spec e fs v a (ropt, v')" "vrel_ok e fs v'"
proof -
  have "variant_spec e fs v a (ropt, v') \<and> vrel_ok e fs v'"
  proof (cases "a = 0 \<or> a > MAX_VAR_ARITY \<or> variants v ! a \<noteq> None")
    case True
    then have "ropt = vrel_variant_or_null v a" "v' = v"
      using assms(3) by (auto simp: vrel_variant_def vrel_variant_or_null_def split: if_splits option.splits)
    then show ?thesis using assms(2) by (simp add: variant_spec_def split: option.split)
  next
    case False
    then have a: "1 \<le> a" "a \<le> MAX_VAR_ARITY" "variants v ! a = None" by auto
    note len = vrel_ok_length [OF assms(2) a(2)]
    have res: "ropt = rel_create e al a" "v' = v\<lparr>variants := (variants v)[a := rel_create e al a]\<rparr>"
      using assms(3) a len by (auto simp: vrel_variant_def Let_def)
    have ok: "vrel_ok e fs v'"
    proof (cases ropt)
      case None
      then have "v' = v" using res a len by (simp add: list_update_same_conv)
      then show ?thesis using assms(2) by simp
    next
      case (Some r)
      then have "v' = put_variant a r v" using res by (simp add: put_variant_def)
      then show ?thesis using put_ok [OF assms(2)] rel_create_ok(1,2) [OF assms(1), of al a r] res(1) Some by simp
    qed
    have "vrel_variant_or_null v a = None" using a by (simp add: vrel_variant_or_null_def)
    moreover have "vrel_variant_or_null v' b = (if b = a then ropt else vrel_variant_or_null v b)" for b
      using res a len by (simp add: vrel_variant_or_null_def)
    moreover have "r_wal r = None" if "rel_create e al a = Some r" for r
      using that by (auto simp: rel_create_def zeroed_def split: if_splits option.splits)
    ultimately show ?thesis
      using ok res(1) rel_create_ok [OF assms(1), of al a] by (auto simp: variant_spec_def)
  qed
  then show "variant_spec e fs v a (ropt, v')" "vrel_ok e fs v'" by simp_all
qed

lemma vrel_attach_ok:
  assumes "vrel_ok e fs v" "rel_ok e fs r" "r_arity r = a"
  shows "attach_spec v a r (vrel_attach v a (Some r)) \<and> vrel_ok e fs (snd (vrel_attach v a (Some r)))"
proof (cases "1 \<le> a \<and> a \<le> MAX_VAR_ARITY \<and> vrel_variant_or_null v a = None")
  case True
  then have "vrel_attach v a (Some r) = (0, put_variant a r v)"
    using slot_eq [of a v] by (auto simp: vrel_attach_def)
  then show ?thesis
    using True put_ok [OF assms] put_slot [of a v r] vrel_ok_length [OF assms(1), of a] assms(1)
    by (simp add: attach_spec_def vrel_ok_def)
next
  case False
  then have "vrel_attach v a (Some r) = (-1, v)"
    by (auto simp: vrel_attach_def vrel_variant_or_null_def split: if_splits)
  then show ?thesis using False assms(1) by (auto simp: attach_spec_def)
qed

lemma vrel_reset_ok:
  assumes "engine_ok e" "dafsa_create e \<noteq> None" "vrel_ok e fs v" "\<forall>a. rows_fit al (variant_set (rel_base e fs) v a)"
  shows "\<exists>res. vrel_reset_views e al fs v = Some res \<and> reset_views_spec e fs v res \<and> vrel_ok e fs (fst res) \<and>
    (builds_succeed e \<longrightarrow> snd res = 0)"
proof -
  let ?as = "arities_from 1"
  define W where "W = (\<lambda>(a :: nat) r r'. rel_ok e fs r' \<and> r_arity r' = r_arity r \<and> rel_base e fs r' = rel_base e fs r)"
  define G where "G = (\<lambda>(a :: nat) r r'. rel_is_idb r' \<and> rel_dset e fs r' = rel_base e fs r)"
  have as: "set ?as = {1..MAX_VAR_ARITY}" "distinct ?as" by (simp_all add: arities_from)
  have slot: "vrel_variant_or_null v a = variants v ! a" if "a \<in> set ?as" for a
    by (rule slot_eq) (use that in \<open>auto simp: as(1) simp del: One_nat_def\<close>)
  have body: "\<exists>rc r'. rel_reset_view e al fs r = Some (rc, r') \<and> W a r r' \<and> (rc = 0 \<longrightarrow> G a r r') \<and> (builds_succeed e \<longrightarrow> rc = 0)"
    if "a \<in> set ?as" "variants v ! a = Some r" for a r
  proof -
    have r: "rel_ok e fs r" "rows_fit al (rel_base e fs r)"
      using vrel_ok_slot [OF assms(3), of a r] slot that assms(4) [rule_format, of a] by (simp_all add: variant_set_def)
    obtain rc r' where r': "rel_reset_view e al fs r = Some (rc, r')" "shrinks e fs r r'"
      "reset_view_spec e fs r (rc, r')" "builds_succeed e \<longrightarrow> rc = 0"
      using reset_ok [OF assms(1,2) r(1), of al] r(2) by blast
    have "W a r r' \<and> (rc = 0 \<longrightarrow> G a r r')"
      using r'(2,3) by (auto simp: W_def G_def shrinks_def reset_view_spec_def same_relation_def)
    then show ?thesis using r'(1,4) by blast
  qed
  have refl: "W a r r" if "a \<in> set ?as" "variants v ! a = Some r" for a r
    using vrel_ok_slot [OF assms(3), of a r] slot that by (simp add: W_def)
  have step: "W a r r \<and> (\<exists>rc r'. rel_reset_view e al fs r = Some (rc, r') \<and> W a r r' \<and> (rc = 0 \<longrightarrow> G a r r') \<and> (builds_succeed e \<longrightarrow> rc = 0))"
    if "a \<in> set ?as" "variants v ! a = Some r" for a r
    using body [OF that] refl [OF that] by blast
  have inside: "\<forall>a \<in> set ?as. a < length (variants v)" using vrel_ok_length [OF assms(3)] as(1) by auto
  obtain v' rc where loop: "each_variant (or_stop (rel_reset_view e al fs)) ?as v 0 = Some (v', rc)" "rc = 0 \<or> rc = -1"
    "stepped W (set ?as) v v'" "rc = 0 \<longrightarrow> stepped G (set ?as) v v'" "builds_succeed e \<longrightarrow> rc = 0"
    using each_variant_or_stop [where W = W and G = G and B = "builds_succeed e", OF as(2) inside step] by blast
  have ok: "vrel_ok e fs v'" by (rule stepped_ok [OF loop(3) assms(3)]) (simp add: W_def)
  have at: "rel_option (Q a) (vrel_variant_or_null v a) (vrel_variant_or_null v' a)" if "stepped Q (set ?as) v v'" for Q a
  proof (cases "1 \<le> a \<and> a \<le> MAX_VAR_ARITY")
    case True
    then show ?thesis
      using steppedD(1) [OF that vrel_ok_length [OF assms(3)], of a] as(1) by (simp add: slot_eq)
  qed (auto simp: vrel_variant_or_null_def)
  have spec: "reset_views_spec e fs v (v', rc)"
    unfolding reset_views_spec_def prod.case
  proof (intro conjI allI loop(2), goal_cases)
    case (1 a)
    show ?case using at [OF loop(3), of a] by (cases "vrel_variant_or_null v a"; cases "vrel_variant_or_null v' a") simp_all
  next
    case (2 a)
    show ?case using at [OF loop(3), of a]
      by (cases "vrel_variant_or_null v a"; cases "vrel_variant_or_null v' a") (simp_all add: variant_set_def W_def)
  next
    case (3 a)
    show ?case using at [of G a] loop(4)
      by (cases "vrel_variant_or_null v a"; cases "vrel_variant_or_null v' a") (auto simp: variant_set_def G_def)
  qed
  from spec ok loop(1,5) show ?thesis by (simp add: vrel_reset_views_loop)
qed

lemma vrel_prefix_ok:
  assumes "engine_ok e" "dafsa_create e \<noteq> None" "adds_succeed e" "vrel_ok e fs v" "k \<le> MAX_VAR_ARITY" "k \<le> length l"
  shows "\<exists>v' res. vrel_prefix e fs (Some l) k cb s v = Some (v', res) \<and> vprefix_spec (vrel_view e fs v) (take k l) cb s res \<and>
    vrel_ok e fs v' \<and> same_vrelation e fs v v'"
proof -
  have view: "\<exists>res r'. (if False then rel_prefix_base e fs (Some l) k cb s r else rel_prefix e fs (Some l) k cb s r) = Some (res, r') \<and>
      prefix_spec (rel_view e fs r) (take k l) cb s res \<and> rel_ok e fs r' \<and> r_arity r' = r_arity r \<and> rel_view e fs r' = rel_view e fs r"
    if r: "rel_ok e fs r" "k \<le> r_arity r" for r s
  proof -
    obtain res r' where r': "rel_prefix e fs (Some l) k cb s r = Some (res, r')" "rel_ok e fs r'"
      "rel_view e fs r' = rel_view e fs r" "prefix_spec (rel_view e fs r) (take k l) cb s res"
      by (rule prefix_ok [OF assms(1-3) r assms(6), of cb s])
    show ?thesis by (intro exI [of _ res] exI [of _ r'] conjI) (simp_all add: r' rel_prefix_arity [OF r'(1)])
  qed
  show ?thesis
    unfolding vrel_prefix_def by (intro vprefix_ok [OF assms(4,6,5) view variant_rows(1) [OF assms(4)]])
qed

subsection \<open>Properties\<close>

text \<open>C36: reading a variadic relation, given memory to fold pending rows in. A membership test answers for the tuple's own
  arity alone, an absent or impossible arity reading as empty; the enumeration of a prefix hands a callback that takes
  all of them the matching tuples of the variants wide enough to hold it, by ascending arity and in order within each, and answers
  their number. Both hold of the view and of the base, return without a panic, and leave what readers see. For a callback that stops
  early only the bound on the answer is stated: the header has it end the whole enumeration, the code goes on with the next variant.\<close>

theorem vrel_reads_correct:
  assumes "engine_ok e" "dafsa_create e \<noteq> None" "adds_succeed e" "vrel_ok e fs v" "k \<le> MAX_VAR_ARITY" "k \<le> length l"
  shows "(\<exists>rc v'. vrel_exact e fs t (length t) v = Some (rc, v') \<and> vexact_spec (vrel_view e fs v) t rc \<and>
      vrel_ok e fs v' \<and> same_vrelation e fs v v') \<and>
    (\<exists>rc v'. vrel_exact_base e fs t (length t) v = Some (rc, v') \<and> vexact_spec (vrel_base e fs v) t rc \<and>
      vrel_ok e fs v' \<and> same_vrelation e fs v v') \<and>
    (\<exists>v' res. vrel_prefix e fs (Some l) k cb s v = Some (v', res) \<and> vprefix_spec (vrel_view e fs v) (take k l) cb s res \<and>
      vrel_ok e fs v' \<and> same_vrelation e fs v v') \<and>
    (\<exists>v' res. vrel_prefix_base e fs (Some l) k cb s v = Some (v', res) \<and> vprefix_spec (vrel_base e fs v) (take k l) cb s res \<and>
      vrel_ok e fs v' \<and> same_vrelation e fs v v')"
proof -
  have base: "\<exists>res r'. (if True then rel_prefix_base e fs (Some l) k cb s r else rel_prefix e fs (Some l) k cb s r) = Some (res, r') \<and>
      prefix_spec (rel_base e fs r) (take k l) cb s res \<and> rel_ok e fs r' \<and> r_arity r' = r_arity r \<and> rel_view e fs r' = rel_view e fs r"
    if r: "rel_ok e fs r" "k \<le> r_arity r" for r s
  proof -
    obtain res r' where r': "rel_prefix_base e fs (Some l) k cb s r = Some (res, r')" "rel_ok e fs r'"
      "same_relation e fs r r'" "prefix_spec (rel_base e fs r) (take k l) cb s res"
      by (rule prefix_base_ok [OF assms(1,2) r assms(6), of cb s])
    have "r_arity r' = r_arity r" using r'(3) by (simp add: same_relation_def)
    then show ?thesis by (intro exI [of _ res] exI [of _ r'] conjI) (simp_all add: r' same_relation_view [OF r'(3)])
  qed
  show ?thesis
    unfolding vrel_prefix_base_def
    by (intro conjI vrel_exact_ok [OF assms(1,2,4)] vrel_prefix_ok [OF assms]
        vprefix_ok [OF assms(4,6,5) base variant_rows(2) [OF assms(4)]])
qed

text \<open>The family's structure. A new one is empty; getting a variant creates an empty in-memory
  relation only where there is none, attaching refuses an impossible arity and a slot that is taken,
  and neither touches another slot; resetting makes the view of every variant its base without
  changing any base, and stops at the first failure. All of them keep every variant a well-formed
  relation of its slot's arity.\<close>

theorem vrel_structure_correct:
  assumes "engine_ok e" "dafsa_create e \<noteq> None" "vrel_ok e fs v" "rel_ok e fs r" "r_arity r = a"
    "\<forall>b. rows_fit al (variant_set (rel_base e fs) v b)"
  shows "variant_spec e fs v b (vrel_variant e al v b) \<and> vrel_ok e fs (snd (vrel_variant e al v b)) \<and>
    attach_spec v a r (vrel_attach v a (Some r)) \<and> vrel_ok e fs (snd (vrel_attach v a (Some r))) \<and>
    (\<exists>res. vrel_reset_views e al fs v = Some res \<and> reset_views_spec e fs v res \<and> vrel_ok e fs (fst res) \<and>
      (builds_succeed e \<longrightarrow> snd res = 0)) \<and>
    (\<forall>v0. vrel_create al = Some v0 \<longrightarrow> vrel_ok e fs v0 \<and> vrel_view e fs v0 = {} \<and> vrel_base e fs v0 = {})"
proof -
  obtain ropt v1 where v1: "vrel_variant e al v b = (ropt, v1)" by fastforce
  have create: "\<forall>v0. vrel_create al = Some v0 \<longrightarrow> vrel_ok e fs v0 \<and> vrel_view e fs v0 = {} \<and> vrel_base e fs v0 = {}"
    using vrel_create_ok(1-3) by blast
  show ?thesis
    unfolding v1 snd_conv
    by (intro conjI vrel_variant_ok [OF assms(1,3) v1] vrel_attach_ok [OF assms(3-5), THEN conjunct1]
        vrel_attach_ok [OF assms(3-5), THEN conjunct2] vrel_reset_ok [OF assms(1-3,6)] create)
qed

text \<open>A family with one variant, of arity 2, holding one row in its overlay.\<close>

definition family0 :: vrelation where
  "family0 = \<lparr>variants = replicate (Suc MAX_VAR_ARITY) None\<rparr>"

lemma family0: "vrel_create (\<lambda>_ _. True) = Some family0"
  by (simp add: vrel_create_def family0_def)

lemma family_ok:
  assumes "rel_ok e fs r" "r_arity r = 2"
  shows "vrel_ok e fs (put_variant 2 r family0)" "vrel_view e fs (put_variant 2 r family0) = rel_view e fs r"
    "variant_set f (put_variant 2 r family0) b = (if b = 2 then f r else {})"
proof -
  have len: "length (variants family0) = Suc MAX_VAR_ARITY" by (simp add: family0_def)
  show "vrel_ok e fs (put_variant 2 r family0)"
    by (rule put_ok [OF vrel_create_ok(1) [OF family0] assms])
  have slot: "variant_set f (put_variant 2 r family0) b = (if b = 2 then f r else {})" for f :: "relation \<Rightarrow> tuple set" and b
    using put_slot [of 2 family0 r b] len vrel_create_ok(4) [OF family0, of b] by (simp add: variant_set_def MAX_VAR_ARITY_def)
  show "variant_set f (put_variant 2 r family0) b = (if b = 2 then f r else {})" by (rule slot)
  show "vrel_view e fs (put_variant 2 r family0) = rel_view e fs r"
    by (auto simp: vrel_view_def slot split: if_splits)
qed

theorem vrel_reads_correct_witness:
  "\<exists>v v1 v2. vrel_exact trie_engine no_files [5, 2] 2 v = Some (1, v1) \<and> vrel_exact trie_engine no_files [5] 1 v = Some (0, v2)"
proof (rule one_row)
  fix r assume r: "rel_overlay_add trie_engine (\<lambda>_ _. True) no_files [5, 2] fresh2 = Some (1, r)"
    "rel_ok trie_engine no_files r" "rel_view trie_engine no_files r = {[5, 2]}" "r_arity r = 2"
  note fam = family_ok [OF r(2,4)]
  have k: "(0 :: nat) \<le> MAX_VAR_ARITY" "0 \<le> length ([] :: tuple)" by simp_all
  note reads = vrel_reads_correct [OF trie_engine_ok trie_create_ne trie_adds fam(1) k, THEN conjunct1]
  show ?thesis
    using reads [of "[5, 2]"] reads [of "[5]"] r(3) unfolding vexact_spec_def fam(2) by (force simp: numeral_2_eq_2)
qed

theorem vrel_structure_correct_witness:
  "\<exists>v v' rc. vrel_attach family0 2 (Some fresh2) = (0, v) \<and> vrel_reset_views trie_engine (\<lambda>_ _. True) no_files v = Some (v', rc) \<and> rc = 0"
proof -
  let ?fam = "put_variant 2 fresh2 family0"
  have f: "rel_ok trie_engine no_files fresh2" "r_arity fresh2 = 2" "rel_base trie_engine no_files fresh2 = {}"
    by (rule fresh2_ok)+
  note fam = family_ok [OF f(1,2)]
  have "\<forall>b. rows_fit (\<lambda>_ _. True) (variant_set (rel_base trie_engine no_files) ?fam b)"
    using f(3) by (simp add: fam(3) rows_fit_def generous_def)
  then have "\<exists>res. vrel_reset_views trie_engine (\<lambda>_ _. True) no_files ?fam = Some res \<and> snd res = 0"
    using vrel_structure_correct [OF trie_engine_ok trie_create_ne fam(1) f(1) refl, of "\<lambda>_ _. True" 1] by auto
  moreover have "vrel_attach family0 2 (Some fresh2) = (0, ?fam)"
    by (simp add: vrel_attach_def family0_def MAX_VAR_ARITY_def)
  ultimately show ?thesis by auto
qed

end
