(* ===== verification/Bytecode.thy ===== *)
theory Bytecode
  imports Ast
begin

text \<open>
  Compiled rules (\<^verbatim>\<open>src/compiler.h\<close>): the operation codes, an instruction, a compiled rule, and the
  questions about an instruction that the rest of the engine asks.  A \<open>uint8_t\<close> that is only an
  index or a count is a natural number; the automata of the regular expressions are represented by
  their number.
\<close>

datatype vm_opcode =
    OP_HALT | OP_SCAN | OP_LOOKUP | OP_EQ | OP_EQ_CONST | OP_PROJECT | OP_OPEN_REL | OP_NEG_CHECK
  | OP_AGG_ACC | OP_AGG_EMIT | OP_WALK | OP_LOOKUP_PERM | OP_HASH_JOIN | OP_CMP | OP_ARITH
  | OP_STR_FILTER | OP_STR_LEN | OP_STR_BIND | OP_MAT_BEGIN | OP_MAT_JOIN
  | OP_LIST_CONS | OP_LIST_CAR | OP_LIST_CDR | OP_LIST_APPEND | OP_LIST_MEMBER | OP_RANGE

text \<open>The codes 0 to 25, in order.\<close>

definition opcodes :: "vm_opcode list" where
  "opcodes = [OP_HALT, OP_SCAN, OP_LOOKUP, OP_EQ, OP_EQ_CONST, OP_PROJECT, OP_OPEN_REL, OP_NEG_CHECK,
     OP_AGG_ACC, OP_AGG_EMIT, OP_WALK, OP_LOOKUP_PERM, OP_HASH_JOIN, OP_CMP, OP_ARITH,
     OP_STR_FILTER, OP_STR_LEN, OP_STR_BIND, OP_MAT_BEGIN, OP_MAT_JOIN,
     OP_LIST_CONS, OP_LIST_CAR, OP_LIST_CDR, OP_LIST_APPEND, OP_LIST_MEMBER, OP_RANGE]"

record vm_instr =
  i_op :: nat
  i_a :: nat
  i_b :: nat
  i_c :: nat
  i_imm :: u32
  i_slots :: "nat list"
  i_body_idx :: nat

record var_info =
  vi_name :: string
  vi_slot :: nat

record compiled_rule =
  cr_head_pred :: string
  cr_head_rel_id :: nat
  cr_n_vars :: nat
  cr_vars :: "var_info list"
  cr_instrs :: "vm_instr list"
  cr_stratum :: int
  cr_is_recursive :: bool
  cr_has_aggregate :: bool
  cr_n_patterns :: int

definition MAX_VARS :: nat where "MAX_VARS = 64"

text \<open>The opcode of an instruction; a code past the last one is no operation.\<close>

definition opcode_of :: "vm_instr \<Rightarrow> vm_opcode option" where
  "opcode_of i = (if i_op i < length opcodes then Some (opcodes ! i_op i) else None)"

definition has_op :: "vm_opcode set \<Rightarrow> compiled_rule \<Rightarrow> bool" where
  "has_op S cr \<longleftrightarrow> (\<exists>i \<in> set (cr_instrs cr). \<exists>x \<in> S. opcode_of i = Some x)"

text \<open>The instructions that read the relation their field \<open>a\<close> names.\<close>

definition reading_ops :: "vm_opcode set" where
  "reading_ops = {OP_SCAN, OP_LOOKUP, OP_NEG_CHECK, OP_WALK, OP_LOOKUP_PERM, OP_HASH_JOIN}"

definition dredRuleReads :: "compiled_rule \<Rightarrow> int \<Rightarrow> bool" where
  "dredRuleReads cr rel_id \<longleftrightarrow>
     (\<exists>i \<in> set (cr_instrs cr). (\<exists>x \<in> reading_ops. opcode_of i = Some x) \<and> int (i_a i) = rel_id)"

end
