(* ===== verification/Intern.thy ===== *)
theory Intern
  imports RelationOps Posix
begin

text \<open>
  The symbol table (\<^verbatim>\<open>src/intern.h\<close>, \<^verbatim>\<open>zig/src/intern.zig\<close>): strings and their 32-bit symbols.  The array of strings
  is the truth; the forward automaton, over the keys \<open>string \0 symbol\<close>, is a cache of it that is
  built when somebody asks for it and dropped when it cannot be kept current.  This theory has the
  state and the operations in memory, with the running hash of the array's text; \<open>InternFile\<close> has its file.

  A string is a byte list without a zero.  The hash function is a parameter of \<open>symStamp\<close>: the model keeps
  the bytes that were fed to it.  Who owns the memory of a string is not modelled.
\<close>

definition INTERN_REV_INIT_CAP :: nat where "INTERN_REV_INIT_CAP = 256"

text \<open>Sums and products of \<open>u32\<close> counters wrap.\<close>

definition wrap32 :: "nat \<Rightarrow> nat" where "wrap32 n = n mod 2 ^ 32"

record saved_prefix =
  sp_path :: string
  sp_next_id :: nat
  sp_bytes :: nat
  sp_stamp :: nat
  sp_used :: nat

definition no_prefix :: saved_prefix where
  "no_prefix = \<lparr>sp_path = [], sp_next_id = 0, sp_bytes = 0, sp_stamp = 0, sp_used = 0\<rparr>"

text \<open>The capacity of the array is its length; a slot whose string could not be copied stays empty.\<close>

record interner =
  ir_fwd :: "dafsa option"
  ir_rev :: "bytes option list"
  ir_next_id :: nat
  ir_dirty :: bool
  ir_fwd_ro :: bool
  ir_fwd_gen :: nat
  ir_sym_hash :: bytes
  ir_sym_hashed :: nat
  ir_saved :: "saved_prefix list"
  ir_saved_seq :: nat

definition empty_interner :: "dafsa option \<Rightarrow> interner" where
  "empty_interner fwd =
     \<lparr>ir_fwd = fwd, ir_rev = replicate INTERN_REV_INIT_CAP None, ir_next_id = 1, ir_dirty = False, ir_fwd_ro = False,
      ir_fwd_gen = 0, ir_sym_hash = [], ir_sym_hashed = 0, ir_saved = [no_prefix, no_prefix], ir_saved_seq = 0\<rparr>"

definition intern_create :: "engine \<Rightarrow> allocator \<Rightarrow> interner option" where
  "intern_create e al =
     (if \<not> al ''intern_create'' 1 then None
      else case dafsa_create e of
        None \<Rightarrow> None
      | Some d \<Rightarrow> if al ''intern.rev'' (INTERN_REV_INIT_CAP * 8) then Some (empty_interner (Some d)) else None)"

subsection \<open>The text of a symbol\<close>

text \<open>Backslash and newline are escaped; the code copies the runs between them whole.\<close>

definition plain :: "u8 \<Rightarrow> bool" where "plain b \<longleftrightarrow> b \<noteq> 92 \<and> b \<noteq> 10"

function write_runs :: "bytes \<Rightarrow> bytes" where
  "write_runs str =
     takeWhile plain str @
     (case dropWhile plain str of [] \<Rightarrow> [] | b # bs \<Rightarrow> [92, if b = 92 then 92 else 110] @ write_runs bs)"
  by pat_completeness auto
termination
proof (relation "measure length")
  fix str b bs assume "dropWhile plain str = b # bs"
  then have "length (b # bs) \<le> length str" by (metis length_dropWhile_le)
  then show "(bs, str) \<in> measure length" by simp
qed simp

declare write_runs.simps [simp del]

definition sym_line :: "bytes option \<Rightarrow> bytes" where
  "sym_line s = (case s of None \<Rightarrow> [] | Some str \<Rightarrow> write_runs str) @ [10]"

text \<open>The lines of the symbols from \<open>from\<close> up to, but not including, \<open>to\<close>; \<open>None\<close> when that is past the array.\<close>

definition writeSymbolsTo :: "interner \<Rightarrow> nat \<Rightarrow> nat \<Rightarrow> bytes option" where
  "writeSymbolsTo ir from to =
     (if to \<le> Suc (length (ir_rev ir)) then Some (concat (map (\<lambda>i. sym_line (ir_rev ir ! (i - 1))) [from..<to])) else None)"

subsection \<open>Lookup\<close>

text \<open>The automaton's enumeration of the payloads behind a word and a zero byte is a parameter.\<close>

type_synonym payloads = "dafsa \<Rightarrow> bytes \<Rightarrow> bytes list"

definition captureCB :: "bytes \<Rightarrow> nat \<times> bool \<Rightarrow> bool \<times> nat \<times> bool" where
  "captureCB payload ctx = (True, if length payload \<ge> 4 then (unat (be_word (take 4 payload)), True) else ctx)"

definition fillKey :: "bytes \<Rightarrow> nat \<Rightarrow> bytes" where
  "fillKey s sid = s @ 0 # be_col (of_nat sid)"

definition scan_rev :: "interner \<Rightarrow> bytes \<Rightarrow> nat" where
  "scan_rev ir str =
     (case find (\<lambda>i. ir_rev ir ! i = Some str) [0..<min (ir_next_id ir - 1) (length (ir_rev ir))] of Some i \<Rightarrow> i + 1 | None \<Rightarrow> 0)"

definition lookup_sym :: "payloads \<Rightarrow> interner \<Rightarrow> bytes \<Rightarrow> nat" where
  "lookup_sym pe ir str =
     (case ir_fwd ir of
        Some d \<Rightarrow>
          if ir_fwd_gen ir = ir_next_id ir then
            (case until captureCB (pe d str) (0, False) of (_, sid, found) \<Rightarrow> if found then sid else 0)
          else scan_rev ir str
      | None \<Rightarrow> scan_rev ir str)"

definition intern_str_find :: "payloads \<Rightarrow> interner \<Rightarrow> bytes \<Rightarrow> nat" where
  "intern_str_find pe ir str = lookup_sym pe ir str"

definition intern_str_of :: "interner \<Rightarrow> nat \<Rightarrow> bytes option" where
  "intern_str_of ir sym_id =
     (if sym_id = 0 \<or> sym_id \<ge> ir_next_id ir then None
      else if sym_id > length (ir_rev ir) then None
      else ir_rev ir ! (sym_id - 1))"

definition liveSymBound :: "interner \<Rightarrow> nat" where "liveSymBound ir = ir_next_id ir"

subsection \<open>Interning\<close>

definition grow_rev :: "allocator \<Rightarrow> nat \<Rightarrow> bytes option list \<Rightarrow> bytes option list option" where
  "grow_rev al sid rows =
     (if sid \<le> length rows then Some rows
      else let c2 = wrap32 (length rows * 2); new_cap = (if c2 < sid then wrap32 (sid * 2) else c2) in
        if al ''intern.rev'' (new_cap * 8) then Some (take new_cap rows @ replicate (new_cap - length rows) None) else None)"

text \<open>The hash is fed the new slot when it is caught up to it.\<close>

definition feed_slot :: "nat \<Rightarrow> interner \<Rightarrow> interner" where
  "feed_slot sid ir =
     (if ir_sym_hashed ir = sid - 1
      then ir\<lparr>ir_sym_hash := ir_sym_hash ir @ sym_line (ir_rev ir ! (sid - 1)), ir_sym_hashed := sid\<rparr> else ir)"

text \<open>The automaton grows with the table when it may be changed and is current; otherwise it is dropped.\<close>

definition grow_fwd :: "engine \<Rightarrow> allocator \<Rightarrow> bytes \<Rightarrow> nat \<Rightarrow> interner \<Rightarrow> interner" where
  "grow_fwd e al str sid ir =
     (case ir_fwd ir of
        None \<Rightarrow> ir
      | Some d \<Rightarrow>
          if \<not> ir_fwd_ro ir \<and> ir_fwd_gen ir = sid then
            (if al ''intern_str.key'' (length str + 5) then
               (case dafsa_add_n e d (fillKey str sid) of (rc, d') \<Rightarrow>
                  if rc < 0 then ir\<lparr>ir_fwd := None\<rparr> else ir\<lparr>ir_fwd := Some d', ir_fwd_gen := ir_next_id ir\<rparr>)
             else ir\<lparr>ir_fwd := None\<rparr>)
          else ir\<lparr>ir_fwd := None\<rparr>)"

definition intern_str :: "engine \<Rightarrow> payloads \<Rightarrow> allocator \<Rightarrow> bytes \<Rightarrow> interner \<Rightarrow> nat \<times> interner" where
  "intern_str e pe al str ir =
     (let found = lookup_sym pe ir str in
      if found \<noteq> 0 then (found, ir)
      else let ir1 = ir\<lparr>ir_dirty := True\<rparr> in
        if length str + 5 > MAX_WORD_LEN then (0, ir1)
        else let sid = ir_next_id ir; ir2 = ir1\<lparr>ir_next_id := wrap32 (sid + 1)\<rparr> in
          case grow_rev al sid (ir_rev ir) of
            None \<Rightarrow> (0, ir2)
          | Some rows \<Rightarrow>
              (let dup = (if al ''strdup'' (length str + 1) then Some str else None);
                   ir3 = feed_slot sid (ir2\<lparr>ir_rev := rows[sid - 1 := dup]\<rparr>) in
               if dup = None then (0, ir3) else (sid, grow_fwd e al str sid ir3)))"

definition intern_is_dirty :: "interner \<Rightarrow> bool" where "intern_is_dirty ir = ir_dirty ir"
definition intern_clear_dirty :: "interner \<Rightarrow> interner" where "intern_clear_dirty ir = ir\<lparr>ir_dirty := False\<rparr>"

subsection \<open>The forward automaton\<close>

fun add_keys :: "engine \<Rightarrow> allocator \<Rightarrow> bytes option list \<Rightarrow> nat list \<Rightarrow> dafsa \<Rightarrow> dafsa option" where
  "add_keys e al rows [] d = Some d"
| "add_keys e al rows (i # is) d =
     (case rows ! i of
        None \<Rightarrow> add_keys e al rows is d
      | Some s \<Rightarrow>
          if length s + 5 > MAX_WORD_LEN then add_keys e al rows is d
          else if \<not> al ''ensureFwd.key'' (length s + 5) then None
          else (case dafsa_add_n e d (fillKey s (i + 1)) of (rc, d') \<Rightarrow> if rc < 0 then None else add_keys e al rows is d'))"

definition ensureFwd :: "engine \<Rightarrow> allocator \<Rightarrow> bool \<Rightarrow> interner \<Rightarrow> int \<times> interner" where
  "ensureFwd e al want_mutable ir =
     (if ir_fwd ir \<noteq> None \<and> (\<not> want_mutable \<or> \<not> ir_fwd_ro ir) \<and> ir_fwd_gen ir = ir_next_id ir then (0, ir)
      else let ir1 = ir\<lparr>ir_fwd := None\<rparr> in
        case Option.bind (dafsa_create e) (add_keys e al (ir_rev ir) [0..<min (ir_next_id ir - 1) (length (ir_rev ir))]) of
          None \<Rightarrow> (-1, ir1)
        | Some d \<Rightarrow> (0, ir1\<lparr>ir_fwd := Some d, ir_fwd_ro := \<not> want_mutable, ir_fwd_gen := ir_next_id ir\<rparr>))"

definition intern_fwd :: "engine \<Rightarrow> allocator \<Rightarrow> interner \<Rightarrow> dafsa option \<times> interner" where
  "intern_fwd e al ir = (case ensureFwd e al False ir of (rc, ir') \<Rightarrow> (if rc \<noteq> 0 then None else ir_fwd ir', ir'))"

definition intern_fwd_mutable :: "engine \<Rightarrow> allocator \<Rightarrow> interner \<Rightarrow> dafsa option \<times> interner" where
  "intern_fwd_mutable e al ir = (case ensureFwd e al True ir of (rc, ir') \<Rightarrow> (if rc \<noteq> 0 then None else ir_fwd ir', ir'))"

subsection \<open>The stamp\<close>

text \<open>The number of symbols and the hash of the array's text, after catching up with the slots not fed yet;
  \<open>None\<close> when that reads past the array.\<close>

definition symStamp :: "(bytes \<Rightarrow> 'h) \<Rightarrow> interner \<Rightarrow> ((nat \<times> 'h) \<times> interner) option" where
  "symStamp H ir =
     map_option (\<lambda>ir'. ((ir_next_id ir' - 1, H (ir_sym_hash ir')), ir'))
       (if ir_sym_hashed ir + 1 < ir_next_id ir then
          map_option (\<lambda>bs. ir\<lparr>ir_sym_hash := ir_sym_hash ir @ bs, ir_sym_hashed := ir_next_id ir - 1\<rparr>)
            (writeSymbolsTo ir (ir_sym_hashed ir + 1) (ir_next_id ir))
        else Some ir)"

subsection \<open>Well-formed tables\<close>

definition cstr :: "bytes \<Rightarrow> bool" where "cstr str \<longleftrightarrow> 0 \<notin> set str"

definition holds_str :: "bytes option list \<Rightarrow> nat \<Rightarrow> bytes \<Rightarrow> bool" where
  "holds_str rows i str \<longleftrightarrow> i < length rows \<and> rows ! i = Some str"

definition rows_ok :: "bytes option list \<Rightarrow> bool" where
  "rows_ok rows \<longleftrightarrow> (\<forall>i str. holds_str rows i str \<longrightarrow> cstr str \<and> length str + 5 \<le> MAX_WORD_LEN) \<and>
     (\<forall>i j str. holds_str rows i str \<and> holds_str rows j str \<longrightarrow> i = j)"

definition sym_keys :: "bytes option list \<Rightarrow> bytes set" where
  "sym_keys rows = {fillKey str (i + 1) | i str. holds_str rows i str}"

definition ir_ok :: "interner \<Rightarrow> bool" where
  "ir_ok ir \<longleftrightarrow> 1 \<le> ir_next_id ir \<and> ir_next_id ir \<le> length (ir_rev ir) + 1 \<and> ir_next_id ir < 2 ^ 32 \<and>
     (\<forall>i str. holds_str (ir_rev ir) i str \<longrightarrow> i + 1 < ir_next_id ir) \<and> rows_ok (ir_rev ir) \<and> ir_fwd_gen ir \<le> ir_next_id ir \<and>
     (\<forall>d. ir_fwd ir = Some d \<longrightarrow> dafsa_inv d \<and> (ir_fwd_gen ir = ir_next_id ir \<longrightarrow> dwords d = sym_keys (ir_rev ir)))"

text \<open>The documented behaviour of the enumeration: the payloads of a word, those after its zero byte.\<close>

definition payloads_ok :: "payloads \<Rightarrow> bool" where
  "payloads_ok pe \<longleftrightarrow> (\<forall>d w. dafsa_inv d \<longrightarrow> set (pe d w) = {p. w @ 0 # p \<in> dwords d})"

lemma ir_rows: "ir_ok ir \<Longrightarrow> rows_ok (ir_rev ir)"
  by (simp add: ir_ok_def)

lemma holds_below: "ir_ok ir \<Longrightarrow> holds_str (ir_rev ir) i str \<Longrightarrow> i < length (ir_rev ir) \<and> i + 1 < ir_next_id ir"
  by (auto simp: ir_ok_def holds_str_def)

lemma holds_inj: "rows_ok rows \<Longrightarrow> holds_str rows i str \<Longrightarrow> holds_str rows j str \<Longrightarrow> i = j"
  unfolding rows_ok_def by blast

lemma holds_cstr: "rows_ok rows \<Longrightarrow> holds_str rows i str \<Longrightarrow> cstr str \<and> length str + 5 \<le> MAX_WORD_LEN"
  unfolding rows_ok_def by blast

lemma str_of_iff:
  assumes "ir_ok ir"
  shows "intern_str_of ir k = Some str \<longleftrightarrow> 0 < k \<and> holds_str (ir_rev ir) (k - 1) str"
  using holds_below [OF assms, of "k - 1" str] by (auto simp: intern_str_of_def holds_str_def)

text \<open>A string before a zero byte is the part before the first zero.\<close>

lemma cstr_append_inj: "cstr x \<Longrightarrow> cstr y \<Longrightarrow> x @ 0 # p = y @ 0 # q \<longleftrightarrow> x = y \<and> p = q"
proof (induction x arbitrary: y)
  case Nil
  then show ?case by (cases y) (auto simp: cstr_def)
next
  case (Cons b x)
  then show ?case by (cases y) (auto simp: cstr_def)
qed

lemma key_payload:
  assumes "rows_ok rows" "cstr str"
  shows "{p. str @ 0 # p \<in> sym_keys rows} = {be_col (of_nat (i + 1)) | i. holds_str rows i str}"
proof -
  have "str @ 0 # p = fillKey s (i + 1) \<longleftrightarrow> s = str \<and> p = be_col (of_nat (i + 1))" if "holds_str rows i s" for i s p
    using cstr_append_inj [OF assms(2), of s] assms(1) that by (auto simp: fillKey_def rows_ok_def)
  then show ?thesis unfolding sym_keys_def by blast
qed

text \<open>The answer of a lookup does not depend on the state of the automaton.\<close>

lemma find_first_iff: "find P [0..<n] = Some i \<Longrightarrow> i < n \<and> P i"
  by (auto simp: find_Some_iff)

lemma scan_ok:
  assumes "ir_ok ir"
  shows "holds_str (ir_rev ir) i str \<Longrightarrow> scan_rev ir str = i + 1"
    "scan_rev ir str \<noteq> 0 \<Longrightarrow> holds_str (ir_rev ir) (scan_rev ir str - 1) str"
proof -
  let ?n = "min (ir_next_id ir - 1) (length (ir_rev ir))" and ?P = "\<lambda>i. ir_rev ir ! i = Some str"
  note inj = holds_inj [OF ir_rows [OF assms]]
  have found: "find ?P [0..<?n] = Some j \<Longrightarrow> holds_str (ir_rev ir) j str" for j
    using find_first_iff [of ?P ?n j] by (simp add: holds_str_def)
  show "scan_rev ir str = i + 1" if h: "holds_str (ir_rev ir) i str"
  proof -
    have "i < ?n" "?P i" using h holds_below [OF assms h] by (auto simp: holds_str_def)
    then have "find ?P [0..<?n] \<noteq> None" by (auto simp: find_None_iff)
    then obtain j where j: "find ?P [0..<?n] = Some j" by blast
    then show ?thesis using inj [OF h found [OF j]] by (simp add: scan_rev_def)
  qed
  show "holds_str (ir_rev ir) (scan_rev ir str - 1) str" if "scan_rev ir str \<noteq> 0"
    using that found by (auto simp: scan_rev_def split: option.splits)
qed

lemma unat_id: "n < 2 ^ 32 \<Longrightarrow> unat (of_nat n :: u32) = n"
  by (simp add: unat_of_nat)

lemma table_lookup_ok:
  assumes "ir_ok ir" "payloads_ok pe" "cstr str"
  shows "holds_str (ir_rev ir) i str \<Longrightarrow> lookup_sym pe ir str = i + 1"
    "lookup_sym pe ir str \<noteq> 0 \<Longrightarrow> holds_str (ir_rev ir) (lookup_sym pe ir str - 1) str"
proof -
  have both: "(holds_str (ir_rev ir) i str \<longrightarrow> lookup_sym pe ir str = i + 1) \<and>
      (lookup_sym pe ir str \<noteq> 0 \<longrightarrow> holds_str (ir_rev ir) (lookup_sym pe ir str - 1) str)" for i
  proof (cases "\<exists>d. ir_fwd ir = Some d \<and> ir_fwd_gen ir = ir_next_id ir")
    case False
    then have "lookup_sym pe ir str = scan_rev ir str" by (auto simp: lookup_sym_def split: option.splits)
    then show ?thesis using scan_ok [OF assms(1)] by auto
  next
    case True
    then obtain d where d: "ir_fwd ir = Some d" "ir_fwd_gen ir = ir_next_id ir" by blast
    note rows = ir_rows [OF assms(1)] note inj = holds_inj [OF rows]
    have P: "set (pe d str) = {be_col (of_nat (i + 1)) | i. holds_str (ir_rev ir) i str}"
      using assms(1,2) d key_payload [OF rows assms(3)] by (simp add: ir_ok_def payloads_ok_def)
    show ?thesis
    proof (cases "pe d str")
      case Nil
      then show ?thesis using P d by (auto simp: lookup_sym_def)
    next
      case (Cons p ps)
      then have "p \<in> set (pe d str)" by simp
      then obtain j where j: "p = be_col (of_nat (j + 1))" "holds_str (ir_rev ir) j str" unfolding P by blast
      have "j + 1 < 2 ^ 32" using holds_below [OF assms(1) j(2)] assms(1) by (simp add: ir_ok_def)
      then have "lookup_sym pe ir str = j + 1"
        using d Cons j(1) unat_id [of "j + 1"] by (simp add: lookup_sym_def captureCB_def del: of_nat_Suc of_nat_add)
      then show ?thesis using j(2) inj by auto
    qed
  qed
  show "holds_str (ir_rev ir) i str \<Longrightarrow> lookup_sym pe ir str = i + 1"
    "lookup_sym pe ir str \<noteq> 0 \<Longrightarrow> holds_str (ir_rev ir) (lookup_sym pe ir str - 1) str" using both by blast+
qed

lemma find_iff:
  assumes "ir_ok ir" "payloads_ok pe" "cstr str" "k \<noteq> 0"
  shows "intern_str_find pe ir str = k \<longleftrightarrow> intern_str_of ir k = Some str"
proof
  assume "intern_str_find pe ir str = k"
  then show "intern_str_of ir k = Some str"
    using table_lookup_ok(2) [OF assms(1-3)] assms(4) str_of_iff [OF assms(1)] by (simp add: intern_str_find_def)
next
  assume "intern_str_of ir k = Some str"
  then show "intern_str_find pe ir str = k"
    using table_lookup_ok(1) [OF assms(1-3), of "k - 1"] assms(4) str_of_iff [OF assms(1)] by (simp add: intern_str_find_def)
qed

subsection \<open>What interning does\<close>

lemma holds_append: "holds_str (rows @ replicate n None) i str \<longleftrightarrow> holds_str rows i str"
  by (auto simp: holds_str_def nth_append)

text \<open>Growing the array keeps its strings and makes room for one more.\<close>

lemma grow_rev_ok:
  assumes "grow_rev al k rows = Some rows'" "k \<le> length rows + 1" "k < 2 ^ 31"
  shows "k \<le> length rows' \<and> (\<exists>n. rows' = rows @ replicate n None)"
proof (cases "k \<le> length rows")
  case True
  then show ?thesis using assms(1) by (auto simp: grow_rev_def intro: exI [of _ 0])
next
  case False
  then have len: "length rows * 2 < 2 ^ 32" "k * 2 < 2 ^ 32" using assms(2,3) by simp_all
  define c where "c = (if length rows * 2 < k then k * 2 else length rows * 2)"
  have c: "k \<le> c" "length rows \<le> c" using assms(2) by (auto simp: c_def)
  have "rows' = take c rows @ replicate (c - length rows) None"
    using assms(1) False len by (simp add: grow_rev_def wrap32_def Let_def c_def split: if_splits)
  then show ?thesis using c by auto
qed

lemma holds_update:
  "i < length rows \<Longrightarrow> rows ! i = None \<Longrightarrow>
    holds_str (rows[i := dup]) j str \<longleftrightarrow> holds_str rows j str \<or> (j = i \<and> dup = Some str)"
  by (auto simp: holds_str_def nth_list_update)

lemma rows_ok_update:
  assumes "rows_ok rows" "i < length rows" "rows ! i = None" "\<And>s. dup = Some s \<Longrightarrow> cstr s \<and> length s + 5 \<le> MAX_WORD_LEN \<and> (\<forall>j. \<not> holds_str rows j s)"
  shows "rows_ok (rows[i := dup])"
  unfolding rows_ok_def holds_update [OF assms(2,3)] using assms(1,4) unfolding rows_ok_def by blast

lemma sym_keys_update:
  "i < length rows \<Longrightarrow> rows ! i = None \<Longrightarrow> sym_keys (rows[i := Some str]) = insert (fillKey str (i + 1)) (sym_keys rows)"
  unfolding sym_keys_def using holds_update [of i rows "Some str"] by auto

text \<open>What a call leaves alone, and the text the running hash has been fed.\<close>

definition canon :: "bytes option list \<Rightarrow> bytes" where
  "canon rows = concat (map sym_line rows)"

definition stamp_ok :: "interner \<Rightarrow> bool" where
  "stamp_ok ir \<longleftrightarrow> ir_sym_hashed ir < ir_next_id ir \<and> ir_sym_hash ir = canon (take (ir_sym_hashed ir) (ir_rev ir))"

text \<open>The contract of \<^verbatim>\<open>intern.h\<close>: a symbol that is not 0 stands for the string from now on, the string's old symbol is
  answered again with nothing changed, no symbol changes its string, and only the new one is added.\<close>

definition intern_spec :: "payloads \<Rightarrow> interner \<Rightarrow> bytes \<Rightarrow> nat \<times> interner \<Rightarrow> bool" where
  "intern_spec pe ir str res \<longleftrightarrow> (case res of (k, ir') \<Rightarrow>
     (k \<noteq> 0 \<longrightarrow> intern_str_of ir' k = Some str) \<and>
     (\<forall>j s. intern_str_of ir j = Some s \<longrightarrow> intern_str_of ir' j = Some s) \<and>
     (\<forall>j s. intern_str_of ir' j = Some s \<longrightarrow> intern_str_of ir j = Some s \<or> j = k \<and> s = str) \<and>
     (if intern_str_find pe ir str \<noteq> 0 then k = intern_str_find pe ir str \<and> ir' = ir
      else intern_is_dirty ir' \<and> (k \<noteq> 0 \<longrightarrow> k = ir_next_id ir)))"

text \<open>A string is found under exactly its symbol; the forward automaton holds every string with its symbol and may be
  changed when that was asked for.\<close>

definition table_spec :: "payloads \<Rightarrow> interner \<Rightarrow> bool" where
  "table_spec pe ir \<longleftrightarrow> (\<forall>s k. cstr s \<and> k \<noteq> 0 \<longrightarrow> (intern_str_find pe ir s = k \<longleftrightarrow> intern_str_of ir k = Some s))"

definition fwd_spec :: "bool \<Rightarrow> interner \<Rightarrow> dafsa option \<times> interner \<Rightarrow> bool" where
  "fwd_spec mut ir res \<longleftrightarrow> (case res of (d, ir') \<Rightarrow>
     (\<forall>k. intern_str_of ir' k = intern_str_of ir k) \<and> ir_dirty ir' = ir_dirty ir \<and>
     (d \<noteq> None \<longrightarrow> dwords (the d) = sym_keys (ir_rev ir) \<and> ir_fwd ir' = d \<and> (mut \<longrightarrow> \<not> ir_fwd_ro ir')))"

lemma grow_fwd_fields:
  "ir_rev (grow_fwd e al str k ir) = ir_rev ir" "ir_next_id (grow_fwd e al str k ir) = ir_next_id ir"
  "ir_dirty (grow_fwd e al str k ir) = ir_dirty ir" "ir_sym_hash (grow_fwd e al str k ir) = ir_sym_hash ir"
  "ir_sym_hashed (grow_fwd e al str k ir) = ir_sym_hashed ir" "ir_saved (grow_fwd e al str k ir) = ir_saved ir"
  "ir_saved_seq (grow_fwd e al str k ir) = ir_saved_seq ir"
  by (simp_all add: grow_fwd_def split: option.splits prod.splits)

lemma feed_slot_fields:
  "ir_rev (feed_slot k ir) = ir_rev ir" "ir_next_id (feed_slot k ir) = ir_next_id ir" "ir_dirty (feed_slot k ir) = ir_dirty ir"
  "ir_fwd (feed_slot k ir) = ir_fwd ir" "ir_fwd_ro (feed_slot k ir) = ir_fwd_ro ir" "ir_fwd_gen (feed_slot k ir) = ir_fwd_gen ir"
  "ir_saved (feed_slot k ir) = ir_saved ir" "ir_saved_seq (feed_slot k ir) = ir_saved_seq ir"
  by (simp_all add: feed_slot_def)

text \<open>The automaton after a new string: still current, or gone.\<close>

lemma grow_fwd_ok:
  assumes eng: "engine_ok e"
    and fwd: "\<And>d. ir_fwd ir = Some d \<Longrightarrow> dafsa_inv d \<and> (ir_fwd_gen ir = k \<longrightarrow> dwords d = K)"
    and gen: "ir_fwd_gen ir \<le> k" "ir_next_id ir = k + 1" and len: "length str + 5 \<le> MAX_WORD_LEN"
  shows "ir_fwd_gen (grow_fwd e al str k ir) \<le> k + 1 \<and>
    (\<forall>d. ir_fwd (grow_fwd e al str k ir) = Some d \<longrightarrow> dafsa_inv d \<and>
      (ir_fwd_gen (grow_fwd e al str k ir) = k + 1 \<longrightarrow> dwords d = insert (fillKey str k) K))"
proof (cases "\<exists>d. ir_fwd ir = Some d \<and> \<not> ir_fwd_ro ir \<and> ir_fwd_gen ir = k \<and> al ''intern_str.key'' (length str + 5)")
  case False
  then show ?thesis using gen(1) by (auto simp: grow_fwd_def split: option.splits)
next
  case True
  then obtain d where d: "ir_fwd ir = Some d" "\<not> ir_fwd_ro ir" "ir_fwd_gen ir = k" "al ''intern_str.key'' (length str + 5)" by blast
  obtain rc d' where add: "dafsa_add_n e d (fillKey str k) = (rc, d')" by fastforce
  have "length (fillKey str k) \<le> MAX_WORD_LEN" using len by (simp add: fillKey_def)
  then have a: "dafsa_inv d'" "rc \<in> {-1, 0, 1}" "rc = 1 \<longrightarrow> dwords d' = insert (fillKey str k) (dwords d)"
    "rc = 0 \<longrightarrow> fillKey str k \<in> dwords d \<and> dwords d' = dwords d"
    using eng fwd [OF d(1)] add unfolding engine_ok_def add_ok_def by blast+
  have K: "dwords d = K" using fwd [OF d(1)] d(3) by simp
  show ?thesis
    using d add a gen K by (auto simp: grow_fwd_def insert_absorb)
qed

text \<open>The whole call, for any allocator that can grow the array.\<close>

lemma intern_str_ok:
  assumes eng: "engine_ok e" "payloads_ok pe" and ok: "ir_ok ir" "stamp_ok ir" and str: "cstr str"
    and room: "ir_next_id ir < 2 ^ 31" "\<And>n. al ''intern.rev'' n"
    and r: "intern_str e pe al str ir = (k, ir')"
  shows "intern_spec pe ir str (k, ir')" "ir_ok ir'" "stamp_ok ir'"
    "\<exists>n. take (ir_next_id ir - 1) (ir_rev ir') = take (ir_next_id ir - 1) (ir_rev ir) \<and> ir_next_id ir' = ir_next_id ir + n"
    "ir_saved ir' = ir_saved ir" "ir_saved_seq ir' = ir_saved_seq ir"
    "k = 0 \<longrightarrow> length str + 5 > MAX_WORD_LEN \<or> \<not> al ''strdup'' (length str + 1)"
proof -
  let ?id = "ir_next_id ir"
  note str_of = str_of_iff [OF ok(1)] and look = table_lookup_ok [OF ok(1) eng(2) str]
  have "intern_spec pe ir str (k, ir') \<and> ir_ok ir' \<and> stamp_ok ir' \<and>
    (\<exists>n. take (?id - 1) (ir_rev ir') = take (?id - 1) (ir_rev ir) \<and> ir_next_id ir' = ?id + n) \<and>
    ir_saved ir' = ir_saved ir \<and> ir_saved_seq ir' = ir_saved_seq ir \<and>
    (k = 0 \<longrightarrow> length str + 5 > MAX_WORD_LEN \<or> \<not> al ''strdup'' (length str + 1))"
  proof (cases "lookup_sym pe ir str = 0")
    case False
    have "intern_str e pe al str ir = (lookup_sym pe ir str, ir)" using False by (simp add: intern_str_def)
    then have e: "k = lookup_sym pe ir str" "ir' = ir" using r by simp_all
    have "intern_spec pe ir str (lookup_sym pe ir str, ir)"
      using False look(2) str_of [of "lookup_sym pe ir str"] by (simp add: intern_spec_def intern_str_find_def)
    then show ?thesis using False ok unfolding e by (auto intro: exI [of _ 0])
  next
    case new: True
    have absent: "\<not> holds_str (ir_rev ir) i str" for i using look(1) [of i] new by auto
    show ?thesis
    proof (cases "length str + 5 > MAX_WORD_LEN")
      case True
      then have e: "k = 0" "ir' = ir\<lparr>ir_dirty := True\<rparr>" using r new by (simp_all add: intern_str_def Let_def)
      have "ir_ok ir'" "stamp_ok ir'" using ok e(2) by (simp_all add: ir_ok_def stamp_ok_def)
      then show ?thesis using new True e ok
        by (auto simp: intern_spec_def intern_str_of_def intern_str_find_def intern_is_dirty_def intro: exI [of _ 0])
    next
      case short: False
      have base: "1 \<le> ?id" "?id \<le> length (ir_rev ir) + 1" using ok(1) by (simp_all add: ir_ok_def)
      obtain rows where g: "grow_rev al ?id (ir_rev ir) = Some rows" using room(2) by (cases "grow_rev al ?id (ir_rev ir)") (auto simp: grow_rev_def Let_def split: if_splits)
      obtain m where rows: "?id \<le> length rows" "rows = ir_rev ir @ replicate m None"
        using grow_rev_ok [OF g base(2) room(1)] by blast
      define dup where "dup = (if al ''strdup'' (length str + 1) then Some str else None)"
      let ?i = "?id - 1" and ?rows = "rows[?id - 1 := dup]"
      let ?ir3 = "feed_slot ?id (ir\<lparr>ir_dirty := True, ir_next_id := ?id + 1, ir_rev := ?rows\<rparr>)"
      have wrap: "wrap32 (?id + 1) = ?id + 1" using room(1) by (simp add: wrap32_def)
      have res: "(k, ir') = (if dup = None then (0, ?ir3) else (?id, grow_fwd e al str ?id ?ir3))"
        unfolding r [symmetric] using new short g wrap by (simp add: intern_str_def Let_def dup_def)
      have i: "?i < length rows" using rows(1) base(1) by simp
      have free: "rows ! ?i = None"
      proof (rule ccontr)
        assume "rows ! ?i \<noteq> None"
        then obtain s where "holds_str rows ?i s" using i by (auto simp: holds_str_def)
        then have "holds_str (ir_rev ir) ?i s" by (simp add: rows(2) holds_append)
        then show False using holds_below [OF ok(1)] base(1) by fastforce
      qed
      have same: "holds_str rows j s \<longleftrightarrow> holds_str (ir_rev ir) j s" for j s by (simp add: rows(2) holds_append)
      have H: "holds_str ?rows j s \<longleftrightarrow> holds_str (ir_rev ir) j s \<or> (j = ?i \<and> dup = Some s)" for j s
        using holds_update [OF i free] same by simp
      have okr: "rows_ok rows" using ir_rows [OF ok(1)] by (simp add: rows_ok_def same)
      have rok: "rows_ok ?rows"
        by (rule rows_ok_update [OF okr i free]) (use short str absent same in \<open>auto simp: dup_def split: if_splits\<close>)
      have keys: "sym_keys rows = sym_keys (ir_rev ir)" by (simp add: sym_keys_def same)
      have fields: "ir_rev ir' = ?rows" "ir_next_id ir' = ?id + 1" "ir_dirty ir'" "ir_saved ir' = ir_saved ir" "ir_saved_seq ir' = ir_saved_seq ir"
        using res by (auto simp: grow_fwd_fields feed_slot_fields split: if_splits)
      have fwd: "ir_fwd_gen ir' \<le> ?id + 1 \<and> (\<forall>d. ir_fwd ir' = Some d \<longrightarrow> dafsa_inv d \<and> (ir_fwd_gen ir' = ?id + 1 \<longrightarrow> dwords d = sym_keys ?rows))"
      proof (cases "dup = None")
        case True
        then have "ir_fwd ir' = ir_fwd ir" "ir_fwd_gen ir' = ir_fwd_gen ir" using res by (auto simp: feed_slot_fields)
        then show ?thesis using ok(1) by (auto simp: ir_ok_def)
      next
        case False
        then have dup: "dup = Some str" by (auto simp: dup_def split: if_splits)
        have e: "ir' = grow_fwd e al str ?id ?ir3" using res False by auto
        have "sym_keys ?rows = insert (fillKey str ?id) (sym_keys (ir_rev ir))"
          using sym_keys_update [OF i free, of str] base(1) by (simp add: dup keys)
        moreover have "ir_fwd_gen (grow_fwd e al str ?id ?ir3) \<le> ?id + 1 \<and>
            (\<forall>d. ir_fwd (grow_fwd e al str ?id ?ir3) = Some d \<longrightarrow> dafsa_inv d \<and>
              (ir_fwd_gen (grow_fwd e al str ?id ?ir3) = ?id + 1 \<longrightarrow> dwords d = insert (fillKey str ?id) (sym_keys (ir_rev ir))))"
          by (rule grow_fwd_ok [OF eng(1)]) (use ok(1) short in \<open>auto simp: feed_slot_fields ir_ok_def\<close>)
        ultimately show ?thesis unfolding e by simp
      qed
      have "ir_ok ir'"
        unfolding ir_ok_def fields using base rows(1) room(1) rok fwd H holds_below [OF ok(1)] by (fastforce simp: less_Suc_eq)
      moreover have "stamp_ok ir'"
      proof -
        have t: "take n ?rows = take n (ir_rev ir)" if "n < ?id" for n
          using that base by (simp add: rows(2) take_append)
        have h: "ir_sym_hashed ir < ?id" "ir_sym_hash ir = canon (take (ir_sym_hashed ir) (ir_rev ir))" using ok(2) by (simp_all add: stamp_ok_def)
        have hash: "ir_sym_hash ir' = ir_sym_hash ?ir3" "ir_sym_hashed ir' = ir_sym_hashed ?ir3" using res by (auto simp: grow_fwd_fields split: if_splits)
        show ?thesis
        proof (cases "ir_sym_hashed ir = ?i")
          case True
          have "take ?id ?rows = take ?i (ir_rev ir) @ [dup]"
          proof -
            have "take (Suc ?i) ?rows = take ?i ?rows @ [?rows ! ?i]" by (rule take_Suc_conv_app_nth) (use i in simp)
            then show ?thesis using t [of ?i] i base(1) by simp
          qed
          then show ?thesis unfolding stamp_ok_def hash fields using True h i by (simp add: feed_slot_def canon_def)
        next
          case False
          then show ?thesis unfolding stamp_ok_def hash fields using h t [OF h(1)] by (simp add: feed_slot_def)
        qed
      qed
      moreover have "intern_spec pe ir str (k, ir')"
      proof -
        have of': "intern_str_of ir' j = Some s \<longleftrightarrow> 0 < j \<and> (holds_str (ir_rev ir) (j - 1) s \<or> j = ?id \<and> dup = Some s)" for j s
        proof -
          have "j - 1 = ?i \<longleftrightarrow> j = ?id" if "0 < j" using that base(1) by auto
          then show ?thesis using str_of_iff [OF \<open>ir_ok ir'\<close>, of j s] base(1) unfolding fields H by auto
        qed
        have "(dup = None \<longrightarrow> k = 0) \<and> (dup \<noteq> None \<longrightarrow> k = ?id \<and> dup = Some str)" using res by (auto simp: dup_def split: if_splits)
        then show ?thesis using new fields(3) base(1)
          by (auto simp: intern_spec_def of' str_of intern_str_find_def intern_is_dirty_def)
      qed
      moreover have "take (?id - 1) (ir_rev ir') = take (?id - 1) (ir_rev ir)" using base by (simp add: fields rows(2) take_append)
      moreover have "k = 0 \<longrightarrow> \<not> al ''strdup'' (length str + 1)" using res base(1) by (auto simp: dup_def split: if_splits)
      ultimately show ?thesis using fields by blast
    qed
  qed
  then show "intern_spec pe ir str (k, ir')" "ir_ok ir'" "stamp_ok ir'"
    "\<exists>n. take (?id - 1) (ir_rev ir') = take (?id - 1) (ir_rev ir) \<and> ir_next_id ir' = ?id + n"
    "ir_saved ir' = ir_saved ir" "ir_saved_seq ir' = ir_saved_seq ir"
    "k = 0 \<longrightarrow> length str + 5 > MAX_WORD_LEN \<or> \<not> al ''strdup'' (length str + 1)" by blast+
qed

subsection \<open>Creating, building the automaton, stamping\<close>

lemma empty_rows: "\<not> holds_str (replicate n None) i str"
  by (simp add: holds_str_def)

lemma empty_ok: "(\<And>d. fwd = Some d \<Longrightarrow> dafsa_inv d) \<Longrightarrow> ir_ok (empty_interner fwd)" "stamp_ok (empty_interner fwd)"
  by (simp_all add: ir_ok_def stamp_ok_def empty_interner_def rows_ok_def empty_rows INTERN_REV_INIT_CAP_def canon_def)

lemma create_ir_ok:
  assumes "engine_ok e" "intern_create e al = Some ir"
  shows "ir_ok ir" "stamp_ok ir" "intern_str_of ir k = None" "\<not> ir_dirty ir"
proof -
  obtain d where d: "dafsa_create e = Some d" "ir = empty_interner (Some d)"
    using assms(2) by (auto simp: intern_create_def split: if_splits option.splits)
  have "dafsa_inv d" using assms(1) d(1) by (simp add: engine_ok_def create_ok_def)
  then show "ir_ok ir" "stamp_ok ir" unfolding d(2) using empty_ok [of "Some d"] by simp_all
  show "intern_str_of ir k = None" "\<not> ir_dirty ir" by (simp_all add: d(2) intern_str_of_def empty_interner_def)
qed

lemma add_keys_ok:
  assumes "engine_ok e" "rows_ok rows"
  shows "add_keys e al rows is d = Some d' \<Longrightarrow> \<forall>i \<in> set is. i < length rows \<Longrightarrow> dafsa_inv d \<Longrightarrow>
    dafsa_inv d' \<and> dwords d' = dwords d \<union> {fillKey s (i + 1) | i s. i \<in> set is \<and> holds_str rows i s}"
proof (induction "is" arbitrary: d)
  case (Cons i "is")
  show ?case
  proof (cases "rows ! i")
    case None
    then show ?thesis using Cons by (auto simp: holds_str_def)
  next
    case (Some s)
    then have h: "holds_str rows i s" using Cons.prems(2) by (simp add: holds_str_def)
    then have len: "length s + 5 \<le> MAX_WORD_LEN" using holds_cstr [OF assms(2)] by blast
    obtain rc d1 where add: "dafsa_add_n e d (fillKey s (i + 1)) = (rc, d1)" by fastforce
    then have rest: "\<not> rc < 0" "add_keys e al rows is d1 = Some d'" using Cons.prems(1) Some len by (auto split: if_splits)
    have "length (fillKey s (i + 1)) \<le> MAX_WORD_LEN" using len by (simp add: fillKey_def)
    then have a: "dafsa_inv d1" "rc \<in> {-1, 0, 1}" "rc = 1 \<longrightarrow> dwords d1 = insert (fillKey s (i + 1)) (dwords d)"
      "rc = 0 \<longrightarrow> fillKey s (i + 1) \<in> dwords d \<and> dwords d1 = dwords d"
      using assms(1) Cons.prems(3) add unfolding engine_ok_def add_ok_def by blast+
    have d1: "dwords d1 = insert (fillKey s (i + 1)) (dwords d)" using a rest(1) by auto
    have uniq: "holds_str rows i s' \<longleftrightarrow> s' = s" for s' using h by (auto simp: holds_str_def)
    have "{fillKey s (k + 1) | k s. k \<in> set (i # is) \<and> holds_str rows k s} =
        insert (fillKey s (i + 1)) {fillKey s (k + 1) | k s. k \<in> set is \<and> holds_str rows k s}"
      using uniq h by auto
    then show ?thesis using Cons.IH [OF rest(2) _ a(1)] Cons.prems(2) d1 by auto
  qed
qed simp

lemma ensure_ok:
  assumes "engine_ok e" "ir_ok ir" "stamp_ok ir" "ensureFwd e al mut ir = (rc, ir')"
  shows "ir_ok ir' \<and> stamp_ok ir' \<and> rc \<in> {0, -1} \<and>
    ir' = ir\<lparr>ir_fwd := ir_fwd ir', ir_fwd_ro := ir_fwd_ro ir', ir_fwd_gen := ir_fwd_gen ir'\<rparr> \<and>
    (rc = 0 \<longrightarrow> (\<exists>d. ir_fwd ir' = Some d \<and> dafsa_inv d \<and> dwords d = sym_keys (ir_rev ir) \<and> (mut \<longrightarrow> \<not> ir_fwd_ro ir')))"
proof (cases "ir_fwd ir \<noteq> None \<and> (\<not> mut \<or> \<not> ir_fwd_ro ir) \<and> ir_fwd_gen ir = ir_next_id ir")
  case True
  then show ?thesis using assms by (auto simp: ensureFwd_def ir_ok_def)
next
  case False
  let ?is = "[0..<min (ir_next_id ir - 1) (length (ir_rev ir))]"
  show ?thesis
  proof (cases "Option.bind (dafsa_create e) (add_keys e al (ir_rev ir) ?is)")
    case None
    then have "rc = -1" "ir' = ir\<lparr>ir_fwd := None\<rparr>" using assms(4) False by (auto simp: ensureFwd_def Let_def)
    then show ?thesis using assms(2,3) by (auto simp: ir_ok_def stamp_ok_def)
  next
    case (Some d)
    then have e: "rc = 0" "ir' = ir\<lparr>ir_fwd := Some d, ir_fwd_ro := \<not> mut, ir_fwd_gen := ir_next_id ir\<rparr>"
      using assms(4) False by (auto simp: ensureFwd_def Let_def)
    obtain d0 where d0: "dafsa_create e = Some d0" "add_keys e al (ir_rev ir) ?is d0 = Some d"
      using Some by (auto simp: bind_eq_Some_conv)
    have empty: "dafsa_inv d0" "dwords d0 = {}" using assms(1) d0(1) by (simp_all add: engine_ok_def create_ok_def)
    have d: "dafsa_inv d" "dwords d = {fillKey s (i + 1) | i s. i \<in> set ?is \<and> holds_str (ir_rev ir) i s}"
      using add_keys_ok [OF assms(1) ir_rows [OF assms(2)] d0(2) _ empty(1)] empty(2) by auto
    have "i \<in> set ?is" if "holds_str (ir_rev ir) i s" for i s using holds_below [OF assms(2) that] by auto
    then have "dwords d = sym_keys (ir_rev ir)" unfolding d(2) sym_keys_def by blast
    then show ?thesis using d(1) assms(2,3) e by (auto simp: ir_ok_def stamp_ok_def)
  qed
qed

lemma write_rows: "to \<le> Suc (length (ir_rev ir)) \<Longrightarrow> from \<le> to \<Longrightarrow>
    writeSymbolsTo ir (Suc from) (Suc to) = (if to \<le> length (ir_rev ir) then Some (canon (take (to - from) (drop from (ir_rev ir)))) else None)"
proof -
  assume le: "from \<le> to"
  have "map (\<lambda>i. sym_line (ir_rev ir ! (i - 1))) [Suc from..<Suc to] = map sym_line (take (to - from) (drop from (ir_rev ir)))"
    if "to \<le> length (ir_rev ir)"
    using that le by (intro nth_equalityI) (auto simp del: upt_Suc)
  then show ?thesis by (simp add: writeSymbolsTo_def canon_def del: upt_Suc)
qed

text \<open>The stamp is the count and the hash of the text of all symbols.\<close>

lemma stamp_full:
  assumes "1 \<le> ir_next_id ir" "ir_next_id ir \<le> length (ir_rev ir) + 1" "stamp_ok ir"
  shows "\<exists>ir'. symStamp H ir = Some ((ir_next_id ir - 1, H (canon (take (ir_next_id ir - 1) (ir_rev ir)))), ir') \<and>
    stamp_ok ir' \<and> ir' = ir\<lparr>ir_sym_hash := ir_sym_hash ir', ir_sym_hashed := ir_sym_hashed ir'\<rparr>"
proof -
  let ?n = "ir_next_id ir - 1" and ?h = "ir_sym_hashed ir"
  have n: "1 \<le> ir_next_id ir" "?n \<le> length (ir_rev ir)" "?h \<le> ?n" using assms by (auto simp: stamp_ok_def)
  have hash: "ir_sym_hash ir = canon (take ?h (ir_rev ir))" using assms(3) by (simp add: stamp_ok_def)
  show ?thesis
  proof (cases "?h < ?n")
    case False
    then have "?h = ?n" "\<not> ?h + 1 < ir_next_id ir" using n by auto
    then show ?thesis using assms hash by (auto simp: symStamp_def)
  next
    case True
    then have lt: "?h + 1 < ir_next_id ir" by simp
    have "take ?n (ir_rev ir) = take ?h (ir_rev ir) @ take (?n - ?h) (drop ?h (ir_rev ir))"
      using n(3) by (metis le_add_diff_inverse take_add)
    then have all: "canon (take ?n (ir_rev ir)) = ir_sym_hash ir @ canon (take (?n - ?h) (drop ?h (ir_rev ir)))"
      by (simp add: hash canon_def)
    have "writeSymbolsTo ir (?h + 1) (ir_next_id ir) = Some (canon (take (?n - ?h) (drop ?h (ir_rev ir))))"
      using write_rows [of ?n ir ?h] n by simp
    then show ?thesis using lt assms all n by (auto simp: symStamp_def stamp_ok_def)
  qed
qed

lemma fwd_ok:
  assumes "engine_ok e" "payloads_ok pe" "ir_ok ir" "stamp_ok ir"
  shows "fwd_spec True ir (intern_fwd_mutable e al ir)" "fwd_spec False ir (intern_fwd e al ir)"
    "table_spec pe (snd (intern_fwd_mutable e al ir))" "table_spec pe (snd (intern_fwd e al ir))" "table_spec pe ir"
proof -
  have step: "fwd_spec mut ir (if rc \<noteq> 0 then None else ir_fwd ir', ir') \<and> table_spec pe ir'" if f: "ensureFwd e al mut ir = (rc, ir')" for mut rc ir'
  proof -
    note en = ensure_ok [OF assms(1,3,4) f]
    then have E: "ir' = ir\<lparr>ir_fwd := ir_fwd ir', ir_fwd_ro := ir_fwd_ro ir', ir_fwd_gen := ir_fwd_gen ir'\<rparr>" and ok: "ir_ok ir'" by blast+
    have "ir_rev ir' = ir_rev ir" "ir_next_id ir' = ir_next_id ir" "ir_dirty ir' = ir_dirty ir" by (subst E, simp)+
    moreover have "rc = 0 \<longrightarrow> (\<exists>d. ir_fwd ir' = Some d \<and> dwords d = sym_keys (ir_rev ir) \<and> (mut \<longrightarrow> \<not> ir_fwd_ro ir'))"
      using en by blast
    moreover have "intern_str_of ir' k = intern_str_of ir k" for k by (simp only: intern_str_of_def calculation(1,2))
    ultimately have "fwd_spec mut ir (if rc \<noteq> 0 then None else ir_fwd ir', ir')"
      unfolding fwd_spec_def prod.case by (cases "rc = 0") fastforce+
    moreover have "table_spec pe ir'" unfolding table_spec_def using find_iff [OF ok assms(2)] by blast
    ultimately show ?thesis by blast
  qed
  show "fwd_spec True ir (intern_fwd_mutable e al ir)" "fwd_spec False ir (intern_fwd e al ir)"
    "table_spec pe (snd (intern_fwd_mutable e al ir))" "table_spec pe (snd (intern_fwd e al ir))"
    using step [of True] step [of False] by (auto simp: intern_fwd_mutable_def intern_fwd_def split: prod.splits)
  show "table_spec pe ir" unfolding table_spec_def using find_iff [OF assms(3,2)] by blast
qed

text \<open>Which tables are well formed.\<close>

lemma distinct_ir_ok:
  assumes "\<forall>i s. holds_str (ir_rev ir) i s \<longleftrightarrow> i < length strs \<and> strs ! i = s" "ir_next_id ir = length strs + 1" "length strs \<le> length (ir_rev ir)"
    "distinct strs" "\<forall>s \<in> set strs. cstr s \<and> length s + 5 \<le> MAX_WORD_LEN" "length strs + 1 < 2 ^ 32" "ir_fwd ir = None" "ir_fwd_gen ir = 0"
  shows "ir_ok ir"
  using assms by (auto simp: ir_ok_def rows_ok_def nth_eq_iff_index_eq)

subsection \<open>Property\<close>

text \<open>The enumeration as its documentation describes it: the walk of the word and a zero byte, and everything below.\<close>

definition walk_payloads :: payloads where
  "walk_payloads d w =
     (case run d (initial d) (w @ [0]) of None \<Rightarrow> [] | Some st \<Rightarrow> below MAX_WORD_LEN d st)"

text \<open>C17: interning meets the header's contract for a well-formed table with fewer than \<open>2\<^sup>3\<^sup>1\<close> symbols, any string and any allocator
  that can grow the array of strings (every other allocation may fail; when that array cannot grow the code leaves
  an id above its capacity, intern.zig:439): the symbol it answers stands for the string, a string already there keeps
  its symbol and changes nothing, no symbol ever changes its string; it fails only for a string that is too long or
  cannot be copied. In the result every string is found under exactly its symbol, so symbols are equal
  exactly when strings are, and asking for the forward automaton, whether it is built anew or kept, gives one
  with exactly the table's keys (or nothing) and changes no answer.\<close>

theorem intern_correct:
  assumes "engine_ok e" "payloads_ok pe" "ir_ok ir" "stamp_ok ir" "cstr str" "ir_next_id ir < 2 ^ 31" "\<And>n. al ''intern.rev'' n"
  shows "case intern_str e pe al str ir of (k, ir') \<Rightarrow>
    intern_spec pe ir str (k, ir') \<and> ir_ok ir' \<and> table_spec pe ir' \<and>
    (k = 0 \<longrightarrow> length str + 5 > MAX_WORD_LEN \<or> \<not> al ''strdup'' (length str + 1)) \<and>
    fwd_spec True ir' (intern_fwd_mutable e al' ir') \<and> table_spec pe (snd (intern_fwd_mutable e al' ir')) \<and>
    fwd_spec False ir' (intern_fwd e al' ir') \<and> table_spec pe (snd (intern_fwd e al' ir'))"
proof -
  obtain k ir' where r: "intern_str e pe al str ir = (k, ir')" by fastforce
  note i = intern_str_ok [OF assms r]
  show ?thesis unfolding r prod.case by (intro conjI i(1,2,7) fwd_ok [OF assms(1,2) i(2,3)])
qed

lemma walk_payloads_ok: "payloads_ok walk_payloads"
  unfolding payloads_ok_def
proof (intro allI impI)
  fix d w assume inv: "dafsa_inv d"
  have app: "w @ 0 # p \<in> dwords d \<longleftrightarrow> (case run d (initial d) (w @ [0]) of None \<Rightarrow> False | Some st \<Rightarrow> accepts d st p)" for p
    using accepts_append [of d "initial d" "w @ [0]" p] by (simp add: dwords_def)
  show "set (walk_payloads d w) = {p. w @ 0 # p \<in> dwords d}"
  proof (cases "run d (initial d) (w @ [0])")
    case None
    then show ?thesis using app by (simp add: walk_payloads_def)
  next
    case (Some st)
    have ok: "dafsa_ok d" using inv by (simp add: dafsa_inv_def)
    have st: "st < length (states d)" by (rule run_state [OF ok _ Some]) (use ok in \<open>simp add: dafsa_ok_def\<close>)
    have "length p \<le> MAX_WORD_LEN" if "accepts d st p" for p
    proof -
      have "w @ 0 # p \<in> dwords d" using that app Some by simp
      then have "length (w @ 0 # p) \<le> MAX_WORD_LEN" using inv unfolding dafsa_inv_def by blast
      then show ?thesis by simp
    qed
    then show ?thesis using set_below [OF ok st] app Some by (auto simp: walk_payloads_def)
  qed
qed

text \<open>Interning \<open>a\<close> into a new table.\<close>

theorem intern_correct_witness:
  "\<exists>ir k ir'. intern_create trie_engine (\<lambda>_ _. True) = Some ir \<and>
     intern_str trie_engine walk_payloads (\<lambda>_ _. True) [97] ir = (k, ir') \<and> k \<noteq> 0 \<and> intern_str_of ir' k = Some [97] \<and>
     intern_str_find walk_payloads ir' [97] = k"
proof -
  obtain d where "dafsa_create trie_engine = Some d" using trie_create_ne by blast
  then obtain ir where c: "intern_create trie_engine (\<lambda>_ _. True) = Some ir" "ir_next_id ir = 1"
    by (simp add: intern_create_def empty_interner_def)
  obtain k ir' where r: "intern_str trie_engine walk_payloads (\<lambda>_ _. True) [97] ir = (k, ir')" by fastforce
  have small: "cstr [97]" "ir_next_id ir < 2 ^ 31" "length [97 :: u8] + 5 \<le> MAX_WORD_LEN" using c(2) by (simp_all add: cstr_def MAX_WORD_LEN_def)
  note H = intern_correct [OF trie_engine_ok walk_payloads_ok create_ir_ok(1,2) [OF trie_engine_ok c(1)] small(1,2),
      of "\<lambda>_ _. True" "\<lambda>_ _. True", unfolded r prod.case]
  have s: "k = 0 \<longrightarrow> length [97 :: u8] + 5 > MAX_WORD_LEN" "intern_spec walk_payloads ir [97] (k, ir')" "table_spec walk_payloads ir'"
    using H by blast+
  have "k \<noteq> 0" using s(1) small(3) by auto
  moreover have "intern_str_of ir' k = Some [97]" using s(2) \<open>k \<noteq> 0\<close> by (simp add: intern_spec_def)
  moreover have "intern_str_find walk_payloads ir' [97] = k" using s(3) small(1) calculation unfolding table_spec_def by blast
  ultimately show ?thesis using c(1) r by blast
qed

end
