(* ===== verification/Db.thy ===== *)
theory Db
  imports VRelation TermStore Schema Bytecode Intern Ast
begin

text \<open>
  The database handle (\<^verbatim>\<open>src/dl_internal.h\<close>, \<^verbatim>\<open>zig/src/dl.zig\<close>) and the resolution of a relation id
  or name and an arity to the relation that holds its facts.  An array with its count is a list.
  Left out of the record are the lock's file descriptor and the bookkeeping of publishing.  Handing out a pointer to a relation is
  answering it; a caller that changes it stores it back with \<open>put_rel\<close>.
\<close>

definition MAX_RELS :: nat where "MAX_RELS = 64"
definition MAX_PERMS :: nat where "MAX_PERMS = 64"
definition MAX_PERMS_PER_REL :: nat where "MAX_PERMS_PER_REL = 8"
definition RELK_FIXED :: nat where "RELK_FIXED = 0"
definition RELK_VARIADIC :: nat where "RELK_VARIADIC = 1"

text \<open>A buffered operation: a fact to add or delete, by relation id, or a compare-and-swap of an entity's revision.
  A transaction also keeps the column kinds that its additions found, as relation, arity and kinds.\<close>

datatype txn_op =
    TXN_ADD int nat tuple
  | TXN_DEL int nat tuple
  | TXN_CAS u32 u32 u32

record txn =
  tx_ops :: "txn_op list"
  tx_cap :: nat
  tx_ksnap :: "(int \<times> nat \<times> nat list) list"
  tx_meta_dirty_at_begin :: bool

text \<open>Exactly one of the relation and the family is there, by kind.\<close>

record rel_entry =
  re_name :: string
  re_kind :: nat
  re_arity :: nat
  re_rel :: "relation option"
  re_vrel :: "vrelation option"

text \<open>A permutation index: \<open>perm ! j\<close> is the original column at position \<open>j\<close> of a permuted tuple.\<close>

record perm_index_entry =
  pe_rel_id :: int
  pe_arity :: nat
  pe_perm :: "nat list"
  pe_pidx_rel :: "relation option"
  pe_dirty :: bool

text \<open>A slot of the cache of mapped snapshot files, with the version it was opened at.\<close>

record view_cache_slot =
  vc_rel_name :: string
  vc_view :: "dafsa_view option"
  vc_used :: int
  vc_version :: u32

record dl_db =
  db_dir :: "string option"
  db_ir :: interner
  db_terms :: "termstore option"
  db_rels :: "rel_entry list"
  db_read_only :: bool
  db_meta_dirty :: bool
  db_rev_rel_id :: int
  db_txn :: "txn option"
  db_schema :: "schema option"
  db_crules :: "compiled_rule list"
  db_fixpoint_dirty :: bool
  db_snap_version :: u32
  db_snapshot_retain :: u32
  db_vcache :: "view_cache_slot list"
  db_fault_hook :: "(nat \<Rightarrow> int) option"
  db_perms :: "perm_index_entry list"
  db_ast_rules :: "rule list"
  db_full_reeval_pending :: bool
  db_delta_pending :: "tuple_set option list"
  db_del_pending :: "tuple_set option list"
  db_compact_checks :: u64

subsection \<open>Resolving an entry\<close>

definition db_entry_is_variadic :: "rel_entry \<Rightarrow> bool" where
  "db_entry_is_variadic e \<longleftrightarrow> re_kind e = RELK_VARIADIC"

definition db_has_variadic :: "dl_db \<Rightarrow> bool" where
  "db_has_variadic db \<longleftrightarrow> (\<exists>e \<in> set (db_rels db). re_kind e = RELK_VARIADIC)"

definition db_has_list_builtin :: "dl_db \<Rightarrow> bool" where
  "db_has_list_builtin db \<longleftrightarrow>
     (\<exists>cr \<in> set (db_crules db). has_op {OP_LIST_CONS, OP_LIST_CAR, OP_LIST_CDR, OP_LIST_APPEND, OP_LIST_MEMBER} cr)"

definition db_has_range_builtin :: "dl_db \<Rightarrow> bool" where
  "db_has_range_builtin db \<longleftrightarrow> (\<exists>cr \<in> set (db_crules db). has_op {OP_RANGE} cr)"

fun find_from :: "nat \<Rightarrow> rel_entry list \<Rightarrow> string \<Rightarrow> int" where
  "find_from i [] name = -1"
| "find_from i (e # es) name = (if re_name e = name then int i else find_from (i + 1) es name)"

definition findRel :: "dl_db \<Rightarrow> string \<Rightarrow> int" where
  "findRel db name = find_from 0 (db_rels db) name"

definition entry_at :: "dl_db \<Rightarrow> int \<Rightarrow> rel_entry option" where
  "entry_at db rel_id = (if rel_id < 0 \<or> nat rel_id \<ge> length (db_rels db) then None else Some (db_rels db ! nat rel_id))"

definition db_entry_variant_ro :: "rel_entry \<Rightarrow> nat \<Rightarrow> relation option" where
  "db_entry_variant_ro e arity =
     (if re_kind e = RELK_VARIADIC then (case re_vrel e of None \<Rightarrow> None | Some v \<Rightarrow> vrel_variant_or_null v arity)
      else if re_arity e = arity then re_rel e else None)"

definition db_entry_variant_rw :: "engine \<Rightarrow> allocator \<Rightarrow> rel_entry \<Rightarrow> nat \<Rightarrow> relation option \<times> rel_entry" where
  "db_entry_variant_rw en al e arity =
     (if re_kind e = RELK_VARIADIC then
        (case re_vrel e of
           None \<Rightarrow> (None, e)
         | Some v \<Rightarrow> (case vrel_variant en al v arity of (r, v') \<Rightarrow> (r, e\<lparr>re_vrel := Some v'\<rparr>)))
      else (if re_arity e = arity then re_rel e else None, e))"

definition put_entry :: "int \<Rightarrow> rel_entry \<Rightarrow> dl_db \<Rightarrow> dl_db" where
  "put_entry rel_id e db = db\<lparr>db_rels := (db_rels db)[nat rel_id := e]\<rparr>"

definition db_rel_at_arity_ro :: "dl_db \<Rightarrow> int \<Rightarrow> nat \<Rightarrow> relation option" where
  "db_rel_at_arity_ro db rel_id arity =
     (case entry_at db rel_id of None \<Rightarrow> None | Some e \<Rightarrow> db_entry_variant_ro e arity)"

definition db_rel_at_arity_rw :: "engine \<Rightarrow> allocator \<Rightarrow> dl_db \<Rightarrow> int \<Rightarrow> nat \<Rightarrow> relation option \<times> dl_db" where
  "db_rel_at_arity_rw en al db rel_id arity =
     (case entry_at db rel_id of
        None \<Rightarrow> (None, db)
      | Some e \<Rightarrow> (case db_entry_variant_rw en al e arity of (r, e') \<Rightarrow> (r, put_entry rel_id e' db)))"

text \<open>Storing a relation back behind the pointer \<open>db_rel_at_arity_ro\<close> answered.\<close>

definition put_variant_of :: "nat \<Rightarrow> relation \<Rightarrow> rel_entry \<Rightarrow> rel_entry" where
  "put_variant_of arity r e =
     (if re_kind e = RELK_VARIADIC then e\<lparr>re_vrel := map_option (put_variant arity r) (re_vrel e)\<rparr>
      else e\<lparr>re_rel := Some r\<rparr>)"

definition put_rel :: "int \<Rightarrow> nat \<Rightarrow> relation \<Rightarrow> dl_db \<Rightarrow> dl_db" where
  "put_rel rel_id arity r db =
     (case entry_at db rel_id of None \<Rightarrow> db | Some e \<Rightarrow> put_entry rel_id (put_variant_of arity r e) db)"

subsection \<open>Well-formed databases\<close>

definition entry_ok :: "engine \<Rightarrow> files \<Rightarrow> rel_entry \<Rightarrow> bool" where
  "entry_ok en fs e \<longleftrightarrow>
     (if re_kind e = RELK_VARIADIC then re_arity e = 0 \<and> re_rel e = None \<and> (\<exists>v. re_vrel e = Some v \<and> vrel_ok en fs v)
      else re_kind e = RELK_FIXED \<and> re_vrel e = None \<and>
        (\<exists>r. re_rel e = Some r \<and> rel_ok en fs r \<and> r_arity r = re_arity e))"

definition entry_set :: "engine \<Rightarrow> files \<Rightarrow> rel_entry \<Rightarrow> tuple set" where
  "entry_set en fs e = (case re_vrel e of
      Some v \<Rightarrow> vrel_view en fs v
    | None \<Rightarrow> (case re_rel e of None \<Rightarrow> {} | Some r \<Rightarrow> rel_view en fs r))"

text \<open>The first \<open>a\<close> entries are a permutation of the columns.\<close>

definition perm_valid :: "nat \<Rightarrow> nat list \<Rightarrow> bool" where
  "perm_valid a perm \<longleftrightarrow> a \<le> length perm \<and> distinct (take a perm) \<and> (\<forall>j < a. perm ! j < a)"

definition perm_ok :: "engine \<Rightarrow> files \<Rightarrow> perm_index_entry \<Rightarrow> bool" where
  "perm_ok en fs pe \<longleftrightarrow> 1 \<le> pe_arity pe \<and> pe_arity pe \<le> MAX_ARITY \<and> length (pe_perm pe) = 8 \<and> perm_valid (pe_arity pe) (pe_perm pe) \<and>
     (\<forall>r. pe_pidx_rel pe = Some r \<longrightarrow> rel_ok en fs r \<and> r_arity r = pe_arity pe)"

definition db_ok :: "engine \<Rightarrow> files \<Rightarrow> dl_db \<Rightarrow> bool" where
  "db_ok en fs db \<longleftrightarrow> length (db_rels db) \<le> MAX_RELS \<and> (\<forall>e \<in> set (db_rels db). entry_ok en fs e) \<and>
     distinct (map re_name (db_rels db)) \<and>
     length (db_perms db) \<le> MAX_PERMS \<and> (\<forall>pe \<in> set (db_perms db). perm_ok en fs pe \<and> entry_at db (pe_rel_id pe) \<noteq> None) \<and>
     (\<forall>t. db_terms db = Some t \<longrightarrow> term_inv t) \<and>
     length (db_delta_pending db) = MAX_RELS \<and> length (db_del_pending db) = MAX_RELS"

text \<open>The facts of a name, of any arity: what readers of the live database see.\<close>

definition db_facts :: "engine \<Rightarrow> files \<Rightarrow> dl_db \<Rightarrow> string \<Rightarrow> tuple set" where
  "db_facts en fs db name =
     (case entry_at db (findRel db name) of None \<Rightarrow> {} | Some e \<Rightarrow> entry_set en fs e)"

lemma find_from:
  "find_from i es name = -1 \<and> (\<forall>e \<in> set es. re_name e \<noteq> name) \<or>
   (\<exists>j < length es. find_from i es name = int (i + j) \<and> re_name (es ! j) = name \<and> (\<forall>k < j. re_name (es ! k) \<noteq> name))"
proof (induction es arbitrary: i)
  case (Cons e es)
  show ?case
  proof (cases "re_name e = name")
    case False
    from Cons.IH [of "i + 1"] show ?thesis
    proof (elim disjE exE conjE)
      fix j assume j: "j < length es" "find_from (i + 1) es name = int (i + 1 + j)" "re_name (es ! j) = name"
        "\<forall>k < j. re_name (es ! k) \<noteq> name"
      have "\<forall>k < Suc j. re_name ((e # es) ! k) \<noteq> name"
        using j(4) False by (auto simp: nth_Cons split: nat.split)
      then show ?thesis
        using j False by (intro disjI2 exI [of _ "Suc j"]) simp
    qed (use False in simp)
  qed auto
qed simp

lemma find_rel:
  "findRel db name = -1 \<and> entry_at db (findRel db name) = None \<and> name \<notin> re_name ` set (db_rels db) \<or>
   (\<exists>j < length (db_rels db). findRel db name = int j \<and> re_name (db_rels db ! j) = name \<and>
      entry_at db (findRel db name) = Some (db_rels db ! j))"
  using find_from [of 0 "db_rels db" name] by (auto simp: findRel_def entry_at_def)

lemma entry_at_ok: "db_ok en fs db \<Longrightarrow> entry_at db i = Some e \<Longrightarrow> entry_ok en fs e"
  by (auto simp: db_ok_def entry_at_def split: if_splits)

text \<open>A database that declares one relation of arity 2.\<close>

definition one_rel_db :: dl_db where
  "one_rel_db =
     \<lparr>db_dir = Some ''d'', db_ir = empty_interner None, db_terms = None,
      db_rels = [\<lparr>re_name = ''q'', re_kind = RELK_FIXED, re_arity = 2, re_rel = Some fresh2, re_vrel = None\<rparr>],
      db_read_only = False, db_meta_dirty = False, db_rev_rel_id = -1, db_txn = None, db_schema = None, db_crules = [],
      db_fixpoint_dirty = False, db_snap_version = 0, db_snapshot_retain = 0, db_vcache = [], db_fault_hook = None, db_perms = [],
      db_ast_rules = [],
      db_full_reeval_pending = False, db_delta_pending = replicate MAX_RELS None, db_del_pending = replicate MAX_RELS None,
      db_compact_checks = 0\<rparr>"

lemma one_rel_db_ok: "db_ok trie_engine no_files one_rel_db"
  using fresh2_ok(1,2) by (simp add: db_ok_def one_rel_db_def entry_ok_def MAX_RELS_def RELK_FIXED_def RELK_VARIADIC_def)

text \<open>The same with another relation in its place.\<close>

definition row_db :: "relation \<Rightarrow> dl_db" where
  "row_db r = one_rel_db\<lparr>db_rels := [\<lparr>re_name = ''q'', re_kind = RELK_FIXED, re_arity = 2, re_rel = Some r, re_vrel = None\<rparr>]\<rparr>"

lemma row_db:
  shows "rel_ok en fs r \<Longrightarrow> r_arity r = 2 \<Longrightarrow> db_ok en fs (row_db r)"
    "entry_at (row_db r) (findRel (row_db r) ''q'') = Some \<lparr>re_name = ''q'', re_kind = RELK_FIXED, re_arity = 2, re_rel = Some r, re_vrel = None\<rparr>"
    "db_facts en fs (row_db r) ''q'' = rel_view en fs r" "db_snap_version (row_db r) = 0" "findRel (row_db r) ''q'' = 0"
  by (simp_all add: db_ok_def row_db_def one_rel_db_def entry_ok_def MAX_RELS_def RELK_FIXED_def RELK_VARIADIC_def
      entry_at_def findRel_def db_facts_def entry_set_def)

end
