(* ===== verification/Snapshot.thy ===== *)
theory Snapshot
  imports Db TextScan
begin

text \<open>
  Reading a published snapshot (\<^verbatim>\<open>src/snapshot.h\<close>, \<^verbatim>\<open>zig/src/snapshot.zig\<close>): the manifest that names
  its relations, the cache of mapped files, and the queries over a mapped file.  A snapshot is the
  directory \<^verbatim>\<open><db>/snapshots/<version>\<close> with a \<^verbatim>\<open>manifest.txt\<close> and one \<^verbatim>\<open>.dafsa\<close> file per relation,
  variant and permutation index.  Paths are character strings, the contents of files bytes.
\<close>

definition DL_VIEW_CACHE_SZ :: nat where "DL_VIEW_CACHE_SZ = 8"

subsection \<open>Paths and C strings\<close>

definition to_bytes :: "string \<Rightarrow> bytes" where
  "to_bytes s = map (\<lambda>c. of_nat (of_char c)) s"

definition of_bytes :: "bytes \<Rightarrow> string" where
  "of_bytes bs = map (\<lambda>b. char_of (unat b)) bs"

text \<open>\<^verbatim>\<open>snprintf\<close> into a buffer of \<open>n\<close> bytes.\<close>

definition snprintf :: "nat \<Rightarrow> string \<Rightarrow> string" where
  "snprintf n s = take (n - 1) s"

definition cstr :: "bytes \<Rightarrow> bytes" where
  "cstr bs = takeWhile (\<lambda>b. b \<noteq> 0) bs"

definition snapshot_dir :: "string \<Rightarrow> u32 \<Rightarrow> string" where
  "snapshot_dir dir version = snprintf 8192 (dir @ ''/snapshots/'' @ of_bytes (dec (unat version)))"

definition rel_file :: "string \<Rightarrow> string \<Rightarrow> string" where
  "rel_file sdir name = snprintf 8192 (sdir @ ''/'' @ name @ ''.dafsa'')"

definition manifest_file :: "string \<Rightarrow> string" where
  "manifest_file sdir = snprintf 8192 (sdir @ ''/manifest.txt'')"

text \<open>The current version, 0 when there is none or it cannot be read.\<close>

definition snapshot_read_current :: "files \<Rightarrow> string \<Rightarrow> u32" where
  "snapshot_read_current fs dir =
     (case fs (snprintf 4096 (dir @ ''/snapshots/CURRENT'')) of
        None \<Rightarrow> 0
      | Some bs \<Rightarrow>
          (case scan_unsigned (2 ^ 64 - 1) bs of (v, any, neg, _) \<Rightarrow>
             let v' = (if neg then (2 ^ 64 - v) mod 2 ^ 64 else v) in
             if \<not> any \<or> v' > 0xFFFFFFFF then 0 else of_nat v'))"

subsection \<open>The manifest\<close>

definition colon :: u8 where "colon = 58"

fun lines_of :: "bytes \<Rightarrow> bytes \<Rightarrow> bytes list" where
  "lines_of acc [] = (if acc = [] then [] else [acc])"
| "lines_of acc (b # bs) = (if b = nl then (acc @ [b]) # lines_of [] bs else lines_of (acc @ [b]) bs)"

text \<open>Strip a newline, then a carriage return.\<close>

definition chompLine :: "bytes \<Rightarrow> bytes" where
  "chompLine buf =
     (let b1 = (if buf \<noteq> [] \<and> last buf = nl then butlast buf else buf)
      in if b1 \<noteq> [] \<and> last b1 = 13 then butlast b1 else b1)"

fun atoi_digits :: "bytes \<Rightarrow> 32 word \<Rightarrow> 32 word" where
  "atoi_digits [] v = v"
| "atoi_digits (b # bs) v = (if is_digit b then atoi_digits bs (v * 10 + ucast (b - 48)) else v)"

definition atoiC :: "bytes \<Rightarrow> int" where
  "atoiC s =
     (let s1 = dropWhile is_space s;
          signed = (s1 \<noteq> [] \<and> (hd s1 = 43 \<or> hd s1 = 45));
          v = atoi_digits (if signed then tl s1 else s1) 0
      in sint (if signed \<and> hd s1 = 45 then - v else v))"

text \<open>The part of a line before its first colon and the part after it; comments and directives are
  skipped, and so is a line without a colon.\<close>

definition manifest_line :: "bytes \<Rightarrow> (bytes \<times> bytes) option" where
  "manifest_line raw =
     (let l = chompLine raw in
      if l \<noteq> [] \<and> (hd l = 35 \<or> hd l = 68) then None
      else if colon \<notin> set l then None
      else Some (takeWhile (\<lambda>b. b \<noteq> colon) l, tl (dropWhile (\<lambda>b. b \<noteq> colon) l)))"

text \<open>The first line that names the relation and is usable: found, its arity, whether it is variadic.\<close>

fun find_line :: "bytes list \<Rightarrow> bytes \<Rightarrow> bool \<Rightarrow> int \<times> nat \<times> bool" where
  "find_line [] name want_variadic = (0, 0, False)"
| "find_line (raw # raws) name want_variadic =
     (case manifest_line raw of
        None \<Rightarrow> find_line raws name want_variadic
      | Some (left, rest) \<Rightarrow>
          if cstr left \<noteq> name then find_line raws name want_variadic
          else if rest \<noteq> [] \<and> hd rest = 42 then
            (if want_variadic then (1, 0, True) else find_line raws name want_variadic)
          else let a = atoiC (cstr rest) in
            if 1 \<le> a \<and> a \<le> 8 then (1, nat a, False) else find_line raws name want_variadic)"

definition manifest_find_rel_ex :: "files \<Rightarrow> string \<Rightarrow> string \<Rightarrow> bool \<Rightarrow> int \<times> nat \<times> bool" where
  "manifest_find_rel_ex fs sdir rel_name want_variadic =
     (case fs (manifest_file sdir) of
        None \<Rightarrow> (-1, 0, False)
      | Some bs \<Rightarrow> find_line (lines_of [] bs) (to_bytes rel_name) want_variadic)"

definition manifest_find_rel :: "files \<Rightarrow> string \<Rightarrow> string \<Rightarrow> int \<times> nat" where
  "manifest_find_rel fs sdir rel_name =
     (case manifest_find_rel_ex fs sdir rel_name False of (rc, a, _) \<Rightarrow> (rc, a))"

text \<open>The variants a manifest lists: \<^verbatim>\<open><name>.<d>:<d>\<close> with \<open>d\<close> a digit from 1 to 8.\<close>

definition variant_line :: "bytes \<Rightarrow> bytes \<Rightarrow> nat option" where
  "variant_line name raw =
     (case manifest_line raw of
        None \<Rightarrow> None
      | Some (left, rest) \<Rightarrow>
          let n = length name in
          if length left = n + 2 \<and> take n left = name \<and> left ! n = 46 \<and> 49 \<le> left ! (n + 1) \<and> left ! (n + 1) \<le> 56 \<and>
             atoiC (cstr rest) = int (unat (left ! (n + 1)) - 48)
          then Some (unat (left ! (n + 1)) - 48) else None)"

definition manifest_find_variants :: "files \<Rightarrow> string \<Rightarrow> string \<Rightarrow> nat set" where
  "manifest_find_variants fs sdir rel_name =
     (case fs (manifest_file sdir) of
        None \<Rightarrow> {}
      | Some bs \<Rightarrow> {a. Some a \<in> variant_line (to_bytes rel_name) ` set (lines_of [] bs)})"

subsection \<open>The cache of mapped files\<close>

definition empty_slot :: view_cache_slot where
  "empty_slot = \<lparr>vc_rel_name = [], vc_view = None, vc_used = 0, vc_version = 0\<rparr>"

definition vcache_invalidate :: "view_cache_slot list \<Rightarrow> view_cache_slot list" where
  "vcache_invalidate vc = map (\<lambda>_. empty_slot) vc"

definition vcache_drop_version :: "view_cache_slot list \<Rightarrow> u32 \<Rightarrow> view_cache_slot list" where
  "vcache_drop_version vc version =
     map (\<lambda>s. if vc_view s = None \<or> vc_version s \<noteq> version then s else empty_slot) vc"

definition strncpyZeroPad :: "string \<Rightarrow> string" where
  "strncpyZeroPad src = take 63 src"

definition slot_hit :: "string \<Rightarrow> u32 \<Rightarrow> view_cache_slot \<Rightarrow> bool" where
  "slot_hit name version s \<longleftrightarrow> vc_view s \<noteq> None \<and> vc_version s = version \<and> vc_rel_name s = name"

text \<open>One pass over the slots: the first hit, the first empty slot, and the first least used one.\<close>

fun slot_scan :: "string \<Rightarrow> u32 \<Rightarrow> view_cache_slot list \<Rightarrow> nat \<Rightarrow> nat option \<Rightarrow> nat \<times> int \<Rightarrow> nat option \<times> nat option \<times> nat" where
  "slot_scan name version [] i free lru = (None, free, fst lru)"
| "slot_scan name version (s # slots) i free lru =
     (if slot_hit name version s then (Some i, free, fst lru)
      else slot_scan name version slots (i + 1)
        (if vc_view s = None \<and> free = None then Some i else free)
        (if vc_used s < snd lru then (i, vc_used s) else lru))"

definition view_open_cached ::
  "engine \<Rightarrow> files \<Rightarrow> view_cache_slot list \<Rightarrow> string \<Rightarrow> u32 \<Rightarrow> string \<Rightarrow> dafsa_view option \<times> view_cache_slot list" where
  "view_open_cached e fs vc rel_name version sdir =
     (case slot_scan rel_name version vc 0 None (0, 0x7FFFFFFF) of
        (Some i, _, _) \<Rightarrow> (vc_view (vc ! i), vc[i := (vc ! i)\<lparr>vc_used := vc_used (vc ! i) + 1\<rparr>])
      | (None, free, lru) \<Rightarrow>
          (case dafsa_view_open e (fs (rel_file sdir rel_name)) of
             None \<Rightarrow> (None, vc)
           | Some v \<Rightarrow>
               (Some v, vc[(case free of Some i \<Rightarrow> i | None \<Rightarrow> lru) :=
                  \<lparr>vc_rel_name = strncpyZeroPad rel_name, vc_view = Some v, vc_used = 1, vc_version = version\<rparr>])))"

subsection \<open>Queries over a mapped file\<close>

definition view_prefix :: "engine \<Rightarrow> dafsa_view \<Rightarrow> nat \<Rightarrow> tuple option \<Rightarrow> nat \<Rightarrow> 's enum_cb \<Rightarrow> 's \<Rightarrow> int \<times> 's" where
  "view_prefix e v arity leading k cb s =
     (if arity > MAX_ARITY then (-1, s) else viewPrefixD e arity v leading k cb s)"

definition viewEncodeKey :: "tuple \<Rightarrow> bytes" where
  "viewEncodeKey cols = encodeKey cols"

definition view_rank :: "engine \<Rightarrow> dafsa_view \<Rightarrow> nat \<Rightarrow> tuple \<Rightarrow> nat" where
  "view_rank e v arity cols = (if arity > MAX_ARITY then 0 else dafsa_view_rank_n e v (viewEncodeKey cols))"

text \<open>\<open>None\<close> is the result -1.\<close>

definition view_select :: "engine \<Rightarrow> dafsa_view \<Rightarrow> nat \<Rightarrow> nat \<Rightarrow> tuple option" where
  "view_select e v arity k =
     (if arity > MAX_ARITY then None
      else map_option (\<lambda>key. readColsBe key arity) (dafsa_view_select_n e v k MAX_KEY_LEN))"

definition view_range_count :: "engine \<Rightarrow> dafsa_view \<Rightarrow> nat \<Rightarrow> tuple \<Rightarrow> tuple \<Rightarrow> nat" where
  "view_range_count e v arity lo hi =
     (if arity > MAX_ARITY then 0 else dafsa_view_range_count_n e v (viewEncodeKey lo) (viewEncodeKey hi))"

definition view_count :: "engine \<Rightarrow> dafsa_view \<Rightarrow> nat" where
  "view_count e v = dafsa_view_subtree_count e v"

text \<open>The fan-out over the variants a manifest lists.\<close>

definition variant_name :: "string \<Rightarrow> nat \<Rightarrow> string" where
  "variant_name name a = name @ ''.'' @ of_bytes (dec a)"

fun scan_variants ::
  "engine \<Rightarrow> files \<Rightarrow> string \<Rightarrow> u32 \<Rightarrow> string \<Rightarrow> tuple option \<Rightarrow> nat \<Rightarrow> 's enum_cb \<Rightarrow> nat list \<Rightarrow>
   view_cache_slot list \<Rightarrow> int \<Rightarrow> 's \<Rightarrow> (int \<times> 's) \<times> view_cache_slot list" where
  "scan_variants e fs sdir version goal leading k cb [] vc tot s = ((tot, s), vc)"
| "scan_variants e fs sdir version goal leading k cb (a # as) vc tot s =
     (if length (variant_name goal a) \<ge> 384 then ((-1, s), vc)
      else case view_open_cached e fs vc (variant_name goal a) version sdir of
        (None, vc1) \<Rightarrow> ((-1, s), vc1)
      | (Some v, vc1) \<Rightarrow>
          (case view_prefix e v a leading k cb s of (n, s1) \<Rightarrow>
             if n < 0 then ((-1, s1), vc1)
             else scan_variants e fs sdir version goal leading k cb as vc1 (tot + n) s1))"

definition snapshot_query_scan ::
  "engine \<Rightarrow> files \<Rightarrow> string \<Rightarrow> u32 \<Rightarrow> view_cache_slot list \<Rightarrow> string \<Rightarrow> tuple option \<Rightarrow> nat \<Rightarrow> 's enum_cb \<Rightarrow> 's \<Rightarrow>
   (int \<times> 's) \<times> view_cache_slot list" where
  "snapshot_query_scan e fs dir snap_version vc goal leading k cb s =
     (let sdir = snapshot_dir dir snap_version in
      case manifest_find_rel_ex fs sdir goal True of (rc, arity, variadic) \<Rightarrow>
        if rc = 0 then ((-1, s), vc)
        else if variadic then
          (if k > MAX_ARITY then ((-1, s), vc)
           else if k > 0 \<and> leading = None then ((-1, s), vc)
           else scan_variants e fs sdir snap_version goal leading k cb
             (filter (\<lambda>a. a \<in> manifest_find_variants fs sdir goal) [(if k > 0 then k else 1)..<Suc MAX_ARITY]) vc 0 s)
        else if k > arity then ((-1, s), vc)
        else if k > 0 \<and> leading = None then ((-1, s), vc)
        else case view_open_cached e fs vc goal snap_version sdir of
          (None, vc1) \<Rightarrow> ((-1, s), vc1)
        | (Some v, vc1) \<Rightarrow> (view_prefix e v arity leading k cb s, vc1))"

subsection \<open>The cache is transparent\<close>

text \<open>Every occupied slot holds what opening the file it names, in the version it names, gives; slots
  are named by at most 63 characters.\<close>

definition slot_ok :: "engine \<Rightarrow> files \<Rightarrow> string \<Rightarrow> view_cache_slot \<Rightarrow> bool" where
  "slot_ok e fs dir s \<longleftrightarrow> (\<forall>v. vc_view s = Some v \<longrightarrow>
     dafsa_view_open e (fs (rel_file (snapshot_dir dir (vc_version s)) (vc_rel_name s))) = Some v)"

definition vcache_ok :: "engine \<Rightarrow> files \<Rightarrow> string \<Rightarrow> view_cache_slot list \<Rightarrow> bool" where
  "vcache_ok e fs dir vc \<longleftrightarrow> length vc = DL_VIEW_CACHE_SZ \<and> (\<forall>s \<in> set vc. slot_ok e fs dir s)"

lemma slot_scan_sound:
  assumes "slot_scan name version slots i free lru = (hit, free', l)" "fst lru < i + length slots" "free = Some f \<longrightarrow> f < i + length slots"
  shows "(\<forall>j. hit = Some j \<longrightarrow> i \<le> j \<and> j < i + length slots \<and> slot_hit name version (slots ! (j - i))) \<and>
    (hit = None \<longrightarrow> (\<forall>s \<in> set slots. \<not> slot_hit name version s)) \<and> l < i + length slots \<and>
    (\<forall>j. free' = Some j \<longrightarrow> free = Some j \<or> i \<le> j \<and> j < i + length slots \<and> vc_view (slots ! (j - i)) = None)"
  using assms
proof (induction slots arbitrary: i free lru)
  case (Cons s slots)
  show ?case
  proof (cases "slot_hit name version s")
    case False
    let ?free = "if vc_view s = None \<and> free = None then Some i else free"
    let ?lru = "if vc_used s < snd lru then (i, vc_used s) else lru"
    have step: "slot_scan name version slots (i + 1) ?free ?lru = (hit, free', l)" using Cons.prems(1) False by simp
    have lru: "fst ?lru < i + 1 + length slots" using Cons.prems(2) by auto
    have fr: "free = Some f \<longrightarrow> f < i + 1 + length slots" using Cons.prems(3) by simp
    have "(\<forall>j. hit = Some j \<longrightarrow> i + 1 \<le> j \<and> j < i + 1 + length slots \<and> slot_hit name version (slots ! (j - (i + 1)))) \<and>
      (hit = None \<longrightarrow> (\<forall>s \<in> set slots. \<not> slot_hit name version s)) \<and> l < i + 1 + length slots \<and>
      (\<forall>j. free' = Some j \<longrightarrow> ?free = Some j \<or> i + 1 \<le> j \<and> j < i + 1 + length slots \<and> vc_view (slots ! (j - (i + 1))) = None)"
      by (rule Cons.IH [OF step lru]) (use Cons.prems(3) in \<open>auto split: if_splits\<close>)
    then show ?thesis
      using False by (auto simp: nth_Cons' Suc_diff_le split: if_splits)
  qed (use Cons.prems in auto)
qed auto

lemma vcache_ok_nth: "vcache_ok e fs dir vc \<Longrightarrow> i < length vc \<Longrightarrow> slot_ok e fs dir (vc ! i)"
  by (simp add: vcache_ok_def)

lemma vcache_ok_update: "vcache_ok e fs dir vc \<Longrightarrow> slot_ok e fs dir s \<Longrightarrow> vcache_ok e fs dir (vc[i := s])"
  by (auto simp: vcache_ok_def dest!: set_update_subset_insert [THEN subsetD])

lemma open_cached_ok:
  assumes "vcache_ok e fs dir vc" "length name \<le> 63"
  obtains vc' where "view_open_cached e fs vc name version (snapshot_dir dir version) =
      (dafsa_view_open e (fs (rel_file (snapshot_dir dir version) name)), vc')" "vcache_ok e fs dir vc'"
proof -
  obtain hit free lru where s: "slot_scan name version vc 0 None (0, 0x7FFFFFFF) = (hit, free, lru)"
    by (metis prod_cases3)
  have len: "vc \<noteq> []" using assms(1) by (auto simp add: vcache_ok_def DL_VIEW_CACHE_SZ_def)
  note scan = slot_scan_sound [OF s, of 0, simplified, OF len]
  show thesis
  proof (cases hit)
    case (Some i)
    then have i: "i < length vc" "slot_hit name version (vc ! i)" using scan by auto
    then obtain v where v: "vc_view (vc ! i) = Some v" "vc_version (vc ! i) = version" "vc_rel_name (vc ! i) = name"
      by (auto simp: slot_hit_def)
    have ok: "slot_ok e fs dir (vc ! i)" by (rule vcache_ok_nth [OF assms(1) i(1)])
    show thesis
      by (rule that [of "vc[i := (vc ! i)\<lparr>vc_used := vc_used (vc ! i) + 1\<rparr>]"])
        (use s Some v ok in \<open>auto simp: view_open_cached_def slot_ok_def intro!: vcache_ok_update [OF assms(1)]\<close>)
  next
    case None
    show thesis
    proof (cases "dafsa_view_open e (fs (rel_file (snapshot_dir dir version) name))")
      case None
      then show thesis using \<open>hit = None\<close> s assms(1) by (intro that [of vc]) (simp_all add: view_open_cached_def)
    next
      case (Some v)
      show thesis
        by (rule that [of "vc[(case free of Some i \<Rightarrow> i | None \<Rightarrow> lru) :=
              \<lparr>vc_rel_name = strncpyZeroPad name, vc_view = Some v, vc_used = 1, vc_version = version\<rparr>]"])
          (use \<open>hit = None\<close> s Some assms(2) in \<open>auto simp: view_open_cached_def slot_ok_def strncpyZeroPad_def
            intro!: vcache_ok_update [OF assms(1)]\<close>)
    qed
  qed
qed

lemma invalidate_ok: "length vc = DL_VIEW_CACHE_SZ \<Longrightarrow> vcache_ok e fs dir (vcache_invalidate vc)"
  by (auto simp: vcache_ok_def vcache_invalidate_def slot_ok_def empty_slot_def)

lemma drop_ok: "vcache_ok e fs dir vc \<Longrightarrow> vcache_ok e fs dir (vcache_drop_version vc version)"
  by (auto simp: vcache_ok_def vcache_drop_version_def slot_ok_def empty_slot_def)

text \<open>After a version is dropped its files may change in any way: the rest of the cache stays right.\<close>

lemma drop_frees:
  assumes "vcache_ok e fs dir vc"
    and "\<And>v name. v \<noteq> version \<Longrightarrow> fs' (rel_file (snapshot_dir dir v) name) = fs (rel_file (snapshot_dir dir v) name)"
  shows "vcache_ok e fs' dir (vcache_drop_version vc version)"
  using assms by (auto simp: vcache_ok_def vcache_drop_version_def slot_ok_def empty_slot_def)

subsection \<open>Scans\<close>

text \<open>The published content of a file, and a file the publisher wrote for a relation of this arity.\<close>

definition snap_tuples :: "engine \<Rightarrow> files \<Rightarrow> string \<Rightarrow> u32 \<Rightarrow> string \<Rightarrow> nat \<Rightarrow> tuple set" where
  "snap_tuples e fs dir version name a = disk_tuples e fs a (Some (rel_file (snapshot_dir dir version) name))"

definition published :: "engine \<Rightarrow> files \<Rightarrow> string \<Rightarrow> u32 \<Rightarrow> string \<Rightarrow> nat \<Rightarrow> bool" where
  "published e fs dir version name a \<longleftrightarrow> length name \<le> 63 \<and> 1 \<le> a \<and> a \<le> MAX_ARITY \<and>
     dafsa_view_open e (fs (rel_file (snapshot_dir dir version) name)) \<noteq> None \<and>
     disk_ok e fs a (Some (rel_file (snapshot_dir dir version) name))"

lemma published_view:
  assumes "engine_ok e" "published e fs dir version name a"
  obtains v d where "dafsa_view_open e (fs (rel_file (snapshot_dir dir version) name)) = Some v" "view_of e v d"
    "keyed a d" "dtuples a d = snap_tuples e fs dir version name a"
proof -
  let ?p = "rel_file (snapshot_dir dir version) name"
  obtain v where v: "dafsa_view_open e (fs ?p) = Some v" using assms(2) by (auto simp: published_def)
  have "view_ok e" using assms(1) by (simp add: engine_ok_def)
  then obtain d where d: "dafsa_load e (fs ?p) = Some d" "view_of e v d" using v by (auto simp: view_ok_def)
  show thesis
    by (rule that [OF v d(2)])
      (use assms(2) d(1) in \<open>simp_all add: published_def disk_ok_def snap_tuples_def disk_tuples_def file_at_def\<close>)
qed

lemma view_prefix_ok:
  assumes "engine_ok e" "view_of e v d" "keyed a d" "a \<le> MAX_ARITY" "k \<le> a" "k \<le> length l"
  shows "prefix_spec (dtuples a d) (take k l) cb s (view_prefix e v a (Some l) k cb s)"
  using viewPrefixD_deliver [OF assms(2,3), of k l cb s] assms(4-6) by (simp add: view_prefix_def prefix_spec_def)

text \<open>Opening through the cache and enumerating one file.\<close>

lemma scan_one:
  assumes "engine_ok e" "published e fs dir version name a" "vcache_ok e fs dir vc" "k \<le> a" "k \<le> length l"
  obtains v vc' where "view_open_cached e fs vc name version (snapshot_dir dir version) = (Some v, vc')"
    "vcache_ok e fs dir vc'"
    "prefix_spec (snap_tuples e fs dir version name a) (take k l) cb s (view_prefix e v a (Some l) k cb s)"
proof -
  obtain v d where v: "dafsa_view_open e (fs (rel_file (snapshot_dir dir version) name)) = Some v" "view_of e v d"
    "keyed a d" "dtuples a d = snap_tuples e fs dir version name a"
    by (rule published_view [OF assms(1,2)])
  have n: "length name \<le> 63" "a \<le> MAX_ARITY" using assms(2) by (simp_all add: published_def)
  obtain vc' where vc': "view_open_cached e fs vc name version (snapshot_dir dir version) =
      (dafsa_view_open e (fs (rel_file (snapshot_dir dir version) name)), vc')" "vcache_ok e fs dir vc'"
    by (rule open_cached_ok [OF assms(3) n(1)])
  show thesis
    using that [of v vc'] vc' v(1) view_prefix_ok [OF assms(1) v(2,3) n(2) assms(4,5), of cb s] v(4) by simp
qed

lemma scan_variants_ok:
  assumes "engine_ok e" "k \<le> length l"
    and "\<forall>a \<in> set as. k \<le> a \<and> published e fs dir version (variant_name goal a) a \<and>
      {t \<in> R. length t = a} = snap_tuples e fs dir version (variant_name goal a) a"
  shows "vcache_ok e fs dir vc \<Longrightarrow>
    \<exists>vc'. scan_variants e fs (snapshot_dir dir version) version goal (Some l) k cb as vc tot s =
      (case fan_out cb R (take k l) as s of (n, s') \<Rightarrow> (tot + int n, s'), vc') \<and> vcache_ok e fs dir vc'"
  using assms(3)
proof (induction as arbitrary: vc tot s)
  case (Cons a as)
  have a: "k \<le> a" "published e fs dir version (variant_name goal a) a"
    "{t \<in> R. length t = a} = snap_tuples e fs dir version (variant_name goal a) a" using Cons.prems(2) by simp_all
  obtain v vc1 where v: "view_open_cached e fs vc (variant_name goal a) version (snapshot_dir dir version) = (Some v, vc1)"
    "vcache_ok e fs dir vc1"
    "prefix_spec (snap_tuples e fs dir version (variant_name goal a) a) (take k l) cb s (view_prefix e v a (Some l) k cb s)"
    by (rule scan_one [OF assms(1) a(2) Cons.prems(1) a(1) assms(2)])
  obtain n s1 where n: "deliver cb (sorted_list_of_set (matching {t \<in> R. length t = a} (take k l))) s = (n, s1)" by fastforce
  then have p: "view_prefix e v a (Some l) k cb s = (int n, s1)" using v(3) a(3) by (simp add: prefix_spec_def)
  have "length (variant_name goal a) < 384" using a(2) by (simp add: published_def)
  then show ?case
    using Cons.IH [OF v(2), of "tot + int n" s1] Cons.prems(2) v(1) p n by (auto split: prod.splits)
qed simp

lemma fan_out_none:
  assumes "{t \<in> R. length t = a} = {}"
  shows "fan_out cb R b (a # as) s = fan_out cb R b as s"
  unfolding fan_out.simps assms by (simp add: matching_def deliver_def split: prod.split)

lemma fan_out_filter:
  "\<forall>a \<in> set as. \<not> P a \<longrightarrow> {t \<in> R. length t = a} = {} \<Longrightarrow> fan_out cb R b (filter P as) s = fan_out cb R b as s"
proof (induction as arbitrary: s)
  case (Cons a as)
  show ?case
  proof (cases "P a")
    case False
    then have "{t \<in> R. length t = a} = {}" using Cons.prems by auto
    then have "fan_out cb R b (a # as) s = fan_out cb R b as s" by (rule fan_out_none)
    moreover have "fan_out cb R b (filter P as) s = fan_out cb R b as s" using Cons by simp
    moreover have "filter P (a # as) = filter P as" using False by simp
    ultimately show ?thesis by presburger
  qed (use Cons in \<open>simp split: prod.split\<close>)
qed simp

lemma snap_length: "t \<in> snap_tuples e fs dir version name a \<Longrightarrow> length t = a"
  by (auto simp: snap_tuples_def disk_tuples_def dtuples_def split: option.splits)

subsection \<open>The manifest a publish writes\<close>

definition num :: "nat \<Rightarrow> string" where "num n = of_bytes (dec n)"
definition kind_text :: "bool \<Rightarrow> string" where "kind_text idb = (if idb then ''idb'' else ''edb'')"

fun hex :: "nat \<Rightarrow> string" where
  "hex n = (if n < 16 then [''0123456789abcdef'' ! n] else hex (n div 16) @ [''0123456789abcdef'' ! (n mod 16)])"

declare hex.simps [simp del]

definition fixed_line :: "string \<Rightarrow> relation \<Rightarrow> string" where
  "fixed_line name r = name @ '':'' @ num (r_arity r) @ '':'' @ kind_text (rel_is_idb r)"

definition variadic_lines :: "string \<Rightarrow> vrelation \<Rightarrow> string list" where
  "variadic_lines name v =
     (name @ '':*:'' @ kind_text (vrel_any_idb v \<noteq> 0)) #
     concat (map (\<lambda>a. case vrel_variant_or_null v a of
         None \<Rightarrow> []
       | Some r \<Rightarrow> [variant_name name a @ '':'' @ num a @ '':'' @ kind_text (rel_is_idb r)]) (arities_from 1))"

definition entry_lines :: "rel_entry \<Rightarrow> string list" where
  "entry_lines e =
     (if re_kind e = RELK_VARIADIC then variadic_lines (re_name e) (the (re_vrel e))
      else [fixed_line (re_name e) (the (re_rel e))])"

definition perm_lines :: "dl_db \<Rightarrow> string list" where
  "perm_lines db = concat (map (\<lambda>i. let pe = db_perms db ! i; name = re_name (db_rels db ! nat (pe_rel_id pe)) in
      if pe_pidx_rel pe = None then []
      else [snprintf 128 (name @ ''__PI'' @ hex i @ ''__'') @ '':'' @ num (pe_arity pe) @ '' # perm index of '' @ name])
    [0..<length (db_perms db)])"

text \<open>The stamp of the symbols is text of the interner; it is a directive line.\<close>

definition manifest_text :: "u32 \<Rightarrow> string \<Rightarrow> dl_db \<Rightarrow> bytes" where
  "manifest_text version stamp db =
     concat (map (\<lambda>l. to_bytes l @ [nl])
       ((''# Datalog-DAFSA snapshot version '' @ num (unat version)) # (''D:symbols:'' @ stamp) #
        concat (map entry_lines (db_rels db)) @ perm_lines db))"

text \<open>Names the manifest can carry: no separator, no end of line or of string, no dot, and not a
  comment or a directive.\<close>

definition plain_name :: "string \<Rightarrow> bool" where
  "plain_name n \<longleftrightarrow> n \<noteq> [] \<and> hd n \<noteq> CHR ''#'' \<and> hd n \<noteq> CHR ''D'' \<and>
     (\<forall>c \<in> set n. c \<noteq> CHR '':'' \<and> c \<noteq> CHR ''.'' \<and> c \<noteq> char_of (0 :: nat) \<and> c \<noteq> char_of (10 :: nat))"

text \<open>What the lookups find for a declared relation.\<close>

definition listed_spec :: "rel_entry \<Rightarrow> int \<times> nat \<times> bool \<Rightarrow> bool" where
  "listed_spec e res \<longleftrightarrow>
     res = (if re_kind e = RELK_VARIADIC then (1, 0, True) else (1, re_arity e, False))"

definition variants_spec :: "rel_entry \<Rightarrow> nat set \<Rightarrow> bool" where
  "variants_spec e present \<longleftrightarrow>
     present = (case re_vrel e of None \<Rightarrow> {} | Some v \<Rightarrow> {a. vrel_variant_or_null v a \<noteq> None})"

subsection \<open>Reading it back\<close>

definition byte :: "char \<Rightarrow> u8" where
  "byte c = of_nat (of_char c)"

lemma byte_eq [simp]: "byte c = byte d \<longleftrightarrow> c = d"
proof
  assume "byte c = byte d"
  then have "unat (byte c) = unat (byte d)" by simp
  then show "c = d" by (simp add: byte_def unat_of_nat)
qed simp

lemma to_bytes: "to_bytes s = map byte s"
  by (simp add: to_bytes_def byte_def)

lemma to_bytes_eq [simp]: "to_bytes s = to_bytes t \<longleftrightarrow> s = t"
  unfolding to_bytes by (rule inj_map_eq_map) (simp add: inj_def)

lemma to_bytes_append: "to_bytes (s @ t) = to_bytes s @ to_bytes t"
  by (simp add: to_bytes)

lemma byte_of [simp]: "byte (char_of (unat b)) = b"
  by (simp add: byte_def unat_u8_less [simplified])

lemma to_bytes_of [simp]: "to_bytes (of_bytes bs) = bs"
  by (simp add: to_bytes of_bytes_def o_def)

lemma to_bytes_num: "to_bytes (num n) = dec n"
  by (simp add: num_def)

lemma byte_at:
  "byte (CHR '':'') = colon" "byte (char_of (10 :: nat)) = nl" "byte (char_of (0 :: nat)) = 0"
  "byte (CHR ''#'') = 35" "byte (CHR ''D'') = 68" "byte (CHR ''.'') = 46" "byte (CHR ''*'') = 42"
  by (simp_all add: byte_def colon_def nl_def)

lemma byte_special [simp]:
  "byte c = colon \<longleftrightarrow> c = CHR '':''" "byte c = nl \<longleftrightarrow> c = char_of (10 :: nat)" "byte c = 0 \<longleftrightarrow> c = char_of (0 :: nat)"
  "byte c = 35 \<longleftrightarrow> c = CHR ''#''" "byte c = 68 \<longleftrightarrow> c = CHR ''D''" "byte c = 46 \<longleftrightarrow> c = CHR ''.''" "byte c = 42 \<longleftrightarrow> c = CHR ''*''"
  by (metis byte_at byte_eq)+

lemma lines_of_line: "nl \<notin> set l \<Longrightarrow> lines_of acc (l @ nl # rest) = (acc @ l @ [nl]) # lines_of [] rest"
  by (induction l arbitrary: acc) auto

lemma lines_of_concat:
  "\<forall>l \<in> set ls. nl \<notin> set (to_bytes l) \<Longrightarrow>
    lines_of [] (concat (map (\<lambda>l. to_bytes l @ [nl]) ls)) = map (\<lambda>l. to_bytes l @ [nl]) ls"
  by (induction ls) (simp_all add: lines_of_line)

text \<open>A line of the shape left, colon, rest.\<close>

lemma chomp_line:
  assumes "nl \<notin> set l"
  obtains "chompLine (l @ [nl]) = l" | "l \<noteq> []" "last l = 13" "chompLine (l @ [nl]) = butlast l"
  by (cases "l \<noteq> [] \<and> last l = 13") (auto simp: chompLine_def Let_def)

lemma manifest_line_colon:
  assumes "colon \<notin> set left" "left \<noteq> [] \<Longrightarrow> hd left \<noteq> 35 \<and> hd left \<noteq> 68" "nl \<notin> set rest" "nl \<notin> set left" "rest = [] \<or> last rest \<noteq> 13"
  shows "manifest_line (left @ colon # rest @ [nl]) = Some (left, rest)"
proof -
  have "last (left @ colon # rest) \<noteq> 13" using assms(5) by (cases "rest = []") (simp_all add: colon_def)
  then have "chompLine ((left @ colon # rest) @ [nl]) = left @ colon # rest"
    unfolding chompLine_def Let_def butlast_snoc last_snoc by simp
  moreover have "hd (left @ colon # rest) \<noteq> 35 \<and> hd (left @ colon # rest) \<noteq> 68"
    using assms(2) by (cases left) (auto simp: colon_def)
  moreover have "takeWhile (\<lambda>b. b \<noteq> colon) (left @ colon # rest) = left" "dropWhile (\<lambda>b. b \<noteq> colon) (left @ colon # rest) = colon # rest"
    using assms(1) by (auto simp: takeWhile_append dropWhile_append dest: set_dropWhileD)
  ultimately show ?thesis by (simp add: manifest_line_def Let_def)
qed

lemma ucast_digit: "d < 10 \<Longrightarrow> ucast (of_nat (48 + d) - 48 :: u8) = (of_nat d :: 32 word)"
  by (simp add: word_unat_eq_iff unsigned_ucast_eq unat_of_nat take_bit_nat_eq_self)

lemma atoi_digits_dec:
  assumes "n < 2 ^ 31" "rest = [] \<or> \<not> is_digit (hd rest)"
  shows "atoi_digits (dec n @ rest) 0 = of_nat n"
proof -
  have step: "atoi_digits (dec n @ tail) 0 = atoi_digits tail (of_nat n)" for tail
  proof (induction n arbitrary: tail rule: dec.induct)
    case (1 n)
    show ?case
    proof (cases "n < 10")
      case True
      then show ?thesis using ucast_digit [OF True] is_digit_of [OF True] by (simp add: dec.simps [of n])
    next
      case False
      have d: "n mod 10 < 10" by simp
      have "dec n = dec (n div 10) @ [of_nat (48 + n mod 10)]" using False by (subst dec.simps) simp
      moreover have "(of_nat (n div 10) * 10 + of_nat (n mod 10) :: 32 word) = of_nat n"
        by (metis div_mult_mod_eq of_nat_add of_nat_mult of_nat_numeral)
      ultimately show ?thesis using 1 False is_digit_of [OF d] ucast_digit [OF d] by simp
    qed
  qed
  show ?thesis using step [of rest] assms(2) by (cases rest) auto
qed
lemma atoiC_dec:
  assumes "n < 2 ^ 31"
  shows "atoiC (dec n @ colon # rest) = int n"
proof -
  obtain b bs where b: "dec n = b # bs" using dec_ne [of n] by (cases "dec n") auto
  have d: "is_digit b" by (rule dec_digits [of _ n]) (simp add: b)
  have "\<not> is_digit colon" by (simp add: is_digit_def colon_def)
  then have "atoi_digits (dec n @ colon # rest) 0 = of_nat n" using atoi_digits_dec [OF assms] by simp
  moreover have "sint (of_nat n :: 32 word) = int n"
    using assms by (simp add: signed_of_nat signed_take_bit_int_eq_self del: sint_sbintrunc')
  ultimately show ?thesis using digit_not_special [OF d] b by (simp add: atoiC_def Let_def)
qed

lemma cstr_id: "0 \<notin> set bs \<Longrightarrow> cstr bs = bs"
  unfolding cstr_def takeWhile_eq_all_conv by metis

definition parsed :: "string \<Rightarrow> (bytes \<times> bytes) option" where
  "parsed l = manifest_line (to_bytes l @ [nl])"

definition tail_of :: "nat \<Rightarrow> bool \<Rightarrow> bytes" where
  "tail_of a idb = dec a @ colon # to_bytes (kind_text idb)"

lemma kind_bytes: "to_bytes (kind_text idb) = (if idb then [105, 100, 98] else [101, 100, 98])"
  by (simp add: kind_text_def to_bytes byte_def)

lemma dec_clean: "0 \<notin> set (dec n)" "nl \<notin> set (dec n)" "colon \<notin> set (dec n)" "46 \<notin> set (dec n)" "42 \<notin> set (dec n)"
  using dec_digits [of _ n] by (fastforce simp: is_digit_def nl_def colon_def)+

lemma tail_clean: "0 \<notin> set (tail_of a idb)" "nl \<notin> set (tail_of a idb)" "last (tail_of a idb) \<noteq> 13"
  using dec_clean [of a] by (auto simp: tail_of_def kind_bytes colon_def nl_def)

lemma tail_number: "a < 2 ^ 31 \<Longrightarrow> atoiC (cstr (tail_of a idb)) = int a"
  unfolding cstr_id [OF tail_clean(1)] by (simp add: tail_of_def atoiC_dec)

lemma tail_hd: "tail_of a idb \<noteq> [] \<and> hd (tail_of a idb) \<noteq> 42"
  using dec_clean(5) [of a] dec_ne [of a] by (cases "dec a") (auto simp: tail_of_def)

lemma plain_clean:
  assumes "plain_name n"
  shows "colon \<notin> set (to_bytes n)" "nl \<notin> set (to_bytes n)" "0 \<notin> set (to_bytes n)" "46 \<notin> set (to_bytes n)"
    "to_bytes n \<noteq> []" "hd (to_bytes n) \<noteq> 35" "hd (to_bytes n) \<noteq> 68"
proof -
  have n: "n \<noteq> []" "hd n \<noteq> CHR ''#''" "hd n \<noteq> CHR ''D''"
    "\<forall>c \<in> set n. c \<noteq> CHR '':'' \<and> c \<noteq> CHR ''.'' \<and> c \<noteq> char_of (0 :: nat) \<and> c \<noteq> char_of (10 :: nat)"
    using assms unfolding plain_name_def by blast+
  have char: "b \<in> set (to_bytes n) \<Longrightarrow> \<exists>c \<in> set n. b = byte c" for b by (auto simp: to_bytes)
  show "colon \<notin> set (to_bytes n)" "nl \<notin> set (to_bytes n)" "0 \<notin> set (to_bytes n)" "46 \<notin> set (to_bytes n)"
    using char n(4) byte_special by metis+
  show "to_bytes n \<noteq> []" using n(1) by (simp add: to_bytes)
  have "hd (to_bytes n) = byte (hd n)" using n(1) by (simp add: to_bytes hd_map)
  then show "hd (to_bytes n) \<noteq> 35" "hd (to_bytes n) \<noteq> 68" using n(2,3) byte_special(4,5) by metis+
qed

lemma parsed_named:
  assumes "plain_name n"
  shows "parsed (n @ '':'' @ num a @ '':'' @ kind_text idb) = Some (to_bytes n, tail_of a idb)"
    "parsed (n @ '':*:'' @ kind_text idb) = Some (to_bytes n, 42 # colon # to_bytes (kind_text idb))"
    "parsed (variant_name n b @ '':'' @ num a @ '':'' @ kind_text idb) = Some (to_bytes n @ 46 # dec b, tail_of a idb)"
proof -
  note c = plain_clean [OF assms]
  have col: "to_bytes '':'' = [colon]" "to_bytes ''.'' = [46]" "to_bytes '':*:'' = [colon, 42, colon]"
    by (simp_all add: to_bytes byte_at)
  note bytes = parsed_def to_bytes_append col to_bytes_num variant_name_def tail_of_def
  have eq: "to_bytes (n @ '':'' @ num a @ '':'' @ kind_text idb) @ [nl] = to_bytes n @ colon # tail_of a idb @ [nl]"
    "to_bytes (n @ '':*:'' @ kind_text idb) @ [nl] = to_bytes n @ colon # (42 # colon # to_bytes (kind_text idb)) @ [nl]"
    "to_bytes (variant_name n b @ '':'' @ num a @ '':'' @ kind_text idb) @ [nl] =
       (to_bytes n @ 46 # dec b) @ colon # tail_of a idb @ [nl]"
    unfolding variant_name_def num_def to_bytes_append col tail_of_def by simp_all
  have h: "hd (to_bytes n @ xs) \<noteq> 35 \<and> hd (to_bytes n @ xs) \<noteq> 68" for xs using c(5-7) by (cases "to_bytes n") auto
  show "parsed (n @ '':'' @ num a @ '':'' @ kind_text idb) = Some (to_bytes n, tail_of a idb)"
    unfolding parsed_def eq by (rule manifest_line_colon) (use c tail_clean in auto)
  show "parsed (n @ '':*:'' @ kind_text idb) = Some (to_bytes n, 42 # colon # to_bytes (kind_text idb))"
    unfolding parsed_def eq by (rule manifest_line_colon) (use c in \<open>auto simp: kind_bytes colon_def nl_def\<close>)
  show "parsed (variant_name n b @ '':'' @ num a @ '':'' @ kind_text idb) = Some (to_bytes n @ 46 # dec b, tail_of a idb)"
    unfolding parsed_def eq
    by (rule manifest_line_colon) (use c tail_clean dec_clean [of b] h in \<open>auto simp: colon_def nl_def\<close>)
qed

lemma parsed_comment: "parsed (CHR ''#'' # l) = None" "parsed (CHR ''D'' # l) = None"
  by (auto simp: parsed_def to_bytes manifest_line_def chompLine_def Let_def byte_at)

lemma chomp_subset: "set (chompLine raw) \<subseteq> set raw"
  by (auto simp: chompLine_def Let_def dest!: in_set_butlastD)

lemma manifest_line_left:
  assumes "manifest_line raw = Some (left, rest)"
  shows "set left \<subseteq> set raw"
proof -
  have "left = takeWhile (\<lambda>b. b \<noteq> colon) (chompLine raw)" using assms by (simp add: manifest_line_def Let_def split: if_splits)
  then have "set left \<subseteq> set (chompLine raw)" by (auto dest: set_takeWhileD)
  then show ?thesis using chomp_subset by (rule order_trans)
qed

lemma find_line_skip:
  "\<forall>raw \<in> set raws. \<forall>left rest. manifest_line raw = Some (left, rest) \<longrightarrow> cstr left \<noteq> name \<Longrightarrow>
    find_line (raws @ later) name w = find_line later name w"
  by (induction raws) (auto split: option.splits)

text \<open>What every line of an entry parses to.\<close>

lemma entry_line_cases:
  assumes "l \<in> set (entry_lines e)" "plain_name (re_name e)" "entry_ok en fs e"
  obtains (fixed) "re_kind e \<noteq> RELK_VARIADIC" "parsed l = Some (to_bytes (re_name e), tail_of (re_arity e) (rel_is_idb (the (re_rel e))))"
  | (marker) k where "re_kind e = RELK_VARIADIC" "parsed l = Some (to_bytes (re_name e), 42 # colon # to_bytes (kind_text k))"
  | (variant) a k v where "re_kind e = RELK_VARIADIC" "re_vrel e = Some v" "1 \<le> a" "a \<le> 8" "vrel_variant_or_null v a \<noteq> None"
      "parsed l = Some (to_bytes (re_name e) @ 46 # dec a, tail_of a k)"
proof (cases "re_kind e = RELK_VARIADIC")
  case False
  then obtain r where "re_rel e = Some r" "r_arity r = re_arity e" using assms(3) by (auto simp: entry_ok_def)
  then have "l = re_name e @ '':'' @ num (re_arity e) @ '':'' @ kind_text (rel_is_idb (the (re_rel e)))"
    using assms(1) False by (simp add: entry_lines_def fixed_line_def)
  then show thesis using fixed [OF False] parsed_named(1) [OF assms(2)] by simp
next
  case True
  then obtain v where v: "re_vrel e = Some v" using assms(3) by (auto simp: entry_ok_def)
  then have "l \<in> set (variadic_lines (re_name e) v)" using assms(1) True by (simp add: entry_lines_def)
  then consider "l = re_name e @ '':*:'' @ kind_text (vrel_any_idb v \<noteq> 0)"
    | a r where "a \<in> set (arities_from 1)" "Some r = vrel_variant_or_null v a"
        "l = variant_name (re_name e) a @ '':'' @ num a @ '':'' @ kind_text (rel_is_idb r)"
    by (auto simp: variadic_lines_def split: option.splits)
  then show thesis
  proof cases
    case 1
    then show thesis using marker [OF True] parsed_named(2) [OF assms(2)] by simp
  next
    case (2 a r)
    then have "1 \<le> a" "a \<le> 8" by (simp_all add: arities_from_def MAX_VAR_ARITY_def)
    moreover have "vrel_variant_or_null v a \<noteq> None" unfolding 2(2) [symmetric] by simp
    ultimately show thesis using variant [OF True v] 2(3) parsed_named(3) [OF assms(2)] by simp
  qed
qed

lemma entry_line_name:
  assumes "l \<in> set (entry_lines e)" "plain_name (re_name e)" "entry_ok en fs e" "parsed l = Some (left, rest)"
    "plain_name n" "cstr left = to_bytes n"
  shows "re_name e = n"
  using assms(1-3)
proof (cases rule: entry_line_cases)
  case (variant a k v)
  then have left: "left = to_bytes (re_name e) @ 46 # dec a" using assms(4) by simp
  then have "0 \<notin> set left" using plain_clean(3) [OF assms(2)] dec_clean(1) [of a] by simp
  then have "46 \<in> set (to_bytes n)" using assms(6) left by (metis cstr_id in_set_conv_decomp)
  then show ?thesis using plain_clean(4) [OF assms(5)] by simp
qed (use assms(4,6) plain_clean(3) [OF assms(2)] in \<open>simp_all add: cstr_id\<close>)

lemma find_listed_entry:
  assumes "plain_name (re_name e)" "entry_ok en fs e"
  shows "find_line (map (\<lambda>l. to_bytes l @ [nl]) (entry_lines e) @ later) (to_bytes (re_name e)) True =
    (if re_kind e = RELK_VARIADIC then (1, 0, True) else (1, re_arity e, False))"
proof (cases "re_kind e = RELK_VARIADIC")
  case True
  obtain l ls where l: "entry_lines e = l # ls" "l = re_name e @ '':*:'' @ kind_text (vrel_any_idb (the (re_vrel e)) \<noteq> 0)"
    using True by (simp add: entry_lines_def variadic_lines_def)
  have "manifest_line (to_bytes l @ [nl]) = Some (to_bytes (re_name e), 42 # colon # to_bytes (kind_text (vrel_any_idb (the (re_vrel e)) \<noteq> 0)))"
    using parsed_named(2) [OF assms(1)] l(2) by (simp add: parsed_def)
  then show ?thesis using True l(1) plain_clean(3) [OF assms(1)] by (simp add: cstr_id)
next
  case False
  obtain r where r: "re_rel e = Some r" "rel_ok en fs r" "r_arity r = re_arity e"
    using False assms(2) by (auto simp: entry_ok_def)
  have a: "1 \<le> re_arity e" "re_arity e \<le> 8" using r(2,3) by (simp_all add: rel_ok_def MAX_ARITY_def)
  have l: "entry_lines e = [re_name e @ '':'' @ num (re_arity e) @ '':'' @ kind_text (rel_is_idb r)]"
    using False r(1,3) by (simp add: entry_lines_def fixed_line_def)
  have "manifest_line (to_bytes (re_name e @ '':'' @ num (re_arity e) @ '':'' @ kind_text (rel_is_idb r)) @ [nl]) =
      Some (to_bytes (re_name e), tail_of (re_arity e) (rel_is_idb r))"
    using parsed_named(1) [OF assms(1)] by (simp add: parsed_def)
  moreover have "atoiC (cstr (tail_of (re_arity e) (rel_is_idb r))) = int (re_arity e)"
    using a by (intro tail_number) simp
  ultimately show ?thesis
    using False a tail_hd plain_clean(3) [OF assms(1)] unfolding l by (simp add: cstr_id)
qed

text \<open>The whole text, line by line.\<close>

definition manifest_lines :: "u32 \<Rightarrow> string \<Rightarrow> dl_db \<Rightarrow> string list" where
  "manifest_lines version stamp db =
     (''# Datalog-DAFSA snapshot version '' @ num (unat version)) # (''D:symbols:'' @ stamp) #
       concat (map entry_lines (db_rels db)) @ perm_lines db"

definition quiet :: "char set" where
  "quiet = - {CHR ''.'', char_of (10 :: nat)}"

lemma newline_char: "char_of (10 :: nat) = CHR 0x0A" "char_of (0 :: nat) = CHR 0x00"
  by (simp_all add: char_of_def bit_0)

lemma quietD: "set s \<subseteq> quiet \<Longrightarrow> char_of (10 :: nat) \<notin> set s"
  by (auto simp: quiet_def)

lemma quiet_num: "set (num n) \<subseteq> quiet"
proof
  fix c assume "c \<in> set (num n)"
  then have "byte c \<in> set (to_bytes (num n))" by (simp add: to_bytes)
  then have "byte c \<in> set (dec n)" by (simp add: to_bytes_num)
  then have "byte c \<noteq> 46" "byte c \<noteq> nl" using dec_clean(2,4) [of n] by metis+
  then show "c \<in> quiet" by (simp add: quiet_def)
qed

lemma quiet_hex: "set (hex n) \<subseteq> quiet"
proof -
  have digits: "set ''0123456789abcdef'' \<subseteq> quiet" by (simp add: quiet_def newline_char)
  have nth: "k < 16 \<Longrightarrow> ''0123456789abcdef'' ! k \<in> quiet" for k
    by (rule subsetD [OF digits]) (rule nth_mem, simp)
  show ?thesis
  proof (induction n rule: hex.induct)
    case (1 n)
    then show ?case using nth [of n] nth [of "n mod 16"] by (subst hex.simps) auto
  qed
qed

lemma quiet_kind: "set (kind_text k) \<subseteq> quiet"
  by (simp add: kind_text_def quiet_def newline_char)

lemma quiet_name: "plain_name n \<Longrightarrow> set n \<subseteq> quiet"
  by (auto simp: plain_name_def quiet_def)

lemma entry_line_nl:
  assumes "l \<in> set (entry_lines e)" "plain_name (re_name e)"
  shows "char_of (10 :: nat) \<notin> set l"
proof -
  have no: "char_of (10 :: nat) \<notin> set (re_name e)" "\<And>n. char_of (10 :: nat) \<notin> set (num n)" "\<And>k. char_of (10 :: nat) \<notin> set (kind_text k)"
    by (rule quietD, rule quiet_name [OF assms(2)], rule quietD, rule quiet_num, rule quietD, rule quiet_kind)
  have v: "char_of (10 :: nat) \<notin> set (variant_name (re_name e) a)" for a
    unfolding variant_name_def num_def [symmetric] using no by (simp add: newline_char)
  have "char_of (10 :: nat) \<noteq> CHR '':''" "char_of (10 :: nat) \<noteq> CHR ''*''" by (simp_all add: newline_char)
  then show ?thesis
    using assms(1) no v by (auto simp: entry_lines_def variadic_lines_def fixed_line_def split: if_splits option.splits)
qed

lemma perm_line_quiet:
  assumes "db_ok en fs db" "\<forall>e \<in> set (db_rels db). plain_name (re_name e)" "l \<in> set (perm_lines db)"
  shows "set l \<subseteq> quiet"
proof -
  obtain i where i: "i < length (db_perms db)"
    and l: "l = (let pe = db_perms db ! i; name = re_name (db_rels db ! nat (pe_rel_id pe)) in
      snprintf 128 (name @ ''__PI'' @ hex i @ ''__'') @ '':'' @ num (pe_arity pe) @ '' # perm index of '' @ name)"
    using assms(3) by (auto simp: perm_lines_def Let_def split: if_splits)
  let ?name = "re_name (db_rels db ! nat (pe_rel_id (db_perms db ! i)))"
  have "entry_at db (pe_rel_id (db_perms db ! i)) \<noteq> None" using assms(1) i by (simp add: db_ok_def)
  then have "db_rels db ! nat (pe_rel_id (db_perms db ! i)) \<in> set (db_rels db)" by (simp add: entry_at_def split: if_splits)
  then have name: "set ?name \<subseteq> quiet" using assms(2) by (intro quiet_name) simp
  have "set (?name @ ''__PI'' @ hex i @ ''__'') \<subseteq> quiet" using name quiet_hex [of i] by (simp add: quiet_def newline_char)
  then have "set (snprintf 128 (?name @ ''__PI'' @ hex i @ ''__'')) \<subseteq> quiet"
    unfolding snprintf_def by (rule order_trans [OF set_take_subset])
  moreover have "set '':'' \<subseteq> quiet" "set '' # perm index of '' \<subseteq> quiet" by (simp_all add: quiet_def newline_char)
  ultimately show ?thesis unfolding l Let_def set_append using name quiet_num by (simp only: Un_least)
qed

lemma manifest_read:
  assumes "db_ok en fs db" "\<forall>e \<in> set (db_rels db). plain_name (re_name e)" "char_of (10 :: nat) \<notin> set stamp"
  shows "lines_of [] (manifest_text version stamp db) = map (\<lambda>l. to_bytes l @ [nl]) (manifest_lines version stamp db)"
proof -
  have clean: "char_of (10 :: nat) \<notin> set l" if l: "l \<in> set (manifest_lines version stamp db)" for l
  proof -
    consider "l = ''# Datalog-DAFSA snapshot version '' @ num (unat version)" | "l = ''D:symbols:'' @ stamp"
      | e where "e \<in> set (db_rels db)" "l \<in> set (entry_lines e)" | "l \<in> set (perm_lines db)"
      using l by (auto simp: manifest_lines_def)
    then show ?thesis
    proof cases
      case 1
      then show ?thesis using quiet_num [of "unat version"] by (auto simp: newline_char quiet_def)
    next
      case 2
      then show ?thesis using assms(3) by (auto simp: newline_char)
    next
      case 3
      then show ?thesis using entry_line_nl assms(2) by blast
    next
      case 4
      then show ?thesis using perm_line_quiet [OF assms(1,2)] by (auto simp: quiet_def)
    qed
  qed
  have "nl \<notin> set (to_bytes l)" if "l \<in> set (manifest_lines version stamp db)" for l
    using clean [OF that] by (auto simp: to_bytes dest: sym)
  then show ?thesis
    unfolding manifest_text_def manifest_lines_def [symmetric] by (intro lines_of_concat) blast
qed

text \<open>The variants a name has on a line.\<close>

lemma variant_line_digit:
  assumes "manifest_line raw = Some (to_bytes n' @ [46, b], rest)" "49 \<le> b" "b \<le> 56" "atoiC (cstr rest) = int (unat b - 48)"
  shows "variant_line (to_bytes n) raw = (if n' = n then Some (unat b - 48) else None)"
proof -
  have len: "length (to_bytes n) = length n" "length (to_bytes n') = length n'" by (simp_all add: to_bytes)
  show ?thesis
  proof (cases "length n' = length n")
    case True
    then have "take (length n) (to_bytes n') = to_bytes n'" "(to_bytes n' @ [46, b]) ! length n = 46"
      "(to_bytes n' @ [46, b]) ! Suc (length n) = b"
      using len by (simp_all add: nth_append)
    then show ?thesis
      using assms True by (cases "n' = n") (simp_all add: variant_line_def len Let_def)
  next
    case False
    then have "n' \<noteq> n" by blast
    then show ?thesis using assms(1) False by (simp add: variant_line_def len Let_def)
  qed
qed

lemma variant_line_variant:
  assumes "manifest_line raw = Some (to_bytes n' @ 46 # dec a, tail_of a k)" "1 \<le> a" "a \<le> 8"
  shows "variant_line (to_bytes n) raw = (if n' = n then Some a else None)"
proof -
  have d: "dec a = [of_nat (48 + a)]" using assms(3) by (subst dec.simps) simp
  have u: "unat (of_nat (48 + a) :: u8) = 48 + a" using assms(3) by (intro unat_digit) simp
  have range: "(49 :: u8) \<le> of_nat (48 + a)" "of_nat (48 + a) \<le> (56 :: u8)"
    unfolding word_le_nat_alt u using assms(2,3) by simp_all
  have num: "atoiC (cstr (tail_of a k)) = int (unat (of_nat (48 + a) :: u8) - 48)"
    unfolding u using assms(3) by (subst tail_number) simp_all
  show ?thesis using variant_line_digit [OF assms(1) [unfolded d] range num] unfolding u by simp
qed

lemma variant_line_none:
  assumes "\<And>left rest. manifest_line raw = Some (left, rest) \<Longrightarrow> 46 \<notin> set left"
  shows "variant_line name raw = None"
proof (cases "manifest_line raw")
  case (Some p)
  obtain left rest where p: "p = (left, rest)" by fastforce
  have "46 \<notin> set left" using assms Some p by blast
  have "left ! length name \<noteq> 46" if "length left = length name + 2"
  proof -
    have "left ! length name \<in> set left" by (rule nth_mem) (simp add: that)
    then show ?thesis using \<open>46 \<notin> set left\<close> by metis
  qed
  then show ?thesis using Some p by (auto simp: variant_line_def Let_def)
qed (simp add: variant_line_def)

lemma variant_line_entry:
  assumes "l \<in> set (entry_lines e)" "plain_name (re_name e)" "entry_ok en fs e"
    "variant_line (to_bytes n) (to_bytes l @ [nl]) = Some a"
  shows "re_name e = n \<and> (\<exists>v. re_vrel e = Some v \<and> vrel_variant_or_null v a \<noteq> None)"
  using assms(1-3)
proof (cases rule: entry_line_cases)
  case (variant b k v)
  then show ?thesis
    using variant_line_variant [of "to_bytes l @ [nl]" "re_name e" b k n] assms(4)
    by (auto simp: parsed_def split: if_splits)
qed (use variant_line_none [of "to_bytes l @ [nl]" "to_bytes n"] assms(4) plain_clean(4) [OF assms(2)] in
    \<open>auto simp: parsed_def\<close>)

lemma variant_line_written:
  assumes "plain_name (re_name e)" "re_kind e = RELK_VARIADIC" "re_vrel e = Some v" "vrel_variant_or_null v a = Some r"
  shows "\<exists>l \<in> set (entry_lines e). variant_line (to_bytes (re_name e)) (to_bytes l @ [nl]) = Some a"
proof -
  let ?l = "variant_name (re_name e) a @ '':'' @ num a @ '':'' @ kind_text (rel_is_idb r)"
  have a: "1 \<le> a" "a \<le> 8" using assms(4) by (auto simp: vrel_variant_or_null_def MAX_VAR_ARITY_def split: if_splits)
  have "manifest_line (to_bytes ?l @ [nl]) = Some (to_bytes (re_name e) @ 46 # dec a, tail_of a (rel_is_idb r))"
    using parsed_named(3) [OF assms(1)] by (simp add: parsed_def)
  then have "variant_line (to_bytes (re_name e)) (to_bytes ?l @ [nl]) = Some a"
    using variant_line_variant [OF _ a, of "to_bytes ?l @ [nl]" "re_name e" "rel_is_idb r" "re_name e"] by simp
  moreover have "?l \<in> set (entry_lines e)"
    using assms(2-4) a by (force simp: entry_lines_def variadic_lines_def arities_from_def MAX_VAR_ARITY_def)
  ultimately show ?thesis by blast
qed

definition mline :: "string \<Rightarrow> bytes" where "mline l = to_bytes l @ [nl]"

text \<open>A saved permutation index is listed under the name.\<close>

definition perm_listed :: "dl_db \<Rightarrow> string \<Rightarrow> bool" where
  "perm_listed db name \<longleftrightarrow>
     (\<exists>l \<in> set (perm_lines db). case manifest_line (mline l) of None \<Rightarrow> False | Some (left, rest) \<Rightarrow> cstr left = to_bytes name)"

lemma declared_or_not:
  assumes "db_ok en fs db"
  obtains "entry_at db (findRel db name) = None" "name \<notin> re_name ` set (db_rels db)"
    | e es es' where "entry_at db (findRel db name) = Some e" "db_rels db = es @ e # es'" "re_name e = name"
        "name \<notin> re_name ` set (es @ es')"
  using find_rel [of db name]
proof (elim disjE conjE exE)
  fix j assume j: "j < length (db_rels db)" "re_name (db_rels db ! j) = name" "entry_at db (findRel db name) = Some (db_rels db ! j)"
  let ?e = "db_rels db ! j" and ?es = "take j (db_rels db)" and ?es' = "drop (Suc j) (db_rels db)"
  have split: "db_rels db = ?es @ ?e # ?es'" by (rule id_take_nth_drop [OF j(1)])
  have "distinct (map re_name (db_rels db))" using assms by (simp add: db_ok_def)
  then have "distinct (map re_name (?es @ ?e # ?es'))" using split by metis
  then have "name \<notin> re_name ` set (?es @ ?es')" using j(2) by auto
  then show thesis using that(2) [OF j(3) split j(2)] by blast
qed (rule that(1))

lemma headers_skip:
  "find_line (map mline (manifest_lines version stamp db)) name w =
    find_line (map mline (concat (map entry_lines (db_rels db)) @ perm_lines db)) name w"
proof -
  have "manifest_line (mline (''# Datalog-DAFSA snapshot version '' @ num (unat version))) = None"
    "manifest_line (mline (''D:symbols:'' @ stamp)) = None"
    using parsed_comment by (simp_all add: parsed_def mline_def)
  then show ?thesis by (simp add: manifest_lines_def)
qed

lemma entries_skip:
  assumes "\<forall>e \<in> set es. plain_name (re_name e) \<and> entry_ok en fs e" "plain_name name" "name \<notin> re_name ` set es"
  shows "find_line (map mline (concat (map entry_lines es)) @ later) (to_bytes name) w = find_line later (to_bytes name) w"
proof (rule find_line_skip, intro ballI allI impI notI)
  fix raw left rest
  assume "raw \<in> set (map mline (concat (map entry_lines es)))" and p: "manifest_line raw = Some (left, rest)" "cstr left = to_bytes name"
  then obtain e l where e: "e \<in> set es" "l \<in> set (entry_lines e)" "raw = mline l" by auto
  have "re_name e = name"
    by (rule entry_line_name [OF e(2) _ _ _ assms(2) p(2)]) (use assms(1) e p(1) in \<open>auto simp: parsed_def mline_def\<close>)
  then show False using assms(3) e(1) by blast
qed

lemma find_declared:
  assumes "db_ok en fs db" "\<forall>e \<in> set (db_rels db). plain_name (re_name e)" "db_rels db = es @ e # es'"
    "re_name e \<notin> re_name ` set (es @ es')"
  shows "find_line (map mline (manifest_lines version stamp db)) (to_bytes (re_name e)) True =
    (if re_kind e = RELK_VARIADIC then (1, 0, True) else (1, re_arity e, False))"
proof -
  have ok: "\<forall>e \<in> set (db_rels db). plain_name (re_name e) \<and> entry_ok en fs e" using assms(1,2) by (simp add: db_ok_def)
  have e: "plain_name (re_name e)" "entry_ok en fs e" using ok assms(3) by simp_all
  have "find_line (map mline (manifest_lines version stamp db)) (to_bytes (re_name e)) True =
      find_line (map mline (concat (map entry_lines es)) @ map mline (entry_lines e) @ map mline (concat (map entry_lines es') @ perm_lines db))
        (to_bytes (re_name e)) True"
    unfolding headers_skip assms(3) by simp
  also have "\<dots> = find_line (map mline (entry_lines e) @ map mline (concat (map entry_lines es') @ perm_lines db)) (to_bytes (re_name e)) True"
    by (rule entries_skip [OF _ e(1)]) (use ok assms(3,4) in auto)
  also have "\<dots> = (if re_kind e = RELK_VARIADIC then (1, 0, True) else (1, re_arity e, False))"
    unfolding mline_def by (rule find_listed_entry [OF e])
  finally show ?thesis .
qed

lemma find_none:
  assumes "db_ok en fs db" "\<forall>e \<in> set (db_rels db). plain_name (re_name e)" "plain_name name" "name \<notin> re_name ` set (db_rels db)"
  shows "perm_listed db name \<or> find_line (map mline (manifest_lines version stamp db)) (to_bytes name) True = (0, 0, False)"
proof (cases "perm_listed db name")
  case False
  have ok: "\<forall>e \<in> set (db_rels db). plain_name (re_name e) \<and> entry_ok en fs e" using assms(1,2) by (simp add: db_ok_def)
  have "find_line (map mline (manifest_lines version stamp db)) (to_bytes name) True = find_line (map mline (perm_lines db)) (to_bytes name) True"
    unfolding headers_skip map_append by (rule entries_skip [OF ok assms(3,4)])
  also have "\<dots> = find_line (map mline (perm_lines db) @ []) (to_bytes name) True" by simp
  also have "\<dots> = find_line [] (to_bytes name) True"
    by (rule find_line_skip) (use False in \<open>auto simp: perm_listed_def split: option.splits\<close>)
  finally show ?thesis by simp
qed simp

text \<open>The variants listed are those of the declared families of that name.\<close>

lemma variants_read:
  assumes "db_ok en fs db" "\<forall>e \<in> set (db_rels db). plain_name (re_name e)" "char_of (10 :: nat) \<notin> set stamp"
    "fs' (manifest_file sdir) = Some (manifest_text version stamp db)" "plain_name name"
  shows "manifest_find_variants fs' sdir name =
    {a. \<exists>e \<in> set (db_rels db). re_name e = name \<and> (\<exists>v. re_vrel e = Some v \<and> vrel_variant_or_null v a \<noteq> None)}"
proof -
  have ok: "\<forall>e \<in> set (db_rels db). plain_name (re_name e) \<and> entry_ok en fs e" using assms(1,2) by (simp add: db_ok_def)
  have lines: "manifest_find_variants fs' sdir name =
      {a. \<exists>l \<in> set (manifest_lines version stamp db). variant_line (to_bytes name) (mline l) = Some a}"
    unfolding manifest_find_variants_def assms(4) option.case manifest_read [OF assms(1-3)] mline_def by (auto simp: image_iff eq_commute)
  have head: "variant_line (to_bytes name) (mline (CHR ''#'' # l)) = None" "variant_line (to_bytes name) (mline (CHR ''D'' # l)) = None" for l
    using parsed_comment by (simp_all add: parsed_def mline_def variant_line_def)
  have perm: "variant_line (to_bytes name) (mline l) = None" if "l \<in> set (perm_lines db)" for l
  proof (rule variant_line_none)
    fix left rest assume p: "manifest_line (mline l) = Some (left, rest)"
    have "set left \<subseteq> set (mline l)" by (rule manifest_line_left [OF p])
    moreover have "46 \<notin> set (mline l)"
      using perm_line_quiet [OF assms(1,2) that] by (auto simp: mline_def to_bytes quiet_def nl_def dest!: sym [of 46])
    ultimately show "46 \<notin> set left" by blast
  qed
  show ?thesis unfolding lines
  proof (intro Collect_cong iffI)
    fix a assume "\<exists>l \<in> set (manifest_lines version stamp db). variant_line (to_bytes name) (mline l) = Some a"
    then obtain e l where e: "e \<in> set (db_rels db)" "l \<in> set (entry_lines e)" "variant_line (to_bytes name) (mline l) = Some a"
      using head perm by (auto simp: manifest_lines_def)
    then show "\<exists>e \<in> set (db_rels db). re_name e = name \<and> (\<exists>v. re_vrel e = Some v \<and> vrel_variant_or_null v a \<noteq> None)"
      using variant_line_entry [OF e(2)] ok e(3) by (metis mline_def)
  next
    fix a assume "\<exists>e \<in> set (db_rels db). re_name e = name \<and> (\<exists>v. re_vrel e = Some v \<and> vrel_variant_or_null v a \<noteq> None)"
    then obtain e v r where e: "e \<in> set (db_rels db)" "re_name e = name" "re_vrel e = Some v" "vrel_variant_or_null v a = Some r" by auto
    have k: "re_kind e = RELK_VARIADIC" using ok e(1,3) by (auto simp: entry_ok_def split: if_splits)
    obtain l where "l \<in> set (entry_lines e)" "variant_line (to_bytes name) (mline l) = Some a"
      using variant_line_written [OF _ k e(3,4)] ok e(1,2) by (auto simp: mline_def)
    then show "\<exists>l \<in> set (manifest_lines version stamp db). variant_line (to_bytes name) (mline l) = Some a"
      using e(1) by (auto simp: manifest_lines_def)
  qed
qed

subsection \<open>What a query answers\<close>

text \<open>By what the manifest says of the name: whether it lists it, with which arity, whether variadic.\<close>

definition snapshot_scan_spec ::
  "engine \<Rightarrow> files \<Rightarrow> string \<Rightarrow> u32 \<Rightarrow> string \<Rightarrow> int \<times> nat \<times> bool \<Rightarrow> nat \<Rightarrow> tuple \<Rightarrow> 's enum_cb \<Rightarrow> 's \<Rightarrow> int \<times> 's \<Rightarrow> bool" where
  "snapshot_scan_spec e fs dir version goal listed k bound cb s res \<longleftrightarrow> (case listed of (rc, a, variadic) \<Rightarrow>
     (rc = 0 \<longrightarrow> res = (-1, s)) \<and>
     (rc = 1 \<and> \<not> variadic \<longrightarrow> (if k \<le> a then prefix_spec (snap_tuples e fs dir version goal a) bound cb s res else res = (-1, s))) \<and>
     (rc = 1 \<and> variadic \<longrightarrow>
       (if k \<le> MAX_ARITY then
          vprefix_spec (\<Union>b \<in> manifest_find_variants fs (snapshot_dir dir version) goal. snap_tuples e fs dir version (variant_name goal b) b)
            bound cb s res
        else res = (-1, s))))"

subsection \<open>Properties\<close>

text \<open>C40: the cache of mapped files is transparent. For a name of at most 63 characters, opening through
  it gives exactly what opening the file of that relation in that snapshot version gives, whatever
  was opened before and whatever was evicted: two versions never share a slot. Invalidation and the
  drop of a version keep that, the drop also when that version's files change or disappear.\<close>

theorem vcache_transparent:
  assumes "vcache_ok e fs dir vc" "length name \<le> 63"
    "\<forall>v name. v \<noteq> version' \<longrightarrow> fs' (rel_file (snapshot_dir dir v) name) = fs (rel_file (snapshot_dir dir v) name)"
  shows "fst (view_open_cached e fs vc name version (snapshot_dir dir version)) =
      dafsa_view_open e (fs (rel_file (snapshot_dir dir version) name)) \<and>
    vcache_ok e fs dir (snd (view_open_cached e fs vc name version (snapshot_dir dir version))) \<and>
    vcache_ok e fs dir (vcache_invalidate vc) \<and> vcache_ok e fs' dir (vcache_drop_version vc version')"
proof -
  obtain vc' where "view_open_cached e fs vc name version (snapshot_dir dir version) =
      (dafsa_view_open e (fs (rel_file (snapshot_dir dir version) name)), vc')" "vcache_ok e fs dir vc'"
    by (rule open_cached_ok [OF assms(1,2)])
  moreover have "vcache_ok e fs dir (vcache_invalidate vc)" using assms(1) by (intro invalidate_ok) (simp add: vcache_ok_def)
  moreover have "vcache_ok e fs' dir (vcache_drop_version vc version')" using assms(3) by (intro drop_frees [OF assms(1)]) blast
  ultimately show ?thesis by simp
qed

text \<open>A snapshot with one file of one tuple.\<close>

definition one_tuple_file :: bytes where "one_tuple_file = image_of [encodeKey [5, 2]]"

theorem vcache_transparent_witness:
  "fst (view_open_cached trie_engine (\<lambda>_. Some one_tuple_file) (replicate DL_VIEW_CACHE_SZ empty_slot) ''q'' 1 (snapshot_dir ''d'' 1)) \<noteq> None"
proof -
  have "vcache_ok trie_engine (\<lambda>_. Some one_tuple_file) ''d'' (replicate DL_VIEW_CACHE_SZ empty_slot)"
    by (simp add: vcache_ok_def slot_ok_def empty_slot_def)
  from vcache_transparent [OF this, of "''q''" 1 "\<lambda>_. Some one_tuple_file" 1] show ?thesis by (simp add: trie_engine_def)
qed

text \<open>C21: a query of a published snapshot whose manifest can be read. For a relation the manifest lists with a fixed arity it hands
  out exactly the published tuples under the bound, in order, until the callback answers non-zero; for a variadic one it fans
  out over the listed variants wide enough, in ascending arity, and hands a callback that takes them all exactly the
  published tuples under the bound (for one that stops early only a bound on the answer is stated); an absent name is an error, and so
  is a bound wider than the arity. The answers do not depend on the cache. The relations asked about are published: their files
  can be opened, hold tuples of the listed arity, and their names (with the arity, for a variant) have at most 63
  characters, which is what the cache keeps of a name.\<close>

theorem snapshot_query_correct:
  assumes "engine_ok e" "vcache_ok e fs dir vc" "k \<le> length l"
    "manifest_find_rel_ex fs (snapshot_dir dir version) goal True = (rc, a, variadic)"
    "rc = 1 \<and> \<not> variadic \<longrightarrow> published e fs dir version goal a"
    "\<forall>b \<in> manifest_find_variants fs (snapshot_dir dir version) goal. variadic \<longrightarrow> published e fs dir version (variant_name goal b) b"
  shows "\<exists>res vc'. snapshot_query_scan e fs dir version vc goal (Some l) k cb s = (res, vc') \<and>
    (rc = 0 \<longrightarrow> vc' = vc) \<and> (rc = 1 \<longrightarrow> vcache_ok e fs dir vc') \<and>
    snapshot_scan_spec e fs dir version goal (rc, a, variadic) k (take k l) cb s res"
proof -
  let ?q = "snapshot_query_scan e fs dir version vc goal (Some l) k cb s" and ?V = "manifest_find_variants fs (snapshot_dir dir version) goal"
  let ?R = "\<Union>b \<in> ?V. snap_tuples e fs dir version (variant_name goal b) b"
  note spec [simp] = snapshot_scan_spec_def
  consider "rc = 0" | "rc = 1" "\<not> variadic" | "rc = 1" "variadic" | "rc \<noteq> 0" "rc \<noteq> 1" by blast
  then show ?thesis
  proof cases
    case 1
    then show ?thesis using assms(4) by (simp add: snapshot_query_scan_def Let_def)
  next
    case 2
    then have p: "published e fs dir version goal a" using assms(5) by simp
    show ?thesis
    proof (cases "k \<le> a")
      case True
      obtain v vc' where v: "view_open_cached e fs vc goal version (snapshot_dir dir version) = (Some v, vc')"
        "vcache_ok e fs dir vc'"
        "prefix_spec (snap_tuples e fs dir version goal a) (take k l) cb s (view_prefix e v a (Some l) k cb s)"
        by (rule scan_one [OF assms(1) p assms(2) True assms(3)])
      have "?q = (view_prefix e v a (Some l) k cb s, vc')"
        using 2 True v(1) assms(4) by (simp add: snapshot_query_scan_def Let_def)
      then show ?thesis using 2 True v(2,3) by simp
    next
      case False
      then show ?thesis using 2 assms(2,4) by (simp add: snapshot_query_scan_def Let_def)
    qed
  next
    case 3
    show ?thesis
    proof (cases "k \<le> MAX_ARITY")
      case True
      let ?as = "arities_from (if k > 0 then k else 1)" and ?bound = "take k l"
      have range: "[(if k > 0 then k else 1)..<Suc MAX_ARITY] = ?as"
        by (simp add: arities_from_def MAX_ARITY_def MAX_VAR_ARITY_def)
      have of_arity: "{t \<in> ?R. length t = b} = (if b \<in> ?V then snap_tuples e fs dir version (variant_name goal b) b else {})" for b
        by (auto dest: snap_length)
      have each: "\<forall>b \<in> set (filter (\<lambda>a. a \<in> ?V) ?as). k \<le> b \<and> published e fs dir version (variant_name goal b) b \<and>
          {t \<in> ?R. length t = b} = snap_tuples e fs dir version (variant_name goal b) b"
        unfolding of_arity using assms(6) 3 by (auto simp: arities_from)
      obtain vc' where vc': "scan_variants e fs (snapshot_dir dir version) version goal (Some l) k cb (filter (\<lambda>a. a \<in> ?V) ?as) vc 0 s =
          (case fan_out cb ?R ?bound (filter (\<lambda>a. a \<in> ?V) ?as) s of (n, s') \<Rightarrow> (0 + int n, s'), vc')" "vcache_ok e fs dir vc'"
        using scan_variants_ok [where cb = cb and tot = 0 and s = s, OF assms(1,3) each assms(2)] by blast
      have "fan_out cb ?R ?bound (filter (\<lambda>a. a \<in> ?V) ?as) s = fan_out cb ?R ?bound ?as s"
        by (rule fan_out_filter, intro ballI impI) (unfold of_arity, simp)
      then have "?q = (case fan_out cb ?R ?bound ?as s of (n, s') \<Rightarrow> (int n, s'), vc')"
        using 3 True assms(4) vc'(1) range by (simp add: snapshot_query_scan_def Let_def)
      moreover have "?as = arities_from (max (length ?bound) 1)" using assms(3) by simp
      ultimately show ?thesis using 3 True vc'(2) fan_out_spec [of ?as ?bound ?R cb s] by simp
    next
      case False
      then show ?thesis using 3 assms(2,4) by (simp add: snapshot_query_scan_def Let_def)
    qed
  next
    case 4
    then show ?thesis by (cases ?q) simp
  qed
qed



definition one_snapshot :: files where
  "one_snapshot = (\<lambda>p. if p = manifest_file (snapshot_dir ''d'' 1) then Some (to_bytes ''q:2:edb'')
     else Some one_tuple_file)"

lemma one_tuple_published:
  assumes "fs (rel_file (snapshot_dir ''d'' 1) ''q'') = Some one_tuple_file"
  shows "published trie_engine fs ''d'' 1 ''q'' 2" "snap_tuples trie_engine fs ''d'' 1 ''q'' 2 = {[5, 2]}"
proof -
  have "dafsa_inv (trie_file one_tuple_file)" by (rule trie_file_inv)
  moreover have w: "dwords (trie_file one_tuple_file) = {encodeKey [5, 2]}"
    by (simp add: trie_file_def one_tuple_file_def MAX_WORD_LEN_def)
  moreover have "length [5 :: u32, 2] = 2" by simp
  ultimately have "keyed 2 (trie_file one_tuple_file)" unfolding keyed_def w by blast
  then show "published trie_engine fs ''d'' 1 ''q'' 2"
    using assms by (simp add: published_def disk_ok_def file_at_def trie_engine_def MAX_ARITY_def)
  show "snap_tuples trie_engine fs ''d'' 1 ''q'' 2 = {[5, 2]}"
  proof -
    have "dtuples 2 (trie_file one_tuple_file) = {[5, 2]}"
      unfolding dtuples_def w using encodeKey_inj [of _ "[5, 2]"] by auto
    then show ?thesis using assms by (simp add: snap_tuples_def disk_tuples_def file_at_def trie_engine_def)
  qed
qed

lemma one_snapshot_listed: "manifest_find_rel_ex one_snapshot (snapshot_dir ''d'' 1) ''q'' True = (1, 2, False)"
  by (simp add: one_snapshot_def manifest_find_rel_ex_def) code_simp

lemma one_snapshot_file: "one_snapshot (rel_file (snapshot_dir ''d'' 1) ''q'') = Some one_tuple_file"
proof -
  have "rel_file (snapshot_dir ''d'' 1) ''q'' \<noteq> manifest_file (snapshot_dir ''d'' 1)"
    by (simp add: rel_file_def manifest_file_def snapshot_dir_def snprintf_def of_bytes_def dec.simps [of "Suc 0"] char_of_def bit_0 take_Cons')
  then show ?thesis by (simp add: one_snapshot_def)
qed

theorem snapshot_query_correct_witness:
  "fst (snapshot_query_scan trie_engine one_snapshot ''d'' 1 (replicate DL_VIEW_CACHE_SZ empty_slot) ''q'' (Some [5]) 1
     (\<lambda>t s. (0, t # s)) []) = (1, [[5, 2]])"
proof -
  note m = one_snapshot_listed and p = one_snapshot_file
  have c: "vcache_ok trie_engine one_snapshot ''d'' (replicate DL_VIEW_CACHE_SZ empty_slot)"
    by (simp add: vcache_ok_def slot_ok_def empty_slot_def)
  have t: "published trie_engine one_snapshot ''d'' 1 ''q'' 2" "snap_tuples trie_engine one_snapshot ''d'' 1 ''q'' 2 = {[5, 2]}"
    using one_tuple_published [where fs = one_snapshot, OF p] by simp_all
  obtain res vc' where q: "snapshot_query_scan trie_engine one_snapshot ''d'' 1 (replicate DL_VIEW_CACHE_SZ empty_slot) ''q'' (Some [5]) 1
      (\<lambda>t s. (0, t # s)) [] = (res, vc')" "prefix_spec {[5, 2]} [5] (\<lambda>t s. (0, t # s)) [] res"
    using snapshot_query_correct [where l = "[5]" and k = 1 and cb = "\<lambda>t s. (0, t # s)" and s = "[]", OF trie_engine_ok c _ m] t
    by (fastforce simp: snapshot_scan_spec_def)
  have "matching {[5, 2]} [5] = {[5, 2]}" by (auto simp: matching_def)
  then have "res = (1, [[5, 2]])" using q(2) by (simp add: prefix_spec_def deliver_def hand_out_def)
  then show ?thesis using q(1) by simp
qed

text \<open>C24: a published manifest reads back, for relations with plain names: free of separators and dots and without a leading \<open>#\<close> or
  \<open>D\<close>, which the reader takes for a comment or a directive (snapshot.zig:309; a relation \<open>Dept\<close> is not found). Looking such a relation
  up in the manifest that a publish of the database writes answers that it is there, with its arity or as variadic, and the
  variants listed under its name are exactly those the family has; a name that is not declared has no
  variants and is not found, unless a saved permutation index is listed under it.\<close>

theorem manifest_roundtrip:
  assumes "db_ok en fs db" "\<forall>e \<in> set (db_rels db). plain_name (re_name e)" "char_of (10 :: nat) \<notin> set stamp"
    "fs' (manifest_file sdir) = Some (manifest_text version stamp db)" "plain_name name"
  shows "case entry_at db (findRel db name) of
      None \<Rightarrow> manifest_find_variants fs' sdir name = {} \<and>
        (perm_listed db name \<or> manifest_find_rel_ex fs' sdir name True = (0, 0, False))
    | Some e \<Rightarrow> listed_spec e (manifest_find_rel_ex fs' sdir name True) \<and> variants_spec e (manifest_find_variants fs' sdir name)"
proof -
  have find: "manifest_find_rel_ex fs' sdir name True = find_line (map mline (manifest_lines version stamp db)) (to_bytes name) True"
    unfolding manifest_find_rel_ex_def assms(4) option.case manifest_read [OF assms(1-3)] mline_def ..
  consider "entry_at db (findRel db name) = None" "name \<notin> re_name ` set (db_rels db)"
    | e es es' where "entry_at db (findRel db name) = Some e" "db_rels db = es @ e # es'" "re_name e = name"
        "name \<notin> re_name ` set (es @ es')"
    by (rule declared_or_not [OF assms(1)])
  then show ?thesis
  proof cases
    case 1
    have "manifest_find_variants fs' sdir name = {}"
      unfolding variants_read [where fs' = fs' and sdir = sdir, OF assms] using 1(2) by auto
    moreover have "perm_listed db name \<or> manifest_find_rel_ex fs' sdir name True = (0, 0, False)"
      unfolding find using find_none [OF assms(1,2,5) 1(2)] by blast
    ultimately show ?thesis using 1(1) by simp
  next
    case (2 e es es')
    have e: "e \<in> set (db_rels db)" "entry_ok en fs e" using 2(2) assms(1) by (auto simp: db_ok_def)
    have "re_name x \<noteq> name" if "x \<in> set (es @ es')" for x using 2(4) that by (metis image_eqI)
    then have "(x \<in> set (db_rels db) \<and> re_name x = name) = (x = e)" for x using 2(2,3) by auto
    then have only: "(\<exists>x \<in> set (db_rels db). re_name x = name \<and> P x) = P e" for P by (metis (no_types, lifting))
    have "listed_spec e (manifest_find_rel_ex fs' sdir name True)"
      unfolding find using find_declared [OF assms(1,2) 2(2)] 2(3,4) by (simp add: listed_spec_def)
    moreover have "variants_spec e (manifest_find_variants fs' sdir name)"
      unfolding variants_spec_def variants_read [where fs' = fs' and sdir = sdir, OF assms] only by (auto split: option.splits)
    ultimately show ?thesis using 2(1) by simp
  qed
qed

theorem manifest_roundtrip_witness:
  "manifest_find_rel_ex (\<lambda>_. Some (manifest_text 1 ''1:2:3'' one_rel_db)) ''d'' ''q'' True = (1, 2, False) \<and>
   fst (manifest_find_rel_ex (\<lambda>_. Some (manifest_text 1 ''1:2:3'' one_rel_db)) ''d'' ''r'' True) = 0"
proof -
  have "\<forall>e \<in> set (db_rels one_rel_db). plain_name (re_name e)" "char_of (10 :: nat) \<notin> set ''1:2:3''"
    "plain_name ''q''" "plain_name ''r''" "\<not> perm_listed one_rel_db ''r''"
    by (simp_all add: one_rel_db_def plain_name_def newline_char perm_listed_def perm_lines_def)
  then show ?thesis
    using manifest_roundtrip [OF one_rel_db_ok, of "''1:2:3''" "\<lambda>_. Some (manifest_text 1 ''1:2:3'' one_rel_db)" "''d''" 1 "''q''"]
      manifest_roundtrip [OF one_rel_db_ok, of "''1:2:3''" "\<lambda>_. Some (manifest_text 1 ''1:2:3'' one_rel_db)" "''d''" 1 "''r''"]
    by (simp add: findRel_def entry_at_def one_rel_db_def listed_spec_def RELK_FIXED_def RELK_VARIADIC_def)
qed

end
