(* ===== verification/Query.thy ===== *)
theory Query
  imports Snapshot
begin

text \<open>
  The read operations of the public interface (\<^verbatim>\<open>src/dl.h\<close>, \<^verbatim>\<open>zig/src/dl.zig\<close>): point lookup, prefix
  enumeration and order statistics, by name and arity.  They find the entry, and go to the relation,
  to the variants of a family, or to the mapped file of the current snapshot.  Reading changes how a
  relation is held (it may be loaded, and its overlay folded in) and what the snapshot cache holds,
  so a read answers a new handle.  A result \<open>None\<close> is a failed assertion; a \<^verbatim>\<open>NULL\<close> argument is \<open>None\<close>.
\<close>

subsection \<open>Reading through an entry\<close>

definition on_rel :: "dl_db \<Rightarrow> int \<Rightarrow> rel_entry \<Rightarrow> 'a \<Rightarrow> (relation \<Rightarrow> ('a \<times> relation) option) \<Rightarrow> ('a \<times> dl_db) option" where
  "on_rel db i e err f =
     (case re_rel e of
        None \<Rightarrow> Some (err, db)
      | Some r \<Rightarrow> map_option (\<lambda>(x, r'). (x, put_entry i (e\<lparr>re_rel := Some r'\<rparr>) db)) (f r))"

definition on_vrel :: "dl_db \<Rightarrow> int \<Rightarrow> rel_entry \<Rightarrow> 'a \<Rightarrow> (vrelation \<Rightarrow> ('a \<times> vrelation) option) \<Rightarrow> ('a \<times> dl_db) option" where
  "on_vrel db i e err f =
     (case re_vrel e of
        None \<Rightarrow> Some (err, db)
      | Some v \<Rightarrow> map_option (\<lambda>(x, v'). (x, put_entry i (e\<lparr>re_vrel := Some v'\<rparr>) db)) (f v))"

definition dl_lookup :: "engine \<Rightarrow> files \<Rightarrow> dl_db \<Rightarrow> string \<Rightarrow> tuple option \<Rightarrow> nat \<Rightarrow> (int \<times> dl_db) option" where
  "dl_lookup en fs db rel_name cols arity =
     (case cols of None \<Rightarrow> Some (0, db) | Some t \<Rightarrow>
      (let idx = findRel db rel_name in
       case entry_at db idx of
         None \<Rightarrow> Some (0, db)
       | Some e \<Rightarrow>
           if re_kind e = RELK_VARIADIC then
             (if arity = 0 \<or> arity > 8 then Some (0, db) else on_vrel db idx e 0 (vrel_exact en fs t arity))
           else if arity \<noteq> (case re_rel e of None \<Rightarrow> 0 | Some r \<Rightarrow> r_arity r) then Some (0, db)
           else on_rel db idx e 0 (rel_exact en fs t)))"

definition dl_prefix ::
  "engine \<Rightarrow> files \<Rightarrow> dl_db \<Rightarrow> string \<Rightarrow> tuple option \<Rightarrow> nat \<Rightarrow> 's enum_cb \<Rightarrow> 's \<Rightarrow> ((int \<times> 's) \<times> dl_db) option" where
  "dl_prefix en fs db rel_name leading k cb s =
     (let idx = findRel db rel_name in
      case entry_at db idx of
        None \<Rightarrow> Some ((-1, s), db)
      | Some e \<Rightarrow>
          if re_kind e = RELK_VARIADIC then
            on_vrel db idx e (-1, s) (\<lambda>v. map_option (\<lambda>(v', res). (res, v')) (vrel_prefix en fs leading k cb s v))
          else on_rel db idx e (-1, s) (rel_prefix en fs leading k cb s))"

subsection \<open>Order statistics\<close>

text \<open>The entry of a relation of this name and arity; \<open>None\<close> when there is none, or it is variadic.\<close>

definition ordstatsRelRo :: "dl_db \<Rightarrow> string \<Rightarrow> nat \<Rightarrow> (int \<times> rel_entry) option" where
  "ordstatsRelRo db rel_name arity =
     (let idx = findRel db rel_name in
      case entry_at db idx of
        None \<Rightarrow> None
      | Some e \<Rightarrow> if re_kind e = RELK_VARIADIC \<or> re_arity e \<noteq> arity then None else Some (idx, e))"

definition on_ordstats ::
  "dl_db \<Rightarrow> string \<Rightarrow> nat \<Rightarrow> 'a \<Rightarrow> (relation \<Rightarrow> ('a \<times> relation) option) \<Rightarrow> ('a \<times> dl_db) option" where
  "on_ordstats db rel_name arity err f =
     (case ordstatsRelRo db rel_name arity of None \<Rightarrow> Some (err, db) | Some (i, e) \<Rightarrow> on_rel db i e err f)"

text \<open>The mapped file of the relation in the current snapshot, with what the manifest says of it.\<close>

definition snapshotViewOpenRel :: "engine \<Rightarrow> files \<Rightarrow> dl_db \<Rightarrow> string \<Rightarrow> (dafsa_view option \<times> nat \<times> bool) \<times> dl_db" where
  "snapshotViewOpenRel en fs db rel_name =
     (case db_dir db of
        None \<Rightarrow> ((None, 0, False), db)
      | Some dir \<Rightarrow>
          (let sdir = snapshot_dir dir (db_snap_version db) in
           case manifest_find_rel_ex fs sdir rel_name True of (rc, arity, variadic) \<Rightarrow>
             if rc = 0 then ((None, arity, variadic), db)
             else case view_open_cached en fs (db_vcache db) rel_name (db_snap_version db) sdir of
               (v, vc) \<Rightarrow> ((v, arity, variadic), db\<lparr>db_vcache := vc\<rparr>)))"

definition on_snapshot :: "engine \<Rightarrow> files \<Rightarrow> dl_db \<Rightarrow> string \<Rightarrow> nat \<Rightarrow> 'a \<Rightarrow> (dafsa_view \<Rightarrow> 'a) \<Rightarrow> ('a \<times> dl_db) option" where
  "on_snapshot en fs db rel_name arity err f =
     (case snapshotViewOpenRel en fs db rel_name of ((v, v_arity, variadic), db') \<Rightarrow>
        Some (if variadic \<or> v_arity \<noteq> arity then err else (case v of None \<Rightarrow> err | Some v \<Rightarrow> f v), db'))"

definition dl_rank :: "engine \<Rightarrow> files \<Rightarrow> dl_db \<Rightarrow> string \<Rightarrow> tuple option \<Rightarrow> nat \<Rightarrow> (nat \<times> dl_db) option" where
  "dl_rank en fs db rel_name cols arity =
     (case cols of None \<Rightarrow> Some (UINT64_MAX, db) | Some t \<Rightarrow>
        if db_snap_version db > 0 then on_snapshot en fs db rel_name arity UINT64_MAX (\<lambda>v. view_rank en v arity t)
        else on_ordstats db rel_name arity UINT64_MAX (rel_rank en fs t))"

text \<open>\<open>None\<close> inside is the result -1.\<close>

definition dl_select :: "engine \<Rightarrow> files \<Rightarrow> dl_db \<Rightarrow> string \<Rightarrow> nat \<Rightarrow> nat \<Rightarrow> (tuple option \<times> dl_db) option" where
  "dl_select en fs db rel_name k arity =
     (if db_snap_version db > 0 then on_snapshot en fs db rel_name arity None (\<lambda>v. view_select en v arity k)
      else on_ordstats db rel_name arity None (rel_select en fs k))"

definition dl_range_count :: "engine \<Rightarrow> files \<Rightarrow> dl_db \<Rightarrow> string \<Rightarrow> tuple option \<Rightarrow> tuple option \<Rightarrow> nat \<Rightarrow> (nat \<times> dl_db) option" where
  "dl_range_count en fs db rel_name lo hi arity =
     (case (lo, hi) of
        (Some l, Some h) \<Rightarrow>
          if db_snap_version db > 0 then on_snapshot en fs db rel_name arity UINT64_MAX (\<lambda>v. view_range_count en v arity l h)
          else on_ordstats db rel_name arity UINT64_MAX (rel_range_count en fs l h)
      | _ \<Rightarrow> Some (UINT64_MAX, db))"

text \<open>Counting takes no arity.\<close>

definition dl_count :: "engine \<Rightarrow> files \<Rightarrow> dl_db \<Rightarrow> string \<Rightarrow> (nat \<times> dl_db) option" where
  "dl_count en fs db rel_name =
     (if db_snap_version db > 0 then
        (case snapshotViewOpenRel en fs db rel_name of ((v, _, variadic), db') \<Rightarrow>
           Some (if variadic then UINT64_MAX else (case v of None \<Rightarrow> UINT64_MAX | Some v \<Rightarrow> view_count en v), db'))
      else
        (let idx = findRel db rel_name in
         case entry_at db idx of
           None \<Rightarrow> Some (UINT64_MAX, db)
         | Some e \<Rightarrow>
             if re_kind e = RELK_VARIADIC then Some (UINT64_MAX, db) else on_rel db idx e 0 (rel_count_subtree en fs)))"

text \<open>The statistics under a bound never look at a snapshot.\<close>

definition dl_rank_bound ::
  "engine \<Rightarrow> files \<Rightarrow> dl_db \<Rightarrow> string \<Rightarrow> tuple option \<Rightarrow> nat \<Rightarrow> tuple option \<Rightarrow> nat \<Rightarrow> (nat \<times> dl_db) option" where
  "dl_rank_bound en fs db rel_name leading k cols arity =
     (case cols of None \<Rightarrow> Some (UINT64_MAX, db) | Some t \<Rightarrow>
        if k > 0 \<and> leading = None then Some (UINT64_MAX, db)
        else on_ordstats db rel_name arity UINT64_MAX (\<lambda>r. Some (rel_rank_bound en fs leading k t r)))"

definition dl_select_bound ::
  "engine \<Rightarrow> files \<Rightarrow> dl_db \<Rightarrow> string \<Rightarrow> tuple option \<Rightarrow> nat \<Rightarrow> nat \<Rightarrow> nat \<Rightarrow> (tuple option \<times> dl_db) option" where
  "dl_select_bound en fs db rel_name leading k idx arity =
     (if k > 0 \<and> leading = None then Some (None, db)
      else on_ordstats db rel_name arity None (\<lambda>r. Some (rel_select_bound en fs leading k idx r)))"

definition dl_range_count_bound ::
  "engine \<Rightarrow> files \<Rightarrow> dl_db \<Rightarrow> string \<Rightarrow> tuple option \<Rightarrow> nat \<Rightarrow> tuple option \<Rightarrow> tuple option \<Rightarrow> nat \<Rightarrow> (nat \<times> dl_db) option" where
  "dl_range_count_bound en fs db rel_name leading k lo hi arity =
     (case (lo, hi) of
        (Some l, Some h) \<Rightarrow>
          if k > 0 \<and> leading = None then Some (UINT64_MAX, db)
          else on_ordstats db rel_name arity UINT64_MAX (\<lambda>r. Some (rel_range_count_bound en fs leading k l h r))
      | _ \<Rightarrow> Some (UINT64_MAX, db))"

subsection \<open>Contracts\<close>

text \<open>The handle after a read: well formed, every relation with the facts it had, the rest as it was.\<close>

definition cache_ok :: "engine \<Rightarrow> files \<Rightarrow> dl_db \<Rightarrow> bool" where
  "cache_ok en fs db \<longleftrightarrow> (\<forall>dir. db_dir db = Some dir \<longrightarrow> vcache_ok en fs dir (db_vcache db))"

definition same_db :: "engine \<Rightarrow> files \<Rightarrow> dl_db \<Rightarrow> dl_db \<Rightarrow> bool" where
  "same_db en fs db db' \<longleftrightarrow> db_ok en fs db' \<and> (\<forall>name. db_facts en fs db' name = db_facts en fs db name \<and>
       map_option re_kind (entry_at db' (findRel db' name)) = map_option re_kind (entry_at db (findRel db name))) \<and>
     db_snap_version db' = db_snap_version db \<and> db_dir db' = db_dir db \<and> (cache_ok en fs db \<longrightarrow> cache_ok en fs db')"

definition lookup_spec :: "engine \<Rightarrow> files \<Rightarrow> dl_db \<Rightarrow> string \<Rightarrow> tuple \<Rightarrow> int \<Rightarrow> bool" where
  "lookup_spec en fs db name t rc \<longleftrightarrow> rc = (if t \<in> db_facts en fs db name then 1 else 0)"

definition prefix_query_spec ::
  "engine \<Rightarrow> files \<Rightarrow> dl_db \<Rightarrow> string \<Rightarrow> nat \<Rightarrow> tuple \<Rightarrow> 's enum_cb \<Rightarrow> 's \<Rightarrow> int \<times> 's \<Rightarrow> bool" where
  "prefix_query_spec en fs db name k bound cb s res \<longleftrightarrow>
     (case entry_at db (findRel db name) of
        None \<Rightarrow> res = (-1, s)
      | Some e \<Rightarrow>
          if re_kind e = RELK_VARIADIC then
            (if k \<le> MAX_ARITY then vprefix_spec (db_facts en fs db name) bound cb s res else res = (-1, s))
          else if k \<le> re_arity e then prefix_spec (db_facts en fs db name) bound cb s res
          else res = (-1, s))"

text \<open>What the unbounded statistics are about: the tuples of the snapshot when there is one, those of the
  live relation otherwise; \<open>None\<close> when the name is absent, variadic or of another arity.\<close>

definition stat_tuples :: "engine \<Rightarrow> files \<Rightarrow> dl_db \<Rightarrow> string \<Rightarrow> nat \<Rightarrow> tuple set option" where
  "stat_tuples en fs db name a =
     (if db_snap_version db > 0 then
        (case db_dir db of None \<Rightarrow> None | Some dir \<Rightarrow>
           if manifest_find_rel_ex fs (snapshot_dir dir (db_snap_version db)) name True = (1, a, False)
           then Some (snap_tuples en fs dir (db_snap_version db) name a) else None)
      else (case ordstatsRelRo db name a of None \<Rightarrow> None | Some _ \<Rightarrow> Some (db_facts en fs db name)))"

definition live_tuples :: "engine \<Rightarrow> files \<Rightarrow> dl_db \<Rightarrow> string \<Rightarrow> nat \<Rightarrow> tuple set option" where
  "live_tuples en fs db name a =
     (case ordstatsRelRo db name a of None \<Rightarrow> None | Some _ \<Rightarrow> Some (db_facts en fs db name))"

definition rank_query_spec :: "tuple set option \<Rightarrow> tuple \<Rightarrow> tuple \<Rightarrow> nat \<Rightarrow> bool" where
  "rank_query_spec R bound t n \<longleftrightarrow> (case R of None \<Rightarrow> n = UINT64_MAX | Some R \<Rightarrow> rank_spec R bound t n)"

definition select_query_spec :: "tuple set option \<Rightarrow> tuple \<Rightarrow> nat \<Rightarrow> tuple option \<Rightarrow> bool" where
  "select_query_spec R bound i res \<longleftrightarrow> (case R of None \<Rightarrow> res = None | Some R \<Rightarrow> select_spec R bound i res)"

definition range_query_spec :: "tuple set option \<Rightarrow> tuple \<Rightarrow> tuple \<Rightarrow> tuple \<Rightarrow> nat \<Rightarrow> bool" where
  "range_query_spec R bound lo hi n \<longleftrightarrow> (case R of None \<Rightarrow> n = UINT64_MAX | Some R \<Rightarrow> range_count_spec R bound lo hi n)"

text \<open>
  Under a bound the header has the same as without one.  The code reads the live relation whatever has been published,
  so the contract is for when the two are the same: nothing published, or nothing changed since.
\<close>

definition bound_mirrors :: "engine \<Rightarrow> files \<Rightarrow> dl_db \<Rightarrow> string \<Rightarrow> nat \<Rightarrow> bool" where
  "bound_mirrors en fs db name a \<longleftrightarrow> stat_tuples en fs db name a = live_tuples en fs db name a"

definition rank_bound_query_spec :: "engine \<Rightarrow> files \<Rightarrow> dl_db \<Rightarrow> string \<Rightarrow> nat \<Rightarrow> tuple \<Rightarrow> tuple \<Rightarrow> nat \<Rightarrow> bool" where
  "rank_bound_query_spec en fs db name a bound t n \<longleftrightarrow> (bound_mirrors en fs db name a \<longrightarrow> rank_query_spec (stat_tuples en fs db name a) bound t n)"

definition select_bound_query_spec :: "engine \<Rightarrow> files \<Rightarrow> dl_db \<Rightarrow> string \<Rightarrow> nat \<Rightarrow> tuple \<Rightarrow> nat \<Rightarrow> tuple option \<Rightarrow> bool" where
  "select_bound_query_spec en fs db name a bound i res \<longleftrightarrow> (bound_mirrors en fs db name a \<longrightarrow> select_query_spec (stat_tuples en fs db name a) bound i res)"

definition range_bound_query_spec :: "engine \<Rightarrow> files \<Rightarrow> dl_db \<Rightarrow> string \<Rightarrow> nat \<Rightarrow> tuple \<Rightarrow> tuple \<Rightarrow> tuple \<Rightarrow> nat \<Rightarrow> bool" where
  "range_bound_query_spec en fs db name a bound lo hi n \<longleftrightarrow> (bound_mirrors en fs db name a \<longrightarrow> range_query_spec (stat_tuples en fs db name a) bound lo hi n)"

text \<open>A count of a snapshot that lists the name.\<close>

definition count_query_spec :: "tuple set option \<Rightarrow> nat \<Rightarrow> bool" where
  "count_query_spec R n \<longleftrightarrow> (case R of None \<Rightarrow> True | Some R \<Rightarrow> n = card R)"

subsection \<open>Storing back what a read changed\<close>

lemma find_from_names: "map re_name es = map re_name es' \<Longrightarrow> find_from i es name = find_from i es' name"
proof (induction es arbitrary: es' i)
  case (Cons e es)
  then obtain x xs where "es' = x # xs" "re_name x = re_name e" "map re_name xs = map re_name es" by (cases es') auto
  then show ?case using Cons.IH [of xs "i + 1"] by simp
qed simp

lemma entry_at_put: "entry_at db i \<noteq> None \<Longrightarrow> entry_at (put_entry i e db) j = (if j = i then Some e else entry_at db j)"
  by (auto simp: entry_at_def put_entry_def nth_list_update split: if_splits)

lemma names_put:
  assumes "entry_at db i = Some e" "re_name e' = re_name e"
  shows "map re_name (db_rels (put_entry i e' db)) = map re_name (db_rels db)"
  using assms by (auto simp: entry_at_def put_entry_def list_eq_iff_nth_eq nth_list_update split: if_splits)

lemma put_same:
  assumes "db_ok en fs db" "entry_at db i = Some e" "entry_ok en fs e'" "re_name e' = re_name e" "re_kind e' = re_kind e"
    "entry_set en fs e' = entry_set en fs e"
  shows "same_db en fs db (put_entry i e' db)"
proof -
  have names: "map re_name (db_rels (put_entry i e' db)) = map re_name (db_rels db)" by (rule names_put [OF assms(2,4)])
  then have find: "findRel (put_entry i e' db) name = findRel db name" for name
    unfolding findRel_def by (rule find_from_names)
  have at: "entry_at (put_entry i e' db) j = (if j = i then Some e' else entry_at db j)" for j
    by (rule entry_at_put) (simp add: assms(2))
  have facts: "db_facts en fs (put_entry i e' db) name = db_facts en fs db name \<and>
      map_option re_kind (entry_at (put_entry i e' db) (findRel (put_entry i e' db) name)) = map_option re_kind (entry_at db (findRel db name))" for name
    using assms(2,5,6) by (simp add: db_facts_def find at)
  have "db_ok en fs (put_entry i e' db)"
  proof -
    have rels: "db_rels (put_entry i e' db) = (db_rels db)[nat i := e']" by (simp add: put_entry_def)
    have "entry_ok en fs x" if "x \<in> set (db_rels (put_entry i e' db))" for x
      using that assms(1,3) unfolding rels db_ok_def by (auto dest!: set_update_subset_insert [THEN subsetD])
    moreover have "distinct (map re_name (db_rels (put_entry i e' db)))" unfolding names using assms(1) by (simp add: db_ok_def)
    moreover have "entry_at (put_entry i e' db) (pe_rel_id pe) \<noteq> None" if "pe \<in> set (db_perms db)" for pe
      using assms(1) that at by (simp add: db_ok_def)
    ultimately show ?thesis using assms(1) unfolding db_ok_def by (simp add: put_entry_def)
  qed
  then show ?thesis using facts by (simp add: same_db_def put_entry_def cache_ok_def)
qed

lemma same_db_refl [simp]: "db_ok en fs db \<Longrightarrow> same_db en fs db db"
  by (simp add: same_db_def)

lemma same_db_vcache:
  assumes "db_ok en fs db" "cache_ok en fs (db\<lparr>db_vcache := vc\<rparr>)"
  shows "same_db en fs db (db\<lparr>db_vcache := vc\<rparr>)"
proof -
  have at: "entry_at (db\<lparr>db_vcache := vc\<rparr>) i = entry_at db i" "findRel (db\<lparr>db_vcache := vc\<rparr>) name = findRel db name" for i name
    by (simp_all add: entry_at_def findRel_def)
  then have "db_ok en fs (db\<lparr>db_vcache := vc\<rparr>)" using assms(1) unfolding db_ok_def by simp
  then show ?thesis using assms(2) by (simp add: same_db_def db_facts_def at)
qed

lemma same_vrelation_view: "same_vrelation en fs v v' \<Longrightarrow> vrel_view en fs v' = vrel_view en fs v"
  by (simp add: same_vrelation_def vrel_view_def)

lemma fixed_entry:
  assumes "db_ok en fs db" "entry_at db i = Some e" "re_kind e \<noteq> RELK_VARIADIC"
  obtains r where "re_rel e = Some r" "rel_ok en fs r" "r_arity r = re_arity e" "entry_set en fs e = rel_view en fs r"
    "re_vrel e = None"
  using entry_at_ok [OF assms(1,2)] assms(3) by (auto simp: entry_ok_def entry_set_def)

lemma variadic_entry:
  assumes "db_ok en fs db" "entry_at db i = Some e" "re_kind e = RELK_VARIADIC"
  obtains v where "re_vrel e = Some v" "vrel_ok en fs v" "re_rel e = None" "entry_set en fs e = vrel_view en fs v"
  using entry_at_ok [OF assms(1,2)] assms(3) by (auto simp: entry_ok_def entry_set_def)

lemma on_rel_ok:
  assumes "db_ok en fs db" "entry_at db i = Some e" "re_kind e \<noteq> RELK_VARIADIC"
    and "\<And>r. rel_ok en fs r \<Longrightarrow> r_arity r = re_arity e \<Longrightarrow> rel_view en fs r = entry_set en fs e \<Longrightarrow>
      \<exists>x r'. f r = Some (x, r') \<and> P x \<and> rel_ok en fs r' \<and> rel_view en fs r' = rel_view en fs r \<and> r_arity r' = r_arity r"
  shows "\<exists>x db'. on_rel db i e err f = Some (x, db') \<and> P x \<and> same_db en fs db db'"
proof -
  obtain r where r: "re_rel e = Some r" "rel_ok en fs r" "r_arity r = re_arity e" "entry_set en fs e = rel_view en fs r"
    "re_vrel e = None" by (rule fixed_entry [OF assms(1-3)])
  obtain x r' where f: "f r = Some (x, r')" "P x" "rel_ok en fs r'" "rel_view en fs r' = rel_view en fs r" "r_arity r' = r_arity r"
    using assms(4) [OF r(2,3)] r(4) by metis
  have "same_db en fs db (put_entry i (e\<lparr>re_rel := Some r'\<rparr>) db)"
    by (rule put_same [OF assms(1,2)])
      (use entry_at_ok [OF assms(1,2)] r f assms(3) in \<open>simp_all add: entry_ok_def entry_set_def\<close>)
  then show ?thesis using r(1) f(1,2) by (simp add: on_rel_def)
qed

lemma on_vrel_ok:
  assumes "db_ok en fs db" "entry_at db i = Some e" "re_kind e = RELK_VARIADIC"
    and "\<And>v. vrel_ok en fs v \<Longrightarrow> vrel_view en fs v = entry_set en fs e \<Longrightarrow>
      \<exists>x v'. f v = Some (x, v') \<and> P x \<and> vrel_ok en fs v' \<and> same_vrelation en fs v v'"
  shows "\<exists>x db'. on_vrel db i e err f = Some (x, db') \<and> P x \<and> same_db en fs db db'"
proof -
  obtain v where v: "re_vrel e = Some v" "vrel_ok en fs v" "re_rel e = None" "entry_set en fs e = vrel_view en fs v"
    by (rule variadic_entry [OF assms(1-3)])
  obtain x v' where f: "f v = Some (x, v')" "P x" "vrel_ok en fs v'" "same_vrelation en fs v v'"
    using assms(4) [OF v(2)] v(4) by metis
  have "same_db en fs db (put_entry i (e\<lparr>re_vrel := Some v'\<rparr>) db)"
    by (rule put_same [OF assms(1,2)])
      (use entry_at_ok [OF assms(1,2)] v f assms(3) same_vrelation_view [OF f(4)] in \<open>simp_all add: entry_ok_def entry_set_def\<close>)
  then show ?thesis using v(1) f(1,2) by (simp add: on_vrel_def)
qed

subsection \<open>What the reads leave of a relation\<close>

lemma order_read_arity: "order_read err f g e fs r = Some (x, r') \<Longrightarrow> r_arity r' = r_arity r"
  using ensure_arity(2) [of e fs r]
  by (auto simp: order_read_def Let_def consolidate_arity split: prod.splits if_splits option.splits)

lemma prefix_state_arity: "r_arity (snd (rel_prefix_state e fs b r)) = r_arity r"
  using ensure_arity(1) [of e fs r]
  by (auto simp: rel_prefix_state_def Let_def consolidate_arity split: prod.splits if_splits option.splits)

lemma bound_read_arity: "bound_read err absent f e fs l k r = (x, r') \<Longrightarrow> r_arity r' = r_arity r"
  using ensure_arity(1) [of e fs r] prefix_state_arity [of e fs]
  by (auto simp: bound_read_def Let_def consolidate_arity split: prod.splits if_splits option.splits) (metis snd_conv)+

text \<open>A bound wider than the relation.\<close>

lemma prefix_wide:
  assumes "engine_ok e" "dafsa_create e \<noteq> None" "adds_succeed e" "rel_ok e fs r" "k > r_arity r"
  shows "\<exists>r'. rel_prefix e fs l k cb s r = Some ((-1, s), r') \<and> rel_ok e fs r' \<and> rel_view e fs r' = rel_view e fs r"
proof -
  obtain r1 where r1: "relEnsureReadable e fs r = (True, r1)" "rel_ok e fs r1" "r_state r1 \<noteq> Deferred" "same_relation e fs r r1"
    by (rule ensure_readable_ok [OF assms(1,2,4)])
  have ar: "r_arity r1 = r_arity r" "rel_view e fs r1 = rel_view e fs r"
    using r1(4) same_relation_view [OF r1(4)] by (simp_all add: same_relation_def)
  show ?thesis
  proof (cases "r_state r1")
    case View
    obtain v where "viewOf r1 False = Some v" by (rule view_handle [OF assms(1) r1(2) View]) blast
    then have "rel_prefix e fs l k cb s r = Some ((-1, s), r1)"
      using r1(1) View assms(5) ar(1) by (simp add: rel_prefix_def viewPrefixD_def)
    then show ?thesis using r1(2) ar(2) by blast
  next
    case Owned
    note c = consolidate_ok [OF assms(1,2,3) r1(2) Owned]
    have "rel_prefix e fs l k cb s r = Some ((-1, s), ovConsolidateForRead e fs r1)"
      using r1(1) Owned assms(5) ar(1) by (simp add: rel_prefix_def Let_def relPrefixD_def consolidate_arity split: option.split)
    then show ?thesis using c(1,6) ar(2) by auto
  qed (use r1(3) in simp)
qed

subsection \<open>Live reads\<close>

lemma fact_arity:
  assumes "db_ok en fs db" "entry_at db i = Some e" "t \<in> entry_set en fs e"
  shows "if re_kind e = RELK_VARIADIC then 1 \<le> length t \<and> length t \<le> MAX_VAR_ARITY else length t = re_arity e"
proof (cases "re_kind e = RELK_VARIADIC")
  case True
  obtain v where v: "vrel_ok en fs v" "entry_set en fs e = vrel_view en fs v" by (rule variadic_entry [OF assms(1,2) True])
  have "variant_set (rel_view en fs) v (length t) \<noteq> {}" using variant_rows(1) [OF v(1), of "length t"] assms(3) v(2) by auto
  then show ?thesis using True by (auto simp: variant_set_def vrel_variant_or_null_def Suc_le_eq split: if_splits option.splits)
next
  case False
  obtain r where "rel_ok en fs r" "r_arity r = re_arity e" "entry_set en fs e = rel_view en fs r"
    by (rule fixed_entry [OF assms(1,2) False])
  then show ?thesis using False view_lengths assms(3) by auto
qed

lemma lookup_query_ok:
  assumes "engine_ok en" "dafsa_create en \<noteq> None" "db_ok en fs db"
  shows "\<exists>rc db'. dl_lookup en fs db name (Some t) (length t) = Some (rc, db') \<and> lookup_spec en fs db name t rc \<and> same_db en fs db db'"
proof (cases "entry_at db (findRel db name)")
  case None
  then show ?thesis using assms(3) by (simp add: dl_lookup_def Let_def lookup_spec_def db_facts_def)
next
  case (Some e)
  let ?i = "findRel db name"
  have facts: "db_facts en fs db name = entry_set en fs e" using Some by (simp add: db_facts_def)
  note ar = fact_arity [OF assms(3) Some, of t]
  show ?thesis
  proof (cases "re_kind e = RELK_VARIADIC")
    case True
    show ?thesis
    proof (cases "length t = 0 \<or> length t > 8")
      case wide: True
      then have "t \<notin> db_facts en fs db name" using ar True unfolding facts by (auto simp: MAX_VAR_ARITY_def)
      then show ?thesis using wide True Some assms(3) by (simp add: dl_lookup_def Let_def lookup_spec_def)
    next
      case False
      have "\<exists>x db'. on_vrel db ?i e 0 (vrel_exact en fs t (length t)) = Some (x, db') \<and> vexact_spec (entry_set en fs e) t x \<and> same_db en fs db db'"
        by (rule on_vrel_ok [OF assms(3) Some True]) (use vrel_exact_ok(1) [OF assms(1,2)] in metis)
      then show ?thesis using True False Some by (simp add: dl_lookup_def Let_def lookup_spec_def vexact_spec_def facts)
    qed
  next
    case False
    obtain r where r: "re_rel e = Some r" "rel_ok en fs r" "r_arity r = re_arity e" by (rule fixed_entry [OF assms(3) Some False])
    show ?thesis
    proof (cases "length t = re_arity e")
      case True
      have "\<exists>x db'. on_rel db ?i e 0 (rel_exact en fs t) = Some (x, db') \<and> x = (if t \<in> entry_set en fs e then 1 else 0) \<and> same_db en fs db db'"
      proof (rule on_rel_ok [OF assms(3) Some False])
        fix r assume r: "rel_ok en fs r" "r_arity r = re_arity e" "rel_view en fs r = entry_set en fs e"
        obtain r' where "rel_exact en fs t r = Some (if t \<in> rel_view en fs r then 1 else 0, r')" "rel_ok en fs r'" "same_relation en fs r r'"
          by (rule exact_ok [OF assms(1,2) r(1), of t]) (simp add: True r(2))
        then show "\<exists>x r'. rel_exact en fs t r = Some (x, r') \<and> x = (if t \<in> entry_set en fs e then 1 else 0) \<and>
            rel_ok en fs r' \<and> rel_view en fs r' = rel_view en fs r \<and> r_arity r' = r_arity r"
          using same_relation_view [of en fs r r'] r(3) by (simp add: same_relation_def)
      qed
      then show ?thesis using True False Some r by (simp add: dl_lookup_def Let_def lookup_spec_def facts)
    next
      case wrong: False
      then have "t \<notin> db_facts en fs db name" using ar False unfolding facts by auto
      then show ?thesis using wrong False Some r assms(3) by (simp add: dl_lookup_def Let_def lookup_spec_def)
    qed
  qed
qed

lemma prefix_query_ok:
  assumes "engine_ok en" "dafsa_create en \<noteq> None" "adds_succeed en" "db_ok en fs db" "k \<le> length l"
  shows "\<exists>res db'. dl_prefix en fs db name (Some l) k cb s = Some (res, db') \<and>
    prefix_query_spec en fs db name k (take k l) cb s res \<and> same_db en fs db db'"
proof (cases "entry_at db (findRel db name)")
  case None
  then show ?thesis using assms(4) by (simp add: dl_prefix_def Let_def prefix_query_spec_def)
next
  case (Some e)
  let ?i = "findRel db name"
  have facts: "db_facts en fs db name = entry_set en fs e" using Some by (simp add: db_facts_def)
  show ?thesis
  proof (cases "re_kind e = RELK_VARIADIC")
    case True
    let ?P = "if k \<le> MAX_ARITY then vprefix_spec (entry_set en fs e) (take k l) cb s else (\<lambda>res. res = (-1, s))"
    let ?f = "\<lambda>v. map_option (\<lambda>(v', res). (res, v')) (vrel_prefix en fs (Some l) k cb s v)"
    have "\<exists>x db'. on_vrel db ?i e (-1, s) ?f = Some (x, db') \<and> ?P x \<and> same_db en fs db db'"
    proof (rule on_vrel_ok [OF assms(4) Some True])
      fix v assume v: "vrel_ok en fs v" "vrel_view en fs v = entry_set en fs e"
      show "\<exists>x v'. ?f v = Some (x, v') \<and> ?P x \<and> vrel_ok en fs v' \<and> same_vrelation en fs v v'"
      proof (cases "k \<le> MAX_ARITY")
        case True
        then have k: "k \<le> MAX_VAR_ARITY" by (simp add: MAX_ARITY_def MAX_VAR_ARITY_def)
        obtain v' res where "vrel_prefix en fs (Some l) k cb s v = Some (v', res)" "vprefix_spec (vrel_view en fs v) (take k l) cb s res"
          "vrel_ok en fs v'" "same_vrelation en fs v v'"
          using vrel_prefix_ok [OF assms(1-3) v(1) k assms(5), of cb s] by blast
        then show ?thesis using True v(2) by simp
      next
        case False
        then have "k > MAX_VAR_ARITY" by (simp add: MAX_ARITY_def MAX_VAR_ARITY_def)
        then show ?thesis using v False by (simp add: vrel_prefix_def vrelPrefixImpl_def same_vrelation_def)
      qed
    qed
    then show ?thesis using True Some facts by (auto simp: dl_prefix_def Let_def prefix_query_spec_def split: if_splits)
  next
    case False
    let ?P = "if k \<le> re_arity e then prefix_spec (entry_set en fs e) (take k l) cb s else (\<lambda>res. res = (-1, s))"
    have "\<exists>x db'. on_rel db ?i e (-1, s) (rel_prefix en fs (Some l) k cb s) = Some (x, db') \<and> ?P x \<and> same_db en fs db db'"
    proof (rule on_rel_ok [OF assms(4) Some False])
      fix r assume r: "rel_ok en fs r" "r_arity r = re_arity e" "rel_view en fs r = entry_set en fs e"
      have "\<exists>x r'. rel_prefix en fs (Some l) k cb s r = Some (x, r') \<and> ?P x \<and> rel_ok en fs r' \<and> rel_view en fs r' = rel_view en fs r"
      proof (cases "k \<le> re_arity e")
        case True
        have "k \<le> r_arity r" using True r(2) by simp
        then show ?thesis
          using True r(3) by (rule_tac prefix_ok [OF assms(1-3) r(1) _ assms(5), of cb s]) auto
      next
        case False
        then show ?thesis using prefix_wide [OF assms(1-3) r(1), of k "Some l" cb s] r(2) by auto
      qed
      then obtain x r' where x: "rel_prefix en fs (Some l) k cb s r = Some (x, r')" "?P x" "rel_ok en fs r'"
        "rel_view en fs r' = rel_view en fs r" by (elim exE conjE)
      then show "\<exists>x r'. rel_prefix en fs (Some l) k cb s r = Some (x, r') \<and> ?P x \<and> rel_ok en fs r' \<and>
          rel_view en fs r' = rel_view en fs r \<and> r_arity r' = r_arity r"
        using rel_prefix_arity [OF x(1)] by (intro exI [of _ x] exI [of _ r']) simp
    qed
    then show ?thesis using False Some facts by (auto simp: dl_prefix_def Let_def prefix_query_spec_def split: if_splits)
  qed
qed

subsection \<open>Order statistics of a snapshot\<close>

lemma find_line_rc: "find_line raws name w = (rc, a, v) \<Longrightarrow> rc = 0 \<and> a = 0 \<and> \<not> v \<or> rc = 1"
  by (induction raws) (auto simp: Let_def split: option.splits if_splits prod.splits)

lemma find_rel_rc: "manifest_find_rel_ex fs sdir name w = (rc, a, v) \<Longrightarrow> rc = 1 \<or> (rc = 0 \<or> rc = -1) \<and> a = 0 \<and> \<not> v"
  by (auto simp: manifest_find_rel_ex_def dest: find_line_rc split: option.splits)

lemma card_keyed:
  assumes "keyed a d"
  shows "card (dwords d) = card (dtuples a d)"
proof -
  have "inj_on encodeKey (dtuples a d)"
    by (rule inj_onI) (metis (mono_tags, lifting) dtuples_def encodeKey_inj mem_Collect_eq)
  then show ?thesis by (simp add: dwords_encode [OF assms] card_image)
qed

lemma view_stats:
  assumes "engine_ok en" "published en fs dir version name a" "length q = a" "length hi = a"
    "dafsa_view_open en (fs (rel_file (snapshot_dir dir version) name)) = Some v"
  shows "rank_spec (snap_tuples en fs dir version name a) [] q (view_rank en v a q)"
    "select_spec (snap_tuples en fs dir version name a) [] i (view_select en v a i)"
    "range_count_spec (snap_tuples en fs dir version name a) [] q hi (view_range_count en v a q hi)"
    "view_count en v = card (snap_tuples en fs dir version name a)"
proof -
  obtain v' d where d: "dafsa_view_open en (fs (rel_file (snapshot_dir dir version) name)) = Some v'" "view_of en v' d"
    "keyed a d" "dtuples a d = snap_tuples en fs dir version name a"
    by (rule published_view [OF assms(1,2)])
  have v: "v' = v" using d(1) assms(5) by simp
  have a: "a \<le> MAX_ARITY" using assms(2) by (simp add: published_def)
  have m: "matching R [] = R" for R by (simp add: matching_def)
  note st = initial_stats(1,2) [OF assms(1) d(3) a assms(3,3,4), unfolded d(4)]
    initial_stats(3) [OF assms(1) d(3) a assms(3,3,4), of i, unfolded d(4)]
  show "rank_spec (snap_tuples en fs dir version name a) [] q (view_rank en v a q)"
    "select_spec (snap_tuples en fs dir version name a) [] i (view_select en v a i)"
    "range_count_spec (snap_tuples en fs dir version name a) [] q hi (view_range_count en v a q hi)"
    using st d(2) a by (simp_all add: v view_of_def m rank_spec_def select_spec_def range_count_spec_def view_rank_def view_select_def
        view_range_count_def viewEncodeKey_def)
  have "card (dwords d) = card (dtuples a d)" by (rule card_keyed [OF d(3)])
  then show "view_count en v = card (snap_tuples en fs dir version name a)"
    using d(2,4) by (simp add: v view_of_def view_count_def)
qed

text \<open>Every file the manifest of the current snapshot lists for the name is the one published.\<close>

definition snapshot_complete :: "engine \<Rightarrow> files \<Rightarrow> dl_db \<Rightarrow> string \<Rightarrow> bool" where
  "snapshot_complete en fs db name \<longleftrightarrow> (\<forall>dir a. db_dir db = Some dir \<and>
     manifest_find_rel_ex fs (snapshot_dir dir (db_snap_version db)) name True = (1, a, False) \<longrightarrow>
     published en fs dir (db_snap_version db) name a)"

lemma open_rel_ok:
  assumes "db_ok en fs db" "cache_ok en fs db" "length name \<le> 63"
  obtains v ar variadic db' where "snapshotViewOpenRel en fs db name = ((v, ar, variadic), db')" "same_db en fs db db'"
    "\<forall>dir. db_dir db = Some dir \<and> manifest_find_rel_ex fs (snapshot_dir dir (db_snap_version db)) name True = (1, a, False) \<longrightarrow>
      ar = a \<and> \<not> variadic \<and> v = dafsa_view_open en (fs (rel_file (snapshot_dir dir (db_snap_version db)) name))"
    "(\<forall>dir. db_dir db = Some dir \<longrightarrow> manifest_find_rel_ex fs (snapshot_dir dir (db_snap_version db)) name True \<noteq> (1, a, False)) \<and> 1 \<le> a \<longrightarrow>
      variadic \<or> ar \<noteq> a"
proof (cases "db_dir db")
  case None
  then show thesis using that [of None 0 False db] assms(1) by (simp add: snapshotViewOpenRel_def)
next
  case (Some dir)
  let ?s = "snapshot_dir dir (db_snap_version db)"
  obtain rc ar variadic where m: "manifest_find_rel_ex fs ?s name True = (rc, ar, variadic)" by (metis prod_cases3)
  note rc = find_rel_rc [OF m]
  show thesis
  proof (cases "rc = 0")
    case True
    then show thesis using that [of None ar variadic db] assms(1) Some m rc by (simp add: snapshotViewOpenRel_def Let_def)
  next
    case False
    have "vcache_ok en fs dir (db_vcache db)" using assms(2) Some by (simp add: cache_ok_def)
    then obtain vc' where vc': "view_open_cached en fs (db_vcache db) name (db_snap_version db) ?s =
        (dafsa_view_open en (fs (rel_file ?s name)), vc')" "vcache_ok en fs dir vc'"
      by (rule open_cached_ok [OF _ assms(3)])
    have "same_db en fs db (db\<lparr>db_vcache := vc'\<rparr>)"
      by (rule same_db_vcache [OF assms(1)]) (use vc'(2) Some in \<open>simp add: cache_ok_def\<close>)
    then show thesis
      using that [of "dafsa_view_open en (fs (rel_file ?s name))" ar variadic "db\<lparr>db_vcache := vc'\<rparr>"] Some m rc False vc'(1)
      by (auto simp: snapshotViewOpenRel_def Let_def)
  qed
qed

lemma on_snapshot_ok:
  assumes "db_ok en fs db" "cache_ok en fs db" "length name \<le> 63" "1 \<le> a" "snapshot_complete en fs db name" "db_snap_version db > 0"
    and "\<And>dir v. stat_tuples en fs db name a = Some (snap_tuples en fs dir (db_snap_version db) name a) \<Longrightarrow>
      published en fs dir (db_snap_version db) name a \<Longrightarrow>
      dafsa_view_open en (fs (rel_file (snapshot_dir dir (db_snap_version db)) name)) = Some v \<Longrightarrow> P (f v)"
    and "stat_tuples en fs db name a = None \<Longrightarrow> P err"
  shows "\<exists>x db'. on_snapshot en fs db name a err f = Some (x, db') \<and> P x \<and> same_db en fs db db'"
proof (rule open_rel_ok [OF assms(1-3), of a])
  fix v ar variadic db'
  assume o: "snapshotViewOpenRel en fs db name = ((v, ar, variadic), db')" "same_db en fs db db'"
    and found: "\<forall>dir. db_dir db = Some dir \<and> manifest_find_rel_ex fs (snapshot_dir dir (db_snap_version db)) name True = (1, a, False) \<longrightarrow>
      ar = a \<and> \<not> variadic \<and> v = dafsa_view_open en (fs (rel_file (snapshot_dir dir (db_snap_version db)) name))"
    and missing: "(\<forall>dir. db_dir db = Some dir \<longrightarrow> manifest_find_rel_ex fs (snapshot_dir dir (db_snap_version db)) name True \<noteq> (1, a, False)) \<and> 1 \<le> a \<longrightarrow>
      variadic \<or> ar \<noteq> a"
  show ?thesis
  proof (cases "\<exists>dir. db_dir db = Some dir \<and> manifest_find_rel_ex fs (snapshot_dir dir (db_snap_version db)) name True = (1, a, False)")
    case True
    then obtain dir where dir: "db_dir db = Some dir" "manifest_find_rel_ex fs (snapshot_dir dir (db_snap_version db)) name True = (1, a, False)"
      by blast
    have p: "published en fs dir (db_snap_version db) name a" using assms(5) dir by (simp add: snapshot_complete_def)
    obtain w where w: "dafsa_view_open en (fs (rel_file (snapshot_dir dir (db_snap_version db)) name)) = Some w"
      using p by (auto simp: published_def)
    have "stat_tuples en fs db name a = Some (snap_tuples en fs dir (db_snap_version db) name a)"
      using assms(6) dir by (simp add: stat_tuples_def)
    then have "P (f w)" by (rule assms(7) [OF _ p w])
    then show ?thesis using o found dir w by (simp add: on_snapshot_def)
  next
    case False
    have "stat_tuples en fs db name a = None" using False assms(6) by (auto simp: stat_tuples_def split: option.split)
    then have "P err" by (rule assms(8))
    moreover have "variadic \<or> ar \<noteq> a" using missing False assms(4) by blast
    ultimately show ?thesis using o by (auto simp: on_snapshot_def)
  qed
qed

subsection \<open>Order statistics of the live relation\<close>

lemma live_cases:
  obtains "live_tuples en fs db name a = None" "ordstatsRelRo db name a = None"
    | e where "live_tuples en fs db name a = Some (entry_set en fs e)" "ordstatsRelRo db name a = Some (findRel db name, e)"
      "entry_at db (findRel db name) = Some e" "re_kind e \<noteq> RELK_VARIADIC" "re_arity e = a"
proof (cases "ordstatsRelRo db name a")
  case None
  then show thesis by (intro that(1)) (simp_all add: live_tuples_def)
next
  case (Some p)
  then obtain e where e: "entry_at db (findRel db name) = Some e" "re_kind e \<noteq> RELK_VARIADIC" "re_arity e = a" "p = (findRel db name, e)"
    by (auto simp: ordstatsRelRo_def Let_def split: option.splits if_splits)
  then show thesis using Some by (intro that(2) [of e]) (simp_all add: live_tuples_def db_facts_def)
qed

lemma on_ordstats_ok:
  assumes "db_ok en fs db"
    and "\<And>r. rel_ok en fs r \<Longrightarrow> r_arity r = a \<Longrightarrow> live_tuples en fs db name a = Some (rel_view en fs r) \<Longrightarrow>
      \<exists>x r'. f r = Some (x, r') \<and> P x \<and> rel_ok en fs r' \<and> rel_view en fs r' = rel_view en fs r \<and> r_arity r' = r_arity r"
    and "live_tuples en fs db name a = None \<Longrightarrow> P err"
  shows "\<exists>x db'. on_ordstats db name a err f = Some (x, db') \<and> P x \<and> same_db en fs db db'"
proof (rule live_cases [of en fs db name a])
  assume "live_tuples en fs db name a = None" "ordstatsRelRo db name a = None"
  then show ?thesis using assms(1,3) by (simp add: on_ordstats_def)
next
  fix e assume e: "live_tuples en fs db name a = Some (entry_set en fs e)" "ordstatsRelRo db name a = Some (findRel db name, e)"
    "entry_at db (findRel db name) = Some e" "re_kind e \<noteq> RELK_VARIADIC" "re_arity e = a"
  have "\<exists>x db'. on_rel db (findRel db name) e err f = Some (x, db') \<and> P x \<and> same_db en fs db db'"
    by (rule on_rel_ok [OF assms(1) e(3,4)]) (rule assms(2), simp_all add: e)
  then show ?thesis using e(2) by (simp add: on_ordstats_def)
qed

lemma stat_live: "\<not> db_snap_version db > 0 \<Longrightarrow> stat_tuples en fs db name a = live_tuples en fs db name a"
  by (simp add: stat_tuples_def live_tuples_def)

lemma unbounded: "matching R [] = R" by (simp add: matching_def)

lemma rank_query_ok:
  assumes "engine_ok en" "dafsa_create en \<noteq> None" "adds_succeed en" "db_ok en fs db" "cache_ok en fs db" "length name \<le> 63"
    "snapshot_complete en fs db name" "1 \<le> a" "length q = a"
  shows "\<exists>n db'. dl_rank en fs db name (Some q) a = Some (n, db') \<and> rank_query_spec (stat_tuples en fs db name a) [] q n \<and> same_db en fs db db'"
proof (cases "db_snap_version db > 0")
  case True
  have "\<exists>n db'. on_snapshot en fs db name a UINT64_MAX (\<lambda>v. view_rank en v a q) = Some (n, db') \<and>
      rank_query_spec (stat_tuples en fs db name a) [] q n \<and> same_db en fs db db'"
    by (rule on_snapshot_ok [OF assms(4-6,8,7) True]) (use view_stats(1) [OF assms(1) _ assms(9,9)] in \<open>simp_all add: rank_query_spec_def\<close>)
  then show ?thesis using True by (simp add: dl_rank_def)
next
  case False
  have "\<exists>n db'. on_ordstats db name a UINT64_MAX (rel_rank en fs q) = Some (n, db') \<and>
      rank_query_spec (live_tuples en fs db name a) [] q n \<and> same_db en fs db db'"
  proof (rule on_ordstats_ok [OF assms(4)])
    fix r assume r: "rel_ok en fs r" "r_arity r = a" "live_tuples en fs db name a = Some (rel_view en fs r)"
    obtain r' where "rel_rank en fs q r = Some (card {t \<in> rel_view en fs r. t < q}, r')" "rel_ok en fs r'"
      "rel_view en fs r' = rel_view en fs r" "r_arity r' = r_arity r"
      by (rule rank_ok [OF assms(1-3) r(1), of q]) (simp add: assms(9) r(2))
    then show "\<exists>n r'. rel_rank en fs q r = Some (n, r') \<and> rank_query_spec (live_tuples en fs db name a) [] q n \<and>
        rel_ok en fs r' \<and> rel_view en fs r' = rel_view en fs r \<and> r_arity r' = r_arity r"
      by (simp add: r(3) rank_query_spec_def rank_spec_def unbounded)
  qed (simp add: rank_query_spec_def)
  then show ?thesis using stat_live [OF False, of en fs name a] False by (simp add: dl_rank_def)
qed

lemma select_query_ok:
  assumes "engine_ok en" "dafsa_create en \<noteq> None" "adds_succeed en" "db_ok en fs db" "cache_ok en fs db" "length name \<le> 63"
    "snapshot_complete en fs db name" "1 \<le> a"
  shows "\<exists>t db'. dl_select en fs db name i a = Some (t, db') \<and> select_query_spec (stat_tuples en fs db name a) [] i t \<and> same_db en fs db db'"
proof (cases "db_snap_version db > 0")
  case True
  have z: "length (replicate a (0 :: u32)) = a" by simp
  have "\<exists>t db'. on_snapshot en fs db name a None (\<lambda>v. view_select en v a i) = Some (t, db') \<and>
      select_query_spec (stat_tuples en fs db name a) [] i t \<and> same_db en fs db db'"
    by (rule on_snapshot_ok [OF assms(4-6,8,7) True]) (use view_stats(2) [OF assms(1) _ z z] in \<open>simp_all add: select_query_spec_def\<close>)
  then show ?thesis using True by (simp add: dl_select_def)
next
  case False
  have "\<exists>t db'. on_ordstats db name a None (rel_select en fs i) = Some (t, db') \<and>
      select_query_spec (live_tuples en fs db name a) [] i t \<and> same_db en fs db db'"
  proof (rule on_ordstats_ok [OF assms(4)])
    fix r assume r: "rel_ok en fs r" "r_arity r = a" "live_tuples en fs db name a = Some (rel_view en fs r)"
    obtain r' where "rel_select en fs i r =
        Some (if i < card (rel_view en fs r) then Some (sorted_list_of_set (rel_view en fs r) ! i) else None, r')" "rel_ok en fs r'"
      "rel_view en fs r' = rel_view en fs r" "r_arity r' = r_arity r"
      by (rule select_ok [OF assms(1-3) r(1), of i])
    then show "\<exists>t r'. rel_select en fs i r = Some (t, r') \<and> select_query_spec (live_tuples en fs db name a) [] i t \<and>
        rel_ok en fs r' \<and> rel_view en fs r' = rel_view en fs r \<and> r_arity r' = r_arity r"
      by (simp add: r(3) select_query_spec_def select_spec_def unbounded)
  qed (simp add: select_query_spec_def)
  then show ?thesis using stat_live [OF False, of en fs name a] False by (simp add: dl_select_def)
qed

lemma range_query_ok:
  assumes "engine_ok en" "dafsa_create en \<noteq> None" "adds_succeed en" "db_ok en fs db" "cache_ok en fs db" "length name \<le> 63"
    "snapshot_complete en fs db name" "1 \<le> a" "length q = a" "length hi = a"
  shows "\<exists>n db'. dl_range_count en fs db name (Some q) (Some hi) a = Some (n, db') \<and>
    range_query_spec (stat_tuples en fs db name a) [] q hi n \<and> same_db en fs db db'"
proof (cases "db_snap_version db > 0")
  case True
  have "\<exists>n db'. on_snapshot en fs db name a UINT64_MAX (\<lambda>v. view_range_count en v a q hi) = Some (n, db') \<and>
      range_query_spec (stat_tuples en fs db name a) [] q hi n \<and> same_db en fs db db'"
    by (rule on_snapshot_ok [OF assms(4-6,8,7) True]) (use view_stats(3) [OF assms(1) _ assms(9,10)] in \<open>simp_all add: range_query_spec_def\<close>)
  then show ?thesis using True by (simp add: dl_range_count_def)
next
  case False
  have "\<exists>n db'. on_ordstats db name a UINT64_MAX (rel_range_count en fs q hi) = Some (n, db') \<and>
      range_query_spec (live_tuples en fs db name a) [] q hi n \<and> same_db en fs db db'"
  proof (rule on_ordstats_ok [OF assms(4)])
    fix r assume r: "rel_ok en fs r" "r_arity r = a" "live_tuples en fs db name a = Some (rel_view en fs r)"
    obtain r' where "rel_range_count en fs q hi r = Some (card {t \<in> rel_view en fs r. q \<le> t \<and> t < hi}, r')" "rel_ok en fs r'"
      "rel_view en fs r' = rel_view en fs r"
      by (rule range_count_ok [OF assms(1-3) r(1), of q hi]) (simp_all add: assms(9,10) r(2))
    moreover from this(1) have "r_arity r' = r_arity r" unfolding rel_range_count_def by (rule order_read_arity)
    ultimately show "\<exists>n r'. rel_range_count en fs q hi r = Some (n, r') \<and> range_query_spec (live_tuples en fs db name a) [] q hi n \<and>
        rel_ok en fs r' \<and> rel_view en fs r' = rel_view en fs r \<and> r_arity r' = r_arity r"
      by (simp add: r(3) range_query_spec_def range_count_spec_def unbounded)
  qed (simp add: range_query_spec_def)
  then show ?thesis using stat_live [OF False, of en fs name a] False by (simp add: dl_range_count_def)
qed

lemma count_query_ok:
  assumes "engine_ok en" "db_ok en fs db" "cache_ok en fs db" "length name \<le> 63"
    "snapshot_complete en fs db name" "db_snap_version db > 0" "stat_tuples en fs db name a \<noteq> None"
  shows "\<exists>n db'. dl_count en fs db name = Some (n, db') \<and> count_query_spec (stat_tuples en fs db name a) n \<and> same_db en fs db db'"
proof (rule open_rel_ok [OF assms(2-4), of a])
  fix v ar variadic db'
  assume o: "snapshotViewOpenRel en fs db name = ((v, ar, variadic), db')" "same_db en fs db db'"
    and found: "\<forall>dir. db_dir db = Some dir \<and> manifest_find_rel_ex fs (snapshot_dir dir (db_snap_version db)) name True = (1, a, False) \<longrightarrow>
      ar = a \<and> \<not> variadic \<and> v = dafsa_view_open en (fs (rel_file (snapshot_dir dir (db_snap_version db)) name))"
  obtain dir where dir: "db_dir db = Some dir" "manifest_find_rel_ex fs (snapshot_dir dir (db_snap_version db)) name True = (1, a, False)"
    "stat_tuples en fs db name a = Some (snap_tuples en fs dir (db_snap_version db) name a)"
    using assms(6,7) by (auto simp: stat_tuples_def split: option.splits if_splits)
  have p: "published en fs dir (db_snap_version db) name a" using assms(5) dir by (simp add: snapshot_complete_def)
  then obtain w where w: "dafsa_view_open en (fs (rel_file (snapshot_dir dir (db_snap_version db)) name)) = Some w"
    by (auto simp: published_def)
  have z: "length (replicate a (0 :: u32)) = a" by simp
  show ?thesis using view_stats(4) [OF assms(1) p z z w] o found dir w assms(6) by (simp add: dl_count_def count_query_spec_def)
qed

lemma rank_bound_query_ok:
  assumes "engine_ok en" "dafsa_create en \<noteq> None" "adds_succeed en" "db_ok en fs db" "k \<le> a" "k \<le> length l"
    "length q = a" "take k q = take k l"
  shows "\<exists>n db'. dl_rank_bound en fs db name (Some l) k (Some q) a = Some (n, db') \<and>
    rank_query_spec (live_tuples en fs db name a) (take k l) q n \<and> same_db en fs db db'"
proof -
  have "\<exists>n db'. on_ordstats db name a UINT64_MAX (\<lambda>r. Some (rel_rank_bound en fs (Some l) k q r)) = Some (n, db') \<and>
      rank_query_spec (live_tuples en fs db name a) (take k l) q n \<and> same_db en fs db db'"
  proof (rule on_ordstats_ok [OF assms(4)])
    fix r assume r: "rel_ok en fs r" "r_arity r = a" "live_tuples en fs db name a = Some (rel_view en fs r)"
    obtain n r' where n: "rel_rank_bound en fs (Some l) k q r = (n, r')" "rank_spec (rel_view en fs r) (take k l) q n" "rel_ok en fs r'"
      "rel_view en fs r' = rel_view en fs r"
      by (rule rank_bound_ok [OF assms(1-3) r(1) _ assms(6) _ assms(8)]) (simp_all add: assms(5,7) r(2))
    have "r_arity r' = r_arity r" using n(1) unfolding rel_rank_bound_def by (rule bound_read_arity)
    then show "\<exists>n r'. Some (rel_rank_bound en fs (Some l) k q r) = Some (n, r') \<and>
        rank_query_spec (live_tuples en fs db name a) (take k l) q n \<and> rel_ok en fs r' \<and> rel_view en fs r' = rel_view en fs r \<and> r_arity r' = r_arity r"
      using n by (simp add: r(3) rank_query_spec_def)
  qed (simp add: rank_query_spec_def)
  then show ?thesis by (simp add: dl_rank_bound_def)
qed

lemma select_bound_query_ok:
  assumes "engine_ok en" "dafsa_create en \<noteq> None" "adds_succeed en" "db_ok en fs db" "k \<le> a" "k \<le> length l"
  shows "\<exists>t db'. dl_select_bound en fs db name (Some l) k i a = Some (t, db') \<and>
    select_query_spec (live_tuples en fs db name a) (take k l) i t \<and> same_db en fs db db'"
proof -
  have "\<exists>t db'. on_ordstats db name a None (\<lambda>r. Some (rel_select_bound en fs (Some l) k i r)) = Some (t, db') \<and>
      select_query_spec (live_tuples en fs db name a) (take k l) i t \<and> same_db en fs db db'"
  proof (rule on_ordstats_ok [OF assms(4)])
    fix r assume r: "rel_ok en fs r" "r_arity r = a" "live_tuples en fs db name a = Some (rel_view en fs r)"
    obtain t r' where n: "rel_select_bound en fs (Some l) k i r = (t, r')" "select_spec (rel_view en fs r) (take k l) i t" "rel_ok en fs r'"
      "rel_view en fs r' = rel_view en fs r"
      by (rule select_bound_ok [OF assms(1-3) r(1) _ assms(6)]) (simp_all add: assms(5) r(2))
    have "r_arity r' = r_arity r" using n(1) unfolding rel_select_bound_def by (rule bound_read_arity)
    then show "\<exists>t r'. Some (rel_select_bound en fs (Some l) k i r) = Some (t, r') \<and>
        select_query_spec (live_tuples en fs db name a) (take k l) i t \<and> rel_ok en fs r' \<and> rel_view en fs r' = rel_view en fs r \<and> r_arity r' = r_arity r"
      using n by (simp add: r(3) select_query_spec_def)
  qed (simp add: select_query_spec_def)
  then show ?thesis by (simp add: dl_select_bound_def)
qed

lemma range_bound_query_ok:
  assumes "engine_ok en" "dafsa_create en \<noteq> None" "adds_succeed en" "db_ok en fs db" "k \<le> a" "k \<le> length l"
    "length q = a" "take k q = take k l" "length hi = a" "take k hi = take k l"
  shows "\<exists>n db'. dl_range_count_bound en fs db name (Some l) k (Some q) (Some hi) a = Some (n, db') \<and>
    range_query_spec (live_tuples en fs db name a) (take k l) q hi n \<and> same_db en fs db db'"
proof -
  have "\<exists>n db'. on_ordstats db name a UINT64_MAX (\<lambda>r. Some (rel_range_count_bound en fs (Some l) k q hi r)) = Some (n, db') \<and>
      range_query_spec (live_tuples en fs db name a) (take k l) q hi n \<and> same_db en fs db db'"
  proof (rule on_ordstats_ok [OF assms(4)])
    fix r assume r: "rel_ok en fs r" "r_arity r = a" "live_tuples en fs db name a = Some (rel_view en fs r)"
    obtain n r' where n: "rel_range_count_bound en fs (Some l) k q hi r = (n, r')" "range_count_spec (rel_view en fs r) (take k l) q hi n"
      "rel_ok en fs r'" "rel_view en fs r' = rel_view en fs r"
      by (rule range_count_bound_ok [OF assms(1-3) r(1) _ assms(6) _ assms(8) _ assms(10)]) (simp_all add: assms(5,7,9) r(2))
    have "r_arity r' = r_arity r" using n(1) unfolding rel_range_count_bound_def by (rule bound_read_arity)
    then show "\<exists>n r'. Some (rel_range_count_bound en fs (Some l) k q hi r) = Some (n, r') \<and>
        range_query_spec (live_tuples en fs db name a) (take k l) q hi n \<and> rel_ok en fs r' \<and> rel_view en fs r' = rel_view en fs r \<and> r_arity r' = r_arity r"
      using n by (simp add: r(3) range_query_spec_def)
  qed (simp add: range_query_spec_def)
  then show ?thesis by (simp add: dl_range_count_bound_def)
qed

subsection \<open>Properties\<close>

text \<open>C10: point lookups and prefix enumerations of the public interface are about the live database. Given memory to load the
  automata and to fold pending rows in, for any name, tuple and bound, whatever way the relations are held: a lookup answers 1
  exactly for a fact of that name and arity, fixed or variadic; an enumeration of a relation of fixed arity hands out exactly
  the facts under the bound, in order, until the callback answers non-zero; that of a variadic relation does so for a callback that takes
  them all, by ascending arity (for one that stops early, where the code does not do what the header says, only a bound on the
  answer is stated); an unknown name and a bound wider than the relation are errors. Neither changes
  what any later read of any relation sees.\<close>

theorem live_queries_correct:
  assumes "engine_ok en" "dafsa_create en \<noteq> None" "adds_succeed en" "db_ok en fs db" "k \<le> length l"
  shows "(\<exists>rc db'. dl_lookup en fs db name (Some t) (length t) = Some (rc, db') \<and> lookup_spec en fs db name t rc \<and> same_db en fs db db') \<and>
    (\<exists>res db'. dl_prefix en fs db name (Some l) k cb s = Some (res, db') \<and>
      prefix_query_spec en fs db name k (take k l) cb s res \<and> same_db en fs db db')"
  by (intro conjI lookup_query_ok [OF assms(1,2,4)] prefix_query_ok [OF assms])

theorem live_queries_correct_witness:
  "\<exists>db. db_facts trie_engine no_files db ''q'' = {[5, 2]} \<and> (\<exists>db'. dl_lookup trie_engine no_files db ''q'' (Some [5, 2]) 2 = Some (1, db')) \<and>
    (\<exists>db'. dl_prefix trie_engine no_files db ''q'' (Some [5]) 1 (\<lambda>t s. (0, t # s)) [] = Some ((1, [[5, 2]]), db'))"
proof (rule one_row)
  fix r assume r: "rel_ok trie_engine no_files r" "rel_view trie_engine no_files r = {[5, 2]}" "r_arity r = 2"
  let ?cb = "\<lambda>t s. (0 :: int, t # s)"
  have facts: "db_facts trie_engine no_files (row_db r) ''q'' = {[5, 2]}" using r(2) row_db(3) by simp
  have m: "matching {[5, 2]} [5] = {[5, 2 :: u32]}" by (auto simp: matching_def)
  note q = live_queries_correct [where l = "[5]" and k = 1 and t = "[5, 2]" and name = "''q''" and cb = ?cb and s = "[]",
      OF trie_engine_ok trie_create_ne trie_adds row_db(1) [OF r(1,3)]]
  obtain rc db1 where l: "dl_lookup trie_engine no_files (row_db r) ''q'' (Some [5, 2]) 2 = Some (rc, db1)"
    "lookup_spec trie_engine no_files (row_db r) ''q'' [5, 2] rc" using q by (auto simp: numeral_2_eq_2)
  obtain res db2 where p: "dl_prefix trie_engine no_files (row_db r) ''q'' (Some [5]) 1 ?cb [] = Some (res, db2)"
    "prefix_query_spec trie_engine no_files (row_db r) ''q'' 1 [5] ?cb [] res" using q by auto
  have "res = (1, [[5, 2]])"
    using p(2) by (simp add: prefix_query_spec_def row_db(2) facts m prefix_spec_def deliver_def hand_out_def RELK_FIXED_def RELK_VARIADIC_def)
  moreover have "rc = 1" using l(2) facts by (simp add: lookup_spec_def)
  ultimately show ?thesis using facts l(1) p(1) by (intro exI [of _ "row_db r"]) simp
qed

text \<open>C23: the order statistics of the public interface, for a name of at most 63 characters (what the cache of snapshots keeps of a
  name) and given memory to load the automata and to fold pending rows in. Without a bound they are about the published
  snapshot when there is one and about the live relation otherwise: rank, select and range count answer the rank, the tuple at an
  index and the size of a range among exactly those tuples, and their error value exactly when the
  name is absent, variadic or of another arity. Under a bound they answer the same restricted to it as long as the published and
  the live tuples are the same. The count of a published snapshot that lists the name is its number of tuples. Nothing
  any later read sees is changed.\<close>

theorem order_statistics_correct:
  assumes "engine_ok en" "dafsa_create en \<noteq> None" "adds_succeed en" "db_ok en fs db" "cache_ok en fs db" "length name \<le> 63"
    "snapshot_complete en fs db name" "1 \<le> a" "k \<le> a" "k \<le> length l" "length q = a" "take k q = take k l" "length hi = a" "take k hi = take k l"
  shows "(\<exists>n db'. dl_rank en fs db name (Some q) a = Some (n, db') \<and> rank_query_spec (stat_tuples en fs db name a) [] q n \<and> same_db en fs db db') \<and>
    (\<exists>t db'. dl_select en fs db name i a = Some (t, db') \<and> select_query_spec (stat_tuples en fs db name a) [] i t \<and> same_db en fs db db') \<and>
    (\<exists>n db'. dl_range_count en fs db name (Some q) (Some hi) a = Some (n, db') \<and>
      range_query_spec (stat_tuples en fs db name a) [] q hi n \<and> same_db en fs db db') \<and>
    (\<exists>n db'. dl_rank_bound en fs db name (Some l) k (Some q) a = Some (n, db') \<and>
      rank_bound_query_spec en fs db name a (take k l) q n \<and> same_db en fs db db') \<and>
    (\<exists>t db'. dl_select_bound en fs db name (Some l) k i a = Some (t, db') \<and>
      select_bound_query_spec en fs db name a (take k l) i t \<and> same_db en fs db db') \<and>
    (\<exists>n db'. dl_range_count_bound en fs db name (Some l) k (Some q) (Some hi) a = Some (n, db') \<and>
      range_bound_query_spec en fs db name a (take k l) q hi n \<and> same_db en fs db db') \<and>
    (db_snap_version db > 0 \<and> stat_tuples en fs db name a \<noteq> None \<longrightarrow>
      (\<exists>n db'. dl_count en fs db name = Some (n, db') \<and> count_query_spec (stat_tuples en fs db name a) n \<and> same_db en fs db db'))"
proof -
  have b1: "\<exists>n db'. dl_rank_bound en fs db name (Some l) k (Some q) a = Some (n, db') \<and>
      rank_bound_query_spec en fs db name a (take k l) q n \<and> same_db en fs db db'"
    using rank_bound_query_ok [OF assms(1-4,9-12)] unfolding rank_bound_query_spec_def bound_mirrors_def by metis
  have b2: "\<exists>t db'. dl_select_bound en fs db name (Some l) k i a = Some (t, db') \<and>
      select_bound_query_spec en fs db name a (take k l) i t \<and> same_db en fs db db'"
    using select_bound_query_ok [OF assms(1-4,9,10)] unfolding select_bound_query_spec_def bound_mirrors_def by metis
  have b3: "\<exists>n db'. dl_range_count_bound en fs db name (Some l) k (Some q) (Some hi) a = Some (n, db') \<and>
      range_bound_query_spec en fs db name a (take k l) q hi n \<and> same_db en fs db db'"
    using range_bound_query_ok [OF assms(1-4,9-14)] unfolding range_bound_query_spec_def bound_mirrors_def by metis
  show ?thesis
    by (intro conjI impI b1 b2 b3 rank_query_ok [OF assms(1-8,11)] select_query_ok [OF assms(1-8)] range_query_ok [OF assms(1-8,11,13)]
        count_query_ok [OF assms(1,4-7)]; elim conjE)
qed

text \<open>One published row: nothing of the live relation counts for the statistics without a bound.\<close>

theorem order_statistics_correct_witness:
  "\<exists>db db'. db_ok trie_engine one_snapshot db \<and> dl_rank trie_engine one_snapshot db ''q'' (Some [5, 9]) 2 = Some (1, db')"
proof -
  let ?db = "one_rel_db\<lparr>db_snap_version := 1, db_vcache := replicate DL_VIEW_CACHE_SZ empty_slot\<rparr>"
  obtain dir where dir: "dir = ''d''" by simp
  have f: "rel_ok trie_engine one_snapshot fresh2" "r_arity fresh2 = 2" "rel_view trie_engine one_snapshot fresh2 = {}"
    by (rule fresh2_ok)+
  have ok: "db_ok trie_engine one_snapshot ?db"
    using f(1,2) by (simp add: db_ok_def one_rel_db_def entry_ok_def MAX_RELS_def RELK_FIXED_def RELK_VARIADIC_def)
  have c: "cache_ok trie_engine one_snapshot ?db"
    by (simp add: cache_ok_def vcache_ok_def slot_ok_def empty_slot_def)
  have m: "manifest_find_rel_ex one_snapshot (snapshot_dir ''d'' 1) ''q'' True = (1, 2, False)" by (rule one_snapshot_listed)
  have pub: "published trie_engine one_snapshot ''d'' 1 ''q'' 2" "snap_tuples trie_engine one_snapshot ''d'' 1 ''q'' 2 = {[5, 2]}"
    by (rule one_tuple_published [where fs = one_snapshot, OF one_snapshot_file])+
  have d: "db_dir ?db = Some ''d''" "db_snap_version ?db = 1" by (simp_all add: one_rel_db_def)
  have comp: "snapshot_complete trie_engine one_snapshot ?db ''q''" using m pub(1) d by (simp add: snapshot_complete_def)
  have stat: "stat_tuples trie_engine one_snapshot ?db ''q'' 2 = Some {[5, 2]}" using m pub(2) d by (simp add: stat_tuples_def)
  obtain n db' where r: "dl_rank trie_engine one_snapshot ?db ''q'' (Some [5, 9]) 2 = Some (n, db')"
    "rank_query_spec (Some {[5, 2]}) [] [5, 9] n"
    using order_statistics_correct [where k = 0 and l = "[]" and q = "[5, 9]" and hi = "[5, 9]" and a = 2 and i = 0,
        OF trie_engine_ok trie_create_ne trie_adds ok c _ comp, THEN conjunct1] unfolding stat by auto
  have "{t. t = [5, 2 :: u32] \<and> t < [5, 9]} = {[5, 2]}" by auto
  then have "n = 1" using r(2) by (simp add: rank_query_spec_def rank_spec_def matching_def)
  then show ?thesis using ok r(1) by (intro exI [of _ ?db] exI [of _ db']) simp
qed

end
