(* ===== verification/PermIndex.thy ===== *)
theory PermIndex
  imports Query
begin

text \<open>
  Permutation indices (\<^verbatim>\<open>src/permindex.h\<close>, \<^verbatim>\<open>zig/src/permindex.zig\<close>, \<^verbatim>\<open>zig/src/dl.zig\<close>): a second
  relation with the columns of each fact in another order, built when it is needed, and the order
  statistics in that order.  Position \<open>j\<close> of a permuted tuple holds the original column \<open>perm ! j\<close>.
\<close>

subsection \<open>The table\<close>

text \<open>The scan of \<open>perm\<close> for a column out of range or seen before.\<close>

fun perm_scan :: "nat \<Rightarrow> nat list \<Rightarrow> nat set \<Rightarrow> bool" where
  "perm_scan a [] seen = True"
| "perm_scan a (p # ps) seen = (if p \<ge> a \<or> p \<in> seen then False else perm_scan a ps (insert p seen))"

definition perm_same :: "int \<Rightarrow> nat \<Rightarrow> nat list \<Rightarrow> perm_index_entry \<Rightarrow> bool" where
  "perm_same rel_id arity perm pe \<longleftrightarrow> pe_rel_id pe = rel_id \<and> pe_arity pe = arity \<and> take arity (pe_perm pe) = take arity perm"

fun find_perm :: "int \<Rightarrow> nat \<Rightarrow> nat list \<Rightarrow> nat \<Rightarrow> perm_index_entry list \<Rightarrow> int" where
  "find_perm rel_id arity perm i [] = -1"
| "find_perm rel_id arity perm i (pe # pes) =
     (if perm_same rel_id arity perm pe then int i else find_perm rel_id arity perm (i + 1) pes)"

definition dl_db_find_perm :: "dl_db \<Rightarrow> int \<Rightarrow> nat \<Rightarrow> nat list \<Rightarrow> int" where
  "dl_db_find_perm db rel_id arity perm =
     (if rel_id < 0 \<or> arity = 0 \<or> arity > 8 then -1 else find_perm rel_id arity perm 0 (db_perms db))"

definition dl_db_declare_perm :: "dl_db \<Rightarrow> int \<Rightarrow> nat \<Rightarrow> nat list \<Rightarrow> int \<times> dl_db" where
  "dl_db_declare_perm db rel_id arity perm =
     (if rel_id < 0 \<or> arity = 0 \<or> arity > 8 then (-1, db)
      else if length (db_perms db) \<ge> MAX_PERMS then (-1, db)
      else if \<not> perm_scan arity (take arity perm) {} then (-1, db)
      else let existing = dl_db_find_perm db rel_id arity perm in
        if existing \<ge> 0 then (existing, db)
        else (int (length (db_perms db)),
          db\<lparr>db_perms := db_perms db @
            [\<lparr>pe_rel_id = rel_id, pe_arity = arity, pe_perm = perm, pe_pidx_rel = None, pe_dirty = True\<rparr>]\<rparr>))"

definition perm_entry :: "dl_db \<Rightarrow> int \<Rightarrow> int \<Rightarrow> perm_index_entry option" where
  "perm_entry db rel_id perm_id =
     (if perm_id < 0 \<or> nat perm_id \<ge> length (db_perms db) then None
      else if pe_rel_id (db_perms db ! nat perm_id) \<noteq> rel_id then None
      else Some (db_perms db ! nat perm_id))"

definition dl_db_get_perm :: "dl_db \<Rightarrow> int \<Rightarrow> int \<Rightarrow> nat list option" where
  "dl_db_get_perm db rel_id perm_id = map_option pe_perm (perm_entry db rel_id perm_id)"

definition dl_db_get_perm_rel :: "dl_db \<Rightarrow> int \<Rightarrow> int \<Rightarrow> relation option" where
  "dl_db_get_perm_rel db rel_id perm_id =
     (case perm_entry db rel_id perm_id of None \<Rightarrow> None | Some pe \<Rightarrow> pe_pidx_rel pe)"

definition dl_db_perm_count :: "dl_db \<Rightarrow> nat" where
  "dl_db_perm_count db = length (db_perms db)"

definition permindex_mark_dirty :: "dl_db \<Rightarrow> int \<Rightarrow> dl_db" where
  "permindex_mark_dirty db rel_id =
     db\<lparr>db_perms := map (\<lambda>pe. if pe_rel_id pe = rel_id then pe\<lparr>pe_dirty := True\<rparr> else pe) (db_perms db)\<rparr>"

definition permindex_free_all :: "dl_db \<Rightarrow> dl_db" where
  "permindex_free_all db = db\<lparr>db_perms := map (\<lambda>pe. pe\<lparr>pe_pidx_rel := None\<rparr>) (db_perms db)\<rparr>"

subsection \<open>Building an index\<close>

definition permute :: "nat list \<Rightarrow> tuple \<Rightarrow> tuple" where
  "permute perm row = map (\<lambda>j. row ! (perm ! j)) [0..<length row]"

definition put_perm :: "int \<Rightarrow> perm_index_entry \<Rightarrow> dl_db \<Rightarrow> dl_db" where
  "put_perm perm_id pe db = db\<lparr>db_perms := (db_perms db)[nat perm_id := pe]\<rparr>"

text \<open>The revision of a rebuilt index goes on from the one it replaces.\<close>

definition pidxRevSeed :: "relation option \<Rightarrow> u64 \<Rightarrow> relation option" where
  "pidxRevSeed rel carry = map_option (\<lambda>r. if carry > 0 then r\<lparr>r_rev := carry\<rparr> else r) rel"

text \<open>The loop that adds the permuted rows; what an addition answers is not looked at.\<close>

fun permute_rows :: "allocator \<Rightarrow> nat list \<Rightarrow> tuple list \<Rightarrow> tuple_set \<Rightarrow> tuple_set option" where
  "permute_rows al perm [] pts = Some pts"
| "permute_rows al perm (row # rows) pts =
     (case ts_add al pts (permute perm row) of None \<Rightarrow> None | Some (_, pts') \<Rightarrow> permute_rows al perm rows pts')"

definition permindex_build :: "engine \<Rightarrow> allocator \<Rightarrow> files \<Rightarrow> dl_db \<Rightarrow> int \<Rightarrow> int \<Rightarrow> (int \<times> dl_db) option" where
  "permindex_build en al fs db rel_id perm_id =
     (case perm_entry db rel_id perm_id of
        None \<Rightarrow> Some (-1, db)
      | Some pe \<Rightarrow>
          (let ar = pe_arity pe; carry = (case pe_pidx_rel pe of None \<Rightarrow> 0 | Some old \<Rightarrow> r_rev old);
               fresh = pidxRevSeed (rel_create en al ar) (carry + 1) in
           case db_rel_at_arity_ro db rel_id ar of
             None \<Rightarrow> Some (if fresh = None then -1 else 0, put_perm perm_id (pe\<lparr>pe_pidx_rel := fresh, pe_dirty := False\<rparr>) db)
           | Some base_rel \<Rightarrow>
               (case ts_init ar of None \<Rightarrow> Some (-1, db) | Some ts \<Rightarrow>
                (case rel_prefix en fs None 0 (ts_sink_cb al) (Some ts) base_rel of None \<Rightarrow> None | Some ((n, user), base') \<Rightarrow>
                 (let db1 = put_rel rel_id ar base' db in
                  if n < 0 then Some (-1, db1)
                  else case user of None \<Rightarrow> None | Some ts1 \<Rightarrow>
                    if ts_count ts1 = 0 then
                      Some (0, put_perm perm_id (pe\<lparr>pe_pidx_rel := fresh, pe_dirty := False\<rparr>) db1)
                    else case permute_rows al (pe_perm pe) (ts_data ts1) ts of None \<Rightarrow> None | Some pts \<Rightarrow>
                    (case ts_sort al pts of None \<Rightarrow> None | Some pts1 \<Rightarrow>
                     (case pidxRevSeed (rel_create en al ar) carry of
                        None \<Rightarrow> Some (-1, put_perm perm_id (pe\<lparr>pe_pidx_rel := None\<rparr>) db1)
                      | Some r \<Rightarrow>
                          (case rel_build_from_tupleset en al fs pts1 r of (rc, r1) \<Rightarrow>
                             if rc \<noteq> 0 then Some (-1, put_perm perm_id (pe\<lparr>pe_pidx_rel := None\<rparr>) db1)
                             else Some (0, put_perm perm_id (pe\<lparr>pe_pidx_rel := Some r1, pe_dirty := False\<rparr>) db1)))))))))"

text \<open>All dirty indices, in order, up to the first failure.\<close>

fun build_dirty :: "engine \<Rightarrow> allocator \<Rightarrow> files \<Rightarrow> nat list \<Rightarrow> dl_db \<Rightarrow> (int \<times> dl_db) option" where
  "build_dirty en al fs [] db = Some (0, db)"
| "build_dirty en al fs (i # is) db =
     (if pe_dirty (db_perms db ! i) then
        (case permindex_build en al fs db (pe_rel_id (db_perms db ! i)) (int i) of
           None \<Rightarrow> None
         | Some (rc, db') \<Rightarrow> if rc \<noteq> 0 then Some (-1, db') else build_dirty en al fs is db')
      else build_dirty en al fs is db)"

definition permindex_build_dirty :: "engine \<Rightarrow> allocator \<Rightarrow> files \<Rightarrow> dl_db \<Rightarrow> (int \<times> dl_db) option" where
  "permindex_build_dirty en al fs db = build_dirty en al fs [0..<length (db_perms db)] db"

subsection \<open>Order statistics in the permuted order\<close>

text \<open>The entry to read, with its index built if it was missing or stale; \<open>None\<close> inside is the null pointer.\<close>

definition permRelRo :: "engine \<Rightarrow> allocator \<Rightarrow> files \<Rightarrow> dl_db \<Rightarrow> string \<Rightarrow> int \<Rightarrow> nat \<Rightarrow> (relation option \<times> dl_db) option" where
  "permRelRo en al fs db rel_name perm_id arity =
     (if perm_id < 0 \<or> nat perm_id \<ge> length (db_perms db) then Some (None, db)
      else let idx = findRel db rel_name in
        case entry_at db idx of
          None \<Rightarrow> Some (None, db)
        | Some e \<Rightarrow>
            if re_kind e = RELK_VARIADIC \<or> re_arity e \<noteq> arity then Some (None, db)
            else let pe = db_perms db ! nat perm_id in
              if pe_rel_id pe \<noteq> idx \<or> pe_arity pe \<noteq> arity then Some (None, db)
              else if pe_pidx_rel pe = None \<or> pe_dirty pe then
                (case permindex_build en al fs db idx perm_id of
                   None \<Rightarrow> None
                 | Some (rc, db') \<Rightarrow> if rc \<noteq> 0 then Some (None, db') else Some (pe_pidx_rel (db_perms db' ! nat perm_id), db'))
              else Some (pe_pidx_rel pe, db))"

definition on_perm ::
  "engine \<Rightarrow> allocator \<Rightarrow> files \<Rightarrow> dl_db \<Rightarrow> string \<Rightarrow> int \<Rightarrow> nat \<Rightarrow> 'a \<Rightarrow> (nat list \<Rightarrow> relation \<Rightarrow> ('a \<times> relation) option) \<Rightarrow> ('a \<times> dl_db) option" where
  "on_perm en al fs db rel_name perm_id arity err f =
     (case permRelRo en al fs db rel_name perm_id arity of
        None \<Rightarrow> None
      | Some (None, db') \<Rightarrow> Some (err, db')
      | Some (Some r, db') \<Rightarrow>
          (let pe = db_perms db' ! nat perm_id in
           map_option (\<lambda>(x, r'). (x, put_perm perm_id (pe\<lparr>pe_pidx_rel := Some r'\<rparr>) db')) (f (pe_perm pe) r)))"

text \<open>The inverse map writes column \<open>perm ! j\<close> for each \<open>j\<close>.\<close>

definition unpermute :: "nat list \<Rightarrow> tuple \<Rightarrow> tuple" where
  "unpermute perm pcols = foldl (\<lambda>out j. out[perm ! j := pcols ! j]) (replicate (length pcols) 0) [0..<length pcols]"

definition dl_rank_perm :: "engine \<Rightarrow> allocator \<Rightarrow> files \<Rightarrow> dl_db \<Rightarrow> string \<Rightarrow> int \<Rightarrow> tuple option \<Rightarrow> nat \<Rightarrow> (nat \<times> dl_db) option" where
  "dl_rank_perm en al fs db rel_name perm_id cols arity =
     (case cols of None \<Rightarrow> Some (UINT64_MAX, db) | Some t \<Rightarrow>
        on_perm en al fs db rel_name perm_id arity UINT64_MAX (\<lambda>perm r. rel_rank en fs (permute perm t) r))"

definition dl_select_perm :: "engine \<Rightarrow> allocator \<Rightarrow> files \<Rightarrow> dl_db \<Rightarrow> string \<Rightarrow> int \<Rightarrow> nat \<Rightarrow> nat \<Rightarrow> (tuple option \<times> dl_db) option" where
  "dl_select_perm en al fs db rel_name perm_id k arity =
     on_perm en al fs db rel_name perm_id arity None
       (\<lambda>perm r. map_option (\<lambda>(t, r'). (map_option (unpermute perm) t, r')) (rel_select en fs k r))"

definition dl_range_count_perm ::
  "engine \<Rightarrow> allocator \<Rightarrow> files \<Rightarrow> dl_db \<Rightarrow> string \<Rightarrow> int \<Rightarrow> tuple option \<Rightarrow> tuple option \<Rightarrow> nat \<Rightarrow> (nat \<times> dl_db) option" where
  "dl_range_count_perm en al fs db rel_name perm_id lo hi arity =
     (case (lo, hi) of
        (Some l, Some h) \<Rightarrow>
          on_perm en al fs db rel_name perm_id arity UINT64_MAX (\<lambda>perm r. rel_range_count en fs (permute perm l) (permute perm h) r)
      | _ \<Rightarrow> Some (UINT64_MAX, db))"

subsection \<open>Permuting and back\<close>

lemma length_permute [simp]: "length (permute p t) = length t"
  by (simp add: permute_def)

lemma permute_nth: "j < length t \<Longrightarrow> permute p t ! j = t ! (p ! j)"
  by (simp add: permute_def)

lemma perm_onto:
  assumes "perm_valid a p" "c < a"
  obtains j where "j < a" "p ! j = c"
proof -
  have len: "length (take a p) = a" and d: "distinct (take a p)" and r: "\<forall>j < a. p ! j < a"
    using assms(1) by (simp_all add: perm_valid_def)
  have "set (take a p) \<subseteq> {..<a}" using r len by (auto simp: in_set_conv_nth)
  moreover have "card (set (take a p)) = a" using distinct_card [OF d] len by simp
  ultimately have "set (take a p) = {..<a}" by (intro card_subset_eq) simp_all
  then have "c \<in> set (take a p)" using assms(2) by simp
  then show thesis using that len by (auto simp: in_set_conv_nth)
qed

lemma permute_eq:
  assumes "perm_valid a p" "length t = a" "length u = a"
  shows "permute p t = permute p u \<longleftrightarrow> t = u"
proof
  assume e: "permute p t = permute p u"
  show "t = u"
  proof (rule nth_equalityI)
    fix c assume "c < length t"
    then obtain j where j: "j < a" "p ! j = c" using perm_onto [OF assms(1)] assms(2) by metis
    then show "t ! c = u ! c" using arg_cong [OF e, of "\<lambda>x. x ! j"] assms(2,3) by (simp add: permute_nth)
  qed (simp add: assms)
qed simp

lemma unpermute_nth:
  assumes "perm_valid a p" "n \<le> a" "length q = a"
  shows "length (foldl (\<lambda>out j. out[p ! j := q ! j]) (replicate a (0 :: u32)) [0..<n]) = a \<and>
    (\<forall>j < n. foldl (\<lambda>out j. out[p ! j := q ! j]) (replicate a 0) [0..<n] ! (p ! j) = q ! j)"
  using assms(2)
proof (induction n)
  case (Suc n)
  have d: "distinct (take a p)" "a \<le> length p" "\<forall>j < a. p ! j < a" using assms(1) by (simp_all add: perm_valid_def)
  have ne: "p ! n \<noteq> p ! j" if "j < n" for j
    using nth_eq_iff_index_eq [OF d(1), of n j] d(2) that Suc.prems by simp
  show ?case using Suc ne d(3) by (auto simp: less_Suc_eq)
qed simp

lemma unpermute_permute:
  assumes "perm_valid a p" "length t = a"
  shows "unpermute p (permute p t) = t"
proof (rule nth_equalityI)
  have len: "length (permute p t) = a" using assms(2) by simp
  note u = unpermute_nth [OF assms(1) order_refl len]
  show "length (unpermute p (permute p t)) = length t" using u assms(2) by (simp add: unpermute_def)
  fix c assume "c < length (unpermute p (permute p t))"
  then have "c < a" using u assms(2) by (simp add: unpermute_def)
  then obtain j where j: "j < a" "p ! j = c" by (rule perm_onto [OF assms(1)])
  then show "unpermute p (permute p t) ! c = t ! c"
    using u assms(2) permute_nth [of j t p] by (auto simp: unpermute_def)
qed

lemma perm_scan_ok: "perm_scan a ps seen \<longleftrightarrow> (\<forall>p \<in> set ps. p < a \<and> p \<notin> seen) \<and> distinct ps"
  by (induction ps arbitrary: seen) auto

lemma perm_scan_valid: "a \<le> length perm \<Longrightarrow> perm_scan a (take a perm) {} \<longleftrightarrow> perm_valid a perm"
  by (simp add: perm_scan_ok perm_valid_def all_set_conv_all_nth min_absorb2 conj_commute)

subsection \<open>The relation behind an index\<close>

definition rel_facts :: "engine \<Rightarrow> files \<Rightarrow> dl_db \<Rightarrow> int \<Rightarrow> tuple set" where
  "rel_facts en fs db i = (case entry_at db i of None \<Rightarrow> {} | Some e \<Rightarrow> entry_set en fs e)"

text \<open>The facts an index is about.\<close>

definition perm_source :: "engine \<Rightarrow> files \<Rightarrow> dl_db \<Rightarrow> perm_index_entry \<Rightarrow> tuple set" where
  "perm_source en fs db pe = {t \<in> rel_facts en fs db (pe_rel_id pe). length t = pe_arity pe}"

text \<open>An index that is not marked dirty holds the permuted facts.\<close>

definition perm_fresh :: "engine \<Rightarrow> files \<Rightarrow> dl_db \<Rightarrow> perm_index_entry \<Rightarrow> bool" where
  "perm_fresh en fs db pe \<longleftrightarrow> (\<forall>p. \<not> pe_dirty pe \<and> pe_pidx_rel pe = Some p \<longrightarrow>
     rel_view en fs p = permute (pe_perm pe) ` perm_source en fs db pe)"

definition perms_fresh :: "engine \<Rightarrow> files \<Rightarrow> dl_db \<Rightarrow> bool" where
  "perms_fresh en fs db \<longleftrightarrow> (\<forall>pe \<in> set (db_perms db). perm_fresh en fs db pe)"

lemma at_arity:
  assumes "db_ok en fs db"
  shows "(db_rel_at_arity_ro db i a = None \<longrightarrow> {t \<in> rel_facts en fs db i. length t = a} = {}) \<and>
    (\<forall>r. db_rel_at_arity_ro db i a = Some r \<longrightarrow> rel_ok en fs r \<and> r_arity r = a \<and> rel_view en fs r = {t \<in> rel_facts en fs db i. length t = a})"
proof (cases "entry_at db i")
  case None
  then show ?thesis by (simp add: db_rel_at_arity_ro_def rel_facts_def)
next
  case (Some e)
  show ?thesis
  proof (cases "re_kind e = RELK_VARIADIC")
    case True
    obtain v where v: "re_vrel e = Some v" "vrel_ok en fs v" "entry_set en fs e = vrel_view en fs v"
      by (rule variadic_entry [OF assms Some True])
    have rows: "{t \<in> rel_facts en fs db i. length t = a} = variant_set (rel_view en fs) v a"
      using variant_rows(1) [OF v(2)] Some v(3) by (simp add: rel_facts_def)
    show ?thesis
    proof (cases "vrel_variant_or_null v a")
      case None
      then show ?thesis unfolding rows using True Some v(1)
        by (simp add: db_rel_at_arity_ro_def db_entry_variant_ro_def variant_set_def)
    next
      case (Some r)
      then show ?thesis unfolding rows using True \<open>entry_at db i = Some e\<close> v(1) vrel_ok_slot [OF v(2) Some]
        by (simp add: db_rel_at_arity_ro_def db_entry_variant_ro_def variant_set_def)
    qed
  next
    case False
    obtain r where r: "re_rel e = Some r" "rel_ok en fs r" "r_arity r = re_arity e" "entry_set en fs e = rel_view en fs r"
      by (rule fixed_entry [OF assms Some False])
    have "length t = re_arity e" if "t \<in> rel_view en fs r" for t using view_lengths [OF r(2) that] r(3) by simp
    then show ?thesis using False Some r by (auto simp: db_rel_at_arity_ro_def db_entry_variant_ro_def rel_facts_def)
  qed
qed

lemma put_rel_same:
  assumes "db_ok en fs db" "db_rel_at_arity_ro db i a = Some r" "rel_ok en fs r'" "r_arity r' = a" "rel_view en fs r' = rel_view en fs r"
  shows "same_db en fs db (put_rel i a r' db)" "rel_facts en fs (put_rel i a r' db) j = rel_facts en fs db j"
    "db_perms (put_rel i a r' db) = db_perms db"
proof -
  obtain e where e: "entry_at db i = Some e" "db_entry_variant_ro e a = Some r"
    using assms(2) by (auto simp: db_rel_at_arity_ro_def split: option.splits)
  let ?e = "put_variant_of a r' e"
  have put: "put_rel i a r' db = put_entry i ?e db" using e(1) by (simp add: put_rel_def)
  have "entry_ok en fs ?e \<and> entry_set en fs ?e = entry_set en fs e"
  proof (cases "re_kind e = RELK_VARIADIC")
    case True
    obtain v where v: "re_vrel e = Some v" "vrel_ok en fs v" "entry_set en fs e = vrel_view en fs v"
      by (rule variadic_entry [OF assms(1) e(1) True])
    have slot: "vrel_variant_or_null v a = Some r" using e(2) True v(1) by (simp add: db_entry_variant_ro_def)
    have "vrel_variant_or_null (put_variant a r' v) b = (if b = a then Some r' else vrel_variant_or_null v b)" for b
      using vrel_ok_slot [OF v(2) slot] vrel_ok_length [OF v(2), of b] by (auto simp: vrel_variant_or_null_def put_variant_def)
    then have "variant_set (rel_view en fs) (put_variant a r' v) b = variant_set (rel_view en fs) v b" for b
      using slot assms(5) by (simp add: variant_set_def)
    then have "vrel_view en fs (put_variant a r' v) = vrel_view en fs v" by (simp add: vrel_view_def)
    then show ?thesis
      using True v put_ok [OF v(2) assms(3,4)] entry_at_ok [OF assms(1) e(1)] by (simp add: put_variant_of_def entry_ok_def entry_set_def)
  next
    case False
    obtain x where "re_rel e = Some x" "r_arity x = re_arity e" "entry_set en fs e = rel_view en fs x" "re_vrel e = None"
      by (rule fixed_entry [OF assms(1) e(1) False])
    then show ?thesis
      using False e(2) assms(3-5) entry_at_ok [OF assms(1) e(1)]
      by (auto simp: put_variant_of_def entry_ok_def entry_set_def db_entry_variant_ro_def split: if_splits)
  qed
  moreover have "re_name ?e = re_name e" "re_kind ?e = re_kind e" by (simp_all add: put_variant_of_def)
  ultimately show "same_db en fs db (put_rel i a r' db)" "rel_facts en fs (put_rel i a r' db) j = rel_facts en fs db j"
    "db_perms (put_rel i a r' db) = db_perms db"
    unfolding put using put_same [OF assms(1) e(1), of ?e] e(1)
    by (simp_all add: rel_facts_def entry_at_put) (simp_all add: put_entry_def)
qed

lemma put_perm_ok:
  assumes "db_ok en fs db" "nat i < length (db_perms db)" "perm_ok en fs pe" "pe_rel_id pe = pe_rel_id (db_perms db ! nat i)"
  shows "same_db en fs db (put_perm i pe db)" "rel_facts en fs (put_perm i pe db) j = rel_facts en fs db j"
    "db_perms (put_perm i pe db) = (db_perms db)[nat i := pe]"
proof -
  have at: "entry_at (put_perm i pe db) j = entry_at db j" "findRel (put_perm i pe db) name = findRel db name" for j name
    by (simp_all add: put_perm_def entry_at_def findRel_def)
  have "perm_ok en fs x \<and> entry_at db (pe_rel_id x) \<noteq> None" if "x \<in> set ((db_perms db)[nat i := pe])" for x
  proof -
    have ok: "\<forall>y \<in> set (db_perms db). perm_ok en fs y \<and> entry_at db (pe_rel_id y) \<noteq> None" using assms(1) by (simp add: db_ok_def)
    have "x = pe \<or> x \<in> set (db_perms db)" using that set_update_subset_insert [of "db_perms db" "nat i" pe] by blast
    then show ?thesis using ok assms(2-4) nth_mem [OF assms(2)] by metis
  qed
  then have "db_ok en fs (put_perm i pe db)" using assms(1) unfolding db_ok_def at by (simp add: put_perm_def)
  then show "same_db en fs db (put_perm i pe db)" "rel_facts en fs (put_perm i pe db) j = rel_facts en fs db j"
    "db_perms (put_perm i pe db) = (db_perms db)[nat i := pe]"
    by (simp_all add: same_db_def db_facts_def rel_facts_def at) (simp_all add: put_perm_def cache_ok_def)
qed

lemma same_db_trans: "same_db en fs a b \<Longrightarrow> same_db en fs b c \<Longrightarrow> same_db en fs a c"
  by (simp add: same_db_def)

subsection \<open>Building is right\<close>

lemma permute_rows_ok:
  assumes "ts_inv pts" "\<forall>row \<in> set rows. length row = ts_arity pts"
  shows "\<exists>pts'. permute_rows al p rows pts = Some pts' \<and> ts_inv pts' \<and> ts_arity pts' = ts_arity pts \<and>
    ts_rows pts \<subseteq> ts_rows pts' \<and> ts_rows pts' \<subseteq> ts_rows pts \<union> permute p ` set rows \<and>
    (generous al \<and> ts_count pts + length rows < 2 ^ 29 \<longrightarrow> ts_rows pts' = ts_rows pts \<union> permute p ` set rows)"
  using assms
proof (induction rows arbitrary: pts)
  case (Cons row rows)
  have len: "length (permute p row) = ts_arity pts" using Cons.prems(2) by simp
  show ?case
  proof (rule ts_add_inv [OF Cons.prems(1) len, of al])
    assume a: "permute p row \<in> ts_rows pts" "ts_add al pts (permute p row) = Some (0, pts)"
    show ?thesis using Cons.IH [OF Cons.prems(1)] Cons.prems(2) a by (auto simp: insert_absorb)
  next
    fix pts1 assume a: "ts_add al pts (permute p row) = Some (1, pts1)" "ts_inv pts1"
      "ts_data pts1 = ts_data pts @ [permute p row]" "ts_arity pts1 = ts_arity pts"
    then show ?thesis using Cons.IH [OF a(2)] Cons.prems(2) by (auto simp: ts_rows_def ts_count_def)
  next
    fix pts1 assume a: "ts_add al pts (permute p row) = Some (-1, pts1)" "ts_inv pts1"
      "ts_data pts1 = ts_data pts" "ts_arity pts1 = ts_arity pts" "\<not> (generous al \<and> ts_count pts < 2 ^ 29)"
    then show ?thesis using Cons.IH [OF a(2)] Cons.prems(2) by (auto simp: ts_rows_def ts_count_def)
  qed
qed simp

text \<open>A fresh relation filled with permuted rows.\<close>

lemma seed_ok:
  assumes "engine_ok en" "rel_create en al a = Some r"
  obtains r' where "pidxRevSeed (rel_create en al a) c = Some r'" "rel_ok en fs r'" "r_arity r' = a" "rel_view en fs r' = {}"
    "\<not> rel_is_idb r'" "r_ov r' = None" "rel_dset en fs r' = {}"
proof -
  note r = rel_create_ok(1,3,9) [OF assms, of fs] rel_create_ok(2,6,8) [OF assms]
  have same: "rel_ok en fs (r\<lparr>r_rev := c\<rparr>) = rel_ok en fs r" "rel_view en fs (r\<lparr>r_rev := c\<rparr>) = rel_view en fs r"
    "rel_dset en fs (r\<lparr>r_rev := c\<rparr>) = rel_dset en fs r" "rel_is_idb (r\<lparr>r_rev := c\<rparr>) = rel_is_idb r"
    using rel_create_ok(5) [OF assms] by (simp_all add: rel_ok_def owned_ok_def rel_view_def rel_dset_def ov_rows_def rel_is_idb_def)
  show thesis
    by (rule that [of "if c > 0 then r\<lparr>r_rev := c\<rparr> else r"])
      (use r assms(2) same in \<open>auto simp: pidxRevSeed_def\<close>)
qed

lemma finite_source:
  assumes "db_ok en fs db"
  shows "finite {t \<in> rel_facts en fs db i. length t = a}"
proof (cases "db_rel_at_arity_ro db i a")
  case None
  then have "{t \<in> rel_facts en fs db i. length t = a} = {}" using at_arity [OF assms] by blast
  then show ?thesis by (simp only: finite.emptyI)
next
  case (Some r)
  then have "rel_ok en fs r" "rel_view en fs r = {t \<in> rel_facts en fs db i. length t = a}" using at_arity [OF assms] by blast+
  then show ?thesis using finite_view [of en fs r] by (simp only:)
qed

text \<open>What a build leaves of its entry.\<close>

definition built :: "engine \<Rightarrow> allocator \<Rightarrow> files \<Rightarrow> tuple set \<Rightarrow> perm_index_entry \<Rightarrow> int \<Rightarrow> perm_index_entry \<Rightarrow> bool" where
  "built en al fs F pe rc pe' \<longleftrightarrow> pe_rel_id pe' = pe_rel_id pe \<and> pe_arity pe' = pe_arity pe \<and> pe_perm pe' = pe_perm pe \<and>
     perm_ok en fs pe' \<and>
     (rc = 0 \<and> \<not> pe_dirty pe' \<and> (\<forall>p. pe_pidx_rel pe' = Some p \<longrightarrow> rel_view en fs p \<subseteq> permute (pe_perm pe) ` F) \<and>
        (rows_fit al F \<longrightarrow> (\<exists>p. pe_pidx_rel pe' = Some p \<and> rel_view en fs p = permute (pe_perm pe) ` F)) \<or>
      rc = -1 \<and> (pe' = pe \<or> pe_pidx_rel pe' = None))"

lemma create_generous: "generous al \<Longrightarrow> dafsa_create en \<noteq> None \<Longrightarrow> 1 \<le> a \<Longrightarrow> a \<le> MAX_ARITY \<Longrightarrow> rel_create en al a \<noteq> None"
  by (auto simp: rel_create_def generous_def split: option.split)

lemma fresh_built:
  assumes "engine_ok en" "dafsa_create en \<noteq> None" "perm_ok en fs pe"
  shows "built en al fs {} pe (if pidxRevSeed (rel_create en al (pe_arity pe)) c = None then -1 else 0)
      (pe\<lparr>pe_pidx_rel := pidxRevSeed (rel_create en al (pe_arity pe)) c, pe_dirty := False\<rparr>)"
    "(if pidxRevSeed (rel_create en al (pe_arity pe)) c = None then -1 else 0) = (0 :: int) \<or> \<not> generous al"
    "built en al fs {} pe 0 (pe\<lparr>pe_pidx_rel := pidxRevSeed (rel_create en al (pe_arity pe)) c, pe_dirty := False\<rparr>)"
proof -
  have a: "1 \<le> pe_arity pe" "pe_arity pe \<le> MAX_ARITY" using assms(3) by (simp_all add: perm_ok_def)
  have cases: "rel_create en al (pe_arity pe) = None \<and> pidxRevSeed (rel_create en al (pe_arity pe)) c = None \<and> \<not> generous al \<or>
      (\<exists>r. pidxRevSeed (rel_create en al (pe_arity pe)) c = Some r \<and> rel_ok en fs r \<and> r_arity r = pe_arity pe \<and> rel_view en fs r = {})"
  proof (cases "rel_create en al (pe_arity pe)")
    case None
    then show ?thesis using create_generous [OF _ assms(2) a, of al] by (auto simp: pidxRevSeed_def)
  next
    case (Some r)
    show ?thesis by (rule seed_ok [OF assms(1) Some, of c fs]) blast
  qed
  show "(if pidxRevSeed (rel_create en al (pe_arity pe)) c = None then -1 else 0) = (0 :: int) \<or> \<not> generous al"
    using cases by auto
  show "built en al fs {} pe 0 (pe\<lparr>pe_pidx_rel := pidxRevSeed (rel_create en al (pe_arity pe)) c, pe_dirty := False\<rparr>)"
    using cases assms(3) by (auto simp: built_def perm_ok_def rows_fit_def)
  then show "built en al fs {} pe (if pidxRevSeed (rel_create en al (pe_arity pe)) c = None then -1 else 0)
      (pe\<lparr>pe_pidx_rel := pidxRevSeed (rel_create en al (pe_arity pe)) c, pe_dirty := False\<rparr>)"
    using cases by (auto simp: built_def)
qed

text \<open>Without leading columns none need be given.\<close>

lemma rel_prefix_none: "rel_prefix en fs None 0 cb s r = rel_prefix en fs (Some []) 0 cb s r"
proof -
  have v: "viewPrefixD en a w None 0 cb u = viewPrefixD en a w (Some []) 0 cb u" for a w u
    by (simp add: viewPrefixD_def)
  have d: "relPrefixD en a w None 0 cb u = relPrefixD en a w (Some []) 0 cb u" for a w u
    by (cases w) (simp_all add: relPrefixD_def)
  show ?thesis unfolding rel_prefix_def v d take_0 ..
qed

text \<open>The rows of a relation, collected, permuted, sorted and built.\<close>

lemma sink_prefix:
  assumes "engine_ok en" "dafsa_create en \<noteq> None" "adds_succeed en" "rel_ok en fs r" "ts_init (r_arity r) = Some ts"
  obtains n ts1 r' where "rel_prefix en fs None 0 (ts_sink_cb al) (Some ts) r = Some ((int n, Some ts1), r')" "ts_inv ts1"
    "ts_arity ts1 = r_arity r" "ts_rows ts1 \<subseteq> rel_view en fs r" "rows_fit al (rel_view en fs r) \<longrightarrow> ts_rows ts1 = rel_view en fs r"
    "rel_ok en fs r'" "rel_view en fs r' = rel_view en fs r" "r_arity r' = r_arity r"
proof -
  note none = rel_prefix_none [of en fs "ts_sink_cb al" "Some ts" r]
  obtain res r' where r': "rel_prefix en fs (Some []) 0 (ts_sink_cb al) (Some ts) r = Some (res, r')" "rel_ok en fs r'"
    "rel_view en fs r' = rel_view en fs r" "prefix_spec (rel_view en fs r) (take 0 []) (ts_sink_cb al) (Some ts) res"
    by (rule prefix_ok [OF assms(1-4), of 0 "[]" "ts_sink_cb al" "Some ts"]) simp_all
  let ?rows = "sorted_list_of_set (rel_view en fs r)"
  have ts: "ts_inv ts" "ts_arity ts = r_arity r" "ts_rows ts = {}" "ts_count ts = 0"
    using ts_init_ok [of "r_arity r"] assms(5) by (auto simp: ts_init_def ts_rows_def ts_count_def split: if_splits)
  have fin: "finite (rel_view en fs r)" by (rule finite_view [OF assms(4)])
  have len: "\<forall>t \<in> set ?rows. length t = ts_arity ts" using view_lengths [OF assms(4)] ts(2) fin by simp
  obtain stop n ts1 where u: "until (hand_out (ts_sink_cb al)) ?rows (0, Some ts) = (stop, n, Some ts1)" "collected ?rows ts ts1"
    "generous al \<and> ts_count ts + length ?rows < 2 ^ 29 \<longrightarrow> sink_spec ?rows ts ts1"
    using sink_until [OF ts(1) len, of al 0] by blast
  have "res = (int n, Some ts1)" using r'(4) u(1) by (simp add: prefix_spec_def unbounded deliver_def)
  then show thesis
    using that [of n ts1 r'] none r'(1-3) u(2,3) ts fin rel_prefix_arity [OF r'(1)]
    by (simp add: collected_def sink_spec_def rows_fit_def)
qed

lemma rows_sorted_total:
  assumes "ts_init a = Some ts" "ts_inv ts1" "ts_arity ts1 = a"
  obtains pts pts1 where "permute_rows al p (ts_data ts1) ts = Some pts" "ts_sort al pts = Some pts1"
proof -
  have ts: "ts_inv ts" "ts_arity ts = a" using ts_init_ok [of a] assms(1) by (auto simp: ts_init_def split: if_splits)
  have len: "\<forall>row \<in> set (ts_data ts1). length row = ts_arity ts" using assms(2,3) ts(2) by (simp add: ts_inv_def)
  obtain pts where "permute_rows al p (ts_data ts1) ts = Some pts" "ts_inv pts"
    using permute_rows_ok [OF ts(1) len, of al p] by blast
  then show thesis using that ts_sort_inv by metis
qed

lemma build_rows:
  assumes "engine_ok en" "dafsa_create en \<noteq> None" "perm_ok en fs pe" "ts_init (pe_arity pe) = Some ts" "ts_inv ts1" "ts_arity ts1 = pe_arity pe"
    "rel_create en al (pe_arity pe) = Some r0"
  obtains pts pts1 r rc r1 where "permute_rows al (pe_perm pe) (ts_data ts1) ts = Some pts" "ts_sort al pts = Some pts1"
    "pidxRevSeed (rel_create en al (pe_arity pe)) c = Some r" "rel_build_from_tupleset en al fs pts1 r = (rc, r1)"
    "rc = 0 \<or> rc = -1" "rc = 0 \<longrightarrow> rel_ok en fs r1 \<and> r_arity r1 = pe_arity pe \<and> rel_view en fs r1 \<subseteq> permute (pe_perm pe) ` ts_rows ts1 \<and>
      (generous al \<and> ts_count ts1 < 2 ^ 29 \<longrightarrow> rel_view en fs r1 = permute (pe_perm pe) ` ts_rows ts1)"
    "generous al \<and> builds_succeed en \<longrightarrow> rc = 0"
proof -
  have ts: "ts_inv ts" "ts_arity ts = pe_arity pe" "ts_rows ts = {}" "ts_count ts = 0"
    using ts_init_ok [of "pe_arity pe"] assms(4) by (auto simp: ts_init_def ts_rows_def ts_count_def split: if_splits)
  have len: "\<forall>row \<in> set (ts_data ts1). length row = ts_arity ts" using assms(5,6) ts(2) by (simp add: ts_inv_def)
  obtain pts where pts: "permute_rows al (pe_perm pe) (ts_data ts1) ts = Some pts" "ts_inv pts" "ts_arity pts = pe_arity pe"
    "ts_rows pts \<subseteq> permute (pe_perm pe) ` ts_rows ts1"
    "generous al \<and> ts_count ts1 < 2 ^ 29 \<longrightarrow> ts_rows pts = permute (pe_perm pe) ` ts_rows ts1"
    using permute_rows_ok [OF ts(1) len, of al "pe_perm pe"] ts by (auto simp: ts_rows_def ts_count_def)
  obtain pts1 where pts1: "ts_sort al pts = Some pts1" "ts_inv pts1" "mset (ts_data pts1) = mset (ts_data pts)"
    "sorted_wrt (<) (ts_data pts1)" "ts_arity pts1 = ts_arity pts"
    by (rule ts_sort_inv [OF pts(2), of al])
  have rows: "ts_rows pts1 = ts_rows pts" using pts1(3) unfolding ts_rows_def by (metis set_mset_mset)
  obtain r where r: "pidxRevSeed (rel_create en al (pe_arity pe)) c = Some r" "rel_ok en fs r" "r_arity r = pe_arity pe" "rel_view en fs r = {}"
    "\<not> rel_is_idb r" "r_ov r = None" "rel_dset en fs r = {}"
    by (rule seed_ok [OF assms(1,7)])
  obtain rc r1 where b: "rel_build_from_tupleset en al fs pts1 r = (rc, r1)" by fastforce
  have spec: "build_spec en fs pts1 r (rc, r1)" "rel_ok en fs r1"
    "ts_arity pts1 = r_arity r \<and> generous al \<and> builds_succeed en \<longrightarrow> rc = 0"
    using build_view_ok [OF assms(1,2) r(2) pts1(2,4), of al] b by simp_all
  have rc: "rc = 0 \<or> rc = -1" using spec(1) by (auto simp: build_spec_def)
  have "rel_view en fs r1 = ts_rows pts \<and> r_arity r1 = pe_arity pe" if "rc = 0"
    using spec(1) that r(3,6) rows by (auto simp: build_spec_def write_frame_def rel_view_def ov_rows_def)
  then show thesis
    by (intro that [OF pts(1) pts1(1) r(1) b rc]) (use spec pts pts1(5) r(3) in auto)
qed

text \<open>A build of one index, whatever the allocator answers.\<close>

lemma perm_entry_ok:
  assumes "db_ok en fs db" "perm_entry db rel_id perm_id = Some pe"
  shows "pe = db_perms db ! nat perm_id" "nat perm_id < length (db_perms db)" "0 \<le> perm_id" "pe_rel_id pe = rel_id" "perm_ok en fs pe"
proof -
  show pe: "pe = db_perms db ! nat perm_id" "nat perm_id < length (db_perms db)" "0 \<le> perm_id" "pe_rel_id pe = rel_id"
    using assms(2) by (auto simp: perm_entry_def split: if_splits)
  show "perm_ok en fs pe" using assms(1) nth_mem [OF pe(2)] pe(1) by (simp add: db_ok_def)
qed

definition build_outcome ::
  "engine \<Rightarrow> allocator \<Rightarrow> files \<Rightarrow> dl_db \<Rightarrow> int \<Rightarrow> perm_index_entry \<Rightarrow> int \<times> dl_db \<Rightarrow> bool" where
  "build_outcome en al fs db perm_id pe res \<longleftrightarrow> (case res of (rc, db') \<Rightarrow>
     same_db en fs db db' \<and> (\<forall>j. rel_facts en fs db' j = rel_facts en fs db j) \<and>
     (\<exists>pe'. db_perms db' = (db_perms db)[nat perm_id := pe'] \<and> built en al fs (perm_source en fs db pe) pe rc pe') \<and>
     (rows_fit al (perm_source en fs db pe) \<and> builds_succeed en \<longrightarrow> rc = 0))"

lemma outcome_put:
  assumes "db_ok en fs db" "perm_entry db rel_id perm_id = Some pe" "same_db en fs db db1" "\<forall>j. rel_facts en fs db1 j = rel_facts en fs db j"
    "db_perms db1 = db_perms db" "built en al fs (perm_source en fs db pe) pe rc pe'"
    "rows_fit al (perm_source en fs db pe) \<and> builds_succeed en \<longrightarrow> rc = 0"
  shows "build_outcome en al fs db perm_id pe (rc, put_perm perm_id pe' db1)"
proof -
  note pe = perm_entry_ok [OF assms(1,2)]
  have ok: "db_ok en fs db1" using assms(3) by (simp add: same_db_def)
  have "perm_ok en fs pe'" "pe_rel_id pe' = pe_rel_id pe" using assms(6) by (simp_all add: built_def)
  then have pe': "perm_ok en fs pe'" "nat perm_id < length (db_perms db1)" "pe_rel_id pe' = pe_rel_id (db_perms db1 ! nat perm_id)"
    using pe assms(5) by simp_all
  note put = put_perm_ok [OF ok pe'(2,1,3)]
  show ?thesis
    using put assms(4-7) same_db_trans [OF assms(3) put(1)] by (auto simp: build_outcome_def)
qed

lemma build_ok:
  assumes "engine_ok en" "dafsa_create en \<noteq> None" "adds_succeed en" "db_ok en fs db" "perm_entry db rel_id perm_id = Some pe"
  shows "\<exists>res. permindex_build en al fs db rel_id perm_id = Some res \<and> build_outcome en al fs db perm_id pe res"
proof -
  note pe = perm_entry_ok [OF assms(4,5)]
  let ?ar = "pe_arity pe" and ?F = "perm_source en fs db pe"
  let ?c = "case pe_pidx_rel pe of None \<Rightarrow> 0 | Some old \<Rightarrow> r_rev old"
  have ar: "1 \<le> ?ar" "?ar \<le> 8" using pe(5) by (simp_all add: perm_ok_def MAX_ARITY_def)
  have F: "?F = {t \<in> rel_facts en fs db rel_id. length t = ?ar}" using pe(4) by (simp add: perm_source_def)
  obtain ts where ts: "ts_init ?ar = Some ts" using ar by (simp add: ts_init_def)
  note fr = fresh_built [OF assms(1,2) pe(5), of al "?c + 1"]
  show ?thesis
  proof (cases "db_rel_at_arity_ro db rel_id ?ar")
    case None
    then have "?F = {}" using at_arity [OF assms(4), of rel_id ?ar] F by blast
    then have "build_outcome en al fs db perm_id pe
        (if pidxRevSeed (rel_create en al ?ar) (?c + 1) = None then -1 else 0,
         put_perm perm_id (pe\<lparr>pe_pidx_rel := pidxRevSeed (rel_create en al ?ar) (?c + 1), pe_dirty := False\<rparr>) db)"
      using fr assms(4) by (intro outcome_put [OF assms(4,5)]) (auto simp: rows_fit_def)
    then show ?thesis using None assms(5) by (simp add: permindex_build_def Let_def)
  next
    case (Some r)
    have r: "rel_ok en fs r" "r_arity r = ?ar" "rel_view en fs r = ?F" using at_arity [OF assms(4), of rel_id ?ar] Some F by auto
    have tsr: "ts_init (r_arity r) = Some ts" using ts r(2) by simp
    obtain n ts1 r' where s: "rel_prefix en fs None 0 (ts_sink_cb al) (Some ts) r = Some ((int n, Some ts1), r')" "ts_inv ts1"
      "ts_arity ts1 = r_arity r" "ts_rows ts1 \<subseteq> rel_view en fs r" "rows_fit al (rel_view en fs r) \<longrightarrow> ts_rows ts1 = rel_view en fs r"
      "rel_ok en fs r'" "rel_view en fs r' = rel_view en fs r" "r_arity r' = r_arity r"
      by (rule sink_prefix [OF assms(1-3) r(1) tsr])
    let ?db1 = "put_rel rel_id ?ar r' db"
    have r': "r_arity r' = ?ar" using s(8) r(2) by simp
    note put = put_rel_same [OF assms(4) Some s(6) r' s(7)]
    have count: "ts_count ts1 < 2 ^ 29" if "rows_fit al ?F"
    proof -
      have "distinct (ts_data ts1)" "set (ts_data ts1) = ?F" using s(2,5) r(3) that by (simp_all add: ts_inv_def ts_rows_def)
      then have "ts_count ts1 = card ?F" using distinct_card [of "ts_data ts1"] by (simp add: ts_count_def)
      then show ?thesis using that by (simp add: rows_fit_def)
    qed
    note outcome = outcome_put [OF assms(4,5) put(1) allI [OF put(2)] put(3)]
    show ?thesis
    proof (cases "ts_count ts1 = 0")
      case True
      then have e: "ts_rows ts1 = {}" by (simp add: ts_count_def ts_rows_def)
      let ?pe = "pe\<lparr>pe_pidx_rel := pidxRevSeed (rel_create en al ?ar) (?c + 1), pe_dirty := False\<rparr>"
      have "built en al fs ?F pe 0 ?pe" using fr(3) e s(5) r(3) by (auto simp: built_def rows_fit_def)
      then have "build_outcome en al fs db perm_id pe (0, put_perm perm_id ?pe ?db1)" by (rule outcome) simp
      then show ?thesis using Some ts s(1) True assms(5) by (simp add: permindex_build_def Let_def)
    next
      case False
      show ?thesis
      proof (cases "rel_create en al ?ar")
        case None
        obtain pts pts1 where "permute_rows al (pe_perm pe) (ts_data ts1) ts = Some pts" "ts_sort al pts = Some pts1"
          by (rule rows_sorted_total [OF ts s(2), of al "pe_perm pe"]) (use s(3) r(2) in simp)
        moreover have "\<not> generous al" using None create_generous [of al en ?ar] assms(2) ar by (auto simp: MAX_ARITY_def)
        then have "build_outcome en al fs db perm_id pe (-1, put_perm perm_id (pe\<lparr>pe_pidx_rel := None\<rparr>) ?db1)"
          using pe(5) by (intro outcome) (auto simp: built_def perm_ok_def rows_fit_def)
        ultimately show ?thesis using Some ts s(1) False assms(5) None
          by (simp add: permindex_build_def Let_def pidxRevSeed_def)
      next
        case c: (Some r0)
        have ta: "ts_arity ts1 = ?ar" using s(3) r(2) by simp
        obtain pts pts1 q rc r1 where b: "permute_rows al (pe_perm pe) (ts_data ts1) ts = Some pts" "ts_sort al pts = Some pts1"
          "pidxRevSeed (rel_create en al ?ar) ?c = Some q" "rel_build_from_tupleset en al fs pts1 q = (rc, r1)"
          "rc = 0 \<or> rc = -1" "rc = 0 \<longrightarrow> rel_ok en fs r1 \<and> r_arity r1 = ?ar \<and> rel_view en fs r1 \<subseteq> permute (pe_perm pe) ` ts_rows ts1 \<and>
            (generous al \<and> ts_count ts1 < 2 ^ 29 \<longrightarrow> rel_view en fs r1 = permute (pe_perm pe) ` ts_rows ts1)"
          "generous al \<and> builds_succeed en \<longrightarrow> rc = 0"
          by (rule build_rows [OF assms(1,2) pe(5) ts s(2) ta c])
        let ?pe = "if rc \<noteq> 0 then pe\<lparr>pe_pidx_rel := None\<rparr> else pe\<lparr>pe_pidx_rel := Some r1, pe_dirty := False\<rparr>"
        have "built en al fs ?F pe rc ?pe"
        proof (cases "rc = 0")
          case True
          have "rel_view en fs r1 \<subseteq> permute (pe_perm pe) ` ?F" using b(6) True s(4) r(3) by blast
          moreover have "rel_view en fs r1 = permute (pe_perm pe) ` ?F" if f: "rows_fit al ?F"
            using b(6) True s(5) r(3) count [OF f] f by (simp add: rows_fit_def)
          ultimately show ?thesis using True b(6) pe(5) by (auto simp: built_def perm_ok_def)
        qed (use b(5) pe(5) in \<open>auto simp: built_def perm_ok_def\<close>)
        then have "build_outcome en al fs db perm_id pe (rc, put_perm perm_id ?pe ?db1)"
          by (rule outcome) (use b(7) in \<open>simp add: rows_fit_def\<close>)
        moreover have "permindex_build en al fs db rel_id perm_id = Some (rc, put_perm perm_id ?pe ?db1)"
          using Some ts s(1) False assms(5) b(1-5) by (auto simp: permindex_build_def Let_def)
        ultimately show ?thesis by blast
      qed
    qed
  qed
qed

subsection \<open>Contracts\<close>

text \<open>The facts the statistics over an index are about, and its permutation; \<open>None\<close> for a bad id, an
  index of another relation or arity, and a name that is unknown or variadic.\<close>

definition perm_stats :: "engine \<Rightarrow> files \<Rightarrow> dl_db \<Rightarrow> string \<Rightarrow> int \<Rightarrow> nat \<Rightarrow> (nat list \<times> tuple set) option" where
  "perm_stats en fs db name perm_id a =
     (case ordstatsRelRo db name a of
        None \<Rightarrow> None
      | Some (i, e) \<Rightarrow>
          (case perm_entry db i perm_id of
             None \<Rightarrow> None
           | Some pe \<Rightarrow> if pe_arity pe = a then Some (pe_perm pe, entry_set en fs e) else None))"

definition rank_perm_spec :: "(nat list \<times> tuple set) option \<Rightarrow> tuple \<Rightarrow> nat \<Rightarrow> bool" where
  "rank_perm_spec S q n \<longleftrightarrow> (case S of None \<Rightarrow> n = UINT64_MAX
     | Some (p, R) \<Rightarrow> n = card {t \<in> R. permute p t < permute p q})"

definition select_perm_spec :: "(nat list \<times> tuple set) option \<Rightarrow> nat \<Rightarrow> tuple option \<Rightarrow> bool" where
  "select_perm_spec S i res \<longleftrightarrow> (case S of None \<Rightarrow> res = None
     | Some (p, R) \<Rightarrow> if i < card R then \<exists>t \<in> R. res = Some t \<and> card {u \<in> R. permute p u < permute p t} = i else res = None)"

definition range_perm_spec :: "(nat list \<times> tuple set) option \<Rightarrow> tuple \<Rightarrow> tuple \<Rightarrow> nat \<Rightarrow> bool" where
  "range_perm_spec S lo hi n \<longleftrightarrow> (case S of None \<Rightarrow> n = UINT64_MAX
     | Some (p, R) \<Rightarrow> n = card {t \<in> R. permute p lo \<le> permute p t \<and> permute p t < permute p hi})"

text \<open>Declaring fails for a bad argument, answers the index of an equal declaration, fails for a new
  one when the table is full and otherwise adds a stale one at the end; finding only looks.  Whether an
  equal declaration is still answered when the table is full is left open.\<close>

definition declare_spec :: "dl_db \<Rightarrow> int \<Rightarrow> nat \<Rightarrow> nat list \<Rightarrow> int \<times> dl_db \<Rightarrow> bool" where
  "declare_spec db rel_id a perm res \<longleftrightarrow> (case res of (i, db') \<Rightarrow>
     if rel_id < 0 \<or> a = 0 \<or> a > 8 \<or> \<not> perm_valid a perm then i = -1 \<and> db' = db
     else if \<exists>pe \<in> set (db_perms db). perm_same rel_id a perm pe then db' = db \<and>
       (i = -1 \<and> length (db_perms db) = MAX_PERMS \<or>
        0 \<le> i \<and> nat i < length (db_perms db) \<and> perm_same rel_id a perm (db_perms db ! nat i))
     else if length (db_perms db) = MAX_PERMS then i = -1 \<and> db' = db
     else i = int (length (db_perms db)) \<and>
       (\<exists>pe. db' = db\<lparr>db_perms := db_perms db @ [pe]\<rparr> \<and> perm_same rel_id a perm pe \<and> pe_pidx_rel pe = None \<and> pe_dirty pe))"

definition find_spec :: "dl_db \<Rightarrow> int \<Rightarrow> nat \<Rightarrow> nat list \<Rightarrow> int \<Rightarrow> bool" where
  "find_spec db rel_id a perm i \<longleftrightarrow>
     (if 0 \<le> rel_id \<and> 1 \<le> a \<and> a \<le> 8 \<and> (\<exists>pe \<in> set (db_perms db). perm_same rel_id a perm pe)
      then 0 \<le> i \<and> nat i < length (db_perms db) \<and> perm_same rel_id a perm (db_perms db ! nat i) else i = -1)"

subsection \<open>Freshness\<close>

lemma built_fresh:
  assumes "built en al fs (perm_source en fs db pe) pe 0 pe'" "rows_fit al (perm_source en fs db pe)"
  obtains p where "pe_pidx_rel pe' = Some p" "rel_view en fs p = permute (pe_perm pe) ` perm_source en fs db pe" "perm_fresh en fs db pe'"
    "rel_ok en fs p" "r_arity p = pe_arity pe" "pe_perm pe' = pe_perm pe" "\<not> pe_dirty pe'"
proof -
  have b: "perm_ok en fs pe'" "pe_rel_id pe' = pe_rel_id pe" "pe_arity pe' = pe_arity pe" "pe_perm pe' = pe_perm pe" "\<not> pe_dirty pe'"
    "\<exists>p. pe_pidx_rel pe' = Some p \<and> rel_view en fs p = permute (pe_perm pe) ` perm_source en fs db pe"
    using assms by (simp_all add: built_def)
  obtain p where p: "pe_pidx_rel pe' = Some p" "rel_view en fs p = permute (pe_perm pe) ` perm_source en fs db pe"
    using b(6) by (elim exE conjE)
  have src: "perm_source en fs db pe' = perm_source en fs db pe" by (simp only: perm_source_def b(2,3))
  have ok: "rel_ok en fs p" "r_arity p = pe_arity pe" using b(1,3) p(1) by (simp_all add: perm_ok_def)
  have "perm_fresh en fs db pe'" by (simp add: perm_fresh_def p src b(4))
  then show thesis by (rule that [OF p _ ok b(4,5)])
qed

lemma perm_fresh_cong: "\<forall>j. rel_facts en fs db' j = rel_facts en fs db j \<Longrightarrow> perm_fresh en fs db' pe = perm_fresh en fs db pe"
  by (simp add: perm_fresh_def perm_source_def)

lemma perms_fresh_put:
  assumes "perms_fresh en fs db" "\<forall>j. rel_facts en fs db' j = rel_facts en fs db j" "db_perms db' = (db_perms db)[i := pe']" "perm_fresh en fs db pe'"
  shows "perms_fresh en fs db'"
proof -
  have "perm_fresh en fs db x" if "x \<in> set (db_perms db')" for x
    using that set_update_subset_insert [of "db_perms db" i pe'] assms(1,3,4) by (auto simp: perms_fresh_def)
  then show ?thesis using perm_fresh_cong [OF assms(2)] by (simp add: perms_fresh_def)
qed

lemma perm_rel_ok:
  assumes "engine_ok en" "dafsa_create en \<noteq> None" "adds_succeed en" "builds_succeed en" "generous al" "db_ok en fs db" "perms_fresh en fs db"
    "perm_stats en fs db name perm_id a = Some (p, R)" "card R < 2 ^ 29"
  obtains r db' where "permRelRo en al fs db name perm_id a = Some (Some r, db')" "same_db en fs db db'" "perms_fresh en fs db'"
    "rel_ok en fs r" "r_arity r = a" "rel_view en fs r = permute p ` R" "perm_valid a p" "\<forall>t \<in> R. length t = a" "finite R"
    "nat perm_id < length (db_perms db')" "pe_pidx_rel (db_perms db' ! nat perm_id) = Some r" "pe_perm (db_perms db' ! nat perm_id) = p"
proof -
  obtain e pe where e: "ordstatsRelRo db name a = Some (findRel db name, e)" "perm_entry db (findRel db name) perm_id = Some pe"
    "pe_arity pe = a" "pe_perm pe = p" "entry_set en fs e = R" "entry_at db (findRel db name) = Some e" "re_kind e \<noteq> RELK_VARIADIC" "re_arity e = a"
    using assms(8) by (auto simp: perm_stats_def ordstatsRelRo_def Let_def split: option.splits if_splits)
  note pe = perm_entry_ok [OF assms(6) e(2)]
  have len: "\<forall>t \<in> R. length t = a" using fact_arity [OF assms(6) e(6)] e(5,7,8) by auto
  have src: "perm_source en fs db pe = R" using len e(3,5,6) pe(4) by (auto simp: perm_source_def rel_facts_def)
  have fin: "finite R" using finite_source [OF assms(6), of "pe_rel_id pe" "pe_arity pe"] src by (simp add: perm_source_def)
  have valid: "perm_valid a p" using pe(5) e(3,4) by (simp add: perm_ok_def)
  have look: "permRelRo en al fs db name perm_id a = (if pe_pidx_rel pe = None \<or> pe_dirty pe then
      (case permindex_build en al fs db (findRel db name) perm_id of
         None \<Rightarrow> None
       | Some (rc, db') \<Rightarrow> if rc \<noteq> 0 then Some (None, db') else Some (pe_pidx_rel (db_perms db' ! nat perm_id), db'))
      else Some (pe_pidx_rel pe, db))"
    using e pe by (simp add: permRelRo_def Let_def)
  show thesis
  proof (cases "pe_pidx_rel pe = None \<or> pe_dirty pe")
    case True
    obtain res where res: "permindex_build en al fs db (findRel db name) perm_id = Some res" "build_outcome en al fs db perm_id pe res"
      using build_ok [OF assms(1-3,6) e(2), of al] by blast
    obtain rc db' where r: "res = (rc, db')" by fastforce
    have fit: "rows_fit al (perm_source en fs db pe)" using assms(5,9) src by (simp add: rows_fit_def)
    obtain pe' where o: "same_db en fs db db'" "\<forall>j. rel_facts en fs db' j = rel_facts en fs db j" "db_perms db' = (db_perms db)[nat perm_id := pe']"
      "built en al fs (perm_source en fs db pe) pe rc pe'" "rc = 0"
      using res(2) fit assms(4) r by (auto simp: build_outcome_def)
    obtain q where q: "pe_pidx_rel pe' = Some q" "rel_view en fs q = permute (pe_perm pe) ` perm_source en fs db pe" "perm_fresh en fs db pe'"
      "rel_ok en fs q" "r_arity q = pe_arity pe" "pe_perm pe' = pe_perm pe"
      by (rule built_fresh [OF o(4) [unfolded o(5)] fit])
    have at: "db_perms db' ! nat perm_id = pe'" "nat perm_id < length (db_perms db')" using o(3) pe(2) by simp_all
    have got: "permRelRo en al fs db name perm_id a = Some (Some q, db')"
      using True look res(1) r o(5) at(1) q(1) by simp
    have fresh': "perms_fresh en fs db'" by (rule perms_fresh_put [OF assms(7) o(2,3) q(3)])
    have view: "rel_view en fs q = permute p ` R" "r_arity q = a" "pe_perm (db_perms db' ! nat perm_id) = p"
      "pe_pidx_rel (db_perms db' ! nat perm_id) = Some q"
      using q(1,2,5,6) e(3,4) src at(1) by simp_all
    show thesis by (rule that [OF got o(1) fresh' q(4) view(2,1) valid len fin at(2) view(4,3)])
  next
    case False
    then obtain q where q: "pe_pidx_rel pe = Some q" "\<not> pe_dirty pe" by auto
    have "perm_fresh en fs db pe" using assms(7) pe(1,2) by (simp add: perms_fresh_def)
    then have "rel_view en fs q = permute p ` R" using q e(4) src by (simp add: perm_fresh_def)
    then have view: "rel_view en fs q = permute p ` R" .
    have got: "permRelRo en al fs db name perm_id a = Some (Some q, db)" using look q by simp
    have q': "rel_ok en fs q" "r_arity q = a" using pe(5) q(1) e(3) by (simp_all add: perm_ok_def)
    have at: "pe_pidx_rel (db_perms db ! nat perm_id) = Some q" "pe_perm (db_perms db ! nat perm_id) = p"
      using pe(1) q(1) e(4) by simp_all
    have same: "same_db en fs db db" using assms(6) by (simp add: same_db_def)
    show thesis by (rule that [OF got same assms(7) q' view valid len fin pe(2) at])
  qed
qed

lemma perm_rel_none:
  assumes "perm_stats en fs db name perm_id a = None"
  shows "permRelRo en al fs db name perm_id a = Some (None, db)"
  using assms by (auto simp: permRelRo_def perm_stats_def ordstatsRelRo_def perm_entry_def Let_def split: option.splits if_splits)

text \<open>A read of the index answers its question about the permuted facts and leaves the database as it was.\<close>

lemma on_perm_ok:
  assumes "engine_ok en" "dafsa_create en \<noteq> None" "adds_succeed en" "builds_succeed en" "generous al" "db_ok en fs db" "perms_fresh en fs db"
    "perm_stats en fs db name perm_id a = Some (p, R)" "card R < 2 ^ 29"
    "\<And>r. rel_ok en fs r \<Longrightarrow> r_arity r = a \<Longrightarrow> rel_view en fs r = permute p ` R \<Longrightarrow>
      \<exists>r'. f p r = Some (x, r') \<and> rel_ok en fs r' \<and> r_arity r' = r_arity r \<and> rel_view en fs r' = rel_view en fs r"
  shows "\<exists>db'. on_perm en al fs db name perm_id a err f = Some (x, db') \<and> same_db en fs db db' \<and> perms_fresh en fs db'"
proof -
  obtain r db1 where r: "permRelRo en al fs db name perm_id a = Some (Some r, db1)" "same_db en fs db db1" "perms_fresh en fs db1"
    "rel_ok en fs r" "r_arity r = a" "rel_view en fs r = permute p ` R" "perm_valid a p" "\<forall>t \<in> R. length t = a" "finite R"
    "nat perm_id < length (db_perms db1)" "pe_pidx_rel (db_perms db1 ! nat perm_id) = Some r" "pe_perm (db_perms db1 ! nat perm_id) = p"
    by (rule perm_rel_ok [OF assms(1-9)])
  obtain r' where r': "f p r = Some (x, r')" "rel_ok en fs r'" "r_arity r' = r_arity r" "rel_view en fs r' = rel_view en fs r"
    using assms(10) [OF r(4-6)] by (elim exE conjE)
  let ?pe = "db_perms db1 ! nat perm_id" and ?pe' = "(db_perms db1 ! nat perm_id)\<lparr>pe_pidx_rel := Some r'\<rparr>"
  have ok: "db_ok en fs db1" using r(2) by (simp add: same_db_def)
  have m: "?pe \<in> set (db_perms db1)" using r(10) by simp
  have pe: "perm_ok en fs ?pe" "perm_fresh en fs db1 ?pe" using ok m r(3) by (simp_all add: db_ok_def perms_fresh_def)
  have pe': "perm_ok en fs ?pe'" using pe(1) r'(2,3) r(11) by (simp add: perm_ok_def)
  have fresh': "perm_fresh en fs db1 ?pe'" using pe(2) r'(4) r(11) by (simp add: perm_fresh_def perm_source_def)
  have same_id: "pe_rel_id ?pe' = pe_rel_id ?pe" by simp
  note put = put_perm_ok [OF ok r(10) pe' same_id]
  have "perms_fresh en fs (put_perm perm_id ?pe' db1)"
    by (rule perms_fresh_put [OF r(3) allI [OF put(2)] put(3) fresh'])
  moreover have "on_perm en al fs db name perm_id a err f = Some (x, put_perm perm_id ?pe' db1)"
    using r(1,12) r'(1) by (simp add: on_perm_def Let_def)
  ultimately show ?thesis using same_db_trans [OF r(2) put(1)] by blast
qed

lemma card_permuted:
  assumes "perm_valid a p" "\<forall>t \<in> R. length t = a"
  shows "card {s \<in> permute p ` R. Q s} = card {t \<in> R. Q (permute p t)}"
proof -
  have "inj_on (permute p) {t \<in> R. Q (permute p t)}" using permute_eq [OF assms(1)] assms(2) by (auto simp: inj_on_def)
  moreover have "{s \<in> permute p ` R. Q s} = permute p ` {t \<in> R. Q (permute p t)}" by auto
  ultimately show ?thesis by (simp add: card_image)
qed

text \<open>All dirty indices: the build succeeds, and afterwards every index it looked at is clean.\<close>

lemma build_dirty_ok:
  assumes "engine_ok en" "dafsa_create en \<noteq> None" "adds_succeed en" "builds_succeed en"
    "db_ok en fs db" "perms_fresh en fs db" "\<forall>pe \<in> set (db_perms db). rows_fit al (perm_source en fs db pe)"
    "\<forall>i \<in> set is. i < length (db_perms db)"
  shows "\<exists>db'. build_dirty en al fs is db = Some (0, db') \<and> same_db en fs db db' \<and> perms_fresh en fs db' \<and>
    length (db_perms db') = length (db_perms db) \<and> (\<forall>i \<in> set is. \<not> pe_dirty (db_perms db' ! i)) \<and>
    (\<forall>i < length (db_perms db). \<not> pe_dirty (db_perms db ! i) \<longrightarrow> \<not> pe_dirty (db_perms db' ! i))"
  using assms(5-8)
proof (induction "is" arbitrary: db)
  case Nil
  then show ?case by (simp add: same_db_def)
next
  case (Cons i "is")
  have i: "i < length (db_perms db)" and rest: "\<forall>j \<in> set is. j < length (db_perms db)" using Cons.prems(4) by simp_all
  let ?pe = "db_perms db ! i"
  show ?case
  proof (cases "pe_dirty ?pe")
    case False
    obtain db' where "build_dirty en al fs is db = Some (0, db')" "same_db en fs db db'" "perms_fresh en fs db'"
      "length (db_perms db') = length (db_perms db)" "\<forall>j \<in> set is. \<not> pe_dirty (db_perms db' ! j)"
      "\<forall>j < length (db_perms db). \<not> pe_dirty (db_perms db ! j) \<longrightarrow> \<not> pe_dirty (db_perms db' ! j)"
      using Cons.IH [OF Cons.prems(1-3) rest] by (elim exE conjE)
    then show ?thesis using False i by simp
  next
    case True
    have entry: "perm_entry db (pe_rel_id ?pe) (int i) = Some ?pe" using i by (simp add: perm_entry_def)
    obtain rc db1 where b: "permindex_build en al fs db (pe_rel_id ?pe) (int i) = Some (rc, db1)"
      "build_outcome en al fs db (int i) ?pe (rc, db1)"
      using build_ok [OF assms(1-3) Cons.prems(1) entry, of al] by auto
    have fit: "rows_fit al (perm_source en fs db ?pe)" using Cons.prems(3) i by simp
    then have rc: "rc = 0" using b(2) assms(4) by (simp add: build_outcome_def)
    obtain pe' where o: "same_db en fs db db1" "\<forall>j. rel_facts en fs db1 j = rel_facts en fs db j" "db_perms db1 = (db_perms db)[i := pe']"
      "built en al fs (perm_source en fs db ?pe) ?pe 0 pe'"
      using b(2) unfolding build_outcome_def rc prod.case nat_int by (elim exE conjE)
    obtain p where p: "perm_fresh en fs db pe'" "\<not> pe_dirty pe'" by (rule built_fresh [OF o(4) fit])
    have ok1: "db_ok en fs db1" "perms_fresh en fs db1"
      using o(1) perms_fresh_put [OF Cons.prems(2) o(2,3) p(1)] by (simp_all add: same_db_def)
    have id: "pe_rel_id pe' = pe_rel_id ?pe" "pe_arity pe' = pe_arity ?pe" using o(4) by (simp_all add: built_def)
    have src: "perm_source en fs db1 pe = perm_source en fs db pe" for pe using o(2) by (simp add: perm_source_def)
    have "perm_source en fs db pe' = perm_source en fs db ?pe" by (simp only: perm_source_def id)
    then have fit1: "\<forall>pe \<in> set (db_perms db1). rows_fit al (perm_source en fs db1 pe)"
      using Cons.prems(3) fit set_update_subset_insert [of "db_perms db" i pe'] unfolding src o(3) by auto
    have rest1: "\<forall>j \<in> set is. j < length (db_perms db1)" using rest o(3) by simp
    obtain db' where d: "build_dirty en al fs is db1 = Some (0, db')" "same_db en fs db1 db'" "perms_fresh en fs db'"
      "length (db_perms db') = length (db_perms db1)" "\<forall>j \<in> set is. \<not> pe_dirty (db_perms db' ! j)"
      "\<forall>j < length (db_perms db1). \<not> pe_dirty (db_perms db1 ! j) \<longrightarrow> \<not> pe_dirty (db_perms db' ! j)"
      using Cons.IH [OF ok1 fit1 rest1] by (elim exE conjE)
    have clean: "\<not> pe_dirty (db_perms db' ! j)" if "j < length (db_perms db)" "j = i \<or> \<not> pe_dirty (db_perms db ! j)" for j
      using d(6) that o(3) p(2) by (cases "j = i") simp_all
    show ?thesis
      using True b(1) rc d(1,3-5) same_db_trans [OF o(1) d(2)] o(3) clean i by simp
  qed
qed

text \<open>Looking for a declaration.\<close>

lemma find_perm_ok:
  "((\<forall>pe \<in> set pes. \<not> perm_same rel_id a perm pe) \<longrightarrow> find_perm rel_id a perm i pes = -1) \<and>
   ((\<exists>pe \<in> set pes. perm_same rel_id a perm pe) \<longrightarrow> (\<exists>j < length pes. find_perm rel_id a perm i pes = int (i + j) \<and> perm_same rel_id a perm (pes ! j)))"
proof (induction pes arbitrary: i)
  case (Cons pe pes)
  show ?case
  proof (cases "perm_same rel_id a perm pe")
    case True
    then show ?thesis by (intro conjI impI exI [of _ 0]) simp_all
  next
    case False
    have "\<exists>j < length (pe # pes). find_perm rel_id a perm i (pe # pes) = int (i + j) \<and> perm_same rel_id a perm ((pe # pes) ! j)"
      if "\<exists>x \<in> set pes. perm_same rel_id a perm x"
    proof -
      obtain j where "j < length pes" "find_perm rel_id a perm (i + 1) pes = int (i + 1 + j)" "perm_same rel_id a perm (pes ! j)"
        using Cons.IH [of "i + 1"] \<open>\<exists>x \<in> set pes. perm_same rel_id a perm x\<close> by blast
      then show ?thesis using False by (intro exI [of _ "Suc j"]) simp
    qed
    then show ?thesis using Cons.IH [of "i + 1"] False by simp
  qed
qed simp

lemma find_ok: "find_spec db rel_id a perm (dl_db_find_perm db rel_id a perm)"
proof (cases "\<exists>pe \<in> set (db_perms db). perm_same rel_id a perm pe")
  case True
  then obtain j where "j < length (db_perms db)" "find_perm rel_id a perm 0 (db_perms db) = int (0 + j)" "perm_same rel_id a perm (db_perms db ! j)"
    using find_perm_ok [where i = 0 and pes = "db_perms db"] by blast
  then show ?thesis using True by (auto simp: find_spec_def dl_db_find_perm_def)
next
  case False
  then have "find_perm rel_id a perm 0 (db_perms db) = -1" using find_perm_ok [where i = 0 and pes = "db_perms db"] by simp
  then show ?thesis using False by (auto simp: find_spec_def dl_db_find_perm_def)
qed

lemma entry_at_perms: "entry_at (db\<lparr>db_perms := ps\<rparr>) j = entry_at db j" "findRel (db\<lparr>db_perms := ps\<rparr>) name = findRel db name"
  by (simp_all add: entry_at_def findRel_def)

lemma declare_ok:
  assumes "db_ok en fs db" "perms_fresh en fs db" "length perm = 8" "entry_at db rel_id \<noteq> None"
  shows "declare_spec db rel_id a perm (dl_db_declare_perm db rel_id a perm)" "db_ok en fs (snd (dl_db_declare_perm db rel_id a perm))"
    "perms_fresh en fs (snd (dl_db_declare_perm db rel_id a perm))"
proof -
  let ?new = "\<lparr>pe_rel_id = rel_id, pe_arity = a, pe_perm = perm, pe_pidx_rel = None, pe_dirty = True\<rparr>"
  let ?db = "db\<lparr>db_perms := db_perms db @ [?new]\<rparr>"
  have facts: "rel_facts en fs ?db j = rel_facts en fs db j" for j by (simp add: rel_facts_def entry_at_perms)
  have len: "length (db_perms db) \<le> MAX_PERMS" using assms(1) by (simp add: db_ok_def)
  have scan: "perm_scan a (take a perm) {} = perm_valid a perm" if "a \<le> 8" using perm_scan_valid [of a perm] that assms(3) by simp
  let ?bad = "rel_id < 0 \<or> a = 0 \<or> a > 8 \<or> \<not> perm_valid a perm \<or> length (db_perms db) = MAX_PERMS"
  consider (bad) "?bad" "dl_db_declare_perm db rel_id a perm = (-1, db)"
    | (old) "\<not> ?bad" "dl_db_declare_perm db rel_id a perm = (dl_db_find_perm db rel_id a perm, db)" "0 \<le> dl_db_find_perm db rel_id a perm"
    | (new) "\<not> ?bad" "dl_db_declare_perm db rel_id a perm = (int (length (db_perms db)), ?db)" "\<not> 0 \<le> dl_db_find_perm db rel_id a perm"
  proof (cases "?bad")
    case True
    moreover from this have "dl_db_declare_perm db rel_id a perm = (-1, db)" using scan by (auto simp: dl_db_declare_perm_def)
    ultimately show ?thesis by (rule bad)
  next
    case False
    then have d: "dl_db_declare_perm db rel_id a perm =
        (if dl_db_find_perm db rel_id a perm \<ge> 0 then (dl_db_find_perm db rel_id a perm, db) else (int (length (db_perms db)), ?db))"
      using scan len by (simp add: dl_db_declare_perm_def Let_def)
    show ?thesis
    proof (cases "0 \<le> dl_db_find_perm db rel_id a perm")
      case True
      show ?thesis by (rule old [OF False _ True]) (simp only: d True if_True)
    next
      case n: False
      show ?thesis by (rule new [OF False _ n]) (simp only: d n if_False)
    qed
  qed
  then have "declare_spec db rel_id a perm (dl_db_declare_perm db rel_id a perm) \<and> db_ok en fs (snd (dl_db_declare_perm db rel_id a perm)) \<and>
    perms_fresh en fs (snd (dl_db_declare_perm db rel_id a perm))"
  proof cases
    case bad
    then have "declare_spec db rel_id a perm (-1, db)" by (auto simp: declare_spec_def)
    then show ?thesis using bad(2) assms(1,2) by simp
  next
    case old
    have "declare_spec db rel_id a perm (dl_db_find_perm db rel_id a perm, db)"
      using find_ok [of db rel_id a perm] old(1,3) by (simp add: declare_spec_def find_spec_def split: if_splits)
    then show ?thesis using old(2) assms(1,2) by simp
  next
    case new
    then have absent: "\<not> (\<exists>pe \<in> set (db_perms db). perm_same rel_id a perm pe)"
      using find_ok [of db rel_id a perm] by (auto simp: find_spec_def split: if_splits)
    have ok: "perm_ok en fs ?new" using new(1) assms(3) by (simp add: perm_ok_def MAX_ARITY_def)
    have "db_ok en fs ?db" using assms(1,4) ok new(1) len unfolding db_ok_def entry_at_perms by simp
    moreover have "perms_fresh en fs ?db"
      using assms(2) facts by (auto simp: perms_fresh_def perm_fresh_def perm_source_def)
    moreover have "perm_same rel_id a perm ?new \<and> pe_pidx_rel ?new = None \<and> pe_dirty ?new" by (simp add: perm_same_def)
    then have "declare_spec db rel_id a perm (int (length (db_perms db)), ?db)"
      using new(1) absent unfolding declare_spec_def prod.case by (metis (no_types))
    ultimately show ?thesis using new(2) by simp
  qed
  then show "declare_spec db rel_id a perm (dl_db_declare_perm db rel_id a perm)" "db_ok en fs (snd (dl_db_declare_perm db rel_id a perm))"
    "perms_fresh en fs (snd (dl_db_declare_perm db rel_id a perm))" by simp_all
qed

text \<open>Marking the indices of a relation stale covers any change of that relation.\<close>

lemma mark_ok:
  assumes "perms_fresh en fs db" "db_perms db' = db_perms db" "\<forall>j. j \<noteq> i \<longrightarrow> rel_facts en fs db' j = rel_facts en fs db j"
  shows "perms_fresh en fs (permindex_mark_dirty db' i)"
proof -
  have facts: "rel_facts en fs (permindex_mark_dirty db' i) j = rel_facts en fs db' j" for j
    by (simp add: rel_facts_def permindex_mark_dirty_def entry_at_perms)
  have "perm_fresh en fs (permindex_mark_dirty db' i) (if pe_rel_id pe = i then pe\<lparr>pe_dirty := True\<rparr> else pe)" if "pe \<in> set (db_perms db)" for pe
    using assms(1,3) that facts by (auto simp: perms_fresh_def perm_fresh_def perm_source_def)
  then have "\<forall>pe \<in> set (db_perms db). perm_fresh en fs (permindex_mark_dirty db' i) (if pe_rel_id pe = i then pe\<lparr>pe_dirty := True\<rparr> else pe)"
    by blast
  moreover have "db_perms (permindex_mark_dirty db' i) = map (\<lambda>pe. if pe_rel_id pe = i then pe\<lparr>pe_dirty := True\<rparr> else pe) (db_perms db)"
    using assms(2) by (simp add: permindex_mark_dirty_def)
  ultimately show ?thesis by (simp only: perms_fresh_def set_map ball_simps)
qed

lemma select_permuted:
  assumes "perm_valid a p" "\<forall>t \<in> R. length t = a" "finite R"
  shows "k < card R \<Longrightarrow> \<exists>t \<in> R. unpermute p (sorted_list_of_set (permute p ` R) ! k) = t \<and> card {u \<in> R. permute p u < permute p t} = k"
proof -
  assume k: "k < card R"
  let ?xs = "sorted_list_of_set (permute p ` R)"
  have "card (permute p ` R) = card R" using card_permuted [OF assms(1,2), of "\<lambda>_. True"] by simp
  then have len: "k < length ?xs" using k by simp
  then have "?xs ! k \<in> permute p ` R" using assms(3) nth_mem [of k ?xs] by simp
  then obtain t where t: "t \<in> R" "?xs ! k = permute p t" by blast
  have "card {s \<in> permute p ` R. s < permute p t} = card (set (take k ?xs))"
    using below_nth [of "permute p ` R" k "permute p t"] assms(3) len t(2) by simp
  also have "\<dots> = k" using len by (simp add: distinct_card)
  finally have "card {u \<in> R. permute p u < permute p t} = k" using card_permuted [OF assms(1,2), of "\<lambda>s. s < permute p t"] by simp
  then show ?thesis using t unpermute_permute [OF assms(1), of t] assms(2) by auto
qed

subsection \<open>Properties\<close>

text \<open>C25: with memory enough, rank, select and range count over a declared permutation index answer
  for the facts of its relation in the permuted order (the columns of the original order go in and
  come out): a stale or missing index is rebuilt before it is read, the statistics leave the facts
  and every other index alone, and a bad index answers the error value.\<close>

theorem perm_statistics_correct:
  assumes "engine_ok en" "dafsa_create en \<noteq> None" "adds_succeed en" "builds_succeed en" "generous al" "db_ok en fs db" "perms_fresh en fs db"
    "length q = a" "length lo = a" "length hi = a" "\<And>p R. perm_stats en fs db name i a = Some (p, R) \<Longrightarrow> card R < 2 ^ 29"
  shows "(\<exists>n db'. dl_rank_perm en al fs db name i (Some q) a = Some (n, db') \<and>
      rank_perm_spec (perm_stats en fs db name i a) q n \<and> same_db en fs db db' \<and> perms_fresh en fs db') \<and>
    (\<exists>t db'. dl_select_perm en al fs db name i k a = Some (t, db') \<and>
      select_perm_spec (perm_stats en fs db name i a) k t \<and> same_db en fs db db' \<and> perms_fresh en fs db') \<and>
    (\<exists>n db'. dl_range_count_perm en al fs db name i (Some lo) (Some hi) a = Some (n, db') \<and>
      range_perm_spec (perm_stats en fs db name i a) lo hi n \<and> same_db en fs db db' \<and> perms_fresh en fs db')"
proof (cases "perm_stats en fs db name i a")
  case None
  have "same_db en fs db db" using assms(6) by (simp add: same_db_def)
  then show ?thesis using None perm_rel_none [OF None] assms(7)
    by (simp add: dl_rank_perm_def dl_select_perm_def dl_range_count_perm_def on_perm_def rank_perm_spec_def select_perm_spec_def range_perm_spec_def)
next
  case (Some pR)
  then obtain p R where S: "perm_stats en fs db name i a = Some (p, R)" by (cases pR) simp
  note on = on_perm_ok [OF assms(1-7) S assms(11) [OF S]]
  have v: "perm_valid a p" and len: "\<forall>t \<in> R. length t = a" and fin: "finite R"
    by (rule perm_rel_ok [OF assms(1-7) S assms(11) [OF S]], assumption)+
  note card_of = card_permuted [OF v len]
  show ?thesis
  proof (intro conjI)
    let ?f = "\<lambda>p r. rel_rank en fs (permute p q) r"
    have "\<exists>r'. ?f p r = Some (card {t \<in> R. permute p t < permute p q}, r') \<and> rel_ok en fs r' \<and> r_arity r' = r_arity r \<and>
        rel_view en fs r' = rel_view en fs r" if "rel_ok en fs r" "r_arity r = a" "rel_view en fs r = permute p ` R" for r
      by (rule rank_ok [OF assms(1-3) that(1), of "permute p q"]) (use that(2,3) assms(8) card_of in simp_all)
    then show "\<exists>n db'. dl_rank_perm en al fs db name i (Some q) a = Some (n, db') \<and>
        rank_perm_spec (perm_stats en fs db name i a) q n \<and> same_db en fs db db' \<and> perms_fresh en fs db'"
      using on [of ?f "card {t \<in> R. permute p t < permute p q}" UINT64_MAX] by (simp add: dl_rank_perm_def S rank_perm_spec_def)
  next
    let ?f = "\<lambda>p r. map_option (\<lambda>(t, r'). (map_option (unpermute p) t, r')) (rel_select en fs k r)"
    let ?t = "map_option (unpermute p) (if k < card R then Some (sorted_list_of_set (permute p ` R) ! k) else None)"
    have cR: "card (permute p ` R) = card R" using card_of [of "\<lambda>_. True"] by simp
    have "\<exists>r'. ?f p r = Some (?t, r') \<and> rel_ok en fs r' \<and> r_arity r' = r_arity r \<and> rel_view en fs r' = rel_view en fs r"
      if "rel_ok en fs r" "r_arity r = a" "rel_view en fs r = permute p ` R" for r
      by (rule select_ok [OF assms(1-3) that(1), of k]) (use that(2,3) cR in simp_all)
    then have "\<exists>db'. dl_select_perm en al fs db name i k a = Some (?t, db') \<and> same_db en fs db db' \<and> perms_fresh en fs db'"
      using on [of ?f ?t None] by (simp add: dl_select_perm_def)
    moreover have "select_perm_spec (perm_stats en fs db name i a) k ?t"
      using select_permuted [OF v len fin, of k] by (simp add: S select_perm_spec_def)
    ultimately show "\<exists>t db'. dl_select_perm en al fs db name i k a = Some (t, db') \<and>
        select_perm_spec (perm_stats en fs db name i a) k t \<and> same_db en fs db db' \<and> perms_fresh en fs db'" by blast
  next
    let ?f = "\<lambda>p r. rel_range_count en fs (permute p lo) (permute p hi) r"
    let ?n = "card {t \<in> R. permute p lo \<le> permute p t \<and> permute p t < permute p hi}"
    have "\<exists>r'. ?f p r = Some (?n, r') \<and> rel_ok en fs r' \<and> r_arity r' = r_arity r \<and> rel_view en fs r' = rel_view en fs r"
      if r: "rel_ok en fs r" "r_arity r = a" "rel_view en fs r = permute p ` R" for r
    proof -
      obtain r' where r': "rel_range_count en fs (permute p lo) (permute p hi) r =
          Some (card {t \<in> rel_view en fs r. permute p lo \<le> t \<and> t < permute p hi}, r')" "rel_ok en fs r'" "rel_view en fs r' = rel_view en fs r"
        by (rule range_count_ok [OF assms(1-3) r(1), of "permute p lo" "permute p hi"]) (use assms(9,10) r(2) in simp_all)
      moreover from this(1) have "r_arity r' = r_arity r" unfolding rel_range_count_def by (rule order_read_arity)
      ultimately show ?thesis using r(3) card_of [of "\<lambda>s. permute p lo \<le> s \<and> s < permute p hi"] by simp
    qed
    then show "\<exists>n db'. dl_range_count_perm en al fs db name i (Some lo) (Some hi) a = Some (n, db') \<and>
        range_perm_spec (perm_stats en fs db name i a) lo hi n \<and> same_db en fs db db' \<and> perms_fresh en fs db'"
      using on [of ?f ?n UINT64_MAX] by (simp add: dl_range_count_perm_def S range_perm_spec_def)
  qed
qed

text \<open>The database with a relation of arity 2 and an index by its second column, not built yet.\<close>

definition swap_db :: "relation \<Rightarrow> dl_db" where
  "swap_db r = (row_db r)\<lparr>db_perms := [\<lparr>pe_rel_id = 0, pe_arity = 2, pe_perm = [1, 0, 0, 0, 0, 0, 0, 0], pe_pidx_rel = None, pe_dirty = True\<rparr>]\<rparr>"

lemma swap_db_ok:
  assumes "rel_ok en fs r" "r_arity r = 2"
  shows "db_ok en fs (swap_db r)" "perms_fresh en fs (swap_db r)"
    "perm_stats en fs (swap_db r) ''q'' 0 2 = Some ([1, 0, 0, 0, 0, 0, 0, 0], rel_view en fs r)"
    "entry_at (swap_db r) 0 \<noteq> None" "dl_db_perm_count (swap_db r) = 1"
    "\<forall>pe \<in> set (db_perms (swap_db r)). perm_source en fs (swap_db r) pe = rel_view en fs r"
proof -
  have p: "perm_valid 2 [1, 0, 0, 0, 0, 0, 0, 0]" by (simp add: perm_valid_def numeral_2_eq_2 All_less_Suc)
  have o: "perm_ok en fs \<lparr>pe_rel_id = 0, pe_arity = 2, pe_perm = [1, 0, 0, 0, 0, 0, 0, 0], pe_pidx_rel = None, pe_dirty = True\<rparr>"
    using p by (simp add: perm_ok_def MAX_ARITY_def)
  have e: "entry_at (swap_db r) 0 = Some \<lparr>re_name = ''q'', re_kind = RELK_FIXED, re_arity = 2, re_rel = Some r, re_vrel = None\<rparr>"
    "findRel (swap_db r) ''q'' = 0"
    using row_db(2,5) [of r] by (simp_all add: swap_db_def entry_at_perms)
  show "db_ok en fs (swap_db r)"
    using row_db(1) [OF assms] o e(1) unfolding db_ok_def swap_db_def entry_at_perms by (simp add: MAX_PERMS_def)
  show "perms_fresh en fs (swap_db r)" by (simp add: perms_fresh_def perm_fresh_def swap_db_def)
  show "perm_stats en fs (swap_db r) ''q'' 0 2 = Some ([1, 0, 0, 0, 0, 0, 0, 0], rel_view en fs r)"
    using e by (simp add: perm_stats_def ordstatsRelRo_def entry_set_def perm_entry_def RELK_FIXED_def RELK_VARIADIC_def swap_db_def)
  show "entry_at (swap_db r) 0 \<noteq> None" using e by simp
  show "dl_db_perm_count (swap_db r) = 1" by (simp add: dl_db_perm_count_def swap_db_def)
  have "db_perms (swap_db r) = [\<lparr>pe_rel_id = 0, pe_arity = 2, pe_perm = [1, 0, 0, 0, 0, 0, 0, 0], pe_pidx_rel = None, pe_dirty = True\<rparr>]"
    by (simp add: swap_db_def)
  then show "\<forall>pe \<in> set (db_perms (swap_db r)). perm_source en fs (swap_db r) pe = rel_view en fs r"
    using e view_lengths [OF assms(1)] assms(2)
    by (auto simp: perm_source_def rel_facts_def entry_set_def RELK_FIXED_def RELK_VARIADIC_def)
qed

lemma swapped_below: "{t \<in> {[5, 2 :: u32]}. permute [1, 0, 0, 0, 0, 0, 0, 0] t < permute [1, 0, 0, 0, 0, 0, 0, 0] [5, 9]} = {[5, 2]}"
proof -
  have "permute [1, 0, 0, 0, 0, 0, 0, 0] [5, 2] = [2, 5 :: u32]" "permute [1, 0, 0, 0, 0, 0, 0, 0] [5, 9] = [9, 5 :: u32]"
    by (simp_all add: permute_def)
  then show ?thesis by auto
qed

text \<open>The fact \<open>(5, 2)\<close> comes before \<open>(5, 9)\<close> by the second column; the index is built on the way.\<close>

theorem perm_statistics_correct_witness:
  "\<exists>r db'. rel_view trie_engine no_files r = {[5, 2]} \<and>
    dl_rank_perm trie_engine (\<lambda>_ _. True) no_files (swap_db r) ''q'' 0 (Some [5, 9]) 2 = Some (1, db') \<and> perms_fresh trie_engine no_files db'"
proof (rule one_row)
  fix r assume r: "rel_ok trie_engine no_files r" "rel_view trie_engine no_files r = {[5, 2]}" "r_arity r = 2"
  note S = swap_db_ok [OF r(1,3)]
  have small: "card R < 2 ^ 29" if "perm_stats trie_engine no_files (swap_db r) ''q'' 0 2 = Some (p, R)" for p R
  proof -
    have "Some (p, R) = Some ([1, 0, 0, 0, 0, 0, 0, 0], {[5, 2]})" by (rule trans [OF that [symmetric] S(3) [unfolded r(2)]])
    then have "R = {[5, 2]}" by (simp only: option.inject prod.inject)
    then show ?thesis by simp
  qed
  have gen: "generous (\<lambda>_ _. True)" by (simp add: generous_def)
  have len: "length [5, 9 :: u32] = 2" by simp
  note all = perm_statistics_correct [where name = "''q''" and i = 0, OF trie_engine_ok trie_create_ne trie_adds trie_builds gen S(1,2) len len len, THEN conjunct1]
  have "\<exists>n db'. dl_rank_perm trie_engine (\<lambda>_ _. True) no_files (swap_db r) ''q'' 0 (Some [5, 9]) 2 = Some (n, db') \<and>
      rank_perm_spec (perm_stats trie_engine no_files (swap_db r) ''q'' 0 2) [5, 9] n \<and>
      same_db trie_engine no_files (swap_db r) db' \<and> perms_fresh trie_engine no_files db'"
    by (rule all) (rule small)
  then obtain n db' where n: "dl_rank_perm trie_engine (\<lambda>_ _. True) no_files (swap_db r) ''q'' 0 (Some [5, 9]) 2 = Some (n, db')"
    "rank_perm_spec (perm_stats trie_engine no_files (swap_db r) ''q'' 0 2) [5, 9] n" "perms_fresh trie_engine no_files db'"
    by (elim exE conjE)
  have "n = 1" using n(2) unfolding S(3) r(2) rank_perm_spec_def option.case prod.case swapped_below by simp
  then show ?thesis using n(1,3) r(2) by (intro exI [of _ r] exI [of _ db']) simp
qed

text \<open>C26: the table of permutation indices: declaring answers the index of an equal declaration (when
  the table is full this is left open) or adds a stale one at the end, and changes nothing otherwise;
  finding only looks.  Declaring, and a change of one relation followed by marking its indices, keep
  every index that is not marked stale equal to the permuted facts of its relation.  Building all
  stale indices answers 0 and leaves none of them stale and all equal to the permuted facts, provided
  that the engine can create an automaton, its additions and bulk builds succeed, every fact fits
  in a tuple set and the allocator grants each request; without memory a build may answer 0
  and leave an incomplete index, which is why these conditions stand before the build alone.\<close>

theorem perm_table_correct:
  assumes "db_ok en fs db" "perms_fresh en fs db" "length perm = 8" "entry_at db rel_id \<noteq> None"
  shows "declare_spec db rel_id a perm (dl_db_declare_perm db rel_id a perm) \<and> find_spec db rel_id a perm (dl_db_find_perm db rel_id a perm) \<and>
    db_ok en fs (snd (dl_db_declare_perm db rel_id a perm)) \<and> perms_fresh en fs (snd (dl_db_declare_perm db rel_id a perm)) \<and>
    (\<forall>db'. db_perms db' = db_perms db \<and> (\<forall>j. j \<noteq> i \<longrightarrow> rel_facts en fs db' j = rel_facts en fs db j) \<longrightarrow>
      perms_fresh en fs (permindex_mark_dirty db' i)) \<and>
    (engine_ok en \<and> dafsa_create en \<noteq> None \<and> adds_succeed en \<and> builds_succeed en \<and>
        (\<forall>pe \<in> set (db_perms db). rows_fit al (perm_source en fs db pe)) \<longrightarrow>
      (\<exists>db'. permindex_build_dirty en al fs db = Some (0, db') \<and> same_db en fs db db' \<and> perms_fresh en fs db' \<and>
        dl_db_perm_count db' = dl_db_perm_count db \<and> (\<forall>pe \<in> set (db_perms db'). \<not> pe_dirty pe)))"
proof -
  have build: "\<exists>db'. permindex_build_dirty en al fs db = Some (0, db') \<and> same_db en fs db db' \<and> perms_fresh en fs db' \<and>
      dl_db_perm_count db' = dl_db_perm_count db \<and> (\<forall>pe \<in> set (db_perms db'). \<not> pe_dirty pe)"
    if en: "engine_ok en" "dafsa_create en \<noteq> None" "adds_succeed en" "builds_succeed en"
      and fit: "\<forall>pe \<in> set (db_perms db). rows_fit al (perm_source en fs db pe)"
  proof -
    have "\<forall>i \<in> set [0..<length (db_perms db)]. i < length (db_perms db)" by simp
    from build_dirty_ok [OF en assms(1,2) fit this] obtain db' where
      d: "build_dirty en al fs [0..<length (db_perms db)] db = Some (0, db')" "same_db en fs db db'" "perms_fresh en fs db'"
      "length (db_perms db') = length (db_perms db)" "\<forall>i \<in> set [0..<length (db_perms db)]. \<not> pe_dirty (db_perms db' ! i)"
      by (elim exE conjE)
    have "\<forall>pe \<in> set (db_perms db'). \<not> pe_dirty pe" using d(4,5) by (simp add: all_set_conv_all_nth)
    then show ?thesis using d(1-4) by (simp add: permindex_build_dirty_def dl_db_perm_count_def)
  qed
  show ?thesis
    by (intro conjI declare_ok [OF assms] find_ok allI impI; elim conjE)
      (rule mark_ok [OF assms(2)] build, assumption+)+
qed

theorem perm_table_correct_witness:
  "\<exists>r db'. rel_view trie_engine no_files r = {[5, 2]} \<and> dl_db_perm_count (swap_db r) = 1 \<and>
    permindex_build_dirty trie_engine (\<lambda>_ _. True) no_files (swap_db r) = Some (0, db') \<and> dl_db_perm_count db' = 1 \<and>
    (\<forall>pe \<in> set (db_perms db'). \<not> pe_dirty pe) \<and> perms_fresh trie_engine no_files db'"
proof (rule one_row)
  fix r assume r: "rel_ok trie_engine no_files r" "rel_view trie_engine no_files r = {[5, 2]}" "r_arity r = 2"
  note S = swap_db_ok [OF r(1,3)]
  have fit: "\<forall>pe \<in> set (db_perms (swap_db r)). rows_fit (\<lambda>_ _. True) (perm_source trie_engine no_files (swap_db r) pe)"
    using S(6) r(2) by (simp add: rows_fit_def generous_def)
  have "\<exists>db'. permindex_build_dirty trie_engine (\<lambda>_ _. True) no_files (swap_db r) = Some (0, db') \<and>
      same_db trie_engine no_files (swap_db r) db' \<and> perms_fresh trie_engine no_files db' \<and>
      dl_db_perm_count db' = dl_db_perm_count (swap_db r) \<and> (\<forall>pe \<in> set (db_perms db'). \<not> pe_dirty pe)"
    using perm_table_correct [OF S(1,2) _ S(4), of "[1, 0, 0, 0, 0, 0, 0, 0]" 2 0 "\<lambda>_ _. True"]
      trie_engine_ok trie_create_ne trie_adds trie_builds fit by simp
  then show ?thesis using r(2) S(5) by auto
qed

end
