(* ===== verification/Aggregate.thy ===== *)
theory Aggregate
  imports Probe
begin

text \<open>
  The accumulator of an aggregate rule (\<^verbatim>\<open>zig/src/vm.zig\<close>, \<^verbatim>\<open>aggHash\<close> to \<^verbatim>\<open>aggFree\<close> and the code of
  \<^verbatim>\<open>OP_AGG_ACC\<close> and of the emission): an open-addressing table of groups, each with the count, sum, minimum
  and maximum of the values seen.  A bucket with a null key is \<open>None\<close>.  \<open>agg_correct\<close> shows that the table
  holds, for every group, the aggregate of exactly the values fed for it.
\<close>

record agg_bucket =
  ab_key :: tuple
  ab_count :: u32
  ab_sum :: u32
  ab_min :: u32
  ab_max :: u32

record agg_accum =
  aa_buckets :: "agg_bucket option list"
  aa_n_buckets :: nat
  aa_n_key :: nat
  aa_op :: nat
  aa_src_slot :: nat
  aa_res_slot :: nat
  aa_group_slots :: "nat list"
  aa_head_rel_id :: nat
  aa_head_arity :: nat
  aa_head_slots :: "nat list"

definition aggHash :: "tuple \<Rightarrow> u64" where
  "aggHash key = foldl fnv_u32 FNV_OFFSET key"

definition agg_home :: "tuple \<Rightarrow> nat \<Rightarrow> nat" where
  "agg_home key cap = unat (aggHash key) AND (cap - 1)"

definition aggInit :: "allocator \<Rightarrow> agg_accum option" where
  "aggInit al =
     (if al ''aggInit'' (16 * 32)
      then Some \<lparr>aa_buckets = replicate 16 None, aa_n_buckets = 0, aa_n_key = 0, aa_op = 0, aa_src_slot = 0, aa_res_slot = 0,
        aa_group_slots = [], aa_head_rel_id = 0, aa_head_arity = 0, aa_head_slots = []\<rparr>
      else None)"

text \<open>The loop over the old buckets; \<open>None\<close> is a probe that does not end.  The capacity is a signed 32-bit
  number; a doubling past its range, which has no defined answer, is \<open>None\<close> too.\<close>

fun agg_rehash :: "agg_bucket option list \<Rightarrow> agg_bucket option list \<Rightarrow> agg_bucket option list option" where
  "agg_rehash [] nb = Some nb"
| "agg_rehash (None # obs) nb = agg_rehash obs nb"
| "agg_rehash (Some b # obs) nb =
     (case probe (length nb) (\<lambda>s. s = None) (\<lambda>_. False) nb (agg_home (ab_key b) (length nb)) of
        None \<Rightarrow> None
      | Some (_, i) \<Rightarrow> agg_rehash obs (nb[i := Some b]))"

definition aggGrow :: "allocator \<Rightarrow> agg_accum \<Rightarrow> (bool \<times> agg_accum) option" where
  "aggGrow al ac =
     (let new_cap = length (aa_buckets ac) * 2 in
      if new_cap \<ge> 2 ^ 31 then None
      else if \<not> al ''aggGrow'' (new_cap * 32) then Some (False, ac)
      else map_option (\<lambda>nb. (True, ac\<lparr>aa_buckets := nb\<rparr>)) (agg_rehash (aa_buckets ac) (replicate new_cap None)))"

definition new_bucket :: "tuple \<Rightarrow> agg_bucket" where
  "new_bucket key = \<lparr>ab_key = key, ab_count = 0, ab_sum = 0, ab_min = 0, ab_max = 0\<rparr>"

text \<open>The index of the bucket, or nothing when memory runs out.\<close>

definition agg_find :: "allocator \<Rightarrow> tuple \<Rightarrow> agg_accum \<Rightarrow> (nat option \<times> agg_accum) option" where
  "agg_find al key ac =
     (let tab = aa_buckets ac in
      case probe (length tab) (\<lambda>s. s = None) (\<lambda>s. \<exists>b. s = Some b \<and> ab_key b = key) tab (agg_home key (length tab)) of
        None \<Rightarrow> None
      | Some (True, i) \<Rightarrow> Some (Some i, ac)
      | Some (False, i) \<Rightarrow>
          (if \<not> al ''aggFindOrCreate.key'' (max 1 (aa_n_key ac * 4)) then Some (None, ac)
           else Some (Some i, ac\<lparr>aa_buckets := tab[i := Some (new_bucket key)], aa_n_buckets := aa_n_buckets ac + 1\<rparr>)))"

definition aggFindOrCreate :: "allocator \<Rightarrow> tuple \<Rightarrow> agg_accum \<Rightarrow> (nat option \<times> agg_accum) option" where
  "aggFindOrCreate al key ac =
     (if aa_n_buckets ac + 1 > length (aa_buckets ac) - length (aa_buckets ac) div 4
      then (case aggGrow al ac of
              None \<Rightarrow> None
            | Some (False, ac1) \<Rightarrow> Some (None, ac1)
            | Some (True, ac1) \<Rightarrow> agg_find al key ac1)
      else agg_find al key ac)"

text \<open>The update of a bucket with one value.\<close>

definition bucket_add :: "nat \<Rightarrow> u32 \<Rightarrow> agg_bucket \<Rightarrow> agg_bucket" where
  "bucket_add op v b =
     (let b1 = b\<lparr>ab_count := ab_count b + 1\<rparr> in
      if op = 1 then b1\<lparr>ab_sum := ab_sum b1 + v\<rparr>
      else if op = 2 then (if ab_count b1 = 1 then b1\<lparr>ab_min := v\<rparr> else if v < ab_min b1 then b1\<lparr>ab_min := v\<rparr> else b1)
      else if op = 3 then (if ab_count b1 = 1 then b1\<lparr>ab_max := v\<rparr> else if v > ab_max b1 then b1\<lparr>ab_max := v\<rparr> else b1)
      else b1)"

text \<open>One row: find its group and add the value; \<open>False\<close> when memory runs out.\<close>

definition agg_acc :: "allocator \<Rightarrow> tuple \<Rightarrow> u32 \<Rightarrow> agg_accum \<Rightarrow> (bool \<times> agg_accum) option" where
  "agg_acc al key v ac =
     (case aggFindOrCreate al key ac of
        None \<Rightarrow> None
      | Some (None, ac1) \<Rightarrow> Some (False, ac1)
      | Some (Some i, ac1) \<Rightarrow>
          Some (True, ac1\<lparr>aa_buckets := (aa_buckets ac1)[i := map_option (bucket_add (aa_op ac1) v) (aa_buckets ac1 ! i)]\<rparr>))"

subsection \<open>Emission\<close>

definition bucket_value :: "nat \<Rightarrow> agg_bucket \<Rightarrow> u32" where
  "bucket_value op b = (if op = 1 then ab_sum b else if op = 2 then ab_min b else if op = 3 then ab_max b else ab_count b)"

text \<open>One head column: the result, or the column of the key whose slot it is; a column that is neither drops
  the group.\<close>

definition head_col :: "agg_accum \<Rightarrow> tuple \<Rightarrow> u32 \<Rightarrow> nat \<Rightarrow> u32 option" where
  "head_col ac key agg_val hs =
     (if hs = aa_res_slot ac then Some agg_val
      else map_option (\<lambda>g. key ! g) (find (\<lambda>g. aa_group_slots ac ! g = hs) [0..<aa_n_key ac]))"

definition agg_head :: "agg_accum \<Rightarrow> tuple \<Rightarrow> u32 \<Rightarrow> tuple option" where
  "agg_head ac key agg_val =
     (let cols = map (head_col ac key agg_val) (take (aa_head_arity ac) (aa_head_slots ac)) in
      if None \<in> set cols then None else Some (map the cols))"

text \<open>The tuples the loop over the table emits, in its order.\<close>

definition agg_emitted :: "agg_accum \<Rightarrow> tuple list" where
  "agg_emitted ac =
     (if aa_n_buckets ac > 0
      then List.map_filter (\<lambda>s. case s of None \<Rightarrow> None | Some b \<Rightarrow> agg_head ac (ab_key b) (bucket_value (aa_op ac) b)) (aa_buckets ac) else [])"

subsection \<open>What the table holds\<close>

text \<open>The values fed for one group, in order, and their aggregate.\<close>

definition group_values :: "(tuple \<times> u32) list \<Rightarrow> tuple \<Rightarrow> u32 list" where
  "group_values rows k = map snd (filter (\<lambda>r. fst r = k) rows)"

definition agg_value :: "nat \<Rightarrow> u32 list \<Rightarrow> u32" where
  "agg_value op vs = (if op = 1 then sum_list vs else if op = 2 then Min (set vs) else if op = 3 then Max (set vs) else of_nat (length vs))"

definition bucket_for :: "nat \<Rightarrow> u32 list \<Rightarrow> agg_bucket \<Rightarrow> bool" where
  "bucket_for op vs b \<longleftrightarrow> ab_count b = of_nat (length vs) \<and> (vs \<noteq> [] \<longrightarrow> bucket_value op b = agg_value op vs) \<and>
     (vs = [] \<longrightarrow> ab_sum b = 0)"

definition bucket_key :: "agg_bucket option \<Rightarrow> tuple option" where
  "bucket_key s = map_option ab_key s"

text \<open>The accumulator after the given rows.\<close>

definition agg_inv :: "(tuple \<times> u32) list \<Rightarrow> agg_accum \<Rightarrow> bool" where
  "agg_inv rows ac \<longleftrightarrow> 16 \<le> length (aa_buckets ac) \<and> lp_ok agg_home (map bucket_key (aa_buckets ac)) \<and>
     lp_keys (map bucket_key (aa_buckets ac)) = fst ` set rows \<and>
     occupied (map bucket_key (aa_buckets ac)) = aa_n_buckets ac \<and>
     aa_n_buckets ac \<le> length (aa_buckets ac) - length (aa_buckets ac) div 4 \<and>
     (\<forall>b. Some b \<in> set (aa_buckets ac) \<longrightarrow> bucket_for (aa_op ac) (group_values rows (ab_key b)) b)"

definition agg_frame :: "agg_accum \<Rightarrow> agg_accum \<Rightarrow> bool" where
  "agg_frame ac ac' \<longleftrightarrow> aa_n_key ac' = aa_n_key ac \<and> aa_op ac' = aa_op ac \<and> aa_src_slot ac' = aa_src_slot ac \<and>
     aa_res_slot ac' = aa_res_slot ac \<and> aa_group_slots ac' = aa_group_slots ac \<and> aa_head_rel_id ac' = aa_head_rel_id ac \<and>
     aa_head_arity ac' = aa_head_arity ac \<and> aa_head_slots ac' = aa_head_slots ac"

interpretation agg: linear_probing agg_home
  by unfold_locales (auto simp: agg_home_def pow2_and pow2_pos)

lemma bucket_key_None [simp]: "bucket_key s = None \<longleftrightarrow> s = None" "bucket_key None = None" "bucket_key (Some b) = Some (ab_key b)"
  by (simp_all add: bucket_key_def)

subsection \<open>One value\<close>

lemma bucket_add_key [simp]: "ab_key (bucket_add op v b) = ab_key b"
  by (simp add: bucket_add_def Let_def)

lemma bucket_add_for:
  assumes "bucket_for op vs b" "length vs + 1 < 2 ^ 32"
  shows "bucket_for op (vs @ [v]) (bucket_add op v b)"
proof -
  have count: "ab_count b = of_nat (length vs)" using assms(1) by (simp add: bucket_for_def)
  have one: "ab_count b + 1 = 1 \<longleftrightarrow> vs = []"
  proof -
    have "(of_nat (length vs) :: u32) = 0 \<longleftrightarrow> length vs = 0" using assms(2) by (auto simp: word_of_nat_eq_0_iff dest: dvd_imp_le)
    then show ?thesis using count by simp
  qed
  show ?thesis
  proof (cases "vs = []")
    case True
    then show ?thesis using assms(1) one
      by (auto simp: bucket_for_def bucket_add_def bucket_value_def agg_value_def Let_def)
  next
    case False
    then have ne: "vs \<noteq> []" "set vs \<noteq> {}" "ab_count b + 1 \<noteq> 1" using one by simp_all
    have v: "bucket_value op b = agg_value op vs" using assms(1) ne(1) by (simp add: bucket_for_def)
    consider "op = 1" | "op = 2" | "op = 3" | "op \<noteq> 1" "op \<noteq> 2" "op \<noteq> 3" by blast
    then show ?thesis
    proof cases
      case 2
      then have m: "ab_min b = Min (set vs)" using v by (simp add: bucket_value_def agg_value_def)
      have "agg_value op (vs @ [v]) = min (Min (set vs)) v" using ne(2) 2 by (simp add: agg_value_def min.commute)
      moreover have "bucket_value op (bucket_add op v b) = min (ab_min b) v"
        using 2 ne(3) by (auto simp: bucket_add_def bucket_value_def Let_def min_def)
      ultimately show ?thesis using 2 m ne(1) count by (simp add: bucket_for_def bucket_add_def Let_def)
    next
      case 3
      then have m: "ab_max b = Max (set vs)" using v by (simp add: bucket_value_def agg_value_def)
      have "agg_value op (vs @ [v]) = max (Max (set vs)) v" using ne(2) 3 by (simp add: agg_value_def max.commute)
      moreover have "bucket_value op (bucket_add op v b) = max (ab_max b) v"
        using 3 ne(3) by (auto simp: bucket_add_def bucket_value_def Let_def max_def)
      ultimately show ?thesis using 3 m ne(1) count by (simp add: bucket_for_def bucket_add_def Let_def)
    qed (use v count in \<open>simp_all add: bucket_for_def bucket_add_def bucket_value_def agg_value_def Let_def\<close>)
  qed
qed

subsection \<open>The table\<close>

definition tab_of :: "agg_bucket option list \<Rightarrow> nat \<Rightarrow> tuple set \<Rightarrow> bool" where
  "tab_of tab n K \<longleftrightarrow> 16 \<le> length tab \<and> lp_ok agg_home (map bucket_key tab) \<and> lp_keys (map bucket_key tab) = K \<and>
     occupied (map bucket_key tab) = n"

lemma agg_rehash_ok:
  assumes "lp_ok agg_home (map bucket_key nb)" "distinct (filter (\<lambda>x. x \<noteq> None) (map bucket_key obs))"
    "lp_keys (map bucket_key obs) \<inter> lp_keys (map bucket_key nb) = {}"
    "occupied (map bucket_key nb) + occupied (map bucket_key obs) \<le> length nb"
  shows "\<exists>h. agg_rehash obs nb = Some h \<and> length h = length nb \<and> lp_ok agg_home (map bucket_key h) \<and>
    lp_keys (map bucket_key h) = lp_keys (map bucket_key nb) \<union> lp_keys (map bucket_key obs) \<and>
    occupied (map bucket_key h) = occupied (map bucket_key nb) + occupied (map bucket_key obs) \<and>
    (\<forall>b. Some b \<in> set h \<longrightarrow> Some b \<in> set nb \<or> Some b \<in> set obs)"
  using assms
proof (induction obs nb rule: agg_rehash.induct)
  case (1 nb)
  then show ?case by (simp add: lp_keys_def occupied_def)
next
  case (2 obs nb)
  have "lp_keys (map bucket_key (None # obs)) = lp_keys (map bucket_key obs)" "occupied (map bucket_key (None # obs)) = occupied (map bucket_key obs)"
    by (auto simp: lp_keys_def occupied_def)
  then show ?case using 2 by (auto simp: occupied_def)
next
  case (3 b obs nb)
  have keys: "lp_keys (map bucket_key (Some b # obs)) = insert (ab_key b) (lp_keys (map bucket_key obs))"
    "occupied (map bucket_key (Some b # obs)) = Suc (occupied (map bucket_key obs))"
    by (auto simp: lp_keys_def occupied_def)
  have absent: "ab_key b \<notin> lp_keys (map bucket_key nb)" "ab_key b \<notin> lp_keys (map bucket_key obs)"
    using "3.prems"(2,3) keys(1) by (auto simp: lp_keys_def)
  have room: "occupied (map bucket_key nb) < length nb" using "3.prems"(4) keys(2) by simp
  obtain p where p: "p < length nb" "bucket_key (nb ! p) = None"
    "probe (length nb) (\<lambda>s. s = None) (\<lambda>_. False) nb (agg_home (ab_key b) (length nb)) = Some (False, p)"
    "lp_ok agg_home (map bucket_key (nb[p := Some b]))" "lp_keys (map bucket_key (nb[p := Some b])) = insert (ab_key b) (lp_keys (map bucket_key nb))"
    "occupied (map bucket_key (nb[p := Some b])) = Suc (occupied (map bucket_key nb))"
    by (rule agg.insert_entry [OF "3.prems"(1) absent(1) room, of "\<lambda>s. s = None" "\<lambda>_. False" "Some b"]) simp_all
  have d: "distinct (filter (\<lambda>x. x \<noteq> None) (map bucket_key obs))" using "3.prems"(2) by simp
  have disj: "lp_keys (map bucket_key obs) \<inter> lp_keys (map bucket_key (nb[p := Some b])) = {}"
    using "3.prems"(3) keys(1) p(5) absent(2) by auto
  have fits: "occupied (map bucket_key (nb[p := Some b])) + occupied (map bucket_key obs) \<le> length (nb[p := Some b])"
    using "3.prems"(4) keys(2) p(6) by simp
  obtain h where h: "agg_rehash obs (nb[p := Some b]) = Some h" "length h = length nb" "lp_ok agg_home (map bucket_key h)"
    "lp_keys (map bucket_key h) = lp_keys (map bucket_key (nb[p := Some b])) \<union> lp_keys (map bucket_key obs)"
    "occupied (map bucket_key h) = occupied (map bucket_key (nb[p := Some b])) + occupied (map bucket_key obs)"
    "\<forall>x. Some x \<in> set h \<longrightarrow> Some x \<in> set (nb[p := Some b]) \<or> Some x \<in> set obs"
    using "3.IH" [OF p(3) refl p(4) d disj fits] by auto
  have "Some x \<in> set nb \<or> Some x \<in> set (Some b # obs)" if "Some x \<in> set h" for x
    using h(6) that set_update_subset_insert [of nb p "Some b"] by auto
  then show ?case using h p(3,5,6) keys by auto
qed

lemma filter_keys_inj:
  assumes "lp_ok home t"
  shows "distinct (filter (\<lambda>x. x \<noteq> None) t)"
  using assms
proof -
  have "\<And>p q. p < length t \<Longrightarrow> q < length t \<Longrightarrow> t ! p \<noteq> None \<Longrightarrow> t ! p = t ! q \<Longrightarrow> p = q"
    using assms unfolding lp_ok_def by (metis not_Some_eq)
  then show ?thesis
  proof (induction t)
    case (Cons x t)
    have tail: "p = q" if "p < length t" "q < length t" "t ! p \<noteq> None" "t ! p = t ! q" for p q
      using Cons.prems [of "Suc p" "Suc q"] that by simp
    have "x \<notin> set t" if "x \<noteq> None"
    proof
      assume "x \<in> set t"
      then obtain q where "q < length t" "t ! q = x" by (auto simp: in_set_conv_nth)
      then show False using Cons.prems [of 0 "Suc q"] that by simp
    qed
    then show ?case using Cons.IH [OF tail] by auto
  qed simp
qed

lemma lp_keys_card: "lp_ok home t \<Longrightarrow> occupied t = card (lp_keys t)"
proof -
  assume "lp_ok home t"
  then have "length (filter (\<lambda>x. x \<noteq> None) t) = card (set (filter (\<lambda>x. x \<noteq> None) t))"
    using distinct_card [OF filter_keys_inj] by metis
  moreover have "set (filter (\<lambda>x. x \<noteq> None) t) = Some ` lp_keys t" by (auto simp: lp_keys_def)
  ultimately show ?thesis by (simp add: occupied_def card_image)
qed

text \<open>Growing keeps the groups; with room for one more the bucket of a key is found or made.\<close>

definition grown :: "agg_accum \<Rightarrow> agg_accum \<Rightarrow> bool" where
  "grown ac ac' \<longleftrightarrow> agg_frame ac ac' \<and> aa_n_buckets ac' = aa_n_buckets ac \<and>
     (\<forall>b. Some b \<in> set (aa_buckets ac') \<longrightarrow> Some b \<in> set (aa_buckets ac))"

lemma agg_grow_ok:
  assumes "tab_of (aa_buckets ac) (aa_n_buckets ac) K" "aa_n_buckets ac \<le> length (aa_buckets ac)" "length (aa_buckets ac) < 2 ^ 30" "generous al"
  obtains ac' where "aggGrow al ac = Some (True, ac')" "tab_of (aa_buckets ac') (aa_n_buckets ac') K"
    "length (aa_buckets ac') = 2 * length (aa_buckets ac)" "grown ac ac'"
proof -
  let ?nb = "replicate (length (aa_buckets ac) * 2) (None :: agg_bucket option)"
  have t: "16 \<le> length (aa_buckets ac)" "lp_ok agg_home (map bucket_key (aa_buckets ac))" "lp_keys (map bucket_key (aa_buckets ac)) = K"
    "occupied (map bucket_key (aa_buckets ac)) = aa_n_buckets ac"
    using assms(1) by (simp_all add: tab_of_def)
  have "pow2 (length (aa_buckets ac))" using t(2) by (simp add: lp_ok_def)
  then have p2: "pow2 (length (aa_buckets ac) * 2)" using pow2_double [of "length (aa_buckets ac)"] by (simp add: mult.commute)
  have e: "map bucket_key ?nb = replicate (length (aa_buckets ac) * 2) None" by simp
  have 1: "lp_ok agg_home (map bucket_key ?nb)" unfolding e by (rule lp_ok_replicate [OF p2])
  have 2: "distinct (filter (\<lambda>x. x \<noteq> None) (map bucket_key (aa_buckets ac)))" by (rule filter_keys_inj [OF t(2)])
  have 3: "lp_keys (map bucket_key (aa_buckets ac)) \<inter> lp_keys (map bucket_key ?nb) = {}" unfolding e by simp
  have 4: "occupied (map bucket_key ?nb) + occupied (map bucket_key (aa_buckets ac)) \<le> length ?nb"
    unfolding e using assms(2) t(4) by simp
  obtain h where h: "agg_rehash (aa_buckets ac) ?nb = Some h" "length h = length ?nb" "lp_ok agg_home (map bucket_key h)"
    "lp_keys (map bucket_key h) = lp_keys (map bucket_key ?nb) \<union> lp_keys (map bucket_key (aa_buckets ac))"
    "occupied (map bucket_key h) = occupied (map bucket_key ?nb) + occupied (map bucket_key (aa_buckets ac))"
    "\<forall>b. Some b \<in> set h \<longrightarrow> Some b \<in> set ?nb \<or> Some b \<in> set (aa_buckets ac)"
    using agg_rehash_ok [OF 1 2 3 4] by blast
  show thesis
  proof (rule that)
    show "aggGrow al ac = Some (True, ac\<lparr>aa_buckets := h\<rparr>)"
      using assms(3,4) h(1) by (simp add: aggGrow_def generous_def Let_def)
    show "tab_of (aa_buckets (ac\<lparr>aa_buckets := h\<rparr>)) (aa_n_buckets (ac\<lparr>aa_buckets := h\<rparr>)) K"
      using h(2-5) t unfolding e by (simp add: tab_of_def)
    show "length (aa_buckets (ac\<lparr>aa_buckets := h\<rparr>)) = 2 * length (aa_buckets ac)" using h(2) by simp
    show "grown ac (ac\<lparr>aa_buckets := h\<rparr>)" using h(6) by (auto simp: grown_def agg_frame_def)
  qed
qed

text \<open>A bucket of the table under its key, every other bucket unchanged.\<close>

definition found_at :: "tuple \<Rightarrow> agg_accum \<Rightarrow> nat \<Rightarrow> agg_accum \<Rightarrow> bool" where
  "found_at key ac i ac' \<longleftrightarrow> agg_frame ac ac' \<and> i < length (aa_buckets ac') \<and> tab_of (aa_buckets ac') (aa_n_buckets ac') (lp_keys (map bucket_key (aa_buckets ac')))
     \<and> (\<exists>b. aa_buckets ac' ! i = Some b \<and> ab_key b = key \<and>
         (Some b \<in> set (aa_buckets ac) \<or> b = new_bucket key \<and> key \<notin> lp_keys (map bucket_key (aa_buckets ac)))) \<and>
     (\<forall>b. Some b \<in> set (aa_buckets ac') \<and> ab_key b \<noteq> key \<longrightarrow> Some b \<in> set (aa_buckets ac)) \<and>
     lp_keys (map bucket_key (aa_buckets ac')) = insert key (lp_keys (map bucket_key (aa_buckets ac))) \<and>
     aa_n_buckets ac' \<le> length (aa_buckets ac') - length (aa_buckets ac') div 4"

lemma agg_find_ok:
  assumes "tab_of (aa_buckets ac) (aa_n_buckets ac) K" "aa_n_buckets ac + 1 \<le> length (aa_buckets ac) - length (aa_buckets ac) div 4" "generous al"
  obtains i ac' where "agg_find al key ac = Some (Some i, ac')" "found_at key ac i ac'"
proof -
  let ?tab = "aa_buckets ac" and ?hit = "\<lambda>s. \<exists>b. s = Some b \<and> ab_key b = key"
  have t: "16 \<le> length ?tab" "lp_ok agg_home (map bucket_key ?tab)" "lp_keys (map bucket_key ?tab) = K"
    "occupied (map bucket_key ?tab) = aa_n_buckets ac"
    using assms(1) by (simp_all add: tab_of_def)
  show thesis
  proof (cases "key \<in> lp_keys (map bucket_key ?tab)")
    case True
    obtain p where p: "p < length ?tab" "bucket_key (?tab ! p) = Some key"
      "probe (length ?tab) (\<lambda>s. s = None) ?hit ?tab (agg_home key (length ?tab)) = Some (True, p)"
      by (rule agg.find_entry [OF t(2) True, of "\<lambda>s. s = None" ?hit]) (auto simp: bucket_key_def)
    obtain b where b: "?tab ! p = Some b" "ab_key b = key" using p(2) by (auto simp: bucket_key_def)
    have "Some b \<in> set ?tab" using p(1) b(1) nth_mem [of p ?tab] by simp
    then have "found_at key ac p ac" using p(1) b t assms(1,2) True by (auto simp: found_at_def agg_frame_def insert_absorb)
    then show thesis by (rule that [rotated]) (simp add: agg_find_def p(3) Let_def)
  next
    case False
    have room: "occupied (map bucket_key ?tab) < length ?tab" using t(1,4) assms(2) by linarith
    obtain p where p: "p < length ?tab" "bucket_key (?tab ! p) = None"
      "probe (length ?tab) (\<lambda>s. s = None) ?hit ?tab (agg_home key (length ?tab)) = Some (False, p)"
      "lp_ok agg_home (map bucket_key (?tab[p := Some (new_bucket key)]))"
      "lp_keys (map bucket_key (?tab[p := Some (new_bucket key)])) = insert key (lp_keys (map bucket_key ?tab))"
      "occupied (map bucket_key (?tab[p := Some (new_bucket key)])) = Suc (occupied (map bucket_key ?tab))"
    proof (rule agg.insert_entry [OF t(2) False room, of "\<lambda>s. s = None" ?hit "Some (new_bucket key)"])
      show "\<not> ?hit e" if "e \<in> set ?tab" for e using that False by (force simp: lp_keys_def image_iff)
      show "bucket_key (Some (new_bucket key)) = Some key" by (simp add: new_bucket_def)
    qed simp_all
    let ?ac = "ac\<lparr>aa_buckets := ?tab[p := Some (new_bucket key)], aa_n_buckets := aa_n_buckets ac + 1\<rparr>"
    have key: "ab_key (new_bucket key) = key" by (simp add: new_bucket_def)
    have other: "Some b \<in> set ?tab" if "Some b \<in> set (?tab[p := Some (new_bucket key)])" "ab_key b \<noteq> key" for b
      using that set_update_subset_insert [of ?tab p "Some (new_bucket key)"] key by auto
    have "found_at key ac p ?ac" using p t assms(2) key other False by (auto simp: found_at_def agg_frame_def tab_of_def)
    then show thesis by (rule that [rotated]) (use p(3) assms(3) in \<open>simp add: agg_find_def generous_def Let_def\<close>)
  qed
qed

lemma find_or_create_ok:
  assumes "tab_of (aa_buckets ac) (aa_n_buckets ac) K" "aa_n_buckets ac \<le> length (aa_buckets ac) - length (aa_buckets ac) div 4"
    "aa_n_buckets ac < 2 ^ 29" "generous al"
  obtains i ac' where "aggFindOrCreate al key ac = Some (Some i, ac')" "found_at key ac i ac'"
proof (cases "aa_n_buckets ac + 1 > length (aa_buckets ac) - length (aa_buckets ac) div 4")
  case True
  have n: "aa_n_buckets ac \<le> length (aa_buckets ac)" using assms(2) by linarith
  have c: "length (aa_buckets ac) < 2 ^ 30" using True assms(3) by simp
  obtain ac1 where g: "aggGrow al ac = Some (True, ac1)" "tab_of (aa_buckets ac1) (aa_n_buckets ac1) K"
    "length (aa_buckets ac1) = 2 * length (aa_buckets ac)" "grown ac ac1"
    by (rule agg_grow_ok [OF assms(1) n c assms(4)])
  have K: "lp_keys (map bucket_key (aa_buckets ac)) = K" "lp_keys (map bucket_key (aa_buckets ac1)) = K" "16 \<le> length (aa_buckets ac)"
    using assms(1) g(2) by (simp_all add: tab_of_def)
  have "aa_n_buckets ac1 + 1 \<le> length (aa_buckets ac1) - length (aa_buckets ac1) div 4"
    using g(3,4) assms(2) K(3) by (simp add: grown_def)
  then obtain i ac' where f: "agg_find al key ac1 = Some (Some i, ac')" "found_at key ac1 i ac'"
    by (rule agg_find_ok [OF g(2) _ assms(4)])
  have "found_at key ac i ac'" using f(2) g(4) K(1,2) by (auto simp: found_at_def grown_def agg_frame_def)
  then show thesis by (rule that [rotated]) (use True g(1) f(1) in \<open>simp add: aggFindOrCreate_def\<close>)
next
  case False
  then obtain i ac' where f: "agg_find al key ac = Some (Some i, ac')" "found_at key ac i ac'"
    by (meson agg_find_ok [OF assms(1) _ assms(4)] not_less)
  then show thesis by (intro that) (use False in \<open>simp_all add: aggFindOrCreate_def\<close>)
qed

subsection \<open>Feeding rows\<close>

fun agg_feed :: "allocator \<Rightarrow> (tuple \<times> u32) list \<Rightarrow> agg_accum \<Rightarrow> agg_accum option" where
  "agg_feed al [] ac = Some ac"
| "agg_feed al ((k, v) # rows) ac =
     (case agg_acc al k v ac of Some (True, ac') \<Rightarrow> agg_feed al rows ac' | _ \<Rightarrow> None)"

lemma group_values_append: "group_values (rows @ [(k, v)]) x = (if x = k then group_values rows x @ [v] else group_values rows x)"
  by (simp add: group_values_def)

lemma group_values_length: "length (group_values rows k) \<le> length rows"
  by (simp add: group_values_def)

lemma agg_acc_ok:
  assumes "agg_inv rows ac" "length rows < 2 ^ 29" "generous al"
  obtains ac' where "agg_acc al k v ac = Some (True, ac')" "agg_inv (rows @ [(k, v)]) ac'" "agg_frame ac ac'"
proof -
  have t: "tab_of (aa_buckets ac) (aa_n_buckets ac) (fst ` set rows)" "aa_n_buckets ac \<le> length (aa_buckets ac) - length (aa_buckets ac) div 4"
    "\<forall>b. Some b \<in> set (aa_buckets ac) \<longrightarrow> bucket_for (aa_op ac) (group_values rows (ab_key b)) b"
    using assms(1) by (simp_all add: agg_inv_def tab_of_def)
  have "aa_n_buckets ac = card (fst ` set rows)" using t(1) lp_keys_card [of agg_home "map bucket_key (aa_buckets ac)"] by (simp add: tab_of_def)
  also have "\<dots> \<le> length rows" using card_image_le [of "set rows" fst] card_length [of rows] by simp
  finally have n: "aa_n_buckets ac < 2 ^ 29" using assms(2) by simp
  obtain i ac1 where f: "aggFindOrCreate al k ac = Some (Some i, ac1)" "found_at k ac i ac1"
    by (rule find_or_create_ok [OF t(1,2) n assms(3)])
  obtain b where b: "aa_buckets ac1 ! i = Some b" "ab_key b = k"
    "Some b \<in> set (aa_buckets ac) \<or> b = new_bucket k \<and> k \<notin> lp_keys (map bucket_key (aa_buckets ac))"
    using f(2) unfolding found_at_def by (elim exE conjE)
  have fr: "agg_frame ac ac1" and i: "i < length (aa_buckets ac1)" using f(2) by (simp_all add: found_at_def)
  have op: "aa_op ac1 = aa_op ac" using fr by (simp add: agg_frame_def)
  have keys: "lp_keys (map bucket_key (aa_buckets ac)) = fst ` set rows" using t(1) by (simp add: tab_of_def)
  have old: "bucket_for (aa_op ac) (group_values rows k) b"
  proof (cases "Some b \<in> set (aa_buckets ac)")
    case True
    then show ?thesis using t(3) b(2) by auto
  next
    case False
    then have "b = new_bucket k" "k \<notin> fst ` set rows" using b(3) keys by simp_all
    moreover from this(2) have "filter (\<lambda>r. fst r = k) rows = []" by (auto simp: filter_empty_conv)
    ultimately show ?thesis by (simp add: bucket_for_def group_values_def new_bucket_def)
  qed
  have len: "length (group_values rows k) + 1 < 2 ^ 32" using group_values_length [of rows k] assms(2) by simp
  let ?b = "bucket_add (aa_op ac) v b"
  let ?tab = "(aa_buckets ac1)[i := Some ?b]"
  have new: "bucket_for (aa_op ac) (group_values rows k @ [v]) ?b" by (rule bucket_add_for [OF old len])
  have mk: "map bucket_key ?tab = map bucket_key (aa_buckets ac1)"
    using b(1) i by (simp add: map_update list_update_same_conv)
  have uniq: "ab_key x \<noteq> k" if "j < length (aa_buckets ac1)" "j \<noteq> i" "aa_buckets ac1 ! j = Some x" for j x
  proof
    assume "ab_key x = k"
    then have "map bucket_key (aa_buckets ac1) ! j = Some k" "map bucket_key (aa_buckets ac1) ! i = Some k"
      using that b(1,2) i by simp_all
    moreover have "lp_ok agg_home (map bucket_key (aa_buckets ac1))" using f(2) by (simp add: found_at_def tab_of_def)
    ultimately have "j = i" using that(1) i unfolding lp_ok_def length_map by blast
    then show False using that(2) by simp
  qed
  have content: "bucket_for (aa_op ac) (group_values (rows @ [(k, v)]) (ab_key x)) x" if "Some x \<in> set ?tab" for x
  proof -
    from that obtain j where "j < length ?tab" "?tab ! j = Some x" unfolding in_set_conv_nth by blast
    then have j: "j < length (aa_buckets ac1)" "?tab ! j = Some x" by simp_all
    show ?thesis
    proof (cases "j = i")
      case True
      then have "x = ?b" using j(2) i by simp
      then show ?thesis using new b(2) by (simp add: group_values_append)
    next
      case False
      then have x: "aa_buckets ac1 ! j = Some x" using j(2) by simp
      then have "Some x \<in> set (aa_buckets ac1)" "ab_key x \<noteq> k" using nth_mem [OF j(1)] uniq [OF j(1) False x] by simp_all
      then have "Some x \<in> set (aa_buckets ac)" using f(2) by (simp add: found_at_def)
      then show ?thesis using t(3) \<open>ab_key x \<noteq> k\<close> by (simp add: group_values_append)
    qed
  qed
  show thesis
  proof (rule that)
    show "agg_acc al k v ac = Some (True, ac1\<lparr>aa_buckets := ?tab\<rparr>)" using f(1) b(1) op by (simp add: agg_acc_def)
    show "agg_frame ac (ac1\<lparr>aa_buckets := ?tab\<rparr>)" using fr by (simp add: agg_frame_def)
    show "agg_inv (rows @ [(k, v)]) (ac1\<lparr>aa_buckets := ?tab\<rparr>)"
      using f(2) content op keys unfolding agg_inv_def found_at_def tab_of_def by (simp add: mk)
  qed
qed

lemma agg_feed_ok:
  assumes "agg_inv done ac" "length done + length rows < 2 ^ 29" "generous al"
  shows "\<exists>ac'. agg_feed al rows ac = Some ac' \<and> agg_inv (done @ rows) ac' \<and> agg_frame ac ac'"
  using assms(1,2)
proof (induction rows arbitrary: "done" ac)
  case Nil
  then show ?case by (simp add: agg_frame_def)
next
  case (Cons r rows)
  obtain k v where r: "r = (k, v)" by (cases r)
  have n: "length done < 2 ^ 29" using Cons.prems(2) by simp
  obtain ac1 where a: "agg_acc al k v ac = Some (True, ac1)" "agg_inv (done @ [(k, v)]) ac1" "agg_frame ac ac1"
    by (rule agg_acc_ok [OF Cons.prems(1) n assms(3)])
  have n1: "length (done @ [(k, v)]) + length rows < 2 ^ 29" using Cons.prems(2) by simp
  obtain ac' where "agg_feed al rows ac1 = Some ac'" "agg_inv ((done @ [(k, v)]) @ rows) ac'" "agg_frame ac1 ac'"
    using Cons.IH [OF a(2) n1] by (elim exE conjE)
  then show ?case using r a(1,3) by (auto simp: agg_frame_def)
qed

subsection \<open>Property\<close>

text \<open>The groups in the order of the table.\<close>

definition agg_groups :: "agg_accum \<Rightarrow> tuple list" where
  "agg_groups ac = List.map_filter bucket_key (aa_buckets ac)"

lemma agg_groups_ok:
  assumes "agg_inv rows ac"
  shows "distinct (agg_groups ac)" "set (agg_groups ac) = fst ` set rows"
proof -
  have t: "lp_ok agg_home (map bucket_key (aa_buckets ac))" "lp_keys (map bucket_key (aa_buckets ac)) = fst ` set rows"
    using assms by (simp_all add: agg_inv_def)
  have g: "agg_groups ac = map the (filter (\<lambda>x. x \<noteq> None) (map bucket_key (aa_buckets ac)))"
    by (simp add: agg_groups_def List.map_filter_def filter_map comp_def del: not_None_eq)
  have "inj_on the (set (filter (\<lambda>x. x \<noteq> None) (map bucket_key (aa_buckets ac))))" by (auto intro!: inj_onI)
  then show "distinct (agg_groups ac)" unfolding g using filter_keys_inj [OF t(1)] by (simp only: distinct_map)
  have "set (map the (filter (\<lambda>x. x \<noteq> None) xs)) = lp_keys xs" for xs :: "tuple option list"
    by (induction xs) (auto simp: lp_keys_def)
  then show "set (agg_groups ac) = fst ` set rows" by (simp only: g t(2))
qed

lemma agg_emitted_ok:
  assumes "agg_inv rows ac"
  shows "agg_emitted ac =
    List.map_filter (\<lambda>k. agg_head ac k (agg_value (aa_op ac) (group_values rows k))) (agg_groups ac)"
proof -
  have val: "bucket_value (aa_op ac) b = agg_value (aa_op ac) (group_values rows (ab_key b))" if "Some b \<in> set (aa_buckets ac)" for b
  proof -
    have "bucket_for (aa_op ac) (group_values rows (ab_key b)) b" using assms that by (simp add: agg_inv_def)
    moreover have "ab_key b \<in> lp_keys (map bucket_key (aa_buckets ac))" using that by (force simp: lp_keys_def)
    then have "ab_key b \<in> fst ` set rows" using assms by (simp add: agg_inv_def)
    then have "group_values rows (ab_key b) \<noteq> []" by (force simp: group_values_def filter_empty_conv)
    ultimately show ?thesis by (simp add: bucket_for_def)
  qed
  have "List.map_filter (\<lambda>s. case s of None \<Rightarrow> None | Some b \<Rightarrow> agg_head ac (ab_key b) (bucket_value (aa_op ac) b)) tab =
      List.map_filter (\<lambda>k. agg_head ac k (agg_value (aa_op ac) (group_values rows k))) (List.map_filter bucket_key tab)"
    if "set tab \<subseteq> set (aa_buckets ac)" for tab
    using that
  proof (induction tab)
    case (Cons x tab)
    then show ?case using val by (cases x) (simp_all add: List.map_filter_simps split: option.split)
  qed (simp add: List.map_filter_simps)
  moreover have "List.map_filter bucket_key (aa_buckets ac) = []" if "aa_n_buckets ac = 0"
  proof -
    have "occupied (map bucket_key (aa_buckets ac)) = 0" using assms that by (simp add: agg_inv_def)
    then have "filter (\<lambda>x. x \<noteq> None) (map bucket_key (aa_buckets ac)) = []" by (simp only: occupied_def length_0_conv)
    then show ?thesis by (simp add: List.map_filter_def filter_map comp_def del: not_None_eq)
  qed
  ultimately show ?thesis by (auto simp: agg_emitted_def agg_groups_def List.map_filter_simps)
qed

lemma map_filter_same: "(\<And>x. x \<in> set xs \<Longrightarrow> f x = g x) \<Longrightarrow> List.map_filter f xs = List.map_filter g xs"
  by (induction xs) (simp_all add: List.map_filter_simps split: option.split)

text \<open>C30: feeding rows to a fresh accumulator and emitting gives every group of the rows once, with the
  count (modulo \<open>2 ^ 32\<close>), the sum (modulo \<open>2 ^ 32\<close>), the minimum or the maximum of exactly the values fed for
  it; growing the table loses nothing.\<close>

theorem agg_correct:
  assumes "generous al" "aggInit al = Some ac0" "aa_buckets ac = aa_buckets ac0" "aa_n_buckets ac = aa_n_buckets ac0" "length rows < 2 ^ 29"
  shows "\<exists>ac' ks. agg_feed al rows ac = Some ac' \<and> distinct ks \<and> set ks = fst ` set rows \<and>
    agg_emitted ac' = List.map_filter (\<lambda>k. agg_head ac k (agg_value (aa_op ac) (group_values rows k))) ks"
proof -
  have b: "aa_buckets ac = replicate 16 None" "aa_n_buckets ac = 0" using assms(2-4) by (auto simp: aggInit_def split: if_splits)
  have p: "pow2 16" unfolding pow2_def by (rule exI [of _ 4]) simp
  have m: "map bucket_key (replicate 16 None) = replicate 16 None" by simp
  have "agg_inv [] ac" using lp_ok_replicate [OF p] by (simp add: agg_inv_def b m)
  then obtain ac' where "agg_feed al rows ac = Some ac'" "agg_inv ([] @ rows) ac'" "agg_frame ac ac'"
    using agg_feed_ok [of "[]" ac rows al] assms(1,5) by auto
  moreover from this(3) have "agg_head ac' = agg_head ac" "aa_op ac' = aa_op ac"
    by (auto simp: agg_frame_def agg_head_def head_col_def Let_def fun_eq_iff)
  ultimately show ?thesis using agg_groups_ok [of rows ac'] agg_emitted_ok [of rows ac'] by auto
qed

theorem agg_correct_witness:
  "\<exists>ac ac' ks. agg_feed (\<lambda>_ _. True) [([5], 2), ([7], 1), ([5], 9)] ac = Some ac' \<and> set ks = {[5], [7]} \<and>
     agg_emitted ac' = List.map_filter (\<lambda>k. agg_head ac k (if k = [5] then 9 else 1)) ks"
proof -
  obtain ac0 where ac0: "aggInit (\<lambda>_ _. True) = Some ac0" by (simp add: aggInit_def)
  let ?ac = "ac0\<lparr>aa_n_key := 1, aa_op := 3, aa_src_slot := 1, aa_res_slot := 1, aa_group_slots := [0], aa_head_arity := 2, aa_head_slots := [0, 1]\<rparr>"
  let ?rows = "[([5], 2), ([7], 1), ([5], 9)] :: (tuple \<times> u32) list"
  obtain ac' ks where a: "agg_feed (\<lambda>_ _. True) ?rows ?ac = Some ac'" "set ks = fst ` set ?rows"
    "agg_emitted ac' = List.map_filter (\<lambda>k. agg_head ?ac k (agg_value (aa_op ?ac) (group_values ?rows k))) ks"
    using agg_correct [OF _ ac0, of ?ac ?rows] by (auto simp: generous_def)
  have v: "agg_value 3 (group_values ?rows k) = (if k = [5] then 9 else 1)" if "k \<in> {[5], [7]}" for k
    using that by (auto simp: agg_value_def group_values_def)
  have "List.map_filter (\<lambda>k. agg_head ?ac k (agg_value (aa_op ?ac) (group_values ?rows k))) ks =
      List.map_filter (\<lambda>k. agg_head ?ac k (if k = [5] then 9 else 1)) ks"
  proof (rule map_filter_same)
    fix k assume "k \<in> set ks"
    then have "k \<in> {[5], [7]}" using a(2) by auto
    then show "agg_head ?ac k (agg_value (aa_op ?ac) (group_values ?rows k)) = agg_head ?ac k (if k = [5] then 9 else 1)"
      using v [of k] by simp
  qed
  then have e: "agg_emitted ac' = List.map_filter (\<lambda>k. agg_head ?ac k (if k = [5] then 9 else 1)) ks" using a(3) by (simp only:)
  have k: "set ks = {[5], [7]}" using a(2) by auto
  show ?thesis by (rule exI [of _ ?ac], rule exI [of _ ac'], rule exI [of _ ks], intro conjI a(1) k e)
qed

end
