(* ===== verification/Vm.thy ===== *)
theory Vm
  imports PermIndex Aggregate
begin

text \<open>
  The bytecode interpreter (\<^verbatim>\<open>src/vm.h\<close>, \<^verbatim>\<open>zig/src/vm.zig\<close>, \<^verbatim>\<open>execRange\<close> and \<^verbatim>\<open>execRule\<close>).  A rule body is
  a straight line of instructions; an instruction that enumerates rows pushes a frame, and a failing one
  backtracks into the topmost frame that has another row.  \<open>vm_action\<close> is the switch over the opcode: it
  says what an instruction does to the database, the pool and the caller's state and where control goes;
  \<open>exec_loop\<close> is the loop around it with its stack of frames.

  \<open>nest\<close> evaluates the same instructions as nested loops, without a stack.  The two are shown equal, so the
  interpreter stops whenever its instructions do, and visits the rows in the order of nested loops.

  The two instructions over code modelled nowhere in this library, the walk of a regular expression
  (\<^verbatim>\<open>OP_WALK\<close>) and the lazy range (\<^verbatim>\<open>OP_RANGE\<close>), and the three over strings are the parameter \<open>cx_other\<close>.
  What a failing attempt leaves in the bindings is not kept: every frame restores its saved ones first.
\<close>

definition MAX_FRAMES :: nat where "MAX_FRAMES = 8"
definition FRAME_LIMIT_ERR :: int where "FRAME_LIMIT_ERR = -2"
definition UNBOUND :: u32 where "UNBOUND = 0xFFFFFFFF"
definition NO_SLOT :: nat where "NO_SLOT = 255"

type_synonym bindings = "u32 option list"

record vm_override =
  ov_body_idx :: int
  ov_ts :: "tuple_set option"
  ov_perm_id :: int

text \<open>A live frame.  The field \<open>perm\<close> of the eight frame slots outlives a frame and is part of the run's state.\<close>

record vm_frame =
  f_ip :: nat
  f_op :: vm_opcode
  f_tuples :: "tuple list"
  f_arity :: nat
  f_idx :: nat
  f_saved :: bindings

record 's world =
  w_db :: dl_db
  w_perms :: "nat list option list"
  w_pool :: "tuple_set list"
  w_acc :: "agg_accum option"
  w_rc :: nat
  w_user :: 's

datatype 's vm_action =
    Stop "'s world"
  | Fail "'s world"
  | Next bindings "'s world"
  | Loop vm_opcode nat "tuple list" nat nat "nat list option" "'s world"
  | Sub nat nat "'s world"
  | Error int "'s world"

text \<open>What a run is given: the compiled code, the substituted row sources, and the callback.\<close>

record 's cx =
  cx_en :: engine
  cx_al :: allocator
  cx_fs :: files
  cx_code :: "vm_instr list"
  cx_ov :: "vm_override list"
  cx_dry :: bool
  cx_cb :: "'s enum_cb option"
  cx_other :: "vm_instr \<Rightarrow> nat \<Rightarrow> bindings \<Rightarrow> 's world \<Rightarrow> 's vm_action option"

subsection \<open>Bindings\<close>

definition bInit :: bindings where "bInit = replicate MAX_VARS None"

definition bTry :: "bindings \<Rightarrow> nat \<Rightarrow> u32 \<Rightarrow> bindings option" where
  "bTry b s v =
     (if s \<ge> MAX_VARS then None
      else case b ! s of Some x \<Rightarrow> if x = v then Some b else None | None \<Rightarrow> Some (b[s := Some v]))"

definition bOk :: "bindings \<Rightarrow> nat \<Rightarrow> bool" where
  "bOk b s \<longleftrightarrow> s < MAX_VARS \<and> b ! s \<noteq> None"

definition bGet :: "bindings \<Rightarrow> nat \<Rightarrow> u32" where
  "bGet b s = (if s < MAX_VARS then (case b ! s of Some v \<Rightarrow> v | None \<Rightarrow> UNBOUND) else UNBOUND)"

text \<open>Binding the columns of a row from position \<open>sc\<close> on; a permutation says which column a position holds.\<close>

fun bind_cols :: "vm_instr \<Rightarrow> nat list option \<Rightarrow> tuple \<Rightarrow> nat list \<Rightarrow> bindings \<Rightarrow> bindings option" where
  "bind_cols i perm row [] b = Some b"
| "bind_cols i perm row (pp # ps) b =
     (let s = i_slots i ! (case perm of None \<Rightarrow> pp | Some p \<Rightarrow> p ! pp) in
      if s = NO_SLOT then bind_cols i perm row ps b
      else case bTry b s (row ! pp) of None \<Rightarrow> None | Some b' \<Rightarrow> bind_cols i perm row ps b')"

definition bindRowPerm :: "vm_instr \<Rightarrow> tuple \<Rightarrow> nat \<Rightarrow> nat \<Rightarrow> nat list option \<Rightarrow> bindings \<Rightarrow> bindings option" where
  "bindRowPerm i row sc ar perm b = bind_cols i perm row [sc..<ar] b"

text \<open>The first row from index \<open>idx\<close> on that agrees with the saved bindings.\<close>

fun seek_rows :: "vm_instr \<Rightarrow> nat \<Rightarrow> nat \<Rightarrow> nat list option \<Rightarrow> bindings \<Rightarrow> tuple list \<Rightarrow> nat \<Rightarrow> (nat \<times> bindings) option" where
  "seek_rows i sc ar perm saved [] idx = None"
| "seek_rows i sc ar perm saved (row # rows) idx =
     (case bindRowPerm i row sc ar perm saved of Some b \<Rightarrow> Some (idx, b) | None \<Rightarrow> seek_rows i sc ar perm saved rows (idx + 1))"

definition seekValidPerm :: "vm_frame \<Rightarrow> vm_instr \<Rightarrow> nat \<Rightarrow> nat \<Rightarrow> nat list option \<Rightarrow> (vm_frame \<times> bindings) option" where
  "seekValidPerm f i sc ar perm =
     map_option (\<lambda>(idx, b). (f\<lparr>f_idx := idx\<rparr>, b)) (seek_rows i sc ar perm (f_saved f) (drop (f_idx f) (f_tuples f)) (f_idx f))"

text \<open>Where a frame goes on: past the bound prefix for a lookup, at the first column otherwise.\<close>

definition resume_col :: "vm_opcode \<Rightarrow> vm_instr \<Rightarrow> nat" where
  "resume_col op fi = (if op = OP_LOOKUP \<or> op = OP_LOOKUP_PERM then i_b fi else 0)"

fun backtrack :: "vm_instr list \<Rightarrow> nat list option list \<Rightarrow> vm_frame list \<Rightarrow> (nat \<times> bindings \<times> vm_frame list) option" where
  "backtrack p perms [] = None"
| "backtrack p perms (f # fs) =
     (let fi = p ! f_ip f in
      case seekValidPerm (f\<lparr>f_idx := f_idx f + 1\<rparr>) fi (resume_col (f_op f) fi) (f_arity f) (perms ! length fs) of
        Some (f', b) \<Rightarrow> Some (f_ip f + 1, b, f' # fs)
      | None \<Rightarrow> backtrack p perms fs)"

subsection \<open>Row sources\<close>

fun findOv :: "int \<Rightarrow> vm_override list \<Rightarrow> tuple_set option" where
  "findOv body_idx [] = None"
| "findOv body_idx (o1 # os) = (if ov_body_idx o1 = body_idx then ov_ts o1 else findOv body_idx os)"

text \<open>A substituted source that has rows.\<close>

definition feed :: "'s cx \<Rightarrow> vm_instr \<Rightarrow> tuple_set option" where
  "feed cx i = (case findOv (int (i_body_idx i)) (cx_ov cx) of
     Some ts \<Rightarrow> if ts_count ts > 0 then Some ts else None | None \<Rightarrow> None)"

text \<open>The buffer of a frame: its capacity and its rows; the callback stops when it cannot grow.\<close>

definition tbufCb :: "allocator \<Rightarrow> nat \<Rightarrow> (nat \<times> tuple list) enum_cb" where
  "tbufCb al ar cols tb =
     (case tb of (cap, rows) \<Rightarrow>
        if length rows \<ge> cap then
          (let nc = (if cap \<noteq> 0 then cap * 2 else 1024) in
           if al ''tbufCb'' (nc * ar * 4) then (0, nc, rows @ [cols]) else (1, tb))
        else (0, cap, rows @ [cols]))"

text \<open>The rows of a relation under a bound; what the enumeration answers is not looked at.  The inner
  \<open>None\<close> is the null relation.\<close>

definition read_rows :: "'s cx \<Rightarrow> dl_db \<Rightarrow> int \<Rightarrow> nat \<Rightarrow> tuple option \<Rightarrow> nat \<Rightarrow> (tuple list \<times> dl_db) option option" where
  "read_rows cx db rel_id ar pref k =
     (case db_rel_at_arity_ro db rel_id ar of
        None \<Rightarrow> Some None
      | Some r \<Rightarrow>
          (case rel_prefix (cx_en cx) (cx_fs cx) pref k (tbufCb (cx_al cx) ar) (0, []) r of
             None \<Rightarrow> None
           | Some ((_, _, rows), r') \<Rightarrow> Some (Some (rows, put_rel rel_id ar r' db))))"

definition set_perm :: "nat \<Rightarrow> nat list option \<Rightarrow> 's world \<Rightarrow> 's world" where
  "set_perm dep p w = w\<lparr>w_perms := (w_perms w)[dep := p]\<rparr>"

definition prefix_rows :: "tuple_set \<Rightarrow> tuple \<Rightarrow> nat \<Rightarrow> tuple list" where
  "prefix_rows ts pref k = (case ts_prefix ts pref k of (cnt, first) \<Rightarrow> take cnt (drop first (ts_data ts)))"

subsection \<open>Instructions that enumerate rows\<close>

definition act_scan :: "'s cx \<Rightarrow> nat \<Rightarrow> vm_instr \<Rightarrow> 's world \<Rightarrow> 's vm_action option" where
  "act_scan cx dep i w =
     (if dep \<ge> MAX_FRAMES then Some (Error FRAME_LIMIT_ERR w)
      else case feed cx i of
        Some ts \<Rightarrow>
          (if cx_al cx ''execRange.scan'' (ts_count ts * ts_arity ts * 4)
           then Some (Loop OP_SCAN (ts_arity ts) (ts_data ts) 0 (ts_arity ts) None w) else Some (Error (-1) w))
      | None \<Rightarrow>
          (case read_rows cx (w_db w) (int (i_a i)) (i_b i) None 0 of
             None \<Rightarrow> None
           | Some None \<Rightarrow> Some (Stop w)
           | Some (Some (rows, db')) \<Rightarrow> Some (Loop OP_SCAN (i_b i) rows 0 (i_b i) None (w\<lparr>w_db := db'\<rparr>))))"

definition act_lookup :: "'s cx \<Rightarrow> nat \<Rightarrow> vm_instr \<Rightarrow> bindings \<Rightarrow> 's world \<Rightarrow> 's vm_action option" where
  "act_lookup cx dep i b w =
     (if dep \<ge> MAX_FRAMES then Some (Error FRAME_LIMIT_ERR w)
      else let k = i_b i; pref = map (bGet b) (take k (i_slots i)) in
        case feed cx i of
          Some ts \<Rightarrow>
            (let rows = prefix_rows ts pref k in
             if rows = [] then Some (Fail w)
             else if \<not> cx_al cx ''execRange.lookup'' (length rows * ts_arity ts * 4) then Some (Error (-1) w)
             else Some (Loop OP_LOOKUP (ts_arity ts) rows k (ts_arity ts) None w))
        | None \<Rightarrow>
            (case read_rows cx (w_db w) (int (i_a i)) (i_c i) (Some pref) k of
               None \<Rightarrow> None
             | Some None \<Rightarrow> Some (Fail w)
             | Some (Some (rows, db')) \<Rightarrow> Some (Loop OP_LOOKUP (i_c i) rows k (i_c i) None (w\<lparr>w_db := db'\<rparr>))))"

text \<open>The permuted index is read where it stands, stale or not.\<close>

definition act_lookup_perm :: "'s cx \<Rightarrow> nat \<Rightarrow> vm_instr \<Rightarrow> bindings \<Rightarrow> 's world \<Rightarrow> 's vm_action option" where
  "act_lookup_perm cx dep i b w =
     (if dep \<ge> MAX_FRAMES then Some (Error FRAME_LIMIT_ERR w)
      else let perm_id = sint (i_imm i); rel_id = int (i_a i); k = i_b i; ar = i_c i in
        case perm_entry (w_db w) rel_id perm_id of
          None \<Rightarrow> Some (Fail w)
        | Some pe \<Rightarrow>
            (let perm = pe_perm pe; pref = map (\<lambda>j. bGet b (i_slots i ! (perm ! j))) [0..<k] in
             case feed cx i of
               Some ts \<Rightarrow>
                 (let rows = prefix_rows ts pref k in
                  if rows = [] then Some (Fail (set_perm dep None w))
                  else if \<not> cx_al cx ''execRange.lookup_perm'' (length rows * ts_arity ts * 4) then Some (Error (-1) w)
                  else Some (Loop OP_LOOKUP_PERM (ts_arity ts) rows k ar (Some perm) (set_perm dep (Some perm) w)))
             | None \<Rightarrow>
                 (case pe_pidx_rel pe of
                    None \<Rightarrow> Some (Fail (set_perm dep None w))
                  | Some pr \<Rightarrow>
                      (case rel_prefix (cx_en cx) (cx_fs cx) (Some pref) k (tbufCb (cx_al cx) ar) (0, []) pr of
                         None \<Rightarrow> None
                       | Some ((_, _, rows), pr') \<Rightarrow>
                           Some (Loop OP_LOOKUP_PERM ar rows k ar (Some perm)
                             (set_perm dep (Some perm) (w\<lparr>w_db := put_perm perm_id (pe\<lparr>pe_pidx_rel := Some pr'\<rparr>) (w_db w)\<rparr>)))))))"

text \<open>A hash join collects all rows, keeps those that agree with the bound columns, and permutes them.\<close>

fun add_rows :: "allocator \<Rightarrow> tuple list \<Rightarrow> tuple_set \<Rightarrow> tuple_set option" where
  "add_rows al [] ts = Some ts"
| "add_rows al (row # rows) ts = (case ts_add al ts row of None \<Rightarrow> None | Some (_, ts') \<Rightarrow> add_rows al rows ts')"

definition imm_perm :: "u32 \<Rightarrow> nat \<Rightarrow> nat list" where
  "imm_perm imm ar = map (\<lambda>j. unat (drop_bit (3 * j) imm AND 7)) [0..<ar]"

definition row_agrees :: "vm_instr \<Rightarrow> bindings \<Rightarrow> nat list \<Rightarrow> nat \<Rightarrow> tuple \<Rightarrow> bool" where
  "row_agrees i b perm k row \<longleftrightarrow> (\<forall>j < k. bGet b (i_slots i ! (perm ! j)) = row ! (perm ! j))"

definition hash_rows :: "'s cx \<Rightarrow> vm_instr \<Rightarrow> tuple_set \<Rightarrow> dl_db \<Rightarrow> (tuple_set \<times> dl_db) option option" where
  "hash_rows cx i ts0 db =
     (case feed cx i of
        Some ts \<Rightarrow> map_option (\<lambda>ts1. Some (ts1, db)) (add_rows (cx_al cx) (ts_data ts) ts0)
      | None \<Rightarrow>
          (case db_rel_at_arity_ro db (int (i_a i)) (i_c i) of
             None \<Rightarrow> Some None
           | Some r \<Rightarrow>
               (case rel_prefix (cx_en cx) (cx_fs cx) None 0 (ts_sink_cb (cx_al cx)) (Some ts0) r of
                  None \<Rightarrow> None
                | Some ((_, None), _) \<Rightarrow> None
                | Some ((_, Some ts1), r') \<Rightarrow>
                    map_option (\<lambda>ts2. Some (ts2, put_rel (int (i_a i)) (i_c i) r' db)) (ts_sort (cx_al cx) ts1))))"

definition act_hash_join :: "'s cx \<Rightarrow> nat \<Rightarrow> vm_instr \<Rightarrow> bindings \<Rightarrow> 's world \<Rightarrow> 's vm_action option" where
  "act_hash_join cx dep i b w =
     (if dep \<ge> MAX_FRAMES then Some (Error FRAME_LIMIT_ERR w)
      else let k = i_b i; ar = i_c i; w0 = set_perm dep None w; perm = imm_perm (i_imm i) ar in
        case ts_init ar of
          None \<Rightarrow> Some (Error (-1) w0)
        | Some ts0 \<Rightarrow>
            (case hash_rows cx i ts0 (w_db w) of
               None \<Rightarrow> None
             | Some None \<Rightarrow> Some (Fail w0)
             | Some (Some (all_ts, db')) \<Rightarrow>
                 (let w1 = w0\<lparr>w_db := db'\<rparr> in
                  case permute_rows (cx_al cx) perm (filter (row_agrees i b perm k) (ts_data all_ts)) ts0 of
                    None \<Rightarrow> None
                  | Some match_ts \<Rightarrow>
                      if ts_count match_ts = 0 then Some (Fail w1)
                      else (case ts_sort (cx_al cx) match_ts of
                              None \<Rightarrow> None
                            | Some m \<Rightarrow>
                                if \<not> cx_al cx ''execRange.hash_join'' (ts_count m * ar * 4) then Some (Error (-1) w1)
                                else Some (Loop OP_HASH_JOIN ar (ts_data m) k ar (Some perm) (set_perm dep (Some perm) w1))))))"

text \<open>The buffers of a bushy plan: a sub-range fills one, a join reads two.\<close>

definition act_mat_begin :: "nat \<Rightarrow> nat \<Rightarrow> vm_instr \<Rightarrow> 's world \<Rightarrow> 's vm_action" where
  "act_mat_begin hi ip i w =
     (let buf = i_a i; end_ip = unat (i_imm i) in
      if buf \<ge> length (w_pool w) then Stop w
      else if end_ip \<le> ip + 1 \<or> end_ip > hi then Stop w
      else if ts_arity (w_pool w ! buf) = 0 then
        (case ts_init (i_b i) of None \<Rightarrow> Error (-1) w | Some ts \<Rightarrow> Sub end_ip buf (w\<lparr>w_pool := (w_pool w)[buf := ts]\<rparr>))
      else Sub end_ip buf w)"

text \<open>The chained hash table over the right buffer: the heads are one-based row indices, 0 for none, and
  \<open>nxt\<close> leads to the row before it in the same slot, -1 for none.\<close>

function pow2_above :: "nat \<Rightarrow> nat \<Rightarrow> nat" where
  "pow2_above n c = (if 0 < c \<and> c < n then pow2_above n (c * 2) else c)"
  by pat_completeness auto
termination by (relation "measure (\<lambda>(n, c). n - c)") auto

declare pow2_above.simps [simp del]

definition mat_slot :: "nat \<Rightarrow> tuple \<Rightarrow> nat \<Rightarrow> nat" where
  "mat_slot cc row hcap = unat (foldl fnv_u32 FNV_OFFSET (take cc row)) AND (hcap - 1)"

fun mat_chain :: "nat \<Rightarrow> tuple list \<Rightarrow> nat \<Rightarrow> nat list \<times> int list \<Rightarrow> nat list \<times> int list" where
  "mat_chain cc [] i bn = bn"
| "mat_chain cc (row # rows) i (bucket, nxt) =
     (let s = mat_slot cc row (length bucket) in mat_chain cc rows (i + 1) (bucket[s := i + 1], nxt @ [int (bucket ! s) - 1]))"

text \<open>The walk down a chain, at most as many steps as there are rows.\<close>

fun mat_walk :: "nat \<Rightarrow> nat \<Rightarrow> tuple \<Rightarrow> tuple list \<Rightarrow> int list \<Rightarrow> int \<Rightarrow> tuple list option" where
  "mat_walk f cc lrow rrows nxt ri =
     (if ri < 0 then Some []
      else case f of
        0 \<Rightarrow> None
      | Suc f' \<Rightarrow>
          map_option (\<lambda>out. if take cc lrow = take cc (rrows ! nat ri) then (lrow @ drop cc (rrows ! nat ri)) # out else out)
            (mat_walk f' cc lrow rrows nxt (nxt ! nat ri)))"

declare mat_walk.simps [simp del]

definition mat_match :: "nat \<Rightarrow> tuple list \<Rightarrow> nat list \<times> int list \<Rightarrow> tuple \<Rightarrow> tuple list option" where
  "mat_match cc rrows bn lrow =
     mat_walk (length rrows) cc lrow rrows (snd bn) (int (fst bn ! mat_slot cc lrow (length (fst bn))) - 1)"

fun mat_concat :: "(tuple \<Rightarrow> tuple list option) \<Rightarrow> tuple list \<Rightarrow> tuple list option" where
  "mat_concat f [] = Some []"
| "mat_concat f (l # ls) = (case f l of None \<Rightarrow> None | Some xs \<Rightarrow> map_option ((@) xs) (mat_concat f ls))"

text \<open>The doubling output buffer can hold \<open>n\<close> rows.\<close>

function tbuf_room :: "allocator \<Rightarrow> nat \<Rightarrow> nat \<Rightarrow> nat \<Rightarrow> bool" where
  "tbuf_room al ar n cap =
     (if n \<le> cap then True
      else let nc = (if cap \<noteq> 0 then cap * 2 else 1024) in al ''tbufCb'' (nc * ar * 4) \<and> tbuf_room al ar n nc)"
  by pat_completeness auto
termination by (relation "measure (\<lambda>(al, ar, n, cap). n - cap)") auto

declare tbuf_room.simps [simp del]

text \<open>The inner \<open>None\<close> is running out of memory: for the table, the chain or the output.\<close>

definition matJoinBuild :: "allocator \<Rightarrow> tuple_set \<Rightarrow> tuple_set \<Rightarrow> nat \<Rightarrow> tuple list option option" where
  "matJoinBuild al L R cc =
     (let n = ts_count R; hcap = pow2_above (n * 2 + 1) 1; ar = ts_arity L + ts_arity R - cc in
      if \<not> al ''matJoinBuild.bucket'' (hcap * 8) \<or> \<not> al ''matJoinBuild.nxt'' (max n 1 * 8) then Some None
      else case mat_concat (mat_match cc (ts_data R) (mat_chain cc (ts_data R) 0 (replicate hcap 0, []))) (ts_data L) of
        None \<Rightarrow> None
      | Some rows \<Rightarrow> Some (if tbuf_room al ar (length rows) 0 then Some rows else None))"

definition act_mat_join :: "'s cx \<Rightarrow> nat \<Rightarrow> vm_instr \<Rightarrow> 's world \<Rightarrow> 's vm_action option" where
  "act_mat_join cx dep i w =
     (let pool = w_pool w; cc = i_c i in
      if i_a i \<ge> length pool \<or> i_b i \<ge> length pool then Some (Stop w)
      else let L = pool ! i_a i; R = pool ! i_b i; ar = ts_arity L + ts_arity R - cc in
        if ts_arity L = 0 \<or> ts_arity R = 0 then Some (Stop w)
        else if ts_arity L < cc \<or> ts_arity R < cc \<or> ar > MAX_ARITY then Some (Stop w)
        else if dep \<ge> MAX_FRAMES then Some (Error FRAME_LIMIT_ERR w)
        else (case matJoinBuild (cx_al cx) L R cc of
                None \<Rightarrow> None
              | Some None \<Rightarrow> Some (Error (-1) (set_perm dep None w))
              | Some (Some rows) \<Rightarrow> Some (Loop OP_MAT_JOIN ar rows 0 ar None (set_perm dep None w))))"

subsection \<open>Tests and computations\<close>

text \<open>The probe of a negated atom stops at the first row that agrees with the bound columns.\<close>

definition negProbeCb :: "(nat \<times> u32) list \<Rightarrow> bool enum_cb" where
  "negProbeCb bound tup hit = (if \<forall>(j, v) \<in> set bound. tup ! j = v then (1, True) else (0, hit))"

definition act_neg_check :: "'s cx \<Rightarrow> vm_instr \<Rightarrow> bindings \<Rightarrow> 's world \<Rightarrow> 's vm_action option" where
  "act_neg_check cx i b w =
     (let rel_id = int (i_a i); ar = i_b i in
      case db_rel_at_arity_ro (w_db w) rel_id ar of
        None \<Rightarrow> Some (Next b w)
      | Some r \<Rightarrow>
          (let cols = map (bGet b) (take ar (i_slots i));
               is_bound = (\<lambda>j. bOk b (i_slots i ! j));
               bound = map (\<lambda>j. (j, cols ! j)) (filter is_bound [0..<ar]) in
           if length bound = ar then
             (case rel_exact (cx_en cx) (cx_fs cx) cols r of
                None \<Rightarrow> None
              | Some (found, r') \<Rightarrow>
                  (let w' = w\<lparr>w_db := put_rel rel_id ar r' (w_db w)\<rparr> in Some (if found \<noteq> 0 then Fail w' else Next b w')))
           else
             (case rel_prefix (cx_en cx) (cx_fs cx) (Some cols) (length (takeWhile is_bound [0..<ar])) (negProbeCb bound) False r of
                None \<Rightarrow> None
              | Some ((_, hit), r') \<Rightarrow>
                  (let w' = w\<lparr>w_db := put_rel rel_id ar r' (w_db w)\<rparr> in Some (if hit then Fail w' else Next b w')))))"

text \<open>An equation binds the free side; the answer of \<open>bTry\<close> is not looked at there.\<close>

definition bind_or :: "bindings \<Rightarrow> nat \<Rightarrow> u32 \<Rightarrow> bindings" where
  "bind_or b s v = (case bTry b s v of None \<Rightarrow> b | Some b' \<Rightarrow> b')"

definition act_eq :: "vm_instr \<Rightarrow> bindings \<Rightarrow> 's world \<Rightarrow> 's vm_action" where
  "act_eq i b w =
     (let va = i_a i; vb = i_b i in
      if bOk b va \<and> bOk b vb then (if bGet b va \<noteq> bGet b vb then Fail w else Next b w)
      else if bOk b va then Next (bind_or b vb (bGet b va)) w
      else if bOk b vb then Next (bind_or b va (bGet b vb)) w
      else Next b w)"

definition act_eq_const :: "vm_instr \<Rightarrow> bindings \<Rightarrow> 's world \<Rightarrow> 's vm_action" where
  "act_eq_const i b w =
     (if bOk b (i_a i) then (if bGet b (i_a i) \<noteq> i_imm i then Fail w else Next b w)
      else Next (bind_or b (i_a i) (i_imm i)) w)"

definition cmp_holds :: "u32 \<Rightarrow> u32 \<Rightarrow> u32 \<Rightarrow> bool" where
  "cmp_holds op av bv =
     (if op = 0 then av < bv else if op = 1 then av \<le> bv else if op = 2 then av > bv
      else if op = 3 then av \<ge> bv else if op = 4 then av \<noteq> bv else False)"

definition act_cmp :: "vm_instr \<Rightarrow> bindings \<Rightarrow> 's world \<Rightarrow> 's vm_action" where
  "act_cmp i b w = (if cmp_holds (i_imm i) (bGet b (i_a i)) (bGet b (i_b i)) then Next b w else Fail w)"

definition arith :: "u32 \<Rightarrow> u32 \<Rightarrow> u32 \<Rightarrow> u32 option" where
  "arith op av bv =
     (if op = 0 then Some (av + bv) else if op = 1 then Some (av - bv) else if op = 2 then Some (av * bv)
      else if op = 3 then (if bv = 0 then None else Some (av div bv))
      else if op = 4 then (if bv = 0 then None else Some (av mod bv)) else None)"

text \<open>A result is bound or compared; no result fails.\<close>

definition bind_result :: "bindings \<Rightarrow> nat \<Rightarrow> u32 option \<Rightarrow> 's world \<Rightarrow> 's vm_action" where
  "bind_result b s v w = (case v of None \<Rightarrow> Fail w | Some x \<Rightarrow> (case bTry b s x of None \<Rightarrow> Fail w | Some b' \<Rightarrow> Next b' w))"

definition act_arith :: "vm_instr \<Rightarrow> bindings \<Rightarrow> 's world \<Rightarrow> 's vm_action" where
  "act_arith i b w = bind_result b (i_c i) (arith (i_imm i) (bGet b (i_a i)) (bGet b (i_b i))) w"

subsection \<open>Lists\<close>

text \<open>A missing term store answers 0, and no value is a list of it.\<close>

definition is_list :: "dl_db \<Rightarrow> u32 \<Rightarrow> bool" where
  "is_list db v = (case db_terms db of None \<Rightarrow> False | Some t \<Rightarrow> term_is_list t v)"

definition car_of :: "dl_db \<Rightarrow> u32 \<Rightarrow> u32" where
  "car_of db v = (case db_terms db of None \<Rightarrow> 0 | Some t \<Rightarrow> term_car t v)"

definition cdr_of :: "dl_db \<Rightarrow> u32 \<Rightarrow> u32" where
  "cdr_of db v = (case db_terms db of None \<Rightarrow> 0 | Some t \<Rightarrow> term_cdr t v)"

definition with_terms :: "(termstore \<Rightarrow> (u32 \<times> termstore) option) \<Rightarrow> 's world \<Rightarrow> (u32 \<times> 's world) option" where
  "with_terms f w =
     (case db_terms (w_db w) of
        None \<Rightarrow> Some (0, w)
      | Some t \<Rightarrow> map_option (\<lambda>(h, t'). (h, w\<lparr>w_db := (w_db w)\<lparr>db_terms := Some t'\<rparr>\<rparr>)) (f t))"

definition act_list_cons :: "'s cx \<Rightarrow> vm_instr \<Rightarrow> bindings \<Rightarrow> 's world \<Rightarrow> 's vm_action option" where
  "act_list_cons cx i b w =
     map_option (\<lambda>(h, w'). bind_result b (i_a i) (if h = 0 then None else Some h) w')
       (with_terms (\<lambda>t. term_cons (cx_al cx) t (bGet b (i_b i)) (bGet b (i_c i))) w)"

definition act_list_append :: "'s cx \<Rightarrow> vm_instr \<Rightarrow> bindings \<Rightarrow> 's world \<Rightarrow> 's vm_action option" where
  "act_list_append cx i b w =
     map_option (\<lambda>(h, w'). bind_result b (i_c i) (if h = 0 then None else Some h) w')
       (with_terms (\<lambda>t. term_append (cx_al cx) t (bGet b (i_a i)) (bGet b (i_b i))) w)"

definition act_list_part :: "(dl_db \<Rightarrow> u32 \<Rightarrow> u32) \<Rightarrow> vm_instr \<Rightarrow> bindings \<Rightarrow> 's world \<Rightarrow> 's vm_action" where
  "act_list_part part i b w =
     (let v = bGet b (i_a i) in
      bind_result b (i_c i) (if is_list (w_db w) v \<and> v \<noteq> TERM_NIL then Some (part (w_db w) v) else None) w)"

text \<open>The elements of a list, at most as many as there are cells; the walk ends where the cell is no list or the empty list.\<close>

fun list_elems :: "nat \<Rightarrow> dl_db \<Rightarrow> u32 \<Rightarrow> u32 list option" where
  "list_elems f db cur =
     (if \<not> (is_list db cur \<and> cur \<noteq> TERM_NIL) then Some []
      else case f of 0 \<Rightarrow> None | Suc f' \<Rightarrow> map_option ((#) (car_of db cur)) (list_elems f' db (cdr_of db cur)))"

declare list_elems.simps [simp del]

text \<open>The test for a bound element stops at the first cell that has it.\<close>

fun list_has :: "nat \<Rightarrow> dl_db \<Rightarrow> u32 \<Rightarrow> u32 \<Rightarrow> bool option" where
  "list_has f db x cur =
     (if \<not> (is_list db cur \<and> cur \<noteq> TERM_NIL) then Some False
      else if car_of db cur = x then Some True
      else case f of 0 \<Rightarrow> None | Suc f' \<Rightarrow> list_has f' db x (cdr_of db cur))"

declare list_has.simps [simp del]

definition n_cells :: "dl_db \<Rightarrow> nat" where
  "n_cells db = (case db_terms db of None \<Rightarrow> 0 | Some t \<Rightarrow> term_node_count t)"

definition act_list_member :: "'s cx \<Rightarrow> nat \<Rightarrow> vm_instr \<Rightarrow> bindings \<Rightarrow> 's world \<Rightarrow> 's vm_action option" where
  "act_list_member cx dep i b w =
     (let lv = bGet b (i_a i); n = n_cells (w_db w) in
      if \<not> bOk b (i_a i) \<or> \<not> is_list (w_db w) lv then Some (Fail w)
      else if bOk b (i_b i) then
        map_option (\<lambda>found. if found then Next b w else Fail w) (list_has n (w_db w) (bGet b (i_b i)) lv)
      else if dep \<ge> MAX_FRAMES then Some (Error FRAME_LIMIT_ERR w)
      else map_option (\<lambda>xs.
             if cx_al cx ''execRange.member'' (max 1 (length xs) * 4)
             then Loop OP_LIST_MEMBER 1 (map (\<lambda>x. [x]) xs) 0 1 None (set_perm dep None w)
             else Error (-1) (set_perm dep None w)) (list_elems n (w_db w) lv))"

subsection \<open>Results\<close>

text \<open>The caller's callback: the answer is whether it stops the run.\<close>

definition call_back :: "'s cx \<Rightarrow> tuple \<Rightarrow> 's world \<Rightarrow> bool \<times> 's world" where
  "call_back cx cols w = (case cx_cb cx of
     None \<Rightarrow> (False, w) | Some cb \<Rightarrow> (case cb cols (w_user w) of (rc, u) \<Rightarrow> (rc \<noteq> 0, w\<lparr>w_user := u\<rparr>)))"

definition count_up :: "'s world \<Rightarrow> 's world" where
  "count_up w = w\<lparr>w_rc := w_rc w + 1\<rparr>"

text \<open>One derived tuple: handed out in a dry run, added to the head relation otherwise; the answer is whether the run stops.\<close>

definition derive :: "'s cx \<Rightarrow> int \<Rightarrow> nat \<Rightarrow> tuple \<Rightarrow> relation \<Rightarrow> 's world \<Rightarrow> bool \<times> 's world" where
  "derive cx rel_id ar cols r w =
     (if cx_dry cx then call_back cx cols (count_up w)
      else case rel_add (cx_en cx) (cx_fs cx) cols r of (rr, r') \<Rightarrow>
        (let w' = w\<lparr>w_db := put_rel rel_id ar r' (w_db w)\<rparr> in
         if rr < 0 then (True, w') else if rr = 1 then call_back cx cols (count_up w') else (False, w')))"

definition act_project :: "'s cx \<Rightarrow> nat option \<Rightarrow> vm_instr \<Rightarrow> bindings \<Rightarrow> 's world \<Rightarrow> 's vm_action option" where
  "act_project cx cap i b w =
     (let slots = take (i_b i) (i_slots i); cols = map (bGet b) slots in
      case cap of
        Some buf \<Rightarrow>
          (case ts_add (cx_al cx) (w_pool w ! buf) cols of
             None \<Rightarrow> None
           | Some (rc, ts) \<Rightarrow>
               (let w' = w\<lparr>w_pool := (w_pool w)[buf := ts]\<rparr> in Some (if rc < 0 then Stop w' else Fail (count_up w'))))
      | None \<Rightarrow>
          (case db_rel_at_arity_rw (cx_en cx) (cx_al cx) (w_db w) (int (i_a i)) (i_b i) of (r, db') \<Rightarrow>
             (let w' = w\<lparr>w_db := db'\<rparr> in
              case r of
                None \<Rightarrow> Some (Stop w')
              | Some r1 \<Rightarrow>
                  if NO_SLOT \<in> set slots then Some (Stop w')
                  else (case derive cx (int (i_a i)) (i_b i) cols r1 w' of (stop, w1) \<Rightarrow> Some (if stop then Stop w1 else Fail w1)))))"

text \<open>One row of an aggregate; without the accumulator the code has no defined answer.\<close>

definition act_agg_acc :: "'s cx \<Rightarrow> bindings \<Rightarrow> 's world \<Rightarrow> 's vm_action option" where
  "act_agg_acc cx b w =
     (case w_acc w of
        None \<Rightarrow> None
      | Some ac \<Rightarrow>
          (let slots = take (aa_n_key ac) (aa_group_slots ac) in
           if \<exists>s \<in> set slots. \<not> bOk b s then Some (Fail w)
           else case agg_acc (cx_al cx) (map (bGet b) slots) (bGet b (aa_src_slot ac)) ac of
             None \<Rightarrow> None
           | Some (okay, ac') \<Rightarrow> (let w' = w\<lparr>w_acc := Some ac'\<rparr> in Some (if okay then Fail w' else Stop w'))))"

subsection \<open>The switch\<close>

definition vm_action :: "'s cx \<Rightarrow> nat \<Rightarrow> nat option \<Rightarrow> nat \<Rightarrow> nat \<Rightarrow> bindings \<Rightarrow> 's world \<Rightarrow> 's vm_action option" where
  "vm_action cx hi cap ip dep b w =
     (let i = cx_code cx ! ip in
      case opcode_of i of
        None \<Rightarrow> Some (Stop w)
      | Some op \<Rightarrow> (case op of
          OP_HALT \<Rightarrow> Some (Stop w)
        | OP_SCAN \<Rightarrow> act_scan cx dep i w
        | OP_LOOKUP \<Rightarrow> act_lookup cx dep i b w
        | OP_LOOKUP_PERM \<Rightarrow> act_lookup_perm cx dep i b w
        | OP_HASH_JOIN \<Rightarrow> act_hash_join cx dep i b w
        | OP_MAT_BEGIN \<Rightarrow> Some (act_mat_begin hi ip i w)
        | OP_MAT_JOIN \<Rightarrow> act_mat_join cx dep i w
        | OP_NEG_CHECK \<Rightarrow> act_neg_check cx i b w
        | OP_EQ \<Rightarrow> Some (act_eq i b w)
        | OP_EQ_CONST \<Rightarrow> Some (act_eq_const i b w)
        | OP_CMP \<Rightarrow> Some (act_cmp i b w)
        | OP_ARITH \<Rightarrow> Some (act_arith i b w)
        | OP_LIST_CONS \<Rightarrow> act_list_cons cx i b w
        | OP_LIST_CAR \<Rightarrow> Some (act_list_part car_of i b w)
        | OP_LIST_CDR \<Rightarrow> Some (act_list_part cdr_of i b w)
        | OP_LIST_APPEND \<Rightarrow> act_list_append cx i b w
        | OP_LIST_MEMBER \<Rightarrow> act_list_member cx dep i b w
        | OP_PROJECT \<Rightarrow> act_project cx cap i b w
        | OP_AGG_ACC \<Rightarrow> act_agg_acc cx b w
        | OP_AGG_EMIT \<Rightarrow> Some (Next b w)
        | OP_OPEN_REL \<Rightarrow> Some (Stop w)
        | OP_WALK \<Rightarrow> cx_other cx i dep b w
        | OP_STR_FILTER \<Rightarrow> cx_other cx i dep b w
        | OP_STR_LEN \<Rightarrow> cx_other cx i dep b w
        | OP_STR_BIND \<Rightarrow> cx_other cx i dep b w
        | OP_RANGE \<Rightarrow> cx_other cx i dep b w))"

subsection \<open>Starting and ending a run\<close>

text \<open>The last accumulation and the last emission of the range; with both, an accumulator is set up.\<close>

definition last_op :: "vm_opcode \<Rightarrow> vm_instr list \<Rightarrow> nat \<Rightarrow> nat \<Rightarrow> nat option" where
  "last_op op code lo hi = find (\<lambda>k. opcode_of (code ! k) = Some op) (rev [lo..<hi])"

definition agg_setup :: "'s cx \<Rightarrow> nat \<Rightarrow> nat \<Rightarrow> agg_accum option option" where
  "agg_setup cx lo hi =
     (case (last_op OP_AGG_ACC (cx_code cx) lo hi, last_op OP_AGG_EMIT (cx_code cx) lo hi) of
        (Some a, Some e) \<Rightarrow>
          (let ai = cx_code cx ! a; ei = cx_code cx ! e in
           map_option (\<lambda>ac. Some (ac\<lparr>aa_n_key := i_a ai, aa_op := i_b ai, aa_res_slot := i_c ai,
             aa_group_slots := take (i_a ai) (i_slots ai), aa_src_slot := i_slots ai ! i_a ai,
             aa_head_rel_id := i_a ei, aa_head_arity := i_b ei, aa_head_slots := take (i_b ei) (i_slots ei)\<rparr>))
             (aggInit (cx_al cx)))
      | _ \<Rightarrow> Some None)"

text \<open>The emission: every group in the order of the table until a callback stops it.\<close>

fun agg_finish :: "'s cx \<Rightarrow> agg_accum \<Rightarrow> tuple list \<Rightarrow> 's world \<Rightarrow> 's world" where
  "agg_finish cx ac [] w = w"
| "agg_finish cx ac (cols # rest) w =
     (if cx_dry cx then (case call_back cx cols (count_up w) of (stop, w') \<Rightarrow> if stop then w' else agg_finish cx ac rest w')
      else case db_rel_at_arity_rw (cx_en cx) (cx_al cx) (w_db w) (int (aa_head_rel_id ac)) (aa_head_arity ac) of
        (None, db') \<Rightarrow> agg_finish cx ac rest (w\<lparr>w_db := db'\<rparr>)
      | (Some r, db') \<Rightarrow>
          (case derive cx (int (aa_head_rel_id ac)) (aa_head_arity ac) cols r (w\<lparr>w_db := db'\<rparr>) of
             (stop, w') \<Rightarrow> if stop then w' else agg_finish cx ac rest w'))"

definition run_finish :: "'s cx \<Rightarrow> 's world \<Rightarrow> 's world" where
  "run_finish cx w = (case w_acc w of None \<Rightarrow> w | Some ac \<Rightarrow> agg_finish cx ac (agg_emitted ac) w)"

text \<open>A run on a range starts with no frame, no accumulator and a count of 0; database, pool and the caller's
  state are shared with the run around it.\<close>

definition run_world :: "agg_accum option \<Rightarrow> 's world \<Rightarrow> 's world" where
  "run_world acc w = w\<lparr>w_perms := replicate MAX_FRAMES None, w_acc := acc, w_rc := 0\<rparr>"

definition back_to :: "'s world \<Rightarrow> 's world \<Rightarrow> 's world" where
  "back_to w w' = w'\<lparr>w_perms := w_perms w, w_acc := w_acc w, w_rc := w_rc w\<rparr>"

datatype 's outcome = Finished "'s world" | Failed int "'s world"

text \<open>What a run answers: a failure's code, or the count of its tuples.\<close>

definition run_result :: "'s cx \<Rightarrow> 's outcome \<Rightarrow> int \<times> 's world" where
  "run_result cx out = (case out of Finished w \<Rightarrow> (let w' = run_finish cx w in (int (w_rc w'), w')) | Failed rc w \<Rightarrow> (rc, w))"

subsection \<open>The interpreter\<close>

record 's vm =
  v_ip :: nat
  v_b :: bindings
  v_frames :: "vm_frame list"
  v_w :: "'s world"

text \<open>The state after a backtrack; without a frame that goes on, control is at the end of the range.\<close>

definition after_fail :: "'s cx \<Rightarrow> nat \<Rightarrow> bindings \<Rightarrow> vm_frame list \<Rightarrow> 's world \<Rightarrow> 's vm" where
  "after_fail cx hi b frames w =
     (case backtrack (cx_code cx) (w_perms w) frames of
        None \<Rightarrow> \<lparr>v_ip = hi, v_b = b, v_frames = [], v_w = w\<rparr>
      | Some (ip, b', frames') \<Rightarrow> \<lparr>v_ip = ip, v_b = b', v_frames = frames', v_w = w\<rparr>)"

text \<open>Entering a loop: the frame is pushed at its first row that agrees, or the instruction fails; the two
  permuted loops then clear the frame slot.\<close>

definition no_row :: "vm_opcode \<Rightarrow> nat \<Rightarrow> 's world \<Rightarrow> 's world" where
  "no_row op dep w = (if op = OP_LOOKUP_PERM \<or> op = OP_HASH_JOIN then set_perm dep None w else w)"

definition push_frame :: "'s cx \<Rightarrow> nat \<Rightarrow> nat \<Rightarrow> bindings \<Rightarrow> vm_frame list \<Rightarrow> vm_opcode \<Rightarrow> nat \<Rightarrow> tuple list \<Rightarrow> nat \<Rightarrow> nat \<Rightarrow>
    nat list option \<Rightarrow> 's world \<Rightarrow> 's vm" where
  "push_frame cx hi ip b frames op tar rows sc ar perm w =
     (case seekValidPerm \<lparr>f_ip = ip, f_op = op, f_tuples = rows, f_arity = tar, f_idx = 0, f_saved = b\<rparr> (cx_code cx ! ip) sc ar perm of
        Some (f, b') \<Rightarrow> \<lparr>v_ip = ip + 1, v_b = b', v_frames = f # frames, v_w = w\<rparr>
      | None \<Rightarrow> after_fail cx hi b frames (no_row op (length frames) w))"

partial_function (option) exec_loop :: "'s cx \<Rightarrow> nat \<Rightarrow> nat option \<Rightarrow> 's vm \<Rightarrow> 's outcome option" where
  "exec_loop cx hi cap st =
     (if hi \<le> v_ip st then Some (Finished (v_w st))
      else Option.bind (vm_action cx hi cap (v_ip st) (length (v_frames st)) (v_b st) (v_w st)) (\<lambda>act. case act of
          Stop w \<Rightarrow> Some (Finished w)
        | Fail w \<Rightarrow> exec_loop cx hi cap (after_fail cx hi (v_b st) (v_frames st) w)
        | Next b w \<Rightarrow> exec_loop cx hi cap (st\<lparr>v_ip := v_ip st + 1, v_b := b, v_w := w\<rparr>)
        | Loop op tar rows sc ar perm w \<Rightarrow>
            exec_loop cx hi cap (push_frame cx hi (v_ip st) (v_b st) (v_frames st) op tar rows sc ar perm w)
        | Sub end_ip buf w \<Rightarrow>
            (if end_ip \<le> v_ip st + 1 \<or> hi < end_ip then Some (Finished w)
             else case agg_setup cx (v_ip st + 1) end_ip of
               None \<Rightarrow> Some (Failed (-1) w)
             | Some acc \<Rightarrow>
                 Option.bind (exec_loop cx end_ip (Some buf) \<lparr>v_ip = v_ip st + 1, v_b = bInit, v_frames = [], v_w = run_world acc w\<rparr>) (\<lambda>out.
                   case run_result cx out of (rc, w') \<Rightarrow>
                     if rc < 0 then Some (Failed rc (back_to w w'))
                     else exec_loop cx hi cap (st\<lparr>v_ip := end_ip, v_w := back_to w w'\<rparr>)))
        | Error rc w \<Rightarrow> Some (Failed rc w)))"

text \<open>A rule: one pool buffer for every materialisation it has.\<close>

definition execRange :: "'s cx \<Rightarrow> nat \<Rightarrow> nat \<Rightarrow> nat option \<Rightarrow> 's world \<Rightarrow> (int \<times> 's world) option" where
  "execRange cx lo hi cap w =
     (case agg_setup cx lo hi of
        None \<Rightarrow> Some (-1, w)
      | Some acc \<Rightarrow> map_option (run_result cx) (exec_loop cx hi cap \<lparr>v_ip = lo, v_b = bInit, v_frames = [], v_w = run_world acc w\<rparr>))"

definition no_buffer :: tuple_set where
  "no_buffer = \<lparr>ts_data = [], ts_cap = 0, ts_arity = 0, ts_htab = [], ts_hused = 0\<rparr>"

definition n_mat :: "vm_instr list \<Rightarrow> nat" where
  "n_mat code = length (filter (\<lambda>i. opcode_of i = Some OP_MAT_BEGIN) code)"

definition execRule :: "'s cx \<Rightarrow> dl_db \<Rightarrow> 's \<Rightarrow> (int \<times> 's world) option" where
  "execRule cx db user =
     (let n = n_mat (cx_code cx);
          w = \<lparr>w_db = db, w_perms = replicate MAX_FRAMES None, w_pool = replicate n no_buffer, w_acc = None, w_rc = 0, w_user = user\<rparr> in
      if n > 0 \<and> \<not> cx_al cx ''execRule.pool'' (n * 48) then Some (-1, w)
      else execRange cx 0 (length (cx_code cx)) None w)"

subsection \<open>Nested loops\<close>

text \<open>How a part of the body ends: all its rows are done, the whole run ends, or it fails.\<close>

datatype status = Exhausted | Ended | Err int

fun first_row :: "(tuple \<Rightarrow> bindings option) \<Rightarrow> tuple list \<Rightarrow> (bindings \<times> tuple list) option" where
  "first_row f [] = None"
| "first_row f (row # rows) = (case f row of Some b \<Rightarrow> Some (b, rows) | None \<Rightarrow> first_row f rows)"

fun each_row :: "('s world \<Rightarrow> tuple \<Rightarrow> bindings option) \<Rightarrow> (bindings \<Rightarrow> 's world \<Rightarrow> (status \<times> 's world) option) \<Rightarrow> tuple list \<Rightarrow> 's world \<Rightarrow>
    (status \<times> 's world) option" where
  "each_row f body [] w = Some (Exhausted, w)"
| "each_row f body (row # rows) w =
     (case f w row of
        None \<Rightarrow> each_row f body rows w
      | Some b \<Rightarrow> Option.bind (body b w) (\<lambda>(st, w'). if st = Exhausted then each_row f body rows w' else Some (st, w')))"

text \<open>The rows of an instruction: the first that agrees with its bound prefix, then the others, which are
  read through the permutation the frame slot holds at that time.\<close>

definition loop_rows :: "vm_instr \<Rightarrow> nat \<Rightarrow> bindings \<Rightarrow> vm_opcode \<Rightarrow> nat \<Rightarrow> tuple list \<Rightarrow> nat \<Rightarrow> nat \<Rightarrow> nat list option \<Rightarrow>
    (bindings \<Rightarrow> 's world \<Rightarrow> (status \<times> 's world) option) \<Rightarrow> 's world \<Rightarrow> (status \<times> 's world) option" where
  "loop_rows i dep b op tar rows sc ar perm body w =
     (case first_row (\<lambda>row. bindRowPerm i row sc ar perm b) rows of
        None \<Rightarrow> Some (Exhausted, no_row op dep w)
      | Some (b', rest) \<Rightarrow>
          Option.bind (body b' w) (\<lambda>(st, w').
            if st = Exhausted then each_row (\<lambda>w row. bindRowPerm i row (resume_col op i) tar (w_perms w ! dep) b) body rest w'
            else Some (st, w')))"

function nest :: "'s cx \<Rightarrow> nat \<Rightarrow> nat option \<Rightarrow> nat \<Rightarrow> nat \<Rightarrow> bindings \<Rightarrow> 's world \<Rightarrow> (status \<times> 's world) option" where
  "nest cx hi cap ip dep b w =
     (if hi \<le> ip then Some (Ended, w)
      else case vm_action cx hi cap ip dep b w of
        None \<Rightarrow> None
      | Some (Stop w1) \<Rightarrow> Some (Ended, w1)
      | Some (Fail w1) \<Rightarrow> Some (Exhausted, w1)
      | Some (Next b1 w1) \<Rightarrow> nest cx hi cap (Suc ip) dep b1 w1
      | Some (Loop op tar rows sc ar perm w1) \<Rightarrow>
          loop_rows (cx_code cx ! ip) dep b op tar rows sc ar perm (\<lambda>b w. nest cx hi cap (Suc ip) (Suc dep) b w) w1
      | Some (Sub end_ip buf w1) \<Rightarrow>
          (if end_ip \<le> Suc ip \<or> hi < end_ip then Some (Ended, w1)
           else case agg_setup cx (Suc ip) end_ip of
             None \<Rightarrow> Some (Err (-1), w1)
           | Some acc \<Rightarrow>
               (case nest cx end_ip (Some buf) (Suc ip) 0 bInit (run_world acc w1) of
                  None \<Rightarrow> None
                | Some (st, w2) \<Rightarrow>
                    (case run_result cx (case st of Err rc \<Rightarrow> Failed rc w2 | _ \<Rightarrow> Finished w2) of (rc, w3) \<Rightarrow>
                       if rc < 0 then Some (Err rc, back_to w1 w3) else nest cx hi cap end_ip dep b (back_to w1 w3))))
      | Some (Error rc w1) \<Rightarrow> Some (Err rc, w1))"
  by pat_completeness auto
termination by (relation "measure (\<lambda>(cx, hi, cap, ip, dep, b, w). hi - ip)") auto

declare nest.simps [simp del]

subsection \<open>The stack machine evaluates nested loops\<close>

definition resume :: "'s cx \<Rightarrow> nat \<Rightarrow> nat option \<Rightarrow> vm_frame list \<Rightarrow> 's world \<Rightarrow> 's outcome option" where
  "resume cx hi cap frames w =
     (case backtrack (cx_code cx) (w_perms w) frames of
        None \<Rightarrow> Some (Finished w)
      | Some (ip, b, frames') \<Rightarrow> exec_loop cx hi cap \<lparr>v_ip = ip, v_b = b, v_frames = frames', v_w = w\<rparr>)"

definition fin :: "'s cx \<Rightarrow> nat \<Rightarrow> nat option \<Rightarrow> vm_frame list \<Rightarrow> status \<times> 's world \<Rightarrow> 's outcome option" where
  "fin cx hi cap frames r = (case r of (st, w) \<Rightarrow> (case st of
     Ended \<Rightarrow> Some (Finished w) | Err rc \<Rightarrow> Some (Failed rc w) | Exhausted \<Rightarrow> resume cx hi cap frames w))"

lemma fin_simps [simp]:
  "fin cx hi cap frames (Ended, w) = Some (Finished w)" "fin cx hi cap frames (Err rc, w) = Some (Failed rc w)"
  "fin cx hi cap frames (Exhausted, w) = resume cx hi cap frames w"
  by (simp_all add: fin_def)

lemma exec_end: "exec_loop cx hi cap \<lparr>v_ip = hi, v_b = b, v_frames = frames, v_w = w\<rparr> = Some (Finished w)"
  by (simp add: exec_loop.simps)

lemma exec_after_fail: "exec_loop cx hi cap (after_fail cx hi b frames w) = resume cx hi cap frames w"
  by (simp add: after_fail_def resume_def exec_end split: option.split prod.split)

lemma seek_none: "first_row (\<lambda>row. bindRowPerm i row sc ar perm saved) rows = None \<Longrightarrow> seek_rows i sc ar perm saved rows idx = None"
  by (induction rows arbitrary: idx) (auto split: option.splits)

lemma seek_some:
  "first_row (\<lambda>row. bindRowPerm i row sc ar perm saved) rows = Some (b, rest) \<Longrightarrow>
     \<exists>k < length rows. seek_rows i sc ar perm saved rows idx = Some (idx + k, b) \<and> drop (Suc k) rows = rest"
proof (induction rows arbitrary: idx)
  case (Cons row rows)
  show ?case
  proof (cases "bindRowPerm i row sc ar perm saved")
    case None
    then obtain k where "k < length rows" "seek_rows i sc ar perm saved rows (Suc idx) = Some (Suc idx + k, b)" "drop (Suc k) rows = rest"
      using Cons.IH [of "Suc idx"] Cons.prems by auto
    then show ?thesis using None by (intro exI [of _ "Suc k"]) simp
  qed (use Cons.prems in auto)
qed simp

text \<open>Going on in the topmost frame is going on with its remaining rows, then with the frames below.\<close>

lemma resume_rows:
  assumes body: "\<And>b frames w. exec_loop cx hi cap \<lparr>v_ip = Suc ip, v_b = b, v_frames = frames, v_w = w\<rparr> =
      Option.bind (nest cx hi cap (Suc ip) (length frames) b w) (fin cx hi cap frames)"
  shows "resume cx hi cap (\<lparr>f_ip = ip, f_op = op, f_tuples = rows, f_arity = tar, f_idx = idx, f_saved = saved\<rparr> # frames) w =
    Option.bind (each_row (\<lambda>w row. bindRowPerm (cx_code cx ! ip) row (resume_col op (cx_code cx ! ip)) tar (w_perms w ! length frames) saved)
      (\<lambda>b w. nest cx hi cap (Suc ip) (Suc (length frames)) b w) (drop (Suc idx) rows) w) (fin cx hi cap frames)"
proof (induction "drop (Suc idx) rows" arbitrary: idx w)
  case Nil
  then have d: "drop (Suc idx) rows = []" by simp
  then show ?case by (simp add: resume_def seekValidPerm_def Let_def)
next
  case (Cons row rest)
  let ?i = "cx_code cx ! ip" and ?f = "\<lambda>idx. \<lparr>f_ip = ip, f_op = op, f_tuples = rows, f_arity = tar, f_idx = idx, f_saved = saved\<rparr>"
  have d: "drop (Suc idx) rows = row # rest" "drop (Suc (Suc idx)) rows = rest"
    using Cons.hyps(2) by (simp, metis drop_Suc list.sel(3) tl_drop)
  note IH = Cons.hyps(1) [OF d(2) [symmetric]]
  show ?case
  proof (cases "bindRowPerm ?i row (resume_col op ?i) tar (w_perms w ! length frames) saved")
    case None
    have "backtrack (cx_code cx) (w_perms w) (?f idx # frames) = backtrack (cx_code cx) (w_perms w) (?f (Suc idx) # frames)"
      using None d by (simp add: seekValidPerm_def Let_def split: option.split)
    then show ?thesis using IH [of w] None d by (simp add: resume_def)
  next
    case (Some b)
    have "backtrack (cx_code cx) (w_perms w) (?f idx # frames) = Some (Suc ip, b, ?f (Suc idx) # frames)"
      using Some d by (simp add: seekValidPerm_def Let_def)
    then have "resume cx hi cap (?f idx # frames) w =
        Option.bind (nest cx hi cap (Suc ip) (Suc (length frames)) b w) (fin cx hi cap (?f (Suc idx) # frames))"
      using body [of b "?f (Suc idx) # frames" w] by (simp add: resume_def)
    also have "\<dots> = Option.bind (nest cx hi cap (Suc ip) (Suc (length frames)) b w) (\<lambda>(st, w').
        if st = Exhausted then resume cx hi cap (?f (Suc idx) # frames) w' else fin cx hi cap frames (st, w'))"
      by (rule arg_cong [where f = "Option.bind _"]) (auto simp: fin_def fun_eq_iff split: status.split)
    finally show ?thesis using Some d IH by (simp add: bind_assoc split_def if_distrib [of "\<lambda>x. Option.bind x _"] cong: if_cong)
  qed
qed

text \<open>The interpreter from any state, against the nested loops with the frames that are live.\<close>

lemma exec_nest:
  "exec_loop cx hi cap \<lparr>v_ip = ip, v_b = b, v_frames = frames, v_w = w\<rparr> =
     Option.bind (nest cx hi cap ip (length frames) b w) (fin cx hi cap frames)"
proof (induction "hi - ip" arbitrary: hi cap ip b frames w rule: less_induct)
  case less
  show ?case
  proof (cases "hi \<le> ip")
    case True
    then show ?thesis by (simp add: exec_loop.simps nest.simps)
  next
    case False
    have next_ip: "exec_loop cx hi cap \<lparr>v_ip = Suc ip, v_b = b, v_frames = frames, v_w = w\<rparr> =
        Option.bind (nest cx hi cap (Suc ip) (length frames) b w) (fin cx hi cap frames)" for b frames w
      by (rule less [of hi "Suc ip"]) (use False in simp)
    show ?thesis
    proof (cases "vm_action cx hi cap ip (length frames) b w")
      case None
      then show ?thesis using False by (simp add: exec_loop.simps nest.simps)
    next
      case (Some act)
      note unfolded = exec_loop.simps [of cx hi cap "\<lparr>v_ip = ip, v_b = b, v_frames = frames, v_w = w\<rparr>"] nest.simps [of cx hi cap ip]
      show ?thesis
      proof (cases act)
        case (Loop op tar rows sc ar perm w1)
        let ?i = "cx_code cx ! ip"
        let ?f = "\<lambda>idx. \<lparr>f_ip = ip, f_op = op, f_tuples = rows, f_arity = tar, f_idx = idx, f_saved = b\<rparr>"
        have push: "exec_loop cx hi cap (push_frame cx hi ip b frames op tar rows sc ar perm w1) =
            Option.bind (loop_rows ?i (length frames) b op tar rows sc ar perm (\<lambda>b w. nest cx hi cap (Suc ip) (Suc (length frames)) b w) w1)
              (fin cx hi cap frames)"
        proof (cases "first_row (\<lambda>row. bindRowPerm ?i row sc ar perm b) rows")
          case None
          then show ?thesis
            using seek_none [OF None, of 0] by (simp add: push_frame_def seekValidPerm_def loop_rows_def exec_after_fail)
        next
          case first: (Some br)
          obtain b' rest where br: "br = (b', rest)" by (cases br)
          obtain k where k: "seek_rows ?i sc ar perm b rows 0 = Some (k, b')" "drop (Suc k) rows = rest"
            using seek_some [of ?i sc ar perm b rows b' rest 0] first br by auto
          have "exec_loop cx hi cap (push_frame cx hi ip b frames op tar rows sc ar perm w1) =
              Option.bind (nest cx hi cap (Suc ip) (Suc (length frames)) b' w1) (fin cx hi cap (?f k # frames))"
            using next_ip [of b' "?f k # frames" w1] k(1) by (simp add: push_frame_def seekValidPerm_def)
          also have "\<dots> = Option.bind (nest cx hi cap (Suc ip) (Suc (length frames)) b' w1) (\<lambda>(st, w').
              if st = Exhausted then resume cx hi cap (?f k # frames) w' else fin cx hi cap frames (st, w'))"
            by (rule arg_cong [where f = "Option.bind _"]) (auto simp: fin_def fun_eq_iff split: status.split)
          finally show ?thesis
            using first br k(2) resume_rows [OF next_ip, of op rows tar k b frames]
            by (simp add: loop_rows_def bind_assoc split_def if_distrib [of "\<lambda>x. Option.bind x _"] cong: if_cong)
        qed
        show ?thesis using Some Loop False push by (simp add: unfolded)
      next
        case (Sub end_ip buf w1)
        show ?thesis
        proof (cases "end_ip \<le> Suc ip \<or> hi < end_ip")
          case True
          then show ?thesis using Some Sub False by (simp add: unfolded)
        next
          case inside: False
          show ?thesis
          proof (cases "agg_setup cx (Suc ip) end_ip")
            case None
            then show ?thesis using Some Sub False inside by (simp add: unfolded)
          next
            case acc: (Some acc)
            have sub: "exec_loop cx end_ip (Some buf) \<lparr>v_ip = Suc ip, v_b = bInit, v_frames = [], v_w = run_world acc w1\<rparr> =
                Option.bind (nest cx end_ip (Some buf) (Suc ip) (length ([] :: vm_frame list)) bInit (run_world acc w1)) (fin cx end_ip (Some buf) [])"
              by (rule less [of end_ip "Suc ip"]) (use False inside in arith)
            have rest: "exec_loop cx hi cap \<lparr>v_ip = end_ip, v_b = b, v_frames = frames, v_w = w\<rparr> =
                Option.bind (nest cx hi cap end_ip (length frames) b w) (fin cx hi cap frames)" for w
              by (rule less [of hi end_ip]) (use False inside in arith)
            have top: "fin cx end_ip (Some buf) [] (st, w2) = Some (case st of Err rc \<Rightarrow> Failed rc w2 | _ \<Rightarrow> Finished w2)" for st w2
              by (cases st) (simp_all add: resume_def)
            show ?thesis
              using Some Sub False inside acc sub rest
              by (cases "nest cx end_ip (Some buf) (Suc ip) 0 bInit (run_world acc w1)")
                (auto simp: unfolded top split: prod.split)
          qed
        qed
      qed (use Some False next_ip in \<open>simp_all add: unfolded exec_after_fail\<close>)
    qed
  qed
qed

subsection \<open>The frame limit\<close>

definition loop_ops :: "vm_opcode set" where
  "loop_ops = {OP_SCAN, OP_LOOKUP, OP_LOOKUP_PERM, OP_HASH_JOIN, OP_MAT_JOIN, OP_LIST_MEMBER, OP_WALK, OP_RANGE}"

definition is_loop :: "vm_instr \<Rightarrow> bool" where
  "is_loop i \<longleftrightarrow> (\<exists>op \<in> loop_ops. opcode_of i = Some op)"

definition n_loops :: "vm_instr list \<Rightarrow> nat \<Rightarrow> nat \<Rightarrow> nat" where
  "n_loops code lo hi = length (filter (\<lambda>k. is_loop (code ! k)) [lo..<hi])"

text \<open>An action at depth \<open>dep\<close> enters a loop only from a loop instruction and with a free frame slot, and
  reports the limit only without one.\<close>

definition frame_fits :: "vm_instr \<Rightarrow> nat \<Rightarrow> 's vm_action option \<Rightarrow> bool" where
  "frame_fits i dep act \<longleftrightarrow> (case act of
     Some (Loop op tar rows sc ar perm w) \<Rightarrow> is_loop i \<and> dep < MAX_FRAMES
   | Some (Error rc w) \<Rightarrow> rc = FRAME_LIMIT_ERR \<longrightarrow> is_loop i \<and> MAX_FRAMES \<le> dep
   | _ \<Rightarrow> True)"

text \<open>Code without the instructions that are parameters of the model: walks, integer ranges and the three
  string instructions.\<close>

definition modelled_code :: "vm_instr list \<Rightarrow> bool" where
  "modelled_code code \<longleftrightarrow> (\<forall>i \<in> set code. \<forall>op \<in> {OP_WALK, OP_RANGE, OP_STR_FILTER, OP_STR_LEN, OP_STR_BIND}. opcode_of i \<noteq> Some op)"

lemma frame_fits_simps [simp]:
  "frame_fits i dep None" "frame_fits i dep (Some (Stop w))" "frame_fits i dep (Some (Fail w))" "frame_fits i dep (Some (Next b w))"
  "frame_fits i dep (Some (Sub e buf w))" "frame_fits i dep (Some (Error (-1) w))"
  "frame_fits i dep (Some (Loop op tar rows sc ar perm w)) \<longleftrightarrow> is_loop i \<and> dep < MAX_FRAMES"
  "frame_fits i dep (Some (Error FRAME_LIMIT_ERR w)) \<longleftrightarrow> is_loop i \<and> MAX_FRAMES \<le> dep"
  by (simp_all add: frame_fits_def FRAME_LIMIT_ERR_def)

lemma bind_result_fits [simp]: "frame_fits i dep (Some (bind_result b s v w))"
  by (simp add: bind_result_def split: option.split)

lemma loop_acts_fit:
  assumes "is_loop i"
  shows "frame_fits i dep (act_scan cx dep i w)" "frame_fits i dep (act_lookup cx dep i b w)" "frame_fits i dep (act_lookup_perm cx dep i b w)"
    "frame_fits i dep (act_hash_join cx dep i b w)" "frame_fits i dep (act_mat_join cx dep i w)" "frame_fits i dep (act_list_member cx dep i b w)"
  using assms
  by (auto simp: act_scan_def act_lookup_def act_lookup_perm_def act_hash_join_def act_mat_join_def act_list_member_def Let_def map_option_case
      split: option.split prod.split)

lemma plain_acts_fit:
  "frame_fits i dep (Some (act_mat_begin hi ip i w))" "frame_fits i dep (act_neg_check cx i b w)" "frame_fits i dep (Some (act_eq i b w))"
  "frame_fits i dep (Some (act_eq_const i b w))" "frame_fits i dep (Some (act_cmp i b w))" "frame_fits i dep (Some (act_arith i b w))"
  "frame_fits i dep (act_list_cons cx i b w)" "frame_fits i dep (Some (act_list_part p i b w))" "frame_fits i dep (act_list_append cx i b w)"
  "frame_fits i dep (act_project cx cap i b w)" "frame_fits i dep (act_agg_acc cx b w)"
  by (auto simp: act_mat_begin_def act_neg_check_def act_eq_def act_eq_const_def act_cmp_def act_arith_def act_list_cons_def act_list_part_def
      act_list_append_def act_project_def act_agg_acc_def Let_def map_option_case split: option.split prod.split)

lemma vm_action_fits:
  assumes "modelled_code (cx_code cx)" "ip < length (cx_code cx)"
  shows "frame_fits (cx_code cx ! ip) dep (vm_action cx hi cap ip dep b w)"
proof (cases "opcode_of (cx_code cx ! ip)")
  case None
  then show ?thesis by (simp add: vm_action_def Let_def)
next
  case (Some op)
  have loop: "op \<in> loop_ops \<Longrightarrow> is_loop (cx_code cx ! ip)" using Some by (auto simp: is_loop_def)
  have "op \<notin> {OP_WALK, OP_RANGE, OP_STR_FILTER, OP_STR_LEN, OP_STR_BIND}"
    using assms Some unfolding modelled_code_def by (metis nth_mem)
  then show ?thesis
    using Some loop loop_acts_fit [of "cx_code cx ! ip"] plain_acts_fit [of "cx_code cx ! ip"]
    by (cases op) (simp_all add: vm_action_def loop_ops_def)
qed

lemma each_row_err:
  assumes "\<And>b w st w'. body b w = Some (st, w') \<Longrightarrow> st \<noteq> Err rc"
  shows "each_row f body rows w = Some (st, w') \<Longrightarrow> st \<noteq> Err rc"
proof (induction rows arbitrary: w)
  case (Cons row rows)
  then show ?case using assms by (auto split: option.splits if_splits simp: bind_eq_Some_conv)
qed auto

lemma loop_rows_err:
  assumes "\<And>b w st w'. body b w = Some (st, w') \<Longrightarrow> st \<noteq> Err rc" "loop_rows i dep b op tar rows sc ar perm body w = Some (st, w')"
  shows "st \<noteq> Err rc"
proof (cases "first_row (\<lambda>row. bindRowPerm i row sc ar perm b) rows")
  case None
  then show ?thesis using assms(2) by (auto simp: loop_rows_def)
next
  case (Some br)
  obtain b' rest where br: "br = (b', rest)" by (cases br)
  let ?f = "\<lambda>w row. bindRowPerm i row (resume_col op i) tar (w_perms w ! dep) b"
  obtain st1 w1 where r: "body b' w = Some (st1, w1)" "(if st1 = Exhausted then each_row ?f body rest w1 else Some (st1, w1)) = Some (st, w')"
    using assms(2) Some br by (auto simp: loop_rows_def bind_eq_Some_conv)
  have "st1 \<noteq> Err rc" by (rule assms(1) [OF r(1)])
  moreover have "st \<noteq> Err rc" if "each_row ?f body rest w1 = Some (st, w')" by (rule each_row_err [OF assms(1) that])
  ultimately show ?thesis using r(2) by (auto split: if_splits)
qed

lemma n_loops_step: "ip < hi \<Longrightarrow> n_loops code ip hi = (if is_loop (code ! ip) then 1 else 0) + n_loops code (Suc ip) hi"
  by (simp add: n_loops_def upt_conv_Cons)

lemma n_loops_mono: "lo \<le> lo' \<Longrightarrow> hi' \<le> hi \<Longrightarrow> n_loops code lo' hi' \<le> n_loops code lo hi"
proof -
  assume "lo \<le> lo'" "hi' \<le> hi"
  then have "set (filter (\<lambda>k. is_loop (code ! k)) [lo'..<hi']) \<subseteq> set (filter (\<lambda>k. is_loop (code ! k)) [lo..<hi])" by auto
  then have "card (set (filter (\<lambda>k. is_loop (code ! k)) [lo'..<hi'])) \<le> card (set (filter (\<lambda>k. is_loop (code ! k)) [lo..<hi]))"
    by (intro card_mono) simp_all
  then show ?thesis by (simp only: n_loops_def distinct_card [OF distinct_filter [OF distinct_upt]])
qed

lemma nest_no_frame_error:
  assumes "modelled_code (cx_code cx)"
  shows "dep + n_loops (cx_code cx) ip hi \<le> MAX_FRAMES \<Longrightarrow> hi \<le> length (cx_code cx) \<Longrightarrow> nest cx hi cap ip dep b w = Some (st, w') \<Longrightarrow> st \<noteq> Err FRAME_LIMIT_ERR"
proof (induction "hi - ip" arbitrary: hi cap ip dep b w st w' rule: less_induct)
  case less
  show ?case
  proof (cases "hi \<le> ip")
    case True
    then show ?thesis using less.prems(3) by (auto simp: nest.simps)
  next
    case False
    then have in_range: "ip < hi" by simp
    have smaller: "hi - Suc ip < hi - ip" using in_range by arith
    note step = n_loops_step [OF in_range, of "cx_code cx"]
    have fits: "frame_fits (cx_code cx ! ip) dep (vm_action cx hi cap ip dep b w)" by (rule vm_action_fits [OF assms]) (use in_range less.prems(2) in simp)
    show ?thesis
    proof (cases "vm_action cx hi cap ip dep b w")
      case None
      then show ?thesis using less.prems(3) False by (simp add: nest.simps)
    next
      case (Some act)
      show ?thesis
      proof (cases act)
        case (Next b1 w1)
        then have "nest cx hi cap (Suc ip) dep b1 w1 = Some (st, w')" using less.prems(3) Some False by (simp add: nest.simps [of cx hi cap ip])
        moreover have "dep + n_loops (cx_code cx) (Suc ip) hi \<le> MAX_FRAMES" using less.prems(1) step by simp
        ultimately show ?thesis using less.hyps [OF smaller _ less.prems(2)] by blast
      next
        case (Loop op tar rows sc ar perm w1)
        then have loop: "is_loop (cx_code cx ! ip)" using fits Some by simp
        then have "Suc dep + n_loops (cx_code cx) (Suc ip) hi \<le> MAX_FRAMES" using less.prems(1) step by simp
        note deeper = this
        have body: "nest cx hi cap (Suc ip) (Suc dep) b w = Some (st, w') \<Longrightarrow> st \<noteq> Err FRAME_LIMIT_ERR" for b w st w'
          by (rule less.hyps [OF smaller deeper less.prems(2)])
        have rows: "loop_rows (cx_code cx ! ip) dep b op tar rows sc ar perm (\<lambda>b w. nest cx hi cap (Suc ip) (Suc dep) b w) w1 = Some (st, w')"
          using less.prems(3) Some Loop False by (simp add: nest.simps [of cx hi cap ip])
        show ?thesis by (rule loop_rows_err [OF body rows])
      next
        case (Sub end_ip buf w1)
        show ?thesis
        proof (cases "end_ip \<le> Suc ip \<or> hi < end_ip")
          case True
          then show ?thesis using less.prems(3) Some Sub False by (simp add: nest.simps [of cx hi cap ip])
        next
          case inside: False
          show ?thesis
          proof (cases "agg_setup cx (Suc ip) end_ip")
            case None
            then show ?thesis using less.prems(3) Some Sub False inside by (auto simp: nest.simps [of cx hi cap ip] FRAME_LIMIT_ERR_def)
          next
            case acc: (Some acc)
            have n: "dep + n_loops (cx_code cx) end_ip hi \<le> MAX_FRAMES" "0 + n_loops (cx_code cx) (Suc ip) end_ip \<le> MAX_FRAMES"
              using less.prems(1) n_loops_mono [of ip end_ip hi hi "cx_code cx"] n_loops_mono [of ip "Suc ip" end_ip hi "cx_code cx"] inside by simp_all
            have m: "hi - end_ip < hi - ip" "end_ip - Suc ip < hi - ip" using inside in_range by arith+
            have later: "nest cx hi cap end_ip dep b w = Some (st, w') \<Longrightarrow> st \<noteq> Err FRAME_LIMIT_ERR" for w
              by (rule less.hyps [OF m(1) n(1) less.prems(2)])
            have sub: "nest cx end_ip (Some buf) (Suc ip) 0 bInit (run_world acc w1) = Some (st, w') \<Longrightarrow> st \<noteq> Err FRAME_LIMIT_ERR" for st w'
              by (rule less.hyps [OF m(2) n(2)]) (use inside less.prems(2) in simp)
            show ?thesis
              using less.prems(3) Some Sub False inside acc later sub
              by (auto simp: nest.simps [of cx hi cap ip] run_result_def Let_def split: option.splits prod.splits status.splits if_splits)
          qed
        qed
      qed (use less.prems Some False fits step in \<open>auto simp: nest.simps [of cx hi cap ip] frame_fits_def\<close>)
    qed
  qed
qed

subsection \<open>Properties\<close>

text \<open>A rule evaluated as nested loops: what the stack machine is compared with.\<close>

definition nested_range :: "'s cx \<Rightarrow> nat \<Rightarrow> nat \<Rightarrow> nat option \<Rightarrow> 's world \<Rightarrow> (int \<times> 's world) option" where
  "nested_range cx lo hi cap w =
     (case agg_setup cx lo hi of
        None \<Rightarrow> Some (-1, w)
      | Some acc \<Rightarrow>
          map_option (\<lambda>(st, w'). run_result cx (case st of Err rc \<Rightarrow> Failed rc w' | _ \<Rightarrow> Finished w'))
            (nest cx hi cap lo 0 bInit (run_world acc w)))"

definition rule_world :: "'s cx \<Rightarrow> dl_db \<Rightarrow> 's \<Rightarrow> 's world" where
  "rule_world cx db user =
     \<lparr>w_db = db, w_perms = replicate MAX_FRAMES None, w_pool = replicate (n_mat (cx_code cx)) no_buffer, w_acc = None, w_rc = 0, w_user = user\<rparr>"

definition nested_rule :: "'s cx \<Rightarrow> dl_db \<Rightarrow> 's \<Rightarrow> (int \<times> 's world) option" where
  "nested_rule cx db user =
     (if n_mat (cx_code cx) > 0 \<and> \<not> cx_al cx ''execRule.pool'' (n_mat (cx_code cx) * 48) then Some (-1, rule_world cx db user)
      else nested_range cx 0 (length (cx_code cx)) None (rule_world cx db user))"

lemma execRange_nested: "execRange cx lo hi cap w = nested_range cx lo hi cap w"
proof (cases "agg_setup cx lo hi")
  case None
  then show ?thesis by (simp add: execRange_def nested_range_def)
next
  case (Some acc)
  have "fin cx hi cap [] (st, w') = Some (case st of Err rc \<Rightarrow> Failed rc w' | _ \<Rightarrow> Finished w')" for st w'
    by (cases st) (simp_all add: resume_def)
  then show ?thesis
    using Some exec_nest [of cx hi cap lo bInit "[]" "run_world acc w"]
    by (cases "nest cx hi cap lo 0 bInit (run_world acc w)") (auto simp: execRange_def nested_range_def)
qed

lemma execRule_nested: "execRule cx db user = nested_rule cx db user"
  by (simp add: execRule_def nested_rule_def rule_world_def execRange_nested Let_def)

text \<open>C14: the interpreter, with its stack of frames, its backtracking and its materialised sub-ranges, answers
  for every rule, database, substituted row source and callback exactly what evaluating the body as
  nested loops answers: the same result code, the same tuples in the same order, the same database.\<close>

theorem interpreter_nested_loops: "execRule cx db user = nested_rule cx db user"
  by (rule execRule_nested)

text \<open>C27: in code without walks, integer ranges and string instructions (these five instructions are
  parameters of the model, the other twenty-one are modelled) no instruction enters a loop when all
  eight frame slots are in use, and a rule with at most eight loop instructions never ends with the
  frame-limit error, whatever it reads and whatever the callback does.\<close>

theorem frame_limit_respected:
  assumes "modelled_code (cx_code cx)"
  shows "(\<forall>hi cap ip dep b w op tar rows sc ar perm w1. ip < length (cx_code cx) \<and>
      vm_action cx hi cap ip dep b w = Some (Loop op tar rows sc ar perm w1) \<longrightarrow> dep < MAX_FRAMES) \<and>
    (n_loops (cx_code cx) 0 (length (cx_code cx)) \<le> MAX_FRAMES \<longrightarrow>
      (\<forall>rc w. execRule cx db user = Some (rc, w) \<longrightarrow> rc \<noteq> FRAME_LIMIT_ERR))"
proof (intro conjI allI impI)
  fix hi cap ip dep b op tar rows sc ar perm and w w1 :: "'a world"
  assume "ip < length (cx_code cx) \<and> vm_action cx hi cap ip dep b w = Some (Loop op tar rows sc ar perm w1)"
  then show "dep < MAX_FRAMES" using vm_action_fits [OF assms, of ip dep hi cap b w] by simp
next
  fix rc w assume n: "n_loops (cx_code cx) 0 (length (cx_code cx)) \<le> MAX_FRAMES" and r: "execRule cx db user = Some (rc, w)"
  have "nest cx (length (cx_code cx)) None 0 0 b w = Some (st, w') \<Longrightarrow> st \<noteq> Err FRAME_LIMIT_ERR" for b w st w'
    using nest_no_frame_error [OF assms, where dep = 0 and ip = 0 and hi = "length (cx_code cx)"] n by simp
  note no_err = this
  have code: "rc \<noteq> FRAME_LIMIT_ERR"
    if "run_result cx (case st of Err rc \<Rightarrow> Failed rc x | _ \<Rightarrow> Finished x) = (rc, w)" "st \<noteq> Err FRAME_LIMIT_ERR" for st x
    using that by (cases st) (auto simp: run_result_def Let_def FRAME_LIMIT_ERR_def)
  show "rc \<noteq> FRAME_LIMIT_ERR"
  proof (cases "agg_setup cx 0 (length (cx_code cx))")
    case None
    then show ?thesis using r by (auto simp: execRule_nested nested_rule_def nested_range_def FRAME_LIMIT_ERR_def split: if_splits)
  next
    case (Some acc)
    show ?thesis
    proof (cases "nest cx (length (cx_code cx)) None 0 0 bInit (run_world acc (rule_world cx db user))")
      case None
      then show ?thesis using r Some by (auto simp: execRule_nested nested_rule_def nested_range_def FRAME_LIMIT_ERR_def split: if_splits)
    next
      case n: (Some res)
      obtain st w1 where res: "res = (st, w1)" by (cases res)
      have "st \<noteq> Err FRAME_LIMIT_ERR" using no_err n res by blast
      then show ?thesis using r Some n res code [where st = st and x = w1]
        by (auto simp: execRule_nested nested_rule_def nested_range_def FRAME_LIMIT_ERR_def split: if_splits)
    qed
  qed
qed

text \<open>The rule \<open>q(X, Y) :- q(X, Y)\<close> with two substituted rows for its body literal, run dry.\<close>

definition scan_cx :: "tuple list cx" where
  "scan_cx = \<lparr>cx_en = trie_engine, cx_al = \<lambda>_ _. True, cx_fs = no_files,
     cx_code = [\<lparr>i_op = 1, i_a = 0, i_b = 2, i_c = 0, i_imm = 0, i_slots = [0, 1, 0, 0, 0, 0, 0, 0], i_body_idx = 0\<rparr>,
       \<lparr>i_op = 5, i_a = 0, i_b = 2, i_c = 0, i_imm = 0, i_slots = [0, 1, 0, 0, 0, 0, 0, 0], i_body_idx = 0\<rparr>],
     cx_ov = [\<lparr>ov_body_idx = 0, ov_ts = Some \<lparr>ts_data = [[5, 2], [7, 7]], ts_cap = 2, ts_arity = 2, ts_htab = [], ts_hused = 0\<rparr>, ov_perm_id = -1\<rparr>],
     cx_dry = True, cx_cb = Some (\<lambda>t ts. (0, ts @ [t])), cx_other = \<lambda>i dep b w. None\<rparr>"

lemma scan_code:
  "cx_code scan_cx ! 0 = \<lparr>i_op = 1, i_a = 0, i_b = 2, i_c = 0, i_imm = 0, i_slots = [0, 1, 0, 0, 0, 0, 0, 0], i_body_idx = 0\<rparr>"
  "cx_code scan_cx ! Suc 0 = \<lparr>i_op = 5, i_a = 0, i_b = 2, i_c = 0, i_imm = 0, i_slots = [0, 1, 0, 0, 0, 0, 0, 0], i_body_idx = 0\<rparr>"
  "length (cx_code scan_cx) = 2"
  by (simp_all add: scan_cx_def)

lemma scan_code_modelled: "modelled_code (cx_code scan_cx)" "n_loops (cx_code scan_cx) 0 2 = 1"
proof -
  show "modelled_code (cx_code scan_cx)" by (simp add: modelled_code_def scan_cx_def opcode_of_def opcodes_def)
  have "[0 :: nat..<2] = [0, Suc 0]" by (simp add: upt_rec numeral_2_eq_2)
  then show "n_loops (cx_code scan_cx) 0 2 = 1"
    by (simp add: n_loops_def scan_code is_loop_def loop_ops_def opcode_of_def opcodes_def)
qed

definition row_bound :: "u32 \<Rightarrow> u32 \<Rightarrow> bindings" where
  "row_bound x y = bInit[0 := Some x, Suc 0 := Some y]"

lemma row_bound: "bindRowPerm (cx_code scan_cx ! 0) [x, y] 0 2 None bInit = Some (row_bound x y)" "map (bGet (row_bound x y)) [0, 1] = [x, y]"
  by (simp_all add: bindRowPerm_def scan_code upt_rec numeral_2_eq_2 NO_SLOT_def bTry_def bInit_def MAX_VARS_def row_bound_def bGet_def)

lemma scan_body:
  assumes "w_db w = one_rel_db"
  shows "nest scan_cx 2 None (Suc 0) 1 (row_bound x y) w = Some (Exhausted, w\<lparr>w_rc := w_rc w + 1, w_user := w_user w @ [[x, y]]\<rparr>)"
proof -
  have p: "db_rel_at_arity_rw trie_engine (\<lambda>_ _. True) one_rel_db 0 2 = (Some fresh2, one_rel_db)"
    by (simp add: db_rel_at_arity_rw_def entry_at_def one_rel_db_def db_entry_variant_rw_def put_entry_def RELK_FIXED_def RELK_VARIADIC_def)
  let ?i = "cx_code scan_cx ! Suc 0"
  have f: "i_a ?i = 0" "i_b ?i = 2" "take 2 (i_slots ?i) = [0, 1]" "NO_SLOT \<notin> set [0, 1]"
    by (simp_all add: scan_code numeral_2_eq_2 NO_SLOT_def)
  have c: "cx_en scan_cx = trie_engine" "cx_al scan_cx = (\<lambda>_ _. True)" by (simp_all add: scan_cx_def)
  have ops: "opcode_of (cx_code scan_cx ! Suc 0) = Some OP_PROJECT" by (simp add: scan_code opcode_of_def opcodes_def)
  have d: "derive scan_cx 0 2 [x, y] fresh2 w = (False, w\<lparr>w_rc := w_rc w + 1, w_user := w_user w @ [[x, y]]\<rparr>)"
    by (simp add: derive_def call_back_def count_up_def scan_cx_def)
  have w: "w\<lparr>w_db := one_rel_db\<rparr> = w" using assms by simp
  have "act_project scan_cx None (cx_code scan_cx ! Suc 0) (row_bound x y) w = Some (Fail (w\<lparr>w_rc := w_rc w + 1, w_user := w_user w @ [[x, y]]\<rparr>))"
    unfolding act_project_def Let_def f row_bound(2) c assms option.case
    using p d w f(4) by (simp only: f row_bound(2) of_nat_0 prod.case option.case if_False) simp
  then show ?thesis by (simp add: nest.simps [of _ _ _ "Suc 0"] vm_action_def ops)
qed

text \<open>The run enters its loop and answers both rows; its code has no instruction that is left out.\<close>

lemma scan_runs: "\<exists>w. execRule scan_cx one_rel_db [] = Some (2, w) \<and> w_user w = [[5, 2], [7, 7]]"
proof -
  let ?w = "rule_world scan_cx one_rel_db []"
  have ops: "opcode_of (cx_code scan_cx ! 0) = Some OP_SCAN" "opcode_of (cx_code scan_cx ! Suc 0) = Some OP_PROJECT"
    by (simp_all add: scan_code opcode_of_def opcodes_def)
  have m: "n_mat (cx_code scan_cx) = 0" by (simp add: n_mat_def scan_cx_def opcode_of_def opcodes_def)
  have agg: "agg_setup scan_cx 0 2 = Some None" by (simp add: agg_setup_def last_op_def ops numeral_2_eq_2)
  have w: "run_world None ?w = ?w" "w_db ?w = one_rel_db" "w_user ?w = []" "w_rc ?w = 0" "w_perms ?w ! 0 = None"
    by (simp_all add: run_world_def rule_world_def MAX_FRAMES_def)
  have a: "act_scan scan_cx 0 (cx_code scan_cx ! 0) ?w = Some (Loop OP_SCAN 2 [[5, 2], [7, 7]] 0 2 None ?w)"
    by (simp add: act_scan_def feed_def scan_code MAX_FRAMES_def) (simp add: scan_cx_def ts_count_def)
  have "nest scan_cx 2 None 0 0 bInit ?w = Some (Exhausted, ?w\<lparr>w_rc := 2, w_user := [[5, 2], [7, 7]]\<rparr>)"
    using a w row_bound(1) scan_body
    by (simp add: nest.simps [of _ _ _ 0] vm_action_def ops loop_rows_def resume_col_def)
  then show ?thesis
    using w(1) by (simp add: execRule_nested nested_rule_def nested_range_def m scan_code(3) agg run_result_def run_finish_def rule_world_def)
qed

theorem frame_limit_respected_witness:
  "\<exists>w. execRule scan_cx one_rel_db [] = Some (2, w) \<and> n_loops (cx_code scan_cx) 0 2 = 1 \<and> (2 :: int) \<noteq> FRAME_LIMIT_ERR"
proof -
  have n: "n_loops (cx_code scan_cx) 0 (length (cx_code scan_cx)) \<le> MAX_FRAMES"
    by (simp add: scan_code(3) scan_code_modelled(2) MAX_FRAMES_def)
  obtain w where w: "execRule scan_cx one_rel_db [] = Some (2, w)" using scan_runs by blast
  then have "(2 :: int) \<noteq> FRAME_LIMIT_ERR" using frame_limit_respected [OF scan_code_modelled(1), of one_rel_db "[]"] n by blast
  then show ?thesis using w scan_code_modelled(2) by blast
qed

end
