(* ===== verification/VmSem.thy ===== *)
theory VmSem
  imports Vm
begin

text \<open>
  What a compiled rule means, and that the interpreter computes it (\<^verbatim>\<open>src/vm.h\<close>, \<^verbatim>\<open>vm_exec_rule\<close> in a dry run).
  An instruction of a rule body is a condition on a valuation of the rule's variables: a row of its
  relation (or of the tuple set that overrides it) that agrees with the valuation, an equation, a
  comparison, or the absence of a row.  The rule derives the head under every valuation that
  satisfies all of them.  The theorem says that a dry run hands out exactly these tuples.

  It is about the instructions for scans and lookups from the leading columns, negated atoms, equations,
  comparisons and arithmetic, in an order in which every variable has a value when it is needed.
\<close>

subsection \<open>Valuations\<close>

definition slot :: "vm_instr \<Rightarrow> nat \<Rightarrow> nat" where
  "slot i j = i_slots i ! j"

text \<open>A row agrees with a valuation on the columns that name a variable.\<close>

definition agrees :: "vm_instr \<Rightarrow> nat \<Rightarrow> (nat \<Rightarrow> u32) \<Rightarrow> tuple \<Rightarrow> bool" where
  "agrees i ar \<sigma> row \<longleftrightarrow> (\<forall>j < ar. slot i j \<noteq> NO_SLOT \<longrightarrow> row ! j = \<sigma> (slot i j))"

type_synonym fact_base = "int \<Rightarrow> tuple set"

text \<open>The facts of one arity, and the rows an atom reads: the override when it has rows.\<close>

definition facts_of :: "fact_base \<Rightarrow> nat \<Rightarrow> nat \<Rightarrow> tuple set" where
  "facts_of G rel_id ar = {t \<in> G (int rel_id). length t = ar}"

definition source :: "'s cx \<Rightarrow> fact_base \<Rightarrow> vm_instr \<Rightarrow> nat \<Rightarrow> tuple set" where
  "source cx G i ar = (case feed cx i of Some ts \<Rightarrow> ts_rows ts | None \<Rightarrow> facts_of G (i_a i) ar)"

text \<open>The condition of an instruction; a negated atom looks at the variables that have a value, those in \<open>B\<close>.\<close>

definition holds :: "'s cx \<Rightarrow> fact_base \<Rightarrow> nat set \<Rightarrow> vm_instr \<Rightarrow> (nat \<Rightarrow> u32) \<Rightarrow> bool" where
  "holds cx G B i \<sigma> =
     (case opcode_of i of
        Some OP_SCAN \<Rightarrow> \<exists>row \<in> source cx G i (i_b i). agrees i (i_b i) \<sigma> row
      | Some OP_LOOKUP \<Rightarrow> \<exists>row \<in> source cx G i (i_c i). agrees i (i_c i) \<sigma> row
      | Some OP_NEG_CHECK \<Rightarrow> \<not> (\<exists>row \<in> facts_of G (i_a i) (i_b i). \<forall>j < i_b i. slot i j \<in> B \<longrightarrow> row ! j = \<sigma> (slot i j))
      | Some OP_EQ \<Rightarrow> \<sigma> (i_a i) = \<sigma> (i_b i)
      | Some OP_EQ_CONST \<Rightarrow> \<sigma> (i_a i) = i_imm i
      | Some OP_CMP \<Rightarrow> cmp_holds (i_imm i) (\<sigma> (i_a i)) (\<sigma> (i_b i))
      | Some OP_ARITH \<Rightarrow> arith (i_imm i) (\<sigma> (i_a i)) (\<sigma> (i_b i)) = Some (\<sigma> (i_c i))
      | _ \<Rightarrow> False)"

definition col_slots :: "vm_instr \<Rightarrow> nat \<Rightarrow> nat set" where
  "col_slots i ar = {slot i j | j. j < ar \<and> slot i j \<noteq> NO_SLOT}"

text \<open>The variables with a value after an instruction.\<close>

definition binds :: "nat set \<Rightarrow> vm_instr \<Rightarrow> nat set" where
  "binds B i =
     (case opcode_of i of
        Some OP_SCAN \<Rightarrow> B \<union> col_slots i (i_b i)
      | Some OP_LOOKUP \<Rightarrow> B \<union> col_slots i (i_c i)
      | Some OP_EQ \<Rightarrow> B \<union> {i_a i, i_b i}
      | Some OP_EQ_CONST \<Rightarrow> B \<union> {i_a i}
      | Some OP_ARITH \<Rightarrow> B \<union> {i_c i}
      | _ \<Rightarrow> B)"

text \<open>The tuples a body derives under a valuation: the head, when every instruction before it holds.\<close>

fun derives :: "'s cx \<Rightarrow> fact_base \<Rightarrow> nat set \<Rightarrow> vm_instr list \<Rightarrow> (nat \<Rightarrow> u32) \<Rightarrow> tuple set" where
  "derives cx G B [] \<sigma> = {}"
| "derives cx G B (i # is) \<sigma> =
     (if opcode_of i = Some OP_PROJECT then {map \<sigma> (take (i_b i) (i_slots i))}
      else if holds cx G B i \<sigma> then derives cx G (binds B i) is \<sigma> else {})"

subsection \<open>Rules in order\<close>

text \<open>The relation and its arity are there for the head.\<close>

definition head_there :: "dl_db \<Rightarrow> nat \<Rightarrow> nat \<Rightarrow> bool" where
  "head_there db rel_id ar \<longleftrightarrow>
     rel_id < length (db_rels db) \<and> re_kind (db_rels db ! rel_id) = RELK_FIXED \<and> re_arity (db_rels db ! rel_id) = ar"

definition cols_fit :: "vm_instr \<Rightarrow> nat \<Rightarrow> bool" where
  "cols_fit i ar \<longleftrightarrow> ar \<le> MAX_ARITY \<and> length (i_slots i) = MAX_ARITY \<and> (\<forall>j < ar. slot i j = NO_SLOT \<or> slot i j < MAX_VARS)"

text \<open>An override is a set of the atom's arity, sorted where it is searched.\<close>

definition feed_fits :: "'s cx \<Rightarrow> vm_instr \<Rightarrow> nat \<Rightarrow> bool \<Rightarrow> bool" where
  "feed_fits cx i ar need \<longleftrightarrow>
     (\<forall>ts. feed cx i = Some ts \<longrightarrow> ts_inv ts \<and> ts_arity ts = ar \<and> (need \<longrightarrow> sorted_wrt (<) (ts_data ts)))"

definition in_order :: "'s cx \<Rightarrow> dl_db \<Rightarrow> nat set \<Rightarrow> vm_instr \<Rightarrow> bool" where
  "in_order cx db B i =
     (case opcode_of i of
        Some OP_SCAN \<Rightarrow> cols_fit i (i_b i) \<and> feed_fits cx i (i_b i) False
      | Some OP_LOOKUP \<Rightarrow> cols_fit i (i_c i) \<and> feed_fits cx i (i_c i) True \<and> i_b i \<le> i_c i \<and> (\<forall>j < i_b i. slot i j \<in> B)
      | Some OP_NEG_CHECK \<Rightarrow> i_b i \<le> MAX_ARITY \<and> length (i_slots i) = MAX_ARITY
      | Some OP_EQ \<Rightarrow> i_a i < MAX_VARS \<and> i_b i < MAX_VARS \<and> (i_a i \<in> B \<or> i_b i \<in> B)
      | Some OP_EQ_CONST \<Rightarrow> i_a i < MAX_VARS
      | Some OP_CMP \<Rightarrow> i_a i \<in> B \<and> i_b i \<in> B
      | Some OP_ARITH \<Rightarrow> i_a i \<in> B \<and> i_b i \<in> B \<and> i_c i < MAX_VARS
      | Some OP_PROJECT \<Rightarrow> i_b i \<le> MAX_ARITY \<and> set (take (i_b i) (i_slots i)) \<subseteq> B \<and> head_there db (i_a i) (i_b i)
      | Some OP_HALT \<Rightarrow> True
      | _ \<Rightarrow> False)"

fun code_in_order :: "'s cx \<Rightarrow> dl_db \<Rightarrow> nat set \<Rightarrow> vm_instr list \<Rightarrow> bool" where
  "code_in_order cx db B [] = True"
| "code_in_order cx db B (i # is) = (in_order cx db B i \<and> code_in_order cx db (binds B i) is)"

subsection \<open>Bindings and valuations\<close>

definition extends :: "bindings \<Rightarrow> (nat \<Rightarrow> u32) \<Rightarrow> bool" where
  "extends b \<sigma> \<longleftrightarrow> (\<forall>s < MAX_VARS. \<forall>v. b ! s = Some v \<longrightarrow> \<sigma> s = v)"

text \<open>The variables with a value are those in \<open>B\<close>.\<close>

definition bound_to :: "nat set \<Rightarrow> bindings \<Rightarrow> bool" where
  "bound_to B b \<longleftrightarrow> length b = MAX_VARS \<and> (\<forall>s. s \<in> B \<longleftrightarrow> s < MAX_VARS \<and> b ! s \<noteq> None)"

lemma bOk_bound: "bound_to B b \<Longrightarrow> bOk b s \<longleftrightarrow> s \<in> B"
  by (simp add: bOk_def bound_to_def)

lemma bGet_extends: "bound_to B b \<Longrightarrow> extends b \<sigma> \<Longrightarrow> s \<in> B \<Longrightarrow> bGet b s = \<sigma> s"
  by (auto simp: bGet_def bound_to_def extends_def)

lemma bInit_ok: "bound_to {} bInit" "extends bInit \<sigma>"
  by (simp_all add: bound_to_def bInit_def extends_def)

text \<open>Some valuation extends the bindings.\<close>

lemma extends_exists: "extends b (bGet b)"
  by (simp add: extends_def bGet_def)

lemma bTry_ok:
  assumes "bound_to B b" "s < MAX_VARS"
  shows "bTry b s v = None \<Longrightarrow> extends b \<sigma> \<Longrightarrow> \<sigma> s \<noteq> v"
    "bTry b s v = Some b' \<Longrightarrow> bound_to (insert s B) b' \<and> (extends b' \<sigma> \<longleftrightarrow> extends b \<sigma> \<and> \<sigma> s = v)"
proof -
  show "bTry b s v = None \<Longrightarrow> extends b \<sigma> \<Longrightarrow> \<sigma> s \<noteq> v"
    using assms by (auto simp: bTry_def extends_def split: option.splits if_splits)
  assume r: "bTry b s v = Some b'"
  show "bound_to (insert s B) b' \<and> (extends b' \<sigma> \<longleftrightarrow> extends b \<sigma> \<and> \<sigma> s = v)"
  proof (cases "b ! s")
    case None
    then have b': "b' = b[s := Some v]" using r assms(2) by (simp add: bTry_def)
    have "bound_to (insert s B) b'" using assms unfolding b' bound_to_def by (auto simp: nth_list_update)
    moreover have "extends b' \<sigma> \<longleftrightarrow> extends b \<sigma> \<and> \<sigma> s = v"
      using assms None unfolding b' extends_def bound_to_def by (auto simp: nth_list_update)
    ultimately show ?thesis by blast
  next
    case (Some x)
    then have "x = v" "b' = b" using r assms(2) by (auto simp: bTry_def split: if_splits)
    moreover have "s \<in> B" using Some assms by (simp add: bound_to_def)
    then have "insert s B = B" by blast
    ultimately show ?thesis using Some assms by (auto simp: extends_def)
  qed
qed

lemma bind_cols_ok:
  assumes "bound_to B b" "\<forall>j \<in> set ps. slot i j = NO_SLOT \<or> slot i j < MAX_VARS"
  shows "bind_cols i None row ps b = None \<Longrightarrow> extends b \<sigma> \<Longrightarrow> \<exists>j \<in> set ps. slot i j \<noteq> NO_SLOT \<and> row ! j \<noteq> \<sigma> (slot i j)"
    "bind_cols i None row ps b = Some b' \<Longrightarrow>
       bound_to (B \<union> {slot i j | j. j \<in> set ps \<and> slot i j \<noteq> NO_SLOT}) b' \<and>
       (extends b' \<sigma> \<longleftrightarrow> extends b \<sigma> \<and> (\<forall>j \<in> set ps. slot i j \<noteq> NO_SLOT \<longrightarrow> row ! j = \<sigma> (slot i j)))"
proof -
  have "(bind_cols i None row ps b = None \<longrightarrow> (\<forall>\<sigma>. extends b \<sigma> \<longrightarrow> (\<exists>j \<in> set ps. slot i j \<noteq> NO_SLOT \<and> row ! j \<noteq> \<sigma> (slot i j)))) \<and>
    (\<forall>b'. bind_cols i None row ps b = Some b' \<longrightarrow>
       bound_to (B \<union> {slot i j | j. j \<in> set ps \<and> slot i j \<noteq> NO_SLOT}) b' \<and>
       (\<forall>\<sigma>. extends b' \<sigma> \<longleftrightarrow> extends b \<sigma> \<and> (\<forall>j \<in> set ps. slot i j \<noteq> NO_SLOT \<longrightarrow> row ! j = \<sigma> (slot i j))))"
    using assms
  proof (induction ps arbitrary: B b)
    case Nil
    then show ?case by simp
  next
    case (Cons j ps)
    have s: "i_slots i ! j = slot i j" by (simp add: slot_def)
    show ?case
    proof (cases "slot i j = NO_SLOT")
      case True
      have same: "{slot i k | k. k \<in> set (j # ps) \<and> slot i k \<noteq> NO_SLOT} = {slot i k | k. k \<in> set ps \<and> slot i k \<noteq> NO_SLOT}"
        using True by auto
      show ?thesis using Cons.IH [OF Cons.prems(1)] Cons.prems(2) True unfolding same by (simp add: s)
    next
      case False
      then have less: "slot i j < MAX_VARS" using Cons.prems(2) by simp
      note try1 = bTry_ok [OF Cons.prems(1) less, where v = "row ! j"]
      have one: "bind_cols i None row (j # ps) b = (case bTry b (slot i j) (row ! j) of None \<Rightarrow> None | Some b' \<Rightarrow> bind_cols i None row ps b')"
        using False by (simp add: s)
      show ?thesis
      proof (cases "bTry b (slot i j) (row ! j)")
        case None
        then show ?thesis using one try1(1) False by force
      next
        case (Some b1)
        have b1: "bound_to (insert (slot i j) B) b1" "\<And>\<sigma>. extends b1 \<sigma> \<longleftrightarrow> extends b \<sigma> \<and> \<sigma> (slot i j) = row ! j"
          using try1(2) [OF Some] by blast+
        have set: "insert (slot i j) B \<union> {slot i k | k. k \<in> set ps \<and> slot i k \<noteq> NO_SLOT} = B \<union> {slot i k | k. k \<in> set (j # ps) \<and> slot i k \<noteq> NO_SLOT}"
          using False by auto
        have "\<forall>k \<in> set ps. slot i k = NO_SLOT \<or> slot i k < MAX_VARS" using Cons.prems(2) by simp
        note ih = Cons.IH [OF b1(1) this, unfolded set b1(2)]
        show ?thesis using ih False Some unfolding one by (auto; metis)
      qed
    qed
  qed
  then show "bind_cols i None row ps b = None \<Longrightarrow> extends b \<sigma> \<Longrightarrow> \<exists>j \<in> set ps. slot i j \<noteq> NO_SLOT \<and> row ! j \<noteq> \<sigma> (slot i j)"
    "bind_cols i None row ps b = Some b' \<Longrightarrow>
       bound_to (B \<union> {slot i j | j. j \<in> set ps \<and> slot i j \<noteq> NO_SLOT}) b' \<and>
       (extends b' \<sigma> \<longleftrightarrow> extends b \<sigma> \<and> (\<forall>j \<in> set ps. slot i j \<noteq> NO_SLOT \<longrightarrow> row ! j = \<sigma> (slot i j)))" by blast+
qed

text \<open>A row bound from column \<open>sc\<close> on, when the columns before agree already.\<close>

lemma bindRow_ok:
  assumes "bound_to B b" "cols_fit i ar" "sc \<le> ar" "\<forall>j < sc. slot i j \<in> B \<and> row ! j = bGet b (slot i j)"
  shows "bindRowPerm i row sc ar None b = None \<Longrightarrow> extends b \<sigma> \<Longrightarrow> \<not> agrees i ar \<sigma> row"
    "bindRowPerm i row sc ar None b = Some b' \<Longrightarrow>
       bound_to (B \<union> col_slots i ar) b' \<and> (extends b' \<sigma> \<longleftrightarrow> extends b \<sigma> \<and> agrees i ar \<sigma> row)"
proof -
  have fit: "\<forall>j \<in> set [sc..<ar]. slot i j = NO_SLOT \<or> slot i j < MAX_VARS" using assms(2) by (simp add: cols_fit_def)
  note c = bind_cols_ok [OF assms(1) fit, where row = row]
  have before: "j < sc \<Longrightarrow> extends b \<sigma> \<Longrightarrow> row ! j = \<sigma> (slot i j)" for j \<sigma>
    using assms(4) bGet_extends [OF assms(1)] by simp
  have split: "agrees i ar \<sigma> row \<longleftrightarrow> (\<forall>j \<in> set [sc..<ar]. slot i j \<noteq> NO_SLOT \<longrightarrow> row ! j = \<sigma> (slot i j))" if "extends b \<sigma>" for \<sigma>
    using before [OF _ that] unfolding agrees_def by (auto simp: not_less)
  have sets: "B \<union> {slot i j | j. j \<in> set [sc..<ar] \<and> slot i j \<noteq> NO_SLOT} = B \<union> col_slots i ar"
  proof -
    have "slot i j \<in> {slot i j | j. j \<in> set [sc..<ar] \<and> slot i j \<noteq> NO_SLOT}" if "j < ar" "slot i j \<noteq> NO_SLOT" "slot i j \<notin> B" for j
      using that assms(4) by (intro CollectI exI [of _ j]) (auto simp: not_less)
    then show ?thesis unfolding col_slots_def by auto
  qed
  show "bindRowPerm i row sc ar None b = None \<Longrightarrow> extends b \<sigma> \<Longrightarrow> \<not> agrees i ar \<sigma> row"
    using c(1) [of \<sigma>] split by (auto simp: bindRowPerm_def)
  show "bindRowPerm i row sc ar None b = Some b' \<Longrightarrow>
       bound_to (B \<union> col_slots i ar) b' \<and> (extends b' \<sigma> \<longleftrightarrow> extends b \<sigma> \<and> agrees i ar \<sigma> row)"
    using c(2) [of b' \<sigma>] split unfolding sets bindRowPerm_def by blast
qed

subsection \<open>Reading relations\<close>

text \<open>The state of a run: the facts, the kinds and arities of the relations and the empty frame slots stay.\<close>

definition shape :: "dl_db \<Rightarrow> (nat \<times> nat) list" where
  "shape db = map (\<lambda>e. (re_kind e, re_arity e)) (db_rels db)"

definition db_still :: "engine \<Rightarrow> files \<Rightarrow> dl_db \<Rightarrow> dl_db \<Rightarrow> bool" where
  "db_still en fs db0 db \<longleftrightarrow> db_ok en fs db \<and> (\<forall>j. rel_facts en fs db j = rel_facts en fs db0 j) \<and> shape db = shape db0"

definition run_still :: "'s cx \<Rightarrow> dl_db \<Rightarrow> 's world \<Rightarrow> bool" where
  "run_still cx db0 w \<longleftrightarrow> db_still (cx_en cx) (cx_fs cx) db0 (w_db w) \<and> w_perms w = replicate MAX_FRAMES None \<and> w_acc w = None"

definition facts :: "'s cx \<Rightarrow> dl_db \<Rightarrow> fact_base" where
  "facts cx db = rel_facts (cx_en cx) (cx_fs cx) db"

definition engine_good :: "engine \<Rightarrow> bool" where
  "engine_good en \<longleftrightarrow> engine_ok en \<and> dafsa_create en \<noteq> None \<and> adds_succeed en"

lemma shape_put: "shape (put_rel i a r db) = shape db"
proof (cases "entry_at db i")
  case (Some e)
  then have e: "nat i < length (db_rels db)" "e = db_rels db ! nat i" by (auto simp: entry_at_def split: if_splits)
  have "(re_kind (put_variant_of a r e), re_arity (put_variant_of a r e)) = (re_kind e, re_arity e)" by (simp add: put_variant_of_def)
  then show ?thesis using Some e list_update_id [of "shape db" "nat i"]
    by (simp add: shape_def put_rel_def put_entry_def map_update)
qed (simp add: put_rel_def)

lemma still_put:
  assumes "db_still en fs db0 db" "db_rel_at_arity_ro db i a = Some r" "rel_ok en fs r'" "r_arity r' = a" "rel_view en fs r' = rel_view en fs r"
  shows "db_still en fs db0 (put_rel i a r' db)"
proof -
  have ok: "db_ok en fs db" using assms(1) by (simp add: db_still_def)
  note put = put_rel_same [OF ok assms(2-5)]
  show ?thesis using assms(1) put(1,2) by (simp add: db_still_def shape_put same_db_def)
qed

lemma facts_at:
  assumes "db_still (cx_en cx) (cx_fs cx) db0 db"
  shows "db_rel_at_arity_ro db (int i) a = None \<Longrightarrow> facts_of (facts cx db0) i a = {}"
    "db_rel_at_arity_ro db (int i) a = Some r \<Longrightarrow> rel_ok (cx_en cx) (cx_fs cx) r \<and> r_arity r = a \<and>
       rel_view (cx_en cx) (cx_fs cx) r = facts_of (facts cx db0) i a"
  using at_arity [of "cx_en cx" "cx_fs cx" db "int i" a] assms by (simp_all add: db_still_def facts_of_def facts_def)

text \<open>A frame's buffer collects all it is handed, given memory.\<close>

lemma collect_until:
  "generous al \<Longrightarrow> \<exists>cap'. until (hand_out (tbufCb al ar)) rows (n, cap, acc) = (False, n + length rows, cap', acc @ rows)"
proof (induction rows arbitrary: n cap acc)
  case (Cons row rows)
  have "\<exists>cap'. tbufCb al ar row (cap, acc) = (0, cap', acc @ [row])" using Cons.prems by (simp add: tbufCb_def generous_def Let_def)
  then obtain cap1 where "tbufCb al ar row (cap, acc) = (0, cap1, acc @ [row])" by blast
  then show ?case using Cons.IH [OF Cons.prems, of "Suc n" cap1 "acc @ [row]"] by (simp add: hand_out_def)
qed simp

text \<open>What a read of all rows, or of those with given leading columns, collects.\<close>

lemma collect_prefix:
  assumes "engine_good en" "generous al" "rel_ok en fs r" "k \<le> r_arity r" "k \<le> length l"
  obtains rc cap rows r' where "rel_prefix en fs (Some l) k (tbufCb al ar) (0, []) r = Some ((rc, cap, rows), r')" "rel_ok en fs r'"
    "r_arity r' = r_arity r" "rel_view en fs r' = rel_view en fs r" "set rows = matching (rel_view en fs r) (take k l)"
proof -
  have eng: "engine_ok en" "dafsa_create en \<noteq> None" "adds_succeed en" using assms(1) by (simp_all add: engine_good_def)
  let ?M = "matching (rel_view en fs r) (take k l)"
  obtain res r' where r: "rel_prefix en fs (Some l) k (tbufCb al ar) (0, []) r = Some (res, r')" "rel_ok en fs r'"
    "rel_view en fs r' = rel_view en fs r" "prefix_spec (rel_view en fs r) (take k l) (tbufCb al ar) (0, []) res"
    by (rule prefix_ok [OF eng assms(3-5)])
  obtain cap where "until (hand_out (tbufCb al ar)) (sorted_list_of_set ?M) (0, 0, []) = (False, length (sorted_list_of_set ?M), cap, sorted_list_of_set ?M)"
    using collect_until [OF assms(2), of ar "sorted_list_of_set ?M" 0 0 "[]"] by auto
  then have "res = (int (length (sorted_list_of_set ?M)), cap, sorted_list_of_set ?M)" using r(4) by (simp add: prefix_spec_def deliver_def)
  moreover have "set (sorted_list_of_set ?M) = ?M" using finite_view [OF assms(3)] by simp
  ultimately show thesis
    using that [of "int (length (sorted_list_of_set ?M))" cap "sorted_list_of_set ?M" r'] r(1-3) rel_prefix_arity [OF r(1)] by simp
qed

lemma read_rows_ok:
  assumes "engine_good (cx_en cx)" "generous (cx_al cx)" "db_still (cx_en cx) (cx_fs cx) db0 db" "k \<le> ar"
    "pref = Some l \<and> k \<le> length l \<or> pref = None \<and> k = 0 \<and> l = []"
  shows "read_rows cx db (int rel) ar pref k = Some None \<and> facts_of (facts cx db0) rel ar = {} \<or>
    (\<exists>rows db'. read_rows cx db (int rel) ar pref k = Some (Some (rows, db')) \<and> db_still (cx_en cx) (cx_fs cx) db0 db' \<and>
      set rows = matching (facts_of (facts cx db0) rel ar) (take k l))"
proof (cases "db_rel_at_arity_ro db (int rel) ar")
  case None
  then show ?thesis using facts_at(1) [OF assms(3) None] by (simp add: read_rows_def)
next
  case (Some r)
  have r: "rel_ok (cx_en cx) (cx_fs cx) r" "r_arity r = ar" "rel_view (cx_en cx) (cx_fs cx) r = facts_of (facts cx db0) rel ar"
    using facts_at(2) [OF assms(3) Some] by simp_all
  have k: "k \<le> r_arity r" "k \<le> length l" using assms(4,5) r(2) by auto
  obtain rc cap rows r' where p: "rel_prefix (cx_en cx) (cx_fs cx) (Some l) k (tbufCb (cx_al cx) ar) (0, []) r = Some ((rc, cap, rows), r')"
    "rel_ok (cx_en cx) (cx_fs cx) r'" "r_arity r' = r_arity r" "rel_view (cx_en cx) (cx_fs cx) r' = rel_view (cx_en cx) (cx_fs cx) r"
    "set rows = matching (rel_view (cx_en cx) (cx_fs cx) r) (take k l)"
    by (rule collect_prefix [OF assms(1,2) r(1) k])
  have "rel_prefix (cx_en cx) (cx_fs cx) pref k (tbufCb (cx_al cx) ar) (0, []) r = Some ((rc, cap, rows), r')"
    using assms(5) p(1) rel_prefix_none [of "cx_en cx" "cx_fs cx" "tbufCb (cx_al cx) ar" "(0, [])" r] by auto
  moreover have "db_still (cx_en cx) (cx_fs cx) db0 (put_rel (int rel) ar r' db)"
    by (rule still_put [OF assms(3) Some p(2) _ p(4)]) (simp add: p(3) r(2))
  ultimately show ?thesis using Some p(5) r(3) by (simp add: read_rows_def)
qed

subsection \<open>One instruction\<close>

text \<open>Nothing is handed out by an instruction other than the head.\<close>

definition quiet :: "'s cx \<Rightarrow> dl_db \<Rightarrow> 's world \<Rightarrow> 's world \<Rightarrow> bool" where
  "quiet cx db0 w w' \<longleftrightarrow> run_still cx db0 w' \<and> w_user w' = w_user w \<and> w_rc w' = w_rc w"

lemma quiet_refl: "run_still cx db0 w \<Longrightarrow> quiet cx db0 w w"
  by (simp add: quiet_def)

lemma quiet_db: "run_still cx db0 w \<Longrightarrow> db_still (cx_en cx) (cx_fs cx) db0 db' \<Longrightarrow> quiet cx db0 w (w\<lparr>w_db := db'\<rparr>)"
  by (simp add: quiet_def run_still_def)

lemma feed_count: "feed cx i = Some ts \<Longrightarrow> ts_count ts > 0"
  by (auto simp: feed_def split: option.splits if_splits)

text \<open>A test goes on with the bindings of its condition, or fails when no valuation satisfies it.\<close>

definition test_ok :: "'s cx \<Rightarrow> dl_db \<Rightarrow> nat set \<Rightarrow> vm_instr \<Rightarrow> bindings \<Rightarrow> 's world \<Rightarrow> 's vm_action option \<Rightarrow> bool" where
  "test_ok cx db0 B i b w act \<longleftrightarrow>
     (\<exists>w1. quiet cx db0 w w1 \<and>
       (act = Some (Fail w1) \<and> (\<forall>\<sigma>. extends b \<sigma> \<longrightarrow> \<not> holds cx (facts cx db0) B i \<sigma>) \<or>
        (\<exists>b1. act = Some (Next b1 w1) \<and> bound_to (binds B i) b1 \<and>
          (\<forall>\<sigma>. extends b1 \<sigma> \<longleftrightarrow> extends b \<sigma> \<and> holds cx (facts cx db0) B i \<sigma>))))"

text \<open>A loop visits rows that are bound or skipped as they agree, or there is no row at all.\<close>

definition loop_ok :: "'s cx \<Rightarrow> dl_db \<Rightarrow> nat set \<Rightarrow> vm_instr \<Rightarrow> bindings \<Rightarrow> 's world \<Rightarrow> 's vm_action option \<Rightarrow> bool" where
  "loop_ok cx db0 B i b w act \<longleftrightarrow>
     (act = Some (Stop w) \<and> (\<forall>\<sigma>. \<not> holds cx (facts cx db0) B i \<sigma>)) \<or>
     (act = Some (Fail w) \<and> (\<forall>\<sigma>. extends b \<sigma> \<longrightarrow> \<not> holds cx (facts cx db0) B i \<sigma>)) \<or>
     (\<exists>op ar rows sc w1. act = Some (Loop op ar rows sc ar None w1) \<and> quiet cx db0 w w1 \<and> (op = OP_SCAN \<or> op = OP_LOOKUP) \<and>
       resume_col op i = sc \<and>
       (\<forall>row \<in> set rows. \<forall>\<sigma>. (bindRowPerm i row sc ar None b = None \<longrightarrow> extends b \<sigma> \<longrightarrow> \<not> agrees i ar \<sigma> row) \<and>
          (\<forall>b'. bindRowPerm i row sc ar None b = Some b' \<longrightarrow>
             bound_to (binds B i) b' \<and> (extends b' \<sigma> \<longleftrightarrow> extends b \<sigma> \<and> agrees i ar \<sigma> row))) \<and>
       (\<forall>\<sigma>. extends b \<sigma> \<longrightarrow> (holds cx (facts cx db0) B i \<sigma> \<longleftrightarrow> (\<exists>row \<in> set rows. agrees i ar \<sigma> row))))"

lemma act_scan_ok:
  assumes good: "engine_good (cx_en cx)" "generous (cx_al cx)" and still: "run_still cx db0 w" and op: "opcode_of i = Some OP_SCAN"
    and ord: "in_order cx db0 B i" and b: "bound_to B b" and dep: "dep < MAX_FRAMES"
  shows "loop_ok cx db0 B i b w (act_scan cx dep i w)"
proof -
  let ?ar = "i_b i" and ?S = "source cx (facts cx db0) i (i_b i)"
  have fit: "cols_fit i ?ar" and feed: "feed_fits cx i ?ar False" using ord op by (simp_all add: in_order_def)
  have bnd: "binds B i = B \<union> col_slots i ?ar" using op by (simp add: binds_def)
  have h: "holds cx (facts cx db0) B i \<sigma> \<longleftrightarrow> (\<exists>row \<in> ?S. agrees i ?ar \<sigma> row)" for \<sigma> using op by (simp add: holds_def)
  have rows: "loop_ok cx db0 B i b w (Some (Loop OP_SCAN ?ar rows 0 ?ar None w1))" if "set rows = ?S" "quiet cx db0 w w1" for rows w1
    unfolding loop_ok_def
    using bindRow_ok [OF b fit, of 0] that h bnd by (intro disjI2 exI [of _ OP_SCAN] exI [of _ ?ar] exI [of _ rows] exI [of _ 0] exI [of _ w1]) (simp add: resume_col_def)
  show ?thesis
  proof (cases "feed cx i")
    case (Some ts)
    have "ts_arity ts = ?ar" using feed Some by (simp add: feed_fits_def)
    moreover have "set (ts_data ts) = ?S" using Some by (simp add: source_def ts_rows_def)
    ultimately show ?thesis using rows [OF _ quiet_refl [OF still], of "ts_data ts"] Some dep assms(2) by (simp add: act_scan_def generous_def)
  next
    case None
    then have S: "?S = facts_of (facts cx db0) (i_a i) ?ar" by (simp add: source_def)
    have db: "db_still (cx_en cx) (cx_fs cx) db0 (w_db w)" using still by (simp add: run_still_def)
    have "read_rows cx (w_db w) (int (i_a i)) ?ar None 0 = Some None \<and> ?S = {} \<or>
      (\<exists>rows db'. read_rows cx (w_db w) (int (i_a i)) ?ar None 0 = Some (Some (rows, db')) \<and> db_still (cx_en cx) (cx_fs cx) db0 db' \<and> set rows = ?S)"
      using read_rows_ok [OF good db, of 0 ?ar None "[]" "i_a i"] S by (simp add: unbounded)
    then show ?thesis
    proof (elim disjE conjE exE)
      assume "read_rows cx (w_db w) (int (i_a i)) ?ar None 0 = Some None" "?S = {}"
      then show ?thesis using None dep h by (simp add: act_scan_def loop_ok_def)
    next
      fix rows db' assume r: "read_rows cx (w_db w) (int (i_a i)) ?ar None 0 = Some (Some (rows, db'))" "db_still (cx_en cx) (cx_fs cx) db0 db'" "set rows = ?S"
      show ?thesis using rows [OF r(3) quiet_db [OF still r(2)]] None dep r(1) by (simp add: act_scan_def)
    qed
  qed
qed

text \<open>The bound leading columns of a lookup.\<close>

lemma lookup_cols:
  assumes "bound_to B b" "cols_fit i ar" "k \<le> ar" "\<forall>j < k. slot i j \<in> B" "length row = ar"
  shows "take k row = map (bGet b) (take k (i_slots i)) \<longleftrightarrow> (\<forall>j < k. row ! j = bGet b (slot i j))"
    "extends b \<sigma> \<Longrightarrow> agrees i ar \<sigma> row \<Longrightarrow> \<forall>j < k. row ! j = bGet b (slot i j)"
proof -
  have len: "length (i_slots i) = MAX_ARITY" "ar \<le> MAX_ARITY" using assms(2) by (simp_all add: cols_fit_def)
  show "take k row = map (bGet b) (take k (i_slots i)) \<longleftrightarrow> (\<forall>j < k. row ! j = bGet b (slot i j))"
    using assms(3,5) len by (auto simp: list_eq_iff_nth_eq slot_def)
  assume e: "extends b \<sigma>" "agrees i ar \<sigma> row"
  show "\<forall>j < k. row ! j = bGet b (slot i j)"
  proof (intro allI impI)
    fix j assume j: "j < k"
    then have "slot i j < MAX_VARS" using assms(1,4) by (simp add: bound_to_def)
    then have "slot i j \<noteq> NO_SLOT" by (simp add: NO_SLOT_def MAX_VARS_def)
    then show "row ! j = bGet b (slot i j)" using e j assms(3) bGet_extends [OF assms(1) e(1)] assms(4) by (simp add: agrees_def)
  qed
qed

lemma prefix_rows_set:
  assumes "ts_inv ts" "sorted_wrt (<) (ts_data ts)" "k \<le> ts_arity ts" "k \<le> length p"
  shows "set (prefix_rows ts p k) = {row \<in> ts_rows ts. take k row = take k p}"
proof -
  obtain cnt first where c: "ts_prefix ts p k = (cnt, first)" by (cases "ts_prefix ts p k")
  have r: "\<And>i. i < length (ts_data ts) \<Longrightarrow> take k (ts_data ts ! i) = take k p \<longleftrightarrow> first \<le> i \<and> i < first + cnt" "first + cnt \<le> length (ts_data ts)"
    using ts_prefix_ok [OF assms] c by (auto simp: prefix_range_def)
  show ?thesis
  proof (intro set_eqI iffI)
    fix row assume "row \<in> set (prefix_rows ts p k)"
    then obtain j where j: "j < cnt" "row = ts_data ts ! (first + j)" using c r(2) by (auto simp: prefix_rows_def in_set_conv_nth)
    then show "row \<in> {row \<in> ts_rows ts. take k row = take k p}" using r(1) [of "first + j"] r(2) by (auto simp: ts_rows_def)
  next
    fix row assume "row \<in> {row \<in> ts_rows ts. take k row = take k p}"
    then obtain j where j: "j < length (ts_data ts)" "row = ts_data ts ! j" "take k (ts_data ts ! j) = take k p"
      by (auto simp: ts_rows_def in_set_conv_nth)
    then have "first \<le> j" "j < first + cnt" using r(1) by blast+
    then show "row \<in> set (prefix_rows ts p k)" using c j r(2)
      by (auto simp: prefix_rows_def in_set_conv_nth intro!: exI [of _ "j - first"])
  qed
qed

lemma act_lookup_ok:
  assumes good: "engine_good (cx_en cx)" "generous (cx_al cx)" and still: "run_still cx db0 w" and op: "opcode_of i = Some OP_LOOKUP"
    and ord: "in_order cx db0 B i" and b: "bound_to B b" and dep: "dep < MAX_FRAMES"
  shows "loop_ok cx db0 B i b w (act_lookup cx dep i b w)"
proof -
  let ?ar = "i_c i" and ?k = "i_b i" and ?S = "source cx (facts cx db0) i (i_c i)" and ?p = "map (bGet b) (take (i_b i) (i_slots i))"
  have fit: "cols_fit i ?ar" and feed: "feed_fits cx i ?ar True" and k: "?k \<le> ?ar" "\<forall>j < ?k. slot i j \<in> B"
    using ord op by (simp_all add: in_order_def)
  have len: "length ?p = ?k" using fit k by (simp add: cols_fit_def)
  have bnd: "binds B i = B \<union> col_slots i ?ar" using op by (simp add: binds_def)
  have h: "holds cx (facts cx db0) B i \<sigma> \<longleftrightarrow> (\<exists>row \<in> ?S. agrees i ?ar \<sigma> row)" for \<sigma> using op by (simp add: holds_def)
  have wide: "length row = ?ar" if "row \<in> ?S" for row
    using that feed by (auto simp: source_def facts_of_def feed_fits_def ts_inv_def ts_rows_def split: option.splits)
  let ?M = "{row \<in> ?S. take ?k row = ?p}"
  have hM: "holds cx (facts cx db0) B i \<sigma> \<longleftrightarrow> (\<exists>row \<in> ?M. agrees i ?ar \<sigma> row)" if "extends b \<sigma>" for \<sigma>
    using h wide lookup_cols [OF b fit k wide] that by blast
  have lead: "\<forall>j < ?k. slot i j \<in> B \<and> row ! j = bGet b (slot i j)" if "row \<in> ?M" for row
    using lookup_cols(1) [OF b fit k wide, of row] that k(2) by blast
  have rows: "loop_ok cx db0 B i b w (Some (Loop OP_LOOKUP ?ar rows ?k ?ar None w1))" if "set rows = ?M" "quiet cx db0 w w1" for rows w1
    unfolding loop_ok_def
    using bindRow_ok [OF b fit k(1) lead] that hM bnd
    by (intro disjI2 exI [of _ OP_LOOKUP] exI [of _ ?ar] exI [of _ rows] exI [of _ ?k] exI [of _ w1]) (simp add: resume_col_def)
  have none: "loop_ok cx db0 B i b w (Some (Fail w))" if "?M = {}" using hM that by (simp add: loop_ok_def)
  show ?thesis
  proof (cases "feed cx i")
    case (Some ts)
    have ts: "ts_inv ts" "ts_arity ts = ?ar" "sorted_wrt (<) (ts_data ts)" using feed Some by (simp_all add: feed_fits_def)
    have S: "?S = ts_rows ts" using Some by (simp add: source_def)
    have M: "set (prefix_rows ts ?p ?k) = ?M" using prefix_rows_set [OF ts(1,3)] ts(2) k(1) len S by simp
    show ?thesis
    proof (cases "prefix_rows ts ?p ?k = []")
      case True
      then have "?M = {}" using M by simp
      then show ?thesis using none True Some dep by (simp add: act_lookup_def Let_def)
    next
      case False
      then show ?thesis using rows [OF M quiet_refl [OF still]] Some dep assms(2) ts(2) by (simp add: act_lookup_def Let_def generous_def)
    qed
  next
    case None
    then have S: "?S = facts_of (facts cx db0) (i_a i) ?ar" by (simp add: source_def)
    have M: "matching ?S (take ?k ?p) = ?M" using len by (simp add: matching_def)
    have db: "db_still (cx_en cx) (cx_fs cx) db0 (w_db w)" using still by (simp add: run_still_def)
    have "read_rows cx (w_db w) (int (i_a i)) ?ar (Some ?p) ?k = Some None \<and> ?S = {} \<or>
      (\<exists>rows db'. read_rows cx (w_db w) (int (i_a i)) ?ar (Some ?p) ?k = Some (Some (rows, db')) \<and>
         db_still (cx_en cx) (cx_fs cx) db0 db' \<and> set rows = ?M)"
      using read_rows_ok [OF good db k(1), of "Some ?p" ?p "i_a i"] S M len by simp
    then show ?thesis
    proof (elim disjE conjE exE)
      assume "read_rows cx (w_db w) (int (i_a i)) ?ar (Some ?p) ?k = Some None" "?S = {}"
      then show ?thesis using None dep none by (simp add: act_lookup_def Let_def)
    next
      fix rows db' assume r: "read_rows cx (w_db w) (int (i_a i)) ?ar (Some ?p) ?k = Some (Some (rows, db'))"
        "db_still (cx_en cx) (cx_fs cx) db0 db'" "set rows = ?M"
      show ?thesis using rows [OF r(3) quiet_db [OF still r(2)]] None dep r(1) by (simp add: act_lookup_def Let_def)
    qed
  qed
qed

text \<open>Equations, comparisons and arithmetic.\<close>

lemma bound_insert: "s \<in> B \<Longrightarrow> insert s B = B"
  by blast

lemma act_eq_ok:
  assumes "run_still cx db0 w" "opcode_of i = Some OP_EQ" "in_order cx db0 B i" "bound_to B b"
  shows "test_ok cx db0 B i b w (Some (act_eq i b w))"
proof -
  let ?x = "i_a i" and ?y = "i_b i"
  have o: "?x < MAX_VARS" "?y < MAX_VARS" "?x \<in> B \<or> ?y \<in> B" using assms(2,3) by (simp_all add: in_order_def)
  have h: "holds cx (facts cx db0) B i \<sigma> \<longleftrightarrow> \<sigma> ?x = \<sigma> ?y" and bn: "binds B i = insert ?x (insert ?y B)" for \<sigma>
    using assms(2) by (auto simp: holds_def binds_def)
  note q = quiet_refl [OF assms(1)] and ok = bOk_bound [OF assms(4)] and get = bGet_extends [OF assms(4)]
  have one: "test_ok cx db0 B i b w (Some (Next (bind_or b s (bGet b t)) w))"
    if st: "{s, t} = {?x, ?y}" "t \<in> B" "s \<notin> B" for s t
  proof -
    have s: "s < MAX_VARS" using st(1) o by (auto simp: doubleton_eq_iff)
    have free: "b ! s = None" using assms(4) st(3) s by (simp add: bound_to_def)
    then obtain b1 where b1: "bTry b s (bGet b t) = Some b1" using s by (simp add: bTry_def)
    have sets: "insert s B = binds B i" using st bn by (auto simp: doubleton_eq_iff)
    have "extends b1 \<sigma> \<longleftrightarrow> extends b \<sigma> \<and> \<sigma> ?x = \<sigma> ?y" for \<sigma>
      using bTry_ok(2) [OF assms(4) s b1] get [OF _ st(2)] st(1) by (auto simp: doubleton_eq_iff)
    moreover have "bound_to (binds B i) b1" using bTry_ok(2) [OF assms(4) s b1] sets by simp
    ultimately show ?thesis using q h b1 by (auto simp: test_ok_def bind_or_def)
  qed
  show ?thesis
  proof (cases "?x \<in> B \<and> ?y \<in> B")
    case True
    then have same: "binds B i = B" using bn by (simp add: insert_absorb)
    have "(bGet b ?x = bGet b ?y) = (\<sigma> ?x = \<sigma> ?y)" if "extends b \<sigma>" for \<sigma> using get [OF that] True by simp
    then show ?thesis using True q h ok same assms(4) by (auto simp: act_eq_def test_ok_def Let_def)
  next
    case False
    then show ?thesis using one [of ?y ?x] one [of ?x ?y] o(3) ok by (auto simp: act_eq_def Let_def insert_commute)
  qed
qed

lemma act_eq_const_ok:
  assumes "run_still cx db0 w" "opcode_of i = Some OP_EQ_CONST" "in_order cx db0 B i" "bound_to B b"
  shows "test_ok cx db0 B i b w (Some (act_eq_const i b w))"
proof -
  have o: "i_a i < MAX_VARS" using assms(2,3) by (simp add: in_order_def)
  have h: "holds cx (facts cx db0) B i \<sigma> \<longleftrightarrow> \<sigma> (i_a i) = i_imm i" and bn: "binds B i = insert (i_a i) B" for \<sigma>
    using assms(2) by (auto simp: holds_def binds_def)
  note q = quiet_refl [OF assms(1)] and ok = bOk_bound [OF assms(4)] and get = bGet_extends [OF assms(4)]
  show ?thesis
  proof (cases "i_a i \<in> B")
    case True
    then have "(bGet b (i_a i) = i_imm i) = (\<sigma> (i_a i) = i_imm i)" if "extends b \<sigma>" for \<sigma> using get [OF that] by simp
    then show ?thesis using True q h ok bn assms(4) bound_insert [OF True] by (auto simp: act_eq_const_def test_ok_def)
  next
    case False
    have "b ! i_a i = None" using assms(4) False o by (simp add: bound_to_def)
    then obtain b1 where b1: "bTry b (i_a i) (i_imm i) = Some b1" using o by (simp add: bTry_def)
    then show ?thesis using False q h ok bn bTry_ok(2) [OF assms(4) o b1] by (auto simp: act_eq_const_def test_ok_def bind_or_def)
  qed
qed

lemma act_cmp_ok:
  assumes "run_still cx db0 w" "opcode_of i = Some OP_CMP" "in_order cx db0 B i" "bound_to B b"
  shows "test_ok cx db0 B i b w (Some (act_cmp i b w))"
proof -
  have "i_a i \<in> B" "i_b i \<in> B" and h: "holds cx (facts cx db0) B i \<sigma> \<longleftrightarrow> cmp_holds (i_imm i) (\<sigma> (i_a i)) (\<sigma> (i_b i))" and bn: "binds B i = B" for \<sigma>
    using assms(2,3) by (simp_all add: in_order_def holds_def binds_def)
  then have "extends b \<sigma> \<Longrightarrow> cmp_holds (i_imm i) (bGet b (i_a i)) (bGet b (i_b i)) \<longleftrightarrow> holds cx (facts cx db0) B i \<sigma>" for \<sigma>
    using bGet_extends [OF assms(4)] by simp
  then show ?thesis using quiet_refl [OF assms(1)] bn assms(4) by (auto simp: act_cmp_def test_ok_def)
qed

lemma act_arith_ok:
  assumes "run_still cx db0 w" "opcode_of i = Some OP_ARITH" "in_order cx db0 B i" "bound_to B b"
  shows "test_ok cx db0 B i b w (Some (act_arith i b w))"
proof -
  have o: "i_a i \<in> B" "i_b i \<in> B" "i_c i < MAX_VARS" using assms(2,3) by (simp_all add: in_order_def)
  let ?r = "arith (i_imm i) (bGet b (i_a i)) (bGet b (i_b i))"
  have h: "holds cx (facts cx db0) B i \<sigma> \<longleftrightarrow> ?r = Some (\<sigma> (i_c i))" if "extends b \<sigma>" for \<sigma>
    using assms(2) bGet_extends [OF assms(4) that] o by (simp add: holds_def)
  have bn: "binds B i = insert (i_c i) B" using assms(2) by (simp add: binds_def)
  note q = quiet_refl [OF assms(1)]
  show ?thesis
  proof (cases ?r)
    case None
    then show ?thesis using q h by (auto simp: act_arith_def bind_result_def test_ok_def)
  next
    case (Some x)
    note try1 = bTry_ok [OF assms(4) o(3), where v = x]
    show ?thesis
    proof (cases "bTry b (i_c i) x")
      case None
      then show ?thesis using Some q h try1(1) by (auto simp: act_arith_def bind_result_def test_ok_def)
    next
      case b1: (Some b1)
      then have "extends b1 \<sigma> \<longleftrightarrow> extends b \<sigma> \<and> holds cx (facts cx db0) B i \<sigma>" for \<sigma> using try1(2) [OF b1, of \<sigma>] h [of \<sigma>] Some by auto
      then show ?thesis using Some b1 q bn try1(2) [OF b1] by (auto simp: act_arith_def bind_result_def test_ok_def)
    qed
  qed
qed

text \<open>The probe of a negated atom finds a row that agrees on the bound columns when there is one.\<close>

lemma probe_until:
  "\<exists>st n. until (hand_out (negProbeCb bound)) rows (m, h) = (st, n, h \<or> (\<exists>row \<in> set rows. \<forall>(j, v) \<in> set bound. row ! j = v))"
proof (induction rows arbitrary: m)
  case (Cons row rows)
  show ?case
  proof (cases "\<forall>(j, v) \<in> set bound. row ! j = v")
    case True
    then show ?thesis by (auto simp: hand_out_def negProbeCb_def intro: exI [of _ True])
  next
    case False
    then show ?thesis using Cons.IH [of "Suc m"] by (auto simp: hand_out_def negProbeCb_def)
  qed
qed (auto intro: exI [of _ False])

lemma act_neg_check_ok:
  assumes good: "engine_good (cx_en cx)" and still: "run_still cx db0 w" and op: "opcode_of i = Some OP_NEG_CHECK"
    and ord: "in_order cx db0 B i" and b: "bound_to B b"
  shows "test_ok cx db0 B i b w (act_neg_check cx i b w)"
proof -
  let ?ar = "i_b i" and ?F = "facts_of (facts cx db0) (i_a i) (i_b i)" and ?cols = "map (bGet b) (take (i_b i) (i_slots i))"
  let ?is = "\<lambda>j. bOk b (i_slots i ! j)"
  let ?bound = "map (\<lambda>j. (j, ?cols ! j)) (filter ?is [0..<?ar])"
  have ar: "?ar \<le> MAX_ARITY" "length (i_slots i) = MAX_ARITY" using ord op by (simp_all add: in_order_def)
  have eng: "engine_ok (cx_en cx)" "dafsa_create (cx_en cx) \<noteq> None" "adds_succeed (cx_en cx)" using good by (simp_all add: engine_good_def)
  have isb: "?is j \<longleftrightarrow> slot i j \<in> B" for j using bOk_bound [OF b] by (simp add: slot_def)
  have col: "?cols ! j = bGet b (slot i j)" if "j < ?ar" for j using that ar by (simp add: slot_def)
  have bn: "binds B i = B" using op by (simp add: binds_def)
  let ?hit = "\<lambda>R. \<exists>row \<in> R. \<forall>(j, v) \<in> set ?bound. row ! j = v"
  have hit: "(\<forall>(j, v) \<in> set ?bound. row ! j = v) \<longleftrightarrow> (\<forall>j < ?ar. slot i j \<in> B \<longrightarrow> row ! j = bGet b (slot i j))" for row
    using isb col by auto
  have h: "holds cx (facts cx db0) B i \<sigma> \<longleftrightarrow> \<not> ?hit ?F" if "extends b \<sigma>" for \<sigma>
    using op bGet_extends [OF b that] unfolding hit by (simp add: holds_def)
  have finish: "test_ok cx db0 B i b w (Some (if ?hit ?F then Fail w1 else Next b w1))" if "quiet cx db0 w w1" for w1
    using that h bn b by (auto simp: test_ok_def simp del: set_map set_filter)
  have db: "db_still (cx_en cx) (cx_fs cx) db0 (w_db w)" using still by (simp add: run_still_def)
  show ?thesis
  proof (cases "db_rel_at_arity_ro (w_db w) (int (i_a i)) ?ar")
    case None
    then show ?thesis using finish [OF quiet_refl [OF still]] facts_at(1) [OF db None] by (simp add: act_neg_check_def Let_def)
  next
    case (Some r)
    have r: "rel_ok (cx_en cx) (cx_fs cx) r" "r_arity r = ?ar" "rel_view (cx_en cx) (cx_fs cx) r = ?F" using facts_at(2) [OF db Some] by simp_all
    have lenF: "length row = ?ar" if "row \<in> ?F" for row using that by (simp add: facts_of_def)
    have put: "quiet cx db0 w (w\<lparr>w_db := put_rel (int (i_a i)) ?ar r' (w_db w)\<rparr>)"
      if "rel_ok (cx_en cx) (cx_fs cx) r'" "r_arity r' = r_arity r" "rel_view (cx_en cx) (cx_fs cx) r' = rel_view (cx_en cx) (cx_fs cx) r" for r'
      by (rule quiet_db [OF still still_put [OF db Some that(1) _ that(3)]]) (simp add: that(2) r(2))
    have len: "length ?cols = ?ar" using ar by simp
    show ?thesis
    proof (cases "length ?bound = ?ar")
      case True
      have "length (filter ?is [0..<?ar]) = length [0..<?ar]" using True by simp
      then have all: "?is j" if "j < ?ar" for j
        using that length_filter_less [of j "[0..<?ar]" ?is] by force
      obtain r' where e: "rel_exact (cx_en cx) (cx_fs cx) ?cols r = Some (if ?cols \<in> rel_view (cx_en cx) (cx_fs cx) r then 1 else 0, r')"
        "rel_ok (cx_en cx) (cx_fs cx) r'" "same_relation (cx_en cx) (cx_fs cx) r r'"
        by (rule exact_ok [OF eng(1,2) r(1) trans [OF len r(2) [symmetric]]])
      have same: "r_arity r' = r_arity r" "rel_view (cx_en cx) (cx_fs cx) r' = rel_view (cx_en cx) (cx_fs cx) r"
        using e(3) same_relation_view [OF e(3)] by (simp_all add: same_relation_def)
      have "row = ?cols" if "row \<in> ?F" "\<forall>j < ?ar. slot i j \<in> B \<longrightarrow> row ! j = bGet b (slot i j)" for row
        using that lenF [OF that(1)] len all isb col by (intro nth_equalityI) auto
      moreover have "\<forall>j < ?ar. slot i j \<in> B \<longrightarrow> ?cols ! j = bGet b (slot i j)" using col by blast
      ultimately have "?hit ?F \<longleftrightarrow> ?cols \<in> ?F" unfolding hit by blast
      moreover have "act_neg_check cx i b w = Some (if ?cols \<in> ?F then Fail (w\<lparr>w_db := put_rel (int (i_a i)) ?ar r' (w_db w)\<rparr>)
          else Next b (w\<lparr>w_db := put_rel (int (i_a i)) ?ar r' (w_db w)\<rparr>))"
        using Some True e(1) r(3) by (simp add: act_neg_check_def Let_def)
      ultimately show ?thesis using finish [OF put [OF e(2) same]] by (simp only:)
    next
      case False
      let ?k = "length (takeWhile ?is [0..<?ar])"
      have k: "?k \<le> ?ar" using length_takeWhile_le [of ?is "[0..<?ar]"] by simp
      have lead: "slot i j \<in> B" if "j < ?k" for j
      proof -
        have "takeWhile ?is [0..<?ar] ! j = j" using that k by (simp add: takeWhile_nth)
        moreover have "takeWhile ?is [0..<?ar] ! j \<in> set (takeWhile ?is [0..<?ar])" by (rule nth_mem [OF that])
        ultimately show ?thesis using isb set_takeWhileD by metis
      qed
      obtain res r' where p: "rel_prefix (cx_en cx) (cx_fs cx) (Some ?cols) ?k (negProbeCb ?bound) False r = Some (res, r')"
        "rel_ok (cx_en cx) (cx_fs cx) r'" "rel_view (cx_en cx) (cx_fs cx) r' = rel_view (cx_en cx) (cx_fs cx) r"
        "prefix_spec (rel_view (cx_en cx) (cx_fs cx) r) (take ?k ?cols) (negProbeCb ?bound) False res"
        by (rule prefix_ok [OF eng r(1), of ?k ?cols]) (use k len r(2) in simp_all)
      let ?M = "matching ?F (take ?k ?cols)"
      have fin: "finite ?M" using finite_view [OF r(1)] r(3) by simp
      obtain st n where u: "until (hand_out (negProbeCb ?bound)) (sorted_list_of_set ?M) (0, False) = (st, n, False \<or> ?hit (set (sorted_list_of_set ?M)))"
        using probe_until [of ?bound "sorted_list_of_set ?M" 0 False] by blast
      have "row \<in> ?M" if "row \<in> ?F" "\<forall>j < ?ar. slot i j \<in> B \<longrightarrow> row ! j = bGet b (slot i j)" for row
      proof -
        have "take ?k row = take ?k ?cols"
          using that lead k col lenF [OF that(1)] len by (intro nth_equalityI) auto
        then show ?thesis using that(1) k len by (simp add: matching_def min_absorb1)
      qed
      moreover have "?M \<subseteq> ?F" by (auto simp: matching_def)
      ultimately have same: "?hit ?M \<longleftrightarrow> ?hit ?F" unfolding hit by blast
      have "snd res \<longleftrightarrow> ?hit ?F"
        using p(4) u same fin unfolding r(3) prefix_spec_def deliver_def by simp
      then obtain rc where res: "res = (rc, ?hit ?F)" by (cases res) simp
      show ?thesis
        using finish [OF put [OF p(2) rel_prefix_arity [OF p(1)] p(3)]] Some False p(1) unfolding res
        by (simp add: act_neg_check_def Let_def)
    qed
  qed
qed

subsection \<open>Loops\<close>

text \<open>A part of the body hands out a list of tuples to a callback that goes on.\<close>

definition emits :: "(tuple \<Rightarrow> 's \<Rightarrow> 's) \<Rightarrow> 's world \<Rightarrow> 's world \<Rightarrow> tuple list \<Rightarrow> bool" where
  "emits g w w' ts \<longleftrightarrow> w_user w' = fold g ts (w_user w) \<and> w_rc w' = w_rc w + length ts"

lemma emits_append: "emits g w w1 ts \<Longrightarrow> emits g w1 w' us \<Longrightarrow> emits g w w' (ts @ us)"
  by (simp add: emits_def)

lemma quiet_emits: "quiet cx db0 w w1 \<Longrightarrow> emits g w1 w' ts \<Longrightarrow> emits g w w' ts"
  by (simp add: emits_def quiet_def)

text \<open>It hands out the tuples \<open>A\<close>, and ends the run only when there are none at all.\<close>

definition hands_out :: "'s cx \<Rightarrow> dl_db \<Rightarrow> (tuple \<Rightarrow> 's \<Rightarrow> 's) \<Rightarrow> bool \<Rightarrow> tuple set \<Rightarrow> 's world \<Rightarrow> (status \<times> 's world) option \<Rightarrow> bool" where
  "hands_out cx db0 g dead A w res \<longleftrightarrow>
     (\<exists>st w' ts. res = Some (st, w') \<and> emits g w w' ts \<and> run_still cx db0 w' \<and> set ts = A \<and> (st = Exhausted \<or> st = Ended \<and> dead))"

lemma hands_out_none: "run_still cx db0 w1 \<Longrightarrow> quiet cx db0 w w1 \<Longrightarrow> hands_out cx db0 g dead {} w (Some (Exhausted, w1))"
  unfolding hands_out_def by (intro exI [of _ Exhausted] exI [of _ w1] exI [of _ "[]"]) (simp add: emits_def quiet_def)

lemma each_row_hands_out:
  assumes body: "\<And>row b' w. row \<in> set rows \<Longrightarrow> h row = Some b' \<Longrightarrow> run_still cx db0 w \<Longrightarrow> hands_out cx db0 g dead (A b') w (body b' w)"
    and dead: "\<And>b'. dead \<Longrightarrow> A b' = {}" and f: "\<And>w row. run_still cx db0 w \<Longrightarrow> f w row = h row"
  shows "run_still cx db0 w \<Longrightarrow> hands_out cx db0 g dead {t. \<exists>row \<in> set rows. \<exists>b'. h row = Some b' \<and> t \<in> A b'} w (each_row f body rows w)"
  using body
proof (induction rows arbitrary: w)
  case Nil
  then show ?case using hands_out_none quiet_refl by fastforce
next
  case (Cons row rows)
  have rest: "run_still cx db0 w \<Longrightarrow> hands_out cx db0 g dead {t. \<exists>row \<in> set rows. \<exists>b'. h row = Some b' \<and> t \<in> A b'} w (each_row f body rows w)" for w
    by (rule Cons.IH) (use Cons.prems(2) in auto)
  show ?case
  proof (cases "h row")
    case None
    have "{t. \<exists>row \<in> set (row # rows). \<exists>b'. h row = Some b' \<and> t \<in> A b'} = {t. \<exists>row \<in> set rows. \<exists>b'. h row = Some b' \<and> t \<in> A b'}"
      using None by auto
    then show ?thesis using rest [OF Cons.prems(1)] None f [OF Cons.prems(1)] by simp
  next
    case (Some b')
    have "hands_out cx db0 g dead (A b') w (body b' w)" by (rule Cons.prems(2) [OF _ Some Cons.prems(1)]) simp
    then obtain st w1 ts where r: "body b' w = Some (st, w1)" "emits g w w1 ts" "run_still cx db0 w1" "set ts = A b'" "st = Exhausted \<or> st = Ended \<and> dead"
      unfolding hands_out_def by blast
    have U: "{t. \<exists>row \<in> set (row # rows). \<exists>b'. h row = Some b' \<and> t \<in> A b'} = A b' \<union> {t. \<exists>row \<in> set rows. \<exists>b'. h row = Some b' \<and> t \<in> A b'}"
      using Some by auto
    show ?thesis
    proof (cases "st = Exhausted")
      case True
      obtain st2 w2 us where q: "each_row f body rows w1 = Some (st2, w2)" "emits g w1 w2 us" "run_still cx db0 w2"
        "set us = {t. \<exists>row \<in> set rows. \<exists>b'. h row = Some b' \<and> t \<in> A b'}" "st2 = Exhausted \<or> st2 = Ended \<and> dead"
        using rest [OF r(3)] unfolding hands_out_def by blast
      have "each_row f body (row # rows) w = Some (st2, w2)" using Some f [OF Cons.prems(1)] r(1) True q(1) by simp
      then show ?thesis using emits_append [OF r(2) q(2)] q(3-5) r(4) unfolding hands_out_def U
        by (intro exI [of _ st2] exI [of _ w2] exI [of _ "ts @ us"]) simp
    next
      case False
      then have e: "st = Ended" "dead" using r(5) by auto
      have "each_row f body (row # rows) w = Some (Ended, w1)" using Some f [OF Cons.prems(1)] r(1) e by simp
      moreover have "{t. \<exists>row \<in> set (row # rows). \<exists>b'. h row = Some b' \<and> t \<in> A b'} = A b'" unfolding U using dead [OF e(2)] by auto
      ultimately show ?thesis using r(2-4) e unfolding hands_out_def
        by (intro exI [of _ Ended] exI [of _ w1] exI [of _ ts]) (simp del: each_row.simps)
    qed
  qed
qed

lemma first_row_split:
  "first_row h rows = Some (b', rest) \<Longrightarrow> \<exists>pre row. rows = pre @ row # rest \<and> (\<forall>x \<in> set pre. h x = None) \<and> h row = Some b'"
proof (induction rows)
  case (Cons r rows)
  show ?case
  proof (cases "h r")
    case None
    then obtain pre row where "rows = pre @ row # rest" "\<forall>x \<in> set pre. h x = None" "h row = Some b'" using Cons by auto
    then show ?thesis using None by (intro exI [of _ "r # pre"] exI [of _ row]) simp
  next
    case (Some b)
    then show ?thesis using Cons.prems by (intro exI [of _ "[]"] exI [of _ r]) simp
  qed
qed simp

lemma first_row_None: "first_row h rows = None \<Longrightarrow> row \<in> set rows \<Longrightarrow> h row = None"
  by (induction rows) (auto split: option.splits)

lemma loop_rows_hands_out:
  assumes body: "\<And>row b' w. row \<in> set rows \<Longrightarrow> bindRowPerm i row sc ar None b = Some b' \<Longrightarrow> run_still cx db0 w \<Longrightarrow>
      hands_out cx db0 g dead (A b') w (body b' w)"
    and dead: "\<And>b'. dead \<Longrightarrow> A b' = {}" and sc: "resume_col op i = sc" "op = OP_SCAN \<or> op = OP_LOOKUP" "dep < MAX_FRAMES"
    and w: "run_still cx db0 w"
  shows "hands_out cx db0 g dead {t. \<exists>row \<in> set rows. \<exists>b'. bindRowPerm i row sc ar None b = Some b' \<and> t \<in> A b'} w
    (loop_rows i dep b op ar rows sc ar None body w)"
proof -
  let ?h = "\<lambda>row. bindRowPerm i row sc ar None b" and ?f = "\<lambda>w row. bindRowPerm i row (resume_col op i) ar (w_perms w ! dep) b"
  have f: "?f w row = ?h row" if "run_still cx db0 w" for w row using that sc by (simp add: run_still_def)
  show ?thesis
  proof (cases "first_row ?h rows")
    case None
    have "no_row op dep w = w" using sc(2) by (auto simp: no_row_def)
    moreover have E: "{t. \<exists>row \<in> set rows. \<exists>b'. ?h row = Some b' \<and> t \<in> A b'} = {}" using first_row_None [OF None] by auto
    ultimately show ?thesis unfolding E using None hands_out_none [OF w quiet_refl [OF w]] by (simp add: loop_rows_def)
  next
    case (Some br)
    obtain b' rest where br: "br = (b', rest)" by (cases br)
    obtain pre row where s: "rows = pre @ row # rest" "\<forall>x \<in> set pre. ?h x = None" "?h row = Some b'"
      using first_row_split [OF Some [unfolded br]] by blast
    have "hands_out cx db0 g dead {t. \<exists>r \<in> set (row # rest). \<exists>b'. ?h r = Some b' \<and> t \<in> A b'} w (each_row ?f body (row # rest) w)"
      by (rule each_row_hands_out [OF _ dead f w], rule body) (use s(1) in auto)
    moreover have "each_row ?f body (row # rest) w = loop_rows i dep b op ar rows sc ar None body w"
      using Some br s(3) f [OF w] by (simp add: loop_rows_def)
    moreover have "{t. \<exists>r \<in> set (row # rest). \<exists>b'. ?h r = Some b' \<and> t \<in> A b'} = {t. \<exists>r \<in> set rows. \<exists>b'. ?h r = Some b' \<and> t \<in> A b'}"
      using s(1,2) by auto
    ultimately show ?thesis by simp
  qed
qed

subsection \<open>A rule\<close>

text \<open>What the rest of a body derives from some bindings.\<close>

definition answers :: "'s cx \<Rightarrow> dl_db \<Rightarrow> nat set \<Rightarrow> vm_instr list \<Rightarrow> bindings \<Rightarrow> tuple set" where
  "answers cx db0 B is b = {t. \<exists>\<sigma>. extends b \<sigma> \<and> t \<in> derives cx (facts cx db0) B is \<sigma>}"

lemma answers_none: "(\<And>\<sigma>. extends b \<sigma> \<Longrightarrow> derives cx (facts cx db0) B is \<sigma> = {}) \<Longrightarrow> answers cx db0 B is b = {}"
  by (auto simp: answers_def)

definition dead_end :: "'s cx \<Rightarrow> dl_db \<Rightarrow> nat set \<Rightarrow> vm_instr list \<Rightarrow> bool" where
  "dead_end cx db0 B is \<longleftrightarrow> (\<forall>\<sigma>. derives cx (facts cx db0) B is \<sigma> = {})"

lemma act_project_ok:
  assumes dry: "cx_dry cx" "cx_cb cx = Some (\<lambda>t u. (0, g t u))" and w: "run_still cx db0 w" and op: "opcode_of i = Some OP_PROJECT"
    and ord: "in_order cx db0 B i" and b: "bound_to B b"
  shows "\<exists>w1. act_project cx None i b w = Some (Fail w1) \<and> run_still cx db0 w1 \<and> emits g w w1 [map (bGet b) (take (i_b i) (i_slots i))]"
proof -
  let ?slots = "take (i_b i) (i_slots i)" and ?db = "w_db w"
  have o: "set ?slots \<subseteq> B" "head_there db0 (i_a i) (i_b i)" using ord op by (simp_all add: in_order_def)
  have still: "db_ok (cx_en cx) (cx_fs cx) ?db" "shape ?db = shape db0" using w by (simp_all add: run_still_def db_still_def)
  have len: "i_a i < length (db_rels ?db)" using o(2) arg_cong [OF still(2), of length] by (simp add: head_there_def shape_def)
  let ?e = "db_rels ?db ! i_a i"
  have "shape ?db ! i_a i = shape db0 ! i_a i" using still(2) by simp
  then have e: "re_kind ?e = RELK_FIXED" "re_arity ?e = i_b i" using o(2) len by (simp_all add: shape_def head_there_def)
  have at: "entry_at ?db (int (i_a i)) = Some ?e" using len by (simp add: entry_at_def)
  obtain r where r: "re_rel ?e = Some r"
    using entry_at_ok [OF still(1) at] e(1) by (auto simp: entry_ok_def RELK_FIXED_def RELK_VARIADIC_def)
  have rw: "db_rel_at_arity_rw (cx_en cx) (cx_al cx) ?db (int (i_a i)) (i_b i) = (Some r, ?db)"
    using at e r list_update_id [of "db_rels ?db" "i_a i"]
    by (simp add: db_rel_at_arity_rw_def db_entry_variant_rw_def put_entry_def RELK_FIXED_def RELK_VARIADIC_def)
  have "NO_SLOT \<notin> set ?slots"
  proof
    assume "NO_SLOT \<in> set ?slots"
    then have "NO_SLOT < MAX_VARS" using o(1) b by (auto simp: bound_to_def)
    then show False by (simp add: NO_SLOT_def MAX_VARS_def)
  qed
  then show ?thesis using rw dry w
    by (simp add: act_project_def Let_def derive_def call_back_def count_up_def emits_def run_still_def)
qed

text \<open>Running the body from an instruction on hands out what it derives.\<close>

definition dry_ok :: "'s cx \<Rightarrow> (tuple \<Rightarrow> 's \<Rightarrow> 's) \<Rightarrow> bool" where
  "dry_ok cx g \<longleftrightarrow> engine_good (cx_en cx) \<and> generous (cx_al cx) \<and> cx_dry cx \<and> cx_cb cx = Some (\<lambda>t u. (0, g t u))"

lemma nest_hands_out:
  assumes cx: "dry_ok cx g"
  shows "run_still cx db0 w \<Longrightarrow> code_in_order cx db0 B (drop ip (cx_code cx)) \<Longrightarrow> bound_to B b \<Longrightarrow>
    dep + n_loops (cx_code cx) ip (length (cx_code cx)) \<le> MAX_FRAMES \<Longrightarrow>
    hands_out cx db0 g (dead_end cx db0 B (drop ip (cx_code cx))) (answers cx db0 B (drop ip (cx_code cx)) b) w
      (nest cx (length (cx_code cx)) None ip dep b w)"
proof (induction "length (cx_code cx) - ip" arbitrary: ip dep B b w)
  case 0
  then have d: "drop ip (cx_code cx) = []" by simp
  have "nest cx (length (cx_code cx)) None ip dep b w = Some (Ended, w)" using 0 by (simp add: nest.simps)
  then show ?case using 0(2) unfolding d hands_out_def
    by (intro exI [of _ Ended] exI [of _ w] exI [of _ "[]"]) (simp add: emits_def answers_def dead_end_def)
next
  case (Suc n)
  let ?hi = "length (cx_code cx)" and ?i = "cx_code cx ! ip" and ?is = "drop (Suc ip) (cx_code cx)"
  have ip: "ip < ?hi" using Suc(2) by simp
  have d: "drop ip (cx_code cx) = ?i # ?is" using ip by (simp add: Cons_nth_drop_Suc)
  have good: "engine_good (cx_en cx)" "generous (cx_al cx)" "cx_dry cx" "cx_cb cx = Some (\<lambda>t u. (0, g t u))"
    using cx by (simp_all add: dry_ok_def)
  have ord: "in_order cx db0 B ?i" "code_in_order cx db0 (binds B ?i) ?is" using Suc.prems(2) unfolding d by simp_all
  have n: "n = ?hi - Suc ip" using Suc(2) by simp
  note ih = Suc.hyps(1) [OF n, where B = "binds B ?i"]
  note loops = Suc.prems(4) [unfolded n_loops_step [OF ip]]
  let ?act = "vm_action cx ?hi None ip dep b w"
  have test: ?case if notp: "opcode_of ?i \<noteq> Some OP_PROJECT" and t: "test_ok cx db0 B ?i b w ?act"
  proof -
    obtain w1 where q: "quiet cx db0 w w1" and r: "?act = Some (Fail w1) \<and> (\<forall>\<sigma>. extends b \<sigma> \<longrightarrow> \<not> holds cx (facts cx db0) B ?i \<sigma>) \<or>
        (\<exists>b1. ?act = Some (Next b1 w1) \<and> bound_to (binds B ?i) b1 \<and>
          (\<forall>\<sigma>. extends b1 \<sigma> \<longleftrightarrow> extends b \<sigma> \<and> holds cx (facts cx db0) B ?i \<sigma>))"
      using t unfolding test_ok_def by blast
    have w1: "run_still cx db0 w1" using q by (simp add: quiet_def)
    from r show ?thesis
    proof
      assume f: "?act = Some (Fail w1) \<and> (\<forall>\<sigma>. extends b \<sigma> \<longrightarrow> \<not> holds cx (facts cx db0) B ?i \<sigma>)"
      have E: "answers cx db0 B (?i # ?is) b = {}" by (rule answers_none) (use f notp in simp)
      have "nest cx ?hi None ip dep b w = Some (Exhausted, w1)" using f ip by (simp add: nest.simps [of cx ?hi None ip])
      then show ?thesis using hands_out_none [OF w1 q] unfolding d E by simp
    next
      assume "\<exists>b1. ?act = Some (Next b1 w1) \<and> bound_to (binds B ?i) b1 \<and>
          (\<forall>\<sigma>. extends b1 \<sigma> \<longleftrightarrow> extends b \<sigma> \<and> holds cx (facts cx db0) B ?i \<sigma>)"
      then obtain b1 where b1: "?act = Some (Next b1 w1)" "bound_to (binds B ?i) b1"
        "\<And>\<sigma>. extends b1 \<sigma> \<longleftrightarrow> extends b \<sigma> \<and> holds cx (facts cx db0) B ?i \<sigma>" by blast
      have step: "nest cx ?hi None ip dep b w = nest cx ?hi None (Suc ip) dep b1 w1" using b1(1) ip by (simp add: nest.simps [of cx ?hi None ip])
      have A: "answers cx db0 B (?i # ?is) b = answers cx db0 (binds B ?i) ?is b1" using notp b1(3) by (auto simp: answers_def)
      have D: "dead_end cx db0 (binds B ?i) ?is \<Longrightarrow> dead_end cx db0 B (?i # ?is)" using notp by (simp add: dead_end_def)
      have "dep + n_loops (cx_code cx) (Suc ip) ?hi \<le> MAX_FRAMES" using loops by simp
      then have "hands_out cx db0 g (dead_end cx db0 (binds B ?i) ?is) (answers cx db0 (binds B ?i) ?is b1) w1 (nest cx ?hi None (Suc ip) dep b1 w1)"
        by (rule ih [OF w1 ord(2) b1(2)])
      then show ?thesis using D quiet_emits [OF q] unfolding d A step hands_out_def by blast
    qed
  qed
  have loop: ?case if op: "opcode_of ?i = Some OP_SCAN \<or> opcode_of ?i = Some OP_LOOKUP" and l: "loop_ok cx db0 B ?i b w ?act"
  proof -
    have notp: "opcode_of ?i \<noteq> Some OP_PROJECT" using op by auto
    have isl: "is_loop ?i" using op by (auto simp: is_loop_def loop_ops_def)
    from l consider (stop) "?act = Some (Stop w)" "\<forall>\<sigma>. \<not> holds cx (facts cx db0) B ?i \<sigma>"
      | (fail) "?act = Some (Fail w)" "\<forall>\<sigma>. extends b \<sigma> \<longrightarrow> \<not> holds cx (facts cx db0) B ?i \<sigma>"
      | (rows) lop ar rows sc w1 where "?act = Some (Loop lop ar rows sc ar None w1)" "quiet cx db0 w w1" "lop = OP_SCAN \<or> lop = OP_LOOKUP"
        "resume_col lop ?i = sc"
        "\<And>row \<sigma>. row \<in> set rows \<Longrightarrow> bindRowPerm ?i row sc ar None b = None \<Longrightarrow> extends b \<sigma> \<Longrightarrow> \<not> agrees ?i ar \<sigma> row"
        "\<And>row b' \<sigma>. row \<in> set rows \<Longrightarrow> bindRowPerm ?i row sc ar None b = Some b' \<Longrightarrow>
           bound_to (binds B ?i) b' \<and> (extends b' \<sigma> \<longleftrightarrow> extends b \<sigma> \<and> agrees ?i ar \<sigma> row)"
        "\<And>\<sigma>. extends b \<sigma> \<Longrightarrow> holds cx (facts cx db0) B ?i \<sigma> \<longleftrightarrow> (\<exists>row \<in> set rows. agrees ?i ar \<sigma> row)"
      unfolding loop_ok_def by blast
    then show ?thesis
    proof cases
      case stop
      have "dead_end cx db0 B (?i # ?is)" "answers cx db0 B (?i # ?is) b = {}" using stop(2) notp by (auto simp: dead_end_def intro!: answers_none)
      moreover have "nest cx ?hi None ip dep b w = Some (Ended, w)" using stop(1) ip by (simp add: nest.simps [of cx ?hi None ip])
      ultimately show ?thesis using Suc.prems(1) unfolding d hands_out_def
        by (intro exI [of _ Ended] exI [of _ w] exI [of _ "[]"]) (simp add: emits_def)
    next
      case fail
      have E: "answers cx db0 B (?i # ?is) b = {}" by (rule answers_none) (use fail(2) notp in simp)
      have "nest cx ?hi None ip dep b w = Some (Exhausted, w)" using fail(1) ip by (simp add: nest.simps [of cx ?hi None ip])
      then show ?thesis using hands_out_none [OF Suc.prems(1) quiet_refl [OF Suc.prems(1)]] unfolding d E by simp
    next
      case rows
      let ?A = "answers cx db0 (binds B ?i) ?is" and ?body = "\<lambda>b w. nest cx ?hi None (Suc ip) (Suc dep) b w"
      have deps: "Suc dep + n_loops (cx_code cx) (Suc ip) ?hi \<le> MAX_FRAMES" "dep < MAX_FRAMES" using loops isl by simp_all
      have w1: "run_still cx db0 w1" using rows(2) by (simp add: quiet_def)
      have body: "hands_out cx db0 g (dead_end cx db0 (binds B ?i) ?is) (?A b') w' (?body b' w')"
        if "row \<in> set rows" "bindRowPerm ?i row sc ar None b = Some b'" "run_still cx db0 w'" for row b' w'
        using rows(6) [OF that(1,2)] by (intro ih [OF that(3) ord(2) _ deps(1)]) blast
      have dead: "?A b' = {}" if "dead_end cx db0 (binds B ?i) ?is" for b' using that by (simp add: answers_def dead_end_def)
      have H: "hands_out cx db0 g (dead_end cx db0 (binds B ?i) ?is)
          {t. \<exists>row \<in> set rows. \<exists>b'. bindRowPerm ?i row sc ar None b = Some b' \<and> t \<in> ?A b'} w1 (loop_rows ?i dep b lop ar rows sc ar None ?body w1)"
        by (rule loop_rows_hands_out [OF body dead rows(4,3) deps(2) w1])
      have step: "nest cx ?hi None ip dep b w = loop_rows ?i dep b lop ar rows sc ar None ?body w1"
        using rows(1) ip by (simp add: nest.simps [of cx ?hi None ip])
      have D: "dead_end cx db0 (binds B ?i) ?is \<Longrightarrow> dead_end cx db0 B (?i # ?is)" using notp by (simp add: dead_end_def)
      have A: "answers cx db0 B (?i # ?is) b = {t. \<exists>row \<in> set rows. \<exists>b'. bindRowPerm ?i row sc ar None b = Some b' \<and> t \<in> ?A b'}"
      proof (intro set_eqI iffI)
        fix t assume "t \<in> answers cx db0 B (?i # ?is) b"
        then obtain \<sigma> where s: "extends b \<sigma>" "holds cx (facts cx db0) B ?i \<sigma>" "t \<in> derives cx (facts cx db0) (binds B ?i) ?is \<sigma>"
          using notp by (auto simp: answers_def split: if_splits)
        then obtain row where row: "row \<in> set rows" "agrees ?i ar \<sigma> row" using rows(7) [OF s(1)] by blast
        then obtain b' where b': "bindRowPerm ?i row sc ar None b = Some b'" using rows(5) [OF row(1) _ s(1)] by fastforce
        then have "extends b' \<sigma>" using rows(6) [OF row(1) b'] s(1) row(2) by blast
        then show "t \<in> {t. \<exists>row \<in> set rows. \<exists>b'. bindRowPerm ?i row sc ar None b = Some b' \<and> t \<in> ?A b'}"
          using row(1) b' s(3) by (auto simp: answers_def)
      next
        fix t assume "t \<in> {t. \<exists>row \<in> set rows. \<exists>b'. bindRowPerm ?i row sc ar None b = Some b' \<and> t \<in> ?A b'}"
        then obtain row b' \<sigma> where s: "row \<in> set rows" "bindRowPerm ?i row sc ar None b = Some b'" "extends b' \<sigma>"
          "t \<in> derives cx (facts cx db0) (binds B ?i) ?is \<sigma>" by (auto simp: answers_def)
        have e: "extends b \<sigma>" "agrees ?i ar \<sigma> row" using rows(6) [OF s(1,2)] s(3) by blast+
        then have "holds cx (facts cx db0) B ?i \<sigma>" using rows(7) s(1) by blast
        then show "t \<in> answers cx db0 B (?i # ?is) b" using e(1) s(4) notp by (auto simp: answers_def)
      qed
      show ?thesis using H D quiet_emits [OF rows(2)] unfolding d A step hands_out_def by blast
    qed
  qed
  have "\<exists>op. opcode_of ?i = Some op" using ord(1) by (cases "opcode_of ?i") (simp_all add: in_order_def)
  then obtain op where op: "opcode_of ?i = Some op" by blast
  have dep: "is_loop ?i \<Longrightarrow> dep < MAX_FRAMES" using loops by simp
  note w = Suc.prems(1) and b = Suc.prems(3)
  show ?case
  proof (cases op)
    case OP_SCAN
    have "dep < MAX_FRAMES" by (rule dep) (simp add: is_loop_def loop_ops_def op OP_SCAN)
    then show ?thesis using loop act_scan_ok [OF good(1,2) w _ ord(1) b] op OP_SCAN by (simp add: vm_action_def Let_def)
  next
    case OP_LOOKUP
    have "dep < MAX_FRAMES" by (rule dep) (simp add: is_loop_def loop_ops_def op OP_LOOKUP)
    then show ?thesis using loop act_lookup_ok [OF good(1,2) w _ ord(1) b] op OP_LOOKUP by (simp add: vm_action_def Let_def)
  next
    case OP_NEG_CHECK
    then show ?thesis using test act_neg_check_ok [OF good(1) w _ ord(1) b] op by (simp add: vm_action_def Let_def)
  next
    case OP_EQ
    then show ?thesis using test act_eq_ok [OF w _ ord(1) b] op by (simp add: vm_action_def Let_def)
  next
    case OP_EQ_CONST
    then show ?thesis using test act_eq_const_ok [OF w _ ord(1) b] op by (simp add: vm_action_def Let_def)
  next
    case OP_CMP
    then show ?thesis using test act_cmp_ok [OF w _ ord(1) b] op by (simp add: vm_action_def Let_def)
  next
    case OP_ARITH
    then show ?thesis using test act_arith_ok [OF w _ ord(1) b] op by (simp add: vm_action_def Let_def)
  next
    case OP_PROJECT
    then have p: "opcode_of ?i = Some OP_PROJECT" using op by simp
    obtain w1 where w1: "act_project cx None ?i b w = Some (Fail w1)" "run_still cx db0 w1" "emits g w w1 [map (bGet b) (take (i_b ?i) (i_slots ?i))]"
      using act_project_ok [OF good(3,4) w p ord(1) b] by blast
    have "set (take (i_b ?i) (i_slots ?i)) \<subseteq> B" using ord(1) p by (simp add: in_order_def)
    then have same: "map \<sigma> (take (i_b ?i) (i_slots ?i)) = map (bGet b) (take (i_b ?i) (i_slots ?i))" if "extends b \<sigma>" for \<sigma>
      using bGet_extends [OF b that] by auto
    have "answers cx db0 B (?i # ?is) b = {map (bGet b) (take (i_b ?i) (i_slots ?i))}"
    proof -
      have "derives cx (facts cx db0) B (?i # ?is) \<sigma> = {map (bGet b) (take (i_b ?i) (i_slots ?i))}" if "extends b \<sigma>" for \<sigma>
        using p same [OF that] by simp
      then show ?thesis unfolding answers_def using extends_exists [of b] by blast
    qed
    moreover have "nest cx ?hi None ip dep b w = Some (Exhausted, w1)"
      using w1(1) p ip by (simp add: nest.simps [of cx ?hi None ip] vm_action_def Let_def)
    ultimately show ?thesis using w1(2,3) unfolding d hands_out_def
      by (intro exI [of _ Exhausted] exI [of _ w1] exI [of _ "[map (bGet b) (take (i_b ?i) (i_slots ?i))]"]) simp
  next
    case OP_HALT
    then have h: "\<not> holds cx (facts cx db0) B ?i \<sigma>" for \<sigma> using op by (simp add: holds_def)
    have "dead_end cx db0 B (?i # ?is)" "answers cx db0 B (?i # ?is) b = {}" using h op OP_HALT by (auto simp: dead_end_def intro!: answers_none)
    moreover have "nest cx ?hi None ip dep b w = Some (Ended, w)" using op OP_HALT ip by (simp add: nest.simps [of cx ?hi None ip] vm_action_def Let_def)
    ultimately show ?thesis using w unfolding d hands_out_def
      by (intro exI [of _ Ended] exI [of _ w] exI [of _ "[]"]) (simp add: emits_def)
  qed (use ord(1) op in \<open>simp_all add: in_order_def\<close>)
qed

text \<open>A body in order has neither sub-ranges nor aggregation, so a run of it has no buffers and no accumulator.\<close>

lemma in_order_plain:
  "code_in_order cx db B is \<Longrightarrow> i \<in> set is \<Longrightarrow> opcode_of i \<notin> {Some OP_MAT_BEGIN, Some OP_AGG_ACC, Some OP_AGG_EMIT}"
  by (induction "is" arbitrary: B) (auto simp: in_order_def)

lemma in_order_run:
  assumes "code_in_order cx db B (cx_code cx)"
  shows "n_mat (cx_code cx) = 0" "agg_setup cx 0 (length (cx_code cx)) = Some None"
proof -
  note plain = in_order_plain [OF assms]
  show "n_mat (cx_code cx) = 0" using plain by (auto simp: n_mat_def filter_empty_conv)
  have "last_op OP_AGG_ACC (cx_code cx) 0 (length (cx_code cx)) = None"
    using plain [OF nth_mem] by (auto simp: last_op_def find_None_iff)
  then show "agg_setup cx 0 (length (cx_code cx)) = Some None" by (simp add: agg_setup_def)
qed

text \<open>The tuples a rule derives from the facts of a database.\<close>

definition derived :: "'s cx \<Rightarrow> dl_db \<Rightarrow> tuple set" where
  "derived cx db = (\<Union>\<sigma>. derives cx (facts cx db) {} (cx_code cx) \<sigma>)"

lemma execRule_derives:
  assumes cx: "dry_ok cx g" and db: "db_ok (cx_en cx) (cx_fs cx) db" and ord: "code_in_order cx db {} (cx_code cx)"
    and loops: "n_loops (cx_code cx) 0 (length (cx_code cx)) \<le> MAX_FRAMES"
  shows "\<exists>ts w'. execRule cx db user = Some (int (length ts), w') \<and> w_user w' = fold g ts user \<and> set ts = derived cx db \<and>
    db_still (cx_en cx) (cx_fs cx) db (w_db w')"
proof -
  let ?w = "rule_world cx db user"
  note plain = in_order_run [OF ord]
  have w: "run_still cx db ?w" "run_world None ?w = ?w" "w_rc ?w = 0" "w_user ?w = user"
    using db by (simp_all add: run_still_def db_still_def rule_world_def run_world_def)
  have "hands_out cx db g (dead_end cx db {} (cx_code cx)) (answers cx db {} (cx_code cx) bInit) ?w
      (nest cx (length (cx_code cx)) None 0 0 bInit ?w)"
    using nest_hands_out [OF cx w(1), where ip = 0 and dep = 0, OF _ bInit_ok(1)] ord loops by simp
  then obtain st w' ts where r: "nest cx (length (cx_code cx)) None 0 0 bInit ?w = Some (st, w')" "emits g ?w w' ts" "run_still cx db w'"
    "set ts = answers cx db {} (cx_code cx) bInit" "st = Exhausted \<or> st = Ended"
    unfolding hands_out_def by blast
  have "run_result cx (Finished w') = (int (length ts), w')"
    using r(2,3) w(3) by (simp add: run_result_def run_finish_def run_still_def emits_def)
  then have "execRule cx db user = Some (int (length ts), w')"
    using plain w(2) r(1,5) by (auto simp: execRule_nested nested_rule_def nested_range_def)
  moreover have "set ts = derived cx db" using r(4) bInit_ok(2) by (auto simp: answers_def derived_def)
  ultimately show ?thesis using r(2,3) w(4) by (auto simp: emits_def run_still_def)
qed

subsection \<open>Property\<close>

text \<open>C2: a dry run of a compiled rule computes the rule's meaning, for the core of the instruction set: bodies that
  the instructions evaluate in order, made of scans, lookups from the leading columns, negated atoms, equations,
  comparisons and arithmetic with a projection at the end, in which variables have values before they
  are used, with at most eight loops and with memory for the rows (without it a frame silently
  keeps the rows it has, vm.zig:783). Such a rule ends with the number of tuples it handed out, and these are exactly the heads of the
  valuations that satisfy every instruction over the facts of the database (and the substituted row sources); the database
  keeps its facts and its relations. Hash joins, permuted lookups, walks, ranges, lists, strings and aggregates are outside
  of this theorem.\<close>

theorem dry_run_correct:
  assumes "dry_ok cx g" "db_ok (cx_en cx) (cx_fs cx) db" "code_in_order cx db {} (cx_code cx)"
    "n_loops (cx_code cx) 0 (length (cx_code cx)) \<le> MAX_FRAMES"
  shows "\<exists>ts w'. execRule cx db user = Some (int (length ts), w') \<and> w_user w' = fold g ts user \<and> set ts = derived cx db \<and>
    db_still (cx_en cx) (cx_fs cx) db (w_db w')"
  by (rule execRule_derives [OF assms])

text \<open>The rule \<open>p(y, x) :- q(x, y)\<close> with its atom read from the rows \<open>{[1, 2]}\<close>.\<close>

definition flip_scan :: vm_instr where
  "flip_scan = \<lparr>i_op = 1, i_a = 0, i_b = 2, i_c = 0, i_imm = 0, i_slots = [0, 1, 255, 255, 255, 255, 255, 255], i_body_idx = 0\<rparr>"

definition flip_head :: vm_instr where
  "flip_head = \<lparr>i_op = 5, i_a = 0, i_b = 2, i_c = 0, i_imm = 0, i_slots = [1, 0, 255, 255, 255, 255, 255, 255], i_body_idx = 0\<rparr>"

definition flip_cx :: "tuple_set \<Rightarrow> tuple list cx" where
  "flip_cx ts = \<lparr>cx_en = trie_engine, cx_al = \<lambda>_ _. True, cx_fs = no_files,
     cx_code = [flip_scan, flip_head],
     cx_ov = [\<lparr>ov_body_idx = 0, ov_ts = Some ts, ov_perm_id = -1\<rparr>],
     cx_dry = True, cx_cb = Some (\<lambda>t ts. (0, ts @ [t])), cx_other = \<lambda>i dep b w. None\<rparr>"

theorem dry_run_correct_witness:
  "\<exists>ts w. ts_data ts = [[1, 2]] \<and> execRule (flip_cx ts) one_rel_db [] = Some (int (length (w_user w)), w) \<and> set (w_user w) = {[2, 1]}"
proof (rule one_set)
  fix n ts assume ts: "ts_inv ts" "ts_data ts = [[1, 2]]" "ts_arity ts = 2"
  let ?cx = "flip_cx ts" and ?g = "\<lambda>t ts. ts @ [t]"
  have code: "cx_code ?cx = [flip_scan, flip_head]" by (simp add: flip_cx_def)
  have ops: "opcode_of flip_scan = Some OP_SCAN" "opcode_of flip_head = Some OP_PROJECT" by (simp_all add: flip_scan_def flip_head_def opcode_of_def opcodes_def)
  have args: "i_b flip_scan = 2" "length (i_slots flip_scan) = 8" "take 2 (i_slots flip_head) = [1, 0]" "i_b flip_head = 2" "i_a flip_head = 0" "slot flip_scan 0 = 0" "slot flip_scan 1 = 1"
    "i_body_idx flip_scan = 0" by (simp_all add: flip_scan_def flip_head_def slot_def numeral_2_eq_2)
  have feed: "feed ?cx flip_scan = Some ts" using ts(2) by (simp add: feed_def args) (simp add: flip_cx_def ts_count_def)
  have two: "(\<forall>j < 2. P j) \<longleftrightarrow> P 0 \<and> P 1" for P :: "nat \<Rightarrow> bool" using less_2_cases_iff by auto
  have cols: "col_slots flip_scan 2 = {0, 1}" using args(6,7) by (force simp: col_slots_def NO_SLOT_def less_2_cases_iff)
  have dry: "dry_ok ?cx ?g" using trie_engine_ok by (simp add: dry_ok_def engine_good_def flip_cx_def generous_def)
  have db: "db_ok (cx_en ?cx) (cx_fs ?cx) one_rel_db" using one_rel_db_ok by (simp add: flip_cx_def)
  have head: "head_there one_rel_db 0 2" by (simp add: head_there_def one_rel_db_def)
  have scan: "in_order ?cx one_rel_db {} flip_scan"
    using ops(1) args feed ts by (simp add: in_order_def cols_fit_def feed_fits_def two MAX_ARITY_def MAX_VARS_def)
  have B: "binds {} flip_scan = {0, 1}" using ops(1) args(1) cols by (simp add: binds_def)
  have "in_order ?cx one_rel_db {0, 1} flip_head" using ops(2) args(3-5) head by (simp add: in_order_def MAX_ARITY_def)
  then have ord: "code_in_order ?cx one_rel_db {} (cx_code ?cx)" unfolding code using scan B by simp
  have loops: "n_loops (cx_code ?cx) 0 (length (cx_code ?cx)) \<le> MAX_FRAMES"
    unfolding code by (simp add: n_loops_def MAX_FRAMES_def le_trans [OF length_filter_le])
  have H: "derives ?cx (facts ?cx one_rel_db) {} (cx_code ?cx) \<sigma> = (if \<sigma> 0 = 1 \<and> \<sigma> 1 = 2 then {[\<sigma> 1, \<sigma> 0]} else {})" for \<sigma>
    unfolding code using ops args feed ts(2) by (auto simp: holds_def source_def agrees_def ts_rows_def two NO_SLOT_def)
  have "derived ?cx one_rel_db = {[2, 1]}"
  proof -
    have "[2, 1] \<in> derives ?cx (facts ?cx one_rel_db) {} (cx_code ?cx) (\<lambda>s. if s = 0 then 1 else 2)" unfolding H by simp
    moreover have "derives ?cx (facts ?cx one_rel_db) {} (cx_code ?cx) \<sigma> \<subseteq> {[2, 1]}" for \<sigma> unfolding H by simp
    ultimately show ?thesis unfolding derived_def by blast
  qed
  then obtain out w where r: "execRule ?cx one_rel_db [] = Some (int (length out), w)" "w_user w = fold ?g out []" "set out = {[2, 1]}"
    using dry_run_correct [OF dry db ord loops, of "[]"] by blast
  have "fold ?g xs ys = ys @ xs" for xs ys :: "tuple list" by (induction xs arbitrary: ys) simp_all
  then show ?thesis using r ts(2) by auto
qed

end
