(* ===== verification/Scc.thy ===== *)
theory Scc
  imports Prelude
begin

text \<open>
  Strongly connected components as the stratifier computes them (\<^verbatim>\<open>zig/src/compiler.zig\<close>, the Kosaraju part of
  \<^verbatim>\<open>compute_strata\<close>): a depth-first search with an explicit stack of nodes and positions in their adjacency
  lists, once over the graph for the order in which nodes are left, once over the reversed graph in the
  opposite order.  The lemmas show that two nodes get the same component exactly when each reaches the
  other, and that a node is marked when its component has another node.
\<close>

subsection \<open>The search\<close>

text \<open>The position of the next neighbour not visited yet, from position \<open>idx\<close> on.\<close>

definition next_new :: "nat list list \<Rightarrow> bool list \<Rightarrow> nat \<Rightarrow> nat \<Rightarrow> nat option" where
  "next_new adj vis node idx = find (\<lambda>j. \<not> vis ! (adj ! node ! j)) [idx..<length (adj ! node)]"

text \<open>The top of the stack goes on at its next neighbour or is left; \<open>out\<close> collects the nodes left.  A neighbour
  is a node, so the last branch is not taken.\<close>

function dfs :: "nat list list \<Rightarrow> bool list \<Rightarrow> (nat \<times> nat) list \<Rightarrow> nat list \<Rightarrow> bool list \<times> nat list" where
  "dfs adj vis [] out = (vis, out)"
| "dfs adj vis ((node, idx) # st) out =
     (case next_new adj vis node idx of
        None \<Rightarrow> dfs adj vis st (out @ [node])
      | Some j \<Rightarrow>
          (let nb = adj ! node ! j in
           if nb < length vis then dfs adj (vis[nb := True]) ((nb, 0) # (node, j + 1) # st) out else (vis, out)))"
  by pat_completeness auto

lemma next_new_Some: "next_new adj vis node idx = Some j \<Longrightarrow> idx \<le> j \<and> j < length (adj ! node) \<and> \<not> vis ! (adj ! node ! j) \<and>
    (\<forall>k. idx \<le> k \<and> k < j \<longrightarrow> vis ! (adj ! node ! k))"
proof -
  assume "next_new adj vis node idx = Some j"
  then obtain i where i: "i < length (adj ! node) - idx" "j = idx + i" "\<not> vis ! (adj ! node ! j)"
    "\<forall>k < i. vis ! (adj ! node ! (idx + k))"
    unfolding next_new_def find_Some_iff by auto
  have "vis ! (adj ! node ! k)" if "idx \<le> k" "k < j" for k using i(2,4) that by (auto dest: spec [of _ "k - idx"])
  then show ?thesis using i by auto
qed

lemma next_new_None: "next_new adj vis node idx = None \<Longrightarrow> \<forall>k. idx \<le> k \<and> k < length (adj ! node) \<longrightarrow> vis ! (adj ! node ! k)"
  unfolding next_new_def find_None_iff by auto

lemma filter_Not_update: "nb < length vis \<Longrightarrow> \<not> vis ! nb \<Longrightarrow> length (filter Not (vis[nb := True])) < length (filter Not vis)"
  by (induction vis arbitrary: nb) (auto simp: nth_Cons split: nat.splits)

termination dfs
  by (relation "measures [\<lambda>(adj, vis, st, out). length (filter Not vis), \<lambda>(adj, vis, st, out). length st]")
    (auto dest!: next_new_Some intro: filter_Not_update)

text \<open>First pass: the order in which the nodes are left.\<close>

definition dfs_from :: "nat list list \<Rightarrow> nat \<Rightarrow> bool list \<times> nat list \<Rightarrow> bool list \<times> nat list" where
  "dfs_from adj root s = (case s of (vis, out) \<Rightarrow> if vis ! root then (vis, out) else dfs adj (vis[root := True]) [(root, 0)] out)"

definition postorder :: "nat list list \<Rightarrow> nat list" where
  "postorder adj = snd (fold (dfs_from adj) [0..<length adj] (replicate (length adj) False, []))"

text \<open>Second pass: the component of a root is what a search of the reversed graph adds.  With more than one
  node in it, every index whose entry is now the root is marked, those not assigned so far included.\<close>

definition scc_from :: "nat list list \<Rightarrow> nat \<Rightarrow> bool list \<times> int list \<times> bool list \<Rightarrow> bool list \<times> int list \<times> bool list" where
  "scc_from radj root s =
     (case s of (vis, co, rec) \<Rightarrow>
        if vis ! root then s
        else case dfs radj (vis[root := True]) [(root, 0)] [] of (vis', members) \<Rightarrow>
          (let co' = fold (\<lambda>v c. c[v := int root]) members co in
           (vis', co', if length members > 1 then map (\<lambda>i. rec ! i \<or> co' ! i = int root) [0..<length rec] else rec)))"

text \<open>The array of components is not initialised: \<open>junk\<close> is what it holds before.\<close>

definition components :: "nat list list \<Rightarrow> nat list list \<Rightarrow> int list \<Rightarrow> bool list \<Rightarrow> int list \<times> bool list" where
  "components adj radj junk rec = snd (fold (scc_from radj) (rev (postorder adj)) (replicate (length adj) False, junk, rec))"

subsection \<open>Reachability\<close>

definition arcs :: "nat list list \<Rightarrow> (nat \<times> nat) set" where
  "arcs adj = {(u, v). u < length adj \<and> v \<in> set (adj ! u)}"

definition graph_ok :: "nat list list \<Rightarrow> bool" where
  "graph_ok adj \<longleftrightarrow> (\<forall>u < length adj. \<forall>v \<in> set (adj ! u). v < length adj)"

definition mutual :: "nat list list \<Rightarrow> nat \<Rightarrow> nat \<Rightarrow> bool" where
  "mutual adj u v \<longleftrightarrow> (u, v) \<in> (arcs adj)\<^sup>* \<and> (v, u) \<in> (arcs adj)\<^sup>*"

lemma mutual_refl [simp]: "mutual adj u u"
  by (simp add: mutual_def)

lemma mutual_sym: "mutual adj u v \<Longrightarrow> mutual adj v u"
  by (simp add: mutual_def)

lemma mutual_trans: "mutual adj u v \<Longrightarrow> mutual adj v w \<Longrightarrow> mutual adj u w"
  by (auto simp: mutual_def)

lemma arcs_less: "graph_ok adj \<Longrightarrow> (u, v) \<in> arcs adj \<Longrightarrow> u < length adj \<and> v < length adj"
  by (auto simp: arcs_def graph_ok_def)

lemma reach_less: "(u, v) \<in> (arcs adj)\<^sup>* \<Longrightarrow> graph_ok adj \<Longrightarrow> u < length adj \<longleftrightarrow> v < length adj"
  by (induction rule: rtrancl_induct) (auto dest: arcs_less)

text \<open>In a list, \<open>u\<close> stands no later than \<open>v\<close>.\<close>

definition no_later :: "nat list \<Rightarrow> nat \<Rightarrow> nat \<Rightarrow> bool" where
  "no_later xs u v \<longleftrightarrow> (\<exists>i j. i \<le> j \<and> j < length xs \<and> xs ! i = u \<and> xs ! j = v)"

lemma no_later_append: "no_later xs u v \<Longrightarrow> no_later (xs @ ys) u v"
proof -
  assume "no_later xs u v"
  then obtain i j where "i \<le> j" "j < length xs" "xs ! i = u" "xs ! j = v" unfolding no_later_def by blast
  then show ?thesis unfolding no_later_def by (intro exI [of _ i] exI [of _ j]) (simp add: nth_append)
qed

lemma no_later_snoc: "u \<in> set (xs @ [v]) \<Longrightarrow> no_later (xs @ [v]) u v"
proof -
  assume "u \<in> set (xs @ [v])"
  then obtain i where "i < length (xs @ [v])" "(xs @ [v]) ! i = u" unfolding in_set_conv_nth by blast
  then show ?thesis unfolding no_later_def by (intro exI [of _ i] exI [of _ "length xs"]) simp
qed

subsection \<open>What a search keeps\<close>

definition dfs_inv :: "nat list list \<Rightarrow> bool list \<Rightarrow> (nat \<times> nat) list \<Rightarrow> nat set \<Rightarrow> bool" where
  "dfs_inv adj vis st Out \<longleftrightarrow>
     graph_ok adj \<and> length vis = length adj \<and> distinct (map fst st) \<and> fst ` set st \<inter> Out = {} \<and>
     fst ` set st \<union> Out = {i. i < length adj \<and> vis ! i} \<and>
     (\<forall>u \<in> Out. \<forall>v \<in> set (adj ! u). vis ! v) \<and>
     (\<forall>(u, i) \<in> set st. \<forall>k < i. k < length (adj ! u) \<longrightarrow> vis ! (adj ! u ! k)) \<and>
     sorted_wrt (\<lambda>u v. (v, u) \<in> (arcs adj)\<^sup>*) (map fst st)"

text \<open>Leaving the top of the stack: every neighbour of it has been visited.\<close>

lemma dfs_inv_pop:
  assumes "dfs_inv adj vis ((node, idx) # st) Out" "next_new adj vis node idx = None"
  shows "dfs_inv adj vis st (insert node Out)"
proof -
  have "vis ! v" if "v \<in> set (adj ! node)" for v
    using that assms next_new_None [OF assms(2)] unfolding dfs_inv_def in_set_conv_nth
    by (auto simp: not_less) (metis not_le)
  then show ?thesis using assms(1) unfolding dfs_inv_def by auto
qed

lemma dfs_inv_push:
  assumes inv: "dfs_inv adj vis ((node, idx) # st) Out" and new: "next_new adj vis node idx = Some j"
  defines "nb \<equiv> adj ! node ! j"
  shows "nb < length vis" "dfs_inv adj (vis[nb := True]) ((nb, 0) # (node, j + 1) # st) Out"
proof -
  note j = next_new_Some [OF new]
  have node: "node < length adj" "length vis = length adj" "graph_ok adj" using inv by (auto simp: dfs_inv_def)
  have nb: "nb < length adj" using j node by (auto simp: graph_ok_def nb_def)
  then show "nb < length vis" using node by simp
  have arc: "(node, nb) \<in> arcs adj" using j node by (simp add: arcs_def nb_def)
  have "insert node (fst ` set st \<union> Out) = {i. i < length adj \<and> vis ! i}" using inv unfolding dfs_inv_def by simp
  moreover have "nb \<notin> {i. i < length adj \<and> vis ! i}" using j by (simp add: nb_def)
  ultimately have fresh: "nb \<notin> insert node (fst ` set st)" "nb \<notin> Out" by blast+
  have old: "vis ! (adj ! node ! k)" if "k < Suc j" "k \<noteq> j" for k
    using inv j that unfolding dfs_inv_def by (cases "k < idx") auto
  have visited: "fst ` set ((nb, 0 :: nat) # (node, j + 1) # st) \<union> Out = {i. i < length adj \<and> vis[nb := True] ! i}"
    using inv nb node(2) unfolding dfs_inv_def by (auto simp: nth_list_update_if)
  have "sorted_wrt (\<lambda>u v. (v, u) \<in> (arcs adj)\<^sup>*) (nb # node # map fst st)"
    using inv arc unfolding dfs_inv_def by (auto intro: rtrancl_into_rtrancl)
  moreover have grown: "vis ! x \<Longrightarrow> vis[nb := True] ! x" for x using nb node(2) by (cases "x = nb") simp_all
  have "vis[nb := True] ! (adj ! node ! k)" if "k < Suc j" for k
    using old [OF that] nb node(2) grown by (cases "k = j") (simp_all add: nb_def)
  then have "\<forall>(u, i) \<in> set ((nb, 0) # (node, j + 1) # st). \<forall>k < i. k < length (adj ! u) \<longrightarrow> vis[nb := True] ! (adj ! u ! k)"
    using inv grown unfolding dfs_inv_def by fastforce
  moreover have "\<forall>u \<in> Out. \<forall>v \<in> set (adj ! u). vis[nb := True] ! v" using inv grown unfolding dfs_inv_def by blast
  ultimately show "dfs_inv adj (vis[nb := True]) ((nb, 0) # (node, j + 1) # st) Out"
    using inv fresh visited unfolding dfs_inv_def by simp
qed

text \<open>A search from a stack leaves every node of it and some nodes they reach, each once; it ends with no stack.\<close>

lemma dfs_result:
  "dfs_inv adj vis st (W \<union> set out) \<Longrightarrow> distinct out \<Longrightarrow> W \<inter> set out = {} \<Longrightarrow>
   \<exists>vis' ms. dfs adj vis st out = (vis', out @ ms) \<and> dfs_inv adj vis' [] (W \<union> set (out @ ms)) \<and> distinct (out @ ms) \<and>
     W \<inter> set (out @ ms) = {} \<and> fst ` set st \<subseteq> set ms \<and> (\<forall>m \<in> set ms. \<exists>u \<in> fst ` set st. (u, m) \<in> (arcs adj)\<^sup>*)"
proof (induction adj vis st out rule: dfs.induct)
  case (1 adj vis out)
  then show ?case by simp
next
  case (2 adj vis node idx st out)
  have top: "node \<notin> W \<union> set out" using 2(3) by (auto simp: dfs_inv_def)
  show ?case
  proof (cases "next_new adj vis node idx")
    case None
    have "dfs_inv adj vis st (W \<union> set (out @ [node]))" using dfs_inv_pop [OF 2(3) None] by simp
    moreover have "distinct (out @ [node])" "W \<inter> set (out @ [node]) = {}" using 2(4,5) top by auto
    ultimately obtain vis' ms where r: "dfs adj vis st (out @ [node]) = (vis', (out @ [node]) @ ms)"
      "dfs_inv adj vis' [] (W \<union> set ((out @ [node]) @ ms))" "distinct ((out @ [node]) @ ms)" "W \<inter> set ((out @ [node]) @ ms) = {}"
      "fst ` set st \<subseteq> set ms" "\<forall>m \<in> set ms. \<exists>u \<in> fst ` set st. (u, m) \<in> (arcs adj)\<^sup>*"
      using 2(1) [OF None] by blast
    then show ?thesis using None by (intro exI [of _ vis'] exI [of _ "node # ms"]) auto
  next
    case (Some j)
    let ?nb = "adj ! node ! j"
    note push = dfs_inv_push [OF 2(3) Some]
    have arc: "(node, ?nb) \<in> arcs adj"
      using next_new_Some [OF Some] 2(3) unfolding dfs_inv_def arcs_def by auto
    obtain vis' ms where r: "dfs adj (vis[?nb := True]) ((?nb, 0) # (node, j + 1) # st) out = (vis', out @ ms)"
      "dfs_inv adj vis' [] (W \<union> set (out @ ms))" "distinct (out @ ms)" "W \<inter> set (out @ ms) = {}"
      "fst ` set ((?nb, 0) # (node, j + 1) # st) \<subseteq> set ms"
      "\<forall>m \<in> set ms. \<exists>u \<in> fst ` set ((?nb, 0 :: nat) # (node, j + 1) # st). (u, m) \<in> (arcs adj)\<^sup>*"
      using 2(2) [OF Some refl push(1) push(2) 2(4,5)] by blast
    moreover have "\<exists>u \<in> fst ` set ((node, idx) # st). (u, m) \<in> (arcs adj)\<^sup>*" if "m \<in> set ms" for m
      using r(6) that arc by (auto intro: converse_rtrancl_into_rtrancl)
    ultimately show ?thesis using Some push(1) by (intro exI [of _ vis'] exI [of _ ms]) (auto simp: Let_def)
  qed
qed

subsection \<open>The first pass\<close>

text \<open>Whatever a node left reaches, a node of its component is left no earlier than it, or is still on the stack.\<close>

definition left_ok :: "nat list list \<Rightarrow> (nat \<times> nat) list \<Rightarrow> nat list \<Rightarrow> bool" where
  "left_ok adj st out \<longleftrightarrow>
     (\<forall>x \<in> set out. \<forall>v. (x, v) \<in> (arcs adj)\<^sup>* \<longrightarrow>
       (\<exists>y \<in> fst ` set st. mutual adj x y) \<or> (\<exists>y. mutual adj x y \<and> no_later out v y))"

text \<open>A node that is left reaches only nodes left before, or some node on the stack reaches it back.\<close>

lemma reach_left:
  assumes inv: "dfs_inv adj vis st Out" and on: "\<And>w. w \<in> fst ` set st \<Longrightarrow> (w, x) \<in> (arcs adj)\<^sup>*"
  shows "(x, v) \<in> (arcs adj)\<^sup>* \<Longrightarrow> x \<in> Out \<Longrightarrow> v \<in> Out \<or> (\<exists>w \<in> fst ` set st. mutual adj x w)"
proof (induction rule: rtrancl_induct)
  case (step u v)
  show ?case
  proof (cases "u \<in> Out")
    case True
    then have "vis ! v" using inv step(2) unfolding dfs_inv_def by (simp add: arcs_def)
    moreover have "graph_ok adj" using inv by (simp add: dfs_inv_def)
    then have "v < length adj" using arcs_less [OF _ step(2)] by simp
    ultimately have "v \<in> fst ` set st \<union> Out" using inv unfolding dfs_inv_def by blast
    moreover have "mutual adj x v" if "v \<in> fst ` set st"
      using on [OF that] step(1,2) by (auto simp: mutual_def)
    ultimately show ?thesis by blast
  next
    case False
    then show ?thesis using step by blast
  qed
qed auto

lemma left_ok_pop:
  assumes inv: "dfs_inv adj vis ((node, idx) # st) (set out)" and none: "next_new adj vis node idx = None"
    and left: "left_ok adj ((node, idx) # st) out"
  shows "left_ok adj st (out @ [node])"
proof -
  note popped = dfs_inv_pop [OF inv none]
  have on: "(w, node) \<in> (arcs adj)\<^sup>*" if "w \<in> fst ` set st" for w using inv that by (auto simp: dfs_inv_def)
  have top: "(\<exists>y \<in> fst ` set st. mutual adj node y) \<or> no_later (out @ [node]) v node" if "(node, v) \<in> (arcs adj)\<^sup>*" for v
  proof -
    have "v \<in> insert node (set out) \<or> (\<exists>w \<in> fst ` set st. mutual adj node w)"
      by (rule reach_left [OF popped on that]) simp_all
    then show ?thesis using no_later_snoc [of v out node] by auto
  qed
  show ?thesis unfolding left_ok_def
  proof (intro ballI allI impI)
    fix x v assume x: "x \<in> set (out @ [node])" and v: "(x, v) \<in> (arcs adj)\<^sup>*"
    have via: "(\<exists>y \<in> fst ` set st. mutual adj x y) \<or> (\<exists>y. mutual adj x y \<and> no_later (out @ [node]) v y)" if "mutual adj x node"
    proof -
      have "(node, v) \<in> (arcs adj)\<^sup>*" using that v by (auto simp: mutual_def)
      then show ?thesis using top [of v] mutual_trans [OF that] that by blast
    qed
    show "(\<exists>y \<in> fst ` set st. mutual adj x y) \<or> (\<exists>y. mutual adj x y \<and> no_later (out @ [node]) v y)"
    proof (cases "x = node")
      case True
      then show ?thesis using via by simp
    next
      case False
      then have "(\<exists>y \<in> insert node (fst ` set st). mutual adj x y) \<or> (\<exists>y. mutual adj x y \<and> no_later out v y)"
        using left x v unfolding left_ok_def by simp
      then show ?thesis using via no_later_append by blast
    qed
  qed
qed

lemma dfs_left:
  "dfs_inv adj vis st (set out) \<Longrightarrow> left_ok adj st out \<Longrightarrow> left_ok adj [] (snd (dfs adj vis st out))"
proof (induction adj vis st out rule: dfs.induct)
  case (1 adj vis out)
  then show ?case by simp
next
  case (2 adj vis node idx st out)
  show ?case
  proof (cases "next_new adj vis node idx")
    case None
    then show ?thesis using 2(1) [OF None] dfs_inv_pop [OF 2(3) None] left_ok_pop [OF 2(3) None 2(4)] by simp
  next
    case (Some j)
    have "left_ok adj ((adj ! node ! j, 0) # (node, j + 1) # st) out" using 2(4) unfolding left_ok_def by auto
    then show ?thesis using 2(2) [OF Some refl] dfs_inv_push [OF 2(3) Some] Some by (simp add: Let_def)
  qed
qed

lemma dfs_inv_done:
  assumes "dfs_inv adj vis [] Out"
  shows "Out = {i. i < length adj \<and> vis ! i}"
proof -
  have "fst ` set ([] :: (nat \<times> nat) list) \<union> Out = {i. i < length adj \<and> vis ! i}" using assms unfolding dfs_inv_def by blast
  then show ?thesis by simp
qed

lemma dfs_inv_start:
  assumes "dfs_inv adj vis [] Out" "root < length adj" "\<not> vis ! root"
  shows "dfs_inv adj (vis[root := True]) [(root, 0)] Out"
proof -
  note visited = dfs_inv_done [OF assms(1)]
  have len: "length vis = length adj" using assms(1) unfolding dfs_inv_def by blast
  have grown: "vis ! x \<Longrightarrow> vis[root := True] ! x" for x using assms(2) len by (cases "x = root") simp_all
  have v: "insert root Out = {i. i < length adj \<and> vis[root := True] ! i}" unfolding visited using len assms(2) by auto
  have "\<forall>u \<in> Out. \<forall>v \<in> set (adj ! u). vis[root := True] ! v" using assms(1) grown unfolding dfs_inv_def by blast
  moreover have "root \<notin> Out" using visited assms(3) by simp
  moreover have "graph_ok adj" using assms(1) unfolding dfs_inv_def by blast
  ultimately show ?thesis using v len by (simp add: dfs_inv_def)
qed

text \<open>The order of the first pass: every node once, and whatever a node reaches is left no later than some node
  of its component.\<close>

lemma dfs_from_ok:
  assumes "dfs_inv adj vis [] (set out)" "distinct out" "left_ok adj [] out" "root < length adj"
    "dfs_from adj root (vis, out) = (vis', out')"
  shows "dfs_inv adj vis' [] (set out')" "distinct out'" "left_ok adj [] out'" "insert root (set out) \<subseteq> set out'"
proof -
  have "dfs_inv adj vis' [] (set out') \<and> distinct out' \<and> left_ok adj [] out' \<and> insert root (set out) \<subseteq> set out'"
  proof (cases "vis ! root")
    case True
    then show ?thesis using assms dfs_inv_done [OF assms(1)] by (auto simp: dfs_from_def)
  next
    case False
    note start = dfs_inv_start [OF assms(1,4) False]
    obtain ms where r: "dfs adj (vis[root := True]) [(root, 0)] out = (vis', out @ ms)"
      "dfs_inv adj vis' [] ({} \<union> set (out @ ms))" "distinct (out @ ms)" "fst ` set [(root, 0 :: nat)] \<subseteq> set ms" "out' = out @ ms"
      using dfs_result [of adj "vis[root := True]" "[(root, 0)]" "{}" out] start assms(2,5) False
      by (auto simp: dfs_from_def)
    have "left_ok adj [(root, 0)] out" using assms(3) by (auto simp: left_ok_def)
    then have "left_ok adj [] out'" using dfs_left [OF start] r(1,5) by simp
    then show ?thesis using r by simp
  qed
  then show "dfs_inv adj vis' [] (set out')" "distinct out'" "left_ok adj [] out'" "insert root (set out) \<subseteq> set out'" by simp_all
qed

lemma postorder_fold:
  assumes "graph_ok adj" "set roots \<subseteq> {..<length adj}"
  shows "\<exists>vis out. fold (dfs_from adj) roots (replicate (length adj) False, []) = (vis, out) \<and> dfs_inv adj vis [] (set out) \<and>
    distinct out \<and> left_ok adj [] out \<and> set roots \<subseteq> set out"
  using assms(2)
proof (induction roots rule: rev_induct)
  case Nil
  then show ?case using assms(1) by (auto simp: dfs_inv_def left_ok_def)
next
  case (snoc root roots)
  then obtain vis out where f: "fold (dfs_from adj) roots (replicate (length adj) False, []) = (vis, out)"
    and ok: "dfs_inv adj vis [] (set out)" "distinct out" "left_ok adj [] out" "set roots \<subseteq> set out" by auto
  obtain vis' out' where d: "dfs_from adj root (vis, out) = (vis', out')" by (cases "dfs_from adj root (vis, out)")
  have "root < length adj" using snoc.prems by simp
  from dfs_from_ok [OF ok(1-3) this d] show ?case using f d ok(4) by auto
qed

lemma postorder_ok:
  assumes "graph_ok adj"
  shows "distinct (postorder adj)" "set (postorder adj) = {..<length adj}"
    "u < length adj \<Longrightarrow> (u, v) \<in> (arcs adj)\<^sup>* \<Longrightarrow> \<exists>y. mutual adj u y \<and> no_later (postorder adj) v y"
proof -
  obtain vis out where r: "fold (dfs_from adj) [0..<length adj] (replicate (length adj) False, []) = (vis, out)"
    "dfs_inv adj vis [] (set out)" "distinct out" "left_ok adj [] out" "set [0..<length adj] \<subseteq> set out"
    using postorder_fold [OF assms, of "[0..<length adj]"] by (force simp: atLeast_upt)
  have o: "postorder adj = out" using r(1) by (simp add: postorder_def)
  have n: "set out = {..<length adj}" using dfs_inv_done [OF r(2)] r(5) by auto
  show "distinct (postorder adj)" "set (postorder adj) = {..<length adj}" using o n r(3) by simp_all
  assume "u < length adj" "(u, v) \<in> (arcs adj)\<^sup>*"
  then show "\<exists>y. mutual adj u y \<and> no_later (postorder adj) v y" using r(4) n o by (simp add: left_ok_def)
qed

subsection \<open>The second pass\<close>

text \<open>The component of the last node left among those not taken: what the reversed search from it adds.\<close>

lemma component_of_root:
  assumes adj: "graph_ok adj" "arcs radj = (arcs adj)\<inverse>"
    and W: "\<And>u v. u \<in> W \<Longrightarrow> mutual adj u v \<Longrightarrow> v \<in> W" "root \<notin> W" "root < length adj"
    and order: "postorder adj = pre @ root # post" "set post \<subseteq> W"
    and ms: "\<And>m. m \<in> ms \<Longrightarrow> (root, m) \<in> (arcs radj)\<^sup>*" "root \<in> ms" "W \<inter> ms = {}"
      "\<And>u v. u \<in> ms \<Longrightarrow> (u, v) \<in> arcs radj \<Longrightarrow> v \<in> W \<union> ms"
  shows "ms = {v. mutual adj root v}"
proof
  show "ms \<subseteq> {v. mutual adj root v}"
  proof
    fix m assume m: "m \<in> ms"
    have to_root: "(m, root) \<in> (arcs adj)\<^sup>*" using ms(1) [OF m] adj(2) by (simp add: rtrancl_converse)
    then have "m < length adj" using reach_less [OF to_root adj(1)] W(3) by simp
    then obtain y where y: "mutual adj m y" "no_later (postorder adj) root y" using postorder_ok(3) [OF adj(1) _ to_root] by blast
    obtain i j where ij: "i \<le> j" "j < length (postorder adj)" "postorder adj ! i = root" "postorder adj ! j = y"
      using y(2) unfolding no_later_def by blast
    have "y \<notin> W" using W(1) [of y m] mutual_sym [OF y(1)] ms(3) m by blast
    have "j \<le> length pre"
    proof (rule ccontr)
      assume "\<not> j \<le> length pre"
      then obtain k where k: "j = Suc (length pre + k)" using less_imp_Suc_add [of "length pre" j] by auto
      then have "post ! k = y" "k < length post" using ij(2,4) order(1) by (simp_all add: nth_append)
      then have "y \<in> set post" using nth_mem by blast
      then show False using order(2) \<open>y \<notin> W\<close> by blast
    qed
    moreover have "i = length pre"
      using ij postorder_ok(1) [OF adj(1)] order(1) nth_eq_iff_index_eq [of "postorder adj" i "length pre"] by simp
    ultimately have "y = root" using ij order(1) by simp
    then show "m \<in> {v. mutual adj root v}" using mutual_sym [OF y(1)] by simp
  qed
  have "(y, root) \<in> (arcs radj)\<^sup>* \<Longrightarrow> y \<in> ms" if "(root, y) \<in> (arcs radj)\<^sup>*" for y
    using that
  proof (induction rule: rtrancl_induct)
    case base
    then show ?case using ms(2) by simp
  next
    case (step y z)
    have "y \<in> ms" using step(2,3,4) by (meson converse_rtrancl_into_rtrancl)
    then have z: "z \<in> W \<union> ms" using ms(4) step(2) by blast
    have "mutual adj z root" using step adj(2) by (auto simp: mutual_def rtrancl_converse intro: converse_rtrancl_into_rtrancl)
    then show ?case using z W(1,2) by blast
  qed
  then show "{v. mutual adj root v} \<subseteq> ms" using adj(2) by (auto simp: mutual_def rtrancl_converse)
qed

text \<open>The node shares its component with another one.\<close>

definition shared :: "nat list list \<Rightarrow> nat \<Rightarrow> bool" where
  "shared adj u \<longleftrightarrow> (\<exists>v. v \<noteq> u \<and> mutual adj u v)"

text \<open>No value the array of components may hold before is the number of a node.\<close>

definition clean :: "nat \<Rightarrow> int list \<Rightarrow> bool" where
  "clean n junk \<longleftrightarrow> (\<forall>i < n. junk ! i < 0 \<or> int n \<le> junk ! i)"

definition scc_inv :: "nat list list \<Rightarrow> nat list list \<Rightarrow> int list \<Rightarrow> bool list \<Rightarrow> bool list \<Rightarrow> int list \<Rightarrow> bool list \<Rightarrow> nat set \<Rightarrow> bool" where
  "scc_inv adj radj junk rec0 vis co rec W \<longleftrightarrow>
     dfs_inv radj vis [] W \<and> (\<forall>u \<in> W. \<forall>v. mutual adj u v \<longrightarrow> v \<in> W) \<and>
     length co = length adj \<and> length rec = length adj \<and>
     (\<forall>u \<in> W. \<exists>r \<in> W. co ! u = int r \<and> mutual adj r u) \<and>
     (\<forall>u \<in> W. \<forall>v. mutual adj u v \<longrightarrow> co ! u = co ! v) \<and>
     (\<forall>u < length adj. u \<notin> W \<longrightarrow> co ! u = junk ! u) \<and>
     (\<forall>u < length adj. rec0 ! u \<longrightarrow> rec ! u) \<and> (\<forall>u \<in> W. shared adj u \<longrightarrow> rec ! u) \<and>
     (clean (length adj) junk \<longrightarrow> (\<forall>u < length adj. rec ! u \<longrightarrow> rec0 ! u \<or> shared adj u))"

lemma fold_put:
  "length (fold (\<lambda>v c. c[v := x]) ms co) = length co"
  "i < length co \<Longrightarrow> fold (\<lambda>v c. c[v := x]) ms co ! i = (if i \<in> set ms then x else co ! i)"
  by (induction ms arbitrary: co) auto

lemma two_members: "distinct ms \<Longrightarrow> root \<in> set ms \<Longrightarrow> length ms > 1 \<longleftrightarrow> (\<exists>v \<in> set ms. v \<noteq> root)"
  by (cases ms; cases "tl ms") auto

lemma scc_from_ok:
  assumes adj: "graph_ok adj" "arcs radj = (arcs adj)\<inverse>" "length radj = length adj"
    and inv: "scc_inv adj radj junk rec0 vis co rec W"
    and order: "postorder adj = pre @ root # post" "set post \<subseteq> W"
    and step: "scc_from radj root (vis, co, rec) = (vis', co', rec')"
  shows "\<exists>W'. scc_inv adj radj junk rec0 vis' co' rec' W' \<and> insert root W \<subseteq> W'"
proof -
  let ?n = "length adj"
  have root: "root < ?n" using postorder_ok(2) [OF adj(1)] order(1) by auto
  have search: "dfs_inv radj vis [] W" using inv by (simp add: scc_inv_def)
  note W = dfs_inv_done [OF search]
  show ?thesis
  proof (cases "vis ! root")
    case True
    then have "root \<in> W" using W root adj(3) by auto
    then show ?thesis using True inv step by (intro exI [of _ W]) (auto simp: scc_from_def)
  next
    case False
    then have new: "root \<notin> W" using W by simp
    have closed: "\<And>u v. u \<in> W \<Longrightarrow> mutual adj u v \<Longrightarrow> v \<in> W" using inv unfolding scc_inv_def by blast
    have start: "dfs_inv radj (vis[root := True]) [(root, 0)] (W \<union> set [])" using dfs_inv_start [OF search _ False] root adj(3) by simp
    have "W \<inter> set [] = {}" by simp
    then obtain vis2 ms where r: "dfs radj (vis[root := True]) [(root, 0)] [] = (vis2, [] @ ms)" "dfs_inv radj vis2 [] (W \<union> set ([] @ ms))"
      "distinct ([] @ ms)" "W \<inter> set ([] @ ms) = {}" "fst ` set [(root, 0 :: nat)] \<subseteq> set ms"
      "\<forall>m \<in> set ms. \<exists>u \<in> fst ` set [(root, 0 :: nat)]. (u, m) \<in> (arcs radj)\<^sup>*"
      using dfs_result [OF start distinct.simps(1) [THEN iffD2, OF TrueI]] by blast
    have dfs: "dfs radj (vis[root := True]) [(root, 0)] [] = (vis2, ms)" using r(1) by (simp only: append_Nil)
    have "vis2 = vis'" using step False by (simp add: scc_from_def dfs Let_def del: dfs.simps)
    then have ms: "dfs radj (vis[root := True]) [(root, 0)] [] = (vis', ms)" "dfs_inv radj vis' [] (W \<union> set ms)" "distinct ms"
      "W \<inter> set ms = {}" "root \<in> set ms" "\<forall>m \<in> set ms. (root, m) \<in> (arcs radj)\<^sup>*"
      using dfs r(2-6) by (simp_all del: dfs.simps)
    have out: "v \<in> W \<union> set ms" if "u \<in> set ms" "(u, v) \<in> arcs radj" for u v
    proof -
      have "v \<in> set (radj ! u)" using that(2) by (simp add: arcs_def)
      then have "vis' ! v" using ms(2) that(1) unfolding dfs_inv_def by blast
      moreover have "graph_ok radj" using ms(2) unfolding dfs_inv_def by blast
      then have "v < length radj" using arcs_less [OF _ that(2)] by simp
      ultimately show ?thesis using dfs_inv_done [OF ms(2)] by blast
    qed
    have members: "set ms = {v. mutual adj root v}"
      by (rule component_of_root [OF adj(1,2) closed new root order]) (use ms out in blast)+
    have len: "length co = ?n" "length rec = ?n" using inv by (simp_all add: scc_inv_def)
    have co': "co' = fold (\<lambda>v c. c[v := int root]) ms co"
      using step ms(1) False by (simp add: scc_from_def Let_def del: dfs.simps)
    have rec': "rec' = (if length ms > 1 then map (\<lambda>i. rec ! i \<or> co' ! i = int root) [0..<?n] else rec)"
      using step ms(1) False len unfolding co' by (auto simp: scc_from_def Let_def simp del: dfs.simps)
    have below: "v < ?n" if "v \<in> W \<union> set ms" for v using that dfs_inv_done [OF ms(2)] adj(3) by auto
    have co_at: "co' ! i = (if i \<in> set ms then int root else co ! i)" if "i < ?n" for i using fold_put(2) [of i co] len that co' by simp
    have co_in: "co' ! i = int root \<longleftrightarrow> i \<in> set ms" if i: "i \<in> W \<union> set ms" for i
    proof (cases "i \<in> set ms")
      case False
      then obtain r where "r \<in> W" "co ! i = int r" using i inv unfolding scc_inv_def by blast
      then show ?thesis using False new co_at [OF below [OF i]] by auto
    qed (use co_at below i in simp)
    have more: "length ms > 1 \<longleftrightarrow> shared adj u" if u: "u \<in> set ms" for u
    proof -
      have "mutual adj u v \<longleftrightarrow> v \<in> set ms" for v using u members mutual_trans mutual_sym by blast
      then show ?thesis using two_members [OF ms(3) u] by (auto simp: shared_def)
    qed
    have "scc_inv adj radj junk rec0 vis' co' rec' (W \<union> set ms)"
      unfolding scc_inv_def
    proof (intro conjI)
      show "dfs_inv radj vis' [] (W \<union> set ms)" by (rule ms(2))
      show "\<forall>u \<in> W \<union> set ms. \<forall>v. mutual adj u v \<longrightarrow> v \<in> W \<union> set ms" using closed members mutual_trans by blast
      show "length co' = ?n" "length rec' = ?n" using fold_put(1) [of "int root" ms co] co' rec' len by simp_all
      show "\<forall>u \<in> W \<union> set ms. \<exists>r \<in> W \<union> set ms. co' ! u = int r \<and> mutual adj r u"
      proof
        fix u assume u: "u \<in> W \<union> set ms"
        show "\<exists>r \<in> W \<union> set ms. co' ! u = int r \<and> mutual adj r u"
        proof (cases "u \<in> set ms")
          case True
          then show ?thesis using co_at [OF below [OF u]] members by (intro bexI [of _ root]) (use ms(5) in auto)
        next
          case False
          then obtain r where "r \<in> W" "co ! u = int r" "mutual adj r u" using u inv unfolding scc_inv_def by blast
          then show ?thesis using False co_at [OF below [OF u]] by (intro bexI [of _ r]) auto
        qed
      qed
      show "\<forall>u \<in> W \<union> set ms. \<forall>v. mutual adj u v \<longrightarrow> co' ! u = co' ! v"
      proof (intro ballI allI impI)
        fix u v assume u: "u \<in> W \<union> set ms" and uv: "mutual adj u v"
        show "co' ! u = co' ! v"
        proof (cases "u \<in> set ms")
          case True
          then have "v \<in> set ms" using members mutual_trans uv by blast
          then have "co' ! u = int root" "co' ! v = int root" using True co_in [of u] co_in [of v] by simp_all
          then show ?thesis by simp
        next
          case False
          then have v: "v \<in> W" "v \<notin> set ms" using u uv closed ms(4) by blast+
          then show ?thesis using False u uv inv co_at below unfolding scc_inv_def by (metis Un_iff)
        qed
      qed
      show "\<forall>u < ?n. u \<notin> W \<union> set ms \<longrightarrow> co' ! u = junk ! u" using inv co_at unfolding scc_inv_def by simp
      show "\<forall>u < ?n. rec0 ! u \<longrightarrow> rec' ! u" using inv rec' unfolding scc_inv_def by auto
      show "\<forall>u \<in> W \<union> set ms. shared adj u \<longrightarrow> rec' ! u"
      proof (intro ballI impI)
        fix u assume u: "u \<in> W \<union> set ms" "shared adj u"
        show "rec' ! u"
        proof (cases "u \<in> set ms")
          case True
          then show ?thesis using u(2) more rec' co_in below [OF u(1)] by simp
        next
          case False
          then have "rec ! u" using u inv unfolding scc_inv_def by blast
          then show ?thesis using rec' below [OF u(1)] by simp
        qed
      qed
      show "clean ?n junk \<longrightarrow> (\<forall>u < ?n. rec' ! u \<longrightarrow> rec0 ! u \<or> shared adj u)"
      proof (intro impI allI)
        fix u assume c: "clean ?n junk" and u: "u < ?n" "rec' ! u"
        show "rec0 ! u \<or> shared adj u"
        proof (cases "rec ! u")
          case True
          then show ?thesis using inv c u(1) unfolding scc_inv_def by blast
        next
          case False
          then have two: "length ms > 1" and at: "co' ! u = int root" using u rec' by (auto split: if_splits)
          have "u \<in> W \<union> set ms"
          proof (rule ccontr)
            assume "u \<notin> W \<union> set ms"
            then have "junk ! u = int root" using at co_at [OF u(1)] inv u(1) unfolding scc_inv_def by simp
            then show False using c u(1) root unfolding clean_def by auto
          qed
          then show ?thesis using co_in at more two by blast
        qed
      qed
    qed
    then show ?thesis using ms(5) by blast
  qed
qed

text \<open>The components are the classes of mutual reachability; every node that shares its component is marked, and
  no other when the array held no node's number before.\<close>

lemma scc_fold:
  assumes "graph_ok adj" "arcs radj = (arcs adj)\<inverse>" "length radj = length adj" "graph_ok radj"
    "length junk = length adj" "length rec = length adj" "rev (postorder adj) = roots @ rest"
  shows "\<exists>vis co rec' W. fold (scc_from radj) roots (replicate (length adj) False, junk, rec) = (vis, co, rec') \<and>
    scc_inv adj radj junk rec vis co rec' W \<and> set roots \<subseteq> W"
  using assms(7)
proof (induction roots arbitrary: rest rule: rev_induct)
  case Nil
  have "scc_inv adj radj junk rec (replicate (length adj) False) junk rec {}"
    using assms by (auto simp: scc_inv_def dfs_inv_def)
  then show ?case by auto
next
  case (snoc root ds)
  then obtain vis co rec' W where f: "fold (scc_from radj) ds (replicate (length adj) False, junk, rec) = (vis, co, rec')"
    and ok: "scc_inv adj radj junk rec vis co rec' W" "set ds \<subseteq> W" using snoc.IH [of "root # rest"] by auto
  have order: "postorder adj = rev rest @ root # rev ds" using arg_cong [OF snoc.prems, of rev] by simp
  obtain vis' co' rec2 where s: "scc_from radj root (vis, co, rec') = (vis', co', rec2)"
    by (cases "scc_from radj root (vis, co, rec')") auto
  have "set (rev ds) \<subseteq> W" using ok(2) by simp
  from scc_from_ok [OF assms(1-3) ok(1) order this s]
  obtain W' where "scc_inv adj radj junk rec vis' co' rec2 W'" "insert root W \<subseteq> W'" by blast
  then show ?case using f s ok(2) by auto
qed

lemma components_ok:
  assumes "graph_ok adj" "arcs radj = (arcs adj)\<inverse>" "length radj = length adj" "graph_ok radj"
    "length junk = length adj" "length rec = length adj" "components adj radj junk rec = (co, rec')"
  shows "length co = length adj" "length rec' = length adj"
    "u < length adj \<Longrightarrow> v < length adj \<Longrightarrow> co ! u = co ! v \<longleftrightarrow> mutual adj u v"
    "u < length adj \<Longrightarrow> rec ! u \<or> shared adj u \<Longrightarrow> rec' ! u"
    "clean (length adj) junk \<Longrightarrow> u < length adj \<Longrightarrow> rec' ! u \<longleftrightarrow> rec ! u \<or> shared adj u"
proof -
  obtain vis W where inv: "scc_inv adj radj junk rec vis co rec' W" and all: "set (rev (postorder adj)) \<subseteq> W"
    using scc_fold [OF assms(1-6), of "rev (postorder adj)" "[]"] assms(7) by (auto simp: components_def)
  have "dfs_inv radj vis [] W" using inv unfolding scc_inv_def by blast
  note dfs_inv_done [OF this]
  then have "W = {i. i < length adj \<and> vis ! i}" using assms(3) by simp
  then have W: "W = {..<length adj}" using all postorder_ok(2) [OF assms(1)] by auto
  show "length co = length adj" "length rec' = length adj" using inv by (simp_all add: scc_inv_def)
  have lower: "rec' ! u" if "u < length adj" "rec ! u \<or> shared adj u" for u using inv that W unfolding scc_inv_def by blast
  then show "u < length adj \<Longrightarrow> rec ! u \<or> shared adj u \<Longrightarrow> rec' ! u" .
  show "clean (length adj) junk \<Longrightarrow> u < length adj \<Longrightarrow> rec' ! u \<longleftrightarrow> rec ! u \<or> shared adj u"
    using inv lower [of u] unfolding scc_inv_def by blast
  assume u: "u < length adj" and v: "v < length adj"
  have rep: "\<exists>r. co ! w = int r \<and> mutual adj r w" if "w < length adj" for w using inv that W unfolding scc_inv_def by blast
  obtain r where r: "co ! u = int r" "mutual adj r u" using rep [OF u] by blast
  obtain q where q: "co ! v = int q" "mutual adj q v" using rep [OF v] by blast
  have "mutual adj u v" if "co ! u = co ! v"
    using that r q mutual_trans [OF mutual_sym [OF r(2)], of v] by simp
  moreover have "co ! u = co ! v" if "mutual adj u v" using inv that u W unfolding scc_inv_def by blast
  ultimately show "co ! u = co ! v \<longleftrightarrow> mutual adj u v" by blast
qed

end
