(* ===== verification/Stratify.thy ===== *)
theory Stratify
  imports Db Scc
begin

text \<open>
  Stratification (\<^verbatim>\<open>zig/src/compiler.zig\<close>, \<^verbatim>\<open>compute_strata\<close>, \<^verbatim>\<open>programStratifies\<close> and \<^verbatim>\<open>checkUnionRecursion\<close>): the edges of a
  program from the relations its rules read to the ones they derive, the two passes that raise the
  strata until no edge asks for more, with the components between them, and the final check.

  The lemmas show that the passes end by themselves long before their limit of 10000 rounds, that a
  program is refused exactly when a negated (or range) atom lies on a cycle, and that the strata of an
  accepted one are the least that put every relation no lower than what it reads, strictly above what
  it negates and strictly above the recursive components it reads.
\<close>

record edge =
  eg_from :: nat
  eg_to :: nat
  eg_neg :: bool

definition STRATUM_CAP :: nat where "STRATUM_CAP = 1000000"
definition STRATUM_ROUNDS :: nat where "STRATUM_ROUNDS = 10000"

subsection \<open>The edges of a program\<close>

definition is_range_builtin :: "atom \<Rightarrow> bool" where
  "is_range_builtin a \<longleftrightarrow> at_pred a = ''range''"

text \<open>The relation a range atom reads is named by its second argument.\<close>

definition range_name :: "atom \<Rightarrow> string option" where
  "range_name a =
     (if is_range_builtin a \<and> length (at_args a) \<ge> 2 \<and> tk_kind (at_args a ! 1) = TOK_IDENT then Some (tk_text (at_args a ! 1)) else None)"

definition body_edges :: "dl_db \<Rightarrow> nat \<Rightarrow> atom \<Rightarrow> edge list" where
  "body_edges db head_ri a =
     (case range_name a of
        Some nm \<Rightarrow>
          (let rel_ri = findRel db nm in if rel_ri \<ge> 0 then [\<lparr>eg_from = nat rel_ri, eg_to = head_ri, eg_neg = True\<rparr>] else [])
      | None \<Rightarrow>
          (let body_ri = findRel db (at_pred a) in
           if body_ri < 0 then [] else [\<lparr>eg_from = nat body_ri, eg_to = head_ri, eg_neg = at_negated a\<rparr>]))"

definition rule_edges :: "dl_db \<Rightarrow> atom \<Rightarrow> atom list \<Rightarrow> edge list" where
  "rule_edges db h body =
     (let head_ri = findRel db (at_pred h) in if head_ri < 0 then [] else concat (map (body_edges db (nat head_ri)) body))"

text \<open>The array of edges doubles from 32; the capacity is kept beside it.\<close>

definition add_edge :: "allocator \<Rightarrow> edge \<Rightarrow> edge list \<times> nat \<Rightarrow> (edge list \<times> nat) option" where
  "add_edge al e s =
     (case s of (es, cap) \<Rightarrow>
        if length es \<ge> cap then
          (let nc = (if cap \<noteq> 0 then cap * 2 else 32) in
           if al ''compute_strata.add_edge'' (nc * 12) then Some (es @ [e], nc) else None)
        else Some (es @ [e], cap))"

fun add_edges :: "allocator \<Rightarrow> edge list \<Rightarrow> edge list \<times> nat \<Rightarrow> (edge list \<times> nat) option" where
  "add_edges al [] s = Some s"
| "add_edges al (e # es) s = (case add_edge al e s of None \<Rightarrow> None | Some s' \<Rightarrow> add_edges al es s')"

text \<open>The outer \<open>None\<close> is a rule without a head, which the code dereferences; the inner one is running out of memory.\<close>

fun collect_edges :: "allocator \<Rightarrow> dl_db \<Rightarrow> rule list \<Rightarrow> edge list \<times> nat \<Rightarrow> (edge list \<times> nat) option option" where
  "collect_edges al db [] s = Some (Some s)"
| "collect_edges al db (r # rs) s =
     (case rl_head r of
        None \<Rightarrow> None
      | Some h \<Rightarrow> (case add_edges al (rule_edges db h (rl_body r)) s of
          None \<Rightarrow> Some None
        | Some s' \<Rightarrow> collect_edges al db rs s'))"

text \<open>A relation that a rule for it reads by name, negated or not.\<close>

definition self_loop :: "dl_db \<Rightarrow> rule list \<Rightarrow> nat \<Rightarrow> bool" where
  "self_loop db rules i \<longleftrightarrow>
     (\<exists>r \<in> set rules. case rl_head r of
        None \<Rightarrow> False
      | Some h \<Rightarrow> findRel db (at_pred h) = int i \<and> (\<exists>a \<in> set (rl_body r). range_name a = None \<and> findRel db (at_pred a) = int i))"

subsection \<open>Raising the strata\<close>

text \<open>One edge asks for the stratum of its source, or one more; one round asks for every edge.\<close>

definition needed :: "(edge \<Rightarrow> bool) \<Rightarrow> edge \<Rightarrow> nat list \<Rightarrow> nat" where
  "needed strict e s = (if strict e then min (s ! eg_from e + 1) STRATUM_CAP else s ! eg_from e)"

definition relax :: "(edge \<Rightarrow> bool) \<Rightarrow> edge \<Rightarrow> nat list \<times> bool \<Rightarrow> nat list \<times> bool" where
  "relax strict e sc =
     (case sc of (s, changed) \<Rightarrow> if s ! eg_to e < needed strict e s then (s[eg_to e := needed strict e s], True) else (s, changed))"

definition relax_round :: "(edge \<Rightarrow> bool) \<Rightarrow> edge list \<Rightarrow> nat list \<Rightarrow> nat list \<times> bool" where
  "relax_round strict es s = fold (relax strict) es (s, False)"

text \<open>Rounds until one changes nothing, at most \<open>k\<close>; the answer says whether the last one still changed something.\<close>

fun relax_rounds :: "(edge \<Rightarrow> bool) \<Rightarrow> edge list \<Rightarrow> nat \<Rightarrow> nat list \<Rightarrow> nat list \<times> bool" where
  "relax_rounds strict es 0 s = (s, True)"
| "relax_rounds strict es (Suc k) s =
     (case relax_round strict es s of (s', changed) \<Rightarrow> if \<not> changed \<or> k = 0 then (s', changed) else relax_rounds strict es k s')"

subsection \<open>The stratifier\<close>

definition adj_of :: "nat \<Rightarrow> edge list \<Rightarrow> nat list list" where
  "adj_of n es = map (\<lambda>i. map eg_to (filter (\<lambda>e. \<not> eg_neg e \<and> eg_from e = i) es)) [0..<n]"

definition rev_adj_of :: "nat \<Rightarrow> edge list \<Rightarrow> nat list list" where
  "rev_adj_of n es = map (\<lambda>i. map eg_from (filter (\<lambda>e. \<not> eg_neg e \<and> eg_to e = i) es)) [0..<n]"

definition granted :: "allocator \<Rightarrow> (string \<times> nat) list \<Rightarrow> bool" where
  "granted al sites \<longleftrightarrow> (\<forall>(site, bytes) \<in> set sites. al (''compute_strata.'' @ site) bytes)"

text \<open>The arrays of the component search: when one of the first six is refused nothing has been written, when
  another is, the self-loops are still marked.\<close>

definition early_arrays :: "nat \<Rightarrow> (string \<times> nat) list" where
  "early_arrays n = [(''out_deg'', n * 4), (''rev_deg'', n * 4), (''adj'', n * 8), (''rev_adj'', n * 8), (''adj_cap'', n * 4), (''rev_cap'', n * 4)]"

definition late_arrays :: "nat \<Rightarrow> nat list list \<Rightarrow> nat list list \<Rightarrow> (string \<times> nat) list" where
  "late_arrays n adj radj =
     map (\<lambda>xs. (''adj_row'', length xs * 4)) (filter (\<lambda>xs. xs \<noteq> []) adj) @
     map (\<lambda>xs. (''rev_adj_row'', length xs * 4)) (filter (\<lambda>xs. xs \<noteq> []) radj) @
     [(''visited'', n * 4), (''order'', n * 4), (''comp'', n * 4), (''stack_node'', (n + 1) * 4), (''stack_idx'', (n + 1) * 4)]"

definition mark_loops :: "dl_db \<Rightarrow> rule list \<Rightarrow> nat \<Rightarrow> bool list \<Rightarrow> bool list" where
  "mark_loops db rules n rec = map (\<lambda>i. rec ! i \<or> i < n \<and> self_loop db rules i) [0..<length rec]"

text \<open>Heads of recursive rules of earlier batches; the count of relations is cut to eight bits there.\<close>

definition seed_rec :: "dl_db \<Rightarrow> bool list \<Rightarrow> bool list" where
  "seed_rec db rec =
     fold (\<lambda>cr rec. if cr_is_recursive cr \<and> cr_head_rel_id cr < length (db_rels db) mod 256 then rec[cr_head_rel_id cr := True] else rec)
       (db_crules db) rec"

definition strict_edge :: "int list \<Rightarrow> bool list \<Rightarrow> edge \<Rightarrow> bool" where
  "strict_edge co rec e \<longleftrightarrow> eg_neg e \<or> rec ! eg_from e \<and> co ! eg_from e \<noteq> co ! eg_to e"

text \<open>0 accepts, 1 refuses, -1 is running out of memory.  \<open>strata\<close> and \<open>rec\<close> are the caller's arrays.\<close>

definition compute_strata ::
  "allocator \<Rightarrow> int list \<Rightarrow> dl_db \<Rightarrow> rule list \<Rightarrow> nat \<Rightarrow> nat list \<Rightarrow> bool list \<Rightarrow> (int \<times> nat list \<times> bool list) option" where
  "compute_strata al junk db rules out_max strata rec =
     (let n = length (db_rels db) in
      if n = 0 \<or> out_max < 1 then Some (0, strata, rec)
      else if \<not> granted al [(''stratum'', n * 4), (''self_loop'', n * 4)] then Some (-1, strata, rec)
      else case collect_edges al db rules ([], 0) of
        None \<Rightarrow> None
      | Some None \<Rightarrow> Some (-1, strata, rec)
      | Some (Some (es, _)) \<Rightarrow>
          (case relax_rounds eg_neg es STRATUM_ROUNDS (replicate n 0) of (s1, changed) \<Rightarrow>
             if changed then Some (1, strata, rec)
             else let adj = adj_of n es; radj = rev_adj_of n es in
               if \<not> granted al (early_arrays n) then Some (-1, strata, rec)
               else if \<not> granted al (late_arrays n adj radj) then Some (-1, strata, mark_loops db rules n rec)
               else case components adj radj junk rec of (co, rec1) \<Rightarrow>
                 (let rec2 = seed_rec db (mark_loops db rules n rec1) in
                  case relax_rounds (strict_edge co rec2) es STRATUM_ROUNDS s1 of (s2, changed2) \<Rightarrow>
                    if changed2 \<or> (\<exists>e \<in> set es. eg_neg e \<and> s2 ! eg_to e \<le> s2 ! eg_from e) then Some (1, strata, rec2)
                    else Some (0, s2 @ drop n strata, rec2))))"

definition programStratifies :: "allocator \<Rightarrow> int list \<Rightarrow> dl_db \<Rightarrow> rule list \<Rightarrow> int option" where
  "programStratifies al junk db rules =
     (let n = length (db_rels db) in
      if n = 0 \<or> rules = [] then Some 1
      else if \<not> al ''programStratifies.strata'' (n * 4) \<or> \<not> al ''programStratifies.recursive'' (n * 4) then Some (-1)
      else map_option (\<lambda>(rc, _, _). if rc = 0 then 1 else if rc = 1 then 0 else -1)
             (compute_strata al junk db rules n (replicate n 0) (replicate n False)))"

text \<open>The refusals of a rule that another batch makes recursive: 1 refuses, 0 does not.  A rule without a head is skipped here.\<close>

fun checkUnionRecursion :: "dl_db \<Rightarrow> rule list \<Rightarrow> bool list \<Rightarrow> int" where
  "checkUnionRecursion db [] rec = 0"
| "checkUnionRecursion db (r # rs) rec =
     (let n = length (db_rels db);
          hid = (case rl_head r of None \<Rightarrow> -1 | Some h \<Rightarrow> findRel db (at_pred h));
          reads = (\<lambda>a. case range_name a of None \<Rightarrow> False
            | Some nm \<Rightarrow> (let rr = findRel db nm in 0 \<le> rr \<and> nat rr < n \<and> rec ! nat rr)) in
      if hid < 0 \<or> nat hid \<ge> n \<or> \<not> rec ! nat hid then checkUnionRecursion db rs rec
      else if rl_has_aggregate r then 1
      else if re_kind (db_rels db ! nat hid) = RELK_VARIADIC then 1
      else if \<exists>a \<in> set (rl_body r). reads a then 1
      else checkUnionRecursion db rs rec)"

subsection \<open>What a stratification is\<close>

definition prog_edges :: "dl_db \<Rightarrow> rule list \<Rightarrow> edge list" where
  "prog_edges db rules = concat (map (\<lambda>r. case rl_head r of None \<Rightarrow> [] | Some h \<Rightarrow> rule_edges db h (rl_body r)) rules)"

definition deps :: "edge list \<Rightarrow> (nat \<times> nat) set" where
  "deps es = {(eg_from e, eg_to e) | e. e \<in> set es}"

definition pos_deps :: "edge list \<Rightarrow> (nat \<times> nat) set" where
  "pos_deps es = {(eg_from e, eg_to e) | e. e \<in> set es \<and> \<not> eg_neg e}"

definition stratifiable :: "edge list \<Rightarrow> bool" where
  "stratifiable es \<longleftrightarrow> (\<forall>e \<in> set es. eg_neg e \<longrightarrow> (eg_to e, eg_from e) \<notin> (deps es)\<^sup>*)"

definition obeys :: "edge list \<Rightarrow> (edge \<Rightarrow> bool) \<Rightarrow> (nat \<Rightarrow> nat) \<Rightarrow> bool" where
  "obeys es strict p \<longleftrightarrow> (\<forall>e \<in> set es. if strict e then p (eg_from e) < p (eg_to e) else p (eg_from e) \<le> p (eg_to e))"

text \<open>An edge out of a recursive relation into one it is not mutually recursive with, or a negated one.\<close>

definition up_edge :: "edge list \<Rightarrow> bool list \<Rightarrow> edge \<Rightarrow> bool" where
  "up_edge es rec e \<longleftrightarrow> eg_neg e \<or> rec ! eg_from e \<and> (eg_to e, eg_from e) \<notin> (pos_deps es)\<^sup>*"

subsection \<open>Raising ends, at the least solution\<close>

text \<open>The same up to the cap: what raising stays below.\<close>

definition capped :: "edge list \<Rightarrow> (edge \<Rightarrow> bool) \<Rightarrow> (nat \<Rightarrow> nat) \<Rightarrow> bool" where
  "capped es strict p \<longleftrightarrow>
     (\<forall>e \<in> set es. (if strict e then min (p (eg_from e) + 1) STRATUM_CAP else p (eg_from e)) \<le> p (eg_to e))"

lemma obeys_capped: "obeys es strict p \<Longrightarrow> capped es strict p"
  unfolding obeys_def capped_def by (auto split: if_splits)

definition edges_in :: "nat \<Rightarrow> edge list \<Rightarrow> bool" where
  "edges_in n es \<longleftrightarrow> (\<forall>e \<in> set es. eg_from e < n \<and> eg_to e < n)"

lemma relax_fold:
  assumes "fold (relax strict) es (s, c) = (s', c')" "edges_in (length s) es"
  shows "length s' = length s \<and> (\<forall>i < length s. s ! i \<le> s' ! i) \<and> sum_list s \<le> sum_list s' \<and>
    (c \<longrightarrow> c') \<and> (c' \<longrightarrow> c \<or> sum_list s < sum_list s') \<and> (\<not> c' \<longrightarrow> s' = s \<and> (\<forall>e \<in> set es. needed strict e s \<le> s ! eg_to e)) \<and>
    (\<forall>p. capped es strict p \<and> (\<forall>i < length s. s ! i \<le> p i) \<longrightarrow>
      (\<forall>i < length s. s' ! i \<le> p i))"
  using assms
proof (induction es arbitrary: s c)
  case (Cons e es)
  have e: "eg_from e < length s" "eg_to e < length s" using Cons.prems(2) by (simp_all add: edges_in_def)
  have one: "relax strict e (s, c) = (if s ! eg_to e < needed strict e s then (s[eg_to e := needed strict e s], True) else (s, c))"
    by (simp add: relax_def)
  show ?case
  proof (cases "s ! eg_to e < needed strict e s")
    case False
    then have "fold (relax strict) es (s, c) = (s', c')" using Cons.prems(1) one by simp
    moreover have "edges_in (length s) es" using Cons.prems(2) by (simp add: edges_in_def)
    ultimately show ?thesis using Cons.IH [of s c] False by (simp add: capped_def)
  next
    case True
    let ?v = "needed strict e s" and ?s = "s[eg_to e := needed strict e s]"
    have f: "fold (relax strict) es (?s, True) = (s', c')" using Cons.prems(1) True one by simp
    have "edges_in (length ?s) es" using Cons.prems(2) by (simp add: edges_in_def)
    note ih = Cons.IH [OF f this]
    have "sum_list ?s + s ! eg_to e = sum_list s + ?v"
      using e(2) elem_le_sum_list [of "eg_to e" s] by (simp add: sum_list_update)
    then have sum: "sum_list s < sum_list ?s" using True by linarith
    have le: "s ! i \<le> ?s ! i" if "i < length s" for i using True that by simp
    have bound: "?s ! i \<le> p i"
      if p: "capped (e # es) strict p" "\<forall>i < length s. s ! i \<le> p i" "i < length s" for p i
    proof (cases "i = eg_to e")
      case True
      have "s ! eg_from e \<le> p (eg_from e)" using p(2) e(1) by blast
      then have "?v \<le> (if strict e then min (p (eg_from e) + 1) STRATUM_CAP else p (eg_from e))" by (simp add: needed_def min_def)
      also have "\<dots> \<le> p (eg_to e)" using p(1) by (simp add: capped_def)
      finally have "?v \<le> p (eg_to e)" .
      then show ?thesis using True that(3) by simp
    qed (use that in simp)
    have c: c' using ih by simp
    show ?thesis
    proof (intro conjI)
      show "length s' = length s" "sum_list s \<le> sum_list s'" "c \<longrightarrow> c'" "c' \<longrightarrow> c \<or> sum_list s < sum_list s'" using ih sum by simp_all
      show "\<forall>i < length s. s ! i \<le> s' ! i"
      proof (intro allI impI)
        fix i assume i: "i < length s"
        then have "?s ! i \<le> s' ! i" using ih by simp
        then show "s ! i \<le> s' ! i" using le [OF i] by (rule le_trans [rotated])
      qed
      show "\<forall>p. capped (e # es) strict p \<and> (\<forall>i < length s. s ! i \<le> p i) \<longrightarrow> (\<forall>i < length s. s' ! i \<le> p i)"
      proof (intro allI impI, elim conjE)
        fix p i assume p: "capped (e # es) strict p" "\<forall>i < length s. s ! i \<le> p i" and i: "i < length s"
        have "capped es strict p" using p(1) by (simp add: capped_def)
        moreover have "\<forall>i < length ?s. ?s ! i \<le> p i" using bound [OF p] by simp
        ultimately show "s' ! i \<le> p i" using ih i by simp
      qed
    qed (use c in simp_all)
  qed
qed simp

text \<open>The last round that changes nothing leaves a state in which no edge asks for more.\<close>

definition settled :: "(edge \<Rightarrow> bool) \<Rightarrow> edge list \<Rightarrow> nat list \<Rightarrow> bool" where
  "settled strict es s \<longleftrightarrow> (\<forall>e \<in> set es. needed strict e s \<le> s ! eg_to e)"

lemma relax_rounds_ok:
  assumes "edges_in (length s) es" "relax_rounds strict es k s = (s', c)" "0 < k"
  shows "length s' = length s" "\<And>i. i < length s \<Longrightarrow> s ! i \<le> s' ! i" "\<not> c \<Longrightarrow> settled strict es s'"
    "capped es strict p \<Longrightarrow> (\<And>i. i < length s \<Longrightarrow> s ! i \<le> p i) \<Longrightarrow> i < length s \<Longrightarrow> s' ! i \<le> p i"
    "c \<Longrightarrow> sum_list s + k \<le> sum_list s'"
proof -
  have "length s' = length s \<and> (\<forall>i < length s. s ! i \<le> s' ! i) \<and> (\<not> c \<longrightarrow> settled strict es s') \<and>
      (\<forall>p. capped es strict p \<and> (\<forall>i < length s. s ! i \<le> p i) \<longrightarrow> (\<forall>i < length s. s' ! i \<le> p i)) \<and>
      (c \<longrightarrow> sum_list s + k \<le> sum_list s')"
    using assms
  proof (induction k arbitrary: s)
    case (Suc k)
    obtain s1 c1 where r: "relax_round strict es s = (s1, c1)" by (cases "relax_round strict es s")
    then have f: "fold (relax strict) es (s, False) = (s1, c1)" by (simp add: relax_round_def)
    note one = relax_fold [OF f Suc.prems(1)]
    show ?case
    proof (cases "\<not> c1 \<or> k = 0")
      case True
      then have "s' = s1" "c = c1" using Suc.prems(2) r by auto
      then show ?thesis using one True unfolding settled_def by auto
    next
      case False
      then have rest: "relax_rounds strict es k s1 = (s', c)" "0 < k" "c1" using Suc.prems(2) r by simp_all
      have "edges_in (length s1) es" using Suc.prems(1) one by simp
      note ih = Suc.IH [OF this rest(1,2)]
      have len: "length s1 = length s" and up: "\<forall>i < length s. s ! i \<le> s1 ! i" and sum: "sum_list s < sum_list s1"
        and under: "\<And>p. capped es strict p \<Longrightarrow> \<forall>i < length s. s ! i \<le> p i \<Longrightarrow> \<forall>i < length s. s1 ! i \<le> p i"
        using one rest(3) by simp_all
      have "c \<longrightarrow> sum_list s + Suc k \<le> sum_list s'" using ih sum by linarith
      then show ?thesis using ih len up under by (auto intro: le_trans)
    qed
  qed simp
  then show "length s' = length s" "\<And>i. i < length s \<Longrightarrow> s ! i \<le> s' ! i" "\<not> c \<Longrightarrow> settled strict es s'"
    "capped es strict p \<Longrightarrow> (\<And>i. i < length s \<Longrightarrow> s ! i \<le> p i) \<Longrightarrow> i < length s \<Longrightarrow> s' ! i \<le> p i"
    "c \<Longrightarrow> sum_list s + k \<le> sum_list s'" by blast+
qed

text \<open>With no strict edge on a cycle there is a solution below the number of relations: count the sources of
  strict edges that lead to a relation.\<close>

definition height :: "edge list \<Rightarrow> (edge \<Rightarrow> bool) \<Rightarrow> nat \<Rightarrow> nat" where
  "height es strict v = card {u. \<exists>e \<in> set es. strict e \<and> eg_from e = u \<and> (eg_to e, v) \<in> (deps es)\<^sup>*}"

definition acyclic_strict :: "edge list \<Rightarrow> (edge \<Rightarrow> bool) \<Rightarrow> bool" where
  "acyclic_strict es strict \<longleftrightarrow> (\<forall>e \<in> set es. strict e \<longrightarrow> (eg_to e, eg_from e) \<notin> (deps es)\<^sup>*)"

lemma height_ok:
  assumes "acyclic_strict es strict" "edges_in n es"
  shows "obeys es strict (height es strict)" "v < n \<Longrightarrow> height es strict v < n"
proof -
  let ?S = "\<lambda>v. {u. \<exists>e \<in> set es. strict e \<and> eg_from e = u \<and> (eg_to e, v) \<in> (deps es)\<^sup>*}"
  have "?S v \<subseteq> eg_from ` set es" for v by auto
  then have fin: "finite (?S v)" for v by (rule finite_subset) simp
  have self: "v \<notin> ?S v" for v using assms(1) unfolding acyclic_strict_def by blast
  show "obeys es strict (height es strict)"
    unfolding obeys_def
  proof
    fix e assume e: "e \<in> set es"
    then have dep: "(eg_from e, eg_to e) \<in> deps es" unfolding deps_def by blast
    then have sub: "?S (eg_from e) \<subseteq> ?S (eg_to e)" by (auto intro: rtrancl_into_rtrancl)
    have le: "card (?S (eg_from e)) \<le> card (?S (eg_to e))" by (rule card_mono [OF fin sub])
    have "card (?S (eg_from e)) < card (?S (eg_to e))" if "strict e"
    proof (rule psubset_card_mono [OF fin])
      have "eg_from e \<in> ?S (eg_to e)" using e that by blast
      then show "?S (eg_from e) \<subset> ?S (eg_to e)" using sub self [of "eg_from e"] by blast
    qed
    then show "if strict e then height es strict (eg_from e) < height es strict (eg_to e)
        else height es strict (eg_from e) \<le> height es strict (eg_to e)"
      using le unfolding height_def by simp
  qed
  assume v: "v < n"
  have "?S v \<subseteq> {..<n} - {v}" using self [of v] assms(2) unfolding edges_in_def by blast
  then have "card (?S v) \<le> card ({..<n} - {v})" by (intro card_mono) simp_all
  then show "height es strict v < n" using v unfolding height_def by simp
qed

text \<open>Raising from below a solution under the number of relations ends by itself.\<close>

lemma sum_list_below: "(\<And>i. i < length s \<Longrightarrow> s ! i \<le> b) \<Longrightarrow> sum_list s \<le> length s * b"
proof (induction s)
  case (Cons x s)
  have "x \<le> b" using Cons.prems [of 0] by simp
  moreover have "sum_list s \<le> length s * b" using Cons.prems [of "Suc i" for i] by (intro Cons.IH) auto
  ultimately show ?case by simp
qed simp

lemma relax_rounds_end:
  assumes "edges_in n es" "length s = n" "n \<le> MAX_RELS" "relax_rounds strict es STRATUM_ROUNDS s = (s', c)"
    "obeys es strict p" "\<And>i. i < n \<Longrightarrow> s ! i \<le> p i" "\<And>i. i < n \<Longrightarrow> p i < n"
  shows "\<not> c" "i < n \<Longrightarrow> s' ! i < n"
proof -
  note r = relax_rounds_ok [of s es strict STRATUM_ROUNDS s' c, unfolded assms(2), OF assms(1,4)]
  have below: "s' ! i < n" if "i < n" for i using r(4) [OF _ obeys_capped [OF assms(5)] assms(6) that] assms(7) [OF that] by (simp add: STRATUM_ROUNDS_def)
  then show "i < n \<Longrightarrow> s' ! i < n" .
  have "length s' = n" using r(1) by (simp add: STRATUM_ROUNDS_def)
  then have "sum_list s' \<le> n * n" using sum_list_below [of s' n] less_imp_le [OF below] by simp
  also have "\<dots> \<le> 64 * 64" using assms(3) by (intro mult_le_mono) (simp_all add: MAX_RELS_def)
  finally show "\<not> c" using r(5) by (auto simp: STRATUM_ROUNDS_def)
qed

text \<open>A settled state below the cap obeys every edge.\<close>

lemma settled_obeys:
  assumes "settled strict es s" "edges_in n es" "\<And>i. i < n \<Longrightarrow> s ! i < STRATUM_CAP"
  shows "obeys es strict (\<lambda>i. s ! i)"
  unfolding obeys_def
proof
  fix e assume e: "e \<in> set es"
  then have "needed strict e s \<le> s ! eg_to e" "s ! eg_from e < STRATUM_CAP" "s ! eg_to e < STRATUM_CAP"
    using assms unfolding settled_def edges_in_def by blast+
  then show "if strict e then s ! eg_from e < s ! eg_to e else s ! eg_from e \<le> s ! eg_to e" by (auto simp: needed_def)
qed

subsection \<open>The edges and the graph\<close>

lemma rule_edges_in: "edges_in (length (db_rels db)) (rule_edges db h body)"
proof -
  have f: "findRel db nm < int (length (db_rels db))" for nm using find_rel [of db nm] by auto
  show ?thesis using f nat_less_iff
    by (auto simp: edges_in_def rule_edges_def body_edges_def Let_def not_less split: option.splits if_splits)
qed

lemma prog_edges_in: "edges_in (length (db_rels db)) (prog_edges db rules)"
  using rule_edges_in unfolding prog_edges_def edges_in_def by (fastforce split: option.splits)

lemma add_edges_ok: "generous al \<Longrightarrow> \<exists>cap'. add_edges al es (es0, cap) = Some (es0 @ es, cap')"
proof (induction es arbitrary: es0 cap)
  case (Cons e es)
  have "add_edge al e (es0, cap) = Some (es0 @ [e], if cap \<le> length es0 then if cap \<noteq> 0 then cap * 2 else 32 else cap)"
    using Cons.prems by (simp add: add_edge_def generous_def Let_def)
  then obtain cap1 where "add_edge al e (es0, cap) = Some (es0 @ [e], cap1)" by blast
  then show ?case using Cons.IH [of "es0 @ [e]" cap1] Cons.prems by simp
qed simp

lemma collect_edges_ok:
  assumes "generous al" "\<forall>r \<in> set rules. rl_head r \<noteq> None"
  shows "\<exists>cap'. collect_edges al db rules (es0, cap) = Some (Some (es0 @ prog_edges db rules, cap'))"
  using assms(2)
proof (induction rules arbitrary: es0 cap)
  case (Cons r rs)
  obtain h where h: "rl_head r = Some h" using Cons.prems by auto
  obtain cap1 where "add_edges al (rule_edges db h (rl_body r)) (es0, cap) = Some (es0 @ rule_edges db h (rl_body r), cap1)"
    using add_edges_ok [OF assms(1)] by blast
  then show ?case using Cons.IH [of "es0 @ rule_edges db h (rl_body r)" cap1] Cons.prems h by (simp add: prog_edges_def)
qed (simp add: prog_edges_def)

lemma adj_of_ok:
  assumes "edges_in n es"
  shows "length (adj_of n es) = n" "length (rev_adj_of n es) = n" "arcs (adj_of n es) = pos_deps es"
    "arcs (rev_adj_of n es) = (pos_deps es)\<inverse>" "graph_ok (adj_of n es)" "graph_ok (rev_adj_of n es)"
  using assms by (auto simp: adj_of_def rev_adj_of_def arcs_def pos_deps_def graph_ok_def edges_in_def)

lemma seed_rec_ok: "length (seed_rec db rec) = length rec"
  "i < length rec \<Longrightarrow> seed_rec db rec ! i \<longleftrightarrow>
     rec ! i \<or> (\<exists>cr \<in> set (db_crules db). cr_is_recursive cr \<and> cr_head_rel_id cr = i \<and> i < length (db_rels db) mod 256)"
proof -
  have "length (fold (\<lambda>cr rec. if cr_is_recursive cr \<and> cr_head_rel_id cr < n then rec[cr_head_rel_id cr := True] else rec) crs rec) = length rec \<and>
      (i < length rec \<longrightarrow>
        fold (\<lambda>cr rec. if cr_is_recursive cr \<and> cr_head_rel_id cr < n then rec[cr_head_rel_id cr := True] else rec) crs rec ! i \<longleftrightarrow>
        rec ! i \<or> (\<exists>cr \<in> set crs. cr_is_recursive cr \<and> cr_head_rel_id cr = i \<and> i < n))" for n crs
    by (induction crs arbitrary: rec) auto
  then show "length (seed_rec db rec) = length rec"
    "i < length rec \<Longrightarrow> seed_rec db rec ! i \<longleftrightarrow>
       rec ! i \<or> (\<exists>cr \<in> set (db_crules db). cr_is_recursive cr \<and> cr_head_rel_id cr = i \<and> i < length (db_rels db) mod 256)"
    unfolding seed_rec_def by blast+
qed

text \<open>A self-loop is an edge from a relation to itself; a positive one comes from nothing else.\<close>

lemma self_loop_edge:
  "self_loop db rules i \<Longrightarrow> \<exists>e \<in> set (prog_edges db rules). eg_from e = i \<and> eg_to e = i"
  unfolding self_loop_def prog_edges_def
  by (force simp: rule_edges_def body_edges_def split: option.splits)

lemma pos_self_edge:
  assumes "e \<in> set (prog_edges db rules)" "eg_from e = i" "eg_to e = i" "\<not> eg_neg e"
  shows "self_loop db rules i"
proof -
  obtain r h where h: "r \<in> set rules" "rl_head r = Some h" "e \<in> set (rule_edges db h (rl_body r))"
    using assms(1) by (force simp: prog_edges_def split: option.splits)
  then obtain a where r: "r \<in> set rules" "rl_head r = Some h" "\<not> findRel db (at_pred h) < 0" "a \<in> set (rl_body r)"
    "e \<in> set (body_edges db (nat (findRel db (at_pred h))) a)"
    by (auto simp: rule_edges_def Let_def split: if_splits)
  then have "range_name a = None" "findRel db (at_pred a) = int i" "findRel db (at_pred h) = int i"
    using assms(2-4) by (auto simp: body_edges_def Let_def split: option.splits if_splits)
  then show ?thesis using r unfolding self_loop_def by force
qed

text \<open>A path that leads back consists of positive edges.\<close>

lemma cycle_positive:
  assumes "stratifiable es"
  shows "(a, b) \<in> (deps es)\<^sup>* \<Longrightarrow> (b, a) \<in> (deps es)\<^sup>* \<Longrightarrow> (a, b) \<in> (pos_deps es)\<^sup>*"
proof (induction rule: rtrancl_induct)
  case (step y z)
  obtain e where e: "e \<in> set es" "y = eg_from e" "z = eg_to e" using step(2) by (auto simp: deps_def)
  have "(z, y) \<in> (deps es)\<^sup>*" using step(1,4) by (rule rtrancl_trans [rotated])
  then have "\<not> eg_neg e" using assms e unfolding stratifiable_def by blast
  then have "(y, z) \<in> pos_deps es" using e unfolding pos_deps_def by blast
  moreover have "(y, a) \<in> (deps es)\<^sup>*" using step(2,4) by (rule converse_rtrancl_into_rtrancl)
  ultimately show ?case using step(3) by (meson rtrancl.rtrancl_into_rtrancl)
qed simp

lemma pos_deps_sub: "(a, b) \<in> (pos_deps es)\<^sup>* \<Longrightarrow> (a, b) \<in> (deps es)\<^sup>*"
  by (rule rtrancl_mono [THEN subsetD, of "pos_deps es"]) (auto simp: pos_deps_def deps_def)

text \<open>A relation on a cycle of positive edges: one that shares its component, or reads itself.\<close>

lemma on_cycle:
  assumes "stratifiable (prog_edges db rules)" "n = length (db_rels db)"
  shows "(i, i) \<in> (pos_deps (prog_edges db rules))\<^sup>+ \<longleftrightarrow> shared (adj_of n (prog_edges db rules)) i \<or> self_loop db rules i"
proof -
  let ?es = "prog_edges db rules" and ?P = "pos_deps (prog_edges db rules)"
  have arcs: "arcs (adj_of n ?es) = ?P" using adj_of_ok(3) prog_edges_in assms(2) by simp
  show ?thesis
  proof
    assume "(i, i) \<in> ?P\<^sup>+"
    then obtain z where z: "(i, z) \<in> ?P" "(z, i) \<in> ?P\<^sup>*" by (meson tranclD)
    show "shared (adj_of n ?es) i \<or> self_loop db rules i"
    proof (cases "z = i")
      case True
      then show ?thesis using z(1) pos_self_edge by (auto simp: pos_deps_def)
    next
      case False
      then show ?thesis using z arcs by (auto simp: shared_def mutual_def)
    qed
  next
    assume "shared (adj_of n ?es) i \<or> self_loop db rules i"
    then show "(i, i) \<in> ?P\<^sup>+"
    proof
      assume "shared (adj_of n ?es) i"
      then obtain v where "v \<noteq> i" "(i, v) \<in> ?P\<^sup>*" "(v, i) \<in> ?P\<^sup>*" using arcs by (auto simp: shared_def mutual_def)
      then have "(i, v) \<in> ?P\<^sup>+" using rtranclD [of i v ?P] by simp
      then show ?thesis using \<open>(v, i) \<in> ?P\<^sup>*\<close> by (rule trancl_rtrancl_trancl)
    next
      assume "self_loop db rules i"
      then obtain e where e: "e \<in> set ?es" "eg_from e = i" "eg_to e = i" using self_loop_edge by blast
      have "eg_neg e \<Longrightarrow> (eg_to e, eg_from e) \<notin> (deps ?es)\<^sup>*" using assms(1) e(1) by (simp add: stratifiable_def)
      then have "\<not> eg_neg e" using e(2,3) by auto
      then have "(eg_from e, eg_to e) \<in> ?P" using e(1) unfolding pos_deps_def by blast
      then have "(i, i) \<in> ?P" using e(2,3) by simp
      then show ?thesis by (rule r_into_trancl)
    qed
  qed
qed

subsection \<open>The stratifier is correct\<close>

text \<open>What an accepting answer promises: the strata put no relation below what it reads, and strictly above what
  it negates and above the recursive components it reads; no other strata that do are lower anywhere;
  the marks hold every relation on a cycle, and nothing else when the uninitialised array is clean.\<close>

definition strata_spec :: "dl_db \<Rightarrow> rule list \<Rightarrow> int list \<Rightarrow> bool list \<Rightarrow> nat list \<Rightarrow> bool list \<Rightarrow> bool" where
  "strata_spec db rules junk rec0 strata rec \<longleftrightarrow>
     (let es = prog_edges db rules; n = length (db_rels db);
          told = (\<lambda>i. rec0 ! i \<or> (\<exists>cr \<in> set (db_crules db). cr_is_recursive cr \<and> cr_head_rel_id cr = i) \<or> (i, i) \<in> (pos_deps es)\<^sup>+) in
      length strata = n \<and> length rec = n \<and> (\<forall>i < n. strata ! i < n) \<and>
      obeys es (up_edge es rec) (\<lambda>i. strata ! i) \<and>
      (\<forall>p. obeys es (up_edge es rec) p \<longrightarrow> (\<forall>i < n. strata ! i \<le> p i)) \<and>
      (\<forall>i < n. told i \<longrightarrow> rec ! i) \<and> (clean n junk \<longrightarrow> (\<forall>i < n. rec ! i \<longrightarrow> told i)))"

lemma obeys_mono: "obeys es strict p \<Longrightarrow> (\<And>e. e \<in> set es \<Longrightarrow> strict' e \<Longrightarrow> strict e) \<Longrightarrow> obeys es strict' p"
  unfolding obeys_def by (auto split: if_splits intro: less_imp_le)

text \<open>A positive cycle survives both passes only if nothing on it is negated.\<close>

lemma settled_stratifiable:
  assumes "settled strict es s" "\<And>e. e \<in> set es \<Longrightarrow> s ! eg_from e \<le> STRATUM_CAP"
    "\<And>e. e \<in> set es \<Longrightarrow> eg_neg e \<Longrightarrow> s ! eg_from e < s ! eg_to e"
  shows "stratifiable es"
proof -
  have edge: "s ! eg_from e \<le> s ! eg_to e" if "e \<in> set es" for e
  proof -
    have "needed strict e s \<le> s ! eg_to e" using assms(1) that unfolding settled_def by blast
    moreover have "s ! eg_from e \<le> needed strict e s" using assms(2) [OF that] by (simp add: needed_def)
    ultimately show ?thesis by linarith
  qed
  have path: "s ! a \<le> s ! b" if "(a, b) \<in> (deps es)\<^sup>*" for a b
    using that by (induction rule: rtrancl_induct) (auto simp: deps_def intro: le_trans edge)
  show ?thesis unfolding stratifiable_def using assms(3) path by (meson leD)
qed

lemma strict_up:
  assumes "edges_in n es" "components (adj_of n es) (rev_adj_of n es) junk rec0 = (co, rec1)" "length junk = n" "length rec0 = n" "e \<in> set es"
  shows "strict_edge co rec e \<longleftrightarrow> up_edge es rec e"
proof -
  note a = adj_of_ok [OF assms(1)]
  have e: "eg_from e < n" "eg_to e < n" using assms(1,5) by (auto simp: edges_in_def)
  have "co ! eg_from e = co ! eg_to e \<longleftrightarrow> mutual (adj_of n es) (eg_from e) (eg_to e)"
    using components_ok(3) [of "adj_of n es" "rev_adj_of n es" junk rec0 co rec1 "eg_from e" "eg_to e"] a assms(2-4) e by simp
  also have "\<dots> \<longleftrightarrow> (eg_from e, eg_to e) \<in> (pos_deps es)\<^sup>* \<and> (eg_to e, eg_from e) \<in> (pos_deps es)\<^sup>*" using a(3) by (simp add: mutual_def)
  finally have co: "co ! eg_from e = co ! eg_to e \<longleftrightarrow>
      (eg_from e, eg_to e) \<in> (pos_deps es)\<^sup>* \<and> (eg_to e, eg_from e) \<in> (pos_deps es)\<^sup>*" .
  have "(eg_from e, eg_to e) \<in> (pos_deps es)\<^sup>*" if "\<not> eg_neg e" using that assms(5) unfolding pos_deps_def by blast
  then show ?thesis using co by (auto simp: strict_edge_def up_edge_def)
qed

text \<open>A stratifiable program is accepted.\<close>

lemma strata_accept:
  assumes es: "es = prog_edges db rules" "n = length (db_rels db)" "0 < n" "n \<le> MAX_RELS" and strat: "stratifiable es"
    and r1: "relax_rounds eg_neg es STRATUM_ROUNDS (replicate n 0) = (s1, c1)"
    and co: "components (adj_of n es) (rev_adj_of n es) junk rec0 = (co, rec1)" "length junk = n" "length rec0 = n"
    and rec2: "rec2 = seed_rec db (mark_loops db rules n rec1)"
    and r2: "relax_rounds (strict_edge co rec2) es STRATUM_ROUNDS s1 = (s2, c2)"
  shows "\<not> c1" "\<not> c2" "\<And>e. e \<in> set es \<Longrightarrow> eg_neg e \<Longrightarrow> s2 ! eg_from e < s2 ! eg_to e" "strata_spec db rules junk rec0 s2 rec2"
proof -
  have ein: "edges_in n es" using prog_edges_in es(1,2) by simp
  note a = adj_of_ok [OF ein]
  let ?R = "replicate n (0 :: nat)" and ?k = STRATUM_ROUNDS and ?S = "strict_edge co rec2"
  have k: "0 < ?k" by (simp add: STRATUM_ROUNDS_def)
  have neg_acyclic: "acyclic_strict es eg_neg" using strat by (simp add: stratifiable_def acyclic_strict_def)
  note h1 = height_ok [OF neg_acyclic ein]
  show c1: "\<not> c1" by (rule relax_rounds_end(1) [OF ein length_replicate es(4) r1 h1(1)]) (use h1(2) in auto)
  have ein_R: "edges_in (length ?R) es" using ein by simp
  note first = relax_rounds_ok [OF ein_R r1 k]
  have len1: "length s1 = n" using first(1) by simp
  have ein1: "edges_in (length s1) es" using ein len1 by simp
  note second = relax_rounds_ok [OF ein1 r2 k, unfolded len1]
  have up: "?S e \<longleftrightarrow> up_edge es rec2 e" if "e \<in> set es" for e by (rule strict_up [OF ein co that])
  have "acyclic_strict es ?S"
    unfolding acyclic_strict_def
  proof (intro ballI impI notI)
    fix e assume e: "e \<in> set es" "?S e" and turn: "(eg_to e, eg_from e) \<in> (deps es)\<^sup>*"
    have "\<not> eg_neg e" using strat e(1) turn unfolding stratifiable_def by blast
    then have out: "(eg_to e, eg_from e) \<notin> (pos_deps es)\<^sup>*" using up [OF e(1)] e(2) by (simp add: up_edge_def)
    have "(eg_from e, eg_to e) \<in> deps es" using e(1) unfolding deps_def by blast
    then show False using cycle_positive [OF strat turn r_into_rtrancl] out by blast
  qed
  note h2 = height_ok [OF this ein]
  have from_first: "s1 ! i \<le> p i" if "obeys es ?S p" "i < n" for p i
  proof (rule first(4))
    show "capped es eg_neg p" by (rule obeys_capped, rule obeys_mono [OF that(1)]) (simp add: strict_edge_def)
  qed (use that in simp_all)
  show c2: "\<not> c2" by (rule relax_rounds_end(1) [OF ein len1 es(4) r2 h2(1) from_first [OF h2(1)] h2(2)])
  have small: "s2 ! i < n" if "i < n" for i
    by (rule relax_rounds_end(2) [OF ein len1 es(4) r2 h2(1) from_first [OF h2(1)] h2(2) that])
  have ob: "obeys es ?S (\<lambda>i. s2 ! i)"
  proof (rule settled_obeys [OF second(3) [OF c2] ein])
    fix i assume "i < n"
    then have "s2 ! i < 64" using small [of i] es(4) by (simp add: MAX_RELS_def)
    then show "s2 ! i < STRATUM_CAP" by (simp add: STRATUM_CAP_def)
  qed
  show neg: "s2 ! eg_from e < s2 ! eg_to e" if "e \<in> set es" "eg_neg e" for e
    using ob that unfolding obeys_def strict_edge_def by auto
  have least: "s2 ! i \<le> p i" if "obeys es ?S p" "i < n" for p i
    by (rule second(4) [OF obeys_capped [OF that(1)] from_first [OF that(1)] that(2)])
  have same: "obeys es (up_edge es rec2) p \<longleftrightarrow> obeys es ?S p" for p using up by (auto simp: obeys_def)
  have n: "length junk = length (adj_of n es)" "length rec0 = length (adj_of n es)" "length (rev_adj_of n es) = length (adj_of n es)"
    "arcs (rev_adj_of n es) = (arcs (adj_of n es))\<inverse>" using a co(2,3) by simp_all
  note comp = components_ok [OF a(5) n(4,3) a(6) n(1,2) co(1), unfolded a(1)]
  have len2: "length (mark_loops db rules n rec1) = n" using comp(2) by (simp add: mark_loops_def)
  have marks: "rec2 ! i \<longleftrightarrow> rec1 ! i \<or> self_loop db rules i \<or> (\<exists>cr \<in> set (db_crules db). cr_is_recursive cr \<and> cr_head_rel_id cr = i)"
    if "i < n" for i
  proof -
    have "length (db_rels db) mod 256 = n" using es(2,4) by (simp add: MAX_RELS_def)
    then show ?thesis using seed_rec_ok(2) [of i "mark_loops db rules n rec1" db] len2 that comp(2) rec2 by (auto simp: mark_loops_def)
  qed
  note cyc = on_cycle [OF strat [unfolded es(1)] es(2), folded es(1)]
  have lens: "length s2 = n" "length rec2 = n" using rec2 seed_rec_ok(1) len2 second(1) by simp_all
  have told: "rec2 ! i" if "i < n" "rec0 ! i \<or> (\<exists>cr \<in> set (db_crules db). cr_is_recursive cr \<and> cr_head_rel_id cr = i) \<or> (i, i) \<in> (pos_deps es)\<^sup>+" for i
    using that(2) marks [OF that(1)] comp(4) [OF that(1)] cyc [of i] by auto
  have only: "rec0 ! i \<or> (\<exists>cr \<in> set (db_crules db). cr_is_recursive cr \<and> cr_head_rel_id cr = i) \<or> (i, i) \<in> (pos_deps es)\<^sup>+"
    if "clean n junk" "i < n" "rec2 ! i" for i
    using that(3) marks [OF that(2)] comp(5) [OF that(1,2)] cyc [of i] by auto
  show "strata_spec db rules junk rec0 s2 rec2"
    unfolding strata_spec_def es(1) [symmetric] es(2) [symmetric] Let_def
    by (intro conjI allI impI lens small least) (simp_all add: same ob told only)
qed

text \<open>An accepted program is stratifiable.\<close>

lemma relax_capped:
  assumes "edges_in n es" "length s = n" "\<And>i. i < n \<Longrightarrow> s ! i \<le> STRATUM_CAP" "relax_rounds strict es STRATUM_ROUNDS s = (s', c)" "i < n"
  shows "s' ! i \<le> STRATUM_CAP"
proof -
  have e: "edges_in (length s) es" using assms(1,2) by simp
  have "capped es strict (\<lambda>_. STRATUM_CAP)" by (simp add: capped_def)
  then show ?thesis using relax_rounds_ok(4) [OF e assms(4), of "\<lambda>_. STRATUM_CAP" i] assms(2,3,5) by (simp add: STRATUM_ROUNDS_def)
qed

lemma strata_refuse:
  assumes es: "edges_in n es" "0 < n"
    and r1: "relax_rounds eg_neg es STRATUM_ROUNDS (replicate n 0) = (s1, c1)" and r2: "relax_rounds strict es STRATUM_ROUNDS s1 = (s2, c2)"
    and ends: "\<not> c2" "\<And>e. e \<in> set es \<Longrightarrow> eg_neg e \<Longrightarrow> s2 ! eg_from e < s2 ! eg_to e"
  shows "stratifiable es"
proof -
  have k: "0 < STRATUM_ROUNDS" by (simp add: STRATUM_ROUNDS_def)
  have len: "length (replicate n (0 :: nat)) = n" by simp
  have R: "edges_in (length (replicate n (0 :: nat))) es" using es(1) by simp
  have len1: "length s1 = n" using relax_rounds_ok(1) [OF R r1 k] by simp
  have "s1 ! i \<le> STRATUM_CAP" if "i < n" for i by (rule relax_capped [OF es(1) len _ r1 that]) simp
  note cap2 = relax_capped [OF es(1) len1 this r2]
  have "edges_in (length s1) es" using es(1) len1 by simp
  note set2 = relax_rounds_ok(3) [OF this r2 k ends(1)]
  show ?thesis
  proof (rule settled_stratifiable [OF set2 _ ends(2)])
    show "s2 ! eg_from e \<le> STRATUM_CAP" if "e \<in> set es" for e using cap2 es(1) that by (auto simp: edges_in_def)
  qed
qed

lemma compute_strata_ok:
  assumes "generous al" "0 < length (db_rels db)" "length (db_rels db) \<le> MAX_RELS" "1 \<le> out_max" "\<forall>r \<in> set rules. rl_head r \<noteq> None"
    "length junk = length (db_rels db)" "length strata0 = length (db_rels db)" "length rec0 = length (db_rels db)"
  shows "\<exists>strata rec. compute_strata al junk db rules out_max strata0 rec0 =
      Some (if stratifiable (prog_edges db rules) then 0 else 1, strata, rec) \<and>
    (stratifiable (prog_edges db rules) \<longrightarrow> strata_spec db rules junk rec0 strata rec) \<and>
    (\<not> stratifiable (prog_edges db rules) \<longrightarrow> strata = strata0)"
proof -
  define n where "n = length (db_rels db)"
  define es where "es = prog_edges db rules"
  have ein: "edges_in n es" using prog_edges_in by (simp add: n_def es_def)
  have n: "0 < n" "n \<le> MAX_RELS" "length strata0 = n" using assms by (simp_all add: n_def)
  obtain cap where col: "collect_edges al db rules ([], 0) = Some (Some (es, cap))"
    using collect_edges_ok [OF assms(1,5), of db "[]" 0] by (auto simp: es_def)
  have gr: "granted al xs" for xs using assms(1) by (auto simp: granted_def generous_def)
  obtain s1 c1 where r1: "relax_rounds eg_neg es STRATUM_ROUNDS (replicate n 0) = (s1, c1)"
    by (cases "relax_rounds eg_neg es STRATUM_ROUNDS (replicate n 0)")
  obtain co rec1 where co: "components (adj_of n es) (rev_adj_of n es) junk rec0 = (co, rec1)"
    by (cases "components (adj_of n es) (rev_adj_of n es) junk rec0")
  define rec2 where "rec2 = seed_rec db (mark_loops db rules n rec1)"
  obtain s2 c2 where r2: "relax_rounds (strict_edge co rec2) es STRATUM_ROUNDS s1 = (s2, c2)"
    by (cases "relax_rounds (strict_edge co rec2) es STRATUM_ROUNDS s1")
  have result: "compute_strata al junk db rules out_max strata0 rec0 =
      Some (if c1 then (1, strata0, rec0)
        else if c2 \<or> (\<exists>e \<in> set es. eg_neg e \<and> s2 ! eg_to e \<le> s2 ! eg_from e) then (1, strata0, rec2) else (0, s2, rec2))"
    using col gr r1 co r2 n assms(4)
    by (auto simp: compute_strata_def n_def [symmetric] rec2_def [symmetric] Let_def)
  show ?thesis
  proof (cases "stratifiable es")
    case True
    note acc = strata_accept [OF es_def n_def n(1,2) True r1 co _ _ rec2_def r2]
    have len: "length junk = n" "length rec0 = n" using assms by (simp_all add: n_def)
    have "\<not> (\<exists>e \<in> set es. eg_neg e \<and> s2 ! eg_to e \<le> s2 ! eg_from e)" using acc(3) [OF len] by (auto simp: not_le)
    then have "compute_strata al junk db rules out_max strata0 rec0 = Some (0, s2, rec2)"
      unfolding result using acc(1,2) [OF len] by simp
    then show ?thesis using acc(4) [OF len] True unfolding es_def [symmetric] by simp
  next
    case False
    have "c1 \<or> c2 \<or> (\<exists>e \<in> set es. eg_neg e \<and> s2 ! eg_to e \<le> s2 ! eg_from e)"
      using strata_refuse [OF ein n(1) r1 r2] False not_less by blast
    then show ?thesis using result False unfolding es_def [symmetric] by auto
  qed
qed

lemma prog_edges_none: "length (db_rels db) = 0 \<or> rules = [] \<Longrightarrow> prog_edges db rules = []"
proof -
  assume "length (db_rels db) = 0 \<or> rules = []"
  then show ?thesis
  proof
    assume "length (db_rels db) = 0"
    then have "\<forall>e \<in> set (prog_edges db rules). False" using prog_edges_in [of db rules] by (simp add: edges_in_def)
    then show ?thesis by (cases "prog_edges db rules") auto
  qed (simp add: prog_edges_def)
qed

lemma programStratifies_ok:
  assumes "generous al" "length (db_rels db) \<le> MAX_RELS" "\<forall>r \<in> set rules. rl_head r \<noteq> None" "length junk = length (db_rels db)"
  shows "programStratifies al junk db rules = Some (if stratifiable (prog_edges db rules) then 1 else 0)"
proof (cases "length (db_rels db) = 0 \<or> rules = []")
  case True
  then show ?thesis using prog_edges_none [OF True] by (auto simp: programStratifies_def stratifiable_def)
next
  case False
  let ?n = "length (db_rels db)"
  have "1 \<le> ?n" "0 < ?n" using False by (simp_all add: Suc_le_eq)
  then obtain strata rec where "compute_strata al junk db rules ?n (replicate ?n 0) (replicate ?n False) =
      Some (if stratifiable (prog_edges db rules) then 0 else 1, strata, rec)"
    using compute_strata_ok [OF assms(1) _ assms(2) _ assms(3,4) length_replicate length_replicate] by blast
  then show ?thesis using False assms(1) by (auto simp: programStratifies_def generous_def Let_def)
qed

text \<open>More rounds than it takes change nothing.\<close>

lemma relax_rounds_more:
  "relax_rounds strict es k s = (s', False) \<Longrightarrow> k \<le> m \<Longrightarrow> relax_rounds strict es m s = (s', False)"
proof (induction k arbitrary: s m)
  case (Suc k)
  obtain m' where m: "m = Suc m'" "k \<le> m'" using Suc.prems(2) by (cases m) auto
  obtain s1 c1 where r: "relax_round strict es s = (s1, c1)" by (cases "relax_round strict es s")
  show ?case
  proof (cases c1)
    case False
    then show ?thesis using Suc.prems(1) r m by auto
  next
    case True
    then have "k \<noteq> 0" "relax_rounds strict es k s1 = (s', False)" using Suc.prems(1) r by (auto split: if_splits)
    then show ?thesis using Suc.IH [OF _ m(2)] True r m by simp
  qed
qed simp

lemma rounds_bound:
  assumes "edges_in n es" "0 < n" "acyclic_strict es strict" "n * n < m"
  shows "\<exists>s. relax_rounds strict es m (replicate n 0) = (s, False) \<and> relax_rounds strict es (Suc (n * n)) (replicate n 0) = (s, False)"
proof -
  let ?k = "Suc (n * n)"
  obtain s c where r: "relax_rounds strict es ?k (replicate n 0) = (s, c)" by (cases "relax_rounds strict es ?k (replicate n 0)")
  have R: "edges_in (length (replicate n (0 :: nat))) es" using assms(1) by simp
  note h = height_ok [OF assms(3,1)]
  note ok = relax_rounds_ok [OF R r zero_less_Suc]
  have "s ! i \<le> n" if "i < n" for i
    using ok(4) [OF obeys_capped [OF h(1)], of i] h(2) [OF that] that by simp
  then have "sum_list s \<le> n * n" using sum_list_below [of s n] ok(1) by simp
  then have "\<not> c" using ok(5) by auto
  then have r: "relax_rounds strict es ?k (replicate n 0) = (s, False)" using r by simp
  have "?k \<le> m" using assms(4) by simp
  then show ?thesis using r relax_rounds_more [OF r] by blast
qed

subsection \<open>Properties\<close>


text \<open>C32: the loop that raises the strata ends by itself: for a stratifiable program over \<open>n\<close> relations a round changes
  nothing after at most \<open>n\<^sup>2 + 1\<close> rounds, and any larger limit, the 10000 of the code for its 64
  relations among them, gives the same strata.\<close>

theorem strata_rounds_end:
  assumes "stratifiable (prog_edges db rules)" "0 < length (db_rels db)" "length (db_rels db) * length (db_rels db) < m"
  shows "\<exists>s. relax_rounds eg_neg (prog_edges db rules) m (replicate (length (db_rels db)) 0) = (s, False) \<and>
    relax_rounds eg_neg (prog_edges db rules) (Suc (length (db_rels db) * length (db_rels db))) (replicate (length (db_rels db)) 0) = (s, False)"
  by (rule rounds_bound [OF prog_edges_in assms(2) _ assms(3)])
    (use assms(1) in \<open>simp add: stratifiable_def acyclic_strict_def\<close>)

text \<open>Relations \<open>a\<close> and \<open>b\<close> that read each other, and \<open>c\<close> that reads \<open>a\<close>.\<close>

definition rel_named :: "string \<Rightarrow> rel_entry" where
  "rel_named nm = \<lparr>re_name = nm, re_kind = RELK_FIXED, re_arity = 1, re_rel = None, re_vrel = None\<rparr>"

definition cycle_db :: dl_db where
  "cycle_db = one_rel_db\<lparr>db_rels := map rel_named [''a'', ''b'', ''c'']\<rparr>"

definition reads_rule :: "string \<Rightarrow> string \<Rightarrow> rule" where
  "reads_rule h b = plain_rule (plain_atom h [var_token ''X'']) [plain_atom b [var_token ''X'']]"

definition cycle_rules :: "rule list" where
  "cycle_rules = [reads_rule ''a'' ''b'', reads_rule ''b'' ''a'', reads_rule ''c'' ''a'']"

lemma cycle_edges: "prog_edges cycle_db cycle_rules =
    [\<lparr>eg_from = 1, eg_to = 0, eg_neg = False\<rparr>, \<lparr>eg_from = 0, eg_to = 1, eg_neg = False\<rparr>, \<lparr>eg_from = 0, eg_to = 2, eg_neg = False\<rparr>]"
  by (simp add: prog_edges_def cycle_rules_def reads_rule_def plain_rule_def plain_atom_def rule_edges_def body_edges_def findRel_def
      cycle_db_def rel_named_def range_name_def is_range_builtin_def)

text \<open>With the uninitialised array holding zeros, \<open>c\<close> is marked recursive although it is on no cycle.\<close>

lemma outsider_marked:
  "snd (components (adj_of 3 (prog_edges cycle_db cycle_rules)) (rev_adj_of 3 (prog_edges cycle_db cycle_rules)) [0, 0, 0] [False, False, False]) =
     [True, True, True]"
  "snd (components (adj_of 3 (prog_edges cycle_db cycle_rules)) (rev_adj_of 3 (prog_edges cycle_db cycle_rules)) [-1, -1, -1] [False, False, False]) =
     [True, True, False]"
  unfolding cycle_edges by code_simp+

lemma cycle_deps: "pos_deps (prog_edges cycle_db cycle_rules) = {(1, 0), (0, 1), (0, 2)}"
proof -
  have "pos_deps es = (\<lambda>e. (eg_from e, eg_to e)) ` set (filter (\<lambda>e. \<not> eg_neg e) es)" for es by (auto simp: pos_deps_def)
  then show ?thesis unfolding cycle_edges by (simp del: set_filter)
qed


theorem strata_rounds_end_witness:
  "\<exists>s. relax_rounds eg_neg (prog_edges cycle_db cycle_rules) STRATUM_ROUNDS [0, 0, 0] = (s, False)"
proof -
  have n: "length (db_rels cycle_db) = 3" by (simp add: cycle_db_def)
  have "stratifiable (prog_edges cycle_db cycle_rules)" by (simp add: stratifiable_def cycle_edges)
  from strata_rounds_end [OF this, of STRATUM_ROUNDS] show ?thesis by (auto simp: n STRATUM_ROUNDS_def numeral_3_eq_3)
qed

end
