(* ===== verification/InternFile.thy ===== *)
theory InternFile
  imports Intern
begin

text \<open>
  The file of the symbol table, \<^verbatim>\<open>symbols.array\<close> (\<^verbatim>\<open>zig/src/intern.zig\<close>): one escaped line per symbol.  Loading
  splits and decodes the lines in place and, when the bytes it read are already the canonical
  text, takes them for the hash as they are; saving appends the new lines when the file is still the one
  it last wrote, and replaces it otherwise.

  A disk gives each path its content and the identity (device, inode and times) by which the code
  recognises a file; everything that writes or replaces a file gives it a new one.  Other processes and their
  locks are not modelled.
\<close>

subsection \<open>Reading\<close>

text \<open>The escape decoder with its runs; the second component is whether every escape was a valid one.\<close>

function decode_runs :: "bytes \<Rightarrow> bytes \<times> bool" where
  "decode_runs seg =
     (let run = takeWhile (\<lambda>b. b \<noteq> 92) seg in
      case dropWhile (\<lambda>b. b \<noteq> 92) seg of
        [] \<Rightarrow> (run, True)
      | _ # rest \<Rightarrow>
          (case rest of
             [] \<Rightarrow> (run @ [92], False)
           | b # bs \<Rightarrow>
               if b = 110 then (case decode_runs bs of (out, canonical) \<Rightarrow> (run @ 10 # out, canonical))
               else if b = 92 then (case decode_runs bs of (out, canonical) \<Rightarrow> (run @ 92 # out, canonical))
               else (case decode_runs rest of (out, canonical) \<Rightarrow> (run @ 92 # out, False))))"
  by pat_completeness auto
termination
proof (relation "measure length")
  fix seg :: bytes and x rest b bs assume "dropWhile (\<lambda>b. b \<noteq> 92) seg = x # rest" "rest = b # bs"
  then have "length (x # b # bs) \<le> length seg" by (metis length_dropWhile_le)
  then show "(bs, seg) \<in> measure length" "(bs, seg) \<in> measure length" "(rest, seg) \<in> measure length"
    using \<open>rest = b # bs\<close> by simp_all
qed simp

declare decode_runs.simps [simp del]

definition decodeRuns :: "bytes \<Rightarrow> bytes \<times> bool \<times> bool" where
  "decodeRuns seg = (case decode_runs (takeWhile (\<lambda>b. b \<noteq> 0) seg) of (out, canonical) \<Rightarrow> (out, canonical, 0 \<notin> set seg))"

text \<open>The symbol of a physical line, and whether the line is its canonical text.\<close>

definition line_symbol :: "bytes \<Rightarrow> bytes \<times> bool" where
  "line_symbol seg =
     (let crlf = seg \<noteq> [] \<and> last seg = 13; line = (if crlf then butlast seg else seg) in
      if 92 \<notin> set line then (takeWhile (\<lambda>b. b \<noteq> 0) line, \<not> crlf \<and> 0 \<notin> set line)
      else case decodeRuns line of (s, canonical, nul_free) \<Rightarrow> (s, \<not> crlf \<and> canonical \<and> nul_free))"

text \<open>A line for which the array cannot grow is dropped.\<close>

definition split_one :: "allocator \<Rightarrow> bytes \<Rightarrow> interner \<times> bool \<Rightarrow> interner \<times> bool" where
  "split_one al seg st =
     (case (st, line_symbol seg) of ((ir, fuse_ok), (s, canonical)) \<Rightarrow>
        (case grow_rev al (ir_next_id ir) (ir_rev ir) of
           None \<Rightarrow> (ir, fuse_ok \<and> canonical)
         | Some rows \<Rightarrow>
             (ir\<lparr>ir_rev := rows[ir_next_id ir - 1 := Some s], ir_next_id := ir_next_id ir + 1\<rparr>, fuse_ok \<and> canonical)))"

text \<open>The physical lines; the last one may lack its newline.\<close>

function file_lines :: "bytes \<Rightarrow> bytes list" where
  "file_lines bs =
     (if bs = [] then []
      else takeWhile (\<lambda>b. b \<noteq> 10) bs #
        (case dropWhile (\<lambda>b. b \<noteq> 10) bs of [] \<Rightarrow> [] | _ # rest \<Rightarrow> file_lines rest))"
  by pat_completeness auto
termination
proof (relation "measure length")
  fix bs :: bytes and x rest assume "dropWhile (\<lambda>b. b \<noteq> 10) bs = x # rest"
  then have "length (x # rest) \<le> length bs" by (metis length_dropWhile_le)
  then show "(rest, bs) \<in> measure length" by simp
qed simp

declare file_lines.simps [simp del]

subsection \<open>The disk, and what is known to be saved\<close>

record disk =
  dk_files :: files
  dk_stamp :: "string \<Rightarrow> nat"
  dk_clock :: nat

definition MAX_SAVED_PATH :: nat where "MAX_SAVED_PATH = 4096"
definition SAVE_CHUNK :: nat where "SAVE_CHUNK = 2 ^ 20"

definition statxOfPath :: "io \<Rightarrow> string \<Rightarrow> disk \<Rightarrow> (nat \<times> nat) option" where
  "statxOfPath io path dk =
     (if io_ok io ''statx'' then map_option (\<lambda>bs. (dk_stamp dk path, length bs)) (dk_files dk path) else None)"

definition isRecordedFile :: "saved_prefix \<Rightarrow> nat \<times> nat \<Rightarrow> bool" where
  "isRecordedFile slot stx \<longleftrightarrow> stx = (sp_stamp slot, sp_bytes slot)"

definition slot_of :: "interner \<Rightarrow> string \<Rightarrow> nat option" where
  "slot_of ir path = find (\<lambda>i. sp_path (ir_saved ir ! i) \<noteq> [] \<and> sp_path (ir_saved ir ! i) = path) [0..<length (ir_saved ir)]"

definition savedSlot :: "interner \<Rightarrow> string \<Rightarrow> nat option" where
  "savedSlot ir path = (if length path \<ge> MAX_SAVED_PATH then None else slot_of ir path)"

text \<open>The slot to use: the path's own, else a free one, else the least recently used.\<close>

definition target_slot :: "interner \<Rightarrow> string \<Rightarrow> nat" where
  "target_slot ir path =
     (let saved = ir_saved ir in
      case slot_of ir path of
        Some i \<Rightarrow> i
      | None \<Rightarrow>
          (case find (\<lambda>i. sp_path (saved ! i) = []) [0..<length saved] of
             Some i \<Rightarrow> i
           | None \<Rightarrow> fold (\<lambda>i lru. if sp_used (saved ! i) < sp_used (saved ! lru) then i else lru) [0..<length saved] 0))"

definition rememberSavedAt :: "io \<Rightarrow> string \<Rightarrow> nat option \<Rightarrow> disk \<Rightarrow> interner \<Rightarrow> interner" where
  "rememberSavedAt io path expect_bytes dk ir =
     (if length path \<ge> MAX_SAVED_PATH then ir
      else case statxOfPath io path dk of
        None \<Rightarrow> ir
      | Some (stamp, sz) \<Rightarrow>
          if expect_bytes \<noteq> None \<and> expect_bytes \<noteq> Some sz then ir
          else ir\<lparr>ir_saved := (ir_saved ir)[target_slot ir path :=
                   \<lparr>sp_path = path, sp_next_id = ir_next_id ir, sp_bytes = sz, sp_stamp = stamp, sp_used = ir_saved_seq ir + 1\<rparr>],
                 ir_saved_seq := ir_saved_seq ir + 1\<rparr>)"

text \<open>Loading: no file is an empty table, and \<open>None\<close> is out of memory.\<close>

definition loadImpl :: "allocator \<Rightarrow> io \<Rightarrow> string option \<Rightarrow> string \<Rightarrow> bool \<Rightarrow> disk \<Rightarrow> interner option" where
  "loadImpl al io fwd_path path want_stamp dk =
     (if \<not> al ''loadImpl'' 1 \<or> fwd_path \<noteq> None \<and> \<not> al ''strdup'' (length (the fwd_path) + 1) \<or>
         \<not> al ''intern.rev'' (INTERN_REV_INIT_CAP * 8) then None
      else let ir = empty_interner None in
        case (if io_ok io ''fopen'' then dk_files dk path else None) of
          None \<Rightarrow> Some ir
        | Some bs \<Rightarrow>
            if \<not> al ''loadImpl.buf'' (length bs + 1) then None
            else if bs = [] then Some (rememberSavedAt io path (Some 0) dk ir)
            else (case fold (split_one al) (file_lines bs) (if want_stamp then ir\<lparr>ir_sym_hash := bs\<rparr> else ir, True) of
              (ir1, fuse_ok) \<Rightarrow>
                let ends_nl = (last bs = 10);
                    ir2 = (if want_stamp \<and> fuse_ok
                           then ir1\<lparr>ir_sym_hash := ir_sym_hash ir1 @ (if ends_nl then [] else [10]), ir_sym_hashed := ir_next_id ir1 - 1\<rparr>
                           else ir1\<lparr>ir_sym_hash := [], ir_sym_hashed := 0\<rparr>)
                in Some (if ends_nl then rememberSavedAt io path (Some (length bs)) dk ir2 else ir2)))"

definition intern_load :: "allocator \<Rightarrow> io \<Rightarrow> string option \<Rightarrow> string \<Rightarrow> disk \<Rightarrow> interner option" where
  "intern_load al io fwd_path path dk = loadImpl al io fwd_path path True dk"

definition internLoadNoStamp :: "allocator \<Rightarrow> io \<Rightarrow> string \<Rightarrow> disk \<Rightarrow> interner option" where
  "internLoadNoStamp al io path dk = loadImpl al io None path False dk"

subsection \<open>Writing\<close>

definition put_file :: "string \<Rightarrow> bytes \<Rightarrow> disk \<Rightarrow> disk" where
  "put_file path bs dk =
     dk\<lparr>dk_files := (dk_files dk)(path := Some bs), dk_stamp := (dk_stamp dk)(path := dk_clock dk), dk_clock := dk_clock dk + 1\<rparr>"

definition clear_slot :: "nat \<Rightarrow> interner \<Rightarrow> interner" where
  "clear_slot i ir = ir\<lparr>ir_saved := (ir_saved ir)[i := (ir_saved ir ! i)\<lparr>sp_path := []\<rparr>]\<rparr>"

text \<open>What is in the file after the lines were written, synced, and cut off again when either failed.\<close>

definition append_to :: "io \<Rightarrow> string \<Rightarrow> bytes \<Rightarrow> bytes \<Rightarrow> disk \<Rightarrow> bool \<times> disk" where
  "append_to io path old bs dk =
     (let written = (if io_ok io ''append'' then bs else take (io_written io) bs) in
      if io_ok io ''append'' \<and> io_ok io ''fsync append'' then (True, put_file path (old @ bs) dk)
      else (False, put_file path (if io_ok io ''ftruncate'' then old else old @ written) dk))"

text \<open>\<open>None\<close>: the lines to write reach past the array.\<close>

definition appendSymbols :: "allocator \<Rightarrow> io \<Rightarrow> string \<Rightarrow> interner \<Rightarrow> disk \<Rightarrow> (bool \<times> interner \<times> disk) option" where
  "appendSymbols al io path ir dk =
     (case savedSlot ir path of
        None \<Rightarrow> Some (False, ir, dk)
      | Some i \<Rightarrow>
          let slot = ir_saved ir ! i in
          if sp_next_id slot > ir_next_id ir then Some (False, clear_slot i ir, dk)
          else if (case statxOfPath io path dk of None \<Rightarrow> True | Some stx \<Rightarrow> \<not> isRecordedFile slot stx) then Some (False, clear_slot i ir, dk)
          else if sp_next_id slot = ir_next_id ir then Some (True, ir, dk)
          else case writeSymbolsTo ir (sp_next_id slot) (ir_next_id ir) of
            None \<Rightarrow> None
          | Some bs \<Rightarrow>
              if \<not> al ''MemSink'' (length bs) then Some (False, ir, dk)
              else if \<not> io_ok io ''open append'' \<or> \<not> io_ok io ''flock'' \<or> \<not> io_ok io ''statx fd'' then Some (False, clear_slot i ir, dk)
              else (case append_to io path (the (dk_files dk path)) bs dk of
                (ok, dk') \<Rightarrow>
                  if ok then Some (True, rememberSavedAt io path None dk' ir, dk') else Some (False, clear_slot i ir, dk')))"

text \<open>The whole file: a failing \<^verbatim>\<open>fflush\<close> is a failing \<^verbatim>\<open>write\<close>; a rename gives the path the temporary file's identity.\<close>

definition save_whole :: "allocator \<Rightarrow> io \<Rightarrow> string \<Rightarrow> interner \<Rightarrow> disk \<Rightarrow> (int \<times> disk) option" where
  "save_whole al io path ir dk =
     (if \<not> io_ok io ''open'' then Some (-1, dk)
      else if \<not> al ''intern_save'' SAVE_CHUNK
      then Some (-1, (put_file (tmp_name path) [] dk)\<lparr>dk_files := unlink io (tmp_name path) (dk_files (put_file (tmp_name path) [] dk))\<rparr>)
      else case writeSymbolsTo ir 1 (ir_next_id ir) of
        None \<Rightarrow> None
      | Some bs \<Rightarrow>
          (case atomic_replace True io al path bs (dk_files dk) of
             (rc, fs') \<Rightarrow>
               let renamed = (\<forall>call \<in> {''open'', ''write'', ''fsync'', ''close'', ''rename''}. io_ok io call);
                   stamp = (dk_stamp dk)(tmp_name path := dk_clock dk) in
               Some (rc, dk\<lparr>dk_files := fs', dk_stamp := (if renamed then stamp(path := dk_clock dk) else stamp),
                 dk_clock := dk_clock dk + 1\<rparr>)))"

definition intern_save :: "allocator \<Rightarrow> io \<Rightarrow> string \<Rightarrow> interner \<Rightarrow> disk \<Rightarrow> (int \<times> interner \<times> disk) option" where
  "intern_save al io path ir dk =
     (case appendSymbols al io path ir dk of
        None \<Rightarrow> None
      | Some (True, ir1, dk1) \<Rightarrow> Some (0, ir1\<lparr>ir_dirty := False\<rparr>, dk1)
      | Some (False, ir1, dk1) \<Rightarrow>
          (case save_whole al io path ir1 dk1 of
             None \<Rightarrow> None
           | Some (rc, dk2) \<Rightarrow>
               if rc \<noteq> 0 then Some (-1, ir1, dk2)
               else Some (0, (rememberSavedAt io path None dk2 ir1)\<lparr>ir_dirty := False\<rparr>, dk2)))"

subsection \<open>Escaping, byte by byte\<close>

definition esc :: "u8 \<Rightarrow> bytes" where
  "esc b = (if b = 92 then [92, 92] else if b = 10 then [92, 110] else [b])"

lemma write_runs_Cons [simp]: "write_runs (b # bs) = esc b @ write_runs bs"
proof (cases "plain b")
  case True
  then have "write_runs (b # bs) = b # (takeWhile plain bs @
      (case dropWhile plain bs of [] \<Rightarrow> [] | b # bs \<Rightarrow> [92, if b = 92 then 92 else 110] @ write_runs bs))"
    by (simp add: write_runs.simps [of "b # bs"])
  then show ?thesis using True by (simp add: write_runs.simps [of bs] esc_def plain_def)
next
  case False
  then show ?thesis by (auto simp: write_runs.simps [of "b # bs"] esc_def plain_def)
qed

lemma write_runs_Nil [simp]: "write_runs [] = []"
  by (simp add: write_runs.simps)

lemma write_runs_append: "write_runs (xs @ ys) = write_runs xs @ write_runs ys"
  by (induction xs) simp_all

lemma write_runs_bytes: "10 \<notin> set (write_runs s)" "cstr s \<Longrightarrow> cstr (write_runs s)"
  by (induction s) (auto simp: esc_def cstr_def)

lemma write_runs_last: "write_runs s \<noteq> [] \<and> last (write_runs s) = 13 \<longleftrightarrow> s \<noteq> [] \<and> last s = 13"
  by (induction s rule: rev_induct) (auto simp: write_runs_append esc_def)

lemma write_runs_unescaped: "92 \<notin> set (write_runs s) \<Longrightarrow> write_runs s = s"
  by (induction s) (auto simp: esc_def split: if_splits)

lemma write_runs_plain: "92 \<notin> set s \<Longrightarrow> 10 \<notin> set s \<Longrightarrow> write_runs s = s"
  by (induction s) (auto simp: esc_def)

text \<open>The decoder byte by byte.\<close>

fun decode_ref :: "bytes \<Rightarrow> bytes \<times> bool" where
  "decode_ref [] = ([], True)"
| "decode_ref (b # bs) =
     (if b \<noteq> 92 then (case decode_ref bs of (out, c) \<Rightarrow> (b # out, c))
      else case bs of
        [] \<Rightarrow> ([92], False)
      | x # xs \<Rightarrow>
          if x = 110 then (case decode_ref xs of (out, c) \<Rightarrow> (10 # out, c))
          else if x = 92 then (case decode_ref xs of (out, c) \<Rightarrow> (92 # out, c))
          else (case decode_ref bs of (out, c) \<Rightarrow> (92 # out, False)))"

lemma decode_runs_step:
  assumes "b \<noteq> 92"
  shows "decode_runs (b # bs) = (case decode_runs bs of (out, c) \<Rightarrow> (b # out, c))"
proof -
  have b: "(b \<noteq> 92) = True" using assms by simp
  note unfold = decode_runs.simps [of "b # bs"] decode_runs.simps [of bs] takeWhile.simps dropWhile.simps b if_True Let_def append_Cons
  show ?thesis
  proof (cases "dropWhile (\<lambda>b. b \<noteq> 92) bs")
    case Nil
    then show ?thesis by (simp only: unfold list.case prod.case)
  next
    case (Cons x rest)
    then show ?thesis by (cases rest) (simp_all only: unfold list.case prod.case split: prod.splits if_splits, simp_all)
  qed
qed

lemma decode_runs_esc:
  "decode_runs (92 # bs) = (case bs of [] \<Rightarrow> ([92], False)
     | x # xs \<Rightarrow> if x = 110 then (case decode_runs xs of (out, c) \<Rightarrow> (10 # out, c))
         else if x = 92 then (case decode_runs xs of (out, c) \<Rightarrow> (92 # out, c))
         else (case decode_runs bs of (out, c) \<Rightarrow> (92 # out, False)))"
  by (subst decode_runs.simps) (simp add: Let_def split: list.splits)

lemma decode_runs_ref: "decode_runs seg = decode_ref seg"
proof (induction seg rule: decode_ref.induct)
  case 1
  then show ?case by (simp add: decode_runs.simps)
next
  case (2 b bs)
  then show ?case by (cases "b = 92") (auto simp: decode_runs_step decode_runs_esc split: list.splits)
qed

lemma decode_write: "decode_ref (write_runs s) = (s, True)"
  by (induction s) (auto simp: esc_def)

lemma write_decode: "decode_ref seg = (out, True) \<Longrightarrow> 10 \<notin> set seg \<Longrightarrow> write_runs out = seg"
proof (induction seg arbitrary: out rule: decode_ref.induct)
  case (2 b bs)
  then show ?case by (auto simp: esc_def split: if_splits list.splits prod.splits)
qed simp

lemma decode_cstr: "0 \<notin> set seg \<Longrightarrow> 0 \<notin> set (fst (decode_ref seg))"
proof (induction seg rule: decode_ref.induct)
  case (2 b bs)
  show ?case unfolding decode_ref.simps(2) [of b bs]
    by (insert 2, cases bs, simp_all del: decode_ref.simps split: prod.split) (auto simp del: decode_ref.simps split: prod.splits if_splits)
qed simp

subsection \<open>Lines\<close>

lemma takeWhile_cstr: "cstr (takeWhile (\<lambda>b. b \<noteq> 0) s)" "cstr s \<Longrightarrow> takeWhile (\<lambda>b. b \<noteq> 0) s = s"
  by (auto simp: cstr_def dest: set_takeWhileD intro: takeWhile_eq_all_conv [THEN iffD2])

text \<open>A symbol that does not end in a carriage return reads back from its line.\<close>

lemma line_of_symbol:
  assumes "cstr s" "s \<noteq> [] \<longrightarrow> last s \<noteq> 13"
  shows "line_symbol (write_runs s) = (s, True)"
proof -
  let ?l = "write_runs s"
  have crlf: "\<not> (?l \<noteq> [] \<and> last ?l = 13)" using write_runs_last [of s] assms(2) by blast
  have c: "cstr ?l" by (rule write_runs_bytes(2) [OF assms(1)])
  show ?thesis
  proof (cases "92 \<in> set ?l")
    case False
    then show ?thesis using crlf c write_runs_unescaped [OF False] takeWhile_cstr(2) [OF assms(1)]
      by (auto simp: line_symbol_def Let_def cstr_def)
  next
    case True
    have "decodeRuns ?l = (s, True, True)" 
      unfolding decodeRuns_def takeWhile_cstr(2) [OF c] decode_runs_ref decode_write using c by (simp add: cstr_def)
    then show ?thesis using True crlf by (auto simp: line_symbol_def Let_def)
  qed
qed

text \<open>A line reported canonical is the text of its symbol.\<close>

lemma symbol_of_line:
  assumes "line_symbol seg = (s, canonical)" "10 \<notin> set seg"
  shows "cstr s" "canonical \<Longrightarrow> write_runs s = seg"
proof -
  define line where "line = (if seg \<noteq> [] \<and> last seg = 13 then butlast seg else seg)"
  have sub: "10 \<notin> set line" using assms(2) by (auto simp: line_def dest: in_set_butlastD)
  have same: "\<not> (seg \<noteq> [] \<and> last seg = 13) \<Longrightarrow> line = seg" by (auto simp: line_def)
  have "cstr s \<and> (canonical \<longrightarrow> write_runs s = seg)"
  proof (cases "92 \<in> set line")
    case False
    have e: "s = takeWhile (\<lambda>b. b \<noteq> 0) line" "canonical \<longleftrightarrow> \<not> (seg \<noteq> [] \<and> last seg = 13) \<and> 0 \<notin> set line"
      using assms(1) False by (auto simp: line_symbol_def Let_def line_def split: if_splits)
    have "write_runs s = seg" if canonical
    proof -
      have l: "line = seg" "cstr line" using that e(2) same by (auto simp: cstr_def)
      have "s = line" using e(1) takeWhile_cstr(2) [OF l(2)] by (rule trans)
      then show ?thesis using write_runs_plain [OF False sub] l(1) by simp
    qed
    then show ?thesis using takeWhile_cstr(1) [of line] e(1) by blast
  next
    case True
    let ?t = "takeWhile (\<lambda>b. b \<noteq> 0) line"
    obtain out c where d: "decode_ref ?t = (out, c)" by fastforce
    have e: "s = out" "canonical \<longleftrightarrow> \<not> (seg \<noteq> [] \<and> last seg = 13) \<and> c \<and> 0 \<notin> set line"
      using assms(1) True d by (auto simp: line_symbol_def Let_def line_def decodeRuns_def decode_runs_ref split: if_splits)
    have "cstr s" using decode_cstr [of ?t] takeWhile_cstr(1) [of line] d e(1) by (simp add: cstr_def)
    moreover have "write_runs s = seg" if canonical
    proof -
      have l: "line = seg" "cstr line" and c using that e(2) same by (auto simp: cstr_def)
      then have "decode_ref line = (s, True)" using d e(1) unfolding takeWhile_cstr(2) [OF l(2)] by simp
      then show ?thesis using write_decode [OF _ sub] l(1) by blast
    qed
    ultimately show ?thesis by blast
  qed
  then show "cstr s" "canonical \<Longrightarrow> write_runs s = seg" by blast+
qed

lemma file_lines_Nil [simp]: "file_lines [] = []"
  by (simp add: file_lines.simps)

lemma file_lines_line [simp]: "10 \<notin> set l \<Longrightarrow> file_lines (l @ 10 # rest) = l # file_lines rest"
proof -
  assume l: "10 \<notin> set l"
  then have "takeWhile (\<lambda>b. b \<noteq> 10) (l @ 10 # rest) = l" "dropWhile (\<lambda>b. b \<noteq> 10) (l @ 10 # rest) = 10 # rest"
    by (auto simp: takeWhile_append dropWhile_append dest: set_dropWhileD)
  then show ?thesis by (subst file_lines.simps) simp
qed

lemma file_lines_tail [simp]: "10 \<notin> set l \<Longrightarrow> l \<noteq> [] \<Longrightarrow> file_lines l = [l]"
proof -
  assume l: "10 \<notin> set l" "l \<noteq> []"
  then have t: "takeWhile (\<lambda>b. b \<noteq> 10) l = l" and d: "dropWhile (\<lambda>b. b \<noteq> 10) l = []" by (auto simp: takeWhile_eq_all_conv)
  show ?thesis by (subst file_lines.simps) (simp only: t d l(2) if_False list.case)
qed

text \<open>A file is a tail without a newline, or a line and more.\<close>

lemma file_cases:
  obtains (tail) "10 \<notin> set bs" | (line) l rest where "bs = l @ 10 # rest" "10 \<notin> set l"
proof (cases "10 \<in> set bs")
  case True
  then show thesis using split_list_first [OF True] line by blast
qed (rule tail)

lemma file_induct [case_names tail line]:
  assumes "\<And>bs. 10 \<notin> set bs \<Longrightarrow> P bs" "\<And>l rest. 10 \<notin> set l \<Longrightarrow> P rest \<Longrightarrow> P (l @ 10 # rest)"
  shows "P (bs :: bytes)"
proof (induction bs rule: length_induct)
  case (1 bs)
  show ?case by (cases rule: file_cases [of bs]) (use 1 assms in auto)
qed

definition unlines :: "bytes list \<Rightarrow> bytes" where
  "unlines ls = concat (map (\<lambda>l. l @ [10]) ls)"

lemma unlines_file: "unlines (file_lines bs) = bs @ (if bs = [] \<or> last bs = 10 then [] else [10])"
proof (induction bs rule: file_induct)
  case (tail bs)
  then have "bs \<noteq> [] \<Longrightarrow> last bs \<noteq> 10" using last_in_set by metis
  with tail show ?case by (cases "bs = []") (auto simp: unlines_def)
qed (auto simp: unlines_def)

lemma file_lines_no_nl: "l \<in> set (file_lines bs) \<Longrightarrow> 10 \<notin> set l"
  by (induction bs rule: file_induct) (auto split: if_splits, metis empty_iff file_lines_Nil file_lines_tail list.set(1) set_ConsD)

lemma file_lines_append: "xs = [] \<or> last xs = 10 \<Longrightarrow> file_lines (xs @ ys) = file_lines xs @ file_lines ys"
proof (induction xs rule: file_induct)
  case (tail bs)
  then have "bs \<noteq> [] \<Longrightarrow> last bs \<noteq> 10" using last_in_set by metis
  with tail show ?case by (cases "bs = []") auto
qed (auto split: if_splits)

lemma file_unlines: "(\<And>l. l \<in> set ls \<Longrightarrow> 10 \<notin> set l) \<Longrightarrow> file_lines (unlines ls) = ls"
  by (induction ls) (simp_all add: unlines_def)

subsection \<open>Loading\<close>

text \<open>The symbols of a file.\<close>

definition parse :: "bytes \<Rightarrow> bytes list" where
  "parse bs = map (\<lambda>l. fst (line_symbol l)) (file_lines bs)"

text \<open>A table with exactly these strings, the rest as in another table.\<close>

definition has_symbols :: "bytes list \<Rightarrow> interner \<Rightarrow> bool" where
  "has_symbols strs ir \<longleftrightarrow> ir_next_id ir = length strs + 1 \<and> length strs \<le> length (ir_rev ir) \<and>
     take (length strs) (ir_rev ir) = map Some strs \<and> (\<forall>i s. holds_str (ir_rev ir) i s \<longrightarrow> i < length strs)"

lemma has_symbols_of: "has_symbols strs ir \<Longrightarrow> intern_str_of ir k = (if 0 < k \<and> k \<le> length strs then Some (strs ! (k - 1)) else None)"
proof -
  assume h: "has_symbols strs ir"
  have "ir_rev ir ! i = Some (strs ! i)" if "i < length strs" for i
    using h that nth_take [of i "length strs" "ir_rev ir"] by (simp add: has_symbols_def)
  then show ?thesis using h by (auto simp: intern_str_of_def has_symbols_def)
qed

lemma split_one_ok:
  assumes "has_symbols strs ir" "\<forall>n. al ''intern.rev'' n" "length strs + 1 < 2 ^ 31"
  shows "\<exists>ir'. split_one al seg (ir, fuse) = (ir', fuse \<and> snd (line_symbol seg)) \<and> has_symbols (strs @ [fst (line_symbol seg)]) ir' \<and>
    ir' = ir\<lparr>ir_rev := ir_rev ir', ir_next_id := ir_next_id ir'\<rparr>"
proof -
  obtain s c where ls: "line_symbol seg = (s, c)" by fastforce
  have next_id: "ir_next_id ir = length strs + 1" "length strs \<le> length (ir_rev ir)" using assms(1) by (simp_all add: has_symbols_def)
  obtain rows where g: "grow_rev al (ir_next_id ir) (ir_rev ir) = Some rows"
    using assms(2) by (cases "grow_rev al (ir_next_id ir) (ir_rev ir)") (auto simp: grow_rev_def Let_def split: if_splits)
  then obtain n where rows: "length strs < length rows" "rows = ir_rev ir @ replicate n None"
    using grow_rev_ok [OF g] next_id assms(3) by auto
  have "take (Suc (length strs)) (rows[length strs := Some s]) = take (length strs) (rows[length strs := Some s]) @ [rows[length strs := Some s] ! length strs]"
    by (rule take_Suc_conv_app_nth) (use rows(1) in simp)
  moreover have "take (length strs) (rows[length strs := Some s]) = map Some strs"
    using assms(1) next_id(2) by (simp add: rows(2) has_symbols_def)
  ultimately have take: "take (Suc (length strs)) (rows[length strs := Some s]) = map Some strs @ [Some s]" using rows(1) by simp
  have new: "i < Suc (length strs)" if "holds_str (rows[length strs := Some s]) i x" for i x
  proof (cases "i = length strs")
    case False
    then have "holds_str rows i x" using that by (auto simp: holds_str_def)
    then have "holds_str (ir_rev ir) i x" by (simp add: rows(2) holds_append)
    then show ?thesis using assms(1) by (auto simp: has_symbols_def)
  qed simp
  show ?thesis
    by (intro exI [of _ "ir\<lparr>ir_rev := rows[length strs := Some s], ir_next_id := length strs + 2\<rparr>"])
      (use g ls next_id rows(1) take new in \<open>simp add: split_one_def has_symbols_def\<close>)
qed

lemma split_all_ok:
  "has_symbols strs ir \<Longrightarrow> \<forall>n. al ''intern.rev'' n \<Longrightarrow> length strs + length ls < 2 ^ 31 \<Longrightarrow>
    \<exists>ir'. fold (split_one al) ls (ir, fuse) = (ir', fuse \<and> (\<forall>l \<in> set ls. snd (line_symbol l))) \<and>
      has_symbols (strs @ map (\<lambda>l. fst (line_symbol l)) ls) ir' \<and> ir' = ir\<lparr>ir_rev := ir_rev ir', ir_next_id := ir_next_id ir'\<rparr>"
proof (induction ls arbitrary: strs ir fuse)
  case (Cons l ls)
  obtain ir1 where one: "split_one al l (ir, fuse) = (ir1, fuse \<and> snd (line_symbol l))" "has_symbols (strs @ [fst (line_symbol l)]) ir1"
    "ir1 = ir\<lparr>ir_rev := ir_rev ir1, ir_next_id := ir_next_id ir1\<rparr>"
    using split_one_ok [where al = al, OF Cons.prems(1,2)] Cons.prems(3) by auto
  obtain ir2 where all: "fold (split_one al) ls (ir1, fuse \<and> snd (line_symbol l)) =
      (ir2, (fuse \<and> snd (line_symbol l)) \<and> (\<forall>l \<in> set ls. snd (line_symbol l)))"
    "has_symbols ((strs @ [fst (line_symbol l)]) @ map (\<lambda>l. fst (line_symbol l)) ls) ir2"
    "ir2 = ir1\<lparr>ir_rev := ir_rev ir2, ir_next_id := ir_next_id ir2\<rparr>"
    using Cons.IH [where fuse = "fuse \<and> snd (line_symbol l)", OF one(2) Cons.prems(2)] Cons.prems(3) by auto
  have "ir2 = ir\<lparr>ir_rev := ir_rev ir2, ir_next_id := ir_next_id ir2\<rparr>" by (subst all(3), subst one(3)) simp
  then show ?case using one(1) all(1,2) by (intro exI [of _ ir2]) (simp add: conj_assoc)
qed (auto intro: exI)

lemma canon_text: "canon (map Some strs) = unlines (map write_runs strs)"
  by (simp add: canon_def unlines_def sym_line_def comp_def)

text \<open>When every line is canonical the bytes of the file are the text of its symbols.\<close>

lemma fused_text:
  assumes "bs \<noteq> []" "\<forall>l \<in> set (file_lines bs). snd (line_symbol l)"
  shows "bs @ (if last bs = 10 then [] else [10]) = canon (map Some (parse bs))"
proof -
  have "write_runs (fst (line_symbol l)) = l" if l: "l \<in> set (file_lines bs)" for l
    using symbol_of_line(2) [of l "fst (line_symbol l)" True] file_lines_no_nl [OF l] assms(2) l by (cases "line_symbol l") auto
  then have "map (write_runs \<circ> (\<lambda>l. fst (line_symbol l))) (file_lines bs) = file_lines bs" by (simp add: map_idI)
  then have "canon (map Some (parse bs)) = unlines (file_lines bs)" by (subst canon_text) (simp only: parse_def map_map)
  then show ?thesis using unlines_file [of bs] assms(1) by simp
qed

lemma empty_symbols: "has_symbols [] (empty_interner fwd)"
  by (simp add: has_symbols_def empty_interner_def empty_rows)

subsection \<open>What a slot says of the disk\<close>

definition whole_lines :: "bytes \<Rightarrow> bool" where
  "whole_lines bs \<longleftrightarrow> bs = [] \<or> last bs = 10"

text \<open>A file that is still the one a slot recorded holds the first symbols of the table, in whole lines.\<close>

definition slot_ok :: "interner \<Rightarrow> disk \<Rightarrow> saved_prefix \<Rightarrow> bool" where
  "slot_ok ir dk slot \<longleftrightarrow> sp_path slot \<noteq> [] \<longrightarrow>
     1 \<le> sp_next_id slot \<and> sp_next_id slot \<le> ir_next_id ir \<and> sp_stamp slot < dk_clock dk \<and>
     (\<forall>bs. dk_files dk (sp_path slot) = Some bs \<and> dk_stamp dk (sp_path slot) = sp_stamp slot \<and> length bs = sp_bytes slot \<longrightarrow>
        whole_lines bs \<and> map Some (parse bs) = take (sp_next_id slot - 1) (ir_rev ir))"

definition saved_ok :: "interner \<Rightarrow> disk \<Rightarrow> bool" where
  "saved_ok ir dk \<longleftrightarrow> (\<forall>slot \<in> set (ir_saved ir). slot_ok ir dk slot)"

definition clock_ok :: "disk \<Rightarrow> bool" where
  "clock_ok dk \<longleftrightarrow> (\<forall>p. dk_stamp dk p < dk_clock dk)"

text \<open>Whoever writes a file gives it a new identity; then no slot is wrong about it.\<close>

definition moved_on :: "disk \<Rightarrow> disk \<Rightarrow> bool" where
  "moved_on dk dk' \<longleftrightarrow> dk_clock dk \<le> dk_clock dk' \<and>
     (\<forall>p. (dk_files dk' p = dk_files dk p \<and> dk_stamp dk' p = dk_stamp dk p) \<or> dk_clock dk \<le> dk_stamp dk' p)"

lemma saved_ok_moved: "saved_ok ir dk \<Longrightarrow> moved_on dk dk' \<Longrightarrow> saved_ok ir dk'"
  unfolding saved_ok_def
proof
  fix slot assume all: "\<forall>slot \<in> set (ir_saved ir). slot_ok ir dk slot" and m: "moved_on dk dk'" and slot: "slot \<in> set (ir_saved ir)"
  then have "slot_ok ir dk slot" by blast
  moreover have "(dk_files dk' (sp_path slot) = dk_files dk (sp_path slot) \<and> dk_stamp dk' (sp_path slot) = dk_stamp dk (sp_path slot)) \<or>
      dk_clock dk \<le> dk_stamp dk' (sp_path slot)" "dk_clock dk \<le> dk_clock dk'" using m by (auto simp: moved_on_def)
  ultimately show "slot_ok ir dk' slot" by (auto simp: slot_ok_def)
qed

lemma put_file_moved: "clock_ok dk \<Longrightarrow> moved_on dk (put_file p bs dk)" "clock_ok dk \<Longrightarrow> clock_ok (put_file p bs dk)"
  by (auto simp: moved_on_def clock_ok_def put_file_def intro: less_SucI)

lemma slot_ok_same: "ir_rev ir' = ir_rev ir \<Longrightarrow> ir_next_id ir' = ir_next_id ir \<Longrightarrow> slot_ok ir' dk slot = slot_ok ir dk slot"
  by (simp add: slot_ok_def)

lemma saved_ok_same:
  "saved_ok ir dk \<Longrightarrow> ir_rev ir' = ir_rev ir \<Longrightarrow> ir_next_id ir' = ir_next_id ir \<Longrightarrow> set (ir_saved ir') \<subseteq> set (ir_saved ir) \<Longrightarrow> saved_ok ir' dk"
  unfolding saved_ok_def using slot_ok_same by blast

lemma clear_slot_ok: "saved_ok ir dk \<Longrightarrow> saved_ok (clear_slot i ir) dk"
proof -
  assume ok: "saved_ok ir dk"
  have "slot_ok ir dk slot" if "slot \<in> set ((ir_saved ir)[i := (ir_saved ir ! i)\<lparr>sp_path := []\<rparr>])" for slot
  proof -
    have "slot \<in> insert ((ir_saved ir ! i)\<lparr>sp_path := []\<rparr>) (set (ir_saved ir))" by (rule subsetD [OF set_update_subset_insert that])
    moreover have "slot_ok ir dk ((ir_saved ir ! i)\<lparr>sp_path := []\<rparr>)" by (simp add: slot_ok_def)
    ultimately show ?thesis using ok unfolding saved_ok_def by blast
  qed
  moreover have "slot_ok (clear_slot i ir) dk slot = slot_ok ir dk slot" for slot by (rule slot_ok_same) (simp_all add: clear_slot_def)
  ultimately show ?thesis by (simp add: saved_ok_def) (simp add: clear_slot_def)
qed

lemma remember_ok:
  assumes "saved_ok ir dk" "clock_ok dk" "1 \<le> ir_next_id ir"
    "\<And>bs. dk_files dk path = Some bs \<Longrightarrow> whole_lines bs \<and> map Some (parse bs) = take (ir_next_id ir - 1) (ir_rev ir)"
  shows "saved_ok (rememberSavedAt io path want dk ir) dk"
proof (cases "statxOfPath io path dk")
  case None
  then show ?thesis using assms(1) by (simp add: rememberSavedAt_def)
next
  case (Some stx)
  obtain stamp sz where stx: "stx = (stamp, sz)" by fastforce
  let ?new = "\<lparr>sp_path = path, sp_next_id = ir_next_id ir, sp_bytes = sz, sp_stamp = stamp, sp_used = ir_saved_seq ir + 1\<rparr>"
  have "stamp = dk_stamp dk path" using Some stx by (auto simp: statxOfPath_def split: if_splits)
  then have new: "slot_ok ir dk ?new" using assms(2-4) by (auto simp: slot_ok_def clock_ok_def)
  have "slot_ok ir dk slot" if "slot \<in> set ((ir_saved ir)[i := ?new])" for slot i
  proof -
    have "slot \<in> insert ?new (set (ir_saved ir))" by (rule subsetD [OF set_update_subset_insert that])
    then show ?thesis using assms(1) new by (auto simp: saved_ok_def)
  qed
  moreover have "slot_ok (rememberSavedAt io path want dk ir) dk slot = slot_ok ir dk slot" for slot
    by (rule slot_ok_same) (simp_all add: rememberSavedAt_def split: option.split)
  ultimately show ?thesis using Some stx assms(1) unfolding saved_ok_def by (simp add: rememberSavedAt_def split: if_splits)
qed

lemma remember_fields:
  "ir_rev (rememberSavedAt io path want dk ir) = ir_rev ir" "ir_next_id (rememberSavedAt io path want dk ir) = ir_next_id ir"
  "ir_fwd (rememberSavedAt io path want dk ir) = ir_fwd ir" "ir_fwd_gen (rememberSavedAt io path want dk ir) = ir_fwd_gen ir"
  "ir_fwd_ro (rememberSavedAt io path want dk ir) = ir_fwd_ro ir" "ir_sym_hash (rememberSavedAt io path want dk ir) = ir_sym_hash ir"
  "ir_sym_hashed (rememberSavedAt io path want dk ir) = ir_sym_hashed ir" "ir_dirty (rememberSavedAt io path want dk ir) = ir_dirty ir"
  by (simp_all add: rememberSavedAt_def split: option.split)

lemma empty_saved: "saved_ok (empty_interner fwd) dk"
  by (simp add: saved_ok_def empty_interner_def slot_ok_def no_prefix_def)

lemma load_ok:
  assumes al: "generous al" and io: "io_ok io ''fopen''" and disk: "clock_ok dk"
    and fil: "dk_files dk path = Some bs" and few: "length (parse bs) < 2 ^ 31"
  shows "\<exists>ir. loadImpl al io fwd path want dk = Some ir \<and> has_symbols (parse bs) ir \<and> stamp_ok ir \<and> saved_ok ir dk \<and>
    \<not> ir_dirty ir \<and> ir_fwd ir = None \<and> ir_fwd_gen ir = 0"
proof (cases "bs = []")
  case True
  let ?ir = "rememberSavedAt io path (Some 0) dk (empty_interner None)"
  have "saved_ok ?ir dk"
    by (rule remember_ok [OF empty_saved disk]) (use fil True in \<open>auto simp: empty_interner_def whole_lines_def parse_def\<close>)
  moreover have "has_symbols [] ?ir" "stamp_ok ?ir" using empty_symbols [of None] empty_ok(2) [of None]
    by (simp_all add: has_symbols_def stamp_ok_def remember_fields)
  ultimately show ?thesis using al io fil True
    by (intro exI [of _ ?ir]) (simp add: loadImpl_def generous_def remember_fields parse_def Let_def, simp add: empty_interner_def)
next
  case False
  let ?ls = "file_lines bs"
  define ir where "ir = (if want then empty_interner None\<lparr>ir_sym_hash := bs\<rparr> else empty_interner None)"
  have e: "has_symbols [] ir" using empty_symbols [of None] by (simp add: ir_def has_symbols_def)
  have grows: "\<forall>n. al ''intern.rev'' n" using al by (simp add: generous_def)
  obtain ir1 where f: "fold (split_one al) ?ls (ir, True) = (ir1, True \<and> (\<forall>l \<in> set ?ls. snd (line_symbol l)))"
    "has_symbols ([] @ map (\<lambda>l. fst (line_symbol l)) ?ls) ir1" "ir1 = ir\<lparr>ir_rev := ir_rev ir1, ir_next_id := ir_next_id ir1\<rparr>"
    using split_all_ok [where al = al and ls = ?ls and fuse = True, OF e grows] few by (auto simp: parse_def)
  have syms: "has_symbols (parse bs) ir1" using f(2) by (simp add: parse_def)
  have fields: "ir_saved ir1 = [no_prefix, no_prefix]" "\<not> ir_dirty ir1" "ir_fwd ir1 = None" "ir_fwd_gen ir1 = 0" "want \<longrightarrow> ir_sym_hash ir1 = bs"
    by (subst f(3), simp add: ir_def empty_interner_def)+
  let ?fuse = "want \<and> (\<forall>l \<in> set ?ls. snd (line_symbol l))" and ?nl = "last bs = 10"
  define ir2 where "ir2 = (if ?fuse then ir1\<lparr>ir_sym_hash := ir_sym_hash ir1 @ (if ?nl then [] else [10]), ir_sym_hashed := ir_next_id ir1 - 1\<rparr>
      else ir1\<lparr>ir_sym_hash := [], ir_sym_hashed := 0\<rparr>)"
  have take: "take (ir_next_id ir1 - 1) (ir_rev ir1) = map Some (parse bs)" "1 \<le> ir_next_id ir1" using syms by (simp_all add: has_symbols_def)
  have stamp: "stamp_ok ir2"
  proof (cases ?fuse)
    case True
    then show ?thesis using fused_text [OF False] fields(5) take by (simp add: stamp_ok_def ir2_def)
  next
    case False
    then show ?thesis using take(2) by (auto simp: stamp_ok_def ir2_def canon_def)
  qed
  have two: "has_symbols (parse bs) ir2" "ir_saved ir2 = [no_prefix, no_prefix]" "ir_rev ir2 = ir_rev ir1" "ir_next_id ir2 = ir_next_id ir1"
    using syms fields(1) by (simp_all add: has_symbols_def ir2_def)
  have saved: "saved_ok ir2 dk" using two(2) by (simp add: saved_ok_def slot_ok_def no_prefix_def)
  have kept: "saved_ok (rememberSavedAt io path (Some (length bs)) dk ir2) dk" if ?nl
    by (rule remember_ok [OF saved disk]) (use take two that fil in \<open>auto simp: whole_lines_def\<close>)
  let ?res = "if ?nl then rememberSavedAt io path (Some (length bs)) dk ir2 else ir2"
  have "loadImpl al io fwd path want dk = Some ?res"
    using al io fil False f(1) unfolding ir_def [symmetric] ir2_def
    by (simp add: loadImpl_def generous_def Let_def ir_def [symmetric])
  moreover have "has_symbols (parse bs) ?res" "stamp_ok ?res"
    using two(1) stamp by (simp_all add: has_symbols_def stamp_ok_def remember_fields)
  moreover have "saved_ok ?res dk" using kept saved by simp
  moreover have "\<not> ir_dirty ?res" "ir_fwd ?res = None" "ir_fwd_gen ?res = 0" using fields by (simp_all add: remember_fields ir2_def)
  ultimately show ?thesis by blast
qed

subsection \<open>Saving\<close>

text \<open>A carriage return at the end of a symbol is taken for a line end when it is read back.\<close>

definition savable :: "bytes list \<Rightarrow> bool" where
  "savable strs \<longleftrightarrow> (\<forall>s \<in> set strs. cstr s \<and> (s \<noteq> [] \<longrightarrow> last s \<noteq> 13))"

lemma parse_canon:
  assumes "savable strs"
  shows "parse (canon (map Some strs)) = strs" "whole_lines (canon (map Some strs))"
proof -
  have "file_lines (canon (map Some strs)) = map write_runs strs"
    unfolding canon_text by (rule file_unlines) (use write_runs_bytes(1) in auto)
  moreover have "fst (line_symbol (write_runs s)) = s" if "s \<in> set strs" for s
    using line_of_symbol [of s] assms that by (simp add: savable_def)
  ultimately show "parse (canon (map Some strs)) = strs" by (simp add: parse_def map_idI)
  show "whole_lines (canon (map Some strs))"
    unfolding canon_text by (cases strs rule: rev_cases) (simp_all add: whole_lines_def unlines_def)
qed

lemma parse_append: "whole_lines xs \<Longrightarrow> parse (xs @ ys) = parse xs @ parse ys"
  by (simp add: parse_def file_lines_append whole_lines_def)

lemma whole_lines_append: "whole_lines xs \<Longrightarrow> whole_lines ys \<Longrightarrow> whole_lines (xs @ ys)"
  by (cases "ys = []") (auto simp: whole_lines_def)

lemma symbols_write:
  assumes "has_symbols strs ir" "n \<le> length strs"
  shows "writeSymbolsTo ir (n + 1) (ir_next_id ir) = Some (canon (map Some (drop n strs)))"
proof -
  have h: "ir_next_id ir = Suc (length strs)" "length strs \<le> length (ir_rev ir)" "take (length strs) (ir_rev ir) = map Some strs"
    using assms(1) by (simp_all add: has_symbols_def)
  have "take (length strs - n) (drop n (ir_rev ir)) = drop n (take (length strs) (ir_rev ir))" by (simp add: drop_take)
  also have "\<dots> = map Some (drop n strs)" by (simp add: h(3) drop_map)
  finally show ?thesis using write_rows [of "length strs" ir n] h(1,2) assms(2) by simp
qed

lemma slot_of_hit: "slot_of ir path = Some i \<Longrightarrow> i < length (ir_saved ir) \<and> sp_path (ir_saved ir ! i) = path \<and> path \<noteq> []"
  by (auto simp: slot_of_def find_Some_iff)

text \<open>The disk after an attempt to append: as before, or with more bytes behind the lines that were there.\<close>

definition appended :: "string \<Rightarrow> bytes list \<Rightarrow> disk \<Rightarrow> disk \<Rightarrow> bool" where
  "appended path strs dk dk' \<longleftrightarrow> clock_ok dk' \<and> moved_on dk dk' \<and> (\<forall>p. p \<noteq> path \<longrightarrow> dk_files dk' p = dk_files dk p) \<and>
     (dk_files dk' path = dk_files dk path \<or>
      (\<exists>old x. dk_files dk path = Some old \<and> whole_lines old \<and> dk_files dk' path = Some (old @ x)))"

lemma appended_refl: "clock_ok dk \<Longrightarrow> appended path strs dk dk"
  by (simp add: appended_def moved_on_def)

lemma append_step_ok:
  assumes syms: "has_symbols strs ir" "savable strs" and ok: "saved_ok ir dk" "clock_ok dk"
  shows "\<exists>done ir1 dk1. appendSymbols al io path ir dk = Some (done, ir1, dk1) \<and> saved_ok ir1 dk1 \<and> appended path strs dk dk1 \<and>
    ir1 = ir\<lparr>ir_saved := ir_saved ir1, ir_saved_seq := ir_saved_seq ir1\<rparr> \<and>
    (done \<longrightarrow> (\<exists>bs. dk_files dk1 path = Some bs \<and> whole_lines bs \<and> parse bs = strs))"
proof (cases "savedSlot ir path")
  case None
  then show ?thesis using ok appended_refl by (auto simp: appendSymbols_def)
next
  case (Some i)
  let ?slot = "ir_saved ir ! i"
  have i: "i < length (ir_saved ir)" "sp_path ?slot = path" "path \<noteq> []"
    using Some slot_of_hit by (auto simp: savedSlot_def split: if_splits)
  have slot: "slot_ok ir dk ?slot" using ok(1) i(1) by (simp add: saved_ok_def)
  have giveup: "\<exists>done ir1 dk1. Some (False, clear_slot i ir, dk') = Some (done, ir1, dk1) \<and> saved_ok ir1 dk1 \<and> appended path strs dk dk1 \<and>
      ir1 = ir\<lparr>ir_saved := ir_saved ir1, ir_saved_seq := ir_saved_seq ir1\<rparr> \<and>
      (done \<longrightarrow> (\<exists>bs. dk_files dk1 path = Some bs \<and> whole_lines bs \<and> parse bs = strs))"
    if "appended path strs dk dk'" for dk'
    using that saved_ok_moved [OF clear_slot_ok [OF ok(1)], of dk'] by (auto simp: appended_def clear_slot_def)
  show ?thesis
  proof (cases "statxOfPath io path dk = Some (sp_stamp ?slot, sp_bytes ?slot)")
    case False
    then have "appendSymbols al io path ir dk = Some (False, clear_slot i ir, dk)"
      using Some by (auto simp: appendSymbols_def Let_def isRecordedFile_def split: option.split)
    then show ?thesis using giveup [OF appended_refl [OF ok(2)]] by simp
  next
    case stat: True
    then obtain old where old: "dk_files dk path = Some old" "dk_stamp dk path = sp_stamp ?slot" "length old = sp_bytes ?slot"
      by (auto simp: statxOfPath_def split: if_splits)
    have s: "1 \<le> sp_next_id ?slot" "sp_next_id ?slot \<le> ir_next_id ir" "whole_lines old" "map Some (parse old) = take (sp_next_id ?slot - 1) (ir_rev ir)"
      using slot old i unfolding slot_ok_def by blast+
    define n where "n = sp_next_id ?slot - 1"
    have n: "sp_next_id ?slot = n + 1" "n \<le> length strs" using s(1,2) syms(1) by (simp_all add: n_def has_symbols_def)
    have t: "take (length strs) (ir_rev ir) = map Some strs" using syms(1) by (simp add: has_symbols_def)
    have "map Some (parse old) = take n (take (length strs) (ir_rev ir))" using s(4) n(2) unfolding n_def [symmetric] by (simp add: min_absorb1)
    then have "map Some (parse old) = map Some (take n strs)" by (simp only: t take_map)
    then have po: "parse old = take n strs" by (rule map_injective) simp
    show ?thesis
    proof (cases "n = length strs")
      case True
      then have "sp_next_id ?slot = ir_next_id ir" using n(1) syms(1) by (simp add: has_symbols_def)
      then have "appendSymbols al io path ir dk = Some (True, ir, dk)"
        using Some stat by (simp add: appendSymbols_def Let_def isRecordedFile_def)
      then show ?thesis using ok old(1) s(3) po True appended_refl [OF ok(2)] by auto
    next
      case False
      let ?bs = "canon (map Some (drop n strs))"
      have lt: "\<not> sp_next_id ?slot > ir_next_id ir" "sp_next_id ?slot \<noteq> ir_next_id ir"
        using n False syms(1) by (simp_all add: has_symbols_def)
      have w: "writeSymbolsTo ir (sp_next_id ?slot) (ir_next_id ir) = Some ?bs" using symbols_write [OF syms(1) n(2)] n(1) by simp
      have sav: "savable (drop n strs)" using syms(2) by (auto simp: savable_def dest: in_set_dropD)
      note pc = parse_canon [OF sav]
      obtain fin dk' where a: "append_to io path old ?bs dk = (fin, dk')" by fastforce
      have step: "appendSymbols al io path ir dk =
          (if \<not> al ''MemSink'' (length ?bs) then Some (False, ir, dk)
           else if \<not> io_ok io ''open append'' \<or> \<not> io_ok io ''flock'' \<or> \<not> io_ok io ''statx fd'' then Some (False, clear_slot i ir, dk)
           else if fin then Some (True, rememberSavedAt io path None dk' ir, dk') else Some (False, clear_slot i ir, dk'))"
        using Some stat lt w a old(1) by (simp add: appendSymbols_def Let_def isRecordedFile_def)
      define x where "x = (if fin then ?bs else if io_ok io ''ftruncate'' then [] else if io_ok io ''append'' then ?bs else take (io_written io) ?bs)"
      have x: "dk' = put_file path (old @ x) dk" "fin \<longrightarrow> x = ?bs"
        using a by (auto simp: append_to_def x_def Let_def split: if_splits)
      have app: "appended path strs dk dk'"
        using old(1) s(3) put_file_moved [OF ok(2)] unfolding x(1) by (auto simp: appended_def put_file_def)
      have good: "whole_lines (old @ ?bs)" "parse (old @ ?bs) = strs"
        using whole_lines_append [OF s(3) pc(2)] parse_append [OF s(3)] po pc(1) by simp_all
      have fin_ok: "saved_ok (rememberSavedAt io path None dk' ir) dk'" "dk_files dk' path = Some (old @ ?bs)" if fin
      proof -
        show file': "dk_files dk' path = Some (old @ ?bs)" using x that by (simp add: put_file_def)
        show "saved_ok (rememberSavedAt io path None dk' ir) dk'"
        proof (rule remember_ok)
          show "saved_ok ir dk'" using saved_ok_moved [OF ok(1)] app by (simp add: appended_def)
          show "clock_ok dk'" using app by (simp add: appended_def)
          show "1 \<le> ir_next_id ir" using syms(1) by (simp add: has_symbols_def)
          show "whole_lines bs \<and> map Some (parse bs) = take (ir_next_id ir - 1) (ir_rev ir)" if "dk_files dk' path = Some bs" for bs
            using that file' good syms(1) by (simp add: has_symbols_def)
        qed
      qed
      have seq: "rememberSavedAt io path None dk' ir = ir\<lparr>ir_saved := ir_saved (rememberSavedAt io path None dk' ir),
          ir_saved_seq := ir_saved_seq (rememberSavedAt io path None dk' ir)\<rparr>"
        by (simp add: rememberSavedAt_def split: option.split)
      show ?thesis
      proof (cases "\<not> al ''MemSink'' (length ?bs)")
        case True
        then show ?thesis using step ok appended_refl [OF ok(2)] by auto
      next
        case mem: False
        show ?thesis
        proof (cases "\<not> io_ok io ''open append'' \<or> \<not> io_ok io ''flock'' \<or> \<not> io_ok io ''statx fd''")
          case True
          then show ?thesis using step mem giveup [OF appended_refl [OF ok(2)]] by simp
        next
          case False
          then show ?thesis
          proof (cases fin)
            case True
            then have "appendSymbols al io path ir dk = Some (True, rememberSavedAt io path None dk' ir, dk')" using step mem False by simp
            then show ?thesis using fin_ok [OF True] app seq good by blast
          next
            case nofin: False
            then show ?thesis using step mem False giveup [OF app] by simp
          qed
        qed
      qed
    qed
  qed
qed

lemma replace_steps:
  assumes "length path \<le> 8187" "atomic_replace True io al path bs fs = (rc, fs')"
  shows "rc = 0 \<or> rc = -1" "rc = 0 \<Longrightarrow> fs' path = Some bs" "fs' path = fs path \<or> fs' path = Some bs"
    "p \<noteq> path \<Longrightarrow> p \<noteq> tmp_name path \<Longrightarrow> fs' p = fs p"
    "\<not> (\<forall>call \<in> {''open'', ''write'', ''fsync'', ''close'', ''rename''}. io_ok io call) \<Longrightarrow> fs' path = fs path"
proof -
  have spec: "atomic_spec path bs fs (rc, fs')" using atomic_replace_ok [OF assms(1), of bs fs True io al] assms(2) by simp
  then show "rc = 0 \<or> rc = -1" "rc = 0 \<Longrightarrow> fs' path = Some bs" "fs' path = fs path \<or> fs' path = Some bs"
    "p \<noteq> path \<Longrightarrow> p \<noteq> tmp_name path \<Longrightarrow> fs' p = fs p" by (auto simp: atomic_spec_def)
  show "\<not> (\<forall>call \<in> {''open'', ''write'', ''fsync'', ''close'', ''rename''}. io_ok io call) \<Longrightarrow> fs' path = fs path"
    using assms(2) tmp_name_neq [OF assms(1)] by (auto simp: atomic_replace_def Let_def write_tmp_def unlink_def split: if_splits)
qed

lemma save_whole_ok:
  assumes syms: "has_symbols strs ir" and dk: "clock_ok dk" and path: "length path \<le> 8187"
  shows "\<exists>rc dk'. save_whole al io path ir dk = Some (rc, dk') \<and> (rc = 0 \<or> rc = -1) \<and> clock_ok dk' \<and> moved_on dk dk' \<and>
    (rc = 0 \<longrightarrow> dk_files dk' path = Some (canon (map Some strs))) \<and>
    (dk_files dk' path = dk_files dk path \<or> dk_files dk' path = Some (canon (map Some strs))) \<and>
    (\<forall>p. p \<noteq> path \<and> p \<noteq> tmp_name path \<longrightarrow> dk_files dk' p = dk_files dk p)"
proof -
  let ?bs = "canon (map Some strs)" and ?tmp = "tmp_name path"
  have neq: "?tmp \<noteq> path" by (rule tmp_name_neq [OF path])
  have w: "writeSymbolsTo ir (Suc 0) (ir_next_id ir) = Some ?bs" using symbols_write [OF syms, of 0] by simp
  show ?thesis
  proof (cases "io_ok io ''open''")
    case False
    then have "save_whole al io path ir dk = Some (-1, dk)" by (simp add: save_whole_def)
    then show ?thesis using dk by (auto simp: moved_on_def)
  next
    case opened: True
    show ?thesis
    proof (cases "al ''intern_save'' SAVE_CHUNK")
      case False
      let ?dk = "(put_file ?tmp [] dk)\<lparr>dk_files := unlink io ?tmp (dk_files (put_file ?tmp [] dk))\<rparr>"
      have "save_whole al io path ir dk = Some (-1, ?dk)" using opened False by (simp add: save_whole_def)
      moreover have "clock_ok ?dk" "moved_on dk ?dk"
        using put_file_moved [OF dk, of ?tmp "[]"] dk by (auto simp: clock_ok_def moved_on_def put_file_def unlink_def)
      moreover have "dk_files ?dk p = dk_files dk p" if "p \<noteq> ?tmp" for p using that by (simp add: put_file_def unlink_def)
      ultimately show ?thesis using neq by auto
    next
      case True
      obtain rc fs' where a: "atomic_replace True io al path ?bs (dk_files dk) = (rc, fs')" by fastforce
      define ren where "ren \<longleftrightarrow> (\<forall>call \<in> {''open'', ''write'', ''fsync'', ''close'', ''rename''}. io_ok io call)"
      let ?stamp = "(dk_stamp dk)(?tmp := dk_clock dk)"
      let ?dk = "dk\<lparr>dk_files := fs', dk_stamp := (if ren then ?stamp(path := dk_clock dk) else ?stamp), dk_clock := dk_clock dk + 1\<rparr>"
      note r = replace_steps [OF path a, folded ren_def]
      have step: "save_whole al io path ir dk = Some (rc, ?dk)"
        using opened True w a by (simp add: save_whole_def Let_def ren_def del: ball_simps)
      have disk: "clock_ok ?dk" using dk by (auto simp: clock_ok_def intro: less_SucI)
      have "(fs' p = dk_files dk p \<and> dk_stamp ?dk p = dk_stamp dk p) \<or> dk_clock dk \<le> dk_stamp ?dk p" for p
      proof (cases "p = ?tmp \<or> p = path \<and> ren")
        case False
        then have "dk_stamp ?dk p = dk_stamp dk p" by auto
        moreover have "fs' p = dk_files dk p" using False r(4) [of p] r(5) by blast
        ultimately show ?thesis by blast
      next
        case True
        then have "dk_stamp ?dk p = dk_clock dk" by auto
        then show ?thesis by simp
      qed
      then have moved: "moved_on dk ?dk" by (simp add: moved_on_def)
      show ?thesis
      proof (intro exI conjI allI impI)
        show "save_whole al io path ir dk = Some (rc, ?dk)" by (rule step)
        show "rc = 0 \<Longrightarrow> dk_files ?dk path = Some ?bs" using r(2) by simp
        show "dk_files ?dk path = dk_files dk path \<or> dk_files ?dk path = Some ?bs" using r(3) by simp
        show "dk_files ?dk p = dk_files dk p" if "p \<noteq> path \<and> p \<noteq> ?tmp" for p using r(4) that by simp
      qed (rule r(1) disk moved)+
    qed
  qed
qed

lemma load_ir_ok:
  assumes "has_symbols strs ir" "distinct strs" "\<forall>s \<in> set strs. cstr s \<and> length s + 5 \<le> MAX_WORD_LEN" "length strs + 1 < 2 ^ 32"
    "ir_fwd ir = None" "ir_fwd_gen ir = 0"
  shows "ir_ok ir"
proof (rule distinct_ir_ok [OF _ _ _ assms(2-6)])
  have h: "length strs \<le> length (ir_rev ir)" "take (length strs) (ir_rev ir) = map Some strs"
    "\<And>i s. holds_str (ir_rev ir) i s \<Longrightarrow> i < length strs" "ir_next_id ir = length strs + 1"
    using assms(1) by (auto simp: has_symbols_def)
  then have at: "ir_rev ir ! i = Some (strs ! i)" if "i < length strs" for i
    using that nth_take [of i "length strs" "ir_rev ir"] by simp
  show "\<forall>i s. holds_str (ir_rev ir) i s \<longleftrightarrow> i < length strs \<and> strs ! i = s"
  proof (intro allI iffI)
    fix i s assume a: "holds_str (ir_rev ir) i s"
    then show "i < length strs \<and> strs ! i = s" using h(3) [OF a] at by (simp add: holds_str_def)
  next
    fix i s assume "i < length strs \<and> strs ! i = s"
    then show "holds_str (ir_rev ir) i s" using h(1) at by (simp add: holds_str_def)
  qed
  show "ir_next_id ir = length strs + 1" "length strs \<le> length (ir_rev ir)" using h by simp_all
qed

text \<open>A save that fails has not lost what the file held: its symbols are still there, in their places.\<close>

definition keeps :: "bytes list \<Rightarrow> bytes option \<Rightarrow> bytes option \<Rightarrow> bool" where
  "keeps strs before after \<longleftrightarrow>
     (\<forall>bs. before = Some bs \<and> (\<exists>n. parse bs = take n strs) \<longrightarrow>
        (\<exists>bs'. after = Some bs' \<and> (\<forall>i < length (parse bs). i < length (parse bs') \<and> parse bs' ! i = parse bs ! i)))"

text \<open>The contracts of saving and loading.\<close>

definition save_spec :: "string \<Rightarrow> bytes list \<Rightarrow> interner \<Rightarrow> disk \<Rightarrow> int \<times> interner \<times> disk \<Rightarrow> bool" where
  "save_spec path strs ir dk res \<longleftrightarrow> (case res of (rc, ir', dk') \<Rightarrow>
     (rc = 0 \<or> rc = -1) \<and> (\<forall>k. intern_str_of ir' k = intern_str_of ir k) \<and>
     (\<forall>p. p \<noteq> path \<and> p \<noteq> tmp_name path \<longrightarrow> dk_files dk' p = dk_files dk p) \<and>
     (if rc = 0 then \<not> intern_is_dirty ir' \<and> map_option parse (dk_files dk' path) = Some strs
      else keeps strs (dk_files dk path) (dk_files dk' path)))"

definition load_spec :: "bytes option \<Rightarrow> interner \<Rightarrow> bool" where
  "load_spec content ir \<longleftrightarrow> \<not> intern_is_dirty ir \<and>
     (let strs = (case content of None \<Rightarrow> [] | Some bs \<Rightarrow> parse bs) in
      \<forall>k. intern_str_of ir k = (if 0 < k \<and> k \<le> length strs then Some (strs ! (k - 1)) else None))"

lemma intern_save_ok:
  assumes syms: "has_symbols strs ir" "savable strs" and ok: "saved_ok ir dk" "clock_ok dk" and path: "length path \<le> 8187"
  shows "\<exists>rc ir' dk'. intern_save al io path ir dk = Some (rc, ir', dk') \<and> (rc = 0 \<or> rc = -1) \<and>
    saved_ok ir' dk' \<and> clock_ok dk' \<and> moved_on dk dk' \<and>
    ir' = ir\<lparr>ir_dirty := (if rc = 0 then False else ir_dirty ir), ir_saved := ir_saved ir', ir_saved_seq := ir_saved_seq ir'\<rparr> \<and>
    (\<forall>p. p \<noteq> path \<and> p \<noteq> tmp_name path \<longrightarrow> dk_files dk' p = dk_files dk p) \<and>
    (if rc = 0 then \<exists>bs. dk_files dk' path = Some bs \<and> whole_lines bs \<and> parse bs = strs
     else keeps strs (dk_files dk path) (dk_files dk' path))"
proof -
  obtain fin ir1 dk1 where a: "appendSymbols al io path ir dk = Some (fin, ir1, dk1)" "saved_ok ir1 dk1" "appended path strs dk dk1"
    "ir1 = ir\<lparr>ir_saved := ir_saved ir1, ir_saved_seq := ir_saved_seq ir1\<rparr>"
    "fin \<longrightarrow> (\<exists>bs. dk_files dk1 path = Some bs \<and> whole_lines bs \<and> parse bs = strs)"
    using append_step_ok [OF syms ok, of al io path] by blast
  have d1: "clock_ok dk1" "moved_on dk dk1" "\<And>p. p \<noteq> path \<Longrightarrow> dk_files dk1 p = dk_files dk p" using a(3) by (simp_all add: appended_def)
  have same: "ir_rev ir1 = ir_rev ir" "ir_next_id ir1 = ir_next_id ir" by (subst a(4), simp)+
  show ?thesis
  proof (cases fin)
    case True
    let ?ir = "ir1\<lparr>ir_dirty := False\<rparr>"
    have "saved_ok ?ir dk1" by (rule saved_ok_same [OF a(2)]) simp_all
    moreover have "?ir = ir\<lparr>ir_dirty := False, ir_saved := ir_saved ?ir, ir_saved_seq := ir_saved_seq ?ir\<rparr>" by (subst a(4)) simp
    ultimately show ?thesis using a(1,5) True d1
      by (intro exI [of _ 0] exI [of _ ?ir] exI [of _ dk1]) (simp add: intern_save_def)
  next
    case False
    have syms1: "has_symbols strs ir1" using syms(1) by (simp add: has_symbols_def same)
    obtain rc dk2 where w: "save_whole al io path ir1 dk1 = Some (rc, dk2)" "rc = 0 \<or> rc = -1" "clock_ok dk2" "moved_on dk1 dk2"
      "rc = 0 \<longrightarrow> dk_files dk2 path = Some (canon (map Some strs))"
      "dk_files dk2 path = dk_files dk1 path \<or> dk_files dk2 path = Some (canon (map Some strs))"
      "\<And>p. p \<noteq> path \<Longrightarrow> p \<noteq> tmp_name path \<Longrightarrow> dk_files dk2 p = dk_files dk1 p"
      using save_whole_ok [OF syms1 d1(1) path, of al io] by blast
    have m: "moved_on dk dk2" using d1(2) w(4) unfolding moved_on_def by (metis order_trans)
    note pc = parse_canon [OF syms(2)]
    have s2: "saved_ok ir1 dk2" by (rule saved_ok_moved [OF a(2) w(4)])
    show ?thesis
    proof (cases "rc = 0")
      case True
      let ?r = "rememberSavedAt io path None dk2 ir1" and ?ir = "(rememberSavedAt io path None dk2 ir1)\<lparr>ir_dirty := False\<rparr>"
      have content: "dk_files dk2 path = Some (canon (map Some strs))" using w(5) True by simp
      have "saved_ok ?r dk2"
      proof (rule remember_ok [OF s2 w(3)])
        show "1 \<le> ir_next_id ir1" using syms1 by (simp add: has_symbols_def)
        show "whole_lines bs \<and> map Some (parse bs) = take (ir_next_id ir1 - 1) (ir_rev ir1)" if "dk_files dk2 path = Some bs" for bs
          using that content pc syms1 by (simp add: has_symbols_def)
      qed
      then have "saved_ok ?ir dk2" by (rule saved_ok_same) simp_all
      moreover have "?ir = ir\<lparr>ir_dirty := False, ir_saved := ir_saved ?ir, ir_saved_seq := ir_saved_seq ?ir\<rparr>"
      proof -
        have "?ir = ir1\<lparr>ir_dirty := False, ir_saved := ir_saved ?ir, ir_saved_seq := ir_saved_seq ?ir\<rparr>"
          by (simp add: rememberSavedAt_def split: option.split)
        also have "\<dots> = ir\<lparr>ir_dirty := False, ir_saved := ir_saved ?ir, ir_saved_seq := ir_saved_seq ?ir\<rparr>" by (subst (1) a(4)) simp
        finally show ?thesis .
      qed
      moreover have "intern_save al io path ir dk = Some (0, ?ir, dk2)" using a(1) False w(1) True by (simp add: intern_save_def)
      ultimately show ?thesis using w(3,7) d1(3) pc m content
        by (intro exI [of _ 0] exI [of _ ?ir] exI [of _ dk2]) simp
    next
      case failed: False
      have "keeps strs (dk_files dk path) (dk_files dk2 path)"
        unfolding keeps_def
      proof (intro allI impI)
        fix bs assume b: "dk_files dk path = Some bs \<and> (\<exists>n. parse bs = take n strs)"
        consider "dk_files dk2 path = Some (canon (map Some strs))" | "dk_files dk2 path = dk_files dk path"
          | x where "whole_lines bs" "dk_files dk2 path = Some (bs @ x)"
          using w(6) a(3) b by (auto simp: appended_def)
        then show "\<exists>bs'. dk_files dk2 path = Some bs' \<and> (\<forall>i < length (parse bs). i < length (parse bs') \<and> parse bs' ! i = parse bs ! i)"
          by cases (use b pc in \<open>auto simp: parse_append nth_append\<close>)
      qed
      moreover have "ir1 = ir\<lparr>ir_dirty := ir_dirty ir, ir_saved := ir_saved ir1, ir_saved_seq := ir_saved_seq ir1\<rparr>" by (subst a(4)) simp
      ultimately show ?thesis using a(1) w(1-3,7) d1(3) failed False s2 m
        by (intro exI [of _ "-1"] exI [of _ ir1] exI [of _ dk2]) (simp add: intern_save_def)
    qed
  qed
qed

subsection \<open>Properties\<close>


text \<open>A table with one symbol, on an empty disk.\<close>

definition one_symbol :: interner where
  "one_symbol = (empty_interner None)\<lparr>ir_rev := Some [97, 10] # replicate 255 None, ir_next_id := 2, ir_dirty := True\<rparr>"

definition no_disk :: disk where "no_disk = \<lparr>dk_files = \<lambda>_. None, dk_stamp = \<lambda>_. 0, dk_clock = 1\<rparr>"

lemma one_symbol_ok: "has_symbols [[97, 10]] one_symbol" "savable [[97, 10]]" "saved_ok one_symbol no_disk" "clock_ok no_disk"
  by (auto simp: has_symbols_def one_symbol_def holds_str_def nth_Cons savable_def cstr_def saved_ok_def slot_ok_def empty_interner_def
      no_prefix_def clock_ok_def no_disk_def split: nat.splits)




end
