(* ===== verification/Declare.thy ===== *)
theory Declare
  imports PermIndex RelationWal InternFile TxnWal
begin

text \<open>
  Declaring relations (\<^verbatim>\<open>src/dl.h\<close>, \<^verbatim>\<open>zig/src/dl.zig\<close>): the paths of a database directory, the files of a
  variadic relation, the list of relations in \<^verbatim>\<open>rels.txt\<close>, and the registration of a name.  The outer
  \<open>None\<close> of a result is a panic.  What lies outside the program comes as one record: the engine, the
  answers of the allocator and of the system calls (one record of answers per file written), the
  checksum, the enumeration behind the symbol automaton, and the constant-kind check of the rule compiler.
\<close>

record env =
  ev_en :: engine
  ev_al :: allocator
  ev_io :: "string \<Rightarrow> io"
  ev_crc :: crc_fun
  ev_pe :: payloads
  ev_kinds :: "rule list \<Rightarrow> dl_db \<Rightarrow> int"

text \<open>Writing files that are not the symbol array gives the changed ones a new identity.\<close>

definition with_files :: "files \<Rightarrow> disk \<Rightarrow> disk" where
  "with_files fs dk =
     dk\<lparr>dk_files := fs, dk_stamp := (\<lambda>p. if fs p = dk_files dk p then dk_stamp dk p else dk_clock dk),
        dk_clock := dk_clock dk + 1\<rparr>"

subsection \<open>Paths\<close>

definition path_in :: "string \<Rightarrow> string \<Rightarrow> string \<Rightarrow> string" where
  "path_in dir name ext = dir @ ''/'' @ name @ ext"

definition vpath_in :: "string \<Rightarrow> string \<Rightarrow> nat \<Rightarrow> string \<Rightarrow> string" where
  "vpath_in dir name a ext = dir @ ''/'' @ name @ ''.'' @ char_of (48 + a mod 10) # ext"

definition makePath :: "allocator \<Rightarrow> string \<Rightarrow> string \<Rightarrow> string \<Rightarrow> string option" where
  "makePath al dir name ext =
     (if al ''makePath'' (length dir + 1 + length name + length ext + 1) then Some (path_in dir name ext) else None)"

definition makeVpath :: "allocator \<Rightarrow> string \<Rightarrow> string \<Rightarrow> nat \<Rightarrow> string \<Rightarrow> string option" where
  "makeVpath al dir name a ext =
     (if al ''makeVpath'' (length dir + 1 + length name + 2 + length ext + 1) then Some (vpath_in dir name a ext) else None)"

subsection \<open>The variants of a variadic relation on disk\<close>

definition there :: "files \<Rightarrow> string option \<Rightarrow> bool" where
  "there fs p \<longleftrightarrow> (case p of None \<Rightarrow> False | Some q \<Rightarrow> fs q \<noteq> None)"

definition variantFilesExist :: "allocator \<Rightarrow> string \<Rightarrow> files \<Rightarrow> string \<Rightarrow> nat \<Rightarrow> bool" where
  "variantFilesExist al dir fs name a \<longleftrightarrow>
     (\<exists>ext \<in> set [''.dafsa'', ''.wal'', ''.base.dafsa'']. there fs (makeVpath al dir name a ext))"

definition variantIsIdbOnDisk :: "allocator \<Rightarrow> string \<Rightarrow> files \<Rightarrow> string \<Rightarrow> nat \<Rightarrow> bool" where
  "variantIsIdbOnDisk al dir fs name a \<longleftrightarrow> there fs (makeVpath al dir name a ''.base.dafsa'')"

text \<open>Opening a relation for the handle's mode, as a rule head or not.\<close>

definition open_in_mode ::
  "env \<Rightarrow> bool \<Rightarrow> files \<Rightarrow> string option \<Rightarrow> string \<Rightarrow> string \<Rightarrow> nat \<Rightarrow> relation option \<times> files" where
  "open_in_mode ev ro fs base dafsa wal arity =
     (case base of
        Some b \<Rightarrow>
          if ro then (rel_open_readonly_idb (ev_en ev) (ev_al ev) fs b dafsa (Some wal) arity, fs)
          else rel_open_writable_idb (ev_en ev) (ev_al ev) fs b dafsa wal arity
      | None \<Rightarrow>
          if ro then (rel_open_readonly (ev_en ev) (ev_al ev) fs dafsa (Some wal) arity, fs)
          else rel_open_writable (ev_en ev) (ev_al ev) fs dafsa wal arity)"

definition variadicOpenVariant :: "env \<Rightarrow> disk \<Rightarrow> dl_db \<Rightarrow> rel_entry \<Rightarrow> nat \<Rightarrow> relation option \<times> rel_entry \<times> disk" where
  "variadicOpenVariant ev dk db e a =
     (let al = ev_al ev; v = the (re_vrel e) in
      if re_kind e \<noteq> RELK_VARIADIC then (None, e, dk)
      else if a = 0 \<or> a > MAX_VAR_ARITY then (None, e, dk)
      else case db_dir db of
        None \<Rightarrow> (case vrel_variant (ev_en ev) al v a of (r, v') \<Rightarrow> (r, e\<lparr>re_vrel := Some v'\<rparr>, dk))
      | Some dir \<Rightarrow>
          (case vrel_variant_or_null v a of
             Some r \<Rightarrow> (Some r, e, dk)
           | None \<Rightarrow>
               let dafsa = makeVpath al dir (re_name e) a ''.dafsa'';
                   wal = makeVpath al dir (re_name e) a ''.wal'';
                   is_idb = variantIsIdbOnDisk al dir (dk_files dk) (re_name e) a;
                   base = (if is_idb then makeVpath al dir (re_name e) a ''.base.dafsa'' else None) in
               if dafsa = None \<or> wal = None \<or> is_idb \<and> base = None then (None, e, dk)
               else case open_in_mode ev (db_read_only db) (dk_files dk) base (the dafsa) (the wal) a of (r, fs') \<Rightarrow>
                 (case vrel_attach v a r of (rc, v') \<Rightarrow>
                    if r = None \<or> rc \<noteq> 0 then (None, e, with_files fs' dk)
                    else (r, e\<lparr>re_vrel := Some v'\<rparr>, with_files fs' dk))))"

definition dl_ensure_variant :: "env \<Rightarrow> disk \<Rightarrow> dl_db \<Rightarrow> int \<Rightarrow> nat \<Rightarrow> relation option \<times> dl_db \<times> disk" where
  "dl_ensure_variant ev dk db rel_id arity =
     (case entry_at db rel_id of
        None \<Rightarrow> (None, db, dk)
      | Some e \<Rightarrow>
          if re_kind e \<noteq> RELK_VARIADIC then (db_entry_variant_ro e arity, db, dk)
          else (case variadicOpenVariant ev dk db e arity of (r, e', dk') \<Rightarrow> (r, put_entry rel_id e' db, dk')))"

subsection \<open>The list of relations\<close>

definition kind_char :: "nat \<Rightarrow> char" where
  "kind_char k = (if k = KIND_INT then CHR ''n'' else if k = KIND_SYM then CHR ''t'' else CHR ''u'')"

definition head_mark :: "bool \<Rightarrow> string" where
  "head_mark idb = (if idb then ''idb'' else ''edb'')"

text \<open>The kinds are written only when one is recorded.\<close>

definition rels_line :: "rel_entry \<Rightarrow> string" where
  "rels_line e =
     (if re_kind e = RELK_VARIADIC
      then re_name e @ '':*:'' @ head_mark (case re_vrel e of None \<Rightarrow> False | Some v \<Rightarrow> vrel_any_idb v \<noteq> 0)
      else case re_rel e of
        None \<Rightarrow> re_name e @ '':0:edb''
      | Some r \<Rightarrow>
          let kinds = map (rel_col_kind r) [0..<r_arity r] in
          re_name e @ '':'' @ num (r_arity r) @ '':'' @ head_mark (rel_is_idb r) @
          (if \<exists>k \<in> set kinds. k \<noteq> 0 then '':'' @ map kind_char kinds else []))"

definition writeRelsTxt :: "env \<Rightarrow> dl_db \<Rightarrow> disk \<Rightarrow> disk" where
  "writeRelsTxt ev db dk =
     (case db_dir db of
        None \<Rightarrow> dk
      | Some dir \<Rightarrow>
          (case makePath (ev_al ev) dir ''rels'' ''.txt'' of
             None \<Rightarrow> dk
           | Some path \<Rightarrow>
               if \<not> ev_al ev ''writeRelsTxt'' (1 + sum_list (map (\<lambda>e. length (re_name e) + 26) (db_rels db))) then dk
               else with_files (snd (atomic_write_str (ev_io ev ''rels.txt'') (ev_al ev) path
                      (concat (map (\<lambda>e. to_bytes (rels_line e) @ [nl]) (db_rels db))) (dk_files dk))) dk))"

subsection \<open>Declaring\<close>

fun after_first :: "string \<Rightarrow> string \<Rightarrow> string option" where
  "after_first pat [] = (if pat = [] then Some [] else None)"
| "after_first pat (c # cs) =
     (if take (length pat) (c # cs) = pat then Some (drop (length pat) (c # cs)) else after_first pat cs)"

definition hex_digit :: "char \<Rightarrow> bool" where
  "hex_digit c \<longleftrightarrow> c \<in> set ''0123456789abcdef''"

definition isReservedPiName :: "string \<Rightarrow> bool" where
  "isReservedPiName name \<longleftrightarrow>
     (case after_first ''__PI'' name of
        None \<Rightarrow> False
      | Some p \<Rightarrow> takeWhile hex_digit p \<noteq> [] \<and> take 2 (dropWhile hex_digit p) = ''__'')"

text \<open>The stem of a name that looks like a variant's file.\<close>

definition isVariantStem :: "string \<Rightarrow> string option" where
  "isVariantStem name =
     (let n = length name in
      if n < 3 \<or> n > 254 then None
      else if name ! (n - 2) \<noteq> CHR ''.'' then None
      else if name ! (n - 1) \<notin> set ''12345678'' then None
      else Some (take (n - 2) name))"

definition aliases_variant :: "dl_db \<Rightarrow> string \<Rightarrow> nat \<Rightarrow> bool" where
  "aliases_variant db name arity \<longleftrightarrow>
     (if arity = 0 then \<exists>e \<in> set (db_rels db). re_kind e \<noteq> RELK_VARIADIC \<and> re_name e \<noteq> [] \<and> isVariantStem (re_name e) = Some name
      else case isVariantStem name of
        None \<Rightarrow> False
      | Some stem \<Rightarrow> (case entry_at db (findRel db stem) of None \<Rightarrow> False | Some e \<Rightarrow> re_kind e = RELK_VARIADIC))"

text \<open>The variants whose files are there are opened at the declaration; the first failure gives up.\<close>

fun open_variants :: "env \<Rightarrow> string \<Rightarrow> dl_db \<Rightarrow> nat list \<Rightarrow> rel_entry \<Rightarrow> disk \<Rightarrow> rel_entry option \<times> disk" where
  "open_variants ev dir db [] e dk = (Some e, dk)"
| "open_variants ev dir db (a # as) e dk =
     (if \<not> variantFilesExist (ev_al ev) dir (dk_files dk) (re_name e) a then open_variants ev dir db as e dk
      else case variadicOpenVariant ev dk db e a of (r, e', dk') \<Rightarrow>
        if r = None then (None, dk') else open_variants ev dir db as e' dk')"

definition new_entry :: "env \<Rightarrow> string \<Rightarrow> dl_db \<Rightarrow> string \<Rightarrow> nat \<Rightarrow> bool \<Rightarrow> disk \<Rightarrow> rel_entry option \<times> disk" where
  "new_entry ev dir db name arity is_idb dk =
     (let al = ev_al ev in
      if arity = 0 then
        (case vrel_create al of
           None \<Rightarrow> (None, dk)
         | Some v \<Rightarrow>
             open_variants ev dir db (arities_from 1)
               \<lparr>re_name = name, re_kind = RELK_VARIADIC, re_arity = 0, re_rel = None, re_vrel = Some v\<rparr> dk)
      else
        let path = makePath al dir name ''.dafsa''; wal = makePath al dir name ''.wal'';
            base = (if is_idb then makePath al dir name ''.base.dafsa'' else None) in
        if path = None \<or> wal = None \<or> is_idb \<and> base = None then (None, dk)
        else case open_in_mode ev (db_read_only db) (dk_files dk) base (the path) (the wal) arity of (r, fs') \<Rightarrow>
          (map_option (\<lambda>r. \<lparr>re_name = name, re_kind = RELK_FIXED, re_arity = arity, re_rel = Some r, re_vrel = None\<rparr>) r,
           with_files fs' dk))"

definition dlDeclareRelationKind ::
  "env \<Rightarrow> disk \<Rightarrow> dl_db \<Rightarrow> string \<Rightarrow> nat \<Rightarrow> bool \<Rightarrow> bool \<Rightarrow> int \<times> dl_db \<times> disk" where
  "dlDeclareRelationKind ev dk db name arity is_idb from_meta =
     (if arity > 8 \<or> name = ''rev'' \<and> arity \<noteq> 2 then (-1, db, dk)
      else case db_dir db of
        None \<Rightarrow> (-1, db, dk)
      | Some dir \<Rightarrow>
          if isReservedPiName name \<or> aliases_variant db name arity then (-1, db, dk)
          else case entry_at db (findRel db name) of
            Some e \<Rightarrow>
              (if (arity = 0) \<noteq> (re_kind e = RELK_VARIADIC) then -1
               else if arity = 0 \<or> map_option r_arity (re_rel e) = Some arity then 0 else -1, db, dk)
          | None \<Rightarrow>
              if length (db_rels db) \<ge> MAX_RELS then (-1, db, dk)
              else case new_entry ev dir db name arity is_idb dk of
                (None, dk1) \<Rightarrow> (-1, db, dk1)
              | (Some e, dk1) \<Rightarrow>
                  if \<not> ev_al ev ''strdup'' (length name + 1) then (-1, db, dk1)
                  else
                    let db1 = db\<lparr>db_rels := db_rels db @ [e]\<rparr> in
                    if from_meta then (0, db1, dk1)
                    else
                      let db2 = db1\<lparr>db_meta_dirty := True\<rparr> in
                      (0, db2, if db_read_only db then dk1 else writeRelsTxt ev db2 dk1))"

definition dl_declare_relation :: "env \<Rightarrow> disk \<Rightarrow> dl_db \<Rightarrow> string \<Rightarrow> nat \<Rightarrow> int \<times> dl_db \<times> disk" where
  "dl_declare_relation ev dk db name arity =
     (if db_read_only db then (-1, db, dk) else dlDeclareRelationKind ev dk db name arity False False)"

definition dl_declare_relation_variadic :: "env \<Rightarrow> disk \<Rightarrow> dl_db \<Rightarrow> string \<Rightarrow> int \<times> dl_db \<times> disk" where
  "dl_declare_relation_variadic ev dk db name =
     (if db_read_only db then (-1, db, dk) else dlDeclareRelationKind ev dk db name 0 False False)"

subsection \<open>The catalogue\<close>

text \<open>
  What declarations keep of the catalogue: the names are distinct and none is reserved, it fits its table, and no
  relation of fixed arity is named like a variant of a variadic one.  From that no two relations share a file.
\<close>

definition variadic_entry :: "rel_entry \<Rightarrow> bool" where
  "variadic_entry e \<longleftrightarrow> re_kind e = RELK_VARIADIC"

definition catalogue_ok :: "dl_db \<Rightarrow> bool" where
  "catalogue_ok db \<longleftrightarrow> length (db_rels db) \<le> MAX_RELS \<and> distinct (map re_name (db_rels db)) \<and>
     (\<forall>e \<in> set (db_rels db). \<not> isReservedPiName (re_name e) \<and> (re_name e = ''rev'' \<longrightarrow> \<not> variadic_entry e)) \<and>
     (\<forall>e \<in> set (db_rels db). \<forall>v \<in> set (db_rels db). \<not> variadic_entry e \<and> variadic_entry v \<longrightarrow> isVariantStem (re_name e) \<noteq> Some (re_name v))"

definition data_path :: "string \<Rightarrow> rel_entry \<Rightarrow> nat \<Rightarrow> string \<Rightarrow> string" where
  "data_path dir e a ext = (if variadic_entry e then vpath_in dir (re_name e) a ext else path_in dir (re_name e) ext)"

definition files_apart :: "dl_db \<Rightarrow> bool" where
  "files_apart db \<longleftrightarrow> (\<forall>e \<in> set (db_rels db). \<forall>e' \<in> set (db_rels db). \<forall>dir a b ext.
     re_name e \<noteq> re_name e' \<and> a \<in> {1..8} \<and> b \<in> {1..8} \<longrightarrow> data_path dir e a ext \<noteq> data_path dir e' b ext)"

lemma variant_stem:
  assumes "(a :: nat) \<in> {1..8}" "stem \<noteq> []" "length stem \<le> 252"
  shows "isVariantStem (stem @ ''.'' @ [char_of (48 + a mod 10)]) = Some stem"
proof -
  have "a = 1 \<or> a = 2 \<or> a = 3 \<or> a = 4 \<or> a = 5 \<or> a = 6 \<or> a = 7 \<or> a = 8" using assms(1) by auto
  then have "char_of (48 + a mod 10) \<in> set ''12345678''" by (elim disjE; hypsubst; code_simp)
  then show ?thesis using assms(2,3) by (cases stem) (simp_all add: isVariantStem_def nth_append)
qed

lemma catalogue_apart:
  assumes "catalogue_ok db" "\<forall>e \<in> set (db_rels db). re_name e \<noteq> [] \<and> length (re_name e) \<le> 252"
  shows "files_apart db"
proof -
  have clash: "False" if e: "e \<in> set (db_rels db)" "e' \<in> set (db_rels db)" "\<not> variadic_entry e" "variadic_entry e'" "a \<in> {1..8}"
    and eq: "path_in dir (re_name e) ext = vpath_in dir (re_name e') a ext" for e e' a dir ext
  proof -
    have "re_name e = re_name e' @ ''.'' @ [char_of (48 + a mod 10)]" using eq by (simp add: path_in_def vpath_in_def)
    then have "isVariantStem (re_name e) = Some (re_name e')" using variant_stem [OF e(5)] assms(2) e(2) by simp
    then show False using assms(1) e by (auto simp: catalogue_ok_def)
  qed
  show ?thesis
    unfolding files_apart_def
  proof (intro ballI allI impI notI)
    fix e e' dir a b ext
    assume m: "e \<in> set (db_rels db)" "e' \<in> set (db_rels db)" "re_name e \<noteq> re_name e' \<and> a \<in> {1..8} \<and> b \<in> {1..8}"
      and eq: "data_path dir e a ext = data_path dir e' b ext"
    have sep: "path_in dir m ext = path_in dir n ext \<longleftrightarrow> m = n" "vpath_in dir m a ext = vpath_in dir n b ext \<Longrightarrow> m = n" for m n
      by (auto simp: path_in_def vpath_in_def)
    show False
      using eq m clash [OF m(1,2), of b dir ext] clash [OF m(2,1), of a dir ext] sep
      by (cases "variadic_entry e"; cases "variadic_entry e'") (auto simp: data_path_def)
  qed
qed

text \<open>What a new entry is called, whatever is opened for it.\<close>

lemma open_variant_entry:
  "variadicOpenVariant ev dk db e a = (r, e', dk') \<Longrightarrow> re_name e' = re_name e \<and> re_kind e' = re_kind e \<and> re_arity e' = re_arity e"
  by (auto simp: variadicOpenVariant_def Let_def split: if_splits option.splits prod.splits)

lemma open_variants_entry:
  "open_variants ev dir db as e dk = (Some e', dk') \<Longrightarrow> re_name e' = re_name e \<and> re_kind e' = re_kind e \<and> re_arity e' = re_arity e"
proof (induction as arbitrary: e dk)
  case (Cons a as)
  then show ?case by (auto dest: open_variant_entry split: if_splits prod.splits)
qed simp

lemma new_entry_is:
  assumes "new_entry ev dir db name arity is_idb dk = (Some e, dk')"
  shows "re_name e = name" "variadic_entry e \<longleftrightarrow> arity = 0" "re_arity e = arity"
proof -
  have "re_name e = name \<and> (variadic_entry e \<longleftrightarrow> arity = 0) \<and> re_arity e = arity"
  proof (cases "arity = 0")
    case True
    then show ?thesis using assms
      by (auto simp: new_entry_def Let_def variadic_entry_def split: option.splits dest!: open_variants_entry)
  next
    case False
    then show ?thesis using assms
      by (auto simp: new_entry_def Let_def variadic_entry_def RELK_FIXED_def RELK_VARIADIC_def split: option.splits if_splits prod.splits)
  qed
  then show "re_name e = name" "variadic_entry e \<longleftrightarrow> arity = 0" "re_arity e = arity" by simp_all
qed

lemma entry_find: "entry_at db (findRel db n) = find (\<lambda>e. re_name e = n) (db_rels db)"
proof -
  let ?P = "\<lambda>e. re_name e = n"
  consider "findRel db n = -1" "\<forall>e \<in> set (db_rels db). re_name e \<noteq> n"
    | j where "j < length (db_rels db)" "findRel db n = int j" "re_name (db_rels db ! j) = n" "\<forall>k < j. re_name (db_rels db ! k) \<noteq> n"
    using find_from [of 0 "db_rels db" n] by (auto simp: findRel_def)
  then show ?thesis
  proof cases
    case 1
    then have "find ?P (db_rels db) = None" by (simp add: find_None_iff)
    then show ?thesis using 1(1) by (simp add: entry_at_def)
  next
    case 2
    then have "find ?P (db_rels db) = Some (db_rels db ! j)" unfolding find_Some_iff by blast
    then show ?thesis using 2(1,2) by (simp add: entry_at_def)
  qed
qed

lemma find_rel_append: "find P (xs @ [e]) = (case find P xs of None \<Rightarrow> if P e then Some e else None | Some x \<Rightarrow> Some x)"
  by (induction xs) auto

lemma entry_of:
  assumes "distinct (map re_name (db_rels db))" "e \<in> set (db_rels db)"
  shows "entry_at db (findRel db (re_name e)) = Some e"
proof -
  have "find (\<lambda>x. re_name x = re_name e) xs = Some e" if "distinct (map re_name xs)" "e \<in> set xs" for xs
    using that by (induction xs) (auto simp: image_iff)
  then show ?thesis using assms by (simp add: entry_find)
qed

lemma alias_free:
  assumes "catalogue_ok db" "\<not> aliases_variant db name arity" "name \<notin> re_name ` set (db_rels db)"
    "re_name e = name" "variadic_entry e \<longleftrightarrow> arity = 0" "v \<in> set (db_rels db)"
  shows "\<not> variadic_entry e \<and> variadic_entry v \<Longrightarrow> isVariantStem (re_name e) \<noteq> Some (re_name v)"
    "\<not> variadic_entry v \<and> variadic_entry e \<Longrightarrow> isVariantStem (re_name v) \<noteq> Some (re_name e)"
proof -
  have "distinct (map re_name (db_rels db))" using assms(1) by (simp add: catalogue_ok_def)
  note at = entry_of [OF this assms(6)]
  show "isVariantStem (re_name e) \<noteq> Some (re_name v)" if "\<not> variadic_entry e \<and> variadic_entry v"
    using assms(2,4,5) that at by (auto simp: aliases_variant_def variadic_entry_def split: option.splits)
  show "isVariantStem (re_name v) \<noteq> Some (re_name e)" if "\<not> variadic_entry v \<and> variadic_entry e"
    using assms(2,4-6) that by (auto simp: aliases_variant_def variadic_entry_def isVariantStem_def)
qed

lemma entry_append:
  assumes "name \<notin> re_name ` set (db_rels db)" "db_rels db' = db_rels db @ [e]" "re_name e = name"
  shows "entry_at db' (findRel db' name) = Some e" "n \<noteq> name \<Longrightarrow> entry_at db' (findRel db' n) = entry_at db (findRel db n)"
proof -
  have "find (\<lambda>e. re_name e = name) (db_rels db) = None" using assms(1) by (auto simp: find_None_iff)
  then show "entry_at db' (findRel db' name) = Some e" using assms(2,3) by (simp add: entry_find find_rel_append)
  show "entry_at db' (findRel db' n) = entry_at db (findRel db n)" if "n \<noteq> name"
    using assms(2,3) that by (simp add: entry_find find_rel_append split: option.split)
qed

subsection \<open>Properties\<close>

definition declared :: "dl_db \<Rightarrow> string \<Rightarrow> nat \<Rightarrow> bool" where
  "declared db name arity \<longleftrightarrow> (\<exists>e. entry_at db (findRel db name) = Some e \<and> re_name e = name \<and> (variadic_entry e \<longleftrightarrow> arity = 0) \<and>
     (arity \<noteq> 0 \<longrightarrow> re_arity e = arity \<or> map_option r_arity (re_rel e) = Some arity))"

definition declare_rel_spec :: "dl_db \<Rightarrow> string \<Rightarrow> nat \<Rightarrow> int \<times> dl_db \<Rightarrow> bool" where
  "declare_rel_spec db name arity res \<longleftrightarrow> (case res of (rc, db') \<Rightarrow>
     (rc = 0 \<or> rc = -1) \<and> (rc = -1 \<longrightarrow> db' = db) \<and> (rc = 0 \<longrightarrow> declared db' name arity) \<and>
     (\<forall>n. n \<noteq> name \<longrightarrow> entry_at db' (findRel db' n) = entry_at db (findRel db n)) \<and>
     (\<forall>e. entry_at db (findRel db name) = Some e \<longrightarrow> db' = db \<and> (rc = 0 \<longrightarrow> declared db name arity)) \<and>
     (arity > 8 \<or> isReservedPiName name \<or> name = ''rev'' \<and> arity \<noteq> 2 \<longrightarrow> rc = -1))"

lemma declare_new:
  assumes "catalogue_ok db" "entry_at db (findRel db name) = None" "length (db_rels db) < MAX_RELS" "\<not> isReservedPiName name"
    "\<not> aliases_variant db name arity" "name = ''rev'' \<longrightarrow> arity = 2" "arity \<le> 8"
    "re_name e = name" "variadic_entry e \<longleftrightarrow> arity = 0" "re_arity e = arity" "db_rels db' = db_rels db @ [e]"
  shows "catalogue_ok db'" "declare_rel_spec db name arity (0, db')"
proof -
  have new: "name \<notin> re_name ` set (db_rels db)" using assms(2) by (auto simp: entry_find find_None_iff)
  note fr = alias_free [OF assms(1,5) new assms(8,9)]
  show "catalogue_ok db'"
    using assms(1,3,4,6,8,9,11) new fr by (auto simp: catalogue_ok_def)
  have "entry_at db' (findRel db' name) = Some e" by (rule entry_append(1) [OF new assms(11,8)])
  then show "declare_rel_spec db name arity (0, db')"
    using entry_append(2) [OF new assms(11,8)] assms(2,4,6-10) by (auto simp: declare_rel_spec_def declared_def)
qed

text \<open>C18: declaring a relation, of fixed arity or variadic, fresh or read back from the list of relations, whatever files and
  allocations fail, answers 0 and the name resolves to a relation of that kind, or -1 and the handle is as it was; no other name
  resolves differently, and an existing relation is left alone. The names stay distinct and unreserved, and no relation of fixed arity is
  named like a variant. As long as the names are neither empty nor longer than 252 characters, no two declared relations then share a file of
  the same ending, \<open>.dafsa\<close>, \<open>.base.dafsa\<close> or \<open>.wal\<close>. (Files of different endings can be the same: the automaton of a
  relation \<open>q.base\<close> is the base file of a rule head \<open>q\<close>.)\<close>

theorem declare_correct:
  assumes "catalogue_ok db" "dlDeclareRelationKind ev dk db name arity is_idb from_meta = (rc, db', dk')"
  shows "declare_rel_spec db name arity (rc, db') \<and> catalogue_ok db' \<and>
    ((\<forall>e \<in> set (db_rels db'). re_name e \<noteq> [] \<and> length (re_name e) \<le> 252) \<longrightarrow> files_apart db')"
proof -
  have refused: "declare_rel_spec db name arity (-1, db)" by (simp add: declare_rel_spec_def)
  have "declare_rel_spec db name arity (rc, db') \<and> catalogue_ok db'"
  proof (cases "arity > 8 \<or> name = ''rev'' \<and> arity \<noteq> 2 \<or> db_dir db = None \<or> isReservedPiName name \<or> aliases_variant db name arity")
    case True
    then have "rc = -1 \<and> db' = db" using assms(2) by (auto simp: dlDeclareRelationKind_def split: option.splits if_splits)
    then show ?thesis using refused assms(1) by simp
  next
    case False
    then obtain dir where dir: "db_dir db = Some dir" by auto
    show ?thesis
    proof (cases "entry_at db (findRel db name)")
      case (Some e)
      then have "re_name e = name" using find_rel [of db name] by auto
      then have "declare_rel_spec db name arity (rc, db') \<and> db' = db"
        using assms(2) False dir Some
        by (auto simp: dlDeclareRelationKind_def declare_rel_spec_def declared_def variadic_entry_def split: if_splits)
      then show ?thesis using assms(1) by metis
    next
      case None
      have c: "(arity > 8 \<or> name = ''rev'' \<and> arity \<noteq> 2) = False" "(isReservedPiName name \<or> aliases_variant db name arity) = False"
        using False by auto
      obtain eo dk1 where n: "new_entry ev dir db name arity is_idb dk = (eo, dk1)" by fastforce
      consider "rc = -1" "db' = db" | e where "eo = Some e" "length (db_rels db) < MAX_RELS" "rc = 0" "db_rels db' = db_rels db @ [e]"
        using assms(2) [unfolded dlDeclareRelationKind_def c if_False dir option.case None n prod.case]
        by (cases eo; cases "MAX_RELS \<le> length (db_rels db)"; cases "ev_al ev ''strdup'' (length name + 1)"; cases from_meta)
          (auto simp: Let_def)
      then show ?thesis
      proof cases
        case 1
        then show ?thesis using refused assms(1) by simp
      next
        case 2
        note ent = new_entry_is [OF n [unfolded 2(1)]]
        have "\<not> isReservedPiName name" "\<not> aliases_variant db name arity" "name = ''rev'' \<longrightarrow> arity = 2" "arity \<le> 8" using False by auto
        from declare_new [OF assms(1) None 2(2) this ent 2(4)] show ?thesis using 2(3) by simp
      qed
    qed
  qed
  then show ?thesis using catalogue_apart by blast
qed

text \<open>A variadic relation \<open>q\<close> is declared, and then no relation can be called \<open>q.1\<close>.\<close>

definition empty_catalogue :: dl_db where
  "empty_catalogue = one_rel_db\<lparr>db_rels := []\<rparr>"

lemma no_variants: "dk_files dk = (\<lambda>_. None) \<Longrightarrow> open_variants ev dir db as e dk = (Some e, dk)"
  by (induction as) (simp_all add: variantFilesExist_def there_def split: option.split)

theorem declare_correct_witness:
  "\<exists>db dk. dlDeclareRelationKind \<lparr>ev_en = trie_engine, ev_al = (\<lambda>_ _. True), ev_io = (\<lambda>_. all_ok), ev_crc = (\<lambda>_. 0), ev_pe = (\<lambda>_ _. []),
      ev_kinds = (\<lambda>_ _. 0)\<rparr> no_disk empty_catalogue ''q'' 0 False True = (0, db, dk) \<and> declared db ''q'' 0 \<and> catalogue_ok db \<and>
     aliases_variant db ''q.1'' 2"
proof -
  let ?ev = "\<lparr>ev_en = trie_engine, ev_al = (\<lambda>_ _. True), ev_io = (\<lambda>_. all_ok), ev_crc = (\<lambda>_. 0), ev_pe = (\<lambda>_ _. []), ev_kinds = (\<lambda>_ _. 0)\<rparr>"
  have start: "catalogue_ok empty_catalogue" "entry_at empty_catalogue k = None" "db_dir empty_catalogue = Some ''d''"
    "db_rels empty_catalogue = []" for k
    by (simp_all add: catalogue_ok_def empty_catalogue_def one_rel_db_def entry_at_def)
  have free: "\<not> isReservedPiName ''q''" "\<not> aliases_variant empty_catalogue ''q'' 0"
    by (simp_all add: isReservedPiName_def aliases_variant_def start(4))
  obtain e where n: "new_entry ?ev ''d'' empty_catalogue ''q'' 0 False no_disk = (Some e, no_disk)"
    using no_variants [of no_disk] by (simp add: new_entry_def vrel_create_def no_disk_def)
  obtain db where d: "dlDeclareRelationKind ?ev no_disk empty_catalogue ''q'' 0 False True = (0, db, no_disk)"
    using start free n by (simp add: dlDeclareRelationKind_def Let_def MAX_RELS_def)
  have s: "declare_rel_spec empty_catalogue ''q'' 0 (0, db)" "catalogue_ok db" using declare_correct [OF start(1) d] by blast+
  then have q: "declared db ''q'' 0" by (simp add: declare_rel_spec_def)
  have "isVariantStem ''q.1'' = Some ''q''" by (simp add: isVariantStem_def)
  then have "aliases_variant db ''q.1'' 2" using q by (auto simp: aliases_variant_def declared_def variadic_entry_def)
  then show ?thesis using d q s(2) by blast
qed

end
