(* ===== verification/Facts.thy ===== *)
theory Facts
  imports Declare "HOL-Library.Monad_Syntax"
begin

text \<open>
  Adding and deleting facts (\<^verbatim>\<open>src/dl.h\<close>, \<^verbatim>\<open>zig/src/dl.zig\<close>): new symbols and list cells go to disk,
  then the fact is logged, then it enters the overlay or leaves the automaton, the indices over the relation
  are marked stale, and the change is noted for the incremental evaluation.  Every 64th addition looks at
  the size of the log and may compact it.  The outer \<open>None\<close> of a result is a panic.
\<close>

subsection \<open>Operations on the relation behind a handle\<close>

definition on_slot :: "dl_db \<Rightarrow> int \<Rightarrow> nat \<Rightarrow> (relation \<Rightarrow> ('a \<times> relation) option) \<Rightarrow> ('a \<times> dl_db) option" where
  "on_slot db k a f = do {
     r \<leftarrow> db_rel_at_arity_ro db k a;
     (x, r') \<leftarrow> f r;
     Some (x, put_rel k a r' db) }"

definition exact_at :: "env \<Rightarrow> disk \<Rightarrow> int \<Rightarrow> tuple \<Rightarrow> dl_db \<Rightarrow> (int \<times> dl_db) option" where
  "exact_at ev dk k cols db = on_slot db k (length cols) (rel_exact (ev_en ev) (dk_files dk) cols)"

definition log_at :: "u8 \<Rightarrow> env \<Rightarrow> disk \<Rightarrow> int \<Rightarrow> tuple \<Rightarrow> dl_db \<Rightarrow> (int \<times> dl_db) option" where
  "log_at op ev dk k cols db = on_slot db k (length cols)
     (\<lambda>r. Some (if op = DAFSA_WAL_OP_ADD then rel_wal_append_add (ev_en ev) (dk_files dk) (encodeKey cols) r
                else rel_wal_append_del (ev_en ev) (dk_files dk) (encodeKey cols) r))"

definition overlay_at :: "env \<Rightarrow> disk \<Rightarrow> int \<Rightarrow> tuple \<Rightarrow> dl_db \<Rightarrow> (int \<times> dl_db) option" where
  "overlay_at ev dk k cols db =
     on_slot db k (length cols) (rel_overlay_add (ev_en ev) (ev_al ev) (dk_files dk) cols)"

definition flush_at :: "env \<Rightarrow> disk \<Rightarrow> int \<Rightarrow> nat \<Rightarrow> dl_db \<Rightarrow> (int \<times> dl_db) option" where
  "flush_at ev dk k a db = on_slot db k a (\<lambda>r. Some (rel_overlay_flush (ev_en ev) (dk_files dk) r))"

definition delete_at :: "env \<Rightarrow> disk \<Rightarrow> int \<Rightarrow> tuple \<Rightarrow> dl_db \<Rightarrow> (int \<times> dl_db) option" where
  "delete_at ev dk k cols db =
     on_slot db k (length cols) (\<lambda>r. Some (rel_delete_base (ev_en ev) (dk_files dk) cols r))"

subsection \<open>What the incremental evaluation is told\<close>

definition ivmRelIsHead :: "dl_db \<Rightarrow> int \<Rightarrow> bool" where
  "ivmRelIsHead db k \<longleftrightarrow> (\<exists>cr \<in> set (db_crules db). int (cr_head_rel_id cr) = k)"

text \<open>Appending to a pending set, made when it is missing.\<close>

definition capture :: "allocator \<Rightarrow> tuple \<Rightarrow> tuple_set option \<Rightarrow> (int \<times> tuple_set option) option" where
  "capture al cols slot =
     (case (case slot of Some ts \<Rightarrow> Some ts | None \<Rightarrow> if al ''ivmCapture'' 1 then ts_init (length cols) else None) of
        None \<Rightarrow> Some (-1, slot)
      | Some ts \<Rightarrow> do { (rc, ts') \<leftarrow> ts_add al ts cols; Some (if rc < 0 then -1 else 0, Some ts') })"

definition ivmCaptureDelta :: "allocator \<Rightarrow> dl_db \<Rightarrow> int \<Rightarrow> tuple \<Rightarrow> (int \<times> dl_db) option" where
  "ivmCaptureDelta al db k cols = do {
     (rc, ts) \<leftarrow> capture al cols (db_delta_pending db ! nat k);
     Some (rc, db\<lparr>db_delta_pending := (db_delta_pending db)[nat k := ts]\<rparr>) }"

definition ivmCaptureDelete :: "allocator \<Rightarrow> dl_db \<Rightarrow> int \<Rightarrow> tuple \<Rightarrow> (int \<times> dl_db) option" where
  "ivmCaptureDelete al db k cols = do {
     (rc, ts) \<leftarrow> capture al cols (db_del_pending db ! nat k);
     Some (rc, db\<lparr>db_del_pending := (db_del_pending db)[nat k := ts]\<rparr>) }"

text \<open>A change that could not be noted forces the full evaluation.\<close>

definition note_delta :: "allocator \<Rightarrow> int \<Rightarrow> tuple \<Rightarrow> dl_db \<Rightarrow> dl_db option" where
  "note_delta al k cols db = do {
     (rc, db') \<leftarrow> ivmCaptureDelta al db k cols;
     Some (if rc \<noteq> 0 then db'\<lparr>db_full_reeval_pending := True\<rparr> else db') }"

definition note_delete :: "allocator \<Rightarrow> int \<Rightarrow> tuple \<Rightarrow> dl_db \<Rightarrow> dl_db option" where
  "note_delete al k cols db = do {
     (rc, db') \<leftarrow> ivmCaptureDelete al db k cols;
     Some (if rc \<noteq> 0 then db'\<lparr>db_full_reeval_pending := True\<rparr> else db') }"

definition note_added :: "allocator \<Rightarrow> int \<Rightarrow> tuple \<Rightarrow> dl_db \<Rightarrow> dl_db option" where
  "note_added al k cols db =
     (if ivmRelIsHead db k then Some (db\<lparr>db_full_reeval_pending := True\<rparr>) else note_delta al k cols db)"

subsection \<open>Compaction\<close>

definition COMPACT_CHECK_EVERY :: u64 where "COMPACT_CHECK_EVERY = 64"

definition compact_if_due :: "env \<Rightarrow> string \<Rightarrow> string \<Rightarrow> disk \<Rightarrow> relation \<Rightarrow> disk \<times> relation" where
  "compact_if_due ev dir name dk r =
     (let wal_sz = rel_wal_size r in
      case rel_dafsa_size (ev_en ev) (dk_files dk) r of (dafsa_sz, r1) \<Rightarrow>
        if dafsa_sz > 0 \<and> wal_sz > dafsa_sz div 4 then
          (case rel_overlay_flush (ev_en ev) (dk_files dk) r1 of (rf, r2) \<Rightarrow>
             if rf \<noteq> 0 then (dk, r2)
             else case makePath (ev_al ev) dir name (if rel_is_idb r2 then ''.base.dafsa'' else ''.dafsa'') of
               None \<Rightarrow> (dk, r2)
             | Some path \<Rightarrow>
                 (case rel_compact (ev_en ev) (ev_io ev ''compact'') (ev_al ev) path (dk_files dk) r2 of
                    (rc, r3, fs') \<Rightarrow> (with_files fs' dk, r3)))
        else (dk, r1))"

definition maybeCompact :: "env \<Rightarrow> disk \<Rightarrow> int \<Rightarrow> nat \<Rightarrow> dl_db \<Rightarrow> (disk \<times> dl_db) option" where
  "maybeCompact ev dk k a db = do {
     e \<leftarrow> entry_at db k;
     dir \<leftarrow> db_dir db;
     on_slot db k a (\<lambda>r. Some (compact_if_due ev dir (re_name e) dk r)) }"

definition compact_check :: "env \<Rightarrow> disk \<Rightarrow> int \<Rightarrow> nat \<Rightarrow> dl_db \<Rightarrow> (disk \<times> dl_db) option" where
  "compact_check ev dk k a db =
     (let db1 = db\<lparr>db_compact_checks := db_compact_checks db + 1\<rparr> in
      if db_compact_checks db1 mod COMPACT_CHECK_EVERY = 0 then maybeCompact ev dk k a db1 else Some (dk, db1))"

subsection \<open>Applying in memory\<close>

definition addFactApply :: "env \<Rightarrow> disk \<Rightarrow> int \<Rightarrow> tuple \<Rightarrow> dl_db \<Rightarrow> (int \<times> dl_db \<times> disk) option" where
  "addFactApply ev dk k cols db = do {
     (rc, db1) \<leftarrow> overlay_at ev dk k cols db;
     if rc < 0 then Some (-1, db1, dk)
     else do {
       db2 \<leftarrow> (if rc = 1 then note_added (ev_al ev) k cols (permindex_mark_dirty db1 k) else Some db1);
       (dk3, db3) \<leftarrow> compact_check ev dk k (length cols) db2;
       Some (if rc = 1 then 1 else 0, db3\<lparr>db_fixpoint_dirty := True\<rparr>, dk3) } }"

definition deleteFactApply :: "env \<Rightarrow> disk \<Rightarrow> int \<Rightarrow> tuple \<Rightarrow> dl_db \<Rightarrow> (int \<times> dl_db) option" where
  "deleteFactApply ev dk k cols db = do {
     (rf, db1) \<leftarrow> flush_at ev dk k (length cols) db;
     if rf \<noteq> 0 then Some (-1, db1)
     else do {
       (rc, db2) \<leftarrow> delete_at ev dk k cols db1;
       if rc < 0 then Some (-1, db2)
       else do {
         db3 \<leftarrow> (if rc = 1 then note_delete (ev_al ev) k cols (permindex_mark_dirty db2 k) else Some db2);
         Some (if rc = 1 then 1 else 0, db3\<lparr>db_fixpoint_dirty := True\<rparr>) } } }"

subsection \<open>Column kinds\<close>

text \<open>A value that is no live symbol is an integer; it is recorded for the first row of a column only.\<close>

definition live_symbol :: "interner \<Rightarrow> u32 \<Rightarrow> bool" where
  "live_symbol ir v \<longleftrightarrow> v > 0 \<and> unat v < liveSymBound ir \<and> intern_str_of ir (unat v) \<noteq> None"

definition relHasPendingTxnAdd :: "dl_db \<Rightarrow> int \<Rightarrow> bool" where
  "relHasPendingTxnAdd db k \<longleftrightarrow>
     (case db_txn db of None \<Rightarrow> False | Some t \<Rightarrow> \<exists>op \<in> set (tx_ops t). case op of TXN_ADD j a cols \<Rightarrow> j = k | _ \<Rightarrow> False)"

fun note_cols :: "engine \<Rightarrow> files \<Rightarrow> interner \<Rightarrow> bool \<Rightarrow> nat \<Rightarrow> tuple \<Rightarrow> int \<Rightarrow> relation \<Rightarrow> (int \<times> relation) option" where
  "note_cols en fs ir pending i [] newly r = Some (newly, r)"
| "note_cols en fs ir pending i (v # vs) newly r =
     (if live_symbol ir v then note_cols en fs ir pending (i + 1) vs newly r
      else if rel_col_kind r i = KIND_SYM then Some (-1, r)
      else if rel_col_kind r i = 0 then
        do { (n, r1) \<leftarrow> rel_count en fs r;
             if n = 0 \<and> \<not> pending then
               (case rel_kind_note i KIND_INT r1 of (rc, r2) \<Rightarrow>
                  if rc \<noteq> 0 then Some (-1, r2) else note_cols en fs ir pending (i + 1) vs 1 r2)
             else note_cols en fs ir pending (i + 1) vs newly r1 }
      else note_cols en fs ir pending (i + 1) vs newly r)"

text \<open>A kind recorded makes \<^verbatim>\<open>rels.txt\<close> stale, also when a later column is then refused.\<close>

definition kindNoteRaw :: "env \<Rightarrow> disk \<Rightarrow> int \<Rightarrow> tuple \<Rightarrow> dl_db \<Rightarrow> (int \<times> dl_db) option" where
  "kindNoteRaw ev dk k cols db =
     on_slot db k (length cols) (note_cols (ev_en ev) (dk_files dk) (db_ir db) (relHasPendingTxnAdd db k) 0 cols 0) \<bind>
     (\<lambda>(rc, db'). Some (rc,
        if \<not> db_read_only db \<and> map_option r_col_kind (db_rel_at_arity_ro db' k (length cols)) \<noteq>
             map_option r_col_kind (db_rel_at_arity_ro db k (length cols))
        then db'\<lparr>db_meta_dirty := True\<rparr> else db'))"

text \<open>With rules resident, a kind that is new is checked against them.\<close>

definition kindRecheckAfterLoad :: "env \<Rightarrow> dl_db \<Rightarrow> int" where
  "kindRecheckAfterLoad ev db = (if db_ast_rules db = [] then 0 else ev_kinds ev (db_ast_rules db) db)"

definition restore_kinds :: "nat list \<Rightarrow> int \<Rightarrow> nat \<Rightarrow> dl_db \<Rightarrow> dl_db option" where
  "restore_kinds kinds k a db = map_option snd
     (on_slot db k a (\<lambda>r. Some ((), fold (\<lambda>i. rel_col_kind_set i (kinds ! i)) [0..<a] r)))"

definition kinds_at :: "int \<Rightarrow> nat \<Rightarrow> dl_db \<Rightarrow> nat list" where
  "kinds_at k a db = (case db_rel_at_arity_ro db k a of None \<Rightarrow> replicate a 0 | Some r \<Rightarrow> map (rel_col_kind r) [0..<a])"

text \<open>Check and record, all or nothing.\<close>

definition note_kinds :: "env \<Rightarrow> disk \<Rightarrow> int \<Rightarrow> tuple \<Rightarrow> dl_db \<Rightarrow> (int \<times> dl_db) option" where
  "note_kinds ev dk k cols db = do {
     (kn, db1) \<leftarrow> kindNoteRaw ev dk k cols db;
     if kn < 0 \<or> kn = 1 \<and> kindRecheckAfterLoad ev db1 \<noteq> 0
     then do { db2 \<leftarrow> restore_kinds (kinds_at k (length cols) db) k (length cols) db1; Some (-1, db2) }
     else Some (0, db1) }"

subsection \<open>Saving what a record will refer to\<close>

definition save_symbols :: "env \<Rightarrow> disk \<Rightarrow> dl_db \<Rightarrow> (int \<times> dl_db \<times> disk) option" where
  "save_symbols ev dk db =
     (if \<not> intern_is_dirty (db_ir db) then Some (0, db, dk)
      else do {
        dir \<leftarrow> db_dir db;
        case (makePath (ev_al ev) dir ''symbols'' ''.dafsa'', makePath (ev_al ev) dir ''symbols'' ''.array'') of
          (Some fwd, Some path) \<Rightarrow> do {
            (rc, ir', dk') \<leftarrow> intern_save (ev_al ev) (ev_io ev ''symbols.array'') path (db_ir db) dk;
            Some (if rc \<noteq> 0 then -1 else 0, db\<lparr>db_ir := ir'\<rparr>, dk') }
        | _ \<Rightarrow> Some (-1, db, dk) })"

definition save_terms :: "env \<Rightarrow> disk \<Rightarrow> dl_db \<Rightarrow> (int \<times> dl_db \<times> disk) option" where
  "save_terms ev dk db =
     (case db_terms db of
        None \<Rightarrow> Some (0, db, dk)
      | Some t \<Rightarrow>
          if \<not> term_is_dirty t then Some (0, db, dk)
          else do {
            dir \<leftarrow> db_dir db;
            case makePath (ev_al ev) dir ''terms'' ''.bin'' of
              None \<Rightarrow> Some (-1, db, dk)
            | Some path \<Rightarrow>
                (case term_save (ev_io ev ''terms.bin'') (ev_al ev) t path (dk_files dk) of (rc, t', fs') \<Rightarrow>
                   Some (if rc \<noteq> 0 then -1 else 0, db\<lparr>db_terms := Some t'\<rparr>, with_files fs' dk)) })"

text \<open>The symbols first, and the cells only when that succeeded.\<close>

definition save_vocabulary :: "env \<Rightarrow> disk \<Rightarrow> dl_db \<Rightarrow> (int \<times> dl_db \<times> disk) option" where
  "save_vocabulary ev dk db = do {
     (rc, db1, dk1) \<leftarrow> save_symbols ev dk db;
     if rc \<noteq> 0 then Some (-1, db1, dk1) else save_terms ev dk1 db1 }"

subsection \<open>The public operations\<close>

definition dlAddFactVariadic :: "env \<Rightarrow> disk \<Rightarrow> dl_db \<Rightarrow> int \<Rightarrow> tuple \<Rightarrow> (int \<times> dl_db \<times> disk) option" where
  "dlAddFactVariadic ev dk db k cols =
     (if length cols = 0 \<or> length cols > 8 then Some (-1, db, dk)
      else case dl_ensure_variant ev dk db k (length cols) of
        (None, db1, dk1) \<Rightarrow> Some (-1, db1, dk1)
      | (Some _, db1, dk1) \<Rightarrow> do {
          (ok, db2, dk2) \<leftarrow> save_vocabulary ev dk1 db1;
          if ok \<noteq> 0 then Some (-1, db2, dk2)
          else do {
            (found, db3) \<leftarrow> exact_at ev dk2 k cols db2;
            if found \<noteq> 0 then Some (0, db3, dk2)
            else do {
              (rw, db4) \<leftarrow> log_at DAFSA_WAL_OP_ADD ev dk2 k cols db3;
              if rw \<noteq> 0 then Some (-1, db4, dk2)
              else do {
                (rc, db5) \<leftarrow> overlay_at ev dk2 k cols db4;
                if rc < 0 then Some (-1, db5, dk2)
                else
                  let db6 = (if rc = 1 then (permindex_mark_dirty db5 k)\<lparr>db_full_reeval_pending := True\<rparr> else db5) in
                  Some (1, db6\<lparr>db_fixpoint_dirty := True\<rparr>, dk2) } } } })"

definition dl_add_fact :: "env \<Rightarrow> disk \<Rightarrow> dl_db \<Rightarrow> string \<Rightarrow> tuple \<Rightarrow> (int \<times> dl_db \<times> disk) option" where
  "dl_add_fact ev dk db name cols =
     (if db_read_only db \<or> db_txn db \<noteq> None \<or> name = ''rev'' then Some (-1, db, dk)
      else let k = findRel db name in
        case entry_at db k of
          None \<Rightarrow> Some (-1, db, dk)
        | Some e \<Rightarrow>
            if re_kind e = RELK_VARIADIC then dlAddFactVariadic ev dk db k cols
            else if map_option r_arity (re_rel e) \<noteq> Some (length cols) then Some (-1, db, dk)
            else do {
              (kn, db1) \<leftarrow> note_kinds ev dk k cols db;
              if kn \<noteq> 0 \<or> encodeFactKey cols = None then Some (-1, db1, dk)
              else do {
                (ok, db2, dk2) \<leftarrow> save_vocabulary ev dk db1;
                if ok \<noteq> 0 then Some (-1, db2, dk2)
                else do {
                  (found, db3) \<leftarrow> exact_at ev dk2 k cols db2;
                  if found \<noteq> 0 then Some (0, db3, dk2)
                  else do {
                    (rw, db4) \<leftarrow> log_at DAFSA_WAL_OP_ADD ev dk2 k cols db3;
                    if rw \<noteq> 0 then Some (-1, db4, dk2) else addFactApply ev dk2 k cols db4 } } } })"

definition dlDeleteFactVariadic :: "env \<Rightarrow> disk \<Rightarrow> dl_db \<Rightarrow> int \<Rightarrow> tuple \<Rightarrow> (int \<times> dl_db \<times> disk) option" where
  "dlDeleteFactVariadic ev dk db k cols =
     (if length cols = 0 \<or> length cols > 8 then Some (-1, db, dk)
      else case dl_ensure_variant ev dk db k (length cols) of
        (None, db1, dk1) \<Rightarrow> Some (-1, db1, dk1)
      | (Some _, db1, dk1) \<Rightarrow> do {
          (found, db2) \<leftarrow> exact_at ev dk1 k cols db1;
          if found = 0 then Some (0, db2, dk1)
          else do {
            (rf, db3) \<leftarrow> flush_at ev dk1 k (length cols) db2;
            if rf \<noteq> 0 then Some (-1, db3, dk1)
            else do {
              (rw, db4) \<leftarrow> log_at DAFSA_WAL_OP_DEL ev dk1 k cols db3;
              if rw \<noteq> 0 then Some (-1, db4, dk1)
              else do {
                (rc, db5) \<leftarrow> delete_at ev dk1 k cols db4;
                if rc < 0 then Some (-1, db5, dk1)
                else
                  let db6 = (if rc = 1 then (permindex_mark_dirty db5 k)\<lparr>db_full_reeval_pending := True\<rparr> else db5) in
                  Some (1, db6\<lparr>db_fixpoint_dirty := True\<rparr>, dk1) } } } })"

definition dl_delete_fact :: "env \<Rightarrow> disk \<Rightarrow> dl_db \<Rightarrow> string \<Rightarrow> tuple \<Rightarrow> (int \<times> dl_db \<times> disk) option" where
  "dl_delete_fact ev dk db name cols =
     (if db_read_only db \<or> db_txn db \<noteq> None \<or> name = ''rev'' then Some (-1, db, dk)
      else let k = findRel db name in
        case entry_at db k of
          None \<Rightarrow> Some (-1, db, dk)
        | Some e \<Rightarrow>
            if re_kind e = RELK_VARIADIC then dlDeleteFactVariadic ev dk db k cols
            else if map_option r_arity (re_rel e) \<noteq> Some (length cols) \<or> encodeFactKey cols = None then Some (-1, db, dk)
            else do {
              (found, db1) \<leftarrow> exact_at ev dk k cols db;
              if found = 0 then Some (0, db1, dk)
              else do {
                (rf, db2) \<leftarrow> flush_at ev dk k (length cols) db1;
                if rf \<noteq> 0 then Some (-1, db2, dk)
                else do {
                  (rw, db3) \<leftarrow> log_at DAFSA_WAL_OP_DEL ev dk k cols db2;
                  if rw \<noteq> 0 then Some (-1, db3, dk)
                  else do { (rc, db4) \<leftarrow> deleteFactApply ev dk k cols db3; Some (rc, db4, dk) } } } })"

end
