(* ===== verification/FactsSpec.thy ===== *)
theory FactsSpec
  imports Facts
begin

text \<open>
  What adding and deleting facts do to the database: the step rule for chains of calls, the frame of a write
  to one relation (what it leaves of the other relations, the indices and the files), and the contracts.
\<close>

subsection \<open>Chains of calls\<close>

text \<open>The call returns, and what it returns has the property.\<close>

definition returns :: "'a option \<Rightarrow> ('a \<Rightarrow> bool) \<Rightarrow> bool" where
  "returns m P \<longleftrightarrow> (\<exists>x. m = Some x \<and> P x)"

lemma returns_Some [simp]: "returns (Some x) P \<longleftrightarrow> P x"
  by (simp add: returns_def)

lemma returns_bind:
  assumes "returns m P" "\<And>x. P x \<Longrightarrow> returns (f x) Q"
  shows "returns (m \<bind> f) Q"
  using assms by (auto simp: returns_def)

lemma returns_mono: "returns m P \<Longrightarrow> (\<And>x. P x \<Longrightarrow> Q x) \<Longrightarrow> returns m Q"
  by (auto simp: returns_def)

subsection \<open>The files a relation still reads\<close>

definition rel_files :: "relation \<Rightarrow> string set" where
  "rel_files r = {p. r_on_disk_dafsa r = Some p \<or> r_on_disk_base r = Some p}"

lemma rel_ok_files:
  assumes "\<forall>p \<in> rel_files r. fs' p = fs p"
  shows "rel_ok e fs' r = rel_ok e fs r" "rel_dset e fs' r = rel_dset e fs r" "rel_base e fs' r = rel_base e fs r"
proof -
  have f: "file_at fs' (r_on_disk_dafsa r) = file_at fs (r_on_disk_dafsa r)" "file_at fs' (r_on_disk_base r) = file_at fs (r_on_disk_base r)"
    using assms by (auto simp: file_at_def rel_files_def split: option.split)
  then show "rel_ok e fs' r = rel_ok e fs r"
    by (simp add: rel_ok_def unloaded_ok_def disk_ok_def view_ok_of_def cong: read_state.case_cong)
  show "rel_dset e fs' r = rel_dset e fs r" "rel_base e fs' r = rel_base e fs r"
    using f by (simp_all add: rel_dset_def rel_base_def disk_tuples_def)
qed

lemma rel_view_files: "\<forall>p \<in> rel_files r. fs' p = fs p \<Longrightarrow> rel_view e fs' r = rel_view e fs r"
  unfolding rel_view_def by (subst rel_ok_files(2)) simp_all

lemma owned_no_files: "rel_ok e fs r \<Longrightarrow> r_state r = Owned \<Longrightarrow> rel_files r = {}"
  by (simp add: rel_ok_def owned_ok_def rel_files_def)

lemma ensure_owned_files: "rel_files (snd (relEnsureOwned e fs r)) \<subseteq> rel_files r"
  by (auto simp: relEnsureOwned_def rel_files_def relViewClose_def Let_def split: option.splits)

lemma ensure_readable_files: "rel_files (snd (relEnsureReadable e fs r)) \<subseteq> rel_files r"
proof -
  have "rel_files r' \<subseteq> rel_files r" if "relViewOpen e fs r = Some r'" for r'
    using that by (auto simp: relViewOpen_def rel_files_def split: option.splits)
  then show ?thesis using ensure_owned_files [of e fs r]
    by (auto simp: relEnsureReadable_def split: option.splits)
qed

lemma exact_files: "rel_exact e fs t r = Some (x, r') \<Longrightarrow> rel_files r' \<subseteq> rel_files r"
  using ensure_readable_files [of e fs r] by (auto simp: rel_exact_def Let_def split: prod.splits if_splits option.splits)

lemma count_files: "rel_count e fs r = Some (x, r') \<Longrightarrow> rel_files r' \<subseteq> rel_files r"
  using ensure_readable_files [of e fs r] by (auto simp: rel_count_def Let_def split: prod.splits if_splits option.splits)

lemma append_files: "wal_append op e fs k r = (x, r') \<Longrightarrow> rel_files r' \<subseteq> rel_files r"
  using ensure_owned_files [of e fs r]
  by (auto simp: wal_append_def Let_def rel_files_def split: prod.splits if_splits option.splits)

lemma overlay_files: "rel_overlay_add e al fs t r = Some (x, r') \<Longrightarrow> rel_files r' \<subseteq> rel_files r"
  using ensure_owned_files [of e fs r]
  by (auto simp: rel_overlay_add_def Let_def rel_files_def mutated_def rel_touch_def split: prod.splits if_splits option.splits)

lemma fold_files: "rel_files (snd (ov_fold e rows r)) = rel_files r"
  by (induction e rows r rule: ov_fold.induct) (auto simp: rel_files_def Let_def split: prod.splits option.splits if_splits)

lemma rel_files_upd [simp]:
  "rel_files (mutated r) = rel_files r" "rel_files (r\<lparr>r_ov := ov\<rparr>) = rel_files r" "rel_files (r\<lparr>r_ov_dirty := n\<rparr>) = rel_files r"
  "rel_files (r\<lparr>r_wal := w\<rparr>) = rel_files r" "rel_files (r\<lparr>r_col_kind := ks\<rparr>) = rel_files r"
  by (simp_all add: rel_files_def mutated_def rel_touch_def)

lemma flush_files: "rel_overlay_flush e fs r = (x, r') \<Longrightarrow> rel_files r' \<subseteq> rel_files r"
proof -
  assume f: "rel_overlay_flush e fs r = (x, r')"
  obtain okay r1 where r1: "relEnsureOwned e fs r = (okay, r1)" by fastforce
  have sub: "rel_files r1 \<subseteq> rel_files r" using ensure_owned_files [of e fs r] r1 by simp
  obtain rc r2 where r2: "ov_fold e (ts_data (the (r_ov r))) r1 = (rc, r2)" by fastforce
  then have "rel_files r2 = rel_files r1" using fold_files [of e "ts_data (the (r_ov r))" r1] by simp
  then show ?thesis using f r1 r2 sub by (auto simp: rel_overlay_flush_def split: option.splits if_splits)
qed

lemma base_write_files: "rel_delete_base e fs t r = (x, r') \<Longrightarrow> rel_ok e fs r' \<Longrightarrow> r_state r' = Owned \<Longrightarrow> rel_files r' = {}"
  by (rule owned_no_files)

lemma compact_keeps:
  assumes "engine_ok e" "dafsa_create e \<noteq> None" "rel_ok e fs r" "log_ok r" "rel_compact e io al p fs r = (rc, r', fs')"
  shows "rel_ok e fs' r' \<and> log_ok r' \<and> kept e fs fs' r r' \<and> rel_files r' = {} \<and> (\<forall>q. q \<noteq> p \<longrightarrow> fs' q = fs q)"
proof -
  obtain w where w: "r_wal r = Some w" using assms(4) by (auto simp: log_ok_def)
  obtain r1 where r1: "relEnsureOwned e fs r = (True, r1)" "rel_ok e fs r1" "r_state r1 = Owned" "same_relation e fs r r1"
    by (rule ensure_owned_ok [OF assms(1-3)])
  obtain rf r2 where r2: "rel_overlay_flush e fs r1 = (rf, r2)" "rel_ok e fs r2" "flush_spec e fs r1 (rf, r2)" "r_state r2 = Owned"
    by (rule flush_ok [OF assms(1,2) r1(2)]) (use r1(3) in simp)
  have f: "rel_view e fs r2 = rel_view e fs r" "rel_is_idb r2 = rel_is_idb r" "r_arity r2 = r_arity r" "r_wal r2 = r_wal r"
    "rel_base e fs r2 \<union> ov_rows r2 = rel_base e fs r \<union> ov_rows r"
    using r2(3) same_relation_view [OF r1(4)] r1(4) by (auto simp: flush_spec_def same_relation_def ov_rows_def)
  have log2: "log_ok r2" using assms(4) f(3,4) by (simp add: log_ok_def)
  have own2: "rel_files r2 = {}" by (rule owned_no_files [OF r2(2,4)])
  have any: "rel_ok e fs'' r2" "rel_view e fs'' r2 = rel_view e fs r2" "rel_base e fs'' r2 = rel_base e fs r2" for fs''
    using owned_files [OF r2(4), of e fs'' fs] r2(2) by (simp_all add: rel_view_def)
  obtain b where b: "base_of r2 = Some b" "keyed (r_arity r2) b" by (rule owned_base [OF r2(2,4)])
  obtain rs fs1 where sv: "dafsa_save e b p fs = (rs, fs1)" by fastforce
  have fs1: "\<forall>q. q \<noteq> p \<longrightarrow> fs1 q = fs q" using save_ok_law [OF assms(1) sv] by (auto split: if_splits)
  obtain rt r3 where t: "truncate_log io al r2 = (rt, r3)" by fastforce
  note tr = truncate_log_ok [OF t log2]
  have r3: "rel_ok e fs'' r3" "rel_view e fs'' r3 = rel_view e fs'' r2" "rel_is_idb r3 = rel_is_idb r2" "r_arity r3 = r_arity r2"
    "rel_files r3 = {}" "rel_base e fs'' r3 = rel_base e fs'' r2" "ov_rows r3 = ov_rows r2" for fs''
    using rel_ok_wal [OF any(1) r2(4)] own2 by (subst tr(2), simp add: rel_view_def)+
  consider "rf \<noteq> 0" "r' = r2" "fs' = fs" | "r' = r2" "fs' = fs1" | "r' = r3" "fs' = fs1"
    using assms(5) w r1(1) r2(1) sv b(1) t by (auto simp: rel_compact_def save_dafsa_def split: if_splits)
  moreover have "kept e fs fs'' r r2" for fs'' using any(2,3) f(1-3,5) unfolding kept_def by metis
  moreover have "kept e fs fs'' r r3" for fs'' using any(2,3) r3(2-4,6,7) f(1-3,5) unfolding kept_def by metis
  ultimately show ?thesis using any(1) r3(1,5) fs1 log2 tr(1) own2 by cases simp_all
qed

subsection \<open>The frame of a write to one relation\<close>

text \<open>The files a writer may replace: those of the vocabulary and of the catalogue, and those a relation of
  fixed arity is compacted to.\<close>

definition sys_files :: "string \<Rightarrow> string set" where
  "sys_files dir = (\<Union>p \<in> {path_in dir ''symbols'' ''.array'', path_in dir ''terms'' ''.bin'', path_in dir ''rels'' ''.txt''}. {p, tmp_name p})"

definition own_files :: "string \<Rightarrow> dl_db \<Rightarrow> int \<Rightarrow> string set" where
  "own_files dir db k =
     (case entry_at db k of
        None \<Rightarrow> {}
      | Some e \<Rightarrow> if re_kind e = RELK_VARIADIC then {} else {path_in dir (re_name e) ''.dafsa'', path_in dir (re_name e) ''.base.dafsa''})"

text \<open>No relation reads a file that a write to another one replaces; an index is in memory only.\<close>

definition apart :: "string \<Rightarrow> dl_db \<Rightarrow> bool" where
  "apart dir db \<longleftrightarrow>
     (\<forall>k a r. db_rel_at_arity_ro db k a = Some r \<longrightarrow> rel_files r \<inter> sys_files dir = {} \<and>
        (\<forall>j. j \<noteq> k \<longrightarrow> rel_files r \<inter> own_files dir db j = {})) \<and>
     (\<forall>pe \<in> set (db_perms db). \<forall>r. pe_pidx_rel pe = Some r \<longrightarrow> rel_files r = {})"

lemma put_rel_rels: "entry_at db k = Some e \<Longrightarrow> db_rels (put_rel k a r db) = (db_rels db)[nat k := put_variant_of a r e]"
  by (simp add: put_rel_def put_entry_def)

lemma slotE:
  assumes "db_ok en fs db" "db_rel_at_arity_ro db k a = Some r"
  obtains (fixed) e where "entry_at db k = Some e" "re_kind e = RELK_FIXED" "re_arity e = a" "re_rel e = Some r" "re_vrel e = None"
  | (variadic) e v where "entry_at db k = Some e" "re_kind e = RELK_VARIADIC" "re_vrel e = Some v" "vrel_ok en fs v" "re_rel e = None"
      "vrel_variant_or_null v a = Some r" "1 \<le> a" "a \<le> MAX_VAR_ARITY" "a < length (variants v)" "re_arity e = 0"
proof -
  obtain e where e: "entry_at db k = Some e" "db_entry_variant_ro e a = Some r"
    using assms(2) by (auto simp: db_rel_at_arity_ro_def split: option.splits)
  have ok: "entry_ok en fs e" by (rule entry_at_ok [OF assms(1) e(1)])
  show thesis
  proof (cases "re_kind e = RELK_VARIADIC")
    case True
    then obtain v where v: "re_vrel e = Some v" "vrel_ok en fs v" "re_rel e = None" "re_arity e = 0" using ok by (auto simp: entry_ok_def)
    then have s: "vrel_variant_or_null v a = Some r" using e(2) True by (simp add: db_entry_variant_ro_def)
    then have "1 \<le> a" "a \<le> MAX_VAR_ARITY" by (auto simp: vrel_variant_or_null_def split: if_splits)
    then show thesis using variadic e(1) True v s vrel_ok_length [OF v(2)] by blast
  next
    case False
    then show thesis using fixed e ok by (auto simp: entry_ok_def db_entry_variant_ro_def split: if_splits)
  qed
qed

lemma slot_put:
  assumes "db_ok en fs db" "db_rel_at_arity_ro db k a = Some r0" "db_rels db' = db_rels (put_rel k a r db)"
  shows "db_rel_at_arity_ro db' j b = (if j = k \<and> b = a then Some r else db_rel_at_arity_ro db j b)"
proof -
  have at: "entry_at db' i = entry_at (put_rel k a r db) i" for i using assms(3) by (simp add: entry_at_def)
  show ?thesis
    using assms(1,2)
  proof (cases rule: slotE)
    case (fixed e)
    then show ?thesis
      by (simp add: db_rel_at_arity_ro_def at put_rel_def entry_at_put put_variant_of_def db_entry_variant_ro_def RELK_FIXED_def RELK_VARIADIC_def)
  next
    case (variadic e v)
    then show ?thesis
      by (auto simp: db_rel_at_arity_ro_def at put_rel_def entry_at_put put_variant_of_def db_entry_variant_ro_def
          vrel_variant_or_null_def put_variant_def)
  qed
qed

text \<open>The handle with another relation in one place.\<close>

definition at_rel :: "int \<Rightarrow> nat \<Rightarrow> relation \<Rightarrow> dl_db \<Rightarrow> dl_db \<Rightarrow> bool" where
  "at_rel k a r db0 db \<longleftrightarrow> db_rels db = db_rels (put_rel k a r db0) \<and> db_dir db = db_dir db0 \<and>
     db_read_only db = db_read_only db0 \<and> db_txn db = db_txn db0 \<and>
     length (db_delta_pending db) = length (db_delta_pending db0) \<and> length (db_del_pending db) = length (db_del_pending db0)"

lemma put_put:
  assumes "db_ok en fs db0" "db_rel_at_arity_ro db0 k a = Some r0" "db_rels db = db_rels (put_rel k a r db0)"
  shows "db_rels (put_rel k a r' db) = db_rels (put_rel k a r' db0)"
proof -
  obtain e where e: "entry_at db0 k = Some e" using assms(2) by (auto simp: db_rel_at_arity_ro_def split: option.splits)
  have over: "put_variant_of a r' (put_variant_of a r e) = put_variant_of a r' e"
    by (cases "re_vrel e") (simp_all add: put_variant_of_def put_variant_def)
  have rels: "db_rels db = (db_rels db0)[nat k := put_variant_of a r e]" using assms(3) put_rel_rels [OF e] by simp
  then have "entry_at db k = Some (put_variant_of a r e)" using e by (auto simp: entry_at_def split: if_splits)
  then show ?thesis using put_rel_rels [OF e] by (simp add: put_rel_rels rels over)
qed

lemma on_slot_ok:
  assumes "db_ok en fs db0" "db_rel_at_arity_ro db0 k a = Some r0" "at_rel k a r db0 db" "f r = Some (x, r')"
  shows "on_slot db k a f = Some (x, put_rel k a r' db)" "at_rel k a r' db0 (put_rel k a r' db)"
proof -
  have "db_rel_at_arity_ro db k a = Some r"
    using slot_put [OF assms(1,2)] assms(3) by (simp add: at_rel_def)
  then show "on_slot db k a f = Some (x, put_rel k a r' db)" using assms(4) by (simp add: on_slot_def)
  have "db_rels (put_rel k a r' db) = db_rels (put_rel k a r' db0)"
    using put_put [OF assms(1,2)] assms(3) by (simp add: at_rel_def)
  moreover have "put_rel k a r' db = db\<lparr>db_rels := db_rels (put_rel k a r' db)\<rparr>"
    by (simp add: put_rel_def put_entry_def split: option.split)
  ultimately show "at_rel k a r' db0 (put_rel k a r' db)"
    using assms(3) unfolding at_rel_def by (metis (no_types, lifting) dl_db.select_convs dl_db.surjective dl_db.update_convs(4))
qed

lemma entry_ok_files:
  assumes "entry_ok en fs e" "\<And>a r. db_entry_variant_ro e a = Some r \<Longrightarrow> \<forall>p \<in> rel_files r. fs' p = fs p"
  shows "entry_ok en fs' e"
proof (cases "re_kind e = RELK_VARIADIC")
  case True
  obtain v where v: "re_vrel e = Some v" "vrel_ok en fs v" using assms(1) True by (auto simp: entry_ok_def)
  have "rel_ok en fs' r" if "1 \<le> a" "a \<le> MAX_VAR_ARITY" "variants v ! a = Some r" for a r
  proof -
    have "db_entry_variant_ro e a = Some r" using True v(1) that slot_eq by (simp add: db_entry_variant_ro_def)
    then show ?thesis using rel_ok_files(1) [OF assms(2)] vrel_okD [OF v(2) that] by blast
  qed
  then have "vrel_ok en fs' v" using v(2) unfolding vrel_ok_def by blast
  then show ?thesis using assms(1) True v(1) by (simp add: entry_ok_def)
next
  case False
  then obtain r where r: "re_rel e = Some r" "rel_ok en fs r" "r_arity r = re_arity e" "re_vrel e = None" "re_kind e = RELK_FIXED"
    using assms(1) by (auto simp: entry_ok_def)
  have "db_entry_variant_ro e (re_arity e) = Some r" using False r(1) by (simp add: db_entry_variant_ro_def)
  then show ?thesis using rel_ok_files(1) [OF assms(2)] False r by (simp add: entry_ok_def)
qed

text \<open>The vocabulary of a handle: the symbol table agrees with what it recorded of the disk, and the term store
  is well formed.\<close>

definition vocab_ok :: "disk \<Rightarrow> dl_db \<Rightarrow> bool" where
  "vocab_ok dk db \<longleftrightarrow> saved_ok (db_ir db) dk \<and> clock_ok dk \<and> ir_ok (db_ir db) \<and>
     (\<exists>strs. has_symbols strs (db_ir db) \<and> savable strs) \<and> (\<forall>t. db_terms db = Some t \<longrightarrow> term_inv t)"

text \<open>The pending sets of a relation are sets of rows of its arity.\<close>

definition pend_ok :: "dl_db \<Rightarrow> bool" where
  "pend_ok db \<longleftrightarrow> (\<forall>k e ts. entry_at db k = Some e \<and> (db_delta_pending db ! nat k = Some ts \<or> db_del_pending db ! nat k = Some ts) \<longrightarrow>
     ts_inv ts \<and> ts_arity ts = re_arity e)"

text \<open>A handle open for writing: well formed, its indices up to date or marked stale, every relation logged.\<close>

definition live :: "engine \<Rightarrow> string \<Rightarrow> disk \<Rightarrow> dl_db \<Rightarrow> bool" where
  "live en dir dk db \<longleftrightarrow> db_dir db = Some dir \<and> length dir \<le> 8000 \<and> db_ok en (dk_files dk) db \<and>
     perms_fresh en (dk_files dk) db \<and> apart dir db \<and> vocab_ok dk db \<and> pend_ok db \<and>
     (\<forall>k a r. db_rel_at_arity_ro db k a = Some r \<longrightarrow> log_ok r)"

text \<open>What changed in the files: nothing but those a write to relation \<open>k\<close> may replace.\<close>

definition files_frame :: "string \<Rightarrow> dl_db \<Rightarrow> int \<Rightarrow> files \<Rightarrow> files \<Rightarrow> bool" where
  "files_frame dir db k fs fs' \<longleftrightarrow> (\<forall>p. p \<notin> sys_files dir \<and> p \<notin> own_files dir db k \<longrightarrow> fs' p = fs p)"

lemma frame_other:
  assumes "apart dir db" "files_frame dir db k fs fs'" "db_rel_at_arity_ro db j b = Some r" "j \<noteq> k"
  shows "\<forall>p \<in> rel_files r. fs' p = fs p"
proof
  fix p assume p: "p \<in> rel_files r"
  have a: "rel_files r \<inter> sys_files dir = {}" "rel_files r \<inter> own_files dir db k = {}"
    using assms(1,3) assms(4) [symmetric] unfolding apart_def by blast+
  then have "p \<notin> sys_files dir" "p \<notin> own_files dir db k" using p by blast+
  then show "fs' p = fs p" using assms(2) unfolding files_frame_def by blast
qed

lemma frame_variant:
  assumes "apart dir db" "files_frame dir db k fs fs'" "db_rel_at_arity_ro db k b = Some r"
    "entry_at db k = Some e" "re_kind e = RELK_VARIADIC"
  shows "\<forall>p \<in> rel_files r. fs' p = fs p"
proof
  fix p assume p: "p \<in> rel_files r"
  have a: "rel_files r \<inter> sys_files dir = {}" using assms(1,3) unfolding apart_def by blast
  have "own_files dir db k = {}" using assms(4,5) by (simp add: own_files_def)
  moreover have "p \<notin> sys_files dir" using p a by blast
  ultimately show "fs' p = fs p" using assms(2) unfolding files_frame_def by blast
qed

text \<open>Every slot but the written one keeps what it reads.\<close>

lemma frame_slots:
  assumes "db_ok en fs db" "apart dir db" "files_frame dir db k fs fs'" "db_rel_at_arity_ro db k a = Some r0"
    "db_rel_at_arity_ro db j b = Some r" "(j, b) \<noteq> (k, a)"
  shows "\<forall>p \<in> rel_files r. fs' p = fs p"
proof (cases "j = k")
  case False
  show ?thesis by (rule frame_other [OF assms(2,3,5) False])
next
  case True
  from assms(1,4) show ?thesis
  proof (cases rule: slotE)
    case (fixed e)
    then show ?thesis using assms(5,6) True
      by (auto simp: db_rel_at_arity_ro_def db_entry_variant_ro_def RELK_FIXED_def RELK_VARIADIC_def split: if_splits)
  next
    case (variadic e v)
    then show ?thesis using frame_variant [OF assms(2,3)] assms(5) True by blast
  qed
qed

lemma facts_slots:
  assumes "db_ok en fs db"
  shows "t \<in> rel_facts en fs db i \<longleftrightarrow> (\<exists>r. db_rel_at_arity_ro db i (length t) = Some r \<and> t \<in> rel_view en fs r)"
proof -
  have "t \<in> rel_facts en fs db i \<longleftrightarrow> t \<in> {t' \<in> rel_facts en fs db i. length t' = length t}" by simp
  also have "\<dots> \<longleftrightarrow> (\<exists>r. db_rel_at_arity_ro db i (length t) = Some r \<and> t \<in> rel_view en fs r)"
    using at_arity [OF assms, of i "length t"] by (cases "db_rel_at_arity_ro db i (length t)") auto
  finally show ?thesis .
qed

lemma rel_facts_name: "db_facts en fs db name = rel_facts en fs db (findRel db name)"
  by (simp add: db_facts_def rel_facts_def)

lemma perm_ok_files:
  assumes "perm_ok en fs pe" "\<forall>r. pe_pidx_rel pe = Some r \<longrightarrow> rel_files r = {}"
  shows "perm_ok en fs' pe" "perm_fresh en fs' db' pe \<longleftrightarrow>
    (\<forall>p. \<not> pe_dirty pe \<and> pe_pidx_rel pe = Some p \<longrightarrow> rel_view en fs p = permute (pe_perm pe) ` perm_source en fs' db' pe)"
proof -
  have none: "\<forall>p \<in> rel_files r. fs' p = fs p" if "pe_pidx_rel pe = Some r" for r using assms(2) that by simp
  show "perm_ok en fs' pe"
    using assms(1) rel_ok_files(1) [OF none] by (auto simp: perm_ok_def)
  show "perm_fresh en fs' db' pe \<longleftrightarrow>
    (\<forall>p. \<not> pe_dirty pe \<and> pe_pidx_rel pe = Some p \<longrightarrow> rel_view en fs p = permute (pe_perm pe) ` perm_source en fs' db' pe)"
    using rel_view_files [OF none] by (auto simp: perm_fresh_def)
qed

text \<open>The indices over a relation that changed are marked.\<close>

definition marked :: "int \<Rightarrow> dl_db \<Rightarrow> dl_db \<Rightarrow> bool" where
  "marked k db db' \<longleftrightarrow> db_perms db' = db_perms (permindex_mark_dirty db k)"

lemma put_db_ok:
  assumes "db_ok en fs db" "apart dir db" "files_frame dir db k fs fs'" "db_rel_at_arity_ro db k a = Some r0"
    "rel_ok en fs' r" "r_arity r = a" "at_rel k a r db db'" "db_perms db' = db_perms db \<or> marked k db db'"
    "\<forall>t. db_terms db' = Some t \<longrightarrow> term_inv t"
  shows "db_ok en fs' db'"
proof -
  obtain e where e: "entry_at db k = Some e" using assms(4) by (auto simp: db_rel_at_arity_ro_def split: option.splits)
  have rels: "db_rels db' = (db_rels db)[nat k := put_variant_of a r e]"
    using assms(7) put_rel_rels [OF e] by (simp add: at_rel_def)
  have k: "0 \<le> k" "nat k < length (db_rels db)" "db_rels db ! nat k = e" using e by (auto simp: entry_at_def split: if_splits)
  have slots: "db_rel_at_arity_ro db (int i) b = db_entry_variant_ro (db_rels db ! i) b" if "i < length (db_rels db)" for i b
    using that by (simp add: db_rel_at_arity_ro_def entry_at_def)
  have other: "entry_ok en fs' (db_rels db ! i)" if i: "i < length (db_rels db)" "i \<noteq> nat k" for i
  proof (rule entry_ok_files)
    show "entry_ok en fs (db_rels db ! i)" using assms(1) i by (simp add: db_ok_def)
    show "\<forall>p \<in> rel_files r. fs' p = fs p" if r: "db_entry_variant_ro (db_rels db ! i) b = Some r" for b r
      by (rule frame_other [OF assms(2,3), of "int i" b]) (use slots [OF i(1)] r i(2) k(1) in auto)
  qed
  from assms(1,4) have own: "entry_ok en fs' (put_variant_of a r e) \<and> re_name (put_variant_of a r e) = re_name e"
  proof (cases rule: slotE)
    case (fixed e')
    then show ?thesis using e assms(5,6) by (simp add: put_variant_of_def entry_ok_def RELK_FIXED_def RELK_VARIADIC_def)
  next
    case (variadic e' v)
    have "e' = e" using e variadic(1) by simp
    have "entry_ok en fs' e"
    proof (rule entry_ok_files)
      show "entry_ok en fs e" by (rule entry_at_ok [OF assms(1) e])
      show "\<forall>p \<in> rel_files x. fs' p = fs p" if "db_entry_variant_ro e b = Some x" for b x
        using frame_variant [OF assms(2,3) _ e] variadic(2) that e \<open>e' = e\<close> by (simp add: db_rel_at_arity_ro_def)
    qed
    then have "vrel_ok en fs' v" using variadic(2,3) \<open>e' = e\<close> by (simp add: entry_ok_def)
    from put_ok [OF this assms(5,6)] show ?thesis
      using variadic \<open>e' = e\<close> by (simp add: put_variant_of_def entry_ok_def)
  qed
  have entries: "entry_ok en fs' x" if x: "x \<in> set (db_rels db')" for x
  proof -
    obtain i where i: "i < length (db_rels db)" "x = (db_rels db)[nat k := put_variant_of a r e] ! i"
      using x unfolding rels in_set_conv_nth length_list_update by blast
    show ?thesis
    proof (cases "i = nat k")
      case True
      then have "x = put_variant_of a r e" using i k(2) by simp
      then show ?thesis using own by blast
    next
      case False
      then have "x = db_rels db ! i" using i(2) by simp
      then show ?thesis using other [OF i(1) False] by blast
    qed
  qed
  have names: "map re_name (db_rels db') = map re_name (db_rels db)"
  proof -
    have "(map re_name (db_rels db))[nat k := re_name e] = map re_name (db_rels db)"
      using k(2,3) by (subst list_update_same_conv) simp_all
    then show ?thesis using own unfolding rels by (simp add: map_update)
  qed
  have at: "entry_at db' i \<noteq> None \<longleftrightarrow> entry_at db i \<noteq> None" for i unfolding entry_at_def rels by simp
  have perms: "perm_ok en fs' pe \<and> entry_at db' (pe_rel_id pe) \<noteq> None" if pe: "pe \<in> set (db_perms db')" for pe
  proof -
    obtain pe0 where pe0: "pe0 \<in> set (db_perms db)" "pe = pe0 \<or> pe = pe0\<lparr>pe_dirty := True\<rparr>"
      using assms(8) pe by (auto simp: marked_def permindex_mark_dirty_def split: if_splits)
    have "perm_ok en fs' pe0"
      by (rule perm_ok_files(1) [of en fs]) (use assms(1,2) pe0(1) in \<open>auto simp: db_ok_def apart_def\<close>)
    then have "perm_ok en fs' pe" "pe_rel_id pe = pe_rel_id pe0" using pe0(2) by (auto simp: perm_ok_def)
    moreover have "entry_at db (pe_rel_id pe0) \<noteq> None" using assms(1) pe0(1) by (simp add: db_ok_def)
    ultimately show ?thesis using at by metis
  qed
  have "length (db_rels db') = length (db_rels db)" "length (db_perms db') = length (db_perms db)"
    using rels assms(8) by (auto simp: marked_def permindex_mark_dirty_def)
  then show ?thesis
    using assms(1,7,9) entries names perms unfolding db_ok_def at_rel_def by metis
qed

text \<open>What a write to one relation did: the facts of its arity are those of the relation now, all others stayed.\<close>

lemma facts_put:
  assumes "db_ok en fs db" "apart dir db" "files_frame dir db k fs fs'" "db_rel_at_arity_ro db k a = Some r0"
    "at_rel k a r db db'" "db_ok en fs' db'"
  shows "t \<in> rel_facts en fs' db' i \<longleftrightarrow> (if i = k \<and> length t = a then t \<in> rel_view en fs' r else t \<in> rel_facts en fs db i)"
proof -
  have slot: "db_rel_at_arity_ro db' j b = (if j = k \<and> b = a then Some r else db_rel_at_arity_ro db j b)" for j b
    using slot_put [OF assms(1,4)] assms(5) unfolding at_rel_def by blast
  show ?thesis
  proof (cases "i = k \<and> length t = a")
    case True
    then show ?thesis by (simp add: facts_slots [OF assms(6)] slot)
  next
    case False
    have "rel_view en fs' x = rel_view en fs x" if "db_rel_at_arity_ro db i (length t) = Some x" for x
      by (rule rel_view_files [OF frame_slots [OF assms(1-4) that]]) (use False in simp)
    then show ?thesis using False by (auto simp: facts_slots [OF assms(6)] facts_slots [OF assms(1)] slot)
  qed
qed

lemma find_put:
  assumes "db_rel_at_arity_ro db k a = Some r0" "at_rel k a r db db'"
  shows "findRel db' name = findRel db name" "map_option re_kind (entry_at db' i) = map_option re_kind (entry_at db i)"
    "map_option re_name (entry_at db' i) = map_option re_name (entry_at db i)"
    "map_option re_arity (entry_at db' i) = map_option re_arity (entry_at db i)"
proof -
  obtain e where e: "entry_at db k = Some e" using assms(1) by (auto simp: db_rel_at_arity_ro_def split: option.splits)
  let ?e = "put_variant_of a r e"
  have f: "re_name ?e = re_name e" "re_kind ?e = re_kind e" "re_arity ?e = re_arity e" by (simp_all add: put_variant_of_def)
  have rels: "db_rels db' = db_rels (put_entry k ?e db)"
    using assms(2) put_rel_rels [OF e] by (simp add: at_rel_def put_entry_def)
  show "findRel db' name = findRel db name"
    unfolding findRel_def rels by (rule find_from_names) (rule names_put [OF e f(1)])
  have at: "entry_at db' i = entry_at (put_entry k ?e db) i" for i by (simp add: entry_at_def rels)
  show "map_option re_kind (entry_at db' i) = map_option re_kind (entry_at db i)"
    "map_option re_name (entry_at db' i) = map_option re_name (entry_at db i)"
    "map_option re_arity (entry_at db' i) = map_option re_arity (entry_at db i)"
    unfolding at using e f by (simp_all add: entry_at_put)
qed

end
