(* ===== verification/FactsSteps.thy ===== *)
theory FactsSteps
  imports FactsSpec
begin

text \<open>
  Adding and deleting facts, proved: each call in the chain keeps the handle equal to the one at the start but for
  one relation, whose content follows the contracts of \<^verbatim>\<open>relation.h\<close>; the end of the chain is then
  a statement about the database.
\<close>

subsection \<open>One relation changes\<close>

text \<open>The handle is the one at the start with the relation \<open>r\<close> in place of \<open>r0\<close>; nothing is said yet of how their
  contents compare.\<close>

definition holds :: "engine \<Rightarrow> string \<Rightarrow> int \<Rightarrow> nat \<Rightarrow> disk \<Rightarrow> dl_db \<Rightarrow> relation \<Rightarrow> relation \<Rightarrow> disk \<Rightarrow> dl_db \<Rightarrow> bool" where
  "holds en dir k a dk0 db0 r0 r dk db \<longleftrightarrow> at_rel k a r db0 db \<and> rel_ok en (dk_files dk) r \<and> r_arity r = a \<and> log_ok r \<and>
     rel_files r \<subseteq> rel_files r0 \<and> vocab_ok dk db \<and> pend_ok db \<and> files_frame dir db0 k (dk_files dk0) (dk_files dk) \<and>
     (db_perms db = db_perms db0 \<or> marked k db0 db)"

text \<open>Readers of an index are safe: it is marked, or the content is what it was.\<close>

definition settled :: "engine \<Rightarrow> int \<Rightarrow> disk \<Rightarrow> dl_db \<Rightarrow> relation \<Rightarrow> relation \<Rightarrow> disk \<Rightarrow> dl_db \<Rightarrow> bool" where
  "settled en k dk0 db0 r0 r dk db \<longleftrightarrow> marked k db0 db \<or> rel_view en (dk_files dk) r = rel_view en (dk_files dk0) r0"

lemma holds_start:
  assumes "live en dir dk db" "db_rel_at_arity_ro db k a = Some r"
  shows "holds en dir k a dk db r r dk db" "settled en k dk db r r dk db"
proof -
  have db: "db_ok en (dk_files dk) db" using assms(1) by (simp add: live_def)
  then have r: "rel_ok en (dk_files dk) r" "r_arity r = a" using at_arity assms(2) by blast+
  obtain e where e: "entry_at db k = Some e" using assms(2) by (auto simp: db_rel_at_arity_ro_def split: option.splits)
  then have k: "nat k < length (db_rels db)" "db_rels db ! nat k = e" by (auto simp: entry_at_def split: if_splits)
  have "put_variant_of a r e = e"
    using db assms(2)
  proof (cases rule: slotE)
    case (fixed e')
    then show ?thesis using e by (simp add: put_variant_of_def RELK_FIXED_def RELK_VARIADIC_def)
  next
    case (variadic e' v)
    have "variants v ! a = Some r" using variadic(6,7,8) slot_eq by metis
    then have "(variants v)[a := Some r] = variants v" using variadic(9) by (simp add: list_update_same_conv)
    then have "put_variant a r v = v" by (simp add: put_variant_def)
    then show ?thesis using variadic e by (simp add: put_variant_of_def)
  qed
  moreover have "(db_rels db)[nat k := e] = db_rels db" using k by (simp add: list_update_same_conv)
  ultimately have "put_rel k a r db = db" using e by (simp add: put_rel_def put_entry_def)
  then have "at_rel k a r db db" by (simp add: at_rel_def)
  then show "holds en dir k a dk db r r dk db" using assms r by (auto simp: holds_def live_def files_frame_def)
  show "settled en k dk db r r dk db" by (simp add: settled_def)
qed

lemma fresh_marked: "pe \<in> set (db_perms (permindex_mark_dirty db k)) \<Longrightarrow>
    pe_dirty pe \<and> pe_rel_id pe = k \<or> pe \<in> set (db_perms db) \<and> pe_rel_id pe \<noteq> k"
  by (auto simp: permindex_mark_dirty_def split: if_splits)

text \<open>The end of a chain: the handle is live, its facts of the relation's arity are the relation's, all others stayed.\<close>

lemma holds_live:
  assumes "live en dir dk0 db0" "db_rel_at_arity_ro db0 k a = Some r0" "holds en dir k a dk0 db0 r0 r dk db"
    "settled en k dk0 db0 r0 r dk db"
  shows "live en dir dk db"
    "t \<in> rel_facts en (dk_files dk) db i \<longleftrightarrow> (if i = k \<and> length t = a then t \<in> rel_view en (dk_files dk) r else t \<in> rel_facts en (dk_files dk0) db0 i)"
proof -
  let ?old = "dk_files dk0" and ?new = "dk_files dk"
  have l: "db_dir db0 = Some dir" "length dir \<le> 8000" "db_ok en ?old db0" "perms_fresh en ?old db0" "apart dir db0"
    "\<And>j b x. db_rel_at_arity_ro db0 j b = Some x \<Longrightarrow> log_ok x" using assms(1) by (auto simp: live_def)
  have h: "at_rel k a r db0 db" "rel_ok en ?new r" "r_arity r = a" "log_ok r" "rel_files r \<subseteq> rel_files r0" "vocab_ok dk db"
    "files_frame dir db0 k ?old ?new" "db_perms db = db_perms db0 \<or> marked k db0 db"
    using assms(3) by (simp_all add: holds_def)
  have terms: "\<forall>t. db_terms db = Some t \<longrightarrow> term_inv t" using h(6) by (simp add: vocab_ok_def)
  have ok: "db_ok en ?new db" by (rule put_db_ok [OF l(3,5) h(7) assms(2) h(2,3,1,8) terms])
  have facts: "t \<in> rel_facts en ?new db i \<longleftrightarrow> (if i = k \<and> length t = a then t \<in> rel_view en ?new r else t \<in> rel_facts en ?old db0 i)" for t i
    by (rule facts_put [OF l(3,5) h(7) assms(2) h(1) ok])
  then show "t \<in> rel_facts en ?new db i \<longleftrightarrow> (if i = k \<and> length t = a then t \<in> rel_view en ?new r else t \<in> rel_facts en ?old db0 i)" .
  have slot: "db_rel_at_arity_ro db j b = (if j = k \<and> b = a then Some r else db_rel_at_arity_ro db0 j b)" for j b
    using slot_put [OF l(3) assms(2)] h(1) unfolding at_rel_def by blast
  have own: "own_files dir db j = own_files dir db0 j" for j
    using find_put(2,3) [OF assms(2) h(1), of j]
    by (cases "entry_at db j"; cases "entry_at db0 j") (auto simp: own_files_def)
  have perms: "\<exists>pe0 \<in> set (db_perms db0). pe_pidx_rel pe = pe_pidx_rel pe0" if pe: "pe \<in> set (db_perms db)" for pe
  proof -
    obtain pe0 where "pe0 \<in> set (db_perms db0)" "pe = pe0 \<or> pe = pe0\<lparr>pe_dirty := True\<rparr>"
      using pe h(8) by (auto simp: marked_def permindex_mark_dirty_def split: if_splits)
    then show ?thesis by auto
  qed
  have apart': "apart dir db"
    unfolding apart_def
  proof (intro conjI allI ballI impI)
    fix j b x assume x: "db_rel_at_arity_ro db j b = Some x"
    obtain x0 where x0: "db_rel_at_arity_ro db0 j b = Some x0" "rel_files x \<subseteq> rel_files x0"
      using x slot assms(2) h(5) by (metis (mono_tags, lifting) option.inject order_refl)
    then show "rel_files x \<inter> sys_files dir = {}" using l(5) unfolding apart_def by blast
    show "rel_files x \<inter> own_files dir db i = {}" if "i \<noteq> j" for i
      using x0 l(5) that unfolding apart_def own by blast
  next
    fix pe x assume "pe \<in> set (db_perms db)" "pe_pidx_rel pe = Some x"
    then show "rel_files x = {}" using perms l(5) unfolding apart_def by metis
  qed
  have fresh: "perm_fresh en ?new db pe" if pe: "pe \<in> set (db_perms db)" for pe
  proof (cases "pe_dirty pe \<and> pe_rel_id pe = k")
    case False
    have pe0: "pe \<in> set (db_perms db0)" and chg: "pe_rel_id pe \<noteq> k \<or> db_perms db = db_perms db0"
      using pe False h(8) fresh_marked [of pe db0 k] by (auto simp: marked_def)
    have none: "\<forall>x. pe_pidx_rel pe = Some x \<longrightarrow> rel_files x = {}" and pok: "perm_ok en ?old pe" and pf: "perm_fresh en ?old db0 pe"
      using l(3,4,5) pe0 unfolding apart_def db_ok_def perms_fresh_def by blast+
    have src: "perm_source en ?new db pe = perm_source en ?old db0 pe" if nd: "\<not> pe_dirty pe"
    proof (cases "pe_rel_id pe = k")
      case True
      then have same: "db_perms db = db_perms db0" using chg by blast
      have "\<not> marked k db0 db"
      proof
        assume "marked k db0 db"
        then have "pe \<in> set (db_perms (permindex_mark_dirty db0 k))" using pe by (simp add: marked_def)
        then show False using fresh_marked True nd by blast
      qed
      then have v: "rel_view en ?new r = rel_view en ?old r0" using assms(4) by (simp add: settled_def)
      have "t \<in> rel_facts en ?new db k \<longleftrightarrow> t \<in> rel_facts en ?old db0 k" for t
        unfolding facts v using at_arity [OF l(3), of k a] assms(2) by auto
      then show ?thesis using True by (simp add: perm_source_def)
    next
      case False
      then show ?thesis by (simp add: perm_source_def facts)
    qed
    have "rel_view en ?new x = rel_view en ?old x" if "pe_pidx_rel pe = Some x" for x
      by (rule rel_view_files) (use none that in simp)
    then show ?thesis using pf src unfolding perm_fresh_def by metis
  qed (simp add: perm_fresh_def)
  show "live en dir dk db"
    unfolding live_def
  proof (intro conjI allI impI)
    show "db_dir db = Some dir" using h(1) l(1) by (simp add: at_rel_def)
    show "perms_fresh en ?new db" using fresh by (simp add: perms_fresh_def)
    show "log_ok x" if "db_rel_at_arity_ro db j b = Some x" for j b x
      using that slot h(4) l(6) by (metis option.inject)
    show "pend_ok db" using assms(3) by (simp add: holds_def)
  qed (use l(2) ok apart' h(6) in blast)+
qed

subsection \<open>The steps\<close>

lemma put_rel_fields [simp]:
  "db_ir (put_rel k a r db) = db_ir db" "db_terms (put_rel k a r db) = db_terms db" "db_perms (put_rel k a r db) = db_perms db"
  "db_dir (put_rel k a r db) = db_dir db" "db_crules (put_rel k a r db) = db_crules db" "db_txn (put_rel k a r db) = db_txn db"
  "db_read_only (put_rel k a r db) = db_read_only db" "db_ast_rules (put_rel k a r db) = db_ast_rules db"
  "db_delta_pending (put_rel k a r db) = db_delta_pending db" "db_del_pending (put_rel k a r db) = db_del_pending db"
  "db_rev_rel_id (put_rel k a r db) = db_rev_rel_id db"
  by (simp_all add: put_rel_def put_entry_def split: option.split)

lemma marked_put [simp]: "marked k db0 (put_rel j a r db) = marked k db0 db"
  by (simp add: marked_def)

lemma vocab_put [simp]: "vocab_ok dk (put_rel j a r db) = vocab_ok dk db"
  by (simp add: vocab_ok_def)

lemma pend_arities:
  assumes "\<And>i. map_option re_arity (entry_at db' i) = map_option re_arity (entry_at db i)" "db_delta_pending db' = db_delta_pending db"
    "db_del_pending db' = db_del_pending db" "pend_ok db"
  shows "pend_ok db'"
  unfolding pend_ok_def
proof (intro allI impI, elim conjE)
  fix k e ts assume e: "entry_at db' k = Some e" and ts: "db_delta_pending db' ! nat k = Some ts \<or> db_del_pending db' ! nat k = Some ts"
  obtain e0 where "entry_at db k = Some e0" "re_arity e0 = re_arity e" using assms(1) [of k] e by (cases "entry_at db k") auto
  then show "ts_inv ts \<and> ts_arity ts = re_arity e" using assms(2-4) ts unfolding pend_ok_def by metis
qed

lemma holds_slot:
  assumes "db_ok en (dk_files dk0) db0" "db_rel_at_arity_ro db0 k a = Some r0" "holds en dir k a dk0 db0 r0 r dk db"
    "f r = Some (x, r')" "rel_ok en (dk_files dk) r'" "r_arity r' = a" "log_ok r'" "rel_files r' \<subseteq> rel_files r"
  shows "on_slot db k a f = Some (x, put_rel k a r' db)" "holds en dir k a dk0 db0 r0 r' dk (put_rel k a r' db)"
    "rel_view en (dk_files dk) r' = rel_view en (dk_files dk) r \<Longrightarrow> settled en k dk0 db0 r0 r dk db \<Longrightarrow>
       settled en k dk0 db0 r0 r' dk (put_rel k a r' db)"
proof -
  have at: "at_rel k a r db0 db" using assms(3) by (simp add: holds_def)
  note s = on_slot_ok [OF assms(1,2) at, of f x r', OF assms(4)]
  show "on_slot db k a f = Some (x, put_rel k a r' db)" by (rule s(1))
  have "rel_files r' \<subseteq> rel_files r0" using assms(3,8) by (auto simp: holds_def)
  moreover have "pend_ok (put_rel k a r' db)"
  proof (rule pend_arities)
    show "map_option re_arity (entry_at (put_rel k a r' db) i) = map_option re_arity (entry_at db i)" for i
      using find_put(4) [OF assms(2) s(2)] find_put(4) [OF assms(2) at] by simp
    show "pend_ok db" using assms(3) by (simp add: holds_def)
  qed simp_all
  ultimately show "holds en dir k a dk0 db0 r0 r' dk (put_rel k a r' db)"
    using assms(3,5-7) s(2) by (simp add: holds_def)
  show "settled en k dk0 db0 r0 r' dk (put_rel k a r' db)"
    if "rel_view en (dk_files dk) r' = rel_view en (dk_files dk) r" "settled en k dk0 db0 r0 r dk db"
    using that by (simp add: settled_def)
qed

text \<open>Fields that no relation, index or symbol depends on.\<close>

lemma holds_fields [simp]:
  "holds en dir k a dk0 db0 r0 r dk (db\<lparr>db_meta_dirty := b\<rparr>) = holds en dir k a dk0 db0 r0 r dk db"
  "holds en dir k a dk0 db0 r0 r dk (db\<lparr>db_fixpoint_dirty := b\<rparr>) = holds en dir k a dk0 db0 r0 r dk db"
  "holds en dir k a dk0 db0 r0 r dk (db\<lparr>db_full_reeval_pending := b\<rparr>) = holds en dir k a dk0 db0 r0 r dk db"
  "holds en dir k a dk0 db0 r0 r dk (db\<lparr>db_compact_checks := n\<rparr>) = holds en dir k a dk0 db0 r0 r dk db"
  "settled en k dk0 db0 r0 r dk (db\<lparr>db_meta_dirty := b\<rparr>) = settled en k dk0 db0 r0 r dk db"
  "settled en k dk0 db0 r0 r dk (db\<lparr>db_fixpoint_dirty := b\<rparr>) = settled en k dk0 db0 r0 r dk db"
  "settled en k dk0 db0 r0 r dk (db\<lparr>db_full_reeval_pending := b\<rparr>) = settled en k dk0 db0 r0 r dk db"
  "settled en k dk0 db0 r0 r dk (db\<lparr>db_compact_checks := n\<rparr>) = settled en k dk0 db0 r0 r dk db"
  by (simp_all add: holds_def settled_def at_rel_def vocab_ok_def marked_def pend_ok_def entry_at_def)

lemma mark_fields [simp]:
  "pend_ok (permindex_mark_dirty db k) = pend_ok db" "vocab_ok dk (permindex_mark_dirty db k) = vocab_ok dk db"
  "at_rel j a r db0 (permindex_mark_dirty db k) = at_rel j a r db0 db"
  by (simp_all add: permindex_mark_dirty_def pend_ok_def entry_at_def vocab_ok_def at_rel_def)

lemma holds_mark:
  assumes "holds en dir k a dk0 db0 r0 r dk db"
  shows "holds en dir k a dk0 db0 r0 r dk (permindex_mark_dirty db k)" "settled en k dk0 db0 r0 r dk (permindex_mark_dirty db k)"
proof -
  have "db_perms db = db_perms db0 \<or> marked k db0 db" using assms by (simp add: holds_def)
  then have m: "marked k db0 (permindex_mark_dirty db k)" by (auto simp: marked_def permindex_mark_dirty_def)
  then show "holds en dir k a dk0 db0 r0 r dk (permindex_mark_dirty db k)"
    using assms by (simp add: holds_def)
  show "settled en k dk0 db0 r0 r dk (permindex_mark_dirty db k)" using m by (simp add: settled_def)
qed

text \<open>The content of a relation and its log, as one.\<close>

definition same_rows :: "engine \<Rightarrow> files \<Rightarrow> relation \<Rightarrow> files \<Rightarrow> relation \<Rightarrow> bool" where
  "same_rows e fs r fs' r' \<longleftrightarrow> rel_dset e fs' r' = rel_dset e fs r \<and> rel_base e fs' r' = rel_base e fs r \<and>
     ov_rows r' = ov_rows r \<and> log_of r' = log_of r \<and> rel_is_idb r' = rel_is_idb r \<and> r_arity r' = r_arity r"

lemma same_rows_view: "same_rows e fs r fs' r' \<Longrightarrow> rel_view e fs' r' = rel_view e fs r"
  by (simp add: same_rows_def rel_view_def)

lemma same_rows_of: "same_relation e fs r r' \<Longrightarrow> same_rows e fs r fs r'"
  by (simp add: same_relation_def same_rows_def ov_rows_def log_of_def)

lemma log_ok_of: "same_relation e fs r r' \<Longrightarrow> log_ok r \<Longrightarrow> log_ok r'"
  by (simp add: same_relation_def log_ok_def)

lemma same_rows_trans: "same_rows e fs1 r1 fs2 r2 \<Longrightarrow> same_rows e fs2 r2 fs3 r3 \<Longrightarrow> same_rows e fs1 r1 fs3 r3"
  by (simp add: same_rows_def)

definition started :: "env \<Rightarrow> string \<Rightarrow> int \<Rightarrow> nat \<Rightarrow> disk \<Rightarrow> dl_db \<Rightarrow> relation \<Rightarrow> bool" where
  "started ev dir k a dk0 db0 r0 \<longleftrightarrow> engine_ok (ev_en ev) \<and> dafsa_create (ev_en ev) \<noteq> None \<and>
     live (ev_en ev) dir dk0 db0 \<and> db_rel_at_arity_ro db0 k a = Some r0"

lemma startedD:
  assumes "started ev dir k a dk0 db0 r0"
  shows "engine_ok (ev_en ev)" "dafsa_create (ev_en ev) \<noteq> None" "db_ok (ev_en ev) (dk_files dk0) db0"
    "db_rel_at_arity_ro db0 k a = Some r0"
  using assms by (simp_all add: started_def live_def)

lemma holdsD:
  assumes "holds en dir k a dk0 db0 r0 r dk db"
  shows "rel_ok en (dk_files dk) r" "r_arity r = a" "log_ok r"
  using assms by (simp_all add: holds_def)

text \<open>Nothing outside fails: the engine has memory and the log can be written, the allocator answers.\<close>

definition all_goes_well :: "env \<Rightarrow> bool" where
  "all_goes_well ev \<longleftrightarrow> adds_succeed (ev_en ev) \<and> (\<forall>d k. fst (dafsa_delete_n (ev_en ev) d k) \<ge> 0) \<and>
     (\<forall>w op k. fst (dafsa_wal_append (ev_en ev) w op k) = 0) \<and> generous (ev_al ev)"

lemma append_goes_well:
  assumes "all_goes_well ev" "engine_ok (ev_en ev)" "dafsa_create (ev_en ev) \<noteq> None" "rel_ok (ev_en ev) fs r" "log_ok r"
    "wal_append op (ev_en ev) fs k r = (rc, r')"
  shows "rc = 0"
proof -
  obtain w where w: "r_wal r = Some w" using assms(5) by (auto simp: log_ok_def)
  obtain r1 where r1: "relEnsureOwned (ev_en ev) fs r = (True, r1)" by (rule ensure_owned_ok [OF assms(2-4)])
  obtain rc0 w' where a: "dafsa_wal_append (ev_en ev) w op k = (rc0, w')" by fastforce
  moreover have "fst (dafsa_wal_append (ev_en ev) w op k) = 0" using assms(1) unfolding all_goes_well_def by blast
  ultimately show ?thesis using assms(6) w r1 by (simp add: wal_append_def Let_def)
qed

lemma delete_goes_well:
  assumes "all_goes_well ev" "engine_ok (ev_en ev)" "dafsa_create (ev_en ev) \<noteq> None" "rel_ok (ev_en ev) fs r"
    "write_base (\<lambda>d. relDeleteD (ev_en ev) d t) (ev_en ev) fs r = (rc, r')"
  shows "rc \<noteq> -1"
proof -
  obtain r1 where r1: "relEnsureOwned (ev_en ev) fs r = (True, r1)" "rel_ok (ev_en ev) fs r1" "r_state r1 = Owned"
    by (rule ensure_owned_ok [OF assms(2-4)])
  obtain b where b: "base_of r1 = Some b" by (rule owned_base [OF r1(2,3)])
  obtain rc0 b' where d: "dafsa_delete_n (ev_en ev) b (encodeKey t) = (rc0, b')" by fastforce
  moreover have "fst (dafsa_delete_n (ev_en ev) b (encodeKey t)) \<ge> 0" using assms(1) unfolding all_goes_well_def by blast
  ultimately show ?thesis using assms(5) r1(1) b by (auto simp: write_base_def relDeleteD_def Let_def)
qed

lemma overlay_size: "rel_ok e fs r \<Longrightarrow> rel_overlay_count r = card (ov_rows r)"
  by (cases "r_ov r") (auto simp: rel_overlay_count_def ov_rows_def ts_count_def ts_rows_def ts_inv_def distinct_card dest: ov_wf)

lemma exact_step:
  assumes "started ev dir k a dk0 db0 r0" "holds (ev_en ev) dir k a dk0 db0 r0 r dk db" "length t = a"
  obtains r' db' where "exact_at ev dk k t db = Some (if t \<in> rel_view (ev_en ev) (dk_files dk) r then 1 else 0, db')"
    "holds (ev_en ev) dir k a dk0 db0 r0 r' dk db'" "same_rows (ev_en ev) (dk_files dk) r (dk_files dk) r'"
    "settled (ev_en ev) k dk0 db0 r0 r dk db \<Longrightarrow> settled (ev_en ev) k dk0 db0 r0 r' dk db'"
    "db_txn db' = db_txn db" "db_delta_pending db' = db_delta_pending db" "db_crules db' = db_crules db"
proof -
  note s = startedD [OF assms(1)] and h = holdsD [OF assms(2)]
  have len: "length t = r_arity r" using assms(3) h(2) by simp
  obtain r' where r': "rel_exact (ev_en ev) (dk_files dk) t r = Some (if t \<in> rel_view (ev_en ev) (dk_files dk) r then 1 else 0, r')"
    "rel_ok (ev_en ev) (dk_files dk) r'" "same_relation (ev_en ev) (dk_files dk) r r'"
    by (rule exact_ok [OF s(1,2) h(1) len])
  have ar: "r_arity r' = a" using r'(3) h(2) by (simp add: same_relation_def)
  note p = holds_slot [where f = "rel_exact (ev_en ev) (dk_files dk) t" and r' = r', OF s(3,4) assms(2) r'(1,2) ar log_ok_of [OF r'(3) h(3)] exact_files [OF r'(1)]]
  show thesis
    by (rule that [of "put_rel k a r' db" r'])
       (use p same_relation_view [OF r'(3)] same_rows_of [OF r'(3)] assms(3) in \<open>simp_all add: exact_at_def\<close>)
qed

lemma log_step:
  assumes "started ev dir k a dk0 db0 r0" "holds (ev_en ev) dir k a dk0 db0 r0 r dk db" "length t = a"
    "op = DAFSA_WAL_OP_ADD \<or> op = DAFSA_WAL_OP_DEL"
  obtains rc r' db' where "log_at op ev dk k t db = Some (rc, db')" "holds (ev_en ev) dir k a dk0 db0 r0 r' dk db'"
    "rc = 0 \<or> rc = -1" "rel_dset (ev_en ev) (dk_files dk) r' = rel_dset (ev_en ev) (dk_files dk) r"
    "rel_base (ev_en ev) (dk_files dk) r' = rel_base (ev_en ev) (dk_files dk) r" "ov_rows r' = ov_rows r"
    "rel_is_idb r' = rel_is_idb r" "log_of r' = (if rc = 0 then log_of r @ [(op, encodeKey t)] else log_of r)"
    "all_goes_well ev \<Longrightarrow> rc = 0"
    "settled (ev_en ev) k dk0 db0 r0 r dk db \<Longrightarrow> settled (ev_en ev) k dk0 db0 r0 r' dk db'"
    "db_txn db' = db_txn db" "db_delta_pending db' = db_delta_pending db" "db_crules db' = db_crules db"
proof -
  note s = startedD [OF assms(1)] and h = holdsD [OF assms(2)]
  obtain rc r' where w: "wal_append op (ev_en ev) (dk_files dk) (encodeKey t) r = (rc, r')" by fastforce
  have "r_arity r \<le> MAX_ARITY" using h(1) by (simp add: rel_ok_def)
  moreover have len: "length t = r_arity r" using assms(3) h(2) by simp
  ultimately have k: "length (encodeKey t) \<le> MAX_WORD_LEN" using key_short by blast
  have ex: "\<exists>u. length u = r_arity r \<and> encodeKey t = encodeKey u" using len by blast
  note a = append_ok [OF s(1,2) h(1,3) k ex w]
  have ar: "r_arity r' = a" using a(6) h(2) by simp
  define f where "f = (\<lambda>r. Some (if op = DAFSA_WAL_OP_ADD then rel_wal_append_add (ev_en ev) (dk_files dk) (encodeKey t) r
      else rel_wal_append_del (ev_en ev) (dk_files dk) (encodeKey t) r))"
  have f: "f r = Some (rc, r')" using w assms(4) by (auto simp: f_def rel_wal_append_add_def rel_wal_append_del_def)
  note p = holds_slot [where f = f and r' = r', OF s(3,4) assms(2) f a(1) ar a(2) append_files [OF w]]
  have v: "rel_view (ev_en ev) (dk_files dk) r' = rel_view (ev_en ev) (dk_files dk) r" using a(4,5) by (simp add: rel_view_def)
  have l: "log_at op ev dk k t db = Some (rc, put_rel k a r' db)" using p(1) assms(3) by (simp add: log_at_def f_def)
  show thesis by (rule that [OF l p(2) a(8,4,3,5,7,9) append_goes_well [OF _ s(1,2) h(1,3) w] p(3) [OF v]]) simp_all
qed

lemma overlay_step:
  assumes "started ev dir k a dk0 db0 r0" "holds (ev_en ev) dir k a dk0 db0 r0 r dk db" "length t = a"
  obtains rc r' db' where "overlay_at ev dk k t db = Some (rc, db')" "holds (ev_en ev) dir k a dk0 db0 r0 r' dk db'"
    "add_result (rel_view (ev_en ev) (dk_files dk) r) t rc (rel_view (ev_en ev) (dk_files dk) r')"
    "rel_base (ev_en ev) (dk_files dk) r' = rel_base (ev_en ev) (dk_files dk) r" "rel_is_idb r' = rel_is_idb r"
    "r_wal r' = r_wal r" "ov_rows r' = (if rc = 1 then insert t (ov_rows r) else ov_rows r)"
    "rc \<noteq> 1 \<Longrightarrow> settled (ev_en ev) k dk0 db0 r0 r dk db \<Longrightarrow> settled (ev_en ev) k dk0 db0 r0 r' dk db'"
    "generous (ev_al ev) \<and> rel_overlay_count r < 2 ^ 29 \<Longrightarrow> rc \<noteq> -1"
    "db_txn db' = db_txn db" "db_delta_pending db' = db_delta_pending db" "db_crules db' = db_crules db"
proof -
  note s = startedD [OF assms(1)] and h = holdsD [OF assms(2)]
  have len: "length t = r_arity r" using assms(3) h(2) by simp
  obtain rc r' where r': "rel_overlay_add (ev_en ev) (ev_al ev) (dk_files dk) t r = Some (rc, r')" "rel_ok (ev_en ev) (dk_files dk) r'"
    "add_result (rel_view (ev_en ev) (dk_files dk) r) t rc (rel_view (ev_en ev) (dk_files dk) r')"
    "rel_base (ev_en ev) (dk_files dk) r' = rel_base (ev_en ev) (dk_files dk) r" "rel_is_idb r' = rel_is_idb r"
    "r_arity r' = r_arity r" "r_wal r' = r_wal r" "generous (ev_al ev) \<and> rel_overlay_count r < 2 ^ 29 \<longrightarrow> rc \<noteq> -1"
    "ov_rows r' = (if rc = 1 then insert t (ov_rows r) else ov_rows r)"
    by (rule overlay_add_ok [OF s(1,2) h(1) len]) (rule that; assumption)
  have ar: "r_arity r' = a" and lg: "log_ok r'" using r'(6,7) h(2,3) by (simp_all add: log_ok_def)
  note p = holds_slot [where f = "rel_overlay_add (ev_en ev) (ev_al ev) (dk_files dk) t" and r' = r', OF s(3,4) assms(2) r'(1,2) ar lg overlay_files [OF r'(1)]]
  have v: "rel_view (ev_en ev) (dk_files dk) r' = rel_view (ev_en ev) (dk_files dk) r" if "rc \<noteq> 1"
    using r'(3) that by (auto simp: add_result_def)
  have o: "overlay_at ev dk k t db = Some (rc, put_rel k a r' db)" using p(1) assms(3) by (simp add: overlay_at_def)
  show thesis by (rule that [OF o p(2) r'(3-5,7,9) p(3) [OF v]]) (use r'(8) in simp_all)
qed

lemma flush_step:
  assumes "started ev dir k a dk0 db0 r0" "holds (ev_en ev) dir k a dk0 db0 r0 r dk db"
  obtains rc r' db' where "flush_at ev dk k a db = Some (rc, db')" "holds (ev_en ev) dir k a dk0 db0 r0 r' dk db'"
    "flush_spec (ev_en ev) (dk_files dk) r (rc, r')" "adds_succeed (ev_en ev) \<Longrightarrow> rc = 0"
    "settled (ev_en ev) k dk0 db0 r0 r dk db \<Longrightarrow> settled (ev_en ev) k dk0 db0 r0 r' dk db'"
    "db_txn db' = db_txn db" "db_delta_pending db' = db_delta_pending db" "db_crules db' = db_crules db"
proof -
  note s = startedD [OF assms(1)] and h = holdsD [OF assms(2)]
  obtain rc r' where f: "rel_overlay_flush (ev_en ev) (dk_files dk) r = (rc, r')" "rel_ok (ev_en ev) (dk_files dk) r'"
    "flush_spec (ev_en ev) (dk_files dk) r (rc, r')" "adds_succeed (ev_en ev) \<longrightarrow> rc = 0"
    by (rule flush_ok [OF s(1,2) h(1)])
  have ar: "r_arity r' = a" and lg: "log_ok r'" and v: "rel_view (ev_en ev) (dk_files dk) r' = rel_view (ev_en ev) (dk_files dk) r"
    using f(3) h(2,3) by (simp_all add: flush_spec_def log_ok_def)
  have g: "(\<lambda>r. Some (rel_overlay_flush (ev_en ev) (dk_files dk) r)) r = Some (rc, r')" using f(1) by simp
  note p = holds_slot [where f = "\<lambda>r. Some (rel_overlay_flush (ev_en ev) (dk_files dk) r)" and r' = r', OF s(3,4) assms(2) g f(2) ar lg flush_files [OF f(1)]]
  show thesis by (rule that [OF p(1) [folded flush_at_def] p(2) f(3) _ p(3) [OF v]]) (use f(4) in simp_all)
qed

lemma edb_same: "rel_ok e fs r \<Longrightarrow> \<not> rel_is_idb r \<Longrightarrow> rel_base e fs r = rel_dset e fs r"
  by (cases "r_state r") (auto simp: rel_is_idb_def rel_base_def rel_dset_def base_of_def rel_ok_def view_ok_of_def split: if_splits)

lemma delete_step:
  assumes "started ev dir k a dk0 db0 r0" "holds (ev_en ev) dir k a dk0 db0 r0 r dk db" "length t = a"
  obtains rc r' db' where "delete_at ev dk k t db = Some (rc, db')" "holds (ev_en ev) dir k a dk0 db0 r0 r' dk db'"
    "base_write_spec (\<lambda>V. delete_result V t) (ev_en ev) (dk_files dk) r (rc, r')"
    "all_goes_well ev \<Longrightarrow> rc \<noteq> -1"
    "rc \<noteq> 1 \<Longrightarrow> settled (ev_en ev) k dk0 db0 r0 r dk db \<Longrightarrow> settled (ev_en ev) k dk0 db0 r0 r' dk db'"
    "db_txn db' = db_txn db" "db_delta_pending db' = db_delta_pending db" "db_crules db' = db_crules db"
proof -
  note s = startedD [OF assms(1)] and h = holdsD [OF assms(2)]
  have len: "length t = r_arity r" using assms(3) h(2) by simp
  have "r_arity r \<le> MAX_ARITY" using h(1) by (simp add: rel_ok_def)
  note u = updates_delete [OF s(1) len this]
  obtain rc r' where d: "write_base (\<lambda>d. relDeleteD (ev_en ev) d t) (ev_en ev) (dk_files dk) r = (rc, r')" "rel_ok (ev_en ev) (dk_files dk) r'"
    "r_state r' = Owned" "base_write_spec (\<lambda>V. delete_result V t) (ev_en ev) (dk_files dk) r (rc, r')"
    by (rule write_base_ok [OF s(1,2) h(1) u])
  have ar: "r_arity r' = a" and lg: "log_ok r'" and ov: "ov_rows r' = ov_rows r"
    using d(4) h(2,3) by (simp_all add: base_write_spec_def write_frame_def log_ok_def ov_rows_def)
  have del: "rel_delete_base (ev_en ev) (dk_files dk) t r = (rc, r')" using d(1) by (simp add: rel_delete_base_def)
  then have g: "(\<lambda>r. Some (rel_delete_base (ev_en ev) (dk_files dk) t r)) r = Some (rc, r')" by simp
  have sub: "rel_files r' \<subseteq> rel_files r" using owned_no_files [OF d(2,3)] by simp
  note p = holds_slot [where f = "\<lambda>r. Some (rel_delete_base (ev_en ev) (dk_files dk) t r)" and r' = r', OF s(3,4) assms(2) g d(2) ar lg sub]
  have v: "rel_view (ev_en ev) (dk_files dk) r' = rel_view (ev_en ev) (dk_files dk) r" if "rc \<noteq> 1"
    using d(4) that ov edb_same [OF h(1)] by (auto simp: base_write_spec_def delete_result_def rel_view_def split: if_splits)
  have a: "delete_at ev dk k t db = Some (rc, put_rel k a r' db)" using p(1) assms(3) by (simp add: delete_at_def)
  show thesis by (rule that [OF a p(2) d(4) delete_goes_well [OF _ s(1,2) h(1) d(1)] p(3) [OF v]]) simp_all
qed

subsection \<open>The pending sets\<close>

lemma ts_added:
  assumes "ts_inv ts" "length t = ts_arity ts" "ts_add al ts t = Some (rc, ts')"
  shows "ts_inv ts' \<and> ts_arity ts' = ts_arity ts"
  using assms(3) by (cases rule: ts_add_inv [OF assms(1,2), of al]) (use assms(1) in auto)

lemma ts_add_some:
  assumes "ts_inv ts" "length t = ts_arity ts"
  obtains rc ts' where "ts_add al ts t = Some (rc, ts')"
  by (cases rule: ts_add_inv [OF assms, of al]) auto

lemma capture_ok:
  assumes "\<And>ts. slot = Some ts \<Longrightarrow> ts_inv ts \<and> ts_arity ts = length t"
  obtains rc slot' where "capture al t slot = Some (rc, slot')"
    "\<And>ts. slot' = Some ts \<Longrightarrow> ts_inv ts \<and> ts_arity ts = length t"
proof (cases "case slot of Some ts \<Rightarrow> Some ts | None \<Rightarrow> if al ''ivmCapture'' 1 then ts_init (length t) else None")
  case None
  then show thesis using that [of "-1" slot] assms by (simp add: capture_def)
next
  case (Some ts)
  have ts: "ts_inv ts" "ts_arity ts = length t"
    using Some assms ts_init_ok [of "length t"] by (auto simp: ts_init_def split: option.splits if_splits)
  obtain rc ts' where a: "ts_add al ts t = Some (rc, ts')" by (rule ts_add_some [OF ts(1) ts(2) [symmetric], of al])
  show thesis
    by (rule that [of "if rc < 0 then -1 else 0" "Some ts'"]) (use Some a ts_added [OF ts(1) ts(2) [symmetric] a] ts(2) in \<open>auto simp: capture_def\<close>)
qed

text \<open>The entry a fixed handle points at has the arity of its relation.\<close>

definition fixed_at :: "int \<Rightarrow> nat \<Rightarrow> dl_db \<Rightarrow> bool" where
  "fixed_at k a db \<longleftrightarrow> (\<exists>e. entry_at db k = Some e \<and> re_kind e = RELK_FIXED \<and> re_arity e = a)"

lemma pend_upd:
  assumes "pend_ok db" "fixed_at k a db" "\<And>ts. slot = Some ts \<Longrightarrow> ts_inv ts \<and> ts_arity ts = a"
  shows "pend_ok (db\<lparr>db_delta_pending := (db_delta_pending db)[nat k := slot]\<rparr>)"
    "pend_ok (db\<lparr>db_del_pending := (db_del_pending db)[nat k := slot]\<rparr>)"
proof -
  have one: "ts_inv ts \<and> ts_arity ts = re_arity e"
    if "entry_at db i = Some e" "xs[nat k := slot] ! nat i = Some ts" "\<And>ts. xs ! nat i = Some ts \<Longrightarrow> ts_inv ts \<and> ts_arity ts = re_arity e" for i e ts xs
  proof (cases "nat i = nat k \<and> nat k < length xs")
    case True
    have "0 \<le> i" "0 \<le> k" using that(1) assms(2) by (auto simp: entry_at_def fixed_at_def split: if_splits)
    then have "i = k" using True by (simp add: eq_nat_nat_iff)
    then show ?thesis using assms(2,3) that(1,2) True by (auto simp: fixed_at_def)
  next
    case False
    then show ?thesis using that(2,3) by (cases "nat i = nat k") (auto simp: list_update_beyond)
  qed
  have at: "entry_at (db\<lparr>db_delta_pending := xs\<rparr>) i = entry_at db i" "entry_at (db\<lparr>db_del_pending := xs\<rparr>) i = entry_at db i" for xs i
    by (simp_all add: entry_at_def)
  have old: "ts_inv ts \<and> ts_arity ts = re_arity e"
    if "entry_at db i = Some e" "db_delta_pending db ! nat i = Some ts \<or> db_del_pending db ! nat i = Some ts" for i e ts
    using assms(1) that unfolding pend_ok_def by blast
  show "pend_ok (db\<lparr>db_delta_pending := (db_delta_pending db)[nat k := slot]\<rparr>)"
    unfolding pend_ok_def at by (auto dest: old one)
  show "pend_ok (db\<lparr>db_del_pending := (db_del_pending db)[nat k := slot]\<rparr>)"
    unfolding pend_ok_def at by (auto dest: old one)
qed

lemma holds_pend:
  assumes "holds en dir k a dk0 db0 r0 r dk db" "fixed_at k a db" "\<And>ts. slot = Some ts \<Longrightarrow> ts_inv ts \<and> ts_arity ts = a"
  shows "holds en dir k a dk0 db0 r0 r dk (db\<lparr>db_delta_pending := (db_delta_pending db)[nat k := slot]\<rparr>)"
    "holds en dir k a dk0 db0 r0 r dk (db\<lparr>db_del_pending := (db_del_pending db)[nat k := slot]\<rparr>)"
proof -
  have "pend_ok db" using assms(1) by (simp add: holds_def)
  note p = pend_upd [OF this assms(2,3)]
  show "holds en dir k a dk0 db0 r0 r dk (db\<lparr>db_delta_pending := (db_delta_pending db)[nat k := slot]\<rparr>)"
    using assms(1) p(1) by (simp add: holds_def at_rel_def vocab_ok_def marked_def)
  show "holds en dir k a dk0 db0 r0 r dk (db\<lparr>db_del_pending := (db_del_pending db)[nat k := slot]\<rparr>)"
    using assms(1) p(2) by (simp add: holds_def at_rel_def vocab_ok_def marked_def)
qed

lemma settled_pend [simp]:
  "settled en k dk0 db0 r0 r dk (db\<lparr>db_delta_pending := xs\<rparr>) = settled en k dk0 db0 r0 r dk db"
  "settled en k dk0 db0 r0 r dk (db\<lparr>db_del_pending := xs\<rparr>) = settled en k dk0 db0 r0 r dk db"
  by (simp_all add: settled_def marked_def)

lemma pend_slots:
  assumes "pend_ok db" "fixed_at k a db"
  shows "db_delta_pending db ! nat k = Some ts \<Longrightarrow> ts_inv ts \<and> ts_arity ts = a"
    "db_del_pending db ! nat k = Some ts \<Longrightarrow> ts_inv ts \<and> ts_arity ts = a"
  using assms unfolding pend_ok_def fixed_at_def by blast+

text \<open>Noting a change touches nothing but the pending sets.\<close>

lemma note_step:
  assumes "holds en dir k a dk0 db0 r0 r dk db" "settled en k dk0 db0 r0 r dk db" "fixed_at k a db" "length t = a"
  obtains db1 db2 where "note_added al k t db = Some db1" "holds en dir k a dk0 db0 r0 r dk db1" "settled en k dk0 db0 r0 r dk db1"
    "note_delete al k t db = Some db2" "holds en dir k a dk0 db0 r0 r dk db2" "settled en k dk0 db0 r0 r dk db2"
proof -
  have p: "pend_ok db" using assms(1) by (simp add: holds_def)
  note slots = pend_slots [OF p assms(3)]
  obtain rc1 s1 where c1: "capture al t (db_delta_pending db ! nat k) = Some (rc1, s1)" "\<And>ts. s1 = Some ts \<Longrightarrow> ts_inv ts \<and> ts_arity ts = length t"
    by (rule capture_ok [of "db_delta_pending db ! nat k" t al]) (use slots assms(4) in blast)+
  obtain rc2 s2 where c2: "capture al t (db_del_pending db ! nat k) = Some (rc2, s2)" "\<And>ts. s2 = Some ts \<Longrightarrow> ts_inv ts \<and> ts_arity ts = length t"
    by (rule capture_ok [of "db_del_pending db ! nat k" t al]) (use slots assms(4) in blast)+
  let ?d1 = "db\<lparr>db_delta_pending := (db_delta_pending db)[nat k := s1]\<rparr>"
  let ?d2 = "db\<lparr>db_del_pending := (db_del_pending db)[nat k := s2]\<rparr>"
  have h: "holds en dir k a dk0 db0 r0 r dk ?d1" "holds en dir k a dk0 db0 r0 r dk ?d2"
    by (rule holds_pend [OF assms(1,3)], use c1(2) assms(4) in simp)
      (rule holds_pend [OF assms(1,3)], use c2(2) assms(4) in simp)
  let ?e1 = "if ivmRelIsHead db k then db\<lparr>db_full_reeval_pending := True\<rparr> else if rc1 \<noteq> 0 then ?d1\<lparr>db_full_reeval_pending := True\<rparr> else ?d1"
  let ?e2 = "if rc2 \<noteq> 0 then ?d2\<lparr>db_full_reeval_pending := True\<rparr> else ?d2"
  show thesis
  proof (rule that [of ?e1 ?e2])
    show "note_added al k t db = Some ?e1" using c1(1) by (simp add: note_added_def note_delta_def ivmCaptureDelta_def)
    show "note_delete al k t db = Some ?e2" using c2(1) by (simp add: note_delete_def ivmCaptureDelete_def)
    show "holds en dir k a dk0 db0 r0 r dk ?e1" "holds en dir k a dk0 db0 r0 r dk ?e2"
      using assms(1) h by (simp_all only: holds_fields if_split if_True if_False simp_thms)
    show "settled en k dk0 db0 r0 r dk ?e1" "settled en k dk0 db0 r0 r dk ?e2" using assms(2) by simp_all
  qed
qed

subsection \<open>Compaction\<close>

definition base_ext :: "relation \<Rightarrow> string" where
  "base_ext r = (if rel_is_idb r then ''.base.dafsa'' else ''.dafsa'')"

lemma kept_refl: "same_relation e fs r r' \<Longrightarrow> kept e fs fs r r'"
  using same_relation_view [of e fs r r'] by (simp add: kept_def same_relation_def ov_rows_def)

lemma kept_trans: "kept e fs1 fs2 r1 r2 \<Longrightarrow> kept e fs2 fs3 r2 r3 \<Longrightarrow> kept e fs1 fs3 r1 r3"
  by (simp add: kept_def)

lemma kept_flush: "flush_spec e fs r (rc, r') \<Longrightarrow> kept e fs fs r r'"
  by (auto simp: flush_spec_def kept_def ov_rows_def)

lemma recovered_flush:
  "durable e fs p r \<Longrightarrow> flush_spec e fs r (rc, r') \<Longrightarrow> rel_ok e fs r' \<Longrightarrow> log_ok r' \<Longrightarrow> durable e fs p r'"
  using kept_flush [of e fs r rc r'] by (auto simp: durable_def recovered_def flush_spec_def kept_def log_of_def)

lemma durable_same:
  "durable e fs p r \<Longrightarrow> same_relation e fs r r' \<Longrightarrow> rel_ok e fs r' \<Longrightarrow> durable e fs p r'"
  by (auto simp: durable_def recovered_def same_relation_def log_of_def log_ok_def ov_rows_def)

lemma compact_due_ok:
  assumes "engine_ok (ev_en ev)" "dafsa_create (ev_en ev) \<noteq> None" "rel_ok (ev_en ev) (dk_files dk) r" "log_ok r"
    "compact_if_due ev dir name dk r = (dk', r')"
  shows "rel_ok (ev_en ev) (dk_files dk') r'" "log_ok r'" "kept (ev_en ev) (dk_files dk) (dk_files dk') r r'" "rel_files r' \<subseteq> rel_files r"
    "\<forall>q. q \<noteq> path_in dir name (base_ext r) \<longrightarrow> dk_files dk' q = dk_files dk q" "dk' = dk \<or> (\<exists>fs. dk' = with_files fs dk)"
    "durable (ev_en ev) (dk_files dk) (path_in dir name (base_ext r)) r \<Longrightarrow>
       durable (ev_en ev) (dk_files dk') (path_in dir name (base_ext r)) r'"
proof -
  let ?en = "ev_en ev" and ?fs = "dk_files dk" and ?p = "path_in dir name (base_ext r)"
  obtain n r1 where n: "rel_dafsa_size ?en ?fs r = (n, r1)" by fastforce
  obtain x where x: "relEnsureOwned ?en ?fs r = (True, r1)" "rel_ok ?en ?fs r1" "r_state r1 = Owned" "same_relation ?en ?fs r r1"
    by (rule ensure_owned_ok [OF assms(1-3)]) (use n in \<open>auto simp: rel_dafsa_size_def split: option.splits\<close>)
  have log1: "log_ok r1" by (rule log_ok_of [OF x(4) assms(4)])
  obtain rf r2 where r2: "rel_overlay_flush ?en ?fs r1 = (rf, r2)" "rel_ok ?en ?fs r2" "flush_spec ?en ?fs r1 (rf, r2)" "r_state r2 = Owned"
    by (rule flush_ok [OF assms(1,2) x(2)]) (use x(3) in simp)
  have log2: "log_ok r2" using r2(3) log1 by (simp add: flush_spec_def log_ok_def)
  have k1: "kept ?en ?fs ?fs r r1" and k2: "kept ?en ?fs ?fs r r2"
    using kept_refl [OF x(4)] kept_trans kept_flush [OF r2(3)] by blast+
  have f: "rel_files r1 = {}" "rel_files r2 = {}" using owned_no_files x(2,3) r2(2,4) by blast+
  have d1: "durable ?en ?fs ?p r1" and d2: "durable ?en ?fs ?p r2" if "durable ?en ?fs ?p r"
    using durable_same [OF that x(4,2)] recovered_flush [OF _ r2(3,2) log2] by blast+
  have idb: "rel_is_idb r2 = rel_is_idb r" using k2 by (simp add: kept_def)
  obtain rc r3 fs3 where c: "rel_compact ?en (ev_io ev ''compact'') (ev_al ev) ?p ?fs r2 = (rc, r3, fs3)" by (metis prod_cases3)
  note c1 = compact_keeps [OF assms(1,2) r2(2) log2 c]
  have c2: "durable ?en fs3 ?p r3" if "durable ?en ?fs ?p r"
    using compact_ok(1) [OF assms(1,2) d2 [OF that], of "ev_io ev ''compact''" "ev_al ev"] c by (simp add: compact_spec_def)
  have k3: "kept ?en ?fs fs3 r r3" using c1 k2 kept_trans by blast
  consider "dk' = dk" "r' = r1" | "dk' = dk" "r' = r2" | "dk' = with_files fs3 dk" "r' = r3"
    using assms(5) n r2(1) c idb by (auto simp: compact_if_due_def makePath_def base_ext_def Let_def split: if_splits option.splits)
  then have all: "rel_ok ?en (dk_files dk') r' \<and> log_ok r' \<and> kept ?en ?fs (dk_files dk') r r' \<and> rel_files r' = {} \<and>
    (\<forall>q. q \<noteq> ?p \<longrightarrow> dk_files dk' q = dk_files dk q) \<and> (dk' = dk \<or> (\<exists>fs. dk' = with_files fs dk)) \<and>
    (durable ?en ?fs ?p r \<longrightarrow> durable ?en (dk_files dk') ?p r')"
  proof cases
    case 1
    then show ?thesis using x(2) log1 k1 f(1) d1 by simp
  next
    case 2
    then show ?thesis using r2(2) log2 k2 f(2) d2 by simp
  next
    case 3
    have "dk_files dk' = fs3" using 3(1) by (simp add: with_files_def)
    then show ?thesis using 3 c1 c2 k3 by blast
  qed
  then show "rel_ok ?en (dk_files dk') r'" "log_ok r'" "kept ?en ?fs (dk_files dk') r r'" "rel_files r' \<subseteq> rel_files r"
    "\<forall>q. q \<noteq> ?p \<longrightarrow> dk_files dk' q = dk_files dk q" "dk' = dk \<or> (\<exists>fs. dk' = with_files fs dk)"
    "durable ?en ?fs ?p r \<Longrightarrow> durable ?en (dk_files dk') ?p r'" by blast+
qed

text \<open>The disk moves on: files get new identities only when they change.\<close>

lemma with_files_moved: "clock_ok dk \<Longrightarrow> moved_on dk (with_files fs dk)" "clock_ok dk \<Longrightarrow> clock_ok (with_files fs dk)"
  by (auto simp: moved_on_def clock_ok_def with_files_def intro: less_SucI)

lemma vocab_moved: "vocab_ok dk db \<Longrightarrow> moved_on dk dk' \<Longrightarrow> clock_ok dk' \<Longrightarrow> vocab_ok dk' db"
  unfolding vocab_ok_def using saved_ok_moved by blast

lemma frame_trans:
  "files_frame dir db k fs1 fs2 \<Longrightarrow> files_frame dir db k fs2 fs3 \<Longrightarrow> files_frame dir db k fs1 fs3"
  by (simp add: files_frame_def)

lemma holds_slot_disk:
  assumes "db_ok en (dk_files dk0) db0" "db_rel_at_arity_ro db0 k a = Some r0" "holds en dir k a dk0 db0 r0 r dk db"
    "f r = Some (x, r')" "rel_ok en (dk_files dk') r'" "r_arity r' = a" "log_ok r'" "rel_files r' \<subseteq> rel_files r"
    "moved_on dk dk'" "clock_ok dk'" "files_frame dir db0 k (dk_files dk) (dk_files dk')"
  shows "on_slot db k a f = Some (x, put_rel k a r' db)" "holds en dir k a dk0 db0 r0 r' dk' (put_rel k a r' db)"
    "rel_view en (dk_files dk') r' = rel_view en (dk_files dk) r \<Longrightarrow> settled en k dk0 db0 r0 r dk db \<Longrightarrow>
       settled en k dk0 db0 r0 r' dk' (put_rel k a r' db)"
proof -
  have at: "at_rel k a r db0 db" using assms(3) by (simp add: holds_def)
  note s = on_slot_ok [OF assms(1,2) at, of f x r', OF assms(4)]
  show "on_slot db k a f = Some (x, put_rel k a r' db)" by (rule s(1))
  have "rel_files r' \<subseteq> rel_files r0" using assms(3,8) by (auto simp: holds_def)
  moreover have "pend_ok (put_rel k a r' db)"
  proof (rule pend_arities)
    show "map_option re_arity (entry_at (put_rel k a r' db) i) = map_option re_arity (entry_at db i)" for i
      using find_put(4) [OF assms(2) s(2)] find_put(4) [OF assms(2) at] by simp
    show "pend_ok db" using assms(3) by (simp add: holds_def)
  qed simp_all
  moreover have "vocab_ok dk' db" using assms(3) vocab_moved [OF _ assms(9,10)] by (simp add: holds_def)
  moreover have "files_frame dir db0 k (dk_files dk0) (dk_files dk')"
    using assms(3) frame_trans [OF _ assms(11)] by (simp add: holds_def)
  ultimately show "holds en dir k a dk0 db0 r0 r' dk' (put_rel k a r' db)"
    using assms(3,5-7) s(2) by (simp add: holds_def)
  show "settled en k dk0 db0 r0 r' dk' (put_rel k a r' db)"
    if "rel_view en (dk_files dk') r' = rel_view en (dk_files dk) r" "settled en k dk0 db0 r0 r dk db"
    using that by (simp add: settled_def)
qed

lemma moved_refl [simp]: "moved_on dk dk"
  by (simp add: moved_on_def)

lemma compact_step:
  assumes "started ev dir k a dk0 db0 r0" "holds (ev_en ev) dir k a dk0 db0 r0 r dk db"
    "entry_at db0 k = Some e" "re_kind e = RELK_FIXED"
  obtains r' dk' db' where "compact_check ev dk k a db = Some (dk', db')" "holds (ev_en ev) dir k a dk0 db0 r0 r' dk' db'"
    "kept (ev_en ev) (dk_files dk) (dk_files dk') r r'"
    "settled (ev_en ev) k dk0 db0 r0 r dk db \<Longrightarrow> settled (ev_en ev) k dk0 db0 r0 r' dk' db'"
    "durable (ev_en ev) (dk_files dk) (path_in dir (re_name e) (base_ext r)) r \<Longrightarrow>
       durable (ev_en ev) (dk_files dk') (path_in dir (re_name e) (base_ext r)) r'"
proof -
  note s = startedD [OF assms(1)] and h = holdsD [OF assms(2)]
  let ?db1 = "db\<lparr>db_compact_checks := db_compact_checks db + 1\<rparr>"
  show thesis
  proof (cases "(db_compact_checks db + 1) mod COMPACT_CHECK_EVERY = 0")
    case False
    show ?thesis
      by (rule that [of dk ?db1 r]) (use False assms(2) in \<open>simp_all add: compact_check_def kept_def\<close>)
  next
    case True
    have h1: "holds (ev_en ev) dir k a dk0 db0 r0 r dk ?db1" using assms(2) by simp
    have at: "at_rel k a r db0 ?db1" using h1 by (simp add: holds_def)
    obtain e1 where e1: "entry_at ?db1 k = Some e1" "re_name e1 = re_name e"
      using find_put(3) [OF s(4) at, of k] assms(3) by (cases "entry_at ?db1 k") auto
    have dir: "db_dir ?db1 = Some dir" using at assms(1) by (simp add: at_rel_def started_def live_def)
    obtain dk' r' where c: "compact_if_due ev dir (re_name e) dk r = (dk', r')" by fastforce
    note ok = compact_due_ok [OF s(1,2) h(1,3) c]
    have ar: "r_arity r' = a" using ok(3) h(2) by (simp add: kept_def)
    have clock: "clock_ok dk" using assms(2) by (simp add: holds_def vocab_ok_def)
    have mv: "moved_on dk dk'" "clock_ok dk'" using ok(6) with_files_moved [OF clock] clock by auto
    have "path_in dir (re_name e) (base_ext r) \<in> own_files dir db0 k"
      using assms(3,4) by (simp add: own_files_def base_ext_def RELK_FIXED_def RELK_VARIADIC_def)
    then have fr: "files_frame dir db0 k (dk_files dk) (dk_files dk')" using ok(5) unfolding files_frame_def by metis
    define f where "f = (\<lambda>r. Some (compact_if_due ev dir (re_name e1) dk r))"
    have f: "f r = Some (dk', r')" using c e1(2) by (simp add: f_def)
    note p = holds_slot_disk [where f = f and r' = r', OF s(3,4) h1 f ok(1) ar ok(2,4) mv fr]
    have v: "rel_view (ev_en ev) (dk_files dk') r' = rel_view (ev_en ev) (dk_files dk) r" using ok(3) by (simp add: kept_def)
    have run: "compact_check ev dk k a db = Some (dk', put_rel k a r' ?db1)"
      using True p(1) e1(1) dir by (simp add: compact_check_def maybeCompact_def f_def Let_def)
    show ?thesis
      by (rule that [OF run p(2) ok(3) p(3) [OF v]]) (use ok(7) in simp_all)
  qed
qed

subsection \<open>The vocabulary\<close>

definition sys_frame :: "string \<Rightarrow> disk \<Rightarrow> disk \<Rightarrow> bool" where
  "sys_frame dir dk dk' \<longleftrightarrow> (\<forall>p. p \<notin> sys_files dir \<longrightarrow> dk_files dk' p = dk_files dk p)"

lemma sys_frame_trans: "sys_frame dir dk1 dk2 \<Longrightarrow> sys_frame dir dk2 dk3 \<Longrightarrow> sys_frame dir dk1 dk3"
  by (simp add: sys_frame_def)

lemma sys_frame_reads: "sys_frame dir dk dk' \<Longrightarrow> rel_files r \<inter> sys_files dir = {} \<Longrightarrow> \<forall>p \<in> rel_files r. dk_files dk' p = dk_files dk p"
  unfolding sys_frame_def by blast

lemma holds_sys:
  assumes "started ev dir k a dk0 db0 r0" "holds (ev_en ev) dir k a dk0 db0 r0 r dk db" "sys_frame dir dk dk'"
    "vocab_ok dk' (db\<lparr>db_ir := ir, db_terms := ts\<rparr>)"
  shows "holds (ev_en ev) dir k a dk0 db0 r0 r dk' (db\<lparr>db_ir := ir, db_terms := ts\<rparr>)"
    "settled (ev_en ev) k dk0 db0 r0 r dk db \<Longrightarrow> settled (ev_en ev) k dk0 db0 r0 r dk' (db\<lparr>db_ir := ir, db_terms := ts\<rparr>)"
    "same_rows (ev_en ev) (dk_files dk) r (dk_files dk') r" "rel_ok (ev_en ev) (dk_files dk') r"
proof -
  have "rel_files r0 \<inter> sys_files dir = {}" using assms(1) unfolding started_def live_def apart_def by blast
  then have "rel_files r \<inter> sys_files dir = {}" using assms(2) unfolding holds_def by blast
  note same = sys_frame_reads [OF assms(3) this]
  note ok = rel_ok_files [OF same, of "ev_en ev"] and v = rel_view_files [OF same, of "ev_en ev"]
  have fr: "files_frame dir db0 k (dk_files dk0) (dk_files dk')"
    using assms(2,3) by (simp add: holds_def files_frame_def sys_frame_def)
  have pend: "pend_ok (db\<lparr>db_ir := ir, db_terms := ts\<rparr>) = pend_ok db" by (simp add: pend_ok_def entry_at_def)
  show "holds (ev_en ev) dir k a dk0 db0 r0 r dk' (db\<lparr>db_ir := ir, db_terms := ts\<rparr>)"
    using assms(2,4) ok(1) fr pend by (simp add: holds_def at_rel_def marked_def)
  show "settled (ev_en ev) k dk0 db0 r0 r dk' (db\<lparr>db_ir := ir, db_terms := ts\<rparr>)" if "settled (ev_en ev) k dk0 db0 r0 r dk db"
    using that v by (simp add: settled_def marked_def)
  show "same_rows (ev_en ev) (dk_files dk) r (dk_files dk') r" using ok(2,3) by (simp add: same_rows_def)
  show "rel_ok (ev_en ev) (dk_files dk') r" using ok(1) assms(2) by (simp add: holds_def)
qed

text \<open>What saving is asked to do: write the symbols, then the cells; nothing else of the handle changes.\<close>

definition vocab_saved :: "string \<Rightarrow> disk \<Rightarrow> dl_db \<Rightarrow> int \<times> dl_db \<times> disk \<Rightarrow> bool" where
  "vocab_saved dir dk db res \<longleftrightarrow> (case res of (rc, db', dk') \<Rightarrow>
     (rc = 0 \<or> rc = -1) \<and> db' = db\<lparr>db_ir := db_ir db', db_terms := db_terms db'\<rparr> \<and> vocab_ok dk' db' \<and> sys_frame dir dk dk' \<and>
     (rc = 0 \<longrightarrow> \<not> intern_is_dirty (db_ir db') \<and> (\<forall>t. db_terms db' = Some t \<longrightarrow> \<not> term_is_dirty t)))"

lemma makePath_some: "makePath al dir name ext = Some p \<Longrightarrow> p = path_in dir name ext"
  by (simp add: makePath_def split: if_splits)

lemma save_symbols_ok:
  assumes "vocab_ok dk db" "db_dir db = Some dir" "length dir \<le> 8000"
  obtains rc ir dk' where "save_symbols ev dk db = Some (rc, db\<lparr>db_ir := ir\<rparr>, dk')" "rc = 0 \<or> rc = -1"
    "vocab_ok dk' (db\<lparr>db_ir := ir\<rparr>)" "sys_frame dir dk dk'" "rc = 0 \<Longrightarrow> \<not> intern_is_dirty ir"
proof -
  have quit: "vocab_ok dk (db\<lparr>db_ir := db_ir db\<rparr>)" "sys_frame dir dk dk" using assms(1) by (simp_all add: sys_frame_def)
  let ?path = "path_in dir ''symbols'' ''.array''"
  consider (clean) "\<not> intern_is_dirty (db_ir db)"
    | (none) "intern_is_dirty (db_ir db)" "makePath (ev_al ev) dir ''symbols'' ''.dafsa'' = None \<or> makePath (ev_al ev) dir ''symbols'' ''.array'' = None"
    | (go) fwd where "intern_is_dirty (db_ir db)" "makePath (ev_al ev) dir ''symbols'' ''.dafsa'' = Some fwd"
        "makePath (ev_al ev) dir ''symbols'' ''.array'' = Some ?path"
    using makePath_some [of "ev_al ev" dir "''symbols''" "''.array''"]
    by (cases "intern_is_dirty (db_ir db)"; cases "makePath (ev_al ev) dir ''symbols'' ''.dafsa''";
        cases "makePath (ev_al ev) dir ''symbols'' ''.array''"; simp)
  then show thesis
  proof cases
    case clean
    then show ?thesis using that [of 0 "db_ir db" dk] quit by (simp add: save_symbols_def)
  next
    case none
    then show ?thesis using that [of "-1" "db_ir db" dk] quit assms(2)
      by (auto simp: save_symbols_def split: option.splits)
  next
    case go
    have len: "length ?path \<le> 8187" using assms(3) by (simp add: path_in_def)
    obtain strs where v: "has_symbols strs (db_ir db)" "savable strs" "saved_ok (db_ir db) dk" "clock_ok dk" "ir_ok (db_ir db)"
      "\<forall>t. db_terms db = Some t \<longrightarrow> term_inv t"
      using assms(1) by (auto simp: vocab_ok_def)
    obtain rc ir' dk' where s: "intern_save (ev_al ev) (ev_io ev ''symbols.array'') ?path (db_ir db) dk = Some (rc, ir', dk')"
      "rc = 0 \<or> rc = -1" "saved_ok ir' dk'" "clock_ok dk'"
      "ir' = (db_ir db)\<lparr>ir_dirty := (if rc = 0 then False else ir_dirty (db_ir db)), ir_saved := ir_saved ir', ir_saved_seq := ir_saved_seq ir'\<rparr>"
      "\<forall>p. p \<noteq> ?path \<and> p \<noteq> tmp_name ?path \<longrightarrow> dk_files dk' p = dk_files dk p"
      using intern_save_ok [OF v(1-4) len, of "ev_al ev" "ev_io ev ''symbols.array''"] by blast
    have f: "ir_next_id ir' = ir_next_id (db_ir db)" "ir_rev ir' = ir_rev (db_ir db)" "ir_fwd_gen ir' = ir_fwd_gen (db_ir db)"
      "ir_fwd ir' = ir_fwd (db_ir db)" "rc = 0 \<Longrightarrow> \<not> ir_dirty ir'"
      by (subst s(5), simp)+
    have "has_symbols strs ir'" "ir_ok ir'" using v(1,5) f(1-4) by (simp_all add: has_symbols_def ir_ok_def)
    then have "vocab_ok dk' (db\<lparr>db_ir := ir'\<rparr>)" using v(2,6) s(3,4) by (auto simp: vocab_ok_def)
    moreover have "sys_frame dir dk dk'" using s(6) by (auto simp: sys_frame_def sys_files_def)
    moreover have "save_symbols ev dk db = Some (rc, db\<lparr>db_ir := ir'\<rparr>, dk')"
      using go s(1,2) assms(2) by (auto simp: save_symbols_def)
    ultimately show ?thesis using that s(2) f(5) by (simp add: intern_is_dirty_def)
  qed
qed

lemma save_terms_ok:
  assumes "vocab_ok dk db" "db_dir db = Some dir" "length dir \<le> 8000"
  obtains rc ts dk' where "save_terms ev dk db = Some (rc, db\<lparr>db_terms := ts\<rparr>, dk')" "rc = 0 \<or> rc = -1"
    "vocab_ok dk' (db\<lparr>db_terms := ts\<rparr>)" "sys_frame dir dk dk'" "\<And>t. rc = 0 \<Longrightarrow> ts = Some t \<Longrightarrow> \<not> term_is_dirty t"
proof -
  have quit: "vocab_ok dk (db\<lparr>db_terms := db_terms db\<rparr>)" "sys_frame dir dk dk" using assms(1) by (simp_all add: sys_frame_def)
  let ?path = "path_in dir ''terms'' ''.bin''"
  consider (clean) "\<forall>t. db_terms db = Some t \<longrightarrow> \<not> term_is_dirty t"
    | (none) t where "db_terms db = Some t" "term_is_dirty t" "makePath (ev_al ev) dir ''terms'' ''.bin'' = None"
    | (go) t where "db_terms db = Some t" "term_is_dirty t" "makePath (ev_al ev) dir ''terms'' ''.bin'' = Some ?path"
    by (metis makePath_some option.exhaust)
  then show thesis
  proof cases
    case clean
    then show ?thesis using that [of 0 "db_terms db" dk] quit by (auto simp: save_terms_def split: option.split)
  next
    case none
    then show ?thesis using that [of "-1" "db_terms db" dk] quit assms(2) by (simp add: save_terms_def)
  next
    case go
    have len: "length ?path \<le> 8187" using assms(3) by (simp add: path_in_def)
    obtain rc fs where a: "atomic_replace True (ev_io ev ''terms.bin'') (ev_al ev) ?path (term_text t) (dk_files dk) = (rc, fs)" by fastforce
    have s: "rc = 0 \<or> rc = -1" "\<forall>p. p \<noteq> ?path \<and> p \<noteq> tmp_name ?path \<longrightarrow> fs p = dk_files dk p"
      using atomic_replace_ok [OF len, of "term_text t" "dk_files dk" True "ev_io ev ''terms.bin''" "ev_al ev"] a
      by (simp_all add: atomic_spec_def)
    define t' where "t' = (if rc = 0 then t\<lparr>tn_dirty := False\<rparr> else t)"
    have clock: "clock_ok dk" and t: "term_inv t" using assms(1) go(1) by (simp_all add: vocab_ok_def)
    have t': "term_inv t'" "rc = 0 \<longrightarrow> \<not> term_is_dirty t'"
      using t by (simp_all add: t'_def term_inv_def term_is_dirty_def term_node_count_def ht_cap_def)
    have "vocab_ok (with_files fs dk) db" using vocab_moved assms(1) with_files_moved [OF clock] by blast
    then have "vocab_ok (with_files fs dk) (db\<lparr>db_terms := Some t'\<rparr>)" using t'(1) by (simp add: vocab_ok_def)
    moreover have "sys_frame dir dk (with_files fs dk)" using s(2) by (auto simp: sys_frame_def sys_files_def with_files_def)
    moreover have "save_terms ev dk db = Some (rc, db\<lparr>db_terms := Some t'\<rparr>, with_files fs dk)"
      using go a s(1) assms(2) by (auto simp: save_terms_def term_save_def t'_def)
    ultimately show ?thesis using that s(1) t'(2) by blast
  qed
qed

lemma save_vocabulary_ok:
  assumes "vocab_ok dk db" "db_dir db = Some dir" "length dir \<le> 8000"
  shows "returns (save_vocabulary ev dk db) (vocab_saved dir dk db)"
proof -
  obtain rc ir dk1 where s: "save_symbols ev dk db = Some (rc, db\<lparr>db_ir := ir\<rparr>, dk1)" "rc = 0 \<or> rc = -1"
    "vocab_ok dk1 (db\<lparr>db_ir := ir\<rparr>)" "sys_frame dir dk dk1" "rc = 0 \<Longrightarrow> \<not> intern_is_dirty ir"
    using save_symbols_ok [OF assms, of ev] by blast
  obtain rc2 ts dk2 where t: "save_terms ev dk1 (db\<lparr>db_ir := ir\<rparr>) = Some (rc2, db\<lparr>db_ir := ir, db_terms := ts\<rparr>, dk2)" "rc2 = 0 \<or> rc2 = -1"
    "vocab_ok dk2 (db\<lparr>db_ir := ir, db_terms := ts\<rparr>)" "sys_frame dir dk1 dk2" "\<And>t. rc2 = 0 \<Longrightarrow> ts = Some t \<Longrightarrow> \<not> term_is_dirty t"
    by (rule save_terms_ok [OF s(3), of dir ev]) (use assms in simp_all)
  show ?thesis
    using s t sys_frame_trans [OF s(4) t(4)] by (auto simp: save_vocabulary_def vocab_saved_def)
qed

subsection \<open>Column kinds\<close>

text \<open>Only the recorded kinds and how the rows are held changed.\<close>

definition kinds_only :: "engine \<Rightarrow> files \<Rightarrow> relation \<Rightarrow> relation \<Rightarrow> bool" where
  "kinds_only e fs r r' \<longleftrightarrow> rel_ok e fs r' \<and> same_rows e fs r fs r' \<and> r_wal r' = r_wal r \<and> rel_files r' \<subseteq> rel_files r"

lemma kinds_trans: "kinds_only e fs r1 r2 \<Longrightarrow> kinds_only e fs r2 r3 \<Longrightarrow> kinds_only e fs r1 r3"
  by (auto simp: kinds_only_def same_rows_def)

lemma kinds_upd:
  assumes "rel_ok e fs r" "length ks = MAX_ARITY"
  shows "kinds_only e fs r (r\<lparr>r_col_kind := ks\<rparr>)"
proof -
  have "rel_ok e fs (r\<lparr>r_col_kind := ks\<rparr>)"
    using assms by (cases "r_state r") (simp_all add: rel_ok_def owned_ok_def unloaded_ok_def viewOverlayClean_def wal_pending_def)
  moreover have "same_rows e fs r fs (r\<lparr>r_col_kind := ks\<rparr>)"
    by (cases "r_state r") (simp_all add: same_rows_def rel_dset_def rel_base_def base_of_def ov_rows_def log_of_def rel_is_idb_def
        split: option.split)
  ultimately show ?thesis by (simp add: kinds_only_def)
qed

lemma kinds_len: "rel_ok e fs r \<Longrightarrow> length (r_col_kind r) = MAX_ARITY"
  by (simp add: rel_ok_def)

lemma count_reads:
  assumes "engine_ok e" "dafsa_create e \<noteq> None" "rel_ok e fs r"
  obtains n r' where "rel_count e fs r = Some (n, r')" "kinds_only e fs r r'"
proof -
  obtain r1 where r1: "relEnsureReadable e fs r = (True, r1)" "rel_ok e fs r1" "r_state r1 \<noteq> Deferred" "same_relation e fs r r1"
    by (rule ensure_readable_ok [OF assms])
  obtain n where n: "rel_count e fs r = Some (n, r1)"
  proof (cases "r_state r1")
    case View
    obtain v d where "viewOf r1 False = Some v" "view_of e v d" "keyed (r_arity r1) d" "rel_dset e fs r1 = dtuples (r_arity r1) d"
      by (rule view_handle [OF assms(1) r1(2) View])
    then show ?thesis using that r1(1) View by (simp add: rel_count_def)
  qed (use that r1(1,3) in \<open>simp_all add: rel_count_def\<close>)
  have "kinds_only e fs r r1"
    using r1(2,4) same_rows_of [OF r1(4)] count_files [OF n] by (simp add: kinds_only_def same_relation_def)
  then show ?thesis using that n by blast
qed

lemma note_cols_ok:
  assumes "engine_ok e" "dafsa_create e \<noteq> None" "rel_ok e fs r"
  shows "returns (note_cols e fs ir pending i cols newly r) (\<lambda>(rc, r'). kinds_only e fs r r')"
  using assms(3)
proof (induction cols arbitrary: i newly r)
  case Nil
  then show ?case by (simp add: kinds_only_def same_rows_def)
next
  case (Cons v vs)
  note go = Cons.IH [of _ "i + 1"]
  have refl: "kinds_only e fs r r" using Cons.prems by (simp add: kinds_only_def same_rows_def)
  have tail: "returns (note_cols e fs ir pending (i + 1) vs n' r') (\<lambda>(rc, r'). kinds_only e fs r r')"
    if "kinds_only e fs r r'" for n' r'
  proof (rule returns_mono [OF go])
    show "rel_ok e fs r'" using that by (simp add: kinds_only_def)
    show "case x of (rc, r') \<Rightarrow> kinds_only e fs r r'" if "case x of (rc, r'') \<Rightarrow> kinds_only e fs r' r''" for x
      using that kinds_trans [OF \<open>kinds_only e fs r r'\<close>] by auto
  qed
  show ?case
  proof (cases "live_symbol ir v \<or> rel_col_kind r i \<noteq> 0")
    case True
    then show ?thesis using tail [OF refl] refl by auto
  next
    case False
    obtain n r1 where r1: "rel_count e fs r = Some (n, r1)" "kinds_only e fs r r1" by (rule count_reads [OF assms(1,2) Cons.prems])
    obtain rc r2 where r2: "rel_kind_note i KIND_INT r1 = (rc, r2)" by fastforce
    have r1_ok: "rel_ok e fs r1" using r1(2) by (simp add: kinds_only_def)
    have "length ((r_col_kind r1)[i := KIND_INT]) = MAX_ARITY" using kinds_len [OF r1_ok] by simp
    note upd = kinds_trans [OF r1(2) kinds_upd [OF r1_ok this]]
    have "r2 = r1 \<or> r2 = r1\<lparr>r_col_kind := (r_col_kind r1)[i := KIND_INT]\<rparr>"
      using r2 by (auto simp: rel_kind_note_def Let_def split: if_splits)
    then have "kinds_only e fs r r2" using r1(2) upd by blast
    then show ?thesis using False r1 r2 tail [of r1] tail [of r2] by (cases pending) (simp_all add: KIND_SYM_def)
  qed
qed

lemma kinds_slot:
  assumes "started ev dir k a dk0 db0 r0" "holds (ev_en ev) dir k a dk0 db0 r0 r dk db" "f r = Some (x, r')"
    "kinds_only (ev_en ev) (dk_files dk) r r'"
  shows "on_slot db k a f = Some (x, put_rel k a r' db)" "holds (ev_en ev) dir k a dk0 db0 r0 r' dk (put_rel k a r' db)"
    "settled (ev_en ev) k dk0 db0 r0 r dk db \<Longrightarrow> settled (ev_en ev) k dk0 db0 r0 r' dk (put_rel k a r' db)"
proof -
  note s = startedD [OF assms(1)] and h = holdsD [OF assms(2)]
  have k: "rel_ok (ev_en ev) (dk_files dk) r'" "r_arity r' = a" "log_ok r'" "rel_files r' \<subseteq> rel_files r"
    "rel_view (ev_en ev) (dk_files dk) r' = rel_view (ev_en ev) (dk_files dk) r"
    using assms(4) h(2,3) same_rows_view by (auto simp: kinds_only_def same_rows_def log_ok_def)
  note p = holds_slot [where f = f and r' = r', OF s(3,4) assms(2,3) k(1-4)]
  show "on_slot db k a f = Some (x, put_rel k a r' db)" "holds (ev_en ev) dir k a dk0 db0 r0 r' dk (put_rel k a r' db)"
    "settled (ev_en ev) k dk0 db0 r0 r dk db \<Longrightarrow> settled (ev_en ev) k dk0 db0 r0 r' dk (put_rel k a r' db)"
    using p(1,2) p(3) [OF k(5)] by blast+
qed

lemma restore_only: "rel_ok e fs r \<Longrightarrow> kinds_only e fs r (fold (\<lambda>i. rel_col_kind_set i (kinds ! i)) is r)"
proof (induction "is" arbitrary: r)
  case Nil
  then show ?case by (simp add: kinds_only_def same_rows_def)
next
  case (Cons i "is")
  have one: "kinds_only e fs r (rel_col_kind_set i (kinds ! i) r)"
  proof (cases "i \<ge> MAX_ARITY")
    case True
    then show ?thesis using Cons.prems by (simp add: rel_col_kind_set_def kinds_only_def same_rows_def)
  next
    case False
    have "length ((r_col_kind r)[i := kinds ! i]) = MAX_ARITY" using kinds_len [OF Cons.prems] by simp
    from kinds_upd [OF Cons.prems this] show ?thesis using False by (simp add: rel_col_kind_set_def)
  qed
  then have "rel_ok e fs (rel_col_kind_set i (kinds ! i) r)" by (simp add: kinds_only_def)
  from kinds_trans [OF one Cons.IH [OF this]] show ?case by simp
qed

lemma note_cols_live: "\<forall>v \<in> set cols. live_symbol ir v \<Longrightarrow> note_cols e fs ir pending i cols newly r = Some (newly, r)"
  by (induction cols arbitrary: i) simp_all

lemma kinds_step:
  assumes "started ev dir k a dk0 db0 r0" "holds (ev_en ev) dir k a dk0 db0 r0 r dk db" "length t = a"
  obtains rc r' db' where "note_kinds ev dk k t db = Some (rc, db')" "rc = 0 \<or> rc = -1" "holds (ev_en ev) dir k a dk0 db0 r0 r' dk db'"
    "kinds_only (ev_en ev) (dk_files dk) r r'" "db_ir db' = db_ir db" "db_terms db' = db_terms db"
    "\<forall>v \<in> set t. live_symbol (db_ir db) v \<Longrightarrow> rc = 0"
    "settled (ev_en ev) k dk0 db0 r0 r dk db \<Longrightarrow> settled (ev_en ev) k dk0 db0 r0 r' dk db'"
proof -
  note s = startedD [OF assms(1)] and h = holdsD [OF assms(2)]
  let ?f = "note_cols (ev_en ev) (dk_files dk) (db_ir db) (relHasPendingTxnAdd db k) 0 t 0"
  obtain kn r1 where n: "?f r = Some (kn, r1)" "kinds_only (ev_en ev) (dk_files dk) r r1"
    using note_cols_ok [OF s(1,2) h(1), of "db_ir db" "relHasPendingTxnAdd db k" 0 t 0] by (auto simp: returns_def)
  have quiet: "kn = 0" if "\<forall>v \<in> set t. live_symbol (db_ir db) v" using note_cols_live [OF that] n(1) by simp
  note p = kinds_slot [where f = ?f and r' = r1, OF assms(1,2) n]
  obtain b where b: "kindNoteRaw ev dk k t db = Some (kn, (put_rel k a r1 db)\<lparr>db_meta_dirty := b\<rparr>)"
  proof
    let ?new = "put_rel k a r1 db"
    show "kindNoteRaw ev dk k t db = Some (kn, ?new\<lparr>db_meta_dirty :=
        (if \<not> db_read_only db \<and> map_option r_col_kind (db_rel_at_arity_ro ?new k a) \<noteq> map_option r_col_kind (db_rel_at_arity_ro db k a)
         then True else db_meta_dirty ?new)\<rparr>)"
      using p(1) assms(3) by (simp add: kindNoteRaw_def)
  qed
  let ?db1 = "(put_rel k a r1 db)\<lparr>db_meta_dirty := b\<rparr>"
  have h1: "holds (ev_en ev) dir k a dk0 db0 r0 r1 dk ?db1" using p(2) by simp
  show thesis
  proof (cases "kn < 0 \<or> kn = 1 \<and> kindRecheckAfterLoad ev ?db1 \<noteq> 0")
    case False
    have "note_kinds ev dk k t db = Some (0, ?db1)" using b False by (auto simp: note_kinds_def)
    then show ?thesis using that h1 n(2) p(3) by simp
  next
    case True
    let ?kinds = "kinds_at k a db"
    define g where "g = (\<lambda>r. Some ((), fold (\<lambda>i. rel_col_kind_set i (?kinds ! i)) [0..<a] r))"
    let ?r2 = "fold (\<lambda>i. rel_col_kind_set i (?kinds ! i)) [0..<a] r1"
    have g: "g r1 = Some ((), ?r2)" by (simp add: g_def)
    have "rel_ok (ev_en ev) (dk_files dk) r1" using n(2) by (simp add: kinds_only_def)
    then have k2: "kinds_only (ev_en ev) (dk_files dk) r1 ?r2" by (rule restore_only)
    note q = kinds_slot [where f = g and r' = ?r2, OF assms(1) h1 g k2]
    have "restore_kinds ?kinds k a ?db1 = Some (put_rel k a ?r2 ?db1)"
      using q(1) by (simp add: restore_kinds_def g_def)
    then have "note_kinds ev dk k t db = Some (-1, put_rel k a ?r2 ?db1)"
      using b True assms(3) by (simp add: note_kinds_def)
    moreover have "\<not> (\<forall>v \<in> set t. live_symbol (db_ir db) v)" using True quiet by (metis less_irrefl zero_neq_one)
    ultimately show ?thesis
      by (intro that [of "-1" "put_rel k a ?r2 ?db1" ?r2]) (use q(2,3) p(3) kinds_trans [OF n(2) k2] in \<open>simp_all, blast?\<close>)
  qed
qed

end
