(* ===== verification/FactsCorrect.thy ===== *)
theory FactsCorrect
  imports FactsSteps
begin

text \<open>
  Adding and deleting facts, proved: the chains of calls of \<^verbatim>\<open>dl_add_fact\<close> and \<^verbatim>\<open>dl_delete_fact\<close>,
  step by step, and what they do to the database.
\<close>

subsection \<open>Where a chain of calls is\<close>

text \<open>What is asserted: the base on disk or in memory, with the overlay.\<close>

definition stored :: "engine \<Rightarrow> files \<Rightarrow> relation \<Rightarrow> tuple set" where
  "stored e fs r = rel_base e fs r \<union> ov_rows r"

definition core :: "env \<Rightarrow> string \<Rightarrow> int \<Rightarrow> nat \<Rightarrow> disk \<Rightarrow> dl_db \<Rightarrow> relation \<Rightarrow> relation \<Rightarrow> disk \<Rightarrow> dl_db \<Rightarrow> bool" where
  "core ev dir k a dk0 db0 r0 r dk db \<longleftrightarrow> started ev dir k a dk0 db0 r0 \<and> holds (ev_en ev) dir k a dk0 db0 r0 r dk db \<and>
     settled (ev_en ev) k dk0 db0 r0 r dk db \<and> kept (ev_en ev) (dk_files dk0) (dk_files dk) r0 r \<and> ov_rows r \<subseteq> ov_rows r0"

text \<open>Nothing is written yet: what was durable still is, and the overlay is empty where it was \<open>flushed\<close>.\<close>

definition still ::
  "bool \<Rightarrow> string \<Rightarrow> env \<Rightarrow> string \<Rightarrow> int \<Rightarrow> nat \<Rightarrow> disk \<Rightarrow> dl_db \<Rightarrow> relation \<Rightarrow> disk \<Rightarrow> dl_db \<Rightarrow> bool" where
  "still flushed p ev dir k a dk0 db0 r0 dk db \<longleftrightarrow> (\<exists>r. core ev dir k a dk0 db0 r0 r dk db \<and> (flushed \<longrightarrow> ov_rows r = {}) \<and>
     (durable (ev_en ev) (dk_files dk0) p r0 \<longrightarrow> durable (ev_en ev) (dk_files dk) p r))"

text \<open>The record is in the log, memory is as before: recovery would now give the content after the write.\<close>

definition logged ::
  "u8 \<Rightarrow> tuple \<Rightarrow> bool \<Rightarrow> string \<Rightarrow> env \<Rightarrow> string \<Rightarrow> int \<Rightarrow> nat \<Rightarrow> disk \<Rightarrow> dl_db \<Rightarrow> relation \<Rightarrow> disk \<Rightarrow> dl_db \<Rightarrow> bool" where
  "logged op t flushed p ev dir k a dk0 db0 r0 dk db \<longleftrightarrow> (\<exists>r. core ev dir k a dk0 db0 r0 r dk db \<and>
     (flushed \<longrightarrow> ov_rows r = {}) \<and>
     (durable (ev_en ev) (dk_files dk0) p r0 \<longrightarrow> disk_ok (ev_en ev) (dk_files dk) a (Some p) \<and>
        recovered (ev_en ev) (dk_files dk) p r =
          (if op = DAFSA_WAL_OP_ADD then insert t (stored (ev_en ev) (dk_files dk) r) else stored (ev_en ev) (dk_files dk) r - {t})))"

text \<open>The outcomes of a chain: of an addition, of a deletion.\<close>

definition wrote ::
  "(relation \<Rightarrow> files \<Rightarrow> bool) \<Rightarrow> bool \<Rightarrow> string \<Rightarrow> env \<Rightarrow> string \<Rightarrow> int \<Rightarrow> nat \<Rightarrow> disk \<Rightarrow> dl_db \<Rightarrow> relation \<Rightarrow> disk \<Rightarrow> dl_db \<Rightarrow> bool" where
  "wrote P fine p ev dir k a dk0 db0 r0 dk db \<longleftrightarrow> (\<exists>r. started ev dir k a dk0 db0 r0 \<and> holds (ev_en ev) dir k a dk0 db0 r0 r dk db \<and>
     settled (ev_en ev) k dk0 db0 r0 r dk db \<and> rel_is_idb r = rel_is_idb r0 \<and> P r (dk_files dk) \<and>
     (fine \<and> durable (ev_en ev) (dk_files dk0) p r0 \<longrightarrow> durable (ev_en ev) (dk_files dk) p r))"

definition add_outcome :: "engine \<Rightarrow> files \<Rightarrow> relation \<Rightarrow> tuple \<Rightarrow> int \<Rightarrow> relation \<Rightarrow> files \<Rightarrow> bool" where
  "add_outcome e fs0 r0 t rc r fs \<longleftrightarrow> add_result (rel_view e fs0 r0) t rc (rel_view e fs r) \<and>
     stored e fs r = (if rc = 1 then insert t (stored e fs0 r0) else stored e fs0 r0)"

definition delete_outcome :: "engine \<Rightarrow> files \<Rightarrow> relation \<Rightarrow> tuple \<Rightarrow> int \<Rightarrow> relation \<Rightarrow> files \<Rightarrow> bool" where
  "delete_outcome e fs0 r0 t rc r fs \<longleftrightarrow> rc \<in> {1, 0, -1} \<and>
     rel_view e fs r = (if rc = 1 \<and> \<not> rel_is_idb r0 then rel_view e fs0 r0 - {t} else rel_view e fs0 r0) \<and>
     stored e fs r = (if rc = 1 then stored e fs0 r0 - {t} else stored e fs0 r0) \<and>
     (rc = 1 \<longrightarrow> t \<in> rel_view e fs0 r0) \<and> (rc = 0 \<longrightarrow> t \<notin> rel_view e fs0 r0 \<or> t \<notin> stored e fs0 r0)"

lemma kept_stored: "kept e fs0 fs r0 r \<longleftrightarrow> rel_view e fs r = rel_view e fs0 r0 \<and> rel_is_idb r = rel_is_idb r0 \<and>
    r_arity r = r_arity r0 \<and> stored e fs r = stored e fs0 r0"
  by (simp add: kept_def stored_def)

lemma kept_rows: "same_rows e fs r fs' r' \<Longrightarrow> kept e fs fs' r r'"
  by (simp add: same_rows_def kept_def rel_view_def)

lemma durable_rows:
  assumes "durable e fs p r" "same_rows e fs r fs' r'" "rel_ok e fs' r'" "log_ok r'" "fs' p = fs p"
  shows "durable e fs' p r'"
proof -
  have "disk_ok e fs' a (Some p) = disk_ok e fs a (Some p)" "disk_tuples e fs' a (Some p) = disk_tuples e fs a (Some p)" for a
    using assms(5) by (simp_all add: disk_ok_def disk_tuples_def file_at_def)
  then show ?thesis using assms(1-4) by (simp add: durable_def same_rows_def recovered_def)
qed

lemma core_kept: "core ev dir k a dk0 db0 r0 r dk db \<Longrightarrow> holds (ev_en ev) dir k a dk0 db0 r0 r' dk' db' \<Longrightarrow>
    settled (ev_en ev) k dk0 db0 r0 r' dk' db' \<Longrightarrow> kept (ev_en ev) (dk_files dk) (dk_files dk') r r' \<Longrightarrow> ov_rows r' \<subseteq> ov_rows r \<Longrightarrow>
    core ev dir k a dk0 db0 r0 r' dk' db'"
  unfolding core_def using kept_trans subset_trans by blast

lemma coreD:
  assumes "core ev dir k a dk0 db0 r0 r dk db"
  shows "started ev dir k a dk0 db0 r0" "holds (ev_en ev) dir k a dk0 db0 r0 r dk db" "settled (ev_en ev) k dk0 db0 r0 r dk db"
    "kept (ev_en ev) (dk_files dk0) (dk_files dk) r0 r" "ov_rows r \<subseteq> ov_rows r0"
  using assms by (simp_all add: core_def)

subsection \<open>The calls, one by one\<close>

lemma still_start:
  assumes "started ev dir k a dk db r"
  shows "still False p ev dir k a dk db r dk db"
proof -
  have "holds (ev_en ev) dir k a dk db r r dk db" "settled (ev_en ev) k dk db r r dk db"
    using assms holds_start unfolding started_def by blast+
  then have "core ev dir k a dk db r r dk db" using assms by (simp add: core_def kept_def)
  then show ?thesis by (auto simp: still_def)
qed

lemma still_rows:
  assumes "core ev dir k a dk0 db0 r0 r dk db" "flushed \<longrightarrow> ov_rows r = {}"
    "durable (ev_en ev) (dk_files dk0) p r0 \<longrightarrow> durable (ev_en ev) (dk_files dk) p r"
    "holds (ev_en ev) dir k a dk0 db0 r0 r' dk' db'" "settled (ev_en ev) k dk0 db0 r0 r' dk' db'"
    "same_rows (ev_en ev) (dk_files dk) r (dk_files dk') r'" "dk_files dk' p = dk_files dk p"
  shows "still flushed p ev dir k a dk0 db0 r0 dk' db'"
proof -
  note h = holdsD [OF assms(4)]
  have "core ev dir k a dk0 db0 r0 r' dk' db'"
    by (rule core_kept [OF assms(1,4,5) kept_rows [OF assms(6)]]) (use assms(6) in \<open>simp add: same_rows_def\<close>)
  moreover have "flushed \<longrightarrow> ov_rows r' = {}" using assms(2,6) by (simp add: same_rows_def)
  moreover have "durable (ev_en ev) (dk_files dk0) p r0 \<longrightarrow> durable (ev_en ev) (dk_files dk') p r'"
    using assms(3) durable_rows [OF _ assms(6) h(1,3) assms(7)] by blast
  ultimately show ?thesis unfolding still_def by blast
qed

lemma still_kinds:
  assumes "still flushed p ev dir k a dk0 db0 r0 dk db" "length t = a"
  shows "returns (note_kinds ev dk k t db) (\<lambda>(rc, db'). (rc = 0 \<or> rc = -1) \<and>
    db_ir db' = db_ir db \<and> db_terms db' = db_terms db \<and> ((\<forall>v \<in> set t. live_symbol (db_ir db) v) \<longrightarrow> rc = 0) \<and>
    still flushed p ev dir k a dk0 db0 r0 dk db')"
proof -
  obtain r where r: "core ev dir k a dk0 db0 r0 r dk db" "flushed \<longrightarrow> ov_rows r = {}"
    "durable (ev_en ev) (dk_files dk0) p r0 \<longrightarrow> durable (ev_en ev) (dk_files dk) p r"
    using assms(1) unfolding still_def by blast
  note c = coreD [OF r(1)]
  obtain rc r' db' where n: "note_kinds ev dk k t db = Some (rc, db')" "rc = 0 \<or> rc = -1" "holds (ev_en ev) dir k a dk0 db0 r0 r' dk db'"
    "kinds_only (ev_en ev) (dk_files dk) r r'" "db_ir db' = db_ir db" "db_terms db' = db_terms db"
    "\<forall>v \<in> set t. live_symbol (db_ir db) v \<Longrightarrow> rc = 0" "settled (ev_en ev) k dk0 db0 r0 r dk db \<Longrightarrow> settled (ev_en ev) k dk0 db0 r0 r' dk db'"
    by (rule kinds_step [OF c(1,2) assms(2), of thesis]) blast
  have rows: "same_rows (ev_en ev) (dk_files dk) r (dk_files dk) r'" using n(4) by (simp add: kinds_only_def)
  show ?thesis using n(1,2,5,6,7) still_rows [OF r n(3) n(8) [OF c(3)] rows refl] by auto
qed

lemma still_exact:
  assumes "still flushed p ev dir k a dk0 db0 r0 dk db" "length t = a"
  shows "returns (exact_at ev dk k t db) (\<lambda>(x, db'). x = (if t \<in> rel_view (ev_en ev) (dk_files dk0) r0 then 1 else 0) \<and>
    still flushed p ev dir k a dk0 db0 r0 dk db')"
proof -
  obtain r where r: "core ev dir k a dk0 db0 r0 r dk db" "flushed \<longrightarrow> ov_rows r = {}"
    "durable (ev_en ev) (dk_files dk0) p r0 \<longrightarrow> durable (ev_en ev) (dk_files dk) p r"
    using assms(1) unfolding still_def by blast
  note c = coreD [OF r(1)]
  obtain r' db' where e: "exact_at ev dk k t db = Some (if t \<in> rel_view (ev_en ev) (dk_files dk) r then 1 else 0, db')"
    "holds (ev_en ev) dir k a dk0 db0 r0 r' dk db'" "same_rows (ev_en ev) (dk_files dk) r (dk_files dk) r'"
    "settled (ev_en ev) k dk0 db0 r0 r dk db \<Longrightarrow> settled (ev_en ev) k dk0 db0 r0 r' dk db'"
    by (rule exact_step [OF c(1,2) assms(2), of thesis]) blast
  have "rel_view (ev_en ev) (dk_files dk) r = rel_view (ev_en ev) (dk_files dk0) r0" using c(4) by (simp add: kept_def)
  then show ?thesis using e(1) still_rows [OF r e(2) e(4) [OF c(3)] e(3) refl] by simp
qed

definition vocab_clean :: "dl_db \<Rightarrow> bool" where
  "vocab_clean db \<longleftrightarrow> \<not> intern_is_dirty (db_ir db) \<and> (\<forall>t. db_terms db = Some t \<longrightarrow> \<not> term_is_dirty t)"

lemma save_clean: "vocab_clean db \<Longrightarrow> save_vocabulary ev dk db = Some (0, db, dk)"
  by (auto simp: vocab_clean_def save_vocabulary_def save_symbols_def save_terms_def split: option.split)

lemma still_vocab:
  assumes "still flushed p ev dir k a dk0 db0 r0 dk db" "p \<notin> sys_files dir"
  shows "returns (save_vocabulary ev dk db) (\<lambda>(rc, db', dk'). (vocab_clean db \<longrightarrow> rc = 0) \<and> still flushed p ev dir k a dk0 db0 r0 dk' db')"
proof -
  obtain r where r: "core ev dir k a dk0 db0 r0 r dk db" "flushed \<longrightarrow> ov_rows r = {}"
    "durable (ev_en ev) (dk_files dk0) p r0 \<longrightarrow> durable (ev_en ev) (dk_files dk) p r"
    using assms(1) unfolding still_def by blast
  note c = coreD [OF r(1)]
  have "vocab_ok dk db" "db_dir db = Some dir" "length dir \<le> 8000"
    using c(1,2) by (simp_all add: holds_def started_def live_def at_rel_def)
  from save_vocabulary_ok [OF this, of ev] obtain rc db' dk' where v: "save_vocabulary ev dk db = Some (rc, db', dk')"
    "vocab_saved dir dk db (rc, db', dk')" by (auto simp: returns_def)
  obtain ir ts where u: "db' = db\<lparr>db_ir := ir, db_terms := ts\<rparr>" "vocab_ok dk' db'" "sys_frame dir dk dk'"
    using v(2) by (auto simp: vocab_saved_def)
  note hs = holds_sys [OF c(1,2) u(3) u(2) [unfolded u(1)]]
  have "dk_files dk' p = dk_files dk p" using u(3) assms(2) by (simp add: sys_frame_def)
  from still_rows [OF r hs(1) hs(2) [OF c(3)] hs(3) this] show ?thesis using v(1) u(1) save_clean [of db ev dk] by auto
qed

lemma flush_rows: "flush_spec e fs r (rc, r') \<Longrightarrow> ov_rows r' \<subseteq> ov_rows r"
  by (cases "rc = 0") (auto simp: flush_spec_def ov_rows_def)

lemma still_flush:
  assumes "still f p ev dir k a dk0 db0 r0 dk db"
  shows "returns (flush_at ev dk k a db) (\<lambda>(rf, db'). (all_goes_well ev \<longrightarrow> rf = 0) \<and> still (rf = 0) p ev dir k a dk0 db0 r0 dk db')"
proof -
  obtain r where r: "core ev dir k a dk0 db0 r0 r dk db"
    "durable (ev_en ev) (dk_files dk0) p r0 \<longrightarrow> durable (ev_en ev) (dk_files dk) p r"
    using assms(1) unfolding still_def by blast
  note c = coreD [OF r(1)]
  obtain rf r' db' where f: "flush_at ev dk k a db = Some (rf, db')" "holds (ev_en ev) dir k a dk0 db0 r0 r' dk db'"
    "flush_spec (ev_en ev) (dk_files dk) r (rf, r')" "adds_succeed (ev_en ev) \<Longrightarrow> rf = 0" "settled (ev_en ev) k dk0 db0 r0 r dk db \<Longrightarrow> settled (ev_en ev) k dk0 db0 r0 r' dk db'"
    by (rule flush_step [OF c(1,2), of thesis]) blast
  note h = holdsD [OF f(2)]
  have "core ev dir k a dk0 db0 r0 r' dk db'" by (rule core_kept [OF r(1) f(2) f(5) [OF c(3)] kept_flush [OF f(3)] flush_rows [OF f(3)]])
  moreover have "rf = 0 \<longrightarrow> ov_rows r' = {}" using f(3) by (simp add: flush_spec_def)
  moreover have "durable (ev_en ev) (dk_files dk0) p r0 \<longrightarrow> durable (ev_en ev) (dk_files dk) p r'"
    using r(2) recovered_flush [OF _ f(3) h(1,3)] by blast
  ultimately show ?thesis using f(1,4) unfolding still_def all_goes_well_def by auto
qed

lemma still_log:
  assumes "still flushed p ev dir k a dk0 db0 r0 dk db" "length t = a" "op = DAFSA_WAL_OP_ADD \<or> op = DAFSA_WAL_OP_DEL"
  shows "returns (log_at op ev dk k t db) (\<lambda>(rw, db'). (rw = 0 \<or> rw = -1) \<and> (all_goes_well ev \<longrightarrow> rw = 0) \<and>
    (if rw = 0 then logged op t flushed p ev dir k a dk0 db0 r0 dk db' else \<exists>r. core ev dir k a dk0 db0 r0 r dk db'))"
proof -
  obtain r where r: "core ev dir k a dk0 db0 r0 r dk db" "flushed \<longrightarrow> ov_rows r = {}"
    "durable (ev_en ev) (dk_files dk0) p r0 \<longrightarrow> durable (ev_en ev) (dk_files dk) p r"
    using assms(1) unfolding still_def by blast
  note c = coreD [OF r(1)]
  obtain rw r' db' where l: "log_at op ev dk k t db = Some (rw, db')" "holds (ev_en ev) dir k a dk0 db0 r0 r' dk db'"
    "rw = 0 \<or> rw = -1" "rel_dset (ev_en ev) (dk_files dk) r' = rel_dset (ev_en ev) (dk_files dk) r"
    "rel_base (ev_en ev) (dk_files dk) r' = rel_base (ev_en ev) (dk_files dk) r" "ov_rows r' = ov_rows r"
    "rel_is_idb r' = rel_is_idb r" "log_of r' = (if rw = 0 then log_of r @ [(op, encodeKey t)] else log_of r)"
    "all_goes_well ev \<Longrightarrow> rw = 0" "settled (ev_en ev) k dk0 db0 r0 r dk db \<Longrightarrow> settled (ev_en ev) k dk0 db0 r0 r' dk db'"
    by (rule log_step [OF c(1,2) assms(2,3), of thesis]) blast
  have ar: "r_arity r = a" "r_arity r' = a" using holdsD(2) c(2) l(2) by blast+
  have "kept (ev_en ev) (dk_files dk) (dk_files dk) r r'" using l(4-7) ar by (simp add: kept_def rel_view_def)
  then have core: "core ev dir k a dk0 db0 r0 r' dk db'" by (rule core_kept [OF r(1) l(2) l(10) [OF c(3)]]) (simp add: l(6))
  have "disk_ok (ev_en ev) (dk_files dk) a (Some p) \<and> recovered (ev_en ev) (dk_files dk) p r' =
      (if op = DAFSA_WAL_OP_ADD then insert t (stored (ev_en ev) (dk_files dk) r') else stored (ev_en ev) (dk_files dk) r' - {t})"
    if "rw = 0" "durable (ev_en ev) (dk_files dk) p r"
  proof -
    have "recovered (ev_en ev) (dk_files dk) p r = stored (ev_en ev) (dk_files dk) r'"
      using that(2) l(5,6) by (simp add: durable_def stored_def)
    then show ?thesis
      using that l(8) assms(2,3) ar replay_rows_snoc [OF assms(2), of "log_of r"] wal_ops by (auto simp: recovered_def durable_def)
  qed
  then have "logged op t flushed p ev dir k a dk0 db0 r0 dk db'" if "rw = 0"
    using core r(2,3) l(6) that unfolding logged_def by auto
  then show ?thesis using l(1,3,9) core by auto
qed

lemma core_wrote:
  assumes "core ev dir k a dk0 db0 r0 r dk db" "\<not> fine"
  shows "t \<notin> rel_view (ev_en ev) (dk_files dk0) r0 \<Longrightarrow> wrote (add_outcome (ev_en ev) (dk_files dk0) r0 t (-1)) fine p ev dir k a dk0 db0 r0 dk db"
    "wrote (delete_outcome (ev_en ev) (dk_files dk0) r0 t (-1)) fine p ev dir k a dk0 db0 r0 dk db"
  using assms unfolding wrote_def core_def add_outcome_def delete_outcome_def add_result_def kept_stored by auto

text \<open>The overlay write after the log record, and the mark on the indices.\<close>

lemma logged_overlay:
  assumes "logged DAFSA_WAL_OP_ADD t flushed p ev dir k a dk0 db0 r0 dk db" "length t = a" "t \<notin> rel_view (ev_en ev) (dk_files dk0) r0"
  shows "returns (overlay_at ev dk k t db) (\<lambda>(rc, db'). (rc = 1 \<or> rc = -1) \<and>
    (all_goes_well ev \<and> card (ov_rows r0) < 2 ^ 29 \<longrightarrow> rc = 1) \<and>
    (if rc = 1 then wrote (add_outcome (ev_en ev) (dk_files dk0) r0 t 1) True p ev dir k a dk0 db0 r0 dk (permindex_mark_dirty db' k)
     else wrote (add_outcome (ev_en ev) (dk_files dk0) r0 t (-1)) False p ev dir k a dk0 db0 r0 dk db'))"
proof -
  let ?en = "ev_en ev" and ?fs = "dk_files dk"
  obtain r where r: "core ev dir k a dk0 db0 r0 r dk db"
    "durable ?en (dk_files dk0) p r0 \<longrightarrow> disk_ok ?en ?fs a (Some p) \<and> recovered ?en ?fs p r = insert t (stored ?en ?fs r)"
    using assms(1) unfolding logged_def by auto
  note c = coreD [OF r(1)]
  obtain rc r' db' where o: "overlay_at ev dk k t db = Some (rc, db')" "holds ?en dir k a dk0 db0 r0 r' dk db'"
    "add_result (rel_view ?en ?fs r) t rc (rel_view ?en ?fs r')" "rel_base ?en ?fs r' = rel_base ?en ?fs r" "rel_is_idb r' = rel_is_idb r"
    "r_wal r' = r_wal r" "ov_rows r' = (if rc = 1 then insert t (ov_rows r) else ov_rows r)"
    "generous (ev_al ev) \<and> rel_overlay_count r < 2 ^ 29 \<Longrightarrow> rc \<noteq> -1" "rc \<noteq> 1 \<Longrightarrow> settled ?en k dk0 db0 r0 r dk db \<Longrightarrow> settled ?en k dk0 db0 r0 r' dk db'"
    by (rule overlay_step [OF c(1,2) assms(2), of thesis]) blast
  have v: "rel_view ?en ?fs r = rel_view ?en (dk_files dk0) r0" "stored ?en ?fs r = stored ?en (dk_files dk0) r0" "rel_is_idb r = rel_is_idb r0"
    using c(4) by (simp_all add: kept_stored)
  have rc: "rc = 1 \<or> rc = -1" using o(3) assms(3) v(1) by (auto simp: add_result_def)
  have "card (ov_rows r) \<le> card (ov_rows r0)"
    by (rule card_mono [OF _ c(5)]) (simp add: ov_rows_def ts_rows_def split: option.split)
  then have fine: "rc = 1" if "all_goes_well ev \<and> card (ov_rows r0) < 2 ^ 29"
    using o(8) that rc overlay_size [OF holdsD(1) [OF c(2)]] by (auto simp: all_goes_well_def)
  have st: "stored ?en ?fs r' = (if rc = 1 then insert t (stored ?en (dk_files dk0) r0) else stored ?en (dk_files dk0) r0)"
    using o(4,7) v(2) by (auto simp: stored_def)
  have out: "add_outcome ?en (dk_files dk0) r0 t rc r' ?fs" using o(3) st v(1) by (simp add: add_outcome_def)
  show ?thesis
  proof (cases "rc = 1")
    case True
    have "durable ?en ?fs p r'" if "durable ?en (dk_files dk0) p r0"
      using r(2) that o(6) st v(2) True holdsD [OF o(2)] holdsD(2) [OF c(2)]
      by (simp add: durable_def recovered_def log_of_def stored_def)
    then have "wrote (add_outcome ?en (dk_files dk0) r0 t 1) True p ev dir k a dk0 db0 r0 dk (permindex_mark_dirty db' k)"
      using c(1) holds_mark [OF o(2)] out o(5) v(3) True unfolding wrote_def by auto
    then show ?thesis using o(1) True by simp
  next
    case False
    then have "wrote (add_outcome ?en (dk_files dk0) r0 t (-1)) False p ev dir k a dk0 db0 r0 dk db'"
      using c(1) o(2) o(9) [OF _ c(3)] out o(5) v(3) rc unfolding wrote_def by auto
    then show ?thesis using o(1) False rc fine by auto
  qed
qed

lemma logged_delete:
  assumes "logged DAFSA_WAL_OP_DEL t True p ev dir k a dk0 db0 r0 dk db" "length t = a" "t \<in> rel_view (ev_en ev) (dk_files dk0) r0"
  shows "returns (delete_at ev dk k t db) (\<lambda>(rc, db'). (rc = 1 \<or> rc = 0 \<or> rc = -1) \<and> (all_goes_well ev \<longrightarrow> rc \<noteq> -1) \<and>
    (rc = 1 \<longrightarrow> wrote (delete_outcome (ev_en ev) (dk_files dk0) r0 t 1) True p ev dir k a dk0 db0 r0 dk (permindex_mark_dirty db' k)) \<and>
    (rc = 0 \<longrightarrow> wrote (delete_outcome (ev_en ev) (dk_files dk0) r0 t 0) True p ev dir k a dk0 db0 r0 dk db' \<and>
       t \<notin> stored (ev_en ev) (dk_files dk0) r0) \<and>
    (rc = -1 \<longrightarrow> wrote (delete_outcome (ev_en ev) (dk_files dk0) r0 t (-1)) False p ev dir k a dk0 db0 r0 dk db'))"
proof -
  let ?en = "ev_en ev" and ?fs = "dk_files dk"
  obtain r where r: "core ev dir k a dk0 db0 r0 r dk db" "ov_rows r = {}"
    "durable ?en (dk_files dk0) p r0 \<longrightarrow> disk_ok ?en ?fs a (Some p) \<and> recovered ?en ?fs p r = stored ?en ?fs r - {t}"
    using assms(1) wal_ops unfolding logged_def by auto
  note c = coreD [OF r(1)]
  obtain rc r' db' where d: "delete_at ev dk k t db = Some (rc, db')" "holds ?en dir k a dk0 db0 r0 r' dk db'"
    "base_write_spec (\<lambda>V. delete_result V t) ?en ?fs r (rc, r')"
    "all_goes_well ev \<Longrightarrow> rc \<noteq> -1" "rc \<noteq> 1 \<Longrightarrow> settled ?en k dk0 db0 r0 r dk db \<Longrightarrow> settled ?en k dk0 db0 r0 r' dk db'"
    by (rule delete_step [OF c(1,2) assms(2), of thesis]) blast
  have v: "rel_view ?en ?fs r = rel_view ?en (dk_files dk0) r0" "stored ?en ?fs r = stored ?en (dk_files dk0) r0" "rel_is_idb r = rel_is_idb r0"
    using c(4) by (simp_all add: kept_stored)
  have b: "delete_result (rel_base ?en ?fs r) t rc (rel_base ?en ?fs r')" "ov_rows r' = {}" "rel_is_idb r' = rel_is_idb r0"
    "rel_dset ?en ?fs r' = (if rel_is_idb r0 then rel_dset ?en ?fs r else rel_base ?en ?fs r')"
    using d(3) r(2) v(3) by (simp_all add: base_write_spec_def write_frame_def ov_rows_def)
  have rows: "rel_view ?en ?fs r = rel_dset ?en ?fs r" "rel_view ?en ?fs r' = rel_dset ?en ?fs r'" "stored ?en ?fs r = rel_base ?en ?fs r"
    "stored ?en ?fs r' = rel_base ?en ?fs r'"
    using r(2) b(2) by (simp_all add: rel_view_def stored_def)
  have edb: "rel_base ?en ?fs r = rel_dset ?en ?fs r" if "\<not> rel_is_idb r0"
    using edb_same holdsD(1) [OF c(2)] v(3) that by blast
  have rc: "rc = 1 \<or> rc = 0 \<or> rc = -1" using b(1) by (auto simp: delete_result_def)
  have out: "delete_outcome ?en (dk_files dk0) r0 t rc r' ?fs"
    unfolding delete_outcome_def v(1) [symmetric] v(2) [symmetric] rows using b(1,4) edb assms(3) rc unfolding v(1) [symmetric] rows delete_result_def
    by auto
  have dur: "durable ?en ?fs p r'" if "rc \<noteq> -1" "durable ?en (dk_files dk0) p r0"
  proof -
    have "rel_base ?en ?fs r' = rel_base ?en ?fs r - {t}" "r_wal r' = r_wal r"
      using b(1) d(3) that(1) by (auto simp: delete_result_def base_write_spec_def write_frame_def)
    then show ?thesis
      using r(3) that(2) rows(3) b(2) holdsD [OF d(2)] holdsD(2) [OF c(2)] by (simp add: durable_def recovered_def log_of_def)
  qed
  have "wrote (delete_outcome ?en (dk_files dk0) r0 t 1) True p ev dir k a dk0 db0 r0 dk (permindex_mark_dirty db' k)" if "rc = 1"
    using c(1) holds_mark [OF d(2)] out dur b(3) that unfolding wrote_def by auto
  moreover have "wrote (delete_outcome ?en (dk_files dk0) r0 t rc) (rc \<noteq> -1) p ev dir k a dk0 db0 r0 dk db'" if "rc \<noteq> 1"
    using c(1) d(2) d(5) [OF that c(3)] out dur b(3) unfolding wrote_def by blast
  moreover have "t \<notin> stored ?en (dk_files dk0) r0" if "rc = 0"
    using b(1) that rows(3) v(2) by (auto simp: delete_result_def)
  ultimately show ?thesis using d(1,4) rc by auto
qed

lemma wrote_fields [simp]:
  "wrote P fine p ev dir k a dk0 db0 r0 dk (db\<lparr>db_fixpoint_dirty := b\<rparr>) = wrote P fine p ev dir k a dk0 db0 r0 dk db"
  "wrote P fine p ev dir k a dk0 db0 r0 dk (db\<lparr>db_full_reeval_pending := b\<rparr>) = wrote P fine p ev dir k a dk0 db0 r0 dk db"
  by (simp_all add: wrote_def)

text \<open>Fixed relations: noting the change, and the look at the size of the log.\<close>

lemma fixed_now:
  assumes "started ev dir k a dk0 db0 r0" "holds en dir k a dk0 db0 r0 r dk db" "fixed_at k a db0"
  shows "fixed_at k a db"
proof -
  have at: "at_rel k a r db0 db" using assms(2) by (simp add: holds_def)
  note f = find_put(2,4) [OF startedD(4) [OF assms(1)] at, of k]
  show ?thesis using assms(3) f unfolding fixed_at_def by (cases "entry_at db k") auto
qed

lemma wrote_note:
  assumes "wrote P fine p ev dir k a dk0 db0 r0 dk db" "fixed_at k a db0" "length t = a"
  obtains db1 db2 where "note_added al k t db = Some db1" "wrote P fine p ev dir k a dk0 db0 r0 dk db1"
    "note_delete al k t db = Some db2" "wrote P fine p ev dir k a dk0 db0 r0 dk db2"
proof -
  obtain r where r: "started ev dir k a dk0 db0 r0" "holds (ev_en ev) dir k a dk0 db0 r0 r dk db" "settled (ev_en ev) k dk0 db0 r0 r dk db"
    "rel_is_idb r = rel_is_idb r0" "P r (dk_files dk)" "fine \<and> durable (ev_en ev) (dk_files dk0) p r0 \<longrightarrow> durable (ev_en ev) (dk_files dk) p r"
    using assms(1) unfolding wrote_def by blast
  obtain db1 db2 where n: "note_added al k t db = Some db1" "holds (ev_en ev) dir k a dk0 db0 r0 r dk db1" "settled (ev_en ev) k dk0 db0 r0 r dk db1"
    "note_delete al k t db = Some db2" "holds (ev_en ev) dir k a dk0 db0 r0 r dk db2" "settled (ev_en ev) k dk0 db0 r0 r dk db2"
    by (rule note_step [OF r(2,3) fixed_now [OF r(1,2) assms(2)] assms(3), of al thesis]) blast
  show thesis by (rule that [OF n(1) _ n(4)]) (use r(1,4-6) n(2,3,5,6) in \<open>auto simp: wrote_def\<close>)
qed

lemma wrote_compact:
  assumes "wrote P fine p ev dir k a dk0 db0 r0 dk db" "entry_at db0 k = Some e" "re_kind e = RELK_FIXED"
    "p = path_in dir (re_name e) (base_ext r0)" "\<And>r r' fs fs'. kept (ev_en ev) fs fs' r r' \<Longrightarrow> P r fs \<Longrightarrow> P r' fs'"
  shows "returns (compact_check ev dk k a db) (\<lambda>(dk', db'). wrote P fine p ev dir k a dk0 db0 r0 dk' db')"
proof -
  obtain r where r: "started ev dir k a dk0 db0 r0" "holds (ev_en ev) dir k a dk0 db0 r0 r dk db" "settled (ev_en ev) k dk0 db0 r0 r dk db"
    "rel_is_idb r = rel_is_idb r0" "P r (dk_files dk)" "fine \<and> durable (ev_en ev) (dk_files dk0) p r0 \<longrightarrow> durable (ev_en ev) (dk_files dk) p r"
    using assms(1) unfolding wrote_def by blast
  obtain r' dk' db' where c: "compact_check ev dk k a db = Some (dk', db')" "holds (ev_en ev) dir k a dk0 db0 r0 r' dk' db'"
    "kept (ev_en ev) (dk_files dk) (dk_files dk') r r'"
    "settled (ev_en ev) k dk0 db0 r0 r dk db \<Longrightarrow> settled (ev_en ev) k dk0 db0 r0 r' dk' db'"
    "durable (ev_en ev) (dk_files dk) (path_in dir (re_name e) (base_ext r)) r \<Longrightarrow>
       durable (ev_en ev) (dk_files dk') (path_in dir (re_name e) (base_ext r)) r'"
    by (rule compact_step [OF r(1,2) assms(2,3), of thesis]) blast
  have "base_ext r = base_ext r0" using r(4) by (simp add: base_ext_def)
  then have "wrote P fine p ev dir k a dk0 db0 r0 dk' db'"
    using r(1,4,6) c(2,3) c(4) [OF r(3)] c(5) assms(4) assms(5) [OF c(3) r(5)] unfolding wrote_def by (auto simp: kept_def)
  then show ?thesis using c(1) by simp
qed

subsection \<open>The chains\<close>

definition add_done :: "bool \<Rightarrow> tuple \<Rightarrow> string \<Rightarrow> env \<Rightarrow> string \<Rightarrow> int \<Rightarrow> nat \<Rightarrow> disk \<Rightarrow> dl_db \<Rightarrow> relation \<Rightarrow> int \<times> dl_db \<times> disk \<Rightarrow> bool" where
  "add_done well t p ev dir k a dk0 db0 r0 res \<longleftrightarrow> (case res of (rc, db, dk) \<Rightarrow>
     wrote (add_outcome (ev_en ev) (dk_files dk0) r0 t rc) (rc \<noteq> -1) p ev dir k a dk0 db0 r0 dk db \<and> (well \<longrightarrow> rc \<noteq> -1))"

definition delete_done :: "bool \<Rightarrow> tuple \<Rightarrow> string \<Rightarrow> env \<Rightarrow> string \<Rightarrow> int \<Rightarrow> nat \<Rightarrow> disk \<Rightarrow> dl_db \<Rightarrow> relation \<Rightarrow> int \<times> dl_db \<times> disk \<Rightarrow> bool" where
  "delete_done well t p ev dir k a dk0 db0 r0 res \<longleftrightarrow> (case res of (rc, db, dk) \<Rightarrow>
     wrote (delete_outcome (ev_en ev) (dk_files dk0) r0 t rc) (rc \<noteq> -1) p ev dir k a dk0 db0 r0 dk db \<and> (well \<longrightarrow> rc \<noteq> -1))"

lemma still_wrote:
  assumes "still f p ev dir k a dk0 db0 r0 dk db"
  shows "t \<in> rel_view (ev_en ev) (dk_files dk0) r0 \<Longrightarrow> wrote (add_outcome (ev_en ev) (dk_files dk0) r0 t 0) True p ev dir k a dk0 db0 r0 dk db"
    "wrote (add_outcome (ev_en ev) (dk_files dk0) r0 t (-1)) fine p ev dir k a dk0 db0 r0 dk db"
    "t \<notin> rel_view (ev_en ev) (dk_files dk0) r0 \<Longrightarrow> wrote (delete_outcome (ev_en ev) (dk_files dk0) r0 t 0) True p ev dir k a dk0 db0 r0 dk db"
    "wrote (delete_outcome (ev_en ev) (dk_files dk0) r0 t (-1)) fine p ev dir k a dk0 db0 r0 dk db"
  using assms unfolding still_def wrote_def core_def add_outcome_def delete_outcome_def add_result_def kept_stored by auto

lemma add_chain:
  assumes "well \<longrightarrow> all_goes_well ev \<and> card (ov_rows r0) < 2 ^ 29" "still False p ev dir k a dk0 db0 r0 dk db" "length t = a"
    "\<And>db4. logged DAFSA_WAL_OP_ADD t False p ev dir k a dk0 db0 r0 dk db4 \<Longrightarrow> t \<notin> rel_view (ev_en ev) (dk_files dk0) r0 \<Longrightarrow>
       returns (K db4) (add_done well t p ev dir k a dk0 db0 r0)"
  shows "returns (do { (found, db3) \<leftarrow> exact_at ev dk k t db;
      if found \<noteq> 0 then Some (0, db3, dk)
      else do { (rw, db4) \<leftarrow> log_at DAFSA_WAL_OP_ADD ev dk k t db3; if rw \<noteq> 0 then Some (-1, db4, dk) else K db4 } })
    (add_done well t p ev dir k a dk0 db0 r0)"
proof (rule returns_bind [OF still_exact [OF assms(2,3)]], clarify)
  fix db3 assume st: "still False p ev dir k a dk0 db0 r0 dk db3"
  show "returns (if (if t \<in> rel_view (ev_en ev) (dk_files dk0) r0 then 1 else 0) \<noteq> (0::int) then Some (0, db3, dk)
      else log_at DAFSA_WAL_OP_ADD ev dk k t db3 \<bind> (\<lambda>(rw, db4). if rw \<noteq> 0 then Some (-1, db4, dk) else K db4))
    (add_done well t p ev dir k a dk0 db0 r0)"
  proof (cases "t \<in> rel_view (ev_en ev) (dk_files dk0) r0")
    case True
    then show ?thesis using still_wrote(1) [OF st] by (simp add: add_done_def)
  next
    case False
    have "returns (log_at DAFSA_WAL_OP_ADD ev dk k t db3 \<bind> (\<lambda>(rw, db4). if rw \<noteq> 0 then Some (-1, db4, dk) else K db4))
      (add_done well t p ev dir k a dk0 db0 r0)"
    proof (rule returns_bind [OF still_log [OF st assms(3)]], simp, clarify)
      fix rw db4 assume l: "rw = 0 \<or> rw = (-1::int)" "all_goes_well ev \<longrightarrow> rw = 0" "if rw = 0 then logged DAFSA_WAL_OP_ADD t False p ev dir k a dk0 db0 r0 dk db4
        else \<exists>r. core ev dir k a dk0 db0 r0 r dk db4"
      show "returns (if rw \<noteq> 0 then Some (-1, db4, dk) else K db4) (add_done well t p ev dir k a dk0 db0 r0)"
        using l assms(1) assms(4) [OF _ False] core_wrote(1) [where fine = False, OF _ _ False] by (auto simp: add_done_def)
    qed
    then show ?thesis using False by simp
  qed
qed

lemma delete_chain:
  assumes "well \<longrightarrow> all_goes_well ev" "still False p ev dir k a dk0 db0 r0 dk db" "length t = a"
    "\<And>db4. logged DAFSA_WAL_OP_DEL t True p ev dir k a dk0 db0 r0 dk db4 \<Longrightarrow> t \<in> rel_view (ev_en ev) (dk_files dk0) r0 \<Longrightarrow>
       returns (K db4) (delete_done well t p ev dir k a dk0 db0 r0)"
  shows "returns (do { (found, db2) \<leftarrow> exact_at ev dk k t db;
      if found = 0 then Some (0, db2, dk)
      else do { (rf, db3) \<leftarrow> flush_at ev dk k a db2;
        if rf \<noteq> 0 then Some (-1, db3, dk)
        else do { (rw, db4) \<leftarrow> log_at DAFSA_WAL_OP_DEL ev dk k t db3; if rw \<noteq> 0 then Some (-1, db4, dk) else K db4 } } })
    (delete_done well t p ev dir k a dk0 db0 r0)"
proof (rule returns_bind [OF still_exact [OF assms(2,3)]], clarify)
  fix db2 assume st: "still False p ev dir k a dk0 db0 r0 dk db2"
  show "returns (if (if t \<in> rel_view (ev_en ev) (dk_files dk0) r0 then 1 else 0) = (0::int) then Some (0, db2, dk)
      else flush_at ev dk k a db2 \<bind> (\<lambda>(rf, db3). if rf \<noteq> 0 then Some (-1, db3, dk)
        else log_at DAFSA_WAL_OP_DEL ev dk k t db3 \<bind> (\<lambda>(rw, db4). if rw \<noteq> 0 then Some (-1, db4, dk) else K db4)))
    (delete_done well t p ev dir k a dk0 db0 r0)"
  proof (cases "t \<in> rel_view (ev_en ev) (dk_files dk0) r0")
    case False
    then show ?thesis using still_wrote(3) [OF st] by (simp add: delete_done_def)
  next
    case True
    have "returns (flush_at ev dk k a db2 \<bind> (\<lambda>(rf, db3). if rf \<noteq> 0 then Some (-1, db3, dk)
        else log_at DAFSA_WAL_OP_DEL ev dk k t db3 \<bind> (\<lambda>(rw, db4). if rw \<noteq> 0 then Some (-1, db4, dk) else K db4)))
      (delete_done well t p ev dir k a dk0 db0 r0)"
    proof (rule returns_bind [OF still_flush [OF st]], clarify)
      fix rf db3 assume wf: "all_goes_well ev \<longrightarrow> rf = 0" and fl: "still (rf = 0) p ev dir k a dk0 db0 r0 dk db3"
      show "returns (if rf \<noteq> 0 then Some (-1, db3, dk)
          else log_at DAFSA_WAL_OP_DEL ev dk k t db3 \<bind> (\<lambda>(rw, db4). if rw \<noteq> 0 then Some (-1, db4, dk) else K db4))
        (delete_done well t p ev dir k a dk0 db0 r0)"
      proof (cases "rf = 0")
        case False
        then show ?thesis using still_wrote(4) [OF fl] wf assms(1) by (simp add: delete_done_def)
      next
        case rf: True
        then have fl: "still True p ev dir k a dk0 db0 r0 dk db3" using fl by simp
        have "returns (log_at DAFSA_WAL_OP_DEL ev dk k t db3 \<bind> (\<lambda>(rw, db4). if rw \<noteq> 0 then Some (-1, db4, dk) else K db4))
          (delete_done well t p ev dir k a dk0 db0 r0)"
        proof (rule returns_bind [OF still_log [OF fl assms(3)]], simp, clarify)
          fix rw db4 assume l: "rw = 0 \<or> rw = (-1::int)" "all_goes_well ev \<longrightarrow> rw = 0" "if rw = 0 then logged DAFSA_WAL_OP_DEL t True p ev dir k a dk0 db0 r0 dk db4
            else \<exists>r. core ev dir k a dk0 db0 r0 r dk db4"
          show "returns (if rw \<noteq> 0 then Some (-1, db4, dk) else K db4) (delete_done well t p ev dir k a dk0 db0 r0)"
            using l assms(1) assms(4) [OF _ True] core_wrote(2) [where fine = False] by (auto simp: delete_done_def)
        qed
        then show ?thesis using rf by simp
      qed
    qed
    then show ?thesis using True by simp
  qed
qed

lemma add_apply:
  assumes "well \<longrightarrow> all_goes_well ev \<and> card (ov_rows r0) < 2 ^ 29"
    "logged DAFSA_WAL_OP_ADD t False p ev dir k a dk0 db0 r0 dk db" "t \<notin> rel_view (ev_en ev) (dk_files dk0) r0" "length t = a"
    "entry_at db0 k = Some e" "re_kind e = RELK_FIXED" "re_arity e = a" "p = path_in dir (re_name e) (base_ext r0)"
  shows "returns (addFactApply ev dk k t db) (add_done well t p ev dir k a dk0 db0 r0)"
  unfolding addFactApply_def
proof (rule returns_bind [OF logged_overlay [OF assms(2,4,3)]], clarify)
  fix rc db1 assume rc: "rc = 1 \<or> rc = (-1::int)" and fine: "all_goes_well ev \<and> card (ov_rows r0) < 2 ^ 29 \<longrightarrow> rc = 1" and o: "if rc = 1 then wrote (add_outcome (ev_en ev) (dk_files dk0) r0 t 1) True p ev dir k a dk0 db0 r0 dk (permindex_mark_dirty db1 k)
     else wrote (add_outcome (ev_en ev) (dk_files dk0) r0 t (-1)) False p ev dir k a dk0 db0 r0 dk db1"
  have fx: "fixed_at k a db0" using assms(5-7) by (simp add: fixed_at_def)
  show "returns (if rc < 0 then Some (-1, db1, dk)
     else do {
       db2 \<leftarrow> (if rc = 1 then note_added (ev_al ev) k t (permindex_mark_dirty db1 k) else Some db1);
       (dk3, db3) \<leftarrow> compact_check ev dk k (length t) db2;
       Some (if rc = 1 then 1 else 0, db3\<lparr>db_fixpoint_dirty := True\<rparr>, dk3) }) (add_done well t p ev dir k a dk0 db0 r0)"
  proof (cases "rc = 1")
    case False
    then show ?thesis using rc o fine assms(1) by (auto simp: add_done_def)
  next
    case True
    have w: "wrote (add_outcome (ev_en ev) (dk_files dk0) r0 t 1) True p ev dir k a dk0 db0 r0 dk (permindex_mark_dirty db1 k)"
      using o True by simp
    obtain db2 where n: "note_added (ev_al ev) k t (permindex_mark_dirty db1 k) = Some db2"
      "wrote (add_outcome (ev_en ev) (dk_files dk0) r0 t 1) True p ev dir k a dk0 db0 r0 dk db2"
      by (rule wrote_note [OF w fx assms(4), of "ev_al ev" thesis]) blast
    have stable: "add_outcome (ev_en ev) (dk_files dk0) r0 t 1 r' fs'"
      if "kept (ev_en ev) fs fs' r r'" "add_outcome (ev_en ev) (dk_files dk0) r0 t 1 r fs" for r r' fs fs'
      using that by (simp add: add_outcome_def kept_stored)
    have "returns (compact_check ev dk k (length t) db2 \<bind> (\<lambda>(dk3, db3). Some (1, db3\<lparr>db_fixpoint_dirty := True\<rparr>, dk3)))
      (add_done well t p ev dir k a dk0 db0 r0)"
      unfolding assms(4)
      by (rule returns_bind [OF wrote_compact [OF n(2) assms(5,6,8) stable]]) (auto simp: add_done_def)
    then show ?thesis using True n(1) by simp
  qed
qed

lemma logged_flush:
  assumes "logged op t f p ev dir k a dk0 db0 r0 dk db"
  shows "returns (flush_at ev dk k a db) (\<lambda>(rf, db'). (all_goes_well ev \<longrightarrow> rf = 0) \<and>
    (if rf = 0 then logged op t True p ev dir k a dk0 db0 r0 dk db' else \<exists>r. core ev dir k a dk0 db0 r0 r dk db'))"
proof -
  obtain r where r: "core ev dir k a dk0 db0 r0 r dk db"
    "durable (ev_en ev) (dk_files dk0) p r0 \<longrightarrow> disk_ok (ev_en ev) (dk_files dk) a (Some p) \<and> recovered (ev_en ev) (dk_files dk) p r =
       (if op = DAFSA_WAL_OP_ADD then insert t (stored (ev_en ev) (dk_files dk) r) else stored (ev_en ev) (dk_files dk) r - {t})"
    using assms(1) unfolding logged_def by blast
  note c = coreD [OF r(1)]
  obtain rf r' db' where f: "flush_at ev dk k a db = Some (rf, db')" "holds (ev_en ev) dir k a dk0 db0 r0 r' dk db'"
    "flush_spec (ev_en ev) (dk_files dk) r (rf, r')" "adds_succeed (ev_en ev) \<Longrightarrow> rf = 0" "settled (ev_en ev) k dk0 db0 r0 r dk db \<Longrightarrow> settled (ev_en ev) k dk0 db0 r0 r' dk db'"
    by (rule flush_step [OF c(1,2), of thesis]) blast
  note k = kept_flush [OF f(3)]
  have core: "core ev dir k a dk0 db0 r0 r' dk db'" by (rule core_kept [OF r(1) f(2) f(5) [OF c(3)] k flush_rows [OF f(3)]])
  have "recovered (ev_en ev) (dk_files dk) p r' = recovered (ev_en ev) (dk_files dk) p r" "stored (ev_en ev) (dk_files dk) r' = stored (ev_en ev) (dk_files dk) r"
    using f(3) k by (simp_all add: flush_spec_def recovered_def log_of_def kept_stored)
  moreover have "rf = 0 \<longrightarrow> ov_rows r' = {}" using f(3) by (simp add: flush_spec_def)
  ultimately have "rf = 0 \<Longrightarrow> logged op t True p ev dir k a dk0 db0 r0 dk db'"
    using core r(2) unfolding logged_def by auto
  then show ?thesis using f(1,4) core by (auto simp: all_goes_well_def)
qed

lemma delete_apply:
  assumes "well \<longrightarrow> all_goes_well ev" "logged DAFSA_WAL_OP_DEL t True p ev dir k a dk0 db0 r0 dk db" "t \<in> rel_view (ev_en ev) (dk_files dk0) r0" "length t = a"
    "fixed_at k a db0"
  shows "returns (deleteFactApply ev dk k t db) (\<lambda>(rc, db'). delete_done well t p ev dir k a dk0 db0 r0 (rc, db', dk))"
  unfolding deleteFactApply_def assms(4)
proof (rule returns_bind [OF logged_flush [OF assms(2)]], clarify)
  fix rf db1 assume wf: "all_goes_well ev \<longrightarrow> rf = 0" and l: "if rf = 0 then logged DAFSA_WAL_OP_DEL t True p ev dir k a dk0 db0 r0 dk db1 else \<exists>r. core ev dir k a dk0 db0 r0 r dk db1"
  let ?rest = "\<lambda>(rc, db2). if rc < 0 then Some (-1, db2)
       else do {
         db3 \<leftarrow> (if rc = 1 then note_delete (ev_al ev) k t (permindex_mark_dirty db2 k) else Some db2);
         Some (if rc = 1 then 1 else 0, db3\<lparr>db_fixpoint_dirty := True\<rparr>) }"
  show "returns (if rf \<noteq> 0 then Some (-1, db1) else delete_at ev dk k t db1 \<bind> ?rest)
    (\<lambda>(rc, db'). delete_done well t p ev dir k a dk0 db0 r0 (rc, db', dk))"
  proof (cases "rf = 0")
    case False
    then show ?thesis using l wf assms(1) core_wrote(2) [where fine = False] by (auto simp: delete_done_def)
  next
    case True
    then have lg: "logged DAFSA_WAL_OP_DEL t True p ev dir k a dk0 db0 r0 dk db1" using l by simp
    have "returns (delete_at ev dk k t db1 \<bind> ?rest) (\<lambda>(rc, db'). delete_done well t p ev dir k a dk0 db0 r0 (rc, db', dk))"
    proof (rule returns_bind [OF logged_delete [OF lg assms(4,3)]], elim case_prodE conjE, hypsubst, unfold prod.case)
      fix rc db2
      assume rc: "rc = 1 \<or> rc = 0 \<or> rc = (-1::int)" and fine: "all_goes_well ev \<longrightarrow> rc \<noteq> -1"
        and one: "rc = 1 \<longrightarrow> wrote (delete_outcome (ev_en ev) (dk_files dk0) r0 t 1) True p ev dir k a dk0 db0 r0 dk (permindex_mark_dirty db2 k)"
        and zero: "rc = 0 \<longrightarrow> wrote (delete_outcome (ev_en ev) (dk_files dk0) r0 t 0) True p ev dir k a dk0 db0 r0 dk db2 \<and>
          t \<notin> stored (ev_en ev) (dk_files dk0) r0"
        and bad: "rc = -1 \<longrightarrow> wrote (delete_outcome (ev_en ev) (dk_files dk0) r0 t (-1)) False p ev dir k a dk0 db0 r0 dk db2"
      show "returns (if rc < 0 then Some (-1, db2)
         else do {
           db3 \<leftarrow> (if rc = 1 then note_delete (ev_al ev) k t (permindex_mark_dirty db2 k) else Some db2);
           Some (if rc = 1 then 1 else 0, db3\<lparr>db_fixpoint_dirty := True\<rparr>) })
        (\<lambda>(rc, db'). delete_done well t p ev dir k a dk0 db0 r0 (rc, db', dk))"
      proof (cases "rc = 1")
        case True
        have w: "wrote (delete_outcome (ev_en ev) (dk_files dk0) r0 t 1) True p ev dir k a dk0 db0 r0 dk (permindex_mark_dirty db2 k)"
          using one True by simp
        obtain db3 where "note_delete (ev_al ev) k t (permindex_mark_dirty db2 k) = Some db3"
          "wrote (delete_outcome (ev_en ev) (dk_files dk0) r0 t 1) True p ev dir k a dk0 db0 r0 dk db3"
          by (rule wrote_note [OF w assms(5,4), of "ev_al ev" thesis]) blast
        then show ?thesis using True by (simp add: delete_done_def)
      next
        case False
        then show ?thesis using rc zero bad fine assms(1) by (auto simp: delete_done_def)
      qed
    qed
    then show ?thesis using True by simp
  qed
qed

subsection \<open>What it means for the database\<close>

text \<open>The rows asserted under a handle, of every arity; and where the base of a relation is on disk.\<close>

definition rel_asserted :: "engine \<Rightarrow> files \<Rightarrow> dl_db \<Rightarrow> int \<Rightarrow> tuple set" where
  "rel_asserted e fs db k = {t. \<exists>r. db_rel_at_arity_ro db k (length t) = Some r \<and> t \<in> stored e fs r}"

definition slot_path :: "string \<Rightarrow> rel_entry \<Rightarrow> nat \<Rightarrow> relation \<Rightarrow> string" where
  "slot_path dir e a r =
     (if re_kind e = RELK_VARIADIC then vpath_in dir (re_name e) a (base_ext r) else path_in dir (re_name e) (base_ext r))"

definition on_disk :: "engine \<Rightarrow> string \<Rightarrow> int \<Rightarrow> nat \<Rightarrow> disk \<Rightarrow> dl_db \<Rightarrow> bool" where
  "on_disk en dir k a dk db \<longleftrightarrow> (\<exists>e r. entry_at db k = Some e \<and> db_rel_at_arity_ro db k a = Some r \<and>
     durable en (dk_files dk) (slot_path dir e a r) r)"

text \<open>Nothing but one row of one relation may differ: whether it is among the facts, whether it is asserted.\<close>

definition one_row :: "engine \<Rightarrow> int \<Rightarrow> tuple \<Rightarrow> bool \<Rightarrow> bool \<Rightarrow> disk \<Rightarrow> dl_db \<Rightarrow> disk \<Rightarrow> dl_db \<Rightarrow> bool" where
  "one_row en k t present asserted dk db dk' db' \<longleftrightarrow>
     (\<forall>i u. u \<in> rel_facts en (dk_files dk') db' i \<longleftrightarrow> (if i = k \<and> u = t then present else u \<in> rel_facts en (dk_files dk) db i)) \<and>
     (\<forall>i u. u \<in> rel_asserted en (dk_files dk') db' i \<longleftrightarrow> (if i = k \<and> u = t then asserted else u \<in> rel_asserted en (dk_files dk) db i))"

definition same_handle :: "dl_db \<Rightarrow> dl_db \<Rightarrow> bool" where
  "same_handle db db' \<longleftrightarrow> findRel db' = findRel db \<and> db_read_only db' = db_read_only db \<and> db_txn db' = db_txn db"

lemma same_handle_refl [simp]: "same_handle db db"
  by (simp add: same_handle_def)

definition is_head :: "dl_db \<Rightarrow> int \<Rightarrow> nat \<Rightarrow> bool" where
  "is_head db k a \<longleftrightarrow> (case db_rel_at_arity_ro db k a of None \<Rightarrow> False | Some r \<Rightarrow> rel_is_idb r)"

text \<open>Outside of rule heads the facts are the asserted rows.  Of a row that is only derived, or only asserted,
  it is left open whether it counts as there.\<close>

definition add_spec :: "bool \<Rightarrow> env \<Rightarrow> string \<Rightarrow> disk \<Rightarrow> dl_db \<Rightarrow> int \<Rightarrow> tuple \<Rightarrow> int \<times> dl_db \<times> disk \<Rightarrow> bool" where
  "add_spec well ev dir dk db k t res \<longleftrightarrow> (case res of (rc, db', dk') \<Rightarrow>
     (let present = (t \<in> rel_facts (ev_en ev) (dk_files dk) db k); asserted = (t \<in> rel_asserted (ev_en ev) (dk_files dk) db k) in
       live (ev_en ev) dir dk' db' \<and> same_handle db db' \<and> (well \<longrightarrow> rc \<noteq> -1) \<and> (rc = 1 \<and> \<not> (present \<and> asserted) \<or> rc = 0 \<and> (present \<or> asserted) \<or> rc = -1) \<and>
       (rc \<noteq> -1 \<and> \<not> is_head db k (length t) \<longrightarrow> (rc = 1) = (\<not> present)) \<and>
       one_row (ev_en ev) k t (rc = 1 \<or> present) (rc = 1 \<or> asserted) dk db dk' db' \<and>
       (rc \<noteq> -1 \<and> on_disk (ev_en ev) dir k (length t) dk db \<longrightarrow> on_disk (ev_en ev) dir k (length t) dk' db')))"

text \<open>A row of a rule head stays among the facts until the next evaluation; only what is asserted changes.\<close>

definition delete_spec :: "bool \<Rightarrow> env \<Rightarrow> string \<Rightarrow> disk \<Rightarrow> dl_db \<Rightarrow> int \<Rightarrow> tuple \<Rightarrow> int \<times> dl_db \<times> disk \<Rightarrow> bool" where
  "delete_spec well ev dir dk db k t res \<longleftrightarrow> (case res of (rc, db', dk') \<Rightarrow>
     (let present = (t \<in> rel_facts (ev_en ev) (dk_files dk) db k); asserted = (t \<in> rel_asserted (ev_en ev) (dk_files dk) db k) in
       live (ev_en ev) dir dk' db' \<and> same_handle db db' \<and> (well \<longrightarrow> rc \<noteq> -1) \<and> (rc = 1 \<and> present \<or> rc = 0 \<and> \<not> (present \<and> asserted) \<or> rc = -1) \<and>
       (rc \<noteq> -1 \<and> \<not> is_head db k (length t) \<longrightarrow> (rc = 1) = present) \<and>
       one_row (ev_en ev) k t (present \<and> (rc = 1 \<longrightarrow> is_head db k (length t))) (asserted \<and> rc \<noteq> 1) dk db dk' db' \<and>
       (rc \<noteq> -1 \<and> on_disk (ev_en ev) dir k (length t) dk db \<longrightarrow> on_disk (ev_en ev) dir k (length t) dk' db')))"

lemma stored_files: "\<forall>p \<in> rel_files r. fs' p = fs p \<Longrightarrow> stored e fs' r = stored e fs r"
  unfolding stored_def by (subst rel_ok_files(3)) simp_all

lemma asserted_put:
  assumes "db_ok en fs db" "apart dir db" "files_frame dir db k fs fs'" "db_rel_at_arity_ro db k a = Some r0" "at_rel k a r db db'"
  shows "t \<in> rel_asserted en fs' db' i \<longleftrightarrow> (if i = k \<and> length t = a then t \<in> stored en fs' r else t \<in> rel_asserted en fs db i)"
proof -
  have slot: "db_rel_at_arity_ro db' j b = (if j = k \<and> b = a then Some r else db_rel_at_arity_ro db j b)" for j b
    using slot_put [OF assms(1,4)] assms(5) unfolding at_rel_def by blast
  show ?thesis
  proof (cases "i = k \<and> length t = a")
    case True
    then show ?thesis by (simp add: rel_asserted_def slot)
  next
    case False
    have "stored en fs' x = stored en fs x" if "db_rel_at_arity_ro db i (length t) = Some x" for x
      by (rule stored_files [OF frame_slots [OF assms(1-4) that]]) (use False in simp)
    then show ?thesis using False by (auto simp: rel_asserted_def slot)
  qed
qed

lemma wrote_spec:
  assumes "wrote P fine p ev dir k a dk0 db0 r0 dk db" "length t = a" "entry_at db0 k = Some e" "p = slot_path dir e a r0"
  obtains r where "P r (dk_files dk)" "live (ev_en ev) dir dk db" "same_handle db0 db" "rel_is_idb r = rel_is_idb r0"
    "\<And>u i. u \<in> rel_facts (ev_en ev) (dk_files dk) db i \<longleftrightarrow>
       (if i = k \<and> length u = a then u \<in> rel_view (ev_en ev) (dk_files dk) r else u \<in> rel_facts (ev_en ev) (dk_files dk0) db0 i)"
    "\<And>u i. u \<in> rel_asserted (ev_en ev) (dk_files dk) db i \<longleftrightarrow>
       (if i = k \<and> length u = a then u \<in> stored (ev_en ev) (dk_files dk) r else u \<in> rel_asserted (ev_en ev) (dk_files dk0) db0 i)"
    "fine \<Longrightarrow> on_disk (ev_en ev) dir k a dk0 db0 \<Longrightarrow> on_disk (ev_en ev) dir k a dk db"
proof -
  obtain r where r: "started ev dir k a dk0 db0 r0" "holds (ev_en ev) dir k a dk0 db0 r0 r dk db" "settled (ev_en ev) k dk0 db0 r0 r dk db"
    "rel_is_idb r = rel_is_idb r0" "P r (dk_files dk)" "fine \<and> durable (ev_en ev) (dk_files dk0) p r0 \<longrightarrow> durable (ev_en ev) (dk_files dk) p r"
    using assms(1) unfolding wrote_def by blast
  have l: "live (ev_en ev) dir dk0 db0" "db_rel_at_arity_ro db0 k a = Some r0" using r(1) by (simp_all add: started_def)
  have d: "db_ok (ev_en ev) (dk_files dk0) db0" "apart dir db0" using l(1) by (simp_all add: live_def)
  have h: "files_frame dir db0 k (dk_files dk0) (dk_files dk)" "at_rel k a r db0 db" using r(2) by (simp_all add: holds_def)
  note lv = holds_live [OF l r(2,3)]
  have slot: "db_rel_at_arity_ro db k a = Some r" using slot_put [OF d(1) l(2)] h(2) unfolding at_rel_def by simp
  obtain e' where e': "entry_at db k = Some e'" "re_name e' = re_name e" "re_kind e' = re_kind e"
    using find_put(2,3) [OF l(2) h(2), of k] assms(3) by (cases "entry_at db k") auto
  have path: "slot_path dir e' a r = p" using e'(2,3) r(4) assms(4) by (simp add: slot_path_def base_ext_def)
  have disk: "on_disk (ev_en ev) dir k a dk db" if "fine" "on_disk (ev_en ev) dir k a dk0 db0"
  proof -
    have "durable (ev_en ev) (dk_files dk0) p r0" using that(2) assms(3,4) l(2) by (auto simp: on_disk_def)
    then have "durable (ev_en ev) (dk_files dk) (slot_path dir e' a r) r" using r(6) that(1) path by simp
    then show ?thesis using e'(1) slot unfolding on_disk_def by blast
  qed
  have find: "same_handle db0 db" using find_put(1) [OF l(2) h(2)] h(2) by (auto simp: same_handle_def at_rel_def)
  show thesis
    by (rule that [OF r(5) lv(1) find r(4) lv(2) asserted_put [OF d h(1) l(2) h(2)] disk])
qed

lemma slot_now:
  assumes "started ev dir k a dk0 db0 r0" "length t = a"
  shows "t \<in> rel_facts (ev_en ev) (dk_files dk0) db0 k \<longleftrightarrow> t \<in> rel_view (ev_en ev) (dk_files dk0) r0"
    "t \<in> rel_asserted (ev_en ev) (dk_files dk0) db0 k \<longleftrightarrow> t \<in> stored (ev_en ev) (dk_files dk0) r0"
  using startedD [OF assms(1)] assms(2) by (simp_all add: facts_slots rel_asserted_def)

lemma add_done_spec:
  assumes "started ev dir k a dk db r0" "add_done well t p ev dir k a dk db r0 res" "length t = a" "entry_at db k = Some e" "p = slot_path dir e a r0"
  shows "add_spec well ev dir dk db k t res"
proof -
  obtain rc db' dk' where res: "res = (rc, db', dk')" by (cases res)
  have w: "wrote (add_outcome (ev_en ev) (dk_files dk) r0 t rc) (rc \<noteq> -1) p ev dir k a dk db r0 dk' db'" "well \<longrightarrow> rc \<noteq> -1"
    using assms(2) res by (simp_all add: add_done_def)
  obtain r where r: "add_outcome (ev_en ev) (dk_files dk) r0 t rc r (dk_files dk')" "live (ev_en ev) dir dk' db'" "same_handle db db'"
    "\<And>u i. u \<in> rel_facts (ev_en ev) (dk_files dk') db' i \<longleftrightarrow>
       (if i = k \<and> length u = a then u \<in> rel_view (ev_en ev) (dk_files dk') r else u \<in> rel_facts (ev_en ev) (dk_files dk) db i)"
    "\<And>u i. u \<in> rel_asserted (ev_en ev) (dk_files dk') db' i \<longleftrightarrow>
       (if i = k \<and> length u = a then u \<in> stored (ev_en ev) (dk_files dk') r else u \<in> rel_asserted (ev_en ev) (dk_files dk) db i)"
    "rc \<noteq> -1 \<Longrightarrow> on_disk (ev_en ev) dir k a dk db \<Longrightarrow> on_disk (ev_en ev) dir k a dk' db'"
    by (rule wrote_spec [OF w(1) assms(3-5), of thesis]) blast
  note now = slot_now [OF assms(1)]
  have "one_row (ev_en ev) k t (rc = 1 \<or> t \<in> rel_view (ev_en ev) (dk_files dk) r0) (rc = 1 \<or> t \<in> stored (ev_en ev) (dk_files dk) r0) dk db dk' db'"
    unfolding one_row_def r(4,5) using r(1) now assms(3) by (auto simp: add_outcome_def add_result_def)
  then show ?thesis
    using r(1-3,6) w(2) assms(3) by (auto simp: add_spec_def res now Let_def add_outcome_def add_result_def)
qed

lemma delete_done_spec:
  assumes "started ev dir k a dk db r0" "delete_done well t p ev dir k a dk db r0 res" "length t = a" "entry_at db k = Some e" "p = slot_path dir e a r0"
  shows "delete_spec well ev dir dk db k t res"
proof -
  obtain rc db' dk' where res: "res = (rc, db', dk')" by (cases res)
  have w: "wrote (delete_outcome (ev_en ev) (dk_files dk) r0 t rc) (rc \<noteq> -1) p ev dir k a dk db r0 dk' db'" "well \<longrightarrow> rc \<noteq> -1"
    using assms(2) res by (simp_all add: delete_done_def)
  obtain r where r: "delete_outcome (ev_en ev) (dk_files dk) r0 t rc r (dk_files dk')" "live (ev_en ev) dir dk' db'" "same_handle db db'"
    "\<And>u i. u \<in> rel_facts (ev_en ev) (dk_files dk') db' i \<longleftrightarrow>
       (if i = k \<and> length u = a then u \<in> rel_view (ev_en ev) (dk_files dk') r else u \<in> rel_facts (ev_en ev) (dk_files dk) db i)"
    "\<And>u i. u \<in> rel_asserted (ev_en ev) (dk_files dk') db' i \<longleftrightarrow>
       (if i = k \<and> length u = a then u \<in> stored (ev_en ev) (dk_files dk') r else u \<in> rel_asserted (ev_en ev) (dk_files dk) db i)"
    "rc \<noteq> -1 \<Longrightarrow> on_disk (ev_en ev) dir k a dk db \<Longrightarrow> on_disk (ev_en ev) dir k a dk' db'"
    by (rule wrote_spec [OF w(1) assms(3-5), of thesis]) blast
  note now = slot_now [OF assms(1)]
  have head: "is_head db k a \<longleftrightarrow> rel_is_idb r0" using startedD(4) [OF assms(1)] by (simp add: is_head_def)
  have edb: "\<not> rel_is_idb r0 \<Longrightarrow> stored (ev_en ev) (dk_files dk) r0 = rel_view (ev_en ev) (dk_files dk) r0"
    using edb_same [of "ev_en ev" "dk_files dk" r0] at_arity [OF startedD(3) [OF assms(1)], of k a] startedD(4) [OF assms(1)] by (simp add: stored_def rel_view_def)
  have "one_row (ev_en ev) k t (t \<in> rel_view (ev_en ev) (dk_files dk) r0 \<and> (rc = 1 \<longrightarrow> rel_is_idb r0))
      (t \<in> stored (ev_en ev) (dk_files dk) r0 \<and> rc \<noteq> 1) dk db dk' db'"
    unfolding one_row_def r(4,5) using r(1) now assms(3) by (auto simp: delete_outcome_def)
  then show ?thesis
    using r(1-3,6) w(2) assms(3) head edb by (auto simp: delete_spec_def res now Let_def delete_outcome_def)
qed

lemma refused:
  assumes "live (ev_en ev) dir dk db" "\<not> well"
  shows "add_spec well ev dir dk db k t (-1, db, dk)" "delete_spec well ev dir dk db k t (-1, db, dk)"
  using assms by (auto simp: add_spec_def delete_spec_def one_row_def)

lemma path_not_sys:
  assumes "length dir \<le> 8000"
  shows "path_in dir name (base_ext r) \<notin> sys_files dir" "vpath_in dir name a (base_ext r) \<notin> sys_files dir"
proof -
  have "last (path_in dir name (base_ext r)) = CHR ''a''" "last (vpath_in dir name a (base_ext r)) = CHR ''a''"
    by (simp_all add: path_in_def vpath_in_def base_ext_def)
  moreover have "last p \<noteq> CHR ''a''" if "p \<in> sys_files dir" for p
    using that by (auto simp: sys_files_def path_in_def tmp_name_def)
  ultimately show "path_in dir name (base_ext r) \<notin> sys_files dir" "vpath_in dir name a (base_ext r) \<notin> sys_files dir" by metis+
qed

subsection \<open>The public operations\<close>

text \<open>Nothing stands in the way: the handle writes, nothing outside fails, the slot is there, and for an
  addition every value is a symbol (or the relation is variadic, where no column has a kind) and nothing of
  the vocabulary has to be saved first.\<close>

definition can_write :: "env \<Rightarrow> dl_db \<Rightarrow> string \<Rightarrow> tuple \<Rightarrow> bool" where
  "can_write ev db name t \<longleftrightarrow> all_goes_well ev \<and> \<not> db_read_only db \<and> db_txn db = None \<and> name \<noteq> ''rev'' \<and>
     db_rel_at_arity_ro db (findRel db name) (length t) \<noteq> None"

definition can_add :: "env \<Rightarrow> dl_db \<Rightarrow> string \<Rightarrow> tuple \<Rightarrow> bool" where
  "can_add ev db name t \<longleftrightarrow> can_write ev db name t \<and> vocab_clean db \<and>
     (\<forall>r. db_rel_at_arity_ro db (findRel db name) (length t) = Some r \<longrightarrow> rel_overlay_count r < 2 ^ 29) \<and>
     (\<forall>e. entry_at db (findRel db name) = Some e \<and> re_kind e \<noteq> RELK_VARIADIC \<longrightarrow> (\<forall>v \<in> set t. live_symbol (db_ir db) v))"

lemma started_size: "started ev dir k a dk db r \<Longrightarrow> rel_overlay_count r = card (ov_rows r)"
  unfolding started_def live_def using at_arity(1) overlay_size by blast

lemma fixed_slot:
  assumes "live (ev_en ev) dir dk db" "engine_ok (ev_en ev)" "dafsa_create (ev_en ev) \<noteq> None" "entry_at db k = Some e"
    "re_kind e \<noteq> RELK_VARIADIC" "map_option r_arity (re_rel e) = Some a"
  obtains r where "started ev dir k a dk db r" "re_kind e = RELK_FIXED" "re_arity e = a"
    "slot_path dir e a r = path_in dir (re_name e) (base_ext r)"
proof -
  have "db_ok (ev_en ev) (dk_files dk) db" using assms(1) by (simp add: live_def)
  then have "entry_ok (ev_en ev) (dk_files dk) e" by (rule entry_at_ok [OF _ assms(4)])
  then obtain r where r: "re_rel e = Some r" "re_kind e = RELK_FIXED" "r_arity r = re_arity e"
    using assms(5) by (auto simp: entry_ok_def)
  then have "re_arity e = a" using assms(6) by simp
  then have "db_rel_at_arity_ro db k a = Some r" using assms(4,5) r(1) by (simp add: db_rel_at_arity_ro_def db_entry_variant_ro_def)
  then show thesis using that [of r] assms(1-3,5) r(2) \<open>re_arity e = a\<close> by (simp add: started_def slot_path_def)
qed

lemma slot_encodes:
  assumes "started ev dir k a dk db r" "length t = a"
  obtains key where "encodeFactKey t = Some key"
proof -
  have "r_arity r = a" "rel_ok (ev_en ev) (dk_files dk) r" using assms(1) by (auto simp: started_def live_def dest: at_arity)
  then have "length t \<noteq> 0" "\<not> length t > 8" using assms(2) by (simp_all add: rel_ok_def MAX_ARITY_def)
  then show thesis using that unfolding encodeFactKey_def by simp
qed

lemma fixed_no_slot:
  assumes "live en dir dk db" "entry_at db k = Some e" "re_kind e \<noteq> RELK_VARIADIC" "map_option r_arity (re_rel e) \<noteq> Some a"
  shows "db_rel_at_arity_ro db k a = None"
proof -
  have "entry_ok en (dk_files dk) e" by (rule entry_at_ok [OF _ assms(2)]) (use assms(1) in \<open>simp add: live_def\<close>)
  then show ?thesis using assms(2-4) by (auto simp: entry_ok_def db_rel_at_arity_ro_def db_entry_variant_ro_def)
qed

lemma add_saved:
  assumes "well \<longrightarrow> all_goes_well ev \<and> card (ov_rows r0) < 2 ^ 29" "well \<longrightarrow> vocab_clean db" "still False p ev dir k a dk0 db0 r0 dk db" "length t = a" "p \<notin> sys_files dir"
    "\<And>dk2 db4. logged DAFSA_WAL_OP_ADD t False p ev dir k a dk0 db0 r0 dk2 db4 \<Longrightarrow> t \<notin> rel_view (ev_en ev) (dk_files dk0) r0 \<Longrightarrow>
       returns (K dk2 db4) (add_done well t p ev dir k a dk0 db0 r0)"
  shows "returns (do { (ok, db2, dk2) \<leftarrow> save_vocabulary ev dk db;
      if ok \<noteq> 0 then Some (-1, db2, dk2)
      else do { (found, db3) \<leftarrow> exact_at ev dk2 k t db2;
        if found \<noteq> 0 then Some (0, db3, dk2)
        else do { (rw, db4) \<leftarrow> log_at DAFSA_WAL_OP_ADD ev dk2 k t db3; if rw \<noteq> 0 then Some (-1, db4, dk2) else K dk2 db4 } } })
    (add_done well t p ev dir k a dk0 db0 r0)"
proof (rule returns_bind [OF still_vocab [OF assms(3,5)]], clarify)
  fix ok db2 dk2 assume saved: "vocab_clean db \<longrightarrow> ok = 0" and v: "still False p ev dir k a dk0 db0 r0 dk2 db2"
  show "returns (if ok \<noteq> 0 then Some (-1, db2, dk2)
      else do { (found, db3) \<leftarrow> exact_at ev dk2 k t db2;
        if found \<noteq> 0 then Some (0, db3, dk2)
        else do { (rw, db4) \<leftarrow> log_at DAFSA_WAL_OP_ADD ev dk2 k t db3; if rw \<noteq> 0 then Some (-1, db4, dk2) else K dk2 db4 } })
    (add_done well t p ev dir k a dk0 db0 r0)"
    using add_chain [OF assms(1) v assms(4), of "K dk2"] assms(6) saved assms(2) still_wrote(2) [OF v, where fine = False]
    by (cases "ok = 0") (simp_all add: add_done_def)
qed

lemma add_fixed:
  assumes "live (ev_en ev) dir dk db" "engine_ok (ev_en ev)" "dafsa_create (ev_en ev) \<noteq> None" "entry_at db (findRel db name) = Some e"
    "re_kind e \<noteq> RELK_VARIADIC"
  shows "returns (dl_add_fact ev dk db name t) (add_spec (can_add ev db name t) ev dir dk db (findRel db name) t)"
proof (cases "db_read_only db \<or> db_txn db \<noteq> None \<or> name = ''rev'' \<or> map_option r_arity (re_rel e) \<noteq> Some (length t)")
  case True
  then have "\<not> can_add ev db name t" using fixed_no_slot [OF assms(1,4,5)] by (auto simp: can_add_def can_write_def)
  then show ?thesis using assms(4,5) True refused(1) [OF assms(1)] by (auto simp: dl_add_fact_def Let_def)
next
  case False
  let ?k = "findRel db name"
  have ar: "map_option r_arity (re_rel e) = Some (length t)" using False by simp
  obtain r where r: "started ev dir ?k (length t) dk db r" "re_kind e = RELK_FIXED" "re_arity e = length t"
    "slot_path dir e (length t) r = path_in dir (re_name e) (base_ext r)"
    by (rule fixed_slot [OF assms ar])
  let ?p = "path_in dir (re_name e) (base_ext r)"
  have sys: "?p \<notin> sys_files dir" using path_not_sys(1) assms(1) by (simp add: live_def)
  have well: "can_add ev db name t \<longrightarrow> all_goes_well ev \<and> card (ov_rows r) < 2 ^ 29"
    using started_size [OF r(1)] startedD(4) [OF r(1)] by (auto simp: can_add_def can_write_def)
  obtain key where enc: "encodeFactKey t = Some key" by (rule slot_encodes [OF r(1) refl])
  let ?rest = "\<lambda>db1. do {
      (ok, db2, dk2) \<leftarrow> save_vocabulary ev dk db1;
      if ok \<noteq> 0 then Some (-1, db2, dk2)
      else do { (found, db3) \<leftarrow> exact_at ev dk2 ?k t db2;
        if found \<noteq> 0 then Some (0, db3, dk2)
        else do { (rw, db4) \<leftarrow> log_at DAFSA_WAL_OP_ADD ev dk2 ?k t db3; if rw \<noteq> 0 then Some (-1, db4, dk2) else addFactApply ev dk2 ?k t db4 } } }"
  have "returns (note_kinds ev dk ?k t db \<bind> (\<lambda>(kn, db1). if kn \<noteq> 0 \<or> encodeFactKey t = None then Some (-1, db1, dk) else ?rest db1))
      (add_done (can_add ev db name t) t ?p ev dir ?k (length t) dk db r)"
  proof (rule returns_bind [OF still_kinds [OF still_start [OF r(1)] refl]], clarify)
    fix kn db1 assume vocab: "db_ir db1 = db_ir db" "db_terms db1 = db_terms db"
      and kinds: "(\<forall>v \<in> set t. live_symbol (db_ir db) v) \<longrightarrow> kn = 0" and k: "still False ?p ev dir ?k (length t) dk db r dk db1"
    have "returns (?rest db1) (add_done (can_add ev db name t) t ?p ev dir ?k (length t) dk db r)"
    proof (rule add_saved [OF well _ k refl sys])
      show "can_add ev db name t \<longrightarrow> vocab_clean db1" using vocab by (simp add: can_add_def vocab_clean_def)
    qed (rule add_apply [OF well _ _ refl assms(4) r(2,3) refl])
    then show "returns (if kn \<noteq> 0 \<or> encodeFactKey t = None then Some (-1, db1, dk) else ?rest db1)
        (add_done (can_add ev db name t) t ?p ev dir ?k (length t) dk db r)"
      using still_wrote(2) [OF k, where fine = False] enc kinds assms(4,5) by (auto simp: add_done_def can_add_def)
  qed
  then have "returns (dl_add_fact ev dk db name t) (add_done (can_add ev db name t) t ?p ev dir ?k (length t) dk db r)"
    using False assms(4,5) by (simp add: dl_add_fact_def Let_def)
  then show ?thesis by (rule returns_mono) (rule add_done_spec [OF r(1) _ refl assms(4) r(4) [symmetric]])
qed

lemma delete_fixed:
  assumes "live (ev_en ev) dir dk db" "engine_ok (ev_en ev)" "dafsa_create (ev_en ev) \<noteq> None" "entry_at db (findRel db name) = Some e"
    "re_kind e \<noteq> RELK_VARIADIC"
  shows "returns (dl_delete_fact ev dk db name t) (delete_spec (can_write ev db name t) ev dir dk db (findRel db name) t)"
proof (cases "db_read_only db \<or> db_txn db \<noteq> None \<or> name = ''rev'' \<or> map_option r_arity (re_rel e) \<noteq> Some (length t)")
  case True
  then have "\<not> can_write ev db name t" using fixed_no_slot [OF assms(1,4,5)] by (auto simp: can_write_def)
  then show ?thesis using assms(4,5) True refused(2) [OF assms(1)] by (auto simp: dl_delete_fact_def Let_def)
next
  case False
  let ?k = "findRel db name"
  have ar: "map_option r_arity (re_rel e) = Some (length t)" using False by simp
  obtain r where r: "started ev dir ?k (length t) dk db r" "re_kind e = RELK_FIXED" "re_arity e = length t"
    "slot_path dir e (length t) r = path_in dir (re_name e) (base_ext r)"
    by (rule fixed_slot [OF assms ar])
  let ?p = "path_in dir (re_name e) (base_ext r)"
  have fx: "fixed_at ?k (length t) db" using assms(4) r(2,3) by (simp add: fixed_at_def)
  have well: "can_write ev db name t \<longrightarrow> all_goes_well ev" by (simp add: can_write_def)
  have K: "returns (deleteFactApply ev dk ?k t db4 \<bind> (\<lambda>(rc, db5). Some (rc, db5, dk))) (delete_done (can_write ev db name t) t ?p ev dir ?k (length t) dk db r)"
    if "logged DAFSA_WAL_OP_DEL t True ?p ev dir ?k (length t) dk db r dk db4" "t \<in> rel_view (ev_en ev) (dk_files dk) r" for db4
    by (rule returns_bind [OF delete_apply [OF well that refl fx]]) auto
  obtain key where "encodeFactKey t = Some key" by (rule slot_encodes [OF r(1) refl])
  then have "returns (dl_delete_fact ev dk db name t) (delete_done (can_write ev db name t) t ?p ev dir ?k (length t) dk db r)"
    using delete_chain [where K = "\<lambda>db4. deleteFactApply ev dk ?k t db4 \<bind> (\<lambda>(rc, db5). Some (rc, db5, dk))",
        OF well still_start [OF r(1)] refl K] False assms(4,5)
    by (simp add: dl_delete_fact_def Let_def)
  then show ?thesis by (rule returns_mono) (rule delete_done_spec [OF r(1) _ refl assms(4) r(4) [symmetric]])
qed

text \<open>A variadic relation whose variant of the arity is open.\<close>

lemma ensure_open:
  assumes "live en dir dk db" "entry_at db k = Some e" "re_kind e = RELK_VARIADIC" "db_rel_at_arity_ro db k a = Some r"
  shows "dl_ensure_variant ev dk db k a = (Some r, db, dk)" "1 \<le> a" "a \<le> 8"
proof -
  have d: "db_dir db = Some dir" "db_ok en (dk_files dk) db" using assms(1) by (simp_all add: live_def)
  have k: "nat k < length (db_rels db)" "db_rels db ! nat k = e" using assms(2) by (auto simp: entry_at_def split: if_splits)
  then have "(db_rels db)[nat k := e] = db_rels db" by (simp add: list_update_same_conv)
  then have same: "put_entry k e db = db" by (simp add: put_entry_def)
  obtain v where v: "re_vrel e = Some v" "vrel_variant_or_null v a = Some r"
    using assms(2-4) by (auto simp: db_rel_at_arity_ro_def db_entry_variant_ro_def split: option.splits)
  then have a: "1 \<le> a" "a \<le> MAX_VAR_ARITY" by (auto simp: vrel_variant_or_null_def split: if_splits)
  then show "1 \<le> a" "a \<le> 8" by (simp_all add: MAX_VAR_ARITY_def)
  show "dl_ensure_variant ev dk db k a = (Some r, db, dk)"
    using assms(2,3) v a d(1) same by (simp add: dl_ensure_variant_def variadicOpenVariant_def Let_def)
qed

lemma vocab_add:
  assumes "well \<longrightarrow> all_goes_well ev \<and> card (ov_rows r0) < 2 ^ 29"
    "logged DAFSA_WAL_OP_ADD t False p ev dir k a dk0 db0 r0 dk db" "t \<notin> rel_view (ev_en ev) (dk_files dk0) r0" "length t = a"
  shows "returns (do { (rc, db5) \<leftarrow> overlay_at ev dk k t db;
      if rc < 0 then Some (-1, db5, dk)
      else let db6 = (if rc = 1 then (permindex_mark_dirty db5 k)\<lparr>db_full_reeval_pending := True\<rparr> else db5) in
        Some (1, db6\<lparr>db_fixpoint_dirty := True\<rparr>, dk) }) (add_done well t p ev dir k a dk0 db0 r0)"
  by (rule returns_bind [OF logged_overlay [OF assms(2,4,3)]]) (use assms(1) in \<open>auto simp: add_done_def Let_def\<close>)

lemma add_variadic:
  assumes "live (ev_en ev) dir dk db" "engine_ok (ev_en ev)" "dafsa_create (ev_en ev) \<noteq> None" "entry_at db (findRel db name) = Some e"
    "re_kind e = RELK_VARIADIC" "db_rel_at_arity_ro db (findRel db name) (length t) = Some r"
  shows "returns (dl_add_fact ev dk db name t) (add_spec (can_add ev db name t) ev dir dk db (findRel db name) t)"
proof (cases "db_read_only db \<or> db_txn db \<noteq> None \<or> name = ''rev''")
  case True
  then have "\<not> can_add ev db name t" by (auto simp: can_add_def can_write_def)
  then show ?thesis using assms(4,5) True refused(1) [OF assms(1)] by (auto simp: dl_add_fact_def Let_def)
next
  case False
  let ?k = "findRel db name" and ?p = "slot_path dir e (length t) r"
  note en = ensure_open [OF assms(1,4-6)]
  have ne: "t \<noteq> []" using en(2) by auto
  have st: "started ev dir ?k (length t) dk db r" using assms(1-3,6) by (simp add: started_def)
  have well: "can_add ev db name t \<longrightarrow> all_goes_well ev \<and> card (ov_rows r) < 2 ^ 29" "can_add ev db name t \<longrightarrow> vocab_clean db"
    using started_size [OF st] assms(6) by (auto simp: can_add_def can_write_def)
  have "length dir \<le> 8000" using assms(1) by (simp add: live_def)
  then have sys: "?p \<notin> sys_files dir" using path_not_sys assms(5) by (simp add: slot_path_def)
  have "returns (dl_add_fact ev dk db name t) (add_done (can_add ev db name t) t ?p ev dir ?k (length t) dk db r)"
    using add_saved [where K = "\<lambda>dk2 db4. do { (rc, db5) \<leftarrow> overlay_at ev dk2 ?k t db4;
          if rc < 0 then Some (-1, db5, dk2)
          else let db6 = (if rc = 1 then (permindex_mark_dirty db5 ?k)\<lparr>db_full_reeval_pending := True\<rparr> else db5) in
            Some (1, db6\<lparr>db_fixpoint_dirty := True\<rparr>, dk2) }",
        OF well still_start [OF st] refl sys vocab_add [OF well(1) _ _ refl]] False assms(4,5) en(1,3) ne
    by (simp add: dl_add_fact_def dlAddFactVariadic_def Let_def)
  then show ?thesis by (rule returns_mono) (rule add_done_spec [OF st _ refl assms(4) refl])
qed

text \<open>The deletion answers 1 also when the base did not hold the row: then a rule derives it.\<close>

lemma variadic_delete:
  assumes "well \<longrightarrow> all_goes_well ev" "logged DAFSA_WAL_OP_DEL t True p ev dir k a dk0 db0 r0 dk db" "t \<in> rel_view (ev_en ev) (dk_files dk0) r0" "length t = a"
  shows "returns (do { (rc, db5) \<leftarrow> delete_at ev dk k t db;
      if rc < 0 then Some (-1, db5, dk)
      else let db6 = (if rc = 1 then (permindex_mark_dirty db5 k)\<lparr>db_full_reeval_pending := True\<rparr> else db5) in
        Some (1, db6\<lparr>db_fixpoint_dirty := True\<rparr>, dk) }) (delete_done well t p ev dir k a dk0 db0 r0)"
proof (rule returns_bind [OF logged_delete [OF assms(2,4,3)]], elim case_prodE conjE, hypsubst, unfold prod.case)
  fix rc db5
  assume rc: "rc = 1 \<or> rc = 0 \<or> rc = (-1::int)" and fine: "all_goes_well ev \<longrightarrow> rc \<noteq> -1"
    and one: "rc = 1 \<longrightarrow> wrote (delete_outcome (ev_en ev) (dk_files dk0) r0 t 1) True p ev dir k a dk0 db0 r0 dk (permindex_mark_dirty db5 k)"
    and zero: "rc = 0 \<longrightarrow> wrote (delete_outcome (ev_en ev) (dk_files dk0) r0 t 0) True p ev dir k a dk0 db0 r0 dk db5 \<and>
      t \<notin> stored (ev_en ev) (dk_files dk0) r0"
    and bad: "rc = -1 \<longrightarrow> wrote (delete_outcome (ev_en ev) (dk_files dk0) r0 t (-1)) False p ev dir k a dk0 db0 r0 dk db5"
  have "wrote (delete_outcome (ev_en ev) (dk_files dk0) r0 t 1) True p ev dir k a dk0 db0 r0 dk db5" if "rc = 0"
  proof -
    have z: "wrote (delete_outcome (ev_en ev) (dk_files dk0) r0 t 0) True p ev dir k a dk0 db0 r0 dk db5" "t \<notin> stored (ev_en ev) (dk_files dk0) r0"
      using zero that by simp_all
    then have "started ev dir k a dk0 db0 r0" by (auto simp: wrote_def)
    then have "rel_ok (ev_en ev) (dk_files dk0) r0" by (auto simp: started_def live_def dest: at_arity)
    then have "rel_is_idb r0" using edb_same z(2) assms(3) by (auto simp: stored_def rel_view_def)
    then have "delete_outcome (ev_en ev) (dk_files dk0) r0 t 1 r fs" if "delete_outcome (ev_en ev) (dk_files dk0) r0 t 0 r fs" for r fs
      using that z(2) assms(3) by (auto simp: delete_outcome_def)
    then show ?thesis using z(1) unfolding wrote_def by blast
  qed
  then show "returns (if rc < 0 then Some (-1, db5, dk)
      else let db6 = (if rc = 1 then (permindex_mark_dirty db5 k)\<lparr>db_full_reeval_pending := True\<rparr> else db5) in
        Some (1, db6\<lparr>db_fixpoint_dirty := True\<rparr>, dk)) (delete_done well t p ev dir k a dk0 db0 r0)"
    using rc one bad fine assms(1) by (auto simp: delete_done_def Let_def)
qed

lemma delete_variadic:
  assumes "live (ev_en ev) dir dk db" "engine_ok (ev_en ev)" "dafsa_create (ev_en ev) \<noteq> None" "entry_at db (findRel db name) = Some e"
    "re_kind e = RELK_VARIADIC" "db_rel_at_arity_ro db (findRel db name) (length t) = Some r"
  shows "returns (dl_delete_fact ev dk db name t) (delete_spec (can_write ev db name t) ev dir dk db (findRel db name) t)"
proof (cases "db_read_only db \<or> db_txn db \<noteq> None \<or> name = ''rev''")
  case True
  then have "\<not> can_write ev db name t" by (auto simp: can_write_def)
  then show ?thesis using assms(4,5) True refused(2) [OF assms(1)] by (auto simp: dl_delete_fact_def Let_def)
next
  case False
  let ?k = "findRel db name" and ?p = "slot_path dir e (length t) r"
  note en = ensure_open [OF assms(1,4-6)]
  have ne: "t \<noteq> []" using en(2) by auto
  have st: "started ev dir ?k (length t) dk db r" using assms(1-3,6) by (simp add: started_def)
  have well: "can_write ev db name t \<longrightarrow> all_goes_well ev" by (simp add: can_write_def)
  have "returns (dl_delete_fact ev dk db name t) (delete_done (can_write ev db name t) t ?p ev dir ?k (length t) dk db r)"
    using delete_chain [where K = "\<lambda>db4. do { (rc, db5) \<leftarrow> delete_at ev dk ?k t db4;
          if rc < 0 then Some (-1, db5, dk)
          else let db6 = (if rc = 1 then (permindex_mark_dirty db5 ?k)\<lparr>db_full_reeval_pending := True\<rparr> else db5) in
            Some (1, db6\<lparr>db_fixpoint_dirty := True\<rparr>, dk) }",
        OF well still_start [OF st] refl variadic_delete [OF well _ _ refl]] False assms(4,5) en(1,3) ne
    by (simp add: dl_delete_fact_def dlDeleteFactVariadic_def Let_def)
  then show ?thesis by (rule returns_mono) (rule delete_done_spec [OF st _ refl assms(4) refl])
qed

subsection \<open>Properties\<close>

text \<open>What the two operations need of a variadic relation: its variant of the arity is open. A declaration opens the
  variants whose files are there.\<close>

definition variant_open :: "dl_db \<Rightarrow> string \<Rightarrow> nat \<Rightarrow> bool" where
  "variant_open db name a \<longleftrightarrow> (\<forall>e. entry_at db (findRel db name) = Some e \<and> re_kind e = RELK_VARIADIC \<longrightarrow>
     db_rel_at_arity_ro db (findRel db name) a \<noteq> None)"

text \<open>A handle with one relation of arity 2 and one symbol, over an empty directory.\<close>

definition fact_env :: env where
  "fact_env = \<lparr>ev_en = trie_engine, ev_al = (\<lambda>_ _. True), ev_io = (\<lambda>_. all_ok), ev_crc = (\<lambda>_. 0), ev_pe = (\<lambda>_ _. []), ev_kinds = (\<lambda>_ _. 0)\<rparr>"

definition fact_db :: dl_db where
  "fact_db = one_rel_db\<lparr>db_ir := one_symbol\<lparr>ir_dirty := False\<rparr>,
     db_rels := [\<lparr>re_name = ''q'', re_kind = RELK_FIXED, re_arity = 2, re_rel = Some logged2, re_vrel = None\<rparr>]\<rparr>"

lemma fact_env [simp]: "ev_en fact_env = trie_engine" "ev_al fact_env = (\<lambda>_ _. True)"
  by (simp_all add: fact_env_def)

lemma fact_goes_well: "all_goes_well fact_env"
  using trie_writes by (simp add: all_goes_well_def writes_succeed_def generous_def) (simp add: trie_engine_def)

lemma fact_slot: "findRel fact_db ''q'' = 0"
  "db_rel_at_arity_ro fact_db k a = (if k = 0 \<and> a = 2 then Some logged2 else None)"
  "entry_at fact_db 0 = Some \<lparr>re_name = ''q'', re_kind = RELK_FIXED, re_arity = 2, re_rel = Some logged2, re_vrel = None\<rparr>"
  by (auto simp: fact_db_def one_rel_db_def findRel_def db_rel_at_arity_ro_def entry_at_def db_entry_variant_ro_def RELK_FIXED_def RELK_VARIADIC_def)

lemma logged2_durable: "durable trie_engine (\<lambda>_. None) p logged2" "rel_files logged2 = {}"
proof -
  have d: "rel_ok trie_engine (\<lambda>_. None) logged2" "log_ok logged2" "rel_base trie_engine (\<lambda>_. None) logged2 = {}"
    using logged2(1,4) by (simp_all add: durable_def no_files_def)
  moreover have "disk_tuples trie_engine (\<lambda>_. None) 2 (Some p) = {}" "disk_ok trie_engine (\<lambda>_. None) 2 (Some p)"
    by (simp_all add: disk_tuples_def disk_ok_def) (simp_all add: trie_engine_def)
  ultimately show "durable trie_engine (\<lambda>_. None) p logged2" using logged2 by (simp add: durable_def recovered_def)
  show "rel_files logged2 = {}" by (rule owned_no_files [OF d(1)]) (use fresh2_ok in \<open>simp add: logged2_def\<close>)
qed

lemma fact_live: "live trie_engine ''d'' no_disk fact_db"
proof -
  let ?fs = "\<lambda>_. None :: bytes option"
  have rel: "rel_ok trie_engine ?fs logged2" "log_ok logged2" using logged2_durable(1) [of "''d''"] by (simp_all add: durable_def)
  have fs: "dk_files no_disk = ?fs" by (simp add: no_disk_def)
  have db: "db_ok trie_engine ?fs fact_db"
    using rel(1) logged2(2) by (simp add: db_ok_def fact_db_def one_rel_db_def entry_ok_def MAX_RELS_def RELK_FIXED_def RELK_VARIADIC_def)
  have perms: "db_perms fact_db = []" and dir: "db_dir fact_db = Some ''d''" by (simp_all add: fact_db_def one_rel_db_def)
  have ap: "apart ''d'' fact_db" using logged2_durable(2) perms by (simp add: apart_def fact_slot)
  have "has_symbols [[97, 10]] (one_symbol\<lparr>ir_dirty := False\<rparr>)" "saved_ok (one_symbol\<lparr>ir_dirty := False\<rparr>) no_disk"
    using one_symbol_ok by (simp_all add: has_symbols_def saved_ok_def slot_ok_def)
  moreover have "ir_ok (one_symbol\<lparr>ir_dirty := False\<rparr>)"
    by (auto simp: ir_ok_def one_symbol_def empty_interner_def holds_str_def nth_Cons rows_ok_def Intern.cstr_def MAX_WORD_LEN_def
        split: nat.splits)
  ultimately have voc: "vocab_ok no_disk fact_db"
    using one_symbol_ok(2,4) by (auto simp: vocab_ok_def fact_db_def one_rel_db_def)
  have pend: "pend_ok fact_db"
    by (auto simp: pend_ok_def fact_db_def one_rel_db_def entry_at_def MAX_RELS_def split: if_splits)
  show ?thesis
    using db perms dir ap voc pend rel(2) by (simp add: live_def fs perms_fresh_def fact_slot)
qed

lemma fact_ready: "can_add fact_env fact_db ''q'' [1, 1]" "variant_open fact_db name a"
proof -
  have "vocab_clean fact_db" by (simp add: vocab_clean_def fact_db_def one_rel_db_def intern_is_dirty_def)
  moreover have "live_symbol (db_ir fact_db) 1"
    by (simp add: live_symbol_def fact_db_def one_symbol_def liveSymBound_def intern_str_of_def)
  moreover have "rel_overlay_count logged2 = 0" using logged2_durable(1) logged2(3) overlay_size unfolding durable_def by (metis card.empty)
  moreover have "\<not> db_read_only fact_db" "db_txn fact_db = None" by (simp_all add: fact_db_def one_rel_db_def)
  ultimately show "can_add fact_env fact_db ''q'' [1, 1]"
    using fact_goes_well by (simp add: can_add_def can_write_def fact_slot)
  have "re_kind e = RELK_FIXED" if "entry_at fact_db k = Some e" for k e
    using that by (auto simp: fact_db_def entry_at_def split: if_splits)
  then show "variant_open fact_db name a" by (auto simp: variant_open_def RELK_FIXED_def RELK_VARIADIC_def)
qed

text \<open>The row of the witnesses, added to the empty relation.\<close>

lemma fact_added:
  assumes "add_spec (can_add fact_env fact_db ''q'' [1, 1]) fact_env ''d'' no_disk fact_db 0 [1, 1] (rc, db, dk)"
  shows "rc = 1" "live trie_engine ''d'' dk db" "findRel db ''q'' = 0" "on_disk trie_engine ''d'' 0 2 dk db"
    "[1, 1] \<in> rel_facts trie_engine (dk_files dk) db 0" "[1, 1] \<in> rel_asserted trie_engine (dk_files dk) db 0"
    "can_write fact_env db ''q'' [1, 1]" "variant_open db ''q'' 2"
proof -
  have view: "rel_view trie_engine (\<lambda>_. None) logged2 = {}"
    using edb_same [of trie_engine "\<lambda>_. None" logged2] logged2_durable(1) logged2(3,4) fresh2_ok
    by (auto simp: rel_view_def durable_def no_files_def) (simp add: logged2_def rel_is_idb_def)
  have ok: "db_ok trie_engine (dk_files no_disk) fact_db" using fact_live by (simp add: live_def)
  have new: "[1, 1] \<notin> rel_facts trie_engine (dk_files no_disk) fact_db 0"
    using view by (simp add: facts_slots [OF ok] fact_slot) (simp add: no_disk_def)
  have edb: "\<not> is_head fact_db 0 2" using fresh2_ok by (simp add: is_head_def fact_slot) (simp add: logged2_def rel_is_idb_def)
  have env: "ev_en fact_env = trie_engine" by simp
  have two: "length [1, 1 :: u32] = 2" by simp
  note spec = assms [unfolded add_spec_def prod.case Let_def env two]
  have parts: "live trie_engine ''d'' dk db" "same_handle fact_db db" "rc \<noteq> -1" "(rc = 1) = ([1, 1] \<notin> rel_facts trie_engine (dk_files no_disk) fact_db 0)"
    "on_disk trie_engine ''d'' 0 2 no_disk fact_db \<Longrightarrow> on_disk trie_engine ''d'' 0 2 dk db"
    using spec fact_ready(1) edb by blast+
  show rc: "rc = 1" using parts(4) new by simp
  have row: "one_row trie_engine 0 [1, 1] (rc = 1 \<or> [1, 1] \<in> rel_facts trie_engine (dk_files no_disk) fact_db 0)
      (rc = 1 \<or> [1, 1] \<in> rel_asserted trie_engine (dk_files no_disk) fact_db 0) no_disk fact_db dk db"
    using spec by blast
  have "on_disk trie_engine ''d'' 0 2 no_disk fact_db"
    using logged2_durable(1) by (simp add: on_disk_def fact_slot) (simp add: no_disk_def)
  then show "on_disk trie_engine ''d'' 0 2 dk db" by (rule parts(5))
  show "live trie_engine ''d'' dk db" by (rule parts(1))
  show find: "findRel db ''q'' = 0" using parts(2) by (simp add: same_handle_def fact_slot)
  show "[1, 1] \<in> rel_facts trie_engine (dk_files dk) db 0" and as: "[1, 1] \<in> rel_asserted trie_engine (dk_files dk) db 0"
    using row rc by (simp_all add: one_row_def)
  have slot: "db_rel_at_arity_ro db 0 2 \<noteq> None" using as by (auto simp: rel_asserted_def numeral_2_eq_2)
  moreover have "\<not> db_read_only db" "db_txn db = None"
    using parts(2) by (simp_all add: same_handle_def) (simp_all add: fact_db_def one_rel_db_def)
  ultimately show "can_write fact_env db ''q'' [1, 1]" "variant_open db ''q'' 2"
    using fact_goes_well find by (simp_all add: can_write_def variant_open_def numeral_2_eq_2)
qed

text \<open>C3: adding a fact to a live handle (of a variadic relation: when the variant of its arity is open)
  returns, and the handle stays well formed and live and nothing changes but the
  one row. It answers 1 and the row is among the facts and asserted, or 0 and the row was there, or -1 and no reader of the
  handle sees a difference (the record may have reached the log, dl.zig:2355, so that nothing is said of the next open); outside of rule heads 1 is answered exactly when the row is new. (Of a row of a rule head that is only derived it is left open
  whether it counts as a duplicate.) It does not answer -1 when nothing stands in the way. What was durable before stays durable
  with the new row unless it answers -1, a compaction on the way included. The writes of files, the adds of the engine and the
  allocations of the database may fail at any point; two things are assumed of the engine's memory: the automaton of a
  valid file can be loaded, and an empty automaton can be created (\<open>engine_ok\<close>, \<open>dafsa_create\<close>).\<close>

theorem dl_add_fact_correct:
  assumes "engine_ok (ev_en ev)" "dafsa_create (ev_en ev) \<noteq> None" "live (ev_en ev) dir dk db" "variant_open db name (length t)"
  shows "\<exists>rc db' dk'. dl_add_fact ev dk db name t = Some (rc, db', dk') \<and>
    add_spec (can_add ev db name t) ev dir dk db (findRel db name) t (rc, db', dk')"
proof (cases "entry_at db (findRel db name)")
  case None
  then have "\<not> can_add ev db name t" by (simp add: can_add_def can_write_def db_rel_at_arity_ro_def)
  then show ?thesis using None refused(1) [OF assms(3)] by (simp add: dl_add_fact_def Let_def)
next
  case (Some e)
  have "returns (dl_add_fact ev dk db name t) (add_spec (can_add ev db name t) ev dir dk db (findRel db name) t)"
    using add_fixed [OF assms(3,1,2) Some] add_variadic [OF assms(3,1,2) Some] assms(4) Some by (auto simp: variant_open_def)
  then show ?thesis by (auto simp: returns_def)
qed

theorem dl_add_fact_correct_witness:
  "\<exists>db' dk'. dl_add_fact fact_env no_disk fact_db ''q'' [1, 1] = Some (1, db', dk') \<and> [1, 1] \<in> db_facts trie_engine (dk_files dk') db' ''q'' \<and>
     on_disk trie_engine ''d'' 0 2 dk' db'"
proof -
  have live: "live (ev_en fact_env) ''d'' no_disk fact_db" using fact_live by simp
  obtain rc db' dk' where r: "dl_add_fact fact_env no_disk fact_db ''q'' [1, 1] = Some (rc, db', dk')"
    "add_spec (can_add fact_env fact_db ''q'' [1, 1]) fact_env ''d'' no_disk fact_db 0 [1, 1] (rc, db', dk')"
    using dl_add_fact_correct [of fact_env "''d''" no_disk fact_db "''q''" "[1, 1]"] live fact_ready(2) trie_engine_ok trie_create_ne
    by (auto simp: fact_slot)
  show ?thesis using r(1) fact_added [OF r(2)] by (simp add: rel_facts_name)
qed

text \<open>C6: deleting a fact from a live handle (of a variadic relation: when the variant of its arity is open)
  returns, and the handle stays well formed and live and nothing changes but the
  one row. It answers 1 and the row, which was among the facts, is no longer asserted: it has left the facts, unless the relation
  is a rule head, where it stays until the next evaluation; or 0 and the row was not both among the facts and asserted; or -1 and
  nothing changed. Outside of rule heads 1 is answered exactly when the row was there; of a row of a rule head that is only
  derived it is left open whether the answer is 0 or 1. What was durable stays durable, without the row, unless it answers
  -1. Files, engine additions and allocations of the database may fail at any point; assumed is, as for adding, that the automaton
  of a valid file can be loaded and an empty automaton can be created.\<close>

theorem dl_delete_fact_correct:
  assumes "engine_ok (ev_en ev)" "dafsa_create (ev_en ev) \<noteq> None" "live (ev_en ev) dir dk db" "variant_open db name (length t)"
  shows "\<exists>rc db' dk'. dl_delete_fact ev dk db name t = Some (rc, db', dk') \<and>
    delete_spec (can_write ev db name t) ev dir dk db (findRel db name) t (rc, db', dk')"
proof (cases "entry_at db (findRel db name)")
  case None
  then have "\<not> can_write ev db name t" by (simp add: can_write_def db_rel_at_arity_ro_def)
  then show ?thesis using None refused(2) [OF assms(3)] by (simp add: dl_delete_fact_def Let_def)
next
  case (Some e)
  have "returns (dl_delete_fact ev dk db name t) (delete_spec (can_write ev db name t) ev dir dk db (findRel db name) t)"
    using delete_fixed [OF assms(3,1,2) Some] delete_variadic [OF assms(3,1,2) Some] assms(4) Some by (auto simp: variant_open_def)
  then show ?thesis by (auto simp: returns_def)
qed

text \<open>The row is deleted after it was added.\<close>

theorem dl_delete_fact_correct_witness:
  "\<exists>db dk db' dk'. dl_add_fact fact_env no_disk fact_db ''q'' [1, 1] = Some (1, db, dk) \<and>
     dl_delete_fact fact_env dk db ''q'' [1, 1] = Some (1, db', dk') \<and> [1, 1] \<notin> rel_asserted trie_engine (dk_files dk') db' 0 \<and>
     on_disk trie_engine ''d'' 0 2 dk' db'"
proof -
  have live: "live (ev_en fact_env) ''d'' no_disk fact_db" using fact_live by simp
  have e: "engine_ok (ev_en fact_env)" "dafsa_create (ev_en fact_env) \<noteq> None" using trie_engine_ok trie_create_ne by simp_all
  obtain rc0 db dk where a: "dl_add_fact fact_env no_disk fact_db ''q'' [1, 1] = Some (rc0, db, dk)"
    "add_spec (can_add fact_env fact_db ''q'' [1, 1]) fact_env ''d'' no_disk fact_db 0 [1, 1] (rc0, db, dk)"
    using add_fixed [OF live e, of "''q''" _ "[1, 1]"] fact_slot(1,3) by (auto simp: returns_def RELK_FIXED_def RELK_VARIADIC_def)
  note b = fact_added [OF a(2)]
  obtain rc db' dk' where d: "dl_delete_fact fact_env dk db ''q'' [1, 1] = Some (rc, db', dk')"
    "delete_spec (can_write fact_env db ''q'' [1, 1]) fact_env ''d'' dk db 0 [1, 1] (rc, db', dk')"
    using dl_delete_fact_correct [OF e, of "''d''" dk db "''q''" "[1, 1]"] b(2,3,8) by (auto simp: numeral_2_eq_2)
  have env: "ev_en fact_env = trie_engine" by simp
  note spec = d(2) [unfolded delete_spec_def prod.case Let_def env]
  have rc: "rc = 1" using spec b(5-7) by blast
  have row: "one_row trie_engine 0 [1, 1] ([1, 1] \<in> rel_facts trie_engine (dk_files dk) db 0 \<and> (rc = 1 \<longrightarrow> is_head db 0 (length [1, 1 :: u32])))
      ([1, 1] \<in> rel_asserted trie_engine (dk_files dk) db 0 \<and> rc \<noteq> 1) dk db dk' db'"
    and disk: "rc \<noteq> -1 \<and> on_disk trie_engine ''d'' 0 (length [1, 1 :: u32]) dk db \<longrightarrow> on_disk trie_engine ''d'' 0 (length [1, 1 :: u32]) dk' db'"
    using spec by blast+
  have "[1, 1] \<notin> rel_asserted trie_engine (dk_files dk') db' 0" using row rc by (simp add: one_row_def)
  moreover have "on_disk trie_engine ''d'' 0 2 dk' db'" using disk rc b(4) by (simp add: numeral_2_eq_2)
  moreover have "rc0 = 1" by (rule b(1))
  ultimately show ?thesis using a(1) d(1) rc by blast
qed

end
