(* ===== verification/Spec2Isabelle.thy ===== *)
theory Spec2Isabelle
  imports TermStore TxnWal RelationWal TypecheckSound VmSem Stratify InternFile FactsCorrect
begin

text \<open>
  A verification library for \<^verbatim>\<open>datalog-dafsa\<close>, a Datalog engine whose relations are stored in minimal acyclic
  automata (DAFSAs).  The headers \<^verbatim>\<open>src/*.h\<close> give the data types and the contracts; the code is
  \<^verbatim>\<open>zig/src/*.zig\<close>.  A definition that is translated from the code has the name of its function; a
  contract of a header is a predicate whose name ends in \<open>_spec\<close>.

  \<^bold>\<open>The program and its parts.\<close>  A handle (\<^verbatim>\<open>dl_db\<close>) owns a table of relations.  A fact is a row of one to eight
  32-bit columns, encoded as a key of fixed width; a relation keeps its keys in a view automaton, for a
  rule head also in a base automaton, and in a small sorted-array overlay that takes the writes between two
  consolidations.  Its base is saved to a file and its writes go to a log.  Strings are symbols, lists
  are handles into a store of hash-consed cells.  Rules are parsed, checked against a schema,
  stratified, compiled to bytecode and interpreted; publishing writes the relations to an immutable
  snapshot that readers map.  Transactions write a log of their own before they are applied.

  \<^bold>\<open>Theories, bottom up.\<close>

  \<^item> \<open>Prelude\<close>: machine integers, rows, the allocator, rewriting collections, facts on lists and words.
  \<^item> \<open>Probe\<close>: open addressing with linear probing, as the code has it three times; the locale
    \<open>linear_probing\<close> proves lookup after insert and rebuild once, and is interpreted by the row table of a
    tuple set, the cell table of the term store and the group table of an aggregate.
  \<^item> \<open>HeapSort\<close>: the in-place heapsort of \<^verbatim>\<open>tupleset.zig\<close>; the locale \<open>heap_order\<close> is
    interpreted by the row order on \<open>n\<close> columns.
  \<^item> \<open>TupleSet\<close> (\<^verbatim>\<open>tupleset.h\<close>, \<^verbatim>\<open>tupleset.zig\<close>): the array of distinct rows with its hash table.  The invariant
    \<open>ts_inv\<close> says that the table indexes exactly the rows; every operation keeps it and meets its contract,
    under any answers of the allocator.
  \<^item> \<open>Posix\<close> (\<^verbatim>\<open>util.h\<close>, \<^verbatim>\<open>util.zig\<close>): files, directories and calls that may fail; atomic replacement of a
    file.  \<open>TextScan\<close>: the line reader and number scanner.
  \<^item> \<open>TermStore\<close> (\<^verbatim>\<open>termstore.h\<close>, \<^verbatim>\<open>termstore.zig\<close>): cons cells, each at most once, so that after any history of
    conses and appends a handle denotes one list and equal lists have equal handles; append, length, save and load.
  \<^item> \<open>TxnWal\<close> (\<^verbatim>\<open>txnwal.h\<close>, \<^verbatim>\<open>txnwal.zig\<close>): the bytes of the transaction log, its validation, the committed
    prefix and replay; after a crash at any byte the log holds whole transactions only.  A record whose length does
    not fit the 32 bits in which the validator counts is the separate answer \<open>Overflow\<close>.
  \<^item> \<open>Intern\<close>, \<open>InternFile\<close> (\<^verbatim>\<open>intern.h\<close>, \<^verbatim>\<open>intern.zig\<close>): strings as symbols.  The array of strings is the truth, the
    automaton over them a cache that is grown, dropped or rebuilt and never changes an answer; the array is saved
    by appending to the file last written, as long as it is still that file, and otherwise as a whole; the hash that
    is taken while a file is loaded is the one a fresh save would have.
  \<^item> \<open>KeyCodec\<close>: rows as big-endian keys; keys order as rows.
  \<^item> \<open>Dafsa\<close> (\<^verbatim>\<open>dafsa_c.zig\<close>): the layout of an automaton and of a mapped view as the code reads it, the two
    prefix walks, and the record \<open>engine\<close> of the functions of the DAFSA library, which is not part of the
    repository.  \<open>engine_ok\<close> states their documented behaviour; \<open>TrieEngine\<close> builds an engine that has it, and
    the witnesses use it.
  \<^item> \<open>RelationState\<close>, \<open>RelationOps\<close>, \<open>RelationBulk\<close>, \<open>RelationOrder\<close>, \<open>RelationWal\<close> (\<^verbatim>\<open>relation.h\<close>,
    \<^verbatim>\<open>relation.zig\<close>): a relation, whose record \<open>relation\<close> has the code's fields (view and base automaton,
    mapped view, lazy loading, overlay, dirty marks, log).  \<open>rel_ok\<close> is its invariant, \<open>rel_view\<close> and \<open>rel_base\<close> the sets of
    rows it stands for.  Reads, writes, the overlay, bulk builds and the re-evaluation of a head, order
    statistics and ranges, saving, logging, replay and compaction refine operations on those sets.
  \<^item> \<open>VRelation\<close> (\<^verbatim>\<open>vrelation.h\<close>, \<^verbatim>\<open>vrelation.zig\<close>): a family of relations, one per arity.
  \<^item> \<open>Schema\<close>, \<open>Ast\<close>, \<open>Typecheck\<close>, \<open>TypecheckSound\<close> (\<^verbatim>\<open>schema.h\<close>, \<^verbatim>\<open>parser.h\<close>, \<^verbatim>\<open>typecheck.zig\<close>): column types, the
    syntax of rules, the typechecker, and a declarative typing that acceptance implies when equations between
    variables come after an atom that types them (and, for atoms typed independently of their order, is equivalent to).
  \<^item> \<open>Db\<close> (\<^verbatim>\<open>dl_internal.h\<close>, \<^verbatim>\<open>dl.zig\<close>): the handle, the relation table and the resolution of names, ids and arities.
  \<^item> \<open>Snapshot\<close> (\<^verbatim>\<open>snapshot.h\<close>, \<^verbatim>\<open>snapshot.zig\<close>): the manifest, the cache of mapped files, queries of a version.
  \<^item> \<open>Query\<close> (\<^verbatim>\<open>dl.h\<close>, \<^verbatim>\<open>dl.zig\<close>): the read operations of the public interface.
  \<^item> \<open>PermIndex\<close> (\<^verbatim>\<open>permindex.h\<close>, \<^verbatim>\<open>permindex.zig\<close>): copies of a relation with permuted columns, declared, marked
    stale and rebuilt.
  \<^item> \<open>Bytecode\<close>, \<open>Aggregate\<close>, \<open>Vm\<close> (\<^verbatim>\<open>compiler.h\<close>, \<^verbatim>\<open>vm.h\<close>, \<^verbatim>\<open>vm.zig\<close>): instructions, the accumulator of an aggregate,
    and the interpreter \<open>execRule\<close> with its bindings, its stack of frames, backtracking and materialised
    sub-ranges.  \<open>nested_rule\<close> evaluates the same code as nested loops and is proved equal to it.
  \<^item> \<open>VmSem\<close>: what a rule means, as valuations that satisfy its instructions over the facts, and that a dry
    run hands out exactly the tuples it derives.
  \<^item> \<open>Scc\<close>, \<open>Stratify\<close> (\<^verbatim>\<open>compiler.zig\<close>): Kosaraju's components with the code's two explicit stacks,
    and the stratifier, which accepts exactly the programs without a negated edge on a cycle.

  \<^item> \<open>Declare\<close> (\<^verbatim>\<open>dl.h\<close>, \<^verbatim>\<open>dl.zig\<close>): paths, the files of variants, \<^verbatim>\<open>rels.txt\<close> as it is written, and the
    declaration of relations.  \<open>catalogue_ok\<close> is what every declaration keeps; from it no two relations whose names
    have 1 to 252 characters share a file of the same ending.
  \<^item> \<open>Facts\<close>, \<open>FactsSpec\<close>, \<open>FactsSteps\<close>, \<open>FactsCorrect\<close> (\<^verbatim>\<open>dl.h\<close>, \<^verbatim>\<open>dl.zig\<close>): \<open>dl_add_fact\<close> and \<open>dl_delete_fact\<close>
    from the check of column kinds to the throttled compaction.  The record \<open>env\<close> holds what is outside the program
    (engine, allocator, answers of the system calls, checksum, the constant-kind check of the compiler).  \<open>live\<close> is the
    invariant of the whole handle; \<open>rel_facts\<close> are the rows a reader sees, \<open>rel_asserted\<close> those that are
    asserted and not derived, and \<open>on_disk\<close> says that opening the files again gives the asserted rows.  \<open>FactsSpec\<close> has
    the frame of a write to one relation, \<open>FactsSteps\<close> one lemma per call of the chain, and \<open>FactsCorrect\<close> runs the
    chains with the predicates \<open>still\<close> (nothing written), \<open>logged\<close> and \<open>wrote\<close>.  A variadic relation has the variant
    open (\<open>variant_open\<close>), as it has after a declaration that found its files or a first successful use.

  \<^bold>\<open>How the state corresponds.\<close>  Structures are records with the source's fields under a short prefix
  (\<open>ts_\<close>, \<open>r_\<close>, \<open>db_\<close>, \<open>cx_\<close>); a pointer that may be null is an option; a function that changes its argument
  returns it changed, and one that may fail returns the code's integer.  \<open>None\<close> as the whole answer of a function stands for
  a panic or a loop that does not end, so a theorem that states \<open>\<exists>r. f x = Some r\<close> says that neither happens.
  An allocator is a function from a label of the call and a size to whether it succeeds: every theorem
  that does not assume \<open>generous\<close> holds for any pattern of failures.  Callbacks are functions that thread the
  caller's state and answer whether to stop.

  \<^bold>\<open>What is assumed.\<close>  The theorems about relations have two hypotheses on the DAFSA library: \<open>engine_ok\<close>, of which
  one part is that the file of an automaton loads as its content says, and that an empty automaton can be
  created (\<open>dafsa_create\<close>).  Together they are memory for the automata.  Without it the code takes a file that does not
  load for an empty relation, which a compaction can then write back (\<^verbatim>\<open>relation.zig:1896\<close>), or is left with no automaton and panics
  at the next read (\<^verbatim>\<open>relation.zig:304\<close>); the theorems say nothing of that.  Additions of the engine may fail unless
  \<open>adds_succeed\<close> is assumed, system calls and the program's own allocations may fail unless a theorem says otherwise.

  \<^bold>\<open>Where header and code differ.\<close>  A contract states what both say and leaves the rest open: the callback that stops an
  enumeration over several variants, or over rows that are still pending in the overlay, is the case
  \<open>takes_all\<close> excludes; \<open>writable_spec\<close> does not say whether an open compacts; \<open>declare_spec\<close> leaves open what a
  duplicate answers when the table is full; the bounded statistics are compared with the unbounded ones
  under \<open>bound_mirrors\<close>; \<open>add_spec\<close> and \<open>delete_spec\<close> leave open the answer for a row of a rule head that is derived and not
  asserted.  The manifest of the library lists each difference with its line.

  \<^bold>\<open>Bounds and fuel.\<close>  Probing loops take the capacity of the table as fuel, and the tables always have an empty
  slot, so the fuel is enough.  The enumeration of an automaton
  goes at most \<open>MAX_KEY_LEN\<close> bytes deep, as the code's does, and no key of eight columns is longer.
  The table sizes at which 32-bit counters would wrap appear as the hypotheses \<open>< 2 ^ 29\<close> and similar.
  The interpreter is a \<open>partial_function\<close>; its equality with the nested loops, which recurse on the
  distance to the end of the code, says that it ends whenever the operations it calls do.  The stratifier's limit of 10000 rounds is the code's own, and \<open>strata_rounds_end\<close> says that
  it is never the reason to stop.

  \<^bold>\<open>Not modelled.\<close>  The DAFSA library and the CRC (a submodule, parameters here).  The lexer and parser, the emission of
  bytecode with its join ordering, the fixpoint drivers \<^verbatim>\<open>vm_execute\<close> and the incremental maintenance, the
  well-founded semantics, the regular-expression and Levenshtein automata, the search index, the
  writing of a snapshot, \<^verbatim>\<open>dl_open\<close> and \<^verbatim>\<open>dl_close\<close>, CSV loading, revisions and the buffer of a transaction, the file locks, the iterators and the command line are listed in the manifest
  with the reason for each; the instructions for walks, ranges and strings are a parameter of the interpreter
  (\<open>cx_other\<close>).  Releasing memory has no state to model.
\<close>

end
